(* ===== verification/Prelude.thy ===== *)
theory Prelude
  imports Main "HOL-Library.Word"
begin

unbundle bit_operations_syntax

text \<open>
  Shared vocabulary of the development: names for the fixed-width integer types of the C
  sources, the result type of code that can end in \<^verbatim>\<open>panic()\<close>, 64-bit wrap-around on natural
  numbers, and the small generic lemmas on lists and cardinalities the components reuse.

  Conventions. A C \<^verbatim>\<open>uintN_t\<close> whose wrap-around or bit pattern matters is an \<open>N word\<close>.
  Sizes, page numbers and addresses that the code keeps below \<open>2 ^ 64\<close> are natural numbers, with
  \<open>wrap64\<close> written where the C expression can wrap.  A C \<^verbatim>\<open>int32_t\<close> coordinate is an \<open>int\<close>;
  a conversion from \<^verbatim>\<open>uint32_t\<close> is \<open>sint\<close>.  \<^verbatim>\<open>panic(msg)\<close>, which never returns, is the
  value \<open>Inl msg\<close>.
\<close>

type_synonym u8 = "8 word"
type_synonym u16 = "16 word"
type_synonym u32 = "32 word"
type_synonym u64 = "64 word"
type_synonym 'a result = "string + 'a"

named_theorems state_simps \<open>how an operation changes each component of its state\<close>
named_theorems inv_intros \<open>an operation keeps the invariant of its component\<close>

definition wrap64 :: "nat \<Rightarrow> nat" where
  "wrap64 n = n mod 2 ^ 64"

lemma wrap64_small [simp]: "n < 2 ^ 64 \<Longrightarrow> wrap64 n = n"
  by (simp add: wrap64_def)

lemma wrap64_bound: "wrap64 n < 2 ^ 64"
  by (simp add: wrap64_def)

definition sub64 :: "nat \<Rightarrow> nat \<Rightarrow> nat" where
  "sub64 a b = wrap64 (a + 2 ^ 64 - b)"

lemma sub64_small [simp]: "b \<le> a \<Longrightarrow> a < 2 ^ 64 \<Longrightarrow> sub64 a b = a - b"
  by (simp add: sub64_def wrap64_def mod_if)

text \<open>A \<^verbatim>\<open>uint32_t\<close> below \<open>2 ^ 31\<close> keeps its value as an \<^verbatim>\<open>int32_t\<close>.\<close>

lemma sint_small: "unat (w :: u32) < 2 ^ 31 \<Longrightarrow> sint w = int (unat w)"
proof -
  assume "unat w < 2 ^ 31"
  then have "int (unat w) < int (2 ^ 31)" by (simp only: of_nat_less_iff)
  then have "uint w < 2 ^ 31" by simp
  moreover have "- (2 ^ 31) \<le> uint w" by (rule order_trans [of _ 0]) simp_all
  ultimately have "signed_take_bit 31 (uint w) = uint w" by (intro signed_take_bit_int_eq_self)
  then show ?thesis by (simp add: sint_uint)
qed

text \<open>An \<^verbatim>\<open>int32_t\<close> and an \<^verbatim>\<open>int64_t\<close> from the exact value.\<close>

definition i32 :: "int \<Rightarrow> int" where
  "i32 x = (x + 2 ^ 31) mod 2 ^ 32 - 2 ^ 31"

lemma i32_id [simp]: "- (2 ^ 31) \<le> x \<Longrightarrow> x < 2 ^ 31 \<Longrightarrow> i32 x = x"
  by (simp add: i32_def)

lemma i32_range: "- (2 ^ 31) \<le> i32 x" "i32 x < 2 ^ 31"
  using pos_mod_bound [of "2 ^ 32" "x + 2 ^ 31"] pos_mod_sign [of "2 ^ 32" "x + 2 ^ 31"] by (simp_all add: i32_def)

definition i64 :: "int \<Rightarrow> int" where
  "i64 x = (x + 2 ^ 63) mod 2 ^ 64 - 2 ^ 63"

lemma i64_id [simp]: "- (2 ^ 63) \<le> x \<Longrightarrow> x < 2 ^ 63 \<Longrightarrow> i64 x = x"
  by (simp add: i64_def)

text \<open>The least index of a half-open range that satisfies a predicate, as a C scan finds it.\<close>

function scan :: "(nat \<Rightarrow> bool) \<Rightarrow> nat \<Rightarrow> nat \<Rightarrow> nat option" where
  "scan p i hi = (if i < hi then (if p i then Some i else scan p (Suc i) hi) else None)"
  by pat_completeness auto
termination
  by (relation "measure (\<lambda>(p, i, hi). hi - i)") auto

declare scan.simps [simp del]

lemma scan_Some:
  "scan p i hi = Some k \<Longrightarrow> i \<le> k \<and> k < hi \<and> p k \<and> (\<forall>j. i \<le> j \<and> j < k \<longrightarrow> \<not> p j)"
proof (induction p i hi rule: scan.induct)
  case (1 p i hi)
  show ?case
  proof (cases "i < hi \<and> \<not> p i")
    case True
    with "1.prems" have "scan p (Suc i) hi = Some k" by (simp add: scan.simps [of p i hi])
    with "1.IH" True have "Suc i \<le> k \<and> k < hi \<and> p k \<and> (\<forall>j. Suc i \<le> j \<and> j < k \<longrightarrow> \<not> p j)"
      by simp
    with True show ?thesis by (metis Suc_leI Suc_le_lessD le_neq_implies_less less_imp_le)
  next
    case False
    with "1.prems" show ?thesis by (auto simp: scan.simps [of p i hi] split: if_splits)
  qed
qed

lemma scan_None: "scan p i hi = None \<longleftrightarrow> (\<forall>j. i \<le> j \<and> j < hi \<longrightarrow> \<not> p j)"
proof (induction p i hi rule: scan.induct)
  case (1 p i hi)
  show ?case
  proof (cases "i < hi \<and> \<not> p i")
    case True
    then have "scan p i hi = None \<longleftrightarrow> (\<forall>j. Suc i \<le> j \<and> j < hi \<longrightarrow> \<not> p j)"
      using "1.IH" by (simp add: scan.simps [of p i hi])
    also have "\<dots> \<longleftrightarrow> (\<forall>j. i \<le> j \<and> j < hi \<longrightarrow> \<not> p j)"
      using True by (metis Suc_leI le_neq_implies_less less_imp_le Suc_le_lessD)
    finally show ?thesis .
  next
    case False
    then show ?thesis by (auto simp: scan.simps [of p i hi])
  qed
qed

lemma scan_first:
  assumes "i \<le> k" "k < hi" "p k" "\<And>j. i \<le> j \<Longrightarrow> j < k \<Longrightarrow> \<not> p j"
  shows "scan p i hi = Some k"
proof (cases "scan p i hi")
  case None
  with assms show ?thesis by (auto simp: scan_None)
next
  case (Some m)
  from scan_Some [OF Some] assms have "m = k"
    by (metis linorder_neqE_nat)
  with Some show ?thesis by simp
qed

text \<open>Counting the marked indices below a bound, under one change of a mark.\<close>

lemma card_mark_set:
  assumes "i < n" "\<not> P i" "\<And>j. Q j \<longleftrightarrow> P j \<or> j = i"
  shows "card {j. j < n \<and> Q j} = Suc (card {j. j < (n::nat) \<and> P j})"
proof -
  have "{j. j < n \<and> Q j} = insert i {j. j < n \<and> P j}" using assms by auto
  then show ?thesis using assms by simp
qed

lemma card_mark_clear:
  assumes "i < n" "P i" "\<And>j. Q j \<longleftrightarrow> P j \<and> j \<noteq> i"
  shows "card {j. j < (n::nat) \<and> P j} = Suc (card {j. j < n \<and> Q j})"
proof -
  have "{j. j < n \<and> P j} = insert i {j. j < n \<and> Q j}" using assms by auto
  then show ?thesis using assms by simp
qed

lemma card_below_le: "card {j. j < n \<and> P j} \<le> (n::nat)"
  using card_mono [of "{..<n}" "{j. j < n \<and> P j}"] by auto

end
