(* ===== verification/PhysMem.thy ===== *)
theory PhysMem
  imports Prelude
begin

text \<open>
  Physical memory.  The kernel reaches every physical byte through the higher-half direct map
  (virtual address = physical address + HHDM offset), so one byte-addressed store stands for
  all of it: the frame bitmap of the physical allocator, the page tables and the zeroed frames
  live in the same store and can overlap, as they can in the machine.  \<open>read64\<close> and
  \<open>write64\<close> are the little-endian 64-bit accesses the page-table code compiles to.
\<close>

type_synonym ram = "nat \<Rightarrow> u8"

definition fill_range :: "ram \<Rightarrow> nat \<Rightarrow> nat \<Rightarrow> u8 \<Rightarrow> ram" where
  "fill_range m a n v = (\<lambda>x. if a \<le> x \<and> x < a + n then v else m x)"

definition read64 :: "ram \<Rightarrow> nat \<Rightarrow> u64" where
  "read64 m a =
     ucast (m a) OR push_bit 8 (ucast (m (a + 1))) OR push_bit 16 (ucast (m (a + 2)))
     OR push_bit 24 (ucast (m (a + 3))) OR push_bit 32 (ucast (m (a + 4)))
     OR push_bit 40 (ucast (m (a + 5))) OR push_bit 48 (ucast (m (a + 6)))
     OR push_bit 56 (ucast (m (a + 7)))"

definition write64 :: "ram \<Rightarrow> nat \<Rightarrow> u64 \<Rightarrow> ram" where
  "write64 m a v =
     (\<lambda>x. if a \<le> x \<and> x < a + 8 then ucast (drop_bit (8 * (x - a)) v) else m x)"

lemma fill_range_in [simp]: "a \<le> x \<Longrightarrow> x < a + n \<Longrightarrow> fill_range m a n v x = v"
  by (simp add: fill_range_def)

lemma fill_range_out [simp]: "x < a \<or> a + n \<le> x \<Longrightarrow> fill_range m a n v x = m x"
  by (auto simp: fill_range_def)

lemma write64_out [simp]: "x < a \<or> a + 8 \<le> x \<Longrightarrow> write64 m a v x = m x"
  by (auto simp: write64_def)

lemma read64_cong:
  "(\<And>x. a \<le> x \<Longrightarrow> x < a + 8 \<Longrightarrow> m x = m' x) \<Longrightarrow> read64 m a = read64 m' a"
  by (simp add: read64_def)

lemma read64_write64_same [simp]: "read64 (write64 m a v) a = v"
proof (rule bit_word_eqI)
  fix n :: nat
  assume n: "n < LENGTH(64)"
  then consider "n < 8" | "8 \<le> n \<and> n < 16" | "16 \<le> n \<and> n < 24" | "24 \<le> n \<and> n < 32"
    | "32 \<le> n \<and> n < 40" | "40 \<le> n \<and> n < 48" | "48 \<le> n \<and> n < 56" | "56 \<le> n \<and> n < 64"
    by fastforce
  then show "bit (read64 (write64 m a v) a) n \<longleftrightarrow> bit v n"
    by cases (auto simp: read64_def write64_def bit_simps)
qed

lemma read64_write64_other [simp]:
  "a + 8 \<le> b \<or> b + 8 \<le> a \<Longrightarrow> read64 (write64 m a v) b = read64 m b"
  by (rule read64_cong) auto

lemma read64_zeroed: "a \<le> b \<Longrightarrow> b + 8 \<le> a + n \<Longrightarrow> read64 (fill_range m a n 0) b = 0"
  by (simp add: read64_def)

lemma read64_fill_other [simp]:
  "b + 8 \<le> a \<or> a + n \<le> b \<Longrightarrow> read64 (fill_range m a n v) b = read64 m b"
  by (rule read64_cong) auto

end
