(* ===== verification/Pmm.thy ===== *)
theory Pmm
  imports PhysMem
begin

unbundle bit_operations_syntax

text \<open>
  The physical frame allocator, \<^verbatim>\<open>src/src/mm/pmm.c\<close>.  The record holds the file's static
  variables and the physical memory; the bitmap is not a separate object but the bytes of
  physical memory from \<open>bitmap_phys_base\<close> on, so that zeroing a frame could destroy it.  The
  invariant \<open>pmm_inv\<close> says the bitmap's own frames stay marked, which is why it never does.
  The Limine memory map is an argument; its documented guarantees are \<open>memmap_ok\<close>.
\<close>

subsection \<open>State and bit operations\<close>

abbreviation PMM_PAGE_SIZE :: nat where
  "PMM_PAGE_SIZE \<equiv> 4096"

datatype memmap_type =
  LIMINE_MEMMAP_USABLE | LIMINE_MEMMAP_BOOTLOADER_RECLAIMABLE
| LIMINE_MEMMAP_ACPI_RECLAIMABLE | LIMINE_MEMMAP_ACPI_NVS | LIMINE_MEMMAP_OTHER

record memmap_entry =
  me_base :: nat
  me_length :: nat
  me_type :: memmap_type

record pmm =
  total_pages :: nat
  used_pages :: nat
  bitmap_size :: nat
  bitmap_phys_base :: nat
  bitmap_pages :: nat
  alloc_hint :: nat
  ram :: ram

definition bit_set :: "nat \<Rightarrow> pmm \<Rightarrow> pmm" where
  "bit_set idx s =
     (let a = bitmap_phys_base s + idx div 8
      in s\<lparr>ram := (ram s)(a := ram s a OR push_bit (idx mod 8) 1)\<rparr>)"

definition bit_clear :: "nat \<Rightarrow> pmm \<Rightarrow> pmm" where
  "bit_clear idx s =
     (let a = bitmap_phys_base s + idx div 8
      in s\<lparr>ram := (ram s)(a := ram s a AND NOT (push_bit (idx mod 8) 1))\<rparr>)"

definition bit_get :: "pmm \<Rightarrow> nat \<Rightarrow> bool" where
  "bit_get s idx =
     (drop_bit (idx mod 8) (ram s (bitmap_phys_base s + idx div 8)) AND 1 = (1 :: u8))"

subsection \<open>Initialisation from the boot memory map\<close>

definition entry_end :: "memmap_entry \<Rightarrow> nat" where
  "entry_end e = wrap64 (me_base e + me_length e)"

definition is_ram :: "memmap_entry \<Rightarrow> bool" where
  "is_ram e \<longleftrightarrow> me_type e = LIMINE_MEMMAP_USABLE
     \<or> me_type e = LIMINE_MEMMAP_BOOTLOADER_RECLAIMABLE
     \<or> me_type e = LIMINE_MEMMAP_ACPI_RECLAIMABLE
     \<or> me_type e = LIMINE_MEMMAP_ACPI_NVS"

fun max_phys_of :: "memmap_entry list \<Rightarrow> nat \<Rightarrow> nat" where
  "max_phys_of [] max_phys = max_phys"
| "max_phys_of (e # es) max_phys =
     max_phys_of es (if is_ram e \<and> entry_end e > max_phys then entry_end e else max_phys)"

fun find_bitmap_base :: "memmap_entry list \<Rightarrow> nat \<Rightarrow> nat" where
  "find_bitmap_base [] need = 0"
| "find_bitmap_base (e # es) need =
     (if me_type e = LIMINE_MEMMAP_USABLE \<and> me_length e \<ge> need then me_base e
      else find_bitmap_base es need)"

definition free_one :: "nat \<Rightarrow> pmm \<Rightarrow> pmm" where
  "free_one idx s =
     (if idx < total_pages s \<and> bit_get s idx
      then (bit_clear idx s)\<lparr>used_pages := used_pages s - 1\<rparr> else s)"

text \<open>The inner loop \<^verbatim>\<open>for (p = base; p < end; p += PMM_PAGE_SIZE)\<close>.  The increment wraps at
  64 bits, so the loop need not end; \<open>None\<close> is a loop that does not return.\<close>

partial_function (option) free_range :: "nat \<Rightarrow> nat \<Rightarrow> pmm \<Rightarrow> pmm option" where
  "free_range p end s =
     (if p < end
      then free_range (wrap64 (p + PMM_PAGE_SIZE)) end (free_one (p div PMM_PAGE_SIZE) s)
      else Some s)"

definition free_entry :: "memmap_entry \<Rightarrow> pmm \<Rightarrow> pmm option" where
  "free_entry e s =
     (if me_type e \<noteq> LIMINE_MEMMAP_USABLE then Some s
      else free_range
        (if me_base e = bitmap_phys_base s
         then wrap64 (me_base e + bitmap_pages s * PMM_PAGE_SIZE) else me_base e)
        (entry_end e) s)"

fun free_usable :: "memmap_entry list \<Rightarrow> pmm \<Rightarrow> pmm option" where
  "free_usable [] s = Some s"
| "free_usable (e # es) s =
     (case free_entry e s of None \<Rightarrow> None | Some s' \<Rightarrow> free_usable es s')"

definition pmm_layout :: "memmap_entry list \<Rightarrow> ram \<Rightarrow> pmm" where
  "pmm_layout es m =
     (let total = max_phys_of es 0 div PMM_PAGE_SIZE;
          bsize = (total + 7) div 8;
          bpages = (bsize + PMM_PAGE_SIZE - 1) div PMM_PAGE_SIZE;
          bbase = find_bitmap_base es (bpages * PMM_PAGE_SIZE)
      in \<lparr>total_pages = total, used_pages = total, bitmap_size = bsize,
          bitmap_phys_base = bbase, bitmap_pages = bpages, alloc_hint = 0,
          ram = fill_range m bbase bsize 255\<rparr>)"

definition pmm_init :: "memmap_entry list option \<Rightarrow> ram \<Rightarrow> pmm result option" where
  "pmm_init memmap m =
     (case memmap of
        None \<Rightarrow> Some (Inl ''pmm: no memmap from bootloader'')
      | Some es \<Rightarrow>
          (if bitmap_phys_base (pmm_layout es m) = 0
           then Some (Inl ''pmm: no USABLE region large enough for bitmap'')
           else map_option Inr (free_usable es (pmm_layout es m))))"

subsection \<open>Allocation and release\<close>

definition take_frame :: "nat \<Rightarrow> pmm \<Rightarrow> nat \<times> pmm" where
  "take_frame i s =
     (let s1 = (bit_set i s)\<lparr>used_pages := used_pages s + 1, alloc_hint := i + 1\<rparr>;
          phys = i * PMM_PAGE_SIZE
      in (phys, s1\<lparr>ram := fill_range (ram s1) phys PMM_PAGE_SIZE 0\<rparr>))"

definition pmm_alloc_page :: "pmm \<Rightarrow> (nat \<times> pmm) result" where
  "pmm_alloc_page s =
     (case scan (\<lambda>i. \<not> bit_get s i) (alloc_hint s) (total_pages s) of
        Some i \<Rightarrow> Inr (take_frame i s)
      | None \<Rightarrow>
          (case scan (\<lambda>i. \<not> bit_get s i) 0 (alloc_hint s) of
             Some i \<Rightarrow> Inr (take_frame i s)
           | None \<Rightarrow> Inl ''pmm: out of physical memory''))"

text \<open>The outer loop of \<^verbatim>\<open>pmm_alloc_contig\<close>: the inner scan looks for a used bit in the
  window; a hit at offset \<open>i\<close> moves the window past it.\<close>

function contig_search :: "pmm \<Rightarrow> nat \<Rightarrow> nat \<Rightarrow> nat option" where
  "contig_search s n start =
     (if start + n \<le> total_pages s
      then (case scan (\<lambda>i. bit_get s (start + i)) 0 n of
              Some i \<Rightarrow> contig_search s n (start + i + 1)
            | None \<Rightarrow> Some start)
      else None)"
  by pat_completeness auto
termination
  by (relation "measure (\<lambda>(s, n, start). Suc (total_pages s) - start)") auto

declare contig_search.simps [simp del]

definition pmm_alloc_contig :: "nat \<Rightarrow> pmm \<Rightarrow> nat \<times> pmm" where
  "pmm_alloc_contig n_pages s =
     (if n_pages = 0 \<or> n_pages > total_pages s then (0, s)
      else case contig_search s n_pages 0 of
        None \<Rightarrow> (0, s)
      | Some start \<Rightarrow>
          (let s1 = fold (\<lambda>j. bit_set (start + j)) [0..<n_pages] s;
               s2 = s1\<lparr>used_pages := used_pages s1 + n_pages\<rparr>;
               phys = start * PMM_PAGE_SIZE
           in (phys, s2\<lparr>ram := fill_range (ram s2) phys (n_pages * PMM_PAGE_SIZE) 0\<rparr>)))"

definition pmm_free_page :: "nat \<Rightarrow> pmm \<Rightarrow> pmm" where
  "pmm_free_page phys s =
     (let idx = phys div PMM_PAGE_SIZE
      in if idx \<ge> total_pages s then s
         else if \<not> bit_get s idx then s
         else (let s1 = (bit_clear idx s)\<lparr>used_pages := used_pages s - 1\<rparr>
               in if idx < alloc_hint s then s1\<lparr>alloc_hint := idx\<rparr> else s1))"

definition pmm_stats :: "pmm \<Rightarrow> nat \<times> nat" where
  "pmm_stats s = (total_pages s, used_pages s)"

subsection \<open>Invariant and abstraction\<close>

text \<open>The abstract state of the allocator: the set of frame numbers in use.\<close>

definition used_frames :: "pmm \<Rightarrow> nat set" where
  "used_frames s = {i. i < total_pages s \<and> bit_get s i}"

definition bitmap_frames :: "pmm \<Rightarrow> nat set" where
  "bitmap_frames s =
     {bitmap_phys_base s div PMM_PAGE_SIZE ..< bitmap_phys_base s div PMM_PAGE_SIZE + bitmap_pages s}"

definition geom_ok :: "pmm \<Rightarrow> bool" where
  "geom_ok s \<longleftrightarrow>
     total_pages s \<le> 2 ^ 52
   \<and> bitmap_size s = (total_pages s + 7) div 8
   \<and> bitmap_pages s = (bitmap_size s + PMM_PAGE_SIZE - 1) div PMM_PAGE_SIZE
   \<and> bitmap_phys_base s mod PMM_PAGE_SIZE = 0"

definition pmm_inv :: "pmm \<Rightarrow> bool" where
  "pmm_inv s \<longleftrightarrow>
     geom_ok s
   \<and> bitmap_frames s \<subseteq> used_frames s
   \<and> used_pages s = card (used_frames s)
   \<and> alloc_hint s \<le> total_pages s"

definition frame_bytes :: "nat \<Rightarrow> nat set" where
  "frame_bytes i = {i * PMM_PAGE_SIZE ..< i * PMM_PAGE_SIZE + PMM_PAGE_SIZE}"

definition bitmap_bytes :: "pmm \<Rightarrow> nat set" where
  "bitmap_bytes s = {bitmap_phys_base s ..< bitmap_phys_base s + bitmap_size s}"

text \<open>What the Limine protocol documents about the memory map: usable entries are page-aligned,
  in ascending order and do not overlap anything usable, and no entry reaches the last page of
  the address space.\<close>

definition memmap_ok :: "memmap_entry list \<Rightarrow> bool" where
  "memmap_ok es \<longleftrightarrow>
     (\<forall>e \<in> set es. me_base e + me_length e \<le> 2 ^ 64 - PMM_PAGE_SIZE
        \<and> (me_type e = LIMINE_MEMMAP_USABLE \<longrightarrow>
             me_base e mod PMM_PAGE_SIZE = 0 \<and> me_length e mod PMM_PAGE_SIZE = 0))
   \<and> sorted_wrt (\<lambda>a b. me_type a = LIMINE_MEMMAP_USABLE \<and> me_type b = LIMINE_MEMMAP_USABLE
        \<longrightarrow> me_base a + me_length a \<le> me_base b) es"

definition usable_frames :: "memmap_entry list \<Rightarrow> nat set" where
  "usable_frames es =
     (\<Union>e \<in> {e \<in> set es. me_type e = LIMINE_MEMMAP_USABLE}.
        {me_base e div PMM_PAGE_SIZE ..< (me_base e + me_length e) div PMM_PAGE_SIZE})"

text \<open>Clients of the allocator: the set of frames handed out and not yet returned.  A client
  returns only frames it owns.\<close>

inductive pmm_step :: "pmm \<times> nat set \<Rightarrow> pmm \<times> nat set \<Rightarrow> bool" where
  step_page: "pmm_alloc_page s = Inr (p, s') \<Longrightarrow>
     pmm_step (s, own) (s', insert (p div PMM_PAGE_SIZE) own)"
| step_contig: "n > 0 \<Longrightarrow> pmm_alloc_contig n s = (p, s') \<Longrightarrow> p \<noteq> 0 \<Longrightarrow>
     pmm_step (s, own) (s', own \<union> {p div PMM_PAGE_SIZE ..< p div PMM_PAGE_SIZE + n})"
| step_free: "i \<in> own \<Longrightarrow> pmm_step (s, own) (pmm_free_page (i * PMM_PAGE_SIZE) s, own - {i})"

text \<open>A four-frame machine for the concrete instances: frame 1 holds the bitmap, whose byte
  marks frames 0 and 1.\<close>

definition example_pmm :: pmm where
  "example_pmm = \<lparr>total_pages = 4, used_pages = 2, bitmap_size = 1, bitmap_phys_base = 4096,
     bitmap_pages = 1, alloc_hint = 0, ram = (\<lambda>_. 0)(4096 := 3)\<rparr>"

definition example_memmap :: "memmap_entry list" where
  "example_memmap =
     [\<lparr>me_base = 4096, me_length = 8192, me_type = LIMINE_MEMMAP_USABLE\<rparr>,
      \<lparr>me_base = 12288, me_length = 4096, me_type = LIMINE_MEMMAP_ACPI_NVS\<rparr>]"

subsection \<open>Bit-level lemmas\<close>

lemma bit_get_iff: "bit_get s i \<longleftrightarrow> bit (ram s (bitmap_phys_base s + i div 8)) (i mod 8)"
proof -
  have "bit_get s i \<longleftrightarrow> odd (drop_bit (i mod 8) (ram s (bitmap_phys_base s + i div 8)))"
    by (simp add: bit_get_def and_one_eq odd_iff_mod_2_eq_one)
  then show ?thesis by (simp add: bit_iff_odd_drop_bit)
qed

lemma bit_set_fields [simp]:
  "total_pages (bit_set i s) = total_pages s" "used_pages (bit_set i s) = used_pages s"
  "bitmap_size (bit_set i s) = bitmap_size s" "bitmap_pages (bit_set i s) = bitmap_pages s"
  "bitmap_phys_base (bit_set i s) = bitmap_phys_base s" "alloc_hint (bit_set i s) = alloc_hint s"
  by (simp_all add: bit_set_def Let_def)

lemma bit_clear_fields [simp]:
  "total_pages (bit_clear i s) = total_pages s" "used_pages (bit_clear i s) = used_pages s"
  "bitmap_size (bit_clear i s) = bitmap_size s" "bitmap_pages (bit_clear i s) = bitmap_pages s"
  "bitmap_phys_base (bit_clear i s) = bitmap_phys_base s" "alloc_hint (bit_clear i s) = alloc_hint s"
  by (simp_all add: bit_clear_def Let_def)

lemma div_mod8_eq: "i div 8 = j div 8 \<and> i mod 8 = j mod 8 \<longleftrightarrow> i = (j::nat)"
  by (metis div_mult_mod_eq)

lemma bit_get_bit_set: "bit_get (bit_set i s) j \<longleftrightarrow> bit_get s j \<or> j = i"
  using div_mod8_eq [of i j]
  by (auto simp: bit_get_iff bit_set_def Let_def bit_simps)

lemma bit_get_bit_clear: "bit_get (bit_clear i s) j \<longleftrightarrow> bit_get s j \<and> j \<noteq> i"
  using div_mod8_eq [of i j]
  by (auto simp: bit_get_iff bit_clear_def Let_def bit_simps)

lemma bit_get_update [simp]:
  "bit_get (s\<lparr>used_pages := u\<rparr>) i = bit_get s i" "bit_get (s\<lparr>alloc_hint := h\<rparr>) i = bit_get s i"
  by (simp_all add: bit_get_iff)

lemma used_frames_update [simp]:
  "used_frames (s\<lparr>used_pages := u\<rparr>) = used_frames s" "used_frames (s\<lparr>alloc_hint := h\<rparr>) = used_frames s"
  by (simp_all add: used_frames_def)

lemma finite_used_frames [simp]: "finite (used_frames s)"
  by (simp add: used_frames_def)

lemma geom_update [simp]:
  "geom_ok (s\<lparr>used_pages := u\<rparr>) = geom_ok s" "geom_ok (s\<lparr>alloc_hint := h\<rparr>) = geom_ok s"
  "geom_ok (s\<lparr>ram := m\<rparr>) = geom_ok s"
  "geom_ok (bit_set i s) = geom_ok s" "geom_ok (bit_clear i s) = geom_ok s"
  by (simp_all add: geom_ok_def)

lemma bitmap_frames_update [simp]:
  "bitmap_frames (s\<lparr>used_pages := u\<rparr>) = bitmap_frames s"
  "bitmap_frames (s\<lparr>alloc_hint := h\<rparr>) = bitmap_frames s"
  "bitmap_frames (s\<lparr>ram := m\<rparr>) = bitmap_frames s"
  "bitmap_frames (bit_set i s) = bitmap_frames s" "bitmap_frames (bit_clear i s) = bitmap_frames s"
  by (simp_all add: bitmap_frames_def)

lemma used_frames_bit_set [simp]:
  "i < total_pages s \<Longrightarrow> used_frames (bit_set i s) = insert i (used_frames s)"
  by (auto simp: used_frames_def bit_get_bit_set)

lemma used_frames_bit_clear [simp]: "used_frames (bit_clear i s) = used_frames s - {i}"
  by (auto simp: used_frames_def bit_get_bit_clear)

text \<open>Every byte of the bitmap lies in one of the bitmap's own frames.\<close>

lemma bitmap_byte_frame:
  assumes "geom_ok s" "k < bitmap_size s"
  shows "(bitmap_phys_base s + k) div PMM_PAGE_SIZE \<in> bitmap_frames s"
proof -
  obtain q where q: "bitmap_phys_base s = q * PMM_PAGE_SIZE"
    using assms(1) by (metis geom_ok_def mod_0_imp_dvd dvd_div_mult_self)
  have "k div PMM_PAGE_SIZE < bitmap_pages s"
    using assms unfolding geom_ok_def by linarith
  moreover have "(bitmap_phys_base s + k) div PMM_PAGE_SIZE = q + k div PMM_PAGE_SIZE"
    by (simp add: q)
  ultimately show ?thesis by (simp add: bitmap_frames_def q)
qed

lemma bitmap_index_byte: "geom_ok s \<Longrightarrow> j < total_pages s \<Longrightarrow> j div 8 < bitmap_size s"
  unfolding geom_ok_def by linarith

text \<open>Zeroing frames that are not the bitmap's own leaves every mark in place.\<close>

lemma bit_get_zero_frames:
  assumes g: "geom_ok s" and j: "j < total_pages s"
    and out: "\<And>k. k < n \<Longrightarrow> start + k \<notin> bitmap_frames s"
  shows "bit_get (s\<lparr>ram := fill_range (ram s) (start * PMM_PAGE_SIZE) (n * PMM_PAGE_SIZE) 0\<rparr>) j
       = bit_get s j"
proof -
  let ?a = "bitmap_phys_base s + j div 8"
  have f: "?a div PMM_PAGE_SIZE \<in> bitmap_frames s"
    using g j by (intro bitmap_byte_frame bitmap_index_byte)
  have "\<not> (start * PMM_PAGE_SIZE \<le> ?a \<and> ?a < start * PMM_PAGE_SIZE + n * PMM_PAGE_SIZE)"
  proof
    assume a: "start * PMM_PAGE_SIZE \<le> ?a \<and> ?a < start * PMM_PAGE_SIZE + n * PMM_PAGE_SIZE"
    then have "start \<le> ?a div PMM_PAGE_SIZE" by (simp add: less_eq_div_iff_mult_less_eq)
    moreover have "?a div PMM_PAGE_SIZE < start + n"
      using a by (simp add: div_less_iff_less_mult algebra_simps)
    ultimately have "?a div PMM_PAGE_SIZE - start < n"
        and "start + (?a div PMM_PAGE_SIZE - start) = ?a div PMM_PAGE_SIZE" by auto
    with out f show False by metis
  qed
  then show ?thesis by (simp add: bit_get_iff not_le not_less)
qed

lemma used_frames_zero_frames:
  assumes "geom_ok s" "\<And>k. k < n \<Longrightarrow> start + k \<notin> bitmap_frames s"
  shows "used_frames (s\<lparr>ram := fill_range (ram s) (start * PMM_PAGE_SIZE) (n * PMM_PAGE_SIZE) 0\<rparr>)
       = used_frames s"
  using bit_get_zero_frames [OF assms(1) _ assms(2)] by (auto simp: used_frames_def)

subsection \<open>One frame at a time\<close>

lemma take_frame_simps:
  "fst (take_frame i s) = i * PMM_PAGE_SIZE"
  "total_pages (snd (take_frame i s)) = total_pages s"
  "used_pages (snd (take_frame i s)) = used_pages s + 1"
  "alloc_hint (snd (take_frame i s)) = i + 1"
  "bitmap_size (snd (take_frame i s)) = bitmap_size s"
  "bitmap_phys_base (snd (take_frame i s)) = bitmap_phys_base s"
  "bitmap_frames (snd (take_frame i s)) = bitmap_frames s"
  "geom_ok (snd (take_frame i s)) = geom_ok s"
  by (simp_all add: take_frame_def Let_def)

lemma take_frame_used:
  assumes "pmm_inv s" "i < total_pages s" "i \<notin> used_frames s"
  shows "used_frames (snd (take_frame i s)) = insert i (used_frames s)"
proof -
  let ?s1 = "(bit_set i s)\<lparr>used_pages := used_pages s + 1, alloc_hint := i + 1\<rparr>"
  have "i \<notin> bitmap_frames s" using assms by (auto simp: pmm_inv_def)
  then have "used_frames (?s1\<lparr>ram := fill_range (ram ?s1) (i * PMM_PAGE_SIZE) (1 * PMM_PAGE_SIZE) 0\<rparr>)
           = used_frames ?s1"
    using assms(1) by (intro used_frames_zero_frames) (auto simp: pmm_inv_def)
  then show ?thesis using assms(2) by (simp add: take_frame_def Let_def)
qed

lemma take_frame_inv [inv_intros]:
  assumes "pmm_inv s" "i < total_pages s" "i \<notin> used_frames s"
  shows "pmm_inv (snd (take_frame i s))"
  using assms take_frame_used [OF assms]
  by (auto simp: pmm_inv_def take_frame_simps)

lemma take_frame_ram:
  assumes "pmm_inv s" "i < total_pages s"
  shows "x \<in> frame_bytes i \<Longrightarrow> ram (snd (take_frame i s)) x = 0"
    and "x \<notin> frame_bytes i \<Longrightarrow> x \<notin> bitmap_bytes s \<Longrightarrow> ram (snd (take_frame i s)) x = ram s x"
proof -
  have b: "bitmap_phys_base s + i div 8 \<in> bitmap_bytes s"
    using bitmap_index_byte [of s i] assms by (simp add: bitmap_bytes_def pmm_inv_def)
  show "x \<in> frame_bytes i \<Longrightarrow> ram (snd (take_frame i s)) x = 0"
    by (simp add: take_frame_def Let_def frame_bytes_def)
  assume "x \<notin> frame_bytes i" "x \<notin> bitmap_bytes s"
  then show "ram (snd (take_frame i s)) x = ram s x"
    using b by (auto simp: take_frame_def Let_def frame_bytes_def bit_set_def fill_range_def)
qed

text \<open>The two scans together look at every frame.\<close>

lemma pmm_alloc_page_cases:
  assumes "pmm_inv s"
  shows "(\<exists>i. i < total_pages s \<and> i \<notin> used_frames s \<and> pmm_alloc_page s = Inr (take_frame i s))
       \<or> (used_frames s = {..<total_pages s} \<and>
          pmm_alloc_page s = Inl ''pmm: out of physical memory'')"
proof (cases "scan (\<lambda>i. \<not> bit_get s i) (alloc_hint s) (total_pages s)")
  case (Some i)
  from scan_Some [OF this] show ?thesis
    by (intro disjI1) (auto simp: pmm_alloc_page_def Some used_frames_def)
next
  case hi: None
  show ?thesis
  proof (cases "scan (\<lambda>i. \<not> bit_get s i) 0 (alloc_hint s)")
    case (Some i)
    from scan_Some [OF this] assms have "i < total_pages s \<and> i \<notin> used_frames s"
      by (auto simp: used_frames_def pmm_inv_def)
    then show ?thesis by (intro disjI1) (auto simp: pmm_alloc_page_def hi Some)
  next
    case None
    have "bit_get s j" if "j < total_pages s" for j
      using hi None that by (cases "j < alloc_hint s") (auto simp: scan_None)
    then show ?thesis
      by (intro disjI2) (auto simp: pmm_alloc_page_def hi None used_frames_def)
  qed
qed

lemma pmm_alloc_page_Inr:
  assumes "pmm_inv s" "pmm_alloc_page s = Inr (p, s')"
  obtains i where "i < total_pages s" "i \<notin> used_frames s" "take_frame i s = (p, s')"
  using pmm_alloc_page_cases [OF assms(1)] assms(2) by auto

subsection \<open>Contiguous runs\<close>

text \<open>The window search with its skip finds exactly the lowest free run: skipping past a used
  frame loses no run, because every window that starts at or before it contains it.\<close>

definition free_run :: "pmm \<Rightarrow> nat \<Rightarrow> nat \<Rightarrow> bool" where
  "free_run s n start \<longleftrightarrow> start + n \<le> total_pages s \<and> (\<forall>k < n. \<not> bit_get s (start + k))"

lemma free_run_unused: "free_run s n q \<Longrightarrow> q \<le> u \<Longrightarrow> u < q + n \<Longrightarrow> \<not> bit_get s u"
  unfolding free_run_def by (metis le_add_diff_inverse nat_add_left_cancel_less)

lemma contig_search_Some:
  "contig_search s n start = Some r \<Longrightarrow>
     free_run s n r \<and> start \<le> r \<and> (\<forall>q. start \<le> q \<and> q < r \<longrightarrow> \<not> free_run s n q)"
proof (induction s n start rule: contig_search.induct)
  case (1 s n start)
  from "1.prems" have fits: "start + n \<le> total_pages s"
    by (auto simp: contig_search.simps [of s n start] split: if_splits)
  show ?case
  proof (cases "scan (\<lambda>i. bit_get s (start + i)) 0 n")
    case None
    with "1.prems" fits have "r = start" by (simp add: contig_search.simps [of s n start])
    with None fits show ?thesis by (auto simp: free_run_def scan_None)
  next
    case (Some i)
    with "1.prems" fits have "contig_search s n (start + i + 1) = Some r"
      by (simp add: contig_search.simps [of s n start])
    with "1.IH" fits Some have ih: "free_run s n r \<and> start + i + 1 \<le> r \<and>
        (\<forall>q. start + i + 1 \<le> q \<and> q < r \<longrightarrow> \<not> free_run s n q)" by auto
    have hit: "i < n" "bit_get s (start + i)" using scan_Some [OF Some] by auto
    have "\<not> free_run s n q" if "start \<le> q" "q \<le> start + i" for q
      using free_run_unused [of s n q "start + i"] that hit by auto
    with ih show ?thesis by (metis Suc_eq_plus1 Suc_leI le_trans less_imp_le not_le le_add1 add.commute)
  qed
qed

lemma contig_search_None:
  "contig_search s n start = None \<Longrightarrow> start \<le> q \<Longrightarrow> \<not> free_run s n q"
proof (induction s n start rule: contig_search.induct)
  case (1 s n start)
  show ?case
  proof (cases "start + n \<le> total_pages s")
    case False
    with "1.prems"(2) show ?thesis by (simp add: free_run_def)
  next
    case fits: True
    then obtain i where Some: "scan (\<lambda>i. bit_get s (start + i)) 0 n = Some i"
      using "1.prems"(1) by (auto simp: contig_search.simps [of s n start] split: option.splits)
    with "1.prems" fits have rest: "contig_search s n (start + i + 1) = None"
      by (simp add: contig_search.simps [of s n start])
    have hit: "i < n" "bit_get s (start + i)" using scan_Some [OF Some] by auto
    show ?thesis
    proof (cases "q \<le> start + i")
      case True
      then show ?thesis
        using free_run_unused [of s n q "start + i"] "1.prems"(2) hit by auto
    next
      case False
      with "1.IH" fits Some rest show ?thesis by auto
    qed
  qed
qed

lemma fold_bit_set_simps [simp]:
  "total_pages (fold (\<lambda>j. bit_set (a + j)) xs s) = total_pages s"
  "used_pages (fold (\<lambda>j. bit_set (a + j)) xs s) = used_pages s"
  "alloc_hint (fold (\<lambda>j. bit_set (a + j)) xs s) = alloc_hint s"
  "bitmap_phys_base (fold (\<lambda>j. bit_set (a + j)) xs s) = bitmap_phys_base s"
  "bitmap_frames (fold (\<lambda>j. bit_set (a + j)) xs s) = bitmap_frames s"
  "geom_ok (fold (\<lambda>j. bit_set (a + j)) xs s) = geom_ok s"
  by (induction xs arbitrary: s) simp_all

lemma used_frames_fold_bit_set:
  "(\<And>j. j \<in> set xs \<Longrightarrow> a + j < total_pages s) \<Longrightarrow>
     used_frames (fold (\<lambda>j. bit_set (a + j)) xs s) = used_frames s \<union> (\<lambda>j. a + j) ` set xs"
  by (induction xs arbitrary: s) auto

lemma ram_fold_bit_set:
  "geom_ok s \<Longrightarrow> (\<And>j. j \<in> set xs \<Longrightarrow> a + j < total_pages s) \<Longrightarrow> x \<notin> bitmap_bytes s \<Longrightarrow>
     ram (fold (\<lambda>j. bit_set (a + j)) xs s) x = ram s x"
proof (induction xs arbitrary: s)
  case (Cons j xs)
  have "bitmap_phys_base s + (a + j) div 8 \<in> bitmap_bytes s"
    using bitmap_index_byte [of s "a + j"] Cons.prems by (simp add: bitmap_bytes_def)
  then have "ram (bit_set (a + j) s) x = ram s x"
    using Cons.prems(3) by (auto simp: bit_set_def Let_def)
  moreover have "bitmap_bytes (bit_set (a + j) s) = bitmap_bytes s" by (simp add: bitmap_bytes_def)
  ultimately show ?case using Cons by simp
qed simp

lemma contig_taken:
  assumes inv: "pmm_inv s" and run: "free_run s n start"
    and s': "s' = (let s1 = fold (\<lambda>j. bit_set (start + j)) [0..<n] s;
                       s2 = s1\<lparr>used_pages := used_pages s1 + n\<rparr>
                   in s2\<lparr>ram := fill_range (ram s2) (start * PMM_PAGE_SIZE) (n * PMM_PAGE_SIZE) 0\<rparr>)"
  shows "used_frames s' = used_frames s \<union> {start ..< start + n}" "pmm_inv s'"
proof -
  let ?s2 = "(fold (\<lambda>j. bit_set (start + j)) [0..<n] s)\<lparr>used_pages := used_pages s + n\<rparr>"
  have img: "(\<lambda>j. start + j) ` {0..<n} = {start ..< start + n}"
    by (simp add: image_add_atLeastLessThan add.commute)
  have free: "used_frames s \<inter> {start ..< start + n} = {}"
    using free_run_unused [OF run] by (auto simp: used_frames_def)
  have u2: "used_frames ?s2 = used_frames s \<union> {start ..< start + n}"
    using used_frames_fold_bit_set [of "[0..<n]" start s] run img by (simp add: free_run_def)
  have "start + k \<notin> bitmap_frames ?s2" if "k < n" for k
    using inv free that by (force simp: pmm_inv_def)
  then have "used_frames s' = used_frames ?s2"
    unfolding s' Let_def using inv used_frames_zero_frames [of ?s2 n start]
    by (simp add: pmm_inv_def)
  then show u: "used_frames s' = used_frames s \<union> {start ..< start + n}" using u2 by simp
  have "card (used_frames s \<union> {start ..< start + n}) = card (used_frames s) + n"
    using free by (simp add: card_Un_disjoint)
  then show "pmm_inv s'"
    using inv unfolding pmm_inv_def u by (auto simp: s' Let_def)
qed

lemma contig_search_n: "n > 0 \<Longrightarrow> free_run s n r \<Longrightarrow> n \<le> total_pages s"
  by (simp add: free_run_def)

subsection \<open>Release\<close>

lemma pmm_free_page_simps:
  "total_pages (pmm_free_page p s) = total_pages s"
  "bitmap_frames (pmm_free_page p s) = bitmap_frames s"
  "geom_ok (pmm_free_page p s) = geom_ok s"
  by (auto simp: pmm_free_page_def Let_def)

lemma pmm_free_page_used:
  "used_frames (pmm_free_page p s) = used_frames s - {p div PMM_PAGE_SIZE}"
  by (auto simp: pmm_free_page_def Let_def used_frames_def bit_get_bit_clear)

lemma pmm_free_page_inv [inv_intros]:
  assumes "pmm_inv s" "p div PMM_PAGE_SIZE \<notin> bitmap_frames s"
  shows "pmm_inv (pmm_free_page p s)"
proof (cases "p div PMM_PAGE_SIZE \<in> used_frames s")
  case True
  have "used_pages (pmm_free_page p s) = card (used_frames (pmm_free_page p s))"
    using True assms unfolding pmm_free_page_used
    by (auto simp: pmm_free_page_def Let_def used_frames_def pmm_inv_def)
  moreover have "alloc_hint (pmm_free_page p s) \<le> total_pages s"
    using assms True by (auto simp: pmm_free_page_def Let_def pmm_inv_def)
  ultimately show ?thesis
    using assms by (auto simp: pmm_inv_def pmm_free_page_simps pmm_free_page_used)
next
  case False
  then have "pmm_free_page p s = s" by (auto simp: pmm_free_page_def Let_def used_frames_def)
  with assms show ?thesis by simp
qed

subsection \<open>Initialisation\<close>

lemma free_one_simps [simp]:
  "total_pages (free_one i s) = total_pages s" "bitmap_phys_base (free_one i s) = bitmap_phys_base s"
  "bitmap_pages (free_one i s) = bitmap_pages s" "alloc_hint (free_one i s) = alloc_hint s"
  "bitmap_frames (free_one i s) = bitmap_frames s" "geom_ok (free_one i s) = geom_ok s"
  by (simp_all add: free_one_def)

lemma used_frames_free_one: "used_frames (free_one i s) = used_frames s - {i}"
  by (auto simp: free_one_def used_frames_def bit_get_bit_clear)

lemma count_free_one:
  "used_pages s = card (used_frames s) \<Longrightarrow> used_pages (free_one i s) = card (used_frames (free_one i s))"
  by (auto simp: used_frames_free_one) (auto simp: free_one_def used_frames_def)

lemma fold_free_one_simps [simp]:
  "total_pages (fold free_one xs s) = total_pages s"
  "bitmap_phys_base (fold free_one xs s) = bitmap_phys_base s"
  "bitmap_pages (fold free_one xs s) = bitmap_pages s"
  "alloc_hint (fold free_one xs s) = alloc_hint s"
  "bitmap_frames (fold free_one xs s) = bitmap_frames s"
  "geom_ok (fold free_one xs s) = geom_ok s"
  by (induction xs arbitrary: s) simp_all

lemma used_frames_fold_free_one: "used_frames (fold free_one xs s) = used_frames s - set xs"
  by (induction xs arbitrary: s) (auto simp: used_frames_free_one)

lemma count_fold_free_one:
  "used_pages s = card (used_frames s) \<Longrightarrow>
     used_pages (fold free_one xs s) = card (used_frames (fold free_one xs s))"
  by (induction xs arbitrary: s) (simp_all add: count_free_one)

text \<open>On an aligned region below the top page the loop ends and frees each frame once.\<close>

lemma free_range_aligned:
  "b * PMM_PAGE_SIZE \<le> 2 ^ 64 - PMM_PAGE_SIZE \<Longrightarrow>
     free_range (a * PMM_PAGE_SIZE) (b * PMM_PAGE_SIZE) s = Some (fold free_one [a..<b] s)"
proof (induction "b - a" arbitrary: a s)
  case 0
  then show ?case by (simp add: free_range.simps)
next
  case (Suc n)
  then have "a < b" by simp
  then have w: "wrap64 (a * PMM_PAGE_SIZE + PMM_PAGE_SIZE) = Suc a * PMM_PAGE_SIZE"
    using Suc.prems by (subst wrap64_small) auto
  have "free_range (Suc a * PMM_PAGE_SIZE) (b * PMM_PAGE_SIZE) (free_one a s)
      = Some (fold free_one [Suc a..<b] (free_one a s))"
    using Suc by (intro Suc.hyps(1)) auto
  with \<open>a < b\<close> w show ?case
    by (subst free_range.simps) (simp add: upt_conv_Cons)
qed

lemma max_phys_ge: "m \<le> max_phys_of es m"
  by (induction es m rule: max_phys_of.induct) (simp, fastforce)

lemma max_phys_entry: "e \<in> set es \<Longrightarrow> is_ram e \<Longrightarrow> entry_end e \<le> max_phys_of es m"
proof (induction es m rule: max_phys_of.induct)
  case (2 e' es m)
  then show ?case using max_phys_ge [of "entry_end e" es] max_phys_ge [of m es]
    by (fastforce split: if_splits)
qed simp

lemma max_phys_bound: "m < 2 ^ 64 \<Longrightarrow> max_phys_of es m < 2 ^ 64"
  using wrap64_bound by (induction es m rule: max_phys_of.induct) (simp_all add: entry_end_def)

lemma find_bitmap_base_entry:
  "find_bitmap_base es need \<noteq> 0 \<Longrightarrow> \<exists>e \<in> set es. me_type e = LIMINE_MEMMAP_USABLE
     \<and> need \<le> me_length e \<and> me_base e = find_bitmap_base es need"
  by (induction es need rule: find_bitmap_base.induct) (auto split: if_splits)

lemma sorted_wrt_pair:
  "sorted_wrt P xs \<Longrightarrow> a \<in> set xs \<Longrightarrow> b \<in> set xs \<Longrightarrow> a \<noteq> b \<Longrightarrow> P a b \<or> P b a"
  by (induction xs) auto

lemma entry_end_ok: "memmap_ok es \<Longrightarrow> e \<in> set es \<Longrightarrow> entry_end e = me_base e + me_length e"
  unfolding entry_end_def memmap_ok_def by (intro wrap64_small) auto

text \<open>The layout chosen by \<^verbatim>\<open>pmm_init\<close>: geometry, an all-ones bitmap, and the bitmap's own
  frames inside the region it was parked in.\<close>

lemma pmm_layout_entry:
  assumes "memmap_ok es" "bitmap_phys_base (pmm_layout es m) \<noteq> 0"
  obtains e where "e \<in> set es" "me_type e = LIMINE_MEMMAP_USABLE"
    "me_base e = bitmap_phys_base (pmm_layout es m)"
    "bitmap_pages (pmm_layout es m) * PMM_PAGE_SIZE \<le> me_length e"
  using find_bitmap_base_entry [of es "bitmap_pages (pmm_layout es m) * PMM_PAGE_SIZE"] assms
  by (auto simp: pmm_layout_def Let_def)

lemma pmm_layout_geom:
  assumes "memmap_ok es" "bitmap_phys_base (pmm_layout es m) \<noteq> 0"
  shows "geom_ok (pmm_layout es m)"
proof -
  obtain e where "e \<in> set es" "me_type e = LIMINE_MEMMAP_USABLE"
    "me_base e = bitmap_phys_base (pmm_layout es m)"
    using pmm_layout_entry [OF assms] by metis
  then have "bitmap_phys_base (pmm_layout es m) mod PMM_PAGE_SIZE = 0"
    using assms(1) unfolding memmap_ok_def by metis
  then show ?thesis using max_phys_bound [of 0 es]
    by (auto simp: geom_ok_def pmm_layout_def Let_def)
qed

lemma pmm_layout_used: "used_frames (pmm_layout es m) = {..<total_pages (pmm_layout es m)}"
proof -
  have "bit_get (pmm_layout es m) i" if "i < total_pages (pmm_layout es m)" for i
  proof -
    let ?l = "pmm_layout es m"
    have "i div 8 < bitmap_size ?l" using that unfolding pmm_layout_def Let_def by auto
    then have "ram ?l (bitmap_phys_base ?l + i div 8) = 255"
      by (simp add: pmm_layout_def Let_def)
    moreover have "bit (255 :: u8) (i mod 8)"
    proof -
      have "(255 :: u8) = - 1" by simp
      then show ?thesis by (simp only: bit_minus_1_iff) simp
    qed
    ultimately show ?thesis by (simp add: bit_get_iff)
  qed
  then show ?thesis by (auto simp: used_frames_def)
qed

lemma pmm_layout_bitmap_frames:
  assumes "memmap_ok es" "bitmap_phys_base (pmm_layout es m) \<noteq> 0"
  shows "bitmap_frames (pmm_layout es m) \<subseteq> {..<total_pages (pmm_layout es m)}"
proof -
  let ?l = "pmm_layout es m"
  obtain e where e: "e \<in> set es" "me_type e = LIMINE_MEMMAP_USABLE"
    "me_base e = bitmap_phys_base ?l" "bitmap_pages ?l * PMM_PAGE_SIZE \<le> me_length e"
    using pmm_layout_entry [OF assms] .
  have "bitmap_phys_base ?l + bitmap_pages ?l * PMM_PAGE_SIZE \<le> entry_end e"
    using e entry_end_ok [OF assms(1) e(1)] by simp
  also have "\<dots> \<le> max_phys_of es 0" using e by (intro max_phys_entry) (auto simp: is_ram_def)
  finally have "(bitmap_phys_base ?l + bitmap_pages ?l * PMM_PAGE_SIZE) div PMM_PAGE_SIZE
      \<le> max_phys_of es 0 div PMM_PAGE_SIZE"
    by (rule div_le_mono)
  moreover have "total_pages ?l = max_phys_of es 0 div PMM_PAGE_SIZE"
    by (simp add: pmm_layout_def Let_def)
  ultimately have "bitmap_phys_base ?l div PMM_PAGE_SIZE + bitmap_pages ?l \<le> total_pages ?l"
    by simp
  then show ?thesis by (auto simp: bitmap_frames_def)
qed

text \<open>A usable entry gives back exactly its frames, less those of the bitmap.\<close>

definition entry_frames :: "memmap_entry \<Rightarrow> nat set" where
  "entry_frames e =
     (if me_type e = LIMINE_MEMMAP_USABLE
      then {me_base e div PMM_PAGE_SIZE ..< (me_base e + me_length e) div PMM_PAGE_SIZE} else {})"

lemma usable_frames_entries: "usable_frames es = (\<Union>e \<in> set es. entry_frames e)"
  by (auto simp: usable_frames_def entry_frames_def)

lemma free_entry_frames:
  assumes ok: "memmap_ok es" and e: "e \<in> set es" and e0: "e0 \<in> set es"
    "me_type e0 = LIMINE_MEMMAP_USABLE" "me_base e0 = bitmap_phys_base s"
    "bitmap_pages s * PMM_PAGE_SIZE \<le> me_length e0"
  obtains xs where "free_entry e s = Some (fold free_one xs s)"
    "set xs = entry_frames e - bitmap_frames s"
proof (cases "me_type e = LIMINE_MEMMAP_USABLE")
  case False
  then show thesis by (intro that [of "[]"]) (auto simp: free_entry_def entry_frames_def)
next
  case usable: True
  from ok e usable obtain a l where al: "me_base e = a * PMM_PAGE_SIZE" "me_length e = l * PMM_PAGE_SIZE"
    unfolding memmap_ok_def by (metis dvd_div_mult_self mod_0_imp_dvd)
  have "me_base e + me_length e \<le> 2 ^ 64 - PMM_PAGE_SIZE"
    using ok e by (simp only: memmap_ok_def)
  then have top: "(a + l) * PMM_PAGE_SIZE \<le> 2 ^ 64 - PMM_PAGE_SIZE"
    by (simp only: al distrib_right)
  have ee: "entry_end e = (a + l) * PMM_PAGE_SIZE"
    by (simp only: entry_end_ok [OF ok e] al distrib_right)
  have ef: "entry_frames e = {a..<a + l}"
    using usable by (simp only: entry_frames_def al flip: distrib_right) simp
  show thesis
  proof (cases "me_base e = bitmap_phys_base s")
    case True
    have bf: "bitmap_frames s = {a ..< a + bitmap_pages s}"
      using True by (simp add: bitmap_frames_def al flip: True)
    have "me_base e0 + me_length e0 \<le> 2 ^ 64 - PMM_PAGE_SIZE" using ok e0(1) by (auto simp: memmap_ok_def)
    then have w: "wrap64 (me_base e + bitmap_pages s * PMM_PAGE_SIZE) = (a + bitmap_pages s) * PMM_PAGE_SIZE"
      using True al e0(3,4) by (subst wrap64_small) (auto simp: algebra_simps)
    have "free_entry e s = Some (fold free_one [a + bitmap_pages s..<a + l] s)"
      unfolding free_entry_def ee
      using free_range_aligned [OF top, of "a + bitmap_pages s" s] w True usable by simp
    then show thesis by (rule that) (auto simp: ef bf)
  next
    case False
    then have "e \<noteq> e0" using e0 by auto
    then have "me_base e + me_length e \<le> me_base e0 \<or> me_base e0 + me_length e0 \<le> me_base e"
      using ok e e0 usable unfolding memmap_ok_def by (blast dest: sorted_wrt_pair)
    then have "(a + l) * PMM_PAGE_SIZE \<le> bitmap_phys_base s
      \<or> bitmap_phys_base s + bitmap_pages s * PMM_PAGE_SIZE \<le> a * PMM_PAGE_SIZE"
      using e0 al by (auto simp: algebra_simps)
    then have "a + l \<le> bitmap_phys_base s div PMM_PAGE_SIZE
      \<or> bitmap_phys_base s div PMM_PAGE_SIZE + bitmap_pages s \<le> a"
    proof (elim disjE)
      assume "(a + l) * PMM_PAGE_SIZE \<le> bitmap_phys_base s"
      then have "a + l \<le> bitmap_phys_base s div PMM_PAGE_SIZE"
        by (simp add: less_eq_div_iff_mult_less_eq)
      then show ?thesis ..
    next
      assume "bitmap_phys_base s + bitmap_pages s * PMM_PAGE_SIZE \<le> a * PMM_PAGE_SIZE"
      then have "bitmap_phys_base s div PMM_PAGE_SIZE + bitmap_pages s \<le> a" by linarith
      then show ?thesis ..
    qed
    then have "{a..<a + l} \<inter> bitmap_frames s = {}" by (auto simp: bitmap_frames_def)
    moreover have "free_entry e s = Some (fold free_one [a..<a + l] s)"
      unfolding free_entry_def ee using free_range_aligned [OF top] al False usable by simp
    ultimately show thesis by (intro that) (auto simp: ef)
  qed
qed

lemma free_usable_frames:
  assumes ok: "memmap_ok es0" and e0: "e0 \<in> set es0" "me_type e0 = LIMINE_MEMMAP_USABLE"
    "me_base e0 = bitmap_phys_base s" "bitmap_pages s * PMM_PAGE_SIZE \<le> me_length e0"
    and sub: "set es \<subseteq> set es0"
  shows "\<exists>xs. free_usable es s = Some (fold free_one xs s)
    \<and> set xs = (\<Union>e \<in> set es. entry_frames e) - bitmap_frames s"
  using e0 sub
proof (induction es arbitrary: s)
  case Nil
  then show ?case by (intro exI [of _ "[]"]) simp
next
  case (Cons e es)
  then have "e \<in> set es0" by simp
  then obtain xs where xs: "free_entry e s = Some (fold free_one xs s)"
      "set xs = entry_frames e - bitmap_frames s"
    using free_entry_frames [OF ok _ Cons.prems(1-4)] by metis
  obtain ys where ys: "free_usable es (fold free_one xs s) = Some (fold free_one ys (fold free_one xs s))"
      "set ys = (\<Union>e \<in> set es. entry_frames e) - bitmap_frames (fold free_one xs s)"
    using Cons.IH [of "fold free_one xs s"] Cons.prems by auto
  show ?case
    by (intro exI [of _ "xs @ ys"]) (use xs ys in auto)
qed

lemma pmm_init_Some:
  assumes ok: "memmap_ok es" and b: "bitmap_phys_base (pmm_layout es m) \<noteq> 0"
  obtains xs where
    "pmm_init (Some es) m = Some (Inr (fold free_one xs (pmm_layout es m)))"
    "set xs = usable_frames es - bitmap_frames (pmm_layout es m)"
proof -
  obtain e0 where e0: "e0 \<in> set es" "me_type e0 = LIMINE_MEMMAP_USABLE"
    "me_base e0 = bitmap_phys_base (pmm_layout es m)"
    "bitmap_pages (pmm_layout es m) * PMM_PAGE_SIZE \<le> me_length e0"
    using pmm_layout_entry [OF assms] .
  show thesis
    using free_usable_frames [OF ok e0 subset_refl] b that
    by (auto simp: pmm_init_def usable_frames_entries)
qed

subsection \<open>The interface of the allocator to its clients\<close>

text \<open>What the page-table code and the heap rely on: an allocation yields a frame nobody holds,
  its 64-bit words read as zero, and words in frames already held keep their value.\<close>

locale frame_source =
  fixes inv :: "'s \<Rightarrow> bool"
    and held :: "'s \<Rightarrow> nat set"
    and meta :: "'s \<Rightarrow> nat set"
    and mem :: "'s \<Rightarrow> ram"
    and alloc :: "'s \<Rightarrow> (nat \<times> 's) result"
  assumes alloc_inv: "inv s \<Longrightarrow> alloc s = Inr (p, s') \<Longrightarrow> inv s'"
    and alloc_fresh: "inv s \<Longrightarrow> alloc s = Inr (p, s') \<Longrightarrow>
      p mod PMM_PAGE_SIZE = 0 \<and> p div PMM_PAGE_SIZE \<notin> held s
      \<and> held s' = insert (p div PMM_PAGE_SIZE) (held s) \<and> meta s' = meta s"
    and alloc_zero: "inv s \<Longrightarrow> alloc s = Inr (p, s') \<Longrightarrow> p \<le> x \<Longrightarrow> x < p + PMM_PAGE_SIZE \<Longrightarrow> mem s' x = 0"
    and alloc_other: "inv s \<Longrightarrow> alloc s = Inr (p, s') \<Longrightarrow> x div PMM_PAGE_SIZE \<in> held s \<Longrightarrow>
      x div PMM_PAGE_SIZE \<notin> meta s \<Longrightarrow> mem s' x = mem s x"
    and meta_held: "inv s \<Longrightarrow> meta s \<subseteq> held s"
begin

lemma word_frame: "k < 512 \<Longrightarrow> x < 8 \<Longrightarrow> (i * PMM_PAGE_SIZE + 8 * k + x) div PMM_PAGE_SIZE = i"
  by (rule div_nat_eqI) auto

lemma alloc_word_zero:
  assumes "inv s" "alloc s = Inr (p, s')" "k < 512"
  shows "read64 (mem s') (p + 8 * k) = 0"
proof -
  have "read64 (mem s') (p + 8 * k) = read64 (\<lambda>_. 0) (p + 8 * k)"
    using assms alloc_zero [OF assms(1,2)] by (intro read64_cong) auto
  then show ?thesis by (simp add: read64_def)
qed

lemma alloc_word_other:
  assumes "inv s" "alloc s = Inr (p, s')" "k < 512" "i \<in> held s" "i \<notin> meta s"
  shows "read64 (mem s') (i * PMM_PAGE_SIZE + 8 * k) = read64 (mem s) (i * PMM_PAGE_SIZE + 8 * k)"
proof (rule read64_cong)
  fix x
  assume "i * PMM_PAGE_SIZE + 8 * k \<le> x" "x < i * PMM_PAGE_SIZE + 8 * k + 8"
  then obtain d where "x = i * PMM_PAGE_SIZE + 8 * k + d" "d < 8"
    by (metis le_add_diff_inverse nat_add_left_cancel_less)
  then have "x div PMM_PAGE_SIZE = i" using word_frame assms(3) by blast
  then show "mem s' x = mem s x" using alloc_other [OF assms(1,2)] assms(4,5) by simp
qed

end

lemma frame_bytes_div: "x \<in> frame_bytes i \<longleftrightarrow> x div PMM_PAGE_SIZE = i"
  unfolding frame_bytes_def by (auto intro: div_nat_eqI simp: dividend_less_times_div)

lemma bitmap_bytes_frames: "geom_ok s \<Longrightarrow> x \<in> bitmap_bytes s \<Longrightarrow> x div PMM_PAGE_SIZE \<in> bitmap_frames s"
  using bitmap_byte_frame [of s "x - bitmap_phys_base s"] by (auto simp: bitmap_bytes_def)

lemma pmm_alloc_page_state:
  assumes inv: "pmm_inv s" and al: "pmm_alloc_page s = Inr (p, s')"
  shows "p mod PMM_PAGE_SIZE = 0" "p div PMM_PAGE_SIZE < total_pages s"
    "p div PMM_PAGE_SIZE \<notin> used_frames s"
    "used_frames s' = insert (p div PMM_PAGE_SIZE) (used_frames s)"
    "pmm_inv s'" "bitmap_frames s' = bitmap_frames s"
    "x \<in> frame_bytes (p div PMM_PAGE_SIZE) \<Longrightarrow> ram s' x = 0"
    "x \<notin> frame_bytes (p div PMM_PAGE_SIZE) \<Longrightarrow> x \<notin> bitmap_bytes s \<Longrightarrow> ram s' x = ram s x"
proof -
  obtain i where i: "i < total_pages s" "i \<notin> used_frames s" "take_frame i s = (p, s')"
    using pmm_alloc_page_Inr [OF inv al] .
  have p: "p = i * PMM_PAGE_SIZE" and s': "s' = snd (take_frame i s)"
    using i(3) take_frame_simps(1) [of i s] by auto
  show "p mod PMM_PAGE_SIZE = 0" "p div PMM_PAGE_SIZE < total_pages s"
    "p div PMM_PAGE_SIZE \<notin> used_frames s" using i p by simp_all
  show "used_frames s' = insert (p div PMM_PAGE_SIZE) (used_frames s)"
    using take_frame_used [OF inv i(1,2)] by (simp add: p s')
  show "pmm_inv s'" unfolding s' by (rule take_frame_inv [OF inv i(1,2)])
  show "bitmap_frames s' = bitmap_frames s" by (simp add: s' take_frame_simps)
  show "x \<in> frame_bytes (p div PMM_PAGE_SIZE) \<Longrightarrow> ram s' x = 0"
    "x \<notin> frame_bytes (p div PMM_PAGE_SIZE) \<Longrightarrow> x \<notin> bitmap_bytes s \<Longrightarrow> ram s' x = ram s x"
    using take_frame_ram [OF inv i(1)] by (simp_all add: p s')
qed

interpretation pm: frame_source pmm_inv used_frames bitmap_frames ram pmm_alloc_page
proof unfold_locales
  show "pmm_inv s'" if "pmm_inv s" "pmm_alloc_page s = Inr (p, s')" for s p s'
    using that by (rule pmm_alloc_page_state)
  show "p mod PMM_PAGE_SIZE = 0 \<and> p div PMM_PAGE_SIZE \<notin> used_frames s
      \<and> used_frames s' = insert (p div PMM_PAGE_SIZE) (used_frames s)
      \<and> bitmap_frames s' = bitmap_frames s"
    if "pmm_inv s" "pmm_alloc_page s = Inr (p, s')" for s p s'
    using pmm_alloc_page_state [OF that] by simp
  show "ram s' x = 0"
    if a: "pmm_inv s" "pmm_alloc_page s = Inr (p, s')" and x: "p \<le> x" "x < p + PMM_PAGE_SIZE" for s p s' x
  proof -
    have "x \<in> frame_bytes (p div PMM_PAGE_SIZE)"
      using pmm_alloc_page_state(1) [OF a] x by (auto simp: frame_bytes_def)
    then show ?thesis by (rule pmm_alloc_page_state(7) [OF a])
  qed
  show "ram s' x = ram s x"
    if a: "pmm_inv s" "pmm_alloc_page s = Inr (p, s')"
      and x: "x div PMM_PAGE_SIZE \<in> used_frames s" "x div PMM_PAGE_SIZE \<notin> bitmap_frames s" for s p s' x
  proof (rule pmm_alloc_page_state(8) [OF a])
    show "x \<notin> frame_bytes (p div PMM_PAGE_SIZE)"
      using pmm_alloc_page_state(3) [OF a] x(1) by (auto simp: frame_bytes_div)
    show "x \<notin> bitmap_bytes s" using x(2) a(1) bitmap_bytes_frames by (auto simp: pmm_inv_def)
  qed
  show "bitmap_frames s \<subseteq> used_frames s" if "pmm_inv s" for s
    using that by (simp add: pmm_inv_def)
qed

lemma pmm_step_inv:
  assumes "pmm_step (s, own) (s', own')" "pmm_inv s" "0 \<in> used_frames s"
    "own \<subseteq> used_frames s - bitmap_frames s - {0}"
  shows "pmm_inv s' \<and> 0 \<in> used_frames s' \<and> own' \<subseteq> used_frames s' - bitmap_frames s' - {0}"
  using assms(1)
proof (cases rule: pmm_step.cases)
  case (step_page p)
  note st = pmm_alloc_page_state [OF assms(2) step_page(2)]
  have "p div PMM_PAGE_SIZE \<notin> bitmap_frames s" using st(3) assms(2) by (auto simp: pmm_inv_def)
  moreover have "p div PMM_PAGE_SIZE \<noteq> 0" using st(3) assms(3) by metis
  ultimately show ?thesis using st(4-6) step_page(1) assms(3,4) by auto
next
  case (step_contig n p)
  then obtain start where st: "contig_search s n 0 = Some start" "p = start * PMM_PAGE_SIZE"
      "s' = snd (pmm_alloc_contig n s)"
    by (auto simp: pmm_alloc_contig_def Let_def split: if_splits option.splits)
  have run: "free_run s n start" using contig_search_Some [OF st(1)] by simp
  have n: "n \<le> total_pages s" using run step_contig by (simp add: free_run_def)
  then have s': "s' = (let s1 = fold (\<lambda>j. bit_set (start + j)) [0..<n] s;
                       s2 = s1\<lparr>used_pages := used_pages s1 + n\<rparr>
                   in s2\<lparr>ram := fill_range (ram s2) (start * PMM_PAGE_SIZE) (n * PMM_PAGE_SIZE) 0\<rparr>)"
    using st step_contig(2) by (simp add: pmm_alloc_contig_def Let_def)
  have b: "bitmap_frames s' = bitmap_frames s" by (simp add: s' Let_def)
  have fresh: "used_frames s \<inter> {start ..< start + n} = {}"
    using free_run_unused [OF run] by (auto simp: used_frames_def)
  have "bitmap_frames s \<inter> {start ..< start + n} = {}" "0 \<notin> {start ..< start + n}"
    using fresh assms(2,3) by (auto simp: pmm_inv_def)
  then show ?thesis
    using contig_taken [OF assms(2) run s'] assms(3,4) step_contig(1) b by (auto simp: st(2))
next
  case (step_free i)
  then have "i \<in> used_frames s" "i \<notin> bitmap_frames s" "i \<noteq> 0" using assms(4) by auto
  then show ?thesis
    using pmm_free_page_inv [OF assms(2), of "i * PMM_PAGE_SIZE"] step_free assms(3,4)
    by (auto simp: pmm_free_page_used pmm_free_page_simps)
qed

lemma pmm_steps_inv:
  assumes "pmm_step\<^sup>*\<^sup>* (s0, {}) (s, own)" "pmm_inv s0" "0 \<in> used_frames s0"
  shows "pmm_inv s \<and> 0 \<in> used_frames s \<and> own \<subseteq> used_frames s - bitmap_frames s - {0}"
  using assms
proof (induction "(s, own)" arbitrary: s own rule: rtranclp_induct)
  case base
  then show ?case by simp
next
  case (step y)
  then show ?case by (cases y) (auto dest!: pmm_step_inv)
qed

lemma example_pmm_used: "used_frames example_pmm = {0, 1}"
proof -
  have "i < 4 \<Longrightarrow> bit_get example_pmm i \<longleftrightarrow> i = 0 \<or> i = 1" for i :: nat
  proof -
    assume "i < 4"
    then consider "i = 0" | "i = 1" | "i = 2" | "i = 3" by linarith
    then show "bit_get example_pmm i \<longleftrightarrow> i = 0 \<or> i = 1"
      by cases (simp_all add: bit_get_def example_pmm_def)
  qed
  then show ?thesis by (auto simp: used_frames_def example_pmm_def)
qed

lemma example_pmm_inv: "pmm_inv example_pmm"
  by (simp add: pmm_inv_def geom_ok_def bitmap_frames_def example_pmm_used) (simp add: example_pmm_def)

subsection \<open>Properties\<close>

text \<open>After \<^verbatim>\<open>pmm_init\<close> on a memory map that keeps the boot protocol's guarantees, the
  allocator is initialised (no panic, no endless loop), its invariant holds, and the frames free
  for allocation are exactly the frames of the usable regions, less the frames that back the
  bitmap itself.\<close>

theorem pmm_init_correct:
  assumes "memmap_ok es" and "bitmap_phys_base (pmm_layout es m) \<noteq> 0"
  shows "\<exists>s. pmm_init (Some es) m = Some (Inr s) \<and> pmm_inv s
    \<and> total_pages s = max_phys_of es 0 div PMM_PAGE_SIZE
    \<and> used_frames s = {..<total_pages s} - (usable_frames es - bitmap_frames s)"
proof -
  let ?l = "pmm_layout es m"
  obtain xs where xs: "pmm_init (Some es) m = Some (Inr (fold free_one xs ?l))"
    "set xs = usable_frames es - bitmap_frames ?l"
    using pmm_init_Some [OF assms] .
  let ?s = "fold free_one xs ?l"
  have u: "used_frames ?s = {..<total_pages ?l} - (usable_frames es - bitmap_frames ?l)"
    using xs(2) by (simp add: used_frames_fold_free_one pmm_layout_used)
  have "used_pages ?l = card (used_frames ?l)"
    unfolding pmm_layout_used by (simp add: pmm_layout_def Let_def)
  then have "used_pages ?s = card (used_frames ?s)" by (rule count_fold_free_one)
  moreover have "alloc_hint ?s = 0" by (simp add: pmm_layout_def Let_def)
  moreover have "total_pages ?l = max_phys_of es 0 div PMM_PAGE_SIZE"
    by (simp add: pmm_layout_def Let_def)
  ultimately have "pmm_inv ?s"
    using pmm_layout_bitmap_frames [OF assms] pmm_layout_geom [OF assms] u
    by (auto simp: pmm_inv_def)
  then show ?thesis using xs u \<open>total_pages ?l = _\<close> by auto
qed

theorem pmm_init_correct_witness:
  "memmap_ok example_memmap \<and> (\<exists>s. pmm_init (Some example_memmap) (\<lambda>_. 0) = Some (Inr s) \<and> pmm_inv s
    \<and> total_pages s = 4 \<and> used_frames s = {..<total_pages s} - (usable_frames example_memmap - bitmap_frames s))"
proof -
  have ok: "memmap_ok example_memmap" by (simp add: memmap_ok_def example_memmap_def)
  have t: "max_phys_of example_memmap 0 = 16384"
    by (simp add: example_memmap_def is_ram_def entry_end_def wrap64_def)
  have b: "bitmap_phys_base (pmm_layout example_memmap (\<lambda>_. 0)) \<noteq> 0"
    by (simp add: pmm_layout_def Let_def t) (simp add: example_memmap_def)
  show ?thesis using ok pmm_init_correct [OF ok b] by (simp add: t)
qed

text \<open>C2: \<^verbatim>\<open>pmm_alloc_page\<close> panics only when every frame is in use.  Otherwise it returns the
  page-aligned address of a frame that was free, marks exactly that frame, keeps the invariant
  (so the count \<^verbatim>\<open>used_pages\<close> stays the number of marked frames), zeroes the frame, and changes
  no other byte of memory outside the bitmap; in particular zeroing never damages the bitmap.\<close>

theorem pmm_alloc_page_correct:
  assumes "pmm_inv s"
  shows "case pmm_alloc_page s of
      Inl msg \<Rightarrow> used_frames s = {..<total_pages s}
    | Inr (p, s') \<Rightarrow> \<exists>i < total_pages s. p = i * PMM_PAGE_SIZE \<and> i \<notin> used_frames s
        \<and> used_frames s' = insert i (used_frames s) \<and> pmm_inv s'
        \<and> (\<forall>x \<in> frame_bytes i. ram s' x = 0)
        \<and> (\<forall>x. x \<notin> frame_bytes i \<union> bitmap_bytes s \<longrightarrow> ram s' x = ram s x)"
proof (cases "pmm_alloc_page s")
  case (Inl msg)
  with pmm_alloc_page_cases [OF assms] show ?thesis by auto
next
  case (Inr r)
  obtain p s' where r: "r = (p, s')" by force
  note st = pmm_alloc_page_state [OF assms Inr [unfolded r]]
  have "p = p div PMM_PAGE_SIZE * PMM_PAGE_SIZE" using st(1) by auto
  then show ?thesis using st unfolding Inr r
    by (simp, intro exI [of _ "p div PMM_PAGE_SIZE"]) auto
qed

theorem pmm_alloc_page_correct_witness:
  "pmm_inv example_pmm \<and> (case pmm_alloc_page example_pmm of
      Inl msg \<Rightarrow> used_frames example_pmm = {..<total_pages example_pmm}
    | Inr (p, s') \<Rightarrow> \<exists>i < total_pages example_pmm. p = i * PMM_PAGE_SIZE \<and> i \<notin> used_frames example_pmm
        \<and> used_frames s' = insert i (used_frames example_pmm) \<and> pmm_inv s'
        \<and> (\<forall>x \<in> frame_bytes i. ram s' x = 0)
        \<and> (\<forall>x. x \<notin> frame_bytes i \<union> bitmap_bytes example_pmm \<longrightarrow> ram s' x = ram example_pmm x))"
  using example_pmm_inv pmm_alloc_page_correct [OF example_pmm_inv] by blast

lemma pmm_alloc_contig_cases:
  assumes "pmm_inv s"
  shows "(\<nexists>r. free_run s n r) \<or> n = 0 \<Longrightarrow> pmm_alloc_contig n s = (0, s)"
    and "free_run s n r \<Longrightarrow> n > 0 \<Longrightarrow> (\<And>q. q < r \<Longrightarrow> \<not> free_run s n q) \<Longrightarrow>
      \<exists>s'. pmm_alloc_contig n s = (r * PMM_PAGE_SIZE, s') \<and> pmm_inv s'
         \<and> used_frames s' = used_frames s \<union> {r ..< r + n}
         \<and> used_pages s' = used_pages s + n"
proof -
  show "pmm_alloc_contig n s = (0, s)" if "(\<nexists>r. free_run s n r) \<or> n = 0"
    using that contig_search_Some [of s n 0] by (auto simp: pmm_alloc_contig_def split: option.splits)
  assume run: "free_run s n r" and n: "n > 0" and least: "\<And>q. q < r \<Longrightarrow> \<not> free_run s n q"
  obtain start where st: "contig_search s n 0 = Some start"
    using contig_search_None [of s n 0 r] run by fastforce
  have "start = r" using contig_search_Some [OF st] least run by (metis le0 linorder_neqE_nat)
  then show "\<exists>s'. pmm_alloc_contig n s = (r * PMM_PAGE_SIZE, s') \<and> pmm_inv s'
         \<and> used_frames s' = used_frames s \<union> {r ..< r + n} \<and> used_pages s' = used_pages s + n"
    using contig_taken [OF assms run refl] st run n
    by (simp add: pmm_alloc_contig_def Let_def free_run_def)
qed

text \<open>C31: \<^verbatim>\<open>pmm_alloc_contig\<close> with its skip-past-the-used-bit search is first fit: when some run of
  \<open>n\<close> free frames exists it takes the lowest one, marks exactly those frames and keeps the
  invariant; when none exists (or \<open>n\<close> is 0) it returns 0 and changes nothing.\<close>

theorem pmm_alloc_contig_first_fit:
  assumes "pmm_inv s"
  shows "((\<nexists>r. free_run s n r) \<or> n = 0 \<longrightarrow> pmm_alloc_contig n s = (0, s)) \<and>
    (\<forall>r. free_run s n r \<and> n > 0 \<and> (\<forall>q<r. \<not> free_run s n q) \<longrightarrow>
      (\<exists>s'. pmm_alloc_contig n s = (r * PMM_PAGE_SIZE, s') \<and> pmm_inv s'
         \<and> used_frames s' = used_frames s \<union> {r ..< r + n}
         \<and> used_pages s' = used_pages s + n))"
  using pmm_alloc_contig_cases [OF assms] by blast

theorem pmm_alloc_contig_first_fit_witness:
  "\<exists>s'. pmm_alloc_contig 2 example_pmm = (8192, s') \<and> pmm_inv s'
     \<and> used_frames s' = used_frames example_pmm \<union> {2 ..< 4} \<and> used_pages s' = used_pages example_pmm + 2"
proof -
  have bits: "i < 4 \<Longrightarrow> bit_get example_pmm i \<longleftrightarrow> i \<in> {0, 1}" for i :: nat
    using example_pmm_used by (auto simp: used_frames_def example_pmm_def)
  have t: "total_pages example_pmm = 4" by (simp add: example_pmm_def)
  have "free_run example_pmm 2 2" by (auto simp: free_run_def t bits less_2_cases_iff)
  moreover have "\<not> free_run example_pmm 2 q" if "q < 2" for q
    using that bits [of q] by (auto simp: free_run_def t intro: exI [of _ 0])
  ultimately have "free_run example_pmm 2 2 \<and> (0::nat) < 2 \<and> (\<forall>q<2. \<not> free_run example_pmm 2 q)" by simp
  from mp [OF spec [OF conjunct2 [OF pmm_alloc_contig_first_fit [OF example_pmm_inv, of 2]], of 2] this]
  show ?thesis by simp
qed

text \<open>\<^verbatim>\<open>pmm_free_page\<close> releases exactly the frame that contains the address.  Freeing a frame
  that is already free or lies outside memory changes nothing (double frees are swallowed), the
  invariant is kept as long as the bitmap's own frames are not freed, the scan hint ends at or
  below a frame that was really freed, and the next \<^verbatim>\<open>pmm_alloc_page\<close> then cannot panic.\<close>

theorem pmm_free_page_correct:
  assumes "pmm_inv s" and "p div PMM_PAGE_SIZE \<notin> bitmap_frames s"
  shows "pmm_inv (pmm_free_page p s)
    \<and> used_frames (pmm_free_page p s) = used_frames s - {p div PMM_PAGE_SIZE}
    \<and> (p div PMM_PAGE_SIZE \<notin> used_frames s \<longrightarrow> pmm_free_page p s = s)
    \<and> pmm_free_page p (pmm_free_page p s) = pmm_free_page p s
    \<and> (p div PMM_PAGE_SIZE \<in> used_frames s \<longrightarrow> alloc_hint (pmm_free_page p s) \<le> p div PMM_PAGE_SIZE
         \<and> (\<exists>r. pmm_alloc_page (pmm_free_page p s) = Inr r))"
proof -
  have same: "q div PMM_PAGE_SIZE \<notin> used_frames t \<Longrightarrow> pmm_free_page q t = t" for q t
    by (auto simp: pmm_free_page_def Let_def used_frames_def)
  then have twice: "pmm_free_page p (pmm_free_page p s) = pmm_free_page p s"
    by (intro same) (simp add: pmm_free_page_used)
  have inv: "pmm_inv (pmm_free_page p s)" by (rule pmm_free_page_inv [OF assms])
  have "\<exists>r. pmm_alloc_page (pmm_free_page p s) = Inr r" if "p div PMM_PAGE_SIZE \<in> used_frames s"
  proof -
    have "p div PMM_PAGE_SIZE < total_pages (pmm_free_page p s)"
      using that by (simp add: used_frames_def pmm_free_page_simps)
    then have "used_frames (pmm_free_page p s) \<noteq> {..<total_pages (pmm_free_page p s)}"
      by (auto simp: pmm_free_page_used)
    then show ?thesis using pmm_alloc_page_cases [OF inv] by auto
  qed
  moreover have "alloc_hint (pmm_free_page p s) \<le> p div PMM_PAGE_SIZE"
    if "p div PMM_PAGE_SIZE \<in> used_frames s"
    using that by (auto simp: pmm_free_page_def Let_def used_frames_def)
  ultimately show ?thesis
    using inv twice same [of p s] pmm_free_page_used [of p s] by blast
qed

theorem pmm_free_page_correct_witness:
  "pmm_inv example_pmm \<and> pmm_inv (pmm_free_page 5 example_pmm)
    \<and> used_frames (pmm_free_page 5 example_pmm) = {1}
    \<and> (\<exists>r. pmm_alloc_page (pmm_free_page 5 example_pmm) = Inr r)"
proof -
  have "5 div PMM_PAGE_SIZE \<notin> bitmap_frames example_pmm" by (simp add: bitmap_frames_def example_pmm_def)
  from pmm_free_page_correct [OF example_pmm_inv this] show ?thesis
    using example_pmm_inv by (simp add: example_pmm_used)
qed

text \<open>No frame is handed out twice.  Along any sequence of page allocations, contiguous
  allocations and releases of owned frames, starting from an initialised allocator in which the
  first frame is reserved, every owned frame is marked in use, none is one of the bitmap's
  frames, and the next allocation returns a frame nobody owns.\<close>

theorem pmm_no_double_handout:
  assumes "pmm_inv s0" and "0 \<in> used_frames s0" and "pmm_step\<^sup>*\<^sup>* (s0, {}) (s, own)"
  shows "own \<subseteq> used_frames s - bitmap_frames s \<and>
    (\<forall>p s'. pmm_alloc_page s = Inr (p, s') \<longrightarrow> p div PMM_PAGE_SIZE \<notin> own)"
proof -
  have "pmm_inv s" "own \<subseteq> used_frames s - bitmap_frames s"
    using pmm_steps_inv [OF assms(3,1,2)] by auto
  then show ?thesis using pmm_alloc_page_state(3) [of s] by blast
qed

theorem pmm_no_double_handout_witness:
  "\<exists>p s. pmm_alloc_page example_pmm = Inr (p, s) \<and> pmm_step (example_pmm, {}) (s, {p div PMM_PAGE_SIZE})
    \<and> {p div PMM_PAGE_SIZE} \<subseteq> used_frames s - bitmap_frames s"
proof -
  obtain p s where ps: "pmm_alloc_page example_pmm = Inr (p, s)"
    using pmm_alloc_page_cases [OF example_pmm_inv] example_pmm_used
    by (metis example_pmm_def lessThan_iff pmm.select_convs(1) insertE empty_iff numeral_less_iff
        semiring_norm(76) numeral_eq_one_iff semiring_norm(85) semiring_norm(78) surj_pair zero_neq_numeral)
  then have st: "pmm_step (example_pmm, {}) (s, insert (p div PMM_PAGE_SIZE) {})"
    by (rule pmm_step.step_page)
  have "0 \<in> used_frames example_pmm" by (simp add: example_pmm_used)
  from pmm_no_double_handout [OF example_pmm_inv this r_into_rtranclp, OF st] show ?thesis
    using ps st by blast
qed

end
