(* ===== verification/Vmm.thy ===== *)
theory Vmm
  imports Pmm
begin

unbundle bit_operations_syntax

text \<open>
  Four-level x86-64 page tables, \<^verbatim>\<open>src/src/mm/vmm.c\<close> and \<^verbatim>\<open>src/src/mm/kernel_addr.c\<close>.  The tables
  are frames of the same physical memory the allocator manages: an entry is a 64-bit word of
  \<open>ram\<close>, a new table is a frame from \<^verbatim>\<open>pmm_alloc_page\<close>.  The value of CR3 is an argument
  (\<open>root\<close>, the physical address of the PML4), TLB invalidation (\<^verbatim>\<open>invlpg\<close>) has no counterpart
  in the model, and virtual addresses are natural numbers below \<open>2 ^ 64\<close>.

  Translation is compared before and after an operation through the recursive \<open>walk\<close>, which
  \<^verbatim>\<open>vmm_virt_to_phys\<close> is proved to compute; \<open>vm_wf\<close> says the tables form a tree of frames that
  are in use and are not the allocator's bitmap.
\<close>

subsection \<open>Entries and flags\<close>

abbreviation PT_PRESENT :: u64 where "PT_PRESENT \<equiv> 1"
abbreviation PT_WRITE :: u64 where "PT_WRITE \<equiv> 2"
abbreviation PT_USER :: u64 where "PT_USER \<equiv> 4"
abbreviation PT_PCD :: u64 where "PT_PCD \<equiv> 16"
abbreviation PT_HUGE :: u64 where "PT_HUGE \<equiv> 128"
abbreviation PT_NX :: u64 where "PT_NX \<equiv> 0x8000000000000000"
abbreviation ADDR_MASK :: u64 where "ADDR_MASK \<equiv> 0x000FFFFFFFFFF000"

definition VMM_W :: u64 where "VMM_W = 2"
definition VMM_USER :: u64 where "VMM_USER = 4"
definition VMM_PCD :: u64 where "VMM_PCD = 16"
definition VMM_NX :: u64 where "VMM_NX = 0x8000000000000000"

definition present :: "u64 \<Rightarrow> bool" where
  "present e \<longleftrightarrow> e AND PT_PRESENT \<noteq> 0"

definition huge :: "u64 \<Rightarrow> bool" where
  "huge e \<longleftrightarrow> e AND PT_HUGE \<noteq> 0"

definition table_virt :: "u64 \<Rightarrow> nat" where
  "table_virt e = unat (e AND ADDR_MASK)"

definition pt_index :: "nat \<Rightarrow> nat \<Rightarrow> nat" where
  "pt_index shift v = v div 2 ^ shift mod 512"

definition pt_read :: "pmm \<Rightarrow> nat \<Rightarrow> nat \<Rightarrow> u64" where
  "pt_read s table i = read64 (ram s) (table + 8 * i)"

definition pt_write :: "nat \<Rightarrow> nat \<Rightarrow> u64 \<Rightarrow> pmm \<Rightarrow> pmm" where
  "pt_write table i e s = s\<lparr>ram := write64 (ram s) (table + 8 * i) e\<rparr>"

definition leaf_flags :: "u64 \<Rightarrow> u64" where
  "leaf_flags flags =
     PT_PRESENT OR (if flags AND VMM_W \<noteq> 0 then PT_WRITE else 0)
     OR (if flags AND VMM_USER \<noteq> 0 then PT_USER else 0)
     OR (if flags AND VMM_PCD \<noteq> 0 then PT_PCD else 0)
     OR (if flags AND VMM_NX \<noteq> 0 then PT_NX else 0)"

subsection \<open>Mapping\<close>

definition next_table :: "nat \<Rightarrow> nat \<Rightarrow> pmm \<Rightarrow> (nat \<times> pmm) result" where
  "next_table parent index s =
     (let entry = pt_read s parent index
      in if \<not> present entry then
           (case pmm_alloc_page s of
              Inl msg \<Rightarrow> Inl msg
            | Inr (fresh, s1) \<Rightarrow>
                Inr (fresh, pt_write parent index (of_nat fresh OR PT_PRESENT OR PT_WRITE OR PT_USER) s1))
         else if huge entry then Inl ''vmm: mmio_map hit a huge page in a parent chain''
         else Inr (table_virt entry, s))"

definition map_page :: "nat \<Rightarrow> nat \<Rightarrow> u64 \<Rightarrow> u64 \<Rightarrow> pmm \<Rightarrow> pmm result" where
  "map_page root v p f s =
     (case next_table root (pt_index 39 v) s of Inl msg \<Rightarrow> Inl msg | Inr (pdpt, s1) \<Rightarrow>
      (case next_table pdpt (pt_index 30 v) s1 of Inl msg \<Rightarrow> Inl msg | Inr (pd, s2) \<Rightarrow>
       (case next_table pd (pt_index 21 v) s2 of Inl msg \<Rightarrow> Inl msg | Inr (pt, s3) \<Rightarrow>
         Inr (pt_write pt (pt_index 12 v) ((p AND ADDR_MASK) OR f) s3))))"

text \<open>The page loop \<^verbatim>\<open>for (; v < end; v += PAGE_SIZE, p += PAGE_SIZE)\<close>.  Both bounds are
  multiples of the page size below \<open>2 ^ 64\<close>, so the increment of \<open>v\<close> cannot wrap.\<close>

function map_loop :: "nat \<Rightarrow> nat \<Rightarrow> nat \<Rightarrow> u64 \<Rightarrow> u64 \<Rightarrow> pmm \<Rightarrow> pmm result" where
  "map_loop root v end p f s =
     (if v < end
      then (case map_page root v p f s of
              Inl msg \<Rightarrow> Inl msg
            | Inr s' \<Rightarrow> map_loop root (v + PMM_PAGE_SIZE) end (p + 4096) f s')
      else Inr s)"
  by pat_completeness auto
termination
  by (relation "measure (\<lambda>(root, v, end, p, f, s). end - v)") auto

declare map_loop.simps [simp del]

definition page_down :: "nat \<Rightarrow> nat" where
  "page_down a = a div PMM_PAGE_SIZE * PMM_PAGE_SIZE"

definition range_end :: "nat \<Rightarrow> nat \<Rightarrow> nat" where
  "range_end virt sz = page_down (wrap64 (virt + sz + PMM_PAGE_SIZE - 1))"

definition vmm_map :: "nat \<Rightarrow> nat \<Rightarrow> u64 \<Rightarrow> nat \<Rightarrow> u64 \<Rightarrow> pmm \<Rightarrow> pmm result" where
  "vmm_map root virt phys sz flags s =
     map_loop root (page_down virt) (range_end virt sz) (phys AND NOT 4095) (leaf_flags flags) s"

definition mmio_map :: "nat \<Rightarrow> nat \<Rightarrow> u64 \<Rightarrow> nat \<Rightarrow> pmm \<Rightarrow> pmm result" where
  "mmio_map root virt phys sz s = vmm_map root virt phys sz (VMM_W OR VMM_PCD) s"

subsection \<open>Unmapping\<close>

definition unmap_page :: "nat \<Rightarrow> nat \<Rightarrow> pmm \<Rightarrow> pmm" where
  "unmap_page root v s =
     (let e4 = pt_read s root (pt_index 39 v)
      in if \<not> present e4 then s
         else let e3 = pt_read s (table_virt e4) (pt_index 30 v)
      in if \<not> present e3 \<or> huge e3 then s
         else let e2 = pt_read s (table_virt e3) (pt_index 21 v)
      in if \<not> present e2 \<or> huge e2 then s
         else pt_write (table_virt e2) (pt_index 12 v) 0 s)"

function unmap_loop :: "nat \<Rightarrow> nat \<Rightarrow> nat \<Rightarrow> pmm \<Rightarrow> pmm" where
  "unmap_loop root v end s =
     (if v < end then unmap_loop root (v + PMM_PAGE_SIZE) end (unmap_page root v s) else s)"
  by pat_completeness auto
termination
  by (relation "measure (\<lambda>(root, v, end, s). end - v)") auto

declare unmap_loop.simps [simp del]

definition vmm_unmap :: "nat \<Rightarrow> nat \<Rightarrow> nat \<Rightarrow> pmm \<Rightarrow> pmm" where
  "vmm_unmap root virt sz s = unmap_loop root (page_down virt) (range_end virt sz) s"

subsection \<open>Translation\<close>

text \<open>The C function returns -1 (here \<open>None\<close>) or stores the physical address and returns 0.\<close>

definition vmm_virt_to_phys :: "nat \<Rightarrow> pmm \<Rightarrow> nat \<Rightarrow> u64 option" where
  "vmm_virt_to_phys root s v =
     (let e4 = pt_read s root (pt_index 39 v)
      in if \<not> present e4 then None else if huge e4 then None
         else let e3 = pt_read s (table_virt e4) (pt_index 30 v)
      in if \<not> present e3 then None
         else if huge e3 then Some ((e3 AND 0x000fffffc0000000) + (of_nat v AND 0x3fffffff))
         else let e2 = pt_read s (table_virt e3) (pt_index 21 v)
      in if \<not> present e2 then None
         else if huge e2 then Some ((e2 AND 0x000fffffffffe000) + (of_nat v AND 0x1fffff))
         else let e1 = pt_read s (table_virt e2) (pt_index 12 v)
      in if \<not> present e1 then None else if huge e1 then None
         else Some ((e1 AND ADDR_MASK) OR (of_nat v AND 4095)))"

text \<open>\<^verbatim>\<open>kernel_virt_to_phys\<close>; the argument \<open>slide\<close> is Limine's kernel address response (virtual
  base, physical base), if there is one.\<close>

definition kernel_virt_to_phys :: "(u64 \<times> u64) option \<Rightarrow> nat \<Rightarrow> pmm \<Rightarrow> nat \<Rightarrow> u64" where
  "kernel_virt_to_phys slide root s va =
     (case vmm_virt_to_phys root s va of
        Some p \<Rightarrow> p
      | None \<Rightarrow> (case slide of Some (vb, pb) \<Rightarrow> pb + (of_nat va - vb) | None \<Rightarrow> 0))"

subsection \<open>Table trees\<close>

definition lvl_shift :: "nat \<Rightarrow> nat" where
  "lvl_shift l = 9 * l + 3"

definition entry_at :: "pmm \<Rightarrow> nat \<Rightarrow> nat \<Rightarrow> nat \<Rightarrow> u64" where
  "entry_at s l f v = pt_read s (f * PMM_PAGE_SIZE) (pt_index (lvl_shift l) v)"

definition target :: "u64 \<Rightarrow> nat" where
  "target e = table_virt e div PMM_PAGE_SIZE"

definition points_down :: "u64 \<Rightarrow> bool" where
  "points_down e \<longleftrightarrow> present e \<and> \<not> huge e"

definition huge_target :: "nat \<Rightarrow> u64 \<Rightarrow> nat \<Rightarrow> u64 option" where
  "huge_target l e v =
     (if l = 3 then Some ((e AND 0x000fffffc0000000) + (of_nat v AND 0x3fffffff))
      else if l = 2 then Some ((e AND 0x000fffffffffe000) + (of_nat v AND 0x1fffff)) else None)"

fun walk :: "pmm \<Rightarrow> nat \<Rightarrow> nat \<Rightarrow> nat \<Rightarrow> u64 option" where
  "walk s 0 f v = None"
| "walk s (Suc 0) f v =
     (let e = entry_at s 1 f v
      in if points_down e then Some ((e AND ADDR_MASK) OR (of_nat v AND 4095)) else None)"
| "walk s (Suc (Suc l)) f v =
     (let e = entry_at s (Suc (Suc l)) f v
      in if \<not> present e then None
         else if huge e then huge_target (Suc (Suc l)) e v
         else walk s (Suc l) (target e) v)"

text \<open>The last-level table an address leads to, if the walk reaches one.\<close>

fun leaf_table :: "pmm \<Rightarrow> nat \<Rightarrow> nat \<Rightarrow> nat \<Rightarrow> nat option" where
  "leaf_table s 0 f v = None"
| "leaf_table s (Suc 0) f v = Some f"
| "leaf_table s (Suc (Suc l)) f v =
     (let e = entry_at s (Suc (Suc l)) f v
      in if points_down e then leaf_table s (Suc l) (target e) v else None)"

text \<open>A labelling of the table frames by their level, 4 for the root down to 1.\<close>

definition vm_wf :: "pmm \<Rightarrow> nat \<Rightarrow> (nat \<Rightarrow> nat option) \<Rightarrow> bool" where
  "vm_wf s root L \<longleftrightarrow>
     pmm_inv s \<and> total_pages s \<le> 2 ^ 40
   \<and> root mod PMM_PAGE_SIZE = 0 \<and> L (root div PMM_PAGE_SIZE) = Some 4
   \<and> (\<forall>f l. L f = Some l \<longrightarrow> 1 \<le> l \<and> l \<le> 4 \<and> f \<in> used_frames s \<and> f \<notin> bitmap_frames s)
   \<and> (\<forall>f l i. L f = Some l \<longrightarrow> 1 < l \<longrightarrow> i < 512 \<longrightarrow>
        points_down (pt_read s (f * PMM_PAGE_SIZE) i) \<longrightarrow>
        L (target (pt_read s (f * PMM_PAGE_SIZE) i)) = Some (l - 1))
   \<and> (\<forall>f i. L f = Some 4 \<longrightarrow> i < 512 \<longrightarrow> \<not> huge (pt_read s (f * PMM_PAGE_SIZE) i))
   \<and> (\<forall>f l i f' l' i'. L f = Some l \<longrightarrow> 1 < l \<longrightarrow> i < 512 \<longrightarrow> L f' = Some l' \<longrightarrow> 1 < l' \<longrightarrow> i' < 512 \<longrightarrow>
        points_down (pt_read s (f * PMM_PAGE_SIZE) i) \<longrightarrow>
        points_down (pt_read s (f' * PMM_PAGE_SIZE) i') \<longrightarrow>
        target (pt_read s (f * PMM_PAGE_SIZE) i) = target (pt_read s (f' * PMM_PAGE_SIZE) i') \<longrightarrow>
        f = f' \<and> i = i')"

text \<open>A machine with sixteen frames for the concrete instances: frame 1 holds the bitmap, frame 2 an
  empty PML4.\<close>

definition example_vm :: pmm where
  "example_vm = \<lparr>total_pages = 16, used_pages = 3, bitmap_size = 2, bitmap_phys_base = 4096,
     bitmap_pages = 1, alloc_hint = 0, ram = (\<lambda>_. 0)(4096 := 7)\<rparr>"

text \<open>Two addresses in the same page of the 48-bit space the tables cover.\<close>

definition same_page :: "nat \<Rightarrow> nat \<Rightarrow> bool" where
  "same_page v w \<longleftrightarrow> v div PMM_PAGE_SIZE mod 2 ^ 36 = w div PMM_PAGE_SIZE mod 2 ^ 36"

subsection \<open>Entries\<close>

lemma pow2_bit: "bit ((2 :: u64) ^ k) n \<longleftrightarrow> n = k \<and> k < 64"
  by (auto simp: bit_exp_iff)

lemma flag_bits:
  "bit (1 :: u64) n \<longleftrightarrow> n = 0" "bit (2 :: u64) n \<longleftrightarrow> n = 1" "bit (4 :: u64) n \<longleftrightarrow> n = 2"
  "bit (16 :: u64) n \<longleftrightarrow> n = 4" "bit PT_HUGE n \<longleftrightarrow> n = 7" "bit PT_NX n \<longleftrightarrow> n = 63"
  using pow2_bit [of 0 n] pow2_bit [of 1 n] pow2_bit [of 2 n] pow2_bit [of 4 n]
    pow2_bit [of 7 n] pow2_bit [of 63 n] by simp_all

lemma present_bit: "present e \<longleftrightarrow> bit e 0"
  using bit_iff_and_push_bit_not_eq_0 [of e 0] by (simp add: present_def)

lemma huge_bit: "huge e \<longleftrightarrow> bit e 7"
  using bit_iff_and_push_bit_not_eq_0 [of e 7] by (simp add: huge_def)

lemma addr_mask_bit: "bit ADDR_MASK n \<longleftrightarrow> 12 \<le> n \<and> n < 52"
proof -
  have "ADDR_MASK = push_bit 12 (mask 40)" by (simp add: mask_eq_exp_minus_1 push_bit_eq_mult)
  moreover have "bit (push_bit 12 (mask 40) :: u64) n \<longleftrightarrow> 12 \<le> n \<and> n < 52"
    by (simp only: bit_push_bit_iff bit_mask_iff) auto
  ultimately show ?thesis by (simp only:)
qed

lemma table_virt_aligned: "table_virt e mod PMM_PAGE_SIZE = 0"
proof -
  have "take_bit 12 (e AND ADDR_MASK) = 0"
    by (rule bit_word_eqI) (simp only: bit_take_bit_iff bit_and_iff addr_mask_bit, simp)
  then have "unat (take_bit 12 (e AND ADDR_MASK)) = 0" by (simp only: unsigned_0)
  then have "take_bit 12 (unat (e AND ADDR_MASK)) = 0" by (simp only: unsigned_take_bit_eq)
  then show ?thesis by (simp add: table_virt_def take_bit_eq_mod)
qed

lemma table_virt_target: "table_virt e = target e * PMM_PAGE_SIZE"
  using table_virt_aligned [of e] by (auto simp: target_def)

lemma zero_entry [simp]: "\<not> present 0" "\<not> huge 0" "\<not> points_down 0"
  by (simp_all add: present_def huge_def points_down_def)

text \<open>The entry \<^verbatim>\<open>next_table\<close> installs names the fresh frame.\<close>

lemma frame_word_bit:
  "i < 2 ^ 40 \<Longrightarrow> bit (of_nat (i * PMM_PAGE_SIZE) :: u64) n \<Longrightarrow> 12 \<le> n \<and> n < 52"
proof -
  assume i: "i < 2 ^ 40" and b: "bit (of_nat (i * PMM_PAGE_SIZE) :: u64) n"
  have "(of_nat (i * PMM_PAGE_SIZE) :: u64) = push_bit 12 (of_nat i)"
    by (simp add: push_bit_eq_mult)
  with b have n: "12 \<le> n" "bit (of_nat i :: u64) (n - 12)" by (auto simp: bit_simps)
  have "take_bit 40 i = i" using i by (simp add: take_bit_nat_eq_self_iff)
  then have "n - 12 < 40" using n(2) by (metis bit_of_nat_iff bit_take_bit_iff)
  with n show ?thesis by simp
qed

lemma fresh_entry:
  assumes "i < 2 ^ 40"
  defines "e \<equiv> (of_nat (i * PMM_PAGE_SIZE) OR PT_PRESENT OR PT_WRITE OR PT_USER :: u64)"
  shows "points_down e" "target e = i"
proof -
  have bits: "bit e n \<longleftrightarrow> bit (of_nat (i * PMM_PAGE_SIZE) :: u64) n \<or> n < 3" for n
    unfolding e_def bit_or_iff flag_bits by auto
  show "points_down e"
    using bits [of 0] bits [of 7] frame_word_bit [OF assms(1), of 7]
    by (auto simp: points_down_def present_bit huge_bit)
  have "e AND ADDR_MASK = of_nat (i * PMM_PAGE_SIZE)"
  proof (rule bit_word_eqI)
    fix n
    show "bit (e AND ADDR_MASK) n = bit (of_nat (i * PMM_PAGE_SIZE) :: u64) n"
      using frame_word_bit [OF assms(1), of n] unfolding bit_and_iff bits addr_mask_bit by auto
  qed
  moreover have "unat (of_nat (i * PMM_PAGE_SIZE) :: u64) = i * PMM_PAGE_SIZE"
    using assms(1) by (subst unat_of_nat) simp
  ultimately show "target e = i" by (simp add: target_def table_virt_def)
qed

lemma leaf_flags_bits:
  "bit (leaf_flags fl) 0" "\<not> bit (leaf_flags fl) 7" "12 \<le> n \<Longrightarrow> n < 52 \<Longrightarrow> \<not> bit (leaf_flags fl) n"
  unfolding leaf_flags_def by (simp_all only: bit_or_iff flag_bits bit_0_eq bot_apply split: if_split) auto

text \<open>A leaf entry built by \<^verbatim>\<open>vmm_map\<close> translates to the frame it was given.\<close>

lemma leaf_entry:
  "points_down ((p AND ADDR_MASK) OR leaf_flags fl)"
  "((p AND ADDR_MASK) OR leaf_flags fl) AND ADDR_MASK = p AND ADDR_MASK"
proof -
  show "points_down ((p AND ADDR_MASK) OR leaf_flags fl)"
    unfolding points_down_def present_bit huge_bit bit_or_iff bit_and_iff addr_mask_bit
    using leaf_flags_bits(1,2) [of fl] by simp
  show "((p AND ADDR_MASK) OR leaf_flags fl) AND ADDR_MASK = p AND ADDR_MASK"
    by (rule bit_word_eqI) (use leaf_flags_bits(3) [of _ fl] in
      \<open>auto simp only: bit_or_iff bit_and_iff addr_mask_bit\<close>)
qed

subsection \<open>Stores into table frames\<close>

lemma pt_index_bound [simp]: "pt_index n v < 512"
  by (simp add: pt_index_def)

lemma pt_write_fields [simp]:
  "total_pages (pt_write t i e s) = total_pages s" "used_pages (pt_write t i e s) = used_pages s"
  "alloc_hint (pt_write t i e s) = alloc_hint s" "geom_ok (pt_write t i e s) = geom_ok s"
  "bitmap_frames (pt_write t i e s) = bitmap_frames s"
  by (simp_all add: pt_write_def)

lemma pt_write_used:
  assumes "geom_ok s" "f \<notin> bitmap_frames s" "i < 512"
  shows "used_frames (pt_write (f * PMM_PAGE_SIZE) i e s) = used_frames s"
proof -
  have "bit_get (pt_write (f * PMM_PAGE_SIZE) i e s) j = bit_get s j" if "j < total_pages s" for j
  proof -
    let ?a = "bitmap_phys_base s + j div 8"
    have "?a div PMM_PAGE_SIZE \<noteq> f"
      using bitmap_byte_frame [OF assms(1) bitmap_index_byte [OF assms(1) that]] assms(2) by auto
    then have "?a < f * PMM_PAGE_SIZE + 8 * i \<or> f * PMM_PAGE_SIZE + 8 * i + 8 \<le> ?a"
      using pm.word_frame [OF assms(3), of "?a - (f * PMM_PAGE_SIZE + 8 * i)" f] by fastforce
    then show ?thesis by (simp add: bit_get_iff pt_write_def)
  qed
  then show ?thesis by (auto simp: used_frames_def)
qed

lemma pt_write_inv [inv_intros]:
  "pmm_inv s \<Longrightarrow> f \<notin> bitmap_frames s \<Longrightarrow> i < 512 \<Longrightarrow> pmm_inv (pt_write (f * PMM_PAGE_SIZE) i e s)"
  using pt_write_used [of s f i e] by (simp add: pmm_inv_def)

lemma pt_read_write:
  assumes "i < 512" "i' < 512"
  shows "pt_read (pt_write (f * PMM_PAGE_SIZE) i e s) (f' * PMM_PAGE_SIZE) i'
       = (if f' = f \<and> i' = i then e else pt_read s (f' * PMM_PAGE_SIZE) i')"
proof (cases "f' = f")
  case True
  then show ?thesis by (cases i i' rule: linorder_cases) (auto simp: pt_read_def pt_write_def)
next
  case False
  then consider "f < f'" | "f' < f" by linarith
  then have "f * PMM_PAGE_SIZE + 8 * i + 8 \<le> f' * PMM_PAGE_SIZE + 8 * i'
           \<or> f' * PMM_PAGE_SIZE + 8 * i' + 8 \<le> f * PMM_PAGE_SIZE + 8 * i"
    using assms by cases auto
  with False show ?thesis by (auto simp: pt_read_def pt_write_def)
qed

subsection \<open>The walk\<close>

lemma entry_at_shift:
  "entry_at s 4 f v = pt_read s (f * PMM_PAGE_SIZE) (pt_index 39 v)"
  "entry_at s 3 f v = pt_read s (f * PMM_PAGE_SIZE) (pt_index 30 v)"
  "entry_at s 2 f v = pt_read s (f * PMM_PAGE_SIZE) (pt_index 21 v)"
  "entry_at s (Suc 0) f v = pt_read s (f * PMM_PAGE_SIZE) (pt_index 12 v)"
  by (simp_all add: entry_at_def lvl_shift_def)

lemma walk_unfold:
  "walk s 4 f v = (let e = entry_at s 4 f v in if \<not> present e then None
      else if huge e then huge_target 4 e v else walk s 3 (target e) v)"
  "walk s 3 f v = (let e = entry_at s 3 f v in if \<not> present e then None
      else if huge e then huge_target 3 e v else walk s 2 (target e) v)"
  "walk s 2 f v = (let e = entry_at s 2 f v in if \<not> present e then None
      else if huge e then huge_target 2 e v else walk s (Suc 0) (target e) v)"
  by (simp_all add: numeral_eq_Suc Let_def)

lemma leaf_table_unfold:
  "leaf_table s 4 f v = (let e = entry_at s 4 f v in if points_down e then leaf_table s 3 (target e) v else None)"
  "leaf_table s 3 f v = (let e = entry_at s 3 f v in if points_down e then leaf_table s 2 (target e) v else None)"
  "leaf_table s 2 f v = (let e = entry_at s 2 f v in if points_down e then leaf_table s (Suc 0) (target e) v else None)"
  by (simp_all add: numeral_eq_Suc Let_def)

text \<open>\<^verbatim>\<open>vmm_virt_to_phys\<close> computes the walk from the root.\<close>

lemma virt_to_phys_walk:
  assumes "root mod PMM_PAGE_SIZE = 0"
  shows "vmm_virt_to_phys root s v = walk s 4 (root div PMM_PAGE_SIZE) v"
proof -
  have r: "root div PMM_PAGE_SIZE * PMM_PAGE_SIZE = root" using assms by auto
  show ?thesis
    unfolding vmm_virt_to_phys_def walk_unfold walk.simps(2) One_nat_def entry_at_shift r
    by (simp add: Let_def table_virt_target points_down_def huge_target_def)
qed

lemma lvl_cases: "1 \<le> l \<Longrightarrow> l = Suc 0 \<or> (\<exists>k. l = Suc (Suc k))"
  by (metis Suc_le_D One_nat_def not0_implies_Suc)

text \<open>Rules for a labelled frame.\<close>

lemma vm_wfD:
  assumes "vm_wf s root L" "L f = Some l"
  shows "1 \<le> l" "l \<le> 4" "f \<in> used_frames s" "f \<notin> bitmap_frames s"
  using assms unfolding vm_wf_def by blast+

lemma vm_wf_child:
  assumes "vm_wf s root L" "L f = Some (Suc (Suc k))" "points_down (entry_at s (Suc (Suc k)) f v)"
  shows "L (target (entry_at s (Suc (Suc k)) f v)) = Some (Suc k)"
proof -
  have "L (target (entry_at s (Suc (Suc k)) f v)) = Some (Suc (Suc k) - 1)"
    using assms unfolding vm_wf_def entry_at_def by (metis Suc_lessI pt_index_bound zero_less_Suc One_nat_def nat.inject nat.distinct(1))
  then show ?thesis by simp
qed

lemma vm_wf_root:
  assumes "vm_wf s root L"
  shows "root div PMM_PAGE_SIZE * PMM_PAGE_SIZE = root" "L (root div PMM_PAGE_SIZE) = Some 4" "pmm_inv s"
proof -
  have "root mod PMM_PAGE_SIZE = 0" using assms by (simp only: vm_wf_def)
  then show "root div PMM_PAGE_SIZE * PMM_PAGE_SIZE = root" by auto
  show "L (root div PMM_PAGE_SIZE) = Some 4" "pmm_inv s" using assms by (simp_all only: vm_wf_def)
qed

lemma vm_wf_top:
  assumes "vm_wf s root L" "L f = Some 4" "i < 512"
  shows "\<not> huge (pt_read s (f * PMM_PAGE_SIZE) i)"
  by (rule assms(1) [unfolded vm_wf_def, THEN conjunct2, THEN conjunct2, THEN conjunct2, THEN conjunct2,
        THEN conjunct2, THEN conjunct2, THEN conjunct1, rule_format, OF assms(2-)])

lemma vm_wf_inj:
  assumes "vm_wf s root L" "L f = Some l" "1 < l" "i < 512" "L f' = Some l'" "1 < l'" "i' < 512"
    "points_down (pt_read s (f * PMM_PAGE_SIZE) i)" "points_down (pt_read s (f' * PMM_PAGE_SIZE) i')"
    "target (pt_read s (f * PMM_PAGE_SIZE) i) = target (pt_read s (f' * PMM_PAGE_SIZE) i')"
  shows "f = f' \<and> i = i'"
  by (rule assms(1) [unfolded vm_wf_def, THEN conjunct2, THEN conjunct2, THEN conjunct2, THEN conjunct2,
        THEN conjunct2, THEN conjunct2, THEN conjunct2, rule_format, OF assms(2-)])

text \<open>Linking an empty table into an absent entry changes no translation.\<close>

lemma walk_link:
  assumes wf: "vm_wf s root L" and f0: "L f0 = Some l0" "1 < l0"
    and absent: "\<not> present (pt_read s (f0 * PMM_PAGE_SIZE) i0)"
    and same: "\<And>f l i. L f = Some l \<Longrightarrow> i < 512 \<Longrightarrow> (f, i) \<noteq> (f0, i0) \<Longrightarrow>
      pt_read s' (f * PMM_PAGE_SIZE) i = pt_read s (f * PMM_PAGE_SIZE) i"
    and linked: "points_down (pt_read s' (f0 * PMM_PAGE_SIZE) i0)"
      "target (pt_read s' (f0 * PMM_PAGE_SIZE) i0) = g"
    and zero: "\<And>i. i < 512 \<Longrightarrow> pt_read s' (g * PMM_PAGE_SIZE) i = 0"
  shows "L f = Some l \<Longrightarrow> walk s' l f v = walk s l f v"
proof (induction l arbitrary: f rule: less_induct)
  case (less l)
  consider "l = Suc 0" | k where "l = Suc (Suc k)"
    using lvl_cases [OF vm_wfD(1) [OF wf less.prems]] by blast
  then show ?case
  proof cases
    case 1
    then have "(f, pt_index (lvl_shift 1) v) \<noteq> (f0, i0)" using less.prems f0 by auto
    then have "entry_at s' 1 f v = entry_at s 1 f v"
      unfolding entry_at_def using same [OF less.prems] by simp
    then show ?thesis using 1 by simp
  next
    case (2 k)
    show ?thesis
    proof (cases "(f, pt_index (lvl_shift l) v) = (f0, i0)")
      case True
      have "walk s' (Suc k) g v = None"
        using zero lvl_cases [of "Suc k"] by (auto simp: entry_at_def Let_def)
      moreover have "points_down (entry_at s' l f v)" "target (entry_at s' l f v) = g"
          "\<not> present (entry_at s l f v)"
        using True linked absent by (auto simp: entry_at_def)
      ultimately show ?thesis using 2 by (auto simp: points_down_def Let_def)
    next
      case False
      then have e: "entry_at s' l f v = entry_at s l f v"
        unfolding entry_at_def using same [OF less.prems] by simp
      show ?thesis
      proof (cases "points_down (entry_at s l f v)")
        case True
        then have "L (target (entry_at s l f v)) = Some (Suc k)"
          using vm_wf_child [OF wf less.prems [unfolded 2]] 2 by simp
        then have "walk s' (Suc k) (target (entry_at s l f v)) v = walk s (Suc k) (target (entry_at s l f v)) v"
          using less.IH [of "Suc k"] 2 by simp
        then show ?thesis using 2 e by (simp add: Let_def)
      next
        case False
        then show ?thesis using 2 e by (auto simp: Let_def points_down_def)
      qed
    qed
  qed
qed

text \<open>A store into a last-level table changes only the translations that go through its slot.\<close>

lemma walk_leaf_write:
  assumes wf: "vm_wf s root L" and g: "L g = Some 1" and i: "i < 512"
    and s': "s' = pt_write (g * PMM_PAGE_SIZE) i e s"
  shows "L f = Some l \<Longrightarrow>
    walk s' l f v =
      (if leaf_table s l f v = Some g \<and> pt_index 12 v = i
       then (if points_down e then Some ((e AND ADDR_MASK) OR (of_nat v AND 4095)) else None)
       else walk s l f v)"
proof (induction l arbitrary: f rule: less_induct)
  case (less l)
  have rd: "entry_at s' l f v = (if f = g \<and> pt_index (lvl_shift l) v = i then e else entry_at s l f v)"
    by (simp add: entry_at_def s' pt_read_write i)
  consider "l = Suc 0" | k where "l = Suc (Suc k)"
    using lvl_cases [OF vm_wfD(1) [OF wf less.prems]] by blast
  then show ?case
  proof cases
    case 1
    then show ?thesis using rd by (auto simp: lvl_shift_def Let_def)
  next
    case (2 k)
    then have "f \<noteq> g" using less.prems g by auto
    then have e: "entry_at s' l f v = entry_at s l f v" using rd by simp
    show ?thesis
    proof (cases "points_down (entry_at s l f v)")
      case True
      then have "L (target (entry_at s l f v)) = Some (Suc k)"
        using vm_wf_child [OF wf less.prems [unfolded 2]] 2 by simp
      from less.IH [OF _ this] show ?thesis
        using 2 e True by (simp add: Let_def points_down_def)
    next
      case False
      then show ?thesis using 2 e by (auto simp: Let_def points_down_def)
    qed
  qed
qed

text \<open>Distinct pages never share a slot: two addresses that reach the same last-level table agree
  on every index above it.\<close>

lemma leaf_table_inj:
  assumes wf: "vm_wf s root L"
  shows "L f = Some l \<Longrightarrow> L f' = Some l \<Longrightarrow> leaf_table s l f v = Some g \<Longrightarrow> leaf_table s l f' v' = Some g \<Longrightarrow>
    f = f' \<and> (\<forall>k. 2 \<le> k \<and> k \<le> l \<longrightarrow> pt_index (lvl_shift k) v = pt_index (lvl_shift k) v')"
proof (induction l arbitrary: f f' rule: less_induct)
  case (less l)
  consider "l = Suc 0" | k where "l = Suc (Suc k)"
    using lvl_cases [OF vm_wfD(1) [OF wf less.prems(1)]] by blast
  then show ?case
  proof cases
    case 1
    then show ?thesis using less.prems by auto
  next
    case (2 k)
    let ?e = "entry_at s l f v" and ?e' = "entry_at s l f' v'"
    have pd: "points_down ?e" "points_down ?e'"
      and lt: "leaf_table s (Suc k) (target ?e) v = Some g" "leaf_table s (Suc k) (target ?e') v' = Some g"
      using less.prems(3,4) 2 by (auto simp: Let_def split: if_splits)
    have "L (target ?e) = Some (Suc k)" "L (target ?e') = Some (Suc k)"
      using vm_wf_child [OF wf] less.prems(1,2) 2 pd by auto
    then have ih: "target ?e = target ?e'"
        "\<forall>j. 2 \<le> j \<and> j \<le> Suc k \<longrightarrow> pt_index (lvl_shift j) v = pt_index (lvl_shift j) v'"
      using less.IH [OF _ _ _ lt] 2 by auto
    have "1 < l" using 2 by simp
    then have "f = f' \<and> pt_index (lvl_shift l) v = pt_index (lvl_shift l) v'"
      using vm_wf_inj [OF wf less.prems(1) \<open>1 < l\<close> pt_index_bound less.prems(2) \<open>1 < l\<close> pt_index_bound]
        pd ih(1) unfolding entry_at_def by blast
    then show ?thesis using ih(2) 2 by (metis le_Suc_eq)
  qed
qed

subsection \<open>One level down\<close>

lemma vm_wf_link:
  assumes wf: "vm_wf s root L" and f: "L f = Some (Suc (Suc k))" and i: "i < 512"
    and s': "pmm_inv s'" "total_pages s' = total_pages s" "bitmap_frames s' = bitmap_frames s"
      "used_frames s' = insert g (used_frames s)"
    and g: "g \<notin> used_frames s"
    and old: "\<And>h j. L h \<noteq> None \<Longrightarrow> j < 512 \<Longrightarrow> (h, j) \<noteq> (f, i) \<Longrightarrow>
      pt_read s' (h * PMM_PAGE_SIZE) j = pt_read s (h * PMM_PAGE_SIZE) j"
    and new: "points_down (pt_read s' (f * PMM_PAGE_SIZE) i)" "target (pt_read s' (f * PMM_PAGE_SIZE) i) = g"
    and zero: "\<And>j. j < 512 \<Longrightarrow> pt_read s' (g * PMM_PAGE_SIZE) j = 0"
  shows "vm_wf s' root (L(g \<mapsto> Suc k))"
proof -
  let ?L = "L(g \<mapsto> Suc k)"
  have Lg: "L g = None" using vm_wfD(3) [OF wf, of g] g by (cases "L g") auto
  have child: "h = f \<and> j = i \<and> l = Suc (Suc k) \<and> target (pt_read s' (h * PMM_PAGE_SIZE) j) = g
      \<or> L h = Some l \<and> (h, j) \<noteq> (f, i) \<and> pt_read s' (h * PMM_PAGE_SIZE) j = pt_read s (h * PMM_PAGE_SIZE) j
        \<and> L (target (pt_read s (h * PMM_PAGE_SIZE) j)) = Some (l - 1)"
    if "?L h = Some l" "1 < l" "j < 512" "points_down (pt_read s' (h * PMM_PAGE_SIZE) j)" for h j l
  proof (cases "h = g")
    case True
    then show ?thesis using that zero by auto
  next
    case False
    with that have h: "L h = Some l" by simp
    show ?thesis
    proof (cases "(h, j) = (f, i)")
      case True
      then show ?thesis using h f new by auto
    next
      case False
      then have "pt_read s' (h * PMM_PAGE_SIZE) j = pt_read s (h * PMM_PAGE_SIZE) j" using old h that by auto
      then show ?thesis using h False wf that unfolding vm_wf_def by auto
    qed
  qed
  have down: "?L (target (pt_read s' (h * PMM_PAGE_SIZE) j)) = Some (l - 1)"
    if "?L h = Some l" "1 < l" "j < 512" "points_down (pt_read s' (h * PMM_PAGE_SIZE) j)" for h j l
    using child [OF that] Lg by auto
  have inj: "h = h' \<and> j = j'"
    if a: "?L h = Some l" "1 < l" "j < 512" and b: "?L h' = Some l'" "1 < l'" "j' < 512"
      and c: "points_down (pt_read s' (h * PMM_PAGE_SIZE) j)" "points_down (pt_read s' (h' * PMM_PAGE_SIZE) j')"
      and t: "target (pt_read s' (h * PMM_PAGE_SIZE) j) = target (pt_read s' (h' * PMM_PAGE_SIZE) j')"
    for h l j h' l' j'
    using child [OF a c(1)] child [OF b c(2)] t Lg a b c vm_wf_inj [OF wf, of h l j h' l' j'] by auto
  have top: "\<not> huge (pt_read s' (h * PMM_PAGE_SIZE) j)" if "?L h = Some 4" "j < 512" for h j
  proof (cases "h = g \<or> (h, j) = (f, i)")
    case True
    then show ?thesis using zero new that by (auto simp: points_down_def)
  next
    case False
    then show ?thesis using old wf that unfolding vm_wf_def by auto
  qed
  have "g \<notin> bitmap_frames s" using g wf by (auto simp: vm_wf_def pmm_inv_def)
  then have lab: "1 \<le> l \<and> l \<le> 4 \<and> h \<in> used_frames s' \<and> h \<notin> bitmap_frames s'" if "?L h = Some l" for h l
    using that vm_wfD [OF wf, of h l] vm_wfD(2) [OF wf f] s'(3,4) by (auto split: if_splits)
  have rt: "?L (root div PMM_PAGE_SIZE) = Some 4" "root mod PMM_PAGE_SIZE = 0" "total_pages s' \<le> 2 ^ 40"
    using wf Lg s'(2) by (auto simp: vm_wf_def)
  show ?thesis
    unfolding vm_wf_def using s'(1) rt lab down top inj by (intro conjI allI impI) metis+
qed

text \<open>What a successful \<^verbatim>\<open>next_table\<close> guarantees: the slot now points at table \<open>g\<close>, labelled one
  level below; labels, live links and all translations are kept.\<close>

definition stepped :: "pmm \<Rightarrow> pmm \<Rightarrow> nat \<Rightarrow> (nat \<Rightarrow> nat option) \<Rightarrow> (nat \<Rightarrow> nat option) \<Rightarrow> nat \<Rightarrow> nat \<Rightarrow> nat \<Rightarrow> nat \<Rightarrow> bool" where
  "stepped s s' root L L' f i g k \<longleftrightarrow>
     vm_wf s' root L' \<and> L' g = Some (Suc k) \<and> L \<subseteq>\<^sub>m L'
   \<and> points_down (pt_read s' (f * PMM_PAGE_SIZE) i) \<and> target (pt_read s' (f * PMM_PAGE_SIZE) i) = g
   \<and> (\<forall>h l v. L h = Some l \<longrightarrow> walk s' l h v = walk s l h v)
   \<and> (\<forall>h j. L h \<noteq> None \<longrightarrow> j < 512 \<longrightarrow> points_down (pt_read s (h * PMM_PAGE_SIZE) j) \<longrightarrow>
        pt_read s' (h * PMM_PAGE_SIZE) j = pt_read s (h * PMM_PAGE_SIZE) j)"

lemma next_table_step:
  assumes wf: "vm_wf s root L" and f: "L f = Some (Suc (Suc k))" and i: "i < 512"
    and nt: "next_table (f * PMM_PAGE_SIZE) i s = Inr (t, s')"
  obtains L' g where "t = g * PMM_PAGE_SIZE" "stepped s s' root L L' f i g k"
proof (cases "present (pt_read s (f * PMM_PAGE_SIZE) i)")
  case True
  then have "points_down (pt_read s (f * PMM_PAGE_SIZE) i)" "s' = s" "t = table_virt (pt_read s (f * PMM_PAGE_SIZE) i)"
    using nt by (auto simp: next_table_def points_down_def Let_def split: if_splits)
  moreover have "L (target (pt_read s (f * PMM_PAGE_SIZE) i)) = Some (Suc k)"
    using wf f i \<open>points_down _\<close> unfolding vm_wf_def by (metis One_nat_def Suc_less_eq diff_Suc_1 zero_less_Suc)
  ultimately show thesis
    using wf by (intro that [of "target (pt_read s (f * PMM_PAGE_SIZE) i)" L]) (auto simp: table_virt_target stepped_def)
next
  case False
  then obtain fresh s1 where al: "pmm_alloc_page s = Inr (fresh, s1)" and t: "t = fresh"
    and s': "s' = pt_write (f * PMM_PAGE_SIZE) i (of_nat fresh OR PT_PRESENT OR PT_WRITE OR PT_USER) s1"
    using nt by (auto simp: next_table_def Let_def split: sum.splits)
  have inv: "pmm_inv s" using wf by (simp add: vm_wf_def)
  note st = pmm_alloc_page_state [OF inv al]
  let ?g = "fresh div PMM_PAGE_SIZE"
  have fr: "fresh = ?g * PMM_PAGE_SIZE" using st(1) by auto
  have g40: "?g < 2 ^ 40" using st(2) wf by (simp add: vm_wf_def)
  have fu: "f \<in> used_frames s" "f \<notin> bitmap_frames s" using vm_wfD [OF wf f] by auto
  have "f \<noteq> ?g" using fu st(3) by auto
  have tp: "total_pages s1 = total_pages s"
    using pmm_alloc_page_Inr [OF inv al] take_frame_simps(2) by (metis snd_conv)
  have old: "pt_read s' (h * PMM_PAGE_SIZE) j = pt_read s (h * PMM_PAGE_SIZE) j"
    if "L h \<noteq> None" "j < 512" "(h, j) \<noteq> (f, i)" for h j
  proof -
    obtain l where "L h = Some l" using \<open>L h \<noteq> None\<close> by auto
    then have "pt_read s1 (h * PMM_PAGE_SIZE) j = pt_read s (h * PMM_PAGE_SIZE) j"
      using pm.alloc_word_other [OF inv al that(2)] vm_wfD [OF wf] by (simp add: pt_read_def)
    then show ?thesis using that i by (auto simp: s' pt_read_write)
  qed
  have zero: "pt_read s' (?g * PMM_PAGE_SIZE) j = 0" if "j < 512" for j
  proof -
    have "pt_read s1 (?g * PMM_PAGE_SIZE) j = 0"
      using pm.alloc_word_zero [OF inv al that] fr by (metis pt_read_def)
    then show ?thesis using pt_read_write [OF i that] \<open>f \<noteq> ?g\<close> by (simp only: s') simp
  qed
  have rd: "pt_read s' (f * PMM_PAGE_SIZE) i = (of_nat (?g * PMM_PAGE_SIZE) OR PT_PRESENT OR PT_WRITE OR PT_USER)"
    using i fr by (simp add: s' pt_read_write)
  note new = fresh_entry [OF g40, folded rd]
  have "pmm_inv s'" unfolding s' using st(5,6) fu i by (intro pt_write_inv) auto
  moreover have "used_frames s' = insert ?g (used_frames s)"
    unfolding s' using st(4-6) fu i by (subst pt_write_used) (auto simp: pmm_inv_def)
  ultimately have wf': "vm_wf s' root (L(?g \<mapsto> Suc k))"
    using st(3,6) tp by (intro vm_wf_link [OF wf f i _ _ _ _ _ old new zero]) (simp_all add: s')
  have Lg: "L ?g = None" using vm_wfD(3) [OF wf, of ?g] st(3) by (cases "L ?g") auto
  have "L \<subseteq>\<^sub>m L(?g \<mapsto> Suc k)" using Lg by (auto simp: map_le_def)
  moreover have "walk s' l h v = walk s l h v" if "L h = Some l" for h l v
    using that old zero by (intro walk_link [OF wf f _ False _ new(1,2)]) auto
  moreover have "pt_read s' (h * PMM_PAGE_SIZE) j = pt_read s (h * PMM_PAGE_SIZE) j"
    if "L h \<noteq> None" "j < 512" "points_down (pt_read s (h * PMM_PAGE_SIZE) j)" for h j
    using that False old by (auto simp: points_down_def)
  ultimately have "stepped s s' root L (L(?g \<mapsto> Suc k)) f i ?g k"
    using wf' new unfolding stepped_def by simp
  moreover have "t = ?g * PMM_PAGE_SIZE" using t fr by simp
  ultimately show thesis by (rule that [rotated])
qed

subsection \<open>Pages and indices\<close>

lemma same_page_indices:
  "same_page v w \<longleftrightarrow> (\<forall>k. 1 \<le> k \<and> k \<le> 4 \<longrightarrow> pt_index (lvl_shift k) v = pt_index (lvl_shift k) w)"
proof -
  have four: "(\<forall>k. 1 \<le> k \<and> k \<le> 4 \<longrightarrow> P k) \<longleftrightarrow> P 1 \<and> P 2 \<and> P 3 \<and> P (4::nat)" for P
  proof -
    have "1 \<le> k \<and> k \<le> 4 \<longleftrightarrow> k = 1 \<or> k = 2 \<or> k = 3 \<or> k = 4" for k :: nat by linarith
    then show ?thesis by metis
  qed
  have split: "x mod 2 ^ 36 = x mod 512 + 512 * (x div 512 mod 512 + 512 * (x div 512 div 512 mod 512
      + 512 * (x div 512 div 512 div 512 mod 512)))" for x :: nat
    using mod_mult2_eq [of x 512 "512 * (512 * 512)"] mod_mult2_eq [of "x div 512" 512 "512 * 512"]
      mod_mult2_eq [of "x div 512 div 512" 512 512] by simp
  have idx: "pt_index (lvl_shift 1) u = u div PMM_PAGE_SIZE mod 512"
    "pt_index (lvl_shift 2) u = u div PMM_PAGE_SIZE div 512 mod 512"
    "pt_index (lvl_shift 3) u = u div PMM_PAGE_SIZE div 512 div 512 mod 512"
    "pt_index (lvl_shift 4) u = u div PMM_PAGE_SIZE div 512 div 512 div 512 mod 512" for u
    by (simp_all add: pt_index_def lvl_shift_def div_mult2_eq [symmetric])
  have base: "a + 512 * b = c + 512 * d \<longleftrightarrow> a = c \<and> b = d" if "a < 512" "c < 512" for a b c d :: nat
  proof -
    have "(a + 512 * b) mod 512 = a" "(a + 512 * b) div 512 = b"
      "(c + 512 * d) mod 512 = c" "(c + 512 * d) div 512 = d" using that by simp_all
    then show ?thesis by metis
  qed
  show ?thesis
    unfolding four idx same_page_def split
    by (simp only: base mod_less_divisor zero_less_numeral)
qed

lemma same_page_refl [simp]: "same_page v v"
  by (simp add: same_page_def)

lemma page_offset_same: "x div PMM_PAGE_SIZE = k \<Longrightarrow> same_page (k * PMM_PAGE_SIZE) x"
  by (auto simp: same_page_def)

lemma mod_differ: "i < j \<Longrightarrow> j < i + (n::nat) \<Longrightarrow> j mod n \<noteq> i mod n"
proof
  assume a: "i < j" "j < i + n" "j mod n = i mod n"
  then have "n dvd j - i" by (metis mod_eq_dvd_iff_nat less_imp_le)
  with a show False by (auto dest: dvd_imp_le)
qed

lemma far_pages_differ:
  "i < j \<Longrightarrow> j < i + 2 ^ 36 \<Longrightarrow> \<not> same_page (j * PMM_PAGE_SIZE) (i * PMM_PAGE_SIZE)"
  unfolding same_page_def using mod_differ [of i j "2 ^ 36"] by simp

lemma leaf_table_same:
  "l \<le> 4 \<Longrightarrow> same_page v w \<Longrightarrow> leaf_table s l f v = leaf_table s l f w"
proof (induction s l f v rule: leaf_table.induct)
  case (3 s l f v)
  then have "pt_index (lvl_shift (Suc (Suc l))) v = pt_index (lvl_shift (Suc (Suc l))) w"
    unfolding same_page_indices by simp
  then show ?case using 3 by (simp add: entry_at_def Let_def)
qed auto

lemma leaf_slot_same_page:
  assumes wf: "vm_wf s root L" and f: "L f = Some 4"
    and "leaf_table s 4 f v = Some g" "leaf_table s 4 f w = Some g" "pt_index 12 v = pt_index 12 w"
  shows "same_page v w"
proof -
  have "\<forall>k. 2 \<le> k \<and> k \<le> 4 \<longrightarrow> pt_index (lvl_shift k) v = pt_index (lvl_shift k) w"
    using leaf_table_inj [OF wf f f assms(3,4)] by blast
  moreover have "pt_index (lvl_shift 1) v = pt_index (lvl_shift 1) w"
    using assms(5) by (simp add: lvl_shift_def)
  ultimately show ?thesis unfolding same_page_indices
    by (metis One_nat_def Suc_1 Suc_leI le_neq_implies_less)
qed

lemma leaf_table_label:
  "vm_wf s root L \<Longrightarrow> L f = Some l \<Longrightarrow> leaf_table s l f v = Some g \<Longrightarrow> L g = Some 1"
proof (induction s l f v rule: leaf_table.induct)
  case (3 s l f v)
  then have pd: "points_down (entry_at s (Suc (Suc l)) f v)" by (auto simp: Let_def split: if_splits)
  then show ?case using 3 vm_wf_child [OF "3.prems"(1,2) pd] by (auto simp: Let_def)
qed auto

text \<open>Stores into last-level tables keep the tree and the path to every leaf table.\<close>

lemma vm_wf_leaf:
  assumes wf: "vm_wf s root L" and g: "L g = Some 1" and i: "i < 512"
  shows "vm_wf (pt_write (g * PMM_PAGE_SIZE) i e s) root L"
proof -
  have gb: "g \<notin> bitmap_frames s" using vm_wfD [OF wf g] by simp
  have geo: "geom_ok s" "pmm_inv s" using wf by (auto simp: vm_wf_def pmm_inv_def)
  have rd: "pt_read (pt_write (g * PMM_PAGE_SIZE) i e s) (f * PMM_PAGE_SIZE) j = pt_read s (f * PMM_PAGE_SIZE) j"
    if "L f = Some l" "1 < l" "j < 512" for f l j
    using that g i by (auto simp: pt_read_write)
  have "1 < (4::nat)" by simp
  then show ?thesis
    using wf rd pt_write_inv [OF geo(2) gb i, of e] pt_write_used [OF geo(1) gb i, of e]
    unfolding vm_wf_def pt_write_fields by (auto simp: rd)
qed

lemma leaf_table_leaf_write:
  assumes wf: "vm_wf s root L" and g: "L g = Some 1" and i: "i < 512"
  shows "L f = Some l \<Longrightarrow> leaf_table (pt_write (g * PMM_PAGE_SIZE) i e s) l f v = leaf_table s l f v"
proof (induction l arbitrary: f rule: less_induct)
  case (less l)
  consider "l = Suc 0" | k where "l = Suc (Suc k)"
    using lvl_cases [OF vm_wfD(1) [OF wf less.prems]] by blast
  then show ?case
  proof cases
    case (2 k)
    then have "f \<noteq> g" using less.prems g by auto
    then have e: "entry_at (pt_write (g * PMM_PAGE_SIZE) i e s) l f v = entry_at s l f v"
      by (simp add: entry_at_def pt_read_write i)
    show ?thesis
      using 2 e less.IH [of "Suc k"] vm_wf_child [OF wf less.prems [unfolded 2], of v] by (simp add: Let_def)
  qed simp
qed

subsection \<open>Mapping one page\<close>

lemma map_page_leaf:
  assumes wf: "vm_wf s root L" and mp: "map_page root v p e s = Inr s'"
  obtains s3 L' g where "vm_wf s3 root L'" "L \<subseteq>\<^sub>m L'" "L' g = Some 1"
    "leaf_table s3 4 (root div PMM_PAGE_SIZE) v = Some g"
    "\<And>w. walk s3 4 (root div PMM_PAGE_SIZE) w = walk s 4 (root div PMM_PAGE_SIZE) w"
    "s' = pt_write (g * PMM_PAGE_SIZE) (pt_index 12 v) ((p AND ADDR_MASK) OR e) s3"
proof -
  let ?r = "root div PMM_PAGE_SIZE"
  have r: "root = ?r * PMM_PAGE_SIZE" and L4: "L ?r = Some (Suc (Suc 2))"
    using vm_wf_root [OF wf] by simp_all
  from mp obtain pdpt s1 pd s2 pt s3 where
      n1: "next_table root (pt_index 39 v) s = Inr (pdpt, s1)"
    and n2: "next_table pdpt (pt_index 30 v) s1 = Inr (pd, s2)"
    and n3: "next_table pd (pt_index 21 v) s2 = Inr (pt, s3)"
    and s': "s' = pt_write pt (pt_index 12 v) ((p AND ADDR_MASK) OR e) s3"
    by (auto simp: map_page_def split: sum.splits)
  have n1': "next_table (?r * PMM_PAGE_SIZE) (pt_index 39 v) s = Inr (pdpt, s1)"
    by (subst r [symmetric]) (rule n1)
  obtain L1 g1 where p1: "pdpt = g1 * PMM_PAGE_SIZE" and a1: "stepped s s1 root L L1 ?r (pt_index 39 v) g1 2"
    using next_table_step [OF wf L4 pt_index_bound n1'] .
  then have wf1: "vm_wf s1 root L1" and L3: "L1 g1 = Some (Suc (Suc 1))" by (simp_all add: stepped_def)
  obtain L2 g2 where p2: "pd = g2 * PMM_PAGE_SIZE" and a2: "stepped s1 s2 root L1 L2 g1 (pt_index 30 v) g2 1"
    using next_table_step [OF wf1 L3 pt_index_bound n2 [unfolded p1]] .
  then have wf2: "vm_wf s2 root L2" and L2: "L2 g2 = Some (Suc (Suc 0))" by (simp_all add: stepped_def)
  obtain L' g3 where p3: "pt = g3 * PMM_PAGE_SIZE" and a3: "stepped s2 s3 root L2 L' g2 (pt_index 21 v) g3 0"
    using next_table_step [OF wf2 L2 pt_index_bound n3 [unfolded p2]] .
  have up: "L1 h = Some l \<Longrightarrow> L2 h = Some l" "L h = Some l \<Longrightarrow> L1 h = Some l" for h l
    using a1 a2 by (auto simp: stepped_def map_le_def dom_def)
  have e4: "pt_read s3 (?r * PMM_PAGE_SIZE) (pt_index 39 v) = pt_read s1 (?r * PMM_PAGE_SIZE) (pt_index 39 v)"
    using a1 a2 a3 up L4 unfolding stepped_def by fastforce
  have e3: "pt_read s3 (g1 * PMM_PAGE_SIZE) (pt_index 30 v) = pt_read s2 (g1 * PMM_PAGE_SIZE) (pt_index 30 v)"
    using a2 a3 up L3 unfolding stepped_def by fastforce
  have lt: "leaf_table s3 4 ?r v = Some g3"
    unfolding leaf_table_unfold entry_at_shift e4 Let_def using a1 a2 a3 e3
    by (simp add: leaf_table_unfold entry_at_shift stepped_def)
  have L4': "L ?r = Some 4" using L4 by simp
  then have "walk s3 4 ?r w = walk s 4 ?r w" for w
    using a1 a2 a3 up unfolding stepped_def by simp
  moreover have "L \<subseteq>\<^sub>m L'"
  proof -
    have "L \<subseteq>\<^sub>m L1" "L1 \<subseteq>\<^sub>m L2" "L2 \<subseteq>\<^sub>m L'" using a1 a2 a3 by (simp_all add: stepped_def)
    then show ?thesis by (metis map_le_trans)
  qed
  moreover have "vm_wf s3 root L'" "L' g3 = Some 1" using a3 by (simp_all add: stepped_def)
  ultimately show thesis using lt s' p3 by (intro that [of s3 L' g3]) auto
qed

lemma map_page_walk:
  assumes wf: "vm_wf s root L" and mp: "map_page root v p (leaf_flags fl) s = Inr s'"
  obtains L' where "vm_wf s' root L'"
    "\<And>w. walk s' 4 (root div PMM_PAGE_SIZE) w =
       (if same_page v w then Some ((p AND ADDR_MASK) OR (of_nat w AND 4095))
        else walk s 4 (root div PMM_PAGE_SIZE) w)"
proof -
  let ?r = "root div PMM_PAGE_SIZE"
  obtain s3 L' g where a: "vm_wf s3 root L'" "L \<subseteq>\<^sub>m L'" "L' g = Some 1" "leaf_table s3 4 ?r v = Some g"
    "\<And>w. walk s3 4 ?r w = walk s 4 ?r w"
    "s' = pt_write (g * PMM_PAGE_SIZE) (pt_index 12 v) ((p AND ADDR_MASK) OR leaf_flags fl) s3"
    using map_page_leaf [OF wf mp] by blast
  have L4: "L' ?r = Some 4" using a(1) by (simp add: vm_wf_def)
  have slot: "leaf_table s3 4 ?r w = Some g \<and> pt_index 12 w = pt_index 12 v \<longleftrightarrow> same_page v w" for w
  proof
    assume "same_page v w"
    then show "leaf_table s3 4 ?r w = Some g \<and> pt_index 12 w = pt_index 12 v"
      using leaf_table_same [of 4 v w s3 ?r] a(4) unfolding same_page_indices
      by (auto simp: lvl_shift_def dest: spec [of _ 1])
  next
    assume "leaf_table s3 4 ?r w = Some g \<and> pt_index 12 w = pt_index 12 v"
    then show "same_page v w" using leaf_slot_same_page [OF a(1) L4 a(4)] by auto
  qed
  show thesis
  proof (rule that [of L'])
    show "vm_wf s' root L'" unfolding a(6) by (rule vm_wf_leaf [OF a(1,3) pt_index_bound])
    show "walk s' 4 ?r w = (if same_page v w then Some ((p AND ADDR_MASK) OR (of_nat w AND 4095))
        else walk s 4 ?r w)" for w
      using walk_leaf_write [OF a(1,3) pt_index_bound a(6) L4, of w]
      by (simp only: slot leaf_entry a(5) if_True)
  qed
qed

subsection \<open>Ranges\<close>

lemma map_loop_walk:
  assumes "vm_wf s root L" "map_loop root (a * PMM_PAGE_SIZE) (b * PMM_PAGE_SIZE) p (leaf_flags fl) s = Inr s'"
    "b \<le> a + 2 ^ 36"
  shows "(\<exists>L'. vm_wf s' root L') \<and>
    (\<forall>x. a \<le> x div PMM_PAGE_SIZE \<and> x div PMM_PAGE_SIZE < b \<longrightarrow>
       walk s' 4 (root div PMM_PAGE_SIZE) x =
         Some (((p + of_nat (x div PMM_PAGE_SIZE - a) * 4096) AND ADDR_MASK) OR (of_nat x AND 4095))) \<and>
    (\<forall>x. (\<forall>k. a \<le> k \<and> k < b \<longrightarrow> \<not> same_page (k * PMM_PAGE_SIZE) x) \<longrightarrow>
       walk s' 4 (root div PMM_PAGE_SIZE) x = walk s 4 (root div PMM_PAGE_SIZE) x)"
  using assms
proof (induction "b - a" arbitrary: a p s L)
  case 0
  then show ?case by (auto simp: map_loop.simps [of root "a * PMM_PAGE_SIZE"])
next
  case (Suc n)
  let ?r = "root div PMM_PAGE_SIZE"
  have ab: "a < b" using Suc.hyps(2) by simp
  obtain s1 where s1: "map_page root (a * PMM_PAGE_SIZE) p (leaf_flags fl) s = Inr s1"
    and rest: "map_loop root (Suc a * PMM_PAGE_SIZE) (b * PMM_PAGE_SIZE) (p + 4096) (leaf_flags fl) s1 = Inr s'"
    using Suc.prems(2) ab map_loop.simps [of root "a * PMM_PAGE_SIZE" "b * PMM_PAGE_SIZE" p "leaf_flags fl" s]
    by (auto simp: add.commute split: sum.splits)
  obtain L1 where L1: "vm_wf s1 root L1"
    "\<And>w. walk s1 4 ?r w = (if same_page (a * PMM_PAGE_SIZE) w
        then Some ((p AND ADDR_MASK) OR (of_nat w AND 4095)) else walk s 4 ?r w)"
    using map_page_walk [OF Suc.prems(1) s1] by blast
  have ih: "(\<exists>L'. vm_wf s' root L') \<and>
    (\<forall>x. Suc a \<le> x div PMM_PAGE_SIZE \<and> x div PMM_PAGE_SIZE < b \<longrightarrow>
       walk s' 4 ?r x = Some (((p + 4096 + of_nat (x div PMM_PAGE_SIZE - Suc a) * 4096) AND ADDR_MASK)
         OR (of_nat x AND 4095))) \<and>
    (\<forall>x. (\<forall>k. Suc a \<le> k \<and> k < b \<longrightarrow> \<not> same_page (k * PMM_PAGE_SIZE) x) \<longrightarrow> walk s' 4 ?r x = walk s1 4 ?r x)"
    using Suc.hyps(2) Suc.prems(3) by (intro Suc.hyps(1) [OF _ L1(1) rest]) auto
  have head: "walk s' 4 ?r x = Some ((p AND ADDR_MASK) OR (of_nat x AND 4095))" if "x div PMM_PAGE_SIZE = a" for x
  proof -
    have "\<not> same_page (k * PMM_PAGE_SIZE) x" if "Suc a \<le> k" "k < b" for k
      using far_pages_differ [of a k] that \<open>x div PMM_PAGE_SIZE = a\<close> Suc.prems(3)
      by (auto simp: same_page_def)
    then show ?thesis using ih L1(2) [of x] page_offset_same [OF that] by simp
  qed
  have tail: "p + 4096 + of_nat (j - Suc a) * 4096 = p + of_nat (j - a) * 4096" if "Suc a \<le> j" for j
  proof -
    have "j - a = Suc (j - Suc a)" using that by simp
    then show ?thesis by (simp only: of_nat_Suc) (simp add: algebra_simps)
  qed
  have "walk s' 4 ?r x = Some (((p + of_nat (x div PMM_PAGE_SIZE - a) * 4096) AND ADDR_MASK) OR (of_nat x AND 4095))"
    if "a \<le> x div PMM_PAGE_SIZE" "x div PMM_PAGE_SIZE < b" for x
    using that head [of x] ih tail [of "x div PMM_PAGE_SIZE"]
    by (cases "x div PMM_PAGE_SIZE = a") auto
  moreover have "walk s' 4 ?r x = walk s 4 ?r x"
    if "\<forall>k. a \<le> k \<and> k < b \<longrightarrow> \<not> same_page (k * PMM_PAGE_SIZE) x" for x
    using that ih L1(2) [of x] ab by auto
  ultimately show ?case using ih by blast
qed

lemma unmap_page_leaf:
  assumes wf: "vm_wf s root L"
  shows "unmap_page root v s =
    (case leaf_table s 4 (root div PMM_PAGE_SIZE) v of
       Some g \<Rightarrow> pt_write (g * PMM_PAGE_SIZE) (pt_index 12 v) 0 s | None \<Rightarrow> s)"
proof -
  let ?r = "root div PMM_PAGE_SIZE"
  have r: "?r * PMM_PAGE_SIZE = root" and L4: "L ?r = Some 4" using vm_wf_root [OF wf] by simp_all
  have "\<not> huge (pt_read s (?r * PMM_PAGE_SIZE) (pt_index 39 v))"
    by (rule vm_wf_top [OF wf L4 pt_index_bound])
  then show ?thesis
    unfolding unmap_page_def leaf_table_unfold leaf_table.simps entry_at_shift Let_def r points_down_def
    by (simp add: table_virt_target points_down_def)
qed

lemma unmap_page_walk:
  assumes wf: "vm_wf s root L"
  shows "vm_wf (unmap_page root v s) root L"
    "leaf_table (unmap_page root v s) 4 (root div PMM_PAGE_SIZE) w = leaf_table s 4 (root div PMM_PAGE_SIZE) w"
    "walk (unmap_page root v s) 4 (root div PMM_PAGE_SIZE) w =
       (if same_page v w \<and> leaf_table s 4 (root div PMM_PAGE_SIZE) w \<noteq> None then None
        else walk s 4 (root div PMM_PAGE_SIZE) w)"
proof -
  let ?r = "root div PMM_PAGE_SIZE"
  have L4: "L ?r = Some 4" using wf by (simp add: vm_wf_def)
  have lt: "same_page v w \<Longrightarrow> leaf_table s 4 ?r v = leaf_table s 4 ?r w" by (rule leaf_table_same) auto
  have all: "vm_wf (unmap_page root v s) root L
    \<and> leaf_table (unmap_page root v s) 4 ?r w = leaf_table s 4 ?r w
    \<and> walk (unmap_page root v s) 4 ?r w =
       (if same_page v w \<and> leaf_table s 4 ?r w \<noteq> None then None else walk s 4 ?r w)"
  proof (cases "leaf_table s 4 ?r v")
    case None
    then show ?thesis using wf lt by (auto simp: unmap_page_leaf [OF wf])
  next
    case (Some g)
    have g: "L g = Some 1" using leaf_table_label [OF wf L4 Some] .
    have u: "unmap_page root v s = pt_write (g * PMM_PAGE_SIZE) (pt_index 12 v) 0 s"
      by (simp add: unmap_page_leaf [OF wf] Some)
    have "leaf_table s 4 ?r w = Some g \<and> pt_index 12 w = pt_index 12 v \<longleftrightarrow> same_page v w"
    proof
      assume "same_page v w"
      then show "leaf_table s 4 ?r w = Some g \<and> pt_index 12 w = pt_index 12 v"
        using lt Some unfolding same_page_indices by (auto simp: lvl_shift_def dest: spec [of _ 1])
    next
      assume "leaf_table s 4 ?r w = Some g \<and> pt_index 12 w = pt_index 12 v"
      then show "same_page v w" using leaf_slot_same_page [OF wf L4 Some] by auto
    qed
    then show ?thesis
      using vm_wf_leaf [OF wf g pt_index_bound] leaf_table_leaf_write [OF wf g pt_index_bound L4]
        walk_leaf_write [OF wf g pt_index_bound u L4, of w] lt Some by (auto simp: u)
  qed
  then show "vm_wf (unmap_page root v s) root L"
    "leaf_table (unmap_page root v s) 4 ?r w = leaf_table s 4 ?r w"
    "walk (unmap_page root v s) 4 ?r w =
       (if same_page v w \<and> leaf_table s 4 ?r w \<noteq> None then None else walk s 4 ?r w)" by auto
qed

lemma unmap_loop_walk:
  assumes "vm_wf s root L"
  shows "vm_wf (unmap_loop root (a * PMM_PAGE_SIZE) (b * PMM_PAGE_SIZE) s) root L \<and>
    walk (unmap_loop root (a * PMM_PAGE_SIZE) (b * PMM_PAGE_SIZE) s) 4 (root div PMM_PAGE_SIZE) x =
    (if (\<exists>k. a \<le> k \<and> k < b \<and> same_page (k * PMM_PAGE_SIZE) x) \<and> leaf_table s 4 (root div PMM_PAGE_SIZE) x \<noteq> None
     then None else walk s 4 (root div PMM_PAGE_SIZE) x)"
  using assms
proof (induction "b - a" arbitrary: a s)
  case 0
  then show ?case by (auto simp: unmap_loop.simps [of root "a * PMM_PAGE_SIZE"])
next
  case (Suc n)
  then have ab: "a < b" by simp
  let ?s1 = "unmap_page root (a * PMM_PAGE_SIZE) s" and ?r = "root div PMM_PAGE_SIZE"
  have step: "unmap_loop root (a * PMM_PAGE_SIZE) (b * PMM_PAGE_SIZE) s
      = unmap_loop root (Suc a * PMM_PAGE_SIZE) (b * PMM_PAGE_SIZE) ?s1"
    using ab unmap_loop.simps [of root "a * PMM_PAGE_SIZE" "b * PMM_PAGE_SIZE" s] by (simp add: add.commute)
  note ih = Suc.hyps(1) [of "Suc a" ?s1, OF _ unmap_page_walk(1) [OF Suc.prems]]
  have ex: "(\<exists>k. a \<le> k \<and> k < b \<and> P k) \<longleftrightarrow> P a \<or> (\<exists>k. Suc a \<le> k \<and> k < b \<and> P k)" for P
    using ab by (metis Suc_leD Suc_leI le_neq_implies_less le_refl)
  show ?case
    unfolding step ex using ih Suc.hyps(2) unmap_page_walk(2,3) [OF Suc.prems, of "a * PMM_PAGE_SIZE" x] by auto
qed

text \<open>The bounds of a range that does not wrap, as page numbers.\<close>

lemma range_end_pages:
  assumes "virt + sz + PMM_PAGE_SIZE \<le> 2 ^ 64"
  shows "range_end virt sz = (virt + sz + PMM_PAGE_SIZE - 1) div PMM_PAGE_SIZE * PMM_PAGE_SIZE"
  unfolding range_end_def page_down_def using assms by (subst wrap64_small) auto

lemma page_count_bound:
  assumes "sz \<le> 2 ^ 48" "virt mod PMM_PAGE_SIZE = 0"
  shows "(virt + sz + PMM_PAGE_SIZE - 1) div PMM_PAGE_SIZE \<le> virt div PMM_PAGE_SIZE + 2 ^ 36"
proof -
  obtain a where a: "virt = a * PMM_PAGE_SIZE" using assms(2) by (metis dvd_div_mult_self mod_0_imp_dvd)
  have "virt + sz + PMM_PAGE_SIZE - 1 = (sz + 4095) + a * PMM_PAGE_SIZE" using a by simp
  then have "(virt + sz + PMM_PAGE_SIZE - 1) div PMM_PAGE_SIZE = (sz + 4095) div PMM_PAGE_SIZE + a" by simp
  moreover have "(sz + 4095) div PMM_PAGE_SIZE \<le> (2 ^ 48 + 4095) div PMM_PAGE_SIZE"
    using assms(1) by (intro div_le_mono) simp
  ultimately show ?thesis by (simp add: a)
qed

lemma linear_target:
  assumes "phys = q * PMM_PAGE_SIZE" "q + k < 2 ^ 40"
  shows "((of_nat phys + of_nat k * 4096) AND ADDR_MASK) OR (of_nat x AND 4095)
       = (of_nat (phys + k * PMM_PAGE_SIZE + x mod PMM_PAGE_SIZE) :: u64)"
proof -
  let ?w = "of_nat ((q + k) * PMM_PAGE_SIZE) :: u64"
  have "of_nat phys + of_nat k * 4096 = ?w" using assms(1) by (simp add: algebra_simps)
  moreover have "?w AND ADDR_MASK = ?w"
    using frame_word_bit [OF assms(2)] by (intro bit_word_eqI) (auto simp only: bit_and_iff addr_mask_bit)
  moreover have "of_nat x AND 4095 = (of_nat (x mod PMM_PAGE_SIZE) :: u64)"
  proof -
    have "of_nat x AND 4095 = (take_bit 12 (of_nat x) :: u64)"
      by (simp add: take_bit_eq_mask mask_eq_exp_minus_1)
    also have "\<dots> = of_nat (take_bit 12 x)" by (simp only: take_bit_of_nat)
    finally show ?thesis by (simp add: take_bit_eq_mod)
  qed
  moreover have "?w OR of_nat (x mod PMM_PAGE_SIZE) = ?w + of_nat (x mod PMM_PAGE_SIZE)"
  proof (rule disjunctive_add_eq_or [symmetric])
    have "of_nat (x mod PMM_PAGE_SIZE) = (take_bit 12 (of_nat x) :: u64)"
      by (simp only: take_bit_of_nat) (simp add: take_bit_eq_mod)
    then show "?w AND of_nat (x mod PMM_PAGE_SIZE) = 0"
      using frame_word_bit [OF assms(2)]
      by (intro bit_word_eqI) (auto simp only: bit_and_iff bit_take_bit_iff bit_0_eq bot_fun_def bot_bool_def dest: leD)
  qed
  ultimately show ?thesis by (simp add: assms(1) algebra_simps)
qed

subsection \<open>Progress\<close>

text \<open>Mapping a page that is not mapped yet cannot meet a huge page, so it needs nothing but frames
  for the missing tables.\<close>

lemma next_table_total:
  assumes wf: "vm_wf s root L" and f: "L f = Some (Suc (Suc k))"
    and unmapped: "walk s (Suc (Suc k)) f v = None" and room: "card (used_frames s) < total_pages s"
  shows "\<exists>t s'. next_table (f * PMM_PAGE_SIZE) (pt_index (lvl_shift (Suc (Suc k))) v) s = Inr (t, s')
    \<and> total_pages s' = total_pages s \<and> card (used_frames s') \<le> Suc (card (used_frames s))"
proof -
  let ?e = "entry_at s (Suc (Suc k)) f v"
  have inv: "pmm_inv s" using wf by (simp add: vm_wf_def)
  show ?thesis
  proof (cases "present ?e")
    case True
    have "k \<le> 2" using vm_wfD(2) [OF wf f] by simp
    then have "\<not> huge ?e"
    proof (cases "k = 2")
      case True
      then have "L f = Some 4" using f by simp
      then show ?thesis unfolding entry_at_def by (rule vm_wf_top [OF wf _ pt_index_bound])
    next
      case False
      then have "k = 0 \<or> k = 1" using \<open>k \<le> 2\<close> by linarith
      then show ?thesis using unmapped True by (auto simp: Let_def huge_target_def split: if_splits)
    qed
    then show ?thesis using True by (simp add: next_table_def entry_at_def Let_def)
  next
    case False
    have "used_frames s \<noteq> {..<total_pages s}" using room by (metis card_lessThan less_irrefl)
    then obtain i where i: "i < total_pages s" "i \<notin> used_frames s" "pmm_alloc_page s = Inr (take_frame i s)"
      using pmm_alloc_page_cases [OF inv] by auto
    obtain p s1 where ps: "take_frame i s = (p, s1)" by force
    have fb: "f \<notin> bitmap_frames s" using vm_wfD [OF wf f] by simp
    note st = pmm_alloc_page_state [OF inv i(3) [unfolded ps]]
    have "total_pages s1 = total_pages s" using take_frame_simps(2) [of i s] ps by simp
    moreover have "card (used_frames s1) \<le> Suc (card (used_frames s))"
      using st(4) by (simp add: card_insert_if)
    moreover have "used_frames (pt_write (f * PMM_PAGE_SIZE) j e s1) = used_frames s1" if "j < 512" for j e
      using st(5,6) fb that by (intro pt_write_used) (auto simp: pmm_inv_def)
    ultimately show ?thesis
      using False i(3) ps by (simp add: next_table_def entry_at_def Let_def)
  qed
qed

lemma stepped_unmapped:
  assumes "stepped s s' root L L' f (pt_index (lvl_shift (Suc (Suc k))) v) g k" "L f = Some (Suc (Suc k))"
    "walk s (Suc (Suc k)) f v = None"
  shows "walk s' (Suc k) g v = None"
proof -
  have "walk s' (Suc (Suc k)) f v = walk s (Suc (Suc k)) f v" using assms(1,2) unfolding stepped_def by blast
  then have "walk s' (Suc (Suc k)) f v = None" using assms(3) by (simp only:)
  then show ?thesis using assms(1) by (simp add: stepped_def entry_at_def points_down_def Let_def)
qed

lemma map_page_total:
  assumes wf: "vm_wf s root L" and unmapped: "walk s 4 (root div PMM_PAGE_SIZE) v = None"
    and room: "card (used_frames s) + 3 \<le> total_pages s"
  shows "\<exists>s'. map_page root v p e s = Inr s' \<and> total_pages s' = total_pages s
    \<and> card (used_frames s') \<le> card (used_frames s) + 3"
proof -
  let ?r = "root div PMM_PAGE_SIZE"
  have r: "?r * PMM_PAGE_SIZE = root" and L4: "L ?r = Some (Suc (Suc 2))"
    using vm_wf_root [OF wf] by simp_all
  have sh: "lvl_shift (Suc (Suc 2)) = 39" "lvl_shift (Suc (Suc 1)) = 30" "lvl_shift (Suc (Suc 0)) = 21"
    by (simp_all add: lvl_shift_def)
  have lv: "Suc (Suc 2) = (4::nat)" "Suc (Suc 1) = Suc (2::nat)" by simp_all
  have u4: "walk s (Suc (Suc 2)) ?r v = None" unfolding lv by (rule unmapped)
  obtain t1 s1 where n1: "next_table (?r * PMM_PAGE_SIZE) (pt_index (lvl_shift (Suc (Suc 2))) v) s = Inr (t1, s1)"
      "total_pages s1 = total_pages s" "card (used_frames s1) \<le> Suc (card (used_frames s))"
    using next_table_total [OF wf L4 u4] room by auto
  obtain L1 g1 where a1: "t1 = g1 * PMM_PAGE_SIZE" "stepped s s1 root L L1 ?r (pt_index (lvl_shift (Suc (Suc 2))) v) g1 2"
    using next_table_step [OF wf L4 pt_index_bound n1(1)] .
  have w1: "vm_wf s1 root L1" "L1 g1 = Some (Suc (Suc 1))" using a1(2) by (simp_all add: stepped_def)
  have u3: "walk s1 (Suc (Suc 1)) g1 v = None" 
    unfolding lv by (rule stepped_unmapped [OF a1(2) L4 u4])
  obtain t2 s2 where n2: "next_table (g1 * PMM_PAGE_SIZE) (pt_index (lvl_shift (Suc (Suc 1))) v) s1 = Inr (t2, s2)"
      "total_pages s2 = total_pages s1" "card (used_frames s2) \<le> Suc (card (used_frames s1))"
    using next_table_total [OF w1 u3] room n1 by auto
  obtain L2 g2 where a2: "t2 = g2 * PMM_PAGE_SIZE" "stepped s1 s2 root L1 L2 g1 (pt_index (lvl_shift (Suc (Suc 1))) v) g2 1"
    using next_table_step [OF w1 pt_index_bound n2(1)] .
  have w2: "vm_wf s2 root L2" "L2 g2 = Some (Suc (Suc 0))" using a2(2) by (simp_all add: stepped_def)
  have u2: "walk s2 (Suc (Suc 0)) g2 v = None" 
    using stepped_unmapped [OF a2(2) w1(2) u3] by (simp only: One_nat_def)
  obtain t3 s3 where n3: "next_table (g2 * PMM_PAGE_SIZE) (pt_index (lvl_shift (Suc (Suc 0))) v) s2 = Inr (t3, s3)"
      "total_pages s3 = total_pages s2" "card (used_frames s3) \<le> Suc (card (used_frames s2))"
    using next_table_total [OF w2 u2] room n1 n2 by auto
  obtain L3 g3 where a3: "t3 = g3 * PMM_PAGE_SIZE" "stepped s2 s3 root L2 L3 g2 (pt_index (lvl_shift (Suc (Suc 0))) v) g3 0"
    using next_table_step [OF w2 pt_index_bound n3(1)] .
  have "g3 \<notin> bitmap_frames s3" "geom_ok s3"
    using a3(2) vm_wfD(4) [of s3 root L3 g3] by (auto simp: stepped_def vm_wf_def pmm_inv_def)
  then have "used_frames (pt_write t3 (pt_index 12 v) ((p AND ADDR_MASK) OR e) s3) = used_frames s3"
    unfolding a3(1) by (intro pt_write_used) auto
  moreover have "map_page root v p e s = Inr (pt_write t3 (pt_index 12 v) ((p AND ADDR_MASK) OR e) s3)"
    unfolding map_page_def using n1(1) [unfolded r sh a1(1)] n2(1) [unfolded sh a2(1)] n3(1) [unfolded sh] by simp
  ultimately show ?thesis using n1(2,3) n2(2,3) n3(2,3) by simp
qed

lemma map_loop_total:
  assumes "vm_wf s root L" "b \<le> a + 2 ^ 36"
    "\<And>k. a \<le> k \<Longrightarrow> k < b \<Longrightarrow> walk s 4 (root div PMM_PAGE_SIZE) (k * PMM_PAGE_SIZE) = None"
    "card (used_frames s) + 3 * (b - a) \<le> total_pages s"
  shows "\<exists>s'. map_loop root (a * PMM_PAGE_SIZE) (b * PMM_PAGE_SIZE) p (leaf_flags fl) s = Inr s'
    \<and> total_pages s' = total_pages s \<and> card (used_frames s') \<le> card (used_frames s) + 3 * (b - a)"
  using assms
proof (induction "b - a" arbitrary: a p s L)
  case 0
  then show ?case by (simp add: map_loop.simps [of root "a * PMM_PAGE_SIZE"])
next
  case (Suc n)
  then have ab: "a < b" by simp
  obtain s1 where s1: "map_page root (a * PMM_PAGE_SIZE) p (leaf_flags fl) s = Inr s1"
      "total_pages s1 = total_pages s" "card (used_frames s1) \<le> card (used_frames s) + 3"
    using map_page_total [OF Suc.prems(1) Suc.prems(3) [OF le_refl ab]] Suc.prems(4) Suc.hyps(2) by auto
  obtain L1 where L1: "vm_wf s1 root L1" "\<And>w. walk s1 4 (root div PMM_PAGE_SIZE) w =
       (if same_page (a * PMM_PAGE_SIZE) w then Some ((p AND ADDR_MASK) OR (of_nat w AND 4095))
        else walk s 4 (root div PMM_PAGE_SIZE) w)"
    using map_page_walk [OF Suc.prems(1) s1(1)] by blast
  have "\<exists>s'. map_loop root (Suc a * PMM_PAGE_SIZE) (b * PMM_PAGE_SIZE) (p + 4096) (leaf_flags fl) s1 = Inr s'
      \<and> total_pages s' = total_pages s1 \<and> card (used_frames s') \<le> card (used_frames s1) + 3 * (b - Suc a)"
  proof (rule Suc.hyps(1) [OF _ L1(1)])
    show "walk s1 4 (root div PMM_PAGE_SIZE) (k * PMM_PAGE_SIZE) = None" if "Suc a \<le> k" "k < b" for k
      using that Suc.prems(2,3) L1(2) far_pages_differ [of a k] by (auto simp: same_page_def)
  qed (use Suc.hyps(2) Suc.prems(2,4) s1 in auto)
  then obtain s' where s': "map_loop root (Suc a * PMM_PAGE_SIZE) (b * PMM_PAGE_SIZE) (p + 4096) (leaf_flags fl) s1 = Inr s'"
      "total_pages s' = total_pages s1" "card (used_frames s') \<le> card (used_frames s1) + 3 * (b - Suc a)" by blast
  have "map_loop root (a * PMM_PAGE_SIZE) (b * PMM_PAGE_SIZE) p (leaf_flags fl) s = Inr s'"
    using ab s1 s'(1) map_loop.simps [of root "a * PMM_PAGE_SIZE" "b * PMM_PAGE_SIZE" p "leaf_flags fl" s]
    by (simp add: add.commute)
  then show ?case using s' s1 ab by auto
qed

lemma example_vm_used: "used_frames example_vm = {0, 1, 2}"
proof -
  have "bit_get example_vm i \<longleftrightarrow> i = 0 \<or> i = 1 \<or> i = 2" if "i < 16" for i :: nat
  proof -
    have "i \<in> set [0..<16]" using that by simp
    then show ?thesis
      by (simp add: bit_get_def example_vm_def upt_rec) (elim disjE; simp)
  qed
  then show ?thesis by (auto simp: used_frames_def example_vm_def)
qed

lemma example_vm_wf: "vm_wf example_vm 8192 [2 \<mapsto> 4]"
proof -
  have "read64 (ram example_vm) (8192 + 8 * i) = read64 (\<lambda>_. 0) (8192 + 8 * i)" for i
    by (rule read64_cong) (simp add: example_vm_def)
  then have rd: "pt_read example_vm (2 * PMM_PAGE_SIZE) i = 0" for i
    by (simp add: pt_read_def) (simp add: read64_def)
  have inv: "pmm_inv example_vm"
    by (simp add: pmm_inv_def geom_ok_def bitmap_frames_def example_vm_used) (simp add: example_vm_def)
  have b: "2 \<notin> bitmap_frames example_vm" "total_pages example_vm \<le> 2 ^ 40"
    by (simp_all add: bitmap_frames_def example_vm_def)
  show ?thesis
    unfolding vm_wf_def using inv b rd by (auto simp: example_vm_used split: if_splits)
qed

lemma example_vm_unmapped: "vmm_virt_to_phys 8192 example_vm v = None"
proof -
  have "read64 (ram example_vm) (8192 + 8 * i) = read64 (\<lambda>_. 0) (8192 + 8 * i)" for i
    by (rule read64_cong) (simp add: example_vm_def)
  then have "pt_read example_vm 8192 i = 0" for i
    by (simp add: pt_read_def) (simp add: read64_def)
  then show ?thesis by (simp add: vmm_virt_to_phys_def Let_def)
qed

subsection \<open>Properties\<close>

lemma vmm_map_total:
  assumes "vm_wf s root L" and "virt + sz + PMM_PAGE_SIZE \<le> 2 ^ 64" and "sz + PMM_PAGE_SIZE \<le> 2 ^ 48"
    and "\<And>x. page_down virt \<le> x \<Longrightarrow> x < range_end virt sz \<Longrightarrow> vmm_virt_to_phys root s x = None"
    and "used_pages s + 3 * ((range_end virt sz - page_down virt) div PMM_PAGE_SIZE) \<le> total_pages s"
  shows "\<exists>s'. vmm_map root virt phys sz flags s = Inr s' \<and> total_pages s' = total_pages s
    \<and> card (used_frames s') \<le> card (used_frames s) + 3 * ((range_end virt sz - page_down virt) div PMM_PAGE_SIZE)"
proof -
  let ?a = "virt div PMM_PAGE_SIZE" and ?b = "(virt + sz + PMM_PAGE_SIZE - 1) div PMM_PAGE_SIZE"
  have rt: "vmm_virt_to_phys root t x = walk t 4 (root div PMM_PAGE_SIZE) x" for t x
    using vm_wf_root(1) [OF assms(1)] by (intro virt_to_phys_walk) (metis mod_mult_self2_is_0)
  have e: "range_end virt sz = ?b * PMM_PAGE_SIZE" by (rule range_end_pages [OF assms(2)])
  have "card (used_frames s) + 3 * (?b - ?a) \<le> total_pages s"
    using assms(5) vm_wf_root(3) [OF assms(1)]
    by (simp add: e page_down_def pmm_inv_def flip: diff_mult_distrib)
  moreover have "?b \<le> ?a + 2 ^ 36"
    using page_count_bound [of "sz + virt mod PMM_PAGE_SIZE" "?a * PMM_PAGE_SIZE"] assms(3)
    by (simp add: algebra_simps)
  moreover have "walk s 4 (root div PMM_PAGE_SIZE) (k * PMM_PAGE_SIZE) = None" if "?a \<le> k" "k < ?b" for k
    using assms(4) [of "k * PMM_PAGE_SIZE"] that unfolding rt e page_down_def by simp
  moreover have "(?b * PMM_PAGE_SIZE - ?a * PMM_PAGE_SIZE) div PMM_PAGE_SIZE = ?b - ?a"
    by (simp flip: diff_mult_distrib)
  ultimately show ?thesis
    using map_loop_total [OF assms(1), of ?b ?a "phys AND NOT 4095" flags] unfolding vmm_map_def e page_down_def by simp
qed

lemma example_vm_maps: "\<exists>s'. vmm_map 8192 0x400000 0x7000 4096 VMM_W example_vm = Inr s'"
proof -
  have "used_pages example_vm + 3 * ((range_end 0x400000 4096 - page_down 0x400000) div PMM_PAGE_SIZE)
      \<le> total_pages example_vm"
    by (simp add: range_end_def page_down_def wrap64_def example_vm_def)
  then show ?thesis
    using vmm_map_total [OF example_vm_wf, of "0x400000" 4096 "0x7000" VMM_W] example_vm_unmapped by auto
qed

lemma vmm_map_pages:
  assumes "vm_wf s root L" and "vmm_map root virt (of_nat phys) sz flags s = Inr s'"
    and "virt mod PMM_PAGE_SIZE = 0" and "phys mod PMM_PAGE_SIZE = 0"
    and "virt + sz + PMM_PAGE_SIZE \<le> 2 ^ 64" and "sz \<le> 2 ^ 48" and "phys + sz \<le> 2 ^ 52"
  shows "(\<exists>L'. vm_wf s' root L')
    \<and> (\<forall>d < sz. vmm_virt_to_phys root s' (virt + d) = Some (of_nat (phys + d)))
    \<and> (\<forall>x. (\<forall>d < sz. \<not> same_page (virt + d) x) \<longrightarrow> vmm_virt_to_phys root s' x = vmm_virt_to_phys root s x)"
proof -
  let ?r = "root div PMM_PAGE_SIZE" and ?b = "(virt + sz + PMM_PAGE_SIZE - 1) div PMM_PAGE_SIZE"
  obtain a where a: "virt = a * PMM_PAGE_SIZE" using assms(3) by (metis dvd_div_mult_self mod_0_imp_dvd)
  obtain q where q: "phys = q * PMM_PAGE_SIZE" using assms(4) by (metis dvd_div_mult_self mod_0_imp_dvd)
  have rt: "vmm_virt_to_phys root t x = walk t 4 ?r x" for t x
    using vm_wf_root(1) [OF assms(1)] by (intro virt_to_phys_walk) (metis mod_mult_self2_is_0)
  have "(of_nat phys :: u64) AND NOT 4095 = of_nat phys"
  proof -
    have n: "\<not> bit (of_nat phys :: u64) n" if "n < 12" for n
    proof -
      have "(of_nat phys :: u64) = push_bit 12 (of_nat q)" by (simp add: q push_bit_eq_mult)
      then show ?thesis using that by (simp add: bit_push_bit_iff)
    qed
    have m: "(4095 :: u64) = mask 12" by (simp add: mask_eq_exp_minus_1)
    show ?thesis
      unfolding m by (rule bit_word_eqI) (use n in \<open>auto simp: bit_simps\<close>)
  qed
  then have ml: "map_loop root (a * PMM_PAGE_SIZE) (?b * PMM_PAGE_SIZE) (of_nat phys) (leaf_flags flags) s = Inr s'"
    using assms(2) unfolding vmm_map_def range_end_pages [OF assms(5)] by (simp add: page_down_def a)
  have "?b \<le> a + 2 ^ 36" using page_count_bound [OF assms(6,3)] by (simp add: a)
  note loop = map_loop_walk [OF assms(1) ml this]
  have "vmm_virt_to_phys root s' (virt + d) = Some (of_nat (phys + d))" if "d < sz" for d
  proof -
    let ?x = "virt + d"
    have x: "?x div PMM_PAGE_SIZE = a + d div PMM_PAGE_SIZE" "?x mod PMM_PAGE_SIZE = d mod PMM_PAGE_SIZE"
      by (simp_all add: a)
    have "?x div PMM_PAGE_SIZE < ?b" using that by (simp add: a)
    moreover have "q + d div PMM_PAGE_SIZE < 2 ^ 40"
    proof -
      have "q * PMM_PAGE_SIZE + d < 4503599627370496" using that assms(7) by (simp add: q)
      then have "(q * PMM_PAGE_SIZE + d) div PMM_PAGE_SIZE < 1099511627776" by simp
      then show ?thesis by simp
    qed
    ultimately show ?thesis
      using loop linear_target [OF q, of "d div PMM_PAGE_SIZE" ?x] x unfolding rt by simp
  qed
  moreover have "vmm_virt_to_phys root s' x = vmm_virt_to_phys root s x"
    if "\<forall>d < sz. \<not> same_page (virt + d) x" for x
  proof -
    have "\<not> same_page (k * PMM_PAGE_SIZE) x" if "a \<le> k" "k < ?b" for k
    proof -
      have "(k - a) * PMM_PAGE_SIZE < sz" using that unfolding a by linarith
      then show ?thesis using \<open>\<forall>d < sz. _\<close> that by (auto simp: a simp flip: distrib_right)
    qed
    then show ?thesis using loop unfolding rt by blast
  qed
  ultimately show ?thesis using loop by blast
qed

text \<open>Taking a frame from the physical allocator touches no table.\<close>

lemma walk_same:
  assumes "vm_wf s root L" "L f = Some l"
    and rd: "\<And>h j. L h \<noteq> None \<Longrightarrow> j < 512 \<Longrightarrow> pt_read s' (h * PMM_PAGE_SIZE) j = pt_read s (h * PMM_PAGE_SIZE) j"
  shows "walk s' l f v = walk s l f v"
  using assms(2)
proof (induction l arbitrary: f rule: less_induct)
  case (less l)
  have e: "entry_at s' l f v = entry_at s l f v" using rd less.prems by (simp add: entry_at_def)
  consider "l = Suc 0" | k where "l = Suc (Suc k)" using lvl_cases vm_wfD(1) [OF assms(1) less.prems] by blast
  then show ?case
  proof cases
    case (2 k)
    show ?thesis
    proof (cases "points_down (entry_at s l f v)")
      case True
      then have "walk s' (Suc k) (target (entry_at s l f v)) v = walk s (Suc k) (target (entry_at s l f v)) v"
        using less.IH [of "Suc k"] vm_wf_child [OF assms(1), of f k v] less.prems 2 by simp
      then show ?thesis using e unfolding 2 by (simp add: Let_def)
    next
      case False
      then show ?thesis using e unfolding 2 by (auto simp: Let_def points_down_def)
    qed
  qed (use e in simp)
qed

lemma alloc_page_wf:
  assumes wf: "vm_wf s root L" and a: "pmm_alloc_page s = Inr (p, s')"
  shows "vm_wf s' root L" "vmm_virt_to_phys root s' x = vmm_virt_to_phys root s x"
    "p mod PMM_PAGE_SIZE = 0" "p div PMM_PAGE_SIZE < total_pages s" "total_pages s' = total_pages s"
proof -
  have inv: "pmm_inv s" by (rule vm_wf_root(3) [OF wf])
  note st = pmm_alloc_page_state [OF inv a]
  have rd: "pt_read s' (h * PMM_PAGE_SIZE) j = pt_read s (h * PMM_PAGE_SIZE) j" if h: "L h \<noteq> None" and j: "j < 512" for h j
  proof -
    obtain l where "L h = Some l" using h by blast
    from vm_wfD(3,4) [OF wf this] show ?thesis using pm.alloc_word_other [OF inv a j] by (simp add: pt_read_def)
  qed
  show "p mod PMM_PAGE_SIZE = 0" "p div PMM_PAGE_SIZE < total_pages s" by (fact st)+
  show "total_pages s' = total_pages s" using pmm_alloc_page_Inr [OF inv a] by (metis snd_conv take_frame_simps(2))
  have fr: "used_frames s' = insert (p div PMM_PAGE_SIZE) (used_frames s)" "bitmap_frames s' = bitmap_frames s"
    using pm.alloc_fresh [OF inv a] by auto
  show "vm_wf s' root L"
    unfolding vm_wf_def
  proof (intro conjI allI impI)
    show "pmm_inv s'" using pm.alloc_inv [OF inv a] .
    show "total_pages s' \<le> 2 ^ 40" "root mod PMM_PAGE_SIZE = 0" "L (root div PMM_PAGE_SIZE) = Some 4"
      using wf \<open>total_pages s' = total_pages s\<close> by (simp_all only: vm_wf_def)
    fix f l i f' l' i' :: nat
    assume f: "L f = Some l"
    show "1 \<le> l" "l \<le> 4" "f \<in> used_frames s'" "f \<notin> bitmap_frames s'" using vm_wfD [OF wf f] fr by auto
    assume "1 < l" "i < 512" "points_down (pt_read s' (f * PMM_PAGE_SIZE) i)"
    then have pd: "points_down (pt_read s (f * PMM_PAGE_SIZE) i)" using rd f by simp
    show "L (target (pt_read s' (f * PMM_PAGE_SIZE) i)) = Some (l - 1)"
      using wf f pd \<open>1 < l\<close> \<open>i < 512\<close> rd [of f i] unfolding vm_wf_def by (metis option.distinct(1))
    assume f': "L f' = Some l'" "1 < l'" "i' < 512" "points_down (pt_read s' (f' * PMM_PAGE_SIZE) i')"
      "target (pt_read s' (f * PMM_PAGE_SIZE) i) = target (pt_read s' (f' * PMM_PAGE_SIZE) i')"
    then show "f = f'" "i = i'"
      using vm_wf_inj [OF wf f \<open>1 < l\<close> \<open>i < 512\<close> f'(1-3) pd] rd f \<open>i < 512\<close> by auto
  next
    fix f i :: nat assume "L f = Some 4" "i < 512"
    then show "\<not> huge (pt_read s' (f * PMM_PAGE_SIZE) i)" using rd vm_wf_top [OF wf] by simp
  qed
  have "vmm_virt_to_phys root t x = walk t 4 (root div PMM_PAGE_SIZE) x" for t
    using vm_wf_root(1) [OF wf] by (intro virt_to_phys_walk) (metis mod_mult_self2_is_0)
  then show "vmm_virt_to_phys root s' x = vmm_virt_to_phys root s x"
    using walk_same [OF wf vm_wf_root(2) [OF wf] rd] by simp
qed

text \<open>C3: Mapping then translating.  After a successful \<^verbatim>\<open>vmm_map\<close> of a page-aligned range whose
  physical target lies in the 52-bit physical space, \<^verbatim>\<open>vmm_virt_to_phys\<close> sends every address
  \<^verbatim>\<open>virt + d\<close> of the range to \<^verbatim>\<open>phys + d\<close>; every address in no page of the range
  translates as before; and the tables still form a well-formed tree over allocated frames.\<close>

theorem vmm_map_translates:
  assumes "vm_wf s root L" and "vmm_map root virt (of_nat phys) sz flags s = Inr s'"
    and "virt mod PMM_PAGE_SIZE = 0" and "phys mod PMM_PAGE_SIZE = 0"
    and "virt + sz + PMM_PAGE_SIZE \<le> 2 ^ 64" and "sz \<le> 2 ^ 48" and "phys + sz \<le> 2 ^ 52"
  shows "(\<exists>L'. vm_wf s' root L')
    \<and> (\<forall>d < sz. vmm_virt_to_phys root s' (virt + d) = Some (of_nat (phys + d)))
    \<and> (\<forall>x. (\<forall>d < sz. \<not> same_page (virt + d) x) \<longrightarrow> vmm_virt_to_phys root s' x = vmm_virt_to_phys root s x)"
  using assms by (rule vmm_map_pages)

theorem vmm_map_translates_witness:
  "\<exists>s'. vmm_map 8192 0x400000 0x7000 4096 VMM_W example_vm = Inr s'
     \<and> vmm_virt_to_phys 8192 s' 0x400123 = Some 0x7123"
proof -
  obtain s' where s': "vmm_map 8192 0x400000 0x7000 4096 VMM_W example_vm = Inr s'"
    using example_vm_maps by blast
  then have "vmm_map 8192 0x400000 (of_nat 0x7000) 4096 VMM_W example_vm = Inr s'" by simp
  from vmm_map_translates [OF example_vm_wf this]
  have "\<forall>d < 4096. vmm_virt_to_phys 8192 s' (0x400000 + d) = Some (of_nat (0x7000 + d))" by simp
  from spec [OF this, of "0x123"] s' show ?thesis by (intro exI [of _ s']) simp
qed

text \<open>Progress of \<^verbatim>\<open>vmm_map\<close>.  If no page of the range is mapped yet and three frames per page
  are free (the most a page can need for missing tables), \<^verbatim>\<open>vmm_map\<close> does not panic.\<close>

theorem vmm_map_succeeds:
  assumes "vm_wf s root L" and "virt + sz + PMM_PAGE_SIZE \<le> 2 ^ 64" and "sz + PMM_PAGE_SIZE \<le> 2 ^ 48"
    and "\<And>x. page_down virt \<le> x \<Longrightarrow> x < range_end virt sz \<Longrightarrow> vmm_virt_to_phys root s x = None"
    and "used_pages s + 3 * ((range_end virt sz - page_down virt) div PMM_PAGE_SIZE) \<le> total_pages s"
  shows "\<exists>s'. vmm_map root virt phys sz flags s = Inr s'"
  using vmm_map_total [OF assms] by blast

theorem vmm_map_succeeds_witness:
  "\<exists>s'. vmm_map 8192 0x400000 0x7000 4096 VMM_W example_vm = Inr s'"
proof (rule vmm_map_succeeds [OF example_vm_wf])
  show "used_pages example_vm + 3 * ((range_end 0x400000 4096 - page_down 0x400000) div PMM_PAGE_SIZE)
      \<le> total_pages example_vm"
    by (simp add: range_end_def page_down_def wrap64_def example_vm_def)
qed (simp_all add: example_vm_unmapped)

text \<open>C32: \<^verbatim>\<open>vmm_unmap\<close> removes exactly the 4 KiB mappings of its range.  An address in a page of the
  range that has a last-level table becomes unmapped; an address that is in no page of the range,
  or is covered by a huge page, translates as before (huge pages are skipped, not split).\<close>

theorem vmm_unmap_correct:
  assumes "vm_wf s root L" and "virt + sz + PMM_PAGE_SIZE \<le> 2 ^ 64"
  shows "vm_wf (vmm_unmap root virt sz s) root L \<and>
    vmm_virt_to_phys root (vmm_unmap root virt sz s) x =
      (if (\<exists>v. page_down virt \<le> v \<and> v < range_end virt sz \<and> same_page v x)
          \<and> leaf_table s 4 (root div PMM_PAGE_SIZE) x \<noteq> None
       then None else vmm_virt_to_phys root s x)"
proof -
  let ?a = "virt div PMM_PAGE_SIZE" and ?b = "(virt + sz + PMM_PAGE_SIZE - 1) div PMM_PAGE_SIZE"
  have rt: "vmm_virt_to_phys root t x = walk t 4 (root div PMM_PAGE_SIZE) x" for t
    using vm_wf_root(1) [OF assms(1)] by (intro virt_to_phys_walk) (metis mod_mult_self2_is_0)
  have e: "range_end virt sz = ?b * PMM_PAGE_SIZE" by (rule range_end_pages [OF assms(2)])
  have "(\<exists>v. page_down virt \<le> v \<and> v < range_end virt sz \<and> same_page v x)
      \<longleftrightarrow> (\<exists>k. ?a \<le> k \<and> k < ?b \<and> same_page (k * PMM_PAGE_SIZE) x)"
  proof
    assume "\<exists>v. page_down virt \<le> v \<and> v < range_end virt sz \<and> same_page v x"
    then obtain v where v: "?a * PMM_PAGE_SIZE \<le> v" "v < ?b * PMM_PAGE_SIZE" "same_page v x"
      unfolding e page_down_def by blast
    from v(1) have "?a \<le> v div PMM_PAGE_SIZE" by (simp add: less_eq_div_iff_mult_less_eq)
    moreover from v(2) have "v div PMM_PAGE_SIZE < ?b" by (simp only: less_mult_imp_div_less)
    moreover have "same_page (v div PMM_PAGE_SIZE * PMM_PAGE_SIZE) x" using v(3) by (simp add: same_page_def)
    ultimately show "\<exists>k. ?a \<le> k \<and> k < ?b \<and> same_page (k * PMM_PAGE_SIZE) x" by blast
  next
    assume "\<exists>k. ?a \<le> k \<and> k < ?b \<and> same_page (k * PMM_PAGE_SIZE) x"
    then obtain k where "?a \<le> k" "k < ?b" "same_page (k * PMM_PAGE_SIZE) x" by blast
    then show "\<exists>v. page_down virt \<le> v \<and> v < range_end virt sz \<and> same_page v x"
      unfolding e page_down_def by (intro exI [of _ "k * PMM_PAGE_SIZE"]) simp
  qed
  then show ?thesis
    unfolding vmm_unmap_def rt e page_down_def using unmap_loop_walk [OF assms(1), of ?a ?b x] by simp
qed

theorem vmm_unmap_correct_witness:
  "vmm_virt_to_phys 8192 (vmm_unmap 8192 0x400000 4096 example_vm) 0x400123 = None"
  using vmm_unmap_correct [OF example_vm_wf, of "0x400000" 4096 "0x400123"] by (simp add: example_vm_unmapped)

end
