(* ===== verification/Heap.thy ===== *)
theory Heap
  imports Vmm
begin

text \<open>
  The kernel heap, \<^verbatim>\<open>src/mm/heap.c\<close>: a first-fit free list of blocks whose 32-byte headers are
  threaded through the heap window that starts at \<open>KHEAP_BASE\<close>.  A header is a record \<open>block\<close> in a
  store indexed by address; \<^verbatim>\<open>NULL\<close> is address 0.  Growth takes frames from the physical allocator
  and maps them with \<open>vmm_map\<close>, so the state carries the machine of \<open>Pmm\<close> as well.  Code that holds
  an allocation writes only its payload, never a header; the store therefore changes only in the
  operations below.

  Loops along \<^verbatim>\<open>next\<close> pointers are partial functions: on a cyclic list they do not return, which is
  the value \<open>None\<close>.  The refinement part shows that on a well-formed heap they do return, and that
  \<open>kmalloc\<close> and \<open>kfree\<close> act on the list of blocks as the abstract operations \<open>alloc_blocks\<close> and
  \<open>free_blocks\<close>.
\<close>

subsection \<open>State and operations\<close>

abbreviation KHEAP_BASE :: nat where "KHEAP_BASE \<equiv> 0xFFFFFFFF90000000"
abbreviation KHEAP_FIRST :: nat where "KHEAP_FIRST \<equiv> 64 * PMM_PAGE_SIZE"
abbreviation KHEAP_GROW :: nat where "KHEAP_GROW \<equiv> 16 * PMM_PAGE_SIZE"
abbreviation HEAP_MAGIC :: u64 where "HEAP_MAGIC \<equiv> 0xB10C1DEEB10CAA57"
abbreviation HDR :: nat where "HDR \<equiv> 32"

record block =
  magic :: u64
  bsize :: nat
  nxt :: nat
  bfree :: nat

record heap =
  head :: nat
  heap_end :: nat
  hdr :: "nat \<Rightarrow> block"
  machine :: pmm

fun grow_pages :: "nat \<Rightarrow> nat \<Rightarrow> heap \<Rightarrow> heap result" where
  "grow_pages root 0 h = Inr h"
| "grow_pages root (Suc n) h =
     (case pmm_alloc_page (machine h) of
        Inl msg \<Rightarrow> Inl msg
      | Inr (phys, m1) \<Rightarrow>
          (case vmm_map root (heap_end h) (of_nat phys) PMM_PAGE_SIZE VMM_W m1 of
             Inl msg \<Rightarrow> Inl msg
           | Inr m2 \<Rightarrow>
               grow_pages root n (h\<lparr>machine := m2, heap_end := wrap64 (heap_end h + PMM_PAGE_SIZE)\<rparr>)))"

definition heap_init :: "nat \<Rightarrow> heap \<Rightarrow> heap result" where
  "heap_init root h0 =
     (case grow_pages root (KHEAP_FIRST div PMM_PAGE_SIZE) (h0\<lparr>heap_end := KHEAP_BASE\<rparr>) of
        Inl msg \<Rightarrow> Inl msg
      | Inr h \<Rightarrow> Inr (h\<lparr>head := KHEAP_BASE,
          hdr := (hdr h)(KHEAP_BASE := \<lparr>magic = HEAP_MAGIC, bsize = KHEAP_FIRST, nxt = 0, bfree = 1\<rparr>)\<rparr>))"

definition split_block :: "nat \<Rightarrow> nat \<Rightarrow> (nat \<Rightarrow> block) \<Rightarrow> (nat \<Rightarrow> block)" where
  "split_block b need m =
     (if bsize (m b) \<ge> wrap64 (need + HDR + 16)
      then let n = wrap64 (b + need);
               m1 = m(n := \<lparr>magic = HEAP_MAGIC, bsize = sub64 (bsize (m b)) need, nxt = nxt (m b), bfree = 1\<rparr>)
           in m1(b := (m1 b)\<lparr>bsize := need, nxt := n\<rparr>)
      else m)"

text \<open>\<^verbatim>\<open>while (tail->next) tail = tail->next;\<close>\<close>

partial_function (option) find_tail :: "(nat \<Rightarrow> block) \<Rightarrow> nat \<Rightarrow> nat option" where
  "find_tail m tail = (if nxt (m tail) \<noteq> 0 then find_tail m (nxt (m tail)) else Some tail)"

definition append_free_region :: "nat \<Rightarrow> nat \<Rightarrow> heap \<Rightarrow> heap option" where
  "append_free_region base sz h =
     (let m = (hdr h)(base := \<lparr>magic = HEAP_MAGIC, bsize = sz, nxt = 0, bfree = 1\<rparr>)
      in case find_tail m (head h) of
           None \<Rightarrow> None
         | Some tail \<Rightarrow>
             (let m1 = m(tail := (m tail)\<lparr>nxt := base\<rparr>)
              in if bfree (m1 tail) \<noteq> 0 \<and> wrap64 (tail + bsize (m1 tail)) = base
                 then Some (h\<lparr>hdr := m1(tail := (m1 tail)\<lparr>bsize := wrap64 (bsize (m1 tail) + bsize (m1 base)),
                                                        nxt := nxt (m1 base)\<rparr>)\<rparr>)
                 else Some (h\<lparr>hdr := m1\<rparr>)))"

definition grow_heap_for :: "nat \<Rightarrow> nat \<Rightarrow> heap \<Rightarrow> heap result option" where
  "grow_heap_for root need h =
     (let p0 = wrap64 (need + PMM_PAGE_SIZE - 1) div PMM_PAGE_SIZE;
          pages = (if p0 < KHEAP_GROW div PMM_PAGE_SIZE then KHEAP_GROW div PMM_PAGE_SIZE else p0);
          base = heap_end h
      in case grow_pages root pages h of
           Inl msg \<Rightarrow> Some (Inl msg)
         | Inr h1 \<Rightarrow> map_option Inr (append_free_region base (wrap64 (pages * PMM_PAGE_SIZE)) h1))"

text \<open>One pass of the first-fit loop over the list that starts at \<open>b\<close>: the address of the first free
  block that is large enough, if any.\<close>

partial_function (option) find_fit :: "(nat \<Rightarrow> block) \<Rightarrow> nat \<Rightarrow> nat \<Rightarrow> nat option result option" where
  "find_fit m need b =
     (if b = 0 then Some (Inr None)
      else if magic (m b) \<noteq> HEAP_MAGIC then Some (Inl ''heap: corrupt free-list magic'')
      else if bfree (m b) \<noteq> 0 \<and> bsize (m b) \<ge> need then Some (Inr (Some b))
      else find_fit m need (nxt (m b)))"

fun kmalloc_attempts :: "nat \<Rightarrow> nat \<Rightarrow> nat \<Rightarrow> heap \<Rightarrow> (nat \<times> heap) result option" where
  "kmalloc_attempts 0 root need h = Some (Inl ''kmalloc: out of memory after grow'')"
| "kmalloc_attempts (Suc n) root need h =
     (case find_fit (hdr h) need (head h) of
        None \<Rightarrow> None
      | Some (Inl msg) \<Rightarrow> Some (Inl msg)
      | Some (Inr (Some b)) \<Rightarrow>
          (let m1 = split_block b need (hdr h)
           in Some (Inr (wrap64 (b + HDR), h\<lparr>hdr := m1(b := (m1 b)\<lparr>bfree := 0\<rparr>)\<rparr>)))
      | Some (Inr None) \<Rightarrow>
          (case grow_heap_for root need h of
             None \<Rightarrow> None
           | Some (Inl msg) \<Rightarrow> Some (Inl msg)
           | Some (Inr h1) \<Rightarrow> kmalloc_attempts n root need h1))"

definition block_need :: "nat \<Rightarrow> nat" where
  "block_need sz = wrap64 (wrap64 (sz + 15) div 16 * 16 + HDR)"

definition kmalloc :: "nat \<Rightarrow> nat \<Rightarrow> heap \<Rightarrow> (nat \<times> heap) result option" where
  "kmalloc root sz h = (if sz = 0 then Some (Inr (0, h)) else kmalloc_attempts 2 root (block_need sz) h)"

text \<open>\<^verbatim>\<open>while (prev && prev->next != b) prev = prev->next;\<close>\<close>

partial_function (option) find_prev :: "(nat \<Rightarrow> block) \<Rightarrow> nat \<Rightarrow> nat \<Rightarrow> nat option" where
  "find_prev m b prev =
     (if prev \<noteq> 0 \<and> nxt (m prev) \<noteq> b then find_prev m b (nxt (m prev)) else Some prev)"

definition merge_next :: "nat \<Rightarrow> (nat \<Rightarrow> block) \<Rightarrow> (nat \<Rightarrow> block)" where
  "merge_next b m =
     (let n = nxt (m b)
      in if n \<noteq> 0 \<and> bfree (m n) \<noteq> 0 \<and> wrap64 (b + bsize (m b)) = n
         then m(b := (m b)\<lparr>bsize := wrap64 (bsize (m b) + bsize (m n)), nxt := nxt (m n)\<rparr>)
         else m)"

definition merge_prev :: "nat \<Rightarrow> nat \<Rightarrow> (nat \<Rightarrow> block) \<Rightarrow> (nat \<Rightarrow> block)" where
  "merge_prev prev b m =
     (if prev \<noteq> 0 \<and> bfree (m prev) \<noteq> 0 \<and> wrap64 (prev + bsize (m prev)) = b
      then m(prev := (m prev)\<lparr>bsize := wrap64 (bsize (m prev) + bsize (m b)), nxt := nxt (m b)\<rparr>)
      else m)"

definition kfree :: "nat \<Rightarrow> heap \<Rightarrow> heap result option" where
  "kfree ptr h =
     (if ptr = 0 then Some (Inr h)
      else let b = sub64 ptr HDR
      in if magic (hdr h b) \<noteq> HEAP_MAGIC then Some (Inl ''kfree: bad or already-freed pointer'')
         else let m1 = (hdr h)(b := (hdr h b)\<lparr>bfree := 1\<rparr>); m2 = merge_next b m1
         in case find_prev m2 b (head h) of
              None \<Rightarrow> None
            | Some prev \<Rightarrow> Some (Inr (h\<lparr>hdr := merge_prev prev b m2\<rparr>)))"

text \<open>\<^verbatim>\<open>heap_dump\<close>: free bytes, free blocks, used bytes, used blocks as the loop accumulates them.\<close>

partial_function (option) heap_dump_from ::
    "(nat \<Rightarrow> block) \<Rightarrow> nat \<Rightarrow> nat \<times> nat \<times> nat \<times> nat \<Rightarrow> (nat \<times> nat \<times> nat \<times> nat) option" where
  "heap_dump_from m b acc =
     (if b = 0 then Some acc
      else case acc of (ft, fc, ut, uc) \<Rightarrow>
        heap_dump_from m (nxt (m b))
          (if bfree (m b) \<noteq> 0 then (wrap64 (ft + bsize (m b)), fc + 1, ut, uc)
           else (ft, fc, wrap64 (ut + bsize (m b)), uc + 1)))"

definition heap_dump :: "heap \<Rightarrow> (nat \<times> nat \<times> nat \<times> nat) option" where
  "heap_dump h = heap_dump_from (hdr h) (head h) (0, 0, 0, 0)"

subsection \<open>The list of blocks and the abstract allocator\<close>

text \<open>A block of the abstract heap: address, size with header, and whether it is free.\<close>

type_synonym ablock = "nat \<times> nat \<times> bool"

fun lseg :: "(nat \<Rightarrow> block) \<Rightarrow> nat \<Rightarrow> ablock list \<Rightarrow> nat \<Rightarrow> bool" where
  "lseg m a [] z \<longleftrightarrow> a = z"
| "lseg m a ((x, sz, f) # bs) z \<longleftrightarrow>
     a = x \<and> m x = \<lparr>magic = HEAP_MAGIC, bsize = sz, nxt = nxt (m x), bfree = of_bool f\<rparr>
     \<and> lseg m (nxt (m x)) bs z"

fun tiled :: "nat \<Rightarrow> ablock list \<Rightarrow> nat \<Rightarrow> bool" where
  "tiled a [] z \<longleftrightarrow> a = z"
| "tiled a ((x, sz, f) # bs) z \<longleftrightarrow> a = x \<and> HDR < sz \<and> 16 dvd sz \<and> tiled (a + sz) bs z"

definition coalesced :: "ablock list \<Rightarrow> bool" where
  "coalesced bs \<longleftrightarrow> successively (\<lambda>(x, s, f) (y, t, g). \<not> (f \<and> g)) bs"

definition heap_ok :: "heap \<Rightarrow> ablock list \<Rightarrow> bool" where
  "heap_ok h bs \<longleftrightarrow>
     head h = KHEAP_BASE \<and> bs \<noteq> [] \<and> lseg (hdr h) KHEAP_BASE bs 0 \<and> tiled KHEAP_BASE bs (heap_end h)
   \<and> coalesced bs \<and> heap_end h < 2 ^ 64"

fun alloc_blocks :: "nat \<Rightarrow> ablock list \<Rightarrow> (nat \<times> ablock list) option" where
  "alloc_blocks need [] = None"
| "alloc_blocks need ((x, sz, f) # bs) =
     (if f \<and> need \<le> sz
      then Some (x, (if need + 48 \<le> sz then [(x, need, False), (x + need, sz - need, True)]
                     else [(x, sz, False)]) @ bs)
      else map_option (\<lambda>(p, bs'). (p, (x, sz, f) # bs')) (alloc_blocks need bs))"

fun coalesce :: "ablock list \<Rightarrow> ablock list" where
  "coalesce ((x, s, f) # (y, t, g) # bs) =
     (if f \<and> g then coalesce ((x, s + t, True) # bs) else (x, s, f) # coalesce ((y, t, g) # bs))"
| "coalesce bs = bs"

definition free_blocks :: "nat \<Rightarrow> ablock list \<Rightarrow> ablock list" where
  "free_blocks x bs = coalesce (map (\<lambda>(y, s, f). (y, s, f \<or> y = x)) bs)"

text \<open>The payloads in use: start and length.\<close>

definition live :: "ablock list \<Rightarrow> (nat \<times> nat) set" where
  "live bs = {(x + HDR, sz - HDR) |x sz. (x, sz, False) \<in> set bs}"

subsection \<open>Lists of blocks\<close>

lemma lseg_append: "lseg m a (bs @ cs) z \<longleftrightarrow> (\<exists>y. lseg m a bs y \<and> lseg m y cs z)"
  by (induction m a bs z rule: lseg.induct) auto

lemma lseg_cong: "(\<And>x. x \<in> fst ` set bs \<Longrightarrow> m x = m' x) \<Longrightarrow> lseg m a bs z = lseg m' a bs z"
  by (induction m a bs z rule: lseg.induct) auto

lemma lseg_upd [simp]: "b \<notin> fst ` set bs \<Longrightarrow> lseg (m(b := v)) a bs z = lseg m a bs z"
  by (rule lseg_cong) auto

lemma tiled_append: "tiled a (bs @ cs) z \<longleftrightarrow> (\<exists>y. tiled a bs y \<and> tiled y cs z)"
  by (induction a bs z rule: tiled.induct) auto

lemma tiled_le: "tiled a bs z \<Longrightarrow> a \<le> z"
  by (induction a bs z rule: tiled.induct) auto

lemma tiled_inside: "tiled a bs z \<Longrightarrow> (x, s, f) \<in> set bs \<Longrightarrow> a \<le> x \<and> x + s \<le> z \<and> HDR < s \<and> 16 dvd s"
proof (induction a bs z rule: tiled.induct)
  case (2 a y t g bs z)
  then show ?case using tiled_le [of "a + t" bs z] by auto
qed simp

lemma tiled_addrs: "tiled a bs z \<Longrightarrow> x \<in> fst ` set bs \<Longrightarrow> a \<le> x \<and> x < z"
  by (fastforce dest: tiled_inside)

lemma tiled_nonnull: "tiled a bs z \<Longrightarrow> 0 < a \<Longrightarrow> 0 \<notin> fst ` set bs"
  using tiled_addrs [of a bs z 0] by auto

lemma tiled_aligned: "tiled a bs z \<Longrightarrow> 16 dvd a \<Longrightarrow> (x, s, f) \<in> set bs \<Longrightarrow> 16 dvd x"
  by (induction a bs z rule: tiled.induct) auto

text \<open>Two adjacent blocks around a cut of a tiling: nothing before or after shares their addresses.\<close>

lemma tiled_cut:
  assumes "tiled a (ps @ (x, s, f) # qs) z"
  shows "tiled a ps x" "tiled (x + s) qs z" "a \<le> x" "x + s \<le> z" "HDR < s" "16 dvd s"
    "x \<notin> fst ` set ps" "x \<notin> fst ` set qs" "\<And>w. w \<in> fst ` set ps \<Longrightarrow> w < x" "\<And>w. w \<in> fst ` set qs \<Longrightarrow> x + s \<le> w"
proof -
  from assms show p: "tiled a ps x" "tiled (x + s) qs z" "HDR < s" "16 dvd s" by (auto simp: tiled_append)
  show "a \<le> x" "x + s \<le> z" using p tiled_le by auto
  show "w < x" if "w \<in> fst ` set ps" for w using tiled_addrs [OF p(1) that] by simp
  show "x + s \<le> w" if "w \<in> fst ` set qs" for w using tiled_addrs [OF p(2) that] by simp
  show "x \<notin> fst ` set ps" using tiled_addrs [OF p(1)] by fastforce
  show "x \<notin> fst ` set qs" using tiled_addrs [OF p(2)] p(3) by fastforce
qed

lemma lseg_block:
  assumes "lseg m a (ps @ (x, s, f) # qs) z"
  shows "magic (m x) = HEAP_MAGIC" "bsize (m x) = s" "bfree (m x) = of_bool f"
    "lseg m a ps x" "lseg m (nxt (m x)) qs z"
proof -
  from assms have b: "m x = \<lparr>magic = HEAP_MAGIC, bsize = s, nxt = nxt (m x), bfree = of_bool f\<rparr>"
    and r: "lseg m a ps x" "lseg m (nxt (m x)) qs z" by (auto simp: lseg_append)
  from b show "magic (m x) = HEAP_MAGIC" "bsize (m x) = s" "bfree (m x) = of_bool f"
    by (metis block.select_convs)+
  show "lseg m a ps x" "lseg m (nxt (m x)) qs z" by (fact r)+
qed

lemma lseg_head: "lseg m a ((y, t, g) # qs) z \<Longrightarrow> a = y"
  by simp

text \<open>Changing the header of one block of the list.\<close>

lemma lseg_change:
  assumes "lseg m a (ps @ (x, s, f) # qs) z" "tiled b (ps @ (x, s, f) # qs) e"
    "lseg m n qs' z" "x \<notin> fst ` set qs'"
    "v = \<lparr>magic = HEAP_MAGIC, bsize = s', nxt = n, bfree = of_bool f'\<rparr>"
  shows "lseg (m(x := v)) a (ps @ (x, s', f') # qs') z"
  using assms(3-) lseg_block(4) [OF assms(1)] tiled_cut(7) [OF assms(2)]
  by (auto simp: lseg_append)

lemma block_update_eq: "(b :: block) = \<lparr>magic = magic b, bsize = bsize b, nxt = nxt b, bfree = bfree b\<rparr>"
  by simp

lemma block_eqI:
  "magic b = g \<Longrightarrow> bsize b = s \<Longrightarrow> nxt b = n \<Longrightarrow> bfree b = f \<Longrightarrow>
    (b :: block) = \<lparr>magic = g, bsize = s, nxt = n, bfree = f\<rparr>"
  by simp

text \<open>Merging a block with its successor, the step shared by growth and both coalescing branches.\<close>

lemma lseg_merge:
  assumes "lseg m a (ps @ (x, s, f) # (y, t, g) # qs) 0" "tiled b (ps @ (x, s, f) # (y, t, g) # qs) e"
    "e < 2 ^ 64"
  shows "lseg (m(x := (m x)\<lparr>bsize := wrap64 (bsize (m x) + bsize (m y)), nxt := nxt (m y)\<rparr>)) a
           (ps @ (x, s + t, f) # qs) 0"
    "tiled b (ps @ (x, s + t, f) # qs) e" "nxt (m x) = y" "y = x + s"
proof -
  note x = lseg_block [OF assms(1)] and c = tiled_cut [OF assms(2)]
  have y': "lseg m a ((ps @ [(x, s, f)]) @ (y, t, g) # qs) 0" "tiled b ((ps @ [(x, s, f)]) @ (y, t, g) # qs) e"
    using assms(1,2) by simp_all
  note y = lseg_block [OF y'(1)] and d = tiled_cut [OF y'(2)]
  show "nxt (m x) = y" using x(5) by simp
  show ys: "y = x + s" using c(2) by simp
  have "s + t < 2 ^ 64" using d(4) ys assms(3) by simp
  then show "lseg (m(x := (m x)\<lparr>bsize := wrap64 (bsize (m x) + bsize (m y)), nxt := nxt (m y)\<rparr>)) a
      (ps @ (x, s + t, f) # qs) 0"
    using x y c(8) by (intro lseg_change [OF assms(1,2) y(5)] block_eqI) auto
  show "tiled b (ps @ (x, s + t, f) # qs) e"
    using assms(2) by (auto simp: tiled_append add.assoc)
qed

subsection \<open>Allocation\<close>

lemma find_fit_list:
  "lseg m a bs 0 \<Longrightarrow> 0 \<notin> fst ` set bs \<Longrightarrow>
    find_fit m need a = Some (Inr (map_option fst (alloc_blocks need bs)))"
proof (induction bs arbitrary: a)
  case Nil
  then show ?case by (simp add: find_fit.simps)
next
  case (Cons b bs)
  obtain x s f where b: "b = (x, s, f)" by (cases b)
  have l: "lseg m a ([] @ (x, s, f) # bs) 0" using Cons.prems(1) by (simp add: b)
  note x = lseg_block [OF l]
  have "a = x" "x \<noteq> 0" using x(4) Cons.prems(2) by (auto simp: b)
  then show ?case
    using x Cons.IH [OF x(5)] Cons.prems(2)
    by (subst find_fit.simps) (auto simp: b option.map_comp comp_def case_prod_beta)
qed

lemma alloc_blocks_cases:
  "alloc_blocks need bs = Some (x, bs') \<Longrightarrow>
    \<exists>ps s qs. bs = ps @ (x, s, True) # qs \<and> need \<le> s \<and>
      bs' = ps @ (if need + 48 \<le> s then [(x, need, False), (x + need, s - need, True)] else [(x, s, False)]) @ qs"
proof (induction need bs arbitrary: bs' rule: alloc_blocks.induct)
  case (2 need y s f bs)
  show ?case
  proof (cases "f \<and> need \<le> s")
    case True
    then show ?thesis using "2.prems" by (intro exI [of _ "[]"] exI [of _ s] exI [of _ bs]) auto
  next
    case False
    then obtain cs where cs: "alloc_blocks need bs = Some (x, cs)" "bs' = (y, s, f) # cs"
      using "2.prems" by auto
    from "2.IH" [OF False cs(1)] obtain ps t qs where "bs = ps @ (x, t, True) # qs" "need \<le> t"
      "cs = ps @ (if need + 48 \<le> t then [(x, need, False), (x + need, t - need, True)] else [(x, t, False)]) @ qs"
      by blast
    then show ?thesis using cs(2)
      by (intro exI [of _ "(y, s, f) # ps"] exI [of _ t] exI [of _ qs]) simp
  qed
qed simp

lemma alloc_blocks_None: "alloc_blocks need bs = None \<longleftrightarrow> (\<forall>(x, s, f) \<in> set bs. \<not> (f \<and> need \<le> s))"
  by (induction need bs rule: alloc_blocks.induct) auto

lemma coalesced_append:
  "coalesced (bs @ cs) \<longleftrightarrow> coalesced bs \<and> coalesced cs
     \<and> (bs \<noteq> [] \<longrightarrow> cs \<noteq> [] \<longrightarrow> \<not> (snd (snd (last bs)) \<and> snd (snd (hd cs))))"
  by (auto simp: coalesced_def successively_append_iff split: prod.splits)

lemma coalesced_Cons [simp]:
  "coalesced (b # cs) \<longleftrightarrow> coalesced cs \<and> (cs \<noteq> [] \<longrightarrow> \<not> (snd (snd b) \<and> snd (snd (hd cs))))" "coalesced []"
  using coalesced_append [of "[b]" cs] by (simp_all add: coalesced_def)

lemma alloc_blocks_wf:
  assumes "alloc_blocks need bs = Some (x, bs')" "tiled a bs e" "coalesced bs" "HDR < need" "16 dvd need"
  shows "tiled a bs' e" "coalesced bs'" "bs' \<noteq> []"
    "\<exists>k. need \<le> k \<and> (x, k, False) \<in> set bs' \<and> live bs' = insert (x + HDR, k - HDR) (live bs)
       \<and> (x + HDR, k - HDR) \<notin> live bs"
proof -
  obtain ps s qs where bs: "bs = ps @ (x, s, True) # qs" "need \<le> s"
    "bs' = ps @ (if need + 48 \<le> s then [(x, need, False), (x + need, s - need, True)] else [(x, s, False)]) @ qs"
    using alloc_blocks_cases [OF assms(1)] by blast
  note c = tiled_cut [OF assms(2) [unfolded bs(1)]]
  show "tiled a bs' e"
    using assms(4,5) c bs(2) unfolding bs(3) by (auto simp: tiled_append intro!: dvd_diff_nat)
  show "coalesced bs'" "bs' \<noteq> []" using assms(3) unfolding bs(1,3) by (auto simp: coalesced_append)
  let ?k = "if need + 48 \<le> s then need else s"
  have "live bs' = insert (x + HDR, ?k - HDR) (live bs)" "(x, ?k, False) \<in> set bs'" "need \<le> ?k"
    using bs(2) unfolding bs(1,3) by (auto simp: live_def)
  moreover have "(x + HDR, l) \<notin> live bs" for l
    using c(7,8) unfolding bs(1) by (force simp: live_def)
  ultimately show "\<exists>k. need \<le> k \<and> (x, k, False) \<in> set bs' \<and> live bs' = insert (x + HDR, k - HDR) (live bs)
       \<and> (x + HDR, k - HDR) \<notin> live bs" by blast
qed

lemma split_lseg:
  assumes "alloc_blocks need bs = Some (x, bs')" "lseg m a bs 0" "tiled b bs e" "e < 2 ^ 64" "HDR < need"
    "need + 48 < 2 ^ 64" and m1: "m1 = split_block x need m"
  shows "lseg (m1(x := (m1 x)\<lparr>bfree := 0\<rparr>)) a bs' 0"
proof -
  obtain ps s qs where bs: "bs = ps @ (x, s, True) # qs" "need \<le> s"
    "bs' = ps @ (if need + 48 \<le> s then [(x, need, False), (x + need, s - need, True)] else [(x, s, False)]) @ qs"
    using alloc_blocks_cases [OF assms(1)] by blast
  note l = assms(2) [unfolded bs(1)] and t = assms(3) [unfolded bs(1)]
  note c = tiled_cut [OF t] and x = lseg_block [OF l]
  show ?thesis
  proof (cases "need + 48 \<le> s")
    case True
    let ?n = "\<lparr>magic = HEAP_MAGIC, bsize = s - need, nxt = nxt (m x), bfree = of_bool True\<rparr>"
    let ?m = "m(x + need := ?n)"
    have n: "x + need \<notin> fst ` set ps" "x + need \<notin> fst ` set qs" "x + need \<noteq> x" "x + need < 2 ^ 64"
      using c(4,9,10) True assms(4,5) by (fastforce)+
    have l': "lseg ?m a (ps @ (x, s, True) # qs) 0" using l n by (auto simp: lseg_append)
    have "lseg ?m (x + need) ((x + need, s - need, True) # qs) 0" using x(5) n by auto
    moreover have "m1 = ?m(x := (m x)\<lparr>bsize := need, nxt := x + need\<rparr>)"
      using True assms(5,6) n(3,4) x(2) c(4) assms(4)
      by (auto simp: m1 split_block_def add.commute add.left_commute Let_def)
    moreover have "(m x)\<lparr>bsize := need, nxt := x + need, bfree := 0\<rparr> =
        \<lparr>magic = HEAP_MAGIC, bsize = need, nxt = x + need, bfree = 0\<rparr>"
      using x(1) by (intro block_eqI) simp_all
    ultimately show ?thesis
      using True n c(8) lseg_change [OF l' t, where s' = need and f' = False and n = "x + need"
          and qs' = "(x + need, s - need, True) # qs"]
      unfolding bs(3) by simp
  next
    case False
    then have "m1 = m" using assms(6) x(2) by (simp add: m1 split_block_def add.commute add.left_commute)
    with False show ?thesis
      unfolding bs(3) using c(8) x by (auto intro!: lseg_change [OF l t x(5)] block_eqI)
  qed
qed

subsection \<open>Growth\<close>

lemma find_tail_list:
  "lseg m a (bs @ [(x, s, f)]) 0 \<Longrightarrow> 0 \<notin> fst ` set bs \<Longrightarrow> x \<noteq> 0 \<Longrightarrow> find_tail m a = Some x"
proof (induction bs arbitrary: a)
  case Nil
  then show ?case by (simp add: find_tail.simps)
next
  case (Cons b bs)
  obtain y t g where b: "b = (y, t, g)" by (cases b)
  have l: "lseg m a ([] @ (y, t, g) # (bs @ [(x, s, f)])) 0" using Cons.prems(1) by (simp add: b)
  note y = lseg_block [OF l]
  have "nxt (m y) \<noteq> 0" using y(5) Cons.prems(2,3) by (cases bs) auto
  then show ?case using y(4) Cons.IH [OF y(5)] Cons.prems(2,3) by (subst find_tail.simps) (simp add: b)
qed

text \<open>A new region at the end of the heap: merged into a free last block, appended otherwise.\<close>

definition extend_blocks :: "nat \<Rightarrow> nat \<Rightarrow> ablock list \<Rightarrow> ablock list" where
  "extend_blocks base sz bs =
     (case last bs of (x, s, f) \<Rightarrow> if f then butlast bs @ [(x, s + sz, True)] else bs @ [(base, sz, True)])"

lemma append_region_ok:
  assumes "lseg (hdr h) (head h) bs 0" "tiled a bs e" "bs \<noteq> []" "coalesced bs" "0 < a" "e + sz < 2 ^ 64"
    "HDR < sz" "16 dvd sz"
  shows "\<exists>m. append_free_region e sz h = Some (h\<lparr>hdr := m\<rparr>) \<and> lseg m (head h) (extend_blocks e sz bs) 0
    \<and> tiled a (extend_blocks e sz bs) (e + sz) \<and> coalesced (extend_blocks e sz bs)"
proof -
  obtain ps x s f where bs: "bs = ps @ [(x, s, f)]"
    using assms(3) by (metis append_butlast_last_id prod.exhaust)
  let ?n = "\<lparr>magic = HEAP_MAGIC, bsize = sz, nxt = 0, bfree = 1\<rparr>"
  define m where "m = (hdr h)(e := ?n)"
  note c = tiled_cut [OF assms(2) [unfolded bs]]
  have es: "e = x + s" using c(2) by simp
  have e: "e \<notin> fst ` set ps" "e \<noteq> x" using c(5,9) es by fastforce+
  have l: "lseg m (head h) (ps @ [(x, s, f)]) 0" using assms(1) e unfolding bs m_def by (auto simp: lseg_append)
  note x = lseg_block [OF l]
  have z: "0 \<notin> fst ` set ps" "x \<noteq> 0" using tiled_addrs [OF c(1)] c(3) assms(5) by fastforce+
  have tail: "find_tail m (head h) = Some x" using l z by (rule find_tail_list)
  define m1 where "m1 = m(x := (m x)\<lparr>nxt := e\<rparr>)"
  have "lseg m e [(e, sz, True)] 0" by (simp add: m_def)
  then have l1: "lseg m1 (head h) (ps @ (x, s, f) # [(e, sz, True)]) 0"
    unfolding m1_def using e(2) x by (intro lseg_change [OF l assms(2) [unfolded bs]] block_eqI) auto
  have t1: "tiled a (ps @ (x, s, f) # [(e, sz, True)]) (e + sz)"
    using c assms(7,8) es by (auto simp: tiled_append)
  have w: "wrap64 (x + s) = e" using es assms(6) by simp
  have fx: "bfree (m1 x) = of_bool f" "bsize (m1 x) = s" using lseg_block [OF l1] by auto
  have app: "append_free_region e sz h = (if f then Some (h\<lparr>hdr :=
        m1(x := (m1 x)\<lparr>bsize := wrap64 (bsize (m1 x) + bsize (m1 e)), nxt := nxt (m1 e)\<rparr>)\<rparr>) else Some (h\<lparr>hdr := m1\<rparr>))"
    unfolding append_free_region_def Let_def m_def [symmetric] tail option.case m1_def [symmetric]
    using fx w by simp
  note mg = lseg_merge(1,2) [OF l1 t1 assms(6)]
  show ?thesis
    using mg l1 t1 assms(4) unfolding app bs extend_blocks_def
    by (cases f) (simp add: coalesced_append, blast)+
qed

lemma live_extend: "bs \<noteq> [] \<Longrightarrow> live (extend_blocks e sz bs) = live bs"
proof -
  assume "bs \<noteq> []"
  then obtain ps x s f where "bs = ps @ [(x, s, f)]" by (metis append_butlast_last_id prod.exhaust)
  then show ?thesis by (auto simp: live_def extend_blocks_def)
qed

lemma extend_fits: "bs \<noteq> [] \<Longrightarrow> need \<le> sz \<Longrightarrow> alloc_blocks need (extend_blocks e sz bs) \<noteq> None"
proof -
  assume "bs \<noteq> []" and n: "need \<le> sz"
  then obtain ps x s f where "bs = ps @ [(x, s, f)]" by (metis append_butlast_last_id prod.exhaust)
  then show ?thesis using n unfolding alloc_blocks_None by (auto simp: extend_blocks_def)
qed

lemma grow_pages_fields:
  "grow_pages root n h = Inr h' \<Longrightarrow> heap_end h + n * PMM_PAGE_SIZE < 2 ^ 64 \<Longrightarrow>
    head h' = head h \<and> hdr h' = hdr h \<and> heap_end h' = heap_end h + n * PMM_PAGE_SIZE"
proof (induction root n h rule: grow_pages.induct)
  case (2 root n h)
  from "2.prems"(1) obtain phys m1 m2 where
    m: "pmm_alloc_page (machine h) = Inr (phys, m1)"
      "vmm_map root (heap_end h) (of_nat phys) PMM_PAGE_SIZE VMM_W m1 = Inr m2"
      "grow_pages root n (h\<lparr>machine := m2, heap_end := wrap64 (heap_end h + PMM_PAGE_SIZE)\<rparr>) = Inr h'"
    by (auto split: sum.splits)
  from "2.IH" [OF m(1) refl m(2,3)] "2.prems"(2) show ?case by simp
qed simp

text \<open>The pages a growth adds for a request.\<close>

definition grow_bytes :: "nat \<Rightarrow> nat" where
  "grow_bytes need = max 16 ((need + PMM_PAGE_SIZE - 1) div PMM_PAGE_SIZE) * PMM_PAGE_SIZE"

lemma grow_bytes_ge: "need \<le> grow_bytes need" "HDR < grow_bytes need" "16 dvd grow_bytes need"
proof -
  have "need \<le> (need + PMM_PAGE_SIZE - 1) div PMM_PAGE_SIZE * PMM_PAGE_SIZE" by linarith
  also have "\<dots> \<le> grow_bytes need" unfolding grow_bytes_def by (intro mult_le_mono1) simp
  finally show "need \<le> grow_bytes need" .
  show "HDR < grow_bytes need" by (simp add: grow_bytes_def max_def)
  show "16 dvd grow_bytes need" unfolding grow_bytes_def by (rule dvd_mult) simp
qed

lemma heap_okD:
  assumes "heap_ok h bs"
  shows "head h = KHEAP_BASE" "bs \<noteq> []" "lseg (hdr h) KHEAP_BASE bs 0" "tiled KHEAP_BASE bs (heap_end h)"
    "coalesced bs" "heap_end h < 2 ^ 64" "0 \<notin> fst ` set bs"
proof -
  show t: "head h = KHEAP_BASE" "bs \<noteq> []" "lseg (hdr h) KHEAP_BASE bs 0" "tiled KHEAP_BASE bs (heap_end h)"
    "coalesced bs" "heap_end h < 2 ^ 64" using assms unfolding heap_ok_def by blast+
  show "0 \<notin> fst ` set bs" using tiled_nonnull [OF t(4)] by simp
qed

lemma grow_heap_ok:
  assumes ok: "heap_ok h bs" and b: "heap_end h + grow_bytes need < 2 ^ 64" "need + PMM_PAGE_SIZE < 2 ^ 64"
  shows "(\<exists>msg. grow_heap_for root need h = Some (Inl msg)) \<or>
    (\<exists>h'. grow_heap_for root need h = Some (Inr h') \<and> heap_ok h' (extend_blocks (heap_end h) (grow_bytes need) bs)
       \<and> heap_end h' = heap_end h + grow_bytes need)"
proof -
  define n where "n = max 16 ((need + PMM_PAGE_SIZE - 1) div PMM_PAGE_SIZE)"
  have n: "n * PMM_PAGE_SIZE = grow_bytes need" by (simp add: n_def grow_bytes_def)
  note D = heap_okD [OF ok]
  have g: "grow_heap_for root need h = (case grow_pages root n h of Inl msg \<Rightarrow> Some (Inl msg)
      | Inr h1 \<Rightarrow> map_option Inr (append_free_region (heap_end h) (grow_bytes need) h1))"
  proof -
    have "wrap64 (need + PMM_PAGE_SIZE - 1) = need + PMM_PAGE_SIZE - 1" using b(2) by simp
    moreover have "KHEAP_GROW div PMM_PAGE_SIZE = 16" by simp
    moreover have "(if d < 16 then 16 else d) = max 16 d" for d :: nat by simp
    moreover have "wrap64 (grow_bytes need) = grow_bytes need" using b(1) by simp
    ultimately show ?thesis unfolding grow_heap_for_def Let_def by (simp only: n flip: n_def)
  qed
  show ?thesis
  proof (cases "grow_pages root n h")
    case (Inr h1)
    have f: "head h1 = head h" "hdr h1 = hdr h" "heap_end h1 = heap_end h + grow_bytes need"
      using grow_pages_fields [OF Inr] b(1) unfolding n by auto
    obtain m where "append_free_region (heap_end h) (grow_bytes need) h1 = Some (h1\<lparr>hdr := m\<rparr>)"
      "lseg m (head h1) (extend_blocks (heap_end h) (grow_bytes need) bs) 0"
      "tiled KHEAP_BASE (extend_blocks (heap_end h) (grow_bytes need) bs) (heap_end h + grow_bytes need)"
      "coalesced (extend_blocks (heap_end h) (grow_bytes need) bs)"
      using append_region_ok [of h1 bs KHEAP_BASE "heap_end h" "grow_bytes need"] D f b(1) grow_bytes_ge by auto
    moreover have "extend_blocks (heap_end h) (grow_bytes need) bs \<noteq> []"
      by (simp add: extend_blocks_def split: prod.splits)
    ultimately show ?thesis using f b(1) D(1) unfolding g Inr by (simp add: heap_ok_def)
  qed (simp add: g)
qed

lemma block_need_props:
  assumes "0 < sz" "sz + PMM_PAGE_SIZE < 2 ^ 63"
  shows "HDR + sz \<le> block_need sz" "block_need sz < HDR + sz + 16" "16 dvd block_need sz"
    "block_need sz + PMM_PAGE_SIZE < 2 ^ 64"
proof -
  have "block_need sz = (sz + 15) div 16 * 16 + HDR" using assms(2) by (simp add: block_need_def)
  moreover have "sz \<le> (sz + 15) div 16 * 16" "(sz + 15) div 16 * 16 \<le> sz + 15" by simp_all
  ultimately show "HDR + sz \<le> block_need sz" "block_need sz < HDR + sz + 16" "16 dvd block_need sz"
    "block_need sz + PMM_PAGE_SIZE < 2 ^ 64" using assms(2) by simp_all
qed

lemma attempt_hit:
  assumes ok: "heap_ok h bs" and a: "alloc_blocks need bs = Some (x, bs')"
    and need: "HDR < need" "16 dvd need" "need + PMM_PAGE_SIZE < 2 ^ 64"
  shows "\<exists>m. kmalloc_attempts (Suc n) root need h = Some (Inr (x + HDR, h\<lparr>hdr := m\<rparr>)) \<and> heap_ok (h\<lparr>hdr := m\<rparr>) bs'"
proof -
  note D = heap_okD [OF ok]
  note w = alloc_blocks_wf [OF a D(4,5) need(1,2)]
  obtain k where "(x, k, False) \<in> set bs'" using w(4) by blast
  then have x: "x + HDR < 2 ^ 64" using tiled_inside [OF w(1)] D(6) by fastforce
  have "find_fit (hdr h) need (head h) = Some (Inr (Some x))"
    using find_fit_list [OF D(3,7), of need] a D(1) by simp
  then show ?thesis
    using split_lseg [OF a D(3,4,6) need(1) _ refl] need(3) w D(1,6) x
    by (simp add: Let_def heap_ok_def) blast
qed

lemma kmalloc_hit:
  assumes "heap_ok h bs" "alloc_blocks (block_need sz) bs = Some (x, bs')" "0 < sz" "sz + PMM_PAGE_SIZE < 2 ^ 63"
  shows "\<exists>m. kmalloc root sz h = Some (Inr (x + HDR, h\<lparr>hdr := m\<rparr>)) \<and> heap_ok (h\<lparr>hdr := m\<rparr>) bs'"
proof -
  note N = block_need_props [OF assms(3,4)]
  have "HDR < block_need sz" using N(1) assms(3) by simp
  from attempt_hit [OF assms(1,2) this N(3,4), of 1 root] show ?thesis
    using assms(3) unfolding kmalloc_def numeral_2_eq_2 by simp
qed

lemma kmalloc_ok:
  assumes ok: "heap_ok h bs" and sz: "0 < sz" "sz + PMM_PAGE_SIZE < 2 ^ 63"
    and room: "heap_end h + grow_bytes (block_need sz) < 2 ^ 64"
  shows "\<exists>r. kmalloc root sz h = Some r \<and>
    (case r of
       Inl msg \<Rightarrow> alloc_blocks (block_need sz) bs = None \<and> grow_heap_for root (block_need sz) h = Some (Inl msg)
     | Inr (p, h') \<Rightarrow> \<exists>x bs' cs. p = x + HDR \<and> heap_ok h' bs' \<and> live cs = live bs \<and> tiled KHEAP_BASE cs (heap_end h')
         \<and> coalesced cs \<and> alloc_blocks (block_need sz) cs = Some (x, bs')
         \<and> cs = (if alloc_blocks (block_need sz) bs = None
             then extend_blocks (heap_end h) (grow_bytes (block_need sz)) bs else bs))"
proof -
  let ?n = "block_need sz"
  note N = block_need_props [OF sz]
  have n: "HDR < ?n" using N(1) sz(1) by simp
  note D = heap_okD [OF ok]
  show ?thesis
  proof (cases "alloc_blocks ?n bs")
    case (Some r)
    obtain x bs' where r: "r = (x, bs')" by (cases r)
    from attempt_hit [OF ok Some [unfolded r] n N(3,4), of 1 root]
    show ?thesis using Some r sz D unfolding kmalloc_def numeral_2_eq_2 by fastforce
  next
    case None
    have ff: "find_fit (hdr h) ?n (head h) = Some (Inr None)"
      using find_fit_list [OF D(3,7), of ?n] None D(1) by simp
    let ?e = "extend_blocks (heap_end h) (grow_bytes ?n) bs"
    consider (fail) msg where "grow_heap_for root ?n h = Some (Inl msg)"
      | (more) h1 where "grow_heap_for root ?n h = Some (Inr h1)" "heap_ok h1 ?e"
      using grow_heap_ok [OF ok room N(4)] by blast
    then show ?thesis
    proof cases
      case fail
      then show ?thesis using None ff sz unfolding kmalloc_def numeral_2_eq_2 by simp
    next
      case more
      obtain x bs' where a: "alloc_blocks ?n ?e = Some (x, bs')"
        using extend_fits [OF D(2) grow_bytes_ge(1), of ?n "heap_end h"] by auto
      from attempt_hit [OF more(2) a n N(3,4), of 0 root]
      show ?thesis using a ff sz more None live_extend [OF D(2)] heap_okD [OF more(2)]
        unfolding kmalloc_def numeral_2_eq_2 by fastforce
    qed
  qed
qed

subsection \<open>Release\<close>

lemma coalesce_id: "coalesced bs \<Longrightarrow> coalesce bs = bs"
  by (induction bs rule: coalesce.induct) auto

lemma coalesce_prefix: "coalesced (ps @ [b]) \<Longrightarrow> coalesce (ps @ b # cs) = ps @ coalesce (b # cs)"
proof (induction ps)
  case (Cons p ps)
  obtain x s f where p: "p = (x, s, f)" by (cases p)
  obtain y t g rest where r: "ps @ b # cs = (y, t, g) # rest" by (metis append_Cons list.exhaust neq_Nil_conv prod.exhaust append_is_Nil_conv)
  have "snd (snd (hd (ps @ [b]))) = g" using r by (cases ps) auto
  then have "\<not> (f \<and> g)" using Cons.prems p by auto
  then show ?case using Cons r p by auto
qed simp

definition merge_fwd :: "nat \<Rightarrow> nat \<Rightarrow> ablock list \<Rightarrow> ablock list" where
  "merge_fwd x s qs = (case qs of (y, t, True) # qs' \<Rightarrow> (x, s + t, True) # qs' | _ \<Rightarrow> (x, s, True) # qs)"

lemma coalesce_fwd: "coalesced qs \<Longrightarrow> coalesce ((x, s, True) # qs) = merge_fwd x s qs"
proof (cases qs)
  case (Cons b qs')
  assume c: "coalesced qs"
  obtain y t g where b: "b = (y, t, g)" by (cases b)
  show ?thesis
  proof (cases g)
    case True
    then have "coalesced ((x, s + t, True) # qs')" using c Cons b by auto
    from coalesce_id [OF this] show ?thesis using True by (simp add: Cons b merge_fwd_def)
  next
    case False
    then show ?thesis using coalesce_id [OF c] by (simp add: Cons b merge_fwd_def)
  qed
qed (simp add: merge_fwd_def)

lemma free_blocks_at:
  assumes "tiled a (ps @ (x, s, f) # qs) e" "coalesced (ps @ (x, s, f) # qs)"
  shows "free_blocks x (ps @ (x, s, f) # qs) =
    (if ps \<noteq> [] \<and> snd (snd (last ps))
     then butlast ps @ merge_fwd (fst (last ps)) (fst (snd (last ps)) + s) qs
     else ps @ merge_fwd x s qs)"
proof -
  note c = tiled_cut [OF assms(1)]
  have "map (\<lambda>(y, s, f). (y, s, f \<or> y = x)) cs = cs" if "x \<notin> fst ` set cs" for cs :: "ablock list"
    using that by (induction cs) auto
  then have m: "free_blocks x (ps @ (x, s, f) # qs) = coalesce (ps @ (x, s, True) # qs)"
    using c(7,8) by (simp add: free_blocks_def)
  have cs: "coalesced ps" "coalesced qs" using assms(2) by (auto simp: coalesced_append)
  show ?thesis
  proof (cases "ps \<noteq> [] \<and> snd (snd (last ps))")
    case True
    obtain ps' w u where ps: "ps = ps' @ [(w, u, True)]"
      using True by (metis append_butlast_last_id prod.collapse)
    then show ?thesis using coalesce_prefix [of ps' "(w, u, True)" "(x, s, True) # qs"] cs
      unfolding m by (simp add: coalesce_fwd)
  next
    case False
    then have "coalesced (ps @ [(x, s, True)])" using cs by (auto simp: coalesced_append)
    then show ?thesis using False cs coalesce_fwd coalesce_prefix by (simp only: m if_False)
  qed
qed

lemma find_prev_none:
  "lseg m a bs 0 \<Longrightarrow> 0 \<notin> fst ` set bs \<Longrightarrow> b \<notin> fst ` set (tl bs) \<Longrightarrow> b \<noteq> 0 \<Longrightarrow> find_prev m b a = Some 0"
proof (induction bs arbitrary: a)
  case Nil
  then show ?case by (simp add: find_prev.simps)
next
  case (Cons c bs)
  obtain x s f where c: "c = (x, s, f)" by (cases c)
  have l: "lseg m a ([] @ (x, s, f) # bs) 0" using Cons.prems(1) by (simp add: c)
  note x = lseg_block [OF l]
  have "nxt (m x) \<noteq> b" using x(5) Cons.prems(3,4) by (cases bs) auto
  moreover have "find_prev m b (nxt (m x)) = Some 0"
    using Cons.IH [OF x(5)] Cons.prems by (cases bs) auto
  ultimately show ?case using x(4) by (subst find_prev.simps) simp
qed

lemma find_prev_hit:
  "lseg m a (ps @ [(w, u, g)]) b \<Longrightarrow> 0 \<notin> fst ` set ps \<Longrightarrow> w \<noteq> 0 \<Longrightarrow> b \<notin> fst ` set ps \<Longrightarrow> w \<noteq> b \<Longrightarrow>
    find_prev m b a = Some w"
proof (induction ps arbitrary: a)
  case Nil
  then show ?case by (simp add: find_prev.simps)
next
  case (Cons c ps)
  obtain x s f where c: "c = (x, s, f)" by (cases c)
  have l: "lseg m a ([] @ (x, s, f) # (ps @ [(w, u, g)])) b" using Cons.prems(1) by (simp add: c)
  note x = lseg_block [OF l]
  have "nxt (m x) \<noteq> b" using x(5) Cons.prems by (cases ps) auto
  then show ?case using x(4) Cons.IH [OF x(5)] Cons.prems by (subst find_prev.simps) (simp add: c)
qed

lemma merge_fwd_head: "\<exists>t r. merge_fwd x s qs = (x, t, True) # r"
  by (auto simp: merge_fwd_def split: list.splits bool.splits)

lemma merge_next_lseg:
  assumes "lseg m a (ps @ (x, s, True) # qs) 0" "tiled b (ps @ (x, s, True) # qs) e" "e < 2 ^ 64" "0 < b"
  shows "lseg (merge_next x m) a (ps @ merge_fwd x s qs) 0 \<and> tiled b (ps @ merge_fwd x s qs) e"
proof (cases qs)
  case Nil
  then have "nxt (m x) = 0" using lseg_block(5) [OF assms(1)] by simp
  then show ?thesis using assms Nil by (simp add: merge_next_def merge_fwd_def)
next
  case (Cons c qs')
  obtain y t g where c: "c = (y, t, g)" by (cases c)
  note l = assms(1) [unfolded Cons c] and ti = assms(2) [unfolded Cons c]
  note mg = lseg_merge [OF l ti assms(3)] and x = lseg_block [OF l]
  have y: "bfree (m y) = of_bool g" using lseg_block(3) [of m a "ps @ [(x, s, True)]" y t g qs' 0] l by simp
  have w: "wrap64 (x + bsize (m x)) = y" "y \<noteq> 0"
    using mg(4) tiled_cut(3,4) [OF ti] x(2) assms(3,4) by simp_all
  show ?thesis
  proof (cases g)
    case True
    then have "merge_fwd x s qs = (x, s + t, True) # qs'" by (simp add: Cons c merge_fwd_def)
    moreover have "merge_next x m = m(x := (m x)\<lparr>bsize := wrap64 (bsize (m x) + bsize (m y)), nxt := nxt (m y)\<rparr>)"
      using mg(3) w y True by (simp add: merge_next_def)
    ultimately show ?thesis using mg(1,2) by simp
  next
    case False
    then show ?thesis using mg(3) w y assms(1,2) by (simp add: merge_next_def merge_fwd_def Cons c)
  qed
qed

text \<open>\<open>kfree\<close> on a block of the list computes \<open>free_blocks\<close>.\<close>

lemma kfree_ok:
  assumes ok: "heap_ok h bs" and x: "(x, s, f) \<in> set bs"
  shows "\<exists>m. kfree (x + HDR) h = Some (Inr (h\<lparr>hdr := m\<rparr>)) \<and> lseg m KHEAP_BASE (free_blocks x bs) 0
    \<and> tiled KHEAP_BASE (free_blocks x bs) (heap_end h)"
proof -
  note D = heap_okD [OF ok]
  obtain ps qs where bs: "bs = ps @ (x, s, f) # qs" using x by (auto dest: split_list)
  note l = D(3) [unfolded bs] and t = D(4) [unfolded bs]
  note c = tiled_cut [OF t] and X = lseg_block [OF l]
  define m1 where "m1 = (hdr h)(x := (hdr h x)\<lparr>bfree := 1\<rparr>)"
  have l1: "lseg m1 KHEAP_BASE (ps @ (x, s, True) # qs) 0"
    unfolding m1_def using X c(8) by (intro lseg_change [OF l t X(5)] block_eqI) auto
  have t1: "tiled KHEAP_BASE (ps @ (x, s, True) # qs) (heap_end h)" using t by (auto simp: tiled_append)
  define m2 where "m2 = merge_next x m1"
  have l2: "lseg m2 KHEAP_BASE (ps @ merge_fwd x s qs) 0" "tiled KHEAP_BASE (ps @ merge_fwd x s qs) (heap_end h)"
    using merge_next_lseg [OF l1 t1 D(6)] by (simp_all add: m2_def)
  obtain u r where u: "merge_fwd x s qs = (x, u, True) # r" using merge_fwd_head by blast
  note l3 = l2 [unfolded u]
  note c3 = tiled_cut [OF l3(2)] and X3 = lseg_block [OF l3(1)]
  have z: "0 \<notin> fst ` set (ps @ (x, u, True) # r)" using tiled_nonnull [OF l3(2)] by simp
  have ptr: "sub64 (x + HDR) HDR = x" using c(4,5) D(6) by simp
  have kf: "kfree (x + HDR) h = (case find_prev m2 x KHEAP_BASE of None \<Rightarrow> None
      | Some prev \<Rightarrow> Some (Inr (h\<lparr>hdr := merge_prev prev x m2\<rparr>)))"
    unfolding kfree_def ptr Let_def m1_def [symmetric] m2_def [symmetric] using X(1) D(1) by simp
  note fb = free_blocks_at [OF t D(5) [unfolded bs], folded bs]
  show ?thesis
  proof (cases "ps = []")
    case True
    have "find_prev m2 x KHEAP_BASE = Some 0"
      using z c3(8) by (intro find_prev_none [OF l3(1)]) (auto simp: True)
    then show ?thesis unfolding kf using l2 fb True by (auto simp: merge_prev_def)
  next
    case False
    then obtain ps' w v g where ps: "ps = ps' @ [(w, v, g)]" by (metis append_butlast_last_id prod.exhaust)
    have fp: "find_prev m2 x KHEAP_BASE = Some w"
      using z c3(7) X3(4) unfolding ps by (intro find_prev_hit [of m2 KHEAP_BASE ps' w v g]) auto
    have l4: "lseg m2 KHEAP_BASE (ps' @ (w, v, g) # (x, u, True) # r) 0"
      "tiled KHEAP_BASE (ps' @ (w, v, g) # (x, u, True) # r) (heap_end h)" using l3 unfolding ps by simp_all
    note mg = lseg_merge [OF l4 D(6)] and W = lseg_block [OF l4(1)]
    have w: "w \<noteq> 0" "wrap64 (w + v) = x" using z mg(4) c3(4) D(6) unfolding ps by auto
    have mp: "merge_prev w x m2 = (if g then m2(w := (m2 w)\<lparr>bsize := wrap64 (bsize (m2 w) + bsize (m2 x)),
        nxt := nxt (m2 x)\<rparr>) else m2)" using w W(2,3) by (simp add: merge_prev_def)
    have "merge_fwd w (v + s) qs = (w, v + u, True) # r"
      using u by (auto simp: merge_fwd_def add.assoc split: list.splits bool.splits)
    then show ?thesis unfolding kf fp option.case mp fb using mg(1,2) l4 u by (cases g) (simp add: ps, blast)+
  qed
qed

lemma live_Cons: "live ((x, s, f) # bs) = (if f then {} else {(x + HDR, s - HDR)}) \<union> live bs"
  by (auto simp: live_def)

lemma live_coalesce: "live (coalesce bs) = live bs"
  by (induction bs rule: coalesce.induct) (auto simp: live_Cons)

lemma coalesce_hd: "bs \<noteq> [] \<Longrightarrow> coalesce bs \<noteq> [] \<and> snd (snd (hd (coalesce bs))) = snd (snd (hd bs))"
  by (induction bs rule: coalesce.induct) auto

lemma coalesced_coalesce: "coalesced (coalesce bs)"
proof (induction bs rule: coalesce.induct)
  case (1 x s f y t g bs)
  then show ?case using coalesce_hd [of "(y, t, g) # bs"] by auto
qed auto

lemma live_block: "(p, k) \<in> live bs \<longleftrightarrow> (\<exists>x s. (x, s, False) \<in> set bs \<and> p = x + HDR \<and> k = s - HDR)"
  by (auto simp: live_def)

lemma tiled_unique: "tiled a bs e \<Longrightarrow> (x, s, f) \<in> set bs \<Longrightarrow> (x, t, g) \<in> set bs \<Longrightarrow> s = t \<and> f = g"
proof (induction a bs e rule: tiled.induct)
  case (2 a y u h bs z)
  then show ?case using tiled_inside [of "a + u" bs z] by fastforce
qed simp

lemma live_length: "tiled a bs e \<Longrightarrow> (p, k) \<in> live bs \<Longrightarrow> (x, s, f) \<in> set bs \<Longrightarrow> p = x + HDR \<Longrightarrow> k = s - HDR"
  using tiled_unique by (fastforce simp: live_block)

lemma live_unique: "tiled a bs e \<Longrightarrow> (p, k) \<in> live bs \<Longrightarrow> (p, l) \<in> live bs \<Longrightarrow> k = l"
  using live_length by (fastforce simp: live_block [of p l])

lemma live_free_blocks:
  assumes "tiled a bs e" "(x, s, f) \<in> set bs"
  shows "live (free_blocks x bs) = live bs - {(x + HDR, s - HDR)}"
proof -
  have "(y, t, False) \<in> set (map (\<lambda>(y, s, f). (y, s, f \<or> y = x)) bs) \<longleftrightarrow> (y, t, False) \<in> set bs \<and> y \<noteq> x" for y t
    by force
  then have "(p, k) \<in> live (free_blocks x bs) \<longleftrightarrow> (p, k) \<in> live bs \<and> p \<noteq> x + HDR" for p k
    unfolding free_blocks_def live_coalesce live_block by (simp only:) auto
  moreover have "p \<noteq> x + HDR \<longleftrightarrow> (p, k) \<noteq> (x + HDR, s - HDR)" if "(p, k) \<in> live bs" for p k
    using live_length [OF assms(1) that assms(2)] by blast
  ultimately show ?thesis by (intro set_eqI) (metis DiffD1 DiffD2 DiffI prod.exhaust singletonD singletonI)
qed

lemma live_disjoint:
  assumes "tiled a bs e" "(p, k) \<in> live bs" "(q, l) \<in> live bs" "p \<noteq> q"
  shows "p + k + HDR \<le> q \<or> q + l + HDR \<le> p"
proof -
  obtain x s where x: "(x, s, False) \<in> set bs" "p = x + HDR" "k = s - HDR"
    using assms(2) by (auto simp: live_block)
  obtain ps qs where bs: "bs = ps @ (x, s, False) # qs" using x(1) by (auto dest: split_list)
  obtain y t where y: "(y, t, False) \<in> set bs" "q = y + HDR" "l = t - HDR" using assms(3) by (auto simp: live_block)
  note c = tiled_cut [OF assms(1) [unfolded bs]]
  have "y \<noteq> x" using assms(4) x y by simp
  then have "(y, t, False) \<in> set ps \<or> (y, t, False) \<in> set qs" using y(1) by (auto simp: bs)
  then show ?thesis
  proof
    assume "(y, t, False) \<in> set ps"
    from tiled_inside [OF c(1) this] show ?thesis using x y by simp
  next
    assume "(y, t, False) \<in> set qs"
    from tiled_inside [OF c(2) this] show ?thesis using x y c(5) by simp
  qed
qed

text \<open>Allocating a block and releasing it gives back the same list of blocks.\<close>

lemma free_alloc_blocks:
  assumes "alloc_blocks need bs = Some (x, bs')" "tiled a bs e" "coalesced bs" "HDR < need" "16 dvd need"
  shows "free_blocks x bs' = bs"
proof -
  obtain ps s qs where bs: "bs = ps @ (x, s, True) # qs" "need \<le> s"
    "bs' = ps @ (if need + 48 \<le> s then [(x, need, False), (x + need, s - need, True)] else [(x, s, False)]) @ qs"
    using alloc_blocks_cases [OF assms(1)] by blast
  note w = alloc_blocks_wf(1,2) [OF assms]
  have q: "qs \<noteq> [] \<Longrightarrow> \<not> snd (snd (hd qs))" "ps \<noteq> [] \<Longrightarrow> \<not> snd (snd (last ps))"
    using assms(3) by (auto simp: bs(1) coalesced_append)
  show ?thesis
  proof (cases "need + 48 \<le> s")
    case True
    then have b: "bs' = ps @ (x, need, False) # (x + need, s - need, True) # qs" by (simp add: bs(3))
    show ?thesis using free_blocks_at [OF w [unfolded b]] q(2) bs(2) unfolding b
      by (auto simp: merge_fwd_def bs(1))
  next
    case False
    then have b: "bs' = ps @ (x, s, False) # qs" by (simp add: bs(3))
    have "merge_fwd x s qs = (x, s, True) # qs"
      using q(1) by (auto simp: merge_fwd_def split: list.splits bool.splits)
    then show ?thesis using free_blocks_at [OF w [unfolded b]] q(2) unfolding b by (auto simp: bs(1))
  qed
qed

lemma free_blocks_nonempty: "bs \<noteq> [] \<Longrightarrow> free_blocks x bs \<noteq> []"
  using coalesce_hd by (simp add: free_blocks_def)

lemma kfree_heap_ok:
  assumes "heap_ok h bs" "(x, s, f) \<in> set bs"
  shows "\<exists>h'. kfree (x + HDR) h = Some (Inr h') \<and> heap_ok h' (free_blocks x bs) \<and> heap_end h' = heap_end h"
  using kfree_ok [OF assms] heap_okD [OF assms(1)] free_blocks_nonempty
  by (fastforce simp: heap_ok_def free_blocks_def coalesced_coalesce)

subsection \<open>The allocator contract\<close>

text \<open>What clients of the heap rely on: a successful request returns a region that overlaps no region in
  use; releasing a region succeeds and ends its use, nothing else.  \<open>room\<close> is the condition under which
  a request is within the address space the allocator manages.\<close>

locale allocator =
  fixes inv :: "'s \<Rightarrow> bool"
    and regions :: "'s \<Rightarrow> (nat \<times> nat) set"
    and room :: "nat \<Rightarrow> 's \<Rightarrow> bool"
    and alloc :: "nat \<Rightarrow> 's \<Rightarrow> (nat \<times> 's) result option"
    and release :: "nat \<Rightarrow> 's \<Rightarrow> 's result option"
  assumes regions_disjoint: "inv s \<Longrightarrow> (p, k) \<in> regions s \<Longrightarrow> (q, l) \<in> regions s \<Longrightarrow> p \<noteq> q \<Longrightarrow>
      p + k \<le> q \<or> q + l \<le> p"
    and regions_unique: "inv s \<Longrightarrow> (p, k) \<in> regions s \<Longrightarrow> (p, l) \<in> regions s \<Longrightarrow> k = l"
    and alloc_returns: "inv s \<Longrightarrow> room n s \<Longrightarrow> 0 < n \<Longrightarrow> alloc n s \<noteq> None"
    and alloc_region: "inv s \<Longrightarrow> room n s \<Longrightarrow> 0 < n \<Longrightarrow> alloc n s = Some (Inr (p, s')) \<Longrightarrow>
      inv s' \<and> (\<exists>k \<ge> n. regions s' = insert (p, k) (regions s) \<and> (p, k) \<notin> regions s)"
    and release_region: "inv s \<Longrightarrow> (p, k) \<in> regions s \<Longrightarrow>
      \<exists>s'. release p s = Some (Inr s') \<and> inv s' \<and> regions s' = regions s - {(p, k)}"
begin

lemma alloc_fresh:
  assumes "inv s" "room n s" "0 < n" "alloc n s = Some (Inr (p, s'))"
  shows "\<exists>k \<ge> n. (p, k) \<in> regions s' \<and> (\<forall>(q, l) \<in> regions s. p + k \<le> q \<or> q + l \<le> p)"
proof -
  obtain k where k: "n \<le> k" "regions s' = insert (p, k) (regions s)" "(p, k) \<notin> regions s" and i: "inv s'"
    using alloc_region [OF assms] by blast
  have "p + k \<le> q \<or> q + l \<le> p" if q: "(q, l) \<in> regions s" for q l
  proof -
    have "p \<noteq> q" using regions_unique [OF i, of p k l] k q by auto
    then show ?thesis using regions_disjoint [OF i] k q by auto
  qed
  then show ?thesis using k by blast
qed

lemma alloc_release:
  assumes "inv s" "room n s" "0 < n" "alloc n s = Some (Inr (p, s'))"
  shows "\<exists>s''. release p s' = Some (Inr s'') \<and> inv s'' \<and> regions s'' = regions s"
  using alloc_region [OF assms] release_region [of s' p] by fastforce

end

definition heap_live :: "heap \<Rightarrow> (nat \<times> nat) set" where
  "heap_live h = {r. \<exists>bs. heap_ok h bs \<and> r \<in> live bs}"

definition heap_room :: "nat \<Rightarrow> heap \<Rightarrow> bool" where
  "heap_room sz h \<longleftrightarrow> sz + PMM_PAGE_SIZE < 2 ^ 63 \<and> heap_end h + grow_bytes (block_need sz) < 2 ^ 64"

lemma lseg_unique: "lseg m a bs 0 \<Longrightarrow> lseg m a cs 0 \<Longrightarrow> 0 \<notin> fst ` set bs \<Longrightarrow> 0 \<notin> fst ` set cs \<Longrightarrow> bs = cs"
proof (induction bs arbitrary: a cs)
  case Nil
  then show ?case by (cases cs) auto
next
  case (Cons b bs)
  obtain x s f where b: "b = (x, s, f)" by (cases b)
  from Cons.prems b obtain t g cs' where c: "cs = (x, t, g) # cs'" by (cases cs) auto
  note B = lseg_block [of m a "[]" x s f bs 0] and C = lseg_block [of m a "[]" x t g cs' 0]
  have l: "lseg m a ([] @ (x, s, f) # bs) 0" "lseg m a ([] @ (x, t, g) # cs') 0" using Cons.prems b c by simp_all
  have "s = t" "of_bool f = (of_bool g :: nat)" using B(2,3) C(2,3) l by metis+
  moreover have "bs = cs'" using Cons.IH B(5) [OF l(1)] C(5) [OF l(2)] Cons.prems(3,4) c by simp
  ultimately show ?case using b c by (cases f; cases g) simp_all
qed

lemma heap_ok_unique: "heap_ok h bs \<Longrightarrow> heap_ok h cs \<Longrightarrow> bs = cs"
  using lseg_unique [OF heap_okD(3) heap_okD(3) heap_okD(7) heap_okD(7)] .

lemma heap_live_eq: "heap_ok h bs \<Longrightarrow> heap_live h = live bs"
  using heap_ok_unique by (auto simp: heap_live_def)

lemma heap_live_bounds:
  assumes "(p, k) \<in> heap_live h"
  shows "KHEAP_BASE + HDR \<le> p" "p + k \<le> heap_end h" "0 < k"
proof -
  obtain bs x s where ok: "heap_ok h bs" and x: "(x, s, False) \<in> set bs" "p = x + HDR" "k = s - HDR"
    using assms by (auto simp: heap_live_def live_block)
  show "KHEAP_BASE + HDR \<le> p" "p + k \<le> heap_end h" "0 < k"
    using tiled_inside [OF heap_okD(4) [OF ok] x(1)] x by simp_all
qed

lemma kmalloc_regions:
  assumes "heap_ok h bs" "heap_room sz h" "0 < sz" "kmalloc root sz h = Some (Inr (p, h'))"
  shows "\<exists>bs' k. heap_ok h' bs' \<and> sz \<le> k \<and> 16 dvd p \<and> live bs' = insert (p, k) (live bs) \<and> (p, k) \<notin> live bs"
proof -
  have sz: "0 < sz" "sz + PMM_PAGE_SIZE < 2 ^ 63" "heap_end h + grow_bytes (block_need sz) < 2 ^ 64"
    using assms by (simp_all add: heap_room_def)
  note N = block_need_props [OF sz(1,2)]
  obtain x bs' cs where r: "p = x + HDR" "heap_ok h' bs'" "live cs = live bs"
    "tiled KHEAP_BASE cs (heap_end h')" "coalesced cs" "alloc_blocks (block_need sz) cs = Some (x, bs')"
    using kmalloc_ok [OF assms(1) sz, of root] assms(4) by auto
  note w = alloc_blocks_wf [OF r(6,4,5)]
  obtain k where k: "block_need sz \<le> k" "(x, k, False) \<in> set bs'"
    "live bs' = insert (x + HDR, k - HDR) (live cs)" "(x + HDR, k - HDR) \<notin> live cs"
    using w(4) N sz(1) by auto
  have "16 dvd x" using tiled_aligned [OF heap_okD(4) [OF r(2)] _ k(2)] by simp
  then show ?thesis using r k N by (intro exI [of _ bs'] exI [of _ "k - HDR"]) auto
qed

lemma tiled_end: "tiled a bs z \<Longrightarrow> z = a + sum_list (map (\<lambda>(x, s, f). s) bs)"
  by (induction a bs z rule: tiled.induct) auto

lemma extend_sum:
  "bs \<noteq> [] \<Longrightarrow> sum_list (map (\<lambda>(x, s, f). s) (extend_blocks e sz bs)) = sum_list (map (\<lambda>(x, s, f). s) bs) + sz"
proof -
  assume "bs \<noteq> []"
  then obtain ps x s f where "bs = ps @ [(x, s, f)]" by (metis append_butlast_last_id prod.exhaust)
  then show ?thesis by (simp add: extend_blocks_def)
qed

lemma kmalloc_heap_end:
  assumes "heap_ok h bs" "heap_room sz h" "0 < sz" "kmalloc root sz h = Some (Inr (p, h'))"
  shows "heap_end h' \<le> heap_end h + grow_bytes (block_need sz)"
proof -
  note D = heap_okD [OF assms(1)]
  obtain cs where "tiled KHEAP_BASE cs (heap_end h')"
    "cs = (if alloc_blocks (block_need sz) bs = None then extend_blocks (heap_end h) (grow_bytes (block_need sz)) bs else bs)"
    using kmalloc_ok [OF assms(1,3), of root] assms(2,4) by (auto simp: heap_room_def)
  then show ?thesis using tiled_end [OF D(4)] extend_sum [OF D(2)] by (auto dest!: tiled_end split: if_splits)
qed

interpretation kheap: allocator "\<lambda>h. \<exists>bs. heap_ok h bs" heap_live heap_room "kmalloc root" kfree for root
proof unfold_locales
  fix s :: heap and p k q l n :: nat and s' :: heap
  assume inv: "\<exists>bs. heap_ok s bs"
  then obtain bs where ok: "heap_ok s bs" by blast
  note D = heap_okD [OF ok] and E = heap_live_eq [OF ok]
  show "p + k \<le> q \<or> q + l \<le> p" if "(p, k) \<in> heap_live s" "(q, l) \<in> heap_live s" "p \<noteq> q"
    using live_disjoint [OF D(4), of p k q l] that E by auto
  show "k = l" if "(p, k) \<in> heap_live s" "(p, l) \<in> heap_live s"
    using that live_unique [OF D(4)] unfolding E by blast
  show "kmalloc root n s \<noteq> None" if "heap_room n s" "0 < n"
    using kmalloc_ok [OF ok that(2), of root] that(1) by (auto simp: heap_room_def)
  show "(\<exists>bs. heap_ok s' bs) \<and> (\<exists>k\<ge>n. heap_live s' = insert (p, k) (heap_live s) \<and> (p, k) \<notin> heap_live s)"
    if "heap_room n s" "0 < n" "kmalloc root n s = Some (Inr (p, s'))"
    using kmalloc_regions [OF ok that] E heap_live_eq by blast
  show "\<exists>s'. kfree p s = Some (Inr s') \<and> (\<exists>bs. heap_ok s' bs) \<and> heap_live s' = heap_live s - {(p, k)}"
    if pk: "(p, k) \<in> heap_live s"
  proof -
    obtain x t where x: "(x, t, False) \<in> set bs" "p = x + HDR" "k = t - HDR" using pk unfolding E live_block by blast
    then show ?thesis using kfree_heap_ok [OF ok x(1)] live_free_blocks [OF D(4) x(1)] heap_live_eq E by fastforce
  qed
qed

subsection \<open>The heap window in the page tables\<close>

text \<open>Every address of the window below \<open>heap_end\<close> has a translation.\<close>

definition window_mapped :: "nat \<Rightarrow> heap \<Rightarrow> bool" where
  "window_mapped root h \<longleftrightarrow> heap_end h mod PMM_PAGE_SIZE = 0 \<and> (\<exists>L. vm_wf (machine h) root L)
     \<and> (\<forall>x. KHEAP_BASE \<le> x \<and> x < heap_end h \<longrightarrow> vmm_virt_to_phys root (machine h) x \<noteq> None)"

lemma window_page_apart:
  assumes "KHEAP_BASE \<le> x" "x < e" "e mod PMM_PAGE_SIZE = 0" "e + PMM_PAGE_SIZE \<le> 2 ^ 64" "d < PMM_PAGE_SIZE"
  shows "\<not> same_page (e + d) x"
proof -
  obtain k where k: "e = k * PMM_PAGE_SIZE" using assms(3) by (metis dvd_div_mult_self mod_0_imp_dvd)
  have "x div PMM_PAGE_SIZE < k" using assms(2) by (simp add: k)
  moreover have "k < x div PMM_PAGE_SIZE + 2 ^ 36"
  proof -
    have "KHEAP_BASE div PMM_PAGE_SIZE \<le> x div PMM_PAGE_SIZE" using assms(1) by (rule div_le_mono)
    moreover have "k < 4503599627370496" using assms(4) by (simp add: k)
    ultimately show ?thesis by simp
  qed
  moreover have "(e + d) div PMM_PAGE_SIZE = k" using assms(5) by (simp add: k)
  ultimately show ?thesis using mod_differ [of "x div PMM_PAGE_SIZE" k "2 ^ 36"] by (simp add: same_page_def)
qed

lemma grow_pages_mapped:
  "grow_pages root n h = Inr h' \<Longrightarrow> window_mapped root h \<Longrightarrow> KHEAP_BASE \<le> heap_end h \<Longrightarrow>
    heap_end h + n * PMM_PAGE_SIZE < 2 ^ 64 \<Longrightarrow> window_mapped root h'"
proof (induction root n h rule: grow_pages.induct)
  case (2 root n h)
  let ?e = "heap_end h"
  from "2.prems"(1) obtain phys m1 m2 where
    m: "pmm_alloc_page (machine h) = Inr (phys, m1)" "vmm_map root ?e (of_nat phys) PMM_PAGE_SIZE VMM_W m1 = Inr m2"
      "grow_pages root n (h\<lparr>machine := m2, heap_end := wrap64 (?e + PMM_PAGE_SIZE)\<rparr>) = Inr h'"
    by (auto split: sum.splits)
  obtain L where wf: "vm_wf (machine h) root L" and e: "?e mod PMM_PAGE_SIZE = 0"
    using "2.prems"(2) by (auto simp: window_mapped_def)
  note al = alloc_page_wf [OF wf m(1)]
  have room: "?e + PMM_PAGE_SIZE + PMM_PAGE_SIZE \<le> 2 ^ 64"
  proof -
    obtain k where k: "?e = k * PMM_PAGE_SIZE" using e by (metis dvd_div_mult_self mod_0_imp_dvd)
    show ?thesis using "2.prems"(4) by (simp add: k)
  qed
  have "total_pages (machine h) \<le> 2 ^ 40" using wf by (simp only: vm_wf_def)
  then have "phys + PMM_PAGE_SIZE \<le> 2 ^ 52"
    using al(3,4) by (auto simp: mod_eq_0_iff_dvd elim!: dvdE)
  from vmm_map_pages [OF al(1) m(2) e al(3) room _ this]
  obtain L' where wf': "vm_wf m2 root L'"
    and new: "\<And>d. d < PMM_PAGE_SIZE \<Longrightarrow> vmm_virt_to_phys root m2 (?e + d) = Some (of_nat (phys + d))"
    and old: "\<And>x. \<forall>d < PMM_PAGE_SIZE. \<not> same_page (?e + d) x \<Longrightarrow> vmm_virt_to_phys root m2 x = vmm_virt_to_phys root m1 x"
    by auto
  have "vmm_virt_to_phys root m2 x \<noteq> None" if x: "KHEAP_BASE \<le> x" "x < ?e + PMM_PAGE_SIZE" for x
  proof (cases "x < ?e")
    case True
    then have "vmm_virt_to_phys root m2 x = vmm_virt_to_phys root (machine h) x"
      using old [of x] window_page_apart [OF x(1) True e] room al(2) by auto
    then show ?thesis using "2.prems"(2) x(1) True by (simp add: window_mapped_def)
  next
    case False
    then show ?thesis using new [of "x - ?e"] x(2) by simp
  qed
  then have "window_mapped root (h\<lparr>machine := m2, heap_end := wrap64 (?e + PMM_PAGE_SIZE)\<rparr>)"
    using wf' e room unfolding window_mapped_def by (auto simp: mod_eq_0_iff_dvd)
  from "2.IH" [OF m(1) refl m(2,3) this] "2.prems"(3,4) room show ?case by simp
qed simp

text \<open>Growth succeeds when four frames per page are free (the page itself and at most three tables) and
  the addresses above the window are not mapped.\<close>

lemma grow_pages_total:
  "vm_wf (machine h) root L \<Longrightarrow> heap_end h mod PMM_PAGE_SIZE = 0 \<Longrightarrow>
    heap_end h + n * PMM_PAGE_SIZE < 2 ^ 64 \<Longrightarrow> n \<le> 2 ^ 20 \<Longrightarrow>
    (\<And>x. heap_end h \<le> x \<Longrightarrow> x < heap_end h + n * PMM_PAGE_SIZE \<Longrightarrow> vmm_virt_to_phys root (machine h) x = None) \<Longrightarrow>
    card (used_frames (machine h)) + 4 * n \<le> total_pages (machine h) \<Longrightarrow> \<exists>h'. grow_pages root n h = Inr h'"
proof (induction n arbitrary: h L)
  case (Suc n)
  let ?e = "heap_end h" and ?m = "machine h"
  note wf = Suc.prems(1)
  have inv: "pmm_inv ?m" by (rule vm_wf_root(3) [OF wf])
  have "card (used_frames ?m) \<noteq> total_pages ?m" using Suc.prems(6) by simp
  then have "used_frames ?m \<noteq> {..<total_pages ?m}" by (metis card_lessThan)
  then obtain phys m1 where al: "pmm_alloc_page ?m = Inr (phys, m1)"
    using pmm_alloc_page_cases [OF inv] by (metis prod.exhaust)
  note a = alloc_page_wf [OF wf al]
  have c1: "card (used_frames m1) \<le> Suc (card (used_frames ?m))"
    using pm.alloc_fresh [OF inv al] by (simp add: card_insert_if)
  obtain k where k: "?e = k * PMM_PAGE_SIZE" using Suc.prems(2) by (metis dvd_div_mult_self mod_0_imp_dvd)
  have room: "?e + PMM_PAGE_SIZE + PMM_PAGE_SIZE \<le> 2 ^ 64" using Suc.prems(3) by (simp add: k)
  have pg: "page_down ?e = ?e" "range_end ?e PMM_PAGE_SIZE = ?e + PMM_PAGE_SIZE"
    using room range_end_pages [OF room] by (simp_all add: page_down_def k)
  have "used_pages m1 = card (used_frames m1)" using vm_wf_root(3) [OF a(1)] by (simp add: pmm_inv_def)
  then obtain m2 where m2: "vmm_map root ?e (of_nat phys) PMM_PAGE_SIZE VMM_W m1 = Inr m2"
      "total_pages m2 = total_pages m1" "card (used_frames m2) \<le> card (used_frames m1) + 3"
    using vmm_map_total [OF a(1) room, of "of_nat phys" VMM_W] a(2,5) pg Suc.prems(5,6) c1 by auto
  have "total_pages ?m \<le> 2 ^ 40" using wf by (simp only: vm_wf_def)
  then have "phys + PMM_PAGE_SIZE \<le> 2 ^ 52" using a(3,4) by (auto simp: mod_eq_0_iff_dvd elim!: dvdE)
  from vmm_map_pages [OF a(1) m2(1) Suc.prems(2) a(3) room _ this]
  obtain L' where wf': "vm_wf m2 root L'"
    and old: "\<And>x. \<forall>d < PMM_PAGE_SIZE. \<not> same_page (?e + d) x \<Longrightarrow> vmm_virt_to_phys root m2 x = vmm_virt_to_phys root m1 x"
    by auto
  have w: "wrap64 (?e + PMM_PAGE_SIZE) = ?e + PMM_PAGE_SIZE" using room by simp
  have "\<exists>h'. grow_pages root n (h\<lparr>machine := m2, heap_end := ?e + PMM_PAGE_SIZE\<rparr>) = Inr h'"
  proof (rule Suc.IH)
    fix x
    assume "heap_end (h\<lparr>machine := m2, heap_end := ?e + PMM_PAGE_SIZE\<rparr>) \<le> x"
      "x < heap_end (h\<lparr>machine := m2, heap_end := ?e + PMM_PAGE_SIZE\<rparr>) + n * PMM_PAGE_SIZE"
    then have x: "(k + 1) * PMM_PAGE_SIZE \<le> x" "x < (k + 1 + n) * PMM_PAGE_SIZE" by (simp_all add: k)
    have "x div PMM_PAGE_SIZE < k + 1 + n" using x(2) by (simp add: less_mult_imp_div_less)
    then have q: "k < x div PMM_PAGE_SIZE" "x div PMM_PAGE_SIZE < k + 2 ^ 36" using x(1) Suc.prems(4) by simp_all
    have "\<not> same_page (?e + d) x" if "d < PMM_PAGE_SIZE" for d
    proof -
      have "(?e + d) div PMM_PAGE_SIZE = k" using that by (simp add: k)
      then show ?thesis using mod_differ [OF q] by (metis same_page_def)
    qed
    then show "vmm_virt_to_phys root (machine (h\<lparr>machine := m2, heap_end := ?e + PMM_PAGE_SIZE\<rparr>)) x = None"
      using old [of x] a(2) Suc.prems(5) [of x] x by (simp add: k)
  qed (use wf' Suc.prems m2 c1 a(5) k in simp_all)
  then show ?case using al m2 w by simp
qed simp

lemma heap_init_total:
  assumes "vm_wf (machine h0) root L"
    and "\<And>x. KHEAP_BASE \<le> x \<Longrightarrow> x < KHEAP_BASE + KHEAP_FIRST \<Longrightarrow> vmm_virt_to_phys root (machine h0) x = None"
    and "card (used_frames (machine h0)) + 256 \<le> total_pages (machine h0)"
  shows "\<exists>h. heap_init root h0 = Inr h"
proof -
  have "\<exists>h'. grow_pages root 64 (h0\<lparr>heap_end := KHEAP_BASE\<rparr>) = Inr h'"
    using assms by (intro grow_pages_total [of _ root L]) simp_all
  then show ?thesis by (auto simp: heap_init_def)
qed

text \<open>An example heap: one free block of 512 bytes behind one used block of 64 bytes.\<close>

definition example_heap :: heap where
  "example_heap = \<lparr>head = KHEAP_BASE, heap_end = KHEAP_BASE + 576,
     hdr = (\<lambda>_. \<lparr>magic = 0, bsize = 0, nxt = 0, bfree = 0\<rparr>)
       (KHEAP_BASE := \<lparr>magic = HEAP_MAGIC, bsize = 64, nxt = KHEAP_BASE + 64, bfree = 0\<rparr>,
        KHEAP_BASE + 64 := \<lparr>magic = HEAP_MAGIC, bsize = 512, nxt = 0, bfree = 1\<rparr>),
     machine = example_vm\<rparr>"

lemma example_heap_ok: "heap_ok example_heap [(KHEAP_BASE, 64, False), (KHEAP_BASE + 64, 512, True)]"
  by (simp add: heap_ok_def example_heap_def)

lemma example_alloc:
  "alloc_blocks (block_need 100) [(KHEAP_BASE, 64, False), (KHEAP_BASE + 64, 512, True)]
     = Some (KHEAP_BASE + 64, [(KHEAP_BASE, 64, False), (KHEAP_BASE + 64, 144, False), (KHEAP_BASE + 208, 368, True)])"
  by (simp add: block_need_def)

lemma example_room: "heap_room 100 example_heap"
  by (simp add: heap_room_def block_need_def grow_bytes_def example_heap_def)

subsection \<open>Correctness of the heap\<close>

text \<open>\<^verbatim>\<open>heap_init\<close> on a machine with a well-formed table tree: if the growth does not panic, the heap
  is one free block that covers the 256 KiB window, and every address of the window is mapped.\<close>

theorem heap_init_correct:
  assumes "vm_wf (machine h0) root L" and "heap_init root h0 = Inr h"
  shows "heap_ok h [(KHEAP_BASE, KHEAP_FIRST, True)] \<and> heap_end h = KHEAP_BASE + KHEAP_FIRST \<and> window_mapped root h"
proof -
  let ?h0 = "h0\<lparr>heap_end := KHEAP_BASE\<rparr>"
  obtain h1 where g: "grow_pages root 64 ?h0 = Inr h1" and h: "h = h1\<lparr>head := KHEAP_BASE,
      hdr := (hdr h1)(KHEAP_BASE := \<lparr>magic = HEAP_MAGIC, bsize = KHEAP_FIRST, nxt = 0, bfree = 1\<rparr>)\<rparr>"
    using assms(2) by (auto simp: heap_init_def split: sum.splits)
  have "window_mapped root ?h0" using assms(1) by (auto simp: window_mapped_def)
  from grow_pages_mapped [OF g this] have w: "window_mapped root h1" by simp
  have e: "heap_end h1 = KHEAP_BASE + KHEAP_FIRST" using grow_pages_fields [OF g] by simp
  have "window_mapped root h" using w by (simp add: h window_mapped_def)
  moreover have "heap_end h = KHEAP_BASE + KHEAP_FIRST" using e by (simp add: h)
  moreover have "heap_ok h [(KHEAP_BASE, KHEAP_FIRST, True)]" using e by (simp add: h heap_ok_def)
  ultimately show ?thesis by blast
qed

text \<open>A machine of 512 frames with an empty PML4 in frame 2.\<close>

definition example_machine :: pmm where
  "example_machine = example_vm\<lparr>total_pages := 512, bitmap_size := 64\<rparr>"

lemma example_machine_used: "used_frames example_machine = {0, 1, 2}"
proof -
  have "bit_get example_machine i \<longleftrightarrow> i < 3" for i
  proof -
    have "bit_get example_machine i \<longleftrightarrow> bit (if i div 8 = 0 then 7 else 0 :: u8) (i mod 8)"
      by (simp add: bit_get_iff example_machine_def example_vm_def)
    also have "\<dots> \<longleftrightarrow> i < 8 \<and> bit (7 :: u8) i" by auto
    also have "(7 :: u8) = mask 3" by (simp add: mask_eq_exp_minus_1)
    also have "i < 8 \<and> bit (mask 3 :: u8) i \<longleftrightarrow> i < 3" by (auto simp: bit_mask_iff)
    finally show ?thesis .
  qed
  then have "used_frames example_machine = {i. i < 512 \<and> i < 3}"
    by (simp add: used_frames_def example_machine_def)
  also have "\<dots> = {..<3}" by auto
  also have "\<dots> = {0, 1, 2}" by auto
  finally show ?thesis .
qed

lemma example_machine_wf: "vm_wf example_machine 8192 [2 \<mapsto> 4]" "vmm_virt_to_phys 8192 example_machine v = None"
proof -
  have rd: "pt_read example_machine (2 * PMM_PAGE_SIZE) i = 0" for i
  proof -
    have "read64 (ram example_machine) (8192 + 8 * i) = read64 (\<lambda>_. 0) (8192 + 8 * i)"
      by (rule read64_cong) (simp add: example_machine_def example_vm_def)
    then show ?thesis by (simp add: pt_read_def read64_def)
  qed
  have inv: "pmm_inv example_machine"
    by (simp add: pmm_inv_def geom_ok_def bitmap_frames_def example_machine_used)
      (simp add: example_machine_def example_vm_def)
  have b: "2 \<notin> bitmap_frames example_machine" "total_pages example_machine \<le> 2 ^ 40"
    by (simp_all add: bitmap_frames_def example_machine_def example_vm_def)
  show "vm_wf example_machine 8192 [2 \<mapsto> 4]"
    unfolding vm_wf_def using inv b rd by (auto simp: example_machine_used split: if_splits)
  show "vmm_virt_to_phys 8192 example_machine v = None"
    using rd by (simp add: vmm_virt_to_phys_def)
qed

theorem heap_init_correct_witness:
  "\<exists>h. heap_init 8192 (example_heap\<lparr>machine := example_machine\<rparr>) = Inr h
     \<and> heap_ok h [(KHEAP_BASE, KHEAP_FIRST, True)] \<and> window_mapped 8192 h"
proof -
  have "\<exists>h. heap_init 8192 (example_heap\<lparr>machine := example_machine\<rparr>) = Inr h"
    using example_machine_wf by (intro heap_init_total [of _ _ "[2 \<mapsto> 4]"])
      (simp_all add: example_machine_used, simp add: example_machine_def)
  then show ?thesis
    using heap_init_correct [of "example_heap\<lparr>machine := example_machine\<rparr>"] example_machine_wf(1) by fastforce
qed

text \<open>C1: For a request of \<open>sz\<close> bytes with \<open>0 < sz\<close>, \<open>sz + 4096 < 2 ^ 63\<close> and room for the growth below \<open>2 ^ 64\<close> in the address space
  (\<^const>\<open>heap_room\<close>; beyond that the size computation wraps, see \<open>kmalloc_size_wraps\<close>), \<^verbatim>\<open>kmalloc\<close> on a well-formed heap returns
  (the list walk ends).  Either it panics, and then no free
  block was large enough and the growth itself panicked (so neither the magic check nor the panic after
  the second attempt is ever reached), or it returns a 16-byte aligned payload of at least the requested
  size that overlaps no allocation in use, nor the header in front of one; every other allocation is
  untouched and the heap is well-formed again.\<close>

theorem kmalloc_correct:
  assumes "heap_ok h bs" and "heap_room sz h" and "0 < sz"
  shows "\<exists>r. kmalloc root sz h = Some r \<and>
    (case r of
       Inl msg \<Rightarrow> alloc_blocks (block_need sz) bs = None \<and> grow_heap_for root (block_need sz) h = Some (Inl msg)
     | Inr (p, h') \<Rightarrow> 16 dvd p \<and> (\<exists>bs' k. heap_ok h' bs' \<and> sz \<le> k \<and> live bs' = insert (p, k) (live bs)
         \<and> (\<forall>(q, l) \<in> live bs. p + k + HDR \<le> q \<or> q + l + HDR \<le> p)))"
proof -
  have sz: "sz + PMM_PAGE_SIZE < 2 ^ 63" "heap_end h + grow_bytes (block_need sz) < 2 ^ 64"
    using assms(2) by (simp_all add: heap_room_def)
  note K = kmalloc_ok [OF assms(1,3) sz, of root]
  then obtain r where r: "kmalloc root sz h = Some r" by blast
  have c: "alloc_blocks (block_need sz) bs = None \<and> grow_heap_for root (block_need sz) h = Some (Inl msg)"
    if "r = Inl msg" for msg using K r that by simp
  show ?thesis
  proof (cases r)
    case (Inl msg)
    then show ?thesis using r c by simp
  next
    case (Inr ph)
    obtain p h' where ph: "ph = (p, h')" by (cases ph)
    obtain bs' k where k: "heap_ok h' bs'" "sz \<le> k" "16 dvd p" "live bs' = insert (p, k) (live bs)" "(p, k) \<notin> live bs"
      using kmalloc_regions [OF assms(1-3), of root p h'] r Inr ph by auto
    note t = heap_okD(4) [OF k(1)]
    have "p + k + HDR \<le> q \<or> q + l + HDR \<le> p" if q: "(q, l) \<in> live bs" for q l
    proof -
      have in': "(p, k) \<in> live bs'" "(q, l) \<in> live bs'" using k(4) q by auto
      then have "p \<noteq> q" using live_unique [OF t, of p k l] k(5) q by blast
      then show ?thesis using live_disjoint [OF t in'] by blast
    qed
    then show ?thesis using r Inr ph k by auto
  qed
qed

theorem kmalloc_correct_witness:
  "\<exists>r. kmalloc 8192 100 example_heap = Some r \<and>
    (case r of Inl msg \<Rightarrow> False | Inr (p, h') \<Rightarrow> \<exists>bs' k. heap_ok h' bs' \<and> 100 \<le> k
       \<and> live bs' = insert (p, k) (live [(KHEAP_BASE, 64, False), (KHEAP_BASE + 64, 512, True)]))"
  using kmalloc_correct [OF example_heap_ok example_room, of 8192] example_alloc
  by (fastforce split: sum.splits)

text \<open>C6: \<^verbatim>\<open>kfree\<close> of a pointer in use returns without a panic; afterwards exactly that allocation is gone,
  all others are unchanged, and no two adjacent blocks are both free (the freed block was merged with
  both of its neighbours, in the order the code merges them).\<close>

theorem kfree_correct:
  assumes "heap_ok h bs" and "(p, k) \<in> live bs"
  shows "\<exists>h' bs'. kfree p h = Some (Inr h') \<and> heap_ok h' bs' \<and> live bs' = live bs - {(p, k)}
    \<and> bs' = free_blocks (p - HDR) bs \<and> coalesced bs' \<and> heap_end h' = heap_end h"
proof -
  obtain x s where x: "(x, s, False) \<in> set bs" "p = x + HDR" "k = s - HDR" using assms(2) live_block by blast
  obtain h' where h': "kfree p h = Some (Inr h')" "heap_ok h' (free_blocks x bs)" "heap_end h' = heap_end h"
    using kfree_heap_ok [OF assms(1) x(1)] x(2) by blast
  have "live (free_blocks x bs) = live bs - {(p, k)}"
    using live_free_blocks [OF heap_okD(4) [OF assms(1)] x(1)] x by simp
  then show ?thesis using h' x(2) heap_okD(5) [OF h'(2)] by (intro exI [of _ h'] exI [of _ "free_blocks x bs"]) simp
qed

theorem kfree_correct_witness:
  "\<exists>h'. kfree (KHEAP_BASE + 32) example_heap = Some (Inr h') \<and> heap_ok h' [(KHEAP_BASE, 576, True)]"
proof -
  have "(KHEAP_BASE + 32, 32) \<in> live [(KHEAP_BASE, 64, False), (KHEAP_BASE + 64, 512, True)]" by (simp add: live_def)
  from kfree_correct [OF example_heap_ok this] show ?thesis by (auto simp: free_blocks_def)
qed

text \<open>Round trip: when a free block fits, \<^verbatim>\<open>kmalloc\<close> followed by \<^verbatim>\<open>kfree\<close> of the result restores the very
  same list of blocks (no fragmentation is left behind).\<close>

theorem kmalloc_kfree_roundtrip:
  assumes "heap_ok h bs" and "heap_room sz h" and "0 < sz" and "alloc_blocks (block_need sz) bs \<noteq> None"
  shows "\<exists>p h1 h2. kmalloc root sz h = Some (Inr (p, h1)) \<and> kfree p h1 = Some (Inr h2) \<and> heap_ok h2 bs"
proof -
  have sz: "sz + PMM_PAGE_SIZE < 2 ^ 63" "heap_end h + grow_bytes (block_need sz) < 2 ^ 64"
    using assms(2) by (simp_all add: heap_room_def)
  note N = block_need_props [OF assms(3) sz(1)]
  note K = kmalloc_ok [OF assms(1,3) sz, of root]
  then obtain r where r: "kmalloc root sz h = Some r" by blast
  then obtain p h1 where "r = Inr (p, h1)" using K assms(4) by (cases r) auto
  then obtain x bs' where k: "kmalloc root sz h = Some (Inr (x + HDR, h1))" "heap_ok h1 bs'"
    "alloc_blocks (block_need sz) bs = Some (x, bs')" using K r assms(4) by auto
  note D = heap_okD [OF assms(1)]
  have need: "HDR < block_need sz" using N(1) assms(3) by simp
  obtain s where s: "(x, s, False) \<in> set bs'" using alloc_blocks_wf(4) [OF k(3) D(4,5) need N(3)] by blast
  show ?thesis
    using kfree_heap_ok [OF k(2) s] free_alloc_blocks [OF k(3) D(4,5) need N(3)] k(1) by auto
qed

theorem kmalloc_kfree_roundtrip_witness:
  "\<exists>p h1 h2. kmalloc 8192 100 example_heap = Some (Inr (p, h1)) \<and> kfree p h1 = Some (Inr h2)
     \<and> heap_ok h2 [(KHEAP_BASE, 64, False), (KHEAP_BASE + 64, 512, True)]"
  using kmalloc_kfree_roundtrip [OF example_heap_ok example_room] example_alloc by simp

text \<open>The size computation wraps: a request of \<^verbatim>\<open>SIZE_MAX\<close> bytes is rounded to 0, and \<^verbatim>\<open>kmalloc\<close> hands out
  a block without any payload instead of failing.\<close>

theorem kmalloc_size_wraps:
  "\<exists>h'. kmalloc 8192 (2 ^ 64 - 1) example_heap = Some (Inr (KHEAP_BASE + 96, h'))
     \<and> bsize (hdr h' (KHEAP_BASE + 64)) = HDR \<and> bfree (hdr h' (KHEAP_BASE + 64)) = 0"
proof -
  have need: "block_need (2 ^ 64 - 1) = HDR" by (simp add: block_need_def wrap64_def)
  have "find_fit (hdr example_heap) HDR (head example_heap) = Some (Inr (Some (KHEAP_BASE + 64)))"
    using find_fit_list [OF heap_okD(3,7) [OF example_heap_ok], of HDR] heap_okD(1) [OF example_heap_ok] by simp
  moreover have "kmalloc 8192 (2 ^ 64 - 1) example_heap = kmalloc_attempts (Suc 1) 8192 HDR example_heap"
    unfolding kmalloc_def need Suc_1 by simp
  ultimately show ?thesis by (simp add: split_block_def example_heap_def Let_def)
qed

end
