(* ===== verification/Thread.thy ===== *)
theory Thread
  imports Heap
begin

text \<open>
  Threads and the round-robin scheduler, \<^verbatim>\<open>src/sched/thread.c\<close> with \<^verbatim>\<open>thread.h\<close>, and the context switch of
  \<^verbatim>\<open>src/sched/switch.S\<close>.  Thread control blocks live in a store indexed by address (0 is \<^verbatim>\<open>NULL\<close>); they and
  the kernel stacks come from the kernel heap of \<open>Heap\<close>.  The run queue is a circular list threaded
  through \<^verbatim>\<open>next\<close>; \<^verbatim>\<open>current\<close> points into it.

  The CPU is its stack pointer, instruction pointer and six callee-saved registers; kernel stacks are a
  store of 64-bit words.  Code addresses (the trampolines, a return address) are numbers the linker
  chooses and enter as arguments.  The first part is the code, the second the abstract run queue, the
  third the lemmas and the correctness theorems.
\<close>

subsection \<open>State\<close>

abbreviation THREAD_STACK_SIZE :: nat where "THREAD_STACK_SIZE \<equiv> 16 * 1024"
abbreviation THREAD_NAME_LEN :: nat where "THREAD_NAME_LEN \<equiv> 16"
abbreviation THREAD_FD_MAX :: nat where "THREAD_FD_MAX \<equiv> 32"
abbreviation SIZEOF_THREAD :: nat where "SIZEOF_THREAD \<equiv> 864"

record file_desc =
  fd_node :: nat
  fd_offset :: nat
  in_use :: bool

record thread =
  saved_rsp :: nat
  stack_base :: nat
  stack_size :: nat
  kernel_stack_top :: nat
  tid :: u32
  is_user :: bool
  tname :: string
  tnext :: nat
  tfn :: nat
  targ :: nat
  user_rip :: nat
  user_stack_top :: nat
  fds :: "file_desc list"

record cpu =
  rsp :: nat
  rip :: nat
  rbp :: u64
  rbx :: u64
  r12 :: u64
  r13 :: u64
  r14 :: u64
  r15 :: u64

record sched =
  current :: nat
  next_id :: u32
  threads :: "nat \<Rightarrow> thread"
  stack :: "nat \<Rightarrow> u64"
  core :: cpu
  tss_rsp0 :: nat
  syscall_kernel_rsp :: nat
  kheap :: heap

subsection \<open>Creating threads\<close>

text \<open>\<^verbatim>\<open>copy_name\<close>: at most \<open>THREAD_NAME_LEN - 1\<close> characters before the terminator.\<close>

definition copy_name :: "string \<Rightarrow> string" where
  "copy_name src = take (THREAD_NAME_LEN - 1) src"

definition closed_fd :: file_desc where
  "closed_fd = \<lparr>fd_node = 0, fd_offset = 0, in_use = False\<rparr>"

definition init_thread :: "u32 \<Rightarrow> nat \<Rightarrow> string option \<Rightarrow> thread \<Rightarrow> thread" where
  "init_thread ident stk name t =
     t\<lparr>stack_base := stk, stack_size := THREAD_STACK_SIZE, kernel_stack_top := stk + THREAD_STACK_SIZE,
       tid := ident, is_user := False, tfn := 0, targ := 0, user_rip := 0, user_stack_top := 0,
       fds := replicate THREAD_FD_MAX closed_fd,
       tname := copy_name (case name of Some n \<Rightarrow> n | None \<Rightarrow> ''thread'')\<rparr>"

definition alloc_thread :: "nat \<Rightarrow> string option \<Rightarrow> sched \<Rightarrow> (nat \<times> sched) result option" where
  "alloc_thread root name s =
     (case kmalloc root SIZEOF_THREAD (kheap s) of
        None \<Rightarrow> None
      | Some (Inl msg) \<Rightarrow> Some (Inl msg)
      | Some (Inr (t, k1)) \<Rightarrow>
          if t = 0 then Some (Inl ''thread: kmalloc(thread) failed'')
          else (case kmalloc root THREAD_STACK_SIZE k1 of
             None \<Rightarrow> None
           | Some (Inl msg) \<Rightarrow> Some (Inl msg)
           | Some (Inr (stk, k2)) \<Rightarrow>
               if stk = 0 then Some (Inl ''thread: kmalloc(stack) failed'')
               else Some (Inr (t, s\<lparr>kheap := k2, next_id := next_id s + 1,
                 threads := (threads s)(t := init_thread (next_id s + 1) stk name (threads s t))\<rparr>))))"

definition set_next :: "nat \<Rightarrow> nat \<Rightarrow> sched \<Rightarrow> sched" where
  "set_next t n s = s\<lparr>threads := (threads s)(t := (threads s t)\<lparr>tnext := n\<rparr>)\<rparr>"

definition insert_queue :: "nat \<Rightarrow> sched \<Rightarrow> sched" where
  "insert_queue t s =
     (if current s = 0 then (set_next t t s)\<lparr>current := t\<rparr>
      else let s1 = set_next t (tnext (threads s (current s))) s in set_next (current s) t s1)"

text \<open>\<^verbatim>\<open>seed_stack\<close>: the entry address at the top word, six zero words below it.\<close>

definition seed_stack :: "nat \<Rightarrow> u64 \<Rightarrow> sched \<Rightarrow> sched" where
  "seed_stack t entry s =
     (let top = stack_base (threads s t) + THREAD_STACK_SIZE
      in s\<lparr>stack := (stack s)(top - 8 := entry, top - 16 := 0, top - 24 := 0, top - 32 := 0,
                              top - 40 := 0, top - 48 := 0, top - 56 := 0),
           threads := (threads s)(t := (threads s t)\<lparr>saved_rsp := top - 56\<rparr>)\<rparr>)"

definition thread_create :: "nat \<Rightarrow> u64 \<Rightarrow> string option \<Rightarrow> nat \<Rightarrow> nat \<Rightarrow> sched \<Rightarrow> (nat \<times> sched) result option" where
  "thread_create root trampoline name fn arg s =
     (case alloc_thread root name s of
        None \<Rightarrow> None
      | Some (Inl msg) \<Rightarrow> Some (Inl msg)
      | Some (Inr (t, s1)) \<Rightarrow>
          (let s2 = s1\<lparr>threads := (threads s1)(t := (threads s1 t)\<lparr>tfn := fn, targ := arg\<rparr>)\<rparr>
           in Some (Inr (t, insert_queue t (seed_stack t trampoline s2)))))"

definition thread_create_user :: "nat \<Rightarrow> u64 \<Rightarrow> string option \<Rightarrow> nat \<Rightarrow> nat \<Rightarrow> sched \<Rightarrow> (nat \<times> sched) result option" where
  "thread_create_user root trampoline name ip sp s =
     (case alloc_thread root name s of
        None \<Rightarrow> None
      | Some (Inl msg) \<Rightarrow> Some (Inl msg)
      | Some (Inr (t, s1)) \<Rightarrow>
          (let s2 = s1\<lparr>threads := (threads s1)(t := (threads s1 t)\<lparr>is_user := True, user_rip := ip,
                  user_stack_top := sp\<rparr>)\<rparr>
           in Some (Inr (t, insert_queue t (seed_stack t trampoline s2)))))"

definition sched_init :: "nat \<Rightarrow> sched \<Rightarrow> sched" where
  "sched_init b s =
     s\<lparr>next_id := next_id s + 1,
       threads := (threads s)(b := (threads s b)\<lparr>tid := next_id s + 1, tnext := b, tfn := 0, targ := 0,
         is_user := False, stack_base := 0, stack_size := 0, kernel_stack_top := 0, user_rip := 0,
         user_stack_top := 0, fds := replicate THREAD_FD_MAX closed_fd, tname := copy_name ''bsp-idle''\<rparr>),
       current := b\<rparr>"

subsection \<open>Switching\<close>

text \<open>\<^verbatim>\<open>switch_context\<close>, called with return address \<open>ret\<close>: the call and the six pushes, the stack pointer to
  be stored in \<^verbatim>\<open>*old_rsp\<close>, then the new stack pointer, six pops and the return.  The result is the value
  stored through \<^verbatim>\<open>old_rsp\<close>, the stack words and the CPU.\<close>

definition switch_context :: "nat \<Rightarrow> nat \<Rightarrow> (nat \<Rightarrow> u64) \<Rightarrow> cpu \<Rightarrow> nat \<times> (nat \<Rightarrow> u64) \<times> cpu" where
  "switch_context ret new m c =
     (let sp = rsp c;
          m1 = m(sp - 8 := of_nat ret, sp - 16 := rbp c, sp - 24 := rbx c, sp - 32 := r12 c,
                 sp - 40 := r13 c, sp - 48 := r14 c, sp - 56 := r15 c)
      in (sp - 56, m1,
          \<lparr>rsp = new + 56, rip = unat (m1 (new + 48)), rbp = m1 (new + 40), rbx = m1 (new + 32),
           r12 = m1 (new + 24), r13 = m1 (new + 16), r14 = m1 (new + 8), r15 = m1 new\<rparr>))"

definition thread_yield :: "nat \<Rightarrow> sched \<Rightarrow> sched" where
  "thread_yield ret s =
     (let prev = current s
      in if prev = 0 \<or> tnext (threads s prev) = prev then s
         else let nx = tnext (threads s prev);
                  top = kernel_stack_top (threads s nx);
                  s1 = (if top \<noteq> 0 then s\<lparr>tss_rsp0 := top, syscall_kernel_rsp := top\<rparr> else s);
                  (old, m, c) = switch_context ret (saved_rsp (threads s nx)) (stack s) (core s)
              in s1\<lparr>current := nx, stack := m, core := c,
                    threads := (threads s)(prev := (threads s prev)\<lparr>saved_rsp := old\<rparr>)\<rparr>)"

text \<open>\<^verbatim>\<open>while (prev->next != me) prev = prev->next;\<close>\<close>

partial_function (option) find_pred :: "(nat \<Rightarrow> nat) \<Rightarrow> nat \<Rightarrow> nat \<Rightarrow> nat option" where
  "find_pred nx me prev = (if nx prev \<noteq> me then find_pred nx me (nx prev) else Some prev)"

definition thread_exit :: "nat \<Rightarrow> sched \<Rightarrow> sched result option" where
  "thread_exit ret s =
     (let me = current s
      in if me = 0 then Some (Inl ''thread_exit: no current'')
         else case find_pred (\<lambda>t. tnext (threads s t)) me me of
           None \<Rightarrow> None
         | Some prev \<Rightarrow>
             (let nx = tnext (threads s me);
                  s1 = set_next prev nx s;
                  (dead_rsp, m, c) = switch_context ret (saved_rsp (threads s1 nx)) (stack s1) (core s1)
              in Some (Inr (s1\<lparr>current := nx, stack := m, core := c\<rparr>))))"

text \<open>The trampolines.  \<open>run\<close> is what the thread's function does to the system, given its address and
  argument; \<open>user_trampoline\<close> yields the frame \<^verbatim>\<open>iretq\<close> pops: ss, rsp, rflags, cs, rip.\<close>

definition thread_trampoline :: "(nat \<Rightarrow> nat \<Rightarrow> sched \<Rightarrow> sched) \<Rightarrow> nat \<Rightarrow> sched \<Rightarrow> sched result option" where
  "thread_trampoline run ret s =
     (let t = threads s (current s); s1 = (if tfn t \<noteq> 0 then run (tfn t) (targ t) s else s)
      in thread_exit ret s1)"

definition user_trampoline :: "sched \<Rightarrow> (nat \<times> nat \<times> nat \<times> nat \<times> nat) \<times> sched" where
  "user_trampoline s =
     (let t = threads s (current s)
      in ((0x23, user_stack_top t, 0x202, 0x1B, user_rip t), s\<lparr>tss_rsp0 := kernel_stack_top t\<rparr>))"

subsection \<open>The run queue\<close>

text \<open>\<open>linked nx ts z\<close>: each element's successor is the next element, the last one's is \<open>z\<close>.\<close>

fun linked :: "(nat \<Rightarrow> nat) \<Rightarrow> nat list \<Rightarrow> nat \<Rightarrow> bool" where
  "linked nx [] z \<longleftrightarrow> True"
| "linked nx (t # ts) z \<longleftrightarrow> nx t = hd (ts @ [z]) \<and> linked nx ts z"

text \<open>The run queue as a list that starts with the running thread.\<close>

definition runq :: "sched \<Rightarrow> nat list \<Rightarrow> bool" where
  "runq s ts \<longleftrightarrow> ts \<noteq> [] \<and> distinct ts \<and> 0 \<notin> set ts \<and> current s = hd ts
     \<and> linked (\<lambda>t. tnext (threads s t)) ts (hd ts)"

text \<open>Thread control blocks and stacks are regions of the kernel heap; the bootstrap thread is a static
  object below it.\<close>

definition thread_region :: "sched \<Rightarrow> nat \<Rightarrow> bool" where
  "thread_region s t \<longleftrightarrow> t < KHEAP_BASE \<or>
     (\<exists>k \<ge> SIZEOF_THREAD. (t, k) \<in> heap_live (kheap s))
     \<and> (\<exists>k \<ge> THREAD_STACK_SIZE. (stack_base (threads s t), k) \<in> heap_live (kheap s))
     \<and> kernel_stack_top (threads s t) = stack_base (threads s t) + THREAD_STACK_SIZE"

definition sched_ok :: "sched \<Rightarrow> nat list \<Rightarrow> bool" where
  "sched_ok s ts \<longleftrightarrow> runq s ts \<and> (\<exists>bs. heap_ok (kheap s) bs)
     \<and> (\<forall>t \<in> set ts. thread_region s t \<and> length (fds (threads s t)) = THREAD_FD_MAX)"

text \<open>The running stack pointer is outside the heap, or inside a region in use, with room for a frame.\<close>

definition stack_in_use :: "sched \<Rightarrow> bool" where
  "stack_in_use s \<longleftrightarrow> 56 \<le> rsp (core s) \<and>
     (rsp (core s) \<le> KHEAP_BASE \<or> (\<exists>(q, l) \<in> heap_live (kheap s). q + 56 \<le> rsp (core s) \<and> rsp (core s) \<le> q + l))"

subsection \<open>Lemmas on the run queue\<close>

lemma linked_append: "linked nx (xs @ ys) z \<longleftrightarrow> linked nx xs (hd (ys @ [z])) \<and> linked nx ys z"
  by (induction xs) (auto simp: hd_append)

lemma linked_cong: "(\<And>t. t \<in> set ts \<Longrightarrow> nx t = nx' t) \<Longrightarrow> linked nx ts z = linked nx' ts z"
  by (induction ts) auto

lemma find_pred_last:
  "linked nx ps me \<Longrightarrow> ps \<noteq> [] \<Longrightarrow> me \<notin> set (tl ps) \<Longrightarrow> find_pred nx me (hd ps) = Some (last ps)"
proof (induction ps)
  case (Cons p ps)
  show ?case
  proof (cases "ps = []")
    case True
    then show ?thesis using Cons.prems by (subst find_pred.simps) simp
  next
    case False
    then have "nx p = hd ps" "nx p \<noteq> me" using Cons.prems by (auto simp: hd_append)
    moreover have "me \<notin> set (tl ps)" using Cons.prems(3) False by (auto dest: list.set_sel(2))
    then have "find_pred nx me (hd ps) = Some (last ps)" using Cons.IH Cons.prems(1) False by simp
    ultimately show ?thesis using False by (subst find_pred.simps) simp
  qed
qed simp

lemma set_next_fields [simp]:
  "current (set_next t n s) = current s" "kheap (set_next t n s) = kheap s" "core (set_next t n s) = core s"
  "stack (set_next t n s) = stack s" "next_id (set_next t n s) = next_id s" "tss_rsp0 (set_next t n s) = tss_rsp0 s"
  "syscall_kernel_rsp (set_next t n s) = syscall_kernel_rsp s"
  "threads (set_next t n s) u = (if u = t then (threads s t)\<lparr>tnext := n\<rparr> else threads s u)"
  by (auto simp: set_next_def)

lemma insert_queue_fields [simp]:
  "current (insert_queue t s) = (if current s = 0 then t else current s)" "kheap (insert_queue t s) = kheap s"
  "core (insert_queue t s) = core s" "stack (insert_queue t s) = stack s" "next_id (insert_queue t s) = next_id s"
  by (simp_all add: insert_queue_def Let_def)

lemma insert_queue_same:
  "fds (threads (insert_queue t s) u) = fds (threads s u)"
  "stack_base (threads (insert_queue t s) u) = stack_base (threads s u)"
  "kernel_stack_top (threads (insert_queue t s) u) = kernel_stack_top (threads s u)"
  "saved_rsp (threads (insert_queue t s) u) = saved_rsp (threads s u)"
  by (simp_all add: insert_queue_def Let_def)

lemma runq_insert:
  assumes "runq s (c # ts)" "t \<notin> set (c # ts)" "t \<noteq> 0"
  shows "runq (insert_queue t s) (c # t # ts)"
proof -
  have r: "current s = c" "c \<noteq> 0" "tnext (threads s c) = hd (ts @ [c])" "linked (\<lambda>t. tnext (threads s t)) ts c"
    "distinct (c # ts)" "0 \<notin> set ts"
    using assms(1) by (auto simp: runq_def)
  let ?s = "insert_queue t s"
  have nx: "tnext (threads ?s u) = (if u = c then t else if u = t then hd (ts @ [c]) else tnext (threads s u))" for u
    using r assms(2) by (simp add: insert_queue_def Let_def)
  have "linked (\<lambda>u. tnext (threads ?s u)) ts c = linked (\<lambda>u. tnext (threads s u)) ts c"
    using assms(2) r(5) by (intro linked_cong) (auto simp: nx)
  then show ?thesis using r assms(2,3) by (simp add: runq_def nx)
qed

lemma yield_next:
  "tnext (threads (thread_yield ret s) u) = tnext (threads s u)"
  by (simp add: thread_yield_def Let_def split: prod.splits)

lemma yield_current:
  "current s \<noteq> 0 \<Longrightarrow> current (thread_yield ret s) = tnext (threads s (current s))"
  by (simp add: thread_yield_def Let_def split: prod.splits)

lemma yield_same [simp]:
  "fds (threads (thread_yield ret s) u) = fds (threads s u)"
  "stack_base (threads (thread_yield ret s) u) = stack_base (threads s u)"
  "kernel_stack_top (threads (thread_yield ret s) u) = kernel_stack_top (threads s u)"
  "kheap (thread_yield ret s) = kheap s"
  by (simp_all add: thread_yield_def Let_def split: prod.splits)

lemma runq_yield:
  assumes "runq s ts"
  shows "runq (thread_yield ret s) (rotate1 ts)"
proof -
  obtain c us where ts: "ts = c # us" using assms by (auto simp: runq_def neq_Nil_conv)
  have r: "current s = c" "c \<noteq> 0" "tnext (threads s c) = hd (us @ [c])" "linked (\<lambda>t. tnext (threads s t)) us c"
    using assms by (auto simp: runq_def ts)
  have "current (thread_yield ret s) = hd (us @ [c])" using yield_current r by simp
  moreover have "linked (\<lambda>t. tnext (threads s t)) (us @ [c]) (hd (us @ [c]))"
    using r(3,4) by (cases us) (auto simp: linked_append hd_append)
  ultimately show ?thesis using assms by (simp add: runq_def ts yield_next)
qed

lemma runq_exit:
  assumes "runq s (me # ts)" "ts \<noteq> []"
  shows "\<exists>s'. thread_exit ret s = Some (Inr s') \<and> runq s' ts \<and> kheap s' = kheap s
    \<and> tss_rsp0 s' = tss_rsp0 s \<and> syscall_kernel_rsp s' = syscall_kernel_rsp s
    \<and> (\<forall>u. fds (threads s' u) = fds (threads s u) \<and> stack_base (threads s' u) = stack_base (threads s u)
        \<and> kernel_stack_top (threads s' u) = kernel_stack_top (threads s u))"
proof -
  have r: "current s = me" "me \<noteq> 0" "me \<notin> set ts" "distinct ts" "0 \<notin> set ts" "tnext (threads s me) = hd ts"
    "linked (\<lambda>t. tnext (threads s t)) (me # ts) me"
    using assms by (auto simp: runq_def hd_append)
  have fp: "find_pred (\<lambda>t. tnext (threads s t)) me me = Some (last ts)"
    using find_pred_last [OF r(7)] r(3) assms(2) by simp
  obtain s' where s': "thread_exit ret s = Some (Inr s')" "current s' = hd ts" "kheap s' = kheap s"
    "tss_rsp0 s' = tss_rsp0 s" "syscall_kernel_rsp s' = syscall_kernel_rsp s"
    "threads s' = threads (set_next (last ts) (hd ts) s)"
  proof -
    let ?s1 = "set_next (last ts) (hd ts) s"
    obtain d m c where sw: "switch_context ret (saved_rsp (threads ?s1 (hd ts))) (stack s) (core s) = (d, m, c)"
      by (metis prod.exhaust)
    have "thread_exit ret s = Some (Inr (?s1\<lparr>current := hd ts, stack := m, core := c\<rparr>))"
      using r(1,2,6) fp sw by (simp add: thread_exit_def Let_def del: set_next_fields(8))
    then show ?thesis by (rule that) simp_all
  qed
  obtain us where ts: "ts = us @ [last ts]" using assms(2) by (metis append_butlast_last_id)
  have l: "last ts \<notin> set us" using r(4) by (subst (asm) ts) simp
  have "linked (\<lambda>t. tnext (threads s t)) us (last ts)" using r(7) ts by (metis append_Cons linked.simps(2) linked_append list.sel(1) append_Nil)
  then have "linked (\<lambda>t. tnext (threads s' t)) us (last ts)"
    using l by (subst linked_cong [where nx' = "\<lambda>t. tnext (threads s t)"]) (auto simp: s'(6))
  then have "linked (\<lambda>t. tnext (threads s' t)) (us @ [last ts]) (hd ts)"
    by (simp add: linked_append s'(6))
  then show ?thesis using s' r assms(2) ts by (auto simp: runq_def)
qed

subsection \<open>Creation\<close>

lemma heap_room_small: "heap_end h + 0x20000 < 2 ^ 64 \<Longrightarrow> n \<le> THREAD_STACK_SIZE \<Longrightarrow> 0 < n \<Longrightarrow>
    heap_room n h \<and> grow_bytes (block_need n) \<le> 0x10000"
proof -
  assume h: "heap_end h + 0x20000 < 2 ^ 64" and n: "n \<le> THREAD_STACK_SIZE" "0 < n"
  have b: "block_need n < HDR + n + 16" using block_need_props(2) [of n] n by simp
  have "(block_need n + PMM_PAGE_SIZE - 1) div PMM_PAGE_SIZE \<le> 16"
    using b n by (intro less_Suc_eq_le [THEN iffD1] less_mult_imp_div_less) simp
  then have "grow_bytes (block_need n) = 0x10000" by (simp add: grow_bytes_def max_def)
  then show ?thesis using h n by (simp add: heap_room_def)
qed

lemma alloc_thread_ok:
  assumes ok: "\<exists>bs. heap_ok (kheap s) bs" and room: "heap_end (kheap s) + 0x40000 < 2 ^ 64"
    and al: "alloc_thread root name s = Some (Inr (t, s'))"
  shows "\<exists>bs. heap_ok (kheap s') bs"
    "\<exists>k l. SIZEOF_THREAD \<le> k \<and> THREAD_STACK_SIZE \<le> l
       \<and> heap_live (kheap s') = insert (stack_base (threads s' t), l) (insert (t, k) (heap_live (kheap s)))
       \<and> (\<forall>(q, m) \<in> heap_live (kheap s). t + k \<le> q \<or> q + m \<le> t)
       \<and> (\<forall>(q, m) \<in> insert (t, k) (heap_live (kheap s)). stack_base (threads s' t) + l \<le> q \<or> q + m \<le> stack_base (threads s' t))"
    "t \<noteq> 0" "stack_base (threads s' t) \<noteq> 0"
    "kernel_stack_top (threads s' t) = stack_base (threads s' t) + THREAD_STACK_SIZE"
    "length (fds (threads s' t)) = THREAD_FD_MAX" "threads s' = (threads s)(t := threads s' t)"
    "current s' = current s" "core s' = core s" "stack s' = stack s" "tid (threads s' t) = next_id s + 1"
    "next_id s' = next_id s + 1"
proof -
  obtain k1 stk k2 where m1: "kmalloc root SIZEOF_THREAD (kheap s) = Some (Inr (t, k1))"
    and m2: "kmalloc root THREAD_STACK_SIZE k1 = Some (Inr (stk, k2))"
    and s': "s' = s\<lparr>kheap := k2, next_id := next_id s + 1,
      threads := (threads s)(t := init_thread (next_id s + 1) stk name (threads s t))\<rparr>"
    using al by (auto simp: alloc_thread_def split: option.splits sum.splits if_splits)
  obtain bs where bs: "heap_ok (kheap s) bs" using ok by blast
  have room1: "heap_room SIZEOF_THREAD (kheap s)" "grow_bytes (block_need SIZEOF_THREAD) \<le> 0x10000"
    using heap_room_small [of "kheap s" SIZEOF_THREAD] room by simp_all
  have "heap_end k1 \<le> heap_end (kheap s) + grow_bytes (block_need SIZEOF_THREAD)"
    by (rule kmalloc_heap_end [OF bs room1(1) _ m1]) simp
  then have room2: "heap_room THREAD_STACK_SIZE k1"
    using heap_room_small [of k1 THREAD_STACK_SIZE] room room1(2) by simp
  note a1 = kheap.alloc_region [OF ok room1(1) _ m1] kheap.alloc_fresh [OF ok room1(1) _ m1]
  have ok1: "\<exists>bs. heap_ok k1 bs" using a1(1) by simp
  note a2 = kheap.alloc_region [OF ok1 room2 _ m2] kheap.alloc_fresh [OF ok1 room2 _ m2]
  show "\<exists>bs. heap_ok (kheap s') bs" using a2(1) by (simp add: s')
  obtain k where k: "SIZEOF_THREAD \<le> k" "heap_live k1 = insert (t, k) (heap_live (kheap s))" "(t, k) \<notin> heap_live (kheap s)"
    using a1(1) by auto
  obtain l where l: "THREAD_STACK_SIZE \<le> l" "heap_live k2 = insert (stk, l) (heap_live k1)" "(stk, l) \<notin> heap_live k1"
    using a2(1) by auto
  have f1: "\<forall>(q, m) \<in> heap_live (kheap s). t + k \<le> q \<or> q + m \<le> t"
    using a1(2) kheap.regions_unique [OF ok1, of t k] k(2) by auto
  have ok2: "\<exists>bs. heap_ok k2 bs" using a2(1) by simp
  have f2: "\<forall>(q, m) \<in> heap_live k1. stk + l \<le> q \<or> q + m \<le> stk"
    using a2(2) kheap.regions_unique [OF ok2, of stk l] l(2) by auto
  show "\<exists>k l. SIZEOF_THREAD \<le> k \<and> THREAD_STACK_SIZE \<le> l
       \<and> heap_live (kheap s') = insert (stack_base (threads s' t), l) (insert (t, k) (heap_live (kheap s)))
       \<and> (\<forall>(q, m) \<in> heap_live (kheap s). t + k \<le> q \<or> q + m \<le> t)
       \<and> (\<forall>(q, m) \<in> insert (t, k) (heap_live (kheap s)). stack_base (threads s' t) + l \<le> q \<or> q + m \<le> stack_base (threads s' t))"
    using k l f1 f2 by (intro exI [of _ k] exI [of _ l]) (simp add: s' init_thread_def)
qed (use al in \<open>auto simp: alloc_thread_def init_thread_def split: option.splits sum.splits if_splits\<close>)

text \<open>The part the two constructors share: fill in the new block, seed its stack, queue it.\<close>

definition launch :: "nat \<Rightarrow> u64 \<Rightarrow> (thread \<Rightarrow> thread) \<Rightarrow> sched \<Rightarrow> sched" where
  "launch t entry f s =
     insert_queue t (seed_stack t entry (s\<lparr>threads := (threads s)(t := f (threads s t))\<rparr>))"

definition keeps_stack :: "(thread \<Rightarrow> thread) \<Rightarrow> bool" where
  "keeps_stack f \<longleftrightarrow> (\<forall>t. stack_base (f t) = stack_base t \<and> kernel_stack_top (f t) = kernel_stack_top t
     \<and> fds (f t) = fds t)"

text \<open>What a creation leaves behind: the queue, and a stack frame that starts the thread at its entry.\<close>

definition started :: "sched \<Rightarrow> nat \<Rightarrow> u64 \<Rightarrow> bool" where
  "started s t entry \<longleftrightarrow>
     (let top = kernel_stack_top (threads s t)
      in saved_rsp (threads s t) + 56 = top \<and> stack s (top - 8) = entry
         \<and> (\<forall>i \<in> {2..7}. stack s (top - 8 * i) = 0))"

lemma launch_ok:
  assumes ok: "sched_ok s ts" and room: "heap_end (kheap s) + 0x40000 < 2 ^ 64"
    and al: "alloc_thread root name s = Some (Inr (t, s1))" and f: "keeps_stack f"
  shows "sched_ok (launch t entry f s1) (hd ts # t # tl ts)" "started (launch t entry f s1) t entry"
proof -
  let ?s = "launch t entry f s1"
  have heap: "\<exists>bs. heap_ok (kheap s) bs" and r: "runq s ts" using ok by (auto simp: sched_ok_def)
  note A = alloc_thread_ok [OF heap room al]
  obtain c us where ts: "ts = c # us" using r by (auto simp: runq_def neq_Nil_conv)
  obtain k l where kl: "SIZEOF_THREAD \<le> k" "THREAD_STACK_SIZE \<le> l"
    "heap_live (kheap s1) = insert (stack_base (threads s1 t), l) (insert (t, k) (heap_live (kheap s)))"
    "\<forall>(q, m) \<in> heap_live (kheap s). t + k \<le> q \<or> q + m \<le> t"
    using A(2) by blast
  have "KHEAP_BASE \<le> t" using heap_live_bounds(1) [of t k "kheap s1"] kl(3) by simp
  then have fresh: "t \<notin> set ts"
    using ok kl(1,4) heap_live_bounds(3) by (fastforce simp: sched_ok_def thread_region_def)
  define s2 where "s2 = seed_stack t entry (s1\<lparr>threads := (threads s1)(t := f (threads s1 t))\<rparr>)"
  have L: "?s = insert_queue t s2" by (simp add: launch_def s2_def)
  have old: "threads s2 u = threads s u" if "u \<noteq> t" for u
    using that A(7) by (simp add: s2_def seed_stack_def Let_def) (metis fun_upd_other)
  have "current s2 = current s" by (simp add: s2_def seed_stack_def Let_def A(8))
  then have "runq s2 ts"
    using r fresh old linked_cong [of ts "\<lambda>t. tnext (threads s2 t)" "\<lambda>t. tnext (threads s t)"] unfolding runq_def by metis
  then have ring: "runq ?s (c # t # us)" using runq_insert [of s2 c us t] fresh A(3) unfolding L ts by simp
  have new: "stack_base (threads s2 t) = stack_base (threads s1 t)" "fds (threads s2 t) = fds (threads s1 t)"
    "kernel_stack_top (threads s2 t) = kernel_stack_top (threads s1 t)" "kheap s2 = kheap s1"
    using f by (simp_all add: s2_def seed_stack_def Let_def keeps_stack_def)
  have "thread_region ?s u \<and> length (fds (threads ?s u)) = THREAD_FD_MAX" if "u \<in> set (c # t # us)" for u
  proof (cases "u = t")
    case True
    then show ?thesis using kl A(5,6) new by (auto simp: thread_region_def L insert_queue_same)
  next
    case False
    then have "thread_region s u" "length (fds (threads s u)) = THREAD_FD_MAX" "threads s2 u = threads s u"
      using that ok old by (auto simp: sched_ok_def ts)
    then show ?thesis using kl(3) new(4) by (auto simp: thread_region_def L insert_queue_same)
  qed
  then show "sched_ok ?s (hd ts # t # tl ts)" using ring A(1) new(4) by (simp add: sched_ok_def ts L)
  have "2 \<le> i \<Longrightarrow> i \<le> 7 \<Longrightarrow> i = 2 \<or> i = 3 \<or> i = 4 \<or> i = 5 \<or> i = 6 \<or> i = (7::nat)" for i by arith
  then show "started ?s t entry"
    using A(5) f by (fastforce simp: started_def L s2_def seed_stack_def Let_def insert_queue_same keeps_stack_def)
qed

subsection \<open>Switching\<close>

lemma switch_keeps:
  assumes "56 \<le> rsp c" "a + 56 < rsp c \<or> rsp c \<le> a"
  shows "fst (snd (switch_context ret new m c)) a = m a"
proof -
  have "a \<noteq> rsp c - k" if "8 \<le> k" "k \<le> 56" for k using assms that by linarith
  from this [of 8] this [of 16] this [of 24] this [of 32] this [of 40] this [of 48] this [of 56]
  show ?thesis by (simp add: switch_context_def Let_def)
qed

lemma switch_resume:
  assumes sw: "switch_context ret new m c = (old, m1, c1)" and "56 \<le> rsp c" and "ret < 2 ^ 64" and c2: "56 \<le> rsp c2"
    and same: "\<And>a. old \<le> a \<Longrightarrow> a < old + 56 \<Longrightarrow> m2 a = m1 a"
    and apart: "rsp c2 \<le> old \<or> old + 112 \<le> rsp c2"
  shows "snd (snd (switch_context ret2 old m2 c2)) = c\<lparr>rip := ret\<rparr>"
proof -
  have o: "old + 56 = rsp c" and m1: "m1 = m(rsp c - 8 := of_nat ret, rsp c - 16 := rbp c, rsp c - 24 := rbx c,
      rsp c - 32 := r12 c, rsp c - 40 := r13 c, rsp c - 48 := r14 c, rsp c - 56 := r15 c)"
    using sw assms(2) by (auto simp: switch_context_def Let_def)
  let ?m = "fst (snd (switch_context ret2 old m2 c2))"
  have keep: "?m a = m1 a" if "old \<le> a" "a < old + 56" for a
  proof -
    have "a + 56 < rsp c2 \<or> rsp c2 \<le> a" using that apart by linarith
    then show ?thesis using switch_keeps [OF c2] same [OF that] by simp
  qed
  have at: "m1 (old + 48) = of_nat ret" "m1 (old + 40) = rbp c" "m1 (old + 32) = rbx c" "m1 (old + 24) = r12 c"
    "m1 (old + 16) = r13 c" "m1 (old + 8) = r14 c" "m1 old = r15 c"
    by (simp_all add: m1 flip: o)
  have "snd (snd (switch_context ret2 old m2 c2)) =
      \<lparr>rsp = old + 56, rip = unat (?m (old + 48)), rbp = ?m (old + 40), rbx = ?m (old + 32),
       r12 = ?m (old + 24), r13 = ?m (old + 16), r14 = ?m (old + 8), r15 = ?m old\<rparr>"
    by (simp add: switch_context_def Let_def)
  also have "\<dots> = c\<lparr>rip := ret\<rparr>" using keep at o assms(3) by (simp add: unat_of_nat)
  finally show ?thesis .
qed

lemma yield_lands:
  assumes r: "runq s (c # t # us)" and st: "started s t entry" and sp: "56 \<le> rsp (core s)"
    and apart: "rsp (core s) + 56 \<le> kernel_stack_top (threads s t) \<or> kernel_stack_top (threads s t) + 56 \<le> rsp (core s)"
  shows "core (thread_yield ret s) = \<lparr>rsp = kernel_stack_top (threads s t), rip = unat entry,
      rbp = 0, rbx = 0, r12 = 0, r13 = 0, r14 = 0, r15 = 0\<rparr>"
    "current (thread_yield ret s) = t" "tss_rsp0 (thread_yield ret s) = kernel_stack_top (threads s t)"
    "syscall_kernel_rsp (thread_yield ret s) = kernel_stack_top (threads s t)"
proof -
  let ?top = "kernel_stack_top (threads s t)" and ?sp = "rsp (core s)"
  have q: "current s = c" "c \<noteq> 0" "tnext (threads s c) = t" "t \<noteq> c" using r by (auto simp: runq_def)
  have top: "saved_rsp (threads s t) + 56 = ?top" "stack s (?top - 8) = entry"
    "\<And>i. 2 \<le> i \<Longrightarrow> i \<le> 7 \<Longrightarrow> stack s (?top - 8 * i) = 0"
    using st by (auto simp: started_def Let_def)
  let ?new = "saved_rsp (threads s t)"
  have w: "stack s (?new + 48) = entry" "stack s (?new + 40) = 0" "stack s (?new + 32) = 0"
    "stack s (?new + 24) = 0" "stack s (?new + 16) = 0" "stack s (?new + 8) = 0" "stack s ?new = 0"
    using top(2) top(3) [of 2] top(3) [of 3] top(3) [of 4] top(3) [of 5] top(3) [of 6] top(3) [of 7]
    by (simp_all add: add.commute flip: top(1))
  have m: "fst (snd (switch_context ret ?new (stack s) (core s))) a = stack s a" if "?new \<le> a" "a < ?new + 56" for a
  proof (rule switch_keeps [OF sp])
    show "a + 56 < ?sp \<or> ?sp \<le> a" using that apart top(1) by linarith
  qed
  have "snd (snd (switch_context ret ?new (stack s) (core s))) = \<lparr>rsp = ?new + 56, rip = unat entry,
      rbp = 0, rbx = 0, r12 = 0, r13 = 0, r14 = 0, r15 = 0\<rparr>"
    using m [of "?new + 48"] m [of "?new + 40"] m [of "?new + 32"] m [of "?new + 24"] m [of "?new + 16"]
      m [of "?new + 8"] m [of ?new] w by (simp add: switch_context_def Let_def)
  then show "core (thread_yield ret s) = \<lparr>rsp = ?top, rip = unat entry,
      rbp = 0, rbx = 0, r12 = 0, r13 = 0, r14 = 0, r15 = 0\<rparr>"
    using q top(1) by (auto simp: thread_yield_def Let_def split: prod.splits)
  show "current (thread_yield ret s) = t" using q yield_current by simp
  show "tss_rsp0 (thread_yield ret s) = ?top" "syscall_kernel_rsp (thread_yield ret s) = ?top"
    using q top(1) by (auto simp: thread_yield_def Let_def split: prod.splits)
qed

subsection \<open>Round robin\<close>

text \<open>A queue whose head runs and whose yield moves the head to the back serves everyone in turn.\<close>

locale round_robin =
  fixes queue :: "'s \<Rightarrow> nat list \<Rightarrow> bool"
    and running :: "'s \<Rightarrow> nat"
    and yield :: "nat \<Rightarrow> 's \<Rightarrow> 's"
  assumes queue_head: "queue s ts \<Longrightarrow> ts \<noteq> [] \<and> running s = hd ts"
    and yield_rotates: "queue s ts \<Longrightarrow> queue (yield r s) (rotate1 ts)"
begin

lemma yields: "queue s ts \<Longrightarrow> queue (fold yield rs s) (rotate (length rs) ts)"
  by (induction rs arbitrary: s ts) (use yield_rotates in \<open>auto simp: rotate1_rotate_swap\<close>)

lemma turn: "queue s ts \<Longrightarrow> running (fold yield rs s) = ts ! (length rs mod length ts)"
  using queue_head [OF yields [of s ts rs]] queue_head [of s ts] by (simp add: hd_rotate_conv_nth)

lemma everyone_runs: "queue s ts \<Longrightarrow> t \<in> set ts \<Longrightarrow> \<exists>k < length ts. \<forall>rs. length rs = k \<longrightarrow> running (fold yield rs s) = t"
  using turn by (metis in_set_conv_nth mod_less)

end

interpretation rr: round_robin sched_ok current thread_yield
proof unfold_locales
  fix s ts r
  assume ok: "sched_ok s ts"
  then show "ts \<noteq> [] \<and> current s = hd ts" by (simp add: sched_ok_def runq_def)
  show "sched_ok (thread_yield r s) (rotate1 ts)"
    using ok runq_yield by (auto simp: sched_ok_def thread_region_def)
qed

subsection \<open>An example system\<close>

text \<open>The bootstrap thread alone at address 4096, and a heap of one free block of 32 KiB.\<close>

definition example_kheap :: heap where
  "example_kheap = \<lparr>head = KHEAP_BASE, heap_end = KHEAP_BASE + 0x8000,
     hdr = (\<lambda>_. \<lparr>magic = HEAP_MAGIC, bsize = 0x8000, nxt = 0, bfree = 1\<rparr>), machine = example_vm\<rparr>"

definition example_sched :: sched where
  "example_sched = sched_init 4096 \<lparr>current = 0, next_id = 0,
     threads = (\<lambda>_. \<lparr>saved_rsp = 0, stack_base = 0, stack_size = 0, kernel_stack_top = 0, tid = 0,
       is_user = False, tname = [], tnext = 0, tfn = 0, targ = 0, user_rip = 0, user_stack_top = 0, fds = []\<rparr>),
     stack = (\<lambda>_. 0),
     core = \<lparr>rsp = 0x9000, rip = 0, rbp = 0, rbx = 0, r12 = 0, r13 = 0, r14 = 0, r15 = 0\<rparr>,
     tss_rsp0 = 0, syscall_kernel_rsp = 0, kheap = example_kheap\<rparr>"

lemma example_kheap_ok: "heap_ok example_kheap [(KHEAP_BASE, 0x8000, True)]"
  by (simp add: heap_ok_def example_kheap_def coalesced_def)

lemma example_sched_ok: "sched_ok example_sched [4096]"
  using example_kheap_ok by (auto simp: sched_ok_def runq_def example_sched_def sched_init_def thread_region_def)

lemma example_alloc_thread:
  "\<exists>t s'. alloc_thread 8192 None example_sched = Some (Inr (t, s'))"
proof -
  let ?h = "kheap example_sched"
  have h: "heap_ok ?h [(KHEAP_BASE, 0x8000, True)]"
    using example_kheap_ok by (simp add: example_sched_def sched_init_def)
  have a1: "alloc_blocks (block_need SIZEOF_THREAD) [(KHEAP_BASE, 0x8000, True)] =
      Some (KHEAP_BASE, [(KHEAP_BASE, 896, False), (KHEAP_BASE + 896, 31872, True)])"
    by (simp add: block_need_def)
  obtain m1 where m1: "kmalloc 8192 SIZEOF_THREAD ?h = Some (Inr (KHEAP_BASE + HDR, ?h\<lparr>hdr := m1\<rparr>))"
    "heap_ok (?h\<lparr>hdr := m1\<rparr>) [(KHEAP_BASE, 896, False), (KHEAP_BASE + 896, 31872, True)]"
    using kmalloc_hit [OF h a1, of 8192] by auto
  have a2: "alloc_blocks (block_need THREAD_STACK_SIZE) [(KHEAP_BASE, 896, False), (KHEAP_BASE + 896, 31872, True)] =
      Some (KHEAP_BASE + 896, [(KHEAP_BASE, 896, False), (KHEAP_BASE + 896, 16416, False), (KHEAP_BASE + 17312, 15456, True)])"
    by (simp add: block_need_def)
  obtain m2 where m2: "kmalloc 8192 THREAD_STACK_SIZE (?h\<lparr>hdr := m1\<rparr>) =
      Some (Inr (KHEAP_BASE + 896 + HDR, ?h\<lparr>hdr := m1\<rparr>\<lparr>hdr := m2\<rparr>))"
    using kmalloc_hit [OF m1(2) a2, of 8192] by auto
  show ?thesis using m1(1) m2 by (simp add: alloc_thread_def)
qed

lemma example_create: "\<exists>t s'. thread_create 8192 0x1234 None 7 8 example_sched = Some (Inr (t, s'))"
  using example_alloc_thread by (auto simp: thread_create_def Let_def)

lemma example_create_user: "\<exists>t s'. thread_create_user 8192 0x1234 None 0x400000 0x500000 example_sched = Some (Inr (t, s'))"
  using example_alloc_thread by (auto simp: thread_create_user_def Let_def)

lemma example_space: "heap_end (kheap example_sched) + 0x40000 < 2 ^ 64" "stack_in_use example_sched"
  by (simp_all add: example_sched_def sched_init_def example_kheap_def stack_in_use_def)

text \<open>A frame pushed by the running thread cannot reach into a new thread's stack.\<close>

lemma running_apart:
  assumes ok: "\<exists>bs. heap_ok (kheap s) bs" and room: "heap_end (kheap s) + 0x40000 < 2 ^ 64"
    and al: "alloc_thread root name s = Some (Inr (t, s1))" and sp: "stack_in_use s"
  shows "rsp (core s) + 56 \<le> kernel_stack_top (threads s1 t) \<or> kernel_stack_top (threads s1 t) + 56 \<le> rsp (core s)"
proof -
  note A = alloc_thread_ok [OF ok room al]
  let ?b = "stack_base (threads s1 t)" and ?sp = "rsp (core s)"
  obtain k l where kl: "THREAD_STACK_SIZE \<le> l" "heap_live (kheap s1) = insert (?b, l) (insert (t, k) (heap_live (kheap s)))"
    "\<forall>(q, m) \<in> insert (t, k) (heap_live (kheap s)). ?b + l \<le> q \<or> q + m \<le> ?b" using A(2) by blast
  have b: "KHEAP_BASE \<le> ?b" using heap_live_bounds(1) [of ?b l "kheap s1"] kl(2) by simp
  consider "?sp \<le> KHEAP_BASE" | q m where "(q, m) \<in> heap_live (kheap s)" "q + 56 \<le> ?sp" "?sp \<le> q + m"
    using sp by (auto simp: stack_in_use_def)
  then show ?thesis
  proof cases
    case 1
    then show ?thesis using b A(5) by simp
  next
    case 2
    then have "?b + l \<le> q \<or> q + m \<le> ?b" using kl(3) by blast
    then show ?thesis using 2 A(5) kl(1) by auto
  qed
qed

lemma launch_fields:
  assumes "keeps_stack f"
  shows "core (launch t entry f s) = core s" "kernel_stack_top (threads (launch t entry f s) t) = kernel_stack_top (threads s t)"
  using assms by (simp_all add: launch_def seed_stack_def Let_def insert_queue_same keeps_stack_def)

lemma launch_runs:
  assumes ok: "sched_ok s ts" and room: "heap_end (kheap s) + 0x40000 < 2 ^ 64" and sp: "stack_in_use s"
    and al: "alloc_thread root name s = Some (Inr (t, s1))" and f: "keeps_stack f" and s2: "s2 = launch t entry f s1"
  shows "core (thread_yield ret s2) = \<lparr>rsp = kernel_stack_top (threads s2 t), rip = unat entry,
      rbp = 0, rbx = 0, r12 = 0, r13 = 0, r14 = 0, r15 = 0\<rparr>"
    "current (thread_yield ret s2) = t" "tss_rsp0 (thread_yield ret s2) = kernel_stack_top (threads s2 t)"
    "syscall_kernel_rsp (thread_yield ret s2) = kernel_stack_top (threads s2 t)"
proof -
  have heap: "\<exists>bs. heap_ok (kheap s) bs" using ok by (auto simp: sched_ok_def)
  note L = launch_ok [OF ok room al f, of entry, folded s2]
  have fl: "core s2 = core s" "kernel_stack_top (threads s2 t) = kernel_stack_top (threads s1 t)"
    using launch_fields [OF f] alloc_thread_ok(9) [OF heap room al] by (simp_all add: s2)
  have r: "runq s2 (hd ts # t # tl ts)" using L(1) by (simp add: sched_ok_def)
  have "56 \<le> rsp (core s2)" using sp fl(1) by (simp add: stack_in_use_def)
  from yield_lands [OF r L(2) this, of ret] running_apart [OF heap room al sp]
  show "core (thread_yield ret s2) = \<lparr>rsp = kernel_stack_top (threads s2 t), rip = unat entry,
      rbp = 0, rbx = 0, r12 = 0, r13 = 0, r14 = 0, r15 = 0\<rparr>"
    "current (thread_yield ret s2) = t" "tss_rsp0 (thread_yield ret s2) = kernel_stack_top (threads s2 t)"
    "syscall_kernel_rsp (thread_yield ret s2) = kernel_stack_top (threads s2 t)"
    unfolding fl by simp_all
qed

lemma create_launch:
  "thread_create root e name fn arg s = Some (Inr (t, s')) \<longleftrightarrow>
     (\<exists>s1. alloc_thread root name s = Some (Inr (t, s1)) \<and> s' = launch t e (\<lambda>x. x\<lparr>tfn := fn, targ := arg\<rparr>) s1)"
  "thread_create_user root e name ip sp s = Some (Inr (t, s')) \<longleftrightarrow>
     (\<exists>s1. alloc_thread root name s = Some (Inr (t, s1))
        \<and> s' = launch t e (\<lambda>x. x\<lparr>is_user := True, user_rip := ip, user_stack_top := sp\<rparr>) s1)"
  by (auto simp: thread_create_def thread_create_user_def launch_def Let_def split: option.splits sum.splits)

lemma keeps_stack_updates:
  "keeps_stack (\<lambda>x. x\<lparr>tfn := fn, targ := arg\<rparr>)"
  "keeps_stack (\<lambda>x. x\<lparr>is_user := True, user_rip := ip, user_stack_top := sp\<rparr>)"
  by (simp_all add: keeps_stack_def)

subsection \<open>Correctness of the scheduler\<close>

text \<open>C33: \<^verbatim>\<open>thread_create\<close> on a well-formed system: the new control block is at an address no queued thread has,
  it is queued right behind the running thread, the system is well-formed again, and the next
  \<^verbatim>\<open>thread_yield\<close> continues at the trampoline with an empty kernel stack, zeroed callee-saved registers
  and both ring-0 stack slots (TSS and system call entry) pointing at the new stack.\<close>

theorem thread_create_correct:
  assumes "sched_ok s ts" and "heap_end (kheap s) + 0x40000 < 2 ^ 64" and "stack_in_use s"
    and "thread_create root trampoline name fn arg s = Some (Inr (t, s'))"
  shows "t \<notin> set ts \<and> sched_ok s' (hd ts # t # tl ts)
    \<and> current (thread_yield ret s') = t
    \<and> core (thread_yield ret s') = \<lparr>rsp = kernel_stack_top (threads s' t), rip = unat trampoline,
        rbp = 0, rbx = 0, r12 = 0, r13 = 0, r14 = 0, r15 = 0\<rparr>
    \<and> tss_rsp0 (thread_yield ret s') = kernel_stack_top (threads s' t)
    \<and> syscall_kernel_rsp (thread_yield ret s') = kernel_stack_top (threads s' t)"
proof -
  obtain s1 where s1: "alloc_thread root name s = Some (Inr (t, s1))"
    "s' = launch t trampoline (\<lambda>x. x\<lparr>tfn := fn, targ := arg\<rparr>) s1" using assms(4) create_launch(1) by blast
  note L = launch_ok(1) [OF assms(1,2) s1(1) keeps_stack_updates(1), of trampoline arg fn, folded s1(2)]
  have "distinct (hd ts # t # tl ts)" "ts \<noteq> []" using L assms(1) by (simp_all add: sched_ok_def runq_def)
  then have "t \<notin> set ts" by (metis distinct.simps(2) list.set_intros(1) list.set_cases list.sel set_ConsD)
  then show ?thesis using L launch_runs [OF assms(1-3) s1(1) keeps_stack_updates(1) s1(2)] by simp
qed

theorem thread_create_correct_witness:
  "\<exists>t s'. thread_create 8192 0x1234 None 7 8 example_sched = Some (Inr (t, s')) \<and> sched_ok s' [4096, t]
     \<and> rip (core (thread_yield 0 s')) = 0x1234"
proof -
  obtain t s' where c: "thread_create 8192 0x1234 None 7 8 example_sched = Some (Inr (t, s'))"
    using example_create by blast
  from thread_create_correct [OF example_sched_ok example_space c, of 0] c show ?thesis by auto
qed

text \<open>\<^verbatim>\<open>thread_create_user\<close> queues the thread in the same way, and when it is first switched to, its
  trampoline returns to user mode with ring-3 selectors (RPL 3), interrupts enabled, at the given entry
  point and user stack, with \<^verbatim>\<open>TSS.rsp0\<close> set to its own kernel stack.\<close>

theorem thread_create_user_correct:
  assumes "sched_ok s ts" and "heap_end (kheap s) + 0x40000 < 2 ^ 64" and "stack_in_use s"
    and "thread_create_user root trampoline name ip sp s = Some (Inr (t, s'))"
  shows "sched_ok s' (hd ts # t # tl ts) \<and> rip (core (thread_yield ret s')) = unat trampoline
    \<and> (\<exists>s2. user_trampoline (thread_yield ret s') = ((0x23, sp, 0x202, 0x1B, ip), s2)
         \<and> tss_rsp0 s2 = kernel_stack_top (threads s' t))"
proof -
  let ?f = "\<lambda>x. x\<lparr>is_user := True, user_rip := ip, user_stack_top := sp\<rparr>"
  obtain s1 where s1: "alloc_thread root name s = Some (Inr (t, s1))" "s' = launch t trampoline ?f s1"
    using assms(4) create_launch(2) by blast
  note L = launch_ok(1) [OF assms(1,2) s1(1) keeps_stack_updates(2), of trampoline sp ip, folded s1(2)]
  note R = launch_runs [OF assms(1-3) s1(1) keeps_stack_updates(2) s1(2)]
  have u: "user_rip (threads (thread_yield ret s') t) = ip" "user_stack_top (threads (thread_yield ret s') t) = sp"
    by (simp_all add: thread_yield_def s1(2) launch_def seed_stack_def insert_queue_def Let_def split: prod.splits)
  show ?thesis using L R u by (simp add: user_trampoline_def Let_def)
qed

theorem thread_create_user_correct_witness:
  "\<exists>t s'. thread_create_user 8192 0x1234 None 0x400000 0x500000 example_sched = Some (Inr (t, s'))
     \<and> fst (user_trampoline (thread_yield 0 s')) = (0x23, 0x500000, 0x202, 0x1B, 0x400000)"
proof -
  obtain t s' where c: "thread_create_user 8192 0x1234 None 0x400000 0x500000 example_sched = Some (Inr (t, s'))"
    using example_create_user by blast
  from thread_create_user_correct [OF example_sched_ok example_space c, of 0] c show ?thesis by auto
qed

text \<open>C7: Fairness of \<^verbatim>\<open>thread_yield\<close>: after any \<open>k\<close> yields the running thread is the one \<open>k\<close> places down the
  queue (cyclically), the queue is the same up to rotation and the system stays well-formed; so each
  queued thread runs within one round.\<close>

theorem thread_yield_round_robin:
  assumes "sched_ok s ts"
  shows "sched_ok (fold thread_yield rets s) (rotate (length rets) ts)
    \<and> current (fold thread_yield rets s) = ts ! (length rets mod length ts)
    \<and> (\<forall>t \<in> set ts. \<exists>k < length ts. \<forall>rs. length rs = k \<longrightarrow> current (fold thread_yield rs s) = t)"
  using rr.yields [OF assms] rr.turn [OF assms] rr.everyone_runs [OF assms] by blast

theorem thread_yield_round_robin_witness:
  "current (fold thread_yield [1, 2, 3] example_sched) = 4096"
  using thread_yield_round_robin [OF example_sched_ok, of "[1, 2, 3]"] by simp

text \<open>C34: A switched-out thread resumes where it left: if the seven words it pushed are intact when some
  later switch returns to its saved stack pointer, the stack pointer and all callee-saved registers are
  what they were and execution continues at its return address.\<close>

theorem switch_context_resumes:
  assumes "switch_context ret new m c = (old, m1, c1)" and "56 \<le> rsp c" and "ret < 2 ^ 64" and "56 \<le> rsp c2"
    and "\<And>a. old \<le> a \<Longrightarrow> a < old + 56 \<Longrightarrow> m2 a = m1 a" and "rsp c2 \<le> old \<or> old + 112 \<le> rsp c2"
  shows "snd (snd (switch_context ret2 old m2 c2)) = c\<lparr>rip := ret\<rparr>"
  using assms by (rule switch_resume)

theorem switch_context_resumes_witness:
  "let (old, m1, c1) = switch_context 42 0x8000 (\<lambda>_. 0) (core example_sched)
   in rip (snd (snd (switch_context 7 old m1 c1))) = 42"
proof -
  obtain old m1 c1 where sw: "switch_context 42 0x8000 (\<lambda>_. 0) (core example_sched) = (old, m1, c1)"
    by (metis prod.exhaust)
  then have "old = 0x8FC8" "rsp c1 = 0x8038"
    by (auto simp: switch_context_def Let_def example_sched_def sched_init_def)
  with switch_context_resumes [OF sw, of c1 m1 7] sw show ?thesis
    by (simp add: example_sched_def sched_init_def)
qed

text \<open>\<^verbatim>\<open>thread_exit\<close> with other threads queued returns (the predecessor search ends) and removes exactly the
  running thread from the queue.  Unlike \<^verbatim>\<open>thread_yield\<close> it leaves \<^verbatim>\<open>TSS.rsp0\<close> and the system call stack
  as they were, whichever thread runs next.\<close>

theorem thread_exit_correct:
  assumes "sched_ok s (me # ts)" and "ts \<noteq> []"
  shows "\<exists>s'. thread_exit ret s = Some (Inr s') \<and> sched_ok s' ts \<and> current s' = hd ts
    \<and> tss_rsp0 s' = tss_rsp0 s \<and> syscall_kernel_rsp s' = syscall_kernel_rsp s"
proof -
  have r: "runq s (me # ts)" using assms(1) by (simp add: sched_ok_def)
  obtain s' where s': "thread_exit ret s = Some (Inr s')" "runq s' ts" "kheap s' = kheap s" "tss_rsp0 s' = tss_rsp0 s"
    "syscall_kernel_rsp s' = syscall_kernel_rsp s"
    "\<forall>u. fds (threads s' u) = fds (threads s u) \<and> stack_base (threads s' u) = stack_base (threads s u)
        \<and> kernel_stack_top (threads s' u) = kernel_stack_top (threads s u)"
    using runq_exit [OF r assms(2), of ret] by blast
  have "sched_ok s' ts" using assms(1) s' by (simp add: sched_ok_def thread_region_def)
  then show ?thesis using s' by (auto simp: runq_def)
qed

theorem thread_exit_correct_witness:
  "\<exists>t s' s''. thread_create 8192 0x1234 None 7 8 example_sched = Some (Inr (t, s'))
     \<and> thread_exit 0 s' = Some (Inr s'') \<and> current s'' = t"
proof -
  obtain t s1 where a: "alloc_thread 8192 None example_sched = Some (Inr (t, s1))" using example_alloc_thread by blast
  let ?s = "launch t 0x1234 (\<lambda>x. x\<lparr>tfn := 7, targ := 8\<rparr>) s1"
  have "thread_create 8192 0x1234 None 7 8 example_sched = Some (Inr (t, ?s))" using a create_launch(1) by blast
  moreover have "sched_ok ?s (4096 # [t])"
    using launch_ok(1) [OF example_sched_ok example_space(1) a keeps_stack_updates(1)] by simp
  ultimately show ?thesis using thread_exit_correct [of ?s 4096 "[t]" 0] by fastforce
qed

end
