(* ===== verification/Vfs.thy ===== *)
theory Vfs
  imports Heap
begin

text \<open>
  The in-memory file tree, \<^verbatim>\<open>src/fs/vfs.c\<close> with \<^verbatim>\<open>vfs.h\<close>.  A vnode is a record in a store indexed by
  address; \<open>root_node\<close> is the address of the static root.  The list a directory threads through
  \<^verbatim>\<open>children\<close> and \<^verbatim>\<open>next_sibling\<close> is the list of its children's addresses in link order.  C strings are
  lists of characters without the terminator; file contents are read from the memory image they were
  mounted from, a function from addresses to bytes.
\<close>

subsection \<open>State\<close>

abbreviation VFS_NAME_MAX :: nat where "VFS_NAME_MAX \<equiv> 64"
abbreviation SIZEOF_VNODE :: nat where "SIZEOF_VNODE \<equiv> 112"

datatype vtype = VFS_DIR | VFS_FILE

record vnode =
  vname :: string
  vtype :: vtype
  vdata :: nat
  vsize :: nat
  parent :: nat
  children :: "nat list"

record fs =
  root_node :: nat
  vnodes :: "nat \<Rightarrow> vnode"
  fs_heap :: heap

subsection \<open>Operations\<close>

fun str_eq :: "string \<Rightarrow> string \<Rightarrow> bool" where
  "str_eq (a # as) (b # bs) \<longleftrightarrow> a = b \<and> str_eq as bs"
| "str_eq [] [] \<longleftrightarrow> True"
| "str_eq _ _ \<longleftrightarrow> False"

definition vfs_copy_name :: "nat \<Rightarrow> string \<Rightarrow> string" where
  "vfs_copy_name cap src = take (cap - 1) src"

definition vfs_init :: "fs \<Rightarrow> fs" where
  "vfs_init s = s\<lparr>vnodes := (vnodes s)(root_node s :=
     \<lparr>vname = vfs_copy_name VFS_NAME_MAX ''/'', vtype = VFS_DIR, vdata = 0, vsize = 0, parent = 0, children = []\<rparr>)\<rparr>"

text \<open>One path segment, as the inner loop of the two path walks takes it: at most \<open>VFS_NAME_MAX - 1\<close>
  characters up to a slash, then the slash itself.\<close>

definition skip_slash :: "string \<Rightarrow> string" where
  "skip_slash path = (case path of c # cs \<Rightarrow> if c = CHR ''/'' then cs else path | [] \<Rightarrow> [])"

definition take_seg :: "string \<Rightarrow> string \<times> string" where
  "take_seg path =
     (let seg = take (VFS_NAME_MAX - 1) (takeWhile (\<lambda>c. c \<noteq> CHR ''/'') path)
      in (seg, skip_slash (drop (length seg) path)))"

lemma skip_slash_simps [simp]: "skip_slash [] = []" "skip_slash (CHR ''/'' # cs) = cs"
  by (simp_all add: skip_slash_def)

lemma skip_slash_length: "length (skip_slash p) \<le> length p"
  by (simp add: skip_slash_def split: list.splits)

lemma take_seg_shorter:
  assumes "path \<noteq> []" "(seg, rest) = take_seg path"
  shows "length rest < length path"
proof (cases "seg = []")
  case True
  obtain c cs where p: "path = c # cs" using assms(1) by (cases path) auto
  have "c = CHR ''/''" using True assms(2) p by (auto simp: take_seg_def Let_def split: if_splits)
  then show ?thesis using assms(2) p by (auto simp: take_seg_def Let_def)
next
  case False
  then have "length (drop (length seg) path) < length path" using assms(1) by simp
  moreover have "rest = skip_slash (drop (length seg) path)" using assms(2) by (auto simp: take_seg_def Let_def)
  ultimately show ?thesis using skip_slash_length le_less_trans by blast
qed

text \<open>The first child with a given name.\<close>

definition child_named :: "fs \<Rightarrow> nat \<Rightarrow> string \<Rightarrow> nat option" where
  "child_named s v seg = List.find (\<lambda>c. str_eq (vname (vnodes s c)) seg) (children (vnodes s v))"

function lookup_from :: "fs \<Rightarrow> nat \<Rightarrow> string \<Rightarrow> nat option" where
  "lookup_from s cur path =
     (if path = [] then Some cur
      else let (seg, rest) = take_seg path
      in if seg = [] then lookup_from s cur rest
         else if vtype (vnodes s cur) \<noteq> VFS_DIR then None
         else case child_named s cur seg of None \<Rightarrow> None | Some c \<Rightarrow> lookup_from s c rest)"
  by pat_completeness auto
termination
  by (relation "measure (\<lambda>(s, cur, path). length path)") (auto dest: take_seg_shorter)

declare lookup_from.simps [simp del]

definition vfs_lookup :: "fs \<Rightarrow> string option \<Rightarrow> nat option" where
  "vfs_lookup s path =
     (case path of
        Some (c # cs) \<Rightarrow> if c = CHR ''/'' then lookup_from s (root_node s) cs else None
      | _ \<Rightarrow> None)"

text \<open>A \<^verbatim>\<open>size_t\<close> seen as \<^verbatim>\<open>int64_t\<close>.\<close>

definition to_i64 :: "nat \<Rightarrow> int" where
  "to_i64 n = sint (of_nat n :: u64)"

text \<open>\<^verbatim>\<open>vfs_read\<close>: the return value and the bytes stored to the buffer; \<open>None\<close> is the null vnode.\<close>

definition vfs_read :: "(nat \<Rightarrow> u8) \<Rightarrow> vnode option \<Rightarrow> nat \<Rightarrow> nat \<Rightarrow> int \<times> u8 list" where
  "vfs_read mem v offset count =
     (case v of
        None \<Rightarrow> (-1, [])
      | Some n \<Rightarrow>
          if vtype n \<noteq> VFS_FILE then (-1, [])
          else if offset \<ge> vsize n then (0, [])
          else let cnt = (if wrap64 (offset + count) > vsize n then vsize n - offset else count)
          in (to_i64 cnt, map (\<lambda>i. mem (vdata n + (offset + i))) [0..<cnt]))"

definition vfs_indent_width :: "int \<Rightarrow> int" where
  "vfs_indent_width depth = (let n = depth * 2; n = (if n < 0 then 0 else n) in if n > 96 then 96 else n)"

subsection \<open>Paths and resolution\<close>

lemma str_eq_iff [simp]: "str_eq a b \<longleftrightarrow> a = b"
  by (induction a b rule: str_eq.induct) auto

text \<open>A segment the walks take whole, and a path of such segments.\<close>

definition clean_seg :: "string \<Rightarrow> bool" where
  "clean_seg x \<longleftrightarrow> x \<noteq> [] \<and> CHR ''/'' \<notin> set x \<and> length x < VFS_NAME_MAX"

fun join :: "string list \<Rightarrow> string" where
  "join [] = []"
| "join [x] = x"
| "join (x # y # ys) = x @ CHR ''/'' # join (y # ys)"

text \<open>Resolution of a list of segments, independent of the spelling of the path.\<close>

fun resolve :: "fs \<Rightarrow> nat \<Rightarrow> string list \<Rightarrow> nat option" where
  "resolve s v [] = Some v"
| "resolve s v (x # xs) =
     (if vtype (vnodes s v) = VFS_DIR
      then case child_named s v x of None \<Rightarrow> None | Some c \<Rightarrow> resolve s c xs
      else None)"

lemma take_seg_join:
  assumes "clean_seg x"
  shows "take_seg (join (x # xs)) = (x, join xs)"
proof -
  have tw: "takeWhile (\<lambda>c. c \<noteq> CHR ''/'') x = x" "take 63 x = x"
    using assms by (auto simp: clean_seg_def)
  show ?thesis
  proof (cases xs)
    case Nil
    then show ?thesis by (simp only: join.simps take_seg_def) (simp add: tw Let_def del: takeWhile_eq_all_conv)
  next
    case (Cons y ys)
    have "takeWhile (\<lambda>c. c \<noteq> CHR ''/'') (x @ CHR ''/'' # join (y # ys)) = x"
      using assms by (subst takeWhile_append2) (auto simp: clean_seg_def)
    then show ?thesis by (simp add: take_seg_def Let_def Cons tw)
  qed
qed

lemma join_nonempty: "clean_seg x \<Longrightarrow> join (x # xs) \<noteq> []"
  by (cases xs) (auto simp: clean_seg_def)

lemma lookup_join: "list_all clean_seg xs \<Longrightarrow> lookup_from s v (join xs) = resolve s v xs"
proof (induction xs arbitrary: v)
  case Nil
  then show ?case by (simp add: lookup_from.simps)
next
  case (Cons x xs)
  then have x: "clean_seg x" "x \<noteq> []" by (auto simp: clean_seg_def)
  show ?case
    using Cons x join_nonempty [OF x(1), of xs]
    by (subst lookup_from.simps) (simp add: take_seg_join split: option.splits)
qed

text \<open>Repeated and trailing slashes do not matter.\<close>

lemma lookup_slash: "lookup_from s v (CHR ''/'' # p) = lookup_from s v p"
  by (subst lookup_from.simps) (simp add: take_seg_def)

subsection \<open>Correctness of lookup and read\<close>

definition example_tree :: fs where
  "example_tree = \<lparr>root_node = 8, vnodes = (\<lambda>_. \<lparr>vname = [], vtype = VFS_DIR, vdata = 0, vsize = 0, parent = 0, children = []\<rparr>)
     (8 := \<lparr>vname = ''/'', vtype = VFS_DIR, vdata = 0, vsize = 0, parent = 0, children = [16]\<rparr>,
      16 := \<lparr>vname = ''etc'', vtype = VFS_DIR, vdata = 0, vsize = 0, parent = 8, children = [24]\<rparr>,
      24 := \<lparr>vname = ''motd'', vtype = VFS_FILE, vdata = 0x7000, vsize = 5, parent = 16, children = []\<rparr>),
     fs_heap = example_heap\<rparr>"

text \<open>C8: \<^verbatim>\<open>vfs_lookup\<close> of an absolute path made of non-empty segments shorter than \<^verbatim>\<open>VFS_NAME_MAX\<close> descends from
  the root, one child per segment, through directories only; extra slashes before the path make no
  difference.\<close>

theorem vfs_lookup_resolves:
  assumes "list_all clean_seg xs"
  shows "vfs_lookup s (Some (CHR ''/'' # replicate n (CHR ''/'') @ join xs)) = resolve s (root_node s) xs"
proof -
  have "lookup_from s v (replicate n (CHR ''/'') @ p) = lookup_from s v p" for v p
    by (induction n) (simp_all add: lookup_slash)
  then show ?thesis using lookup_join [OF assms] by (simp add: vfs_lookup_def)
qed

theorem vfs_lookup_resolves_witness: "vfs_lookup example_tree (Some ''//etc/motd'') = Some 24"
  using vfs_lookup_resolves [of "[''etc'', ''motd'']" example_tree 1]
  by (simp add: clean_seg_def example_tree_def child_named_def)

lemma to_i64_small: "n < 2 ^ 63 \<Longrightarrow> to_i64 n = int n"
  by (simp add: to_i64_def sint_uint uint_nat unat_of_nat signed_take_bit_int_eq_self)

definition content :: "(nat \<Rightarrow> u8) \<Rightarrow> vnode \<Rightarrow> u8 list" where
  "content mem n = map (\<lambda>i. mem (vdata n + i)) [0..<vsize n]"

text \<open>C35: \<^verbatim>\<open>vfs_read\<close> of a file, when \<^verbatim>\<open>offset + count\<close> does not wrap: the buffer receives exactly the bytes of the
  content from the offset on, at most \<^verbatim>\<open>count\<close> and never past the end, and the result is their number;
  reading anything but a file returns -1 and stores nothing.\<close>

theorem vfs_read_correct:
  assumes "offset + count < 2 ^ 64" and "vsize n < 2 ^ 63"
  shows "vfs_read mem (Some n) offset count =
    (if vtype n = VFS_FILE
     then (int (length (take count (drop offset (content mem n)))), take count (drop offset (content mem n)))
     else (-1, []))"
proof -
  let ?c = "if offset + count > vsize n then vsize n - offset else count"
  have "take count (drop offset (content mem n)) = map (\<lambda>i. mem (vdata n + (offset + i))) [0..<?c]"
    if "offset < vsize n"
    using that by (auto simp: content_def take_map drop_map map_eq_conv list_eq_iff_nth_eq)
  then show ?thesis
    using assms by (auto simp: vfs_read_def Let_def to_i64_small content_def)
qed

theorem vfs_read_correct_witness:
  "vfs_read (\<lambda>a. of_nat a) (Some (vnodes example_tree 24)) 2 10 = (3, [2, 3, 4])"
  using vfs_read_correct [of 2 10 "vnodes example_tree 24" "\<lambda>a. of_nat a"]
  by (simp add: example_tree_def content_def upt_rec)

text \<open>The clamp of \<^verbatim>\<open>vfs_read\<close> is computed modulo \<open>2 ^ 64\<close>: for a non-zero offset inside the file and a count
  near \<^verbatim>\<open>SIZE_MAX\<close> the sum wraps to a small number, the count is not clamped, and the copy runs past the
  end of the file.\<close>

theorem vfs_read_wraps:
  assumes "vtype n = VFS_FILE" and "0 < offset" and "offset < vsize n" and "vsize n < 2 ^ 63"
  shows "length (snd (vfs_read mem (Some n) offset (2 ^ 64 - 1))) = 2 ^ 64 - 1
    \<and> vsize n < length (snd (vfs_read mem (Some n) offset (2 ^ 64 - 1)))"
proof -
  have w: "wrap64 (offset + (2 ^ 64 - 1)) = offset - 1"
  proof -
    have "offset + (2 ^ 64 - 1) = (offset - 1) + 2 ^ 64" using assms(2) by simp
    then have "wrap64 (offset + (2 ^ 64 - 1)) = ((offset - 1) + 2 ^ 64) mod 2 ^ 64" by (simp only: wrap64_def)
    also have "\<dots> = (offset - 1) mod 2 ^ 64" by (rule mod_add_self2)
    finally show ?thesis using assms(3,4) by simp
  qed
  then have "length (snd (vfs_read mem (Some n) offset (2 ^ 64 - 1))) = 2 ^ 64 - 1"
    unfolding vfs_read_def using assms(1,3) by (simp only: option.case w) auto
  then show ?thesis using assms(4) by simp
qed

theorem vfs_read_wraps_witness:
  "vsize (vnodes example_tree 24) < length (snd (vfs_read (\<lambda>_. 0) (Some (vnodes example_tree 24)) 1 (2 ^ 64 - 1)))"
  using vfs_read_wraps [of "vnodes example_tree 24" 1 "\<lambda>_. 0"] by (simp add: example_tree_def)

end
