(* ===== verification/Keyboard.thy ===== *)
theory Keyboard
  imports Prelude
begin

text \<open>
  The PS/2 keyboard driver, \<^verbatim>\<open>src/drivers/keyboard.c\<close>: translation of scan code set 1 with shift and caps
  lock, and the ring buffer between the interrupt handler and \<^verbatim>\<open>sys_read\<close>.  The ring is shown to be a
  bounded first-in first-out queue of 255 characters, first for whole calls, then for every interleaving
  of the single loads and stores of one producer and one consumer.
\<close>

subsection \<open>State and operations\<close>

abbreviation RING_SIZE :: nat where "RING_SIZE \<equiv> 256"

record kbd =
  shift_down :: bool
  caps_lock :: bool
  ring :: "char list"
  rhead :: nat
  rtail :: nat

definition sc_base :: "char list" where
  "sc_base =
     [CHR 0x00, CHR 0x1B] @ ''1234567890-='' @ [CHR 0x08, CHR 0x09] @
     ''qwertyuiop[]'' @ [CHR 0x0A, CHR 0x00] @ ''as'' @
     ''dfghjkl;'' @ [CHR 0x27, CHR 0x60, CHR 0x00, CHR 0x5C] @ ''zxcv'' @
     ''bnm,./'' @ [CHR 0x00, CHR 0x2A, CHR 0x00, CHR 0x20] @
     replicate 70 (CHR 0x00)"

definition sc_shift :: "char list" where
  "sc_shift =
     [CHR 0x00, CHR 0x1B] @ ''!@#$%^&*()_+'' @ [CHR 0x08, CHR 0x09] @
     ''QWERTYUIOP{}'' @ [CHR 0x0A, CHR 0x00] @ ''AS'' @
     ''DFGHJKL:'' @ [CHR 0x22, CHR 0x7E, CHR 0x00, CHR 0x7C] @ ''ZXCV'' @
     ''BNM<>?'' @ [CHR 0x00, CHR 0x2A, CHR 0x00, CHR 0x20] @
     replicate 70 (CHR 0x00)"

definition ring_push :: "char \<Rightarrow> kbd \<Rightarrow> kbd" where
  "ring_push c k =
     (let h = rhead k; t = rtail k; nx = (h + 1) mod RING_SIZE
      in if nx = t then k else k\<lparr>ring := (ring k)[h := c], rhead := nx\<rparr>)"

text \<open>\<^verbatim>\<open>stdin_try_read\<close>: the bytes stored to the buffer (the result is their number) and the new state.\<close>

fun stdin_try_read :: "nat \<Rightarrow> kbd \<Rightarrow> char list \<times> kbd" where
  "stdin_try_read 0 k = ([], k)"
| "stdin_try_read (Suc n) k =
     (if rtail k = rhead k then ([], k)
      else let (cs, k1) = stdin_try_read n (k\<lparr>rtail := (rtail k + 1) mod RING_SIZE\<rparr>)
           in (ring k ! rtail k # cs, k1))"

definition stdin_has_data :: "kbd \<Rightarrow> bool" where
  "stdin_has_data k \<longleftrightarrow> rhead k \<noteq> rtail k"

definition is_lower :: "char \<Rightarrow> bool" where
  "is_lower c \<longleftrightarrow> 97 \<le> (of_char c :: nat) \<and> (of_char c :: nat) \<le> 122"

definition keyboard_ps2_handle_byte :: "u8 \<Rightarrow> kbd \<Rightarrow> kbd" where
  "keyboard_ps2_handle_byte sc k =
     (let release = (sc AND 0x80 \<noteq> 0); code = sc AND 0x7F
      in if code = 0x2A \<or> code = 0x36 then k\<lparr>shift_down := \<not> release\<rparr>
         else if code = 0x3A \<and> \<not> release then k\<lparr>caps_lock := \<not> caps_lock k\<rparr>
         else if release then k
         else let base = sc_base ! unat code;
                  up = (if caps_lock k \<and> is_lower base then \<not> shift_down k else shift_down k);
                  c = (if up then sc_shift ! unat code else base)
              in if c \<noteq> CHR 0x00 then ring_push c k else k)"

subsection \<open>The ring as a queue\<close>

definition ring_count :: "nat \<Rightarrow> nat \<Rightarrow> nat" where
  "ring_count h t = (h + RING_SIZE - t) mod RING_SIZE"

definition ring_slice :: "char list \<Rightarrow> nat \<Rightarrow> nat \<Rightarrow> char list" where
  "ring_slice r t n = map (\<lambda>i. r ! ((t + i) mod RING_SIZE)) [0..<n]"

definition pending :: "kbd \<Rightarrow> char list" where
  "pending k = ring_slice (ring k) (rtail k) (ring_count (rhead k) (rtail k))"

definition kbd_ok :: "kbd \<Rightarrow> bool" where
  "kbd_ok k \<longleftrightarrow> length (ring k) = RING_SIZE \<and> rhead k < RING_SIZE \<and> rtail k < RING_SIZE"

lemma ring_count_if: "h < RING_SIZE \<Longrightarrow> t < RING_SIZE \<Longrightarrow> ring_count h t = (if t \<le> h then h - t else h + RING_SIZE - t)"
  by (auto simp: ring_count_def mod_if)

lemma ring_next: "h < RING_SIZE \<Longrightarrow> (h + 1) mod RING_SIZE = (if h = 255 then 0 else h + 1)"
  by auto

lemma ring_at: "t < RING_SIZE \<Longrightarrow> i < RING_SIZE \<Longrightarrow> (t + i) mod RING_SIZE = (if t + i < RING_SIZE then t + i else t + i - RING_SIZE)"
  by (auto simp: mod_if)

lemma ring_count_bound: "h < RING_SIZE \<Longrightarrow> t < RING_SIZE \<Longrightarrow> ring_count h t < RING_SIZE"
  by (simp add: ring_count_def)

lemma ring_count_step:
  assumes "h < RING_SIZE" "t < RING_SIZE"
  shows "(h + 1) mod RING_SIZE \<noteq> t \<Longrightarrow> ring_count ((h + 1) mod RING_SIZE) t = Suc (ring_count h t)"
    "(h + 1) mod RING_SIZE = t \<longleftrightarrow> ring_count h t = 255"
    "h \<noteq> t \<Longrightarrow> Suc (ring_count h ((t + 1) mod RING_SIZE)) = ring_count h t"
    "ring_count h t = 0 \<longleftrightarrow> h = t" "(t + ring_count h t) mod RING_SIZE = h"
proof -
  note N = ring_next [OF assms(1)] ring_next [OF assms(2)] ring_count_if [OF assms]
  have u: "(h + 1) mod RING_SIZE < RING_SIZE" "(t + 1) mod RING_SIZE < RING_SIZE" by simp_all
  note U = ring_count_if [OF u(1) assms(2)] ring_count_if [OF assms(1) u(2)]
  show "(h + 1) mod RING_SIZE \<noteq> t \<Longrightarrow> ring_count ((h + 1) mod RING_SIZE) t = Suc (ring_count h t)"
    unfolding U(1) N(3) unfolding N(1) using assms by (simp split: if_splits) linarith
  show "(h + 1) mod RING_SIZE = t \<longleftrightarrow> ring_count h t = 255"
    unfolding N(1,3) using assms by (simp split: if_splits) linarith
  show "h \<noteq> t \<Longrightarrow> Suc (ring_count h ((t + 1) mod RING_SIZE)) = ring_count h t"
    unfolding U(2) N(3) unfolding N(2) using assms by (simp split: if_splits) linarith
  show "ring_count h t = 0 \<longleftrightarrow> h = t" unfolding N(3) using assms by auto
  show "(t + ring_count h t) mod RING_SIZE = h"
    unfolding ring_at [OF assms(2) ring_count_bound [OF assms]] N(3) using assms by (simp split: if_splits)
qed

lemma slice_snoc: "ring_slice r t (Suc n) = ring_slice r t n @ [r ! ((t + n) mod RING_SIZE)]"
  by (simp add: ring_slice_def)

lemma slice_Cons:
  assumes "t < RING_SIZE"
  shows "ring_slice r t (Suc n) = r ! t # ring_slice r ((t + 1) mod RING_SIZE) n"
proof -
  have "map (\<lambda>i. r ! ((t + i) mod RING_SIZE)) [0..<Suc n] =
      r ! (t mod RING_SIZE) # map (\<lambda>i. r ! ((t + Suc i) mod RING_SIZE)) [0..<n]"
    by (simp only: upt_conv_Cons zero_less_Suc map_Suc_upt [symmetric] list.map map_map comp_def add_0_right)
  then show ?thesis using assms by (simp add: ring_slice_def mod_Suc_eq mod_add_left_eq)
qed

lemma slice_upd:
  assumes "h < RING_SIZE" "t < RING_SIZE" "n \<le> ring_count h t"
  shows "ring_slice (r[h := c]) t n = ring_slice r t n"
proof -
  have "h \<noteq> (t + i) mod RING_SIZE" if "i < n" for i
  proof -
    have c: "i < ring_count h t" "i < RING_SIZE" using that assms ring_count_bound [of h t] by simp_all
    show ?thesis unfolding ring_at [OF assms(2) c(2)] using c(1) ring_count_if [OF assms(1,2)] assms(1,2)
      by (simp split: if_splits; linarith)
  qed
  then show ?thesis by (simp add: ring_slice_def)
qed

lemma push_pending:
  assumes "kbd_ok k"
  shows "kbd_ok (ring_push c k)"
    "pending (ring_push c k) = (if length (pending k) < 255 then pending k @ [c] else pending k)"
proof -
  have ok: "length (ring k) = RING_SIZE" "rhead k < RING_SIZE" "rtail k < RING_SIZE" using assms by (simp_all add: kbd_ok_def)
  note R = ring_count_step [OF ok(2,3)]
  show "kbd_ok (ring_push c k)" using ok by (simp add: ring_push_def kbd_ok_def Let_def)
  have len: "length (pending k) = ring_count (rhead k) (rtail k)" by (simp add: pending_def ring_slice_def)
  show "pending (ring_push c k) = (if length (pending k) < 255 then pending k @ [c] else pending k)"
  proof (cases "(rhead k + 1) mod RING_SIZE = rtail k")
    case True
    then show ?thesis using R(2) len by (simp add: ring_push_def Let_def)
  next
    case False
    then have "length (pending k) < 255" using R(2) len ring_count_bound [OF ok(2,3)] by simp
    then show ?thesis using False R(1,5) slice_upd [OF ok(2,3) le_refl] ok(1,2)
      by (simp add: ring_push_def Let_def pending_def slice_snoc)
  qed
qed

lemma try_read_pending:
  "kbd_ok k \<Longrightarrow> stdin_try_read n k = (cs, k') \<Longrightarrow> kbd_ok k' \<and> cs = take n (pending k) \<and> pending k' = drop n (pending k)
     \<and> ring k' = ring k \<and> rhead k' = rhead k \<and> shift_down k' = shift_down k \<and> caps_lock k' = caps_lock k"
proof (induction n arbitrary: k cs)
  case (Suc n)
  have ok: "length (ring k) = RING_SIZE" "rhead k < RING_SIZE" "rtail k < RING_SIZE" using Suc.prems(1) by (simp_all add: kbd_ok_def)
  show ?case
  proof (cases "rtail k = rhead k")
    case True
    then have "pending k = []" by (simp add: pending_def ring_slice_def ring_count_def)
    then show ?thesis using True Suc.prems by simp
  next
    case False
    let ?k = "k\<lparr>rtail := (rtail k + 1) mod RING_SIZE\<rparr>"
    obtain ds where ds: "stdin_try_read n ?k = (ds, k')" "cs = ring k ! rtail k # ds"
      using Suc.prems(2) False by (auto split: prod.splits)
    have "Suc (ring_count (rhead k) ((rtail k + 1) mod RING_SIZE)) = ring_count (rhead k) (rtail k)"
      using ring_count_step(3) [OF ok(2,3)] False by simp
    then have "pending k = ring k ! rtail k # pending ?k"
      using slice_Cons [OF ok(3), of "ring k"] by (metis kbd.select_convs(3,4,5) kbd.simps(3,4,10) pending_def kbd.surjective kbd.update_convs(5))
    moreover have "kbd_ok ?k" using ok by (simp add: kbd_ok_def)
    ultimately show ?thesis using Suc.IH [OF _ ds(1)] ds(2) by simp
  qed
qed simp

text \<open>A bounded queue: what \<^verbatim>\<open>sys_read\<close> relies on.\<close>

locale char_queue =
  fixes inv :: "'q \<Rightarrow> bool"
    and items :: "'q \<Rightarrow> char list"
    and cap :: nat
    and push :: "char \<Rightarrow> 'q \<Rightarrow> 'q"
    and take_up_to :: "nat \<Rightarrow> 'q \<Rightarrow> char list \<times> 'q"
  assumes push_law: "inv q \<Longrightarrow> inv (push c q) \<and> items (push c q) = (if length (items q) < cap then items q @ [c] else items q)"
    and take_law: "inv q \<Longrightarrow> take_up_to n q = (cs, q') \<Longrightarrow> inv q' \<and> cs = take n (items q) \<and> items q' = drop n (items q)"
begin

lemma pushes:
  "inv q \<Longrightarrow> inv (fold push cs q) \<and> items (fold push cs q) = take (max cap (length (items q))) (items q @ cs)"
proof (induction cs arbitrary: q)
  case (Cons c cs)
  have q: "inv (push c q)" "items (push c q) = (if length (items q) < cap then items q @ [c] else items q)"
    using push_law [OF Cons.prems] by auto
  then show ?case using Cons.IH [OF q(1)] by (auto simp: max_def take_Cons' split: if_splits)
qed simp

lemma push_then_take:
  "inv q \<Longrightarrow> length (items q) + length cs \<le> cap \<Longrightarrow> take_up_to (length (items q) + length cs) (fold push cs q) = (ds, q') \<Longrightarrow>
     ds = items q @ cs \<and> items q' = []"
proof -
  assume q: "inv q" "length (items q) + length cs \<le> cap"
    and t: "take_up_to (length (items q) + length cs) (fold push cs q) = (ds, q')"
  have i: "inv (fold push cs q)" "items (fold push cs q) = items q @ cs" using pushes [OF q(1), of cs] q(2) by auto
  show ?thesis using take_law [OF i(1) t] i(2) by simp
qed

end

interpretation kq: char_queue kbd_ok pending 255 ring_push stdin_try_read
  by unfold_locales (use push_pending try_read_pending in \<open>auto\<close>)

subsection \<open>Interleavings of producer and consumer\<close>

text \<open>The single accesses of \<^verbatim>\<open>ring_push\<close> (interrupt side) and of one iteration of \<^verbatim>\<open>stdin_try_read\<close>.  Each
  constructor is a point between two accesses, with the values loaded so far.  \<open>sent\<close> and \<open>got\<close> record
  the characters published and consumed.\<close>

datatype producer = PIdle | PHead char nat | PLoaded char nat nat | PStored char nat

datatype consumer = CIdle | CTail nat | CLoaded nat nat | CGot nat char

record spsc =
  kb :: kbd
  pp :: producer
  cp :: consumer
  sent :: "char list"
  got :: "char list"

inductive spsc_step :: "spsc \<Rightarrow> spsc \<Rightarrow> bool" where
  push_load_head: "pp s = PIdle \<Longrightarrow> spsc_step s (s\<lparr>pp := PHead c (rhead (kb s))\<rparr>)"
| push_load_tail: "pp s = PHead c h \<Longrightarrow> spsc_step s (s\<lparr>pp := PLoaded c h (rtail (kb s))\<rparr>)"
| push_full: "pp s = PLoaded c h t \<Longrightarrow> (h + 1) mod RING_SIZE = t \<Longrightarrow> spsc_step s (s\<lparr>pp := PIdle\<rparr>)"
| push_store: "pp s = PLoaded c h t \<Longrightarrow> (h + 1) mod RING_SIZE \<noteq> t \<Longrightarrow>
    spsc_step s (s\<lparr>pp := PStored c h, kb := (kb s)\<lparr>ring := (ring (kb s))[h := c]\<rparr>\<rparr>)"
| push_publish: "pp s = PStored c h \<Longrightarrow>
    spsc_step s (s\<lparr>pp := PIdle, kb := (kb s)\<lparr>rhead := (h + 1) mod RING_SIZE\<rparr>, sent := sent s @ [c]\<rparr>)"
| pop_load_tail: "cp s = CIdle \<Longrightarrow> spsc_step s (s\<lparr>cp := CTail (rtail (kb s))\<rparr>)"
| pop_load_head: "cp s = CTail t \<Longrightarrow> spsc_step s (s\<lparr>cp := CLoaded t (rhead (kb s))\<rparr>)"
| pop_empty: "cp s = CLoaded t h \<Longrightarrow> t = h \<Longrightarrow> spsc_step s (s\<lparr>cp := CIdle\<rparr>)"
| pop_read: "cp s = CLoaded t h \<Longrightarrow> t \<noteq> h \<Longrightarrow> spsc_step s (s\<lparr>cp := CGot t (ring (kb s) ! t)\<rparr>)"
| pop_publish: "cp s = CGot t c \<Longrightarrow>
    spsc_step s (s\<lparr>cp := CIdle, kb := (kb s)\<lparr>rtail := (t + 1) mod RING_SIZE\<rparr>, got := got s @ [c]\<rparr>)"

definition producer_ok :: "kbd \<Rightarrow> producer \<Rightarrow> bool" where
  "producer_ok k p =
     (case p of
        PIdle \<Rightarrow> True
      | PHead c h \<Rightarrow> h = rhead k
      | PLoaded c h t \<Rightarrow> h = rhead k \<and> t < RING_SIZE \<and> ring_count h (rtail k) \<le> ring_count h t
      | PStored c h \<Rightarrow> h = rhead k \<and> ring k ! h = c \<and> ring_count h (rtail k) < 255)"

definition consumer_ok :: "kbd \<Rightarrow> consumer \<Rightarrow> bool" where
  "consumer_ok k c =
     (case c of
        CIdle \<Rightarrow> True
      | CTail t \<Rightarrow> t = rtail k
      | CLoaded t h \<Rightarrow> t = rtail k \<and> (t \<noteq> h \<longrightarrow> rhead k \<noteq> t)
      | CGot t x \<Rightarrow> t = rtail k \<and> rhead k \<noteq> t \<and> ring k ! t = x)"

definition spsc_inv :: "spsc \<Rightarrow> bool" where
  "spsc_inv s \<longleftrightarrow> kbd_ok (kb s) \<and> producer_ok (kb s) (pp s) \<and> consumer_ok (kb s) (cp s)
     \<and> sent s = got s @ pending (kb s)"

lemma pending_rhead:
  assumes "kbd_ok k" "ring_count (rhead k) (rtail k) < 255"
  shows "pending (k\<lparr>rhead := (rhead k + 1) mod RING_SIZE\<rparr>) = pending k @ [ring k ! rhead k]"
proof -
  have ok: "rhead k < RING_SIZE" "rtail k < RING_SIZE" using assms(1) by (simp_all add: kbd_ok_def)
  note R = ring_count_step [OF ok]
  show ?thesis using assms(2) R(1,2,5) by (simp add: pending_def slice_snoc)
qed

lemma pending_rtail:
  assumes "kbd_ok k" "rhead k \<noteq> rtail k"
  shows "pending k = ring k ! rtail k # pending (k\<lparr>rtail := (rtail k + 1) mod RING_SIZE\<rparr>)"
proof -
  have ok: "rhead k < RING_SIZE" "rtail k < RING_SIZE" using assms(1) by (simp_all add: kbd_ok_def)
  let ?k = "k\<lparr>rtail := (rtail k + 1) mod RING_SIZE\<rparr>"
  have "ring_count (rhead k) (rtail k) = Suc (ring_count (rhead k) ((rtail k + 1) mod RING_SIZE))"
    using ring_count_step(3) [OF ok] assms(2) by simp
  then have "pending k = ring_slice (ring k) (rtail k) (Suc (ring_count (rhead k) ((rtail k + 1) mod RING_SIZE)))"
    by (simp only: pending_def)
  then show ?thesis using slice_Cons [OF ok(2)] by (simp add: pending_def)
qed

lemma spsc_step_inv:
  assumes "spsc_step s s'" "spsc_inv s"
  shows "spsc_inv s'"
proof -
  let ?k = "kb s"
  have ok: "length (ring ?k) = RING_SIZE" "rhead ?k < RING_SIZE" "rtail ?k < RING_SIZE" "kbd_ok ?k"
    and P: "producer_ok ?k (pp s)" and C: "consumer_ok ?k (cp s)" and S: "sent s = got s @ pending ?k"
    using assms(2) by (simp_all add: spsc_inv_def kbd_ok_def)
  note R = ring_count_step [OF ok(2,3)]
  show ?thesis
    using assms(1)
  proof cases
    case (push_store c h t)
    have h: "h = rhead ?k" "t < RING_SIZE" "ring_count h (rtail ?k) \<le> ring_count h t" using P push_store(2) by (auto simp: producer_ok_def)
    have full: "ring_count h (rtail ?k) < 255"
      using h push_store(3) ring_count_step(2) [OF ok(2) h(2)] ring_count_bound [OF ok(2) h(2)] by simp
    let ?k' = "?k\<lparr>ring := (ring ?k)[h := c]\<rparr>"
    have "pending ?k' = pending ?k" using slice_upd [OF ok(2,3) le_refl] h(1) by (simp add: pending_def)
    moreover have "consumer_ok ?k' (cp s)" using C h(1) by (auto simp: consumer_ok_def split: consumer.splits)
    moreover have "producer_ok ?k' (PStored c h)" using h(1) full ok by (simp add: producer_ok_def)
    ultimately show ?thesis using S ok push_store by (simp add: spsc_inv_def kbd_ok_def)
  next
    case (push_publish c h)
    have h: "h = rhead ?k" "ring ?k ! h = c" "ring_count h (rtail ?k) < 255" using P push_publish(2) by (auto simp: producer_ok_def)
    let ?k' = "?k\<lparr>rhead := (h + 1) mod RING_SIZE\<rparr>"
    have "pending ?k' = pending ?k @ [c]" using pending_rhead [OF ok(4)] h by simp
    moreover have "consumer_ok ?k' (cp s)" using C h R(2) by (auto simp: consumer_ok_def split: consumer.splits)
    ultimately show ?thesis using S ok push_publish by (simp add: spsc_inv_def kbd_ok_def producer_ok_def)
  next
    case (pop_publish t c)
    have t: "t = rtail ?k" "rhead ?k \<noteq> t" "ring ?k ! t = c" using C pop_publish(2) by (auto simp: consumer_ok_def)
    let ?k' = "?k\<lparr>rtail := (t + 1) mod RING_SIZE\<rparr>"
    have "pending ?k = c # pending ?k'" using pending_rtail [OF ok(4)] t by simp
    moreover have "producer_ok ?k' (pp s)" using P R(3) t by (auto simp: producer_ok_def split: producer.splits)
    ultimately show ?thesis using S ok pop_publish by (simp add: spsc_inv_def kbd_ok_def consumer_ok_def)
  qed (use P C S ok in \<open>auto simp: spsc_inv_def producer_ok_def consumer_ok_def\<close>)
qed

subsection \<open>Correctness of the driver\<close>

definition empty_kbd :: kbd where
  "empty_kbd = \<lparr>shift_down = False, caps_lock = False, ring = replicate RING_SIZE (CHR 0x00), rhead = 0, rtail = 0\<rparr>"

definition spsc_start :: spsc where
  "spsc_start = \<lparr>kb = empty_kbd, pp = PIdle, cp = CIdle, sent = [], got = []\<rparr>"

lemma empty_kbd_ok: "kbd_ok empty_kbd" "pending empty_kbd = []"
  by (simp_all add: kbd_ok_def empty_kbd_def pending_def ring_slice_def ring_count_def)

text \<open>The keyboard ring is a queue of 255 characters: pushing characters keeps the oldest 255 in order and
  drops the rest, and \<^verbatim>\<open>stdin_try_read\<close> removes and returns the oldest ones, as many as asked for and
  available, never blocking; \<^verbatim>\<open>stdin_has_data\<close> tells whether it would return any.\<close>

theorem keyboard_ring_fifo:
  assumes "kbd_ok k" and "stdin_try_read n (fold ring_push cs k) = (ds, k')"
  shows "ds = take n (take 255 (pending k @ cs)) \<and> pending k' = drop n (take 255 (pending k @ cs)) \<and> kbd_ok k'
    \<and> (stdin_has_data k' \<longleftrightarrow> pending k' \<noteq> [])"
proof -
  have ok: "rhead k < RING_SIZE" "rtail k < RING_SIZE" using assms(1) by (simp_all add: kbd_ok_def)
  have "length (pending k) \<le> 255"
    using ring_count_bound [OF ok] by (simp add: pending_def ring_slice_def)
  then have p: "kbd_ok (fold ring_push cs k)" "pending (fold ring_push cs k) = take 255 (pending k @ cs)"
    using kq.pushes [OF assms(1), of cs] by (auto simp: max_def)
  have t: "kbd_ok k'" "ds = take n (take 255 (pending k @ cs))" "pending k' = drop n (take 255 (pending k @ cs))"
    using kq.take_law [OF p(1) assms(2)] p(2) by auto
  have "rhead k' < RING_SIZE" "rtail k' < RING_SIZE" using t(1) by (simp_all add: kbd_ok_def)
  from ring_count_step(4) [OF this] show ?thesis
    using t by (auto simp: stdin_has_data_def pending_def ring_slice_def)
qed

theorem keyboard_ring_fifo_witness:
  "fst (stdin_try_read 2 (fold ring_push ''abc'' empty_kbd)) = ''ab''"
proof -
  obtain ds k' where r: "stdin_try_read 2 (fold ring_push ''abc'' empty_kbd) = (ds, k')" by (meson prod.exhaust)
  with keyboard_ring_fifo [OF empty_kbd_ok(1) r] empty_kbd_ok(2) show ?thesis by simp
qed

text \<open>C10: Producer and consumer may interleave at every single load and store: in every reachable state the
  characters consumed are a prefix of the characters published, in order, and what is missing is exactly
  what the ring holds.  Nothing is lost after publication, duplicated, reordered or read half-written.\<close>

theorem keyboard_ring_interleaved:
  assumes "spsc_step\<^sup>*\<^sup>* spsc_start s"
  shows "sent s = got s @ pending (kb s) \<and> length (pending (kb s)) \<le> 255"
proof -
  have "spsc_inv spsc_start"
    using empty_kbd_ok by (simp add: spsc_inv_def spsc_start_def producer_ok_def consumer_ok_def)
  with assms have i: "spsc_inv s" by (induction rule: rtranclp_induct) (auto intro: spsc_step_inv)
  then have "rhead (kb s) < RING_SIZE" "rtail (kb s) < RING_SIZE" by (simp_all add: spsc_inv_def kbd_ok_def)
  from ring_count_bound [OF this] show ?thesis using i by (simp add: spsc_inv_def pending_def ring_slice_def)
qed

theorem keyboard_ring_interleaved_witness:
  "\<exists>s. spsc_step\<^sup>*\<^sup>* spsc_start s \<and> sent s = ''a'' \<and> pending (kb s) = ''a''"
proof -
  let ?s1 = "spsc_start\<lparr>pp := PHead (CHR ''a'') 0\<rparr>"
  let ?s2 = "?s1\<lparr>pp := PLoaded (CHR ''a'') 0 0\<rparr>"
  let ?s3 = "?s2\<lparr>pp := PStored (CHR ''a'') 0, kb := (kb ?s2)\<lparr>ring := (ring (kb ?s2))[0 := CHR ''a'']\<rparr>\<rparr>"
  let ?s4 = "?s3\<lparr>pp := PIdle, kb := (kb ?s3)\<lparr>rhead := (0 + 1) mod RING_SIZE\<rparr>, sent := sent ?s3 @ [CHR ''a'']\<rparr>"
  have z: "rhead (kb spsc_start) = 0" "rtail (kb ?s1) = 0" by (simp_all add: spsc_start_def empty_kbd_def)
  have "spsc_step spsc_start ?s1" using push_load_head [of spsc_start "CHR ''a''"] z by (simp add: spsc_start_def)
  moreover have "spsc_step ?s1 ?s2" using push_load_tail [of ?s1 "CHR ''a''" 0] z by simp
  moreover have "spsc_step ?s2 ?s3" using push_store [of ?s2 "CHR ''a''" 0 0] by simp
  moreover have "spsc_step ?s3 ?s4" using push_publish [of ?s3 "CHR ''a''" 0] by simp
  ultimately have r: "spsc_step\<^sup>*\<^sup>* spsc_start ?s4" by (meson converse_rtranclp_into_rtranclp rtranclp.rtrancl_refl)
  have "sent ?s4 = ''a''" "got ?s4 = []" by (simp_all add: spsc_start_def)
  with keyboard_ring_interleaved [OF r] r show ?thesis by (intro exI [of _ ?s4]) simp
qed

lemma letter_tables:
  "list_all2 (\<lambda>b u. is_lower b \<longrightarrow> (of_char u :: nat) + 32 = of_char b) sc_base sc_shift"
  by code_simp

text \<open>Key translation.  The two shift keys set and clear \<^verbatim>\<open>shift_down\<close> on press and release, caps lock toggles
  on press only, no release ever queues a character, and pressing a letter key queues the letter, in upper
  case exactly when shift and caps lock differ.\<close>

theorem keyboard_translation:
  "keyboard_ps2_handle_byte 0x2A k = k\<lparr>shift_down := True\<rparr> \<and> keyboard_ps2_handle_byte 0xAA k = k\<lparr>shift_down := False\<rparr>
   \<and> keyboard_ps2_handle_byte 0x36 k = k\<lparr>shift_down := True\<rparr> \<and> keyboard_ps2_handle_byte 0xB6 k = k\<lparr>shift_down := False\<rparr>
   \<and> keyboard_ps2_handle_byte 0x3A k = k\<lparr>caps_lock := \<not> caps_lock k\<rparr> \<and> keyboard_ps2_handle_byte 0xBA k = k
   \<and> (sc AND 0x80 \<noteq> 0 \<longrightarrow> pending (keyboard_ps2_handle_byte sc k) = pending k)
   \<and> (sc AND 0x80 = 0 \<and> is_lower (sc_base ! unat sc) \<longrightarrow>
       (\<exists>c. keyboard_ps2_handle_byte sc k = ring_push c k
          \<and> (of_char c :: nat) = (if shift_down k \<noteq> caps_lock k then of_char (sc_base ! unat sc) - 32
              else of_char (sc_base ! unat sc))))"
proof -
  have mods: "keyboard_ps2_handle_byte 0x2A k = k\<lparr>shift_down := True\<rparr>" "keyboard_ps2_handle_byte 0xAA k = k\<lparr>shift_down := False\<rparr>"
    "keyboard_ps2_handle_byte 0x36 k = k\<lparr>shift_down := True\<rparr>" "keyboard_ps2_handle_byte 0xB6 k = k\<lparr>shift_down := False\<rparr>"
    "keyboard_ps2_handle_byte 0x3A k = k\<lparr>caps_lock := \<not> caps_lock k\<rparr>" "keyboard_ps2_handle_byte 0xBA k = k"
    by (simp_all add: keyboard_ps2_handle_byte_def Let_def)
  have rel: "pending (keyboard_ps2_handle_byte sc k) = pending k" if "sc AND 0x80 \<noteq> 0"
    using that by (simp add: keyboard_ps2_handle_byte_def Let_def pending_def)
  have let': "\<exists>c. keyboard_ps2_handle_byte sc k = ring_push c k
      \<and> (of_char c :: nat) = (if shift_down k \<noteq> caps_lock k then of_char (sc_base ! unat sc) - 32 else of_char (sc_base ! unat sc))"
    if p: "sc AND 0x80 = 0" and l: "is_lower (sc_base ! unat sc)"
  proof -
    have code: "sc AND 0x7F = sc"
    proof (rule bit_word_eqI)
      fix n assume n: "n < LENGTH(8)"
      have "(0x7F :: u8) = mask 7" "(0x80 :: u8) = 2 ^ 7" by (simp_all add: mask_eq_exp_minus_1)
      moreover have "\<not> bit sc 7" using p by (metis and_zero_eq bit_iff_and_push_bit_not_eq_0 calculation(2) push_bit_of_1 and.commute)
      ultimately show "bit (sc AND 0x7F) n = bit sc n" using n by (auto simp: bit_simps less_Suc_eq numeral_eq_Suc)
    qed
    have "unat sc < 128"
    proof -
      have "sc \<le> 0x7F" using code word_and_le1 [of sc "0x7F"] word_and_le2 [of sc "0x7F"] by metis
      then show ?thesis by (simp add: word_le_nat_alt)
    qed
    moreover have len: "length sc_base = 128" by (simp add: sc_base_def)
    ultimately have u: "(of_char (sc_shift ! unat sc) :: nat) + 32 = of_char (sc_base ! unat sc)"
      using list_all2_nthD [OF letter_tables] l by simp
    have nz: "sc_base ! unat sc \<noteq> CHR 0x00" "sc_shift ! unat sc \<noteq> CHR 0x00"
      using l u by (auto simp: is_lower_def)
    have ne: "sc \<noteq> 0x2A" "sc \<noteq> 0x36" "sc \<noteq> 0x3A" using l by (auto simp: sc_base_def is_lower_def)
    show ?thesis
      using p l u nz ne by (auto simp: keyboard_ps2_handle_byte_def Let_def code)
  qed
  show ?thesis using mods rel let' by blast
qed

theorem keyboard_translation_witness:
  "pending (keyboard_ps2_handle_byte 0x9E empty_kbd) = [] \<and>
   (\<exists>c. keyboard_ps2_handle_byte 0x1E (empty_kbd\<lparr>shift_down := True\<rparr>) = ring_push c (empty_kbd\<lparr>shift_down := True\<rparr>)
      \<and> (of_char c :: nat) = 65)"
proof
  show "pending (keyboard_ps2_handle_byte 0x9E empty_kbd) = []"
    using keyboard_translation [of empty_kbd "0x9E"] empty_kbd_ok(2) by simp
  have "is_lower (sc_base ! unat (0x1E :: u8))" "(of_char (sc_base ! unat (0x1E :: u8)) :: nat) = 97" by code_simp+
  then show "\<exists>c. keyboard_ps2_handle_byte 0x1E (empty_kbd\<lparr>shift_down := True\<rparr>) = ring_push c (empty_kbd\<lparr>shift_down := True\<rparr>)
      \<and> (of_char c :: nat) = 65"
    using keyboard_translation [of "empty_kbd\<lparr>shift_down := True\<rparr>" "0x1E"] by (simp add: empty_kbd_def)
qed

end
