(* ===== verification/Kprintf.thy ===== *)
theory Kprintf
  imports Prelude
begin

text \<open>
  Formatted kernel output, \<^verbatim>\<open>src/kprintf.c\<close>: number conversion, padding and the format interpreter.  The
  output is the list of characters handed to \<^verbatim>\<open>serial_putc\<close>.  Variable arguments are a list; taking an
  argument of another kind than the one passed, or one that is not there, is undefined in C and the value
  \<open>None\<close> here.
\<close>

subsection \<open>Numbers\<close>

definition digit_char :: "bool \<Rightarrow> nat \<Rightarrow> char" where
  "digit_char upper d = (if upper then ''0123456789ABCDEF'' ! d else ''0123456789abcdef'' ! d)"

text \<open>The loop that fills \<^verbatim>\<open>buf\<close>, least significant digit first.\<close>

function utoa_rev :: "nat \<Rightarrow> nat \<Rightarrow> bool \<Rightarrow> string" where
  "utoa_rev v b upper = (if v = 0 \<or> b < 2 then [] else digit_char upper (v mod b) # utoa_rev (v div b) b upper)"
  by pat_completeness auto
termination
  by (relation "measure (\<lambda>(v, b, u). v)") (auto intro: div_less_dividend)

declare utoa_rev.simps [simp del]

definition utoa :: "nat \<Rightarrow> nat \<Rightarrow> bool \<Rightarrow> string" where
  "utoa v b upper = (if v = 0 then ''0'' else rev (utoa_rev v b upper))"

definition itoa_signed :: "int \<Rightarrow> string" where
  "itoa_signed v = (if v < 0 then CHR ''-'' # utoa (nat (- v)) 10 False else utoa (nat v) 10 False)"

definition emit_padded :: "string \<Rightarrow> nat \<Rightarrow> char \<Rightarrow> string" where
  "emit_padded s width pad = replicate (width - length s) pad @ s"

subsection \<open>Formats\<close>

datatype kparg = KInt u32 | KStr "string option" | KPtr u64

definition is_digit :: "char \<Rightarrow> bool" where
  "is_digit c \<longleftrightarrow> 48 \<le> (of_char c :: nat) \<and> (of_char c :: nat) \<le> 57"

fun parse_width :: "string \<Rightarrow> nat \<Rightarrow> nat \<times> string" where
  "parse_width (c # cs) w = (if is_digit c then parse_width cs (w * 10 + (of_char c - 48)) else (w, c # cs))"
| "parse_width [] w = (w, [])"

definition parse_pad :: "string \<Rightarrow> char \<times> string" where
  "parse_pad fmt = (case fmt of c # cs \<Rightarrow> if c = CHR ''0'' then (CHR ''0'', cs) else (CHR '' '', fmt) | [] \<Rightarrow> (CHR '' '', []))"

lemma parse_width_length: "(w', r) = parse_width cs w \<Longrightarrow> length r \<le> length cs"
  by (induction cs arbitrary: w) (force split: if_splits)+

lemma parse_pad_length: "(p, r) = parse_pad cs \<Longrightarrow> length r \<le> length cs"
  by (auto simp: parse_pad_def split: list.splits if_splits)

text \<open>One conversion: the text it emits and the arguments left.\<close>

definition convert :: "char \<Rightarrow> nat \<Rightarrow> char \<Rightarrow> kparg list \<Rightarrow> (string \<times> kparg list) option" where
  "convert c width pad args =
     (if c = CHR ''c'' then
        (case args of KInt v # r \<Rightarrow> Some ([char_of (unat v)], r) | _ \<Rightarrow> None)
      else if c = CHR ''s'' then
        (case args of KStr s # r \<Rightarrow> Some (emit_padded (case s of Some t \<Rightarrow> t | None \<Rightarrow> ''(null)'') width pad, r) | _ \<Rightarrow> None)
      else if c = CHR ''d'' \<or> c = CHR ''i'' then
        (case args of KInt v # r \<Rightarrow> Some (emit_padded (itoa_signed (sint v)) width pad, r) | _ \<Rightarrow> None)
      else if c = CHR ''u'' then
        (case args of KInt v # r \<Rightarrow> Some (emit_padded (utoa (unat v) 10 False) width pad, r) | _ \<Rightarrow> None)
      else if c = CHR ''x'' then
        (case args of KInt v # r \<Rightarrow> Some (emit_padded (utoa (unat v) 16 False) width pad, r) | _ \<Rightarrow> None)
      else if c = CHR ''X'' then
        (case args of KInt v # r \<Rightarrow> Some (emit_padded (utoa (unat v) 16 True) width pad, r) | _ \<Rightarrow> None)
      else if c = CHR ''p'' then
        (case args of KPtr v # r \<Rightarrow> Some (''0x'' @ emit_padded (utoa (unat v) 16 False) 16 (CHR ''0''), r) | _ \<Rightarrow> None)
      else if c = CHR ''%'' then Some (''%'', args)
      else Some ([CHR ''%'', c], args))"

function kvprintf :: "string \<Rightarrow> kparg list \<Rightarrow> string option" where
  "kvprintf [] args = Some []"
| "kvprintf (c # fmt) args =
     (if c \<noteq> CHR ''%'' then map_option (Cons c) (kvprintf fmt args)
      else let (pad, f1) = parse_pad fmt; (width, f2) = parse_width f1 0
      in case f2 of
           [] \<Rightarrow> Some []
         | d # rest \<Rightarrow>
             (case convert d width pad args of
                None \<Rightarrow> None
              | Some (out, args') \<Rightarrow> map_option ((@) out) (kvprintf rest args')))"
  by pat_completeness auto
termination
  by (relation "measure (\<lambda>(fmt, args). length fmt)") (auto dest!: parse_width_length parse_pad_length)

subsection \<open>Conversion is positional notation\<close>

text \<open>The value a digit string denotes.\<close>

definition digit_value :: "char \<Rightarrow> nat" where
  "digit_value c = (let n = of_char c in if n < 58 then n - 48 else if n < 97 then n - 55 else n - 87)"

definition numeral_value :: "nat \<Rightarrow> string \<Rightarrow> nat" where
  "numeral_value b s = foldl (\<lambda>v c. v * b + digit_value c) 0 s"

lemma digit_values: "\<forall>d < 16. digit_value (digit_char u d) = d \<and> (d \<noteq> 0 \<longrightarrow> digit_char u d \<noteq> CHR ''0'')"
proof -
  have "\<forall>d \<in> set [0..<16]. digit_value (digit_char u d) = d \<and> (d \<noteq> 0 \<longrightarrow> digit_char u d \<noteq> CHR ''0'')"
    by (cases u) (simp_all add: upt_rec digit_value_def digit_char_def Let_def)
  then show ?thesis by simp
qed

lemma utoa_rev_value:
  "2 \<le> b \<Longrightarrow> b \<le> 16 \<Longrightarrow> foldr (\<lambda>c v. v * b + digit_value c) (utoa_rev v b u) 0 = v"
proof (induction v b u rule: utoa_rev.induct)
  case (1 v b u)
  show ?case
  proof (cases "v = 0")
    case True
    then show ?thesis by (simp add: utoa_rev.simps)
  next
    case False
    have "v mod b < b" using "1.prems" by simp
    then have "v mod b < 16" using "1.prems" by linarith
    then show ?thesis
      using False "1.IH" "1.prems" digit_values [of u] by (subst utoa_rev.simps) (simp add: mult.commute)
  qed
qed

lemma utoa_value: "2 \<le> b \<Longrightarrow> b \<le> 16 \<Longrightarrow> numeral_value b (utoa v b u) = v"
  using utoa_rev_value [of b v u]
  by (simp add: utoa_def numeral_value_def foldl_conv_foldr digit_value_def)

lemma utoa_rev_length: "2 \<le> b \<Longrightarrow> v < b ^ n \<Longrightarrow> length (utoa_rev v b u) \<le> n"
proof (induction n arbitrary: v)
  case (Suc n)
  have "v div b < b ^ n" using Suc.prems by (simp add: less_mult_imp_div_less mult.commute)
  then show ?case using Suc by (subst utoa_rev.simps) simp
qed (simp add: utoa_rev.simps)

lemma utoa_rev_nonempty: "2 \<le> b \<Longrightarrow> 0 < v \<Longrightarrow> utoa_rev v b u \<noteq> []"
  by (subst utoa_rev.simps) simp

lemma utoa_length: "2 \<le> b \<Longrightarrow> v < b ^ n \<Longrightarrow> 0 < n \<Longrightarrow> length (utoa v b u) \<le> n"
  using utoa_rev_length [of b v n u] by (simp add: utoa_def)

lemma utoa_leading:
  "2 \<le> b \<Longrightarrow> b \<le> 16 \<Longrightarrow> 0 < v \<Longrightarrow> last (utoa_rev v b u) \<noteq> CHR ''0''"
proof (induction v b u rule: utoa_rev.induct)
  case (1 v b u)
  show ?case
  proof (cases "v div b = 0")
    case True
    then have "v < b" using "1.prems" by (simp add: div_eq_0_iff)
    then show ?thesis using "1.prems" True digit_values [of u]
      by (subst utoa_rev.simps) (simp add: utoa_rev.simps [of 0])
  next
    case False
    then show ?thesis using "1.IH" "1.prems" utoa_rev_nonempty [of b "v div b" u] by (subst utoa_rev.simps) auto
  qed
qed

lemma utoa_no_newline: "2 \<le> b \<Longrightarrow> b \<le> 16 \<Longrightarrow> CHR 0x0A \<notin> set (utoa v b u)"
proof -
  assume b: "2 \<le> b" "b \<le> 16"
  have "\<forall>d \<in> set [0..<16]. digit_char True d \<noteq> CHR 0x0A \<and> digit_char False d \<noteq> CHR 0x0A" by code_simp
  then have d: "d < 16 \<Longrightarrow> CHR 0x0A \<noteq> digit_char u d" for d u by (cases u) auto
  have "CHR 0x0A \<notin> set (utoa_rev v b u)"
    using b
  proof (induction v b u rule: utoa_rev.induct)
    case (1 v b u)
    have "v mod b < 16" using "1.prems" mod_less_divisor [of b v] by linarith
    then show ?case using "1.IH" "1.prems" d by (subst utoa_rev.simps) simp
  qed
  then show ?thesis by (simp add: utoa_def)
qed

subsection \<open>Formats as pieces\<close>

text \<open>A format is a sequence of literal characters and conversions with an optional zero flag and width.\<close>

datatype fmt_item = FLit char | FConv bool string char

fun item_ok :: "fmt_item \<Rightarrow> bool" where
  "item_ok (FLit c) \<longleftrightarrow> c \<noteq> CHR ''%''"
| "item_ok (FConv z ws c) \<longleftrightarrow>
     list_all is_digit ws \<and> (ws \<noteq> [] \<longrightarrow> hd ws \<noteq> CHR ''0'') \<and> numeral_value 10 ws < 2 ^ 31 \<and> \<not> is_digit c"

fun unparse :: "fmt_item \<Rightarrow> string" where
  "unparse (FLit c) = [c]"
| "unparse (FConv z ws c) = CHR ''%'' # (if z then ''0'' else []) @ ws @ [c]"

text \<open>What a conversion should print, from positional notation alone: digit \<open>i\<close> of \<open>v\<close> is
  \<open>v div b ^ i mod b\<close>, a numeral has as many digits as there are powers of the base up to the number, a
  negative number is a sign and its magnitude, an address has sixteen digits.\<close>

definition spec_digit :: "bool \<Rightarrow> nat \<Rightarrow> char" where
  "spec_digit upper d = char_of (if d < 10 then 48 + d else if upper then 55 + d else 87 + d)"

definition digits_text :: "nat \<Rightarrow> bool \<Rightarrow> nat \<Rightarrow> nat \<Rightarrow> string" where
  "digits_text b upper n v = map (\<lambda>i. spec_digit upper (v div b ^ i mod b)) (rev [0..<n])"

definition numeral_text :: "nat \<Rightarrow> bool \<Rightarrow> nat \<Rightarrow> string" where
  "numeral_text b upper v =
     digits_text b upper (if v = 0 then 1 else length (filter (\<lambda>i. b ^ i \<le> v) [0..<64])) v"

definition signed_text :: "u32 \<Rightarrow> string" where
  "signed_text v =
     (if bit v 31 then CHR ''-'' # numeral_text 10 False (2 ^ 32 - unat v) else numeral_text 10 False (unat v))"

fun int_text :: "char \<Rightarrow> u32 \<Rightarrow> string" where
  "int_text c v =
     (if c = CHR ''u'' then numeral_text 10 False (unat v)
      else if c = CHR ''x'' then numeral_text 16 False (unat v)
      else if c = CHR ''X'' then numeral_text 16 True (unat v)
      else signed_text v)"

definition right_aligned :: "nat \<Rightarrow> char \<Rightarrow> string \<Rightarrow> string \<Rightarrow> bool" where
  "right_aligned width pad t out \<longleftrightarrow>
     length out = max width (length t) \<and> drop (length out - length t) out = t \<and>
     set (take (length out - length t) out) \<subseteq> {pad}"

text \<open>The text \<open>out\<close> is a rendering of the items for the arguments.\<close>

inductive renders :: "fmt_item list \<Rightarrow> kparg list \<Rightarrow> string \<Rightarrow> bool" where
  renders_end: "renders [] args []"
| renders_lit: "renders is args out \<Longrightarrow> renders (FLit c # is) args (c # out)"
| renders_char: "renders is args out \<Longrightarrow> renders (FConv z ws (CHR ''c'') # is) (KInt v # args) (char_of (unat v) # out)"
| renders_string: "right_aligned (numeral_value 10 ws) (if z then CHR ''0'' else CHR '' '') t txt \<Longrightarrow> renders is args out \<Longrightarrow>
    renders (FConv z ws (CHR ''s'') # is) (KStr (Some t) # args) (txt @ out)"
| renders_null: "right_aligned (numeral_value 10 ws) (if z then CHR ''0'' else CHR '' '') ''(null)'' txt \<Longrightarrow>
    renders is args out \<Longrightarrow> renders (FConv z ws (CHR ''s'') # is) (KStr None # args) (txt @ out)"
| renders_int: "c \<in> {CHR ''d'', CHR ''i'', CHR ''u'', CHR ''x'', CHR ''X''} \<Longrightarrow>
    right_aligned (numeral_value 10 ws) (if z then CHR ''0'' else CHR '' '') (int_text c v) txt \<Longrightarrow> renders is args out \<Longrightarrow>
    renders (FConv z ws c # is) (KInt v # args) (txt @ out)"
| renders_ptr: "renders is args out \<Longrightarrow>
    renders (FConv z ws (CHR ''p'') # is) (KPtr p # args) (''0x'' @ digits_text 16 False 16 (unat p) @ out)"
| renders_percent: "renders is args out \<Longrightarrow> renders (FConv z ws (CHR ''%'') # is) args (CHR ''%'' # out)"
| renders_other: "c \<notin> {CHR ''c'', CHR ''s'', CHR ''d'', CHR ''i'', CHR ''u'', CHR ''x'', CHR ''X'', CHR ''p'', CHR ''%''} \<Longrightarrow>
    renders is args out \<Longrightarrow> renders (FConv z ws c # is) args (CHR ''%'' # c # out)"

inductive_cases renders_NilE: "renders [] args out"
inductive_cases renders_LitE: "renders (FLit c # is) args out"
inductive_cases renders_ConvE: "renders (FConv z ws c # is) args out"

lemma spec_digits: "d < 16 \<Longrightarrow> digit_char u d = spec_digit u d"
proof -
  have "\<forall>d \<in> set [0..<16]. digit_char True d = spec_digit True d" "\<forall>d \<in> set [0..<16]. digit_char False d = spec_digit False d"
    by code_simp+
  then have "\<forall>d \<in> set [0..<16]. digit_char u d = spec_digit u d" by (cases u) simp_all
  then show "d < 16 \<Longrightarrow> digit_char u d = spec_digit u d" by simp
qed

lemma spec_digit_0 [simp]: "spec_digit u 0 = CHR ''0''"
  using spec_digits [of 0 u] by (cases u) (simp_all add: digit_char_def)

lemma powers_upto:
  fixes b v :: nat
  assumes "2 \<le> b" "0 < v"
  shows "filter (\<lambda>i. b ^ i \<le> v) [0..<Suc n] = 0 # map Suc (filter (\<lambda>i. b ^ i \<le> v div b) [0..<n])"
proof -
  have "b ^ Suc i \<le> v \<longleftrightarrow> b ^ i \<le> v div b" for i
    using assms(1) by (simp add: less_eq_div_iff_mult_less_eq mult.commute)
  then have "filter ((\<lambda>i. b ^ i \<le> v) \<circ> Suc) [0..<n] = filter (\<lambda>i. b ^ i \<le> v div b) [0..<n]"
    by (intro filter_cong) simp_all
  then show ?thesis using assms(2) by (simp add: upt_conv_Cons map_Suc_upt [symmetric] filter_map del: upt_Suc)
qed

lemma utoa_rev_digits:
  assumes "2 \<le> b" "b \<le> 16"
  shows "v < b ^ n \<Longrightarrow> utoa_rev v b u = map (\<lambda>i. spec_digit u (v div b ^ i mod b)) [0..<length (filter (\<lambda>i. b ^ i \<le> v) [0..<n])]"
proof (induction n arbitrary: v)
  case (Suc n)
  show ?case
  proof (cases "v = 0")
    case False
    have l: "length (filter (\<lambda>i. b ^ i \<le> v) [0..<Suc n]) = Suc (length (filter (\<lambda>i. b ^ i \<le> v div b) [0..<n]))"
      using False assms(1) by (subst powers_upto) simp_all
    have d: "v div b < b ^ n" using Suc.prems by (simp add: less_mult_imp_div_less mult.commute)
    have "v mod b < 16" using assms mod_less_divisor [of b v] by linarith
    then have "utoa_rev v b u = spec_digit u (v mod b) # utoa_rev (v div b) b u"
      using False assms(1) spec_digits by (subst utoa_rev.simps) simp
    then show ?thesis unfolding l using Suc.IH [OF d]
      by (simp add: upt_conv_Cons map_Suc_upt [symmetric] div_mult2_eq comp_def del: upt_Suc)
  qed (use assms in \<open>simp add: utoa_rev.simps filter_False\<close>)
qed (simp add: utoa_rev.simps)

lemma utoa_text:
  assumes "b = 10 \<or> b = 16" "v < 2 ^ 64"
  shows "utoa v b u = numeral_text b u v"
proof -
  have b: "2 \<le> b" "b \<le> 16" using assms(1) by auto
  have "(2 :: nat) ^ 64 \<le> b ^ 64" using b(1) by (rule power_mono) simp
  then have "v < b ^ 64" using assms(2) by linarith
  then show ?thesis using utoa_rev_digits [OF b, of v 64 u]
    by (auto simp: utoa_def numeral_text_def digits_text_def rev_map)
qed

lemma emit_padded_aligned: "right_aligned w pad t out \<longleftrightarrow> out = emit_padded t w pad"
proof
  assume r: "right_aligned w pad t out"
  let ?k = "length out - length t"
  have k: "?k = w - length t" using r by (auto simp: right_aligned_def)
  have "take ?k out = replicate ?k pad"
    using r by (intro replicate_eqI) (auto simp: right_aligned_def)
  moreover have "out = take ?k out @ drop ?k out" by simp
  ultimately show "out = emit_padded t w pad" using r by (simp add: emit_padded_def right_aligned_def k)
qed (auto simp: emit_padded_def right_aligned_def)

lemma parse_width_digits:
  "list_all is_digit ws \<Longrightarrow> \<not> is_digit c \<Longrightarrow>
    parse_width (ws @ c # rest) w = (foldl (\<lambda>v c. v * 10 + digit_value c) w ws, c # rest)"
  by (induction ws arbitrary: w) (auto simp: is_digit_def digit_value_def Let_def)

lemma kvprintf_conv:
  assumes "item_ok (FConv z ws c)"
  shows "kvprintf (unparse (FConv z ws c) @ fmt) args =
    (case convert c (numeral_value 10 ws) (if z then CHR ''0'' else CHR '' '') args of
        None \<Rightarrow> None
      | Some (out, args') \<Rightarrow> map_option ((@) out) (kvprintf fmt args'))"
proof -
  have pad: "parse_pad ((if z then ''0'' else []) @ ws @ c # fmt) = (if z then CHR ''0'' else CHR '' '', ws @ c # fmt)"
    using assms by (cases ws) (auto simp: parse_pad_def is_digit_def)
  have w: "parse_width (ws @ c # fmt) 0 = (numeral_value 10 ws, c # fmt)"
    using parse_width_digits [of ws c fmt 0] assms by (simp add: numeral_value_def)
  show ?thesis using pad w by (simp split: option.splits)
qed

subsection \<open>Correctness of the formatter\<close>

text \<open>\<^verbatim>\<open>utoa\<close> in base 10 and 16: reading the digits back gives the number, there is no leading zero, and for
  every 64-bit value the text with its terminator fits the 32-byte buffer (with the sign of
  \<^verbatim>\<open>itoa_signed\<close> included).\<close>

theorem utoa_roundtrip:
  assumes "b = 10 \<or> b = 16" and "v < 2 ^ 64"
  shows "numeral_value b (utoa v b u) = v \<and> (hd (utoa v b u) = CHR ''0'' \<longrightarrow> v = 0)
    \<and> length (utoa v b u) + 2 \<le> 32"
proof -
  have b: "2 \<le> b" "b \<le> 16" using assms(1) by auto
  have "(2::nat) ^ 64 \<le> b ^ 20" using assms(1) by auto
  then have "v < b ^ 20" using assms(2) by linarith
  then have "length (utoa v b u) \<le> 20" using utoa_length [OF b(1)] by simp
  moreover have "hd (utoa v b u) \<noteq> CHR ''0''" if "v \<noteq> 0"
    using utoa_leading [OF b, of v u] that utoa_rev_nonempty [OF b(1), of v u] by (simp add: utoa_def hd_rev)
  ultimately show ?thesis using utoa_value [OF b] by auto
qed

theorem utoa_roundtrip_witness:
  "numeral_value 16 (utoa 48879 16 True) = 48879 \<and> length (utoa 48879 16 True) + 2 \<le> 32"
  using utoa_roundtrip [of 16 48879 True] by simp

lemma signed_text: "itoa_signed (sint (v :: u32)) = signed_text v"
proof -
  have l: "unat v < 2 ^ 32" using unsigned_less [of v, where ?'a = nat] by simp
  have "sint v = uint v - 2 ^ 32 * of_bool (bit v 31)"
    by (simp add: sint_uint signed_take_bit_eq_take_bit_minus bit_uint_iff take_bit_int_eq_self unsigned_less [of v, where ?'a = int, simplified])
  then have e: "sint v = int (unat v) - 2 ^ 32 * of_bool (bit v 31)" by simp
  have neg: "sint v < 0" "nat (- sint v) = 2 ^ 32 - unat v" if "bit v 31"
    using e l that by (auto simp del: of_nat_unat)
  show ?thesis
    using e neg l utoa_text [of 10 "2 ^ 32 - unat v" False] utoa_text [of 10 "unat v" False]
    by (cases "bit v 31") (simp_all add: itoa_signed_def signed_text_def)
qed

lemma upt_cut: "m \<le> n \<Longrightarrow> [0..<n] = [0..<m] @ [m..<n]"
  using upt_add_eq_append [of 0 m "n - m"] by simp

lemma filter_upt_cut:
  assumes "m \<le> n" "\<And>i. m \<le> i \<Longrightarrow> \<not> P i"
  shows "filter P [0..<n] = filter P [0..<m]"
proof -
  have "[0..<n] = [0..<m] @ [m..<n]" using assms(1) by (rule upt_cut)
  moreover have "filter P [m..<n] = []" using assms(2) by (intro filter_False) auto
  ultimately show ?thesis by simp
qed

lemma ptr_text:
  assumes "v < 16 ^ 16"
  shows "emit_padded (numeral_text 16 False v) 16 (CHR ''0'') = digits_text 16 False 16 v"
proof -
  let ?n = "if v = 0 then 1 else length (filter (\<lambda>i. 16 ^ i \<le> v) [0..<64])"
  have f: "filter (\<lambda>i. 16 ^ i \<le> v) [0..<64] = filter (\<lambda>i. 16 ^ i \<le> v) [0..<16]"
  proof (rule filter_upt_cut)
    show "\<not> 16 ^ i \<le> v" if "16 \<le> i" for i
      using power_increasing [OF that, of "16 :: nat"] assms by simp
  qed simp
  have n: "?n \<le> 16" using length_filter_le [of "\<lambda>i. 16 ^ i \<le> v" "[0..<16]"] f by simp
  have big: "v div 16 ^ i = 0" if "?n \<le> i" "i < 16" for i
  proof (rule div_less, rule ccontr)
    assume "\<not> v < 16 ^ i"
    then have "16 ^ j \<le> v" if "j \<le> i" for j
      using power_increasing [OF that, of "16 :: nat"] by linarith
    then have "filter (\<lambda>i. 16 ^ i \<le> v) [0..<Suc i] = [0..<Suc i]" by (intro filter_True) auto
    moreover have "[0..<16] = [0..<Suc i] @ [Suc i..<16]" using that(2) by (intro upt_cut) simp
    ultimately have "Suc i \<le> length (filter (\<lambda>i. 16 ^ i \<le> v) [0..<16])" by (simp del: upt_Suc)
    moreover have "v \<noteq> 0" using \<open>\<not> v < 16 ^ i\<close> by (metis zero_less_numeral zero_less_power)
    ultimately show False using that(1) f by simp
  qed
  have s: "rev [0..<16] = rev [?n..<16] @ rev [0..<?n]" using upt_cut [OF n] by (metis rev_append)
  have "map (\<lambda>i. spec_digit False (v div 16 ^ i mod 16)) (rev [?n..<16]) = replicate (16 - ?n) (CHR ''0'')"
    by (intro nth_equalityI) (simp_all add: rev_nth big)
  then show ?thesis unfolding numeral_text_def digits_text_def emit_padded_def s by simp
qed

lemma renders_conv:
  "renders (FConv z ws c # is) args out \<longleftrightarrow>
     (\<exists>txt args' rest. convert c (numeral_value 10 ws) (if z then CHR ''0'' else CHR '' '') args = Some (txt, args')
        \<and> renders is args' rest \<and> out = txt @ rest)" (is "?l \<longleftrightarrow> ?r")
proof
  have u: "unat (v :: u32) < 2 ^ 64" for v using unsigned_less [of v, where ?'a = nat] by simp
  have q: "unat (p :: u64) < 16 ^ 16" "unat p < 2 ^ 64" for p using unsigned_less [of p, where ?'a = nat] by simp_all
  note t = utoa_text [of 10, OF _ u] utoa_text [of 16, OF _ u] utoa_text [of 16, OF _ q(2)] signed_text ptr_text [OF q(1)]
    emit_padded_aligned
  show "?l \<Longrightarrow> ?r" by (erule renders_ConvE) (auto simp: convert_def t)
  show "?r \<Longrightarrow> ?l"
    by (auto simp: convert_def t split: if_splits list.splits kparg.splits option.splits
        intro: renders.intros intro!: renders_ptr [simplified])
qed

text \<open>C37: The format interpreter prints what the format says.  On the text of a sequence of literals and conversions
  with widths below \<open>2 ^ 31\<close>, and for arguments of the kinds the conversions ask for, \<^verbatim>\<open>kvprintf\<close> produces exactly the
  rendering: literals as they are, numbers in positional notation without leading zeros, in the sign, base and case of
  the conversion, right-aligned to the decimal width with zeros or blanks, addresses with sixteen digits.  With an
  argument of another kind, which is undefined in C, there is no rendering and no result.\<close>

theorem kvprintf_renders:
  assumes "list_all item_ok is"
  shows "kvprintf (concat (map unparse is)) args = Some out \<longleftrightarrow> renders is args out"
  using assms
proof (induction "is" arbitrary: args out)
  case Nil
  then show ?case by (auto intro: renders_end elim: renders_NilE)
next
  case (Cons i "is")
  show ?case
  proof (cases i)
    case (FLit c)
    then show ?thesis using Cons by (auto intro: renders_lit elim: renders_LitE)
  next
    case (FConv z ws c)
    then show ?thesis using kvprintf_conv [of z ws c "concat (map unparse is)" args] Cons renders_conv [of z ws c "is" args out]
      by (auto simp del: unparse.simps kvprintf.simps split: option.splits)
  qed
qed

theorem kvprintf_renders_witness:
  "kvprintf ''n=%04x'' [KInt 255] = Some ''n=00ff''"
proof -
  let ?is = "[FLit (CHR ''n''), FLit (CHR ''=''), FConv True ''4'' (CHR ''x'')]"
  have w: "numeral_value 10 ''4'' = 4" by (simp add: numeral_value_def digit_value_def)
  have "utoa 255 16 False = ''ff''" by (simp add: utoa_def utoa_rev.simps digit_char_def)
  then have x: "int_text (CHR ''x'') 255 = ''ff''" using utoa_text [of 16 255 False] by simp
  have "right_aligned 4 (CHR ''0'') ''ff'' ''00ff''" by (simp add: right_aligned_def)
  then have "renders [FConv True ''4'' (CHR ''x'')] [KInt 255] (''00ff'' @ [])"
    by (intro renders_int renders_end) (simp_all add: w x del: int_text.simps)
  then have "renders ?is [KInt 255] ''n=00ff''" by (auto intro: renders_lit)
  moreover have "list_all item_ok ?is" by (simp add: is_digit_def w)
  ultimately show ?thesis using kvprintf_renders [of ?is "[KInt 255]" "''n=00ff''"] by simp
qed

end
