(* ===== verification/Syscall.thy ===== *)
theory Syscall
  imports Thread Vfs Keyboard Kprintf
begin

text \<open>
  System calls, \<^verbatim>\<open>src/arch/x86_64/syscall.c\<close>: the dispatcher and the handlers behind it, over the scheduler
  (\<open>Thread\<close>), the file tree (\<open>Vfs\<close>), the keyboard ring (\<open>Keyboard\<close>), the format interpreter (\<open>Kprintf\<close>) and
  the serial output of \<^verbatim>\<open>src/arch/x86_64/serial.c\<close>.  A path argument is the C string at its address; a string
  without terminator is the value \<open>None\<close>.

  User buffers and the mounted image are bytes of one memory.  Control blocks, vnodes and the other objects of the
  kernel lie in the same address space; they are kept as objects, and \<open>kobj\<close> tells which addresses they occupy.  The
  code checks no user pointer, so a call may be told to store there: what becomes of the objects then is not modelled,
  the outcome is \<open>Corrupts\<close>.

  A call returns a value in \<^verbatim>\<open>rax\<close>, or waits (a read of the empty keyboard ring, which yields and polls
  again), or ends the thread.
\<close>

subsection \<open>State\<close>

record kernel =
  ksched :: sched
  kfs :: fs
  kmem :: "nat \<Rightarrow> u8"
  kkbd :: kbd
  serial :: "u8 list"
  kobj :: "nat \<Rightarrow> bool"

record syscall_frame =
  f_r10 :: u64
  f_r9 :: u64
  f_r8 :: u64
  f_rdx :: u64
  f_rsi :: u64
  f_rdi :: u64
  f_rax :: u64

datatype outcome = Returns int kernel | Waits kernel | Exits kernel | Panics string | Diverges | Corrupts

subsection \<open>Helpers\<close>

definition as_int :: "u64 \<Rightarrow> int" where
  "as_int r = sint (ucast r :: u32)"

definition store_bytes :: "nat \<Rightarrow> u8 list \<Rightarrow> (nat \<Rightarrow> u8) \<Rightarrow> (nat \<Rightarrow> u8)" where
  "store_bytes a bs m = (\<lambda>x. if a \<le> x \<and> x < a + length bs then bs ! (x - a) else m x)"

definition byte_of :: "char \<Rightarrow> u8" where
  "byte_of c = of_nat (of_char c)"

partial_function (option) cstring :: "(nat \<Rightarrow> u8) \<Rightarrow> nat \<Rightarrow> string option" where
  "cstring m a =
     (if m a = 0 then Some []
      else Option.bind (cstring m (a + 1)) (\<lambda>cs. Some (char_of (unat (m a)) # cs)))"

text \<open>\<^verbatim>\<open>serial_putc\<close> and \<^verbatim>\<open>serial_write\<close>: a line feed goes out as carriage return and line feed.\<close>

definition serial_putc :: "u8 \<Rightarrow> u8 list" where
  "serial_putc c = (if c = 0x0A then [0x0D, c] else [c])"

definition serial_write :: "u8 list \<Rightarrow> u8 list \<Rightarrow> u8 list" where
  "serial_write s out = out @ concat (map serial_putc s)"

text \<open>\<^verbatim>\<open>kprintf\<close>: every character of the text goes through \<^verbatim>\<open>serial_putc\<close>.\<close>

definition kprintf :: "string \<Rightarrow> kparg list \<Rightarrow> kernel \<Rightarrow> kernel" where
  "kprintf fmt args k =
     (case kvprintf fmt args of
        Some t \<Rightarrow> k\<lparr>serial := serial_write (map byte_of t) (serial k)\<rparr>
      | None \<Rightarrow> k)"

text \<open>A store through a pointer a user program passed, then the rest of the call.\<close>

definition user_store :: "nat \<Rightarrow> u8 list \<Rightarrow> kernel \<Rightarrow> (kernel \<Rightarrow> outcome) \<Rightarrow> outcome" where
  "user_store a bs k f =
     (if list_ex (\<lambda>i. kobj k (a + i)) [0..<length bs] then Corrupts
      else f (k\<lparr>kmem := store_bytes a bs (kmem k)\<rparr>))"

definition cur_fds :: "kernel \<Rightarrow> file_desc list" where
  "cur_fds k = fds (threads (ksched k) (current (ksched k)))"

definition set_fd :: "nat \<Rightarrow> file_desc \<Rightarrow> kernel \<Rightarrow> kernel" where
  "set_fd i d k =
     (let s = ksched k; t = threads s (current s)
      in k\<lparr>ksched := s\<lparr>threads := (threads s)(current s := t\<lparr>fds := (fds t)[i := d]\<rparr>)\<rparr>\<rparr>)"

definition node_at :: "kernel \<Rightarrow> nat \<Rightarrow> vnode option" where
  "node_at k v = (if v = 0 then None else Some (vnodes (kfs k) v))"

subsection \<open>The handlers\<close>

definition sys_write :: "int \<Rightarrow> nat \<Rightarrow> nat \<Rightarrow> kernel \<Rightarrow> outcome" where
  "sys_write fd buf count k =
     (if fd \<noteq> 1 \<and> fd \<noteq> 2 then Returns (-1) k
      else if buf = 0 then Returns (-1) k
      else Returns (to_i64 count)
             (k\<lparr>serial := serial_write (map (\<lambda>i. kmem k (buf + i)) [0..<count]) (serial k)\<rparr>))"

definition sys_open :: "string option \<Rightarrow> kernel \<Rightarrow> outcome" where
  "sys_open path k =
     (case vfs_lookup (kfs k) path of
        None \<Rightarrow> Returns (-1) k
      | Some v \<Rightarrow>
          (case scan (\<lambda>i. \<not> in_use (cur_fds k ! i)) 3 THREAD_FD_MAX of
             Some i \<Rightarrow> Returns (int i) (set_fd i \<lparr>fd_node = v, fd_offset = 0, in_use = True\<rparr> k)
           | None \<Rightarrow> Returns (-1) k))"

definition sys_close :: "int \<Rightarrow> kernel \<Rightarrow> outcome" where
  "sys_close fd k =
     (if fd < 0 \<or> fd \<ge> int THREAD_FD_MAX then Returns (-1) k
      else if \<not> in_use (cur_fds k ! nat fd) then Returns (-1) k
      else Returns 0 (set_fd (nat fd) closed_fd k))"

definition sys_read :: "nat \<Rightarrow> int \<Rightarrow> nat \<Rightarrow> nat \<Rightarrow> kernel \<Rightarrow> outcome" where
  "sys_read ret fd buf count k =
     (if fd = 0 then
        (if \<not> stdin_has_data (kkbd k) then Waits (k\<lparr>ksched := thread_yield ret (ksched k)\<rparr>)
         else let (cs, q) = stdin_try_read count (kkbd k)
              in user_store buf (map byte_of cs) (k\<lparr>kkbd := q\<rparr>) (Returns (to_i64 (length cs))))
      else if fd < 0 \<or> fd \<ge> int THREAD_FD_MAX then Returns (-1) k
      else if \<not> in_use (cur_fds k ! nat fd) then Returns (-1) k
      else let d = cur_fds k ! nat fd;
               (n, bs) = vfs_read (kmem k) (node_at k (fd_node d)) (fd_offset d) count
           in user_store buf bs k (\<lambda>k1.
                Returns n (if n > 0 then set_fd (nat fd) (d\<lparr>fd_offset := wrap64 (fd_offset d + nat n)\<rparr>) k1 else k1)))"

definition sys_readdir :: "int \<Rightarrow> nat \<Rightarrow> nat \<Rightarrow> kernel \<Rightarrow> outcome" where
  "sys_readdir fd name_buf buf_size k =
     (if fd < 0 \<or> fd \<ge> int THREAD_FD_MAX \<or> buf_size = 0 then Returns (-1) k
      else if \<not> in_use (cur_fds k ! nat fd) then Returns (-1) k
      else let d = cur_fds k ! nat fd
      in case node_at k (fd_node d) of
           None \<Rightarrow> Returns (-1) k
         | Some v \<Rightarrow>
             if vtype v \<noteq> VFS_DIR then Returns (-1) k
             else let idx = fd_offset d
             in if idx \<ge> length (children v) then Returns 0 k
                else let name = vname (vnodes (kfs k) (children v ! idx));
                         len = (if length name \<ge> buf_size then buf_size - 1 else length name)
                     in user_store name_buf (map byte_of (take len name) @ [0]) k (\<lambda>k1.
                          Returns (to_i64 (len + 1)) (set_fd (nat fd) (d\<lparr>fd_offset := idx + 1\<rparr>) k1)))"

text \<open>The reserved display calls fail for every caller; \<^verbatim>\<open>sys_exit\<close> ends the thread.\<close>

definition sys_dsp_stub :: "kernel \<Rightarrow> outcome" where
  "sys_dsp_stub k =
     (let s = ksched k
      in if current s = 0 \<or> \<not> is_user (threads s (current s)) then Returns (-1) k else Returns (-1) k)"

definition sys_exit :: "nat \<Rightarrow> u32 \<Rightarrow> kernel \<Rightarrow> outcome" where
  "sys_exit ret code k =
     (let k1 = kprintf (''[syscall] sys_exit: user thread requested exit (code=%d)'' @ [CHR 0x0A]) [KInt code] k
      in case thread_exit ret (ksched k1) of
           None \<Rightarrow> Diverges
         | Some (Inl msg) \<Rightarrow> Panics msg
         | Some (Inr s) \<Rightarrow> Exits (k1\<lparr>ksched := s\<rparr>))"

definition user_path :: "kernel \<Rightarrow> nat \<Rightarrow> string option option" where
  "user_path k a = (if a = 0 then Some None else map_option Some (cstring (kmem k) a))"

definition syscall_handler :: "nat \<Rightarrow> syscall_frame \<Rightarrow> kernel \<Rightarrow> outcome" where
  "syscall_handler ret f k =
     (let n = f_rax f; a = f_rdi f; b = unat (f_rsi f); c = unat (f_rdx f)
      in if n = 0 then sys_read ret (as_int a) b c k
         else if n = 1 then sys_write (as_int a) b c k
         else if n = 2 then (case user_path k (unat a) of None \<Rightarrow> Diverges | Some p \<Rightarrow> sys_open p k)
         else if n = 3 then sys_close (as_int a) k
         else if n = 89 then sys_readdir (as_int a) b c k
         else if n \<in> {502, 503, 504, 505} then sys_dsp_stub k
         else if n = 60 then sys_exit ret (ucast a) k
         else Returns (-1) (kprintf (''[syscall] unknown number %u'' @ [CHR 0x0A]) [KInt (ucast n)] k))"

text \<open>\<^verbatim>\<open>syscall_dispatch\<close>: the return value replaces \<^verbatim>\<open>rax\<close>, the other registers are kept.  A waiting or exiting
  call does not return here.\<close>

definition syscall_dispatch :: "nat \<Rightarrow> syscall_frame \<Rightarrow> kernel \<Rightarrow> (syscall_frame \<times> kernel) + outcome" where
  "syscall_dispatch ret f k =
     (case syscall_handler ret f k of
        Returns v k' \<Rightarrow> Inl (f\<lparr>f_rax := word_of_int v\<rparr>, k')
      | r \<Rightarrow> Inr r)"

subsection \<open>Lemmas\<close>

text \<open>The running thread has a descriptor table of the right size.\<close>

definition fds_ok :: "kernel \<Rightarrow> bool" where
  "fds_ok k \<longleftrightarrow> length (cur_fds k) = THREAD_FD_MAX"

lemma set_fd_simps [simp]:
  "cur_fds (set_fd i d k) = (cur_fds k)[i := d]" "kfs (set_fd i d k) = kfs k" "kmem (set_fd i d k) = kmem k"
  "kkbd (set_fd i d k) = kkbd k" "kobj (set_fd i d k) = kobj k" "serial (set_fd i d k) = serial k" "current (ksched (set_fd i d k)) = current (ksched k)"
  by (simp_all add: set_fd_def cur_fds_def Let_def)

lemma cur_fds_upd [simp]:
  "cur_fds (k\<lparr>kmem := m\<rparr>) = cur_fds k" "cur_fds (k\<lparr>serial := o'\<rparr>) = cur_fds k" "cur_fds (k\<lparr>kkbd := q\<rparr>) = cur_fds k"
  by (simp_all add: cur_fds_def)

lemma kprintf_simps [simp]:
  "kfs (kprintf fmt args k) = kfs k" "ksched (kprintf fmt args k) = ksched k" "kmem (kprintf fmt args k) = kmem k"
  "kkbd (kprintf fmt args k) = kkbd k" "kobj (kprintf fmt args k) = kobj k"
  by (simp_all add: kprintf_def split: option.split)

text \<open>A buffer that holds no object of the kernel.\<close>

definition user_buffer :: "kernel \<Rightarrow> nat \<Rightarrow> nat \<Rightarrow> bool" where
  "user_buffer k a n \<longleftrightarrow> (\<forall>i < n. \<not> kobj k (a + i))"

lemma user_store_ok:
  "user_buffer k a n \<Longrightarrow> length bs \<le> n \<Longrightarrow> user_store a bs k f = f (k\<lparr>kmem := store_bytes a bs (kmem k)\<rparr>)"
  by (auto simp: user_store_def user_buffer_def list_ex_iff)

lemma set_fd_other:
  "t \<noteq> current (ksched k) \<Longrightarrow> threads (ksched (set_fd i d k)) t = threads (ksched k) t"
  by (simp add: set_fd_def Let_def)

lemma set_fd_same: "i < length (cur_fds k) \<Longrightarrow> cur_fds k ! i = d \<Longrightarrow> set_fd i d k = k"
proof -
  assume "i < length (cur_fds k)" "cur_fds k ! i = d"
  then have "(cur_fds k)[i := d] = cur_fds k" by (metis list_update_id)
  then show ?thesis by (simp add: set_fd_def cur_fds_def Let_def)
qed

lemma set_fd_twice: "set_fd i d (set_fd i e k) = set_fd i d k"
  by (simp add: set_fd_def Let_def)

lemma store_bytes_at: "i < length bs \<Longrightarrow> store_bytes a bs m (a + i) = bs ! i"
  by (simp add: store_bytes_def)

lemma store_name:
  "j < length name \<Longrightarrow> store_bytes buf (map byte_of name @ [0]) m (buf + j) = byte_of (name ! j)"
  "store_bytes buf (map byte_of name @ [0]) m (buf + length name) = 0"
  by (simp_all add: store_bytes_def nth_append)

text \<open>Reading a regular file through a descriptor.\<close>

definition file_fd :: "kernel \<Rightarrow> nat \<Rightarrow> bool" where
  "file_fd k i \<longleftrightarrow> fds_ok k \<and> 0 < i \<and> i < THREAD_FD_MAX
     \<and> (let d = cur_fds k ! i; n = vnodes (kfs k) (fd_node d)
        in in_use d \<and> fd_node d \<noteq> 0 \<and> vtype n = VFS_FILE \<and> vsize n < 2 ^ 63 \<and> fd_offset d \<le> vsize n)"

definition fd_file :: "kernel \<Rightarrow> nat \<Rightarrow> vnode" where
  "fd_file k i = vnodes (kfs k) (fd_node (cur_fds k ! i))"

definition remaining :: "kernel \<Rightarrow> nat \<Rightarrow> u8 list" where
  "remaining k i = drop (fd_offset (cur_fds k ! i)) (content (kmem k) (fd_file k i))"

text \<open>A buffer apart from the bytes of the file.\<close>

definition apart :: "kernel \<Rightarrow> nat \<Rightarrow> nat \<Rightarrow> nat \<Rightarrow> bool" where
  "apart k i buf n \<longleftrightarrow> (let f = fd_file k i in buf + n \<le> vdata f \<or> vdata f + vsize f \<le> buf)"

lemma vfs_read_file:
  assumes "vtype n = VFS_FILE" "offset + count < 2 ^ 64" "vsize n < 2 ^ 63"
  shows "vfs_read m (Some n) offset count =
    (int (length (take count (drop offset (content m n)))), take count (drop offset (content m n)))"
proof -
  let ?c = "if offset + count > vsize n then vsize n - offset else count"
  have "take count (drop offset (content m n)) = map (\<lambda>i. m (vdata n + (offset + i))) [0..<?c]" if "offset < vsize n"
    using that by (auto simp: content_def take_map drop_map list_eq_iff_nth_eq)
  then show ?thesis using assms by (auto simp: vfs_read_def Let_def to_i64_small content_def)
qed

lemma content_store:
  "buf + length bs \<le> vdata n \<or> vdata n + vsize n \<le> buf \<Longrightarrow> content (store_bytes buf bs m) n = content m n"
  by (auto simp: content_def store_bytes_def)

lemma sys_read_file:
  assumes fd: "file_fd k i" and c: "count < 2 ^ 63" and ap: "apart k i buf count" and ub: "user_buffer k buf count"
  shows "\<exists>k'. sys_read ret (int i) buf count k = Returns (int (length (take count (remaining k i)))) k'
    \<and> (\<forall>j < length (take count (remaining k i)). kmem k' (buf + j) = take count (remaining k i) ! j)
    \<and> file_fd k' i \<and> remaining k' i = drop count (remaining k i) \<and> fd_file k' i = fd_file k i \<and> kobj k' = kobj k
    \<and> (\<forall>j \<noteq> i. cur_fds k' ! j = cur_fds k ! j)"
proof -
  let ?d = "cur_fds k ! i" and ?n = "fd_file k i"
  let ?bs = "take count (remaining k i)"
  have d: "length (cur_fds k) = THREAD_FD_MAX" "0 < i" "i < THREAD_FD_MAX" "in_use ?d" "fd_node ?d \<noteq> 0"
    "vtype ?n = VFS_FILE" "vsize ?n < 2 ^ 63" "fd_offset ?d \<le> vsize ?n"
    using fd by (simp_all add: file_fd_def fds_ok_def fd_file_def Let_def)
  have len: "length (content (kmem k) ?n) = vsize ?n" by (simp add: content_def)
  have rd: "vfs_read (kmem k) (node_at k (fd_node ?d)) (fd_offset ?d) count = (int (length ?bs), ?bs)"
    using vfs_read_file [OF d(6) _ d(7), of "fd_offset ?d" count "kmem k"] d c
    by (simp add: node_at_def remaining_def fd_file_def)
  let ?k1 = "k\<lparr>kmem := store_bytes buf ?bs (kmem k)\<rparr>"
  define k' where "k' = (if ?bs = [] then ?k1 else set_fd i (?d\<lparr>fd_offset := fd_offset ?d + length ?bs\<rparr>) ?k1)"
  have b: "fd_offset ?d + length ?bs \<le> vsize ?n" using len d(8) by (simp add: remaining_def)
  then have w: "wrap64 (fd_offset ?d + length ?bs) = fd_offset ?d + length ?bs" using d(7) by simp
  have r: "sys_read ret (int i) buf count k = Returns (int (length ?bs)) k'"
    unfolding k'_def using d rd w user_store_ok [OF ub, of ?bs] by (simp add: sys_read_def Let_def)
  have "length ?bs \<le> count" by simp
  then have cs: "content (store_bytes buf ?bs (kmem k)) ?n = content (kmem k) ?n"
    using ap by (intro content_store) (auto simp: apart_def Let_def)
  have node: "fd_node (cur_fds k' ! i) = fd_node ?d" "fd_offset (cur_fds k' ! i) = fd_offset ?d + length ?bs"
    "in_use (cur_fds k' ! i)" "kfs k' = kfs k" "kmem k' = store_bytes buf ?bs (kmem k)"
    "length (cur_fds k') = THREAD_FD_MAX" "\<forall>j \<noteq> i. cur_fds k' ! j = cur_fds k ! j"
    "kobj k' = kobj k"
    using d by (simp_all add: k'_def)
  have f: "fd_file k' i = ?n" using node(1,4) by (simp add: fd_file_def)
  have "remaining k' i = drop count (remaining k i)"
  proof -
    have "remaining k' i = drop (fd_offset (cur_fds k' ! i)) (content (kmem k') (fd_file k' i))"
      by (simp only: remaining_def)
    also have "\<dots> = drop (fd_offset ?d + length ?bs) (content (kmem k) ?n)" by (simp only: f node(2,5) cs)
    also have "\<dots> = drop (length ?bs) (remaining k i)" by (simp add: remaining_def add.commute)
    also have "\<dots> = drop count (remaining k i)" by (cases "count \<le> length (remaining k i)") simp_all
    finally show ?thesis .
  qed
  moreover have "file_fd k' i"
    using d node(3,6) b f node(1,2,4) unfolding file_fd_def fds_ok_def by (simp add: Let_def fd_file_def)
  moreover have "\<forall>j < length ?bs. kmem k' (buf + j) = ?bs ! j" unfolding node(5) using store_bytes_at by blast
  ultimately show ?thesis using r f node(7,8) by (intro exI [of _ k']) simp
qed

text \<open>A program that reads a file in pieces: requests of a buffer and a count each, the bytes collected.\<close>

fun read_pieces :: "nat \<Rightarrow> nat \<Rightarrow> (nat \<times> nat) list \<Rightarrow> kernel \<Rightarrow> u8 list" where
  "read_pieces ret i [] k = []"
| "read_pieces ret i ((buf, count) # rs) k =
     (case sys_read ret (int i) buf count k of
        Returns n k' \<Rightarrow> map (\<lambda>j. kmem k' (buf + j)) [0..<nat n] @ read_pieces ret i rs k'
      | _ \<Rightarrow> [])"

lemma read_pieces_take:
  "file_fd k i \<Longrightarrow> \<forall>(buf, c) \<in> set rs. c < 2 ^ 63 \<and> apart k i buf c \<and> user_buffer k buf c \<Longrightarrow>
    read_pieces ret i rs k = take (sum_list (map snd rs)) (remaining k i)"
proof (induction rs arbitrary: k)
  case (Cons r rs)
  obtain buf c where r: "r = (buf, c)" by (cases r)
  have c: "c < 2 ^ 63" "apart k i buf c" "user_buffer k buf c" using Cons.prems(2) r by auto
  obtain k' where k': "sys_read ret (int i) buf c k = Returns (int (length (take c (remaining k i)))) k'"
    "\<forall>j < length (take c (remaining k i)). kmem k' (buf + j) = take c (remaining k i) ! j"
    "file_fd k' i" "remaining k' i = drop c (remaining k i)" "fd_file k' i = fd_file k i" "kobj k' = kobj k"
    using sys_read_file [OF Cons.prems(1) c] by blast
  have "map (\<lambda>j. kmem k' (buf + j)) [0..<length (take c (remaining k i))] = take c (remaining k i)"
    using k'(2) by (intro nth_equalityI) simp_all
  moreover have "\<forall>(buf, c) \<in> set rs. c < 2 ^ 63 \<and> apart k' i buf c \<and> user_buffer k' buf c"
    using Cons.prems(2) k'(5,6) by (auto simp: apart_def user_buffer_def)
  ultimately show ?case using k'(1,4) Cons.IH [OF k'(3)] by (simp add: r take_add)
qed simp

subsection \<open>An example kernel\<close>

definition example_kernel :: kernel where
  "example_kernel = \<lparr>ksched = example_sched, kfs = example_tree, kmem = (\<lambda>a. of_nat a), kkbd = empty_kbd, serial = [],
     kobj = (\<lambda>a. 8 \<le> a \<and> a < 0x80)\<rparr>"

definition example_open :: kernel where
  "example_open = set_fd 3 \<lparr>fd_node = 24, fd_offset = 0, in_use = True\<rparr> example_kernel"

lemma example_fds: "cur_fds example_kernel = replicate THREAD_FD_MAX closed_fd"
  by (simp add: cur_fds_def example_kernel_def example_sched_def sched_init_def)

lemma example_file_fd: "file_fd example_open 3" "fd_file example_open 3 = vnodes example_tree 24"
  by (simp_all add: file_fd_def fds_ok_def fd_file_def example_open_def example_fds)
    (simp_all add: example_kernel_def example_tree_def)

subsection \<open>Correctness of the system calls\<close>

text \<open>\<^verbatim>\<open>sys_open\<close> of a path that resolves takes the lowest free descriptor from 3 on and records the node at
  offset 0; closing that descriptor gives back the state before.  A path that does not resolve, or a full
  table, yields -1 and changes nothing.\<close>

theorem sys_open_close:
  assumes "fds_ok k" and "\<And>i. i < THREAD_FD_MAX \<Longrightarrow> \<not> in_use (cur_fds k ! i) \<Longrightarrow> cur_fds k ! i = closed_fd"
  shows "case vfs_lookup (kfs k) path of
      None \<Rightarrow> sys_open path k = Returns (-1) k
    | Some v \<Rightarrow>
        if \<forall>i \<in> {3..<THREAD_FD_MAX}. in_use (cur_fds k ! i) then sys_open path k = Returns (-1) k
        else \<exists>i k'. sys_open path k = Returns (int i) k' \<and> 3 \<le> i \<and> i < THREAD_FD_MAX
               \<and> \<not> in_use (cur_fds k ! i) \<and> (\<forall>j \<in> {3..<i}. in_use (cur_fds k ! j))
               \<and> cur_fds k' = (cur_fds k)[i := \<lparr>fd_node = v, fd_offset = 0, in_use = True\<rparr>]
               \<and> sys_close (int i) k' = Returns 0 k"
proof (cases "vfs_lookup (kfs k) path")
  case None
  then show ?thesis by (simp add: sys_open_def)
next
  case (Some v)
  show ?thesis
  proof (cases "scan (\<lambda>i. \<not> in_use (cur_fds k ! i)) 3 THREAD_FD_MAX")
    case None
    then have "\<forall>i \<in> {3..<THREAD_FD_MAX}. in_use (cur_fds k ! i)" by (auto simp: scan_None)
    then show ?thesis using Some None by (simp add: sys_open_def)
  next
    case (Some i)
    let ?d = "\<lparr>fd_node = v, fd_offset = 0, in_use = True\<rparr>"
    have i: "3 \<le> i" "i < THREAD_FD_MAX" "\<not> in_use (cur_fds k ! i)" "\<forall>j \<in> {3..<i}. in_use (cur_fds k ! j)"
      using scan_Some [OF Some] by auto
    have len: "i < length (cur_fds k)" using i(2) assms(1) by (simp add: fds_ok_def)
    have "sys_close (int i) (set_fd i ?d k) = Returns 0 (set_fd i closed_fd k)"
      using i(2) len by (simp add: sys_close_def set_fd_twice)
    moreover have "set_fd i closed_fd k = k" using set_fd_same [OF len] assms(2) [OF i(2,3)] by simp
    moreover have "\<not> (\<forall>i \<in> {3..<THREAD_FD_MAX}. in_use (cur_fds k ! i))" using i by auto
    ultimately show ?thesis using i Some \<open>vfs_lookup (kfs k) path = Some v\<close>
      by (simp add: sys_open_def)
  qed
qed

theorem sys_open_close_witness:
  "\<exists>k'. sys_open (Some ''/etc/motd'') example_kernel = Returns 3 k' \<and> sys_close 3 k' = Returns 0 example_kernel"
proof -
  have lk: "vfs_lookup (kfs example_kernel) (Some ''/etc/motd'') = Some 24"
    by (simp add: vfs_lookup_def lookup_from.simps take_seg_def child_named_def example_kernel_def example_tree_def)
  have c: "cur_fds example_kernel ! i = closed_fd" if "i < THREAD_FD_MAX" for i using that by (simp add: example_fds)
  have "\<exists>i k'. sys_open (Some ''/etc/motd'') example_kernel = Returns (int i) k' \<and> 3 \<le> i \<and> i < THREAD_FD_MAX
      \<and> (\<forall>j \<in> {3..<i}. in_use (cur_fds example_kernel ! j)) \<and> sys_close (int i) k' = Returns 0 example_kernel"
    using sys_open_close [of example_kernel "Some ''/etc/motd''"] lk c
    by (auto simp: fds_ok_def example_fds closed_fd_def split: if_splits)
  then obtain i k' where i: "sys_open (Some ''/etc/motd'') example_kernel = Returns (int i) k'" "3 \<le> i" "i < THREAD_FD_MAX"
    "\<forall>j \<in> {3..<i}. in_use (cur_fds example_kernel ! j)" "sys_close (int i) k' = Returns 0 example_kernel" by blast
  have "\<not> in_use (cur_fds example_kernel ! 3)" by (simp add: example_fds closed_fd_def)
  then have "i = 3" using i(2,4) by (metis atLeastLessThan_iff le_neq_implies_less order_refl)
  then show ?thesis using i by auto
qed

text \<open>Reading a file descriptor in pieces, into buffers that overlap neither the file's bytes nor kernel objects, yields the
  remaining content in order: whatever the piece sizes, the bytes collected are the next bytes of the file,
  up to the sum of the counts or the end of the file.\<close>

theorem sys_read_pieces:
  assumes "file_fd k i" and "\<forall>(buf, c) \<in> set rs. c < 2 ^ 63 \<and> apart k i buf c \<and> user_buffer k buf c"
  shows "read_pieces ret i rs k = take (sum_list (map snd rs)) (remaining k i)"
  using assms by (rule read_pieces_take)

theorem sys_read_pieces_witness:
  "read_pieces 0 3 [(0x100, 2), (0x200, 9)] example_open = [0, 1, 2, 3, 4]"
proof -
  have ap: "\<forall>(buf, c) \<in> set [(0x100, 2), (0x200, 9)]. c < 2 ^ 63 \<and> apart example_open 3 buf c \<and> user_buffer example_open buf c"
    by (simp add: apart_def example_file_fd(2) Let_def) (simp add: example_tree_def user_buffer_def example_open_def example_kernel_def)
  have "remaining example_open 3 = [0, 1, 2, 3, 4]"
    unfolding remaining_def example_file_fd(2)
    by (simp add: content_def example_open_def example_fds) (simp add: example_kernel_def example_tree_def upt_rec)
  then show ?thesis using sys_read_pieces [OF example_file_fd(1) ap, of 0] by simp
qed

lemma not_newline: "c \<noteq> CHR 0x0A \<Longrightarrow> serial_putc (byte_of c) = [byte_of c]"
proof -
  assume "c \<noteq> CHR 0x0A"
  moreover have "c = CHR 0x0A" if "byte_of c = 0x0A"
  proof -
    have "(of_char c :: nat) < 256" by simp
    then have "(of_char c :: nat) = 10" using that by (simp add: byte_of_def word_unat_eq_iff unsigned_of_nat take_bit_eq_mod)
    then have "(of_char c :: nat) = of_char (CHR 0x0A)" by simp
    then show ?thesis by (simp only: of_char_eq_iff)
  qed
  ultimately show ?thesis by (auto simp: serial_putc_def)
qed

lemma unknown_text:
  "kprintf (''[syscall] unknown number %u'' @ [CHR 0x0A]) [KInt w] k =
     k\<lparr>serial := serial k @ map byte_of (''[syscall] unknown number '' @ numeral_text 10 False (unat w)) @ [0x0D, 0x0A]\<rparr>"
proof -
  let ?t = "''[syscall] unknown number '' @ numeral_text 10 False (unat w)"
  have u: "utoa (unat w) 10 False = numeral_text 10 False (unat w)"
    using utoa_text [of 10 "unat w" False] unsigned_less [of w, where ?'a = nat] by simp
  have k: "kvprintf (''[syscall] unknown number %u'' @ [CHR 0x0A]) [KInt w] = Some (?t @ [CHR 0x0A])"
    by (simp add: parse_pad_def is_digit_def convert_def emit_padded_def u)
  have "CHR 0x0A \<notin> set ?t" using utoa_no_newline [of 10 "unat w" False] u by simp
  then have "concat (map serial_putc (map byte_of ?t)) = map byte_of ?t"
    unfolding map_map comp_def
    by (subst map_cong [OF refl, of _ _ "\<lambda>c. [byte_of c]"]) (metis not_newline, simp add: concat_map_singleton)
  moreover have "serial_putc (byte_of (CHR 0x0A)) = [0x0D, 0x0A]" by (simp add: serial_putc_def byte_of_def)
  ultimately show ?thesis unfolding kprintf_def k by (simp add: serial_write_def)
qed

text \<open>C36: Error paths.  On a descriptor that is negative, past the table or not open, \<^verbatim>\<open>sys_read\<close> (other than of
  descriptor 0), \<^verbatim>\<open>sys_close\<close> and \<^verbatim>\<open>sys_readdir\<close> return -1 and change nothing; so do \<^verbatim>\<open>sys_write\<close> to anything but
  descriptors 1 and 2, and the reserved display calls.  Every unknown call number returns -1 as well and changes nothing
  but the serial output, which receives one line with the low 32 bits of the number in decimal.\<close>

theorem syscall_errors:
  "(fd < 0 \<or> fd \<ge> int THREAD_FD_MAX \<or> \<not> in_use (cur_fds k ! nat fd) \<longrightarrow>
      (fd \<noteq> 0 \<longrightarrow> sys_read ret fd buf n k = Returns (-1) k) \<and> sys_close fd k = Returns (-1) k
      \<and> sys_readdir fd buf n k = Returns (-1) k)
   \<and> (fd \<noteq> 1 \<and> fd \<noteq> 2 \<longrightarrow> sys_write fd buf n k = Returns (-1) k)
   \<and> (f_rax f \<in> {502, 503, 504, 505} \<longrightarrow> syscall_dispatch ret f k = Inl (f\<lparr>f_rax := -1\<rparr>, k))
   \<and> (f_rax f \<notin> {0, 1, 2, 3, 60, 89, 502, 503, 504, 505} \<longrightarrow>
        syscall_dispatch ret f k = Inl (f\<lparr>f_rax := -1\<rparr>,
          k\<lparr>serial := serial k @ map byte_of (''[syscall] unknown number '' @
              numeral_text 10 False (unat (f_rax f) mod 2 ^ 32)) @ [0x0D, 0x0A]\<rparr>))"
proof -
  have "unat (ucast (f_rax f) :: u32) = unat (f_rax f) mod 2 ^ 32" by (simp add: unsigned_ucast_eq take_bit_eq_mod)
  then show ?thesis
    by (auto simp: sys_read_def sys_close_def sys_readdir_def sys_write_def syscall_dispatch_def syscall_handler_def
        sys_dsp_stub_def unknown_text [simplified] Let_def)
qed

theorem syscall_errors_witness:
  "sys_read 0 7 0x100 4 example_kernel = Returns (-1) example_kernel
   \<and> sys_write 5 0x100 4 example_kernel = Returns (-1) example_kernel
   \<and> syscall_dispatch 0 \<lparr>f_r10 = 0, f_r9 = 0, f_r8 = 0, f_rdx = 0, f_rsi = 0, f_rdi = 0, f_rax = 502\<rparr> example_kernel
       = Inl (\<lparr>f_r10 = 0, f_r9 = 0, f_r8 = 0, f_rdx = 0, f_rsi = 0, f_rdi = 0, f_rax = -1\<rparr>, example_kernel)"
  using syscall_errors [of 7 example_kernel 0 "0x100" 4] syscall_errors [of 5 example_kernel 0 "0x100" 4]
    syscall_errors [of 5 example_kernel 0 0 0 "\<lparr>f_r10 = 0, f_r9 = 0, f_r8 = 0, f_rdx = 0, f_rsi = 0, f_rdi = 0, f_rax = 502\<rparr>"]
  by (simp add: example_fds closed_fd_def)

lemma set_fd_isolated:
  "kfs (set_fd i d k) = kfs k \<and> current (ksched (set_fd i d k)) = current (ksched k)
   \<and> (\<forall>t. (threads (ksched (set_fd i d k)) t)\<lparr>fds := []\<rparr> = (threads (ksched k) t)\<lparr>fds := []\<rparr>)
   \<and> (\<forall>t. t \<noteq> current (ksched k) \<longrightarrow> threads (ksched (set_fd i d k)) t = threads (ksched k) t)"
  by (simp add: set_fd_def Let_def)

lemma user_store_Returns:
  assumes "user_store a bs k f = Returns v k'"
  shows "f (k\<lparr>kmem := store_bytes a bs (kmem k)\<rparr>) = Returns v k' \<and> (\<forall>i < length bs. \<not> kobj k (a + i))"
  using assms by (auto simp: user_store_def list_ex_iff split: if_splits)

lemma vfs_read_length: "vfs_read m n off count = (r, bs) \<Longrightarrow> length bs \<le> count"
proof -
  have "wrap64 (off + count) \<le> off + count" by (simp add: wrap64_def)
  then show "vfs_read m n off count = (r, bs) \<Longrightarrow> length bs \<le> count"
    by (auto simp: vfs_read_def Let_def split: if_splits option.splits)
qed

lemma stdin_length: "stdin_try_read n q = (cs, q') \<Longrightarrow> length cs \<le> n"
  by (induction n q arbitrary: cs q' rule: stdin_try_read.induct) (auto simp: Let_def split: if_splits prod.splits)

text \<open>What one call may change: the descriptor table of the caller, and memory inside the buffer it was given.\<close>

definition confined :: "nat \<Rightarrow> nat \<Rightarrow> kernel \<Rightarrow> kernel \<Rightarrow> bool" where
  "confined buf n k k' \<longleftrightarrow>
     kfs k' = kfs k \<and> kobj k' = kobj k \<and> current (ksched k') = current (ksched k)
     \<and> (\<forall>t. (threads (ksched k') t)\<lparr>fds := []\<rparr> = (threads (ksched k) t)\<lparr>fds := []\<rparr>)
     \<and> (\<forall>t. t \<noteq> current (ksched k) \<longrightarrow> threads (ksched k') t = threads (ksched k) t)
     \<and> (\<forall>x. kmem k' x \<noteq> kmem k x \<longrightarrow> buf \<le> x \<and> x < buf + n \<and> \<not> kobj k x)"

lemma confined_refl: "kfs k' = kfs k \<Longrightarrow> ksched k' = ksched k \<Longrightarrow> kmem k' = kmem k \<Longrightarrow> kobj k' = kobj k \<Longrightarrow> confined buf n k k'"
  by (simp add: confined_def)

lemma confined_set_fd: "confined buf n k k' \<Longrightarrow> confined buf n k (set_fd i d k')"
  using set_fd_isolated [of i d k'] by (simp add: confined_def)

lemma confined_store:
  assumes "user_store buf bs k1 f = Returns v k'" "length bs \<le> n" "kfs k1 = kfs k" "ksched k1 = ksched k"
    "kmem k1 = kmem k" "kobj k1 = kobj k"
  shows "f (k1\<lparr>kmem := store_bytes buf bs (kmem k1)\<rparr>) = Returns v k' \<and> confined buf n k (k1\<lparr>kmem := store_bytes buf bs (kmem k1)\<rparr>)"
proof -
  have s: "f (k1\<lparr>kmem := store_bytes buf bs (kmem k1)\<rparr>) = Returns v k'" "\<forall>i < length bs. \<not> kobj k1 (buf + i)"
    using user_store_Returns [OF assms(1)] by simp_all
  have "buf \<le> x \<and> x < buf + n \<and> \<not> kobj k x" if "store_bytes buf bs (kmem k) x \<noteq> kmem k x" for x
  proof -
    have x: "buf \<le> x" "x < buf + length bs" using that by (auto simp: store_bytes_def split: if_splits)
    then have "\<not> kobj k1 (buf + (x - buf))" using s(2) by (metis add_less_cancel_left le_add_diff_inverse)
    then show ?thesis using x assms(2,6) by simp
  qed
  then show ?thesis using s(1) assms(3-6) by (simp add: confined_def)
qed

lemma sys_read_confined:
  assumes "sys_read ret fd buf n k = Returns v k'"
  shows "confined buf n k k'"
proof (cases "fd = 0")
  case True
  obtain cs q where t: "stdin_try_read n (kkbd k) = (cs, q)" by force
  then have "user_store buf (map byte_of cs) (k\<lparr>kkbd := q\<rparr>) (Returns (to_i64 (length cs))) = Returns v k'"
    using assms True by (simp add: sys_read_def split: if_splits)
  from confined_store [OF this, of n k] stdin_length [OF t] show ?thesis by auto
next
  case False
  let ?d = "cur_fds k ! nat fd"
  obtain r bs where t: "vfs_read (kmem k) (node_at k (fd_node ?d)) (fd_offset ?d) n = (r, bs)" by force
  show ?thesis
  proof (cases "fd < 0 \<or> fd \<ge> int THREAD_FD_MAX \<or> \<not> in_use ?d")
    case True
    then show ?thesis using assms False by (auto simp: sys_read_def intro: confined_refl split: if_splits)
  next
    case valid: False
    then have "user_store buf bs k (\<lambda>k1. Returns r (if r > 0
        then set_fd (nat fd) (?d\<lparr>fd_offset := wrap64 (fd_offset ?d + nat r)\<rparr>) k1 else k1)) = Returns v k'"
      using assms False t by (simp add: sys_read_def Let_def)
    from confined_store [OF this, of n k] vfs_read_length [OF t] show ?thesis
      by (auto intro: confined_set_fd split: if_splits)
  qed
qed

lemma sys_readdir_confined:
  assumes "sys_readdir fd buf n k = Returns v k'"
  shows "confined buf n k k'"
proof (cases "k' = k")
  case False
  let ?d = "cur_fds k ! nat fd"
  from assms False obtain nd where nd: "\<not> (fd < 0 \<or> fd \<ge> int THREAD_FD_MAX \<or> n = 0)" "in_use ?d"
    "node_at k (fd_node ?d) = Some nd" "vtype nd = VFS_DIR" "\<not> fd_offset ?d \<ge> length (children nd)"
    by (auto simp: sys_readdir_def Let_def split: if_splits option.splits)
  let ?name = "vname (vnodes (kfs k) (children nd ! fd_offset ?d))"
  let ?len = "if length ?name \<ge> n then n - 1 else length ?name"
  have u: "user_store buf (map byte_of (take ?len ?name) @ [0]) k (\<lambda>k1.
      Returns (to_i64 (?len + 1)) (set_fd (nat fd) (?d\<lparr>fd_offset := fd_offset ?d + 1\<rparr>) k1)) = Returns v k'"
    using assms nd by (simp add: sys_readdir_def Let_def)
  have "length (map byte_of (take ?len ?name) @ [0]) \<le> n" using nd(1) by auto
  from confined_store [OF u this] show ?thesis by (auto intro: confined_set_fd)
qed (simp add: confined_refl)

lemma user_store_Corrupts:
  "user_store a bs k f = Corrupts \<Longrightarrow> f (k\<lparr>kmem := store_bytes a bs (kmem k)\<rparr>) \<noteq> Corrupts \<Longrightarrow> length bs \<le> n \<Longrightarrow>
     \<exists>i < n. kobj k (a + i)"
  by (auto simp: user_store_def list_ex_iff split: if_splits) (meson less_le_trans)

lemma sys_read_corrupts: "sys_read ret fd buf n k = Corrupts \<Longrightarrow> \<exists>i < n. kobj k (buf + i)"
  by (auto simp: sys_read_def Let_def split: if_splits prod.splits
      dest!: user_store_Corrupts [where n = n] dest: stdin_length vfs_read_length)

lemma sys_readdir_corrupts: "sys_readdir fd buf n k = Corrupts \<Longrightarrow> \<exists>i < n. kobj k (buf + i)"
  by (auto simp: sys_readdir_def Let_def split: if_splits option.splits dest!: user_store_Corrupts [where n = n])

text \<open>C5: What a system call can reach.  A call that returns leaves the file tree, the run queue and the control block of
  every other thread as they were, in its own control block changes nothing but the descriptor table, and in memory
  only bytes of the buffer it was given, at most as many as the length argument says, and only if it is a read or a
  readdir.  The code does not check the pointer: a call destroys an object of the kernel only if it is one of these
  two and the buffer it was given overlaps the object.\<close>

theorem syscall_isolation:
  shows "(\<forall>f' k'. syscall_dispatch ret f k = Inl (f', k') \<longrightarrow>
      kfs k' = kfs k \<and> current (ksched k') = current (ksched k)
      \<and> (\<forall>t. (threads (ksched k') t)\<lparr>fds := []\<rparr> = (threads (ksched k) t)\<lparr>fds := []\<rparr>)
      \<and> (\<forall>t. t \<noteq> current (ksched k) \<longrightarrow> threads (ksched k') t = threads (ksched k) t)
      \<and> (\<forall>x. kmem k' x \<noteq> kmem k x \<longrightarrow> f_rax f \<in> {0, 89} \<and> unat (f_rsi f) \<le> x \<and> x < unat (f_rsi f) + unat (f_rdx f)
            \<and> \<not> kobj k x)
      \<and> f_rdi f' = f_rdi f \<and> f_rsi f' = f_rsi f \<and> f_rdx f' = f_rdx f)
    \<and> (syscall_dispatch ret f k = Inr Corrupts \<longrightarrow>
        f_rax f \<in> {0, 89} \<and> (\<exists>i < unat (f_rdx f). kobj k (unat (f_rsi f) + i)))"
proof (intro conjI [of "\<forall>f'. P f'" for P] allI impI)
  fix f' k' assume a: "syscall_dispatch ret f k = Inl (f', k')"
  obtain v where h: "syscall_handler ret f k = Returns v k'" and f: "f' = f\<lparr>f_rax := word_of_int v\<rparr>"
    using a by (auto simp: syscall_dispatch_def split: outcome.splits)
  let ?b = "unat (f_rsi f)" and ?n = "unat (f_rdx f)"
  have "confined ?b ?n k k' \<and> (f_rax f \<notin> {0, 89} \<longrightarrow> kmem k' = kmem k)"
  proof (cases "f_rax f \<in> {0, 89}")
    case True
    then show ?thesis using h sys_read_confined [of ret "as_int (f_rdi f)" ?b ?n k v k']
      sys_readdir_confined [of "as_int (f_rdi f)" ?b ?n k v k'] by (auto simp: syscall_handler_def Let_def)
  next
    case False
    have "confined ?b ?n k k" by (rule confined_refl) simp_all
    with False show ?thesis using h
      by (auto simp: syscall_handler_def sys_write_def sys_open_def sys_close_def sys_dsp_stub_def sys_exit_def Let_def
          intro: confined_refl confined_set_fd split: if_splits option.splits sum.splits)
  qed
  then show "kfs k' = kfs k \<and> current (ksched k') = current (ksched k)
      \<and> (\<forall>t. (threads (ksched k') t)\<lparr>fds := []\<rparr> = (threads (ksched k) t)\<lparr>fds := []\<rparr>)
      \<and> (\<forall>t. t \<noteq> current (ksched k) \<longrightarrow> threads (ksched k') t = threads (ksched k) t)
      \<and> (\<forall>x. kmem k' x \<noteq> kmem k x \<longrightarrow> f_rax f \<in> {0, 89} \<and> ?b \<le> x \<and> x < ?b + ?n \<and> \<not> kobj k x)
      \<and> f_rdi f' = f_rdi f \<and> f_rsi f' = f_rsi f \<and> f_rdx f' = f_rdx f"
    using f unfolding confined_def by (metis (no_types, lifting) syscall_frame.select_convs syscall_frame.surjective syscall_frame.update_convs(7))
next
  assume "syscall_dispatch ret f k = Inr Corrupts"
  then have h: "syscall_handler ret f k = Corrupts" by (simp add: syscall_dispatch_def split: outcome.splits)
  show "f_rax f \<in> {0, 89} \<and> (\<exists>i < unat (f_rdx f). kobj k (unat (f_rsi f) + i))"
    using h sys_read_corrupts [of ret "as_int (f_rdi f)" "unat (f_rsi f)" "unat (f_rdx f)" k]
      sys_readdir_corrupts [of "as_int (f_rdi f)" "unat (f_rsi f)" "unat (f_rdx f)" k]
    by (auto simp: syscall_handler_def sys_write_def sys_open_def sys_close_def sys_dsp_stub_def sys_exit_def Let_def
        split: if_splits option.splits sum.splits)
qed

theorem syscall_isolation_witness:
  "\<exists>f' k'. syscall_dispatch 0 \<lparr>f_r10 = 0, f_r9 = 0, f_r8 = 0, f_rdx = 0, f_rsi = 0, f_rdi = 3, f_rax = 3\<rparr> example_open = Inl (f', k')
     \<and> kfs k' = kfs example_open"
proof -
  let ?f = "\<lparr>f_r10 = 0, f_r9 = 0, f_r8 = 0, f_rdx = 0, f_rsi = 0, f_rdi = 3, f_rax = 3\<rparr> :: syscall_frame"
  have "\<exists>f' k'. syscall_dispatch 0 ?f example_open = Inl (f', k')"
    by (simp add: syscall_dispatch_def syscall_handler_def sys_close_def as_int_def Let_def)
  then obtain f' k' where d: "syscall_dispatch 0 ?f example_open = Inl (f', k')" by blast
  then show ?thesis using syscall_isolation [of 0 ?f example_open] by blast
qed

text \<open>\<^verbatim>\<open>sys_readdir\<close> enumerates a directory: with the descriptor at entry \<open>i\<close> it stores the terminated name of
  the \<open>i\<close>-th child (cut to the buffer), returns its length with the terminator and moves on to the next
  entry; past the last child it returns 0 and changes nothing.\<close>

theorem sys_readdir_enumerates:
  assumes "fds_ok k" and "0 \<le> fd" and "fd < int THREAD_FD_MAX" and "0 < buf_size"
    and "in_use (cur_fds k ! nat fd)" and "fd_node (cur_fds k ! nat fd) \<noteq> 0"
    and "vtype (vnodes (kfs k) (fd_node (cur_fds k ! nat fd))) = VFS_DIR"
    and "\<And>v. length (vname (vnodes (kfs k) v)) < VFS_NAME_MAX" and "user_buffer k buf buf_size"
  shows "let cs = children (vnodes (kfs k) (fd_node (cur_fds k ! nat fd))); i = fd_offset (cur_fds k ! nat fd);
             name = take (buf_size - 1) (vname (vnodes (kfs k) (cs ! i)))
    in if length cs \<le> i then sys_readdir fd buf buf_size k = Returns 0 k
       else \<exists>k'. sys_readdir fd buf buf_size k = Returns (int (length name + 1)) k'
          \<and> (\<forall>j < length name. kmem k' (buf + j) = byte_of (name ! j)) \<and> kmem k' (buf + length name) = 0
          \<and> cur_fds k' = (cur_fds k)[nat fd := (cur_fds k ! nat fd)\<lparr>fd_offset := i + 1\<rparr>]"
proof -
  let ?d = "cur_fds k ! nat fd"
  let ?cs = "children (vnodes (kfs k) (fd_node ?d))" and ?i = "fd_offset ?d"
  let ?full = "vname (vnodes (kfs k) (?cs ! ?i))"
  let ?name = "take (buf_size - 1) ?full"
  have n: "node_at k (fd_node ?d) = Some (vnodes (kfs k) (fd_node ?d))" using assms(6) by (simp add: node_at_def)
  show ?thesis
  proof (cases "length ?cs \<le> ?i")
    case True
    then show ?thesis using assms(2-7) n by (simp add: sys_readdir_def Let_def)
  next
    case False
    let ?len = "if length ?full \<ge> buf_size then buf_size - 1 else length ?full"
    have l: "take ?len ?full = ?name" "?len = length ?name" using assms(4) by auto
    let ?bytes = "map byte_of ?name @ [0]"
    let ?k = "set_fd (nat fd) (?d\<lparr>fd_offset := ?i + 1\<rparr>) (k\<lparr>kmem := store_bytes buf ?bytes (kmem k)\<rparr>)"
    have "length ?name + 1 < 2 ^ 63" using assms(8) [of "?cs ! ?i"] by simp
    moreover have "user_store buf ?bytes k f = f (k\<lparr>kmem := store_bytes buf ?bytes (kmem k)\<rparr>)" for f
      by (rule user_store_ok [OF assms(9)]) (use assms(4) in simp)
    ultimately have "sys_readdir fd buf buf_size k = Returns (int (length ?name + 1)) ?k"
      using assms(2-7) n False l to_i64_small unfolding sys_readdir_def Let_def by auto
    moreover have "kmem ?k (buf + j) = byte_of (?name ! j)" if "j < length ?name" for j
      using store_name(1) [OF that, of buf "kmem k"] by simp
    moreover have "kmem ?k (buf + length ?name) = 0"
      using store_name(2) [of buf ?name "kmem k"] by simp
    ultimately show ?thesis using False unfolding Let_def by (simp only: if_False) (intro exI [of _ ?k], simp)
  qed
qed

theorem sys_readdir_enumerates_witness:
  "\<exists>k'. sys_readdir 3 0x100 16 (set_fd 3 \<lparr>fd_node = 16, fd_offset = 0, in_use = True\<rparr> example_kernel) = Returns 5 k'
     \<and> kmem k' 0x100 = 0x6D \<and> kmem k' 0x104 = 0"
proof -
  let ?k = "set_fd 3 \<lparr>fd_node = 16, fd_offset = 0, in_use = True\<rparr> example_kernel"
  have c: "cur_fds ?k ! 3 = \<lparr>fd_node = 16, fd_offset = 0, in_use = True\<rparr>" by (simp add: example_fds)
  have names: "length (vname (vnodes (kfs ?k) v)) < VFS_NAME_MAX" for v by (simp add: example_kernel_def example_tree_def)
  have ub: "user_buffer ?k 0x100 16" by (simp add: user_buffer_def example_kernel_def)
  have v: "children (vnodes (kfs ?k) 16) = [24]" "vname (vnodes (kfs ?k) 24) = ''motd''" "vtype (vnodes (kfs ?k) 16) = VFS_DIR"
    by (simp_all add: example_kernel_def example_tree_def)
  have "\<exists>k'. sys_readdir 3 0x100 16 ?k = Returns (int (length (take 15 ''motd'') + 1)) k'
      \<and> (\<forall>j < length (take 15 ''motd''). kmem k' (0x100 + j) = byte_of (take 15 ''motd'' ! j))
      \<and> kmem k' (0x100 + length (take 15 ''motd'')) = 0"
    using sys_readdir_enumerates [of ?k 3 16 "0x100"] c v names ub by (simp add: fds_ok_def example_fds) blast
  then obtain k' where k': "sys_readdir 3 0x100 16 ?k = Returns 5 k'"
    "\<forall>j < 4. kmem k' (0x100 + j) = byte_of (''motd'' ! j)" "kmem k' 0x104 = 0" by auto
  from k'(2) have "kmem k' 0x100 = byte_of (''motd'' ! 0)" by (metis add_0_right zero_less_numeral)
  then show ?thesis using k' by (intro exI [of _ k']) (simp add: byte_of_def)
qed

text \<open>No call looks at the pointer it was given: a read of a file that has a byte left, into a buffer that begins in an
  object of the kernel, overwrites the object.\<close>

theorem sys_read_unchecked:
  assumes "file_fd k i" and "count < 2 ^ 63" and "0 < count" and "remaining k i \<noteq> []" and "kobj k buf"
  shows "sys_read ret (int i) buf count k = Corrupts"
proof -
  let ?d = "cur_fds k ! i" and ?n = "fd_file k i"
  have d: "0 < i" "i < THREAD_FD_MAX" "in_use ?d" "fd_node ?d \<noteq> 0" "vtype ?n = VFS_FILE" "vsize ?n < 2 ^ 63"
    "fd_offset ?d \<le> vsize ?n"
    using assms(1) by (simp_all add: file_fd_def fds_ok_def fd_file_def Let_def)
  have rd: "vfs_read (kmem k) (node_at k (fd_node ?d)) (fd_offset ?d) count =
      (int (length (take count (remaining k i))), take count (remaining k i))"
    using vfs_read_file [OF d(5) _ d(6), of "fd_offset ?d" count "kmem k"] d assms(2)
    by (simp add: node_at_def remaining_def fd_file_def)
  have "0 < length (take count (remaining k i))" using assms(3,4) by simp
  then have "list_ex (\<lambda>j. kobj k (buf + j)) [0..<length (take count (remaining k i))]"
    using assms(5) by (force simp: list_ex_iff intro: bexI [of _ 0])
  then show ?thesis using d rd by (simp add: sys_read_def user_store_def Let_def)
qed

theorem sys_read_unchecked_witness: "sys_read 0 3 0x10 4 example_open = Corrupts"
proof -
  have "remaining example_open 3 \<noteq> []"
    unfolding remaining_def example_file_fd(2)
    by (simp add: content_def example_open_def example_fds) (simp add: example_kernel_def example_tree_def upt_rec)
  moreover have "kobj example_open 0x10" by (simp add: example_open_def example_kernel_def)
  ultimately show ?thesis using sys_read_unchecked [OF example_file_fd(1), of 4 "0x10" 0] by simp
qed

end
