(* ===== verification/Tar.thy ===== *)
theory Tar
  imports Vfs
begin

text \<open>
  The USTAR reader, \<^verbatim>\<open>src/fs/tar.c\<close>, which splices the entries of an archive in memory into the tree of
  \<open>Vfs\<close>, and the location of the boot module in \<^verbatim>\<open>src/fs/initrd.c\<close>.  New vnodes come from the kernel heap,
  so an insertion can end in a panic of the heap.  The second part states when the tree is well-formed
  and shows that what was inserted under a path is what \<open>vfs_lookup\<close> finds there.
\<close>

subsection \<open>Inserting paths\<close>

definition add_child :: "nat \<Rightarrow> nat \<Rightarrow> string \<Rightarrow> vtype \<Rightarrow> fs \<Rightarrow> (nat option \<times> fs) result option" where
  "add_child root p seg ty s =
     (case kmalloc root SIZEOF_VNODE (fs_heap s) of
        None \<Rightarrow> None
      | Some (Inl msg) \<Rightarrow> Some (Inl msg)
      | Some (Inr (c, h)) \<Rightarrow>
          if c = 0 then Some (Inr (None, s\<lparr>fs_heap := h\<rparr>))
          else let m1 = (vnodes s)(c := \<lparr>vname = vfs_copy_name VFS_NAME_MAX seg, vtype = ty, vdata = 0, vsize = 0,
                                         parent = p, children = []\<rparr>);
                   m2 = m1(p := (m1 p)\<lparr>children := c # children (m1 p)\<rparr>)
               in Some (Inr (Some c, s\<lparr>fs_heap := h, vnodes := m2\<rparr>)))"

fun strip_dot_slash :: "string \<Rightarrow> string" where
  "strip_dot_slash (a # b # cs) = (if a = CHR ''.'' \<and> b = CHR ''/'' then strip_dot_slash cs else a # b # cs)"
| "strip_dot_slash p = p"

definition strip_path :: "string \<Rightarrow> string" where
  "strip_path path = dropWhile (\<lambda>c. c = CHR ''/'') (strip_dot_slash path)"

text \<open>What happens to the node of the last segment of a file's path.\<close>

definition set_leaf :: "nat \<Rightarrow> nat \<Rightarrow> nat \<Rightarrow> fs \<Rightarrow> fs" where
  "set_leaf v d n s = s\<lparr>vnodes := (vnodes s)(v := (vnodes s v)\<lparr>vdata := d, vsize := n\<rparr>)\<rparr>"

definition retype_file :: "nat \<Rightarrow> fs \<Rightarrow> fs" where
  "retype_file v s = s\<lparr>vnodes := (vnodes s)(v := (vnodes s v)\<lparr>vtype := VFS_FILE\<rparr>)\<rparr>"

function walk_from :: "nat \<Rightarrow> nat \<Rightarrow> string \<Rightarrow> vtype \<Rightarrow> nat \<Rightarrow> nat \<Rightarrow> fs \<Rightarrow> (nat option \<times> fs) result option" where
  "walk_from root cur path leaf_type leaf_data leaf_size s =
     (if path = [] then Some (Inr (Some cur, s))
      else let (seg, rest) = take_seg path; is_last = (rest = [])
      in if seg = [] then walk_from root cur rest leaf_type leaf_data leaf_size s
         else let seg_type = (if is_last then leaf_type else VFS_DIR)
         in case (case child_named s cur seg of
                    None \<Rightarrow> add_child root cur seg seg_type s
                  | Some c \<Rightarrow> Some (Inr (Some c, if is_last \<and> seg_type = VFS_FILE then retype_file c s else s))) of
              None \<Rightarrow> None
            | Some (Inl msg) \<Rightarrow> Some (Inl msg)
            | Some (Inr (None, s1)) \<Rightarrow> Some (Inr (None, s1))
            | Some (Inr (Some c, s1)) \<Rightarrow>
                walk_from root c rest leaf_type leaf_data leaf_size
                  (if is_last \<and> leaf_type = VFS_FILE then set_leaf c leaf_data leaf_size s1 else s1))"
  by pat_completeness auto
termination
  by (relation "measure (\<lambda>(root, cur, path, t, d, n, s). length path)") (auto dest: take_seg_shorter)

declare walk_from.simps [simp del]

definition walk_or_make :: "nat \<Rightarrow> string \<Rightarrow> vtype \<Rightarrow> nat \<Rightarrow> nat \<Rightarrow> fs \<Rightarrow> (nat option \<times> fs) result option" where
  "walk_or_make root path leaf_type leaf_data leaf_size s =
     (let p = strip_path path
      in if p = [] then Some (Inr (None, s)) else walk_from root (root_node s) p leaf_type leaf_data leaf_size s)"

subsection \<open>Reading an archive\<close>

text \<open>A C string in memory, at most \<open>n\<close> characters of it.\<close>

fun cstr :: "(nat \<Rightarrow> u8) \<Rightarrow> nat \<Rightarrow> nat \<Rightarrow> string" where
  "cstr mem a 0 = []"
| "cstr mem a (Suc n) = (if mem a = 0 then [] else char_of (unat (mem a)) # cstr mem (Suc a) n)"

fun oct_parse :: "(nat \<Rightarrow> u8) \<Rightarrow> nat \<Rightarrow> nat \<Rightarrow> nat \<Rightarrow> nat" where
  "oct_parse mem a 0 v = v"
| "oct_parse mem a (Suc n) v =
     (if mem a = 0 \<or> mem a = 0x20 then v
      else oct_parse mem (Suc a) n
        (if 0x30 \<le> mem a \<and> mem a \<le> 0x37 then wrap64 (v * 8 + (unat (mem a) - 0x30)) else v))"

definition full_path :: "(nat \<Rightarrow> u8) \<Rightarrow> nat \<Rightarrow> string" where
  "full_path mem h =
     (if mem (h + 345) \<noteq> 0
      then let pre = cstr mem (h + 345) 154 @ ''/'' in pre @ cstr mem h (255 - length pre)
      else cstr mem h 255)"

definition mount_entry :: "nat \<Rightarrow> u8 \<Rightarrow> string \<Rightarrow> nat \<Rightarrow> nat \<Rightarrow> fs \<Rightarrow> fs result option" where
  "mount_entry root ty path d n s =
     (if ty = 0x30 \<or> ty = 0 then map_option (map_sum id snd) (walk_or_make root path VFS_FILE d n s)
      else if ty = 0x35 then map_option (map_sum id snd) (walk_or_make root path VFS_DIR 0 0 s)
      else Some (Inr s))"

definition next_header :: "nat \<Rightarrow> nat \<Rightarrow> nat" where
  "next_header off n = wrap64 (off + (512 + wrap64 (n + 511) div 512 * 512))"

partial_function (option) tar_loop ::
    "nat \<Rightarrow> (nat \<Rightarrow> u8) \<Rightarrow> nat \<Rightarrow> nat \<Rightarrow> nat \<Rightarrow> nat \<Rightarrow> nat \<Rightarrow> fs \<Rightarrow> (nat \<times> nat \<times> fs) result option" where
  "tar_loop root mem base len off files dirs s =
     (if wrap64 (off + 512) \<le> len \<and> mem (base + off) \<noteq> 0
      then let h = base + off; n = oct_parse mem (h + 124) 12 0; ty = mem (h + 156)
        in case mount_entry root ty (full_path mem h) (h + 512) n s of
             None \<Rightarrow> None
           | Some (Inl msg) \<Rightarrow> Some (Inl msg)
           | Some (Inr s1) \<Rightarrow>
               tar_loop root mem base len (next_header off n)
                 (if ty = 0x30 \<or> ty = 0 then files + 1 else files)
                 (if ty = 0x35 then dirs + 1 else dirs) s1
      else Some (Inr (files, dirs, s)))"

definition tar_mount :: "nat \<Rightarrow> (nat \<Rightarrow> u8) \<Rightarrow> nat \<Rightarrow> nat \<Rightarrow> fs \<Rightarrow> (nat \<times> nat \<times> fs) result option" where
  "tar_mount root mem base len s = tar_loop root mem base len 0 0 0 s"

text \<open>\<^verbatim>\<open>initrd_init\<close>: the modules the boot loader reports (address and size each), if it answered; the result
  is the return code and the recorded image.\<close>

definition initrd_init :: "(nat \<times> nat) list option \<Rightarrow> nat \<times> nat \<Rightarrow> nat \<times> nat \<times> nat" where
  "initrd_init modules old =
     (case modules of
        None \<Rightarrow> (1, old)
      | Some [] \<Rightarrow> (1, old)
      | Some ((a, n) # _) \<Rightarrow> if a \<noteq> 0 then (0, a, n) else (1, a, n))"

subsection \<open>Well-formed trees\<close>

text \<open>\<open>R\<close> are the addresses of all vnodes, \<open>d\<close> their depth in the tree.  All but the static root are
  regions of the kernel heap.\<close>

definition fs_ok :: "fs \<Rightarrow> nat set \<Rightarrow> (nat \<Rightarrow> nat) \<Rightarrow> bool" where
  "fs_ok s R d \<longleftrightarrow> root_node s \<in> R \<and> (\<exists>bs. heap_ok (fs_heap s) bs)
     \<and> (\<forall>v \<in> R. v < KHEAP_BASE \<or> (\<exists>k. (v, k) \<in> heap_live (fs_heap s)))
     \<and> (\<forall>v \<in> R. \<forall>c \<in> set (children (vnodes s v)). c \<in> R \<and> d c = Suc (d v))"

text \<open>Along the path, what exists already is a directory.\<close>

fun spine :: "fs \<Rightarrow> nat \<Rightarrow> string list \<Rightarrow> bool" where
  "spine s v [] \<longleftrightarrow> True"
| "spine s v (x # xs) \<longleftrightarrow> vtype (vnodes s v) = VFS_DIR
     \<and> (case child_named s v x of None \<Rightarrow> True | Some c \<Rightarrow> spine s c xs)"

definition fs_room :: "nat \<Rightarrow> fs \<Rightarrow> bool" where
  "fs_room n s \<longleftrightarrow> heap_end (fs_heap s) + Suc n * 0x10000 < 2 ^ 64"

text \<open>Every child that was found is still found.\<close>

definition grown :: "nat set \<Rightarrow> fs \<Rightarrow> fs \<Rightarrow> bool" where
  "grown R s s' \<longleftrightarrow> (\<forall>v \<in> R. \<forall>x c. child_named s v x = Some c \<longrightarrow> child_named s' v x = Some c)"

lemma fs_heap_room: "fs_room n s \<Longrightarrow> heap_room SIZEOF_VNODE (fs_heap s) \<and> grow_bytes (block_need SIZEOF_VNODE) = 0x10000"
  by (simp add: fs_room_def heap_room_def block_need_def grow_bytes_def)

lemma add_child_ok:
  assumes ok: "fs_ok s R d" and p: "p \<in> R" and room: "fs_room (Suc n) s"
    and a: "add_child root p seg ty s = Some (Inr (r, s'))"
  shows "\<exists>c. r = Some c \<and> c \<notin> R \<and> fs_ok s' (insert c R) (d(c := Suc (d p))) \<and> fs_room n s'
    \<and> root_node s' = root_node s \<and> vnodes s' = (vnodes s)(
        c := \<lparr>vname = vfs_copy_name VFS_NAME_MAX seg, vtype = ty, vdata = 0, vsize = 0, parent = p, children = []\<rparr>,
        p := (vnodes s p)\<lparr>children := c # children (vnodes s p)\<rparr>)"
proof -
  obtain bs where bs: "heap_ok (fs_heap s) bs" using ok by (auto simp: fs_ok_def)
  note hr = fs_heap_room [OF room]
  obtain c h where k: "kmalloc root SIZEOF_VNODE (fs_heap s) = Some (Inr (c, h))"
    using a by (auto simp: add_child_def split: option.splits sum.splits)
  have inv: "\<exists>bs. heap_ok (fs_heap s) bs" using bs by blast
  obtain l where l: "heap_live h = insert (c, l) (heap_live (fs_heap s))" "(c, l) \<notin> heap_live (fs_heap s)" "\<exists>bs. heap_ok h bs"
    using kheap.alloc_region [OF inv _ _ k] hr by auto
  have he: "heap_end h \<le> heap_end (fs_heap s) + 0x10000" using kmalloc_heap_end [OF bs _ _ k] hr by simp
  have c: "KHEAP_BASE + HDR \<le> c" using heap_live_bounds(1) [of c l h] l(1) by simp
  have "c \<notin> R"
  proof
    assume "c \<in> R"
    then obtain k where "(c, k) \<in> heap_live (fs_heap s)" using ok c by (force simp: fs_ok_def)
    then show False using kheap.regions_unique [OF l(3), of c l k] l(1,2) by auto
  qed
  then have cp: "c \<noteq> p" using p by blast
  let ?m = "(vnodes s)(
        c := \<lparr>vname = vfs_copy_name VFS_NAME_MAX seg, vtype = ty, vdata = 0, vsize = 0, parent = p, children = []\<rparr>,
        p := (vnodes s p)\<lparr>children := c # children (vnodes s p)\<rparr>)"
  have r: "r = Some c" "s' = s\<lparr>fs_heap := h, vnodes := ?m\<rparr>"
    using a k c cp by (auto simp: add_child_def Let_def split: if_splits)
  have "fs_ok s' (insert c R) (d(c := Suc (d p)))"
    unfolding fs_ok_def
  proof (intro conjI ballI)
    show "root_node s' \<in> insert c R" "\<exists>bs. heap_ok (fs_heap s') bs" using ok l(3) by (simp_all add: fs_ok_def r)
  next
    fix v assume "v \<in> insert c R"
    then show "v < KHEAP_BASE \<or> (\<exists>k. (v, k) \<in> heap_live (fs_heap s'))" using ok l(1) by (auto simp: fs_ok_def r)
  next
    fix v e assume v: "v \<in> insert c R" and e: "e \<in> set (children (vnodes s' v))"
    show "e \<in> insert c R" "(d(c := Suc (d p))) e = Suc ((d(c := Suc (d p))) v)"
      using v e ok p cp \<open>c \<notin> R\<close> by (auto simp: fs_ok_def r split: if_splits)
  qed
  moreover have "fs_room n s'" using room he by (simp add: fs_room_def r)
  ultimately show ?thesis using \<open>c \<notin> R\<close> by (intro exI [of _ c]) (simp add: r)
qed

lemma child_named_in: "child_named s v x = Some c \<Longrightarrow> c \<in> set (children (vnodes s v)) \<and> vname (vnodes s c) = x"
  by (auto simp: child_named_def find_Some_iff)

lemma find_cong_set: "(\<And>x. x \<in> set xs \<Longrightarrow> P x = Q x) \<Longrightarrow> List.find P xs = List.find Q xs"
  by (induction xs) auto

lemma child_named_add:
  assumes ok: "fs_ok s R d" and v: "v \<in> R" and c: "c \<notin> R" and p: "p \<in> R" and new: "child_named s p seg = None"
    and n: "n = \<lparr>vname = seg, vtype = ty, vdata = 0, vsize = 0, parent = p, children = []\<rparr>"
    and m: "vnodes s' = (vnodes s)(c := n, p := (vnodes s p)\<lparr>children := c # children (vnodes s p)\<rparr>)"
  shows "child_named s' v x = (if v = p \<and> x = seg then Some c else child_named s v x)"
proof -
  have names: "vname (vnodes s' e) = vname (vnodes s e)" if "e \<in> R" for e
    using that c by (auto simp: m)
  have ch: "set (children (vnodes s v)) \<subseteq> R" using ok v by (auto simp: fs_ok_def)
  have old: "List.find (\<lambda>c. vname (vnodes s' c) = x) (children (vnodes s v)) = child_named s v x"
    unfolding child_named_def using names ch by (intro find_cong_set) auto
  have "vname (vnodes s' c) = seg" "children (vnodes s' v) = (if v = p then c # children (vnodes s v) else children (vnodes s v))"
    using c p v by (auto simp: m n)
  then have "child_named s' v x = (if v = p \<and> x = seg then Some c
      else List.find (\<lambda>c. vname (vnodes s' c) = x) (children (vnodes s v)))"
    by (simp add: child_named_def [of s'])
  then show ?thesis by (simp only: old)
qed

lemma child_named_update:
  assumes "vnodes s' = (vnodes s)(w := u)" "vname u = vname (vnodes s w)" "children u = children (vnodes s w)"
  shows "child_named s' v x = child_named s v x"
proof -
  have "children (vnodes s' v) = children (vnodes s v)" "vname (vnodes s' e) = vname (vnodes s e)" for e
    using assms by auto
  then show ?thesis by (simp add: child_named_def)
qed

lemma fs_ok_update:
  assumes "fs_ok s R d" "vnodes s' = (vnodes s)(w := u)" "children u = children (vnodes s w)"
    "root_node s' = root_node s" "fs_heap s' = fs_heap s"
  shows "fs_ok s' R d"
proof -
  have "children (vnodes s' v) = children (vnodes s v)" for v using assms(2,3) by auto
  then show ?thesis using assms by (simp add: fs_ok_def)
qed

text \<open>What a successful walk has done: the target, below the start, and nothing else changed but additions.\<close>

definition walked :: "nat set \<Rightarrow> (nat \<Rightarrow> nat) \<Rightarrow> fs \<Rightarrow> nat \<Rightarrow> string list \<Rightarrow> nat \<Rightarrow> fs \<Rightarrow> bool" where
  "walked R d s cur xs v s' \<longleftrightarrow>
     (\<exists>R' d'. fs_ok s' R' d' \<and> R \<subseteq> R' \<and> v \<in> R' \<and> (\<forall>u \<in> R. d' u = d u) \<and> d' v = d cur + length xs)
   \<and> root_node s' = root_node s \<and> grown R s s' \<and> resolve s' cur xs = Some v
   \<and> (\<forall>u \<in> R. u \<noteq> v \<longrightarrow> vtype (vnodes s' u) = vtype (vnodes s u))
   \<and> (v \<in> R \<longrightarrow> resolve s cur xs = Some v)"

lemma walk_last:
  assumes ok: "fs_ok s R d" and cur: "cur \<in> R" "vtype (vnodes s cur) = VFS_DIR" and x: "clean_seg x"
    and room: "fs_room 1 s"
    and w: "walk_from root cur x VFS_FILE dt n s = Some (Inr (r, s'))"
  shows "\<exists>v. r = Some v \<and> walked R d s cur [x] v s' \<and> vtype (vnodes s' v) = VFS_FILE
    \<and> vdata (vnodes s' v) = dt \<and> vsize (vnodes s' v) = n"
proof -
  have seg: "take_seg x = (x, [])" "x \<noteq> []" "vfs_copy_name VFS_NAME_MAX x = x"
    using take_seg_join [OF x, of "[]"] x by (auto simp: clean_seg_def vfs_copy_name_def)
  have nil: "walk_from root v [] t a b z = Some (Inr (Some v, z))" for v t a b z by (simp add: walk_from.simps)
  show ?thesis
  proof (cases "child_named s cur x")
    case None
    obtain r1 s1 where a: "add_child root cur x VFS_FILE s = Some (Inr (r1, s1))"
      using w None seg by (subst (asm) walk_from.simps) (auto split: option.splits sum.splits)
    from add_child_ok [OF ok cur(1) _ a, of 0] room obtain c where c: "r1 = Some c" "c \<notin> R"
      "fs_ok s1 (insert c R) (d(c := Suc (d cur)))" "root_node s1 = root_node s"
      and m: "vnodes s1 = (vnodes s)(c := \<lparr>vname = x, vtype = VFS_FILE, vdata = 0, vsize = 0, parent = cur, children = []\<rparr>,
        cur := (vnodes s cur)\<lparr>children := c # children (vnodes s cur)\<rparr>)" by (auto simp: seg(3))
    have s': "r = Some c" "s' = set_leaf c dt n s1"
      using w None seg a c(1) nil by (subst (asm) walk_from.simps, simp)+
    have cc: "c \<noteq> cur" using c(2) cur(1) by blast
    have u: "vnodes s' = (vnodes s1)(c := (vnodes s1 c)\<lparr>vdata := dt, vsize := n\<rparr>)" by (simp add: s'(2) set_leaf_def)
    have cn: "child_named s' v y = (if v = cur \<and> y = x then Some c else child_named s v y)" if "v \<in> R" for v y
      using child_named_update [OF u] child_named_add [OF ok that c(2) cur(1) None refl m] by simp
    have "fs_ok s' (insert c R) (d(c := Suc (d cur)))"
      by (rule fs_ok_update [OF c(3) u]) (simp_all add: s'(2) set_leaf_def)
    moreover have "resolve s' cur [x] = Some c" using cn [OF cur(1)] cur(2) cc by (simp add: u m)
    moreover have "grown R s s'" using cn None by (auto simp: grown_def)
    moreover have "\<forall>u \<in> R. vtype (vnodes s' u) = vtype (vnodes s u)" using c(2) by (auto simp: u m)
    ultimately have "walked R d s cur [x] c s'"
      unfolding walked_def using c(2,4) s'(2)
      by (intro conjI exI [of _ "insert c R"] exI [of _ "d(c := Suc (d cur))"]) (auto simp: set_leaf_def)
    then show ?thesis using s'(1) cc by (simp add: u m)
  next
    case (Some c)
    have s': "r = Some c" "s' = set_leaf c dt n (retype_file c s)"
      using w Some seg nil by (subst (asm) walk_from.simps, simp)+
    have u: "vnodes s' = (vnodes s)(c := (vnodes s c)\<lparr>vtype := VFS_FILE, vdata := dt, vsize := n\<rparr>)"
      by (auto simp: s'(2) set_leaf_def retype_file_def)
    have cR: "c \<in> R" "d c = Suc (d cur)" using child_named_in [OF Some] ok cur(1) by (auto simp: fs_ok_def)
    then have cc: "c \<noteq> cur" by auto
    have cn: "child_named s' v y = child_named s v y" for v y by (rule child_named_update [OF u]) simp_all
    have "fs_ok s' R d" by (rule fs_ok_update [OF ok u]) (simp_all add: s'(2) set_leaf_def retype_file_def)
    moreover have "resolve s' cur [x] = Some c" using cn Some cur(2) cc by (simp add: u)
    ultimately have "walked R d s cur [x] c s'"
      unfolding walked_def using cn cR Some cur(2) s'(2)
      by (intro conjI exI [of _ R] exI [of _ d]) (auto simp: u grown_def set_leaf_def retype_file_def)
    then show ?thesis using s'(1) by (simp add: u)
  qed
qed

lemma grown_resolve:
  assumes ok: "fs_ok s R d" and g: "grown R s s'"
    and t: "\<And>u. u \<in> R \<Longrightarrow> vtype (vnodes s u) = VFS_DIR \<Longrightarrow> vtype (vnodes s' u) = VFS_DIR"
  shows "v \<in> R \<Longrightarrow> resolve s v ys = Some u \<Longrightarrow> resolve s' v ys = Some u"
proof (induction ys arbitrary: v)
  case (Cons y ys)
  obtain c where c: "vtype (vnodes s v) = VFS_DIR" "child_named s v y = Some c" "resolve s c ys = Some u"
    using Cons.prems(2) by (auto split: if_splits option.splits)
  have "c \<in> R" using child_named_in [OF c(2)] ok Cons.prems(1) by (auto simp: fs_ok_def)
  then show ?case using Cons.IH c Cons.prems(1) t g by (auto simp: grown_def)
qed simp

lemma grown_trans: "grown R s s1 \<Longrightarrow> grown R' s1 s' \<Longrightarrow> R \<subseteq> R' \<Longrightarrow> grown R s s'"
  by (auto simp: grown_def)

text \<open>One step of the walk to a sub-directory, found or created.\<close>

lemma walk_step:
  assumes ok: "fs_ok s R d" and cur: "cur \<in> R" "vtype (vnodes s cur) = VFS_DIR" and x: "clean_seg x" "xs \<noteq> []"
    and xs: "list_all clean_seg xs" and room: "fs_room (Suc k) s" and sp: "spine s cur (x # xs)"
    and w: "walk_from root cur (join (x # xs)) VFS_FILE dt n s = Some (Inr (r, s'))"
  shows "\<exists>c s1 R1 d1. walk_from root c (join xs) VFS_FILE dt n s1 = Some (Inr (r, s'))
    \<and> fs_ok s1 R1 d1 \<and> R \<subseteq> R1 \<and> c \<in> R1 \<and> (\<forall>u \<in> R. d1 u = d u) \<and> d1 c = Suc (d cur)
    \<and> root_node s1 = root_node s \<and> grown R s s1 \<and> child_named s1 cur x = Some c \<and> fs_room k s1
    \<and> (\<forall>u \<in> R. vtype (vnodes s1 u) = vtype (vnodes s u)) \<and> spine s1 c xs
    \<and> (c \<in> R \<longrightarrow> s1 = s) \<and> (c \<notin> R \<longrightarrow> (\<forall>y. child_named s1 c y = None))"
proof -
  obtain y ys where y: "xs = y # ys" "clean_seg y" using x(2) xs by (cases xs) auto
  have seg: "take_seg (join (x # xs)) = (x, join xs)" "join xs \<noteq> []" "x \<noteq> []" "vfs_copy_name VFS_NAME_MAX x = x"
    "join (x # xs) \<noteq> []"
    using take_seg_join [OF x(1), of xs] join_nonempty [OF y(2), of ys] join_nonempty [OF x(1), of xs] x(1)
    by (simp_all only: y(1)) (simp_all add: clean_seg_def vfs_copy_name_def)
  show ?thesis
  proof (cases "child_named s cur x")
    case None
    obtain r1 s1 where a: "add_child root cur x VFS_DIR s = Some (Inr (r1, s1))"
      using w None seg by (subst (asm) walk_from.simps) (auto split: option.splits sum.splits)
    from add_child_ok [OF ok cur(1) room a] obtain c where c: "r1 = Some c" "c \<notin> R"
      "fs_ok s1 (insert c R) (d(c := Suc (d cur)))" "root_node s1 = root_node s" "fs_room k s1"
      and m: "vnodes s1 = (vnodes s)(c := \<lparr>vname = x, vtype = VFS_DIR, vdata = 0, vsize = 0, parent = cur, children = []\<rparr>,
        cur := (vnodes s cur)\<lparr>children := c # children (vnodes s cur)\<rparr>)" by (auto simp: seg(4))
    have cc: "c \<noteq> cur" using c(2) cur(1) by blast
    have cn: "child_named s1 v y = (if v = cur \<and> y = x then Some c else child_named s v y)" if "v \<in> R" for v y
      by (rule child_named_add [OF ok that c(2) cur(1) None refl m])
    have empty: "child_named s1 c y = None" for y using cc by (simp add: child_named_def m)
    have "walk_from root c (join xs) VFS_FILE dt n s1 = Some (Inr (r, s'))"
      using w None seg a c(1) by (subst (asm) walk_from.simps) simp
    moreover have "spine s1 c xs" using empty cc by (simp add: y(1) m)
    ultimately show ?thesis
      using c cn None empty cc cur(1)
      by (intro exI [of _ c] exI [of _ s1] exI [of _ "insert c R"] exI [of _ "d(c := Suc (d cur))"])
        (auto simp: grown_def m)
  next
    case (Some c)
    have cR: "c \<in> R" "d c = Suc (d cur)" using child_named_in [OF Some] ok cur(1) by (auto simp: fs_ok_def)
    have "walk_from root c (join xs) VFS_FILE dt n s = Some (Inr (r, s'))"
      using w Some seg by (subst (asm) walk_from.simps) simp
    moreover have "fs_room k s" using room by (simp add: fs_room_def)
    ultimately show ?thesis
      using cR ok Some sp by (intro exI [of _ c] exI [of _ s] exI [of _ R] exI [of _ d]) (simp add: grown_def)
  qed
qed

lemma walk_correct:
  assumes "fs_ok s R d" "cur \<in> R" "list_all clean_seg xs" "xs \<noteq> []" "fs_room (length xs) s" "spine s cur xs"
    "walk_from root cur (join xs) VFS_FILE dt n s = Some (Inr (r, s'))"
  shows "\<exists>v. r = Some v \<and> walked R d s cur xs v s' \<and> vtype (vnodes s' v) = VFS_FILE
    \<and> vdata (vnodes s' v) = dt \<and> vsize (vnodes s' v) = n"
  using assms
proof (induction xs arbitrary: s R d cur)
  case (Cons x xs)
  have dir: "vtype (vnodes s cur) = VFS_DIR" and x: "clean_seg x" using Cons.prems(3,6) by auto
  show ?case
  proof (cases "xs = []")
    case True
    then show ?thesis using walk_last [OF Cons.prems(1,2) dir x] Cons.prems(5,7) by simp
  next
    case False
    have ls: "list_all clean_seg xs" and rm: "fs_room (Suc (length xs)) s" using Cons.prems(3,5) by simp_all
    from walk_step [OF Cons.prems(1,2) dir x False ls rm Cons.prems(6,7)]
    obtain c s1 R1 d1 where st: "walk_from root c (join xs) VFS_FILE dt n s1 = Some (Inr (r, s'))"
      "fs_ok s1 R1 d1" "R \<subseteq> R1" "c \<in> R1" "\<forall>u \<in> R. d1 u = d u" "d1 c = Suc (d cur)"
      "root_node s1 = root_node s" "grown R s s1" "child_named s1 cur x = Some c" "fs_room (length xs) s1"
      "\<forall>u \<in> R. vtype (vnodes s1 u) = vtype (vnodes s u)" "spine s1 c xs"
      "c \<in> R \<longrightarrow> s1 = s" "c \<notin> R \<longrightarrow> (\<forall>y. child_named s1 c y = None)" by blast
    obtain v where v: "r = Some v" "walked R1 d1 s1 c xs v s'" "vtype (vnodes s' v) = VFS_FILE"
      "vdata (vnodes s' v) = dt" "vsize (vnodes s' v) = n"
      using Cons.IH [OF st(2,4) ls False st(10,12,1)] by blast
    obtain R' d' where R': "fs_ok s' R' d'" "R1 \<subseteq> R'" "v \<in> R'" "\<forall>u \<in> R1. d' u = d1 u" "d' v = d1 c + length xs"
      using v(2) by (auto simp: walked_def)
    have cur1: "cur \<in> R1" using Cons.prems(2) st(3) by blast
    have "d' v \<noteq> d' cur" using R'(4,5) st(5,6) cur1 Cons.prems(2) by simp
    then have vc: "v \<noteq> cur" by blast
    have g: "grown R1 s1 s'" "\<forall>u \<in> R1. u \<noteq> v \<longrightarrow> vtype (vnodes s' u) = vtype (vnodes s1 u)"
      "resolve s' c xs = Some v" "root_node s' = root_node s1" "v \<in> R1 \<longrightarrow> resolve s1 c xs = Some v"
      using v(2) by (simp_all add: walked_def)
    have "child_named s' cur x = Some c" using g(1) st(9) cur1 by (simp add: grown_def)
    then have res: "resolve s' cur (x # xs) = Some v" using g(2,3) vc cur1 Cons.prems(2) st(11) dir by simp
    have "resolve s cur (x # xs) = Some v" if "v \<in> R"
    proof -
      have r1: "resolve s1 c xs = Some v" using that st(3) g(5) by blast
      then have "c \<in> R" using st(14) False by (cases xs) (auto split: if_splits)
      then show ?thesis using st(9,13) dir r1 by simp
    qed
    then have "walked R d s cur (x # xs) v s'"
      unfolding walked_def using R' st res g grown_trans [OF st(8) g(1) st(3)]
      by (intro conjI exI [of _ R'] exI [of _ d']) auto
    then show ?thesis using v by blast
  qed
qed simp

subsection \<open>Insertion terminates\<close>

lemma add_child_returns: "fs_ok s R d \<Longrightarrow> fs_room n s \<Longrightarrow> add_child root p seg ty s \<noteq> None"
  using kheap.alloc_returns [of "fs_heap s" SIZEOF_VNODE root] fs_heap_room [of n s]
  by (auto simp: add_child_def fs_ok_def Let_def split: option.splits sum.splits)

lemma walk_returns:
  assumes "fs_ok s R d" "cur \<in> R" "list_all clean_seg xs" "fs_room (length xs) s" "spine s cur xs"
  shows "walk_from root cur (join xs) VFS_FILE dt n s \<noteq> None"
  using assms
proof (induction xs arbitrary: s R d cur)
  case Nil
  then show ?case by (simp add: walk_from.simps)
next
  case (Cons x xs)
  have x: "clean_seg x" and dir: "vtype (vnodes s cur) = VFS_DIR" using Cons.prems by auto
  show ?case
  proof (rule notI)
    assume none: "walk_from root cur (join (x # xs)) VFS_FILE dt n s = None"
    have seg: "take_seg (join (x # xs)) = (x, join xs)" "x \<noteq> []" "join (x # xs) \<noteq> []"
      "vfs_copy_name VFS_NAME_MAX x = x"
      using take_seg_join [OF x, of xs] join_nonempty [OF x, of xs] x by (simp_all add: clean_seg_def vfs_copy_name_def)
    show False
    proof (cases "child_named s cur x")
      case None
      let ?ty = "if join xs = [] then VFS_FILE else VFS_DIR"
      obtain z where z: "add_child root cur x ?ty s = Some z" using add_child_returns [OF Cons.prems(1,4)] by blast
      then obtain r1 s1 where a: "add_child root cur x ?ty s = Some (Inr (r1, s1))"
        using none None seg by (subst (asm) walk_from.simps) (auto split: sum.splits option.splits)
      have rm: "fs_room (Suc (length xs)) s" using Cons.prems(4) by simp
      obtain c where c: "r1 = Some c" "c \<notin> R" "fs_ok s1 (insert c R) (d(c := Suc (d cur)))" "fs_room (length xs) s1"
        and m: "vnodes s1 = (vnodes s)(c := \<lparr>vname = x, vtype = ?ty, vdata = 0, vsize = 0, parent = cur, children = []\<rparr>,
          cur := (vnodes s cur)\<lparr>children := c # children (vnodes s cur)\<rparr>)"
        using add_child_ok [OF Cons.prems(1,2) rm a] by (auto simp: seg(4))
      show False
      proof (cases "xs = []")
        case True
        then show False using none None seg a c(1) by (subst (asm) walk_from.simps) (simp add: walk_from.simps)
      next
        case False
        then obtain y ys where y: "xs = y # ys" by (cases xs) auto
        have j: "join xs \<noteq> []" using join_nonempty [of y ys] Cons.prems(3) y by simp
        have "c \<noteq> cur" using c(2) Cons.prems(2) by blast
        then have "spine s1 c xs" using j by (simp add: y m child_named_def)
        moreover have "walk_from root c (join xs) VFS_FILE dt n s1 = None"
          using none None seg a c(1) j by (subst (asm) walk_from.simps) simp
        ultimately show False using Cons.IH [OF c(3), of c] Cons.prems(3) c(4) by simp
      qed
    next
      case (Some c)
      have cR: "c \<in> R" using child_named_in [OF Some] Cons.prems(1,2) by (auto simp: fs_ok_def)
      show False
      proof (cases "join xs = []")
        case True
        then show False using none Some seg by (subst (asm) walk_from.simps) (simp add: walk_from.simps)
      next
        case False
        then have "walk_from root c (join xs) VFS_FILE dt n s = None"
          using none Some seg by (subst (asm) walk_from.simps) simp
        moreover have "fs_room (length xs) s" "spine s c xs" using Cons.prems(4,5) Some by (simp_all add: fs_room_def)
        ultimately show False using Cons.IH [OF Cons.prems(1) cR] Cons.prems(3) by simp
      qed
    qed
  qed
qed

lemma strip_join:
  assumes "list_all clean_seg xs" "xs \<noteq> []" "hd xs \<noteq> ''.''"
  shows "strip_path (join xs) = join xs" "join xs \<noteq> []"
proof -
  obtain x ys where xs: "xs = x # ys" using assms(2) by (cases xs) auto
  have x: "clean_seg x" "x \<noteq> ''.''" using assms xs by auto
  obtain a as where a: "x = a # as" "a \<noteq> CHR ''/''" using x(1) by (cases x) (auto simp: clean_seg_def)
  have j: "join xs = a # as @ (if ys = [] then [] else CHR ''/'' # join ys)" by (cases ys) (simp_all add: xs a(1))
  have "strip_dot_slash (join xs) = join xs"
  proof (cases "as @ (if ys = [] then [] else CHR ''/'' # join ys)")
    case Nil
    then show ?thesis by (simp add: j)
  next
    case (Cons b bs)
    have "\<not> (a = CHR ''.'' \<and> b = CHR ''/'')"
      using Cons x a by (cases as) (auto simp: clean_seg_def)
    then show ?thesis unfolding j Cons by auto
  qed
  then show "strip_path (join xs) = join xs" using a(2) by (simp add: strip_path_def j)
  show "join xs \<noteq> []" by (simp add: j)
qed

subsection \<open>The octal size field\<close>

fun oct_digits :: "nat \<Rightarrow> nat \<Rightarrow> u8 list" where
  "oct_digits 0 n = []"
| "oct_digits (Suc k) n = oct_digits k (n div 8) @ [of_nat (0x30 + n mod 8)]"

lemma oct_digits_length [simp]: "length (oct_digits k n) = k"
  by (induction k arbitrary: n) auto

lemma oct_byte: "b < 8 \<Longrightarrow> unat (of_nat (0x30 + b) :: u8) = 0x30 + b"
  unfolding unat_of_nat by simp

lemma oct_parse_digits:
  assumes "\<And>i. i < k \<Longrightarrow> mem (a + i) = oct_digits k n ! i" "v * 8 ^ k + n < 2 ^ 64" "n < 8 ^ k"
  shows "oct_parse mem a (k + j) v = oct_parse mem (a + k) j (v * 8 ^ k + n)"
  using assms
proof (induction k arbitrary: n j)
  case (Suc k)
  have d: "mem (a + i) = oct_digits k (n div 8) ! i" if "i < k" for i
    using Suc.prems(1) [of i] that by (simp add: nth_append)
  have eq: "(v * 8 ^ k + n div 8) * 8 + n mod 8 = v * 8 ^ Suc k + n" by (simp add: algebra_simps)
  then have b: "v * 8 ^ k + n div 8 < 2 ^ 64" using Suc.prems(2) by simp
  have "oct_parse mem a (Suc k + j) v = oct_parse mem (a + k) (Suc j) (v * 8 ^ k + n div 8)"
    using Suc.IH [OF d b, of "Suc j"] Suc.prems(3) by (simp add: less_mult_imp_div_less)
  moreover have m: "mem (a + k) = of_nat (0x30 + n mod 8)" using Suc.prems(1) [of k] by (simp add: nth_append)
  moreover have u: "unat (mem (a + k)) = 0x30 + n mod 8" unfolding m by (rule oct_byte) simp
  moreover have "mem (a + k) \<noteq> 0" "mem (a + k) \<noteq> 0x20" "0x30 \<le> mem (a + k)" "mem (a + k) \<le> 0x37"
    using u by (auto simp: word_le_nat_alt)
  ultimately show ?case using eq Suc.prems(2) by (simp add: ac_simps)
qed simp

subsection \<open>Correctness of the archive reader\<close>

text \<open>Round trip of the size field: a number written as \<open>k < 12\<close> octal digits and ended by a NUL or a space is
  read back by \<^verbatim>\<open>oct_parse\<close>.\<close>

theorem oct_parse_roundtrip:
  assumes "k < 12" and "n < 8 ^ k" and "\<And>i. i < k \<Longrightarrow> mem (a + i) = oct_digits k n ! i"
    and "mem (a + k) = 0 \<or> mem (a + k) = 0x20"
  shows "oct_parse mem a 12 0 = n"
proof -
  obtain j where j: "12 = k + Suc j" using assms(1) by (metis less_imp_Suc_add add_Suc_right)
  have "(8::nat) ^ k \<le> 8 ^ 11" using assms(1) by (intro power_increasing) auto
  then have "n < 2 ^ 64" using assms(2) by simp
  then show ?thesis using oct_parse_digits [of k mem a n 0 "Suc j"] assms unfolding j by auto
qed

theorem oct_parse_roundtrip_witness:
  "oct_parse (\<lambda>a. if a < 3 then [0x31, 0x32, 0x33] ! a else 0) 0 12 0 = 83"
proof (rule oct_parse_roundtrip [of 3])
  fix i :: nat
  assume "i < 3"
  then consider "i = 0" | "i = 1" | "i = 2" by linarith
  then show "(if 0 + i < 3 then [0x31, 0x32, 0x33] ! (0 + i) else 0) = oct_digits 3 83 ! i"
    by cases (simp_all add: numeral_3_eq_3)
qed simp_all

text \<open>Inserting a file and looking it up: on a well-formed tree, for a path of proper segments whose existing
  prefixes are directories, \<^verbatim>\<open>walk_or_make\<close> returns; unless the heap panics it yields a file node with the
  given data and size, \<^verbatim>\<open>vfs_lookup\<close> of the path finds exactly that node, the tree is well-formed again,
  and every other path that resolved still resolves to the same node (provided no directory was
  replaced by the file).\<close>

theorem walk_or_make_lookup:
  assumes "fs_ok s R d" and "list_all clean_seg xs" and "xs \<noteq> []" and "hd xs \<noteq> ''.''"
    and "fs_room (length xs) s" and "spine s (root_node s) xs"
    and "\<And>w. resolve s (root_node s) xs = Some w \<Longrightarrow> vtype (vnodes s w) = VFS_FILE"
  shows "\<exists>r. walk_or_make root (join xs) VFS_FILE dt n s = Some r \<and>
    (\<forall>rv s'. r = Inr (rv, s') \<longrightarrow> (\<exists>v. rv = Some v \<and> vfs_lookup s' (Some (CHR ''/'' # join xs)) = Some v
        \<and> vtype (vnodes s' v) = VFS_FILE \<and> vdata (vnodes s' v) = dt \<and> vsize (vnodes s' v) = n
        \<and> (\<exists>R' d'. fs_ok s' R' d')
        \<and> (\<forall>ys u. list_all clean_seg ys \<longrightarrow> vfs_lookup s (Some (CHR ''/'' # join ys)) = Some u \<longrightarrow>
              vfs_lookup s' (Some (CHR ''/'' # join ys)) = Some u)))"
proof -
  have R: "root_node s \<in> R" using assms(1) by (simp add: fs_ok_def)
  note st = strip_join [OF assms(2-4)]
  have wm: "walk_or_make root (join xs) VFS_FILE dt n s = walk_from root (root_node s) (join xs) VFS_FILE dt n s"
    using st by (simp add: walk_or_make_def)
  have lk: "vfs_lookup z (Some (CHR ''/'' # join ys)) = resolve z (root_node z) ys" if "list_all clean_seg ys" for z ys
    using lookup_join [OF that] by (simp add: vfs_lookup_def)
  obtain r where r: "walk_from root (root_node s) (join xs) VFS_FILE dt n s = Some r"
    using walk_returns [OF assms(1) R assms(2,5,6), of root dt n] by blast
  have "\<exists>v. rv = Some v \<and> vfs_lookup s' (Some (CHR ''/'' # join xs)) = Some v
        \<and> vtype (vnodes s' v) = VFS_FILE \<and> vdata (vnodes s' v) = dt \<and> vsize (vnodes s' v) = n
        \<and> (\<exists>R' d'. fs_ok s' R' d')
        \<and> (\<forall>ys u. list_all clean_seg ys \<longrightarrow> vfs_lookup s (Some (CHR ''/'' # join ys)) = Some u \<longrightarrow>
              vfs_lookup s' (Some (CHR ''/'' # join ys)) = Some u)" if i: "r = Inr (rv, s')" for rv s'
  proof -
    obtain v where v: "rv = Some v" "walked R d s (root_node s) xs v s'" "vtype (vnodes s' v) = VFS_FILE"
      "vdata (vnodes s' v) = dt" "vsize (vnodes s' v) = n"
      using walk_correct [OF assms(1) R assms(2,3,5,6)] r i by blast
    have w: "root_node s' = root_node s" "grown R s s'" "resolve s' (root_node s) xs = Some v" "\<exists>R' d'. fs_ok s' R' d'"
      "\<forall>u \<in> R. u \<noteq> v \<longrightarrow> vtype (vnodes s' u) = vtype (vnodes s u)" "v \<in> R \<longrightarrow> resolve s (root_node s) xs = Some v"
      using v(2) unfolding walked_def by blast+
    have "resolve s' (root_node s) ys = Some u" if "resolve s (root_node s) ys = Some u" for ys u
      using grown_resolve [OF assms(1) w(2) _ R that] w(5,6) assms(7) by force
    then show ?thesis using v w(1,3,4) lk assms(2) by simp
  qed
  then show ?thesis using r unfolding wm by blast
qed

text \<open>The example tree with a heap that has a free block of 32 KiB; vnode 8 is the root.\<close>

definition example_fs :: fs where
  "example_fs = example_tree\<lparr>fs_heap := example_heap\<rparr>"

lemma example_fs_ok: "fs_ok example_fs {8, 16, 24} (\<lambda>v. v div 8)"
  using example_heap_ok by (auto simp: fs_ok_def example_fs_def example_tree_def)

lemma example_fs_spine:
  "spine example_fs (root_node example_fs) [''etc'', ''motd'']" "fs_room (length [''etc'', ''motd'']) example_fs"
  "list_all clean_seg [''etc'', ''motd'']" "resolve example_fs (root_node example_fs) [''etc'', ''motd''] = Some 24"
  by (simp_all add: example_fs_def example_tree_def child_named_def fs_room_def example_heap_def clean_seg_def)

theorem walk_or_make_lookup_witness:
  "\<exists>s'. walk_or_make 8192 ''etc/motd'' VFS_FILE 0x9000 7 example_fs = Some (Inr (Some 24, s'))
     \<and> vfs_lookup s' (Some ''/etc/motd'') = Some 24 \<and> vsize (vnodes s' 24) = 7"
proof -
  have j: "join [''etc'', ''motd''] = ''etc/motd''" by simp
  have f: "vtype (vnodes example_fs w) = VFS_FILE" if "resolve example_fs (root_node example_fs) [''etc'', ''motd''] = Some w" for w
    using that example_fs_spine(4) by (simp add: example_fs_def example_tree_def)
  obtain s' where s': "walk_or_make 8192 ''etc/motd'' VFS_FILE 0x9000 7 example_fs = Some (Inr (Some 24, s'))"
    by (simp add: walk_or_make_def strip_path_def walk_from.simps take_seg_def child_named_def example_fs_def example_tree_def)
  have "[''etc'', ''motd''] \<noteq> []" "hd [''etc'', ''motd''] \<noteq> ''.''" by simp_all
  from walk_or_make_lookup [OF example_fs_ok example_fs_spine(3) this example_fs_spine(2,1) f, of 8192 "0x9000" 7] s'
  show ?thesis unfolding j by simp
qed

text \<open>An archive with one file: the header at the base address, the content behind it, then a zero byte
  or the end.\<close>

definition holds_file :: "(nat \<Rightarrow> u8) \<Rightarrow> nat \<Rightarrow> nat \<Rightarrow> string list \<Rightarrow> u8 list \<Rightarrow> bool" where
  "holds_file mem base len xs bytes \<longleftrightarrow>
     512 \<le> len \<and> mem base \<noteq> 0 \<and> full_path mem base = join xs \<and> oct_parse mem (base + 124) 12 0 = length bytes
   \<and> (mem (base + 156) = 0x30 \<or> mem (base + 156) = 0)
   \<and> (\<forall>i < length bytes. mem (base + 512 + i) = bytes ! i)
   \<and> (let e = 512 + (length bytes + 511) div 512 * 512 in len < e + 512 \<or> mem (base + e) = 0)"

text \<open>C9: End to end: let the archive hold one file under a path of proper segments (non-empty, no slash, shorter than
  \<^verbatim>\<open>VFS_NAME_MAX\<close>), the first of them not a single dot; let every node that already exists on the way be a directory and the
  node under the whole path, if there is one, a file; and let the heap end stay below \<open>2 ^ 64\<close> if it grows once per segment.
  Then mounting the archive returns, and unless the heap panics it counts one file and no directory, the file is found under its
  path and \<^verbatim>\<open>vfs_read\<close> yields its bytes.\<close>

theorem tar_mount_readable:
  assumes "fs_ok s R d" and "list_all clean_seg xs" and "xs \<noteq> []" and "hd xs \<noteq> ''.''"
    and "fs_room (length xs) s" and "spine s (root_node s) xs"
    and "\<And>w. resolve s (root_node s) xs = Some w \<Longrightarrow> vtype (vnodes s w) = VFS_FILE"
    and "holds_file mem base len xs bytes" and "len < 2 ^ 62" and "length bytes < 2 ^ 62"
  shows "\<exists>r. tar_mount root mem base len s = Some r \<and>
    (\<forall>nf nd s'. r = Inr (nf, nd, s') \<longrightarrow> nf = 1 \<and> nd = 0 \<and> (\<exists>v. vfs_lookup s' (Some (CHR ''/'' # join xs)) = Some v
        \<and> vfs_read mem (Some (vnodes s' v)) 0 (length bytes) = (int (length bytes), bytes)))"
proof -
  let ?n = "length bytes" and ?e = "512 + (length bytes + 511) div 512 * 512"
  have R: "root_node s \<in> R" using assms(1) by (simp add: fs_ok_def)
  note st = strip_join [OF assms(2-4)]
  have wm: "walk_or_make root (join xs) VFS_FILE dt n s = walk_from root (root_node s) (join xs) VFS_FILE dt n s" for dt n
    using st by (simp add: walk_or_make_def)
  obtain r where r: "walk_from root (root_node s) (join xs) VFS_FILE (base + 512) ?n s = Some r"
    using walk_returns [OF assms(1) R assms(2,5,6)] by blast
  have h: "512 \<le> len" "mem base \<noteq> 0" "full_path mem base = join xs" "oct_parse mem (base + 124) 12 0 = ?n"
    "mem (base + 156) = 0x30 \<or> mem (base + 156) = 0" "\<And>i. i < ?n \<Longrightarrow> mem (base + 512 + i) = bytes ! i"
    "len < ?e + 512 \<or> mem (base + ?e) = 0"
    using assms(8) by (auto simp: holds_file_def Let_def)
  have nh: "next_header 0 ?n = ?e" using assms(10) by (simp add: next_header_def)
  have stop: "tar_loop root mem base len ?e a b z = Some (Inr (a, b, z))" for a b z
    using h(7) assms(10) by (subst tar_loop.simps) (auto simp: add.assoc)
  have me: "mount_entry root (mem (base + 156)) (join xs) (base + 512) ?n s = Some (map_sum id snd r)"
    using h(5) r by (auto simp: mount_entry_def wm)
  have tm: "tar_mount root mem base len s = (case r of Inl msg \<Rightarrow> Some (Inl msg) | Inr (v, s1) \<Rightarrow> Some (Inr (1, 0, s1)))"
    unfolding tar_mount_def using h me nh stop by (subst tar_loop.simps) (auto simp: Let_def split: sum.splits)
  show ?thesis
  proof (cases r)
    case (Inl msg)
    then show ?thesis using tm by simp
  next
    case (Inr p)
    obtain rv s' where p: "p = (rv, s')" by (cases p)
    obtain v where v: "walked R d s (root_node s) xs v s'" "vtype (vnodes s' v) = VFS_FILE"
      "vdata (vnodes s' v) = base + 512" "vsize (vnodes s' v) = ?n"
      using walk_correct [OF assms(1) R assms(2,3,5,6)] r Inr p by blast
    have "vfs_lookup s' (Some (CHR ''/'' # join xs)) = Some v"
      using v(1) lookup_join [OF assms(2)] by (simp add: vfs_lookup_def walked_def)
    moreover have "vfs_read mem (Some (vnodes s' v)) 0 ?n = (int ?n, bytes)"
    proof -
      have "map (\<lambda>i. mem (base + 512 + i)) [0..<?n] = bytes" using h(6) by (intro nth_equalityI) simp_all
      then show ?thesis using v assms(10) by (auto simp: vfs_read_def Let_def to_i64_small)
    qed
    ultimately show ?thesis using tm Inr p by simp
  qed
qed

definition example_tar :: "nat \<Rightarrow> u8" where
  "example_tar a = (if a < 8 then [0x65, 0x74, 0x63, 0x2F, 0x6D, 0x6F, 0x74, 0x64] ! a
     else if a = 124 then 0x33 else if a = 156 then 0x30
     else if 512 \<le> a \<and> a < 515 then [1, 2, 3] ! (a - 512) else 0)"

lemma cstr_numeral:
  "cstr mem a (numeral k) = (if mem a = 0 then [] else char_of (unat (mem a)) # cstr mem (Suc a) (pred_numeral k))"
  by (simp add: numeral_eq_Suc)

lemma oct_parse_numeral:
  "oct_parse mem a (numeral k) v = (if mem a = 0 \<or> mem a = 0x20 then v
     else oct_parse mem (Suc a) (pred_numeral k)
        (if 0x30 \<le> mem a \<and> mem a \<le> 0x37 then wrap64 (v * 8 + (unat (mem a) - 0x30)) else v))"
  by (simp add: numeral_eq_Suc)

lemma example_tar_path: "full_path example_tar 0 = ''etc/motd''"
  by (simp add: full_path_def cstr_numeral example_tar_def char_of_def bit_Suc_0_iff)

lemma example_tar_holds: "holds_file example_tar 0 1024 [''etc'', ''motd''] [1, 2, 3]"
proof -
  have "oct_parse example_tar 124 12 0 = 3" by (simp add: oct_parse_numeral example_tar_def)
  moreover have "example_tar (512 + i) = [1, 2, 3] ! i" if "i < 3" for i
    using that by (simp add: example_tar_def)
  ultimately show ?thesis using example_tar_path by (simp add: holds_file_def example_tar_def)
qed

theorem tar_mount_readable_witness:
  "\<exists>s' v. tar_mount 8192 example_tar 0 1024 example_fs = Some (Inr (1, 0, s'))
     \<and> vfs_lookup s' (Some ''/etc/motd'') = Some v \<and> vfs_read example_tar (Some (vnodes s' v)) 0 3 = (3, [1, 2, 3])"
proof -
  have j: "join [''etc'', ''motd''] = ''etc/motd''" by simp
  have f: "vtype (vnodes example_fs w) = VFS_FILE" if "resolve example_fs (root_node example_fs) [''etc'', ''motd''] = Some w" for w
    using that example_fs_spine(4) by (simp add: example_fs_def example_tree_def)
  have ne: "[''etc'', ''motd''] \<noteq> []" "hd [''etc'', ''motd''] \<noteq> ''.''" by simp_all
  obtain s1 where m: "mount_entry 8192 0x30 ''etc/motd'' 512 3 example_fs = Some (Inr s1)"
    by (simp add: mount_entry_def walk_or_make_def strip_path_def walk_from.simps take_seg_def child_named_def
        example_fs_def example_tree_def)
  have tm: "tar_mount 8192 example_tar 0 1024 example_fs = Some (Inr (1, 0, s1))"
  proof -
    have b: "example_tar 156 = 0x30" "oct_parse example_tar 124 12 0 = 3" "example_tar 0 \<noteq> 0" "example_tar 1024 = 0"
      by (simp_all add: oct_parse_numeral example_tar_def)
    have stop: "tar_loop 8192 example_tar 0 1024 1024 a b z = Some (Inr (a, b, z))" for a b z
      by (subst tar_loop.simps) (simp add: b)
    show ?thesis unfolding tar_mount_def
      by (subst tar_loop.simps) (simp add: b example_tar_path m Let_def next_header_def stop)
  qed
  have "(1024::nat) < 2 ^ 62" "length [1, 2, 3 :: u8] < 2 ^ 62" by simp_all
  from tar_mount_readable [OF example_fs_ok example_fs_spine(3) ne example_fs_spine(2,1) f example_tar_holds this, of 8192] tm
  show ?thesis unfolding j by (auto simp: numeral_3_eq_3)
qed

end
