(* ===== verification/Damage.thy ===== *)
theory Damage
  imports Prelude
begin

text \<open>
  Screen rectangles (\<^verbatim>\<open>src/compositor/rect.h\<close>) and the damage accumulator
  (\<^verbatim>\<open>src/compositor/damage.c\<close>) of the compositor.  A rectangle denotes the set \<open>cells\<close> of its pixels;
  the operations are related to set operations on pixels, and the accumulator is shown to keep its
  rectangles disjoint, within its 16 slots, and covering everything added while a slot is free.
  Coordinates are mathematical integers: signed overflow of an \<^verbatim>\<open>int32_t\<close> sum is undefined in C and
  the compositor keeps coordinates far from it.
\<close>

subsection \<open>Rectangles\<close>

record rect =
  rx :: int
  ry :: int
  rw :: int
  rh :: int

definition rect_empty :: "rect \<Rightarrow> bool" where
  "rect_empty r \<longleftrightarrow> rw r \<le> 0 \<or> rh r \<le> 0"

definition rect_make :: "int \<Rightarrow> int \<Rightarrow> int \<Rightarrow> int \<Rightarrow> rect" where
  "rect_make x y w h = \<lparr>rx = x, ry = y, rw = w, rh = h\<rparr>"

definition rect_intersect :: "rect \<Rightarrow> rect \<Rightarrow> bool \<times> rect" where
  "rect_intersect r c =
     (let x0 = (if rx r > rx c then rx r else rx c);
          y0 = (if ry r > ry c then ry r else ry c);
          x1 = (if rx r + rw r < rx c + rw c then rx r + rw r else rx c + rw c);
          y1 = (if ry r + rh r < ry c + rh c then ry r + rh r else ry c + rh c)
      in if x1 \<le> x0 \<or> y1 \<le> y0 then (False, rect_make 0 0 0 0)
         else (True, rect_make x0 y0 (x1 - x0) (y1 - y0)))"

definition rect_union :: "rect \<Rightarrow> rect \<Rightarrow> rect" where
  "rect_union a b =
     (if rect_empty a then b
      else if rect_empty b then a
      else let x0 = (if rx a < rx b then rx a else rx b);
               y0 = (if ry a < ry b then ry a else ry b);
               x1 = (if rx a + rw a > rx b + rw b then rx a + rw a else rx b + rw b);
               y1 = (if ry a + rh a > ry b + rh b then ry a + rh a else ry b + rh b)
           in rect_make x0 y0 (x1 - x0) (y1 - y0))"

definition rect_overlaps :: "rect \<Rightarrow> rect \<Rightarrow> bool" where
  "rect_overlaps a b \<longleftrightarrow>
     \<not> (rx a + rw a \<le> rx b \<or> rx b + rw b \<le> rx a \<or> ry a + rh a \<le> ry b \<or> ry b + rh b \<le> ry a)"

text \<open>The pixels of a rectangle.\<close>

definition cells :: "rect \<Rightarrow> (int \<times> int) set" where
  "cells r = {(x, y). rx r \<le> x \<and> x < rx r + rw r \<and> ry r \<le> y \<and> y < ry r + rh r}"

abbreviation covered :: "rect list \<Rightarrow> (int \<times> int) set" where
  "covered ds \<equiv> (\<Union>r\<in>set ds. cells r)"

lemma cells_make [simp]:
  "(x, y) \<in> cells (rect_make a b w h) \<longleftrightarrow> a \<le> x \<and> x < a + w \<and> b \<le> y \<and> y < b + h"
  by (simp add: cells_def rect_make_def)

lemma cells_empty: "cells r = {} \<longleftrightarrow> rect_empty r"
proof
  assume "cells r = {}"
  then have "(rx r, ry r) \<notin> cells r" by simp
  then show "rect_empty r" by (auto simp: cells_def rect_empty_def)
qed (auto simp: cells_def rect_empty_def)

lemma cells_rect_intersect:
  "cells (snd (rect_intersect r c)) = cells r \<inter> cells c"
  "fst (rect_intersect r c) \<longleftrightarrow> cells r \<inter> cells c \<noteq> {}"
proof -
  show *: "cells (snd (rect_intersect r c)) = cells r \<inter> cells c"
    by (auto simp: rect_intersect_def Let_def cells_def rect_make_def)
  have "fst (rect_intersect r c) \<longleftrightarrow> \<not> rect_empty (snd (rect_intersect r c))"
    by (auto simp: rect_intersect_def Let_def rect_make_def rect_empty_def)
  with * show "fst (rect_intersect r c) \<longleftrightarrow> cells r \<inter> cells c \<noteq> {}"
    by (simp flip: cells_empty)
qed

lemma rect_overlaps_iff:
  assumes "\<not> rect_empty a" "\<not> rect_empty b"
  shows "rect_overlaps a b \<longleftrightarrow> cells a \<inter> cells b \<noteq> {}"
proof -
  have "rect_overlaps a b \<longleftrightarrow> fst (rect_intersect a b)"
    using assms by (auto simp: rect_overlaps_def rect_intersect_def Let_def rect_empty_def)
  then show ?thesis by (simp add: cells_rect_intersect)
qed

lemma cells_rect_union: "cells a \<union> cells b \<subseteq> cells (rect_union a b)"
proof (cases "rect_empty a \<or> rect_empty b")
  case True
  then show ?thesis by (auto simp: rect_union_def cells_empty [symmetric])
next
  case False
  then show ?thesis by (auto simp: rect_union_def Let_def cells_def rect_make_def)
qed

lemma rect_union_nonempty: "rect_empty (rect_union a b) \<longleftrightarrow> rect_empty a \<and> rect_empty b"
  by (auto simp: rect_union_def rect_empty_def Let_def rect_make_def)

lemma rect_union_least:
  assumes "cells a \<union> cells b \<subseteq> cells c"
  shows "cells (rect_union a b) \<subseteq> cells c"
proof (cases "rect_empty a \<or> rect_empty b")
  case True
  with assms show ?thesis by (auto simp: rect_union_def cells_empty [symmetric])
next
  case False
  have corner: "(rx r, ry r) \<in> cells r \<and> (rx r + rw r - 1, ry r + rh r - 1) \<in> cells r"
    if "\<not> rect_empty r" for r
    using that by (auto simp: cells_def rect_empty_def)
  from False corner [of a] corner [of b] assms
  have "(rx a, ry a) \<in> cells c" "(rx a + rw a - 1, ry a + rh a - 1) \<in> cells c"
    "(rx b, ry b) \<in> cells c" "(rx b + rw b - 1, ry b + rh b - 1) \<in> cells c" by auto
  with False show ?thesis
    by (auto simp: rect_union_def Let_def cells_def rect_make_def)
qed

subsection \<open>The accumulator\<close>

text \<open>
  \<^verbatim>\<open>struct damage\<close> is the list of the first \<^verbatim>\<open>count\<close> rectangles of its array.  The \<^verbatim>\<open>while (merged)\<close>
  loop is \<open>merge_loop\<close>: it takes out the first overlapping rectangle (its slot gets the last one), joins it to
  the new one and starts again.
\<close>

abbreviation DAMAGE_MAX_RECTS :: nat where "DAMAGE_MAX_RECTS \<equiv> 16"

type_synonym damage = "rect list"

definition damage_reset :: "damage \<Rightarrow> damage" where
  "damage_reset d = []"

definition damage_collapse :: "damage \<Rightarrow> damage" where
  "damage_collapse d = (if length d \<le> 1 then d else [fold (\<lambda>r u. rect_union u r) (tl d) (hd d)])"

definition swap_remove :: "'a list \<Rightarrow> nat \<Rightarrow> 'a list" where
  "swap_remove xs i = butlast (xs[i := last xs])"

lemma length_swap_remove [simp]: "length (swap_remove xs i) = length xs - 1"
  by (simp add: swap_remove_def)

function merge_loop :: "damage \<Rightarrow> rect \<Rightarrow> damage \<times> rect" where
  "merge_loop d r =
     (case scan (\<lambda>i. rect_overlaps (d ! i) r) 0 (length d) of
        None \<Rightarrow> (d, r)
      | Some i \<Rightarrow> merge_loop (swap_remove d i) (rect_union (d ! i) r))"
  by pat_completeness auto
termination
  by (relation "measure (\<lambda>(d, r). length d)") (auto dest: scan_Some)

declare merge_loop.simps [simp del]

definition damage_add :: "damage \<Rightarrow> rect \<Rightarrow> damage" where
  "damage_add d r =
     (if rect_empty r then d
      else let (d, r) = merge_loop d r
           in if length d \<ge> DAMAGE_MAX_RECTS
              then damage_collapse [fold (\<lambda>x u. rect_union u x) (tl d) r]
              else d @ [r])"

definition damage_clip :: "damage \<Rightarrow> rect \<Rightarrow> damage" where
  "damage_clip d bounds = map snd (filter fst (map (\<lambda>r. rect_intersect r bounds) d))"

definition damage_bbox :: "damage \<Rightarrow> rect" where
  "damage_bbox d =
     (if d = [] then rect_make 0 0 0 0 else fold (\<lambda>r u. rect_union u r) (tl d) (hd d))"

definition damage_area_sum :: "damage \<Rightarrow> u64" where
  "damage_area_sum d = fold (\<lambda>r s. s + word_of_int (rw r) * word_of_int (rh r)) d 0"

subsection \<open>Invariant\<close>

definition damage_ok :: "damage \<Rightarrow> bool" where
  "damage_ok d \<longleftrightarrow> length d \<le> DAMAGE_MAX_RECTS \<and> (\<forall>r\<in>set d. \<not> rect_empty r) \<and>
     (\<forall>i<length d. \<forall>j<length d. i \<noteq> j \<longrightarrow> \<not> rect_overlaps (d ! i) (d ! j))"

lemma nth_swap_remove:
  "i < length xs \<Longrightarrow> j < length xs - 1 \<Longrightarrow>
   swap_remove xs i ! j = (if j = i then xs ! (length xs - 1) else xs ! j)"
  by (cases "xs = []") (auto simp: swap_remove_def nth_butlast nth_list_update last_conv_nth)

lemma mset_swap_remove:
  assumes "i < length xs"
  shows "insert (xs ! i) (set (swap_remove xs i)) = set xs"
proof -
  have "set (swap_remove xs i) = {swap_remove xs i ! j |j. j < length xs - 1}"
    by (simp add: set_conv_nth)
  also have "\<dots> = {xs ! j |j. j < length xs \<and> j \<noteq> i}" (is "?L = ?R")
  proof
    show "?L \<subseteq> ?R"
    proof
      fix v assume "v \<in> ?L"
      then obtain j where j: "j < length xs - 1" "v = swap_remove xs i ! j" by blast
      show "v \<in> ?R"
      proof (cases "j = i")
        case True
        with j assms have "v = xs ! (length xs - 1)" "length xs - 1 < length xs" "length xs - 1 \<noteq> i"
          by (auto simp: nth_swap_remove)
        then show ?thesis by blast
      next
        case False
        with j assms have "v = xs ! j" "j < length xs" by (auto simp: nth_swap_remove)
        with False show ?thesis by blast
      qed
    qed
    show "?R \<subseteq> ?L"
    proof
      fix v assume "v \<in> ?R"
      then obtain j where j: "j < length xs" "j \<noteq> i" "v = xs ! j" by blast
      show "v \<in> ?L"
      proof (cases "j = length xs - 1")
        case True
        with j assms have "v = swap_remove xs i ! i" "i < length xs - 1" by (auto simp: nth_swap_remove)
        then show ?thesis by blast
      next
        case False
        with j assms have "v = swap_remove xs i ! j" "j < length xs - 1" by (auto simp: nth_swap_remove)
        then show ?thesis by blast
      qed
    qed
  qed
  finally have "set (swap_remove xs i) = {xs ! j |j. j < length xs \<and> j \<noteq> i}" .
  with assms show ?thesis by (auto simp: set_conv_nth)
qed

lemma damage_ok_swap_remove:
  assumes "damage_ok d" "i < length d"
  shows "damage_ok (swap_remove d i)"
proof -
  have "set (swap_remove d i) \<subseteq> set d" using mset_swap_remove [OF assms(2)] by blast
  moreover have "\<not> rect_overlaps (swap_remove d i ! j) (swap_remove d i ! k)"
    if "j < length d - 1" "k < length d - 1" "j \<noteq> k" for j k
    using that assms by (auto simp: damage_ok_def nth_swap_remove)
  ultimately show ?thesis using assms by (auto simp: damage_ok_def)
qed

lemma merge_loop_correct:
  assumes "damage_ok d" "\<not> rect_empty r" "merge_loop d r = (d', r')"
  shows "damage_ok d' \<and> \<not> rect_empty r' \<and> length d' \<le> length d \<and>
         covered d \<union> cells r \<subseteq> covered d' \<union> cells r' \<and> (\<forall>x\<in>set d'. \<not> rect_overlaps x r')"
  using assms
proof (induction d r rule: merge_loop.induct)
  case (1 d r)
  show ?case
  proof (cases "scan (\<lambda>i. rect_overlaps (d ! i) r) 0 (length d)")
    case None
    then have "\<forall>x\<in>set d. \<not> rect_overlaps x r" by (auto simp: scan_None in_set_conv_nth)
    with None "1.prems" show ?thesis by (simp add: merge_loop.simps [of d r])
  next
    case (Some i)
    then have i: "i < length d" by (auto dest: scan_Some)
    let ?d = "swap_remove d i" and ?r = "rect_union (d ! i) r"
    have "damage_ok ?d" by (rule damage_ok_swap_remove [OF "1.prems"(1) i])
    moreover have "\<not> rect_empty ?r" using "1.prems"(2) by (simp add: rect_union_nonempty)
    moreover have "merge_loop ?d ?r = (d', r')"
      using "1.prems"(3) Some by (simp add: merge_loop.simps [of d r])
    ultimately have ih: "damage_ok d' \<and> \<not> rect_empty r' \<and> length d' \<le> length ?d \<and>
       covered ?d \<union> cells ?r \<subseteq> covered d' \<union> cells r' \<and> (\<forall>x\<in>set d'. \<not> rect_overlaps x r')"
      using "1.IH" [OF Some] by blast
    have "covered d = cells (d ! i) \<union> covered ?d" by (subst mset_swap_remove [OF i, symmetric]) simp
    moreover have "cells (d ! i) \<union> cells r \<subseteq> cells ?r" by (rule cells_rect_union)
    ultimately have "covered d \<union> cells r \<subseteq> covered ?d \<union> cells ?r" by auto
    also have "\<dots> \<subseteq> covered d' \<union> cells r'" using ih by simp
    finally have "covered d \<union> cells r \<subseteq> covered d' \<union> cells r'" .
    moreover have "length d' \<le> length ?d" using ih by blast
    then have "length d' \<le> length d" by simp
    ultimately show ?thesis using ih by blast
  qed
qed

lemma fold_rect_union:
  "cells u \<union> covered d \<subseteq> cells (fold (\<lambda>r u. rect_union u r) d u)"
  "rect_empty (fold (\<lambda>r u. rect_union u r) d u) \<longleftrightarrow> rect_empty u \<and> (\<forall>r\<in>set d. rect_empty r)"
proof -
  show "cells u \<union> covered d \<subseteq> cells (fold (\<lambda>r u. rect_union u r) d u)"
  proof (induction d arbitrary: u)
    case (Cons r d)
    have "cells (rect_union u r) \<union> covered d \<subseteq> cells (fold (\<lambda>r u. rect_union u r) (r # d) u)"
      using Cons.IH [of "rect_union u r"] by simp
    with cells_rect_union [of u r] show ?case by auto
  qed simp
  show "rect_empty (fold (\<lambda>r u. rect_union u r) d u) \<longleftrightarrow> rect_empty u \<and> (\<forall>r\<in>set d. rect_empty r)"
    by (induction d arbitrary: u) (auto simp: rect_union_nonempty)
qed

lemma rect_overlaps_sym: "rect_overlaps a b \<longleftrightarrow> rect_overlaps b a"
  by (auto simp: rect_overlaps_def)

lemma damage_ok_append:
  assumes "damage_ok d" "length d < DAMAGE_MAX_RECTS" "\<not> rect_empty r" "\<forall>x\<in>set d. \<not> rect_overlaps x r"
  shows "damage_ok (d @ [r])"
  using assms by (auto simp: damage_ok_def nth_append rect_overlaps_sym [of r])

lemma damage_add_ok [inv_intros]:
  assumes "damage_ok d"
  shows "damage_ok (damage_add d r)"
proof (cases "rect_empty r")
  case False
  obtain d' r' where m: "merge_loop d r = (d', r')" by fastforce
  note * = merge_loop_correct [OF assms False m]
  show ?thesis
  proof (cases "length d' \<ge> DAMAGE_MAX_RECTS")
    case True
    with False m * show ?thesis
      by (simp add: damage_add_def damage_collapse_def damage_ok_def fold_rect_union)
  next
    case room: False
    with False m * show ?thesis
      by (simp add: damage_add_def damage_ok_append)
  qed
qed (simp add: damage_add_def assms)

lemma damage_add_covers:
  assumes "damage_ok d" "length d < DAMAGE_MAX_RECTS"
  shows "covered d \<union> cells r \<subseteq> covered (damage_add d r)"
proof (cases "rect_empty r")
  case False
  obtain d' r' where m: "merge_loop d r = (d', r')" by fastforce
  from merge_loop_correct [OF assms(1) False m] have *: "length d' \<le> length d"
    "covered d \<union> cells r \<subseteq> covered d' \<union> cells r'" by auto
  with False m assms(2) have "damage_add d r = d' @ [r']" by (simp add: damage_add_def)
  with * show ?thesis by auto
next
  case True
  then have "cells r = {}" by (simp add: cells_empty)
  with True show ?thesis by (simp add: damage_add_def)
qed


lemma damage_add_room:
  assumes "damage_ok d"
  shows "length (damage_add d r) \<le> Suc (length d)"
proof (cases "rect_empty r")
  case False
  obtain d' r' where m: "merge_loop d r = (d', r')" by fastforce
  from merge_loop_correct [OF assms False m] have "length d' \<le> length d" by blast
  with False m show ?thesis by (simp add: damage_add_def damage_collapse_def)
qed (simp add: damage_add_def)

lemma cells_fold_union_least:
  assumes "cells u \<union> covered d \<subseteq> cells B"
  shows "cells (fold (\<lambda>r u. rect_union u r) d u) \<subseteq> cells B"
  using assms
proof (induction d arbitrary: u)
  case (Cons r d)
  have "cells (rect_union u r) \<subseteq> cells B"
    using Cons.prems by (intro rect_union_least) auto
  with Cons show ?case by simp
qed simp

lemma merge_loop_within:
  assumes "covered d \<union> cells r \<subseteq> cells B" "merge_loop d r = (d', r')"
  shows "covered d' \<union> cells r' \<subseteq> cells B"
  using assms
proof (induction d r rule: merge_loop.induct)
  case (1 d r)
  show ?case
  proof (cases "scan (\<lambda>i. rect_overlaps (d ! i) r) 0 (length d)")
    case None
    with "1.prems" show ?thesis by (simp add: merge_loop.simps [of d r])
  next
    case (Some i)
    then have i: "i < length d" by (auto dest: scan_Some)
    have sub: "set (swap_remove d i) \<subseteq> set d" "d ! i \<in> set d"
      using mset_swap_remove [OF i] i by auto
    then have "cells (d ! i) \<union> cells r \<subseteq> cells B" using "1.prems"(1) by blast
    then have "cells (rect_union (d ! i) r) \<subseteq> cells B" by (rule rect_union_least)
    moreover have "covered (swap_remove d i) \<subseteq> cells B" using sub "1.prems"(1) by blast
    moreover have "merge_loop (swap_remove d i) (rect_union (d ! i) r) = (d', r')"
      using "1.prems"(2) Some by (simp add: merge_loop.simps [of d r])
    ultimately show ?thesis using "1.IH" [OF Some] by simp
  qed
qed

lemma damage_add_within:
  assumes "covered d \<union> cells r \<subseteq> cells B"
  shows "covered (damage_add d r) \<subseteq> cells B"
proof (cases "rect_empty r")
  case False
  obtain d' r' where m: "merge_loop d r = (d', r')" by fastforce
  note w = merge_loop_within [OF assms m]
  show ?thesis
  proof (cases "length d' \<ge> DAMAGE_MAX_RECTS")
    case True
    have "set (tl d') \<subseteq> set d'" by (cases d') auto
    with w have "cells r' \<union> covered (tl d') \<subseteq> cells B" by blast
    with True False m show ?thesis
      by (simp add: damage_add_def damage_collapse_def cells_fold_union_least)
  qed (use w False m in \<open>simp add: damage_add_def\<close>)
qed (use assms in \<open>simp add: damage_add_def\<close>)

text \<open>
  The contract the compositor relies on: an accumulator with some slots left covers what it covered and
  the new rectangle.
\<close>

locale accumulator =
  fixes ok :: "'d \<Rightarrow> bool" and used :: "'d \<Rightarrow> nat" and cap :: nat
    and cov :: "'d \<Rightarrow> 'p set" and add :: "'d \<Rightarrow> 'r \<Rightarrow> 'd" and area :: "'r \<Rightarrow> 'p set"
  assumes add_ok: "ok d \<Longrightarrow> ok (add d r)"
    and add_covers: "ok d \<Longrightarrow> used d < cap \<Longrightarrow> cov d \<union> area r \<subseteq> cov (add d r)"
    and add_used: "ok d \<Longrightarrow> used (add d r) \<le> Suc (used d)"
begin

lemma adds_ok: "ok d \<Longrightarrow> ok (fold (\<lambda>r d. add d r) rs d)"
  by (induction rs arbitrary: d) (auto intro: add_ok)

lemma adds_cover:
  "ok d \<Longrightarrow> used d + length rs \<le> cap \<Longrightarrow>
   cov d \<union> (\<Union>r\<in>set rs. area r) \<subseteq> cov (fold (\<lambda>r d. add d r) rs d)"
proof (induction rs arbitrary: d)
  case (Cons r rs)
  let ?d = "add d r"
  have "ok ?d" by (rule add_ok [OF Cons.prems(1)])
  moreover have "used ?d + length rs \<le> cap" using add_used [of d r] Cons.prems by simp
  ultimately have "cov ?d \<union> (\<Union>r\<in>set rs. area r) \<subseteq> cov (fold (\<lambda>r d. add d r) rs ?d)"
    by (rule Cons.IH)
  moreover have "cov d \<union> area r \<subseteq> cov ?d" using Cons.prems by (intro add_covers) auto
  ultimately show ?case by auto
qed simp

end

interpretation dmg: accumulator damage_ok length DAMAGE_MAX_RECTS covered damage_add cells
  by unfold_locales (simp_all add: damage_add_ok damage_add_covers [simplified] damage_add_room)

subsection \<open>Clipping, bounding box and area\<close>

lemma damage_clip_filter:
  "damage_clip d b = map (\<lambda>r. snd (rect_intersect r b)) (filter (\<lambda>r. fst (rect_intersect r b)) d)"
  by (simp add: damage_clip_def filter_map comp_def)

lemma covered_damage_clip: "covered (damage_clip d b) = covered d \<inter> cells b"
proof -
  have "covered (damage_clip d b) = (\<Union>r\<in>{r\<in>set d. cells r \<inter> cells b \<noteq> {}}. cells r \<inter> cells b)"
    by (simp add: damage_clip_filter cells_rect_intersect)
  then show ?thesis by auto
qed

definition disjoint_rects :: "damage \<Rightarrow> bool" where
  "disjoint_rects d \<longleftrightarrow> sorted_wrt (\<lambda>a b. cells a \<inter> cells b = {}) d"

lemma damage_ok_disjoint:
  assumes "damage_ok d"
  shows "disjoint_rects d"
  using assms
  by (simp add: disjoint_rects_def sorted_wrt_iff_nth_less damage_ok_def)
    (metis nth_mem rect_overlaps_iff less_irrefl less_trans)

lemma disjoint_rects_clip:
  assumes "disjoint_rects d"
  shows "disjoint_rects (damage_clip d b)"
proof -
  have "sorted_wrt (\<lambda>a b. cells a \<inter> cells b = {}) (filter (\<lambda>r. fst (rect_intersect r b)) d)"
    using assms by (simp add: disjoint_rects_def sorted_wrt_filter)
  then show ?thesis
    unfolding disjoint_rects_def damage_clip_filter sorted_wrt_map
    by (rule sorted_wrt_mono_rel [rotated]) (auto simp: cells_rect_intersect)
qed

lemma damage_clip_nonempty: "r \<in> set (damage_clip d b) \<Longrightarrow> \<not> rect_empty r"
  by (auto simp: damage_clip_filter cells_rect_intersect simp flip: cells_empty)

lemma damage_clip_ok [inv_intros]:
  assumes "damage_ok d"
  shows "damage_ok (damage_clip d b)"
proof -
  let ?c = "damage_clip d b"
  have len: "length ?c \<le> length d" by (simp add: damage_clip_filter)
  have ne: "\<forall>r\<in>set ?c. \<not> rect_empty r"
    by (auto simp: damage_clip_filter cells_rect_intersect simp flip: cells_empty)
  have "disjoint_rects ?c" using assms by (intro disjoint_rects_clip damage_ok_disjoint)
  then have dj: "i < j \<Longrightarrow> j < length ?c \<Longrightarrow> cells (?c ! i) \<inter> cells (?c ! j) = {}" for i j
    by (simp add: disjoint_rects_def sorted_wrt_iff_nth_less)
  have "\<not> rect_overlaps (?c ! i) (?c ! j)" if "i < length ?c" "j < length ?c" "i \<noteq> j" for i j
    using dj [of i j] dj [of j i] that ne by (auto simp: rect_overlaps_iff linorder_neq_iff)
  with len ne assms show ?thesis by (simp add: damage_ok_def)
qed

lemma card_cells:
  assumes "\<not> rect_empty r"
  shows "finite (cells r)" "card (cells r) = nat (rw r * rh r)"
proof -
  have *: "cells r = {rx r..<rx r + rw r} \<times> {ry r..<ry r + rh r}" by (auto simp: cells_def)
  show "finite (cells r)" by (simp add: *)
  show "card (cells r) = nat (rw r * rh r)"
    using assms by (simp add: * card_cartesian_product rect_empty_def nat_mult_distrib)
qed

lemma damage_area_sum_card:
  assumes "disjoint_rects d" "\<forall>r\<in>set d. \<not> rect_empty r"
  shows "damage_area_sum d = of_nat (card (covered d))"
proof -
  have "fold (\<lambda>r s. s + word_of_int (rw r) * word_of_int (rh r)) d s = s + of_nat (card (covered d))"
    for s :: u64
    using assms
  proof (induction d arbitrary: s)
    case (Cons r d)
    then have disj: "cells r \<inter> covered d = {}" by (auto simp: disjoint_rects_def)
    have fin: "finite (cells r)" "finite (covered d)" using Cons.prems by (auto simp: card_cells)
    have "card (covered (r # d)) = card (cells r) + card (covered d)"
      using card_Un_disjoint [OF fin disj] by simp
    moreover have "0 \<le> rw r * rh r" using Cons.prems(2) by (simp add: rect_empty_def)
    then have "of_nat (card (cells r)) = (word_of_int (rw r) * word_of_int (rh r) :: u64)"
      using Cons.prems(2) by (simp add: card_cells of_nat_nat)
    ultimately show ?case using Cons by (simp add: disjoint_rects_def)
  qed simp
  then show ?thesis by (simp add: damage_area_sum_def)
qed


lemma covered_damage_bbox: "covered d \<subseteq> cells (damage_bbox d)"
proof (cases d)
  case (Cons r d')
  then show ?thesis using fold_rect_union(1) [of r d'] by (simp add: damage_bbox_def)
qed (simp add: damage_bbox_def)

lemma damage_adds_within:
  "covered d \<union> covered rs \<subseteq> cells B \<Longrightarrow> covered (fold (\<lambda>r d. damage_add d r) rs d) \<subseteq> cells B"
proof (induction rs arbitrary: d)
  case (Cons r rs)
  then have "covered d \<union> cells r \<subseteq> cells B" by auto
  then have "covered (damage_add d r) \<subseteq> cells B" by (rule damage_add_within)
  with Cons show ?case by simp
qed simp

subsection \<open>Properties\<close>

definition tile :: "nat \<Rightarrow> rect" where
  "tile i = rect_make (10 * int i) 0 5 5"

definition full_damage :: damage where
  "full_damage = map tile [0..<16]"

text \<open>C11: the damage a frame accumulates (\<^verbatim>\<open>damage_reset\<close>, then any sequence of at most 16
  \<^verbatim>\<open>damage_add\<close>, then \<^verbatim>\<open>damage_clip\<close> to the screen).  The clipped rectangles are pairwise disjoint, at most
  16 and non-empty; they lie on the screen, cover every on-screen pixel of every added rectangle, and stay
  inside every rectangle that encloses the added ones; and \<^verbatim>\<open>damage_area_sum\<close> is their exact number
  of pixels.\<close>

theorem damage_accumulates:
  fixes rs :: "rect list" and b :: rect and d0 :: damage
  defines "d \<equiv> damage_clip (fold (\<lambda>r d. damage_add d r) rs (damage_reset d0)) b"
  assumes "length rs \<le> DAMAGE_MAX_RECTS"
  shows "damage_ok d \<and> disjoint_rects d \<and> covered d \<subseteq> cells b \<and>
         covered rs \<inter> cells b \<subseteq> covered d \<and> damage_area_sum d = of_nat (card (covered d)) \<and>
         (\<forall>B. covered rs \<subseteq> cells B \<longrightarrow> covered d \<subseteq> cells B)"
proof -
  let ?e = "fold (\<lambda>r d. damage_add d r) rs []"
  have ok0: "damage_ok []" by (simp add: damage_ok_def)
  have d: "d = damage_clip ?e b" by (simp add: d_def damage_reset_def)
  have e: "damage_ok ?e" by (rule dmg.adds_ok [OF ok0])
  have "covered rs \<subseteq> covered ?e" using dmg.adds_cover [OF ok0, of rs] assms(2) by simp
  moreover have "damage_ok d" unfolding d by (rule damage_clip_ok [OF e])
  moreover from this have "disjoint_rects d" by (rule damage_ok_disjoint)
  moreover from \<open>damage_ok d\<close> have "\<forall>r\<in>set d. \<not> rect_empty r" by (simp add: damage_ok_def)
  moreover have "covered d \<subseteq> cells B" if "covered rs \<subseteq> cells B" for B
    using damage_adds_within [of "[]" rs B] that by (auto simp: d covered_damage_clip)
  moreover have "covered d \<subseteq> cells b" by (simp add: d covered_damage_clip)
  moreover have "covered d = covered ?e \<inter> cells b" by (simp add: d covered_damage_clip)
  ultimately show ?thesis by (simp add: damage_area_sum_card) blast
qed

theorem damage_accumulates_witness:
  "damage_ok (damage_clip (fold (\<lambda>r d. damage_add d r) [tile 0, tile 3] (damage_reset [])) (rect_make 0 0 33 4))"
  using damage_accumulates [of "[tile 0, tile 3]" "[]" "rect_make 0 0 33 4"] by simp

text \<open>With all 16 slots taken the overflow branch of \<^verbatim>\<open>damage_add\<close> overwrites \<^verbatim>\<open>rects[0]\<close> before it is
  merged, so its pixels can be lost although the comment says everything is merged.\<close>

theorem damage_add_overflow_loses:
  "damage_ok full_damage \<and> length full_damage = DAMAGE_MAX_RECTS \<and>
   (0, 0) \<in> covered full_damage \<and> (0, 0) \<notin> covered (damage_add full_damage (tile 20))"
proof -
  have "scan (\<lambda>i. rect_overlaps (full_damage ! i) (tile 20)) 0 (length full_damage) = None"
    by (auto simp: scan_None full_damage_def rect_overlaps_def tile_def rect_make_def)
  then have "merge_loop full_damage (tile 20) = (full_damage, tile 20)"
    by (simp add: merge_loop.simps [of full_damage])
  moreover have "\<not> rect_empty (tile 20)" by (simp add: tile_def rect_make_def rect_empty_def)
  moreover have "length full_damage = DAMAGE_MAX_RECTS" by (simp add: full_damage_def)
  ultimately have "damage_add full_damage (tile 20) =
      [fold (\<lambda>x u. rect_union u x) (tl full_damage) (tile 20)]"
    by (simp add: damage_add_def damage_collapse_def)
  moreover have "(0, 0) \<notin> cells (fold (\<lambda>x u. rect_union u x) (tl full_damage) (tile 20))"
    by (simp add: full_damage_def tile_def rect_make_def rect_union_def rect_empty_def Let_def cells_def
        upt_rec)
  moreover have "damage_ok full_damage"
    by (auto simp: damage_ok_def full_damage_def tile_def rect_make_def rect_empty_def rect_overlaps_def)
  moreover have "(0, 0) \<in> covered full_damage"
    by (auto simp: full_damage_def tile_def rect_make_def cells_def intro: bexI [of _ 0])
  ultimately show ?thesis by (simp add: full_damage_def)
qed

end
