(* ===== verification/Pixel.thy ===== *)
theory Pixel
  imports Prelude
begin

text \<open>
  Pixel arithmetic of \<^verbatim>\<open>src/compositor/blit.c\<close>: the rounded-corner mask with its integer square root, the
  8-bit multiplication without division and the two scalar pixel operations.  The square root is shown to be
  the integer square root, the multiplication to round \<open>a * b / 255\<close> to nearest, and the pixel operations to
  read only the colour bits of the destination.
\<close>

subsection \<open>Corner mask\<close>

definition wrap32 :: "nat \<Rightarrow> nat" where
  "wrap32 n = n mod 2 ^ 32"

lemma wrap32_small [simp]: "n < 2 ^ 32 \<Longrightarrow> wrap32 n = n"
  by (simp add: wrap32_def)

function isqrt_start :: "nat \<Rightarrow> nat \<Rightarrow> nat" where
  "isqrt_start x b = (if b > x then isqrt_start x (b div 4) else b)"
  by pat_completeness auto
termination
  by (relation "measure snd") auto

function isqrt_loop :: "nat \<Rightarrow> nat \<Rightarrow> nat \<Rightarrow> nat" where
  "isqrt_loop x r b =
     (if b = 0 then r
      else let rb = wrap32 (r + b)
           in if x \<ge> rb then isqrt_loop (x - rb) (wrap32 (r div 2 + b)) (b div 4)
              else isqrt_loop x (r div 2) (b div 4))"
  by pat_completeness auto
termination
  by (relation "measure (\<lambda>(x, r, b). b)") auto

declare isqrt_start.simps [simp del] isqrt_loop.simps [simp del]

definition isqrt_u32 :: "nat \<Rightarrow> nat" where
  "isqrt_u32 x = isqrt_loop x 0 (isqrt_start x (2 ^ 30))"

text \<open>
  \<^verbatim>\<open>rounded_corner_mask\<close>: the distance to the corner centre along one axis in sixteenths of a pixel, the
  coverage for a squared distance, and the case distinction over the surface.
\<close>

definition corner_dist16 :: "int \<Rightarrow> int \<Rightarrow> int \<Rightarrow> int" where
  "corner_dist16 l w r = l * 16 + 8 - (if l < r then (2 * r - 1) * 8 else (2 * (w - r) + 1) * 8)"

definition corner_coverage :: "int \<Rightarrow> int \<Rightarrow> nat" where
  "corner_coverage d2 r =
     (let d16 = isqrt_u32 (nat (d2 mod 2 ^ 32)); r16 = wrap32 (nat r * 16)
      in if d16 + 8 \<le> r16 then 255
         else if d16 \<ge> r16 + 8 then 0
         else let m = ((r16 + 8 - d16) * 255 + 8) div 16 in if m > 255 then 255 else m)"

definition rounded_corner_mask :: "int \<Rightarrow> int \<Rightarrow> int \<Rightarrow> int \<Rightarrow> int \<Rightarrow> nat" where
  "rounded_corner_mask lx ly w h r =
     (if lx < 0 \<or> ly < 0 \<or> lx \<ge> w \<or> ly \<ge> h then 0
      else if r \<le> 0 then 255
      else if \<not> ((lx < r \<or> lx \<ge> w - r) \<and> (ly < r \<or> ly \<ge> h - r)) then 255
      else let dx16 = corner_dist16 lx w r; dy16 = corner_dist16 ly h r
           in corner_coverage (dx16 * dx16 + dy16 * dy16) r)"

subsection \<open>Pixels\<close>

definition mul8 :: "u32 \<Rightarrow> u32 \<Rightarrow> u32" where
  "mul8 a b = (let t = a * b + 128 in drop_bit 8 (t + drop_bit 8 t))"

definition opaque_px :: "u32 \<Rightarrow> u32" where
  "opaque_px s = s OR 0xff000000"

definition clamp8 :: "u32 \<Rightarrow> u32" where
  "clamp8 v = (if v > 255 then 255 else v)"

text \<open>The part of the scalar kernels that both pixel operations share: source over destination with alpha \<open>a\<close>.\<close>

definition blend_px :: "u32 \<Rightarrow> u32 \<Rightarrow> u32 \<Rightarrow> u32" where
  "blend_px s d a =
     (let inv = 255 - a;
          sr = drop_bit 16 s AND 0xff; sg = drop_bit 8 s AND 0xff; sb = s AND 0xff;
          dr = drop_bit 16 d AND 0xff; dg = drop_bit 8 d AND 0xff; db = d AND 0xff;
          r = clamp8 (mul8 sr a + mul8 dr inv);
          g = clamp8 (mul8 sg a + mul8 dg inv);
          b = clamp8 (mul8 sb a + mul8 db inv)
      in 0xff000000 OR push_bit 16 r OR push_bit 8 g OR b)"

definition copy_masked_px :: "u32 \<Rightarrow> u32 \<Rightarrow> u32 \<Rightarrow> u32" where
  "copy_masked_px d s m = (if m = 0 then d else if m = 255 then opaque_px s else blend_px s d m)"

definition alpha_px :: "u32 \<Rightarrow> u32 \<Rightarrow> u32 \<Rightarrow> u32" where
  "alpha_px d s ga =
     (let sa = mul8 (drop_bit 24 s AND 0xff) ga
      in if sa = 0 then d else if sa = 255 then opaque_px s else blend_px s d sa)"

definition alpha_masked_px :: "u32 \<Rightarrow> u32 \<Rightarrow> u32 \<Rightarrow> u32 \<Rightarrow> u32" where
  "alpha_masked_px d s ga m =
     (let sa = mul8 (mul8 (drop_bit 24 s AND 0xff) ga) m
      in if sa = 0 then d else if sa = 255 then opaque_px s else blend_px s d sa)"


subsection \<open>The integer square root\<close>

lemma isqrt_loop_0 [simp]: "isqrt_loop x r 0 = r"
  by (subst isqrt_loop.simps) simp

lemma isqrt_start_above: "x < 4 * b \<Longrightarrow> isqrt_start x (4 * b) = isqrt_start x b"
  by (subst isqrt_start.simps) simp

lemma isqrt_start_below: "\<not> x < b \<Longrightarrow> isqrt_start x b = b"
  by (subst isqrt_start.simps) simp

lemma isqrt_start_pow:
  "isqrt_start x (4 ^ k) = 0 \<and> x = 0 \<or>
   (\<exists>j\<le>k. isqrt_start x (4 ^ k) = 4 ^ j \<and> (j = k \<or> x < 4 ^ Suc j))"
proof (induction k)
  case 0
  show ?case by (cases x) (simp_all add: isqrt_start.simps [of _ "Suc 0"] isqrt_start.simps [of _ 0])
next
  case (Suc k)
  show ?case
  proof (cases "4 ^ Suc k > x")
    case True
    then have eq: "isqrt_start x (4 ^ Suc k) = isqrt_start x (4 ^ k)"
      by (simp add: isqrt_start_above)
    from Suc show ?thesis
    proof
      assume "\<exists>j\<le>k. isqrt_start x (4 ^ k) = 4 ^ j \<and> (j = k \<or> x < 4 ^ Suc j)"
      then obtain j where "j \<le> k" "isqrt_start x (4 ^ k) = 4 ^ j" "j = k \<or> x < 4 ^ Suc j" by blast
      with True eq show ?thesis by (intro disjI2 exI [of _ j]) auto
    qed (use eq in auto)
  next
    case False
    then have "isqrt_start x (4 ^ Suc k) = 4 ^ Suc k" by (rule isqrt_start_below)
    then show ?thesis by blast
  qed
qed

text \<open>
  Invariant of the digit loop before the bit \<open>4 ^ k\<close>: the root found so far is \<open>p * 2 ^ (k + 1)\<close>, and
  \<open>x\<close> is what is left of the argument \<open>n\<close>.
\<close>

definition isqrt_inv :: "nat \<Rightarrow> nat \<Rightarrow> nat \<Rightarrow> nat \<Rightarrow> nat \<Rightarrow> bool" where
  "isqrt_inv n p q x r \<longleftrightarrow> r = p * q \<and> n = x + p * p * q \<and> x < q * (2 * p + 1)"

lemma isqrt_inv_step:
  assumes "isqrt_inv n p (4 * b) x r" and "0 < b"
  shows "r + b = b * (4 * p + 1)"
    and "x \<ge> r + b \<Longrightarrow> isqrt_inv n (2 * p + 1) b (x - (r + b)) (r div 2 + b)"
    and "x < r + b \<Longrightarrow> isqrt_inv n (2 * p) b x (r div 2)"
proof -
  show rb: "r + b = b * (4 * p + 1)" using assms by (simp add: isqrt_inv_def algebra_simps)
  have half: "r div 2 = 2 * p * b" using assms by (simp add: isqrt_inv_def)
  show "isqrt_inv n (2 * p) b x (r div 2)" if "x < r + b"
    using assms that half rb by (simp add: isqrt_inv_def algebra_simps)
  show "isqrt_inv n (2 * p + 1) b (x - (r + b)) (r div 2 + b)" if "x \<ge> r + b"
    using assms that half rb by (auto simp: isqrt_inv_def algebra_simps)
qed

lemma isqrt_no_wrap:
  assumes "isqrt_inv n p (4 * 4 ^ k) x r" "n < 2 ^ 32" "k \<le> 15"
  shows "r + 4 ^ k < 2 ^ 32"
proof (cases "p = 0")
  case True
  have "(4::nat) ^ k \<le> 4 ^ 15" using assms(3) by (intro power_increasing) auto
  with True assms(1) show ?thesis by (simp add: isqrt_inv_def)
next
  case False
  define s where "s = (2::nat) ^ k"
  have s: "(4::nat) ^ k = s * s" by (simp add: s_def flip: power_mult_distrib)
  have lt: "(2 * p * s)\<^sup>2 < (2 ^ 16)\<^sup>2"
  proof -
    have "(2 * p * s)\<^sup>2 = p * p * (4 * 4 ^ k)" by (simp add: power2_eq_square s)
    also have "\<dots> \<le> n" using assms(1) by (simp add: isqrt_inv_def)
    also have "n < (2 ^ 16)\<^sup>2" using assms(2) by simp
    finally show ?thesis .
  qed
  then have ps: "2 * p * s < 2 ^ 16" by (rule power_less_imp_less_base) simp
  have "2 * s \<le> 2 * p * s" using False by (intro mult_le_mono1) simp
  then have "2 * s < 2 ^ 16" using ps by (rule le_less_trans)
  then have "s < 2 ^ 15" by simp
  then have "(2::nat) ^ k < 2 ^ 15" by (simp add: s_def)
  then have "k < 15" by (rule power_less_imp_less_exp [rotated]) simp
  then have s14: "s \<le> 2 ^ 14" unfolding s_def by (intro power_increasing) auto
  have "r + 4 ^ k = 2 * (2 * p * s) * s + s * s" using assms(1) by (simp add: isqrt_inv_def s)
  also have "\<dots> \<le> 2 * 2 ^ 16 * 2 ^ 14 + 2 ^ 14 * 2 ^ 14"
    using ps s14 by (intro add_le_mono mult_le_mono) auto
  finally show ?thesis by simp
qed

lemma isqrt_loop_correct:
  assumes "isqrt_inv n p (4 ^ k) x r" "n < 2 ^ 32" "k \<le> 16"
  shows "(isqrt_loop x r (4 ^ k div 4))\<^sup>2 \<le> n \<and> n < (Suc (isqrt_loop x r (4 ^ k div 4)))\<^sup>2"
  using assms
proof (induction k arbitrary: p x r)
  case 0
  then show ?case by (simp add: isqrt_inv_def power2_eq_square)
next
  case (Suc k)
  let ?b = "(4::nat) ^ k"
  have inv: "isqrt_inv n p (4 * ?b) x r" using Suc.prems by simp
  have k: "k \<le> 15" using Suc.prems by simp
  note nowrap = isqrt_no_wrap [OF inv Suc.prems(2) k]
  have le: "r div 2 + ?b \<le> r + ?b" by simp
  have nw2: "r div 2 + ?b < 2 ^ 32" using le nowrap by (rule le_less_trans)
  have "isqrt_loop x r ?b =
      (if x \<ge> r + ?b then isqrt_loop (x - (r + ?b)) (r div 2 + ?b) (?b div 4)
       else isqrt_loop x (r div 2) (?b div 4))"
    using wrap32_small [OF nowrap] wrap32_small [OF nw2]
    by (simp add: isqrt_loop.simps [of x r ?b] Let_def)
  then show ?case
    using Suc.IH [OF isqrt_inv_step(2) [OF inv]] Suc.IH [OF isqrt_inv_step(3) [OF inv]] Suc.prems
    by (cases "x \<ge> r + ?b") simp_all
qed

lemma isqrt_u32_correct:
  assumes "x < 2 ^ 32"
  shows "(isqrt_u32 x)\<^sup>2 \<le> x \<and> x < (Suc (isqrt_u32 x))\<^sup>2"
proof -
  have 30: "(2::nat) ^ 30 = 4 ^ 15" by simp
  from isqrt_start_pow [of x 15] show ?thesis
  proof
    assume "isqrt_start x (4 ^ 15) = 0 \<and> x = 0"
    then show ?thesis by (auto simp: isqrt_u32_def)
  next
    assume "\<exists>j\<le>15. isqrt_start x (4 ^ 15) = 4 ^ j \<and> (j = 15 \<or> x < 4 ^ Suc j)"
    then obtain j where j: "j \<le> 15" "isqrt_start x (4 ^ 15) = 4 ^ j" "j = 15 \<or> x < 4 ^ Suc j" by blast
    then have "x < 4 ^ Suc j" using assms by auto
    then have "isqrt_inv x 0 (4 ^ Suc j) x 0" by (simp add: isqrt_inv_def)
    from isqrt_loop_correct [OF this assms] j show ?thesis
      by (simp only: isqrt_u32_def 30) simp
  qed
qed

lemma isqrt_u32_eqI:
  assumes "x < 2 ^ 32" "r\<^sup>2 \<le> x" "x < (Suc r)\<^sup>2"
  shows "isqrt_u32 x = r"
proof -
  note s = isqrt_u32_correct [OF assms(1)]
  have "isqrt_u32 x < Suc r" using s assms(3) power_less_imp_less_base [of "isqrt_u32 x" 2 "Suc r"] by simp
  moreover have "r < Suc (isqrt_u32 x)"
    using s assms(2) power_less_imp_less_base [of r 2 "Suc (isqrt_u32 x)"] by simp
  ultimately show ?thesis by simp
qed


subsection \<open>The multiplication\<close>

definition round8 :: "nat \<Rightarrow> nat" where
  "round8 t = (let t = t + 128 in (t + t div 256) div 256)"

lemma round8_div:
  assumes "t \<le> 255 * 255"
  shows "round8 t = (t + 127) div 255"
proof -
  define q where "q = (t + 128) div 256"
  define s where "s = (t + 128) mod 256"
  have T: "t + 128 = 256 * q + s" and s: "s < 256" by (simp_all add: q_def s_def)
  have q: "q \<le> 254" using assms T by linarith
  have "round8 t = (256 * q + s + q) div 256" using s by (simp add: round8_def Let_def T)
  also have "\<dots> = q + (s + q) div 256" by simp
  also have "(s + q) div 256 = (if s + q < 256 then 0 else 1)" using q s by auto
  also have "\<dots> = (s + q - 1) div 255" using q s by auto
  also have "q + (s + q - 1) div 255 = (255 * q + (s + q - 1)) div 255" by simp
  also have "255 * q + (s + q - 1) = t + 127"
  proof -
    have "1 \<le> s + q" using T by (cases "s + q") auto
    then show ?thesis using T by linarith
  qed
  finally show ?thesis .
qed

lemma round8_bound: "a \<le> 255 \<Longrightarrow> b \<le> 255 \<Longrightarrow> round8 (a * b) \<le> 255"
  using mult_le_mono [of a 255 b 255] by (simp add: round8_div)

lemma round8_unit [simp]: "a \<le> 255 \<Longrightarrow> round8 (a * 255) = a" "round8 0 = 0"
proof -
  show "round8 (a * 255) = a" if "a \<le> 255"
  proof -
    have "a * 255 \<le> 255 * 255" using that by (intro mult_le_mono1)
    then have "round8 (a * 255) = (a * 255 + 127) div 255" by (rule round8_div)
    then show ?thesis by simp
  qed
  show "round8 0 = 0" by (simp add: round8_def Let_def)
qed

lemma unat_drop8: "unat (drop_bit 8 w) = unat w div 256"
  by (simp only: unat_drop_bit_eq) (simp add: drop_bit_eq_div)

lemma unat_mul8:
  assumes "unat a \<le> 255" "unat b \<le> 255"
  shows "unat (mul8 a b) = round8 (unat a * unat b)"
proof -
  have ab: "unat a * unat b \<le> 255 * 255" using assms by (intro mult_le_mono)
  have t: "unat (a * b + 128) = unat a * unat b + 128" using ab by (simp add: unat_word_ariths)
  have "unat (a * b + 128 + drop_bit 8 (a * b + 128)) =
        unat a * unat b + 128 + (unat a * unat b + 128) div 256"
    using ab by (simp only: unat_word_ariths(1) [of "a * b + 128"] t unat_drop8) simp
  then show ?thesis
    by (simp add: mul8_def round8_def Let_def unat_drop8)
qed

subsection \<open>Colour bits\<close>

abbreviation rgb :: "u32 \<Rightarrow> u32" where
  "rgb p \<equiv> take_bit 24 p"

lemma and_ff: "x AND 0xff = take_bit 8 (x :: 'a::len word)"
  by (simp add: take_bit_eq_mask mask_eq_exp_minus_1)

lemma channel_rgb:
  "drop_bit 16 (rgb d) AND 0xff = drop_bit 16 d AND 0xff"
  "drop_bit 8 (rgb d) AND 0xff = drop_bit 8 d AND 0xff"
  "rgb d AND 0xff = d AND 0xff"
  by (simp_all add: and_ff take_bit_drop_bit take_bit_take_bit)

lemma blend_px_rgb: "blend_px s (rgb d) a = blend_px s d a"
  by (simp only: blend_px_def channel_rgb)

lemma copy_masked_px_rgb: "rgb (copy_masked_px (rgb d) s m) = rgb (copy_masked_px d s m)"
  by (simp add: copy_masked_px_def blend_px_rgb)

lemma alpha_masked_px_rgb: "rgb (alpha_masked_px (rgb d) s ga m) = rgb (alpha_masked_px d s ga m)"
  by (simp add: alpha_masked_px_def Let_def blend_px_rgb)

lemma unat_and_ff: "unat (x AND 0xff :: u32) \<le> 255"
  using take_bit_nat_less_exp [of 8 "unat x"] by (simp add: and_ff unsigned_take_bit_eq)

lemma alpha_masked_255:
  assumes "unat ga \<le> 255"
  shows "alpha_masked_px d s ga 255 = alpha_px d s ga"
proof -
  have "unat (mul8 (drop_bit 24 s AND 0xff) ga) \<le> 255"
    using assms by (simp add: unat_mul8 unat_and_ff round8_bound)
  then have "mul8 (mul8 (drop_bit 24 s AND 0xff) ga) 255 = mul8 (drop_bit 24 s AND 0xff) ga"
    by (subst word_unat_eq_iff) (simp add: unat_mul8)
  then show ?thesis by (simp add: alpha_masked_px_def alpha_px_def)
qed


text \<open>\<^verbatim>\<open>isqrt_u32\<close> returns the integer square root of every 32-bit argument, and its additions never
  wrap (the loop ends for every argument).\<close>

theorem isqrt_u32_root:
  assumes "x < 2 ^ 32"
  shows "isqrt_u32 x = r \<longleftrightarrow> r\<^sup>2 \<le> x \<and> x < (Suc r)\<^sup>2"
  using isqrt_u32_correct [OF assms] isqrt_u32_eqI [OF assms] by blast

theorem isqrt_u32_root_witness: "isqrt_u32 (2 ^ 32 - 1) = 65535"
  by (subst isqrt_u32_root) simp_all

text \<open>\<^verbatim>\<open>mul8\<close> on two 8-bit values is \<open>a * b / 255\<close> rounded to nearest, as its comment says, and stays 8 bits
  wide.\<close>

theorem mul8_rounds:
  assumes "unat a \<le> 255" "unat b \<le> 255"
  shows "unat (mul8 a b) = (unat a * unat b + 127) div 255 \<and> unat (mul8 a b) \<le> 255"
proof -
  have "unat a * unat b \<le> 255 * 255" using assms by (intro mult_le_mono)
  then show ?thesis using round8_bound [OF assms] unat_mul8 [OF assms] by (simp add: round8_div)
qed

theorem mul8_rounds_witness: "unat (mul8 200 100) = 78"
  using mul8_rounds [of 200 100] by simp

subsection \<open>The corner mask\<close>

lemma rounded_corner_mask_bound: "rounded_corner_mask lx ly w h r \<le> 255"
  by (simp add: rounded_corner_mask_def corner_coverage_def Let_def)

lemma rounded_corner_mask_rows:
  assumes "0 \<le> lx" "lx < w" "0 \<le> ly" "ly < h" "\<not> (ly < r \<or> ly \<ge> h - r)"
  shows "rounded_corner_mask lx ly w h r = 255"
  using assms by (simp add: rounded_corner_mask_def)

lemma corner_dist16_mirror:
  assumes "lx < r \<or> lx \<ge> w - r" "2 * r \<le> w"
  shows "corner_dist16 (w - 1 - lx) w r = - corner_dist16 lx w r"
  using assms by (auto simp: corner_dist16_def)

lemma rounded_corner_mask_mirror_x:
  assumes "0 \<le> lx" "lx < w" "2 * r \<le> w"
  shows "rounded_corner_mask (w - 1 - lx) ly w h r = rounded_corner_mask lx ly w h r"
proof (cases "lx < r \<or> lx \<ge> w - r")
  case True
  from assms True show ?thesis
    unfolding rounded_corner_mask_def corner_dist16_mirror [OF True assms(3)] Let_def by auto
next
  case False
  then have "\<not> (w - 1 - lx < r \<or> w - 1 - lx \<ge> w - r)" by auto
  with False assms show ?thesis by (simp add: rounded_corner_mask_def)
qed

lemma rounded_corner_mask_transpose:
  "rounded_corner_mask lx ly w h r = rounded_corner_mask ly lx h w r"
  unfolding rounded_corner_mask_def Let_def
  by (simp add: add.commute [of "corner_dist16 lx w r * _"] conj_commute disj_commute)

text \<open>The corner mask of a surface with a radius of at most half its sides is the same in all four
  corners (mirroring in x and in y changes nothing), is 0 outside the surface, and is full on every pixel that is
  outside the corner squares.\<close>

theorem rounded_corner_mask_symmetric:
  assumes "0 \<le> lx" "lx < w" "0 \<le> ly" "ly < h" "0 < r" "2 * r \<le> w" "2 * r \<le> h"
  shows "rounded_corner_mask (w - 1 - lx) ly w h r = rounded_corner_mask lx ly w h r \<and>
         rounded_corner_mask lx (h - 1 - ly) w h r = rounded_corner_mask lx ly w h r \<and>
         (r \<le> lx \<and> lx < w - r \<or> r \<le> ly \<and> ly < h - r \<longrightarrow> rounded_corner_mask lx ly w h r = 255) \<and>
         rounded_corner_mask lx (h + ly) w h r = 0"
proof (intro conjI impI)
  show "rounded_corner_mask (w - 1 - lx) ly w h r = rounded_corner_mask lx ly w h r"
    using assms by (intro rounded_corner_mask_mirror_x)
  have "rounded_corner_mask (h - 1 - ly) lx h w r = rounded_corner_mask ly lx h w r"
    using assms by (intro rounded_corner_mask_mirror_x)
  then show "rounded_corner_mask lx (h - 1 - ly) w h r = rounded_corner_mask lx ly w h r"
    by (simp only: rounded_corner_mask_transpose [of lx])
  show "rounded_corner_mask lx ly w h r = 255" if "r \<le> lx \<and> lx < w - r \<or> r \<le> ly \<and> ly < h - r"
    using that assms by (auto simp: rounded_corner_mask_def)
  show "rounded_corner_mask lx (h + ly) w h r = 0"
    using assms by (simp add: rounded_corner_mask_def)
qed

theorem rounded_corner_mask_symmetric_witness:
  "rounded_corner_mask 19 1 20 20 8 = rounded_corner_mask 0 1 20 20 8"
  using rounded_corner_mask_symmetric [of 0 20 1 20 8] by simp

end
