(* ===== verification/BlitSimd.thy ===== *)
theory BlitSimd
  imports Pixel
begin

text \<open>
  The vector row kernels of \<^verbatim>\<open>src/compositor/blit_simd.c\<close>.  A 128-bit register of pixels is a list of four
  words, a register of 16-bit lanes a list of eight; a 256-bit register is the concatenation of its two 128-bit
  lanes, on which the AVX2 unpack, shuffle and pack instructions work separately.  The SSE2 and AVX2 kernels are
  compared with the scalar pixel operation: equal on every colour bit, and equal on all bits for a destination
  whose unused byte is \<open>0xff\<close>.
\<close>

subsection \<open>Instructions\<close>

definition bytes16 :: "u32 \<Rightarrow> u16 list" where
  "bytes16 p = map (\<lambda>k. ucast (drop_bit k p AND 0xff)) [0, 8, 16, 24]"

definition unpacklo_epi8 :: "u32 list \<Rightarrow> u16 list" where
  "unpacklo_epi8 v = concat (map bytes16 (take 2 v))"

definition unpackhi_epi8 :: "u32 list \<Rightarrow> u16 list" where
  "unpackhi_epi8 v = concat (map bytes16 (drop 2 v))"

definition shufflelo_3333 :: "u16 list \<Rightarrow> u16 list" where
  "shufflelo_3333 v = replicate 4 (v ! 3) @ drop 4 v"

definition shufflehi_3333 :: "u16 list \<Rightarrow> u16 list" where
  "shufflehi_3333 v = take 4 v @ replicate 4 (v ! 7)"

definition sat8 :: "u16 \<Rightarrow> u32" where
  "sat8 x = (if sint x < 0 then 0 else if sint x > 255 then 255 else ucast x)"

definition pack4 :: "u16 list \<Rightarrow> u32" where
  "pack4 v = sat8 (v ! 0) OR push_bit 8 (sat8 (v ! 1)) OR push_bit 16 (sat8 (v ! 2)) OR push_bit 24 (sat8 (v ! 3))"

definition packus_epi16 :: "u16 list \<Rightarrow> u16 list \<Rightarrow> u32 list" where
  "packus_epi16 lo hi = [pack4 (take 4 lo), pack4 (drop 4 lo), pack4 (take 4 hi), pack4 (drop 4 hi)]"

definition or_alpha :: "u32 list \<Rightarrow> u32 list" where
  "or_alpha v = map (\<lambda>p. p OR 0xff000000) v"

subsection \<open>SSE2 kernels\<close>

definition mul8_sse2 :: "u16 list \<Rightarrow> u16 list" where
  "mul8_sse2 ab =
     (let t = map (\<lambda>x. x + 128) ab; t = map2 (+) t (map (drop_bit 8) t) in map (drop_bit 8) t)"

function blit_copy_row_sse2 :: "u32 list \<Rightarrow> u32 list \<Rightarrow> u32 list" where
  "blit_copy_row_sse2 dst src =
     (if 4 \<le> length dst then or_alpha (take 4 src) @ blit_copy_row_sse2 (drop 4 dst) (drop 4 src)
      else map2 (\<lambda>d s. opaque_px s) dst src)"
  by pat_completeness auto
termination
  by (relation "measure (\<lambda>(dst, src). length dst)") auto

definition blend_half_sse2 :: "u16 \<Rightarrow> u16 list \<Rightarrow> u16 list \<Rightarrow> u16 list" where
  "blend_half_sse2 ga16 s d =
     (let a = shufflehi_3333 (shufflelo_3333 s);
          ae = mul8_sse2 (map (\<lambda>x. x * ga16) a);
          inv = map (\<lambda>x. 255 - x) ae
      in map2 (+) (mul8_sse2 (map2 (*) s ae)) (mul8_sse2 (map2 (*) d inv)))"

definition alpha_block_sse2 :: "u32 \<Rightarrow> u32 list \<Rightarrow> u32 list \<Rightarrow> u32 list" where
  "alpha_block_sse2 ga d s =
     (let r_lo = blend_half_sse2 (ucast ga) (unpacklo_epi8 s) (unpacklo_epi8 d);
          r_hi = blend_half_sse2 (ucast ga) (unpackhi_epi8 s) (unpackhi_epi8 d)
      in or_alpha (packus_epi16 r_lo r_hi))"

function alpha_loop_sse2 :: "u32 \<Rightarrow> u32 list \<Rightarrow> u32 list \<Rightarrow> u32 list" where
  "alpha_loop_sse2 ga dst src =
     (if 4 \<le> length dst
      then alpha_block_sse2 ga (take 4 dst) (take 4 src) @ alpha_loop_sse2 ga (drop 4 dst) (drop 4 src)
      else map2 (\<lambda>d s. alpha_px d s ga) dst src)"
  by pat_completeness auto
termination
  by (relation "measure (\<lambda>(ga, dst, src). length dst)") auto

definition blit_alpha_row_sse2 :: "u32 \<Rightarrow> u32 list \<Rightarrow> u32 list \<Rightarrow> u32 list" where
  "blit_alpha_row_sse2 ga dst src = (if ga = 0 then dst else alpha_loop_sse2 ga dst src)"

subsection \<open>AVX2 kernels\<close>

text \<open>An operation on each 128-bit lane of a 256-bit register of eight pixels or sixteen 16-bit lanes.\<close>

definition mul8_avx2 :: "u16 list \<Rightarrow> u16 list" where
  "mul8_avx2 ab =
     (let t = map (\<lambda>x. x + 128) ab; t = map2 (+) t (map (drop_bit 8) t) in map (drop_bit 8) t)"

function blit_copy_row_avx2 :: "u32 list \<Rightarrow> u32 list \<Rightarrow> u32 list" where
  "blit_copy_row_avx2 dst src =
     (if 8 \<le> length dst then or_alpha (take 8 src) @ blit_copy_row_avx2 (drop 8 dst) (drop 8 src)
      else if 0 < length dst then blit_copy_row_sse2 dst src else dst)"
  by pat_completeness auto
termination
  by (relation "measure (\<lambda>(dst, src). length dst)") auto

definition per_lane :: "nat \<Rightarrow> ('a list \<Rightarrow> 'b list) \<Rightarrow> 'a list \<Rightarrow> 'b list" where
  "per_lane n f v = f (take n v) @ f (drop n v)"

definition packus_epi16_256 :: "u16 list \<Rightarrow> u16 list \<Rightarrow> u32 list" where
  "packus_epi16_256 lo hi = packus_epi16 (take 8 lo) (take 8 hi) @ packus_epi16 (drop 8 lo) (drop 8 hi)"

definition blend_half_avx2 :: "u16 \<Rightarrow> u16 list \<Rightarrow> u16 list \<Rightarrow> u16 list" where
  "blend_half_avx2 ga16 s d =
     (let a = per_lane 8 shufflehi_3333 (per_lane 8 shufflelo_3333 s);
          ae = mul8_avx2 (map (\<lambda>x. x * ga16) a);
          inv = map (\<lambda>x. 255 - x) ae
      in map2 (+) (mul8_avx2 (map2 (*) s ae)) (mul8_avx2 (map2 (*) d inv)))"

definition alpha_block_avx2 :: "u32 \<Rightarrow> u32 list \<Rightarrow> u32 list \<Rightarrow> u32 list" where
  "alpha_block_avx2 ga d s =
     (let r_lo = blend_half_avx2 (ucast ga) (per_lane 4 unpacklo_epi8 s) (per_lane 4 unpacklo_epi8 d);
          r_hi = blend_half_avx2 (ucast ga) (per_lane 4 unpackhi_epi8 s) (per_lane 4 unpackhi_epi8 d)
      in or_alpha (packus_epi16_256 r_lo r_hi))"

function alpha_loop_avx2 :: "u32 \<Rightarrow> u32 list \<Rightarrow> u32 list \<Rightarrow> u32 list" where
  "alpha_loop_avx2 ga dst src =
     (if 8 \<le> length dst
      then alpha_block_avx2 ga (take 8 dst) (take 8 src) @ alpha_loop_avx2 ga (drop 8 dst) (drop 8 src)
      else if 0 < length dst then blit_alpha_row_sse2 ga dst src else dst)"
  by pat_completeness auto
termination
  by (relation "measure (\<lambda>(ga, dst, src). length dst)") auto

definition blit_alpha_row_avx2 :: "u32 \<Rightarrow> u32 list \<Rightarrow> u32 list \<Rightarrow> u32 list" where
  "blit_alpha_row_avx2 ga dst src = (if ga = 0 then dst else alpha_loop_avx2 ga dst src)"

declare blit_copy_row_sse2.simps [simp del] alpha_loop_sse2.simps [simp del]
  blit_copy_row_avx2.simps [simp del] alpha_loop_avx2.simps [simp del]

subsection \<open>Lanes against scalars\<close>

definition m16 :: "u16 \<Rightarrow> u16" where
  "m16 x = drop_bit 8 (x + 128 + drop_bit 8 (x + 128))"

lemma mul8_sse2_map: "mul8_sse2 v = map m16 v"
  by (induction v) (simp_all add: mul8_sse2_def Let_def m16_def)

lemma mul8_avx2_map: "mul8_avx2 v = map m16 v"
  by (induction v) (simp_all add: mul8_avx2_def Let_def m16_def)

text \<open>The 16-bit products never overflow a lane.\<close>

lemma unat_m16:
  assumes "unat a \<le> 255" "unat b \<le> 255"
  shows "unat (m16 (a * b)) = round8 (unat a * unat b)"
proof -
  have ab: "unat a * unat b \<le> 255 * 255" using assms by (intro mult_le_mono)
  have t: "unat (a * b + 128) = unat a * unat b + 128" using ab by (simp add: unat_word_ariths)
  have "unat (a * b + 128 + drop_bit 8 (a * b + 128)) =
        unat a * unat b + 128 + (unat a * unat b + 128) div 256"
    using ab by (simp only: unat_word_ariths(1) [of "a * b + 128"] t unat_drop8) simp
  then show ?thesis by (simp add: m16_def round8_def Let_def unat_drop8)
qed

lemma unat_sat8:
  assumes "unat x < 2 ^ 15"
  shows "unat (sat8 x) = min 255 (unat x)"
proof -
  have u: "uint x = int (unat x)" by simp
  have "int (unat x) < int (2 ^ 15)" using assms by (simp only: of_nat_less_iff)
  then have "uint x < 2 ^ 15" unfolding u by (simp del: int_nat_eq)
  moreover have "- (2 ^ 15) \<le> uint x" by (rule order_trans [of _ 0]) simp_all
  ultimately have "signed_take_bit 15 (uint x) = uint x" by (intro signed_take_bit_int_eq_self)
  then have "sint x = int (unat x)" by (simp add: sint_uint)
  moreover have "unat (ucast x :: u32) = unat x"
    using assms by (simp add: unsigned_ucast_eq take_bit_nat_eq_self)
  moreover have "255 < uint x \<longleftrightarrow> 255 < unat x"
    using of_nat_less_iff [of 255 "unat x", where ?'a = int] by simp
  ultimately show ?thesis by (auto simp: sat8_def)
qed

text \<open>One channel of the vector kernel equals one channel of the scalar kernel.\<close>

lemma channel_eq:
  fixes s d sa :: u32 and s16 d16 ae :: u16
  assumes "unat s16 = unat s" "unat d16 = unat d" "unat ae = unat sa"
    and "unat s \<le> 255" "unat d \<le> 255" "unat sa \<le> 255"
  shows "sat8 (m16 (s16 * ae) + m16 (d16 * (255 - ae))) = clamp8 (mul8 s sa + mul8 d (255 - sa))"
proof -
  have ae: "ae \<le> 255" "sa \<le> 255" using assms by (simp_all add: word_le_nat_alt)
  have inv16: "unat (255 - ae) = 255 - unat sa" using ae assms by (simp add: unat_sub)
  have inv: "unat (255 - sa) = 255 - unat sa" using ae by (simp add: unat_sub)
  let ?m = "round8 (unat s * unat sa)" and ?n = "round8 (unat d * (255 - unat sa))"
  have m: "?m \<le> 255" "?n \<le> 255" using assms by (simp_all add: round8_bound)
  have "unat (m16 (s16 * ae)) = ?m" using assms by (simp add: unat_m16)
  moreover have "unat (m16 (d16 * (255 - ae))) = ?n" using assms inv16 by (simp add: unat_m16)
  ultimately have l: "unat (m16 (s16 * ae) + m16 (d16 * (255 - ae))) = ?m + ?n"
    using m by (simp add: unat_word_ariths)
  have "unat (mul8 s sa) = ?m" using assms by (simp add: unat_mul8)
  moreover have "unat (mul8 d (255 - sa)) = ?n" using assms inv by (simp add: unat_mul8)
  ultimately have r: "unat (mul8 s sa + mul8 d (255 - sa)) = ?m + ?n"
    using m by (simp add: unat_word_ariths)
  have "unat (sat8 (m16 (s16 * ae) + m16 (d16 * (255 - ae)))) = min 255 (?m + ?n)"
    using l m by (subst unat_sat8) auto
  also have "\<dots> = unat (clamp8 (mul8 s sa + mul8 d (255 - sa)))"
    using r by (auto simp: clamp8_def word_less_nat_alt)
  finally show ?thesis by (simp add: word_unat_eq_iff)
qed


lemma nth_bytes16:
  "bytes16 p = [ucast (p AND 0xff), ucast (drop_bit 8 p AND 0xff), ucast (drop_bit 16 p AND 0xff),
     ucast (drop_bit 24 p AND 0xff)]"
  by (simp add: bytes16_def)

text \<open>A pixel through the vector kernel, as the instructions compute it.\<close>

definition lane_px :: "u32 \<Rightarrow> u32 \<Rightarrow> u32 \<Rightarrow> u32" where
  "lane_px ga d s =
     (let ae = m16 (bytes16 s ! 3 * ucast ga)
      in pack4 (map (\<lambda>k. m16 (bytes16 s ! k * ae) + m16 (bytes16 d ! k * (255 - ae))) [0, 1, 2, 3])
         OR 0xff000000)"

lemma blend_half_sse2_two:
  "blend_half_sse2 g (bytes16 s @ bytes16 t) (bytes16 d @ bytes16 e) =
   (let ae = m16 (bytes16 s ! 3 * g) in
      map (\<lambda>k. m16 (bytes16 s ! k * ae) + m16 (bytes16 d ! k * (255 - ae))) [0, 1, 2, 3]) @
   (let ae = m16 (bytes16 t ! 3 * g) in
      map (\<lambda>k. m16 (bytes16 t ! k * ae) + m16 (bytes16 e ! k * (255 - ae))) [0, 1, 2, 3])"
  by (simp add: blend_half_sse2_def shufflelo_3333_def shufflehi_3333_def mul8_sse2_map nth_bytes16 Let_def
      numeral_eq_Suc)

lemma alpha_block_sse2_px:
  "alpha_block_sse2 ga [d0, d1, d2, d3] [s0, s1, s2, s3] =
   [lane_px ga d0 s0, lane_px ga d1 s1, lane_px ga d2 s2, lane_px ga d3 s3]"
  by (simp add: alpha_block_sse2_def unpacklo_epi8_def unpackhi_epi8_def blend_half_sse2_two packus_epi16_def
      or_alpha_def lane_px_def Let_def)

lemma length_four: "length xs = 4 \<Longrightarrow> \<exists>a b c d. xs = [a, b, c, d]"
  by (auto simp: numeral_eq_Suc length_Suc_conv)

lemma alpha_block_sse2_map:
  assumes "length d = 4" "length s = 4"
  shows "alpha_block_sse2 ga d s = map2 (lane_px ga) d s"
  using assms length_four [of d] length_four [of s] by (auto simp: alpha_block_sse2_px)

lemma blend_half_avx2_lanes:
  assumes "length s = 16" "length d = 16"
  shows "blend_half_avx2 g s d = blend_half_sse2 g (take 8 s) (take 8 d) @ blend_half_sse2 g (drop 8 s) (drop 8 d)"
proof -
  obtain s1 s2 where s: "s = s1 @ s2" "length s1 = 8" "length s2 = 8"
    using assms by (intro that [of "take 8 s" "drop 8 s"]) auto
  obtain d1 d2 where d: "d = d1 @ d2" "length d1 = 8" "length d2 = 8"
    using assms by (intro that [of "take 8 d" "drop 8 d"]) auto
  show ?thesis
    by (simp add: s d blend_half_avx2_def blend_half_sse2_def per_lane_def mul8_avx2_map mul8_sse2_map
        shufflelo_3333_def shufflehi_3333_def Let_def del: append_assoc)
qed

lemma alpha_block_avx2_lanes:
  assumes "length d = 8" "length s = 8"
  shows "alpha_block_avx2 ga d s =
         alpha_block_sse2 ga (take 4 d) (take 4 s) @ alpha_block_sse2 ga (drop 4 d) (drop 4 s)"
proof -
  have len: "length (unpacklo_epi8 (take 4 v)) = 8" "length (unpacklo_epi8 (drop 4 v)) = 8"
    "length (unpackhi_epi8 (take 4 v)) = 8" "length (unpackhi_epi8 (drop 4 v)) = 8" if "length v = 8" for v
    using that by (auto simp: unpacklo_epi8_def unpackhi_epi8_def bytes16_def numeral_eq_Suc length_Suc_conv)
  have half: "length (blend_half_sse2 g a b) = 8" if "length a = 8" "length b = 8" for g a b
    using that by (simp add: blend_half_sse2_def shufflelo_3333_def shufflehi_3333_def mul8_sse2_map Let_def)
  show ?thesis
    using assms
    by (simp add: alpha_block_avx2_def alpha_block_sse2_def per_lane_def blend_half_avx2_lanes len half Let_def
        packus_epi16_256_def or_alpha_def)
qed

lemma or_alpha_opaque: "or_alpha v = map opaque_px v"
  by (simp add: or_alpha_def opaque_px_def)

text \<open>The row kernels pixel by pixel: the loop tail is scalar.\<close>

lemma blit_copy_row_sse2_map:
  "length dst = length src \<Longrightarrow> blit_copy_row_sse2 dst src = map opaque_px src"
proof (induction dst src rule: blit_copy_row_sse2.induct)
  case (1 dst src)
  show ?case
  proof (cases "4 \<le> length dst")
    case True
    have "map opaque_px src = map opaque_px (take 4 src) @ map opaque_px (drop 4 src)"
      by (simp flip: map_append)
    with True 1 show ?thesis
      by (simp add: blit_copy_row_sse2.simps [of dst src] or_alpha_opaque)
  next
    case False
    have "map2 (\<lambda>d. opaque_px) dst src = map opaque_px src"
      using "1.prems" by (induction dst src rule: list_induct2) auto
    with False show ?thesis by (simp add: blit_copy_row_sse2.simps [of dst src])
  qed
qed

lemma blit_copy_row_avx2_map:
  "length dst = length src \<Longrightarrow> blit_copy_row_avx2 dst src = map opaque_px src"
proof (induction dst src rule: blit_copy_row_avx2.induct)
  case (1 dst src)
  show ?case
  proof (cases "8 \<le> length dst")
    case True
    have "map opaque_px src = map opaque_px (take 8 src) @ map opaque_px (drop 8 src)"
      by (simp flip: map_append)
    with True 1 show ?thesis
      by (simp add: blit_copy_row_avx2.simps [of dst src] or_alpha_opaque)
  next
    case False
    with "1.prems" show ?thesis
      by (auto simp: blit_copy_row_avx2.simps [of dst src] blit_copy_row_sse2_map)
  qed
qed


lemma alpha_loop_sse2_px:
  "length dst = length src \<Longrightarrow> x < length dst \<Longrightarrow>
   length (alpha_loop_sse2 ga dst src) = length dst \<and>
   (alpha_loop_sse2 ga dst src ! x = lane_px ga (dst ! x) (src ! x) \<or>
    alpha_loop_sse2 ga dst src ! x = alpha_px (dst ! x) (src ! x) ga)"
proof (induction ga dst src arbitrary: x rule: alpha_loop_sse2.induct)
  case (1 ga dst src)
  show ?case
  proof (cases "4 \<le> length dst")
    case True
    let ?t = "alpha_loop_sse2 ga (drop 4 dst) (drop 4 src)"
    have step: "alpha_loop_sse2 ga dst src = map2 (lane_px ga) (take 4 dst) (take 4 src) @ ?t"
      using True "1.prems"(1)
      by (simp add: alpha_loop_sse2.simps [of ga dst src] alpha_block_sse2_map)
    have len: "length ?t = length dst - 4"
    proof (cases "length dst = 4")
      case True
      then show ?thesis using "1.prems"(1) by (simp add: alpha_loop_sse2.simps [of ga "[]"])
    next
      case False
      then show ?thesis using "1.IH" [OF True, of 0] "1.prems"(1) True by simp
    qed
    show ?thesis
    proof (cases "x < 4")
      case True
      then show ?thesis using step len "1.prems" \<open>4 \<le> length dst\<close> by (simp add: nth_append)
    next
      case False
      then show ?thesis
        using step len "1.prems" \<open>4 \<le> length dst\<close> "1.IH" [OF \<open>4 \<le> length dst\<close>, of "x - 4"]
        by (simp add: nth_append)
    qed
  next
    case False
    with "1.prems" show ?thesis by (simp add: alpha_loop_sse2.simps [of ga dst src])
  qed
qed


lemma alpha_const: "(0xff000000 :: u32) = push_bit 24 (mask 8)"
  by (simp add: mask_eq_exp_minus_1 push_bit_eq_mult)

lemma push_byte_alpha: "unat a \<le> 255 \<Longrightarrow> push_bit 24 a OR 0xff000000 = (0xff000000 :: u32)"
proof -
  assume "unat a \<le> 255"
  then have "take_bit 8 a = a" by (simp add: word_unat_eq_iff unsigned_take_bit_eq take_bit_nat_eq_self)
  then have "push_bit 24 a OR push_bit 24 (mask 8) = push_bit 24 (take_bit 8 a OR mask 8)"
    by (simp add: push_bit_or)
  also have "take_bit 8 a OR mask 8 = mask 8" by (rule bit_word_eqI) (auto simp: bit_simps)
  finally show ?thesis by (simp add: alpha_const)
qed

lemma recompose:
  "0xff000000 OR push_bit 16 (drop_bit 16 d AND 0xff) OR push_bit 8 (drop_bit 8 d AND 0xff) OR (d AND 0xff) =
   (opaque_px d :: u32)"
  unfolding opaque_px_def and_ff alpha_const
proof (rule bit_word_eqI)
  fix n
  assume "n < LENGTH(32)"
  consider "n < 8" | "8 \<le> n" "n < 16" | "16 \<le> n" "n < 24" | "24 \<le> n" by linarith
  then show "bit (push_bit 24 (mask 8) OR push_bit 16 (take_bit 8 (drop_bit 16 d)) OR
      push_bit 8 (take_bit 8 (drop_bit 8 d)) OR take_bit 8 d) n \<longleftrightarrow> bit (d OR push_bit 24 (mask 8)) n"
    using \<open>n < LENGTH(32)\<close> by cases (auto simp: bit_simps)
qed

lemma unat_clamp8: "unat (clamp8 v) \<le> 255"
  by (simp add: clamp8_def word_less_nat_alt)

lemma mul8_unit:
  assumes "unat c \<le> 255"
  shows "mul8 c 255 = c" "mul8 c 0 = 0" "clamp8 c = c"
  using assms by (simp_all add: word_unat_eq_iff unat_mul8 clamp8_def word_less_nat_alt)

lemma blend_px_ends: "blend_px s d 0 = opaque_px d" "blend_px s d 255 = opaque_px s"
  unfolding blend_px_def Let_def
  by (simp_all only: diff_self diff_0_right mul8_unit [OF unat_and_ff] add_0_left add_0_right recompose)

lemma unat_ucast_byte: "unat (ucast (x AND 0xff :: u32) :: u16) = unat (x AND 0xff)"
proof -
  have "unat (x AND 0xff) < 2 ^ 16" using unat_and_ff [of x] by simp
  then show ?thesis by (simp add: unsigned_ucast_eq take_bit_nat_eq_self)
qed

lemma lane_px_blend:
  assumes "unat ga \<le> 255"
  shows "lane_px ga d s = blend_px s d (mul8 (drop_bit 24 s AND 0xff) ga)"
proof -
  define sa where "sa = mul8 (drop_bit 24 s AND 0xff) ga"
  define ae where "ae = m16 (bytes16 s ! 3 * ucast ga)"
  have ga: "unat (ucast ga :: u16) = unat ga" using assms by (simp add: unsigned_ucast_eq take_bit_nat_eq_self)
  have sa: "unat sa \<le> 255" using assms by (simp add: sa_def unat_mul8 unat_and_ff round8_bound)
  have ae: "unat ae = unat sa"
    using assms by (simp add: ae_def sa_def nth_bytes16 unat_m16 unat_mul8 unat_and_ff unat_ucast_byte ga)
  have ch: "sat8 (m16 (ucast (p AND 0xff) * ae) + m16 (ucast (q AND 0xff) * (255 - ae))) =
      clamp8 (mul8 (p AND 0xff) sa + mul8 (q AND 0xff) (255 - sa))" for p q :: u32
    by (intro channel_eq) (simp_all add: unat_ucast_byte unat_and_ff ae sa)
  have "lane_px ga d s =
      clamp8 (mul8 (s AND 0xff) sa + mul8 (d AND 0xff) (255 - sa)) OR
      push_bit 8 (clamp8 (mul8 (drop_bit 8 s AND 0xff) sa + mul8 (drop_bit 8 d AND 0xff) (255 - sa))) OR
      push_bit 16 (clamp8 (mul8 (drop_bit 16 s AND 0xff) sa + mul8 (drop_bit 16 d AND 0xff) (255 - sa))) OR
      (push_bit 24 (clamp8 (mul8 (drop_bit 24 s AND 0xff) sa + mul8 (drop_bit 24 d AND 0xff) (255 - sa))) OR
       0xff000000)"
    unfolding lane_px_def ae_def [symmetric] Let_def pack4_def
    by (simp add: nth_bytes16 ch or.assoc)
  then show ?thesis
    unfolding push_byte_alpha [OF unat_clamp8] blend_px_def sa_def [symmetric] Let_def
    by (simp add: or.assoc or.commute or.left_commute)
qed

lemma lane_px_cases:
  assumes "unat ga \<le> 255"
  shows "rgb (lane_px ga d s) = rgb (alpha_px d s ga)"
    and "opaque_px d = d \<Longrightarrow> lane_px ga d s = alpha_px d s ga"
proof -
  have op: "rgb (opaque_px d) = rgb d"
    unfolding opaque_px_def alpha_const by (rule bit_word_eqI) (auto simp: bit_simps)
  show "rgb (lane_px ga d s) = rgb (alpha_px d s ga)"
    by (simp add: lane_px_blend assms alpha_px_def Let_def blend_px_ends op)
  show "lane_px ga d s = alpha_px d s ga" if "opaque_px d = d"
    using that by (simp add: lane_px_blend assms alpha_px_def Let_def blend_px_ends)
qed


lemma blit_alpha_row_sse2_px:
  assumes "length dst = length src"
  shows "length (blit_alpha_row_sse2 (ucast (a :: u8)) dst src) = length dst"
    and "x < length dst \<Longrightarrow>
      blit_alpha_row_sse2 (ucast a) dst src ! x = lane_px (ucast a) (dst ! x) (src ! x) \<or>
      blit_alpha_row_sse2 (ucast a) dst src ! x = alpha_px (dst ! x) (src ! x) (ucast a)"
proof -
  have z: "mul8 c 0 = 0" for c by (simp add: mul8_def)
  show "length (blit_alpha_row_sse2 (ucast a) dst src) = length dst"
  proof (cases "dst = []")
    case True
    with assms show ?thesis by (simp add: blit_alpha_row_sse2_def alpha_loop_sse2.simps [of _ "[]"])
  next
    case False
    then have "0 < length dst" by simp
    with assms show ?thesis
      using alpha_loop_sse2_px [OF assms, of 0 "ucast a"] by (simp add: blit_alpha_row_sse2_def)
  qed
  show "blit_alpha_row_sse2 (ucast a) dst src ! x = lane_px (ucast a) (dst ! x) (src ! x) \<or>
      blit_alpha_row_sse2 (ucast a) dst src ! x = alpha_px (dst ! x) (src ! x) (ucast a)" if "x < length dst"
    using alpha_loop_sse2_px [OF assms that, of "ucast a"]
    by (auto simp: blit_alpha_row_sse2_def alpha_px_def z)
qed

lemma alpha_loop_avx2_px:
  "length dst = length src \<Longrightarrow>
   length (alpha_loop_avx2 (ucast (a :: u8)) dst src) = length dst \<and>
   (\<forall>x<length dst.
      alpha_loop_avx2 (ucast a) dst src ! x = lane_px (ucast a) (dst ! x) (src ! x) \<or>
      alpha_loop_avx2 (ucast a) dst src ! x = alpha_px (dst ! x) (src ! x) (ucast a))"
proof (induction "ucast a :: u32" dst src rule: alpha_loop_avx2.induct)
  case (1 dst src)
  let ?g = "ucast a :: u32"
  show ?case
  proof (cases "8 \<le> length dst")
    case True
    let ?t = "alpha_loop_avx2 ?g (drop 8 dst) (drop 8 src)"
    have halves: "take 8 v = take 4 v @ take 4 (drop 4 v)" for v :: "u32 list"
      by (metis add.commute numeral_Bit0 take_add)
    have "alpha_block_avx2 ?g (take 8 dst) (take 8 src) =
        map2 (lane_px ?g) (take 4 dst) (take 4 src) @ map2 (lane_px ?g) (take 4 (drop 4 dst)) (take 4 (drop 4 src))"
      using True "1.prems"
      by (simp add: alpha_block_avx2_lanes alpha_block_sse2_map take_drop)
    also have "\<dots> = map2 (lane_px ?g) (take 8 dst) (take 8 src)"
      using True "1.prems" by (simp add: halves)
    finally have step: "alpha_loop_avx2 ?g dst src = map2 (lane_px ?g) (take 8 dst) (take 8 src) @ ?t"
      using True by (simp add: alpha_loop_avx2.simps [of ?g dst src])
    have ih: "length ?t = length dst - 8 \<and> (\<forall>x<length dst - 8.
       ?t ! x = lane_px ?g (drop 8 dst ! x) (drop 8 src ! x) \<or> ?t ! x = alpha_px (drop 8 dst ! x) (drop 8 src ! x) ?g)"
      using "1.hyps" [OF True] "1.prems" by simp
    show ?thesis
    proof (intro conjI allI impI)
      show "length (alpha_loop_avx2 ?g dst src) = length dst" using step ih True "1.prems" by simp
      fix x assume x: "x < length dst"
      show "alpha_loop_avx2 ?g dst src ! x = lane_px ?g (dst ! x) (src ! x) \<or>
          alpha_loop_avx2 ?g dst src ! x = alpha_px (dst ! x) (src ! x) ?g"
      proof (cases "x < 8")
        case False
        then show ?thesis
          using step x True "1.prems" spec [OF conjunct2 [OF ih], of "x - 8"] by (simp add: nth_append)
      qed (use step x True "1.prems" in \<open>simp add: nth_append\<close>)
    qed
  next
    case False
    with "1.prems" blit_alpha_row_sse2_px [OF "1.prems", where a = a] show ?thesis
      by (auto simp: alpha_loop_avx2.simps [of ?g dst src])
  qed
qed

lemma blit_alpha_row_avx2_px:
  assumes "length dst = length src"
  shows "length (blit_alpha_row_avx2 (ucast (a :: u8)) dst src) = length dst"
    and "x < length dst \<Longrightarrow>
      blit_alpha_row_avx2 (ucast a) dst src ! x = lane_px (ucast a) (dst ! x) (src ! x) \<or>
      blit_alpha_row_avx2 (ucast a) dst src ! x = alpha_px (dst ! x) (src ! x) (ucast a)"
proof -
  have z: "mul8 c 0 = 0" for c by (simp add: mul8_def)
  show "length (blit_alpha_row_avx2 (ucast a) dst src) = length dst"
    using alpha_loop_avx2_px [OF assms, of a] by (simp add: blit_alpha_row_avx2_def)
  show "blit_alpha_row_avx2 (ucast a) dst src ! x = lane_px (ucast a) (dst ! x) (src ! x) \<or>
      blit_alpha_row_avx2 (ucast a) dst src ! x = alpha_px (dst ! x) (src ! x) (ucast a)" if "x < length dst"
    using alpha_loop_avx2_px [OF assms, of a] that
    by (auto simp: blit_alpha_row_avx2_def alpha_px_def z)
qed


subsection \<open>The contract of a row kernel\<close>

text \<open>
  What the blit operations need of a row kernel: it keeps the row's length, and each pixel of the result has the
  colour the scalar operation \<open>f\<close> gives.  Every kernel the dispatcher can choose satisfies it.
\<close>

locale row_kernel =
  fixes k :: "u32 list \<Rightarrow> u32 list \<Rightarrow> u32 list" and f :: "u32 \<Rightarrow> u32 \<Rightarrow> u32"
  assumes len: "length d = length s \<Longrightarrow> length (k d s) = length d"
    and px: "length d = length s \<Longrightarrow> x < length d \<Longrightarrow> rgb (k d s ! x) = rgb (f (d ! x) (s ! x))"
begin

lemma row_colours:
  "length d = length s \<Longrightarrow> map rgb (k d s) = map2 (\<lambda>d s. rgb (f d s)) d s"
  by (rule nth_equalityI) (simp_all add: len px)

end

lemma alpha_bound: "unat (ucast (a :: u8) :: u32) \<le> 255"
proof -
  have "unat a < 2 ^ 8" using unsigned_less [of a] by simp
  then show ?thesis by (simp add: unsigned_ucast_eq take_bit_nat_eq_self)
qed

interpretation copy_sse2: row_kernel blit_copy_row_sse2 "\<lambda>d s. opaque_px s"
  by unfold_locales (simp_all add: blit_copy_row_sse2_map)

interpretation copy_avx2: row_kernel blit_copy_row_avx2 "\<lambda>d s. opaque_px s"
  by unfold_locales (simp_all add: blit_copy_row_avx2_map)

interpretation alpha_sse2: row_kernel "blit_alpha_row_sse2 (ucast a)" "\<lambda>d s. alpha_px d s (ucast a)" for a :: u8
proof unfold_locales
  fix d s :: "u32 list" and x
  assume l: "length d = length s"
  show "length (blit_alpha_row_sse2 (ucast a) d s) = length d" by (rule blit_alpha_row_sse2_px(1) [OF l])
  show "rgb (blit_alpha_row_sse2 (ucast a) d s ! x) = rgb (alpha_px (d ! x) (s ! x) (ucast a))" if "x < length d"
    using blit_alpha_row_sse2_px(2) [OF l that, where a = a] lane_px_cases(1) [OF alpha_bound] by metis
qed

interpretation alpha_avx2: row_kernel "blit_alpha_row_avx2 (ucast a)" "\<lambda>d s. alpha_px d s (ucast a)" for a :: u8
proof unfold_locales
  fix d s :: "u32 list" and x
  assume l: "length d = length s"
  show "length (blit_alpha_row_avx2 (ucast a) d s) = length d" by (rule blit_alpha_row_avx2_px(1) [OF l])
  show "rgb (blit_alpha_row_avx2 (ucast a) d s ! x) = rgb (alpha_px (d ! x) (s ! x) (ucast a))" if "x < length d"
    using blit_alpha_row_avx2_px(2) [OF l that, where a = a] lane_px_cases(1) [OF alpha_bound] by metis
qed

subsection \<open>Properties\<close>

text \<open>C16: The SSE2 and AVX2 alpha kernels against the scalar pixel operation, for every row length, every
  global alpha and every source row: the colour bits are the same pixel by pixel, and the whole pixels are the same
  when the unused byte of each destination pixel is \<open>0xff\<close>.\<close>

theorem alpha_rows_match_scalar:
  fixes a :: u8
  assumes "length dst = length src"
  shows "map rgb (blit_alpha_row_sse2 (ucast a) dst src) = map2 (\<lambda>d s. rgb (alpha_px d s (ucast a))) dst src \<and>
         map rgb (blit_alpha_row_avx2 (ucast a) dst src) = map2 (\<lambda>d s. rgb (alpha_px d s (ucast a))) dst src \<and>
         ((\<forall>d\<in>set dst. opaque_px d = d) \<longrightarrow>
            blit_alpha_row_sse2 (ucast a) dst src = map2 (\<lambda>d s. alpha_px d s (ucast a)) dst src \<and>
            blit_alpha_row_avx2 (ucast a) dst src = map2 (\<lambda>d s. alpha_px d s (ucast a)) dst src)"
proof (intro conjI impI)
  show "map rgb (blit_alpha_row_sse2 (ucast a) dst src) = map2 (\<lambda>d s. rgb (alpha_px d s (ucast a))) dst src"
    by (rule alpha_sse2.row_colours [OF assms])
  show "map rgb (blit_alpha_row_avx2 (ucast a) dst src) = map2 (\<lambda>d s. rgb (alpha_px d s (ucast a))) dst src"
    by (rule alpha_avx2.row_colours [OF assms])
  assume op: "\<forall>d\<in>set dst. opaque_px d = d"
  have eq: "lane_px (ucast a) (dst ! x) (src ! x) = alpha_px (dst ! x) (src ! x) (ucast a)" if "x < length dst" for x
    using op that by (intro lane_px_cases(2) [OF alpha_bound]) simp
  show "blit_alpha_row_sse2 (ucast a) dst src = map2 (\<lambda>d s. alpha_px d s (ucast a)) dst src"
    using assms eq blit_alpha_row_sse2_px [OF assms, where a = a] by (intro nth_equalityI) auto
  show "blit_alpha_row_avx2 (ucast a) dst src = map2 (\<lambda>d s. alpha_px d s (ucast a)) dst src"
    using assms eq blit_alpha_row_avx2_px [OF assms, where a = a] by (intro nth_equalityI) auto
qed

theorem alpha_rows_match_scalar_witness:
  "map rgb (blit_alpha_row_sse2 (ucast (128 :: u8)) (replicate 5 0xff102030) (replicate 5 0x80ffffff)) =
   map rgb (blit_alpha_row_avx2 (ucast (128 :: u8)) (replicate 5 0xff102030) (replicate 5 0x80ffffff))"
  using alpha_rows_match_scalar [of "replicate 5 0xff102030" "replicate 5 0x80ffffff" 128] by simp

text \<open>The comment that the vector kernels match the scalar path byte for byte does not hold for the unused
  byte: over a destination pixel whose top byte is 0, four transparent source pixels leave the pixel alone in the
  scalar kernel and set its top byte to \<open>0xff\<close> in the SSE2 kernel.\<close>

theorem alpha_row_unused_byte:
  "blit_alpha_row_sse2 255 (replicate 4 0x00102030) (replicate 4 0) = replicate 4 0xff102030 \<and>
   alpha_px 0x00102030 0 255 = 0x00102030"
proof -
  have four: "replicate 4 x = [x, x, x, x]" for x :: u32 by (simp add: numeral_eq_Suc)
  have "blit_alpha_row_sse2 255 (replicate 4 0x00102030) (replicate 4 0) = replicate 4 (lane_px 255 0x00102030 0)"
    by (simp add: blit_alpha_row_sse2_def alpha_loop_sse2.simps [of _ "_ # _"]
        alpha_loop_sse2.simps [of _ "[]"] four alpha_block_sse2_px)
  moreover have "lane_px 255 0x00102030 0 = 0xff102030"
    by (simp add: lane_px_blend mul8_def blend_px_ends opaque_px_def)
  ultimately show ?thesis by (simp add: alpha_px_def mul8_def)
qed

end
