(* ===== verification/Blit.thy ===== *)
theory Blit
  imports Damage BlitSimd
begin

text \<open>
  The blit operations of \<^verbatim>\<open>src/compositor/blit.c\<close>: clipping to the destination and a scissor, and the fill,
  copy and alpha operations, plain and with rounded corners.  A pixel buffer is the list of its words, \<^verbatim>\<open>NULL\<close> is
  \<open>None\<close>.  A row kernel maps the destination row and the source row to the new destination row; the kernels are
  dispatched on the instruction set as in the code.  Each operation is shown to change exactly the pixels of its
  clipped rectangle, each to the colour the scalar operation gives.
\<close>

subsection \<open>Clipping\<close>

record blit_dst =
  dpix :: "u32 list option"
  dwidth :: u32
  dheight :: u32
  dstride :: u32

record blit_src =
  spix :: "u32 list option"
  swidth :: u32
  sheight :: u32
  sstride :: u32

definition effective_clip :: "blit_dst \<Rightarrow> rect option \<Rightarrow> (int \<times> int \<times> int \<times> int) option" where
  "effective_clip dst scissor =
     (let (x0, y0, x1, y1) =
        (case scissor of
           None \<Rightarrow> (0, 0, sint (dwidth dst), sint (dheight dst))
         | Some c \<Rightarrow>
             (if rx c > 0 then rx c else 0,
              if ry c > 0 then ry c else 0,
              if rx c + rw c < sint (dwidth dst) then rx c + rw c else sint (dwidth dst),
              if ry c + rh c < sint (dheight dst) then ry c + rh c else sint (dheight dst)))
      in if x1 \<le> x0 \<or> y1 \<le> y0 then None else Some (x0, y0, x1, y1))"

definition clip_rect ::
  "blit_dst \<Rightarrow> rect option \<Rightarrow> int \<Rightarrow> int \<Rightarrow> int \<Rightarrow> int \<Rightarrow> int \<Rightarrow> int \<Rightarrow> (int \<times> int \<times> int \<times> int \<times> int \<times> int) option" where
  "clip_rect dst scissor x0 y0 w h sox soy =
     (case effective_clip dst scissor of
        None \<Rightarrow> None
      | Some (cx0, cy0, cx1, cy1) \<Rightarrow>
          if w \<le> 0 \<or> h \<le> 0 then None
          else
            let (sox, w, x0) = (if x0 < cx0 then (sox + (cx0 - x0), w - (cx0 - x0), cx0) else (sox, w, x0));
                (soy, h, y0) = (if y0 < cy0 then (soy + (cy0 - y0), h - (cy0 - y0), cy0) else (soy, h, y0))
            in if x0 \<ge> cx1 \<or> y0 \<ge> cy1 then None
               else let w = (if x0 + w > cx1 then cx1 - x0 else w);
                        h = (if y0 + h > cy1 then cy1 - y0 else h)
                    in if w \<le> 0 \<or> h \<le> 0 then None else Some (x0, y0, w, h, sox, soy))"

definition clip_src :: "blit_dst \<Rightarrow> rect option \<Rightarrow> blit_src \<Rightarrow> int \<Rightarrow> int \<Rightarrow> (int \<times> int \<times> int \<times> int \<times> int \<times> int) option" where
  "clip_src dst scissor src dx dy = clip_rect dst scissor dx dy (sint (swidth src)) (sint (sheight src)) 0 0"

subsection \<open>Row loops\<close>

record simd =
  has_sse2 :: bool
  has_avx2 :: bool

definition get_row :: "nat \<Rightarrow> nat \<Rightarrow> u32 list \<Rightarrow> u32 list" where
  "get_row b n px = take n (drop b px)"

definition put_row :: "nat \<Rightarrow> u32 list \<Rightarrow> u32 list \<Rightarrow> u32 list" where
  "put_row b row px = take b px @ row @ drop (b + length row) px"

text \<open>\<^verbatim>\<open>for (y = 0; y < rh; y++) \<dots> row += stride\<close>, the row at index \<open>b + y * stride\<close> replaced by \<open>g\<close>.\<close>

definition row_loop :: "(nat \<Rightarrow> u32 list \<Rightarrow> u32 list) \<Rightarrow> nat \<Rightarrow> nat \<Rightarrow> nat \<Rightarrow> nat \<Rightarrow> u32 list \<Rightarrow> u32 list" where
  "row_loop g n h b stride px =
     fold (\<lambda>y px. put_row (b + y * stride) (g y (get_row (b + y * stride) n px)) px) [0..<h] px"

text \<open>\<^verbatim>\<open>(uint32_t) y * stride + (uint32_t) x\<close>\<close>

definition base_at :: "u32 \<Rightarrow> int \<Rightarrow> int \<Rightarrow> nat" where
  "base_at stride y x = wrap32 (nat y * unat stride + nat x)"

subsection \<open>Operations\<close>

definition blit_fill_scissor :: "blit_dst \<Rightarrow> rect option \<Rightarrow> int \<Rightarrow> int \<Rightarrow> int \<Rightarrow> int \<Rightarrow> u32 \<Rightarrow> blit_dst" where
  "blit_fill_scissor dst scissor x y w h color =
     (case dpix dst of
        None \<Rightarrow> dst
      | Some px \<Rightarrow>
          (case clip_rect dst scissor x y w h 0 0 of
             None \<Rightarrow> dst
           | Some (x, y, w, h, _, _) \<Rightarrow>
               dst\<lparr>dpix := Some (row_loop (\<lambda>y d. replicate (nat w) color) (nat w) (nat h)
                             (base_at (dstride dst) y x) (unat (dstride dst)) px)\<rparr>))"

definition blit_fill :: "blit_dst \<Rightarrow> int \<Rightarrow> int \<Rightarrow> int \<Rightarrow> int \<Rightarrow> u32 \<Rightarrow> blit_dst" where
  "blit_fill dst x y w h color = blit_fill_scissor dst None x y w h color"

text \<open>The part all source operations share: clip, then the row loop with the kernel \<open>k ly sx\<close>.\<close>

definition blit_clipped ::
  "(int \<Rightarrow> int \<Rightarrow> u32 list \<Rightarrow> u32 list \<Rightarrow> u32 list) \<Rightarrow> blit_dst \<Rightarrow> rect option \<Rightarrow> int \<Rightarrow> int \<Rightarrow> blit_src \<Rightarrow> blit_dst" where
  "blit_clipped k dst scissor dx dy src =
     (case dpix dst of
        None \<Rightarrow> dst
      | Some px \<Rightarrow>
          (case spix src of
             None \<Rightarrow> dst
           | Some sp \<Rightarrow>
               (case clip_src dst scissor src dx dy of
                  None \<Rightarrow> dst
                | Some (dx, dy, w, h, sx, sy) \<Rightarrow>
                    dst\<lparr>dpix := Some (row_loop
                      (\<lambda>y d. k (sy + int y) sx d
                         (get_row (base_at (sstride src) sy sx + y * unat (sstride src)) (nat w) sp))
                      (nat w) (nat h) (base_at (dstride dst) dy dx) (unat (dstride dst)) px)\<rparr>)))"

definition copy_row_fast :: "simd \<Rightarrow> u32 list \<Rightarrow> u32 list \<Rightarrow> u32 list" where
  "copy_row_fast cpu d s =
     (if has_avx2 cpu then blit_copy_row_avx2 d s
      else if has_sse2 cpu then blit_copy_row_sse2 d s
      else map2 (\<lambda>d s. opaque_px s) d s)"

definition alpha_row_fast :: "simd \<Rightarrow> u32 \<Rightarrow> u32 list \<Rightarrow> u32 list \<Rightarrow> u32 list" where
  "alpha_row_fast cpu ga d s =
     (if has_avx2 cpu then blit_alpha_row_avx2 ga d s
      else if has_sse2 cpu then blit_alpha_row_sse2 ga d s
      else map2 (\<lambda>d s. alpha_masked_px d s ga 255) d s)"

definition alpha_row_plain :: "simd \<Rightarrow> u32 \<Rightarrow> u32 list \<Rightarrow> u32 list \<Rightarrow> u32 list" where
  "alpha_row_plain cpu ga d s =
     (if has_avx2 cpu then blit_alpha_row_avx2 ga d s
      else if has_sse2 cpu then blit_alpha_row_sse2 ga d s
      else map2 (\<lambda>d s. alpha_px d s ga) d s)"

definition blit_copy_scissor :: "simd \<Rightarrow> blit_dst \<Rightarrow> rect option \<Rightarrow> int \<Rightarrow> int \<Rightarrow> blit_src \<Rightarrow> blit_dst" where
  "blit_copy_scissor cpu dst scissor dx dy src =
     blit_clipped (\<lambda>ly sx. copy_row_fast cpu) dst scissor dx dy src"

definition blit_copy :: "simd \<Rightarrow> blit_dst \<Rightarrow> int \<Rightarrow> int \<Rightarrow> blit_src \<Rightarrow> blit_dst" where
  "blit_copy cpu dst dx dy src = blit_copy_scissor cpu dst None dx dy src"

definition blit_alpha_scissor :: "simd \<Rightarrow> blit_dst \<Rightarrow> rect option \<Rightarrow> int \<Rightarrow> int \<Rightarrow> blit_src \<Rightarrow> u8 \<Rightarrow> blit_dst" where
  "blit_alpha_scissor cpu dst scissor dx dy src ga =
     (if ga = 0 then dst else blit_clipped (\<lambda>ly sx. alpha_row_plain cpu (ucast ga)) dst scissor dx dy src)"

definition blit_alpha :: "simd \<Rightarrow> blit_dst \<Rightarrow> int \<Rightarrow> int \<Rightarrow> blit_src \<Rightarrow> u8 \<Rightarrow> blit_dst" where
  "blit_alpha cpu dst dx dy src ga = blit_alpha_scissor cpu dst None dx dy src ga"

definition corner_row :: "int \<Rightarrow> int \<Rightarrow> int \<Rightarrow> bool" where
  "corner_row h cr ly \<longleftrightarrow> ly < cr \<or> ly \<ge> h - cr"

text \<open>A corner row: the pixel operation \<open>f d s mask\<close> at each local column.\<close>

definition masked_row ::
  "(u32 \<Rightarrow> u32 \<Rightarrow> u32 \<Rightarrow> u32) \<Rightarrow> int \<Rightarrow> int \<Rightarrow> int \<Rightarrow> int \<Rightarrow> int \<Rightarrow> u32 list \<Rightarrow> u32 list \<Rightarrow> u32 list" where
  "masked_row f w h cr ly sx d s =
     map (\<lambda>x. f (d ! x) (s ! x) (of_nat (rounded_corner_mask (sx + int x) ly w h cr))) [0..<length d]"

definition blit_copy_rounded_scissor ::
  "simd \<Rightarrow> blit_dst \<Rightarrow> rect option \<Rightarrow> int \<Rightarrow> int \<Rightarrow> blit_src \<Rightarrow> u32 \<Rightarrow> blit_dst" where
  "blit_copy_rounded_scissor cpu dst scissor dx dy src corner_radius =
     (if corner_radius = 0 then blit_copy_scissor cpu dst scissor dx dy src
      else let w = sint (swidth src); h = sint (sheight src); cr = sint corner_radius
           in blit_clipped
                (\<lambda>ly sx d s. if \<not> corner_row h cr ly then copy_row_fast cpu d s
                   else masked_row copy_masked_px w h cr ly sx d s)
                dst scissor dx dy src)"

definition blit_alpha_rounded_scissor ::
  "simd \<Rightarrow> blit_dst \<Rightarrow> rect option \<Rightarrow> int \<Rightarrow> int \<Rightarrow> blit_src \<Rightarrow> u8 \<Rightarrow> u32 \<Rightarrow> blit_dst" where
  "blit_alpha_rounded_scissor cpu dst scissor dx dy src ga corner_radius =
     (if ga = 0 then dst
      else if corner_radius = 0 then blit_alpha_scissor cpu dst scissor dx dy src ga
      else let w = sint (swidth src); h = sint (sheight src); cr = sint corner_radius
           in blit_clipped
                (\<lambda>ly sx d s. if \<not> corner_row h cr ly then alpha_row_fast cpu (ucast ga) d s
                   else masked_row (\<lambda>d s. alpha_masked_px d s (ucast ga)) w h cr ly sx d s)
                dst scissor dx dy src)"


subsection \<open>What a row loop writes\<close>

lemma length_put_row: "b + length row \<le> length px \<Longrightarrow> length (put_row b row px) = length px"
  by (simp add: put_row_def)

lemma nth_put_row:
  assumes "b + length row \<le> length px" "i < length px"
  shows "put_row b row px ! i = (if b \<le> i \<and> i < b + length row then row ! (i - b) else px ! i)"
proof -
  consider "i < b" | "b \<le> i" "i < b + length row" | "b + length row \<le> i" by linarith
  then show ?thesis
    using assms by cases (auto simp: put_row_def nth_append less_diff_conv2)
qed

lemma length_get_row: "b + n \<le> length px \<Longrightarrow> length (get_row b n px) = n"
  by (simp add: get_row_def)

lemma nth_get_row: "b + n \<le> length px \<Longrightarrow> x < n \<Longrightarrow> get_row b n px ! x = px ! (b + x)"
  by (simp add: get_row_def)

lemma row_loop_Suc:
  "row_loop g n (Suc h) b stride px =
     (let px' = row_loop g n h b stride px
      in put_row (b + h * stride) (g h (get_row (b + h * stride) n px')) px')"
  by (simp add: row_loop_def Let_def)

text \<open>The row a pixel index falls in is determined when rows do not overlap.\<close>

lemma row_index_unique:
  assumes "b + y * stride + x = b + y' * stride + x'" "x < n" "x' < n" "n \<le> stride"
  shows "y = y' \<and> x = (x' :: nat)"
proof -
  have "y * stride + x = y' * stride + x'" using assms(1) by simp
  moreover have "x < stride" "x' < stride" using assms by auto
  ultimately show ?thesis by (metis div_mult_self3 div_less add.right_neutral add_left_cancel gr_implies_not0)
qed

lemma row_loop_correct:
  assumes "n \<le> stride" "\<And>y. y < h \<Longrightarrow> b + y * stride + n \<le> length px"
    and "\<And>y d. y < h \<Longrightarrow> length d = n \<Longrightarrow> length (g y d) = n"
  shows "length (row_loop g n h b stride px) = length px \<and>
    (\<forall>y<h. \<forall>x<n. row_loop g n h b stride px ! (b + y * stride + x) = g y (get_row (b + y * stride) n px) ! x) \<and>
    (\<forall>i<length px. (\<forall>y<h. \<forall>x<n. i \<noteq> b + y * stride + x) \<longrightarrow> row_loop g n h b stride px ! i = px ! i)"
  using assms(2,3)
proof (induction h)
  case 0
  then show ?case by (simp add: row_loop_def)
next
  case (Suc h)
  let ?px = "row_loop g n h b stride px" and ?r = "b + h * stride"
  have ih: "length ?px = length px"
    "\<And>y x. y < h \<Longrightarrow> x < n \<Longrightarrow> ?px ! (b + y * stride + x) = g y (get_row (b + y * stride) n px) ! x"
    "\<And>i. i < length px \<Longrightarrow> (\<forall>y<h. \<forall>x<n. i \<noteq> b + y * stride + x) \<Longrightarrow> ?px ! i = px ! i"
    using Suc.IH Suc.prems by (auto simp: less_Suc_eq)
  have room: "?r + n \<le> length ?px" using Suc.prems(1) [of h] ih(1) by simp
  have fresh: "?r + x \<noteq> b + y * stride + x'" if "y < h" "x < n" "x' < n" for y x x'
    using row_index_unique [of b h stride x y x' n] that assms(1) by auto
  have same: "get_row ?r n ?px = get_row ?r n px"
    using room ih(1) fresh ih(3) by (intro nth_equalityI) (auto simp: length_get_row nth_get_row)
  have lenrow: "length (g h (get_row ?r n px)) = n"
    using Suc.prems room ih(1) by (simp add: length_get_row)
  have step: "row_loop g n (Suc h) b stride px = put_row ?r (g h (get_row ?r n px)) ?px"
    by (simp add: row_loop_Suc Let_def same)
  note put = nth_put_row [of ?r "g h (get_row ?r n px)" ?px, unfolded lenrow, OF room]
  show ?case
  proof (intro conjI allI impI)
    show "length (row_loop g n (Suc h) b stride px) = length px"
      using room lenrow ih(1) by (simp add: step length_put_row)
    fix y x assume yx: "y < Suc h" "x < n"
    have i: "b + y * stride + x < length ?px" using Suc.prems(1) [OF yx(1)] yx(2) ih(1) by simp
    show "row_loop g n (Suc h) b stride px ! (b + y * stride + x) = g y (get_row (b + y * stride) n px) ! x"
    proof (cases "y = h")
      case True
      then show ?thesis using put [OF i] yx by (simp add: step)
    next
      case False
      then have y: "y < h" using yx by simp
      have "\<not> (?r \<le> b + y * stride + x \<and> b + y * stride + x < ?r + n)"
      proof
        assume a: "?r \<le> b + y * stride + x \<and> b + y * stride + x < ?r + n"
        then have "b + y * stride + x - ?r < n" by linarith
        from fresh [OF y this yx(2)] a show False by linarith
      qed
      from put [OF i, unfolded if_not_P [OF this]] ih(2) [OF y yx(2)] show ?thesis by (simp only: step)
    qed
  next
    fix i assume i: "i < length px" and out: "\<forall>y<Suc h. \<forall>x<n. i \<noteq> b + y * stride + x"
    have "\<not> (?r \<le> i \<and> i < ?r + n)"
    proof
      assume "?r \<le> i \<and> i < ?r + n"
      then have "i - ?r < n" "i = b + h * stride + (i - ?r)" by linarith+
      with out show False by blast
    qed
    moreover have "?px ! i = px ! i" using ih(3) [OF i] out by simp
    ultimately show "row_loop g n (Suc h) b stride px ! i = px ! i"
      using put [of i] ih(1) i by (simp only: step if_False)
  qed
qed


subsection \<open>What clipping leaves\<close>

abbreviation scissor_cells :: "rect option \<Rightarrow> (int \<times> int) set" where
  "scissor_cells sc \<equiv> (case sc of None \<Rightarrow> UNIV | Some c \<Rightarrow> cells c)"

definition screen_cells :: "blit_dst \<Rightarrow> (int \<times> int) set" where
  "screen_cells dst = cells (rect_make 0 0 (sint (dwidth dst)) (sint (dheight dst)))"

lemma effective_clip_Some:
  assumes "effective_clip dst sc = Some (x0, y0, x1, y1)"
  shows "(x, y) \<in> screen_cells dst \<inter> scissor_cells sc \<longleftrightarrow> x0 \<le> x \<and> x < x1 \<and> y0 \<le> y \<and> y < y1"
    and "x0 < x1" "y0 < y1" "0 \<le> x0" "0 \<le> y0" "x1 \<le> sint (dwidth dst)" "y1 \<le> sint (dheight dst)"
  using assms
  by (auto simp: effective_clip_def screen_cells_def cells_def rect_make_def split: option.splits if_splits)

lemma effective_clip_None:
  assumes "effective_clip dst sc = None"
  shows "screen_cells dst \<inter> scissor_cells sc = {}"
  using assms
  by (fastforce simp: effective_clip_def screen_cells_def cells_def rect_make_def split: option.splits if_splits)

lemma clip_rect_Some:
  assumes "clip_rect dst sc x0 y0 w h sox soy = Some (x', y', w', h', sx', sy')"
  shows "cells (rect_make x' y' w' h') = screen_cells dst \<inter> scissor_cells sc \<inter> cells (rect_make x0 y0 w h)"
    and "0 < w'" "0 < h'" "0 \<le> x'" "0 \<le> y'" "x' + w' \<le> sint (dwidth dst)" "y' + h' \<le> sint (dheight dst)"
    and "sx' = sox + (x' - x0)" "sy' = soy + (y' - y0)" "x0 \<le> x'" "y0 \<le> y'" "x' + w' \<le> x0 + w" "y' + h' \<le> y0 + h"
proof -
  obtain cx0 cy0 cx1 cy1 where e: "effective_clip dst sc = Some (cx0, cy0, cx1, cy1)"
    using assms by (auto simp: clip_rect_def split: option.splits)
  note c = effective_clip_Some [OF e]
  note d = assms [unfolded clip_rect_def e option.case prod.case Let_def]
  show "0 < w'" "0 < h'" "0 \<le> x'" "0 \<le> y'" "x' + w' \<le> sint (dwidth dst)" "y' + h' \<le> sint (dheight dst)"
    "sx' = sox + (x' - x0)" "sy' = soy + (y' - y0)" "x0 \<le> x'" "y0 \<le> y'" "x' + w' \<le> x0 + w" "y' + h' \<le> y0 + h"
    using d c(2-) by (auto split: if_splits)
  have "(x, y) \<in> cells (rect_make x' y' w' h') \<longleftrightarrow>
      cx0 \<le> x \<and> x < cx1 \<and> cy0 \<le> y \<and> y < cy1 \<and> (x, y) \<in> cells (rect_make x0 y0 w h)" for x y
    using d c(2-) by (auto split: if_splits)
  then show "cells (rect_make x' y' w' h') = screen_cells dst \<inter> scissor_cells sc \<inter> cells (rect_make x0 y0 w h)"
    using c(1) by (auto simp: set_eq_iff)
qed

lemma clip_rect_None:
  assumes "clip_rect dst sc x0 y0 w h sox soy = None"
  shows "screen_cells dst \<inter> scissor_cells sc \<inter> cells (rect_make x0 y0 w h) = {}"
proof (cases "effective_clip dst sc")
  case None
  then show ?thesis using effective_clip_None by blast
next
  case (Some q)
  obtain cx0 cy0 cx1 cy1 where q: "q = (cx0, cy0, cx1, cy1)" by (cases q)
  note c = effective_clip_Some [OF Some [unfolded q]]
  have "\<not> (cx0 \<le> x \<and> x < cx1 \<and> cy0 \<le> y \<and> y < cy1 \<and> (x, y) \<in> cells (rect_make x0 y0 w h))" for x y
    using assms [unfolded clip_rect_def Some q option.case prod.case Let_def] c(2-)
    by (auto split: if_splits)
  then show ?thesis using c(1) by (auto simp: set_eq_iff)
qed


subsection \<open>What a blit paints\<close>

definition dst_ok :: "blit_dst \<Rightarrow> bool" where
  "dst_ok d \<longleftrightarrow>
     (case dpix d of None \<Rightarrow> False | Some px \<Rightarrow> unat (dheight d) * unat (dstride d) \<le> length px) \<and>
     unat (dwidth d) \<le> unat (dstride d) \<and> unat (dheight d) * unat (dstride d) < 2 ^ 32 \<and>
     unat (dwidth d) < 2 ^ 31 \<and> unat (dheight d) < 2 ^ 31"

definition src_ok :: "blit_src \<Rightarrow> bool" where
  "src_ok s \<longleftrightarrow>
     (case spix s of None \<Rightarrow> False | Some sp \<Rightarrow> length sp = unat (sheight s) * unat (swidth s)) \<and>
     sstride s = swidth s \<and> unat (sheight s) * unat (swidth s) < 2 ^ 32 \<and>
     unat (swidth s) < 2 ^ 31 \<and> unat (sheight s) < 2 ^ 31"

text \<open>The colour of a pixel (its low 24 bits), and what it means that an operation paints a region.\<close>

definition colour :: "blit_dst \<Rightarrow> int \<times> int \<Rightarrow> u32" where
  "colour d p = rgb (the (dpix d) ! (nat (snd p) * unat (dstride d) + nat (fst p)))"

definition src_px :: "blit_src \<Rightarrow> int \<Rightarrow> int \<Rightarrow> u32" where
  "src_px s lx ly = the (spix s) ! (nat ly * unat (swidth s) + nat lx)"

definition paints :: "blit_dst \<Rightarrow> (int \<times> int) set \<Rightarrow> (int \<times> int \<Rightarrow> u32 \<Rightarrow> u32) \<Rightarrow> blit_dst \<Rightarrow> bool" where
  "paints d R f d' \<longleftrightarrow>
     dst_ok d' \<and> dwidth d' = dwidth d \<and> dheight d' = dheight d \<and> dstride d' = dstride d \<and>
     (\<forall>p\<in>screen_cells d. colour d' p = (if p \<in> R then rgb (f p (colour d p)) else colour d p))"

lemma paints_refl: "dst_ok d \<Longrightarrow> screen_cells d \<inter> R = {} \<Longrightarrow> paints d R f d"
  by (auto simp: paints_def)

lemma row_loop_paints:
  assumes d: "dst_ok d" "dpix d = Some px"
    and box: "0 \<le> x0" "0 \<le> y0" "0 < w" "0 < h" "x0 + w \<le> sint (dwidth d)" "y0 + h \<le> sint (dheight d)"
    and g: "\<And>y r. y < nat h \<Longrightarrow> length r = nat w \<Longrightarrow> length (g y r) = nat w"
    and px: "\<And>y r x. y < nat h \<Longrightarrow> length r = nat w \<Longrightarrow> x < nat w \<Longrightarrow>
        rgb (g y r ! x) = rgb (f (x0 + int x, y0 + int y) (rgb (r ! x)))"
  shows "paints d (cells (rect_make x0 y0 w h)) f
     (d\<lparr>dpix := Some (row_loop g (nat w) (nat h) (base_at (dstride d) y0 x0) (unat (dstride d)) px)\<rparr>)"
proof -
  let ?st = "unat (dstride d)" and ?w = "unat (dwidth d)" and ?h = "unat (dheight d)"
  have dims: "sint (dwidth d) = int ?w" "sint (dheight d) = int ?h"
    using d by (simp_all add: dst_ok_def sint_small)
  have len: "?h * ?st \<le> length px" and st: "?w \<le> ?st" "?h * ?st < 2 ^ 32"
    using d by (simp_all add: dst_ok_def)
  define b where "b = nat y0 * ?st + nat x0"
  have nb: "nat x0 + nat w \<le> ?w" "nat y0 + nat h \<le> ?h" using box dims by linarith+
  have row_fits: "b + y * ?st + nat w \<le> ?h * ?st" if "y < nat h" for y
  proof -
    have "b + y * ?st + nat w \<le> nat y0 * ?st + y * ?st + ?st" using nb st by (simp add: b_def)
    also have "\<dots> = Suc (nat y0 + y) * ?st" by (simp add: algebra_simps)
    also have "\<dots> \<le> ?h * ?st" using nb that by (intro mult_le_mono1) linarith
    finally show ?thesis .
  qed
  note row_end = order_trans [OF row_fits len]
  have "b < 2 ^ 32" using row_fits [of 0] box(3,4) st by simp
  then have base: "base_at (dstride d) y0 x0 = b" by (simp add: base_at_def b_def)
  have wst: "nat w \<le> ?st" using nb st by simp
  define px' where "px' = row_loop g (nat w) (nat h) b ?st px"
  note rl = row_loop_correct [where h = "nat h" and g = g, OF wst row_end g, folded px'_def]
  have l': "length px' = length px" using rl by blast
  have inside: "px' ! (b + y * ?st + x) = g y (get_row (b + y * ?st) (nat w) px) ! x" if "y < nat h" "x < nat w" for x y
    using rl that by blast
  have outside: "px' ! i = px ! i" if "i < length px" "\<forall>y<nat h. \<forall>x<nat w. i \<noteq> b + y * ?st + x" for i
    using rl that by blast
  show ?thesis
    unfolding base px'_def [symmetric]
  proof (simp only: paints_def, intro conjI ballI)
    show "dst_ok (d\<lparr>dpix := Some px'\<rparr>)" using d l' by (simp add: dst_ok_def)
  next
    fix p assume p: "p \<in> screen_cells d"
    obtain px0 py0 where xy: "p = (int px0, int py0)" "px0 < ?w" "py0 < ?h"
    proof -
      obtain x y where "p = (x, y)" by (cases p)
      with p show ?thesis
        by (intro that [of "nat x" "nat y"]) (auto simp: screen_cells_def dims simp flip: nat_uint_eq)
    qed
    let ?i = "py0 * ?st + px0"
    have i: "?i < length px"
    proof -
      have "?i < Suc py0 * ?st" using xy st by simp
      also have "\<dots> \<le> ?h * ?st" using xy by (intro mult_le_mono1) simp
      finally show ?thesis using len by (rule less_le_trans)
    qed
    show "colour (d\<lparr>dpix := Some px'\<rparr>) p =
        (if p \<in> cells (rect_make x0 y0 w h) then rgb (f p (colour d p)) else colour d p)"
    proof (cases "p \<in> cells (rect_make x0 y0 w h)")
      case True
      then have "x0 \<le> int px0" "int px0 < x0 + w" "y0 \<le> int py0" "int py0 < y0 + h" by (simp_all add: xy)
      then have "px0 = nat x0 + (px0 - nat x0)" "py0 = nat y0 + (py0 - nat y0)" "px0 - nat x0 < nat w"
        "py0 - nat y0 < nat h" using box by linarith+
      then obtain x y where c: "px0 = nat x0 + x" "py0 = nat y0 + y" "x < nat w" "y < nat h" by blast
      have idx: "?i = b + y * ?st + x" by (simp add: c b_def algebra_simps)
      have row: "length (get_row (b + y * ?st) (nat w) px) = nat w"
        "get_row (b + y * ?st) (nat w) px ! x = px ! ?i"
        using row_end [OF c(4)] c(3) by (simp_all add: length_get_row nth_get_row idx)
      have pt: "(x0 + int x, y0 + int y) = p" using c box by (simp add: xy)
      have "rgb (px' ! ?i) = rgb (f p (rgb (px ! ?i)))"
        using inside [OF c(4,3)] px [OF c(4) row(1) c(3)] by (simp add: idx [symmetric] row(2) pt)
      with True show ?thesis by (simp add: colour_def xy d(2))
    next
      case False
      have "\<forall>y<nat h. \<forall>x<nat w. ?i \<noteq> b + y * ?st + x"
      proof (intro allI impI notI)
        fix y x assume yx: "y < nat h" "x < nat w" and "?i = b + y * ?st + x"
        then have "0 + py0 * ?st + px0 = 0 + (nat y0 + y) * ?st + (nat x0 + x)" by (simp add: b_def algebra_simps)
        moreover have "nat x0 + x < ?w" using yx nb by simp
        ultimately have "py0 = nat y0 + y \<and> px0 = nat x0 + x"
          using xy st by (intro row_index_unique [where n = ?w]) auto
        moreover have "int x < w" "int y < h" using yx by linarith+
        ultimately show False using False box by (simp add: xy)
      qed
      with i have "colour (d\<lparr>dpix := Some px'\<rparr>) p = colour d p"
        by (simp add: colour_def xy d(2) outside)
      with False show ?thesis by (simp only: if_False)
    qed
  qed simp_all
qed


text \<open>
  The contract of a kernel of \<open>blit_clipped\<close> for a source of \<open>w\<close> by \<open>h\<close> pixels: at local column \<open>sx + x\<close> and
  local row \<open>ly\<close> it applies \<open>f\<close>, up to the unused byte.
\<close>

locale row_op =
  fixes w h :: int
    and k :: "int \<Rightarrow> int \<Rightarrow> u32 list \<Rightarrow> u32 list \<Rightarrow> u32 list"
    and f :: "int \<Rightarrow> int \<Rightarrow> u32 \<Rightarrow> u32 \<Rightarrow> u32"
  assumes len: "length d = length s \<Longrightarrow> length (k ly sx d s) = length d"
    and px: "length d = length s \<Longrightarrow> x < length d \<Longrightarrow> 0 \<le> sx \<Longrightarrow> sx + int (length d) \<le> w \<Longrightarrow>
        0 \<le> ly \<Longrightarrow> ly < h \<Longrightarrow> rgb (k ly sx d s ! x) = rgb (f (sx + int x) ly (rgb (d ! x)) (s ! x))"
begin

lemma blit_clipped_paints:
  assumes d: "dst_ok d" and s: "src_ok src" "sint (swidth src) = w" "sint (sheight src) = h"
  shows "paints d (scissor_cells sc \<inter> cells (rect_make dx dy w h))
     (\<lambda>p c. f (fst p - dx) (snd p - dy) c (src_px src (fst p - dx) (snd p - dy)))
     (blit_clipped k d sc dx dy src)"
proof -
  obtain pd where pd: "dpix d = Some pd" using d by (auto simp: dst_ok_def split: option.splits)
  obtain sp where sp: "spix src = Some sp" using s by (auto simp: src_ok_def split: option.splits)
  let ?sw = "unat (swidth src)" and ?sh = "unat (sheight src)"
  have sdim: "w = int ?sw" "h = int ?sh" and sl: "length sp = ?sh * ?sw" "?sh * ?sw < 2 ^ 32"
    and st: "sstride src = swidth src"
    using s sp by (auto simp: src_ok_def sint_small)
  show ?thesis
  proof (cases "clip_src d sc src dx dy")
    case None
    then have "screen_cells d \<inter> scissor_cells sc \<inter> cells (rect_make dx dy w h) = {}"
      using clip_rect_None s by (simp add: clip_src_def)
    with None d show ?thesis
      by (simp add: blit_clipped_def pd sp paints_refl Int_assoc)
  next
    case (Some q)
    obtain x' y' w' h' sx sy where q: "q = (x', y', w', h', sx, sy)" by (cases q)
    have cr: "clip_rect d sc dx dy w h 0 0 = Some (x', y', w', h', sx, sy)"
      using Some q s by (simp add: clip_src_def)
    note c = clip_rect_Some [OF cr]
    have sxy: "sx = x' - dx" "sy = y' - dy" "0 \<le> sx" "0 \<le> sy" "sx + w' \<le> w" "sy + h' \<le> h"
      using c(8-13) by auto
    let ?row = "\<lambda>y. get_row (base_at (sstride src) sy sx + y * ?sw) (nat w') sp"
    have nb: "nat sx + nat w' \<le> ?sw" "nat sy + nat h' \<le> ?sh" using sxy sdim c(2,3) by linarith+
    have fits: "nat sy * ?sw + nat sx + y * ?sw + nat w' \<le> length sp" if "y < nat h'" for y
    proof -
      have "nat sy * ?sw + nat sx + y * ?sw + nat w' \<le> nat sy * ?sw + y * ?sw + ?sw" using nb by simp
      also have "\<dots> = Suc (nat sy + y) * ?sw" by (simp add: algebra_simps)
      also have "\<dots> \<le> ?sh * ?sw" using nb that by (intro mult_le_mono1) linarith
      finally show ?thesis by (simp add: sl)
    qed
    have "nat sy * ?sw + nat sx < 2 ^ 32" using fits [of 0] c(2,3) sl by simp
    then have base: "base_at (sstride src) sy sx = nat sy * ?sw + nat sx" by (simp add: base_at_def st)
    have rowlen: "length (?row y) = nat w'" if "y < nat h'" for y
      using fits [OF that] by (simp add: base length_get_row)
    have rowpx: "?row y ! x = src_px src (sx + int x) (sy + int y)" if "y < nat h'" "x < nat w'" for x y
    proof -
      have "nat sy * ?sw + nat sx + y * ?sw + x = nat (sy + int y) * ?sw + nat (sx + int x)"
        using sxy by (simp add: nat_add_distrib algebra_simps)
      with fits [OF that(1)] that show ?thesis by (simp add: base nth_get_row src_px_def sp)
    qed
    have "paints d (cells (rect_make x' y' w' h'))
        (\<lambda>p c. f (fst p - dx) (snd p - dy) c (src_px src (fst p - dx) (snd p - dy)))
        (d\<lparr>dpix := Some (row_loop (\<lambda>y r. k (sy + int y) sx r (?row y)) (nat w') (nat h')
           (base_at (dstride d) y' x') (unat (dstride d)) pd)\<rparr>)"
    proof (rule row_loop_paints [OF d pd])
      fix y x and r :: "u32 list" assume y: "y < nat h'" and r: "length r = nat w'"
      show "length (k (sy + int y) sx r (?row y)) = nat w'" using r rowlen [OF y] by (simp add: len)
      assume x: "x < nat w'"
      have *: "rgb (k (sy + int y) sx r (?row y) ! x) = rgb (f (sx + int x) (sy + int y) (rgb (r ! x)) (?row y ! x))"
        using r rowlen [OF y] sxy c(2,3) x y by (intro px) auto
      show "rgb (k (sy + int y) sx r (?row y) ! x) =
          rgb (f (fst (x' + int x, y' + int y) - dx) (snd (x' + int x, y' + int y) - dy) (rgb (r ! x))
            (src_px src (fst (x' + int x, y' + int y) - dx) (snd (x' + int x, y' + int y) - dy)))"
      proof -
        have "fst (x' + int x, y' + int y) - dx = sx + int x" "snd (x' + int x, y' + int y) - dy = sy + int y"
          using sxy by simp_all
        with * show ?thesis unfolding rowpx [OF y x] by (simp only:)
      qed
    qed (use c in auto)
    then have "paints d (cells (rect_make x' y' w' h'))
        (\<lambda>p c. f (fst p - dx) (snd p - dy) c (src_px src (fst p - dx) (snd p - dy)))
        (blit_clipped k d sc dx dy src)"
      by (simp add: blit_clipped_def pd sp Some q st)
    then show ?thesis unfolding c(1) by (auto simp: paints_def)
  qed
qed

end


text \<open>The kernels the operations choose meet the contract for every instruction set.\<close>

definition surface_mask :: "u32 \<Rightarrow> int \<Rightarrow> int \<Rightarrow> int \<Rightarrow> int \<Rightarrow> u32" where
  "surface_mask cr w h lx ly = (if cr = 0 then 255 else of_nat (rounded_corner_mask lx ly w h (sint cr)))"

lemma copy_row_fast_px:
  assumes "length d = length s"
  shows "length (copy_row_fast cpu d s) = length d"
    and "x < length d \<Longrightarrow> copy_row_fast cpu d s ! x = opaque_px (s ! x)"
  using assms
  by (simp_all add: copy_row_fast_def blit_copy_row_avx2_map blit_copy_row_sse2_map)

lemma copy_masked_255: "copy_masked_px d s 255 = opaque_px s"
  by (simp add: copy_masked_px_def)

lemma alpha_row_fast_px:
  fixes a :: u8
  assumes "length d = length s"
  shows "length (alpha_row_fast cpu (ucast a) d s) = length d"
    and "x < length d \<Longrightarrow>
      rgb (alpha_row_fast cpu (ucast a) d s ! x) = rgb (alpha_masked_px (rgb (d ! x)) (s ! x) (ucast a) 255)"
proof -
  show "length (alpha_row_fast cpu (ucast a) d s) = length d"
    using assms by (simp add: alpha_row_fast_def alpha_sse2.len alpha_avx2.len)
  show "rgb (alpha_row_fast cpu (ucast a) d s ! x) = rgb (alpha_masked_px (rgb (d ! x)) (s ! x) (ucast a) 255)"
    if "x < length d"
    using that assms unfolding alpha_masked_px_rgb
    by (simp add: alpha_row_fast_def alpha_sse2.px alpha_avx2.px alpha_masked_255 [OF alpha_bound])
qed

lemma alpha_row_plain_fast:
  "length d = length s \<Longrightarrow> alpha_row_plain cpu (ucast (a :: u8)) d s = alpha_row_fast cpu (ucast a) d s"
  by (simp add: alpha_row_plain_def alpha_row_fast_def alpha_masked_255 [OF alpha_bound])

lemma length_masked_row [simp]: "length (masked_row f w h cr ly sx d s) = length d"
  by (simp add: masked_row_def)

lemma nth_masked_row:
  "x < length d \<Longrightarrow>
   masked_row f w h cr ly sx d s ! x = f (d ! x) (s ! x) (of_nat (rounded_corner_mask (sx + int x) ly w h cr))"
  by (simp add: masked_row_def)

interpretation copy_op: row_op w h "\<lambda>ly sx. copy_row_fast cpu" "\<lambda>lx ly d s. copy_masked_px d s (surface_mask 0 w h lx ly)"
  for w h cpu
  by unfold_locales (simp_all add: copy_row_fast_px surface_mask_def copy_masked_255)

interpretation alpha_op: row_op w h "\<lambda>ly sx. alpha_row_plain cpu (ucast a)"
    "\<lambda>lx ly d s. alpha_masked_px d s (ucast a) (surface_mask 0 w h lx ly)"
  for w h cpu and a :: u8
  by unfold_locales (simp_all add: alpha_row_plain_fast alpha_row_fast_px surface_mask_def)

interpretation copy_rounded_op: row_op w h
    "\<lambda>ly sx d s. if \<not> corner_row h (sint cr) ly then copy_row_fast cpu d s
       else masked_row copy_masked_px w h (sint cr) ly sx d s"
    "\<lambda>lx ly d s. copy_masked_px d s (of_nat (rounded_corner_mask lx ly w h (sint cr)))"
  for w h cpu and cr :: u32
proof unfold_locales
  fix d s :: "u32 list" and ly sx :: int and x
  assume l: "length d = length s"
  show "length (if \<not> corner_row h (sint cr) ly then copy_row_fast cpu d s
       else masked_row copy_masked_px w h (sint cr) ly sx d s) = length d"
    using l by (simp add: copy_row_fast_px)
  assume b: "x < length d" "0 \<le> sx" "sx + int (length d) \<le> w" "0 \<le> ly" "ly < h"
  have full: "rounded_corner_mask (sx + int x) ly w h (sint cr) = 255" if "\<not> corner_row h (sint cr) ly"
    using b that by (intro rounded_corner_mask_rows) (auto simp: corner_row_def)
  show "rgb ((if \<not> corner_row h (sint cr) ly then copy_row_fast cpu d s
       else masked_row copy_masked_px w h (sint cr) ly sx d s) ! x) =
     rgb (copy_masked_px (rgb (d ! x)) (s ! x) (of_nat (rounded_corner_mask (sx + int x) ly w h (sint cr))))"
    using l b full by (simp add: nth_masked_row copy_masked_px_rgb copy_row_fast_px copy_masked_255)
qed

interpretation alpha_rounded_op: row_op w h
    "\<lambda>ly sx d s. if \<not> corner_row h (sint cr) ly then alpha_row_fast cpu (ucast a) d s
       else masked_row (\<lambda>d s. alpha_masked_px d s (ucast a)) w h (sint cr) ly sx d s"
    "\<lambda>lx ly d s. alpha_masked_px d s (ucast a) (of_nat (rounded_corner_mask lx ly w h (sint cr)))"
  for w h cpu and cr :: u32 and a :: u8
proof unfold_locales
  fix d s :: "u32 list" and ly sx :: int and x
  assume l: "length d = length s"
  show "length (if \<not> corner_row h (sint cr) ly then alpha_row_fast cpu (ucast a) d s
       else masked_row (\<lambda>d s. alpha_masked_px d s (ucast a)) w h (sint cr) ly sx d s) = length d"
    using l by (simp add: alpha_row_fast_px)
  assume b: "x < length d" "0 \<le> sx" "sx + int (length d) \<le> w" "0 \<le> ly" "ly < h"
  have full: "rounded_corner_mask (sx + int x) ly w h (sint cr) = 255" if "\<not> corner_row h (sint cr) ly"
    using b that by (intro rounded_corner_mask_rows) (auto simp: corner_row_def)
  show "rgb ((if \<not> corner_row h (sint cr) ly then alpha_row_fast cpu (ucast a) d s
       else masked_row (\<lambda>d s. alpha_masked_px d s (ucast a)) w h (sint cr) ly sx d s) ! x) =
     rgb (alpha_masked_px (rgb (d ! x)) (s ! x) (ucast a)
       (of_nat (rounded_corner_mask (sx + int x) ly w h (sint cr))))"
    using l b full by (simp add: nth_masked_row alpha_masked_px_rgb alpha_row_fast_px)
qed


subsection \<open>Properties\<close>

lemma paints_at:
  assumes "paints d R f d'" "p \<in> screen_cells d"
  shows "colour d' p = (if p \<in> R then rgb (f p (colour d p)) else colour d p)"
  using assms by (simp add: paints_def)

lemma paints_cong:
  assumes "paints d R f d'" "\<And>p c. p \<in> R \<Longrightarrow> rgb (f p c) = rgb (g p c)"
  shows "paints d R g d'"
  using assms by (auto simp: paints_def)

lemma blit_fill_paints:
  assumes d: "dst_ok d"
  shows "paints d (scissor_cells sc \<inter> cells (rect_make x y w h)) (\<lambda>p c. color)
    (blit_fill_scissor d sc x y w h color)"
proof -
  obtain pd where pd: "dpix d = Some pd" using d by (auto simp: dst_ok_def split: option.splits)
  show ?thesis
  proof (cases "clip_rect d sc x y w h 0 0")
    case None
    with clip_rect_None [OF None] d show ?thesis
      by (simp add: blit_fill_scissor_def pd paints_refl Int_assoc)
  next
    case (Some q)
    obtain x' y' w' h' sx sy where q: "q = (x', y', w', h', sx, sy)" by (cases q)
    note c = clip_rect_Some [OF Some [unfolded q]]
    have "paints d (cells (rect_make x' y' w' h')) (\<lambda>p c. color) (blit_fill_scissor d sc x y w h color)"
      unfolding blit_fill_scissor_def pd Some q option.case prod.case
      by (rule row_loop_paints [OF d pd]) (use c in auto)
    then show ?thesis unfolding c(1) by (auto simp: paints_def)
  qed
qed

text \<open>
  What a surface does to one pixel: straight copy or source-over with the global alpha, both attenuated by the
  corner mask.  The four source operations paint exactly this on their clipped rectangle.
\<close>

definition surface_op :: "bool \<Rightarrow> u8 \<Rightarrow> u32 \<Rightarrow> blit_src \<Rightarrow> int \<Rightarrow> int \<Rightarrow> u32 \<Rightarrow> u32" where
  "surface_op opaq a cr src lx ly c =
     (let s = src_px src lx ly; m = surface_mask cr (sint (swidth src)) (sint (sheight src)) lx ly
      in if opaq then copy_masked_px c s m else alpha_masked_px c s (ucast a) m)"

lemma blit_copy_rounded_paints_sc:
  assumes "dst_ok d" "src_ok src"
  shows "paints d (scissor_cells sc \<inter> cells (rect_make dx dy (sint (swidth src)) (sint (sheight src))))
     (\<lambda>p c. surface_op True a cr src (fst p - dx) (snd p - dy) c)
     (blit_copy_rounded_scissor cpu d sc dx dy src cr)"
proof (cases "cr = 0")
  case True
  with copy_op.blit_clipped_paints [OF assms refl refl, where cpu = cpu and sc = sc and dx = dx and dy = dy] show ?thesis
    by (simp add: blit_copy_rounded_scissor_def blit_copy_scissor_def surface_op_def)
next
  case False
  with copy_rounded_op.blit_clipped_paints [OF assms refl refl, where cr = cr and cpu = cpu and sc = sc and dx = dx and dy = dy] show ?thesis
    by (simp add: blit_copy_rounded_scissor_def surface_op_def surface_mask_def Let_def)
qed

lemma blit_alpha_rounded_paints_sc:
  assumes "dst_ok d" "src_ok src"
  shows "paints d (scissor_cells sc \<inter> cells (rect_make dx dy (sint (swidth src)) (sint (sheight src))))
     (\<lambda>p c. surface_op False a cr src (fst p - dx) (snd p - dy) c)
     (blit_alpha_rounded_scissor cpu d sc dx dy src a cr)"
proof -
  consider "a = 0" | "a \<noteq> 0" "cr = 0" | "a \<noteq> 0" "cr \<noteq> 0" by blast
  then show ?thesis
  proof cases
    case 1
    have "surface_op False 0 cr src lx ly c = c" for lx ly c
      by (simp add: surface_op_def alpha_masked_px_def mul8_def Let_def)
    then have "paints d R (\<lambda>p c. surface_op False 0 cr src (fst p - dx) (snd p - dy) c) d" for R
      using assms(1) by (auto simp: paints_def colour_def)
    with 1 show ?thesis by (simp add: blit_alpha_rounded_scissor_def)
  next
    case 2
    with alpha_op.blit_clipped_paints [OF assms refl refl, where a = a and cpu = cpu and sc = sc and dx = dx and dy = dy] show ?thesis
      by (simp add: blit_alpha_rounded_scissor_def blit_alpha_scissor_def surface_op_def)
  next
    case 3
    with alpha_rounded_op.blit_clipped_paints [OF assms refl refl, where cr = cr and a = a and cpu = cpu and sc = sc and dx = dx and dy = dy] show ?thesis
      by (simp add: blit_alpha_rounded_scissor_def surface_op_def surface_mask_def Let_def)
  qed
qed


text \<open>A copy with rounded corners (radius 0 included) changes, on the whole screen, exactly the pixels in the
  scissor and in the source's rectangle; each takes the colour of the copy attenuated by the corner mask.  This holds
  for every instruction set the dispatcher can choose, for every position and every scissor.\<close>

theorem blit_copy_rounded_paints:
  assumes "dst_ok d" "src_ok src"
  shows "paints d (scissor_cells sc \<inter> cells (rect_make dx dy (sint (swidth src)) (sint (sheight src))))
     (\<lambda>p c. surface_op True a cr src (fst p - dx) (snd p - dy) c)
     (blit_copy_rounded_scissor cpu d sc dx dy src cr)"
  using assms by (rule blit_copy_rounded_paints_sc)

text \<open>An alpha blit with rounded corners (radius 0 and global alpha 0 included) changes exactly the pixels in the
  scissor and in the source's rectangle, each to the source-over colour with the global alpha and the corner mask, for
  every instruction set.\<close>

theorem blit_alpha_rounded_paints:
  assumes "dst_ok d" "src_ok src"
  shows "paints d (scissor_cells sc \<inter> cells (rect_make dx dy (sint (swidth src)) (sint (sheight src))))
     (\<lambda>p c. surface_op False a cr src (fst p - dx) (snd p - dy) c)
     (blit_alpha_rounded_scissor cpu d sc dx dy src a cr)"
  using assms by (rule blit_alpha_rounded_paints_sc)

definition example_dst :: blit_dst where
  "example_dst = \<lparr>dpix = Some [0xff000000, 0xff000000, 0xff000000, 0xff000000], dwidth = 2, dheight = 2, dstride = 2\<rparr>"

definition example_src :: blit_src where
  "example_src = \<lparr>spix = Some [0xff123456], swidth = 1, sheight = 1, sstride = 1\<rparr>"

lemma example_blit_ok: "dst_ok example_dst" "src_ok example_src"
  by (simp_all add: dst_ok_def src_ok_def example_dst_def example_src_def)

lemma example_cells: "(1, 1) \<in> screen_cells example_dst" "(0, 1) \<in> screen_cells example_dst"
  by (simp_all add: screen_cells_def example_dst_def)

theorem blit_copy_rounded_paints_witness:
  "colour (blit_copy_rounded_scissor \<lparr>has_sse2 = True, has_avx2 = False\<rparr> example_dst None 1 1 example_src 0) (1, 1) =
   0x123456"
proof -
  let ?cpu = "\<lparr>has_sse2 = True, has_avx2 = False\<rparr>"
  have "surface_op True 255 0 example_src 0 0 c = 0xff123456" for c
    by (simp add: surface_op_def surface_mask_def copy_masked_255 opaque_px_def src_px_def example_src_def)
  with paints_at [OF blit_copy_rounded_paints [OF example_blit_ok, of None 1 1 255 0 ?cpu] example_cells(1)]
  show ?thesis by (simp add: example_src_def take_bit_eq_mask mask_eq_exp_minus_1)
qed

theorem blit_alpha_rounded_paints_witness:
  "colour (blit_alpha_rounded_scissor \<lparr>has_sse2 = False, has_avx2 = True\<rparr> example_dst None 1 1 example_src 255 0) (0, 1) =
   0"
proof -
  let ?cpu = "\<lparr>has_sse2 = False, has_avx2 = True\<rparr>"
  have "colour example_dst (0, 1) = 0"
    by (simp add: colour_def example_dst_def take_bit_eq_mask mask_eq_exp_minus_1)
  with paints_at [OF blit_alpha_rounded_paints [OF example_blit_ok, of None 1 1 255 0 ?cpu] example_cells(2)]
  show ?thesis by (simp add: example_src_def)
qed

end
