(* ===== verification/Surface.thy ===== *)
theory Surface
  imports Heap Blit
begin

text \<open>
  Surfaces, \<^verbatim>\<open>src/compositor/surface.c\<close>: creation and destruction on the kernel heap, placement, and the dirty
  region.  The record has the fields of \<^verbatim>\<open>struct surface\<close>; \<open>gfx\<close> is the memory the drawing code works on, the heap and
  the surfaces by address.  A call with a \<^verbatim>\<open>NULL\<close> surface changes nothing.
\<close>

subsection \<open>State\<close>

abbreviation SURFACE_NAME_LEN :: nat where "SURFACE_NAME_LEN \<equiv> 24"
abbreviation SURFACE_MAX_CORNER :: u32 where "SURFACE_MAX_CORNER \<equiv> 64"
abbreviation SURFACE_Z_CURSOR_LAYER :: int where "SURFACE_Z_CURSOR_LAYER \<equiv> 2147483647"
abbreviation SURFACE_Z_USER_MAX :: int where "SURFACE_Z_USER_MAX \<equiv> 2147483646"
abbreviation SIZEOF_SURFACE :: nat where "SIZEOF_SURFACE \<equiv> 112"

record surface =
  s_name :: string
  s_pixels_ptr :: nat
  s_pixels :: "u32 list"
  s_width :: u32
  s_height :: u32
  s_x :: int
  s_y :: int
  s_z :: int
  s_alpha :: u8
  s_visible :: bool
  s_opaque :: bool
  s_pixels_dirty :: bool
  s_dirty_rect_valid :: bool
  s_dirty_lx0 :: int
  s_dirty_ly0 :: int
  s_dirty_lx1 :: int
  s_dirty_ly1 :: int
  s_corner_radius :: u32
  s_prev_x :: int
  s_prev_y :: int
  s_prev_w :: u32
  s_prev_h :: u32
  s_prev_z :: int
  s_prev_alpha :: u8
  s_prev_visible :: bool
  s_prev_opaque :: bool
  s_prev_known :: bool
  s_prev_corner_radius :: u32

record gfx =
  gheap :: heap
  surf :: "nat \<Rightarrow> surface"

definition with_surface :: "nat \<Rightarrow> (surface \<Rightarrow> surface) \<Rightarrow> gfx \<Rightarrow> gfx" where
  "with_surface p f g = (if p = 0 then g else g\<lparr>surf := (surf g)(p := f (surf g p))\<rparr>)"

subsection \<open>Operations\<close>

text \<open>The C string the array holds after \<^verbatim>\<open>name_copy\<close> (the rest of the array is zeroed).\<close>

definition name_copy :: "string option \<Rightarrow> string" where
  "name_copy src = (case src of None \<Rightarrow> [] | Some s \<Rightarrow> take (SURFACE_NAME_LEN - 1) (takeWhile (\<lambda>c. c \<noteq> CHR 0x00) s))"

definition init_surface :: "string option \<Rightarrow> nat \<Rightarrow> u32 \<Rightarrow> u32 \<Rightarrow> surface" where
  "init_surface name px w h =
     \<lparr>s_name = name_copy name, s_pixels_ptr = px, s_pixels = replicate (unat w * unat h) 0, s_width = w, s_height = h,
      s_x = 0, s_y = 0, s_z = 0, s_alpha = 255, s_visible = True, s_opaque = False, s_pixels_dirty = True,
      s_dirty_rect_valid = False, s_dirty_lx0 = 0, s_dirty_ly0 = 0, s_dirty_lx1 = 0, s_dirty_ly1 = 0,
      s_corner_radius = 0, s_prev_x = 0, s_prev_y = 0, s_prev_w = 0, s_prev_h = 0, s_prev_z = 0, s_prev_alpha = 0,
      s_prev_visible = False, s_prev_opaque = False, s_prev_known = False, s_prev_corner_radius = 0\<rparr>"

definition surface_create :: "nat \<Rightarrow> string option \<Rightarrow> u32 \<Rightarrow> u32 \<Rightarrow> gfx \<Rightarrow> (nat \<times> gfx) result option" where
  "surface_create root name w h g =
     (if w = 0 \<or> h = 0 \<or> w > 16384 \<or> h > 16384 then Some (Inr (0, g))
      else case kmalloc root SIZEOF_SURFACE (gheap g) of
        None \<Rightarrow> None
      | Some (Inl e) \<Rightarrow> Some (Inl e)
      | Some (Inr (s, h1)) \<Rightarrow>
          if s = 0 then Some (Inr (0, g\<lparr>gheap := h1\<rparr>))
          else case kmalloc root (unat w * unat h * 4) h1 of
            None \<Rightarrow> None
          | Some (Inl e) \<Rightarrow> Some (Inl e)
          | Some (Inr (px, h2)) \<Rightarrow>
              if px = 0
              then case kfree s h2 of
                     None \<Rightarrow> None
                   | Some (Inl e) \<Rightarrow> Some (Inl e)
                   | Some (Inr h3) \<Rightarrow> Some (Inr (0, g\<lparr>gheap := h3\<rparr>))
              else Some (Inr (s, g\<lparr>gheap := h2, surf := (surf g)(s := init_surface name px w h)\<rparr>)))"

definition surface_destroy :: "nat \<Rightarrow> gfx \<Rightarrow> gfx result option" where
  "surface_destroy s g =
     (if s = 0 then Some (Inr g)
      else case (if s_pixels_ptr (surf g s) \<noteq> 0 then kfree (s_pixels_ptr (surf g s)) (gheap g) else Some (Inr (gheap g))) of
        None \<Rightarrow> None
      | Some (Inl e) \<Rightarrow> Some (Inl e)
      | Some (Inr h1) \<Rightarrow>
          (case kfree s h1 of
             None \<Rightarrow> None
           | Some (Inl e) \<Rightarrow> Some (Inl e)
           | Some (Inr h2) \<Rightarrow> Some (Inr (g\<lparr>gheap := h2\<rparr>))))"

definition surface_clear :: "nat \<Rightarrow> u32 \<Rightarrow> gfx \<Rightarrow> gfx" where
  "surface_clear p argb = with_surface p (\<lambda>s.
     if s_pixels_ptr s = 0 then s
     else s\<lparr>s_pixels := replicate (unat (s_width s) * unat (s_height s)) argb,
            s_pixels_dirty := True, s_dirty_rect_valid := False\<rparr>)"

definition surface_move :: "nat \<Rightarrow> int \<Rightarrow> int \<Rightarrow> gfx \<Rightarrow> gfx" where
  "surface_move p x y = with_surface p (\<lambda>s. s\<lparr>s_x := x, s_y := y\<rparr>)"

definition surface_set_z :: "nat \<Rightarrow> int \<Rightarrow> gfx \<Rightarrow> gfx" where
  "surface_set_z p z = with_surface p (\<lambda>s. s\<lparr>s_z := (if z > SURFACE_Z_USER_MAX then SURFACE_Z_USER_MAX else z)\<rparr>)"

definition surface_set_alpha :: "nat \<Rightarrow> u8 \<Rightarrow> gfx \<Rightarrow> gfx" where
  "surface_set_alpha p a = with_surface p (\<lambda>s. s\<lparr>s_alpha := a\<rparr>)"

definition surface_show :: "nat \<Rightarrow> bool \<Rightarrow> gfx \<Rightarrow> gfx" where
  "surface_show p v = with_surface p (\<lambda>s. s\<lparr>s_visible := v\<rparr>)"

definition surface_set_corner_radius :: "nat \<Rightarrow> u32 \<Rightarrow> gfx \<Rightarrow> gfx" where
  "surface_set_corner_radius p r = with_surface p (\<lambda>s.
     let cap = (if s_width s < s_height s then s_width s else s_height s) div 2;
         r = (if r > cap then cap else r);
         r = (if r > SURFACE_MAX_CORNER then SURFACE_MAX_CORNER else r)
     in if s_corner_radius s = r then s else s\<lparr>s_corner_radius := r\<rparr>)"

definition surface_effective_rect :: "surface \<Rightarrow> rect" where
  "surface_effective_rect s = rect_make (s_x s) (s_y s) (sint (s_width s)) (sint (s_height s))"

definition surface_mark_dirty :: "nat \<Rightarrow> gfx \<Rightarrow> gfx" where
  "surface_mark_dirty p = with_surface p (\<lambda>s. s\<lparr>s_pixels_dirty := True, s_dirty_rect_valid := False\<rparr>)"

definition mark_dirty_rect :: "int \<Rightarrow> int \<Rightarrow> int \<Rightarrow> int \<Rightarrow> surface \<Rightarrow> surface" where
  "mark_dirty_rect lx0 ly0 lx1 ly1 s =
     (if s_pixels_ptr s = 0 \<or> lx1 \<le> lx0 \<or> ly1 \<le> ly0 then s
      else let w = sint (s_width s); h = sint (s_height s);
               lx0 = (if lx0 < 0 then 0 else lx0); ly0 = (if ly0 < 0 then 0 else ly0);
               lx1 = (if lx1 > w then w else lx1); ly1 = (if ly1 > h then h else ly1)
           in if lx1 \<le> lx0 \<or> ly1 \<le> ly0 then s
              else if \<not> s_dirty_rect_valid s
              then s\<lparr>s_pixels_dirty := True, s_dirty_lx0 := lx0, s_dirty_ly0 := ly0, s_dirty_lx1 := lx1,
                     s_dirty_ly1 := ly1, s_dirty_rect_valid := True\<rparr>
              else s\<lparr>s_pixels_dirty := True,
                     s_dirty_lx0 := (if lx0 < s_dirty_lx0 s then lx0 else s_dirty_lx0 s),
                     s_dirty_ly0 := (if ly0 < s_dirty_ly0 s then ly0 else s_dirty_ly0 s),
                     s_dirty_lx1 := (if lx1 > s_dirty_lx1 s then lx1 else s_dirty_lx1 s),
                     s_dirty_ly1 := (if ly1 > s_dirty_ly1 s then ly1 else s_dirty_ly1 s)\<rparr>)"

definition surface_mark_dirty_rect :: "nat \<Rightarrow> int \<Rightarrow> int \<Rightarrow> int \<Rightarrow> int \<Rightarrow> gfx \<Rightarrow> gfx" where
  "surface_mark_dirty_rect p lx0 ly0 lx1 ly1 = with_surface p (mark_dirty_rect lx0 ly0 lx1 ly1)"


subsection \<open>Well-formed surfaces\<close>

definition surf_ok :: "surface \<Rightarrow> bool" where
  "surf_ok s \<longleftrightarrow>
     s_pixels_ptr s \<noteq> 0 \<and> 0 < s_width s \<and> s_width s \<le> 16384 \<and> 0 < s_height s \<and> s_height s \<le> 16384 \<and>
     length (s_pixels s) = unat (s_width s) * unat (s_height s) \<and>
     s_corner_radius s \<le> 64 \<and> 2 * unat (s_corner_radius s) \<le> unat (s_width s) \<and>
     2 * unat (s_corner_radius s) \<le> unat (s_height s) \<and>
     (s_dirty_rect_valid s \<longrightarrow> s_pixels_dirty s \<and>
        0 \<le> s_dirty_lx0 s \<and> s_dirty_lx0 s < s_dirty_lx1 s \<and> s_dirty_lx1 s \<le> sint (s_width s) \<and>
        0 \<le> s_dirty_ly0 s \<and> s_dirty_ly0 s < s_dirty_ly1 s \<and> s_dirty_ly1 s \<le> sint (s_height s))"

lemma init_surface_ok:
  assumes "w \<noteq> 0" "h \<noteq> 0" "w \<le> 16384" "h \<le> 16384" "px \<noteq> 0"
  shows "surf_ok (init_surface name px w h)"
  using assms by (simp add: surf_ok_def init_surface_def word_gt_0)

lemma with_surface_ok:
  assumes "\<And>s. surf_ok s \<Longrightarrow> surf_ok (f s)" "surf_ok (surf g q)"
  shows "surf_ok (surf (with_surface p f g) q)"
  using assms by (auto simp: with_surface_def)

lemma mark_dirty_rect_ok [inv_intros]: "surf_ok s \<Longrightarrow> surf_ok (mark_dirty_rect a b c d s)"
  by (auto simp: surf_ok_def mark_dirty_rect_def Let_def)

lemma corner_cap:
  fixes w h r :: u32
  assumes "r \<le> (if w < h then w else h) div 2"
  shows "2 * unat r \<le> unat w \<and> 2 * unat r \<le> unat h"
proof -
  have "unat r \<le> unat (if w < h then w else h) div 2"
    using assms by (simp add: word_le_nat_alt unat_div)
  then show ?thesis by (auto simp: word_less_nat_alt split: if_splits)
qed

lemma set_corner_radius_ok [inv_intros]:
  assumes "surf_ok (surf g q)"
  shows "surf_ok (surf (surface_set_corner_radius p r g) q)"
  unfolding surface_set_corner_radius_def
proof (rule with_surface_ok [OF _ assms])
  fix s assume ok: "surf_ok s"
  define cap where "cap = (if s_width s < s_height s then s_width s else s_height s) div 2"
  define r' where "r' = (if (if r > cap then cap else r) > 64 then 64 else (if r > cap then cap else r))"
  have "r' \<le> cap" "r' \<le> 64" by (auto simp: r'_def)
  with corner_cap [of r' "s_width s" "s_height s"] ok
  have "surf_ok (if s_corner_radius s = r' then s else s\<lparr>s_corner_radius := r'\<rparr>)"
    by (simp add: surf_ok_def cap_def)
  then show "surf_ok (let cap = (if s_width s < s_height s then s_width s else s_height s) div 2;
         r = (if r > cap then cap else r); r = (if r > 64 then 64 else r)
       in if s_corner_radius s = r then s else s\<lparr>s_corner_radius := r\<rparr>)"
    by (simp only: Let_def r'_def cap_def)
qed

text \<open>The local pixels a dirty surface asks to repaint.\<close>

definition dirty_cells :: "surface \<Rightarrow> (int \<times> int) set" where
  "dirty_cells s =
     (if \<not> s_pixels_dirty s then {}
      else if s_dirty_rect_valid s
      then cells (rect_make (s_dirty_lx0 s) (s_dirty_ly0 s) (s_dirty_lx1 s - s_dirty_lx0 s) (s_dirty_ly1 s - s_dirty_ly0 s))
      else cells (rect_make 0 0 (sint (s_width s)) (sint (s_height s))))"

lemma mark_dirty_rect_covers:
  assumes "surf_ok s" "\<not> s_pixels_dirty s \<or> s_dirty_rect_valid s"
  shows "dirty_cells s \<union> cells (rect_make lx0 ly0 (lx1 - lx0) (ly1 - ly0)) \<inter>
           cells (rect_make 0 0 (sint (s_width s)) (sint (s_height s))) \<subseteq> dirty_cells (mark_dirty_rect lx0 ly0 lx1 ly1 s)"
proof
  fix q assume q: "q \<in> dirty_cells s \<union> cells (rect_make lx0 ly0 (lx1 - lx0) (ly1 - ly0)) \<inter>
           cells (rect_make 0 0 (sint (s_width s)) (sint (s_height s)))"
  obtain x y where xy: "q = (x, y)" by (cases q)
  let ?new = "lx0 \<le> x \<and> x < lx1 \<and> ly0 \<le> y \<and> y < ly1 \<and> 0 \<le> x \<and> x < sint (s_width s) \<and> 0 \<le> y \<and> y < sint (s_height s)"
  have ptr: "s_pixels_ptr s \<noteq> 0" using assms(1) by (simp add: surf_ok_def)
  from q consider (old) "(x, y) \<in> dirty_cells s" | (new) ?new by (auto simp: xy)
  then show "q \<in> dirty_cells (mark_dirty_rect lx0 ly0 lx1 ly1 s)"
  proof cases
    case old
    then have v: "s_pixels_dirty s" "s_dirty_rect_valid s" using assms(2) by (auto simp: dirty_cells_def split: if_splits)
    with old show ?thesis
      by (simp add: xy dirty_cells_def mark_dirty_rect_def Let_def ptr)
  next
    case new
    then show ?thesis
      by (cases "s_dirty_rect_valid s") (simp_all add: xy dirty_cells_def mark_dirty_rect_def Let_def ptr)
  qed
qed

text \<open>Every surface operation keeps a surface well formed: the pixel buffer has width times height pixels, the
  corner radius is at most 64 and half of each side, and a partial dirty rectangle is non-empty and inside the surface.\<close>

theorem surface_ops_ok:
  assumes "surf_ok (surf g q)"
  shows "surf_ok (surf (surface_clear p c g) q) \<and> surf_ok (surf (surface_move p x y g) q) \<and>
         surf_ok (surf (surface_set_z p z g) q) \<and> surf_ok (surf (surface_set_alpha p a g) q) \<and>
         surf_ok (surf (surface_show p v g) q) \<and> surf_ok (surf (surface_set_corner_radius p r g) q) \<and>
         surf_ok (surf (surface_mark_dirty p g) q) \<and> surf_ok (surf (surface_mark_dirty_rect p x y x' y' g) q)"
proof (intro conjI)
  show "surf_ok (surf (surface_set_corner_radius p r g) q)" by (rule set_corner_radius_ok [OF assms])
  show "surf_ok (surf (surface_mark_dirty_rect p x y x' y' g) q)"
    unfolding surface_mark_dirty_rect_def by (rule with_surface_ok [OF mark_dirty_rect_ok assms])
qed (unfold surface_clear_def surface_move_def surface_set_z_def surface_set_alpha_def surface_show_def
    surface_mark_dirty_def, (rule with_surface_ok [OF _ assms], simp add: surf_ok_def)+)

definition example_surface :: surface where
  "example_surface = init_surface None 4096 2 2"

definition example_gfx :: gfx where
  "example_gfx = \<lparr>gheap = example_heap, surf = (\<lambda>_. example_surface)\<rparr>"

lemma example_surface_ok: "surf_ok example_surface"
  unfolding example_surface_def by (rule init_surface_ok) simp_all

theorem surface_ops_ok_witness: "surf_ok (surf (surface_set_corner_radius 8192 100 example_gfx) 8192)"
proof -
  have "surf_ok (surf example_gfx 8192)" using example_surface_ok by (simp add: example_gfx_def)
  from surface_ops_ok [OF this, of 8192 0 0 0 0 0 True 100 0 0] show ?thesis by blast
qed

text \<open>A partial dirty mark after a full one in the same frame shrinks the pending region: \<^verbatim>\<open>surface_clear\<close> marks the
  whole surface, but a following \<^verbatim>\<open>surface_mark_dirty_rect\<close> makes the rectangle the only pixels still marked.\<close>

theorem mark_dirty_rect_after_clear:
  "dirty_cells (surf (surface_clear 8192 0 example_gfx) 8192) = cells (rect_make 0 0 2 2) \<and>
   dirty_cells (surf (surface_mark_dirty_rect 8192 0 0 1 1 (surface_clear 8192 0 example_gfx)) 8192) =
     cells (rect_make 0 0 1 1)"
  by (simp add: dirty_cells_def surface_clear_def surface_mark_dirty_rect_def with_surface_def mark_dirty_rect_def
      example_gfx_def example_surface_def init_surface_def Let_def)


subsection \<open>Creation and destruction\<close>

lemma grow_bytes_surface: "grow_bytes (block_need SIZEOF_SURFACE) = 0x10000"
  by (simp add: grow_bytes_def block_need_def)

lemma surface_bytes:
  fixes w h :: u32
  assumes "w \<noteq> 0" "h \<noteq> 0" "w \<le> 16384" "h \<le> 16384"
  shows "0 < unat w * unat h * 4" "unat w * unat h * 4 \<le> 2 ^ 30"
proof -
  show "0 < unat w * unat h * 4" using assms by (simp add: unat_gt_0)
  have "unat w * unat h \<le> 16384 * 16384" using assms(3,4) by (intro mult_le_mono) (simp_all add: word_le_nat_alt)
  then show "unat w * unat h * 4 \<le> 2 ^ 30" by (simp add: mult.commute)
qed

lemma heap_live_pos: "(p, k) \<in> heap_live h \<Longrightarrow> p \<noteq> 0"
  using heap_live_bounds(1) [of p k h] by auto

lemma surface_create_cases:
  assumes "surface_create root name w h g = Some (Inr (p, g'))" "p \<noteq> 0"
  obtains h1 px h2 where "w \<noteq> 0" "h \<noteq> 0" "w \<le> 16384" "h \<le> 16384"
    "kmalloc root SIZEOF_SURFACE (gheap g) = Some (Inr (p, h1))"
    "kmalloc root (unat w * unat h * 4) h1 = Some (Inr (px, h2))" "px \<noteq> 0"
    "g' = g\<lparr>gheap := h2, surf := (surf g)(p := init_surface name px w h)\<rparr>"
  using assms by (auto simp: surface_create_def not_less split: if_splits option.splits sum.splits)

text \<open>\<^verbatim>\<open>surface_create\<close> that returns a surface has made two new heap allocations, one for the struct and one of at
  least four bytes per pixel, and the surface is well formed; \<^verbatim>\<open>surface_destroy\<close> of it then returns without a panic and
  leaves exactly the allocations there were before (no leak, no double free).\<close>

theorem surface_create_destroy:
  assumes "\<exists>bs. heap_ok (gheap g) bs" "heap_end (gheap g) + 0x10000 + grow_bytes (block_need (unat w * unat h * 4)) < 2 ^ 64"
    and "surface_create root name w h g = Some (Inr (p, g'))" "p \<noteq> 0"
  shows "surf_ok (surf g' p) \<and>
    (\<exists>k l. SIZEOF_SURFACE \<le> k \<and> unat w * unat h * 4 \<le> l \<and>
       heap_live (gheap g') = insert (s_pixels_ptr (surf g' p), l) (insert (p, k) (heap_live (gheap g)))) \<and>
    (\<exists>g''. surface_destroy p g' = Some (Inr g'') \<and> (\<exists>bs. heap_ok (gheap g'') bs) \<and>
       heap_live (gheap g'') = heap_live (gheap g))"
proof -
  obtain h1 px h2 where dims: "w \<noteq> 0" "h \<noteq> 0" "w \<le> 16384" "h \<le> 16384"
    and m1: "kmalloc root SIZEOF_SURFACE (gheap g) = Some (Inr (p, h1))"
    and m2: "kmalloc root (unat w * unat h * 4) h1 = Some (Inr (px, h2))" and px: "px \<noteq> 0"
    and g': "g' = g\<lparr>gheap := h2, surf := (surf g)(p := init_surface name px w h)\<rparr>"
    using surface_create_cases [OF assms(3,4)] .
  note sz = surface_bytes [OF dims]
  have room1: "heap_room SIZEOF_SURFACE (gheap g)" using assms(2) by (simp add: heap_room_def grow_bytes_surface)
  obtain bs where bs: "heap_ok (gheap g) bs" using assms(1) by blast
  have "heap_end h1 \<le> heap_end (gheap g) + 0x10000"
    using kmalloc_heap_end [OF bs room1 _ m1] by (simp add: grow_bytes_surface)
  then have room2: "heap_room (unat w * unat h * 4) h1" using assms(2) sz by (simp add: heap_room_def)
  obtain k where ok1: "\<exists>bs. heap_ok h1 bs" and k: "SIZEOF_SURFACE \<le> k"
    "heap_live h1 = insert (p, k) (heap_live (gheap g))" "(p, k) \<notin> heap_live (gheap g)"
    using kheap.alloc_region [OF assms(1) room1 _ m1] by auto
  obtain l where ok2: "\<exists>bs. heap_ok h2 bs" and l: "unat w * unat h * 4 \<le> l"
    "heap_live h2 = insert (px, l) (heap_live h1)" "(px, l) \<notin> heap_live h1"
    using kheap.alloc_region [OF ok1 room2 sz(1) m2] by auto
  obtain h3 where h3: "kfree px h2 = Some (Inr h3)" "\<exists>bs. heap_ok h3 bs" "heap_live h3 = heap_live h1"
    using kheap.release_region [OF ok2, of px l] l by auto
  obtain h4 where h4: "kfree p h3 = Some (Inr h4)" "\<exists>bs. heap_ok h4 bs" "heap_live h4 = heap_live (gheap g)"
    using kheap.release_region [OF h3(2), of p k] h3(3) k by auto
  have ptr: "s_pixels_ptr (surf g' p) = px" by (simp add: g' init_surface_def)
  have "surf_ok (surf g' p)" using init_surface_ok [OF dims px] by (simp add: g')
  moreover have "surface_destroy p g' = Some (Inr (g'\<lparr>gheap := h4\<rparr>))"
    using assms(4) px h3(1) h4(1) by (simp add: surface_destroy_def ptr) (simp add: g')
  moreover have "heap_live (gheap g') = insert (px, l) (insert (p, k) (heap_live (gheap g)))"
    using k l by (simp add: g')
  ultimately show ?thesis using h4 k(1) l(1) ptr by auto
qed

lemma example_surface_create:
  "\<exists>p g'. surface_create 8192 None 2 2 example_gfx = Some (Inr (p, g')) \<and> p \<noteq> 0"
proof -
  let ?b = "[(KHEAP_BASE, 64, False), (KHEAP_BASE + 64, 512, True)]"
  have h: "heap_ok (gheap example_gfx) ?b" using example_heap_ok by (simp add: example_gfx_def)
  have a1: "alloc_blocks (block_need SIZEOF_SURFACE) ?b =
      Some (KHEAP_BASE + 64, [(KHEAP_BASE, 64, False), (KHEAP_BASE + 64, 144, False), (KHEAP_BASE + 208, 368, True)])"
    by (simp add: block_need_def)
  obtain m1 where m1: "kmalloc 8192 SIZEOF_SURFACE (gheap example_gfx) =
      Some (Inr (KHEAP_BASE + 64 + HDR, (gheap example_gfx)\<lparr>hdr := m1\<rparr>))"
    "heap_ok ((gheap example_gfx)\<lparr>hdr := m1\<rparr>)
       [(KHEAP_BASE, 64, False), (KHEAP_BASE + 64, 144, False), (KHEAP_BASE + 208, 368, True)]"
    using kmalloc_hit [OF h a1, of 8192] by auto
  have a2: "alloc_blocks (block_need 16) [(KHEAP_BASE, 64, False), (KHEAP_BASE + 64, 144, False), (KHEAP_BASE + 208, 368, True)] =
      Some (KHEAP_BASE + 208, [(KHEAP_BASE, 64, False), (KHEAP_BASE + 64, 144, False), (KHEAP_BASE + 208, 48, False),
        (KHEAP_BASE + 256, 320, True)])"
    by (simp add: block_need_def)
  obtain m2 where m2: "kmalloc 8192 16 ((gheap example_gfx)\<lparr>hdr := m1\<rparr>) =
      Some (Inr (KHEAP_BASE + 208 + HDR, (gheap example_gfx)\<lparr>hdr := m1\<rparr>\<lparr>hdr := m2\<rparr>))"
    using kmalloc_hit [OF m1(2) a2, of 8192] by auto
  show ?thesis using m1(1) m2 by (simp add: surface_create_def)
qed

theorem surface_create_destroy_witness:
  "\<exists>p g' g''. surface_create 8192 None 2 2 example_gfx = Some (Inr (p, g')) \<and> surface_destroy p g' = Some (Inr g'')
     \<and> heap_live (gheap g'') = heap_live (gheap example_gfx)"
proof -
  obtain p g' where c: "surface_create 8192 None 2 2 example_gfx = Some (Inr (p, g'))" "p \<noteq> 0"
    using example_surface_create by blast
  have "\<exists>bs. heap_ok (gheap example_gfx) bs" using example_heap_ok by (auto simp: example_gfx_def)
  moreover have "heap_end (gheap example_gfx) + 0x10000 + grow_bytes (block_need (unat (2 :: u32) * unat (2 :: u32) * 4)) < 2 ^ 64"
    by (simp add: example_gfx_def example_heap_def grow_bytes_def block_need_def)
  ultimately show ?thesis using surface_create_destroy [OF _ _ c] c(1) by blast
qed

end
