(* ===== verification/Parallel.thy ===== *)
theory Parallel
  imports Surface
begin

text \<open>
  The multi-processor composition of a frame, \<^verbatim>\<open>src/compositor/parallel.c\<close>.  The damage bounding box is cut into bands;
  every processor claims bands from an atomic counter and composes each damage rectangle of its band: clear to the
  background, then every surface bottom to top.  \<open>scene_colour\<close> is the specification: the colour a full repaint of one
  pixel gives.  Composition is shown to give every damaged pixel that colour and to leave all others alone, in the
  sequential order and in every interleaving of the processors' steps.
\<close>

subsection \<open>Operations\<close>

abbreviation PARALLEL_MAX_BANDS :: nat where "PARALLEL_MAX_BANDS \<equiv> 16"

definition surface_src :: "surface \<Rightarrow> blit_src" where
  "surface_src s =
     \<lparr>spix = (if s_pixels_ptr s = 0 then None else Some (s_pixels s)), swidth = s_width s, sheight = s_height s,
      sstride = s_width s\<rparr>"

definition compose_surface :: "simd \<Rightarrow> rect \<Rightarrow> surface \<Rightarrow> blit_dst \<Rightarrow> blit_dst" where
  "compose_surface cpu sub s dst =
     (if s_pixels_ptr s = 0 then dst
      else if \<not> s_visible s \<or> s_alpha s = 0 then dst
      else let srect = rect_make (s_x s) (s_y s) (sint (s_width s)) (sint (s_height s))
           in if \<not> rect_overlaps srect sub then dst
              else let src = surface_src s
                   in if s_corner_radius s \<noteq> 0
                      then if s_opaque s
                           then blit_copy_rounded_scissor cpu dst (Some sub) (s_x s) (s_y s) src (s_corner_radius s)
                           else blit_alpha_rounded_scissor cpu dst (Some sub) (s_x s) (s_y s) src (s_alpha s) (s_corner_radius s)
                      else if s_opaque s
                           then blit_copy_scissor cpu dst (Some sub) (s_x s) (s_y s) src
                           else blit_alpha_scissor cpu dst (Some sub) (s_x s) (s_y s) src (s_alpha s))"

definition compose_rect :: "simd \<Rightarrow> surface list \<Rightarrow> u32 \<Rightarrow> rect \<Rightarrow> blit_dst \<Rightarrow> blit_dst" where
  "compose_rect cpu zs bg sub dst =
     fold (compose_surface cpu sub) zs (blit_fill_scissor dst (Some sub) (rx sub) (ry sub) (rw sub) (rh sub) bg)"

definition band_jobs :: "rect list \<Rightarrow> damage \<Rightarrow> nat \<Rightarrow> rect list" where
  "band_jobs bands dmg i =
     (if i \<ge> length bands then [] else map snd (filter fst (map (\<lambda>r. rect_intersect r (bands ! i)) dmg)))"

definition compose_band :: "simd \<Rightarrow> rect list \<Rightarrow> damage \<Rightarrow> surface list \<Rightarrow> u32 \<Rightarrow> nat \<Rightarrow> blit_dst \<Rightarrow> blit_dst" where
  "compose_band cpu bands dmg zs bg i dst = fold (compose_rect cpu zs bg) (band_jobs bands dmg i) dst"

definition band_number :: "nat \<Rightarrow> bool \<Rightarrow> rect \<Rightarrow> nat" where
  "band_number online virtualbox bbox =
     (let cpus = (if online < 1 then 1 else online);
          cpus = (if virtualbox then 1 else cpus);
          n = (if cpus > PARALLEL_MAX_BANDS then PARALLEL_MAX_BANDS else cpus);
          cap = nat (rh bbox div 32);
          cap = (if cap < 1 then 1 else cap)
      in if n > cap then cap else n)"

definition make_bands :: "rect \<Rightarrow> nat \<Rightarrow> rect list" where
  "make_bands bbox n =
     map (\<lambda>i. let y0 = ry bbox + rh bbox * int i div int n; y1 = ry bbox + rh bbox * int (i + 1) div int n
              in rect_make (rx bbox) y0 (rw bbox) (y1 - y0)) [0..<n]"

text \<open>
  The bands in the order of the counter, as one processor composes them.  The other orders are the runs of \<open>par_step\<close>
  below.
\<close>

definition parallel_compose ::
  "simd \<Rightarrow> nat \<Rightarrow> bool \<Rightarrow> blit_dst \<Rightarrow> damage \<Rightarrow> surface list \<Rightarrow> u32 \<Rightarrow> blit_dst" where
  "parallel_compose cpu online virtualbox dst dmg zs bg =
     (if length dmg = 0 then dst
      else let bbox = damage_bbox dmg
           in if rw bbox \<le> 0 \<or> rh bbox \<le> 0 then dst
              else let n = band_number online virtualbox bbox; bands = make_bands bbox n
                   in fold (compose_band cpu bands dmg zs bg) [0..<n] dst)"

subsection \<open>The workers\<close>

text \<open>
  The shared state while a frame is composed: the buffer, the claim counter, the rectangles each processor still has
  to compose of its band, and the processors that have left the loop (\<^verbatim>\<open>done_count\<close>).  The boot processor is 0 and
  starts with band 0.  A processor's steps are claiming a band (the atomic add), composing one rectangle, and leaving.
\<close>

record par =
  pdst :: blit_dst
  next_tile :: nat
  todo :: "nat \<Rightarrow> rect list"
  gone :: "nat set"

definition par_start :: "rect list \<Rightarrow> damage \<Rightarrow> blit_dst \<Rightarrow> par" where
  "par_start bands dmg dst =
     \<lparr>pdst = dst, next_tile = 1, todo = (\<lambda>c. if c = 0 then band_jobs bands dmg 0 else []), gone = {}\<rparr>"

inductive par_step :: "simd \<Rightarrow> rect list \<Rightarrow> damage \<Rightarrow> surface list \<Rightarrow> u32 \<Rightarrow> nat \<Rightarrow> par \<Rightarrow> par \<Rightarrow> bool"
  for cpu bands dmg zs bg cpus where
  claim: "c < cpus \<Longrightarrow> c \<notin> gone s \<Longrightarrow> todo s c = [] \<Longrightarrow> next_tile s < length bands \<Longrightarrow>
    par_step cpu bands dmg zs bg cpus s
      (s\<lparr>next_tile := next_tile s + 1, todo := (todo s)(c := band_jobs bands dmg (next_tile s))\<rparr>)"
| work: "c < cpus \<Longrightarrow> todo s c = r # rs \<Longrightarrow>
    par_step cpu bands dmg zs bg cpus s (s\<lparr>pdst := compose_rect cpu zs bg r (pdst s), todo := (todo s)(c := rs)\<rparr>)"
| leave: "c < cpus \<Longrightarrow> c \<notin> gone s \<Longrightarrow> todo s c = [] \<Longrightarrow> length bands \<le> next_tile s \<Longrightarrow>
    par_step cpu bands dmg zs bg cpus s (s\<lparr>next_tile := next_tile s + 1, gone := insert c (gone s)\<rparr>)"

subsection \<open>Specification\<close>

definition covers :: "surface \<Rightarrow> int \<times> int \<Rightarrow> bool" where
  "covers s p \<longleftrightarrow> s_pixels_ptr s \<noteq> 0 \<and> s_visible s \<and> s_alpha s \<noteq> 0 \<and> p \<in> cells (surface_effective_rect s)"

definition layer :: "int \<times> int \<Rightarrow> surface \<Rightarrow> u32 \<Rightarrow> u32" where
  "layer p s c =
     (if covers s p
      then rgb (surface_op (s_opaque s) (s_alpha s) (s_corner_radius s) (surface_src s) (fst p - s_x s) (snd p - s_y s) c)
      else c)"

definition scene_colour :: "surface list \<Rightarrow> u32 \<Rightarrow> int \<times> int \<Rightarrow> u32" where
  "scene_colour zs bg p = fold (layer p) zs (rgb bg)"

lemma surface_src_dims [simp]: "swidth (surface_src s) = s_width s" "sheight (surface_src s) = s_height s"
  by (simp_all add: surface_src_def)

lemma surface_src_ok: "surf_ok s \<Longrightarrow> src_ok (surface_src s)"
proof -
  assume ok: "surf_ok s"
  then have wh: "unat (s_width s) \<le> 16384" "unat (s_height s) \<le> 16384"
    by (auto simp: surf_ok_def word_le_nat_alt)
  have "unat (s_height s) * unat (s_width s) \<le> 16384 * 16384" using wh by (intro mult_le_mono)
  then show ?thesis using ok wh by (simp add: src_ok_def surface_src_def surf_ok_def mult.commute)
qed

lemma surface_op_rgb: "rgb (surface_op op a cr src lx ly (rgb c)) = rgb (surface_op op a cr src lx ly c)"
  by (simp add: surface_op_def Let_def copy_masked_px_rgb alpha_masked_px_rgb)

lemma compose_surface_paints:
  assumes d: "dst_ok d" and s: "surf_ok s" and sub: "\<not> rect_empty sub"
  shows "paints d (cells sub) (\<lambda>p c. layer p s (rgb c)) (compose_surface cpu sub s d)"
proof -
  let ?src = "surface_src s" and ?R = "cells sub \<inter> cells (surface_effective_rect s)"
  have src: "src_ok ?src" and ptr: "s_pixels_ptr s \<noteq> 0" using s by (simp_all add: surface_src_ok surf_ok_def)
  have ne: "\<not> rect_empty (surface_effective_rect s)"
  proof -
    have "unat (s_width s) < 2 ^ 31" "unat (s_height s) < 2 ^ 31" "0 < unat (s_width s)" "0 < unat (s_height s)"
      using s by (auto simp: surf_ok_def word_le_nat_alt word_less_nat_alt)
    then show ?thesis by (simp add: surface_effective_rect_def rect_empty_def rect_make_def sint_small del: of_nat_unat)
  qed
  show ?thesis
  proof (cases "s_visible s \<and> s_alpha s \<noteq> 0 \<and> rect_overlaps (surface_effective_rect s) sub")
    case False
    have "layer p s c = c" if "p \<in> cells sub" for p c
      using that False rect_overlaps_iff [OF ne sub] by (auto simp: layer_def covers_def)
    then have "paints d (cells sub) (\<lambda>p c. layer p s (rgb c)) d"
      using d by (auto simp: paints_def colour_def)
    with False show ?thesis
      by (auto simp: compose_surface_def surface_effective_rect_def Let_def)
  next
    case True
    let ?d' = "compose_surface cpu sub s d"
    let ?f = "\<lambda>p c. surface_op (s_opaque s) (s_alpha s) (s_corner_radius s) ?src (fst p - s_x s) (snd p - s_y s) c"
    have plain: "blit_copy_scissor cpu d (Some sub) (s_x s) (s_y s) ?src =
        blit_copy_rounded_scissor cpu d (Some sub) (s_x s) (s_y s) ?src 0"
      "blit_alpha_scissor cpu d (Some sub) (s_x s) (s_y s) ?src (s_alpha s) =
        blit_alpha_rounded_scissor cpu d (Some sub) (s_x s) (s_y s) ?src (s_alpha s) 0"
      by (simp_all add: blit_copy_rounded_scissor_def blit_alpha_rounded_scissor_def blit_alpha_scissor_def)
    have "?d' = (if s_opaque s
        then blit_copy_rounded_scissor cpu d (Some sub) (s_x s) (s_y s) ?src (s_corner_radius s)
        else blit_alpha_rounded_scissor cpu d (Some sub) (s_x s) (s_y s) ?src (s_alpha s) (s_corner_radius s))"
      using True ptr by (simp add: compose_surface_def surface_effective_rect_def Let_def plain)
    then have "paints d ?R ?f ?d'"
      using blit_copy_rounded_paints_sc [OF d src, of "Some sub" "s_x s" "s_y s" "s_alpha s" "s_corner_radius s" cpu]
        blit_alpha_rounded_paints_sc [OF d src, of "Some sub" "s_x s" "s_y s" "s_alpha s" "s_corner_radius s" cpu]
      by (simp add: surface_effective_rect_def)
    then show ?thesis
      using True ptr by (auto simp: paints_def layer_def covers_def surface_op_rgb colour_def)
  qed
qed


lemma paints_screen: "paints d R f d' \<Longrightarrow> screen_cells d' = screen_cells d"
  by (simp add: paints_def screen_cells_def)

lemma paints_ok: "paints d R f d' \<Longrightarrow> dst_ok d'"
  by (simp add: paints_def)

lemma paints_trans:
  assumes "paints d R f d1" "paints d1 R (\<lambda>p c. g p (rgb c)) d2"
  shows "paints d R (\<lambda>p c. g p (rgb (f p c))) d2"
proof -
  have same: "screen_cells d1 = screen_cells d" using assms(1) by (rule paints_screen)
  have "colour d2 p = (if p \<in> R then rgb (g p (rgb (f p (colour d p)))) else colour d p)" if "p \<in> screen_cells d" for p
    using paints_at [OF assms(1) that] paints_at [OF assms(2), of p, unfolded same, OF that]
    by (cases "p \<in> R") (simp_all only: if_True if_False take_bit_take_bit min.idem)
  with assms show ?thesis by (simp add: paints_def)
qed

lemma compose_surfaces_paint:
  assumes "\<forall>s\<in>set zs. surf_ok s" "\<not> rect_empty sub" "paints d (cells sub) f d1"
  shows "paints d (cells sub) (\<lambda>p c. fold (layer p) zs (rgb (f p c))) (fold (compose_surface cpu sub) zs d1)"
  using assms(1,3)
proof (induction zs arbitrary: f d1)
  case Nil
  then show ?case by (simp add: paints_def)
next
  case (Cons s zs)
  have "dst_ok d1" using Cons.prems(2) by (simp add: paints_def)
  then have "paints d1 (cells sub) (\<lambda>p c. layer p s (rgb c)) (compose_surface cpu sub s d1)"
    using Cons.prems(1) assms(2) by (intro compose_surface_paints) auto
  from paints_trans [OF Cons.prems(2) this]
  have "paints d (cells sub) (\<lambda>p c. layer p s (rgb (f p c))) (compose_surface cpu sub s d1)" .
  from Cons.IH [OF _ this] Cons.prems(1)
  have "paints d (cells sub) (\<lambda>p c. fold (layer p) zs (rgb (layer p s (rgb (f p c)))))
      (fold (compose_surface cpu sub) zs (compose_surface cpu sub s d1))" by simp
  moreover have "rgb (layer p s (rgb c)) = layer p s (rgb c)" for p c by (simp add: layer_def)
  ultimately show ?case by simp
qed

lemma compose_rect_paints:
  assumes "dst_ok d" "\<forall>s\<in>set zs. surf_ok s" "\<not> rect_empty sub"
  shows "paints d (cells sub) (\<lambda>p c. scene_colour zs bg p) (compose_rect cpu zs bg sub d)"
proof -
  have "rect_make (rx sub) (ry sub) (rw sub) (rh sub) = sub" by (simp add: rect_make_def)
  then have "paints d (cells sub) (\<lambda>p c. bg) (blit_fill_scissor d (Some sub) (rx sub) (ry sub) (rw sub) (rh sub) bg)"
    using blit_fill_paints [OF assms(1), of "Some sub" "rx sub" "ry sub" "rw sub" "rh sub" bg] by simp
  from compose_surfaces_paint [OF assms(2,3) this, of cpu] show ?thesis
    by (simp add: compose_rect_def scene_colour_def)
qed

text \<open>Composed rectangles accumulate: a repaint of one does not disturb the colours of another.\<close>

definition composed :: "surface list \<Rightarrow> u32 \<Rightarrow> blit_dst \<Rightarrow> (int \<times> int) set \<Rightarrow> blit_dst \<Rightarrow> bool" where
  "composed zs bg d R d' \<longleftrightarrow> paints d R (\<lambda>p c. scene_colour zs bg p) d'"

lemma rgb_fold_layer: "rgb (fold (layer p) zs (rgb c)) = fold (layer p) zs (rgb c)"
proof (induction zs arbitrary: c)
  case (Cons s zs)
  have "layer p s (rgb c) = rgb (layer p s (rgb c))" by (simp add: layer_def)
  with Cons show ?case by (metis fold_simps(2))
qed simp

lemma composed_refl: "dst_ok d \<Longrightarrow> composed zs bg d {} d"
  by (simp add: composed_def paints_refl)

lemma composed_rect:
  assumes "composed zs bg d R d1" "\<forall>s\<in>set zs. surf_ok s" "\<not> rect_empty sub"
  shows "composed zs bg d (R \<union> cells sub) (compose_rect cpu zs bg sub d1)"
proof -
  have p1: "paints d R (\<lambda>p c. scene_colour zs bg p) d1" using assms(1) by (simp add: composed_def)
  note ok = paints_ok [OF p1] and same = paints_screen [OF p1]
  let ?d2 = "compose_rect cpu zs bg sub d1"
  note p2 = compose_rect_paints [OF ok assms(2,3), of bg cpu]
  have "colour ?d2 p = (if p \<in> R \<union> cells sub then rgb (scene_colour zs bg p) else colour d p)"
    if "p \<in> screen_cells d" for p
    using paints_at [OF p1 that] paints_at [OF p2, of p, unfolded same, OF that]
    by (cases "p \<in> cells sub") (simp_all only: if_True if_False Un_iff simp_thms)
  with p1 p2 show ?thesis by (simp add: composed_def paints_def)
qed

lemma composed_rects:
  assumes "composed zs bg d R d1" "\<forall>s\<in>set zs. surf_ok s" "\<forall>r\<in>set rs. \<not> rect_empty r"
  shows "composed zs bg d (R \<union> covered rs) (fold (compose_rect cpu zs bg) rs d1)"
  using assms(1,3)
proof (induction rs arbitrary: R d1)
  case (Cons r rs)
  have "composed zs bg d (R \<union> cells r) (compose_rect cpu zs bg r d1)"
    using Cons.prems assms(2) by (intro composed_rect) auto
  from Cons.IH [OF this] Cons.prems show ?case by (simp add: Un_assoc)
qed simp

lemma band_jobs_clip: "i < length bands \<Longrightarrow> band_jobs bands dmg i = damage_clip dmg (bands ! i)"
  by (simp add: band_jobs_def damage_clip_def)

lemma band_jobs_nonempty: "\<forall>r\<in>set (band_jobs bands dmg i). \<not> rect_empty r"
  by (cases "i < length bands") (simp_all add: band_jobs_clip damage_clip_nonempty, simp add: band_jobs_def)

lemma covered_band_jobs: "i < length bands \<Longrightarrow> covered (band_jobs bands dmg i) = covered dmg \<inter> cells (bands ! i)"
  by (simp add: band_jobs_clip covered_damage_clip)

lemma composed_bands:
  assumes "dst_ok d" "\<forall>s\<in>set zs. surf_ok s" "set is \<subseteq> {..<length bands}"
  shows "composed zs bg d (\<Union>i\<in>set is. covered dmg \<inter> cells (bands ! i)) (fold (compose_band cpu bands dmg zs bg) is d)"
proof -
  have "composed zs bg d (R \<union> (\<Union>i\<in>set is. covered dmg \<inter> cells (bands ! i))) (fold (compose_band cpu bands dmg zs bg) is d1)"
    if "composed zs bg d R d1" for R d1
    using that assms(3)
  proof (induction "is" arbitrary: R d1)
    case (Cons i "is")
    have "composed zs bg d (R \<union> covered (band_jobs bands dmg i)) (compose_band cpu bands dmg zs bg i d1)"
      unfolding compose_band_def by (rule composed_rects [OF Cons.prems(1) assms(2) band_jobs_nonempty])
    from Cons.IH [OF this] Cons.prems(2) show ?case by (simp add: covered_band_jobs Un_assoc)
  qed simp
  from this [OF composed_refl [OF assms(1)]] show ?thesis by simp
qed

subsection \<open>The bands tile the bounding box\<close>

lemma band_number_pos: "0 < band_number online vb bbox" "band_number online vb bbox \<le> PARALLEL_MAX_BANDS"
  by (auto simp: band_number_def Let_def)

lemma length_make_bands [simp]: "length (make_bands bbox n) = n"
  by (simp add: make_bands_def)

lemma make_bands_cover:
  assumes "0 < n"
  shows "(\<Union>i<n. cells (make_bands bbox n ! i)) = cells bbox"
proof
  let ?b = "\<lambda>i. rh bbox * int i div int n"
  have nth: "make_bands bbox n ! i = rect_make (rx bbox) (ry bbox + ?b i) (rw bbox) (?b (Suc i) - ?b i)" if "i < n" for i
    using that by (simp add: make_bands_def Let_def del: of_nat_Suc)
  have ends: "?b 0 = 0" "?b n = rh bbox" using assms by simp_all
  show "cells bbox \<subseteq> (\<Union>i<n. cells (make_bands bbox n ! i))"
  proof
    fix p assume p: "p \<in> cells bbox"
    obtain x y where xy: "p = (x, y)" by (cases p)
    define row where "row = y - ry bbox"
    have row: "0 \<le> row" "row < ?b n" using p ends by (auto simp: xy cells_def row_def)
    define j where "j = (LEAST j. row < ?b j)"
    have j: "row < ?b j" unfolding j_def by (rule LeastI) (rule row(2))
    have least: "\<not> row < ?b i" if "i < j" for i using that unfolding j_def by (rule not_less_Least)
    have "j \<noteq> 0" using j row(1) ends(1) by (metis not_less)
    then obtain i where i: "j = Suc i" using not0_implies_Suc by blast
    have "i < n" by (rule ccontr) (use least [of n] row(2) i in auto)
    moreover have "?b i \<le> row" using least [of i] i by simp
    ultimately show "p \<in> (\<Union>i<n. cells (make_bands bbox n ! i))"
      using j i p nth by (intro UN_I [of i]) (auto simp: xy cells_def rect_make_def row_def)
  qed
  have mono: "?b i \<le> ?b k" if "i \<le> k" "0 \<le> rh bbox" for i k
    using that assms by (intro zdiv_mono1 mult_left_mono) auto
  show "(\<Union>i<n. cells (make_bands bbox n ! i)) \<subseteq> cells bbox"
  proof (cases "0 \<le> rh bbox")
    case True
    have "0 \<le> ?b i \<and> ?b (Suc i) \<le> rh bbox" if "i < n" for i
      using mono [of 0 i] mono [of "Suc i" n] ends that True by simp
    then show ?thesis by (fastforce simp: nth cells_def rect_make_def)
  next
    case False
    have "?b (Suc i) \<le> ?b i" for i
      using False assms by (intro zdiv_mono1 mult_left_mono_neg) auto
    then have "cells (make_bands bbox n ! i) = {}" if "i < n" for i
      using nth [OF that] by (simp add: cells_empty rect_empty_def rect_make_def)
    then show ?thesis by simp
  qed
qed


subsection \<open>Properties\<close>

lemma parallel_compose_composed:
  assumes "dst_ok d" "\<forall>s\<in>set zs. surf_ok s" "damage_ok dmg"
  shows "composed zs bg d (covered dmg) (parallel_compose cpu online vb d dmg zs bg)"
proof (cases "dmg = []")
  case True
  with assms(1) show ?thesis by (simp add: parallel_compose_def composed_refl)
next
  case False
  let ?b = "damage_bbox dmg"
  let ?n = "band_number online vb ?b"
  have ne: "\<not> rect_empty ?b"
  proof -
    obtain r ds where d: "dmg = r # ds" using False by (cases dmg) auto
    then have "\<not> rect_empty r" using assms(3) by (simp add: damage_ok_def)
    then show ?thesis by (simp add: d damage_bbox_def fold_rect_union)
  qed
  have "parallel_compose cpu online vb d dmg zs bg =
      fold (compose_band cpu (make_bands ?b ?n) dmg zs bg) [0..<?n] d"
    using False ne by (simp add: parallel_compose_def rect_empty_def Let_def)
  moreover have "(\<Union>i\<in>set [0..<?n]. covered dmg \<inter> cells (make_bands ?b ?n ! i)) = covered dmg"
  proof -
    have "(\<Union>i\<in>set [0..<?n]. covered dmg \<inter> cells (make_bands ?b ?n ! i)) =
        covered dmg \<inter> (\<Union>i<?n. cells (make_bands ?b ?n ! i))" by (auto simp: atLeast0LessThan)
    also have "\<dots> = covered dmg \<inter> cells ?b" unfolding make_bands_cover [OF band_number_pos(1)] ..
    also have "\<dots> = covered dmg" using covered_damage_bbox [of dmg] by (rule Int_absorb2)
    finally show ?thesis .
  qed
  ultimately show ?thesis
    using composed_bands [OF assms(1,2), of "[0..<?n]" "make_bands ?b ?n" bg dmg cpu] by (simp add: atLeast0LessThan)
qed

lemma parallel_compose_correct_at:
  assumes "dst_ok d" "\<forall>s\<in>set zs. surf_ok s" "damage_ok dmg" "p \<in> screen_cells d"
  shows "colour (parallel_compose cpu online vb d dmg zs bg) p = (if p \<in> covered dmg then scene_colour zs bg p else colour d p)"
  using paints_at [OF parallel_compose_composed [OF assms(1-3), unfolded composed_def] assms(4)]
  by (simp add: scene_colour_def rgb_fold_layer)

text \<open>One processor or sixteen, on every hypervisor setting: \<^verbatim>\<open>parallel_compose\<close> gives every pixel of the damage the
  colour of a full repaint (background, then each visible surface in z order) and leaves every other pixel's colour as
  it was.\<close>

theorem parallel_compose_correct:
  assumes "dst_ok d" "\<forall>s\<in>set zs. surf_ok s" "damage_ok dmg"
  shows "\<forall>p\<in>screen_cells d. colour (parallel_compose cpu online vb d dmg zs bg) p =
           (if p \<in> covered dmg then scene_colour zs bg p else colour d p)"
  using parallel_compose_correct_at [OF assms] by blast

lemma example_damage_ok: "damage_ok [rect_make 0 0 2 1]"
  by (simp add: damage_ok_def rect_empty_def rect_make_def)

theorem parallel_compose_correct_witness:
  "colour (parallel_compose \<lparr>has_sse2 = True, has_avx2 = False\<rparr> 4 False example_dst [rect_make 0 0 2 1] [example_surface] 0x102030)
     (0, 1) = 0"
proof -
  have "(0, 1) \<in> screen_cells example_dst" "(0, 1) \<notin> covered [rect_make 0 0 2 1]"
    by (simp_all add: screen_cells_def example_dst_def)
  moreover have "colour example_dst (0, 1) = 0"
    by (simp add: colour_def example_dst_def take_bit_eq_mask mask_eq_exp_minus_1)
  ultimately show ?thesis
    using parallel_compose_correct [OF example_blit_ok(1) _ example_damage_ok, where zs = "[example_surface]"
        and cpu = "\<lparr>has_sse2 = True, has_avx2 = False\<rparr>" and online = 4 and vb = False and bg = "0x102030"]
      example_surface_ok by simp
qed


text \<open>
  What holds in every state the processors can reach: the buffer shows the repaint on some set of rectangles of claimed
  bands, and what is missing of the claimed bands is still in a processor's list.
\<close>

definition par_inv :: "rect list \<Rightarrow> damage \<Rightarrow> surface list \<Rightarrow> u32 \<Rightarrow> nat \<Rightarrow> blit_dst \<Rightarrow> par \<Rightarrow> bool" where
  "par_inv bands dmg zs bg cpus d s \<longleftrightarrow>
     1 \<le> next_tile s \<and> gone s \<subseteq> {..<cpus} \<and> (\<forall>c\<in>gone s. todo s c = []) \<and>
     (gone s \<noteq> {} \<longrightarrow> length bands \<le> next_tile s) \<and>
     (\<forall>c. cpus \<le> c \<longrightarrow> todo s c = []) \<and> (\<forall>c. \<forall>r\<in>set (todo s c). \<not> rect_empty r) \<and>
     (\<exists>R. composed zs bg d R (pdst s) \<and>
        R \<union> (\<Union>c. covered (todo s c)) = (\<Union>i<min (next_tile s) (length bands). covered dmg \<inter> cells (bands ! i)))"

lemma par_start_inv:
  assumes "dst_ok d" "0 < cpus" "0 < length bands"
  shows "par_inv bands dmg zs bg cpus d (par_start bands dmg d)"
proof -
  have "(\<Union>c. covered (todo (par_start bands dmg d) c)) = covered (band_jobs bands dmg 0)"
    by (auto simp: par_start_def split: if_splits)
  moreover have "{..<min (next_tile (par_start bands dmg d)) (length bands)} = {0}"
    using assms(3) by (auto simp: par_start_def)
  ultimately have "{} \<union> (\<Union>c. covered (todo (par_start bands dmg d) c)) =
      (\<Union>i<min (next_tile (par_start bands dmg d)) (length bands). covered dmg \<inter> cells (bands ! i))"
    using assms(3) by (simp add: covered_band_jobs)
  moreover have "composed zs bg d {} (pdst (par_start bands dmg d))"
    using assms(1) by (simp add: par_start_def composed_refl)
  ultimately show ?thesis
    using assms(2) band_jobs_nonempty [of bands dmg 0] unfolding par_inv_def
    by (intro conjI exI [of _ "{}"]) (auto simp: par_start_def)
qed

lemma UN_fun_upd: "(\<Union>c. f ((g(a := x)) c)) = f x \<union> (\<Union>c\<in>- {a}. f (g c))"
  by (auto simp: fun_upd_def split: if_splits)

lemma UN_take_out: "(\<Union>c. f (g c)) = f (g a) \<union> (\<Union>c\<in>- {a}. f (g c))"
  by auto

lemma par_step_inv:
  assumes "par_step cpu bands dmg zs bg cpus s s'" "par_inv bands dmg zs bg cpus d s" "\<forall>s\<in>set zs. surf_ok s"
  shows "par_inv bands dmg zs bg cpus d s'"
proof -
  obtain R where R: "composed zs bg d R (pdst s)"
    "R \<union> (\<Union>c. covered (todo s c)) = (\<Union>i<min (next_tile s) (length bands). covered dmg \<inter> cells (bands ! i))"
    and I: "1 \<le> next_tile s" "gone s \<subseteq> {..<cpus}" "\<forall>c\<in>gone s. todo s c = []"
    "gone s \<noteq> {} \<longrightarrow> length bands \<le> next_tile s" "\<forall>c. cpus \<le> c \<longrightarrow> todo s c = []"
    "\<forall>c. \<forall>r\<in>set (todo s c). \<not> rect_empty r"
    using assms(2) by (auto simp: par_inv_def)
  from assms(1) show ?thesis
  proof (cases rule: par_step.cases)
    case (claim c)
    have t: "next_tile s < length bands" "todo s c = []" using claim by auto
    have "(\<Union>c'. covered (((todo s)(c := band_jobs bands dmg (next_tile s))) c')) =
        (covered dmg \<inter> cells (bands ! next_tile s)) \<union> (\<Union>c. covered (todo s c))"
      unfolding UN_fun_upd [where f = "\<lambda>ds. covered ds"] UN_take_out [where f = "\<lambda>ds. covered ds" and g = "todo s" and a = c]
      using t by (simp add: covered_band_jobs)
    moreover have "{..<min (next_tile s + 1) (length bands)} = insert (next_tile s) {..<min (next_tile s) (length bands)}"
      using t by auto
    ultimately have "R \<union> (\<Union>c'. covered (((todo s)(c := band_jobs bands dmg (next_tile s))) c')) =
        (\<Union>i<min (next_tile s + 1) (length bands). covered dmg \<inter> cells (bands ! i))"
      using R(2) by auto
    then show ?thesis
      using claim R(1) I band_jobs_nonempty [of bands dmg "next_tile s"] unfolding par_inv_def
      by (intro conjI exI [of _ R]) auto
  next
    case (work c r rs)
    have "cells r \<union> (\<Union>c'. covered (((todo s)(c := rs)) c')) = (\<Union>c. covered (todo s c))"
      unfolding UN_fun_upd [where f = "\<lambda>ds. covered ds"] UN_take_out [where f = "\<lambda>ds. covered ds" and g = "todo s" and a = c]
      using work by auto
    then have "(R \<union> cells r) \<union> (\<Union>c'. covered (((todo s)(c := rs)) c')) =
        (\<Union>i<min (next_tile s) (length bands). covered dmg \<inter> cells (bands ! i))"
      using R(2) by (simp only: Un_assoc)
    moreover have "composed zs bg d (R \<union> cells r) (compose_rect cpu zs bg r (pdst s))"
      using R(1) assms(3) I(6) work by (intro composed_rect) (auto dest: spec [of _ c])
    ultimately show ?thesis
      using work I unfolding par_inv_def
      by (intro conjI exI [of _ "R \<union> cells r"]) (auto split: if_splits dest: spec [of _ c])
  next
    case (leave c)
    have "min (next_tile s + 1) (length bands) = min (next_tile s) (length bands)" using leave by simp
    then show ?thesis
      using leave R I unfolding par_inv_def by (intro conjI exI [of _ R]) auto
  qed
qed


lemma par_reachable_inv:
  assumes "(par_step cpu bands dmg zs bg cpus)\<^sup>*\<^sup>* s s'" "par_inv bands dmg zs bg cpus d s" "\<forall>s\<in>set zs. surf_ok s"
  shows "par_inv bands dmg zs bg cpus d s'"
  using assms by (induction rule: rtranclp_induct) (auto intro: par_step_inv)

lemma gone_all_composed:
  assumes "par_inv bands dmg zs bg cpus d s" "gone s = {..<cpus}" "0 < cpus" "covered dmg \<subseteq> (\<Union>i<length bands. cells (bands ! i))"
  shows "composed zs bg d (covered dmg) (pdst s)"
proof -
  have "todo s c = []" for c
    using assms(1,2) by (cases "c < cpus") (auto simp: par_inv_def)
  then have none: "(\<Union>c. covered (todo s c)) = {}" by simp
  have "gone s \<noteq> {}" using assms(2,3) by auto
  then have "length bands \<le> next_tile s" using assms(1) by (simp add: par_inv_def)
  then obtain R where "composed zs bg d R (pdst s)" "R = (\<Union>i<length bands. covered dmg \<inter> cells (bands ! i))"
    using assms(1) none by (auto simp: par_inv_def min_def split: if_splits)
  moreover have "(\<Union>i<length bands. covered dmg \<inter> cells (bands ! i)) = covered dmg" using assms(4) by auto
  ultimately show ?thesis by simp
qed

text \<open>C12: Every interleaving of the processors.  From the state the boot processor publishes, whatever the order in
  which the processors claim bands and compose rectangles: while a processor has not left, some step is possible (no
  processor waits for another), and once all have left, every damaged pixel has the colour of the full repaint and
  every other pixel its old colour - the same as when one processor composes alone.\<close>

theorem parallel_workers_agree:
  fixes d :: blit_dst and dmg :: damage and cpus :: nat
  defines "n \<equiv> band_number cpus False (damage_bbox dmg)"
  defines "bands \<equiv> make_bands (damage_bbox dmg) n"
  assumes "dst_ok d" "\<forall>s\<in>set zs. surf_ok s" "damage_ok dmg" "0 < cpus"
    and run: "(par_step cpu bands dmg zs bg cpus)\<^sup>*\<^sup>* (par_start bands dmg d) s"
  shows "(gone s \<noteq> {..<cpus} \<longrightarrow> (\<exists>s'. par_step cpu bands dmg zs bg cpus s s')) \<and>
    (gone s = {..<cpus} \<longrightarrow>
      (\<forall>p\<in>screen_cells d. colour (pdst s) p = (if p \<in> covered dmg then scene_colour zs bg p else colour d p)))"
proof -
  have n: "0 < n" unfolding n_def by (rule band_number_pos)
  have len: "length bands = n" by (simp add: bands_def)
  have inv: "par_inv bands dmg zs bg cpus d s"
    by (rule par_reachable_inv [OF run par_start_inv [OF assms(3,6)] assms(4)]) (simp add: len n)
  show ?thesis
  proof (intro conjI impI)
    assume "gone s \<noteq> {..<cpus}"
    then obtain c where c: "c < cpus" "c \<notin> gone s" using inv by (auto simp: par_inv_def)
    show "\<exists>s'. par_step cpu bands dmg zs bg cpus s s'"
    proof (cases "todo s c")
      case Nil
      then show ?thesis
        using c by (cases "next_tile s < length bands") (auto intro: par_step.claim par_step.leave simp: not_less)
    next
      case (Cons r rs)
      then show ?thesis using c by (auto intro: par_step.work)
    qed
  next
    assume all: "gone s = {..<cpus}"
    have "(\<Union>i<length bands. cells (bands ! i)) = cells (damage_bbox dmg)"
      unfolding len by (simp add: bands_def make_bands_cover [OF n])
    then have "covered dmg \<subseteq> (\<Union>i<length bands. cells (bands ! i))" using covered_damage_bbox by simp
    from gone_all_composed [OF inv all assms(6) this]
    show "\<forall>p\<in>screen_cells d. colour (pdst s) p = (if p \<in> covered dmg then scene_colour zs bg p else colour d p)"
      by (simp add: composed_def paints_def scene_colour_def rgb_fold_layer)
  qed
qed

theorem parallel_workers_agree_witness:
  "\<exists>s'. par_step \<lparr>has_sse2 = True, has_avx2 = False\<rparr>
     (make_bands (damage_bbox [rect_make 0 0 2 1]) (band_number 2 False (damage_bbox [rect_make 0 0 2 1])))
     [rect_make 0 0 2 1] [example_surface] 0 2
     (par_start (make_bands (damage_bbox [rect_make 0 0 2 1]) (band_number 2 False (damage_bbox [rect_make 0 0 2 1])))
       [rect_make 0 0 2 1] example_dst) s'"
proof -
  have "gone (par_start (make_bands (damage_bbox [rect_make 0 0 2 1]) (band_number 2 False (damage_bbox [rect_make 0 0 2 1])))
       [rect_make 0 0 2 1] example_dst) \<noteq> {..<2}" by (simp add: par_start_def lessThan_empty_iff lessThan_def ex_in_conv [symmetric] set_eq_iff) (rule exI [of _ 0], simp)
  then show ?thesis
    using parallel_workers_agree [OF example_blit_ok(1) _ example_damage_ok, of "[example_surface]" 2
        "\<lparr>has_sse2 = True, has_avx2 = False\<rparr>" 0, OF _ _ rtranclp.rtrancl_refl] example_surface_ok by simp
qed

end
