(* ===== verification/DisplayPolicy.thy ===== *)
theory DisplayPolicy
  imports Vfs Kprintf
begin

text \<open>
  The monitor policy, \<^verbatim>\<open>src/gpu/display_policy.c\<close>: built-in defaults, the reader of \<^verbatim>\<open>/etc/display.conf\<close>, and the
  timer and compositor rates derived from the refresh rate.  A text buffer is the list of the characters of the
  array (a character past its end reads as NUL), a \<^verbatim>\<open>const char *\<close> into it is an index, so the pointer arithmetic of the
  reader is visible.  The reader is shown to keep every field in range for arbitrary bytes, and to set exactly
  what a well-formed file says.
\<close>

subsection \<open>State\<close>

datatype pointer_policy = POINTER_AUTO | POINTER_PS2 | POINTER_VIRTIO | POINTER_USB | POINTER_I2C

record display_policy =
  pol_width :: u32
  pol_height :: u32
  pol_refresh_hz :: u32
  pol_label :: string
  pol_pointer :: pointer_policy
  pol_vsync :: bool
  pol_from_file :: bool

abbreviation LABEL_SIZE :: nat where "LABEL_SIZE \<equiv> 48"
abbreviation NUL :: char where "NUL \<equiv> CHR 0x00"

subsection \<open>Scanning\<close>

text \<open>\<open>buf\<close> is the memory from the start of the buffer on.  The loading functions take as a parameter what the
  stack array, and whatever lies behind it, holds before the file is read into it; that list may be of any length, so a read past
  the array finds arbitrary bytes.  Only behind the whole list a read gives the terminator.\<close>

definition char_at :: "string \<Rightarrow> nat \<Rightarrow> char" where
  "char_at buf i = (if i < length buf then buf ! i else NUL)"

definition is_space :: "char \<Rightarrow> bool" where
  "is_space c \<longleftrightarrow> c \<in> {CHR '' '', CHR 0x09, CHR 0x0D, CHR 0x0A}"

definition is_eol :: "char \<Rightarrow> bool" where
  "is_eol c \<longleftrightarrow> c = CHR 0x0A \<or> c = CHR 0x0D"

function skip_ws :: "string \<Rightarrow> nat \<Rightarrow> nat" where
  "skip_ws buf p = (if char_at buf p \<noteq> NUL \<and> is_space (char_at buf p) then skip_ws buf (Suc p) else p)"
  by pat_completeness auto
termination
  by (relation "measure (\<lambda>(buf, p). length buf - p)") (auto simp: char_at_def split: if_splits)

text \<open>\<^verbatim>\<open>while (i < len && \<dots> buf[i]) i++\<close>\<close>

function advance :: "(char \<Rightarrow> bool) \<Rightarrow> string \<Rightarrow> nat \<Rightarrow> nat \<Rightarrow> nat" where
  "advance P buf len i = (if i < len \<and> P (char_at buf i) then advance P buf len (Suc i) else i)"
  by pat_completeness auto
termination
  by (relation "measure (\<lambda>(P, buf, len, i). len - i)") auto

text \<open>\<^verbatim>\<open>while (e > lo && is_space(e[-1])) e--\<close>\<close>

fun trim :: "string \<Rightarrow> nat \<Rightarrow> nat \<Rightarrow> nat" where
  "trim buf lo 0 = 0"
| "trim buf lo (Suc e) = (if Suc e > lo \<and> is_space (char_at buf e) then trim buf lo e else Suc e)"

definition key_match :: "string \<Rightarrow> nat \<Rightarrow> string \<Rightarrow> bool" where
  "key_match buf a key \<longleftrightarrow>
     list_all (\<lambda>i. char_at buf (a + i) \<noteq> NUL \<and> char_at buf (a + i) = key ! i) [0..<length key] \<and>
     (let c = char_at buf (a + length key) in c = NUL \<or> c = CHR ''='' \<or> is_space c)"

definition value_match :: "string \<Rightarrow> nat \<Rightarrow> nat \<Rightarrow> string \<Rightarrow> bool" where
  "value_match buf vs vlen lit \<longleftrightarrow>
     vlen = length lit \<and> list_all (\<lambda>i. char_at buf (vs + i) = lit ! i) [0..<length lit]"

function parse_digits :: "string \<Rightarrow> nat \<Rightarrow> nat \<Rightarrow> nat option" where
  "parse_digits buf s v =
     (if is_digit (char_at buf s)
      then let v' = v * 10 + (of_char (char_at buf s) - 48)
           in if v' > 65535 then None else parse_digits buf (Suc s) v'
      else Some v)"
  by pat_completeness auto
termination
  by (relation "measure (\<lambda>(buf, s, v). length buf - s)") (auto simp: char_at_def is_digit_def split: if_splits)

declare skip_ws.simps [simp del] advance.simps [simp del] parse_digits.simps [simp del]

definition parse_u32 :: "string \<Rightarrow> nat \<Rightarrow> nat option" where
  "parse_u32 buf s = (if is_digit (char_at buf s) then parse_digits buf s 0 else None)"

subsection \<open>Operations\<close>

definition display_policy_init_defaults :: display_policy where
  "display_policy_init_defaults =
     \<lparr>pol_width = 1920, pol_height = 1080, pol_refresh_hz = 120, pol_label = ''primary'', pol_pointer = POINTER_AUTO,
      pol_vsync = True, pol_from_file = False\<rparr>"

text \<open>A number in range; \<open>None\<close> is the return of -1.\<close>

definition number_in :: "nat \<Rightarrow> nat \<Rightarrow> string \<Rightarrow> nat \<Rightarrow> u32 option" where
  "number_in lo hi buf vs =
     (case parse_u32 buf vs of None \<Rightarrow> None | Some v \<Rightarrow> if v < lo \<or> v > hi then None else Some (of_nat v))"

text \<open>The C string \<^verbatim>\<open>label\<close> holds after the copy.\<close>

definition copy_label :: "string \<Rightarrow> nat \<Rightarrow> nat \<Rightarrow> string" where
  "copy_label buf vs vlen =
     (let c = (if vlen < LABEL_SIZE - 1 then vlen else LABEL_SIZE - 1)
      in takeWhile (\<lambda>x. x \<noteq> NUL) (map (\<lambda>t. char_at buf (vs + t)) [0..<c]))"

definition pointer_value :: "string \<Rightarrow> nat \<Rightarrow> nat \<Rightarrow> pointer_policy option" where
  "pointer_value buf vs vlen =
     (if value_match buf vs vlen ''auto'' then Some POINTER_AUTO
      else if value_match buf vs vlen ''ps2'' then Some POINTER_PS2
      else if value_match buf vs vlen ''virtio'' then Some POINTER_VIRTIO
      else if value_match buf vs vlen ''usb'' then Some POINTER_USB
      else if value_match buf vs vlen ''i2c'' then Some POINTER_I2C
      else None)"

definition vsync_value :: "string \<Rightarrow> nat \<Rightarrow> nat \<Rightarrow> bool option" where
  "vsync_value buf vs vlen =
     (if value_match buf vs vlen ''0'' then Some False
      else if value_match buf vs vlen ''1'' then Some True
      else None)"

text \<open>The chain of keys; \<open>None\<close> is the return of -1.\<close>

definition set_key :: "string \<Rightarrow> nat \<Rightarrow> nat \<Rightarrow> nat \<Rightarrow> display_policy \<Rightarrow> display_policy option" where
  "set_key buf p vs vlen pol =
     (if key_match buf p ''width'' then map_option (\<lambda>v. pol\<lparr>pol_width := v\<rparr>) (number_in 320 16384 buf vs)
      else if key_match buf p ''height'' then map_option (\<lambda>v. pol\<lparr>pol_height := v\<rparr>) (number_in 240 16384 buf vs)
      else if key_match buf p ''refresh_hz'' then map_option (\<lambda>v. pol\<lparr>pol_refresh_hz := v\<rparr>) (number_in 30 360 buf vs)
      else if key_match buf p ''label'' then Some (pol\<lparr>pol_label := copy_label buf vs vlen\<rparr>)
      else if key_match buf p ''pointer'' then map_option (\<lambda>v. pol\<lparr>pol_pointer := v\<rparr>) (pointer_value buf vs vlen)
      else if key_match buf p ''vsync'' then map_option (\<lambda>v. pol\<lparr>pol_vsync := v\<rparr>) (vsync_value buf vs vlen)
      else Some pol)"

text \<open>One line, the characters from \<open>line\<close> up to \<open>le\<close>.  \<^verbatim>\<open>ve - vs\<close> is a \<^verbatim>\<open>size_t\<close>.\<close>

definition parse_line :: "string \<Rightarrow> nat \<Rightarrow> nat \<Rightarrow> display_policy \<Rightarrow> display_policy option" where
  "parse_line buf line le pol =
     (if le = line then Some pol
      else if char_at buf line = CHR ''#'' then Some pol
      else let e = trim buf line le
           in if e = line then Some pol
              else let p = skip_ws buf line
                   in if char_at buf p = CHR ''#'' \<or> char_at buf p = NUL then Some pol
                      else case scan (\<lambda>j. char_at buf j = CHR ''='') line e of
                             None \<Rightarrow> Some pol
                           | Some eq \<Rightarrow>
                               let vs = skip_ws buf (Suc eq); ve = trim buf vs e; vlen = sub64 ve vs
                               in if vlen = 0 then None else set_key buf p vs vlen pol)"

lemma advance_ge: "i \<le> advance P buf len i"
proof (induction P buf len i rule: advance.induct)
  case (1 P buf len i)
  then show ?case by (auto simp: advance.simps [of P buf len i] dest: Suc_leD)
qed

lemma advance_le: "i \<le> len \<Longrightarrow> advance P buf len i \<le> len"
proof (induction P buf len i rule: advance.induct)
  case (1 P buf len i)
  then show ?case by (simp add: advance.simps [of P buf len i])
qed

lemma advance_step: "i < len \<Longrightarrow> P (char_at buf i) \<Longrightarrow> i < advance P buf len i"
  using advance_ge [of "Suc i" P buf len] by (simp add: advance.simps [of P buf len i])

lemma line_progress:
  assumes "i < len"
  shows "i < advance (\<lambda>c. \<not> is_eol c) buf len (advance is_eol buf len i)"
proof (cases "is_eol (char_at buf i)")
  case True
  from advance_step [OF assms, of is_eol, OF True] advance_ge [of "advance is_eol buf len i"] show ?thesis
    by (rule less_le_trans)
next
  case False
  then have "advance is_eol buf len i = i" by (simp add: advance.simps [of is_eol buf len i])
  with advance_step [OF assms, of "\<lambda>c. \<not> is_eol c"] False show ?thesis by simp
qed

text \<open>The global policy changes line by line, so a failing line leaves the earlier ones applied.\<close>

function parse_from :: "string \<Rightarrow> nat \<Rightarrow> nat \<Rightarrow> display_policy \<Rightarrow> bool \<times> display_policy" where
  "parse_from buf len i pol =
     (if i < len
      then let s = advance is_eol buf len i; e = advance (\<lambda>c. \<not> is_eol c) buf len s
           in case parse_line buf s e pol of
                None \<Rightarrow> (False, pol)
              | Some pol' \<Rightarrow> parse_from buf len e pol'
      else (True, pol))"
  by pat_completeness auto
termination
  by (relation "measure (\<lambda>(buf, len, i, pol). len - i)") (auto intro: diff_less_mono2 line_progress)

declare parse_from.simps [simp del]

definition display_policy_parse :: "string option \<Rightarrow> nat \<Rightarrow> display_policy \<Rightarrow> bool \<times> display_policy" where
  "display_policy_parse buf len pol = (case buf of None \<Rightarrow> (False, pol) | Some b \<Rightarrow> parse_from b len 0 pol)"

text \<open>\<open>stk\<close> is what the stack array and the memory behind it hold before the read; its length is arbitrary.\<close>

definition display_policy_try_load_vfs ::
  "(nat \<Rightarrow> u8) \<Rightarrow> string \<Rightarrow> fs \<Rightarrow> string option \<Rightarrow> display_policy \<Rightarrow> display_policy" where
  "display_policy_try_load_vfs mem stk s path pol =
     (if path = None then pol
      else case vfs_lookup s path of
        None \<Rightarrow> pol
      | Some v \<Rightarrow>
          let n = vnodes s v
          in if vtype n \<noteq> VFS_FILE \<or> vdata n = 0 \<or> vsize n = 0 then pol
             else let cnt = (if vsize n < 511 then vsize n else 511); (r, bytes) = vfs_read mem (Some n) 0 cnt
                  in if r \<le> 0 then pol
                     else let buf = map (\<lambda>b. char_of (unat b)) bytes @ NUL # drop (Suc (length bytes)) stk
                          in case display_policy_parse (Some buf) (nat r) pol of
                               (False, _) \<Rightarrow> pol
                             | (True, pol') \<Rightarrow> pol'\<lparr>pol_from_file := True\<rparr>)"

definition policy_ptr_name :: "pointer_policy \<Rightarrow> string" where
  "policy_ptr_name p =
     (if p = POINTER_PS2 then ''ps2'' else if p = POINTER_VIRTIO then ''virtio'' else if p = POINTER_USB then ''usb''
      else if p = POINTER_I2C then ''i2c'' else ''auto'')"

definition policy_vsync_name :: "bool \<Rightarrow> string" where
  "policy_vsync_name v = (if v then ''on'' else ''off'')"

definition display_policy_apic_timer_hz :: "display_policy \<Rightarrow> u32" where
  "display_policy_apic_timer_hz pol =
     (let r = pol_refresh_hz pol; r = (if r < 30 then 60 else r); r = (if r > 360 then 360 else r)
      in case scan (\<lambda>mult. 1000 \<le> r * of_nat mult \<and> r * of_nat mult \<le> 8000) 10 81 of
           Some mult \<Rightarrow> r * of_nat mult
         | None \<Rightarrow> r * 10)"

definition display_policy_compositor_hz :: "display_policy \<Rightarrow> u32" where
  "display_policy_compositor_hz pol =
     (let r = pol_refresh_hz pol; r = (if r < 30 then 30 else r) in if r > 360 then 360 else r)"


subsection \<open>Fields stay in range\<close>

definition policy_ok :: "display_policy \<Rightarrow> bool" where
  "policy_ok pol \<longleftrightarrow>
     320 \<le> unat (pol_width pol) \<and> unat (pol_width pol) \<le> 16384 \<and>
     240 \<le> unat (pol_height pol) \<and> unat (pol_height pol) \<le> 16384 \<and>
     30 \<le> unat (pol_refresh_hz pol) \<and> unat (pol_refresh_hz pol) \<le> 360 \<and>
     length (pol_label pol) < LABEL_SIZE \<and> NUL \<notin> set (pol_label pol)"

lemma defaults_ok: "policy_ok display_policy_init_defaults"
  by (simp add: policy_ok_def display_policy_init_defaults_def)

lemma number_in_range:
  assumes "number_in lo hi buf vs = Some v" "hi \<le> 65535"
  shows "lo \<le> unat v \<and> unat v \<le> hi"
proof -
  obtain n where "v = of_nat n" "lo \<le> n" "n \<le> hi"
    using assms(1) by (auto simp: number_in_def not_less split: option.splits if_splits)
  moreover from this assms(2) have "unat (of_nat n :: u32) = n" by (simp add: unat_of_nat)
  ultimately show ?thesis by simp
qed

lemma copy_label_range: "length (copy_label buf vs vlen) < LABEL_SIZE" "NUL \<notin> set (copy_label buf vs vlen)"
proof -
  let ?l = "map (\<lambda>t. char_at buf (vs + t)) [0..<if vlen < LABEL_SIZE - 1 then vlen else LABEL_SIZE - 1]"
  have "length (copy_label buf vs vlen) \<le> length ?l"
    unfolding copy_label_def Let_def by (rule length_takeWhile_le)
  also have "\<dots> < LABEL_SIZE" by simp
  finally show "length (copy_label buf vs vlen) < LABEL_SIZE" .
  show "NUL \<notin> set (copy_label buf vs vlen)"
    unfolding copy_label_def Let_def by (auto dest: set_takeWhileD)
qed

lemma set_key_ok [inv_intros]:
  assumes "policy_ok pol" "set_key buf p vs vlen pol = Some pol'"
  shows "policy_ok pol'"
  using assms copy_label_range [of buf vs vlen]
  by (auto simp: set_key_def policy_ok_def split: if_splits dest: number_in_range)

lemma set_key_from_file: "set_key buf p vs vlen pol = Some pol' \<Longrightarrow> pol_from_file pol' = pol_from_file pol"
  by (auto simp: set_key_def split: if_splits)

lemma parse_line_cases:
  assumes "parse_line buf s e pol = Some pol'"
  shows "pol' = pol \<or> (\<exists>p vs vlen. set_key buf p vs vlen pol = Some pol')"
  using assms unfolding parse_line_def Let_def by (auto split: if_splits option.splits)

lemma parse_from_ok [inv_intros]:
  "policy_ok pol \<Longrightarrow> policy_ok (snd (parse_from buf len i pol))"
proof (induction buf len i pol rule: parse_from.induct)
  case (1 buf len i pol)
  let ?s = "advance is_eol buf len i"
  let ?e = "advance (\<lambda>c. \<not> is_eol c) buf len ?s"
  show ?case
  proof (cases "parse_line buf ?s ?e pol")
    case None
    with "1.prems" show ?thesis by (simp add: parse_from.simps [of buf len i pol])
  next
    case (Some pol')
    have "policy_ok pol'" using parse_line_cases [OF Some] "1.prems" by (auto intro: set_key_ok)
    with "1.IH" Some "1.prems" show ?thesis by (simp add: parse_from.simps [of buf len i pol])
  qed
qed

text \<open>Loading a configuration file with arbitrary bytes, present or not, readable or not: every field of the
  policy stays in its range (sizes between 320x240 and 16384x16384, refresh rate 30 to 360 Hz, a label of at most 47
  characters), and the policy is either unchanged or marked as coming from the file.\<close>

theorem policy_load_safe:
  assumes "policy_ok pol"
  shows "policy_ok (display_policy_try_load_vfs mem stk s path pol) \<and>
    (display_policy_try_load_vfs mem stk s path pol = pol \<or>
     pol_from_file (display_policy_try_load_vfs mem stk s path pol))"
proof -
  let ?load = "\<lambda>buf len. case display_policy_parse (Some buf) len pol of
      (False, _) \<Rightarrow> pol | (True, pol') \<Rightarrow> pol'\<lparr>pol_from_file := True\<rparr>"
  have step: "policy_ok (?load buf len) \<and> (?load buf len = pol \<or> pol_from_file (?load buf len))" for buf len
  proof (cases "display_policy_parse (Some buf) len pol")
    case (Pair b pol')
    have "policy_ok pol'" using parse_from_ok [OF assms, of buf len 0] Pair by (simp add: display_policy_parse_def)
    then have "policy_ok (pol'\<lparr>pol_from_file := True\<rparr>)" by (simp add: policy_ok_def)
    with Pair assms show ?thesis by (cases b) auto
  qed
  show ?thesis
    unfolding display_policy_try_load_vfs_def Let_def
    using assms step by (auto split: option.split prod.split)
qed

theorem policy_load_safe_witness:
  "policy_ok (display_policy_try_load_vfs (\<lambda>_. 0) [] example_tree (Some ''/etc/display.conf'') display_policy_init_defaults)"
  using policy_load_safe [OF defaults_ok] by blast

subsection \<open>Positions relative to a prefix\<close>

lemma char_at_append [simp]: "char_at (xs @ ys) (length xs + i) = char_at ys i"
  by (simp add: char_at_def)

lemma char_at_Cons [simp]: "char_at (c # ys) (Suc i) = char_at ys i" "char_at (c # ys) 0 = c"
  by (simp_all add: char_at_def)

lemma skip_ws_shift: "skip_ws (xs @ ys) (length xs + p) = length xs + skip_ws ys p"
proof (induction ys p rule: skip_ws.induct)
  case (1 ys p)
  then show ?case
    by (simp add: skip_ws.simps [of "xs @ ys" "length xs + p"] skip_ws.simps [of ys p])
qed

lemma advance_shift: "advance P (xs @ ys) (length xs + len) (length xs + i) = length xs + advance P ys len i"
proof (induction P ys len i rule: advance.induct)
  case (1 P ys len i)
  then show ?case
    by (simp add: advance.simps [of P "xs @ ys" "length xs + len" "length xs + i"] advance.simps [of P ys len i])
qed

lemma trim_shift: "trim (xs @ ys) (length xs + lo) (length xs + e) = length xs + trim ys lo e"
proof (induction e)
  case 0
  then show ?case by (cases "length xs") simp_all
next
  case (Suc e)
  then show ?case by simp
qed

lemma scan_shift: "scan (\<lambda>j. P (char_at (xs @ ys) j)) (length xs + i) (length xs + hi) =
    map_option ((+) (length xs)) (scan (\<lambda>j. P (char_at ys j)) i hi)"
proof (cases "scan (\<lambda>j. P (char_at ys j)) i hi")
  case None
  have "\<not> P (char_at (xs @ ys) j)" if "length xs + i \<le> j \<and> j < length xs + hi" for j
  proof -
    have "i \<le> j - length xs" "j - length xs < hi" using that by auto
    then have "\<not> P (char_at ys (j - length xs))" using None by (simp add: scan_None)
    then show ?thesis using that char_at_append [of xs ys "j - length xs"] by simp
  qed
  then have "scan (\<lambda>j. P (char_at (xs @ ys) j)) (length xs + i) (length xs + hi) = None" unfolding scan_None by blast
  with None show ?thesis by simp
next
  case (Some k)
  from scan_Some [OF Some]
  have k: "i \<le> k" "k < hi" "P (char_at ys k)" "\<And>j. i \<le> j \<Longrightarrow> j < k \<Longrightarrow> \<not> P (char_at ys j)" by auto
  have "scan (\<lambda>j. P (char_at (xs @ ys) j)) (length xs + i) (length xs + hi) = Some (length xs + k)"
  proof (rule scan_first)
    fix j assume "length xs + i \<le> j" "j < length xs + k"
    then show "\<not> P (char_at (xs @ ys) j)"
      using k(4) [of "j - length xs"] char_at_append [of xs ys "j - length xs"] by simp
  qed (use k in simp_all)
  with Some show ?thesis by simp
qed

lemma key_match_shift: "key_match (xs @ ys) (length xs + a) key = key_match ys a key"
  by (simp add: key_match_def add.assoc)

lemma value_match_shift: "value_match (xs @ ys) (length xs + vs) vlen lit = value_match ys vs vlen lit"
  by (simp add: value_match_def add.assoc)

lemma parse_digits_shift: "parse_digits (xs @ ys) (length xs + s) v = parse_digits ys s v"
proof (induction ys s v rule: parse_digits.induct)
  case (1 ys s v)
  then show ?case
    by (simp add: parse_digits.simps [of "xs @ ys" "length xs + s"] parse_digits.simps [of ys s] Let_def)
qed

lemma set_key_shift: "set_key (xs @ ys) (length xs + p) (length xs + vs) vlen pol = set_key ys p vs vlen pol"
  by (simp add: set_key_def key_match_shift number_in_def parse_u32_def parse_digits_shift copy_label_def
      pointer_value_def vsync_value_def value_match_shift add.assoc)

lemma parse_line_shift: "parse_line (xs @ ys) (length xs + s) (length xs + e) pol = parse_line ys s e pol"
proof -
  have sub: "sub64 (length xs + a) (length xs + b) = sub64 a b" for a b by (simp add: sub64_def)
  note eq = scan_shift [where P = "\<lambda>c. c = CHR ''=''"] and suc = skip_ws_shift [where p = "Suc _", simplified]
  show ?thesis
    by (simp add: parse_line_def Let_def trim_shift skip_ws_shift eq set_key_shift sub suc option.case_eq_if option.map_sel)
qed

lemma parse_from_shift: "parse_from (xs @ ys) (length xs + len) (length xs + i) pol = parse_from ys len i pol"
proof (induction ys len i pol rule: parse_from.induct)
  case (1 ys len i pol)
  then show ?case
    by (simp add: parse_from.simps [of "xs @ ys"] parse_from.simps [of ys len i] Let_def advance_shift parse_line_shift
        split: option.split)
qed

lemma parse_from_eol:
  assumes "is_eol c"
  shows "parse_from (c # ys) (Suc len) 0 pol = parse_from ys len 0 pol"
proof -
  note sh = advance_shift [of _ "[c]" ys, simplified] parse_line_shift [of "[c]" ys, simplified]
    parse_from_shift [of "[c]" ys, simplified]
  have first: "advance is_eol (c # ys) (Suc len) 0 = Suc (advance is_eol ys len 0)"
    using assms sh(1) [of is_eol len 0] by (simp add: advance.simps [of is_eol "c # ys"])
  show ?thesis
  proof (cases "len = 0")
    case True
    then show ?thesis
      using first
      by (simp add: parse_from.simps [of "c # ys" "Suc 0"] Let_def parse_line_def advance.simps [of _ _ 0 0]
          advance.simps [of _ _ "Suc 0" "Suc 0"] parse_from.simps [of ys 0])
  next
    case False
    then show ?thesis
      by (simp add: parse_from.simps [of "c # ys" "Suc len" 0] parse_from.simps [of ys len 0] Let_def first sh
          split: option.split)
  qed
qed


subsection \<open>One line\<close>

lemma char_at_nth: "i < length xs \<Longrightarrow> char_at (xs @ ys) i = xs ! i"
  by (simp add: char_at_def nth_append)

lemma advance_run:
  assumes "\<forall>j<n. P (char_at buf j)" "n < len" "\<not> P (char_at buf n)" "i \<le> n"
  shows "advance P buf len i = n"
  using assms
proof (induction P buf len i rule: advance.induct)
  case (1 P buf len i)
  show ?case
  proof (cases "i = n")
    case True
    with "1.prems" show ?thesis by (simp add: advance.simps [of P buf len n])
  next
    case False
    with "1.prems" have "i < len" "P (char_at buf i)" "Suc i \<le> n" by auto
    with "1.IH" "1.prems" show ?thesis by (simp add: advance.simps [of P buf len i])
  qed
qed

lemma parse_first_line:
  assumes line: "line \<noteq> []" "\<forall>c\<in>set line. \<not> is_eol c" and nl: "is_eol nl"
  shows "parse_from (line @ nl # rest) (length line + Suc n) 0 pol =
    (case parse_line (line @ nl # rest) 0 (length line) pol of
       None \<Rightarrow> (False, pol) | Some pol' \<Rightarrow> parse_from rest n 0 pol')"
proof -
  let ?buf = "line @ nl # rest" and ?len = "length line + Suc n"
  have in_line: "\<not> is_eol (char_at ?buf j)" if "j < length line" for j
    using that line by (simp add: char_at_nth)
  have "char_at ?buf (length line) = nl" using char_at_append [of line "nl # rest" 0] by simp
  then have e: "advance (\<lambda>c. \<not> is_eol c) ?buf ?len 0 = length line"
    using in_line nl by (intro advance_run) auto
  have s: "advance is_eol ?buf ?len 0 = 0"
    using in_line [of 0] line(1) by (simp add: advance.simps [of is_eol])
  have rest: "parse_from ?buf ?len (length line) pol' = parse_from rest n 0 pol'" for pol'
    using parse_from_shift [of line "nl # rest" "Suc n" 0 pol'] parse_from_eol [OF nl] by simp
  show ?thesis
    unfolding parse_from.simps [of ?buf ?len 0] Let_def s e rest by simp
qed

definition plain_key :: "string \<Rightarrow> bool" where
  "plain_key k \<longleftrightarrow> k \<noteq> [] \<and> hd k \<noteq> CHR ''#'' \<and> (\<forall>c\<in>set k. c \<noteq> NUL \<and> c \<noteq> CHR ''='' \<and> \<not> is_space c)"

definition plain_value :: "string \<Rightarrow> bool" where
  "plain_value v \<longleftrightarrow> v \<noteq> [] \<and> \<not> is_space (hd v) \<and> \<not> is_space (last v) \<and> (\<forall>c\<in>set v. c \<noteq> NUL \<and> \<not> is_eol c)"

lemma skip_ws_stay: "\<not> is_space (char_at buf p) \<Longrightarrow> skip_ws buf p = p"
  by (simp add: skip_ws.simps [of buf p])

lemma trim_stay: "0 < e \<Longrightarrow> \<not> is_space (char_at buf (e - 1)) \<Longrightarrow> trim buf lo e = e"
  by (cases e) simp_all

lemma parse_key_value:
  assumes k: "plain_key k" and v: "plain_value v" and len: "length v < 2 ^ 64"
  shows "parse_line (k @ CHR ''='' # v @ rest) 0 (length k + Suc (length v)) pol =
    set_key (k @ CHR ''='' # v @ rest) 0 (Suc (length k)) (length v) pol"
proof -
  let ?buf = "k @ CHR ''='' # v @ rest" and ?e = "length k + Suc (length v)"
  have first: "char_at ?buf 0 = hd k" using k by (cases k) (simp_all add: plain_key_def)
  have at_v: "char_at ?buf (length k + Suc i) = v ! i" if "i < length v" for i
    using that char_at_append [of k "CHR ''='' # v @ rest" "Suc i"] by (simp only: char_at_Cons char_at_nth)
  have lastv: "char_at ?buf (?e - 1) = last v"
    using at_v [of "length v - 1"] v by (simp add: plain_value_def last_conv_nth)
  have te: "trim ?buf lo ?e = ?e" for lo using lastv v by (intro trim_stay) (simp_all add: plain_value_def)
  have sp: "skip_ws ?buf 0 = 0" using first k by (intro skip_ws_stay) (simp add: plain_key_def)
  have "char_at ?buf (Suc (length k)) = hd v" using at_v [of 0] v by (simp add: plain_value_def hd_conv_nth)
  then have sv: "skip_ws ?buf (Suc (length k)) = Suc (length k)"
    using v by (intro skip_ws_stay) (simp add: plain_value_def)
  have eq: "scan (\<lambda>j. char_at ?buf j = CHR ''='') 0 ?e = Some (length k)"
  proof (rule scan_first)
    fix j assume "j < length k"
    then show "char_at ?buf j \<noteq> CHR ''=''" using k by (auto simp: char_at_nth plain_key_def)
  qed (use char_at_append [of k "CHR ''='' # v @ rest" 0] in simp_all)
  have vl: "sub64 ?e (Suc (length k)) = length v" using len by (simp add: sub64_def wrap64_def)
  have ne: "hd k \<noteq> CHR ''#''" "hd k \<noteq> NUL" "length v \<noteq> 0" using k v by (auto simp: plain_key_def plain_value_def)
  show ?thesis
    unfolding parse_line_def te sp eq Let_def option.case sv vl first using ne by simp
qed

lemma key_match_plain:
  assumes k: "plain_key k" and w: "plain_key w"
  shows "key_match (k @ CHR ''='' # r) 0 w \<longleftrightarrow> k = w"
proof
  let ?buf = "k @ CHR ''='' # r"
  assume m: "key_match ?buf 0 w"
  have at: "char_at ?buf i = w ! i" if "i < length w" for i
    using m that by (simp add: key_match_def list_all_iff)
  have "length w \<le> length k"
  proof (rule ccontr)
    assume "\<not> length w \<le> length k"
    then have "w ! length k = CHR ''=''" using at [of "length k"] char_at_append [of k "CHR ''='' # r" 0] by simp
    with \<open>\<not> length w \<le> length k\<close> w show False by (auto simp: plain_key_def)
  qed
  moreover have "\<not> length w < length k"
  proof
    assume l: "length w < length k"
    then have "char_at ?buf (length w) \<in> set k" by (simp add: char_at_nth)
    with m k show False by (auto simp: key_match_def plain_key_def Let_def)
  qed
  ultimately have "length w = length k" by simp
  then show "k = w" using at by (intro nth_equalityI) (simp_all add: char_at_nth)
next
  assume "k = w"
  with k char_at_append [of k "CHR ''='' # r" 0] show "key_match (k @ CHR ''='' # r) 0 w"
    by (simp add: key_match_def list_all_iff char_at_nth plain_key_def)
qed

lemma value_match_at:
  "value_match (xs @ v @ rest) (length xs) (length v) lit \<longleftrightarrow> v = lit"
proof
  assume m: "value_match (xs @ v @ rest) (length xs) (length v) lit"
  then have "length v = length lit" "\<And>i. i < length lit \<Longrightarrow> v ! i = lit ! i"
    by (auto simp: value_match_def list_all_iff char_at_nth)
  then show "v = lit" by (intro nth_equalityI) simp_all
next
  assume "v = lit"
  then show "value_match (xs @ v @ rest) (length xs) (length v) lit"
    by (simp add: value_match_def list_all_iff char_at_nth)
qed

lemma copy_label_at:
  assumes "NUL \<notin> set v"
  shows "copy_label (xs @ v @ rest) (length xs) (length v) = take (LABEL_SIZE - 1) v"
proof -
  have "map (\<lambda>t. char_at (xs @ v @ rest) (length xs + t)) [0..<c] = take c v" if "c \<le> length v" for c
    using that by (intro nth_equalityI) (simp_all add: char_at_nth)
  then have "map (\<lambda>t. char_at (xs @ v @ rest) (length xs + t)) [0..<if length v < LABEL_SIZE - 1 then length v else LABEL_SIZE - 1]
      = take (LABEL_SIZE - 1) v" by simp
  moreover have "takeWhile (\<lambda>x. x \<noteq> NUL) (take (LABEL_SIZE - 1) v) = take (LABEL_SIZE - 1) v"
    using assms by (auto simp: takeWhile_eq_all_conv dest: in_set_takeD)
  ultimately show ?thesis unfolding copy_label_def Let_def by simp
qed


subsection \<open>Numbers\<close>

lemma is_digit_value: "is_digit c \<Longrightarrow> digit_value c = of_char c - 48"
  by (simp add: is_digit_def digit_value_def)

lemma foldl_digits_ge: "(v :: nat) \<le> foldl (\<lambda>v c. v * 10 + digit_value c) v ds"
proof (induction ds arbitrary: v)
  case (Cons d ds)
  have "v \<le> v * 10 + digit_value d" by simp
  also have "\<dots> \<le> foldl (\<lambda>v c. v * 10 + digit_value c) (v * 10 + digit_value d) ds" by (rule Cons)
  finally show ?case by simp
qed simp

lemma parse_digits_all:
  assumes "list_all is_digit ds" "\<not> is_digit (char_at r 0)" "v \<le> 65535"
  shows "parse_digits (ds @ r) 0 v =
    (let n = foldl (\<lambda>v c. v * 10 + digit_value c) v ds in if n > 65535 then None else Some n)"
  using assms
proof (induction ds arbitrary: v)
  case Nil
  then show ?case by (simp add: parse_digits.simps [of r 0])
next
  case (Cons d ds)
  let ?v = "v * 10 + digit_value d"
  have "parse_digits (d # ds @ r) 0 v = (if ?v > 65535 then None else parse_digits (ds @ r) 0 ?v)"
    using Cons.prems parse_digits_shift [of "[d]" "ds @ r" 0]
    by (simp add: parse_digits.simps [of "d # ds @ r" 0] Let_def is_digit_value)
  moreover have "foldl (\<lambda>v c. v * 10 + digit_value c) ?v ds > 65535" if "?v > 65535"
    using that foldl_digits_ge [of ?v ds] by linarith
  ultimately show ?case using Cons by (simp add: Let_def)
qed

lemma digit_char_10: "d < 10 \<Longrightarrow> is_digit (digit_char u d)"
proof -
  have "\<forall>d \<in> set [0..<10]. is_digit (digit_char u d)"
    by (cases u) (simp_all add: upt_rec is_digit_def digit_char_def)
  then show "d < 10 \<Longrightarrow> is_digit (digit_char u d)" by simp
qed

lemma utoa_digits: "list_all is_digit (utoa v 10 u)" "utoa v 10 u \<noteq> []"
proof -
  have "list_all is_digit (utoa_rev v 10 u)"
  proof (induction v "10 :: nat" u rule: utoa_rev.induct)
    case (1 v u)
    then show ?case by (subst utoa_rev.simps) (simp add: digit_char_10)
  qed
  then show "list_all is_digit (utoa v 10 u)"
    by (simp add: utoa_def is_digit_def)
  show "utoa v 10 u \<noteq> []" using utoa_rev_nonempty [of 10 v u] by (simp add: utoa_def)
qed

lemma number_in_at:
  assumes "hi \<le> 65535" "\<not> is_digit (char_at r 0)"
  shows "number_in lo hi (xs @ utoa n 10 False @ r) (length xs) = (if lo \<le> n \<and> n \<le> hi then Some (of_nat n) else None)"
proof -
  let ?d = "utoa n 10 False"
  obtain c cs where d: "?d = c # cs" using utoa_digits(2) [of n False] by (cases ?d) auto
  have "is_digit c" using utoa_digits(1) [of n False] d by simp
  then have "is_digit (char_at (xs @ ?d @ r) (length xs))"
    using char_at_append [of xs "?d @ r" 0] d by simp
  moreover have "parse_digits (xs @ ?d @ r) (length xs) 0 = (if n > 65535 then None else Some n)"
    using parse_digits_shift [of xs "?d @ r" 0 0] parse_digits_all [OF utoa_digits(1) assms(2), of 0 n False]
      utoa_value [of 10 n False] by (simp add: numeral_value_def Let_def)
  ultimately show ?thesis using assms(1) by (auto simp: number_in_def parse_u32_def)
qed

subsection \<open>Configuration files\<close>

text \<open>The lines of a configuration file, their text, and what they mean for the policy (\<open>None\<close>: refused).\<close>

datatype setting =
    Width nat
  | Height nat
  | Refresh nat
  | Label string
  | Pointer pointer_policy
  | Vsync bool
  | Unknown string string
  | Comment string

definition policy_keys :: "string list" where
  "policy_keys = [''width'', ''height'', ''refresh_hz'', ''label'', ''pointer'', ''vsync'']"

fun setting_line :: "setting \<Rightarrow> string" where
  "setting_line (Width n) = ''width='' @ utoa n 10 False"
| "setting_line (Height n) = ''height='' @ utoa n 10 False"
| "setting_line (Refresh n) = ''refresh_hz='' @ utoa n 10 False"
| "setting_line (Label l) = ''label='' @ l"
| "setting_line (Pointer p) = ''pointer='' @ policy_ptr_name p"
| "setting_line (Vsync b) = ''vsync='' @ (if b then ''1'' else ''0'')"
| "setting_line (Unknown k v) = k @ CHR ''='' # v"
| "setting_line (Comment t) = CHR ''#'' # t"

fun setting_form :: "setting \<Rightarrow> bool" where
  "setting_form (Label l) \<longleftrightarrow> plain_value l"
| "setting_form (Unknown k v) \<longleftrightarrow> plain_key k \<and> k \<notin> set policy_keys \<and> plain_value v"
| "setting_form (Comment t) \<longleftrightarrow> (\<forall>c\<in>set t. \<not> is_eol c)"
| "setting_form _ \<longleftrightarrow> True"

fun setting_apply :: "setting \<Rightarrow> display_policy \<Rightarrow> display_policy option" where
  "setting_apply (Width n) pol = (if 320 \<le> n \<and> n \<le> 16384 then Some (pol\<lparr>pol_width := of_nat n\<rparr>) else None)"
| "setting_apply (Height n) pol = (if 240 \<le> n \<and> n \<le> 16384 then Some (pol\<lparr>pol_height := of_nat n\<rparr>) else None)"
| "setting_apply (Refresh n) pol = (if 30 \<le> n \<and> n \<le> 360 then Some (pol\<lparr>pol_refresh_hz := of_nat n\<rparr>) else None)"
| "setting_apply (Label l) pol = Some (pol\<lparr>pol_label := take 47 l\<rparr>)"
| "setting_apply (Pointer p) pol = Some (pol\<lparr>pol_pointer := p\<rparr>)"
| "setting_apply (Vsync b) pol = Some (pol\<lparr>pol_vsync := b\<rparr>)"
| "setting_apply (Unknown k v) pol = Some pol"
| "setting_apply (Comment t) pol = Some pol"

fun settings_apply :: "setting list \<Rightarrow> display_policy \<Rightarrow> display_policy option" where
  "settings_apply [] pol = Some pol"
| "settings_apply (x # xs) pol = (case setting_apply x pol of None \<Rightarrow> None | Some pol' \<Rightarrow> settings_apply xs pol')"

definition conf_text :: "setting list \<Rightarrow> string" where
  "conf_text xs = concat (map (\<lambda>x. setting_line x @ [CHR 0x0A]) xs)"

lemma plain_keys: "k \<in> set policy_keys \<Longrightarrow> plain_key k"
  by (auto simp: policy_keys_def plain_key_def is_space_def)

lemma plain_digits: "plain_value (utoa n 10 False)"
proof -
  have "\<not> is_space c \<and> c \<noteq> NUL \<and> \<not> is_eol c" if "is_digit c" for c
    using that by (auto simp: is_digit_def is_space_def is_eol_def)
  then show ?thesis using utoa_digits [of n False]
    by (auto simp: plain_value_def list_all_iff)
qed


lemma parse_assignment:
  assumes "plain_key k" "plain_value v" "length v < 2 ^ 64"
  shows "parse_line ((k @ ''='' @ v) @ CHR 0x0A # rest) 0 (length (k @ ''='' @ v)) pol =
    set_key ((k @ ''='') @ v @ CHR 0x0A # rest) 0 (length (k @ ''='')) (length v) pol"
  using parse_key_value [OF assms, of "CHR 0x0A # rest" pol] by simp

lemma key_match_assignment:
  assumes "plain_key k" "w \<in> set policy_keys"
  shows "key_match ((k @ ''='') @ v @ r) 0 w \<longleftrightarrow> k = w"
  using key_match_plain [OF assms(1) plain_keys [OF assms(2)], of "v @ r"] by simp

definition by_key :: "string \<Rightarrow> 'a \<Rightarrow> 'a \<Rightarrow> 'a \<Rightarrow> 'a \<Rightarrow> 'a \<Rightarrow> 'a \<Rightarrow> 'a \<Rightarrow> 'a" where
  "by_key k w h r l p v other =
     (if k = ''width'' then w else if k = ''height'' then h else if k = ''refresh_hz'' then r
      else if k = ''label'' then l else if k = ''pointer'' then p else if k = ''vsync'' then v else other)"

lemma by_key_simps:
  "by_key ''width'' w h r l p v other = w" "by_key ''height'' w h r l p v other = h"
  "by_key ''refresh_hz'' w h r l p v other = r" "by_key ''label'' w h r l p v other = l"
  "by_key ''pointer'' w h r l p v other = p" "by_key ''vsync'' w h r l p v other = v"
  "k \<notin> set policy_keys \<Longrightarrow> by_key k w h r l p v other = other"
  by (simp_all add: by_key_def policy_keys_def)

lemma set_key_assignment:
  fixes k v r :: string
  defines "buf \<equiv> (k @ ''='') @ v @ CHR 0x0A # r" and "vs \<equiv> length (k @ ''='')"
  assumes "plain_key k"
  shows "set_key buf 0 vs (length v) pol =
     by_key k (map_option (\<lambda>v. pol\<lparr>pol_width := v\<rparr>) (number_in 320 16384 buf vs))
       (map_option (\<lambda>v. pol\<lparr>pol_height := v\<rparr>) (number_in 240 16384 buf vs))
       (map_option (\<lambda>v. pol\<lparr>pol_refresh_hz := v\<rparr>) (number_in 30 360 buf vs))
       (Some (pol\<lparr>pol_label := copy_label buf vs (length v)\<rparr>))
       (map_option (\<lambda>v. pol\<lparr>pol_pointer := v\<rparr>) (pointer_value buf vs (length v)))
       (map_option (\<lambda>v. pol\<lparr>pol_vsync := v\<rparr>) (vsync_value buf vs (length v))) (Some pol)"
proof -
  have keys: "''width'' \<in> set policy_keys" "''height'' \<in> set policy_keys" "''refresh_hz'' \<in> set policy_keys"
    "''label'' \<in> set policy_keys" "''pointer'' \<in> set policy_keys" "''vsync'' \<in> set policy_keys"
    by (simp_all add: policy_keys_def)
  show ?thesis
    unfolding set_key_def by_key_def buf_def keys [THEN key_match_assignment [OF assms(3)]] by (rule refl)
qed

lemma pointer_value_name:
  "pointer_value (xs @ policy_ptr_name p @ r) (length xs) (length (policy_ptr_name p)) = Some p"
  unfolding pointer_value_def value_match_at by (cases p) (simp_all add: policy_ptr_name_def)

lemma vsync_value_at:
  "vsync_value (xs @ (if b then ''1'' else ''0'') @ r) (length xs) (length (if b then ''1'' else ''0'')) = Some b"
  unfolding vsync_value_def value_match_at by (cases b) simp_all

lemma plain_names: "plain_value (policy_ptr_name p)" "plain_value (if b then ''1'' else ''0'')"
  by (cases p; simp add: policy_ptr_name_def plain_value_def is_space_def is_eol_def)
    (cases b; simp add: plain_value_def is_space_def is_eol_def)

lemma setting_line_assignment:
  assumes "plain_key k" "plain_value v" "length v < 2 ^ 64"
    and "set_key ((k @ ''='') @ v @ CHR 0x0A # rest) 0 (length (k @ ''='')) (length v) pol = res"
  shows "parse_line ((k @ ''='' @ v) @ CHR 0x0A # rest) 0 (length (k @ ''='' @ v)) pol = res"
  unfolding parse_assignment [OF assms(1-3)] by (rule assms(4))

lemma not_digit_eol: "\<not> is_digit (char_at (CHR 0x0A # rest) 0)"
  by (simp add: is_digit_def)

lemma map_option_if: "map_option f (if c then Some x else None) = (if c then Some (f x) else None)"
  by simp

lemma assign_number:
  fixes k rest :: string and n :: nat and pol :: display_policy
  defines "res \<equiv> parse_line ((k @ ''='' @ utoa n 10 False) @ CHR 0x0A # rest) 0 (length (k @ ''='' @ utoa n 10 False)) pol"
  assumes k: "plain_key k" and len: "length (utoa n 10 False) < 2 ^ 64"
  shows "k = ''width'' \<Longrightarrow> res = setting_apply (Width n) pol"
    and "k = ''height'' \<Longrightarrow> res = setting_apply (Height n) pol"
    and "k = ''refresh_hz'' \<Longrightarrow> res = setting_apply (Refresh n) pol"
proof -
  note number = number_in_at [OF _ not_digit_eol, where xs = "k @ ''=''"]
  have n: "number_in 320 16384 ((k @ ''='') @ utoa n 10 False @ CHR 0x0A # rest) (length (k @ ''='')) =
      (if 320 \<le> n \<and> n \<le> 16384 then Some (of_nat n) else None)"
    "number_in 240 16384 ((k @ ''='') @ utoa n 10 False @ CHR 0x0A # rest) (length (k @ ''='')) =
      (if 240 \<le> n \<and> n \<le> 16384 then Some (of_nat n) else None)"
    "number_in 30 360 ((k @ ''='') @ utoa n 10 False @ CHR 0x0A # rest) (length (k @ ''='')) =
      (if 30 \<le> n \<and> n \<le> 360 then Some (of_nat n) else None)"
    by (rule number, simp)+
  note eq = parse_assignment [OF k plain_digits len, of rest pol, unfolded set_key_assignment [OF k] n map_option_if,
      folded res_def]
  show "k = ''width'' \<Longrightarrow> res = setting_apply (Width n) pol"
    "k = ''height'' \<Longrightarrow> res = setting_apply (Height n) pol"
    "k = ''refresh_hz'' \<Longrightarrow> res = setting_apply (Refresh n) pol"
    unfolding eq by (simp_all only: by_key_simps setting_apply.simps)
qed

lemma assign_word:
  fixes k v rest :: string and pol :: display_policy
  defines "res \<equiv> parse_line ((k @ ''='' @ v) @ CHR 0x0A # rest) 0 (length (k @ ''='' @ v)) pol"
  assumes k: "plain_key k" and v: "plain_value v" and len: "length v < 2 ^ 64"
  shows "k = ''label'' \<Longrightarrow> res = setting_apply (Label v) pol"
    and "k = ''pointer'' \<Longrightarrow> v = policy_ptr_name p \<Longrightarrow> res = setting_apply (Pointer p) pol"
    and "k = ''vsync'' \<Longrightarrow> v = (if b then ''1'' else ''0'') \<Longrightarrow> res = setting_apply (Vsync b) pol"
    and "k \<notin> set policy_keys \<Longrightarrow> res = Some pol"
proof -
  have nul: "NUL \<notin> set v" using v by (auto simp: plain_value_def)
  note eq = parse_assignment [OF k v len, of rest pol,
      unfolded set_key_assignment [OF k] copy_label_at [OF nul, where xs = "k @ ''=''"], folded res_def]
  show "k = ''label'' \<Longrightarrow> res = setting_apply (Label v) pol"
    unfolding eq by (simp only: by_key_simps setting_apply.simps) simp
  show "k \<notin> set policy_keys \<Longrightarrow> res = Some pol"
    unfolding eq by (rule by_key_simps)
  have p: "v = policy_ptr_name p \<Longrightarrow>
      pointer_value ((k @ ''='') @ v @ CHR 0x0A # rest) (length (k @ ''='')) (length v) = Some p"
    using pointer_value_name [of "k @ ''=''" p "CHR 0x0A # rest"] by (simp only:)
  show "res = setting_apply (Pointer p) pol" if "k = ''pointer''" "v = policy_ptr_name p"
    unfolding eq p [OF that(2)] by (simp only: that(1) by_key_simps setting_apply.simps option.map)
  have b: "v = (if b then ''1'' else ''0'') \<Longrightarrow>
      vsync_value ((k @ ''='') @ v @ CHR 0x0A # rest) (length (k @ ''='')) (length v) = Some b"
    using vsync_value_at [of "k @ ''=''" b "CHR 0x0A # rest"] by (simp only:)
  show "res = setting_apply (Vsync b) pol" if "k = ''vsync''" "v = (if b then ''1'' else ''0'')"
    unfolding eq b [OF that(2)] by (simp only: that(1) by_key_simps setting_apply.simps option.map)
qed

lemma parse_setting_line:
  assumes "setting_form x" "length (setting_line x) < 2 ^ 64"
  shows "parse_line (setting_line x @ CHR 0x0A # rest) 0 (length (setting_line x)) pol = setting_apply x pol"
proof -
  have key: "plain_key ''width''" "plain_key ''height''" "plain_key ''refresh_hz''" "plain_key ''label''"
    "plain_key ''pointer''" "plain_key ''vsync''"
    by (rule plain_keys, simp add: policy_keys_def)+
  show ?thesis
  proof (cases x)
    case (Width n)
    then show ?thesis using assms assign_number(1) [OF key(1) _ refl, of n rest pol] by simp
  next
    case (Height n)
    then show ?thesis using assms assign_number(2) [OF key(2) _ refl, of n rest pol] by simp
  next
    case (Refresh n)
    then show ?thesis using assms assign_number(3) [OF key(3) _ refl, of n rest pol] by simp
  next
    case (Label l)
    then show ?thesis using assms assign_word(1) [OF key(4) _ _ refl, of l rest pol] by simp
  next
    case (Pointer p)
    then show ?thesis using assms assign_word(2) [OF key(5) plain_names(1) _ refl refl, of p rest pol] by simp
  next
    case (Vsync b)
    then show ?thesis using assms assign_word(3) [OF key(6) plain_names(2) _ refl refl, of b rest pol] by simp
  next
    case (Unknown k v)
    then show ?thesis using assms assign_word(4) [of k v rest pol] by simp
  next
    case (Comment t)
    then show ?thesis by (simp add: parse_line_def)
  qed
qed

lemma setting_line_plain:
  assumes "setting_form x"
  shows "setting_line x \<noteq> []" "\<forall>c\<in>set (setting_line x). \<not> is_eol c"
proof -
  have eol: "\<not> is_eol c" if "\<not> is_space c" for c using that by (auto simp: is_eol_def is_space_def)
  have vals: "\<forall>c\<in>set (utoa n 10 False). \<not> is_eol c" "\<forall>c\<in>set (policy_ptr_name p). \<not> is_eol c" for n p
    using plain_digits [of n] plain_names(1) [of p] by (simp_all add: plain_value_def)
  show "setting_line x \<noteq> []" by (cases x) simp_all
  show "\<forall>c\<in>set (setting_line x). \<not> is_eol c"
  proof (cases x)
    case (Unknown k v)
    then have "\<forall>c\<in>set k. \<not> is_eol c" "\<forall>c\<in>set v. \<not> is_eol c" using assms eol by (auto simp: plain_value_def plain_key_def)
    then show ?thesis by (auto simp: Unknown is_eol_def)
  next
    case (Label l)
    then have "\<forall>c\<in>set l. \<not> is_eol c" using assms by (simp add: plain_value_def)
    then show ?thesis by (simp add: Label) (simp add: is_eol_def)
  next
    case (Comment t)
    then have "\<forall>c\<in>set t. \<not> is_eol c" using assms by simp
    then show ?thesis by (simp add: Comment) (simp add: is_eol_def)
  next
    case (Pointer p)
    show ?thesis using vals(2) [of p] by (simp add: Pointer) (simp add: is_eol_def)
  next
    case (Vsync b)
    then show ?thesis by (simp add: is_eol_def)
  next
    case (Width n)
    show ?thesis using vals(1) [of n] by (simp add: Width) (simp add: is_eol_def)
  next
    case (Height n)
    show ?thesis using vals(1) [of n] by (simp add: Height) (simp add: is_eol_def)
  next
    case (Refresh n)
    show ?thesis using vals(1) [of n] by (simp add: Refresh) (simp add: is_eol_def)
  qed
qed

lemma conf_text_Cons: "conf_text (x # xs) = setting_line x @ CHR 0x0A # conf_text xs"
  by (simp add: conf_text_def)

lemma parse_conf_text:
  assumes "\<forall>x\<in>set xs. setting_form x" "length (conf_text xs) < 2 ^ 64"
  shows "case settings_apply xs pol of
     None \<Rightarrow> \<not> fst (parse_from (conf_text xs @ rest) (length (conf_text xs)) 0 pol)
   | Some pol' \<Rightarrow> parse_from (conf_text xs @ rest) (length (conf_text xs)) 0 pol = (True, pol')"
  using assms
proof (induction xs arbitrary: pol)
  case Nil
  then show ?case by (simp add: conf_text_def parse_from.simps [of rest])
next
  case (Cons x xs)
  have x: "setting_form x" "length (setting_line x) < 2 ^ 64" and len: "length (conf_text xs) < 2 ^ 64"
    using Cons.prems by (simp_all add: conf_text_Cons)
  have "is_eol (CHR 0x0A)" by (simp add: is_eol_def)
  from parse_first_line [OF setting_line_plain [OF x(1)] this, of "conf_text xs @ rest" "length (conf_text xs)" pol]
  have "parse_from (conf_text (x # xs) @ rest) (length (conf_text (x # xs))) 0 pol =
      (case setting_apply x pol of None \<Rightarrow> (False, pol)
       | Some pol' \<Rightarrow> parse_from (conf_text xs @ rest) (length (conf_text xs)) 0 pol')"
    by (simp add: conf_text_Cons parse_setting_line [OF x])
  note first = this
  show ?case
  proof (cases "setting_apply x pol")
    case None
    with first show ?thesis by simp
  next
    case (Some pol')
    with first Cons.IH [OF _ len, of pol'] Cons.prems(1) show ?thesis by (auto split: option.splits)
  qed
qed

text \<open>C17: Loading \<^verbatim>\<open>/etc/display.conf\<close>.  For a file of at most 511 bytes made of well-formed lines (settings, unknown
  keys, comments), the loaded policy is the old one with every setting applied in order and the label cut to 47
  characters; when a number is out of its range the whole file is refused and the policy stays as it was.\<close>

theorem policy_file_applied:
  assumes "vfs_lookup s (Some path) = Some v" "vtype (vnodes s v) = VFS_FILE" "vdata (vnodes s v) \<noteq> 0"
    and "content mem (vnodes s v) = map (\<lambda>c. of_nat (of_char c)) (conf_text xs)"
    and "xs \<noteq> []" "\<forall>x\<in>set xs. setting_form x" "length (conf_text xs) \<le> 511"
  shows "display_policy_try_load_vfs mem stk s (Some path) pol =
    (case settings_apply xs pol of None \<Rightarrow> pol | Some pol' \<Rightarrow> pol'\<lparr>pol_from_file := True\<rparr>)"
proof -
  let ?n = "vnodes s v" and ?t = "conf_text xs"
  have size: "vsize ?n = length ?t"
    using arg_cong [OF assms(4), of length] by (simp add: content_def)
  have pos: "0 < length ?t" using assms(5) by (cases xs) (simp_all add: conf_text_Cons)
  let ?cnt = "if vsize ?n < 511 then vsize ?n else 511"
  have cnt: "?cnt = length ?t" using assms(7) by (simp add: size)
  have chars: "char_of (unat (of_nat (of_char c) :: u8)) = c" for c
    by (simp add: unat_of_nat)
  have rd: "vfs_read mem (Some ?n) 0 (length ?t) = (int (length ?t), map (\<lambda>c. of_nat (of_char c)) ?t)"
  proof -
    have "vfs_read mem (Some ?n) 0 (length ?t) = (to_i64 (length ?t), content mem ?n)"
      using assms(2,7) pos size by (simp add: vfs_read_def content_def Let_def)
    moreover have "to_i64 (length ?t) = int (length ?t)"
      using assms(7) by (simp add: to_i64_def signed_of_nat signed_take_bit_int_eq_self)
    ultimately show ?thesis using assms(4) by simp
  qed
  have map_chars: "map (\<lambda>b. char_of (unat b)) (map (\<lambda>c. of_nat (of_char c) :: u8) ?t) = ?t"
    using chars by (simp add: comp_def)
  have len: "length ?t < 2 ^ 64" using assms(7) by simp
  note p = parse_conf_text [OF assms(6) len, where pol = pol and rest = "NUL # drop (Suc (length ?t)) stk"]
  show ?thesis
    unfolding display_policy_try_load_vfs_def Let_def assms(1) option.case cnt rd prod.case map_chars display_policy_parse_def
    using assms(2,3) pos size p by (auto split: option.splits bool.splits prod.splits)
qed


definition example_conf :: "setting list" where
  "example_conf = [Comment ''monitor'', Width 2560, Refresh 144, Pointer POINTER_USB]"

definition example_conf_fs :: fs where
  "example_conf_fs = \<lparr>root_node = 8, vnodes = (\<lambda>_. \<lparr>vname = ''d'', vtype = VFS_FILE, vdata = 4096,
      vsize = length (conf_text example_conf), parent = 8, children = []\<rparr>)
     (8 := \<lparr>vname = ''/'', vtype = VFS_DIR, vdata = 0, vsize = 0, parent = 0, children = [16]\<rparr>),
     fs_heap = example_heap\<rparr>"

definition example_conf_mem :: "nat \<Rightarrow> u8" where
  "example_conf_mem a = of_nat (of_char (conf_text example_conf ! (a - 4096)))"

lemma example_conf_lookup: "vfs_lookup example_conf_fs (Some ''/d'') = Some 16"
proof -
  have "take_seg ''d'' = (''d'', [])" by (simp add: take_seg_def)
  then show ?thesis
    by (simp add: vfs_lookup_def lookup_from.simps example_conf_fs_def child_named_def)
qed

theorem policy_file_applied_witness:
  "pol_width (display_policy_try_load_vfs example_conf_mem [] example_conf_fs (Some ''/d'') display_policy_init_defaults) = 2560"
proof -
  have content: "content example_conf_mem (vnodes example_conf_fs 16) = map (\<lambda>c. of_nat (of_char c)) (conf_text example_conf)"
    by (rule nth_equalityI) (simp_all add: content_def example_conf_fs_def example_conf_mem_def)
  have len: "length (conf_text example_conf) \<le> 511"
    using utoa_length [of 10 2560 4 False] utoa_length [of 10 144 3 False]
    by (simp add: conf_text_def example_conf_def policy_ptr_name_def)
  have "settings_apply example_conf display_policy_init_defaults =
      Some (display_policy_init_defaults\<lparr>pol_width := 2560, pol_refresh_hz := 144, pol_pointer := POINTER_USB\<rparr>)"
    by (simp add: example_conf_def)
  then show ?thesis
    using policy_file_applied [OF example_conf_lookup _ _ content _ _ len, of "[]" display_policy_init_defaults]
    by (simp add: example_conf_fs_def example_conf_def is_eol_def display_policy_init_defaults_def)
qed

text \<open>An empty value is refused only on the last line: the blanks skipped after \<^verbatim>\<open>=\<close> may be line breaks, so the value is
  taken from the next line.\<close>

lemma empty_value_reads_next_line:
  fixes k :: string and n :: nat
  defines "buf \<equiv> (k @ [CHR ''='', CHR 0x0A]) @ utoa n 10 False"
  assumes "320 \<le> n" "n \<le> 16384"
  shows "number_in 320 16384 buf (skip_ws buf (length k + 1)) = Some (of_nat n)"
proof -
  let ?d = "utoa n 10 False"
  have "\<not> is_space (hd ?d)" "?d \<noteq> []" using plain_digits [of n] by (simp_all add: plain_value_def)
  then have "skip_ws ?d 0 = 0" by (cases ?d) (simp_all add: skip_ws_stay)
  moreover have "skip_ws (CHR 0x0A # ?d) 0 = Suc (skip_ws ?d 0)"
    using skip_ws_shift [of "[CHR 0x0A]" ?d 0] by (simp add: skip_ws.simps [of _ 0] is_space_def)
  moreover have "skip_ws buf (length k + 1) = length k + 1 + skip_ws (CHR 0x0A # ?d) 0"
    using skip_ws_shift [of "k @ [CHR ''='']" "CHR 0x0A # ?d" 0] by (simp add: buf_def)
  ultimately have "skip_ws buf (length k + 1) = length (k @ [CHR ''='', CHR 0x0A])" by simp
  then show ?thesis
    using number_in_at [of 16384 "[]" 320 "k @ [CHR ''='', CHR 0x0A]" n] assms(2,3)
    by (simp add: buf_def char_at_def is_digit_def)
qed

subsection \<open>Rates\<close>

text \<open>For every valid policy the timer rate is a whole multiple of the refresh rate between 1000 and 8000 Hz, so
  the number of timer ticks per frame is exact, and the compositor runs at the refresh rate.\<close>

theorem policy_rates:
  assumes "policy_ok pol"
  shows "display_policy_compositor_hz pol = pol_refresh_hz pol \<and>
    (\<exists>m. unat (display_policy_apic_timer_hz pol) = m * unat (pol_refresh_hz pol)) \<and>
    1000 \<le> display_policy_apic_timer_hz pol \<and> display_policy_apic_timer_hz pol \<le> 8000"
proof -
  let ?r = "pol_refresh_hz pol" and ?n = "unat (pol_refresh_hz pol)"
  have n: "30 \<le> ?n" "?n \<le> 360" using assms by (simp_all add: policy_ok_def)
  then have r: "\<not> ?r < 30" "\<not> ?r > 360" by (simp_all add: word_less_nat_alt)
  have mul: "unat (?r * of_nat m) = ?n * m" if "m \<le> 80" for m
  proof -
    have "?n * m \<le> 360 * 80" using n(2) that by (rule mult_le_mono)
    then show ?thesis using that by (simp add: unat_word_ariths unat_of_nat)
  qed
  let ?P = "\<lambda>m. 1000 \<le> ?r * of_nat m \<and> ?r * of_nat m \<le> 8000"
  have P: "?P m \<longleftrightarrow> 1000 \<le> ?n * m \<and> ?n * m \<le> 8000" if "m \<le> 80" for m
    using mul [OF that] by (simp add: word_le_nat_alt)
  define k :: nat where "k = (if ?n < 100 then 34 else 10)"
  have k: "10 \<le> k" "k \<le> 80" "1000 \<le> ?n * k" "?n * k \<le> 8000" using n by (auto simp: k_def)
  then have "?P k" using P [of k] by blast
  then have "scan ?P 10 81 \<noteq> None" unfolding scan_None using k(1,2) by (auto intro: exI [of _ k])
  then obtain m where m: "scan ?P 10 81 = Some m" by auto
  then have "m \<le> 80" "?P m" using scan_Some [OF m] by auto
  moreover have "display_policy_apic_timer_hz pol = ?r * of_nat m"
    using r m by (simp add: display_policy_apic_timer_hz_def Let_def)
  moreover have "display_policy_compositor_hz pol = ?r" using r by (simp add: display_policy_compositor_hz_def Let_def)
  ultimately show ?thesis using mul [of m] by (auto intro: exI [of _ m] simp: mult.commute)
qed

theorem policy_rates_witness: "display_policy_compositor_hz display_policy_init_defaults = 120"
  using policy_rates [OF defaults_ok] by (simp add: display_policy_init_defaults_def)

end
