(* ===== verification/Mouse.thy ===== *)
theory Mouse
  imports DisplayPolicy Keyboard
begin

text \<open>
  The pointer stack, \<^verbatim>\<open>src/drivers/mouse.c\<close> and \<^verbatim>\<open>src/drivers/hid_boot_parse.c\<close>: the cursor position and its
  clamping to the screen, PS/2 packet assembly on the bytes the controller delivers, the choice of a back end at
  start-up, the boot hint lines, and the decoder of HID boot reports.  What the other pointer drivers answer
  (\<^verbatim>\<open>virtio_tablet_active()\<close> and so on) is an input, the record \<open>drivers\<close>; the controller's pending output is a list
  of bytes tagged with the auxiliary-port bit.
\<close>

subsection \<open>State\<close>

record mouse =
  pkt :: "u8 list"
  pkt_i :: nat
  pkt_expect :: nat
  cur_x :: int
  cur_y :: int
  cur_btn :: u8
  events :: u64
  scr_w :: u32
  scr_h :: u32
  boot_l1 :: string
  boot_l2 :: string
  probe_worker_started :: bool

record drivers =
  virtio_tablet_active :: bool
  i2c_hid_mouse_active :: bool
  usb_xhci_mouse_active :: bool
  usb_xhci_mouse_probing :: bool
  usb_xhci_mouse_driver_began :: bool
  usb_no_device_after_full_scan :: bool
  usb_debug_status :: string

abbreviation MOUSE_BTN_LEFT :: u8 where "MOUSE_BTN_LEFT \<equiv> 1"
abbreviation MOUSE_BTN_RIGHT :: u8 where "MOUSE_BTN_RIGHT \<equiv> 2"
abbreviation MOUSE_BTN_MIDDLE :: u8 where "MOUSE_BTN_MIDDLE \<equiv> 4"

definition mouse_start :: mouse where
  "mouse_start =
     \<lparr>pkt = replicate 4 0, pkt_i = 0, pkt_expect = 3, cur_x = 0, cur_y = 0, cur_btn = 0, events = 0, scr_w = 1920,
      scr_h = 1080, boot_l1 = [], boot_l2 = [], probe_worker_started = False\<rparr>"

subsection \<open>Position\<close>

definition clamp :: "int \<Rightarrow> int \<Rightarrow> int \<Rightarrow> int" where
  "clamp v lo hi = (if v < lo then lo else if v > hi then hi else v)"

definition mouse_absolute_inject :: "int \<Rightarrow> int \<Rightarrow> u8 \<Rightarrow> mouse \<Rightarrow> mouse" where
  "mouse_absolute_inject x y buttons m =
     m\<lparr>cur_x := clamp x 0 (sint (scr_w m) - 1), cur_y := clamp y 0 (sint (scr_h m) - 1), cur_btn := buttons,
       events := events m + 1\<rparr>"

definition mouse_rel_inject :: "int \<Rightarrow> int \<Rightarrow> u8 \<Rightarrow> mouse \<Rightarrow> mouse" where
  "mouse_rel_inject dx dy buttons m =
     m\<lparr>cur_x := clamp (cur_x m + dx) 0 (sint (scr_w m) - 1), cur_y := clamp (cur_y m - dy) 0 (sint (scr_h m) - 1),
       cur_btn := buttons, events := events m + 1\<rparr>"

definition mouse_set_screen :: "display_policy \<Rightarrow> u32 \<Rightarrow> u32 \<Rightarrow> mouse \<Rightarrow> mouse" where
  "mouse_set_screen p screen_w screen_h m =
     (let w = (if screen_w = 0 then (if pol_width p \<noteq> 0 then pol_width p else 1920) else screen_w);
          h = (if screen_h = 0 then (if pol_height p \<noteq> 0 then pol_height p else 1080) else screen_h)
      in m\<lparr>scr_w := w, scr_h := h, cur_x := clamp (cur_x m) 0 (sint w - 1), cur_y := clamp (cur_y m) 0 (sint h - 1)\<rparr>)"

definition mouse_get_state :: "mouse \<Rightarrow> int \<times> int \<times> u8" where
  "mouse_get_state m = (cur_x m, cur_y m, cur_btn m)"

subsection \<open>PS/2 packets\<close>

text \<open>\<^verbatim>\<open>if (flags & (1u << n)) d |= 0xFFFFFF00u\<close> on an \<^verbatim>\<open>int32_t\<close> between 0 and 255\<close>

definition packet_delta :: "u8 \<Rightarrow> nat \<Rightarrow> u8 \<Rightarrow> int" where
  "packet_delta flags n b = (if bit flags n then int (unat b) - 256 else int (unat b))"

definition packet_buttons :: "u8 \<Rightarrow> u8" where
  "packet_buttons flags =
     (if bit flags 0 then MOUSE_BTN_LEFT else 0) OR (if bit flags 1 then MOUSE_BTN_RIGHT else 0) OR
     (if bit flags 2 then MOUSE_BTN_MIDDLE else 0)"

definition ps2_dispatch_mouse_byte :: "bool \<Rightarrow> u8 \<Rightarrow> mouse \<times> kbd \<Rightarrow> mouse \<times> kbd" where
  "ps2_dispatch_mouse_byte aux b st =
     (case st of (m, k) \<Rightarrow>
        if \<not> aux
        then let m = (if pkt_i m > 0 then m\<lparr>pkt_i := 0\<rparr> else m)
             in if \<not> bit b 3 then (m, keyboard_ps2_handle_byte b k) else (m, k)
        else if pkt_i m = 0 \<and> \<not> bit b 3 then (m, k)
        else let m = m\<lparr>pkt := (pkt m)[pkt_i m := b], pkt_i := pkt_i m + 1\<rparr>
             in if pkt_i m < pkt_expect m then (m, k)
                else let flags = pkt m ! 0;
                         dx = packet_delta flags 4 (pkt m ! 1);
                         dy = packet_delta flags 5 (pkt m ! 2)
                     in (m\<lparr>pkt_i := 0,
                           cur_x := clamp (cur_x m + dx) 0 (sint (scr_w m) - 1),
                           cur_y := clamp (cur_y m - dy) 0 (sint (scr_h m) - 1),
                           cur_btn := packet_buttons flags,
                           events := events m + 1\<rparr>, k))"

definition other_pointer :: "drivers \<Rightarrow> bool" where
  "other_pointer d \<longleftrightarrow> virtio_tablet_active d \<or> i2c_hid_mouse_active d \<or> usb_xhci_mouse_active d"

definition mouse_ps2_aux_byte :: "drivers \<Rightarrow> u8 \<Rightarrow> mouse \<times> kbd \<Rightarrow> mouse \<times> kbd" where
  "mouse_ps2_aux_byte d b st = (if other_pointer d then st else ps2_dispatch_mouse_byte True b st)"

text \<open>At most \<open>n\<close> of the controller's pending bytes; what stays pending is returned.\<close>

fun mouse_try_consume :: "nat \<Rightarrow> (bool \<times> u8) list \<Rightarrow> mouse \<times> kbd \<Rightarrow> (bool \<times> u8) list \<times> mouse \<times> kbd" where
  "mouse_try_consume 0 out st = (out, st)"
| "mouse_try_consume (Suc n) [] st = ([], st)"
| "mouse_try_consume (Suc n) ((aux, b) # out) st = mouse_try_consume n out (ps2_dispatch_mouse_byte aux b st)"

definition mouse_handle_irq :: "drivers \<Rightarrow> (bool \<times> u8) list \<Rightarrow> mouse \<times> kbd \<Rightarrow> (bool \<times> u8) list \<times> mouse \<times> kbd" where
  "mouse_handle_irq d out st = (if other_pointer d then (out, st) else mouse_try_consume 512 out st)"

text \<open>\<^verbatim>\<open>mouse_poll\<close>.  \<open>poll\<close> is what the USB driver's poll does to the drivers' state and the cursor, \<open>vpoll\<close> and
  \<open>ipoll\<close> what the tablet's and the I2C driver's poll do to the cursor.\<close>

definition mouse_poll ::
  "(drivers \<times> mouse \<Rightarrow> drivers \<times> mouse) \<Rightarrow> (mouse \<Rightarrow> mouse) \<Rightarrow> (mouse \<Rightarrow> mouse) \<Rightarrow>
   (bool \<times> u8) list \<Rightarrow> drivers \<times> mouse \<times> kbd \<Rightarrow> (bool \<times> u8) list \<times> drivers \<times> mouse \<times> kbd" where
  "mouse_poll poll vpoll ipoll out st =
     (case st of (d, m, k) \<Rightarrow>
        let (d, m) = (if usb_xhci_mouse_driver_began d then poll (d, m) else (d, m))
        in if usb_xhci_mouse_driver_began (fst st) \<and> usb_xhci_mouse_active d then (out, d, m, k)
           else if virtio_tablet_active d then (out, d, vpoll m, k)
           else if i2c_hid_mouse_active d then (out, d, ipoll m, k)
           else case mouse_try_consume 128 out (m, k) of (out, m, k) \<Rightarrow> (out, d, m, k))"

subsection \<open>Start-up\<close>

text \<open>The IntelliMouse probe: the acknowledge byte and the identifier if one is ready.\<close>

definition ps2_detect_wheel_mode :: "u8 \<Rightarrow> u8 option \<Rightarrow> mouse \<Rightarrow> mouse" where
  "ps2_detect_wheel_mode a ready m =
     (let m = m\<lparr>pkt_expect := 3\<rparr>
      in if a \<noteq> 0xFA then m
         else let id = (case ready of None \<Rightarrow> 0 | Some x \<Rightarrow> x)
              in if id = 3 \<or> id = 4 then m\<lparr>pkt_expect := 4\<rparr> else m)"

datatype attempt = TryVirtio | TryI2c | TryUsb | InitPs2

text \<open>The back ends \<^verbatim>\<open>mouse_init\<close> tries, in order; the arguments say which of them come up.\<close>

definition mouse_init_attempts :: "pointer_policy \<Rightarrow> bool \<Rightarrow> bool \<Rightarrow> bool \<Rightarrow> attempt list" where
  "mouse_init_attempts pol virtio_ok i2c_ok usb_ok =
     (let force_ps2 = (pol = POINTER_PS2); force_virtio = (pol = POINTER_VIRTIO);
          force_usb = (pol = POINTER_USB); force_i2c = (pol = POINTER_I2C);
          try_virtio = (force_virtio \<or> pol = POINTER_AUTO);
          try_usb = (force_usb \<or> pol = POINTER_AUTO);
          try_i2c = (force_i2c \<or> pol = POINTER_AUTO)
      in if force_i2c
         then if i2c_ok then [TryI2c]
              else if \<not> force_ps2 \<and> usb_ok then [TryI2c, TryUsb]
              else [TryI2c] @ (if force_ps2 then [] else [TryUsb]) @ [InitPs2]
         else let v = (if \<not> force_ps2 \<and> try_virtio then [TryVirtio] else [])
              in if v \<noteq> [] \<and> virtio_ok then v
                 else let i = (if \<not> force_ps2 \<and> \<not> force_usb \<and> try_i2c then [TryI2c] else [])
                      in if i \<noteq> [] \<and> i2c_ok then v @ i
                         else let u = (if \<not> force_ps2 \<and> try_usb then [TryUsb] else [])
                              in if u \<noteq> [] \<and> usb_ok then v @ i @ u else v @ i @ u @ [InitPs2])"

definition mouse_start_background_probe :: "mouse \<Rightarrow> mouse \<times> bool" where
  "mouse_start_background_probe m =
     (if probe_worker_started m then (m, False) else (m\<lparr>probe_worker_started := True\<rparr>, True))"


subsection \<open>Boot hint lines\<close>

definition boot_scopy :: "nat \<Rightarrow> string \<Rightarrow> string" where
  "boot_scopy cap src = take (cap - 1) src"

definition boot_sapp :: "nat \<Rightarrow> string \<Rightarrow> string \<Rightarrow> string" where
  "boot_sapp cap dst src = (if length dst \<ge> cap then dst else dst @ take (cap - 1 - length dst) src)"

definition boot_policy_str :: "pointer_policy \<Rightarrow> string" where
  "boot_policy_str p =
     (case p of POINTER_AUTO \<Rightarrow> ''auto'' | POINTER_PS2 \<Rightarrow> ''ps2'' | POINTER_VIRTIO \<Rightarrow> ''virtio''
      | POINTER_USB \<Rightarrow> ''usb'' | POINTER_I2C \<Rightarrow> ''i2c'')"

text \<open>The dash in the messages is a multi-byte character of the source's encoding.\<close>

definition em_dash :: string where
  "em_dash = map char_of [226 :: nat, 128, 148]"

definition boot_backend :: "drivers \<Rightarrow> string" where
  "boot_backend d =
     (if usb_xhci_mouse_probing d then ''USB xHCI (probing)''
      else if virtio_tablet_active d then ''virtio-tablet''
      else if i2c_hid_mouse_active d then ''I2C HID''
      else if usb_xhci_mouse_active d then ''USB xHCI HID''
      else ''PS/2 aux'')"

definition boot_note :: "drivers \<Rightarrow> display_policy \<Rightarrow> string" where
  "boot_note d pol =
     (let ps2_only = (\<not> virtio_tablet_active d \<and> \<not> i2c_hid_mouse_active d \<and> \<not> usb_xhci_mouse_active d)
      in if ps2_only \<and> pol_pointer pol = POINTER_USB
         then if usb_xhci_mouse_probing d then '' | USB HID scan in progress (PS/2 idle until found)''
              else if usb_no_device_after_full_scan d
              then '' | USB: no HID mouse after full scan '' @ em_dash @ '' other port/hub or pointer=auto''
              else if \<not> usb_xhci_mouse_driver_began d
              then '' | USB: xHCI did not start '' @ em_dash @ '' pointer=auto or serial [usb-mouse]''
              else '' | USB: check serial [usb-mouse] (unexpected idle)''
         else if ps2_only
         then if pol_pointer pol = POINTER_AUTO \<and> usb_xhci_mouse_probing d
              then '' | USB xHCI enumerating '' @ em_dash @ '' PS/2 works; [usb-mouse] serial if no progress''
              else '' | PS/2 fallback: try pointer=i2c (Intel pad) or different USB port.''
         else '' | No COM1? Read this bar instead of serial.'')"

definition mouse_boot_hint_refresh :: "drivers \<Rightarrow> display_policy \<Rightarrow> mouse \<Rightarrow> mouse" where
  "mouse_boot_hint_refresh d pol m =
     (let l1 = boot_sapp 120 (boot_scopy 120 ''Pointer: '') (boot_backend d);
          l2 = boot_sapp 160 (boot_scopy 160 ''policy pointer='') (boot_policy_str (pol_pointer pol));
          l2 = (if \<not> pol_from_file pol
                then boot_sapp 160 l2 ('' | defaults only '' @ em_dash @
                       '' initrd has no /etc/display.conf (edit rootfs/etc, make initrd)'')
                else let l2 = boot_sapp 160 l2 (boot_note d pol)
                     in if usb_debug_status d \<noteq> [] then boot_sapp 160 (boot_sapp 160 l2 '' | '') (usb_debug_status d)
                        else l2)
      in m\<lparr>boot_l1 := l1, boot_l2 := l2\<rparr>)"

text \<open>\<^verbatim>\<open>mouse_init\<close>: \<open>d\<close> is what the drivers answer after their start-up, \<open>a\<close> and \<open>ready\<close> what the PS/2 device
  answers to the wheel probe.\<close>

definition mouse_init :: "drivers \<Rightarrow> display_policy \<Rightarrow> u8 \<Rightarrow> u8 option \<Rightarrow> u32 \<Rightarrow> u32 \<Rightarrow> mouse \<Rightarrow> mouse \<times> attempt list" where
  "mouse_init d pol a ready screen_w screen_h m =
     (let m = (mouse_set_screen pol screen_w screen_h m)\<lparr>cur_btn := 0, pkt_i := 0\<rparr>;
          tries = mouse_init_attempts (pol_pointer pol) (virtio_tablet_active d) (i2c_hid_mouse_active d)
                    (usb_xhci_mouse_active d);
          m = (if InitPs2 \<in> set tries then ps2_detect_wheel_mode a ready m else m)
      in (mouse_boot_hint_refresh d pol m, tries))"

subsection \<open>HID boot reports\<close>

definition le16 :: "u8 list \<Rightarrow> nat \<Rightarrow> int" where
  "le16 p i = sint (ucast (p ! i) OR push_bit 8 (ucast (p ! (i + 1))) :: u16)"

definition hid_boot_form :: "u8 list \<Rightarrow> nat \<Rightarrow> (int \<times> int \<times> u8) option" where
  "hid_boot_form p ofs =
     (let f = p ! ofs; dx = sint (p ! (ofs + 1)); dy = sint (p ! (ofs + 2));
          dx' = (if bit f 4 then dx - 256 else dx); dy' = (if bit f 5 then dy - 256 else dy)
      in if bit f 3 then Some (dx', dy', packet_buttons f)
         else if dx \<noteq> 0 \<or> dy \<noteq> 0 \<or> f AND 7 \<noteq> 0 then Some (dx', dy', packet_buttons f)
         else None)"

definition hid_word_form :: "u8 list \<Rightarrow> nat \<Rightarrow> u8 \<Rightarrow> (int \<times> int \<times> u8) option" where
  "hid_word_form p i b =
     (let x = le16 p i; y = le16 p (i + 2)
      in if x \<noteq> 0 \<or> y \<noteq> 0 then Some (x, y, packet_buttons b) else None)"

definition hid_boot_decode_mouse_report :: "u8 list \<Rightarrow> (int \<times> int \<times> u8) option" where
  "hid_boot_decode_mouse_report p =
     (let len = length p
      in if len < 3 then None
         else let ofs = (if len \<ge> 4 \<and> 1 \<le> p ! 0 \<and> p ! 0 \<le> 16 \<and> bit (p ! 1) 3 then 1 else 0)
              in case (if len \<ge> ofs + 3 then hid_boot_form p ofs else None) of
                   Some r \<Rightarrow> Some r
                 | None \<Rightarrow>
                     (case (if len \<ge> 5 then hid_word_form p 0 (p ! 4) else None) of
                        Some r \<Rightarrow> Some r
                      | None \<Rightarrow> if len \<ge> 6 then hid_word_form p 1 (p ! 0) else None))"

subsection \<open>The cursor stays on the screen\<close>

definition mouse_ok :: "mouse \<Rightarrow> bool" where
  "mouse_ok m \<longleftrightarrow>
     0 < scr_w m \<and> unat (scr_w m) < 2 ^ 31 \<and> 0 < scr_h m \<and> unat (scr_h m) < 2 ^ 31 \<and>
     0 \<le> cur_x m \<and> cur_x m < int (unat (scr_w m)) \<and> 0 \<le> cur_y m \<and> cur_y m < int (unat (scr_h m)) \<and>
     length (pkt m) = 4 \<and> pkt_expect m \<in> {3, 4} \<and> pkt_i m < pkt_expect m"

lemma clamp_screen:
  assumes "0 < (w :: u32)" "unat w < 2 ^ 31"
  shows "0 \<le> clamp v 0 (sint w - 1)" "clamp v 0 (sint w - 1) < int (unat w)"
proof -
  have "0 < unat w" using assms(1) by (simp add: word_less_nat_alt)
  then show "0 \<le> clamp v 0 (sint w - 1)" "clamp v 0 (sint w - 1) < int (unat w)"
    unfolding sint_small [OF assms(2)] by (simp_all add: clamp_def del: of_nat_unat)
qed


lemma inject_ok [inv_intros]:
  assumes "mouse_ok m"
  shows "mouse_ok (mouse_rel_inject dx dy b m)" "mouse_ok (mouse_absolute_inject x y b m)"
  using assms clamp_screen [of "scr_w m"] clamp_screen [of "scr_h m"]
  by (simp_all add: mouse_ok_def mouse_rel_inject_def mouse_absolute_inject_def)

lemma set_screen_ok [inv_intros]:
  assumes "mouse_ok m" "policy_ok p" "unat w < 2 ^ 31" "unat h < 2 ^ 31"
  shows "mouse_ok (mouse_set_screen p w h m)"
proof -
  let ?w = "if w = 0 then (if pol_width p \<noteq> 0 then pol_width p else 1920) else w"
  let ?h = "if h = 0 then (if pol_height p \<noteq> 0 then pol_height p else 1080) else h"
  have "0 < ?w" "0 < ?h" by (auto simp: word_gt_0)
  moreover have "unat ?w < 2 ^ 31" "unat ?h < 2 ^ 31" using assms(2-4) by (auto simp: policy_ok_def)
  ultimately show ?thesis
    using assms(1) clamp_screen [of ?w] clamp_screen [of ?h] unfolding mouse_set_screen_def Let_def
    by (simp add: mouse_ok_def)
qed

lemma dispatch_ok [inv_intros]:
  assumes "mouse_ok m"
  shows "mouse_ok (fst (ps2_dispatch_mouse_byte aux b (m, k)))"
  using assms clamp_screen [of "scr_w m"] clamp_screen [of "scr_h m"]
  by (auto simp: ps2_dispatch_mouse_byte_def mouse_ok_def Let_def)

lemma try_consume_ok [inv_intros]:
  "mouse_ok m \<Longrightarrow> mouse_ok (fst (snd (mouse_try_consume n out (m, k))))"
proof (induction n out "(m, k)" arbitrary: m k rule: mouse_try_consume.induct)
  case (3 n aux b out m k)
  obtain m' k' where st: "ps2_dispatch_mouse_byte aux b (m, k) = (m', k')" by fastforce
  with dispatch_ok [OF "3.prems", of aux b k] have "mouse_ok m'" by simp
  with "3.hyps" st show ?case by simp
qed simp_all

lemma init_ok [inv_intros]:
  assumes "mouse_ok m" "policy_ok pol" "unat w < 2 ^ 31" "unat h < 2 ^ 31"
  shows "mouse_ok (fst (mouse_init d pol a ready w h m))"
proof -
  have "mouse_ok ((mouse_set_screen pol w h m)\<lparr>cur_btn := 0, pkt_i := 0\<rparr>)"
    using set_screen_ok [OF assms] by (auto simp: mouse_ok_def)
  then show ?thesis
    by (auto simp: mouse_init_def Let_def mouse_boot_hint_refresh_def ps2_detect_wheel_mode_def mouse_ok_def)
qed

text \<open>What the pointer sources and the display do to the cursor, in any order.\<close>

inductive mouse_step :: "mouse \<Rightarrow> mouse \<Rightarrow> bool" where
  absolute: "mouse_step m (mouse_absolute_inject x y b m)"
| relative: "mouse_step m (mouse_rel_inject dx dy b m)"
| byte: "mouse_step m (fst (ps2_dispatch_mouse_byte aux b (m, k)))"
| irq: "mouse_step m (fst (snd (mouse_handle_irq d out (m, k))))"
| screen: "policy_ok p \<Longrightarrow> unat w < 2 ^ 31 \<Longrightarrow> unat h < 2 ^ 31 \<Longrightarrow> mouse_step m (mouse_set_screen p w h m)"
| init: "policy_ok p \<Longrightarrow> unat w < 2 ^ 31 \<Longrightarrow> unat h < 2 ^ 31 \<Longrightarrow> mouse_step m (fst (mouse_init d p a r w h m))"

lemma mouse_step_ok: "mouse_step m m' \<Longrightarrow> mouse_ok m \<Longrightarrow> mouse_ok m'"
  by (induction rule: mouse_step.induct)
    (auto simp: mouse_handle_irq_def intro: inject_ok set_screen_ok dispatch_ok try_consume_ok init_ok)

lemma mouse_start_ok: "mouse_ok mouse_start"
  by (simp add: mouse_ok_def mouse_start_def)

text \<open>Whatever bytes the controller delivers, whatever the other pointer drivers report and however the screen size
  changes, the cursor position stays on the screen and the packet index inside the packet buffer.\<close>

theorem mouse_on_screen:
  assumes "mouse_step\<^sup>*\<^sup>* mouse_start m"
  shows "0 \<le> cur_x m \<and> cur_x m < int (unat (scr_w m)) \<and> 0 \<le> cur_y m \<and> cur_y m < int (unat (scr_h m)) \<and>
    pkt_i m < length (pkt m)"
proof -
  have "mouse_ok m" using assms
    by (induction rule: rtranclp_induct) (auto intro: mouse_start_ok mouse_step_ok)
  then show ?thesis by (auto simp: mouse_ok_def)
qed

theorem mouse_on_screen_witness:
  "cur_x (mouse_rel_inject 100000 0 1 mouse_start) < int (unat (scr_w (mouse_rel_inject 100000 0 1 mouse_start)))"
  using mouse_on_screen [OF r_into_rtranclp [of mouse_step, OF mouse_step.relative], of 100000 0 1] by blast

subsection \<open>Packets\<close>

text \<open>The bytes a PS/2 device sends for one movement, in 3-byte or 4-byte mode.\<close>

definition encode_packet :: "nat \<Rightarrow> u8 \<Rightarrow> int \<times> int \<times> u8 \<Rightarrow> u8 list" where
  "encode_packet n wheel mv =
     (case mv of (dx, dy, b) \<Rightarrow>
        [8 OR b OR (if dx < 0 then 16 else 0) OR (if dy < 0 then 32 else 0), word_of_int dx, word_of_int dy] @
        (if n = 4 then [wheel] else []))"

definition move_ok :: "int \<times> int \<times> u8 \<Rightarrow> bool" where
  "move_ok mv \<longleftrightarrow> (case mv of (dx, dy, b) \<Rightarrow> -256 \<le> dx \<and> dx < 256 \<and> -256 \<le> dy \<and> dy < 256 \<and> b < 8)"

lemma u8_below_8:
  assumes "(b :: u8) < 8"
  shows "b \<in> {0, 1, 2, 3, 4, 5, 6, 7}"
proof -
  have "unat b < 8" using assms by (simp add: word_less_nat_alt)
  then have "b \<in> of_nat ` {..<8}" by (intro image_eqI [of _ _ "unat b"]) simp_all
  moreover have "{..<8 :: nat} = {0, 1, 2, 3, 4, 5, 6, 7}" by auto
  ultimately show ?thesis by simp
qed

lemma packet_flags:
  fixes b :: u8 and dx dy :: int
  assumes "b < 8"
  defines "f \<equiv> 8 OR b OR (if dx < 0 then 16 else 0) OR (if dy < 0 then 32 else 0)"
  shows "bit f 3" "bit f 4 \<longleftrightarrow> dx < 0" "bit f 5 \<longleftrightarrow> dy < 0" "packet_buttons f = b"
proof -
  have b: "b = take_bit 3 b"
    using assms(1) by (simp add: take_bit_eq_mod word_arith_nat_mod word_less_nat_alt flip: nat_uint_eq)
  then have high: "\<not> bit b n" if "3 \<le> n" for n
    using that by (metis bit_take_bit_iff not_le)
  show "bit f 3" "bit f 4 \<longleftrightarrow> dx < 0" "bit f 5 \<longleftrightarrow> dy < 0"
    by (simp_all add: f_def bit_or_iff high)
  have low: "bit f n = bit b n" if "n < 3" for n
    using that by (auto simp: f_def bit_or_iff less_Suc_eq numeral_3_eq_3)
  show "packet_buttons f = b"
  proof (rule bit_word_eqI)
    fix n assume "n < LENGTH(8)"
    show "bit (packet_buttons f) n = bit b n"
    proof (cases "n < 3")
      case True
      then consider "n = 0" | "n = 1" | "n = 2" by linarith
      then show ?thesis by cases (simp_all add: packet_buttons_def bit_or_iff low)
    next
      case False
      then have "\<not> bit (1 :: u8) n" "\<not> bit (2 :: u8) n" "\<not> bit (4 :: u8) n"
        using bit_exp_iff [of 1 n, where 'a = u8] bit_exp_iff [of 2 n, where 'a = u8] by (simp_all add: bit_1_iff)
      then show ?thesis using high [of n] False by (simp add: packet_buttons_def bit_or_iff)
    qed
  qed
qed

lemma packet_delta_encode:
  assumes "-256 \<le> dx" "dx < 256" "bit f n \<longleftrightarrow> dx < 0"
  shows "packet_delta f n (word_of_int dx) = dx"
proof -
  have "int (unat (word_of_int dx :: u8)) = dx mod 256" by (simp add: uint_word_of_int)
  moreover have "dx mod 256 = (if dx < 0 then dx + 256 else dx)"
  proof (cases "dx < 0")
    case True
    then have "(dx + 256) mod 256 = dx + 256" using assms(1) by (intro mod_pos_pos_trivial) simp_all
    with True show ?thesis by simp
  next
    case False
    with assms(2) show ?thesis by (simp add: mod_pos_pos_trivial)
  qed
  ultimately show ?thesis using assms(3) by (simp add: packet_delta_def)
qed


lemma dispatch_store:
  assumes "pkt_i m = 0 \<longrightarrow> bit b 3" "Suc (pkt_i m) < pkt_expect m"
  shows "ps2_dispatch_mouse_byte True b (m, k) = (m\<lparr>pkt := (pkt m)[pkt_i m := b], pkt_i := Suc (pkt_i m)\<rparr>, k)"
  using assms by (auto simp: ps2_dispatch_mouse_byte_def Let_def)

lemma dispatch_done:
  fixes m :: mouse and b :: u8
  defines "q \<equiv> (pkt m)[pkt_i m := b]"
  assumes "0 < pkt_i m" "Suc (pkt_i m) = pkt_expect m"
  shows "ps2_dispatch_mouse_byte True b (m, k) =
    ((mouse_rel_inject (packet_delta (q ! 0) 4 (q ! 1)) (packet_delta (q ! 0) 5 (q ! 2)) (packet_buttons (q ! 0)) m)
       \<lparr>pkt := q, pkt_i := 0\<rparr>, k)"
  using assms by (simp add: ps2_dispatch_mouse_byte_def Let_def mouse_rel_inject_def)

lemma rel_inject_pkt:
  "mouse_rel_inject dx dy b (m\<lparr>pkt := p\<rparr>) = (mouse_rel_inject dx dy b m)\<lparr>pkt := p\<rparr>"
  "mouse_rel_inject dx dy b (m\<lparr>pkt_i := i\<rparr>) = (mouse_rel_inject dx dy b m)\<lparr>pkt_i := i\<rparr>"
  by (simp_all add: mouse_rel_inject_def)

lemma dispatch_bytes:
  assumes "mouse_ok m" "pkt_i m = 0" "bit f 3"
  shows "\<exists>p. fold (ps2_dispatch_mouse_byte True) ([f, x, y] @ (if pkt_expect m = 4 then [w] else [])) (m, k) =
    ((mouse_rel_inject (packet_delta f 4 x) (packet_delta f 5 y) (packet_buttons f) m)\<lparr>pkt := p, pkt_i := 0\<rparr>, k) \<and>
    length p = 4"
proof -
  obtain p0 p1 p2 p3 where p: "pkt m = [p0, p1, p2, p3]"
  proof -
    have "length (pkt m) = Suc (Suc (Suc (Suc 0)))" using assms(1) by (simp add: mouse_ok_def)
    then show ?thesis using that by (auto simp: length_Suc_conv)
  qed
  let ?m1 = "m\<lparr>pkt := [f, p1, p2, p3], pkt_i := 1\<rparr>" and ?m2 = "m\<lparr>pkt := [f, x, p2, p3], pkt_i := 2\<rparr>"
    and ?m3 = "m\<lparr>pkt := [f, x, y, p3], pkt_i := 3\<rparr>"
  let ?r = "mouse_rel_inject (packet_delta f 4 x) (packet_delta f 5 y) (packet_buttons f) m"
  have "pkt_expect m = 3 \<or> pkt_expect m = 4" using assms(1) by (simp add: mouse_ok_def)
  then show ?thesis
  proof
    assume e: "pkt_expect m = 3"
    have "ps2_dispatch_mouse_byte True f (m, k) = (?m1, k)" using dispatch_store [of m f k] e assms(2,3) p by simp
    moreover have "ps2_dispatch_mouse_byte True x (?m1, k) = (?m2, k)" using dispatch_store [of ?m1 x k] e by simp
    moreover have "ps2_dispatch_mouse_byte True y (?m2, k) = (?r\<lparr>pkt := [f, x, y, p3], pkt_i := 0\<rparr>, k)"
      using dispatch_done [of ?m2 y k] e by (simp add: rel_inject_pkt)
    ultimately show ?thesis using e by (intro exI [of _ "[f, x, y, p3]"]) simp
  next
    assume e: "pkt_expect m = 4"
    have "ps2_dispatch_mouse_byte True f (m, k) = (?m1, k)" using dispatch_store [of m f k] e assms(2,3) p by simp
    moreover have "ps2_dispatch_mouse_byte True x (?m1, k) = (?m2, k)" using dispatch_store [of ?m1 x k] e by simp
    moreover have "ps2_dispatch_mouse_byte True y (?m2, k) = (?m3, k)" using dispatch_store [of ?m2 y k] e by simp
    moreover have "ps2_dispatch_mouse_byte True w (?m3, k) = (?r\<lparr>pkt := [f, x, y, w], pkt_i := 0\<rparr>, k)"
      using dispatch_done [of ?m3 w k] e by (simp add: rel_inject_pkt)
    ultimately show ?thesis using e by (intro exI [of _ "[f, x, y, w]"]) simp
  qed
qed

lemma dispatch_packet:
  assumes "mouse_ok m" "pkt_i m = 0" "move_ok (dx, dy, b)"
  shows "\<exists>p. fold (ps2_dispatch_mouse_byte True) (encode_packet (pkt_expect m) wheel (dx, dy, b)) (m, k) =
    ((mouse_rel_inject dx dy b m)\<lparr>pkt := p, pkt_i := 0\<rparr>, k) \<and> length p = 4"
proof -
  have r: "-256 \<le> dx" "dx < 256" "-256 \<le> dy" "dy < 256" "b < 8" using assms(3) by (simp_all add: move_ok_def)
  define f where "f = 8 OR b OR (if dx < 0 then 16 else 0) OR (if dy < 0 then 32 else 0)"
  note f = packet_flags [OF r(5), of dx dy, folded f_def]
  have "encode_packet (pkt_expect m) wheel (dx, dy, b) =
      [f, word_of_int dx, word_of_int dy] @ (if pkt_expect m = 4 then [wheel] else [])"
    by (simp only: encode_packet_def prod.case f_def)
  then show ?thesis
    using dispatch_bytes [OF assms(1,2) f(1), of "word_of_int dx" "word_of_int dy" wheel k]
    by (simp only: packet_delta_encode [OF r(1,2) f(2)] packet_delta_encode [OF r(3,4) f(3)] f(4))
qed

text \<open>C40: A stream of PS/2 movement packets, in 3-byte or in 4-byte (wheel) mode, moves the cursor exactly as the sequence
  of the movements they encode (signed 9-bit deltas, clamped to the screen after each), with the last buttons and one
  event per packet, and leaves the keyboard alone.\<close>

theorem ps2_stream_decodes:
  assumes "mouse_ok m" "pkt_i m = 0" "\<forall>mv\<in>set mvs. move_ok mv"
  shows "(let (m', k') = fold (ps2_dispatch_mouse_byte True) (concat (map (encode_packet (pkt_expect m) wheel) mvs)) (m, k);
             r = fold (\<lambda>(dx, dy, b). mouse_rel_inject dx dy b) mvs m
         in mouse_get_state m' = mouse_get_state r \<and> events m' = events r \<and> pkt_i m' = 0 \<and> k' = k)"
proof -
  have "\<exists>p. fold (ps2_dispatch_mouse_byte True) (concat (map (encode_packet (pkt_expect m) wheel) mvs)) (m, k) =
      ((fold (\<lambda>(dx, dy, b). mouse_rel_inject dx dy b) mvs m)\<lparr>pkt := p, pkt_i := 0\<rparr>, k)"
    using assms
  proof (induction mvs arbitrary: m)
    case Nil
    then show ?case by (intro exI [of _ "pkt m"]) (cases m, simp)
  next
    case (Cons mv mvs)
    obtain dx dy b where mv: "mv = (dx, dy, b)" by (cases mv)
    let ?m = "mouse_rel_inject dx dy b m"
    obtain p where p: "fold (ps2_dispatch_mouse_byte True) (encode_packet (pkt_expect m) wheel mv) (m, k) = (?m\<lparr>pkt := p, pkt_i := 0\<rparr>, k)"
      "length p = 4" using dispatch_packet [OF Cons.prems(1,2), of dx dy b wheel k] Cons.prems(3) by (auto simp: mv)
    have ok: "mouse_ok (?m\<lparr>pkt := p, pkt_i := 0\<rparr>)" using inject_ok(1) [OF Cons.prems(1), of dx dy b] p(2) by (simp add: mouse_ok_def)
    have i: "pkt_i (?m\<lparr>pkt := p, pkt_i := 0\<rparr>) = 0" "pkt_expect (?m\<lparr>pkt := p, pkt_i := 0\<rparr>) = pkt_expect m"
      using Cons.prems(2) by (simp_all add: mouse_rel_inject_def)
    have pkt: "fold (\<lambda>(dx, dy, b). mouse_rel_inject dx dy b) mvs (m'\<lparr>pkt := p, pkt_i := 0\<rparr>) =
        (fold (\<lambda>(dx, dy, b). mouse_rel_inject dx dy b) mvs m')\<lparr>pkt := p, pkt_i := 0\<rparr>" for m'
      by (induction mvs arbitrary: m') (auto simp: rel_inject_pkt)
    from Cons.IH [OF ok i(1)] Cons.prems(3) obtain p' where
      "fold (ps2_dispatch_mouse_byte True) (concat (map (encode_packet (pkt_expect m) wheel) mvs)) (?m\<lparr>pkt := p, pkt_i := 0\<rparr>, k) =
        ((fold (\<lambda>(dx, dy, b). mouse_rel_inject dx dy b) mvs ?m)\<lparr>pkt := p', pkt_i := 0\<rparr>, k)"
      unfolding i(2) pkt by auto
    then show ?case using p(1) by (intro exI [of _ p']) (simp add: mv)
  qed
  then show ?thesis by (auto simp: mouse_get_state_def)
qed

theorem ps2_stream_decodes_witness:
  "let (m', k') = fold (ps2_dispatch_mouse_byte True) (concat (map (encode_packet (pkt_expect mouse_start) 0) [(5, -3, 1), (-2, 0, 0)]))
         (mouse_start, empty_kbd)
   in mouse_get_state m' = (3, 3, 0) \<and> k' = empty_kbd"
  using ps2_stream_decodes [OF mouse_start_ok, of "[(5, -3, 1), (-2, 0, 0)]" 0 empty_kbd]
  by (simp add: mouse_start_def move_ok_def mouse_get_state_def mouse_rel_inject_def clamp_def split: prod.splits)


text \<open>A keyboard byte the mouse driver reads from the shared controller reaches the keyboard only when its bit 3 is
  clear, so the key press of A (scan code 1E) is lost there.\<close>

lemma scan_code_lost:
  "snd (ps2_dispatch_mouse_byte False 0x1E (m, k)) = k" "pending (keyboard_ps2_handle_byte 0x1E empty_kbd) = ''a''"
proof -
  have "bit (0x1E :: u8) 3" by simp
  then show "snd (ps2_dispatch_mouse_byte False 0x1E (m, k)) = k" by (simp add: ps2_dispatch_mouse_byte_def Let_def)
  show "pending (keyboard_ps2_handle_byte 0x1E empty_kbd) = ''a''" by code_simp
qed

subsection \<open>Reports and start-up\<close>

lemma packet_buttons_bound: "packet_buttons f < 8"
  by (simp add: packet_buttons_def)

lemma sint_u8_bounds: "-128 \<le> sint (b :: u8)" "sint b \<le> 127"
  using sint_greater_eq [of b] sint_less [of b] by simp_all

lemma le16_bounds: "-32768 \<le> le16 p i" "le16 p i \<le> 32767"
  unfolding le16_def
  using sint_greater_eq [of "ucast (p ! i) OR push_bit 8 (ucast (p ! (i + 1))) :: u16"]
    sint_less [of "ucast (p ! i) OR push_bit 8 (ucast (p ! (i + 1))) :: u16"] by simp_all

text \<open>A HID report of any length and content is either ignored or decoded to deltas that fit 16 bits and a set of the
  three buttons; a report of fewer than three bytes is always ignored.\<close>

theorem hid_report_bounds:
  assumes "hid_boot_decode_mouse_report p = Some (dx, dy, b)"
  shows "3 \<le> length p \<and> -32768 \<le> dx \<and> dx \<le> 32767 \<and> -32768 \<le> dy \<and> dy \<le> 32767 \<and> b < 8"
proof -
  have boot: "-32768 \<le> dx \<and> dx \<le> 32767 \<and> -32768 \<le> dy \<and> dy \<le> 32767 \<and> b < 8"
    if "hid_boot_form p ofs = Some (dx, dy, b)" for ofs
    using that sint_u8_bounds [of "p ! (ofs + 1)"] sint_u8_bounds [of "p ! (ofs + 2)"] packet_buttons_bound
    by (auto simp: hid_boot_form_def Let_def split: if_splits)
  have word: "-32768 \<le> dx \<and> dx \<le> 32767 \<and> -32768 \<le> dy \<and> dy \<le> 32767 \<and> b < 8"
    if "hid_word_form p i c = Some (dx, dy, b)" for i c
    using that le16_bounds [of p] packet_buttons_bound
    by (auto simp: hid_word_form_def Let_def split: if_splits)
  show ?thesis
    using assms boot word
    by (auto simp: hid_boot_decode_mouse_report_def Let_def not_less split: if_splits option.splits)
qed

theorem hid_report_bounds_witness: "3 \<le> length [0x18 :: u8, 0xFF, 0] \<and> (-257 :: int) \<le> 32767"
proof -
  have "hid_boot_decode_mouse_report [0x18, 0xFF, 0] = Some (-257, 0, 0)" by code_simp
  from hid_report_bounds [OF this] show ?thesis by simp
qed

text \<open>With a named pointer the start-up tries that back end; only PS/2 is left after a missing tablet, although the
  message announces I2C and USB too.\<close>

lemma virtio_falls_back_to_ps2: "mouse_init_attempts POINTER_VIRTIO False i2c usb = [TryVirtio, InitPs2]"
  by (simp add: mouse_init_attempts_def Let_def)

lemma boot_lines_fit:
  "length (boot_l1 (mouse_boot_hint_refresh d pol m)) < 120 \<and> length (boot_l2 (mouse_boot_hint_refresh d pol m)) < 160"
proof -
  have app: "length dst < cap \<Longrightarrow> length (boot_sapp cap dst src) < cap" for cap dst src
    by (simp add: boot_sapp_def)
  have cpy: "0 < cap \<Longrightarrow> length (boot_scopy cap src) < cap" for cap src by (simp add: boot_scopy_def)
  show ?thesis unfolding mouse_boot_hint_refresh_def Let_def by (auto intro!: app cpy)
qed

end
