(* ===== verification/Display.thy ===== *)
theory Display
  imports Parallel Mouse
begin

text \<open>
  The display back end, \<^verbatim>\<open>src/gpu/display.c\<close>: the software back buffer, the scan-out buffer the boot loader gives, and
  the operations that publish the back buffer whole, by rectangle and by damage list.  Both buffers are seen as blit
  destinations of the same size with their own strides.  Publishing is shown to make the scan-out equal to the back buffer
  on exactly the published pixels.  Interrupt masking and the store fence have no counterpart in the sequential model.
\<close>

subsection \<open>State\<close>

text \<open>The first framebuffer of the boot loader's response, with the pixels at its address.\<close>

record framebuffer =
  fb_width :: u64
  fb_height :: u64
  fb_pitch :: u64
  fb_pixels :: "u32 list"

text \<open>\<open>dsp_on\<close> says that the three pointers of \<^verbatim>\<open>struct display\<close> are set (\<^verbatim>\<open>pixels\<close> is then \<^verbatim>\<open>compos_buf\<close>).\<close>

record display =
  compos_buf :: "u32 list option"
  hw_pixels :: "u32 list option"
  compos_stride :: u32
  hw_stride :: u32
  dsp_on :: bool
  dsp_width :: u32
  dsp_height :: u32
  dsp_pitch :: u32

definition back_buf :: "display \<Rightarrow> blit_dst" where
  "back_buf d = \<lparr>dpix = compos_buf d, dwidth = dsp_width d, dheight = dsp_height d, dstride = compos_stride d\<rparr>"

definition front_buf :: "display \<Rightarrow> blit_dst" where
  "front_buf d = \<lparr>dpix = hw_pixels d, dwidth = dsp_width d, dheight = dsp_height d, dstride = hw_stride d\<rparr>"

subsection \<open>Operations\<close>

text \<open>\<^verbatim>\<open>rep movsq\<close> moves two pixels at a time, then the odd last one.\<close>

fun row_copy_u32 :: "u32 list \<Rightarrow> u32 list \<Rightarrow> u32 list" where
  "row_copy_u32 (_ # _ # d) (a # b # s) = a # b # row_copy_u32 d s"
| "row_copy_u32 [_] (a # s) = [a]"
| "row_copy_u32 d s = d"

definition limine_present :: "display \<Rightarrow> display" where
  "limine_present d =
     (case (compos_buf d, hw_pixels d) of
        (Some sp, Some hp) \<Rightarrow>
          d\<lparr>hw_pixels := Some (row_loop
              (\<lambda>y row. row_copy_u32 row (get_row (y * unat (compos_stride d)) (unat (dsp_width d)) sp))
              (unat (dsp_width d)) (unat (dsp_height d)) 0 (unat (hw_stride d)) hp)\<rparr>
      | _ \<Rightarrow> d)"

definition limine_clamp_rect :: "display \<Rightarrow> rect \<Rightarrow> (int \<times> int \<times> int \<times> int) option" where
  "limine_clamp_rect d r =
     (if compos_buf d = None \<or> hw_pixels d = None then None
      else if rw r \<le> 0 \<or> rh r \<le> 0 then None
      else let x0 = (if rx r > 0 then rx r else 0);
               y0 = (if ry r > 0 then ry r else 0);
               x1 = (if rx r + rw r < sint (dsp_width d) then rx r + rw r else sint (dsp_width d));
               y1 = (if ry r + rh r < sint (dsp_height d) then ry r + rh r else sint (dsp_height d))
           in if x1 \<le> x0 \<or> y1 \<le> y0 then None else Some (x0, y0, x1, y1))"

definition limine_present_rect_core :: "int \<Rightarrow> int \<Rightarrow> int \<Rightarrow> int \<Rightarrow> display \<Rightarrow> display" where
  "limine_present_rect_core x0 y0 x1 y1 d =
     (case (compos_buf d, hw_pixels d) of
        (Some sp, Some hp) \<Rightarrow>
          d\<lparr>hw_pixels := Some (fold (\<lambda>i hp.
              let y = y0 + int i; n = nat (x1 - x0); s = base_at (compos_stride d) y x0; h = base_at (hw_stride d) y x0
              in put_row h (row_copy_u32 (get_row h n hp) (get_row s n sp)) hp) [0..<nat (y1 - y0)] hp)\<rparr>
      | _ \<Rightarrow> d)"

definition limine_present_rect :: "rect \<Rightarrow> display \<Rightarrow> display" where
  "limine_present_rect r d =
     (case limine_clamp_rect d r of
        None \<Rightarrow> d
      | Some (x0, y0, x1, y1) \<Rightarrow> limine_present_rect_core x0 y0 x1 y1 d)"

definition display_present_damage :: "damage \<Rightarrow> display \<Rightarrow> display" where
  "display_present_damage dmg d =
     (if compos_buf d = None \<or> hw_pixels d = None then d else fold limine_present_rect dmg d)"

definition display_present :: "display \<Rightarrow> display" where
  "display_present d = (if dsp_on d then limine_present d else d)"

definition display_present_rect :: "rect \<Rightarrow> display \<Rightarrow> display" where
  "display_present_rect r d =
     (if rw r \<le> 0 \<or> rh r \<le> 0 then d else if dsp_on d then limine_present_rect r d else d)"

text \<open>The compositor size: the policy's when it was read from a file, never more than the scan-out.\<close>

definition display_size :: "display_policy \<Rightarrow> u32 \<Rightarrow> u32 \<Rightarrow> u32 \<times> u32" where
  "display_size pol fbw fbh =
     (if pol_from_file pol
      then let dw = pol_width pol; dh = pol_height pol
           in if dw > fbw \<or> dh > fbh then (if dw > fbw then fbw else dw, if dh > fbh then fbh else dh) else (dw, dh)
      else (fbw, fbh))"

definition display_init ::
  "nat \<Rightarrow> framebuffer option \<Rightarrow> display_policy \<Rightarrow> display \<times> mouse \<times> heap \<Rightarrow> (display \<times> mouse \<times> heap) result option" where
  "display_init root resp pol st =
     (case st of (d, m, hp) \<Rightarrow>
        (case resp of
           None \<Rightarrow> Some (Inr (d\<lparr>dsp_on := False\<rparr>, m, hp))
         | Some fb \<Rightarrow>
             let (w, h) = display_size pol (ucast (fb_width fb)) (ucast (fb_height fb));
                 n = wrap64 (unat w * unat h)
             in case kmalloc root (wrap64 (n * 4)) hp of
                  None \<Rightarrow> None
                | Some (Inl e) \<Rightarrow> Some (Inl e)
                | Some (Inr (p, hp')) \<Rightarrow>
                    if p = 0 then Some (Inl ''display: compositor buffer kmalloc failed'')
                    else Some (Inr
                      (d\<lparr>compos_buf := Some (replicate n 0), hw_pixels := Some (fb_pixels fb), compos_stride := w,
                         hw_stride := ucast (fb_pitch fb) div 4, dsp_on := True, dsp_width := w, dsp_height := h,
                         dsp_pitch := w * 4\<rparr>,
                       if w \<noteq> 0 \<and> h \<noteq> 0 then mouse_set_screen pol w h m else m, hp'))))"

text \<open>The next frame boundary after \<open>now\<close>: \<^verbatim>\<open>while (now >= vsync_next_tsc) vsync_next_tsc += per\<close>, as the least
  such boundary (for a period of at least 2000 ticks the 64-bit counter does not wrap in the machine's lifetime).\<close>

function vsync_advance :: "nat \<Rightarrow> nat \<Rightarrow> nat \<Rightarrow> nat" where
  "vsync_advance per now t = (if t \<le> now \<and> 0 < per then vsync_advance per now (t + per) else t)"
  by pat_completeness auto
termination
  by (relation "measure (\<lambda>(per, now, t). Suc now - t)") auto

declare vsync_advance.simps [simp del]

definition vsync_period :: "display_policy \<Rightarrow> nat \<Rightarrow> nat" where
  "vsync_period pol tsc_hz =
     (let hz = pol_refresh_hz pol; hz = (if hz < 30 then 30 else hz); hz = (if hz > 360 then 360 else hz);
          per = tsc_hz div unat hz
      in if per < 2000 then 2000 else per)"

text \<open>\<^verbatim>\<open>display_vsync_wait_after_present\<close>: \<open>now\<close> and \<open>after\<close> are the time stamps before and after the waiting loop,
  which returns at some \<open>after\<close> that has reached the boundary; the result is the boundary waited for and the next one.\<close>

definition display_vsync_wait_after_present :: "display_policy \<Rightarrow> nat \<Rightarrow> nat \<Rightarrow> nat \<Rightarrow> nat \<Rightarrow> (nat \<times> nat) option" where
  "display_vsync_wait_after_present pol tsc_hz now after next =
     (if \<not> pol_vsync pol \<or> tsc_hz = 0 then None
      else let per = vsync_period pol tsc_hz;
               t = vsync_advance per now (if next = 0 then now + per else next)
           in Some (t, vsync_advance per after (t + per)))"


subsection \<open>What is published\<close>

definition disp_ok :: "display \<Rightarrow> bool" where
  "disp_ok d \<longleftrightarrow> dst_ok (front_buf d) \<and> dst_ok (back_buf d) \<and> compos_stride d = dsp_width d \<and> dsp_on d"

text \<open>The scan-out shows the back buffer on \<open>R\<close> and what it showed before elsewhere; nothing else changes.\<close>

definition published :: "display \<Rightarrow> (int \<times> int) set \<Rightarrow> display \<Rightarrow> bool" where
  "published d R d' \<longleftrightarrow>
     paints (front_buf d) R (\<lambda>p c. colour (back_buf d) p) (front_buf d') \<and> d' = d\<lparr>hw_pixels := hw_pixels d'\<rparr>"

lemma row_copy_u32_eq: "length d = length s \<Longrightarrow> row_copy_u32 d s = s"
  by (induction d s rule: row_copy_u32.induct) auto

lemma buf_dims [simp]:
  "dwidth (front_buf d) = dsp_width d" "dheight (front_buf d) = dsp_height d" "dstride (front_buf d) = hw_stride d"
  "dpix (front_buf d) = hw_pixels d" "dwidth (back_buf d) = dsp_width d" "dheight (back_buf d) = dsp_height d"
  "dstride (back_buf d) = compos_stride d" "dpix (back_buf d) = compos_buf d"
  by (simp_all add: front_buf_def back_buf_def)

lemma back_hw [simp]: "back_buf (d\<lparr>hw_pixels := x\<rparr>) = back_buf d"
  by (simp add: back_buf_def)

lemma front_hw: "front_buf (d\<lparr>hw_pixels := x\<rparr>) = (front_buf d)\<lparr>dpix := x\<rparr>"
  by (simp add: front_buf_def)

lemma screen_cells_buf: "screen_cells (front_buf d) = screen_cells (back_buf d)"
  by (simp add: screen_cells_def)

lemma publishedD:
  assumes "published d R d'"
  shows "dst_ok (front_buf d')" "back_buf d' = back_buf d" "screen_cells (front_buf d') = screen_cells (front_buf d)"
    "compos_stride d' = compos_stride d" "dsp_width d' = dsp_width d" "dsp_on d' = dsp_on d" "dsp_height d' = dsp_height d"
    "compos_buf d' = compos_buf d"
proof -
  have e: "d' = d\<lparr>hw_pixels := hw_pixels d'\<rparr>" and p: "paints (front_buf d) R (\<lambda>p c. colour (back_buf d) p) (front_buf d')"
    using assms by (simp_all add: published_def)
  show "dst_ok (front_buf d')" by (rule paints_ok [OF p])
  show "screen_cells (front_buf d') = screen_cells (front_buf d)" by (rule paints_screen [OF p])
  show "back_buf d' = back_buf d" "compos_stride d' = compos_stride d" "dsp_width d' = dsp_width d"
    "dsp_on d' = dsp_on d" "dsp_height d' = dsp_height d" "compos_buf d' = compos_buf d"
    by (subst e, simp)+
qed

lemma published_ok [inv_intros]: "published d R d' \<Longrightarrow> disp_ok d \<Longrightarrow> disp_ok d'"
  unfolding disp_ok_def by (simp only: publishedD(1,2,4,5,6) [of d R d'])

lemma published_refl: "disp_ok d \<Longrightarrow> screen_cells (front_buf d) \<inter> R = {} \<Longrightarrow> published d R d"
  by (simp add: published_def paints_refl disp_ok_def)

lemma colour_rgb [simp]: "rgb (colour d p) = colour d p"
  by (simp add: colour_def)

lemma published_at:
  assumes "published d R d'" "p \<in> screen_cells (front_buf d)"
  shows "colour (front_buf d') p = (if p \<in> R then colour (back_buf d) p else colour (front_buf d) p)"
  using paints_at [OF _ assms(2)] assms(1) unfolding published_def by fastforce

lemma published_Un:
  assumes "published d R d1" "published d1 S d2"
  shows "published d (R \<union> S) d2"
proof -
  note one = publishedD [OF assms(1)] and two = publishedD [OF assms(2)]
  have "colour (front_buf d2) p = (if p \<in> R \<union> S then rgb (colour (back_buf d) p) else colour (front_buf d) p)"
    if "p \<in> screen_cells (front_buf d)" for p
    using published_at [OF assms(1) that] published_at [OF assms(2), of p] that one(2,3) by auto
  moreover have "d2 = d\<lparr>hw_pixels := hw_pixels d2\<rparr>"
  proof -
    have "d1 = d\<lparr>hw_pixels := hw_pixels d1\<rparr>" "d2 = d1\<lparr>hw_pixels := hw_pixels d2\<rparr>"
      using assms by (simp_all add: published_def)
    then show ?thesis by (metis display.surjective display.update_convs(2))
  qed
  ultimately show ?thesis
    using assms by (simp add: published_def paints_def)
qed

text \<open>Rows of the back buffer copied into the scan-out, at the same place of both buffers.\<close>

lemma publish_rows:
  assumes ok: "disp_ok d" and sp: "compos_buf d = Some sp" and hp: "hw_pixels d = Some hp"
    and box: "0 \<le> x0" "0 \<le> y0" "0 < w" "0 < h" "x0 + w \<le> sint (dsp_width d)" "y0 + h \<le> sint (dsp_height d)"
    and src: "\<And>y. y < nat h \<Longrightarrow> s y = nat (y0 + int y) * unat (compos_stride d) + nat x0"
  shows "published d (cells (rect_make x0 y0 w h))
    (d\<lparr>hw_pixels := Some (row_loop (\<lambda>y row. row_copy_u32 row (get_row (s y) (nat w) sp)) (nat w) (nat h)
        (base_at (hw_stride d) y0 x0) (unat (hw_stride d)) hp)\<rparr>)"
proof -
  let ?g = "\<lambda>y row. row_copy_u32 row (get_row (s y) (nat w) sp)"
  let ?st = "unat (compos_stride d)" and ?W = "unat (dsp_width d)" and ?H = "unat (dsp_height d)"
  have f: "dst_ok (front_buf d)" and b: "dst_ok (back_buf d)" using ok by (simp_all add: disp_ok_def)
  have dims: "sint (dsp_width d) = int ?W" "sint (dsp_height d) = int ?H"
    using b by (simp_all add: dst_ok_def sint_small)
  have st: "?W \<le> ?st" "?H * ?st \<le> length sp" using b sp by (simp_all add: dst_ok_def)
  have nb: "nat x0 + nat w \<le> ?W" "nat y0 + nat h \<le> ?H" using box dims by linarith+
  have fits: "s y + nat w \<le> length sp" if "y < nat h" for y
  proof -
    have "s y + nat w \<le> nat (y0 + int y) * ?st + ?st" using nb st by (simp add: src [OF that])
    also have "\<dots> = Suc (nat y0 + y) * ?st" using box by (simp add: nat_add_distrib)
    also have "\<dots> \<le> ?H * ?st" using nb that by (intro mult_le_mono1) linarith
    finally show ?thesis using st by simp
  qed
  have row: "length (get_row (s y) (nat w) sp) = nat w" if "y < nat h" for y
    using fits [OF that] by (simp add: length_get_row)
  have px: "get_row (s y) (nat w) sp ! x = sp ! (nat (y0 + int y) * ?st + nat (x0 + int x))"
    if "y < nat h" "x < nat w" for x y
    using fits [OF that(1)] that(2) box by (simp add: nth_get_row src [OF that(1)] nat_add_distrib add.assoc)
  have "paints (front_buf d) (cells (rect_make x0 y0 w h)) (\<lambda>p c. colour (back_buf d) p)
    ((front_buf d)\<lparr>dpix := Some (row_loop ?g (nat w) (nat h) (base_at (dstride (front_buf d)) y0 x0)
        (unat (dstride (front_buf d))) hp)\<rparr>)"
  proof (rule row_loop_paints [OF f])
    fix y x and r :: "u32 list" assume y: "y < nat h" and r: "length r = nat w"
    have cp: "row_copy_u32 r (get_row (s y) (nat w) sp) = get_row (s y) (nat w) sp"
      using r row [OF y] by (intro row_copy_u32_eq) simp
    show "length (?g y r) = nat w" by (simp add: cp row [OF y])
    assume x: "x < nat w"
    show "rgb (?g y r ! x) = rgb (colour (back_buf d) (x0 + int x, y0 + int y))"
      using x y by (simp add: cp px colour_def sp)
  qed (use hp box in simp_all)
  then show ?thesis by (simp add: published_def front_hw)
qed


lemma clamp_rect_Some:
  assumes "limine_clamp_rect d r = Some (x0, y0, x1, y1)"
  shows "0 \<le> x0" "0 \<le> y0" "x0 < x1" "y0 < y1" "x1 \<le> sint (dsp_width d)" "y1 \<le> sint (dsp_height d)"
    "cells (rect_make x0 y0 (x1 - x0) (y1 - y0)) = cells r \<inter> screen_cells (front_buf d)"
proof -
  show "0 \<le> x0" "0 \<le> y0" "x0 < x1" "y0 < y1" "x1 \<le> sint (dsp_width d)" "y1 \<le> sint (dsp_height d)"
    using assms by (auto simp: limine_clamp_rect_def Let_def split: if_splits)
  show "cells (rect_make x0 y0 (x1 - x0) (y1 - y0)) = cells r \<inter> screen_cells (front_buf d)"
    using assms by (auto simp: limine_clamp_rect_def Let_def screen_cells_def cells_def rect_make_def split: if_splits)
qed

lemma clamp_rect_None:
  assumes "limine_clamp_rect d r = None" "compos_buf d \<noteq> None" "hw_pixels d \<noteq> None"
  shows "screen_cells (front_buf d) \<inter> cells r = {}"
  using assms by (auto simp: limine_clamp_rect_def Let_def screen_cells_def cells_def rect_make_def split: if_splits)

lemma disp_okD:
  assumes "disp_ok d"
  obtains sp hp where "compos_buf d = Some sp" "hw_pixels d = Some hp"
  using assms by (auto simp: disp_ok_def dst_ok_def split: option.splits)

lemma base_at_row:
  assumes "dst_ok b" "0 \<le> x" "0 \<le> y" "x < int (unat (dwidth b))" "y < int (unat (dheight b))"
  shows "base_at (dstride b) y x = nat y * unat (dstride b) + nat x"
proof -
  let ?st = "unat (dstride b)"
  have "nat x < ?st" "nat y < unat (dheight b)" "unat (dheight b) * ?st < 2 ^ 32"
    using assms by (simp_all add: dst_ok_def nat_less_iff del: of_nat_unat)
  then have "nat y * ?st + nat x < Suc (nat y) * ?st" by simp
  also have "\<dots> \<le> unat (dheight b) * ?st" using \<open>nat y < _\<close> by (intro mult_le_mono1) simp
  finally show ?thesis using \<open>_ * ?st < 2 ^ 32\<close> by (simp add: base_at_def)
qed

lemma present_rect_published:
  assumes ok: "disp_ok d"
  shows "published d (cells r) (limine_present_rect r d)"
proof (cases "limine_clamp_rect d r")
  case None
  from disp_okD [OF ok] have "compos_buf d \<noteq> None" "hw_pixels d \<noteq> None" by auto
  with None ok show ?thesis
    by (simp add: limine_present_rect_def published_refl clamp_rect_None)
next
  case (Some q)
  obtain x0 y0 x1 y1 where q: "q = (x0, y0, x1, y1)" by (cases q)
  note c = clamp_rect_Some [OF Some [unfolded q]]
  obtain sp hp where b: "compos_buf d = Some sp" "hw_pixels d = Some hp" using ok by (rule disp_okD)
  have oks: "dst_ok (front_buf d)" "dst_ok (back_buf d)" using ok by (simp_all add: disp_ok_def)
  have dims: "sint (dsp_width d) = int (unat (dsp_width d))" "sint (dsp_height d) = int (unat (dsp_height d))"
    using oks(2) by (simp_all add: dst_ok_def sint_small)
  let ?w = "x1 - x0" and ?h = "y1 - y0"
  let ?s = "\<lambda>y. base_at (compos_stride d) (y0 + int y) x0"
  have in_range: "0 \<le> y0 + int y" "y0 + int y < int (unat (dsp_height d))" "x0 < int (unat (dsp_width d))" if "y < nat ?h" for y
    using that c dims by linarith+
  have hw: "base_at (hw_stride d) (y0 + int y) x0 = base_at (hw_stride d) y0 x0 + y * unat (hw_stride d)" if "y < nat ?h" for y
    using base_at_row [OF oks(1), of x0 "y0 + int y"] base_at_row [OF oks(1), of x0 y0] in_range [OF that] c(1,2,4) in_range [of 0]
    by (simp add: nat_add_distrib algebra_simps del: of_nat_unat)
  have src: "?s y = nat (y0 + int y) * unat (compos_stride d) + nat x0" if "y < nat ?h" for y
    using base_at_row [OF oks(2), of x0 "y0 + int y"] in_range [OF that] c(1) by (simp del: of_nat_unat)
  have "fold (\<lambda>i hp. let y = y0 + int i; n = nat ?w; s = base_at (compos_stride d) y x0; h = base_at (hw_stride d) y x0
              in put_row h (row_copy_u32 (get_row h n hp) (get_row s n sp)) hp) [0..<nat ?h] hp =
      row_loop (\<lambda>y row. row_copy_u32 row (get_row (?s y) (nat ?w) sp)) (nat ?w) (nat ?h)
        (base_at (hw_stride d) y0 x0) (unat (hw_stride d)) hp"
    unfolding row_loop_def by (rule fold_cong) (simp_all add: hw Let_def)
  then have "limine_present_rect r d =
      d\<lparr>hw_pixels := Some (row_loop (\<lambda>y row. row_copy_u32 row (get_row (?s y) (nat ?w) sp)) (nat ?w) (nat ?h)
        (base_at (hw_stride d) y0 x0) (unat (hw_stride d)) hp)\<rparr>"
    by (simp add: limine_present_rect_def limine_present_rect_core_def Some q b)
  moreover have "published d (cells (rect_make x0 y0 ?w ?h))
      (d\<lparr>hw_pixels := Some (row_loop (\<lambda>y row. row_copy_u32 row (get_row (?s y) (nat ?w) sp)) (nat ?w) (nat ?h)
        (base_at (hw_stride d) y0 x0) (unat (hw_stride d)) hp)\<rparr>)"
    using c by (intro publish_rows [OF ok b]) (simp_all add: src)
  ultimately have "published d (cells r \<inter> screen_cells (front_buf d)) (limine_present_rect r d)" by (simp only: c(7))
  then show ?thesis by (auto simp: published_def paints_def)
qed


lemma present_damage_published:
  assumes "disp_ok d"
  shows "published d (covered dmg) (display_present_damage dmg d)"
proof -
  have "published d (covered dmg) (fold limine_present_rect dmg d)" using assms
  proof (induction dmg arbitrary: d)
    case Nil
    then show ?case by (simp add: published_refl)
  next
    case (Cons r dmg)
    note one = present_rect_published [OF Cons.prems, of r]
    from published_Un [OF one Cons.IH [OF published_ok [OF one Cons.prems]]] show ?case by simp
  qed
  moreover have "\<not> (compos_buf d = None \<or> hw_pixels d = None)" using disp_okD [OF assms] by auto
  ultimately show ?thesis unfolding display_present_damage_def by (simp only: if_False)
qed

lemma present_published:
  assumes ok: "disp_ok d" and pos: "0 < unat (dsp_width d)" "0 < unat (dsp_height d)"
  shows "published d (screen_cells (front_buf d)) (display_present d)"
proof -
  obtain sp hp where b: "compos_buf d = Some sp" "hw_pixels d = Some hp" using ok by (rule disp_okD)
  have bk: "dst_ok (back_buf d)" "dsp_on d" using ok by (simp_all add: disp_ok_def)
  have dims: "sint (dsp_width d) = int (unat (dsp_width d))" "sint (dsp_height d) = int (unat (dsp_height d))"
    using bk by (simp_all add: dst_ok_def sint_small)
  have "published d (cells (rect_make 0 0 (sint (dsp_width d)) (sint (dsp_height d))))
      (d\<lparr>hw_pixels := Some (row_loop (\<lambda>y row. row_copy_u32 row
          (get_row (y * unat (compos_stride d)) (nat (sint (dsp_width d))) sp)) (nat (sint (dsp_width d)))
          (nat (sint (dsp_height d))) (base_at (hw_stride d) 0 0) (unat (hw_stride d)) hp)\<rparr>)"
    using pos dims by (intro publish_rows [OF ok b]) (simp_all del: of_nat_unat)
  moreover have "base_at (hw_stride d) 0 0 = 0" by (simp add: base_at_def)
  ultimately show ?thesis
    using bk(2) b dims by (simp add: display_present_def limine_present_def screen_cells_def del: of_nat_unat)
qed

text \<open>Publishing a damage list under one interrupt mask copies, for every on-screen pixel of every rectangle (also
  rectangles that stick out of the screen or are empty), the back buffer's colour to the scan-out, whatever the two
  strides are, and changes no other scan-out pixel.\<close>

theorem present_damage_correct:
  assumes "disp_ok d" "p \<in> screen_cells (front_buf d)"
  shows "colour (front_buf (display_present_damage dmg d)) p =
    (if p \<in> covered dmg then colour (back_buf d) p else colour (front_buf d) p)"
  by (rule published_at [OF present_damage_published [OF assms(1)] assms(2)])

definition example_display :: display where
  "example_display =
     \<lparr>compos_buf = Some [1, 2, 3, 4], hw_pixels = Some (replicate 6 0), compos_stride = 2, hw_stride = 3, dsp_on = True,
      dsp_width = 2, dsp_height = 2, dsp_pitch = 8\<rparr>"

lemma example_display_ok: "disp_ok example_display"
  by (simp add: disp_ok_def dst_ok_def front_buf_def back_buf_def example_display_def)

theorem present_damage_correct_witness:
  "colour (front_buf (display_present_damage [rect_make (-5) 1 100 3] example_display)) (1, 1) = 4"
proof -
  have "(1, 1) \<in> screen_cells (front_buf example_display)"
    by (simp add: screen_cells_def example_display_def)
  from present_damage_correct [OF example_display_ok this, of "[rect_make (-5) 1 100 3]"] show ?thesis
    by (simp add: colour_def back_buf_def example_display_def take_bit_eq_mask mask_eq_exp_minus_1)
qed

text \<open>Initialisation: on a framebuffer that is as the boot protocol describes it (rows of at least \<^verbatim>\<open>width\<close> pixels, all
  in memory, fewer than \<open>2 ^ 32\<close> pixels), the display is well formed, its size is the policy's clamped to the scan-out, and the
  cursor is on the screen.\<close>

definition fb_ok :: "framebuffer \<Rightarrow> bool" where
  "fb_ok fb \<longleftrightarrow>
     (let w = unat (ucast (fb_width fb) :: u32); h = unat (ucast (fb_height fb) :: u32);
          st = unat (ucast (fb_pitch fb) div 4 :: u32)
      in 0 < w \<and> w < 2 ^ 31 \<and> 0 < h \<and> h < 2 ^ 31 \<and> w \<le> st \<and> h * st < 2 ^ 32 \<and> h * st \<le> length (fb_pixels fb))"

lemma display_size_bounds:
  assumes "policy_ok pol" "display_size pol fbw fbh = (w, h)" "0 < fbw" "0 < fbh"
  shows "0 < w" "0 < h" "w \<le> fbw" "h \<le> fbh"
proof -
  have "0 < pol_width pol" "0 < pol_height pol" using assms(1) by (auto simp: policy_ok_def word_less_nat_alt)
  then show "0 < w" "0 < h" "w \<le> fbw" "h \<le> fbh"
    using assms(2-4) by (auto simp: display_size_def Let_def split: if_splits)
qed

lemma display_init_ok:
  assumes "fb_ok fb" "policy_ok pol" "mouse_ok m" "display_init root (Some fb) pol (d, m, hp) = Some (Inr (d', m', hp'))"
  shows "disp_ok d' \<and> mouse_ok m' \<and> 0 < dsp_width d' \<and> 0 < dsp_height d' \<and>
    (dsp_width d', dsp_height d') = display_size pol (ucast (fb_width fb)) (ucast (fb_height fb)) \<and>
    scr_w m' = dsp_width d' \<and> scr_h m' = dsp_height d'"
proof -
  let ?W = "ucast (fb_width fb) :: u32" and ?H = "ucast (fb_height fb) :: u32" and ?st = "ucast (fb_pitch fb) div 4 :: u32"
  obtain w h where wh: "display_size pol ?W ?H = (w, h)" by fastforce
  have fb: "0 < ?W" "0 < ?H" "unat ?W < 2 ^ 31" "unat ?H < 2 ^ 31" "unat ?W \<le> unat ?st" "unat ?H * unat ?st < 2 ^ 32"
    "unat ?H * unat ?st \<le> length (fb_pixels fb)"
    using assms(1) by (simp_all add: fb_ok_def Let_def word_less_nat_alt)
  note b = display_size_bounds [OF assms(2) wh fb(1,2)]
  have le: "unat w \<le> unat ?W" "unat h \<le> unat ?H" using b by (simp_all add: word_le_nat_alt)
  have lt: "unat w < 2 ^ 31" "unat h < 2 ^ 31" using le fb(3,4) by linarith+
  have hst: "unat h * unat ?st \<le> unat ?H * unat ?st" using le(2) by (rule mult_le_mono1)
  have hw: "unat h * unat w \<le> unat ?H * unat ?st" using le fb(5) by (intro mult_le_mono) auto
  then have n: "wrap64 (unat w * unat h) = unat h * unat w" using fb(6) by (simp add: mult.commute)
  have d': "d' = d\<lparr>compos_buf := Some (replicate (unat h * unat w) 0), hw_pixels := Some (fb_pixels fb), compos_stride := w,
      hw_stride := ?st, dsp_on := True, dsp_width := w, dsp_height := h, dsp_pitch := w * 4\<rparr>"
    and m': "m' = mouse_set_screen pol w h m"
    using assms(4) b(1,2) by (auto simp: display_init_def wh n Let_def split: option.splits sum.splits if_splits)
  have "disp_ok d'"
  proof -
    have "unat h * unat ?st \<le> length (fb_pixels fb)" "unat h * unat ?st < 2 ^ 32" "unat h * unat w < 2 ^ 32" "unat w \<le> unat ?st"
      using hst hw fb(6,7) le(1) fb(5) by linarith+
    then show ?thesis unfolding d' disp_ok_def dst_ok_def using lt by (simp add: front_buf_def back_buf_def)
  qed
  moreover have "mouse_ok m'" unfolding m' using assms(2,3) lt by (intro set_screen_ok)
  moreover have "scr_w m' = w" "scr_h m' = h" using b(1,2) by (auto simp: m' mouse_set_screen_def Let_def)
  ultimately show ?thesis using b(1,2) wh by (simp add: d')
qed

lemma vsync_advance_props:
  assumes "0 < per"
  shows "now < vsync_advance per now t" "t \<le> vsync_advance per now t"
    "t \<le> now \<Longrightarrow> vsync_advance per now t \<le> now + per"
  using assms
proof (induction per now t rule: vsync_advance.induct)
  case (1 per now t)
  {
    case 1
    then show ?case using "1.IH" by (simp add: vsync_advance.simps [of per now t])
  next
    case 2
    then show ?case using "1.IH" by (auto simp: vsync_advance.simps [of per now t])
  next
    case 3
    then show ?case using "1.IH" by (cases "t + per \<le> now") (auto simp: vsync_advance.simps [of per now t] vsync_advance.simps [of per now "t + per"])
  }
qed

end
