(* ===== verification/Compositor.thy ===== *)
theory Compositor
  imports Display "HOL-Library.Multiset"
begin

text \<open>
  The compositor, \<^verbatim>\<open>src/compositor/compositor.c\<close>: the list of surfaces, stacking, the damage a frame collects from the
  difference between each surface and its end-of-last-frame snapshot, and the frame itself (collect, clip, compose in
  parallel, publish, snapshot).  The main result is that the incremental frame is as good as a full repaint: after any
  sequence of surface and compositor operations a frame leaves every pixel of the back buffer and of the scan-out with the
  colour of the whole scene.
\<close>

subsection \<open>State\<close>

abbreviation COMPOSITOR_MAX_SURFACES :: nat where "COMPOSITOR_MAX_SURFACES \<equiv> 64"

record compositor =
  slots :: "nat list"
  carry_damage :: damage
  full_damage_requested :: bool
  args_bg :: u32
  args_target_hz :: u32
  cs_damage_rects :: u32
  cs_damage_px :: u32
  cs_skipped :: u32

text \<open>The graphics side of the kernel: heap and surfaces, the compositor, the display.\<close>

record desk =
  dgfx :: gfx
  dcomp :: compositor
  ddisp :: display

subsection \<open>The surface list\<close>

definition compositor_init :: "compositor \<Rightarrow> compositor" where
  "compositor_init c = c\<lparr>slots := [], carry_damage := damage_reset (carry_damage c), full_damage_requested := True\<rparr>"

definition compositor_add :: "nat \<Rightarrow> compositor \<Rightarrow> int \<times> compositor" where
  "compositor_add s c =
     (if s = 0 then (-1, c)
      else if s \<in> set (slots c) then (0, c)
      else if length (slots c) \<ge> COMPOSITOR_MAX_SURFACES then (-1, c)
      else (0, c\<lparr>slots := slots c @ [s]\<rparr>))"

definition compositor_remove :: "(nat \<Rightarrow> surface) \<Rightarrow> nat \<Rightarrow> compositor \<Rightarrow> compositor" where
  "compositor_remove sf s c =
     (if s = 0 \<or> s \<notin> set (slots c) then c
      else let c = (if s_prev_known (sf s)
                    then c\<lparr>carry_damage := damage_add (carry_damage c)
                            (rect_make (s_prev_x (sf s)) (s_prev_y (sf s)) (sint (s_prev_w (sf s))) (sint (s_prev_h (sf s))))\<rparr>
                    else c)
           in c\<lparr>slots := remove1 s (slots c)\<rparr>)"

definition compositor_mark_full_damage :: "compositor \<Rightarrow> compositor" where
  "compositor_mark_full_damage c = c\<lparr>full_damage_requested := True\<rparr>"

definition compositor_set_desktop_bg :: "u32 \<Rightarrow> compositor \<Rightarrow> compositor" where
  "compositor_set_desktop_bg bg c = c\<lparr>args_bg := bg, full_damage_requested := True\<rparr>"

definition user_zs :: "(nat \<Rightarrow> surface) \<Rightarrow> compositor \<Rightarrow> int list" where
  "user_zs sf c = filter (\<lambda>z. z < SURFACE_Z_CURSOR_LAYER) (map (\<lambda>s. s_z (sf s)) (slots c))"

definition top_z_user :: "(nat \<Rightarrow> surface) \<Rightarrow> compositor \<Rightarrow> int" where
  "top_z_user sf c =
     (case fold (\<lambda>z m. case m of None \<Rightarrow> Some z | Some x \<Rightarrow> if z > x then Some z else Some x) (user_zs sf c) None of
        None \<Rightarrow> 0 | Some z \<Rightarrow> z)"

definition bottom_z_user :: "(nat \<Rightarrow> surface) \<Rightarrow> compositor \<Rightarrow> int" where
  "bottom_z_user sf c =
     (case fold (\<lambda>z m. case m of None \<Rightarrow> Some z | Some x \<Rightarrow> if z < x then Some z else Some x) (user_zs sf c) None of
        None \<Rightarrow> 0 | Some z \<Rightarrow> z)"

definition compositor_raise :: "nat \<Rightarrow> compositor \<Rightarrow> gfx \<Rightarrow> gfx" where
  "compositor_raise p c g =
     with_surface p (\<lambda>s. if s_z s \<ge> SURFACE_Z_CURSOR_LAYER then s
        else let nz = top_z_user (surf g) c + 1
             in s\<lparr>s_z := (if nz > SURFACE_Z_USER_MAX then SURFACE_Z_USER_MAX else nz)\<rparr>) g"

definition compositor_lower :: "nat \<Rightarrow> compositor \<Rightarrow> gfx \<Rightarrow> gfx" where
  "compositor_lower p c g =
     with_surface p (\<lambda>s. if s_z s \<ge> SURFACE_Z_CURSOR_LAYER then s else s\<lparr>s_z := bottom_z_user (surf g) c - 1\<rparr>) g"

text \<open>The insertion sort of slot indices.  \<open>shift_in\<close> is the inner loop on the sorted prefix read from its end.\<close>

fun shift_in :: "(nat \<Rightarrow> int) \<Rightarrow> nat \<Rightarrow> nat list \<Rightarrow> nat list" where
  "shift_in z key [] = [key]"
| "shift_in z key (y # ys) = (if z y > z key then y # shift_in z key ys else key # y # ys)"

definition sort_indices :: "(nat \<Rightarrow> int) \<Rightarrow> nat \<Rightarrow> nat list" where
  "sort_indices z n = rev (fold (shift_in z) [0..<n] [])"

subsection \<open>Damage of one surface\<close>

definition surface_geom_matches_prev :: "surface \<Rightarrow> bool" where
  "surface_geom_matches_prev s \<longleftrightarrow>
     s_prev_known s \<and> s_x s = s_prev_x s \<and> s_y s = s_prev_y s \<and> s_width s = s_prev_w s \<and> s_height s = s_prev_h s \<and>
     s_z s = s_prev_z s \<and> s_alpha s = s_prev_alpha s \<and> s_visible s = s_prev_visible s \<and> s_opaque s = s_prev_opaque s \<and>
     s_corner_radius s = s_prev_corner_radius s"

definition surface_changed :: "surface \<Rightarrow> bool" where
  "surface_changed s \<longleftrightarrow>
     \<not> s_prev_known s \<or> s_pixels_dirty s \<or> s_x s \<noteq> s_prev_x s \<or> s_y s \<noteq> s_prev_y s \<or> s_width s \<noteq> s_prev_w s \<or>
     s_height s \<noteq> s_prev_h s \<or> s_z s \<noteq> s_prev_z s \<or> s_alpha s \<noteq> s_prev_alpha s \<or> s_visible s \<noteq> s_prev_visible s \<or>
     s_opaque s \<noteq> s_prev_opaque s \<or> s_corner_radius s \<noteq> s_prev_corner_radius s"

definition surface_contributed :: "bool \<Rightarrow> u8 \<Rightarrow> bool" where
  "surface_contributed visible alpha \<longleftrightarrow> visible \<and> alpha > 0"

definition surface_damage :: "surface \<Rightarrow> damage \<Rightarrow> damage" where
  "surface_damage s dmg =
     (let curr = surface_effective_rect s;
          prev = rect_make (s_prev_x s) (s_prev_y s) (sint (s_prev_w s)) (sint (s_prev_h s));
          prev_contrib = (s_prev_known s \<and> surface_contributed (s_prev_visible s) (s_prev_alpha s));
          curr_contrib = surface_contributed (s_visible s) (s_alpha s)
      in if \<not> surface_changed s then dmg
         else if s_pixels_dirty s \<and> s_dirty_rect_valid s \<and> surface_geom_matches_prev s
         then let scr = rect_make (s_x s + s_dirty_lx0 s) (s_y s + s_dirty_ly0 s)
                          (s_dirty_lx1 s - s_dirty_lx0 s) (s_dirty_ly1 s - s_dirty_ly0 s)
              in if curr_contrib then damage_add dmg scr else dmg
         else let dmg = (if prev_contrib then damage_add dmg prev else dmg)
              in if curr_contrib then damage_add dmg curr else dmg)"

definition snapshot :: "surface \<Rightarrow> surface" where
  "snapshot s =
     s\<lparr>s_prev_x := s_x s, s_prev_y := s_y s, s_prev_w := s_width s, s_prev_h := s_height s, s_prev_z := s_z s,
       s_prev_alpha := s_alpha s, s_prev_visible := s_visible s, s_prev_opaque := s_opaque s,
       s_prev_corner_radius := s_corner_radius s, s_prev_known := True, s_pixels_dirty := False,
       s_dirty_rect_valid := False\<rparr>"

subsection \<open>The frame\<close>

definition frame_damage :: "rect \<Rightarrow> (nat \<Rightarrow> surface) \<Rightarrow> compositor \<Rightarrow> damage" where
  "frame_damage screen sf c =
     (let dmg = damage_reset [];
          dmg = (if full_damage_requested c then damage_add dmg screen else dmg);
          dmg = fold (\<lambda>r d. damage_add d r) (carry_damage c) dmg;
          dmg = fold (\<lambda>s. surface_damage (sf s)) (slots c) dmg
      in damage_clip dmg screen)"

definition z_sorted :: "(nat \<Rightarrow> surface) \<Rightarrow> nat list \<Rightarrow> nat list" where
  "z_sorted sf sl = map (\<lambda>i. sl ! i) (sort_indices (\<lambda>i. s_z (sf (sl ! i))) (length sl))"

text \<open>\<open>cpu\<close> are the instruction set flags, \<open>online\<close> and \<open>vb\<close> what the processor count and the hypervisor test answer.\<close>

definition compositor_frame :: "simd \<Rightarrow> nat \<Rightarrow> bool \<Rightarrow> u32 \<Rightarrow> desk \<Rightarrow> desk" where
  "compositor_frame cpu online vb bg k =
     (if \<not> dsp_on (ddisp k) then k
      else
        let d = ddisp k; c = dcomp k; sf = surf (dgfx k);
            dst = \<lparr>dpix = compos_buf d, dwidth = dsp_width d, dheight = dsp_height d, dstride = dsp_width d\<rparr>;
            screen = rect_make 0 0 (sint (dsp_width d)) (sint (dsp_height d));
            dmg = frame_damage screen sf c;
            c = c\<lparr>full_damage_requested := False, carry_damage := damage_reset (carry_damage c),
                  cs_damage_rects := of_nat (length dmg), cs_damage_px := ucast (damage_area_sum dmg)\<rparr>
        in if length dmg = 0 then k\<lparr>dcomp := c\<lparr>cs_skipped := cs_skipped c + 1\<rparr>\<rparr>
           else let dst = parallel_compose cpu online vb dst dmg (map sf (z_sorted sf (slots c))) bg;
                    d = display_present_damage dmg (d\<lparr>compos_buf := dpix dst\<rparr>);
                    sf = (\<lambda>p. if p \<in> set (slots c) then snapshot (sf p) else sf p)
                in k\<lparr>ddisp := d, dcomp := c, dgfx := (dgfx k)\<lparr>surf := sf\<rparr>\<rparr>)"

subsection \<open>Pacing\<close>

text \<open>\<^verbatim>\<open>tsc_elapsed_to_dt\<close>: seconds in 16.16 fixed point.\<close>

definition tsc_elapsed_to_dt :: "nat \<Rightarrow> nat \<Rightarrow> int" where
  "tsc_elapsed_to_dt delta hz =
     (if hz = 0 \<or> delta = 0 then 0
      else let cap = hz div 4; cap = (if cap = 0 then delta else cap); delta = (if delta > cap then cap else delta)
           in int (delta * 65536 div hz))"

record pacing =
  cs_frame_count :: nat
  cs_last_us :: nat
  cs_avg_us :: nat
  cs_max_us :: nat
  cs_drops :: nat
  window_count :: nat
  window_sum :: nat
  next_deadline :: nat

text \<open>The statistics after a frame of \<open>us\<close> microseconds, and the deadline after it: one period on, or a period from
  \<open>now\<close> with a drop counted when more than a whole period was missed.\<close>

definition frame_stats :: "nat \<Rightarrow> pacing \<times> compositor \<Rightarrow> pacing \<times> compositor" where
  "frame_stats us qc =
     (let (q, c) = qc;
          q = q\<lparr>cs_last_us := us, cs_max_us := (if us > cs_max_us q then us else cs_max_us q), window_sum := window_sum q + us,
                window_count := window_count q + 1, cs_frame_count := cs_frame_count q + 1\<rparr>
      in if window_count q \<ge> 120
         then (q\<lparr>cs_avg_us := window_sum q div window_count q, window_sum := 0, window_count := 0, cs_max_us := 0\<rparr>,
               c\<lparr>cs_skipped := 0\<rparr>)
         else (q, c))"

definition next_frame_tsc :: "nat \<Rightarrow> nat \<Rightarrow> pacing \<Rightarrow> pacing" where
  "next_frame_tsc per now q =
     (let t = next_deadline q + per
      in if now > t + per then q\<lparr>cs_drops := cs_drops q + 1, next_deadline := now + per\<rparr> else q\<lparr>next_deadline := t\<rparr>)"

definition next_frame_tick :: "nat \<Rightarrow> nat \<Rightarrow> pacing \<Rightarrow> pacing" where
  "next_frame_tick fpt now q =
     (if now > next_deadline q + fpt then q\<lparr>cs_drops := cs_drops q + 1, next_deadline := now + fpt\<rparr>
      else q\<lparr>next_deadline := next_deadline q + fpt\<rparr>)"

definition compositor_start :: "u32 \<Rightarrow> u32 \<Rightarrow> compositor \<Rightarrow> compositor" where
  "compositor_start bg target_hz c =
     c\<lparr>args_bg := bg, args_target_hz := (if target_hz = 0 then 120 else target_hz)\<rparr>"

subsection \<open>The stacking order\<close>

lemma mset_shift_in: "mset (shift_in z k r) = add_mset k (mset r)"
  by (induction r) auto

lemma set_shift_in: "set (shift_in z k r) = insert k (set r)"
  by (induction r) auto

lemma sorted_shift_in:
  "sorted_wrt (\<lambda>a b. z b \<le> z a) r \<Longrightarrow> sorted_wrt (\<lambda>a b. z b \<le> z a) (shift_in z k r)"
  by (induction r) (auto simp: set_shift_in)

lemma filter_shift_in:
  "sorted_wrt (\<lambda>a b. z b \<le> z a) r \<Longrightarrow>
   filter (\<lambda>x. v = z x) (shift_in z k r) = (if v = z k then k # filter (\<lambda>x. v = z x) r else filter (\<lambda>x. v = z x) r)"
  by (induction r) auto

lemma sort_indices_correct: "sort_indices z n = sort_key z [0..<n]"
proof -
  let ?r = "\<lambda>xs. fold (shift_in z) xs []"
  have inv: "mset (?r xs) = mset xs \<and> sorted_wrt (\<lambda>a b. z b \<le> z a) (?r xs) \<and>
      (\<forall>v. filter (\<lambda>x. v = z x) (?r xs) = rev (filter (\<lambda>x. v = z x) xs))" for xs
  proof (induction xs rule: rev_induct)
    case (snoc k xs)
    then show ?case by (simp add: mset_shift_in sorted_shift_in filter_shift_in)
  qed simp
  show ?thesis unfolding sort_indices_def
  proof (rule properties_for_sort_key [symmetric])
    show "mset (rev (?r [0..<n])) = mset [0..<n]" using inv [of "[0..<n]"] by simp
    show "filter (\<lambda>x. z k = z x) (rev (?r [0..<n])) = filter (\<lambda>x. z k = z x) [0..<n]" for k
      using inv [of "[0..<n]"] by (simp add: rev_filter [symmetric])
    have "sorted_wrt (\<lambda>a b. z a \<le> z b) (rev (?r [0..<n]))"
      using inv [of "[0..<n]"] by (simp add: sorted_wrt_rev)
    then show "sorted (map z (rev (?r [0..<n])))" by (simp add: sorted_map)
  qed
qed

lemma map_sort_key: "map g (sort_key (\<lambda>i. f (g i)) xs) = sort_key f (map g xs)"
proof (induction xs)
  case (Cons x xs)
  have "map g (insort_key (\<lambda>i. f (g i)) x ys) = insort_key f (g x) (map g ys)" for ys
    by (induction ys) auto
  with Cons show ?case by simp
qed simp

lemma z_sorted_sort: "z_sorted sf sl = sort_key (\<lambda>s. s_z (sf s)) sl"
proof -
  have "z_sorted sf sl = map (\<lambda>i. sl ! i) (sort_key (\<lambda>i. s_z (sf (sl ! i))) [0..<length sl])"
    by (simp add: z_sorted_def sort_indices_correct)
  also have "\<dots> = sort_key (\<lambda>s. s_z (sf s)) (map (\<lambda>i. sl ! i) [0..<length sl])"
    by (rule map_sort_key)
  finally show ?thesis by (simp add: map_nth)
qed

text \<open>The compositor's index sort is the stable sort of the surface list by z: surfaces with equal z keep the order in which
  they were added.\<close>

theorem z_sorted_stable: "z_sorted sf sl = sort_key (\<lambda>s. s_z (sf s)) sl"
  by (rule z_sorted_sort)

lemma insort_key_cong:
  assumes "f x = g x" "\<forall>y\<in>set ys. f y = g y"
  shows "insort_key f x ys = insort_key g x ys"
  using assms by (induction ys) auto

lemma sort_key_cong:
  assumes "\<forall>x\<in>set xs. f x = g x"
  shows "sort_key f xs = sort_key g xs"
  using assms
proof (induction xs)
  case (Cons x xs)
  then have "sort_key f xs = sort_key g xs" by simp
  with Cons.prems insort_key_cong [of f x g "sort_key g xs"] show ?case by simp
qed simp

subsection \<open>Scenes\<close>

definition scene :: "(nat \<Rightarrow> surface) \<Rightarrow> nat list \<Rightarrow> surface list" where
  "scene sf sl = map sf (sort_key (\<lambda>s. s_z (sf s)) sl)"

lemma fold_layer_filter: "fold (layer p) zs c = fold (layer p) (filter (\<lambda>s. covers s p) zs) c"
  by (induction zs arbitrary: c) (auto simp: layer_def)

lemma scene_filter:
  "filter (\<lambda>s. covers s p) (scene sf sl) = map sf (sort_key (\<lambda>s. s_z (sf s)) (filter (\<lambda>s. covers (sf s) p) sl))"
  by (simp add: scene_def filter_map comp_def filter_sort)

text \<open>Two scenes agree at a pixel when the surfaces that cover it are the same, in the same order, and look the same there.\<close>

lemma scene_colour_agree:
  assumes ids: "filter (\<lambda>s. covers (f s) p) xs = filter (\<lambda>s. covers (g s) p) ys"
    and same: "\<And>s. s \<in> set ys \<Longrightarrow> covers (g s) p \<Longrightarrow> s_z (f s) = s_z (g s) \<and> (\<forall>c. layer p (f s) c = layer p (g s) c)"
  shows "scene_colour (scene f xs) bg p = scene_colour (scene g ys) bg p"
proof -
  let ?l = "filter (\<lambda>s. covers (g s) p) ys"
  have "sort_key (\<lambda>s. s_z (f s)) ?l = sort_key (\<lambda>s. s_z (g s)) ?l"
    using same by (intro sort_key_cong) auto
  moreover have "fold (layer p) (map f l) c = fold (layer p) (map g l) c" if "set l \<subseteq> set ?l" for l c
    using that same by (induction l arbitrary: c) auto
  ultimately have "fold (layer p) (map f (sort_key (\<lambda>s. s_z (f s)) ?l)) c =
      fold (layer p) (map g (sort_key (\<lambda>s. s_z (g s)) ?l)) c" for c by simp
  then show ?thesis
    unfolding scene_colour_def
    by (subst (1 2) fold_layer_filter) (simp add: scene_filter ids)
qed

text \<open>What the snapshot fields of a surface remember of an earlier state of it.\<close>

definition snap_of :: "surface \<Rightarrow> surface \<Rightarrow> bool" where
  "snap_of s old \<longleftrightarrow>
     s_prev_x s = s_x old \<and> s_prev_y s = s_y old \<and> s_prev_w s = s_width old \<and> s_prev_h s = s_height old \<and>
     s_prev_z s = s_z old \<and> s_prev_alpha s = s_alpha old \<and> s_prev_visible s = s_visible old \<and>
     s_prev_opaque s = s_opaque old \<and> s_prev_corner_radius s = s_corner_radius old \<and> s_pixels_ptr old \<noteq> 0 \<and>
     s_width s = s_width old \<and> s_height s = s_height old \<and>
     (\<forall>q \<in> cells (rect_make 0 0 (sint (s_width s)) (sint (s_height s))) - dirty_cells s.
        src_px (surface_src s) (fst q) (snd q) = src_px (surface_src old) (fst q) (snd q))"

lemma snap_px:
  assumes "snap_of s old" "q \<in> cells (rect_make 0 0 (sint (s_width s)) (sint (s_height s)))" "q \<notin> dirty_cells s"
  shows "src_px (surface_src s) (fst q) (snd q) = src_px (surface_src old) (fst q) (snd q)"
  using assms unfolding snap_of_def by blast

definition surface_requests :: "surface \<Rightarrow> rect list" where
  "surface_requests s =
     (if \<not> surface_changed s then []
      else if s_pixels_dirty s \<and> s_dirty_rect_valid s \<and> surface_geom_matches_prev s
      then if surface_contributed (s_visible s) (s_alpha s)
           then [rect_make (s_x s + s_dirty_lx0 s) (s_y s + s_dirty_ly0 s) (s_dirty_lx1 s - s_dirty_lx0 s) (s_dirty_ly1 s - s_dirty_ly0 s)]
           else []
      else (if s_prev_known s \<and> surface_contributed (s_prev_visible s) (s_prev_alpha s)
            then [rect_make (s_prev_x s) (s_prev_y s) (sint (s_prev_w s)) (sint (s_prev_h s))] else []) @
           (if surface_contributed (s_visible s) (s_alpha s) then [surface_effective_rect s] else []))"

lemma surface_damage_requests: "surface_damage s dmg = fold (\<lambda>r d. damage_add d r) (surface_requests s) dmg"
  by (simp add: surface_damage_def surface_requests_def Let_def)

lemma contributed_iff: "surface_contributed v a \<longleftrightarrow> v \<and> a \<noteq> 0"
  by (simp add: surface_contributed_def word_gt_0)

lemma layer_same:
  assumes "s_x s = s_x old" "s_y s = s_y old" "s_width s = s_width old" "s_height s = s_height old" "s_alpha s = s_alpha old"
    "s_visible s = s_visible old" "s_opaque s = s_opaque old" "s_corner_radius s = s_corner_radius old"
    "s_pixels_ptr s \<noteq> 0" "s_pixels_ptr old \<noteq> 0"
    "covers old p \<Longrightarrow> src_px (surface_src s) (fst p - s_x s) (snd p - s_y s) = src_px (surface_src old) (fst p - s_x s) (snd p - s_y s)"
  shows "covers s p = covers old p" "layer p s c = layer p old c"
proof -
  show "covers s p = covers old p" using assms(1-10) by (simp add: covers_def surface_effective_rect_def)
  then show "layer p s c = layer p old c"
    using assms by (auto simp: layer_def surface_op_def)
qed

text \<open>Outside the rectangles a surface asks for, it looks as it did in its snapshot.\<close>

lemma new_surface_covers:
  assumes "\<not> s_prev_known s" "covers s p"
  shows "p \<in> covered (surface_requests s)"
  using assms by (auto simp: surface_requests_def surface_changed_def surface_geom_matches_prev_def contributed_iff covers_def)

lemma quiet_pixel:
  assumes ptr: "s_pixels_ptr s \<noteq> 0" and known: "s_prev_known s" and snap: "snap_of s old" and p: "p \<notin> covered (surface_requests s)"
  shows "covers s p = covers old p" "covers s p \<Longrightarrow> s_z s = s_z old \<and> layer p s c = layer p old c"
proof -
  have old: "s_pixels_ptr old \<noteq> 0" using snap by (simp add: snap_of_def)
  have "covers s p = covers old p \<and> (covers s p \<longrightarrow> s_z s = s_z old \<and> layer p s c = layer p old c)"
  proof (cases "surface_geom_matches_prev s \<and> (s_pixels_dirty s \<longrightarrow> s_dirty_rect_valid s)")
    case True
    then have eq: "s_x s = s_x old" "s_y s = s_y old" "s_width s = s_width old" "s_height s = s_height old" "s_alpha s = s_alpha old"
      "s_visible s = s_visible old" "s_opaque s = s_opaque old" "s_corner_radius s = s_corner_radius old" "s_z s = s_z old"
      using snap by (auto simp: surface_geom_matches_prev_def snap_of_def)
    have "src_px (surface_src s) (fst p - s_x s) (snd p - s_y s) = src_px (surface_src old) (fst p - s_x s) (snd p - s_y s)"
      if "covers old p"
    proof -
      let ?q = "(fst p - s_x s, snd p - s_y s)"
      have cov: "covers s p" using that eq ptr by (simp add: covers_def surface_effective_rect_def)
      then have "?q \<in> cells (rect_make 0 0 (sint (s_width s)) (sint (s_height s)))"
        by (cases p) (simp add: covers_def surface_effective_rect_def)
      moreover have "?q \<notin> dirty_cells s"
      proof
        assume d: "?q \<in> dirty_cells s"
        then have "s_pixels_dirty s" "s_dirty_rect_valid s" using True by (auto simp: dirty_cells_def split: if_splits)
        moreover have "surface_changed s" using \<open>s_pixels_dirty s\<close> by (simp add: surface_changed_def)
        ultimately have "surface_requests s = [rect_make (s_x s + s_dirty_lx0 s) (s_y s + s_dirty_ly0 s)
            (s_dirty_lx1 s - s_dirty_lx0 s) (s_dirty_ly1 s - s_dirty_ly0 s)]"
          using True cov by (simp add: surface_requests_def contributed_iff covers_def)
        with p d \<open>s_pixels_dirty s\<close> \<open>s_dirty_rect_valid s\<close> show False
          by (cases p) (simp add: dirty_cells_def)
      qed
      ultimately show ?thesis using snap_px [OF snap, of ?q] by simp
    qed
    from layer_same [OF eq(1-8) ptr old this] eq(9) show ?thesis by blast
  next
    case False
    then have ch: "surface_changed s" using known by (auto simp: surface_changed_def surface_geom_matches_prev_def)
    have reqs: "surface_requests s =
        (if surface_contributed (s_prev_visible s) (s_prev_alpha s)
            then [rect_make (s_prev_x s) (s_prev_y s) (sint (s_prev_w s)) (sint (s_prev_h s))] else []) @
           (if surface_contributed (s_visible s) (s_alpha s) then [surface_effective_rect s] else [])"
      using ch False known by (auto simp: surface_requests_def)
    have "\<not> covers s p" using p reqs by (auto simp: covers_def contributed_iff)
    moreover have "\<not> covers old p"
      using p snap by (auto simp: reqs covers_def contributed_iff snap_of_def surface_effective_rect_def split: if_splits)
    ultimately show ?thesis by simp
  qed
  then show "covers s p = covers old p" "covers s p \<Longrightarrow> s_z s = s_z old \<and> layer p s c = layer p old c" by auto
qed

subsection \<open>The incremental frame\<close>

definition frame_requests :: "rect \<Rightarrow> (nat \<Rightarrow> surface) \<Rightarrow> compositor \<Rightarrow> rect list" where
  "frame_requests screen sf c =
     (if full_damage_requested c then [screen] else []) @ carry_damage c @
     concat (map (\<lambda>s. surface_requests (sf s)) (slots c))"

lemma fold_surface_damage:
  "fold (\<lambda>s. surface_damage (sf s)) sl dmg = fold (\<lambda>r d. damage_add d r) (concat (map (\<lambda>s. surface_requests (sf s)) sl)) dmg"
  by (induction sl arbitrary: dmg) (simp_all add: surface_damage_requests)

lemma frame_damage_requests:
  "frame_damage screen sf c = damage_clip (fold (\<lambda>r d. damage_add d r) (frame_requests screen sf c) []) screen"
  by (simp add: frame_damage_def frame_requests_def damage_reset_def fold_surface_damage Let_def)

lemma frame_damage_covers:
  assumes "length (frame_requests screen sf c) \<le> DAMAGE_MAX_RECTS"
  shows "damage_ok (frame_damage screen sf c)"
    "covered (frame_requests screen sf c) \<inter> cells screen \<subseteq> covered (frame_damage screen sf c)"
    "covered (frame_damage screen sf c) \<subseteq> cells screen"
proof -
  let ?d = "fold (\<lambda>r d. damage_add d r) (frame_requests screen sf c) []"
  have ok0: "damage_ok []" by (simp add: damage_ok_def)
  have "damage_ok ?d" by (rule dmg.adds_ok [OF ok0])
  then show "damage_ok (frame_damage screen sf c)" by (simp add: frame_damage_requests damage_clip_ok)
  have "covered [] \<union> covered (frame_requests screen sf c) \<subseteq> covered ?d"
    using assms by (intro dmg.adds_cover [OF ok0]) simp
  then show "covered (frame_requests screen sf c) \<inter> cells screen \<subseteq> covered (frame_damage screen sf c)"
    unfolding frame_damage_requests covered_damage_clip by blast
  show "covered (frame_damage screen sf c) \<subseteq> cells screen"
    unfolding frame_damage_requests covered_damage_clip by blast
qed

text \<open>
  The relation between the state and the scene of the last snapshot, surfaces \<open>oids\<close> with contents \<open>old\<close>: both buffers show
  that scene, the snapshot fields describe it, and away from the carried damage the surfaces that covered a pixel are still
  listed, in the same order.
\<close>

definition synced :: "nat list \<Rightarrow> (nat \<Rightarrow> surface) \<Rightarrow> desk \<Rightarrow> bool" where
  "synced oids old k \<longleftrightarrow>
     (let sf = surf (dgfx k); c = dcomp k; d = ddisp k
      in (\<forall>p\<in>screen_cells (back_buf d). colour (back_buf d) p = scene_colour (scene old oids) (args_bg c) p \<and>
            colour (front_buf d) p = colour (back_buf d) p) \<and>
         (\<forall>s\<in>set (slots c). s_prev_known (sf s) \<longrightarrow> snap_of (sf s) (old s)) \<and>
         (\<forall>p\<in>screen_cells (back_buf d) - covered (carry_damage c).
            filter (\<lambda>s. covers (old s) p) oids = filter (\<lambda>s. s_prev_known (sf s) \<and> covers (old s) p) (slots c)))"

definition desk_inv :: "desk \<Rightarrow> bool" where
  "desk_inv k \<longleftrightarrow>
     disp_ok (ddisp k) \<and> 0 < unat (dsp_width (ddisp k)) \<and> 0 < unat (dsp_height (ddisp k)) \<and>
     (\<forall>s\<in>set (slots (dcomp k)). s \<noteq> 0 \<and> surf_ok (surf (dgfx k) s)) \<and> distinct (slots (dcomp k)) \<and>
     length (slots (dcomp k)) \<le> COMPOSITOR_MAX_SURFACES \<and> damage_ok (carry_damage (dcomp k)) \<and>
     (full_damage_requested (dcomp k) \<or> (\<exists>oids old. synced oids old k))"

lemma undamaged_pixel:
  assumes sync: "synced oids old k" and ok: "\<forall>s\<in>set (slots (dcomp k)). surf_ok (surf (dgfx k) s)"
    and p: "p \<in> screen_cells (back_buf (ddisp k))" "p \<notin> covered (frame_requests screen (surf (dgfx k)) (dcomp k))"
  shows "scene_colour (scene old oids) bg p = scene_colour (scene (surf (dgfx k)) (slots (dcomp k))) bg p"
proof -
  let ?sf = "surf (dgfx k)" and ?sl = "slots (dcomp k)"
  have quiet: "p \<notin> covered (surface_requests (?sf s))" if "s \<in> set ?sl" for s
    using p(2) that by (auto simp: frame_requests_def)
  have snap: "snap_of (?sf s) (old s)" if "s \<in> set ?sl" "s_prev_known (?sf s)" for s
    using sync that by (auto simp: synced_def Let_def)
  have ptr: "s_pixels_ptr (?sf s) \<noteq> 0" if "s \<in> set ?sl" for s using ok that by (auto simp: surf_ok_def)
  have known: "s_prev_known (?sf s)" if "s \<in> set ?sl" "covers (?sf s) p" for s
    using new_surface_covers [OF _ that(2)] quiet [OF that(1)] by blast
  have cov: "covers (?sf s) p \<longleftrightarrow> s_prev_known (?sf s) \<and> covers (old s) p" if "s \<in> set ?sl" for s
    using known [OF that] quiet_pixel(1) [OF ptr [OF that] _ snap [OF that] quiet [OF that]] by blast
  have "p \<notin> covered (carry_damage (dcomp k))" using p(2) by (auto simp: frame_requests_def)
  then have "filter (\<lambda>s. covers (old s) p) oids = filter (\<lambda>s. s_prev_known (?sf s) \<and> covers (old s) p) ?sl"
    using sync p(1) by (simp add: synced_def Let_def)
  also have "\<dots> = filter (\<lambda>s. covers (?sf s) p) ?sl" by (rule filter_cong) (simp_all add: cov)
  finally have ids: "filter (\<lambda>s. covers (old s) p) oids = filter (\<lambda>s. covers (?sf s) p) ?sl" .
  show ?thesis
  proof (rule scene_colour_agree [OF ids])
    fix s assume s: "s \<in> set ?sl" "covers (?sf s) p"
    note q = quiet_pixel(2) [OF ptr [OF s(1)] known [OF s] snap [OF s(1) known [OF s]] quiet [OF s(1)] s(2)]
    show "s_z (old s) = s_z (?sf s) \<and> (\<forall>c. layer p (old s) c = layer p (?sf s) c)" using q by simp
  qed
qed

lemma layer_snapshot [simp]: "layer p (snapshot s) = layer p s" "covers (snapshot s) p = covers s p" "s_z (snapshot s) = s_z s"
proof -
  have sel: "s_x (snapshot s) = s_x s" "s_y (snapshot s) = s_y s" "s_width (snapshot s) = s_width s" "s_height (snapshot s) = s_height s"
    "s_alpha (snapshot s) = s_alpha s" "s_visible (snapshot s) = s_visible s" "s_opaque (snapshot s) = s_opaque s"
    "s_corner_radius (snapshot s) = s_corner_radius s" "s_pixels_ptr (snapshot s) = s_pixels_ptr s"
    by (simp_all add: snapshot_def)
  show z: "s_z (snapshot s) = s_z s" by (simp add: snapshot_def)
  show cov: "covers (snapshot s) p = covers s p" by (simp only: covers_def surface_effective_rect_def sel)
  have src: "surface_src (snapshot s) = surface_src s" by (simp add: surface_src_def snapshot_def)
  show "layer p (snapshot s) = layer p s"
    by (rule ext) (simp only: layer_def surface_op_def cov src sel)
qed

lemma snapshot_ok [inv_intros]: "surf_ok s \<Longrightarrow> surf_ok (snapshot s)"
  by (simp add: surf_ok_def snapshot_def)

lemma snapshot_snap: "surf_ok s \<Longrightarrow> snap_of (snapshot s) (snapshot s)"
  by (simp add: snap_of_def snapshot_def surf_ok_def)

lemma snapshot_known [simp]: "s_prev_known (snapshot s)"
  by (simp add: snapshot_def)

text \<open>Composing into the back buffer and publishing the damage.\<close>

lemma frame_display:
  assumes ok: "disp_ok d" and zs: "\<forall>s\<in>set zs. surf_ok s" and dmg: "damage_ok dmg"
    and d': "d' = display_present_damage dmg (d\<lparr>compos_buf := dpix (parallel_compose cpu online vb (back_buf d) dmg zs bg)\<rparr>)"
  shows "disp_ok d'" "dsp_width d' = dsp_width d" "dsp_height d' = dsp_height d"
    "p \<in> screen_cells (back_buf d) \<Longrightarrow>
       colour (back_buf d') p = (if p \<in> covered dmg then scene_colour zs bg p else colour (back_buf d) p) \<and>
       colour (front_buf d') p = (if p \<in> covered dmg then scene_colour zs bg p else colour (front_buf d) p)"
proof -
  let ?b = "parallel_compose cpu online vb (back_buf d) dmg zs bg"
  let ?d1 = "d\<lparr>compos_buf := dpix ?b\<rparr>"
  have bk: "dst_ok (back_buf d)" using ok by (simp add: disp_ok_def)
  have comp: "composed zs bg (back_buf d) (covered dmg) ?b" by (rule parallel_compose_composed [OF bk zs dmg])
  then have dims: "dst_ok ?b" "dwidth ?b = dsp_width d" "dheight ?b = dsp_height d" "dstride ?b = compos_stride d"
    by (simp_all add: composed_def paints_def)
  have b1: "back_buf ?d1 = ?b" using dims by (simp add: back_buf_def)
  have f1: "front_buf ?d1 = front_buf d" by (simp add: front_buf_def)
  have ok1: "disp_ok ?d1" using ok dims by (simp add: disp_ok_def b1 f1)
  have pub: "published ?d1 (covered dmg) d'" unfolding d' by (rule present_damage_published [OF ok1])
  note pd = publishedD [OF pub]
  show "disp_ok d'" by (rule published_ok [OF pub ok1])
  show "dsp_width d' = dsp_width d" "dsp_height d' = dsp_height d" using pd by simp_all
  assume p: "p \<in> screen_cells (back_buf d)"
  have "colour ?b p = (if p \<in> covered dmg then scene_colour zs bg p else colour (back_buf d) p)"
    using parallel_compose_correct_at [OF bk zs dmg p] by simp
  then show "colour (back_buf d') p = (if p \<in> covered dmg then scene_colour zs bg p else colour (back_buf d) p) \<and>
       colour (front_buf d') p = (if p \<in> covered dmg then scene_colour zs bg p else colour (front_buf d) p)"
    using published_at [OF pub, of p] p by (simp add: pd(2) b1 f1 screen_cells_buf)
qed

definition frame_screen :: "display \<Rightarrow> rect" where
  "frame_screen d = rect_make 0 0 (sint (dsp_width d)) (sint (dsp_height d))"

lemma screen_cells_frame: "screen_cells (back_buf d) = cells (frame_screen d)"
  by (simp add: screen_cells_def frame_screen_def)

definition repainted :: "desk \<Rightarrow> bool" where
  "repainted k \<longleftrightarrow>
     (\<forall>p\<in>screen_cells (back_buf (ddisp k)).
        colour (back_buf (ddisp k)) p = scene_colour (scene (surf (dgfx k)) (slots (dcomp k))) (args_bg (dcomp k)) p \<and>
        colour (front_buf (ddisp k)) p = colour (back_buf (ddisp k)) p)"

lemma scene_snapshot:
  assumes "\<forall>s\<in>set sl. g s = snapshot (f s)"
  shows "scene_colour (scene g sl) bg p = scene_colour (scene f sl) bg p"
  by (rule scene_colour_agree) (use assms in \<open>auto intro!: filter_cong\<close>)

lemma desk_screen_ne:
  assumes "desk_inv k"
  shows "cells (frame_screen (ddisp k)) \<noteq> {}"
proof -
  have "dst_ok (back_buf (ddisp k))" "0 < unat (dsp_width (ddisp k))" "0 < unat (dsp_height (ddisp k))"
    using assms by (simp_all add: desk_inv_def disp_ok_def)
  then have "(0, 0) \<in> cells (frame_screen (ddisp k))"
    by (simp add: frame_screen_def cells_def rect_make_def dst_ok_def sint_small del: of_nat_unat)
  then show ?thesis by blast
qed

text \<open>An on-screen pixel that the frame's damage misses already shows the present scene, in both buffers.\<close>

lemma missed_pixel:
  assumes inv: "desk_inv k" and fit: "length (frame_requests (frame_screen (ddisp k)) (surf (dgfx k)) (dcomp k)) \<le> DAMAGE_MAX_RECTS"
    and p: "p \<in> screen_cells (back_buf (ddisp k))" "p \<notin> covered (frame_damage (frame_screen (ddisp k)) (surf (dgfx k)) (dcomp k))"
  shows "\<not> full_damage_requested (dcomp k)" "p \<notin> covered (carry_damage (dcomp k))"
    "colour (back_buf (ddisp k)) p = scene_colour (scene (surf (dgfx k)) (slots (dcomp k))) (args_bg (dcomp k)) p"
    "colour (front_buf (ddisp k)) p = colour (back_buf (ddisp k)) p"
proof -
  let ?reqs = "frame_requests (frame_screen (ddisp k)) (surf (dgfx k)) (dcomp k)"
  have req: "p \<notin> covered ?reqs" using frame_damage_covers(2) [OF fit] p by (auto simp: screen_cells_frame)
  then show full: "\<not> full_damage_requested (dcomp k)" using p(1) by (auto simp: frame_requests_def screen_cells_frame)
  show "p \<notin> covered (carry_damage (dcomp k))" using req by (auto simp: frame_requests_def)
  from full inv obtain oids old where sync: "synced oids old k" by (auto simp: desk_inv_def)
  have ok: "\<forall>s\<in>set (slots (dcomp k)). surf_ok (surf (dgfx k) s)" using inv by (simp add: desk_inv_def)
  show "colour (back_buf (ddisp k)) p = scene_colour (scene (surf (dgfx k)) (slots (dcomp k))) (args_bg (dcomp k)) p"
    "colour (front_buf (ddisp k)) p = colour (back_buf (ddisp k)) p"
    using sync p(1) undamaged_pixel [OF sync ok p(1) req] by (auto simp: synced_def Let_def)
qed

lemma frame_skips:
  assumes inv: "desk_inv k" and fit: "length (frame_requests (frame_screen (ddisp k)) (surf (dgfx k)) (dcomp k)) \<le> DAMAGE_MAX_RECTS"
    and none: "frame_damage (frame_screen (ddisp k)) (surf (dgfx k)) (dcomp k) = []"
    and k': "dgfx k' = dgfx k" "ddisp k' = ddisp k" "slots (dcomp k') = slots (dcomp k)" "args_bg (dcomp k') = args_bg (dcomp k)"
      "carry_damage (dcomp k') = []" "\<not> full_damage_requested (dcomp k')"
  shows "repainted k' \<and> desk_inv k'"
proof -
  have miss: "p \<notin> covered (frame_damage (frame_screen (ddisp k)) (surf (dgfx k)) (dcomp k))" for p by (simp add: none)
  note m = missed_pixel [OF inv fit _ miss]
  have "repainted k'" using m(3,4) by (simp add: repainted_def k')
  moreover have "desk_inv k'"
  proof -
    obtain p where "p \<in> screen_cells (back_buf (ddisp k))" using desk_screen_ne [OF inv] by (auto simp: screen_cells_frame)
    with m(1) have "\<not> full_damage_requested (dcomp k)" .
    with inv obtain oids old where sync: "synced oids old k" by (auto simp: desk_inv_def)
    then have "synced oids old k'" using m(2) by (simp add: synced_def Let_def k')
    then show ?thesis using inv by (auto simp: desk_inv_def k' damage_ok_def)
  qed
  ultimately show ?thesis ..
qed

lemma desk_invD:
  assumes "desk_inv k"
  shows "disp_ok (ddisp k)" "dsp_on (ddisp k)" "compos_stride (ddisp k) = dsp_width (ddisp k)"
    "\<And>s. s \<in> set (slots (dcomp k)) \<Longrightarrow> s \<noteq> 0 \<and> surf_ok (surf (dgfx k) s)" "distinct (slots (dcomp k))"
    "length (slots (dcomp k)) \<le> COMPOSITOR_MAX_SURFACES" "damage_ok (carry_damage (dcomp k))"
  using assms by (auto simp: desk_inv_def disp_ok_def)

lemma frame_paints:
  assumes inv: "desk_inv k" and fit: "length (frame_requests (frame_screen (ddisp k)) (surf (dgfx k)) (dcomp k)) \<le> DAMAGE_MAX_RECTS"
    and d': "ddisp k' = display_present_damage dmg ((ddisp k)\<lparr>compos_buf := dpix (parallel_compose cpu online vb
        (back_buf (ddisp k)) dmg (scene (surf (dgfx k)) (slots (dcomp k))) (args_bg (dcomp k)))\<rparr>)"
    and dmg: "dmg = frame_damage (frame_screen (ddisp k)) (surf (dgfx k)) (dcomp k)"
    and k': "slots (dcomp k') = slots (dcomp k)" "args_bg (dcomp k') = args_bg (dcomp k)" "carry_damage (dcomp k') = []"
      "\<And>s. surf (dgfx k') s = (if s \<in> set (slots (dcomp k)) then snapshot (surf (dgfx k) s) else surf (dgfx k) s)"
  shows "repainted k' \<and> desk_inv k'"
proof -
  let ?sf = "surf (dgfx k)" and ?sl = "slots (dcomp k)" and ?sf' = "surf (dgfx k')"
  note D = desk_invD [OF inv]
  have zs: "\<forall>s\<in>set (scene ?sf ?sl). surf_ok s" using D(4) by (auto simp: scene_def)
  have dok: "damage_ok dmg" unfolding dmg by (rule frame_damage_covers(1) [OF fit])
  note F = frame_display [OF D(1) zs dok d']
  have sc: "screen_cells (back_buf (ddisp k')) = screen_cells (back_buf (ddisp k))"
    using F(2,3) by (simp add: screen_cells_def)
  have col: "scene_colour (scene ?sf' ?sl) bg p = scene_colour (scene ?sf ?sl) bg p" for bg p
    by (rule scene_snapshot) (simp add: k')
  have rep: "repainted k'"
  proof -
    have "colour (back_buf (ddisp k')) p = scene_colour (scene ?sf ?sl) (args_bg (dcomp k)) p \<and>
        colour (front_buf (ddisp k')) p = colour (back_buf (ddisp k')) p" if "p \<in> screen_cells (back_buf (ddisp k))" for p
    proof (cases "p \<in> covered dmg")
      case True
      with F(4) [OF that] show ?thesis by simp
    next
      case False
      with F(4) [OF that] missed_pixel(3,4) [OF inv fit that] show ?thesis by (simp add: dmg)
    qed
    then show ?thesis by (simp add: repainted_def k' sc col)
  qed
  have snap: "snap_of (?sf' s) (?sf' s) \<and> s_prev_known (?sf' s) \<and> surf_ok (?sf' s)" if "s \<in> set ?sl" for s
    using that D(4) by (simp add: k' snapshot_snap snapshot_ok)
  have "synced ?sl ?sf' k'"
    using rep snap unfolding synced_def repainted_def Let_def by (auto simp: k' intro: filter_cong)
  then have "desk_inv k'"
    using F(1-3) inv snap by (auto simp: desk_inv_def k' damage_ok_def)
  with rep show ?thesis ..
qed

lemma frame_repaints_inv:
  assumes inv: "desk_inv k" and fit: "length (frame_requests (frame_screen (ddisp k)) (surf (dgfx k)) (dcomp k)) \<le> DAMAGE_MAX_RECTS"
    and k': "k' = compositor_frame cpu online vb (args_bg (dcomp k)) k"
  shows "repainted k' \<and> desk_inv k'"
proof (cases "frame_damage (frame_screen (ddisp k)) (surf (dgfx k)) (dcomp k) = []")
  case True
  with desk_invD(2) [OF inv] show ?thesis
    by (intro frame_skips [OF inv fit True])
       (simp_all add: k' compositor_frame_def Let_def frame_screen_def damage_reset_def)
next
  case False
  have b: "\<lparr>dpix = compos_buf (ddisp k), dwidth = dsp_width (ddisp k), dheight = dsp_height (ddisp k), dstride = dsp_width (ddisp k)\<rparr> =
      back_buf (ddisp k)"
    by (simp add: back_buf_def desk_invD(3) [OF inv])

  show ?thesis
    using desk_invD(2) [OF inv] False
    by (intro frame_paints [OF inv fit _ refl])
       (simp_all add: k' compositor_frame_def Let_def frame_screen_def damage_reset_def b z_sorted_sort scene_def)
qed


subsection \<open>The operations between frames\<close>

text \<open>
  What an operation on one surface may do without losing damage: it keeps the surface well formed, leaves the snapshot and
  the size alone, and every pixel it writes is inside the dirty region afterwards.
\<close>

definition same_snapshot :: "surface \<Rightarrow> surface \<Rightarrow> bool" where
  "same_snapshot s s' \<longleftrightarrow>
     s_prev_known s' = s_prev_known s \<and> s_prev_x s' = s_prev_x s \<and> s_prev_y s' = s_prev_y s \<and>
     s_prev_w s' = s_prev_w s \<and> s_prev_h s' = s_prev_h s \<and> s_prev_z s' = s_prev_z s \<and> s_prev_alpha s' = s_prev_alpha s \<and>
     s_prev_visible s' = s_prev_visible s \<and> s_prev_opaque s' = s_prev_opaque s \<and>
     s_prev_corner_radius s' = s_prev_corner_radius s \<and> s_width s' = s_width s \<and> s_height s' = s_height s"

definition tracked :: "surface \<Rightarrow> surface \<Rightarrow> bool" where
  "tracked s s' \<longleftrightarrow>
     surf_ok s' \<and> same_snapshot s s' \<and>
     (\<forall>q \<in> cells (rect_make 0 0 (sint (s_width s)) (sint (s_height s))) - dirty_cells s'.
        q \<notin> dirty_cells s \<and> src_px (surface_src s') (fst q) (snd q) = src_px (surface_src s) (fst q) (snd q))"

lemma tracked_refl: "surf_ok s \<Longrightarrow> tracked s s"
  by (simp add: tracked_def same_snapshot_def)

lemma tracked_snap:
  assumes "tracked s s'" "snap_of s old"
  shows "snap_of s' old"
proof -
  have "src_px (surface_src s') (fst q) (snd q) = src_px (surface_src old) (fst q) (snd q)"
    if "q \<in> cells (rect_make 0 0 (sint (s_width s)) (sint (s_height s))) - dirty_cells s'" for q
  proof -
    have "q \<notin> dirty_cells s" and e: "src_px (surface_src s') (fst q) (snd q) = src_px (surface_src s) (fst q) (snd q)"
      using that assms(1) unfolding tracked_def by blast+
    with that snap_px [OF assms(2), of q] show ?thesis by simp
  qed
  moreover have "same_snapshot s s'" using assms(1) by (simp add: tracked_def)
  ultimately show ?thesis using assms(2) by (simp add: same_snapshot_def snap_of_def)
qed

lemma desk_inv_tracked:
  assumes inv: "desk_inv k" and f: "surf_ok (surf (dgfx k) p) \<Longrightarrow> tracked (surf (dgfx k) p) (f (surf (dgfx k) p))"
  shows "desk_inv (k\<lparr>dgfx := with_surface p f (dgfx k)\<rparr>)"
proof (cases "p = 0")
  case True
  with inv show ?thesis by (simp add: with_surface_def)
next
  case False
  let ?sf = "surf (dgfx k)"
  define k' where "k' = k\<lparr>dgfx := with_surface p f (dgfx k)\<rparr>"
  have k': "surf (dgfx k') = ?sf(p := f (?sf p))" "dcomp k' = dcomp k" "ddisp k' = ddisp k"
    using False by (simp_all add: k'_def with_surface_def)
  have tr: "tracked (?sf s) (surf (dgfx k') s)" if "s \<in> set (slots (dcomp k))" for s
    using desk_invD(4) [OF inv that] f tracked_refl by (cases "s = p") (simp_all add: k')
  then have ok: "surf_ok (surf (dgfx k') s)" "s_prev_known (surf (dgfx k') s) = s_prev_known (?sf s)"
    if "s \<in> set (slots (dcomp k))" for s
    using that unfolding tracked_def same_snapshot_def by blast+
  have "synced oids old k'" if sync: "synced oids old k" for oids old
  proof -
    have "snap_of (surf (dgfx k') s) (old s)" if "s \<in> set (slots (dcomp k))" "s_prev_known (?sf s)" for s
      using tracked_snap [OF tr [OF that(1)]] sync that by (simp add: synced_def Let_def)
    moreover have "filter (\<lambda>s. s_prev_known (surf (dgfx k') s) \<and> covers (old s) q) (slots (dcomp k)) =
        filter (\<lambda>s. s_prev_known (?sf s) \<and> covers (old s) q) (slots (dcomp k))" for q
      by (rule filter_cong) (simp_all add: ok)
    ultimately show ?thesis using sync ok(2) unfolding synced_def Let_def k'(2,3) by simp
  qed
  moreover have "\<forall>s\<in>set (slots (dcomp k)). s \<noteq> 0 \<and> surf_ok (surf (dgfx k') s)" using ok(1) desk_invD(4) [OF inv] by blast
  ultimately have "desk_inv k'" using inv unfolding desk_inv_def k'(2,3) by blast
  then show ?thesis by (simp only: k'_def)
qed


text \<open>The client's own drawing: new contents, equal to the old ones outside a rectangle, which it then marks.\<close>

definition draw_rect :: "u32 list \<Rightarrow> int \<Rightarrow> int \<Rightarrow> int \<Rightarrow> int \<Rightarrow> surface \<Rightarrow> surface" where
  "draw_rect px lx0 ly0 lx1 ly1 s = mark_dirty_rect lx0 ly0 lx1 ly1 (s\<lparr>s_pixels := px\<rparr>)"

definition drawn_inside :: "u32 list \<Rightarrow> int \<Rightarrow> int \<Rightarrow> int \<Rightarrow> int \<Rightarrow> surface \<Rightarrow> bool" where
  "drawn_inside px lx0 ly0 lx1 ly1 s \<longleftrightarrow>
     length px = length (s_pixels s) \<and>
     (\<forall>x y. 0 \<le> x \<and> x < sint (s_width s) \<and> 0 \<le> y \<and> y < sint (s_height s) \<and> \<not> (lx0 \<le> x \<and> x < lx1 \<and> ly0 \<le> y \<and> y < ly1) \<longrightarrow>
        px ! (nat y * unat (s_width s) + nat x) = s_pixels s ! (nat y * unat (s_width s) + nat x))"

lemma mark_dirty_rect_prev [simp]:
  "same_snapshot s (mark_dirty_rect lx0 ly0 lx1 ly1 s)"
  by (auto simp: mark_dirty_rect_def Let_def same_snapshot_def)

lemma tracked_geom:
  assumes "surf_ok s"
  shows "tracked s (s\<lparr>s_x := x, s_y := y\<rparr>)" "tracked s (s\<lparr>s_z := z\<rparr>)" "tracked s (s\<lparr>s_alpha := a\<rparr>)"
    "tracked s (s\<lparr>s_visible := v\<rparr>)" "surf_ok (s\<lparr>s_corner_radius := r\<rparr>) \<Longrightarrow> tracked s (s\<lparr>s_corner_radius := r\<rparr>)"
proof -
  have src: "surface_src (s\<lparr>s_x := x, s_y := y\<rparr>) = surface_src s" "surface_src (s\<lparr>s_z := z\<rparr>) = surface_src s"
    "surface_src (s\<lparr>s_alpha := a\<rparr>) = surface_src s" "surface_src (s\<lparr>s_visible := v\<rparr>) = surface_src s"
    "surface_src (s\<lparr>s_corner_radius := r\<rparr>) = surface_src s" by (simp_all add: surface_src_def)
  have ok: "surf_ok (s\<lparr>s_x := x, s_y := y\<rparr>)" "surf_ok (s\<lparr>s_z := z\<rparr>)" "surf_ok (s\<lparr>s_alpha := a\<rparr>)" "surf_ok (s\<lparr>s_visible := v\<rparr>)"
    using assms by (simp_all add: surf_ok_def)
  show "tracked s (s\<lparr>s_x := x, s_y := y\<rparr>)" "tracked s (s\<lparr>s_z := z\<rparr>)" "tracked s (s\<lparr>s_alpha := a\<rparr>)"
    "tracked s (s\<lparr>s_visible := v\<rparr>)" "surf_ok (s\<lparr>s_corner_radius := r\<rparr>) \<Longrightarrow> tracked s (s\<lparr>s_corner_radius := r\<rparr>)"
    using ok by (simp_all add: tracked_def same_snapshot_def src dirty_cells_def)
qed

lemma tracked_full:
  assumes "surf_ok s" "length px = length (s_pixels s)"
  shows "tracked s (s\<lparr>s_pixels := px, s_pixels_dirty := True, s_dirty_rect_valid := False\<rparr>)"
  using assms by (simp add: tracked_def same_snapshot_def dirty_cells_def surf_ok_def)

lemma tracked_draw:
  assumes ok: "surf_ok s" and part: "\<not> s_pixels_dirty s \<or> s_dirty_rect_valid s" and px: "drawn_inside px lx0 ly0 lx1 ly1 s"
  shows "tracked s (draw_rect px lx0 ly0 lx1 ly1 s)"
proof -
  let ?s = "s\<lparr>s_pixels := px\<rparr>" and ?s' = "draw_rect px lx0 ly0 lx1 ly1 s"
  have ok1: "surf_ok ?s" using ok px by (simp add: surf_ok_def drawn_inside_def)
  have d0: "dirty_cells ?s = dirty_cells s" by (simp add: dirty_cells_def)
  have d: "dirty_cells s \<union> cells (rect_make lx0 ly0 (lx1 - lx0) (ly1 - ly0)) \<inter>
      cells (rect_make 0 0 (sint (s_width s)) (sint (s_height s))) \<subseteq> dirty_cells ?s'"
    using mark_dirty_rect_covers [OF ok1, of lx0 ly0 lx1 ly1] part d0 by (simp add: draw_rect_def)
  have px': "s_pixels ?s' = px" "s_width ?s' = s_width s" "s_height ?s' = s_height s" "s_pixels_ptr ?s' = s_pixels_ptr s"
    by (simp_all add: draw_rect_def mark_dirty_rect_def Let_def)
  have same: "q \<notin> dirty_cells s \<and> src_px (surface_src ?s') (fst q) (snd q) = src_px (surface_src s) (fst q) (snd q)"
    if "q \<in> cells (rect_make 0 0 (sint (s_width s)) (sint (s_height s))) - dirty_cells ?s'" for q
  proof -
    obtain x y where q: "q = (x, y)" by (cases q)
    have out: "(x, y) \<notin> cells (rect_make lx0 ly0 (lx1 - lx0) (ly1 - ly0))" "q \<notin> dirty_cells s" using that d q by blast+
    have "0 \<le> x \<and> x < sint (s_width s) \<and> 0 \<le> y \<and> y < sint (s_height s)" using that by (simp add: q)
    with out(1) px have "px ! (nat y * unat (s_width s) + nat x) = s_pixels s ! (nat y * unat (s_width s) + nat x)"
      by (simp add: drawn_inside_def)
    then show ?thesis using out(2) ok by (simp add: q src_px_def surface_src_def px' surf_ok_def)
  qed
  have "surf_ok ?s'" unfolding draw_rect_def by (rule mark_dirty_rect_ok [OF ok1])
  moreover have "same_snapshot s ?s'"
    using mark_dirty_rect_prev [of ?s lx0 ly0 lx1 ly1] by (simp add: draw_rect_def same_snapshot_def)
  ultimately show ?thesis using same by (simp add: tracked_def)
qed


text \<open>The list operations.\<close>

lemma desk_inv_add:
  assumes inv: "desk_inv k" and s: "surf_ok (surf (dgfx k) s)" "\<not> s_prev_known (surf (dgfx k) s)"
  shows "desk_inv (k\<lparr>dcomp := snd (compositor_add s (dcomp k))\<rparr>)"
proof (cases "s = 0 \<or> s \<in> set (slots (dcomp k)) \<or> length (slots (dcomp k)) \<ge> COMPOSITOR_MAX_SURFACES")
  case True
  with inv show ?thesis by (auto simp: compositor_add_def)
next
  case False
  then have c: "snd (compositor_add s (dcomp k)) = (dcomp k)\<lparr>slots := slots (dcomp k) @ [s]\<rparr>"
    by (simp add: compositor_add_def)
  let ?k = "k\<lparr>dcomp := (dcomp k)\<lparr>slots := slots (dcomp k) @ [s]\<rparr>\<rparr>"
  have "synced oids old ?k" if "synced oids old k" for oids old
    using that s(2) by (simp add: synced_def Let_def)
  then have "full_damage_requested (dcomp k) \<or> (\<exists>oids old. synced oids old ?k)" using inv unfolding desk_inv_def by blast
  then show ?thesis using inv s(1) False unfolding c desk_inv_def by simp
qed

lemma filter_remove1_out: "\<not> P x \<Longrightarrow> filter P (remove1 x xs) = filter P xs"
  by (induction xs) auto

lemma desk_inv_remove:
  assumes inv: "desk_inv k" and room: "length (carry_damage (dcomp k)) < DAMAGE_MAX_RECTS"
  shows "desk_inv (k\<lparr>dcomp := compositor_remove (surf (dgfx k)) s (dcomp k)\<rparr>)"
proof (cases "s = 0 \<or> s \<notin> set (slots (dcomp k))")
  case True
  with inv show ?thesis by (auto simp: compositor_remove_def)
next
  case False
  let ?sf = "surf (dgfx k)" and ?c = "dcomp k"
  let ?r = "rect_make (s_prev_x (?sf s)) (s_prev_y (?sf s)) (sint (s_prev_w (?sf s))) (sint (s_prev_h (?sf s)))"
  define c' where "c' = compositor_remove ?sf s ?c"
  have c': "slots c' = remove1 s (slots ?c)" "args_bg c' = args_bg ?c" "full_damage_requested c' = full_damage_requested ?c"
    "carry_damage c' = (if s_prev_known (?sf s) then damage_add (carry_damage ?c) ?r else carry_damage ?c)"
    using False by (simp_all add: c'_def compositor_remove_def Let_def)
  have ok: "damage_ok (carry_damage c')" using desk_invD(7) [OF inv] by (simp add: c' damage_add_ok)
  have cov: "covered (carry_damage ?c) \<subseteq> covered (carry_damage c')" "s_prev_known (?sf s) \<Longrightarrow> cells ?r \<subseteq> covered (carry_damage c')"
    using damage_add_covers [OF desk_invD(7) [OF inv] room, of ?r] by (auto simp: c')
  have "synced oids old (k\<lparr>dcomp := c'\<rparr>)" if sync: "synced oids old k" for oids old
  proof -
    have "filter (\<lambda>s. covers (old s) p) oids = filter (\<lambda>s. s_prev_known (?sf s) \<and> covers (old s) p) (slots c')"
      if p: "p \<in> screen_cells (back_buf (ddisp k)) - covered (carry_damage c')" for p
    proof -
      have "\<not> (s_prev_known (?sf s) \<and> covers (old s) p)"
      proof
        assume a: "s_prev_known (?sf s) \<and> covers (old s) p"
        then have "snap_of (?sf s) (old s)" using sync False by (simp add: synced_def Let_def)
        with a have "p \<in> cells ?r" by (simp add: snap_of_def covers_def surface_effective_rect_def)
        with a p cov(2) show False by blast
      qed
      moreover have "p \<in> screen_cells (back_buf (ddisp k)) - covered (carry_damage ?c)" using p cov(1) by blast
      then have "filter (\<lambda>s. covers (old s) p) oids = filter (\<lambda>s. s_prev_known (?sf s) \<and> covers (old s) p) (slots ?c)"
        using sync unfolding synced_def Let_def by blast
      ultimately show ?thesis by (simp add: c'(1) filter_remove1_out)
    qed
    moreover have "set (slots c') \<subseteq> set (slots ?c)" by (simp add: c'(1) set_remove1_subset)
    ultimately show ?thesis using sync by (auto simp: synced_def Let_def c'(2))
  qed
  then have "full_damage_requested c' \<or> (\<exists>oids old. synced oids old (k\<lparr>dcomp := c'\<rparr>))"
    using inv unfolding desk_inv_def c'(3) by blast
  moreover have "\<forall>q\<in>set (slots c'). q \<noteq> 0 \<and> surf_ok (?sf q)" "distinct (slots c')" "length (slots c') \<le> COMPOSITOR_MAX_SURFACES"
    using desk_invD(4-6) [OF inv] set_remove1_subset [of s "slots ?c"]
    by (auto simp: c'(1) distinct_remove1 length_remove1)
  ultimately show ?thesis using inv ok unfolding desk_inv_def c'_def [symmetric] by simp
qed

subsection \<open>Runs\<close>

text \<open>
  One operation on the graphics state: the surface operations, the client's drawing, the compositor's calls, and a frame.
  The side conditions are the ones the damage list needs: a frame collects at most as many rectangles as the list holds, and
  a partial mark does not follow a full one (see \<open>mark_dirty_rect_after_clear\<close>, \<open>damage_add_overflow_loses\<close>).
\<close>

inductive desk_step :: "simd \<Rightarrow> nat \<Rightarrow> bool \<Rightarrow> desk \<Rightarrow> desk \<Rightarrow> bool" for cpu online vb where
  move: "desk_step cpu online vb k (k\<lparr>dgfx := surface_move p x y (dgfx k)\<rparr>)"
| set_z: "desk_step cpu online vb k (k\<lparr>dgfx := surface_set_z p z (dgfx k)\<rparr>)"
| set_alpha: "desk_step cpu online vb k (k\<lparr>dgfx := surface_set_alpha p a (dgfx k)\<rparr>)"
| show_hide: "desk_step cpu online vb k (k\<lparr>dgfx := surface_show p v (dgfx k)\<rparr>)"
| corner: "desk_step cpu online vb k (k\<lparr>dgfx := surface_set_corner_radius p r (dgfx k)\<rparr>)"
| dirty: "desk_step cpu online vb k (k\<lparr>dgfx := surface_mark_dirty p (dgfx k)\<rparr>)"
| clear: "desk_step cpu online vb k (k\<lparr>dgfx := surface_clear p argb (dgfx k)\<rparr>)"
| draw: "drawn_inside px lx0 ly0 lx1 ly1 (surf (dgfx k) p) \<Longrightarrow>
    \<not> s_pixels_dirty (surf (dgfx k) p) \<or> s_dirty_rect_valid (surf (dgfx k) p) \<Longrightarrow>
    desk_step cpu online vb k (k\<lparr>dgfx := with_surface p (draw_rect px lx0 ly0 lx1 ly1) (dgfx k)\<rparr>)"
| raise: "desk_step cpu online vb k (k\<lparr>dgfx := compositor_raise p (dcomp k) (dgfx k)\<rparr>)"
| lower: "desk_step cpu online vb k (k\<lparr>dgfx := compositor_lower p (dcomp k) (dgfx k)\<rparr>)"
| add: "surf_ok (surf (dgfx k) p) \<Longrightarrow> \<not> s_prev_known (surf (dgfx k) p) \<Longrightarrow>
    desk_step cpu online vb k (k\<lparr>dcomp := snd (compositor_add p (dcomp k))\<rparr>)"
| remove: "length (carry_damage (dcomp k)) < DAMAGE_MAX_RECTS \<Longrightarrow>
    desk_step cpu online vb k (k\<lparr>dcomp := compositor_remove (surf (dgfx k)) p (dcomp k)\<rparr>)"
| background: "desk_step cpu online vb k (k\<lparr>dcomp := compositor_set_desktop_bg bg (dcomp k)\<rparr>)"
| full: "desk_step cpu online vb k (k\<lparr>dcomp := compositor_mark_full_damage (dcomp k)\<rparr>)"
| frame: "length (frame_requests (frame_screen (ddisp k)) (surf (dgfx k)) (dcomp k)) \<le> DAMAGE_MAX_RECTS \<Longrightarrow>
    desk_step cpu online vb k (compositor_frame cpu online vb (args_bg (dcomp k)) k)"

lemma surface_op_inv:
  assumes inv: "desk_inv k"
  shows "desk_inv (k\<lparr>dgfx := surface_move p x y (dgfx k)\<rparr>)" "desk_inv (k\<lparr>dgfx := surface_set_z p z (dgfx k)\<rparr>)"
    "desk_inv (k\<lparr>dgfx := surface_set_alpha p a (dgfx k)\<rparr>)" "desk_inv (k\<lparr>dgfx := surface_show p v (dgfx k)\<rparr>)"
    "desk_inv (k\<lparr>dgfx := surface_mark_dirty p (dgfx k)\<rparr>)" "desk_inv (k\<lparr>dgfx := surface_clear p c (dgfx k)\<rparr>)"
    "desk_inv (k\<lparr>dgfx := surface_set_corner_radius p r (dgfx k)\<rparr>)"
    "desk_inv (k\<lparr>dgfx := compositor_raise p cs (dgfx k)\<rparr>)" "desk_inv (k\<lparr>dgfx := compositor_lower p cs (dgfx k)\<rparr>)"
proof -
  let ?s = "surf (dgfx k) p"
  note [intro] = tracked_geom tracked_refl tracked_full
  show "desk_inv (k\<lparr>dgfx := surface_move p x y (dgfx k)\<rparr>)"
    unfolding surface_move_def by (rule desk_inv_tracked [OF inv]) (rule tracked_geom)
  show "desk_inv (k\<lparr>dgfx := surface_set_z p z (dgfx k)\<rparr>)"
    unfolding surface_set_z_def by (rule desk_inv_tracked [OF inv]) (rule tracked_geom)
  show "desk_inv (k\<lparr>dgfx := surface_set_alpha p a (dgfx k)\<rparr>)"
    unfolding surface_set_alpha_def by (rule desk_inv_tracked [OF inv]) (rule tracked_geom)
  show "desk_inv (k\<lparr>dgfx := surface_show p v (dgfx k)\<rparr>)"
    unfolding surface_show_def by (rule desk_inv_tracked [OF inv]) (rule tracked_geom)
  show "desk_inv (k\<lparr>dgfx := surface_mark_dirty p (dgfx k)\<rparr>)" unfolding surface_mark_dirty_def
    using tracked_full [of ?s "s_pixels ?s"] by (intro desk_inv_tracked [OF inv]) simp
  show "desk_inv (k\<lparr>dgfx := surface_clear p c (dgfx k)\<rparr>)" unfolding surface_clear_def
    using tracked_full [of ?s "replicate (unat (s_width ?s) * unat (s_height ?s)) c"]
    by (intro desk_inv_tracked [OF inv]) (auto simp: surf_ok_def)
  show "desk_inv (k\<lparr>dgfx := compositor_raise p cs (dgfx k)\<rparr>)" "desk_inv (k\<lparr>dgfx := compositor_lower p cs (dgfx k)\<rparr>)"
    unfolding compositor_raise_def compositor_lower_def Let_def by (rule desk_inv_tracked [OF inv], auto)+
  show "desk_inv (k\<lparr>dgfx := surface_set_corner_radius p r (dgfx k)\<rparr>)"
  proof (cases "p = 0")
    case False
    have "surf_ok ?s \<Longrightarrow> surf_ok (surf (surface_set_corner_radius p r (dgfx k)) p)" by (rule set_corner_radius_ok)
    then show ?thesis
      unfolding surface_set_corner_radius_def Let_def
      by (intro desk_inv_tracked [OF inv]) (use False in \<open>auto simp: with_surface_def split: if_splits\<close>)
  qed (use inv in \<open>simp add: surface_set_corner_radius_def with_surface_def\<close>)
qed


lemma desk_step_inv:
  assumes "desk_step cpu online vb k k'" "desk_inv k"
  shows "desk_inv k'"
  using assms
proof (induction rule: desk_step.induct)
  case (draw px lx0 ly0 lx1 ly1 k p)
  then show ?case by (intro desk_inv_tracked) (auto intro: tracked_draw)
next
  case (frame k)
  then show ?case using frame_repaints_inv [OF _ _ refl] by blast
qed (simp_all add: surface_op_inv desk_inv_add desk_inv_remove, simp_all add: desk_inv_def compositor_set_desktop_bg_def
    compositor_mark_full_damage_def)

definition desk_start :: "gfx \<Rightarrow> compositor \<Rightarrow> display \<Rightarrow> desk" where
  "desk_start g c d = \<lparr>dgfx = g, dcomp = compositor_init c, ddisp = d\<rparr>"

lemma desk_start_inv:
  assumes "disp_ok d" "0 < unat (dsp_width d)" "0 < unat (dsp_height d)"
  shows "desk_inv (desk_start g c d)"
  using assms by (simp add: desk_inv_def desk_start_def compositor_init_def damage_reset_def damage_ok_def)

lemma desk_run_inv:
  assumes "(desk_step cpu online vb)\<^sup>*\<^sup>* k k'" "desk_inv k"
  shows "desk_inv k'"
  using assms by (induction rule: rtranclp_induct) (auto intro: desk_step_inv)

text \<open>C4: Take a run since \<^verbatim>\<open>compositor_init\<close> on a display of non-zero size: surfaces added, removed, moved, restacked, faded,
  hidden, drawn into, background changes, earlier frames, where (1) every frame of the run and the one after it has at most 16
  damage requests, (2) a client draws with a partial mark only into a surface that is clean or already partially marked, never
  after a full mark, (3) a surface is added only while it has no recorded previous position, and (4) one is removed only while
  the carry list has a free entry.  Then the next frame, which repaints only the damage, leaves every pixel of the back buffer
  and of the scan-out with the colour that repainting the whole scene from the background up would give.\<close>

theorem frame_repaints:
  assumes "disp_ok d" "0 < unat (dsp_width d)" "0 < unat (dsp_height d)"
    and "(desk_step cpu online vb)\<^sup>*\<^sup>* (desk_start g c d) k"
    and "length (frame_requests (frame_screen (ddisp k)) (surf (dgfx k)) (dcomp k)) \<le> DAMAGE_MAX_RECTS"
  shows "repainted (compositor_frame cpu online vb (args_bg (dcomp k)) k)"
  using frame_repaints_inv [OF desk_run_inv [OF assms(4) desk_start_inv [OF assms(1-3)]] assms(5) refl] by blast

definition example_compositor :: compositor where
  "example_compositor = \<lparr>slots = [], carry_damage = [], full_damage_requested = False, args_bg = 0x102030, args_target_hz = 60,
     cs_damage_rects = 0, cs_damage_px = 0, cs_skipped = 0\<rparr>"

definition example_cpu :: simd where
  "example_cpu = \<lparr>has_sse2 = True, has_avx2 = False\<rparr>"

definition example_desk :: desk where
  "example_desk = (desk_start example_gfx example_compositor example_display)
     \<lparr>dcomp := snd (compositor_add 8192 (compositor_init example_compositor))\<rparr>"

lemma example_desk_step: "desk_step example_cpu 4 False (desk_start example_gfx example_compositor example_display) example_desk"
proof -
  have "surf_ok (surf (dgfx (desk_start example_gfx example_compositor example_display)) 8192)"
    "\<not> s_prev_known (surf (dgfx (desk_start example_gfx example_compositor example_display)) 8192)"
    using example_surface_ok by (simp_all add: desk_start_def example_gfx_def example_surface_def init_surface_def)
  from desk_step.add [OF this] show ?thesis by (simp add: example_desk_def desk_start_def)
qed

lemma example_desk_run:
  "(desk_step example_cpu 4 False)\<^sup>*\<^sup>* (desk_start example_gfx example_compositor example_display) example_desk"
  by (rule r_into_rtranclp) (rule example_desk_step)

lemma example_desk_fits:
  "length (frame_requests (frame_screen (ddisp example_desk)) (surf (dgfx example_desk)) (dcomp example_desk)) \<le> DAMAGE_MAX_RECTS"
  by (simp add: frame_requests_def example_desk_def desk_start_def compositor_add_def compositor_init_def example_compositor_def
      damage_reset_def surface_requests_def)

theorem frame_repaints_witness:
  "slots (dcomp example_desk) = [8192] \<and> repainted (compositor_frame example_cpu 4 False (args_bg (dcomp example_desk)) example_desk)"
proof
  show "slots (dcomp example_desk) = [8192]"
    by (simp add: example_desk_def compositor_add_def compositor_init_def)
  have "0 < unat (dsp_width example_display)" "0 < unat (dsp_height example_display)" by (simp_all add: example_display_def)
  from frame_repaints [OF example_display_ok this example_desk_run example_desk_fits]
  show "repainted (compositor_frame example_cpu 4 False (args_bg (dcomp example_desk)) example_desk)" .
qed

text \<open>A surface that was shown, removed and added again unchanged asks for no damage: \<^verbatim>\<open>compositor_add\<close> keeps \<^verbatim>\<open>prev_known\<close>, which
  its comment takes to be 0.\<close>

theorem readded_surface_silent: "surface_damage (snapshot s) dmg = dmg \<and> s_prev_known (snapshot s)"
  by (simp add: surface_damage_def surface_changed_def snapshot_def Let_def)


subsection \<open>Raising\<close>

lemma fold_max:
  "fold (\<lambda>z m. case m of None \<Rightarrow> Some z | Some x \<Rightarrow> if z > x then Some z else Some x) zs (Some a) = Some (fold max zs (a :: int))"
  by (induction zs arbitrary: a) (auto simp: max_def)

lemma fold_max_ge: "a \<le> fold max zs (a :: int) \<and> (\<forall>z\<in>set zs. z \<le> fold max zs a)"
  by (induction zs arbitrary: a) (auto dest: order_trans [rotated], (meson max.bounded_iff)+)

lemma top_z_user_max:
  assumes "s \<in> set (slots c)" "s_z (sf s) < SURFACE_Z_CURSOR_LAYER"
  shows "s_z (sf s) \<le> top_z_user sf c"
proof -
  have mem: "s_z (sf s) \<in> set (user_zs sf c)" using assms by (simp add: user_zs_def)
  then obtain a zs where u: "user_zs sf c = a # zs" by (cases "user_zs sf c") auto
  then have "top_z_user sf c = fold max zs a" by (simp add: top_z_user_def fold_max)
  with mem u fold_max_ge [of a zs] show ?thesis by auto
qed

text \<open>\<^verbatim>\<open>compositor_raise\<close> puts a window above every other window (unless the top z is already saturated) and never into the
  cursor's layer.\<close>

theorem raise_on_top:
  assumes "p \<noteq> 0" "s_z (surf g p) < SURFACE_Z_CURSOR_LAYER" "top_z_user (surf g) c < SURFACE_Z_USER_MAX"
    and "q \<in> set (slots c)" "q \<noteq> p" "s_z (surf g q) < SURFACE_Z_CURSOR_LAYER"
  shows "s_z (surf (compositor_raise p c g) q) < s_z (surf (compositor_raise p c g) p) \<and>
         s_z (surf (compositor_raise p c g) p) < SURFACE_Z_CURSOR_LAYER"
  using assms top_z_user_max [of q c "surf g", OF assms(4,6)] by (simp add: compositor_raise_def with_surface_def Let_def)

theorem raise_on_top_witness:
  "s_z (surf (compositor_raise 4096 (example_compositor\<lparr>slots := [4096, 8192]\<rparr>) example_gfx) 8192) <
   s_z (surf (compositor_raise 4096 (example_compositor\<lparr>slots := [4096, 8192]\<rparr>) example_gfx) 4096)"
proof -
  have z: "s_z (surf example_gfx x) = 0" for x by (simp add: example_gfx_def example_surface_def init_surface_def)
  have "top_z_user (surf example_gfx) (example_compositor\<lparr>slots := [4096, 8192]\<rparr>) < SURFACE_Z_USER_MAX"
    by (simp add: top_z_user_def user_zs_def z)
  from raise_on_top [OF _ _ this, of 4096 8192] show ?thesis by (simp add: z)
qed


subsection \<open>Bounds of the pacing\<close>

text \<open>The animation step is never negative and never above a quarter of a second, however long the stall.\<close>

lemma dt_capped:
  assumes "4 \<le> hz"
  shows "0 \<le> tsc_elapsed_to_dt delta hz \<and> tsc_elapsed_to_dt delta hz \<le> 16384"
proof -
  have "hz div 4 * 65536 \<le> 16384 * hz" by simp
  then have "x * 65536 div hz \<le> 16384" if "x \<le> hz div 4" for x
    using that assms by (intro div_le_mono [of "x * 65536" "16384 * hz" hz, simplified nonzero_mult_div_cancel_right, THEN order_trans]) auto
  moreover have "hz div 4 \<noteq> 0" using assms by simp
  ultimately show ?thesis by (auto simp: tsc_elapsed_to_dt_def Let_def)
qed

text \<open>After a frame the deadline is at most a period behind, and a drop is counted exactly when it had to be moved.\<close>

lemma next_deadline_close:
  "now \<le> next_deadline (next_frame_tsc per now q) + per"
  "cs_drops (next_frame_tsc per now q) = cs_drops q + (if now > next_deadline q + 2 * per then 1 else 0)"
  "now \<le> next_deadline (next_frame_tick per now q)"
  by (simp_all add: next_frame_tsc_def next_frame_tick_def Let_def)


subsection \<open>The interface of the clients\<close>

text \<open>
  What the display server and the window manager rely on: an invariant of the host that placing, showing and listing a fresh
  surface keep.
\<close>

locale surface_host =
  fixes inv :: "'k \<Rightarrow> bool" and fresh :: "nat \<Rightarrow> 'k \<Rightarrow> bool"
    and move :: "nat \<Rightarrow> int \<Rightarrow> int \<Rightarrow> 'k \<Rightarrow> 'k" and set_z :: "nat \<Rightarrow> int \<Rightarrow> 'k \<Rightarrow> 'k"
    and visible :: "nat \<Rightarrow> bool \<Rightarrow> 'k \<Rightarrow> 'k" and add :: "nat \<Rightarrow> 'k \<Rightarrow> int \<times> 'k"
  assumes move_inv: "inv k \<Longrightarrow> inv (move s x y k)"
    and set_z_inv: "inv k \<Longrightarrow> inv (set_z s z k)"
    and visible_inv: "inv k \<Longrightarrow> inv (visible s v k)"
    and add_inv: "inv k \<Longrightarrow> fresh s k \<Longrightarrow> inv (snd (add s k))"
    and fresh_move: "fresh s k \<Longrightarrow> fresh s (move s x y k)"
    and fresh_set_z: "fresh s k \<Longrightarrow> fresh s (set_z s z k)"
begin

lemma place_inv: "inv k \<Longrightarrow> inv (set_z s z (move s x y k))"
  by (intro set_z_inv move_inv)

lemma submit_inv: "inv k \<Longrightarrow> fresh s k \<Longrightarrow> inv (snd (add s (set_z s z (move s x y k))))"
  by (intro add_inv place_inv fresh_set_z fresh_move)

lemma visible_all_inv:
  "inv k \<Longrightarrow> inv (fold (\<lambda>i k. case g i of None \<Rightarrow> k | Some e \<Rightarrow> visible (p e) (v e) k) is k)"
  by (induction "is" arbitrary: k) (auto intro: visible_inv split: option.splits)

end

definition desk_gfx :: "(gfx \<Rightarrow> gfx) \<Rightarrow> desk \<Rightarrow> desk" where
  "desk_gfx f k = k\<lparr>dgfx := f (dgfx k)\<rparr>"

definition desk_add :: "nat \<Rightarrow> desk \<Rightarrow> int \<times> desk" where
  "desk_add s k = (let (r, c) = compositor_add s (dcomp k) in (r, k\<lparr>dcomp := c\<rparr>))"

definition desk_remove :: "nat \<Rightarrow> desk \<Rightarrow> desk" where
  "desk_remove s k = k\<lparr>dcomp := compositor_remove (surf (dgfx k)) s (dcomp k)\<rparr>"

definition desk_fresh :: "nat \<Rightarrow> desk \<Rightarrow> bool" where
  "desk_fresh s k \<longleftrightarrow> surf_ok (surf (dgfx k) s) \<and> \<not> s_prev_known (surf (dgfx k) s)"

lemma desk_add_snd: "snd (desk_add s k) = k\<lparr>dcomp := snd (compositor_add s (dcomp k))\<rparr>"
  by (simp add: desk_add_def split: prod.splits)

interpretation host: surface_host desk_inv desk_fresh "\<lambda>s x y. desk_gfx (surface_move s x y)" "\<lambda>s z. desk_gfx (surface_set_z s z)"
  "\<lambda>s v. desk_gfx (surface_show s v)" desk_add
proof
  fix k s x y z v
  show "desk_inv k \<Longrightarrow> desk_inv (desk_gfx (surface_move s x y) k)" "desk_inv k \<Longrightarrow> desk_inv (desk_gfx (surface_set_z s z) k)"
    "desk_inv k \<Longrightarrow> desk_inv (desk_gfx (surface_show s v) k)"
    by (simp_all add: desk_gfx_def surface_op_inv)
  show "desk_inv k \<Longrightarrow> desk_fresh s k \<Longrightarrow> desk_inv (snd (desk_add s k))"
    by (simp add: desk_add_snd desk_fresh_def desk_inv_add)
  show "desk_fresh s k \<Longrightarrow> desk_fresh s (desk_gfx (surface_move s x y) k)" "desk_fresh s k \<Longrightarrow> desk_fresh s (desk_gfx (surface_set_z s z) k)"
    by (auto simp: desk_fresh_def desk_gfx_def surface_move_def surface_set_z_def with_surface_def surf_ok_def)
qed

end
