(* ===== verification/DisplayServer.thy ===== *)
theory DisplayServer
  imports Compositor
begin

text \<open>
  The display server's entry points, \<^verbatim>\<open>src/gpu/display_server.c\<close>: clients hand surfaces to the compositor, place them, mark
  them damaged and withdraw them.  The state is the graphics side of the kernel (\<open>desk\<close>); the results are the \<^verbatim>\<open>DS_\<close> codes.
\<close>

abbreviation DS_OK :: int where "DS_OK \<equiv> 0"
abbreviation DS_ERR_INVAL :: int where "DS_ERR_INVAL \<equiv> -1"
abbreviation DS_ERR_NOSPC :: int where "DS_ERR_NOSPC \<equiv> -2"
abbreviation DS_PROTOCOL_MAGIC :: u32 where "DS_PROTOCOL_MAGIC \<equiv> 0x44535031"

subsection \<open>Operations\<close>

definition display_server_protocol_magic :: u32 where
  "display_server_protocol_magic = DS_PROTOCOL_MAGIC"

definition display_server_surface_submit :: "nat \<Rightarrow> int \<Rightarrow> int \<Rightarrow> int \<Rightarrow> desk \<Rightarrow> int \<times> desk" where
  "display_server_surface_submit s x y z k =
     (if s = 0 then (DS_ERR_INVAL, k)
      else let k = desk_gfx (surface_move s x y) k;
               k = desk_gfx (surface_set_z s z) k;
               (r, k) = desk_add s k
           in if r \<noteq> 0 then (DS_ERR_NOSPC, k) else (DS_OK, k))"

definition display_server_surface_withdraw :: "nat \<Rightarrow> desk \<Rightarrow> desk" where
  "display_server_surface_withdraw s k = desk_remove s k"

definition display_server_surface_place :: "nat \<Rightarrow> int \<Rightarrow> int \<Rightarrow> int \<Rightarrow> desk \<Rightarrow> int \<times> desk" where
  "display_server_surface_place s x y z k =
     (if s = 0 then (DS_ERR_INVAL, k)
      else let k = desk_gfx (surface_move s x y) k; k = desk_gfx (surface_set_z s z) k in (DS_OK, k))"

definition display_server_surface_damage_full :: "nat \<Rightarrow> desk \<Rightarrow> desk" where
  "display_server_surface_damage_full s k = (if s \<noteq> 0 then desk_gfx (surface_mark_dirty s) k else k)"

subsection \<open>Correctness\<close>

lemma submit_snd:
  "s \<noteq> 0 \<Longrightarrow> snd (display_server_surface_submit s x y z k) =
     snd (desk_add s (desk_gfx (surface_set_z s z) (desk_gfx (surface_move s x y) k)))"
  by (simp add: display_server_surface_submit_def Let_def split: prod.splits)

lemma ds_ops_inv [inv_intros]:
  assumes "desk_inv k"
  shows "desk_fresh s k \<Longrightarrow> desk_inv (snd (display_server_surface_submit s x y z k))"
    "length (carry_damage (dcomp k)) < DAMAGE_MAX_RECTS \<Longrightarrow> desk_inv (display_server_surface_withdraw s k)"
    "desk_inv (snd (display_server_surface_place s x y z k))"
    "desk_inv (display_server_surface_damage_full s k)"
proof -
  show "desk_inv (snd (display_server_surface_submit s x y z k))" if "desk_fresh s k"
  proof (cases "s = 0")
    case False
    with host.submit_inv [OF assms that] show ?thesis by (simp add: submit_snd)
  qed (simp add: display_server_surface_submit_def assms)
  show "desk_inv (display_server_surface_withdraw s k)" if "length (carry_damage (dcomp k)) < DAMAGE_MAX_RECTS"
    unfolding display_server_surface_withdraw_def desk_remove_def by (rule desk_inv_remove [OF assms that])
  show "desk_inv (snd (display_server_surface_place s x y z k))"
    using host.place_inv [OF assms] assms by (simp add: display_server_surface_place_def)
  show "desk_inv (display_server_surface_damage_full s k)"
    using surface_op_inv(5) [OF assms] assms by (simp add: display_server_surface_damage_full_def desk_gfx_def)
qed

text \<open>\<^verbatim>\<open>display_server_surface_submit\<close> answers -1 exactly for a null surface, -2 exactly when the surface is new and all 64
  places are taken (then the list is unchanged), and 0 otherwise, with the surface listed once and every other entry kept.\<close>

theorem submit_result:
  "display_server_surface_submit s x y z k = (r, k') \<Longrightarrow>
     (if s = 0 then r = DS_ERR_INVAL \<and> k' = k
      else if s \<notin> set (slots (dcomp k)) \<and> COMPOSITOR_MAX_SURFACES \<le> length (slots (dcomp k))
      then r = DS_ERR_NOSPC \<and> slots (dcomp k') = slots (dcomp k)
      else r = DS_OK \<and> s \<in> set (slots (dcomp k')) \<and>
           filter (\<lambda>q. q \<noteq> s) (slots (dcomp k')) = filter (\<lambda>q. q \<noteq> s) (slots (dcomp k)) \<and>
           s_x (surf (dgfx k') s) = x \<and> s_y (surf (dgfx k') s) = y)"
  by (auto simp: display_server_surface_submit_def desk_add_def desk_gfx_def compositor_add_def surface_move_def surface_set_z_def
      with_surface_def Let_def split: if_splits)

theorem submit_result_witness:
  "\<exists>r k'. display_server_surface_submit 4096 7 9 1 example_desk = (r, k') \<and> s_x (surf (dgfx k') 4096) = 7"
proof -
  obtain r k' where e: "display_server_surface_submit 4096 7 9 1 example_desk = (r, k')" by fastforce
  have "slots (dcomp example_desk) = [8192]"
    by (simp add: example_desk_def compositor_add_def compositor_init_def)
  with submit_result [OF e] e show ?thesis by auto
qed

text \<open>Withdrawing a surface that was submitted gives the list back as it was.\<close>

lemma submit_withdraw:
  assumes "s \<notin> set (slots (dcomp k))" "display_server_surface_submit s x y z k = (DS_OK, k')"
  shows "slots (dcomp (display_server_surface_withdraw s k')) = slots (dcomp k)"
  using assms
  by (auto simp: display_server_surface_submit_def display_server_surface_withdraw_def desk_remove_def desk_add_def desk_gfx_def
      compositor_add_def compositor_remove_def Let_def remove1_append split: if_splits)

end
