(* ===== verification/InputRouting.thy ===== *)
theory InputRouting
  imports Prelude
begin

text \<open>
  Input routing, \<^verbatim>\<open>src/input/input_routing.c\<close>: keyboard focus, pointer capture and the drag state machine.  Window tokens
  are natural numbers, 0 is \<^verbatim>\<open>IPR_TOKEN_NONE\<close>.  The drag machine is shown to implement an abstract account of it, the
  serial of the drag that is open after a sequence of calls.  Coordinates that the source casts to void are left out.
\<close>

subsection \<open>State\<close>

abbreviation IPR_TOKEN_NONE :: nat where "IPR_TOKEN_NONE \<equiv> 0"

datatype ipr_dnd_phase = IPR_DND_IDLE | IPR_DND_DRAG_PENDING | IPR_DND_DRAGGING | IPR_DND_DROP_HOVER

record routing =
  g_kb_focus :: nat
  g_ptr_capture :: nat
  g_dnd :: ipr_dnd_phase
  g_drag_source :: nat
  g_drag_serial :: u32

subsection \<open>Operations\<close>

definition input_routing_init :: "routing \<Rightarrow> routing" where
  "input_routing_init r = r\<lparr>g_kb_focus := IPR_TOKEN_NONE, g_ptr_capture := IPR_TOKEN_NONE, g_dnd := IPR_DND_IDLE,
     g_drag_source := IPR_TOKEN_NONE, g_drag_serial := 0\<rparr>"

definition input_routing_set_keyboard_focus :: "nat \<Rightarrow> routing \<Rightarrow> routing" where
  "input_routing_set_keyboard_focus i r = r\<lparr>g_kb_focus := i\<rparr>"

definition input_routing_pointer_capture_set :: "nat \<Rightarrow> routing \<Rightarrow> routing" where
  "input_routing_pointer_capture_set i r = r\<lparr>g_ptr_capture := i\<rparr>"

definition input_routing_pointer_capture_clear :: "routing \<Rightarrow> routing" where
  "input_routing_pointer_capture_clear r = r\<lparr>g_ptr_capture := IPR_TOKEN_NONE\<rparr>"

definition input_routing_drag_begin :: "nat \<Rightarrow> u32 \<Rightarrow> routing \<Rightarrow> routing" where
  "input_routing_drag_begin source serial r =
     (if source = IPR_TOKEN_NONE then r
      else r\<lparr>g_drag_source := source, g_drag_serial := serial, g_dnd := IPR_DND_DRAGGING\<rparr>)"

definition input_routing_drag_motion :: "routing \<Rightarrow> routing" where
  "input_routing_drag_motion r = (if g_dnd r \<noteq> IPR_DND_DRAGGING then r else r)"

definition input_routing_drag_cancel :: "routing \<Rightarrow> routing" where
  "input_routing_drag_cancel r = r\<lparr>g_dnd := IPR_DND_IDLE, g_drag_source := IPR_TOKEN_NONE\<rparr>"

definition input_routing_drag_drop :: "u32 \<Rightarrow> routing \<Rightarrow> int \<times> routing" where
  "input_routing_drag_drop serial r =
     (if g_dnd r \<noteq> IPR_DND_DRAGGING then (0, r)
      else if serial \<noteq> g_drag_serial r then (0, r)
      else (1, input_routing_drag_cancel r))"

definition input_routing_pointer_pressed :: "nat \<Rightarrow> routing \<Rightarrow> nat \<times> routing" where
  "input_routing_pointer_pressed hit_window r =
     (if g_ptr_capture r \<noteq> IPR_TOKEN_NONE then (g_ptr_capture r, r)
      else (hit_window, if hit_window \<noteq> IPR_TOKEN_NONE then input_routing_set_keyboard_focus hit_window r else r))"

subsection \<open>Sequences of calls\<close>

datatype route_call =
    Focus nat | Capture nat | Uncapture | DragBegin nat u32 | DragMotion | DragCancel | DragDrop u32 | Pressed nat

fun route :: "route_call \<Rightarrow> routing \<Rightarrow> routing" where
  "route (Focus i) r = input_routing_set_keyboard_focus i r"
| "route (Capture i) r = input_routing_pointer_capture_set i r"
| "route Uncapture r = input_routing_pointer_capture_clear r"
| "route (DragBegin s n) r = input_routing_drag_begin s n r"
| "route DragMotion r = input_routing_drag_motion r"
| "route DragCancel r = input_routing_drag_cancel r"
| "route (DragDrop n) r = snd (input_routing_drag_drop n r)"
| "route (Pressed h) r = snd (input_routing_pointer_pressed h r)"

text \<open>The specification: source and serial of the open drag.  Only an accepted drop, a cancel or a new drag change it.\<close>

fun open_drag :: "(nat \<times> u32) option \<Rightarrow> route_call \<Rightarrow> (nat \<times> u32) option" where
  "open_drag a (DragBegin s n) = (if s = 0 then a else Some (s, n))"
| "open_drag a DragCancel = None"
| "open_drag a (DragDrop n) = (if a \<noteq> None \<and> snd (the a) = n then None else a)"
| "open_drag a _ = a"

definition abs_drag :: "routing \<Rightarrow> (nat \<times> u32) option" where
  "abs_drag r = (if g_dnd r = IPR_DND_DRAGGING then Some (g_drag_source r, g_drag_serial r) else None)"

definition routing_ok :: "routing \<Rightarrow> bool" where
  "routing_ok r \<longleftrightarrow>
     (g_dnd r = IPR_DND_IDLE \<and> g_drag_source r = IPR_TOKEN_NONE) \<or> (g_dnd r = IPR_DND_DRAGGING \<and> g_drag_source r \<noteq> IPR_TOKEN_NONE)"

lemmas routing_defs = input_routing_set_keyboard_focus_def input_routing_pointer_capture_set_def
  input_routing_pointer_capture_clear_def input_routing_drag_begin_def input_routing_drag_motion_def
  input_routing_drag_cancel_def input_routing_drag_drop_def input_routing_pointer_pressed_def

lemma route_ok [inv_intros]: "routing_ok r \<Longrightarrow> routing_ok (route c r)"
  by (cases c) (auto simp: routing_ok_def routing_defs)

lemma route_abs: "abs_drag (route c r) = open_drag (abs_drag r) c"
  by (cases c) (auto simp: abs_drag_def routing_defs)

lemma routes_abs: "abs_drag (fold route cs r) = foldl open_drag (abs_drag r) cs"
  by (induction cs arbitrary: r) (simp_all add: route_abs)

lemma init_abs: "abs_drag (input_routing_init r) = None"
  by (simp add: abs_drag_def input_routing_init_def)

text \<open>C15: After any sequence of routing calls since \<^verbatim>\<open>input_routing_init\<close>, a drop is accepted exactly when a drag is open with
  that serial: begun with a real source, and since then neither cancelled, dropped nor replaced.  Focus, capture, motion and
  button calls in between make no difference.\<close>

theorem drag_drop_accepted:
  "fst (input_routing_drag_drop n (fold route cs (input_routing_init r))) = 1 \<longleftrightarrow>
     (\<exists>s. foldl open_drag None cs = Some (s, n))"
proof -
  have "fst (input_routing_drag_drop n q) = 1 \<longleftrightarrow> (\<exists>s. abs_drag q = Some (s, n))" for q
    by (auto simp: input_routing_drag_drop_def abs_drag_def)
  then show ?thesis by (simp add: routes_abs init_abs)
qed

lemma routes_ok: "routing_ok (fold route cs (input_routing_init r))"
proof -
  have "routing_ok q \<Longrightarrow> routing_ok (fold route cs q)" for q
    by (induction cs arbitrary: q) (simp_all add: route_ok)
  then show ?thesis by (simp add: routing_ok_def input_routing_init_def)
qed

text \<open>While the pointer is captured, presses go to the capturing window and leave the keyboard focus alone.\<close>

lemma captured_press:
  assumes "g_ptr_capture r \<noteq> IPR_TOKEN_NONE"
  shows "input_routing_pointer_pressed h r = (g_ptr_capture r, r)"
  using assms by (simp add: input_routing_pointer_pressed_def)

end
