(* ===== verification/WindowManager.thy ===== *)
theory WindowManager
  imports DisplayServer InputRouting
begin

text \<open>
  The window manager, \<^verbatim>\<open>src/wm/window_manager.c\<close>: the window table, focus, minimising, maximising, desktops and snapping.
  A call works on the whole shell: the graphics state the surfaces live in, the window table and the input routing.
  \<^verbatim>\<open>display_get\<close> never returns \<^verbatim>\<open>NULL\<close>, so the tests for it are not modelled; \<^verbatim>\<open>wm_transition_begin\<close> is empty in the source.
\<close>

subsection \<open>State\<close>

abbreviation WM_ID_NONE :: nat where "WM_ID_NONE \<equiv> 0"
abbreviation WM_MAX_WINDOWS :: nat where "WM_MAX_WINDOWS \<equiv> 64"
abbreviation WM_MAX_DESKTOPS :: nat where "WM_MAX_DESKTOPS \<equiv> 8"

text \<open>The three flag bits are three fields.\<close>

record wm_slot =
  w_used :: bool
  w_minimized :: bool
  w_maximized :: bool
  w_surf :: nat
  w_desktop :: nat
  w_restore_x :: int
  w_restore_y :: int
  w_restore_w :: u32
  w_restore_h :: u32
  w_target_w :: u32
  w_target_h :: u32

record wm =
  g_slots :: "wm_slot list"
  g_next_id :: nat
  g_active_desktop :: nat
  g_focus :: nat

record shell =
  sdesk :: desk
  swm :: wm
  sinput :: routing

subsection \<open>Operations\<close>

definition slot_get :: "nat \<Rightarrow> wm \<Rightarrow> wm_slot option" where
  "slot_get i w =
     (if i = WM_ID_NONE \<or> i > WM_MAX_WINDOWS then None
      else let e = g_slots w ! (i - 1) in if \<not> w_used e \<or> w_surf e = 0 then None else Some e)"

definition slot_set :: "nat \<Rightarrow> wm_slot \<Rightarrow> wm \<Rightarrow> wm" where
  "slot_set i e w = w\<lparr>g_slots := (g_slots w)[i - 1 := e]\<rparr>"

definition clear_slot :: "wm_slot \<Rightarrow> wm_slot" where
  "clear_slot e = e\<lparr>w_used := False, w_minimized := False, w_maximized := False, w_surf := 0\<rparr>"

definition wm_init :: "wm \<Rightarrow> wm" where
  "wm_init w = w\<lparr>g_slots := map clear_slot (g_slots w), g_next_id := 1, g_active_desktop := 0, g_focus := WM_ID_NONE\<rparr>"

definition wm_register_window :: "nat \<Rightarrow> int \<Rightarrow> int \<Rightarrow> int \<Rightarrow> shell \<Rightarrow> nat \<times> shell" where
  "wm_register_window s x y z sh =
     (if s = 0 then (WM_ID_NONE, sh)
      else if g_next_id (swm sh) > WM_MAX_WINDOWS then (WM_ID_NONE, sh)
      else let w = swm sh; k = sdesk sh; i = g_next_id w; f = surf (dgfx k) s;
               e = \<lparr>w_used = True, w_minimized = False, w_maximized = False, w_surf = s, w_desktop = g_active_desktop w,
                    w_restore_x = x, w_restore_y = y, w_restore_w = s_width f, w_restore_h = s_height f,
                    w_target_w = s_width f, w_target_h = s_height f\<rparr>;
               w = slot_set i e (w\<lparr>g_next_id := i + 1\<rparr>);
               k = desk_gfx (surface_move s x y) k;
               k = desk_gfx (surface_set_z s z) k;
               (r, k) = desk_add s k
           in if r \<noteq> 0 then (WM_ID_NONE, sh\<lparr>sdesk := k, swm := slot_set i (clear_slot e) w\<rparr>)
              else (i, sh\<lparr>sdesk := k, swm := w\<rparr>))"

definition drop_focus :: "nat \<Rightarrow> shell \<Rightarrow> shell" where
  "drop_focus i sh =
     (if g_focus (swm sh) = i
      then sh\<lparr>swm := (swm sh)\<lparr>g_focus := WM_ID_NONE\<rparr>, sinput := input_routing_set_keyboard_focus WM_ID_NONE (sinput sh)\<rparr>
      else sh)"

definition wm_unregister_window :: "nat \<Rightarrow> shell \<Rightarrow> shell" where
  "wm_unregister_window i sh =
     (case slot_get i (swm sh) of
        None \<Rightarrow> sh
      | Some e \<Rightarrow>
          let sh = drop_focus i sh
          in sh\<lparr>sdesk := desk_remove (w_surf e) (sdesk sh), swm := slot_set i (clear_slot e) (swm sh)\<rparr>)"

definition wm_window_surface :: "nat \<Rightarrow> wm \<Rightarrow> nat" where
  "wm_window_surface i w = (case slot_get i w of None \<Rightarrow> 0 | Some e \<Rightarrow> w_surf e)"

definition remember :: "int \<Rightarrow> int \<Rightarrow> wm_slot \<Rightarrow> wm_slot" where
  "remember x y e = (if w_maximized e then e else e\<lparr>w_restore_x := x, w_restore_y := y\<rparr>)"

definition wm_move :: "nat \<Rightarrow> int \<Rightarrow> int \<Rightarrow> shell \<Rightarrow> int \<times> shell" where
  "wm_move i x y sh =
     (case slot_get i (swm sh) of
        None \<Rightarrow> (-1, sh)
      | Some e \<Rightarrow> (0, sh\<lparr>sdesk := desk_gfx (surface_move (w_surf e) x y) (sdesk sh), swm := slot_set i (remember x y e) (swm sh)\<rparr>))"

definition wm_resize :: "nat \<Rightarrow> u32 \<Rightarrow> u32 \<Rightarrow> shell \<Rightarrow> int \<times> shell" where
  "wm_resize i w h sh =
     (case slot_get i (swm sh) of
        None \<Rightarrow> (-1, sh)
      | Some e \<Rightarrow> if w = 0 \<or> h = 0 then (-1, sh)
                  else (-1, sh\<lparr>swm := slot_set i (e\<lparr>w_target_w := w, w_target_h := h\<rparr>) (swm sh)\<rparr>))"

definition wm_raise :: "nat \<Rightarrow> shell \<Rightarrow> shell" where
  "wm_raise i sh =
     (case slot_get i (swm sh) of
        None \<Rightarrow> sh
      | Some e \<Rightarrow> sh\<lparr>sdesk := desk_gfx (compositor_raise (w_surf e) (dcomp (sdesk sh))) (sdesk sh)\<rparr>)"

definition wm_set_focus :: "nat \<Rightarrow> shell \<Rightarrow> shell" where
  "wm_set_focus i sh =
     (if i \<noteq> WM_ID_NONE \<and> slot_get i (swm sh) = None then sh
      else let sh = sh\<lparr>swm := (swm sh)\<lparr>g_focus := i\<rparr>, sinput := input_routing_set_keyboard_focus i (sinput sh)\<rparr>
           in if i \<noteq> WM_ID_NONE then wm_raise i sh else sh)"

definition wm_minimize :: "nat \<Rightarrow> shell \<Rightarrow> shell" where
  "wm_minimize i sh =
     (case slot_get i (swm sh) of
        None \<Rightarrow> sh
      | Some e \<Rightarrow>
          let sh = sh\<lparr>sdesk := desk_gfx (surface_show (w_surf e) False) (sdesk sh),
                      swm := slot_set i (e\<lparr>w_minimized := True\<rparr>) (swm sh)\<rparr>
          in drop_focus i sh)"

definition wm_maximize :: "nat \<Rightarrow> shell \<Rightarrow> shell" where
  "wm_maximize i sh =
     (case slot_get i (swm sh) of
        None \<Rightarrow> sh
      | Some e \<Rightarrow>
          let k = sdesk sh; s = w_surf e; f = surf (dgfx k) s;
              e = (if \<not> w_maximized e
                   then e\<lparr>w_restore_x := s_x f, w_restore_y := s_y f, w_restore_w := s_width f, w_restore_h := s_height f\<rparr> else e);
              e = e\<lparr>w_maximized := True, w_minimized := False\<rparr>;
              k = desk_gfx (surface_show s True) k;
              k = desk_gfx (surface_move s 0 0) k;
              k = desk_gfx (compositor_raise s (dcomp k)) k;
              k = desk_gfx (surface_mark_dirty s) k
          in sh\<lparr>sdesk := k, swm := slot_set i e (swm sh)\<rparr>)"

definition wm_restore :: "nat \<Rightarrow> shell \<Rightarrow> shell" where
  "wm_restore i sh =
     (case slot_get i (swm sh) of
        None \<Rightarrow> sh
      | Some e \<Rightarrow>
          let s = w_surf e; k = sdesk sh;
              k = (if w_minimized e then desk_gfx (surface_show s True) k else k);
              k = (if w_maximized e then desk_gfx (surface_move s (w_restore_x e) (w_restore_y e)) k else k);
              k = desk_gfx (surface_mark_dirty s) k
          in sh\<lparr>sdesk := k, swm := slot_set i (e\<lparr>w_minimized := False, w_maximized := False\<rparr>) (swm sh)\<rparr>)"

definition wm_set_active_desktop :: "nat \<Rightarrow> shell \<Rightarrow> shell" where
  "wm_set_active_desktop index sh =
     (if index \<ge> WM_MAX_DESKTOPS then sh
      else let w = (swm sh)\<lparr>g_active_desktop := index\<rparr>
           in sh\<lparr>swm := w, sdesk := fold (\<lambda>i k. case slot_get i w of
                None \<Rightarrow> k
              | Some e \<Rightarrow> desk_gfx (surface_show (w_surf e) (w_desktop e = index \<and> \<not> w_minimized e)) k)
                [1..<WM_MAX_WINDOWS + 1] (sdesk sh)\<rparr>)"

text \<open>The mask as its four bits (left, right, top, bottom).\<close>

definition snap_axis :: "bool \<Rightarrow> bool \<Rightarrow> int \<Rightarrow> int \<Rightarrow> int \<Rightarrow> int" where
  "snap_axis lo hi x sw dw =
     (let x = (if lo then 0 else x);
          x = (if hi then dw - sw else x);
          x = (if x < 0 then 0 else x)
      in if x + sw > dw then dw - sw else x)"

definition wm_snap_to_edges :: "nat \<Rightarrow> u32 \<Rightarrow> shell \<Rightarrow> shell" where
  "wm_snap_to_edges i snap_mask sh =
     (case slot_get i (swm sh) of
        None \<Rightarrow> sh
      | Some e \<Rightarrow>
          if snap_mask = 0 then sh
          else let k = sdesk sh; d = ddisp k; s = surf (dgfx k) (w_surf e);
                   x = snap_axis (bit snap_mask 0) (bit snap_mask 1) (s_x s) (sint (s_width s)) (sint (dsp_width d));
                   y = snap_axis (bit snap_mask 2) (bit snap_mask 3) (s_y s) (sint (s_height s)) (sint (dsp_height d))
               in sh\<lparr>sdesk := desk_gfx (surface_move (w_surf e) x y) k, swm := slot_set i (remember x y e) (swm sh)\<rparr>)"


subsection \<open>The window table\<close>

lemma slot_get_set:
  assumes "length (g_slots w) = WM_MAX_WINDOWS" "0 < i" "i \<le> WM_MAX_WINDOWS"
  shows "slot_get j (slot_set i e w) = (if j = i then (if w_used e \<and> w_surf e \<noteq> 0 then Some e else None) else slot_get j w)"
  using assms by (auto simp: slot_get_def slot_set_def nth_list_update Let_def)

lemma slot_get_Some:
  assumes "slot_get i w = Some e"
  shows "0 < i" "i \<le> WM_MAX_WINDOWS" "w_used e" "w_surf e \<noteq> 0"
  using assms by (auto simp: slot_get_def Let_def split: if_splits)

lemma slot_get_cong: "g_slots w = g_slots v \<Longrightarrow> slot_get i w = slot_get i v"
  by (simp add: slot_get_def)

lemma clear_slot_used [simp]: "\<not> w_used (clear_slot e)"
  by (simp add: clear_slot_def)

lemma slot_set_fields [simp]:
  "g_next_id (slot_set i e w) = g_next_id w" "g_active_desktop (slot_set i e w) = g_active_desktop w"
  "g_focus (slot_set i e w) = g_focus w" "length (g_slots (slot_set i e w)) = length (g_slots w)"
  by (simp_all add: slot_set_def)

lemma slot_get_upd [simp]:
  "slot_get i (w\<lparr>g_focus := x\<rparr>) = slot_get i w" "slot_get i (w\<lparr>g_next_id := x\<rparr>) = slot_get i w"
  "slot_get i (w\<lparr>g_active_desktop := x\<rparr>) = slot_get i w"
  by (simp_all add: slot_get_def)

text \<open>
  The table against the compositor's list \<open>S\<close> and the visibility \<open>V\<close> of the surfaces: windows have been handed out below the
  next identifier, their surfaces are listed and belong to one window each, and a minimised window is hidden.
\<close>

definition window_ok :: "nat \<Rightarrow> nat set \<Rightarrow> (nat \<Rightarrow> bool) \<Rightarrow> nat \<Rightarrow> wm_slot \<Rightarrow> bool" where
  "window_ok next S V i e \<longleftrightarrow>
     i < next \<and> w_surf e \<in> S \<and> w_desktop e < WM_MAX_DESKTOPS \<and> (w_minimized e \<longrightarrow> \<not> V (w_surf e))"

definition wm_table :: "wm \<Rightarrow> nat set \<Rightarrow> (nat \<Rightarrow> bool) \<Rightarrow> bool" where
  "wm_table w S V \<longleftrightarrow>
     length (g_slots w) = WM_MAX_WINDOWS \<and> 1 \<le> g_next_id w \<and> g_next_id w \<le> WM_MAX_WINDOWS + 1 \<and>
     g_active_desktop w < WM_MAX_DESKTOPS \<and>
     (\<forall>i e. slot_get i w = Some e \<longrightarrow> window_ok (g_next_id w) S V i e) \<and>
     (\<forall>i j e f. slot_get i w = Some e \<and> slot_get j w = Some f \<and> w_surf e = w_surf f \<longrightarrow> i = j)"

lemma wm_table_update:
  assumes tab: "wm_table w S V" and i: "slot_get i w = Some e"
    and e': "w_used e'" "w_surf e' = w_surf e" "w_desktop e' = w_desktop e" "w_minimized e' \<longrightarrow> \<not> V' (w_surf e)"
    and V': "\<And>p. p \<noteq> w_surf e \<Longrightarrow> V' p = V p"
  shows "wm_table (slot_set i e' w) S V'"
proof -
  note ib = slot_get_Some [OF i]
  have len: "length (g_slots w) = WM_MAX_WINDOWS" using tab by (simp add: wm_table_def)
  note get = slot_get_set [OF len ib(1,2), of _ e']
  have win: "window_ok (g_next_id w) S V j f" if "slot_get j w = Some f" for j f
    using tab that by (simp add: wm_table_def)
  have uniq: "j = l" if "slot_get j w = Some f" "slot_get l w = Some g" "w_surf f = w_surf g" for j l f g
    using tab that unfolding wm_table_def by blast
  have "window_ok (g_next_id w) S V' j f" if "slot_get j (slot_set i e' w) = Some f" for j f
  proof (cases "j = i")
    case True
    with that get e' win [OF i] show ?thesis by (auto simp: window_ok_def split: if_splits)
  next
    case False
    then have j: "slot_get j w = Some f" using that by (simp add: get)
    then have "w_surf f \<noteq> w_surf e" using uniq [OF j i] False by blast
    then show ?thesis using win [OF j] by (simp add: window_ok_def V')
  qed
  moreover have "j = l" if "slot_get j (slot_set i e' w) = Some f" "slot_get l (slot_set i e' w) = Some g" "w_surf f = w_surf g"
    for j l f g
    using that uniq [of j f l g] uniq [OF i, of l g] uniq [OF _ i, of j f] e'(2) by (auto simp: get split: if_splits)
  ultimately show ?thesis using tab unfolding wm_table_def by simp
qed

lemma wm_table_vis:
  assumes "wm_table w S V" "\<And>i e. slot_get i w = Some e \<Longrightarrow> w_minimized e \<Longrightarrow> V' (w_surf e) \<Longrightarrow> V (w_surf e)"
  shows "wm_table w S V'"
  using assms unfolding wm_table_def window_ok_def by blast

lemma wm_table_fields:
  assumes "wm_table w S V" "g_slots w' = g_slots w" "g_next_id w' = g_next_id w" "g_active_desktop w' < WM_MAX_DESKTOPS"
  shows "wm_table w' S V"
  using assms slot_get_cong [OF assms(2)] unfolding wm_table_def by simp

subsection \<open>The invariant\<close>

abbreviation shown :: "desk \<Rightarrow> nat \<Rightarrow> bool" where
  "shown k p \<equiv> s_visible (surf (dgfx k) p)"

definition wm_ok :: "shell \<Rightarrow> bool" where
  "wm_ok sh \<longleftrightarrow>
     desk_inv (sdesk sh) \<and> wm_table (swm sh) (set (slots (dcomp (sdesk sh)))) (shown (sdesk sh)) \<and>
     (g_focus (swm sh) = WM_ID_NONE \<or> slot_get (g_focus (swm sh)) (swm sh) \<noteq> None) \<and>
     g_kb_focus (sinput sh) = g_focus (swm sh)"

lemma desk_gfx_fields [simp]: "dcomp (desk_gfx f k) = dcomp k" "ddisp (desk_gfx f k) = ddisp k" "dgfx (desk_gfx f k) = f (dgfx k)"
  by (simp_all add: desk_gfx_def)

lemma visible_ops [simp]:
  "s_visible (surf (surface_move p x y g) q) = s_visible (surf g q)" "s_visible (surf (surface_set_z p z g) q) = s_visible (surf g q)"
  "s_visible (surf (surface_mark_dirty p g) q) = s_visible (surf g q)"
  "s_visible (surf (compositor_raise p c g) q) = s_visible (surf g q)"
  "s_visible (surf (surface_show p v g) q) = (if q = p \<and> p \<noteq> 0 then v else s_visible (surf g q))"
  by (simp_all add: surface_move_def surface_set_z_def surface_mark_dirty_def compositor_raise_def surface_show_def with_surface_def Let_def)

lemma desk_gfx_inv [inv_intros]:
  assumes "desk_inv k"
  shows "desk_inv (desk_gfx (surface_move p x y) k)" "desk_inv (desk_gfx (surface_set_z p z) k)"
    "desk_inv (desk_gfx (surface_show p v) k)" "desk_inv (desk_gfx (surface_mark_dirty p) k)"
    "desk_inv (desk_gfx (compositor_raise p c) k)"
  by (simp_all add: desk_gfx_def surface_op_inv [OF assms])

text \<open>A call that changes one window's entry and surface.\<close>

lemma wm_ok_update:
  assumes ok: "wm_ok sh" and i: "slot_get i (swm sh) = Some e"
    and e': "w_used e'" "w_surf e' = w_surf e" "w_desktop e' = w_desktop e" "w_minimized e' \<longrightarrow> \<not> shown k' (w_surf e)"
    and k': "desk_inv k'" "slots (dcomp k') = slots (dcomp (sdesk sh))" "\<And>p. p \<noteq> w_surf e \<Longrightarrow> shown k' p = shown (sdesk sh) p"
  shows "wm_ok (sh\<lparr>sdesk := k', swm := slot_set i e' (swm sh)\<rparr>)"
proof -
  have tab: "wm_table (swm sh) (set (slots (dcomp (sdesk sh)))) (shown (sdesk sh))" using ok by (simp add: wm_ok_def)
  then have len: "length (g_slots (swm sh)) = WM_MAX_WINDOWS" by (simp add: wm_table_def)
  have "slot_get j (slot_set i e' (swm sh)) \<noteq> None \<longleftrightarrow> slot_get j (swm sh) \<noteq> None" for j
    using slot_get_Some [OF i] e' i by (simp add: slot_get_set [OF len])
  then show ?thesis
    using wm_table_update [OF tab i e' k'(3)] k'(1,2) ok by (simp add: wm_ok_def)
qed

lemma drop_focus_ok:
  assumes "wm_ok sh"
  shows "wm_ok (drop_focus i sh)"
  using assms wm_table_fields [of "swm sh" _ _ "(swm sh)\<lparr>g_focus := 0\<rparr>"]
  by (auto simp: drop_focus_def wm_ok_def input_routing_set_keyboard_focus_def wm_table_def)


lemma wm_okD:
  assumes "wm_ok sh"
  shows "desk_inv (sdesk sh)" "length (g_slots (swm sh)) = WM_MAX_WINDOWS"
    "\<And>i e. slot_get i (swm sh) = Some e \<Longrightarrow>
       window_ok (g_next_id (swm sh)) (set (slots (dcomp (sdesk sh)))) (shown (sdesk sh)) i e"
    "\<And>i j e f. slot_get i (swm sh) = Some e \<Longrightarrow> slot_get j (swm sh) = Some f \<Longrightarrow> w_surf e = w_surf f \<Longrightarrow> i = j"
  using assms unfolding wm_ok_def wm_table_def by blast+

lemma wm_simple_ops_ok [inv_intros]:
  assumes ok: "wm_ok sh"
  shows "wm_ok (snd (wm_move i x y sh))" "wm_ok (snd (wm_resize i u v sh))" "wm_ok (wm_raise i sh)"
    "wm_ok (wm_minimize i sh)" "wm_ok (wm_maximize i sh)" "wm_ok (wm_restore i sh)" "wm_ok (wm_snap_to_edges i m sh)"
proof -
  note inv = wm_okD(1) [OF ok]
  note upd = wm_ok_update [OF ok]
  show "wm_ok (snd (wm_move i x y sh))"
    using ok by (auto simp: wm_move_def remember_def desk_gfx_inv inv window_ok_def dest: wm_okD(3) [OF ok] slot_get_Some
        split: option.split intro!: upd)
  show "wm_ok (snd (wm_resize i u v sh))"
  proof (cases "slot_get i (swm sh)")
    case (Some e)
    have "wm_ok (sh\<lparr>sdesk := sdesk sh, swm := slot_set i (e\<lparr>w_target_w := u, w_target_h := v\<rparr>) (swm sh)\<rparr>)"
      using wm_okD(3) [OF ok Some] slot_get_Some [OF Some] by (intro upd [OF Some]) (auto simp: window_ok_def inv)
    with ok Some show ?thesis by (simp add: wm_resize_def)
  qed (use ok in \<open>simp add: wm_resize_def\<close>)
  show "wm_ok (wm_raise i sh)"
    using ok by (auto simp: wm_raise_def wm_ok_def desk_gfx_inv inv split: option.split)
  show "wm_ok (wm_minimize i sh)"
  proof (cases "slot_get i (swm sh)")
    case (Some e)
    have "wm_ok (sh\<lparr>sdesk := desk_gfx (surface_show (w_surf e) False) (sdesk sh), swm := slot_set i (e\<lparr>w_minimized := True\<rparr>) (swm sh)\<rparr>)"
      using slot_get_Some [OF Some] by (intro upd [OF Some]) (auto simp: desk_gfx_inv inv)
    from drop_focus_ok [OF this] Some show ?thesis by (simp add: wm_minimize_def)
  qed (use ok in \<open>simp add: wm_minimize_def\<close>)
  show "wm_ok (wm_maximize i sh)"
  proof (cases "slot_get i (swm sh)")
    case (Some e)
    show ?thesis using slot_get_Some [OF Some] Some unfolding wm_maximize_def
      by (simp add: Let_def) (intro conjI impI upd [OF Some]; simp add: desk_gfx_inv inv)
  qed (use ok in \<open>simp add: wm_maximize_def\<close>)
  show "wm_ok (wm_restore i sh)"
  proof (cases "slot_get i (swm sh)")
    case (Some e)
    show ?thesis using slot_get_Some [OF Some] Some unfolding wm_restore_def
      by (simp add: Let_def) (intro conjI impI upd [OF Some]; simp add: desk_gfx_inv inv)
  qed (use ok in \<open>simp add: wm_restore_def\<close>)
  show "wm_ok (wm_snap_to_edges i m sh)"
    using ok by (auto simp: wm_snap_to_edges_def remember_def desk_gfx_inv inv window_ok_def Let_def dest: wm_okD(3) [OF ok] slot_get_Some
        split: option.split intro!: upd)
qed

lemma wm_set_focus_ok [inv_intros]:
  assumes ok: "wm_ok sh"
  shows "wm_ok (wm_set_focus i sh)"
proof (cases "i \<noteq> WM_ID_NONE \<and> slot_get i (swm sh) = None")
  case False
  let ?sh = "sh\<lparr>swm := (swm sh)\<lparr>g_focus := i\<rparr>, sinput := input_routing_set_keyboard_focus i (sinput sh)\<rparr>"
  have "wm_table ((swm sh)\<lparr>g_focus := i\<rparr>) (set (slots (dcomp (sdesk sh)))) (shown (sdesk sh))"
  proof (rule wm_table_fields [of "swm sh"])
    show "wm_table (swm sh) (set (slots (dcomp (sdesk sh)))) (shown (sdesk sh))" using ok by (simp add: wm_ok_def)
    then show "g_active_desktop ((swm sh)\<lparr>g_focus := i\<rparr>) < WM_MAX_DESKTOPS" by (simp add: wm_table_def)
  qed simp_all
  then have "wm_ok ?sh"
    using ok False by (auto simp: wm_ok_def input_routing_set_keyboard_focus_def)
  with wm_simple_ops_ok(3) [OF this, of i] False show ?thesis by (cases "i = 0") (auto simp: wm_set_focus_def Let_def)
qed (use ok in \<open>simp add: wm_set_focus_def\<close>)


text \<open>Switching desktops sets the visibility of every window's surface and of nothing else.\<close>

lemma show_all:
  assumes uniq: "\<And>i j e f. slot_get i w = Some e \<Longrightarrow> slot_get j w = Some f \<Longrightarrow> w_surf e = w_surf f \<Longrightarrow> i = j"
    and e: "slot_get j w = Some e"
  shows "shown (fold (\<lambda>i k. case slot_get i w of None \<Rightarrow> k | Some e \<Rightarrow> desk_gfx (surface_show (w_surf e) (v e)) k) ids k) (w_surf e) =
    (if j \<in> set ids then v e else shown k (w_surf e))"
proof (induction ids arbitrary: k)
  case (Cons i ids)
  show ?case
  proof (cases "slot_get i w")
    case None
    with e have "i \<noteq> j" by auto
    with None Cons show ?thesis by simp
  next
    case (Some f)
    show ?thesis
    proof (cases "i = j")
      case True
      with Some e slot_get_Some(4) [OF e] Cons show ?thesis by simp
    next
      case False
      with uniq [OF Some e] have "w_surf f \<noteq> w_surf e" by blast
      with False Some Cons show ?thesis by simp
    qed
  qed
qed simp

lemma show_all_comp:
  "dcomp (fold (\<lambda>i k. case slot_get i w of None \<Rightarrow> k | Some e \<Rightarrow> desk_gfx (surface_show (w_surf e) (v e)) k) ids k) = dcomp k"
  by (induction ids arbitrary: k) (simp_all split: option.split)

lemma set_active_desktop_shown:
  assumes ok: "wm_ok sh" and idx: "index < WM_MAX_DESKTOPS" and e: "slot_get i (swm sh) = Some e"
  shows "shown (sdesk (wm_set_active_desktop index sh)) (w_surf e) = (w_desktop e = index \<and> \<not> w_minimized e)"
proof -
  let ?w = "(swm sh)\<lparr>g_active_desktop := index\<rparr>"
  have e': "slot_get i ?w = Some e" using e by simp
  have "i \<in> set [1..<WM_MAX_WINDOWS + 1]" using slot_get_Some(1,2) [OF e] by simp
  with show_all [of ?w, OF _ e', where v = "\<lambda>e. w_desktop e = index \<and> \<not> w_minimized e" and ids = "[1..<WM_MAX_WINDOWS + 1]"
      and k = "sdesk sh"] wm_okD(4) [OF ok]
  show ?thesis using idx unfolding wm_set_active_desktop_def Let_def by simp
qed

lemma wm_set_active_desktop_ok [inv_intros]:
  assumes ok: "wm_ok sh"
  shows "wm_ok (wm_set_active_desktop index sh)"
proof (cases "index < WM_MAX_DESKTOPS")
  case True
  let ?sh = "wm_set_active_desktop index sh"
  have w: "swm ?sh = (swm sh)\<lparr>g_active_desktop := index\<rparr>" "sinput ?sh = sinput sh"
    using True by (simp_all add: wm_set_active_desktop_def Let_def)
  have c: "dcomp (sdesk ?sh) = dcomp (sdesk sh)"
    using True by (simp add: wm_set_active_desktop_def Let_def show_all_comp del: upt_Suc)
  have inv: "desk_inv (sdesk ?sh)"
    using True host.visible_all_inv [OF wm_okD(1) [OF ok]] by (simp add: wm_set_active_desktop_def Let_def del: upt_Suc)
  have "wm_table (swm ?sh) (set (slots (dcomp (sdesk ?sh)))) (shown (sdesk sh))"
    unfolding w c by (rule wm_table_fields [of "swm sh"]) (use ok True in \<open>simp_all add: wm_ok_def\<close>)
  then have "wm_table (swm ?sh) (set (slots (dcomp (sdesk ?sh)))) (shown (sdesk ?sh))"
    by (rule wm_table_vis) (use set_active_desktop_shown [OF ok True] in \<open>auto simp: w\<close>)
  then show ?thesis using ok inv by (simp add: wm_ok_def w)
qed (use ok in \<open>simp add: wm_set_active_desktop_def\<close>)


text \<open>Registration of a surface that no window holds.\<close>

lemma wm_table_new:
  assumes tab: "wm_table w S V" and nxt: "g_next_id w \<le> WM_MAX_WINDOWS"
    and e: "w_used e" "w_surf e \<noteq> 0" "w_desktop e = g_active_desktop w" "\<not> w_minimized e"
    and free: "\<And>i f. slot_get i w = Some f \<Longrightarrow> w_surf f \<noteq> w_surf e"
  shows "wm_table (slot_set (g_next_id w) e (w\<lparr>g_next_id := g_next_id w + 1\<rparr>)) (insert (w_surf e) S) V"
    "wm_table (slot_set (g_next_id w) (clear_slot e') (w\<lparr>g_next_id := g_next_id w + 1\<rparr>)) S V"
proof -
  let ?i = "g_next_id w"
  define w' where "w' = w\<lparr>g_next_id := ?i + 1\<rparr>"
  have len: "length (g_slots w') = WM_MAX_WINDOWS" and i: "0 < ?i" and w': "slot_get j w' = slot_get j w" "g_next_id w' = Suc ?i"
    "g_active_desktop w' = g_active_desktop w" for j
    using tab by (simp_all add: w'_def wm_table_def)
  note get = slot_get_set [OF len i nxt]
  have win: "window_ok (g_next_id w) S V j f" if "slot_get j w = Some f" for j f
    using tab that by (simp add: wm_table_def)
  have uniq: "j = l" if "slot_get j w = Some f" "slot_get l w = Some g" "w_surf f = w_surf g" for j l f g
    using tab that unfolding wm_table_def by blast
  have act: "g_active_desktop w < WM_MAX_DESKTOPS" using tab by (simp add: wm_table_def)
  have w1: "window_ok (?i + 1) (insert (w_surf e) S) V j f" if "slot_get j (slot_set ?i e w') = Some f" for j f
    using that win [of j f] e act by (auto simp: get w' window_ok_def less_Suc_eq split: if_splits)
  have w2: "j = l" if "slot_get j (slot_set ?i e w') = Some f" "slot_get l (slot_set ?i e w') = Some g" "w_surf f = w_surf g" for j l f g
    using that uniq [of j f l g] free [of j f] free [of l g] by (auto simp: get w' split: if_splits)
  show "wm_table (slot_set ?i e (w\<lparr>g_next_id := ?i + 1\<rparr>)) (insert (w_surf e) S) V"
    using w1 w2 tab nxt unfolding wm_table_def w'_def [symmetric] by (simp add: w' len)
  have w3: "window_ok (?i + 1) S V j f \<and> slot_get j w = Some f" if "slot_get j (slot_set ?i (clear_slot e') w') = Some f" for j f
    using that win [of j f] by (auto simp: get w' window_ok_def split: if_splits)
  show "wm_table (slot_set ?i (clear_slot e') (w\<lparr>g_next_id := ?i + 1\<rparr>)) S V"
    using w3 uniq tab nxt unfolding wm_table_def w'_def [symmetric] by (simp add: w' len)
qed


lemma wm_register_ok [inv_intros]:
  assumes ok: "wm_ok sh" and fresh: "desk_fresh s (sdesk sh)" and free: "\<And>i e. slot_get i (swm sh) = Some e \<Longrightarrow> w_surf e \<noteq> s"
  shows "wm_ok (snd (wm_register_window s x y z sh))"
proof (cases "s = 0 \<or> g_next_id (swm sh) > WM_MAX_WINDOWS")
  case False
  let ?w = "swm sh" and ?k = "desk_gfx (surface_set_z s z) (desk_gfx (surface_move s x y) (sdesk sh))" and ?f = "surf (dgfx (sdesk sh)) s"
  let ?e = "\<lparr>w_used = True, w_minimized = False, w_maximized = False, w_surf = s, w_desktop = g_active_desktop ?w, w_restore_x = x,
      w_restore_y = y, w_restore_w = s_width ?f, w_restore_h = s_height ?f, w_target_w = s_width ?f, w_target_h = s_height ?f\<rparr>"
  define w1 where "w1 = slot_set (g_next_id ?w) ?e (?w\<lparr>g_next_id := g_next_id ?w + 1\<rparr>)"
  define w2 where "w2 = slot_set (g_next_id ?w) (clear_slot ?e) (?w\<lparr>g_next_id := g_next_id ?w + 1\<rparr>)"
  obtain r k where add: "desk_add s ?k = (r, k)" by fastforce
  have tab: "wm_table ?w (set (slots (dcomp (sdesk sh)))) (shown (sdesk sh))" using ok by (simp add: wm_ok_def)
  have len: "length (g_slots ?w) = WM_MAX_WINDOWS" and i: "0 < g_next_id ?w" "g_next_id ?w \<le> WM_MAX_WINDOWS"
    using tab False by (simp_all add: wm_table_def)
  have new: "wm_table w1 (insert s (set (slots (dcomp (sdesk sh))))) (shown (sdesk sh))"
    "wm_table w2 (set (slots (dcomp (sdesk sh)))) (shown (sdesk sh))"
    using wm_table_new(1) [OF tab i(2), of ?e] wm_table_new(2) [OF tab i(2), of ?e ?e] free False by (simp_all add: w1_def w2_def)
  have keep: "slot_get j w1 \<noteq> None" "slot_get j w2 \<noteq> None" if "slot_get j ?w \<noteq> None" for j
  proof -
    have "j \<noteq> g_next_id ?w" using that wm_okD(3) [OF ok] by (auto simp: window_ok_def)
    with that show "slot_get j w1 \<noteq> None" "slot_get j w2 \<noteq> None"
      using slot_get_set [of "?w\<lparr>g_next_id := g_next_id ?w + 1\<rparr>" "g_next_id ?w" j] len i by (simp_all add: w1_def w2_def)
  qed
  have k: "shown k = shown (sdesk sh)" "r \<noteq> 0 \<longrightarrow> slots (dcomp k) = slots (dcomp (sdesk sh))"
    "r = 0 \<longrightarrow> set (slots (dcomp k)) = insert s (set (slots (dcomp (sdesk sh))))"
    using add False by (auto simp: desk_add_def compositor_add_def split: if_splits)
  have inv: "desk_inv k" using host.submit_inv [OF wm_okD(1) [OF ok] fresh, of z x y] add by simp
  have f: "g_focus w1 = g_focus ?w" "g_focus w2 = g_focus ?w" by (simp_all add: w1_def w2_def)
  have reg: "snd (wm_register_window s x y z sh) = (if r \<noteq> 0 then sh\<lparr>sdesk := k, swm := w2\<rparr> else sh\<lparr>sdesk := k, swm := w1\<rparr>)"
    using False add by (simp add: wm_register_window_def Let_def w1_def w2_def slot_set_def)
  show ?thesis unfolding reg using new k inv keep f ok by (auto simp: wm_ok_def)
qed (use ok in \<open>auto simp: wm_register_window_def\<close>)

lemma wm_unregister_ok [inv_intros]:
  assumes ok: "wm_ok sh" and room: "length (carry_damage (dcomp (sdesk sh))) < DAMAGE_MAX_RECTS"
  shows "wm_ok (wm_unregister_window i sh)"
proof (cases "slot_get i (swm sh)")
  case (Some e)
  let ?sh = "drop_focus i sh"
  have ok1: "wm_ok ?sh" by (rule drop_focus_ok [OF ok])
  have same: "sdesk ?sh = sdesk sh" "slot_get j (swm ?sh) = slot_get j (swm sh)" for j by (simp_all add: drop_focus_def)
  have foc: "g_focus (swm ?sh) \<noteq> i" using slot_get_Some(1) [OF Some] by (simp add: drop_focus_def)
  let ?w = "slot_set i (clear_slot e) (swm ?sh)" and ?k = "desk_remove (w_surf e) (sdesk sh)"
  note get = slot_get_set [OF wm_okD(2) [OF ok1] slot_get_Some(1,2) [OF Some], of _ "clear_slot e"]
  have sub: "slot_get j ?w = Some f \<Longrightarrow> j \<noteq> i \<and> slot_get j (swm sh) = Some f" for j f
    using same(2) by (auto simp: get split: if_splits)
  have inv: "desk_inv ?k" unfolding desk_remove_def by (rule desk_inv_remove [OF wm_okD(1) [OF ok] room])
  have sl: "slots (dcomp ?k) = remove1 (w_surf e) (slots (dcomp (sdesk sh)))" "shown ?k = shown (sdesk sh)"
    using wm_okD(3) [OF ok Some] slot_get_Some(4) [OF Some]
    by (auto simp: desk_remove_def compositor_remove_def window_ok_def Let_def)
  have "window_ok (g_next_id (swm ?sh)) (set (slots (dcomp ?k))) (shown ?k) j f" if "slot_get j ?w = Some f" for j f
  proof -
    note j = sub [OF that]
    then have "w_surf f \<noteq> w_surf e" using wm_okD(4) [OF ok Some, of j f] by auto
    then show ?thesis using wm_okD(3) [OF ok1, of j f] j same desk_invD(5) [OF wm_okD(1) [OF ok]]
      by (simp add: window_ok_def sl)
  qed
  moreover have "j = l" if "slot_get j ?w = Some f" "slot_get l ?w = Some g" "w_surf f = w_surf g" for j l f g
    using sub [OF that(1)] sub [OF that(2)] wm_okD(4) [OF ok, of j f l g] that(3) by blast
  moreover have "slot_get j ?w \<noteq> None" if "slot_get j (swm ?sh) \<noteq> None" "j \<noteq> i" for j using that by (simp add: get)
  ultimately have "wm_ok (?sh\<lparr>sdesk := ?k, swm := ?w\<rparr>)"
    using ok1 inv foc unfolding wm_ok_def wm_table_def by auto
  then show ?thesis using Some same(1) by (simp add: wm_unregister_window_def Let_def)
qed (use ok in \<open>simp add: wm_unregister_window_def\<close>)


subsection \<open>Runs of the shell\<close>

text \<open>
  One call of the window manager, the drawing of a window's client, or a frame of the compositor thread between two calls.
  A surface is registered once, before its first frame.
\<close>

inductive wm_step :: "simd \<Rightarrow> nat \<Rightarrow> bool \<Rightarrow> shell \<Rightarrow> shell \<Rightarrow> bool" for cpu online vb where
  register: "desk_fresh s (sdesk sh) \<Longrightarrow> (\<forall>i\<in>{1..WM_MAX_WINDOWS}. wm_window_surface i (swm sh) \<noteq> s) \<Longrightarrow>
    wm_step cpu online vb sh (snd (wm_register_window s x y z sh))"
| unregister: "length (carry_damage (dcomp (sdesk sh))) < DAMAGE_MAX_RECTS \<Longrightarrow>
    wm_step cpu online vb sh (wm_unregister_window i sh)"
| move: "wm_step cpu online vb sh (snd (wm_move i x y sh))"
| resize: "wm_step cpu online vb sh (snd (wm_resize i u v sh))"
| raise: "wm_step cpu online vb sh (wm_raise i sh)"
| focus: "wm_step cpu online vb sh (wm_set_focus i sh)"
| minimize: "wm_step cpu online vb sh (wm_minimize i sh)"
| maximize: "wm_step cpu online vb sh (wm_maximize i sh)"
| restore: "wm_step cpu online vb sh (wm_restore i sh)"
| desktop: "wm_step cpu online vb sh (wm_set_active_desktop d sh)"
| snap: "wm_step cpu online vb sh (wm_snap_to_edges i m sh)"
| dirty: "wm_step cpu online vb sh (sh\<lparr>sdesk := display_server_surface_damage_full p (sdesk sh)\<rparr>)"
| draw: "drawn_inside px lx0 ly0 lx1 ly1 (surf (dgfx (sdesk sh)) p) \<Longrightarrow>
    \<not> s_pixels_dirty (surf (dgfx (sdesk sh)) p) \<or> s_dirty_rect_valid (surf (dgfx (sdesk sh)) p) \<Longrightarrow>
    wm_step cpu online vb sh (sh\<lparr>sdesk := desk_gfx (with_surface p (draw_rect px lx0 ly0 lx1 ly1)) (sdesk sh)\<rparr>)"
| frame: "length (frame_requests (frame_screen (ddisp (sdesk sh))) (surf (dgfx (sdesk sh))) (dcomp (sdesk sh))) \<le> DAMAGE_MAX_RECTS \<Longrightarrow>
    wm_step cpu online vb sh (sh\<lparr>sdesk := compositor_frame cpu online vb (args_bg (dcomp (sdesk sh))) (sdesk sh)\<rparr>)"

lemma snapshot_visible [simp]: "s_visible (snapshot s) = s_visible s"
  by (simp add: snapshot_def)

lemma frame_keeps:
  "slots (dcomp (compositor_frame cpu online vb bg k)) = slots (dcomp k)"
  "shown (compositor_frame cpu online vb bg k) p = shown k p"
  by (simp_all add: compositor_frame_def Let_def)

lemma draw_rect_visible [simp]: "s_visible (draw_rect px a b c d s) = s_visible s"
  by (simp add: draw_rect_def mark_dirty_rect_def Let_def)

lemma wm_ok_desk:
  assumes "wm_ok sh" "desk_inv k" "slots (dcomp k) = slots (dcomp (sdesk sh))" "\<And>p. shown k p = shown (sdesk sh) p"
  shows "wm_ok (sh\<lparr>sdesk := k\<rparr>)"
  using assms by (simp add: wm_ok_def)

lemma window_surface_free:
  assumes "\<forall>i\<in>{1..WM_MAX_WINDOWS}. wm_window_surface i w \<noteq> s" "slot_get i w = Some e"
  shows "w_surf e \<noteq> s"
proof -
  have "i \<in> {1..WM_MAX_WINDOWS}" using slot_get_Some(1,2) [OF assms(2)] by simp
  with assms(1) have "wm_window_surface i w \<noteq> s" by blast
  with assms(2) show ?thesis by (simp add: wm_window_surface_def)
qed

lemma wm_step_ok:
  assumes "wm_step cpu online vb sh sh'" "wm_ok sh"
  shows "wm_ok sh'"
  using assms
proof (induction rule: wm_step.induct)
  case (register s sh x y z)
  then show ?case using window_surface_free by (intro wm_register_ok) blast+
next
  case (dirty sh p)
  then show ?case
    using ds_ops_inv(4) [OF wm_okD(1) [OF dirty], of p]
    by (intro wm_ok_desk) (auto simp: display_server_surface_damage_full_def)
next
  case (draw px lx0 ly0 lx1 ly1 sh p)
  have "desk_inv (desk_gfx (with_surface p (draw_rect px lx0 ly0 lx1 ly1)) (sdesk sh))"
    using draw desk_inv_tracked [OF wm_okD(1), of sh p "draw_rect px lx0 ly0 lx1 ly1"] tracked_draw by (auto simp: desk_gfx_def)
  with draw show ?case by (intro wm_ok_desk) (auto simp: with_surface_def)
next
  case (frame sh)
  then show ?case
    using frame_repaints_inv [OF wm_okD(1) frame.hyps refl] by (intro wm_ok_desk) (auto simp: frame_keeps)
qed (simp_all add: wm_simple_ops_ok wm_set_focus_ok wm_set_active_desktop_ok wm_unregister_ok)

definition shell_start :: "desk \<Rightarrow> wm \<Rightarrow> routing \<Rightarrow> shell" where
  "shell_start k w r = \<lparr>sdesk = k, swm = wm_init w, sinput = input_routing_init r\<rparr>"

lemma shell_start_ok:
  assumes "desk_inv k" "length (g_slots w) = WM_MAX_WINDOWS"
  shows "wm_ok (shell_start k w r)"
proof -
  have "slot_get i (wm_init w) = None" for i
    using assms(2) by (auto simp: slot_get_def wm_init_def Let_def)
  then show ?thesis using assms
    by (simp add: wm_ok_def shell_start_def wm_table_def wm_init_def input_routing_init_def)
qed

lemma shell_run_ok:
  assumes "(wm_step cpu online vb)\<^sup>*\<^sup>* sh sh'" "wm_ok sh"
  shows "wm_ok sh'"
  using assms by (induction rule: rtranclp_induct) (auto intro: wm_step_ok)


text \<open>C14: In every run of window manager calls, client drawing and frames (with the side conditions of the run relation: at
  most 16 damage requests per frame, fresh surfaces, room in the carry list), the focus is on no window or on a registered one
  whose surface is in the compositor's slot list (it may be hidden: minimised or on another desktop), and the keyboard goes to
  the window the window manager has focused.\<close>

theorem wm_focus_valid:
  assumes "desk_inv k" "length (g_slots w) = WM_MAX_WINDOWS"
    and "(wm_step cpu online vb)\<^sup>*\<^sup>* (shell_start k w r) sh"
  shows "(g_focus (swm sh) = WM_ID_NONE \<or>
          wm_window_surface (g_focus (swm sh)) (swm sh) \<in> set (slots (dcomp (sdesk sh)))) \<and>
         g_kb_focus (sinput sh) = g_focus (swm sh)"
proof -
  have ok: "wm_ok sh" by (rule shell_run_ok [OF assms(3) shell_start_ok [OF assms(1,2)]])
  then show ?thesis
    using wm_okD(3) [OF ok, of "g_focus (swm sh)"] by (auto simp: wm_ok_def wm_window_surface_def window_ok_def)
qed

definition example_wm :: wm where
  "example_wm = \<lparr>g_slots = replicate WM_MAX_WINDOWS \<lparr>w_used = False, w_minimized = False, w_maximized = False, w_surf = 0,
     w_desktop = 0, w_restore_x = 0, w_restore_y = 0, w_restore_w = 0, w_restore_h = 0, w_target_w = 0, w_target_h = 0\<rparr>,
     g_next_id = 0, g_active_desktop = 0, g_focus = 0\<rparr>"

definition example_routing :: routing where
  "example_routing = \<lparr>g_kb_focus = 0, g_ptr_capture = 0, g_dnd = IPR_DND_IDLE, g_drag_source = 0, g_drag_serial = 0\<rparr>"

definition example_boot :: shell where
  "example_boot = shell_start (desk_start example_gfx example_compositor example_display) example_wm example_routing"

definition example_shell :: shell where
  "example_shell = wm_set_focus 1 (snd (wm_register_window 8192 5 6 1 example_boot))"

lemma example_desk_start_inv: "desk_inv (desk_start example_gfx example_compositor example_display)"
  by (rule desk_start_inv [OF example_display_ok]) (simp_all add: example_display_def)

lemma example_boot_free: "wm_window_surface i (swm example_boot) = 0"
  by (auto simp: wm_window_surface_def slot_get_def example_boot_def shell_start_def wm_init_def example_wm_def Let_def nth_replicate
      clear_slot_def)

lemma example_shell_run:
  "(wm_step example_cpu 4 False)\<^sup>*\<^sup>* (shell_start (desk_start example_gfx example_compositor example_display) example_wm example_routing)
     example_shell"
proof -
  have "desk_fresh 8192 (sdesk example_boot)"
    using example_surface_ok
    by (simp add: desk_fresh_def example_boot_def shell_start_def desk_start_def example_gfx_def example_surface_def init_surface_def)
  then have "wm_step example_cpu 4 False example_boot (snd (wm_register_window 8192 5 6 1 example_boot))"
    by (rule wm_step.register) (simp add: example_boot_free)
  moreover have "wm_step example_cpu 4 False (snd (wm_register_window 8192 5 6 1 example_boot)) example_shell"
    unfolding example_shell_def by (rule wm_step.focus)
  ultimately show ?thesis unfolding example_boot_def by simp
qed

lemma example_shell_window:
  "\<exists>e. slot_get 1 (swm example_shell) = Some e \<and> w_surf e = 8192 \<and> \<not> w_maximized e \<and> \<not> w_minimized e \<and> w_desktop e = 0"
  "g_focus (swm example_shell) = 1" "g_active_desktop (swm example_shell) = 0"
proof -
  let ?sh = "snd (wm_register_window 8192 5 6 1 example_boot)"
  have "g_next_id (swm example_boot) = 1" "slots (dcomp (sdesk example_boot)) = []" "g_active_desktop (swm example_boot) = 0"
    "length (g_slots (swm example_boot)) = WM_MAX_WINDOWS"
    by (simp_all add: example_boot_def shell_start_def desk_start_def compositor_init_def wm_init_def example_wm_def)
  then obtain e where e: "slot_get 1 (swm ?sh) = Some e" "w_surf e = 8192 \<and> \<not> w_maximized e \<and> \<not> w_minimized e \<and> w_desktop e = 0"
    and d: "g_active_desktop (swm ?sh) = 0"
    by (simp add: wm_register_window_def Let_def desk_add_def compositor_add_def slot_get_set)
  have "swm example_shell = (swm ?sh)\<lparr>g_focus := 1\<rparr>"
    using e(1) by (simp add: example_shell_def wm_set_focus_def wm_raise_def Let_def)
  with e d show "\<exists>e. slot_get 1 (swm example_shell) = Some e \<and> w_surf e = 8192 \<and> \<not> w_maximized e \<and> \<not> w_minimized e \<and> w_desktop e = 0"
    "g_focus (swm example_shell) = 1" "g_active_desktop (swm example_shell) = 0" by auto
qed

lemma example_shell_ok: "wm_ok example_shell"
  by (rule shell_run_ok [OF example_shell_run shell_start_ok [OF example_desk_start_inv]]) (simp add: example_wm_def)

theorem wm_focus_valid_witness: "8192 \<in> set (slots (dcomp (sdesk example_shell))) \<and> g_kb_focus (sinput example_shell) = 1"
proof -
  have "length (g_slots example_wm) = WM_MAX_WINDOWS" by (simp add: example_wm_def)
  from wm_focus_valid [OF example_desk_start_inv this example_shell_run] example_shell_window(1,2) show ?thesis
    by (auto simp: wm_window_surface_def)
qed

lemma shell_run_desk:
  assumes "desk_inv k" "length (g_slots w) = WM_MAX_WINDOWS" "(wm_step cpu online vb)\<^sup>*\<^sup>* (shell_start k w r) sh"
  shows "desk_inv (sdesk sh)"
  by (rule wm_okD(1)) (rule shell_run_ok [OF assms(3) shell_start_ok [OF assms(1,2)]])

text \<open>Switching to a desktop shows exactly the windows of that desktop that are not minimised.\<close>

theorem desktop_switch_shows:
  assumes "wm_ok sh" "index < WM_MAX_DESKTOPS" "slot_get i (swm sh) = Some e"
  shows "s_visible (surf (dgfx (sdesk (wm_set_active_desktop index sh))) (w_surf e)) \<longleftrightarrow> w_desktop e = index \<and> \<not> w_minimized e"
  by (rule set_active_desktop_shown [OF assms])

theorem desktop_switch_shows_witness:
  "s_visible (surf (dgfx (sdesk (wm_set_active_desktop 0 example_shell))) 8192) \<and>
   \<not> s_visible (surf (dgfx (sdesk (wm_set_active_desktop 3 example_shell))) 8192)"
proof -
  obtain e where "slot_get 1 (swm example_shell) = Some e" "w_surf e = 8192" "\<not> w_minimized e" "w_desktop e = 0"
    using example_shell_window(1) by blast
  with desktop_switch_shows [OF example_shell_ok _ this(1), of 0] desktop_switch_shows [OF example_shell_ok _ this(1), of 3]
  show ?thesis by simp
qed


subsection \<open>Snapping and maximising\<close>

lemma snap_axis_bounds:
  assumes "0 \<le> sw" "sw \<le> dw"
  shows "0 \<le> snap_axis lo hi x sw dw \<and> snap_axis lo hi x sw dw + sw \<le> dw"
    "lo \<Longrightarrow> \<not> hi \<Longrightarrow> snap_axis lo hi x sw dw = 0" "hi \<Longrightarrow> snap_axis lo hi x sw dw + sw = dw"
    "\<not> lo \<Longrightarrow> \<not> hi \<Longrightarrow> 0 \<le> x \<Longrightarrow> x + sw \<le> dw \<Longrightarrow> snap_axis lo hi x sw dw = x"
  using assms by (simp_all add: snap_axis_def Let_def)

lemma snap_surface:
  assumes "slot_get i (swm sh) = Some e" "m \<noteq> 0"
  shows "surf (dgfx (sdesk (wm_snap_to_edges i m sh))) (w_surf e) = (surf (dgfx (sdesk sh)) (w_surf e))
    \<lparr>s_x := snap_axis (bit m 0) (bit m 1) (s_x (surf (dgfx (sdesk sh)) (w_surf e))) (sint (s_width (surf (dgfx (sdesk sh)) (w_surf e))))
        (sint (dsp_width (ddisp (sdesk sh)))),
     s_y := snap_axis (bit m 2) (bit m 3) (s_y (surf (dgfx (sdesk sh)) (w_surf e))) (sint (s_height (surf (dgfx (sdesk sh)) (w_surf e))))
        (sint (dsp_height (ddisp (sdesk sh))))\<rparr>"
  using assms slot_get_Some(4) [OF assms(1)] by (simp add: wm_snap_to_edges_def Let_def surface_move_def with_surface_def)

text \<open>A window no larger than the screen is wholly on the screen after \<^verbatim>\<open>wm_snap_to_edges\<close>, whatever the mask and wherever it
  was: every pixel of its rectangle is a screen pixel.\<close>

theorem snap_on_screen:
  assumes "slot_get i (swm sh) = Some e" "m \<noteq> 0" "s = surf (dgfx (sdesk sh)) (w_surf e)" "d = ddisp (sdesk sh)"
    and "0 \<le> sint (s_width s)" "sint (s_width s) \<le> sint (dsp_width d)" "0 \<le> sint (s_height s)" "sint (s_height s) \<le> sint (dsp_height d)"
  shows "cells (surface_effective_rect (surf (dgfx (sdesk (wm_snap_to_edges i m sh))) (w_surf e))) \<subseteq> screen_cells (back_buf d)"
proof -
  note x = snap_axis_bounds(1) [OF assms(5,6), of "bit m 0" "bit m 1" "s_x s"]
  note y = snap_axis_bounds(1) [OF assms(7,8), of "bit m 2" "bit m 3" "s_y s"]
  show ?thesis
    using x y unfolding snap_surface [OF assms(1,2)] assms(3,4)
    by (auto simp: surface_effective_rect_def cells_def rect_make_def screen_cells_def)
qed

text \<open>Maximising a window and restoring it puts it back where it was and at its size, visible and with both flags clear.\<close>

theorem maximize_restore:
  assumes "length (g_slots (swm sh)) = WM_MAX_WINDOWS" "slot_get i (swm sh) = Some e" "\<not> w_maximized e"
    and "s = surf (dgfx (sdesk sh)) (w_surf e)" "s' = surf (dgfx (sdesk (wm_restore i (wm_maximize i sh)))) (w_surf e)"
  shows "s_x s' = s_x s \<and> s_y s' = s_y s \<and> s_width s' = s_width s \<and> s_height s' = s_height s \<and> s_visible s' \<and>
    (\<exists>e'. slot_get i (swm (wm_restore i (wm_maximize i sh))) = Some e' \<and> \<not> w_maximized e' \<and> \<not> w_minimized e')"
proof -
  note e = slot_get_Some [OF assms(2)]
  note get = slot_get_set [OF assms(1) e(1,2)]
  obtain e' where m: "slot_get i (swm (wm_maximize i sh)) = Some e'" "w_surf e' = w_surf e" "w_maximized e'" "\<not> w_minimized e'"
    "w_restore_x e' = s_x s" "w_restore_y e' = s_y s" "w_used e'"
    using assms(2,3,4) e by (simp add: wm_maximize_def Let_def get)
  have len: "length (g_slots (swm (wm_maximize i sh))) = WM_MAX_WINDOWS"
    using assms(1,2) by (simp add: wm_maximize_def Let_def)
  have max: "s_width (surf (dgfx (sdesk (wm_maximize i sh))) (w_surf e)) = s_width s"
    "s_height (surf (dgfx (sdesk (wm_maximize i sh))) (w_surf e)) = s_height s"
    "s_visible (surf (dgfx (sdesk (wm_maximize i sh))) (w_surf e))"
    using assms(2,4) e(4)
    by (simp_all add: wm_maximize_def Let_def surface_show_def surface_move_def surface_mark_dirty_def compositor_raise_def with_surface_def)
  have "s' = surf (dgfx (sdesk (wm_maximize i sh))) (w_surf e)\<lparr>s_x := s_x s, s_y := s_y s, s_pixels_dirty := True, s_dirty_rect_valid := False\<rparr>"
    using m e(4) assms(5) by (simp add: wm_restore_def Let_def surface_move_def surface_mark_dirty_def with_surface_def)
  then have "s_x s' = s_x s \<and> s_y s' = s_y s \<and> s_width s' = s_width s \<and> s_height s' = s_height s \<and> s_visible s'"
    by (simp add: max)
  moreover have "\<exists>f. slot_get i (swm (wm_restore i (wm_maximize i sh))) = Some f \<and> \<not> w_maximized f \<and> \<not> w_minimized f"
    using m e by (simp add: wm_restore_def Let_def slot_get_set [OF len e(1,2)])
  ultimately show ?thesis by simp
qed


lemma example_shell_surface:
  "s_x (surf (dgfx (sdesk example_shell)) 8192) = 5 \<and> s_y (surf (dgfx (sdesk example_shell)) 8192) = 6 \<and>
   s_width (surf (dgfx (sdesk example_shell)) 8192) = 2 \<and> s_height (surf (dgfx (sdesk example_shell)) 8192) = 2"
  "ddisp (sdesk example_shell) = example_display"
proof -
  let ?sh = "snd (wm_register_window 8192 5 6 1 example_boot)" and ?f = "\<lambda>sh. surf (dgfx (sdesk sh)) 8192"
  have "g_next_id (swm example_boot) = 1" "surf (dgfx (sdesk example_boot)) = (\<lambda>_. example_surface)"
    "ddisp (sdesk example_boot) = example_display" "slots (dcomp (sdesk example_boot)) = []"
    by (simp_all add: example_boot_def shell_start_def desk_start_def wm_init_def example_wm_def example_gfx_def compositor_init_def)
  then have "s_x (?f ?sh) = 5 \<and> s_y (?f ?sh) = 6 \<and> s_width (?f ?sh) = 2 \<and> s_height (?f ?sh) = 2 \<and> ddisp (sdesk ?sh) = example_display"
    by (simp add: wm_register_window_def Let_def desk_add_def compositor_add_def surface_move_def surface_set_z_def with_surface_def)
       (simp add: example_surface_def init_surface_def)
  moreover have "s_x (?f example_shell) = s_x (?f ?sh) \<and> s_y (?f example_shell) = s_y (?f ?sh) \<and> s_width (?f example_shell) = s_width (?f ?sh) \<and>
      s_height (?f example_shell) = s_height (?f ?sh) \<and> ddisp (sdesk example_shell) = ddisp (sdesk ?sh)"
    by (simp add: example_shell_def wm_set_focus_def wm_raise_def Let_def compositor_raise_def with_surface_def split: option.split)
  ultimately show "s_x (?f example_shell) = 5 \<and> s_y (?f example_shell) = 6 \<and> s_width (?f example_shell) = 2 \<and> s_height (?f example_shell) = 2"
    "ddisp (sdesk example_shell) = example_display"
    by simp_all
qed

theorem maximize_restore_witness:
  "s_x (surf (dgfx (sdesk (wm_restore 1 (wm_maximize 1 example_shell)))) 8192) = 5 \<and>
   s_visible (surf (dgfx (sdesk (wm_restore 1 (wm_maximize 1 example_shell)))) 8192)"
proof -
  obtain e where "slot_get 1 (swm example_shell) = Some e" "w_surf e = 8192" "\<not> w_maximized e"
    using example_shell_window(1) by blast
  with maximize_restore [OF wm_okD(2) [OF example_shell_ok] this(1) this(3) refl refl] example_shell_surface(1)
  show ?thesis by simp
qed

theorem snap_on_screen_witness:
  "cells (surface_effective_rect (surf (dgfx (sdesk (wm_snap_to_edges 1 2 example_shell))) 8192)) \<subseteq> screen_cells (back_buf example_display)"
proof -
  obtain e where "slot_get 1 (swm example_shell) = Some e" "w_surf e = 8192"
    using example_shell_window(1) by blast
  with snap_on_screen [OF this(1) _ refl refl, of 2] example_shell_surface show ?thesis
    by (simp add: example_display_def)
qed

text \<open>\<^verbatim>\<open>input_routing_pointer_pressed\<close> moves the keyboard focus without telling the window manager: after a press on another window the
  two disagree.\<close>

theorem pointer_press_splits_focus:
  "g_kb_focus (snd (input_routing_pointer_pressed 2 (sinput example_shell))) \<noteq> g_focus (swm example_shell) \<or>
   g_ptr_capture (sinput example_shell) \<noteq> IPR_TOKEN_NONE"
  using example_shell_window(2) by (simp add: input_routing_pointer_pressed_def input_routing_set_keyboard_focus_def)

text \<open>A window that is minimised on another desktop and restored is shown on the active one.\<close>

theorem restore_ignores_desktop:
  assumes "slot_get i (swm sh) = Some e" "w_minimized e"
  shows "s_visible (surf (dgfx (sdesk (wm_restore i sh))) (w_surf e))"
  using assms slot_get_Some(4) [OF assms(1)] by (simp add: wm_restore_def Let_def)

text \<open>Identifiers are never given out again: after 64 registrations, failed or undone, there are no more windows.\<close>

theorem ids_run_out:
  assumes "g_next_id (swm sh) > WM_MAX_WINDOWS"
  shows "wm_register_window s x y z (wm_unregister_window i sh) = (WM_ID_NONE, wm_unregister_window i sh)"
  using assms by (auto simp: wm_register_window_def wm_unregister_window_def drop_focus_def Let_def split: option.split)


lemma example_shell_comp: "slots (dcomp (sdesk example_shell)) = [8192]" "carry_damage (dcomp (sdesk example_shell)) = []"
proof -
  let ?sh = "snd (wm_register_window 8192 5 6 1 example_boot)"
  have "g_next_id (swm example_boot) = 1" "slots (dcomp (sdesk example_boot)) = []" "carry_damage (dcomp (sdesk example_boot)) = []"
    by (simp_all add: example_boot_def shell_start_def desk_start_def wm_init_def example_wm_def compositor_init_def damage_reset_def)
  then have "slots (dcomp (sdesk ?sh)) = [8192] \<and> carry_damage (dcomp (sdesk ?sh)) = []"
    by (simp add: wm_register_window_def Let_def desk_add_def compositor_add_def)
  moreover have "dcomp (sdesk example_shell) = dcomp (sdesk ?sh)"
    by (simp add: example_shell_def wm_set_focus_def wm_raise_def Let_def split: option.split)
  ultimately show "slots (dcomp (sdesk example_shell)) = [8192]" "carry_damage (dcomp (sdesk example_shell)) = []" by simp_all
qed

end
