(* ===== verification/Anim.thy ===== *)
theory Anim
  imports Prelude "HOL-Library.Signed_Division"
begin

text \<open>
  The animation engine, \<^verbatim>\<open>src/compositor/anim.c\<close> and \<^verbatim>\<open>anim.h\<close>: Q16.16 fixed-point arithmetic, springs, easing curves, the
  pool of 64 animations and the values bound to memory cells.  Fixed-point numbers are integers wrapped to 32 bits where the
  source stores an \<^verbatim>\<open>int32_t\<close>; products and quotients are formed in 64 bits, which hold them exactly.  An animation pointer is
  \<open>None\<close> (\<^verbatim>\<open>NULL\<close>) or the index of the pool entry.
\<close>

subsection \<open>Fixed point\<close>

type_synonym fx16 = int

abbreviation FX_ONE :: fx16 where "FX_ONE \<equiv> 65536"
abbreviation FX_HALF :: fx16 where "FX_HALF \<equiv> 32768"

definition FX_TO_INT_ROUND :: "fx16 \<Rightarrow> int" where
  "FX_TO_INT_ROUND f = i32 (f + (if f \<ge> 0 then FX_HALF else - FX_HALF)) div 65536"

definition fx_mul :: "fx16 \<Rightarrow> fx16 \<Rightarrow> fx16" where
  "fx_mul a b = i32 ((a * b + FX_HALF) div 65536)"

definition fx_div :: "fx16 \<Rightarrow> fx16 \<Rightarrow> fx16" where
  "fx_div a b = (if b = 0 then 0 else i32 ((a * 65536) sdiv b))"

subsection \<open>State\<close>

datatype anim_kind = ANIM_SPRING | ANIM_EASE

datatype anim_easing =
  EASE_LINEAR | EASE_IN_CUBIC | EASE_OUT_CUBIC | EASE_IN_OUT_CUBIC | EASE_OUT_BACK | EASE_CUBIC_BEZIER

datatype anim_bind = BIND_NONE | BIND_I32 | BIND_U8

record anim =
  a_used :: bool
  a_kind :: anim_kind
  a_current :: fx16
  a_velocity :: fx16
  a_from :: fx16
  a_target :: fx16
  a_t :: fx16
  a_duration :: fx16
  a_stiffness :: fx16
  a_damping :: fx16
  a_easing :: anim_easing
  a_bez_x1 :: fx16
  a_bez_y1 :: fx16
  a_bez_x2 :: fx16
  a_bez_y2 :: fx16
  a_bind_kind :: anim_bind
  a_bind_ptr :: nat
  a_bind_scale :: fx16
  a_bind_offset :: fx16
  a_bind_min :: int
  a_bind_max :: int
  a_done :: bool
  a_loop :: bool

abbreviation ANIM_POOL :: nat where "ANIM_POOL \<equiv> 64"

type_synonym pool = "anim list"

definition with_anim :: "nat option \<Rightarrow> (anim \<Rightarrow> anim) \<Rightarrow> pool \<Rightarrow> pool" where
  "with_anim p f pl = (case p of None \<Rightarrow> pl | Some i \<Rightarrow> pl[i := f (pl ! i)])"

subsection \<open>The pool and the configuration\<close>

definition fresh_anim :: anim where
  "fresh_anim = \<lparr>a_used = True, a_kind = ANIM_SPRING, a_current = 0, a_velocity = 0, a_from = 0, a_target = 0, a_t = 0,
     a_duration = 0, a_stiffness = 0, a_damping = 0, a_easing = EASE_LINEAR, a_bez_x1 = 0, a_bez_y1 = 0, a_bez_x2 = 0,
     a_bez_y2 = 0, a_bind_kind = BIND_NONE, a_bind_ptr = 0, a_bind_scale = 0, a_bind_offset = 0, a_bind_min = -0x7fffffff,
     a_bind_max = 0x7fffffff, a_done = False, a_loop = False\<rparr>"

definition anim_new :: "pool \<Rightarrow> nat option \<times> pool" where
  "anim_new pl =
     (case List.find (\<lambda>i. \<not> a_used (pl ! i)) [0..<length pl] of
        None \<Rightarrow> (None, pl)
      | Some i \<Rightarrow> (Some i, pl[i := fresh_anim]))"

definition anim_free :: "nat option \<Rightarrow> pool \<Rightarrow> pool" where
  "anim_free p = with_anim p (\<lambda>a. a\<lparr>a_used := False\<rparr>)"

definition anim_spring :: "nat option \<Rightarrow> fx16 \<Rightarrow> fx16 \<Rightarrow> fx16 \<Rightarrow> fx16 \<Rightarrow> pool \<Rightarrow> pool" where
  "anim_spring p from to stiffness damping = with_anim p (\<lambda>a.
     let a = a\<lparr>a_kind := ANIM_SPRING\<rparr>;
         a = (if a_current a = 0 \<or> a_done a then a\<lparr>a_current := from\<rparr> else a)
     in a\<lparr>a_from := from, a_target := to, a_stiffness := stiffness, a_damping := damping, a_done := False\<rparr>)"

definition ease :: "fx16 \<Rightarrow> fx16 \<Rightarrow> fx16 \<Rightarrow> anim_easing \<Rightarrow> anim \<Rightarrow> anim" where
  "ease from to duration_s easing a =
     a\<lparr>a_kind := ANIM_EASE, a_current := from, a_from := from, a_target := to,
       a_duration := (if duration_s > 0 then duration_s else FX_ONE), a_easing := easing, a_bez_x1 := 0, a_bez_y1 := 0,
       a_bez_x2 := 0, a_bez_y2 := 0, a_t := 0, a_velocity := 0, a_done := False\<rparr>"

definition anim_ease :: "nat option \<Rightarrow> fx16 \<Rightarrow> fx16 \<Rightarrow> fx16 \<Rightarrow> anim_easing \<Rightarrow> pool \<Rightarrow> pool" where
  "anim_ease p from to duration_s easing = with_anim p (ease from to duration_s easing)"

definition anim_ease_bezier ::
  "nat option \<Rightarrow> fx16 \<Rightarrow> fx16 \<Rightarrow> fx16 \<Rightarrow> fx16 \<Rightarrow> fx16 \<Rightarrow> fx16 \<Rightarrow> fx16 \<Rightarrow> pool \<Rightarrow> pool" where
  "anim_ease_bezier p from to duration_s x1 y1 x2 y2 = with_anim p (\<lambda>a.
     let a = ease from to duration_s EASE_CUBIC_BEZIER a;
         x1 = (if x1 < 0 then 0 else x1); x1 = (if x1 > FX_ONE then FX_ONE else x1);
         x2 = (if x2 < 0 then 0 else x2); x2 = (if x2 > FX_ONE then FX_ONE else x2)
     in a\<lparr>a_bez_x1 := x1, a_bez_y1 := y1, a_bez_x2 := x2, a_bez_y2 := y2\<rparr>)"

definition anim_retarget :: "nat option \<Rightarrow> fx16 \<Rightarrow> pool \<Rightarrow> pool" where
  "anim_retarget p new_target = with_anim p (\<lambda>a.
     let a = a\<lparr>a_target := new_target, a_done := False\<rparr>
     in if a_kind a = ANIM_EASE then a\<lparr>a_from := a_current a, a_t := 0\<rparr> else a)"

definition anim_cancel :: "nat option \<Rightarrow> pool \<Rightarrow> pool" where
  "anim_cancel p = with_anim p (\<lambda>a. a\<lparr>a_done := True\<rparr>)"

definition anim_done :: "nat option \<Rightarrow> pool \<Rightarrow> bool" where
  "anim_done p pl = (case p of None \<Rightarrow> True | Some i \<Rightarrow> a_done (pl ! i))"

definition anim_value :: "nat option \<Rightarrow> pool \<Rightarrow> fx16" where
  "anim_value p pl = (case p of None \<Rightarrow> 0 | Some i \<Rightarrow> a_current (pl ! i))"

definition anim_set_loop :: "nat option \<Rightarrow> bool \<Rightarrow> pool \<Rightarrow> pool" where
  "anim_set_loop p enable = with_anim p (\<lambda>a. a\<lparr>a_loop := enable\<rparr>)"

definition anim_bind_i32 :: "nat option \<Rightarrow> nat \<Rightarrow> fx16 \<Rightarrow> fx16 \<Rightarrow> int \<Rightarrow> int \<Rightarrow> pool \<Rightarrow> pool" where
  "anim_bind_i32 p ptr scale off mn mx = with_anim p (\<lambda>a.
     a\<lparr>a_bind_kind := BIND_I32, a_bind_ptr := ptr, a_bind_scale := (if scale \<noteq> 0 then scale else FX_ONE), a_bind_offset := off,
       a_bind_min := mn, a_bind_max := mx\<rparr>)"

definition anim_bind_u8 :: "nat option \<Rightarrow> nat \<Rightarrow> fx16 \<Rightarrow> fx16 \<Rightarrow> int \<Rightarrow> int \<Rightarrow> pool \<Rightarrow> pool" where
  "anim_bind_u8 p ptr scale off mn mx = with_anim p (\<lambda>a.
     a\<lparr>a_bind_kind := BIND_U8, a_bind_ptr := ptr, a_bind_scale := (if scale \<noteq> 0 then scale else FX_ONE), a_bind_offset := off,
       a_bind_min := (if mn < 0 then 0 else mn), a_bind_max := (if mx > 255 then 255 else mx)\<rparr>)"

subsection \<open>Easing curves\<close>

definition ease_in_cubic :: "fx16 \<Rightarrow> fx16" where
  "ease_in_cubic t = fx_mul (fx_mul t t) t"

definition ease_out_cubic :: "fx16 \<Rightarrow> fx16" where
  "ease_out_cubic t = (let inv = i32 (FX_ONE - t) in i32 (FX_ONE - fx_mul (fx_mul inv inv) inv))"

definition ease_in_out_cubic :: "fx16 \<Rightarrow> fx16" where
  "ease_in_out_cubic t =
     (if t < FX_HALF then i32 (4 * fx_mul (fx_mul t t) t)
      else let s = i32 (FX_ONE - t) in i32 (FX_ONE - i32 (4 * fx_mul (fx_mul s s) s)))"

definition ease_out_back :: "fx16 \<Rightarrow> fx16" where
  "ease_out_back t =
     (let u = i32 (t - FX_ONE); u2 = fx_mul u u; u3 = fx_mul u2 u
      in i32 (i32 (FX_ONE + fx_mul 177003 u3) + fx_mul 111467 u2))"

definition cubic_bezier_axis :: "fx16 \<Rightarrow> fx16 \<Rightarrow> fx16 \<Rightarrow> fx16" where
  "cubic_bezier_axis t p1 p2 =
     (let om = i32 (FX_ONE - t); t2 = fx_mul t t; om2 = fx_mul om om; c3 = 3 * FX_ONE;
          a = fx_mul c3 (fx_mul (fx_mul om2 t) p1);
          b = fx_mul c3 (fx_mul (fx_mul om t2) p2)
      in i32 (i32 (a + b) + fx_mul t2 t))"

fun bisect :: "nat \<Rightarrow> (fx16 \<Rightarrow> bool) \<Rightarrow> fx16 \<Rightarrow> fx16 \<Rightarrow> fx16" where
  "bisect 0 below lo hi = hi"
| "bisect (Suc n) below lo hi =
     (let mid = (lo + hi) div 2 in if below mid then bisect n below mid hi else bisect n below lo mid)"

definition ease_param_for_x :: "fx16 \<Rightarrow> fx16 \<Rightarrow> fx16 \<Rightarrow> fx16" where
  "ease_param_for_x u x1 x2 =
     (if u \<le> 0 then 0 else if u \<ge> FX_ONE then FX_ONE
      else bisect 24 (\<lambda>mid. cubic_bezier_axis mid x1 x2 < u) 0 FX_ONE)"

definition apply_ease :: "anim \<Rightarrow> fx16 \<Rightarrow> fx16" where
  "apply_ease a t =
     (case a_easing a of
        EASE_LINEAR \<Rightarrow> t
      | EASE_IN_CUBIC \<Rightarrow> ease_in_cubic t
      | EASE_OUT_CUBIC \<Rightarrow> ease_out_cubic t
      | EASE_IN_OUT_CUBIC \<Rightarrow> ease_in_out_cubic t
      | EASE_OUT_BACK \<Rightarrow> ease_out_back t
      | EASE_CUBIC_BEZIER \<Rightarrow> cubic_bezier_axis (ease_param_for_x t (a_bez_x1 a) (a_bez_x2 a)) (a_bez_y1 a) (a_bez_y2 a))"

subsection \<open>Step and tick\<close>

definition fx_abs :: "fx16 \<Rightarrow> fx16" where
  "fx_abs v = (if v < 0 then i32 (- v) else v)"

definition step_spring :: "fx16 \<Rightarrow> anim \<Rightarrow> anim" where
  "step_spring dt a =
     (let err = i32 (a_target a - a_current a);
          force = i32 (fx_mul (a_stiffness a) err - fx_mul (a_damping a) (a_velocity a));
          a = a\<lparr>a_velocity := i32 (a_velocity a + fx_mul force dt)\<rparr>;
          a = a\<lparr>a_current := i32 (a_current a + fx_mul (a_velocity a) dt)\<rparr>
      in if fx_abs err < FX_ONE div 256 \<and> fx_abs (a_velocity a) < FX_ONE div 64
         then a\<lparr>a_current := a_target a, a_velocity := 0, a_done := True\<rparr>
         else a)"

definition step_ease :: "fx16 \<Rightarrow> anim \<Rightarrow> anim" where
  "step_ease dt a =
     (let a = a\<lparr>a_t := i32 (a_t a + fx_div dt (a_duration a))\<rparr>;
          a = (if a_t a \<ge> FX_ONE then a\<lparr>a_t := FX_ONE, a_done := True\<rparr> else a);
          k = apply_ease a (a_t a);
          delta = i32 (a_target a - a_from a)
      in a\<lparr>a_current := i32 (a_from a + fx_mul k delta)\<rparr>)"

definition clamp_i32 :: "int \<Rightarrow> int \<Rightarrow> int \<Rightarrow> int" where
  "clamp_i32 v lo hi = (if v < lo then lo else if v > hi then hi else v)"

text \<open>\<open>m\<close> is the memory the bound cells live in.\<close>

definition apply_binding :: "anim \<Rightarrow> (nat \<Rightarrow> int) \<Rightarrow> (nat \<Rightarrow> int)" where
  "apply_binding a m =
     (if a_bind_kind a = BIND_NONE \<or> a_bind_ptr a = 0 then m
      else let scaled = i32 (fx_mul (a_current a) (a_bind_scale a) + a_bind_offset a);
               iv = clamp_i32 (FX_TO_INT_ROUND scaled) (a_bind_min a) (a_bind_max a)
           in if a_bind_kind a = BIND_I32 then m(a_bind_ptr a := iv) else m(a_bind_ptr a := iv mod 256))"

definition anim_step :: "fx16 \<Rightarrow> anim \<Rightarrow> anim" where
  "anim_step dt a = (case a_kind a of ANIM_SPRING \<Rightarrow> step_spring dt a | ANIM_EASE \<Rightarrow> step_ease dt a)"

definition anim_restart :: "anim \<Rightarrow> anim" where
  "anim_restart a =
     (let tmp = a_from a; a = a\<lparr>a_from := a_target a, a_target := tmp, a_done := False\<rparr>
      in if a_kind a = ANIM_EASE then a\<lparr>a_t := 0, a_current := a_from a\<rparr> else a)"

definition anim_tick :: "fx16 \<Rightarrow> anim \<times> (nat \<Rightarrow> int) \<Rightarrow> anim \<times> (nat \<Rightarrow> int)" where
  "anim_tick dt am =
     (let (a, m) = am
      in if \<not> a_used a then (a, m)
         else if a_done a \<and> \<not> a_loop a then (a, m)
         else let a = (if a_done a then anim_restart a else a); a = anim_step dt a in (a, apply_binding a m))"

definition anim_tick_all :: "fx16 \<Rightarrow> pool \<times> (nat \<Rightarrow> int) \<Rightarrow> pool \<times> (nat \<Rightarrow> int)" where
  "anim_tick_all dt pm =
     fold (\<lambda>i (pl, m). let (a, m) = anim_tick dt (pl ! i, m) in (pl[i := a], m)) [0..<length (fst pm)] pm"


subsection \<open>Arithmetic\<close>

lemma i32_add_i32: "i32 (a + i32 b) = i32 (a + b)"
proof -
  have "(a + ((b + 2 ^ 31) mod 2 ^ 32 - 2 ^ 31) + 2 ^ 31) mod 2 ^ 32 = (a + (b + 2 ^ 31) mod 2 ^ 32) mod (2 ^ 32 :: int)"
    by (simp add: algebra_simps)
  also have "\<dots> = (a + (b + 2 ^ 31)) mod 2 ^ 32" by (simp add: mod_add_right_eq)
  finally show ?thesis by (simp add: i32_def algebra_simps)
qed

lemma fx_mul_0 [simp]: "fx_mul 0 x = 0" "fx_mul x 0 = 0"
  by (simp_all add: fx_mul_def)

lemma fx_mul_one [simp]:
  assumes "- (2 ^ 31) \<le> d" "d < 2 ^ 31"
  shows "fx_mul FX_ONE d = d"
proof -
  have "(FX_ONE * d + FX_HALF) div 65536 = d" by simp
  with assms show ?thesis by (simp add: fx_mul_def)
qed

text \<open>A product with a factor in the unit interval stays between zero and the other factor.\<close>

lemma fx_mul_unit:
  assumes "0 \<le> k" "k \<le> FX_ONE" "0 \<le> d" "d < 2 ^ 31"
  shows "0 \<le> fx_mul k d" "fx_mul k d \<le> d"
proof -
  have up: "k * d \<le> FX_ONE * d" using assms by (intro mult_right_mono) auto
  then have le: "(k * d + FX_HALF) div 65536 \<le> d" by simp
  have ge: "0 \<le> (k * d + FX_HALF) div 65536" using assms by (simp add: pos_imp_zdiv_nonneg_iff)
  have "fx_mul k d = (k * d + FX_HALF) div 65536" unfolding fx_mul_def using le ge assms(4) by (intro i32_id) linarith+
  with le ge show "0 \<le> fx_mul k d" "fx_mul k d \<le> d" by simp_all
qed

lemma fx_mul_unit_neg:
  assumes "0 \<le> k" "k \<le> FX_ONE" "d \<le> 0" "- (2 ^ 31) \<le> d"
  shows "d \<le> fx_mul k d" "fx_mul k d \<le> 0"
proof -
  have "FX_ONE * d \<le> k * d" using assms by (intro mult_right_mono_neg) auto
  then have ge: "d \<le> (k * d + FX_HALF) div 65536" by simp
  have "k * d \<le> 0" using assms by (simp add: mult_nonneg_nonpos)
  then have le: "(k * d + FX_HALF) div 65536 \<le> 0" by simp
  have "fx_mul k d = (k * d + FX_HALF) div 65536" unfolding fx_mul_def using le ge assms(4) by (intro i32_id) auto
  with le ge show "d \<le> fx_mul k d" "fx_mul k d \<le> 0" by simp_all
qed

subsection \<open>The bisection\<close>

lemma bisect_correct:
  assumes "lo < hi" "hi - lo \<le> 2 ^ n" "below lo" "\<not> below hi"
  shows "lo < bisect n below lo hi \<and> bisect n below lo hi \<le> hi \<and> \<not> below (bisect n below lo hi) \<and> below (bisect n below lo hi - 1)"
  using assms
proof (induction n arbitrary: lo hi)
  case 0
  then have "hi = lo + 1" by simp
  with 0 show ?case by simp
next
  case (Suc n)
  let ?m = "(lo + hi) div 2"
  show ?case
  proof (cases "hi = lo + 1")
    case True
    then have "?m = lo" by simp
    with Suc.prems True have b: "below ?m" and e: "bisect (Suc n) below lo hi = bisect n below lo hi" by simp_all
    have "hi - lo \<le> 2 ^ n" using True by simp
    from Suc.IH [OF Suc.prems(1) this Suc.prems(3,4)] show ?thesis unfolding e .
  next
    case False
    then have m: "lo < ?m" "?m < hi" "hi - ?m \<le> 2 ^ n" "?m - lo \<le> 2 ^ n" using Suc.prems(1,2) by auto
    show ?thesis
    proof (cases "below ?m")
      case True
      from Suc.IH [OF m(2,3) True Suc.prems(4)] m True show ?thesis by (simp add: Let_def)
    next
      case False
      from Suc.IH [OF m(1,4) Suc.prems(3) False] m False show ?thesis by (simp add: Let_def)
    qed
  qed
qed

lemma bezier_axis_ends [simp]: "cubic_bezier_axis 0 p q = 0" "cubic_bezier_axis FX_ONE p q = FX_ONE"
  by (simp_all add: cubic_bezier_axis_def Let_def)

text \<open>The parameter search of \<^verbatim>\<open>cubic-bezier\<close> easing always ends on the exact crossing: for every progress strictly inside the
  unit interval and every control abscissa, the curve is below the progress one step before the result and not below it at
  the result.\<close>

theorem ease_param_crossing:
  assumes "0 < u" "u < FX_ONE"
  shows "0 < ease_param_for_x u x1 x2 \<and> ease_param_for_x u x1 x2 \<le> FX_ONE \<and>
    cubic_bezier_axis (ease_param_for_x u x1 x2 - 1) x1 x2 < u \<and> u \<le> cubic_bezier_axis (ease_param_for_x u x1 x2) x1 x2"
proof -
  have "(0 :: int) < FX_ONE" "FX_ONE - 0 \<le> 2 ^ 24" by simp_all
  from bisect_correct [OF this, of "\<lambda>mid. cubic_bezier_axis mid x1 x2 < u"] assms show ?thesis
    by (simp add: ease_param_for_x_def not_less)
qed

theorem ease_param_crossing_witness:
  "cubic_bezier_axis (ease_param_for_x 30000 16384 49152 - 1) 16384 49152 < 30000 \<and>
   30000 \<le> cubic_bezier_axis (ease_param_for_x 30000 16384 49152) 16384 49152"
  using ease_param_crossing [of 30000 16384 49152] by simp


subsection \<open>Easing\<close>

lemma fx_mul_le:
  assumes "0 \<le> a" "a \<le> A" "0 \<le> b" "b \<le> B" "(A * B + FX_HALF) div 65536 \<le> C" "C < 2 ^ 31"
  shows "0 \<le> fx_mul a b \<and> fx_mul a b \<le> C"
proof -
  have "a * b \<le> A * B" using assms by (intro mult_mono) auto
  then have le: "(a * b + FX_HALF) div 65536 \<le> C" using assms(5) zdiv_mono1 [of "a * b + FX_HALF" "A * B + FX_HALF" 65536] by simp
  have ge: "0 \<le> (a * b + FX_HALF) div 65536" using assms by (simp add: pos_imp_zdiv_nonneg_iff)
  have "fx_mul a b = (a * b + FX_HALF) div 65536" unfolding fx_mul_def using le ge assms(6) by (intro i32_id) linarith+
  with le ge show ?thesis by simp
qed

lemma ease_end [simp]: "apply_ease a FX_ONE = FX_ONE"
  by (simp add: apply_ease_def ease_in_cubic_def ease_out_cubic_def ease_in_out_cubic_def ease_out_back_def ease_param_for_x_def
      Let_def split: anim_easing.split)

lemma ease_unit:
  assumes t: "0 \<le> t" "t \<le> FX_ONE" and e: "a_easing a \<in> {EASE_LINEAR, EASE_IN_CUBIC, EASE_OUT_CUBIC, EASE_IN_OUT_CUBIC}"
  shows "0 \<le> apply_ease a t \<and> apply_ease a t \<le> FX_ONE"
proof -
  have cube: "0 \<le> fx_mul (fx_mul x x) x \<and> fx_mul (fx_mul x x) x \<le> FX_ONE" if "0 \<le> x" "x \<le> FX_ONE" for x
  proof -
    have "0 \<le> fx_mul x x \<and> fx_mul x x \<le> FX_ONE" using fx_mul_le [of x FX_ONE x FX_ONE FX_ONE] that by simp
    then show ?thesis using fx_mul_le [of "fx_mul x x" FX_ONE x FX_ONE FX_ONE] that by simp
  qed
  have half: "0 \<le> fx_mul (fx_mul x x) x \<and> fx_mul (fx_mul x x) x \<le> 8192" if "0 \<le> x" "x \<le> FX_HALF" for x
  proof -
    have "0 \<le> fx_mul x x \<and> fx_mul x x \<le> 16384" using fx_mul_le [of x FX_HALF x FX_HALF 16384] that by simp
    then show ?thesis using fx_mul_le [of "fx_mul x x" 16384 x FX_HALF 8192] that by simp
  qed
  have "0 \<le> ease_in_out_cubic t \<and> ease_in_out_cubic t \<le> FX_ONE"
    using half [of t] half [of "FX_ONE - t"] t by (auto simp: ease_in_out_cubic_def Let_def)
  moreover have "0 \<le> ease_in_cubic t \<and> ease_in_cubic t \<le> FX_ONE" using cube t by (simp add: ease_in_cubic_def)
  moreover have "0 \<le> ease_out_cubic t \<and> ease_out_cubic t \<le> FX_ONE"
    using cube [of "FX_ONE - t"] t by (simp add: ease_out_cubic_def Let_def)
  ultimately show ?thesis using t e by (auto simp: apply_ease_def)
qed

lemma step_ease_eq:
  assumes "0 \<le> a_t a" "a_t a \<le> FX_ONE" "0 \<le> fx_div dt (a_duration a)" "fx_div dt (a_duration a) \<le> 2 ^ 30"
    and a1: "a1 = a\<lparr>a_t := min FX_ONE (a_t a + fx_div dt (a_duration a)),
          a_done := (a_done a \<or> a_t a + fx_div dt (a_duration a) \<ge> FX_ONE)\<rparr>"
  shows "step_ease dt a = a1\<lparr>a_current := i32 (a_from a + fx_mul (apply_ease a1 (a_t a1)) (i32 (a_target a - a_from a)))\<rparr>"
proof -
  have "i32 (a_t a + fx_div dt (a_duration a)) = a_t a + fx_div dt (a_duration a)"
    using assms(1-4) by (intro i32_id) auto
  then show ?thesis using a1 by (simp add: step_ease_def Let_def min_def)
qed

lemma tick_done:
  assumes "a_done a" "\<not> a_loop a"
  shows "(anim_tick dt ^^ n) (a, m) = (a, m)"
  using assms by (induction n) (simp_all add: anim_tick_def)

lemma ease_ticks:
  assumes "a_used a" "a_kind a = ANIM_EASE" "\<not> a_loop a" "\<not> a_done a" "0 \<le> a_t a" "a_t a < FX_ONE"
    and tgt: "- (2 ^ 31) \<le> a_target a" "a_target a < 2 ^ 31"
    and s: "0 < fx_div dt (a_duration a)" "fx_div dt (a_duration a) \<le> 2 ^ 30"
    and n: "FX_ONE - a_t a \<le> int n * fx_div dt (a_duration a)"
  shows "a_done (fst ((anim_tick dt ^^ n) (a, m))) \<and> a_current (fst ((anim_tick dt ^^ n) (a, m))) = a_target a"
  using assms
proof (induction n arbitrary: a m)
  case (Suc n)
  let ?s = "fx_div dt (a_duration a)"
  define a1 where "a1 = a\<lparr>a_t := min FX_ONE (a_t a + ?s), a_done := (a_done a \<or> a_t a + ?s \<ge> FX_ONE)\<rparr>"
  define a2 where "a2 = a1\<lparr>a_current := i32 (a_from a + fx_mul (apply_ease a1 (a_t a1)) (i32 (a_target a - a_from a)))\<rparr>"
  have "step_ease dt a = a2" unfolding a2_def using Suc.prems by (intro step_ease_eq [OF _ _ _ _ a1_def]) auto
  then have tick: "anim_tick dt (a, m) = (a2, apply_binding a2 m)"
    using Suc.prems by (simp add: anim_tick_def anim_step_def Let_def)
  have run: "(anim_tick dt ^^ Suc n) (a, m) = (anim_tick dt ^^ n) (a2, apply_binding a2 m)"
    by (simp only: funpow_Suc_right comp_apply tick)
  show ?case
  proof (cases "a_t a + ?s \<ge> FX_ONE")
    case True
    then have d: "a_done a2" "\<not> a_loop a2" "a_t a1 = FX_ONE" using Suc.prems by (simp_all add: a2_def a1_def)
    have "a_current a2 = i32 (a_from a + i32 (a_target a - a_from a))"
      using d(3) i32_range [of "a_target a - a_from a"] by (simp add: a2_def)
    also have "\<dots> = a_target a" using Suc.prems(7,8) by (simp add: i32_add_i32)
    finally show ?thesis using tick_done [OF d(1,2)] d(1) by (simp only: run) simp
  next
    case False
    have f: "a_used a2" "a_kind a2 = ANIM_EASE" "\<not> a_loop a2" "\<not> a_done a2" "a_t a2 = a_t a + ?s" "a_duration a2 = a_duration a"
      "a_target a2 = a_target a"
      using Suc.prems False by (simp_all add: a2_def a1_def)
    have "FX_ONE - a_t a2 \<le> int n * ?s" using Suc.prems(11) by (simp add: f algebra_simps)
    with Suc.IH [of a2 "apply_binding a2 m"] f False Suc.prems show ?thesis by (simp only: run) simp
  qed
qed simp


text \<open>A timed easing that does not loop ends, exactly on its target, whatever the curve: as soon as the ticks add up to its duration
  it is done with the target as its value, and it stays so.  The step per tick only has to be positive and at most half of
  the integer range, which the cap on the frame time ensures.\<close>

theorem ease_reaches_target:
  assumes "a_used a" "a_kind a = ANIM_EASE" "\<not> a_loop a" "\<not> a_done a" "0 \<le> a_t a" "a_t a < FX_ONE"
    and "- (2 ^ 31) \<le> a_target a" "a_target a < 2 ^ 31" "0 < fx_div dt (a_duration a)" "fx_div dt (a_duration a) \<le> 2 ^ 30"
    and "FX_ONE - a_t a \<le> int n * fx_div dt (a_duration a)"
  shows "a_done (fst ((anim_tick dt ^^ n) (a, m))) \<and> a_current (fst ((anim_tick dt ^^ n) (a, m))) = a_target a"
  by (rule ease_ticks [OF assms])

definition example_anim :: anim where
  "example_anim = ease (10 * FX_ONE) (- 3 * FX_ONE) 6554 EASE_OUT_BACK fresh_anim"

theorem ease_reaches_target_witness:
  "a_current (fst ((anim_tick 546 ^^ 13) (example_anim, \<lambda>_. 0))) = - 3 * FX_ONE"
proof -
  have s: "fx_div 546 (a_duration example_anim) = 5459"
    by (simp add: fx_div_def example_anim_def ease_def signed_divide_int_def)
  have "a_used example_anim" "a_kind example_anim = ANIM_EASE" "\<not> a_loop example_anim" "\<not> a_done example_anim"
    "a_t example_anim = 0" "a_target example_anim = - 3 * FX_ONE"
    by (simp_all add: example_anim_def ease_def fresh_anim_def)
  with ease_reaches_target [of example_anim 546 13 "\<lambda>_. 0"] show ?thesis by (simp add: s)
qed

text \<open>No overshoot: with the linear and the cubic easings the value stays between start and target at every tick.\<close>

theorem ease_between:
  assumes "0 \<le> a_t a" "a_t a \<le> FX_ONE" "0 \<le> fx_div dt (a_duration a)" "fx_div dt (a_duration a) \<le> 2 ^ 30"
    and "a_easing a \<in> {EASE_LINEAR, EASE_IN_CUBIC, EASE_OUT_CUBIC, EASE_IN_OUT_CUBIC}"
    and "- (2 ^ 30) \<le> a_from a" "a_from a < 2 ^ 30" "- (2 ^ 30) \<le> a_target a" "a_target a < 2 ^ 30"
  shows "min (a_from a) (a_target a) \<le> a_current (step_ease dt a) \<and> a_current (step_ease dt a) \<le> max (a_from a) (a_target a)"
proof -
  define a1 where "a1 = a\<lparr>a_t := min FX_ONE (a_t a + fx_div dt (a_duration a)),
      a_done := (a_done a \<or> a_t a + fx_div dt (a_duration a) \<ge> FX_ONE)\<rparr>"
  let ?k = "apply_ease a1 (a_t a1)" and ?d = "a_target a - a_from a"
  have "0 \<le> a_t a1" "a_t a1 \<le> FX_ONE" "a_easing a1 = a_easing a" using assms(1,3) by (simp_all add: a1_def)
  then have k: "0 \<le> ?k" "?k \<le> FX_ONE" using ease_unit [of "a_t a1" a1] assms(5) by simp_all
  have d: "i32 ?d = ?d" using assms(6-9) by (intro i32_id) auto
  have cur: "a_current (step_ease dt a) = i32 (a_from a + fx_mul ?k ?d)"
    using step_ease_eq [OF assms(1-4) a1_def] by (simp add: d)
  show ?thesis
  proof (cases "0 \<le> ?d")
    case True
    have "0 \<le> fx_mul ?k ?d" "fx_mul ?k ?d \<le> ?d" using fx_mul_unit [OF k True] assms(6-9) by auto
    moreover from this have "i32 (a_from a + fx_mul ?k ?d) = a_from a + fx_mul ?k ?d" using assms(6-9) by (intro i32_id) auto
    ultimately show ?thesis by (simp add: cur)
  next
    case False
    have "?d \<le> fx_mul ?k ?d" "fx_mul ?k ?d \<le> 0" using fx_mul_unit_neg [OF k, of ?d] False assms(6-9) by auto
    moreover from this have "i32 (a_from a + fx_mul ?k ?d) = a_from a + fx_mul ?k ?d" using assms(6-9) by (intro i32_id) auto
    ultimately show ?thesis by (simp add: cur)
  qed
qed

theorem ease_between_witness:
  "0 \<le> a_current (step_ease 546 (ease 0 FX_ONE 6554 EASE_IN_OUT_CUBIC fresh_anim)) \<and>
   a_current (step_ease 546 (ease 0 FX_ONE 6554 EASE_IN_OUT_CUBIC fresh_anim)) \<le> FX_ONE"
proof -
  let ?a = "ease 0 FX_ONE 6554 EASE_IN_OUT_CUBIC fresh_anim"
  have "fx_div 546 (a_duration ?a) = 5459" by (simp add: fx_div_def ease_def signed_divide_int_def)
  with ease_between [of ?a 546] show ?thesis by (simp add: ease_def)
qed


subsection \<open>The pool\<close>

lemma tick_ignores_memory: "fst (anim_tick dt (a, m)) = fst (anim_tick dt (a, m'))"
  by (simp add: anim_tick_def Let_def)

lemma tick_fold:
  assumes "n \<le> length pl"
  shows "fst (fold (\<lambda>i (pl, m). let (a, m) = anim_tick dt (pl ! i, m) in (pl[i := a], m)) [0..<n] (pl, m)) =
    map (\<lambda>a. fst (anim_tick dt (a, m))) (take n pl) @ drop n pl"
  using assms
proof (induction n)
  case (Suc n)
  define f where "f = (\<lambda>i (pl, m). let (a, m) = anim_tick dt (pl ! i, m) in (pl[i := a], m))"
  obtain q k where q: "fold f [0..<n] (pl, m) = (q, k)" by fastforce
  have qe: "q = map (\<lambda>a. fst (anim_tick dt (a, m))) (take n pl) @ drop n pl" using Suc q by (simp only: f_def [symmetric]) simp
  have qn: "q ! n = pl ! n" using Suc.prems by (simp add: qe nth_append)
  have "fst (f n (q, k)) = q[n := fst (anim_tick dt (pl ! n, m))]"
    using tick_ignores_memory [of dt "pl ! n" k m] by (cases "anim_tick dt (pl ! n, k)") (simp add: qn f_def)
  also have "\<dots> = map (\<lambda>a. fst (anim_tick dt (a, m))) (take (Suc n) pl) @ drop (Suc n) pl"
    using Suc.prems by (simp add: qe list_update_append take_Suc_conv_app_nth Cons_nth_drop_Suc [symmetric])
  finally show ?case unfolding f_def [symmetric] by (simp add: q)
qed simp

text \<open>One tick of the pool advances every entry on its own, as if it were the only one.\<close>

lemma tick_all_entries: "fst (anim_tick_all dt (pl, m)) = map (\<lambda>a. fst (anim_tick dt (a, m))) pl"
  using tick_fold [of "length pl" pl dt m] by (simp add: anim_tick_all_def)

text \<open>A value bound to a memory cell is inside the range given at binding after every tick that advances the animation, and a byte cell
  holds a byte; no other cell changes.\<close>

theorem binding_in_range:
  assumes "a_bind_kind a \<noteq> BIND_NONE" "a_bind_ptr a \<noteq> 0" "a_bind_min a \<le> a_bind_max a"
    and "a_bind_kind a = BIND_U8 \<longrightarrow> 0 \<le> a_bind_min a \<and> a_bind_max a \<le> 255"
  shows "a_bind_min a \<le> apply_binding a m (a_bind_ptr a) \<and> apply_binding a m (a_bind_ptr a) \<le> a_bind_max a \<and>
    (\<forall>p. p \<noteq> a_bind_ptr a \<longrightarrow> apply_binding a m p = m p)"
proof -
  define v where "v = clamp_i32 (FX_TO_INT_ROUND (i32 (fx_mul (a_current a) (a_bind_scale a) + a_bind_offset a)))
      (a_bind_min a) (a_bind_max a)"
  have v: "a_bind_min a \<le> v" "v \<le> a_bind_max a" using assms(3) by (simp_all add: v_def clamp_i32_def)
  have "a_bind_kind a = BIND_U8 \<Longrightarrow> v mod 256 = v" using v assms(4) by (intro mod_pos_pos_trivial) auto
  then show ?thesis
    using v assms(1,2) by (cases "a_bind_kind a") (simp_all add: apply_binding_def Let_def v_def [symmetric])
qed

theorem binding_in_range_witness:
  "apply_binding (fresh_anim\<lparr>a_current := 1000 * FX_ONE, a_bind_kind := BIND_U8, a_bind_ptr := 16, a_bind_scale := FX_ONE,
     a_bind_min := 0, a_bind_max := 200\<rparr>) (\<lambda>_. 0) 16 \<le> 200"
  using binding_in_range [of "fresh_anim\<lparr>a_current := 1000 * FX_ONE, a_bind_kind := BIND_U8, a_bind_ptr := 16, a_bind_scale := FX_ONE,
     a_bind_min := 0, a_bind_max := 200\<rparr>" "\<lambda>_. 0"] by simp

text \<open>\<^verbatim>\<open>anim_new\<close> takes the first free entry and resets it, or answers \<^verbatim>\<open>NULL\<close> when all are used.\<close>

lemma anim_new_correct:
  "case anim_new pl of
     (None, pl') \<Rightarrow> pl' = pl \<and> (\<forall>a\<in>set pl. a_used a)
   | (Some i, pl') \<Rightarrow> i < length pl \<and> \<not> a_used (pl ! i) \<and> (\<forall>j<i. a_used (pl ! j)) \<and> pl' = pl[i := fresh_anim]"
proof (cases "List.find (\<lambda>i. \<not> a_used (pl ! i)) [0..<length pl]")
  case None
  then have "a_used (pl ! i)" if "i < length pl" for i using that by (simp add: find_None_iff)
  with None show ?thesis by (auto simp: anim_new_def in_set_conv_nth)
next
  case (Some i)
  then obtain k where "k < length pl" "\<not> a_used (pl ! i)" "i = [0..<length pl] ! k"
    "\<forall>j<k. a_used (pl ! ([0..<length pl] ! j))"
    by (auto simp: find_Some_iff)
  with Some show ?thesis by (auto simp: anim_new_def)
qed

text \<open>A spring that reports it is done rests on its target.\<close>

lemma spring_done:
  assumes "\<not> a_done a" "a_done (step_spring dt a)"
  shows "a_current (step_spring dt a) = a_target a" "a_velocity (step_spring dt a) = 0"
  using assms by (auto simp: step_spring_def Let_def split: if_splits)

text \<open>\<^verbatim>\<open>FX_TO_INT_ROUND\<close> subtracts a half from negative values before the arithmetic shift, which already rounds down: a value just below
  zero becomes -1 and -0.6 becomes -2.\<close>

theorem negative_rounding: "FX_TO_INT_ROUND (- 1) = - 1 \<and> FX_TO_INT_ROUND (- 39322) = - 2"
  by (simp add: FX_TO_INT_ROUND_def)

lemma nonnegative_rounding:
  assumes "0 \<le> f" "f < 2 ^ 31 - FX_HALF"
  shows "FX_TO_INT_ROUND f = (f + FX_HALF) div FX_ONE"
  using assms by (simp add: FX_TO_INT_ROUND_def)


text \<open>A running spring keeps its value when it is configured again, except at the value 0, from which it jumps to the new start.\<close>

theorem spring_restart_jumps:
  assumes "i < length pl" "\<not> a_done (pl ! i)"
  shows "a_current (anim_spring (Some i) from to s d pl ! i) = (if a_current (pl ! i) = 0 then from else a_current (pl ! i))"
  using assms by (simp add: anim_spring_def with_anim_def Let_def)

end
