(* ===== verification/Gradient.thy ===== *)
theory Gradient
  imports Compositor
begin

text \<open>
  Gradient fills, \<^verbatim>\<open>src/compositor/gradient.c\<close>: channel and colour interpolation with an 8-bit fraction, and the linear and
  radial fills of a surface.  Channels and the fraction are integers; the 32-bit products of the radial fill wrap as in the
  source, the 64-bit ones of the linear fill do not for surface coordinates.
\<close>

subsection \<open>Operations\<close>

definition lerp8 :: "int \<Rightarrow> int \<Rightarrow> int \<Rightarrow> int" where
  "lerp8 a b t = a + ((b - a) * t + 128) div 256"

definition chan :: "nat \<Rightarrow> u32 \<Rightarrow> int" where
  "chan k c = uint (drop_bit k c AND 0xff)"

definition lerp_argb :: "u32 \<Rightarrow> u32 \<Rightarrow> int \<Rightarrow> u32" where
  "lerp_argb a b t =
     (let t = (if t < 0 then 0 else t); t = (if t > 256 then 256 else t);
          A = lerp8 (chan 24 a) (chan 24 b) t; R = lerp8 (chan 16 a) (chan 16 b) t;
          G = lerp8 (chan 8 a) (chan 8 b) t; B = lerp8 (chan 0 a) (chan 0 b) t
      in (push_bit 24 (word_of_int A) OR push_bit 16 (word_of_int R) OR push_bit 8 (word_of_int G) OR word_of_int B))"

text \<open>The two loops over rows and columns.\<close>

definition fill_pixels :: "(int \<Rightarrow> int \<Rightarrow> u32) \<Rightarrow> surface \<Rightarrow> surface" where
  "fill_pixels f s =
     (let w = unat (s_width s); h = unat (s_height s)
      in s\<lparr>s_pixels := map (\<lambda>i. f (int (i mod w)) (int (i div w))) [0..<w * h] @ drop (w * h) (s_pixels s)\<rparr>)"

definition mark_all :: "surface \<Rightarrow> surface" where
  "mark_all s = s\<lparr>s_pixels_dirty := True, s_dirty_rect_valid := False\<rparr>"

definition linear_t :: "int \<Rightarrow> int \<Rightarrow> int \<Rightarrow> int \<Rightarrow> int \<Rightarrow> int \<Rightarrow> int" where
  "linear_t x0 y0 x1 y1 x y =
     (let dx = x1 - x0; dy = y1 - y0; len2 = dx * dx + dy * dy; num = (x - x0) * dx + (y - y0) * dy
      in if num \<le> 0 then 0 else if num \<ge> len2 then 256 else num * 256 div len2)"

definition gradient_fill_linear :: "nat \<Rightarrow> u32 \<Rightarrow> u32 \<Rightarrow> int \<Rightarrow> int \<Rightarrow> int \<Rightarrow> int \<Rightarrow> gfx \<Rightarrow> gfx" where
  "gradient_fill_linear p a b x0 y0 x1 y1 = with_surface p (\<lambda>s.
     if s_pixels_ptr s = 0 then s
     else if (x1 - x0) * (x1 - x0) + (y1 - y0) * (y1 - y0) = 0 then mark_all (fill_pixels (\<lambda>x y. a) s)
     else mark_all (fill_pixels (\<lambda>x y. lerp_argb a b (linear_t x0 y0 x1 y1 x y)) s))"

definition radial_t :: "int \<Rightarrow> int \<Rightarrow> u32 \<Rightarrow> int \<Rightarrow> int \<Rightarrow> int" where
  "radial_t cx cy radius x y =
     (let r16 = unat (radius * 16); dx = x - cx; dy = y - cy;
          d2 = nat ((dx * dx + dy * dy) mod 2 ^ 32);
          d16 = isqrt_u32 (d2 * 256 mod 2 ^ 32)
      in if d16 = 0 then 0 else if d16 \<ge> r16 then 256 else int (d16 * 256 mod 2 ^ 32 div r16))"

definition gradient_fill_radial :: "nat \<Rightarrow> u32 \<Rightarrow> u32 \<Rightarrow> int \<Rightarrow> int \<Rightarrow> u32 \<Rightarrow> gfx \<Rightarrow> gfx" where
  "gradient_fill_radial p inner outer cx cy radius = with_surface p (\<lambda>s.
     if s_pixels_ptr s = 0 then s
     else if radius = 0 then mark_all (fill_pixels (\<lambda>x y. outer) s)
     else mark_all (fill_pixels (\<lambda>x y. lerp_argb inner outer (radial_t cx cy radius x y)) s))"

subsection \<open>Interpolation\<close>

lemma lerp8_ends [simp]: "lerp8 a b 0 = a" "lerp8 a b 256 = b"
  by (simp_all add: lerp8_def)

lemma lerp8_between:
  assumes "0 \<le> t" "t \<le> 256"
  shows "min a b \<le> lerp8 a b t" "lerp8 a b t \<le> max a b"
proof -
  have "min a b \<le> lerp8 a b t \<and> lerp8 a b t \<le> max a b"
  proof (cases "a \<le> b")
    case True
    have "0 \<le> (b - a) * t" using assms True by simp
    moreover have "(b - a) * t \<le> (b - a) * 256" using assms True by (intro mult_left_mono) auto
    ultimately show ?thesis using True by (simp add: lerp8_def pos_imp_zdiv_nonneg_iff)
  next
    case False
    have "(b - a) * t \<le> 0" using assms False by (intro mult_nonpos_nonneg) auto
    moreover have "(b - a) * 256 \<le> (b - a) * t" using assms False by (intro mult_left_mono_neg) auto
    ultimately show ?thesis using False by (simp add: lerp8_def) linarith
  qed
  then show "min a b \<le> lerp8 a b t" "lerp8 a b t \<le> max a b" by simp_all
qed


abbreviation pack :: "u32 \<Rightarrow> u32 \<Rightarrow> u32 \<Rightarrow> u32 \<Rightarrow> u32" where
  "pack A R G B \<equiv> push_bit 24 A OR push_bit 16 R OR push_bit 8 G OR B"

lemma byte_mask: "(0xff :: u32) = mask 8"
  by (simp add: mask_eq_exp_minus_1)

lemma pack_channels:
  assumes "take_bit 8 A = A" "take_bit 8 R = R" "take_bit 8 G = G" "take_bit 8 B = B"
  shows "drop_bit 24 (pack A R G B) AND 0xff = A" "drop_bit 16 (pack A R G B) AND 0xff = R"
    "drop_bit 8 (pack A R G B) AND 0xff = G" "drop_bit 0 (pack A R G B) AND 0xff = B"
proof -
  have lo: "bit A n \<Longrightarrow> n < 8" "bit R n \<Longrightarrow> n < 8" "bit G n \<Longrightarrow> n < 8" "bit B n \<Longrightarrow> n < 8" for n
    using assms by (metis bit_take_bit_iff)+
  show "drop_bit 24 (pack A R G B) AND 0xff = A" unfolding byte_mask
    by (rule bit_word_eqI) (auto simp: bit_simps dest: lo)
  show "drop_bit 16 (pack A R G B) AND 0xff = R" unfolding byte_mask
    by (rule bit_word_eqI) (auto simp: bit_simps dest: lo)
  show "drop_bit 8 (pack A R G B) AND 0xff = G" unfolding byte_mask
    by (rule bit_word_eqI) (auto simp: bit_simps dest: lo)
  show "drop_bit 0 (pack A R G B) AND 0xff = B" unfolding byte_mask
    by (rule bit_word_eqI) (auto simp: bit_simps dest: lo)
qed

lemma pack_unpack: "pack (drop_bit 24 c AND 0xff) (drop_bit 16 c AND 0xff) (drop_bit 8 c AND 0xff) (drop_bit 0 c AND 0xff) = c"
proof (rule bit_word_eqI)
  fix n assume "n < LENGTH(32)"
  then consider "n < 8" | "8 \<le> n" "n < 16" | "16 \<le> n" "n < 24" | "24 \<le> n" "n < 32" by fastforce
  then show "bit (pack (drop_bit 24 c AND 0xff) (drop_bit 16 c AND 0xff) (drop_bit 8 c AND 0xff) (drop_bit 0 c AND 0xff)) n = bit c n"
    unfolding byte_mask by cases (auto simp: bit_simps)
qed


lemma chan_range: "0 \<le> chan k c" "chan k c \<le> 255"
proof -
  show "0 \<le> chan k c" by (simp add: chan_def)
  have "drop_bit k c AND 0xff = take_bit 8 (drop_bit k c)" unfolding byte_mask by (simp add: take_bit_eq_mask)
  then have "chan k c = take_bit 8 (uint (drop_bit k c))" by (simp add: chan_def unsigned_take_bit_eq)
  also have "\<dots> < 2 ^ 8" by (rule take_bit_int_less_exp)
  finally show "chan k c \<le> 255" by simp
qed

lemma byte_word:
  assumes "0 \<le> x" "x \<le> 255"
  shows "uint (word_of_int x :: u32) = x" "take_bit 8 (word_of_int x :: u32) = word_of_int x"
proof -
  show u: "uint (word_of_int x :: u32) = x" using assms by (simp add: unsigned_of_int take_bit_int_eq_self)
  have "uint (take_bit 8 (word_of_int x :: u32)) = uint (word_of_int x :: u32)"
    using assms by (simp only: unsigned_take_bit_eq u) (simp add: take_bit_int_eq_self)
  then show "take_bit 8 (word_of_int x :: u32) = word_of_int x" by (simp only: word_uint_eq_iff)
qed

lemma lerp8_byte:
  assumes "0 \<le> t" "t \<le> 256"
  shows "0 \<le> lerp8 (chan k a) (chan k b) t" "lerp8 (chan k a) (chan k b) t \<le> 255"
  using lerp8_between [OF assms, of "chan k a" "chan k b"] chan_range [of k a] chan_range [of k b] by linarith+

text \<open>Interpolating a colour is interpolating its four channels.\<close>

lemma chan_lerp_argb:
  assumes t: "0 \<le> t" "t \<le> 256" and k: "k \<in> {0, 8, 16, 24}"
  shows "chan k (lerp_argb a b t) = lerp8 (chan k a) (chan k b) t"
proof -
  note w = byte_word [OF lerp8_byte [OF t]]
  have "lerp_argb a b t = pack (word_of_int (lerp8 (chan 24 a) (chan 24 b) t)) (word_of_int (lerp8 (chan 16 a) (chan 16 b) t))
      (word_of_int (lerp8 (chan 8 a) (chan 8 b) t)) (word_of_int (lerp8 (chan 0 a) (chan 0 b) t))"
    using t by (simp add: lerp_argb_def Let_def)
  with pack_channels [OF w(2) w(2) w(2) w(2)] k have "drop_bit k (lerp_argb a b t) AND 0xff = word_of_int (lerp8 (chan k a) (chan k b) t)"
    by auto
  then show ?thesis using w(1) by (simp only: chan_def)
qed

lemma lerp_argb_ends [simp]: "lerp_argb a b 0 = a" "lerp_argb a b 256 = b"
  using pack_unpack [of a] pack_unpack [of b] by (simp_all add: lerp_argb_def Let_def chan_def)

subsection \<open>Fills\<close>

lemma fill_px:
  assumes ok: "surf_ok s" and x: "0 \<le> x" "x < sint (s_width s)" and y: "0 \<le> y" "y < sint (s_height s)"
  shows "src_px (surface_src (mark_all (fill_pixels f s))) x y = f x y"
proof -
  have dims: "unat (s_width s) \<le> 16384" "unat (s_height s) \<le> 16384" and ptr: "s_pixels_ptr s \<noteq> 0"
    using ok by (auto simp: surf_ok_def word_le_nat_alt)
  then have "sint (s_width s) = int (unat (s_width s))" "sint (s_height s) = int (unat (s_height s))"
    by (simp_all add: sint_small)
  then have lt: "nat x < unat (s_width s)" "nat y < unat (s_height s)" using x y by (simp_all add: nat_less_iff del: of_nat_unat)
  let ?i = "nat y * unat (s_width s) + nat x"
  have i: "?i < unat (s_width s) * unat (s_height s)"
  proof -
    have "?i < Suc (nat y) * unat (s_width s)" using lt(1) by simp
    also have "\<dots> \<le> unat (s_height s) * unat (s_width s)" using lt(2) by (intro mult_le_mono1) simp
    finally show ?thesis by (simp add: mult.commute)
  qed
  have "?i mod unat (s_width s) = nat x" "?i div unat (s_width s) = nat y" using lt(1) by simp_all
  then show ?thesis
    using i x y ptr by (simp add: src_px_def surface_src_def mark_all_def fill_pixels_def Let_def nth_append del: of_nat_unat)
qed

lemma fill_tracked: "surf_ok s \<Longrightarrow> tracked s (mark_all (fill_pixels f s))"
  using tracked_full [of s "s_pixels (fill_pixels f s)"]
  by (simp add: mark_all_def fill_pixels_def Let_def surf_ok_def)

text \<open>A fill is an operation the compositor can account for: the next frame repaints it.\<close>

lemma gradient_inv [inv_intros]:
  assumes "desk_inv k"
  shows "desk_inv (desk_gfx (gradient_fill_linear p a b x0 y0 x1 y1) k)" "desk_inv (desk_gfx (gradient_fill_radial p a b cx cy r) k)"
  unfolding desk_gfx_def gradient_fill_linear_def gradient_fill_radial_def
  by (rule desk_inv_tracked [OF assms], simp add: fill_tracked tracked_refl)+

lemma fraction_range:
  fixes n l :: int
  shows "0 \<le> (if n \<le> 0 then 0 else if n \<ge> l then 256 else n * 256 div l) \<and>
    (if n \<le> 0 then 0 else if n \<ge> l then 256 else n * 256 div l) \<le> 256"
proof (cases "0 < n \<and> n < l")
  case True
  then have "n * 256 div l \<le> l * 256 div l" by (intro zdiv_mono1) auto
  with True show ?thesis by (simp add: pos_imp_zdiv_nonneg_iff)
qed auto

lemma linear_t_range: "0 \<le> linear_t x0 y0 x1 y1 x y \<and> linear_t x0 y0 x1 y1 x y \<le> 256"
  unfolding linear_t_def Let_def by (rule fraction_range)

text \<open>\<^verbatim>\<open>gradient_fill_linear\<close> paints every pixel of the surface: the start colour where the projection on the gradient line is at or
  before its start, the end colour at or past its end, and everywhere each of the four channels lies between those of the
  two colours, so that no channel overflows into its neighbour.\<close>

theorem gradient_linear_pixels:
  assumes "p \<noteq> 0" "surf_ok (surf g p)" "(x0, y0) \<noteq> (x1, y1)"
    and "0 \<le> x" "x < sint (s_width (surf g p))" "0 \<le> y" "y < sint (s_height (surf g p))"
    and "c = src_px (surface_src (surf (gradient_fill_linear p a b x0 y0 x1 y1 g) p)) x y"
    and "num = (x - x0) * (x1 - x0) + (y - y0) * (y1 - y0)" "len2 = (x1 - x0) * (x1 - x0) + (y1 - y0) * (y1 - y0)"
  shows "(num \<le> 0 \<longrightarrow> c = a) \<and> (num \<ge> len2 \<longrightarrow> c = b) \<and>
    (\<forall>k\<in>{0, 8, 16, 24}. min (chan k a) (chan k b) \<le> chan k c \<and> chan k c \<le> max (chan k a) (chan k b))"
proof -
  have pos: "0 < len2"
    using assms(3) by (auto simp: assms(10) sum_squares_gt_zero_iff)
  have "s_pixels_ptr (surf g p) \<noteq> 0" using assms(2) by (simp add: surf_ok_def)
  with pos have "surf (gradient_fill_linear p a b x0 y0 x1 y1 g) p =
      mark_all (fill_pixels (\<lambda>x y. lerp_argb a b (linear_t x0 y0 x1 y1 x y)) (surf g p))"
    using assms(1) by (simp add: gradient_fill_linear_def with_surface_def assms(10) [symmetric])
  then have c: "c = lerp_argb a b (linear_t x0 y0 x1 y1 x y)"
    using fill_px [OF assms(2,4-7)] by (simp add: assms(8))
  have t: "num \<le> 0 \<Longrightarrow> linear_t x0 y0 x1 y1 x y = 0" "num \<ge> len2 \<Longrightarrow> linear_t x0 y0 x1 y1 x y = 256"
    using pos by (simp_all add: linear_t_def Let_def assms(9,10) [symmetric])
  have "min (chan k a) (chan k b) \<le> chan k c \<and> chan k c \<le> max (chan k a) (chan k b)" if "k \<in> {0, 8, 16, 24}" for k
    using chan_lerp_argb [OF _ _ that] lerp8_between linear_t_range [of x0 y0 x1 y1 x y] unfolding c by simp
  then show ?thesis using t by (simp add: c)
qed

theorem gradient_linear_pixels_witness:
  "src_px (surface_src (surf (gradient_fill_linear 8192 0xff102030 0xff405060 0 0 1 0 example_gfx) 8192)) 1 0 = 0xff405060"
proof -
  have "surf_ok (surf example_gfx 8192)" using example_surface_ok by (simp add: example_gfx_def)
  moreover have "s_width (surf example_gfx 8192) = 2" "s_height (surf example_gfx 8192) = 2"
    by (simp_all add: example_gfx_def example_surface_def init_surface_def)
  ultimately show ?thesis
    using gradient_linear_pixels [of 8192 example_gfx 0 0 1 0 1 0, OF _ _ _ _ _ _ _ refl refl refl] by simp
qed

text \<open>The radial fill squares distances in 32 bits: 4096 pixels from the centre the scaled square is 0 again, and the pixel gets the
  inner colour although it is half way to a radius of 8192.\<close>

theorem radial_wraps: "radial_t 0 0 8192 4096 0 = 0"
  by (simp add: radial_t_def Let_def isqrt_u32_def isqrt_start.simps isqrt_loop.simps)

end
