(* ===== verification/Cursor.thy ===== *)
theory Cursor
  imports Compositor
begin

text \<open>
  The mouse cursor, \<^verbatim>\<open>src/compositor/cursor.c\<close>: a surface above all windows that follows the pointer.  The picture
  (\<^verbatim>\<open>cursor_default.inc\<close>, generated) is a parameter; \<open>poll\<close> stands for \<^verbatim>\<open>mouse_poll\<close> with the device back ends it calls, on a
  state that \<open>ptr\<close> reads the pointer from.
\<close>

abbreviation CURSOR_DEFAULT_W :: u32 where "CURSOR_DEFAULT_W \<equiv> 32"
abbreviation CURSOR_DEFAULT_H :: u32 where "CURSOR_DEFAULT_H \<equiv> 32"
abbreviation CURSOR_DEFAULT_HOT_X :: int where "CURSOR_DEFAULT_HOT_X \<equiv> 10"
abbreviation CURSOR_DEFAULT_HOT_Y :: int where "CURSOR_DEFAULT_HOT_Y \<equiv> 7"

subsection \<open>Operations\<close>

definition cursor_tick :: "('m \<Rightarrow> 'm) \<Rightarrow> ('m \<Rightarrow> mouse) \<Rightarrow> nat \<Rightarrow> 'm \<times> desk \<Rightarrow> 'm \<times> desk" where
  "cursor_tick poll ptr c st =
     (let (m, k) = st
      in if c = 0 then (m, k)
         else let k = desk_gfx (with_surface c (\<lambda>s. s\<lparr>s_z := SURFACE_Z_CURSOR_LAYER\<rparr>)) k;
                  m = poll m;
                  (mx, my, _) = mouse_get_state (ptr m)
              in (m, desk_gfx (with_surface c (\<lambda>s. s\<lparr>s_x := mx - CURSOR_DEFAULT_HOT_X, s_y := my - CURSOR_DEFAULT_HOT_Y\<rparr>)) k))"

definition cursor_init ::
  "u32 list \<Rightarrow> nat \<Rightarrow> ('m \<Rightarrow> 'm) \<Rightarrow> ('m \<Rightarrow> mouse) \<Rightarrow> 'm \<times> desk \<Rightarrow> (nat \<times> 'm \<times> desk) result option" where
  "cursor_init rgba root poll ptr st =
     (let (m, k) = st
      in case surface_create root (Some ''cursor'') CURSOR_DEFAULT_W CURSOR_DEFAULT_H (dgfx k) of
           None \<Rightarrow> None
         | Some (Inl e) \<Rightarrow> Some (Inl e)
         | Some (Inr (c, g)) \<Rightarrow>
             if c = 0 then Some (Inr (0, m, k\<lparr>dgfx := g\<rparr>))
             else let k = k\<lparr>dgfx := with_surface c (\<lambda>s. s\<lparr>s_pixels := rgba @ drop (length rgba) (s_pixels s),
                                s_z := SURFACE_Z_CURSOR_LAYER, s_alpha := 255, s_visible := True, s_opaque := False\<rparr>) g\<rparr>;
                      (_, k) = desk_add c k;
                      (m, k) = cursor_tick poll ptr c (m, k)
                  in Some (Inr (c, m, k)))"

subsection \<open>Stacking and position\<close>

lemma last_sort_key:
  fixes f :: "'a \<Rightarrow> int"
  assumes "c \<in> set xs" "\<And>x. x \<in> set xs \<Longrightarrow> x \<noteq> c \<Longrightarrow> f x < f c"
  shows "last (sort_key f xs) = c"
proof -
  let ?s = "sort_key f xs"
  have ne: "?s \<noteq> []" using assms(1) by (metis empty_iff list.set(1) set_sort)
  obtain i where i: "i < length ?s" "?s ! i = c" using assms(1) by (metis in_set_conv_nth set_sort)
  have "map f ?s ! i \<le> map f ?s ! (length ?s - 1)"
    using i by (intro sorted_nth_mono [OF sorted_sort_key]) auto
  then have "f c \<le> f (last ?s)" using i ne by (simp add: last_conv_nth)
  moreover have "last ?s \<in> set xs" using last_in_set [OF ne] by simp
  ultimately show ?thesis using assms(2) [of "last ?s"] by force
qed

lemma cursor_tick_eq:
  assumes "c \<noteq> 0"
  shows "cursor_tick poll ptr c (m, k) = (poll m, desk_gfx (with_surface c (\<lambda>s. s\<lparr>s_z := SURFACE_Z_CURSOR_LAYER,
     s_x := cur_x (ptr (poll m)) - CURSOR_DEFAULT_HOT_X, s_y := cur_y (ptr (poll m)) - CURSOR_DEFAULT_HOT_Y\<rparr>)) k)"
  using assms by (simp add: cursor_tick_def mouse_get_state_def Let_def desk_gfx_def with_surface_def)

lemma cursor_tick_inv [inv_intros]:
  assumes "desk_inv k"
  shows "desk_inv (snd (cursor_tick poll ptr c (m, k)))"
proof (cases "c = 0")
  case False
  let ?f = "\<lambda>s. s\<lparr>s_z := SURFACE_Z_CURSOR_LAYER\<rparr>"
  let ?g = "\<lambda>s. s\<lparr>s_x := cur_x (ptr (poll m)) - CURSOR_DEFAULT_HOT_X, s_y := cur_y (ptr (poll m)) - CURSOR_DEFAULT_HOT_Y\<rparr>"
  have "desk_inv (k\<lparr>dgfx := with_surface c ?f (dgfx k)\<rparr>)" by (rule desk_inv_tracked [OF assms]) (rule tracked_geom)
  from desk_inv_tracked [OF this, of c ?g] tracked_geom(1)
  show ?thesis using False by (simp add: cursor_tick_def mouse_get_state_def Let_def desk_gfx_def)
qed (simp add: cursor_tick_def assms)

text \<open>After every tick the cursor is the top of the stack, drawn last over all windows, and its hot spot is the pointer position.\<close>

theorem cursor_on_top:
  assumes "c \<noteq> 0" "c \<in> set (slots (dcomp k))"
    and "\<forall>s\<in>set (slots (dcomp k)). s \<noteq> c \<longrightarrow> s_z (surf (dgfx k) s) < SURFACE_Z_CURSOR_LAYER"
    and "cursor_tick poll ptr c (m, k) = (m', k')"
  shows "last (z_sorted (surf (dgfx k')) (slots (dcomp k'))) = c \<and>
    s_x (surf (dgfx k') c) + CURSOR_DEFAULT_HOT_X = cur_x (ptr m') \<and> s_y (surf (dgfx k') c) + CURSOR_DEFAULT_HOT_Y = cur_y (ptr m')"
proof -
  have m': "m' = poll m" and k': "k' = desk_gfx (with_surface c (\<lambda>s. s\<lparr>s_z := SURFACE_Z_CURSOR_LAYER,
     s_x := cur_x (ptr (poll m)) - CURSOR_DEFAULT_HOT_X, s_y := cur_y (ptr (poll m)) - CURSOR_DEFAULT_HOT_Y\<rparr>)) k"
    using assms(4) unfolding cursor_tick_eq [OF assms(1)] by blast+
  have "last (sort_key (\<lambda>s. s_z (surf (dgfx k') s)) (slots (dcomp k'))) = c"
    using assms(1-3) by (intro last_sort_key) (auto simp: k' desk_gfx_def with_surface_def)
  then show ?thesis using assms(1) by (simp add: z_sorted_sort) (simp add: k' m' desk_gfx_def with_surface_def)
qed

theorem cursor_on_top_witness:
  "s_x (surf (dgfx (snd (cursor_tick (\<lambda>m. m) (\<lambda>m. m) 8192 (mouse_start, example_desk)))) 8192) + CURSOR_DEFAULT_HOT_X = cur_x mouse_start"
proof -
  have sl: "slots (dcomp example_desk) = [8192]" by (simp add: example_desk_def compositor_add_def compositor_init_def)
  obtain m' k' where e: "cursor_tick (\<lambda>m. m) (\<lambda>m. m) 8192 (mouse_start, example_desk) = (m', k')" by fastforce
  then have "m' = mouse_start" by (simp add: cursor_tick_eq)
  with cursor_on_top [OF _ _ _ e] e show ?thesis by (simp add: sl)
qed

end
