(* ===== verification/UiTheme.thy ===== *)
theory UiTheme
  imports DisplayPolicy
begin

text \<open>
  The design tokens, \<^verbatim>\<open>src/ui/ui_theme.c\<close>: the compiled palettes, the readers of \<^verbatim>\<open>theme.toml\<close> and \<^verbatim>\<open>theme.json\<close>, the getters and
  the serial line command.  Buffers and pointers are as in \<open>DisplayPolicy\<close>, whose scanning loops (\<^verbatim>\<open>is_space\<close>, \<^verbatim>\<open>skip_ws\<close>) this
  source repeats.  Colours are words, the font family is the array of 72 characters with whatever lies behind its
  terminator.
\<close>

subsection \<open>Tables\<close>

definition k_u32_dark :: "(string \<times> u32) list" where
  "k_u32_dark =
     [(''color.bg.base'', 0xff1e1e1e), (''color.bg.surface'', 0xff2c2c2c),
      (''color.bg.surface_elevated'', 0xff3a3a3a), (''color.bg.surface_hover'', 0xff333333),
      (''color.bg.surface_pressed'', 0xff2a2a2a), (''color.bg.surface_selected'', 0xff2d3d52),
      (''color.bg.surface_disabled'', 0xff252528), (''color.border.subtle'', 0xff424242),
      (''color.border.default'', 0xff545458), (''color.border.strong'', 0xff6e6e73),
      (''color.text.primary'', 0xfff5f5f7), (''color.text.secondary'', 0xffa1a1a6),
      (''color.text.tertiary'', 0xff6e6e73), (''color.text.disabled'', 0xff636366),
      (''color.accent.default'', 0xff0a84ff), (''color.accent.hover'', 0xff409cff),
      (''color.accent.pressed'', 0xff0060df), (''color.semantic.success'', 0xff32d74b),
      (''color.semantic.warning'', 0xffffd60a), (''color.semantic.error'', 0xffff453a),
      (''color.semantic.info'', 0xff64d2ff), (''color.focus.ring'', 0xff0a84ff),
      (''shadow.elevation_0'', 0x00000000), (''shadow.elevation_1'', 0x40000000),
      (''shadow.elevation_2'', 0x59000000), (''shadow.elevation_3'', 0x66000000),
      (''font.ui.size_sm'', 11), (''font.ui.size_md'', 13), (''font.ui.size_lg'', 15)]"

definition k_u32_light :: "(string \<times> u32) list" where
  "k_u32_light =
     [(''color.bg.base'', 0xfff5f5f7), (''color.bg.surface'', 0xffffffff),
      (''color.bg.surface_elevated'', 0xffffffff), (''color.bg.surface_hover'', 0xffe8e8ed),
      (''color.bg.surface_pressed'', 0xffd1d1d6), (''color.bg.surface_selected'', 0xffdae8f8),
      (''color.bg.surface_disabled'', 0xfff2f2f7), (''color.border.subtle'', 0xffd1d1d6),
      (''color.border.default'', 0xffc6c6c8), (''color.border.strong'', 0xffaeaeb2),
      (''color.text.primary'', 0xff1d1d1f), (''color.text.secondary'', 0xff6e6e73),
      (''color.text.tertiary'', 0xffaeaeb2), (''color.text.disabled'', 0xffc7c7cc),
      (''color.accent.default'', 0xff007aff), (''color.accent.hover'', 0xff0077ed),
      (''color.accent.pressed'', 0xff006adb), (''color.semantic.success'', 0xff34c759),
      (''color.semantic.warning'', 0xffff9500), (''color.semantic.error'', 0xffff3b30),
      (''color.semantic.info'', 0xff5ac8fa), (''color.focus.ring'', 0xff007aff),
      (''shadow.elevation_0'', 0x00000000), (''shadow.elevation_1'', 0x18000000),
      (''shadow.elevation_2'', 0x22000000), (''shadow.elevation_3'', 0x30000000),
      (''font.ui.size_sm'', 11), (''font.ui.size_md'', 13), (''font.ui.size_lg'', 15)]"

definition k_radius :: "(string \<times> int) list" where
  "k_radius =
     [(''radius.none'', 0), (''radius.xs'', 4), (''radius.sm'', 6), (''radius.md'', 10),
      (''radius.lg'', 14), (''radius.xl'', 20), (''radius.full'', 9999)]"

definition k_space :: "(string \<times> nat) list" where
  "k_space =
     [(''space.xs'', 4), (''space.sm'', 8), (''space.md'', 12), (''space.lg'', 16), (''space.xl'', 24),
      (''space.xxl'', 32)]"

definition k_duration :: "(string \<times> nat) list" where
  "k_duration =
     [(''duration.fast'', 150), (''duration.normal'', 250), (''duration.slow'', 400)]"

abbreviation FONT_FAMILY_CAP :: nat where "FONT_FAMILY_CAP \<equiv> 72"

definition k_str :: string where
  "k_str = ''Noto Sans''"

subsection \<open>State\<close>

text \<open>\<open>t_overrun\<close> is no variable of the program: it records that a store has gone past the end of one of the five
  arrays, where the C code would write over whatever follows.  Every store by index below sets it in that case.\<close>

record theme =
  g_u32 :: "u32 list"
  g_rad :: "int list"
  g_space :: "nat list"
  g_dur :: "nat list"
  g_font_family :: string
  s_warn_unknown :: nat
  t_overrun :: bool

definition warn_unknown :: "theme \<Rightarrow> theme" where
  "warn_unknown th = (if s_warn_unknown th \<ge> 8 then th else th\<lparr>s_warn_unknown := s_warn_unknown th + 1\<rparr>)"

text \<open>The default family is copied without its terminator; only the last character of the array is cleared.\<close>

definition baseline_palette :: "bool \<Rightarrow> theme \<Rightarrow> theme" where
  "baseline_palette light th =
     th\<lparr>g_u32 := map snd (if light then k_u32_light else k_u32_dark), g_rad := map snd k_radius, g_space := map snd k_space,
        g_dur := map snd k_duration,
        g_font_family := (k_str @ drop (length k_str) (g_font_family th))[FONT_FAMILY_CAP - 1 := NUL]\<rparr>"

subsection \<open>Values\<close>

definition from_hex :: "char \<Rightarrow> int" where
  "from_hex c =
     (let n = (of_char c :: int)
      in if 48 \<le> n \<and> n \<le> 57 then n - 48
         else if 97 \<le> n \<and> n \<le> 102 then n - 97 + 10
         else if 65 \<le> n \<and> n \<le> 70 then n - 65 + 10
         else -1)"

text \<open>\<open>L\<close> digits from \<open>s\<close>, shifted in four bits at a time; \<open>None\<close> at a character that is no digit.\<close>

fun hex_digits :: "string \<Rightarrow> nat \<Rightarrow> nat \<Rightarrow> u32 \<Rightarrow> u32 option" where
  "hex_digits buf s 0 v = Some v"
| "hex_digits buf s (Suc L) v =
     (let h = from_hex (char_at buf s)
      in if h < 0 then None else hex_digits buf (Suc s) L (push_bit 4 v OR word_of_int h))"

definition short_rgb :: "string \<Rightarrow> nat \<Rightarrow> u32 option" where
  "short_rgb buf s =
     (let a = from_hex (char_at buf s); b = from_hex (char_at buf (s + 1)); c2 = from_hex (char_at buf (s + 2))
      in if a < 0 \<or> b < 0 \<or> c2 < 0 then None
         else Some (0xff000000 OR push_bit 16 (word_of_int (a * 17)) OR push_bit 8 (word_of_int (b * 17)) OR word_of_int (c2 * 17)))"

definition parse_hex_u32 :: "string \<Rightarrow> nat \<Rightarrow> nat \<Rightarrow> u32 option" where
  "parse_hex_u32 buf s L =
     (if L = 0 then None
      else if char_at buf s = CHR ''#''
      then if L - 1 = 3 then short_rgb buf (s + 1)
           else if L - 1 = 6 then map_option (\<lambda>v. 0xff000000 OR v) (hex_digits buf (s + 1) 6 0)
           else if L - 1 = 8 then hex_digits buf (s + 1) 8 0
           else None
      else if L \<ge> 2 \<and> char_at buf s = CHR ''0'' \<and> (char_at buf (s + 1) = CHR ''x'' \<or> char_at buf (s + 1) = CHR ''X'')
      then let L = L - 2
           in if L = 0 \<or> L > 8 then None
              else case hex_digits buf (s + 2) L 0 of
                     None \<Rightarrow> None
                   | Some v \<Rightarrow> Some (if L \<le> 6 then v OR 0xff000000 else v)
      else None)"

function dec_digits :: "string \<Rightarrow> nat \<Rightarrow> nat \<Rightarrow> nat \<Rightarrow> nat option" where
  "dec_digits buf s L v =
     (if L = 0 then Some v
      else if \<not> is_digit (char_at buf s) then None
      else let v' = (v * 10 + (of_char (char_at buf s) - 48)) mod 2 ^ 32
           in if v' > 0x7fffffff then None else dec_digits buf (Suc s) (L - 1) v')"
  by pat_completeness auto
termination
  by (relation "measure (\<lambda>(buf, s, L, v). L)") auto

declare dec_digits.simps [simp del]

definition parse_u32_dec :: "string \<Rightarrow> nat \<Rightarrow> nat \<Rightarrow> nat option" where
  "parse_u32_dec buf s L = (if L = 0 then None else dec_digits buf s L 0)"

subsection \<open>Keys\<close>

definition key_index :: "(string \<times> 'a) list \<Rightarrow> string \<Rightarrow> nat option" where
  "key_index tab key = scan (\<lambda>i. fst (tab ! i) = key) 0 (length tab)"

definition put_u32 :: "nat \<Rightarrow> u32 \<Rightarrow> theme \<Rightarrow> theme" where
  "put_u32 i v th = (if i < length (g_u32 th) then th\<lparr>g_u32 := (g_u32 th)[i := v]\<rparr> else th\<lparr>t_overrun := True\<rparr>)"

definition put_rad :: "nat \<Rightarrow> int \<Rightarrow> theme \<Rightarrow> theme" where
  "put_rad i v th = (if i < length (g_rad th) then th\<lparr>g_rad := (g_rad th)[i := v]\<rparr> else th\<lparr>t_overrun := True\<rparr>)"

definition put_space :: "nat \<Rightarrow> nat \<Rightarrow> theme \<Rightarrow> theme" where
  "put_space i v th = (if i < length (g_space th) then th\<lparr>g_space := (g_space th)[i := v]\<rparr> else th\<lparr>t_overrun := True\<rparr>)"

definition put_dur :: "nat \<Rightarrow> nat \<Rightarrow> theme \<Rightarrow> theme" where
  "put_dur i v th = (if i < length (g_dur th) then th\<lparr>g_dur := (g_dur th)[i := v]\<rparr> else th\<lparr>t_overrun := True\<rparr>)"

text \<open>The stores \<^verbatim>\<open>g_font_family[0 .. vlen - 1]\<close> and the terminator after them.\<close>

definition put_family :: "string \<Rightarrow> theme \<Rightarrow> theme" where
  "put_family cs th =
     (if length cs < length (g_font_family th)
      then th\<lparr>g_font_family := cs @ NUL # drop (Suc (length cs)) (g_font_family th)\<rparr>
      else th\<lparr>t_overrun := True\<rparr>)"

definition set_u32_key :: "string \<Rightarrow> u32 \<Rightarrow> theme \<Rightarrow> theme" where
  "set_u32_key key val th =
     (case key_index k_u32_dark key of Some i \<Rightarrow> put_u32 i val th | None \<Rightarrow> warn_unknown th)"

definition set_rad_key :: "string \<Rightarrow> int \<Rightarrow> theme \<Rightarrow> theme" where
  "set_rad_key key val th =
     (case key_index k_radius key of Some i \<Rightarrow> put_rad i val th | None \<Rightarrow> warn_unknown th)"

definition set_space_key :: "string \<Rightarrow> nat \<Rightarrow> theme \<Rightarrow> theme" where
  "set_space_key key val th =
     (case key_index k_space key of Some i \<Rightarrow> put_space i val th | None \<Rightarrow> warn_unknown th)"

definition set_dur_key :: "string \<Rightarrow> nat \<Rightarrow> theme \<Rightarrow> theme" where
  "set_dur_key key val th =
     (case key_index k_duration key of Some i \<Rightarrow> put_dur i val th | None \<Rightarrow> warn_unknown th)"

definition set_str_key :: "string \<Rightarrow> string \<Rightarrow> nat \<Rightarrow> nat \<Rightarrow> theme \<Rightarrow> theme" where
  "set_str_key key buf val vlen th =
     (if key \<noteq> ''font.ui.family'' then warn_unknown th
      else let vlen = (if vlen \<ge> FONT_FAMILY_CAP then FONT_FAMILY_CAP - 1 else vlen)
           in put_family (map (\<lambda>i. char_at buf (val + i)) [0..<vlen]) th)"

subsection \<open>Sections\<close>

datatype theme_sec = SEC_NONE | SEC_META | SEC_APPEARANCE | SEC_COLOR | SEC_RADIUS | SEC_SPACE | SEC_DURATION | SEC_SHADOW | SEC_FONT

definition hdr_eq :: "string \<Rightarrow> nat \<Rightarrow> nat \<Rightarrow> string \<Rightarrow> bool" where
  "hdr_eq buf name n lit \<longleftrightarrow> list_all (\<lambda>i. i < n \<and> char_at buf (name + i) = lit ! i) [0..<length lit] \<and> length lit = n"

definition section_from_header :: "string \<Rightarrow> nat \<Rightarrow> nat \<Rightarrow> theme_sec" where
  "section_from_header buf name n =
     (if hdr_eq buf name n ''meta'' then SEC_META
      else if hdr_eq buf name n ''appearance'' then SEC_APPEARANCE
      else if hdr_eq buf name n ''color'' then SEC_COLOR
      else if hdr_eq buf name n ''radius'' then SEC_RADIUS
      else if hdr_eq buf name n ''space'' then SEC_SPACE
      else if hdr_eq buf name n ''duration'' then SEC_DURATION
      else if hdr_eq buf name n ''shadow'' then SEC_SHADOW
      else if hdr_eq buf name n ''font'' then SEC_FONT
      else SEC_NONE)"

text \<open>
  The common part of the two line readers: cut at the first \<^verbatim>\<open>#\<close>, trim, and find out what the line is: nothing, a section
  header, or an assignment with first character \<open>p\<close>, the place of its \<^verbatim>\<open>=\<close> and its end.
\<close>

datatype theme_item = Blank | Header theme_sec | Assign nat nat nat | Other

definition line_item :: "string \<Rightarrow> nat \<Rightarrow> nat \<Rightarrow> theme_item" where
  "line_item buf ls le =
     (if le = ls then Blank
      else let cut = (case scan (\<lambda>j. char_at buf j = CHR ''#'') ls le of None \<Rightarrow> le | Some j \<Rightarrow> j);
               e = trim buf ls cut
           in if e = ls then Blank
              else let p = skip_ws buf ls
                   in if char_at buf p = CHR ''#'' then Blank
                      else if char_at buf p = CHR ''[''
                      then let name = Suc p;
                               nn = advance (\<lambda>c. c \<noteq> NUL \<and> c \<noteq> CHR '']'' \<and> \<not> is_space c) buf (name + (e - ls)) name - name
                           in Header (section_from_header buf name nn)
                      else case scan (\<lambda>j. char_at buf j = CHR ''='') ls e of
                             None \<Rightarrow> Other
                           | Some eq \<Rightarrow> Assign p eq e)"

definition appearance_line :: "string \<Rightarrow> nat \<Rightarrow> nat \<Rightarrow> theme_sec \<times> bool \<Rightarrow> theme_sec \<times> bool" where
  "appearance_line buf ls le st =
     (let (sec, light) = st
      in case line_item buf ls le of
           Blank \<Rightarrow> st
         | Header s \<Rightarrow> (s, light)
         | Other \<Rightarrow> st
         | Assign p eq e \<Rightarrow>
             if sec \<noteq> SEC_APPEARANCE then st
             else let ke = trim buf p eq
                  in if \<not> hdr_eq buf p (ke - p) ''mode'' then st
                     else let vs = skip_ws buf (Suc eq); ve = trim buf vs e;
                              (vs, ve) = (if ve > vs \<and> char_at buf vs = CHR 0x22 \<and> char_at buf (ve - 1) = CHR 0x22
                                          then (vs + 1, ve - 1) else (vs, ve))
                          in (sec, hdr_eq buf vs (sub64 ve vs) ''light''))"

text \<open>\<^verbatim>\<open>while (i < len)\<close> over the lines of the buffer.\<close>

function over_lines :: "(nat \<Rightarrow> nat \<Rightarrow> 'a \<Rightarrow> 'a) \<Rightarrow> string \<Rightarrow> nat \<Rightarrow> nat \<Rightarrow> 'a \<Rightarrow> 'a" where
  "over_lines f buf len i st =
     (if i < len
      then let ls = advance is_eol buf len i; le = advance (\<lambda>c. \<not> is_eol c) buf len ls in over_lines f buf len le (f ls le st)
      else st)"
  by pat_completeness auto
termination
  by (relation "measure (\<lambda>(f, buf, len, i, st). len - i)") (auto intro: diff_less_mono2 line_progress)

declare over_lines.simps [simp del]

definition scan_appearance_mode :: "string \<Rightarrow> nat \<Rightarrow> bool" where
  "scan_appearance_mode buf len = snd (over_lines (appearance_line buf) buf len 0 (SEC_NONE, False))"

definition sec_prefix :: "theme_sec \<Rightarrow> string" where
  "sec_prefix sec =
     (case sec of SEC_COLOR \<Rightarrow> ''color.'' | SEC_RADIUS \<Rightarrow> ''radius.'' | SEC_SPACE \<Rightarrow> ''space.'' | SEC_DURATION \<Rightarrow> ''duration.''
      | SEC_SHADOW \<Rightarrow> ''shadow.'' | SEC_FONT \<Rightarrow> ''font.'' | _ \<Rightarrow> [])"

text \<open>The C string in the array of \<open>outsz\<close> characters.\<close>

definition build_full_key :: "nat \<Rightarrow> theme_sec \<Rightarrow> string \<Rightarrow> nat \<Rightarrow> nat \<Rightarrow> string" where
  "build_full_key outsz sec buf lk lklen =
     takeWhile (\<lambda>c. c \<noteq> NUL) (take (outsz - 1) (sec_prefix sec @ map (\<lambda>i. char_at buf (lk + i)) [0..<lklen]))"

definition starts :: "string \<Rightarrow> string \<Rightarrow> bool" where
  "starts pre key \<longleftrightarrow> take (length pre) key = pre"

definition assign_value_for_key :: "string \<Rightarrow> string \<Rightarrow> nat \<Rightarrow> nat \<Rightarrow> theme \<Rightarrow> theme" where
  "assign_value_for_key fullkey buf vs vlen th =
     (if fullkey = ''appearance'' \<or> fullkey = ''mode'' then th
      else case parse_hex_u32 buf vs vlen of
        Some u \<Rightarrow> set_u32_key fullkey u th
      | None \<Rightarrow>
          let dec = parse_u32_dec buf vs vlen;
              family = (if fullkey = ''font.ui.family''
                        then let (vs, vlen) = (if vlen \<ge> 2 \<and> char_at buf vs = CHR 0x22 \<and> char_at buf (wrap64 (vs + vlen - 1)) = CHR 0x22
                                               then (vs + 1, vlen - 2) else (vs, vlen))
                             in set_str_key fullkey buf vs vlen th
                        else th)
          in case dec of
               Some d \<Rightarrow>
                 if starts ''ra'' fullkey then if d > 100000 then th else set_rad_key fullkey (int d) th
                 else if starts ''spa'' fullkey then if d > 10000 then th else set_space_key fullkey d th
                 else if starts ''du'' fullkey then if d > 60000 then th else set_dur_key fullkey d th
                 else if fullkey \<in> {''font.ui.size_sm'', ''font.ui.size_md'', ''font.ui.size_lg''} then set_u32_key fullkey (of_nat d) th
                 else family
             | None \<Rightarrow> family)"

subsection \<open>The two formats\<close>

definition toml_line :: "string \<Rightarrow> nat \<Rightarrow> nat \<Rightarrow> theme_sec \<times> theme \<Rightarrow> theme_sec \<times> theme" where
  "toml_line buf ls le st =
     (let (sec, th) = st
      in case line_item buf ls le of
           Blank \<Rightarrow> st
         | Header s \<Rightarrow> (s, th)
         | Other \<Rightarrow> st
         | Assign p eq e \<Rightarrow>
             if sec \<in> {SEC_NONE, SEC_META, SEC_APPEARANCE} then st
             else let ke = trim buf p eq; lklen = ke - p
                  in if lklen = 0 then st
                     else let vs = skip_ws buf (Suc eq); ve = trim buf vs e; vlen = sub64 ve vs
                          in if vlen = 0 then st
                             else (sec, assign_value_for_key (build_full_key 96 sec buf p lklen) buf vs vlen th))"

definition merge_toml_body :: "string \<Rightarrow> nat \<Rightarrow> theme \<Rightarrow> theme" where
  "merge_toml_body buf len th = snd (over_lines (toml_line buf) buf len 0 (SEC_NONE, th))"

text \<open>One pass of the reader of a flat object: \<open>Some\<close> is a return (0 or -1), \<open>None\<close> goes on at the index.\<close>

definition json_value :: "string \<Rightarrow> string \<Rightarrow> nat \<Rightarrow> nat \<Rightarrow> theme \<Rightarrow> bool option \<times> nat \<times> theme" where
  "json_value key buf len i th =
     (if char_at buf i = CHR 0x22
      then let vs = Suc i; i = advance (\<lambda>c. c \<noteq> CHR 0x22) buf len vs
           in if i \<ge> len then (Some False, i, th)
              else (None, Suc i, assign_value_for_key key buf vs (i - vs) th)
      else let vs = i; i = advance (\<lambda>c. c \<noteq> CHR '','' \<and> c \<noteq> CHR ''}'' \<and> \<not> is_space c) buf len vs
           in (None, i, assign_value_for_key key buf vs (i - vs) th))"

definition json_step :: "string \<Rightarrow> nat \<Rightarrow> nat \<Rightarrow> theme \<Rightarrow> bool option \<times> nat \<times> theme" where
  "json_step buf len i th =
     (let i = advance is_space buf len i
      in if i < len \<and> char_at buf i = CHR ''}'' then (Some True, i, th)
         else if i \<ge> len \<or> char_at buf i \<noteq> CHR 0x22 then (Some False, i, th)
         else let ks = Suc i; i = advance (\<lambda>c. c \<noteq> CHR 0x22) buf len ks
              in if i \<ge> len then (Some False, i, th)
                 else let klen = i - ks; i = advance is_space buf len (Suc i)
                      in if i \<ge> len \<or> char_at buf i \<noteq> CHR '':'' then (Some False, i, th)
                         else let i = advance is_space buf len (Suc i)
                              in if i \<ge> len then (Some False, i, th)
                                 else let klen = (if klen \<ge> 96 then 95 else klen);
                                          key = takeWhile (\<lambda>c. c \<noteq> NUL) (map (\<lambda>j. char_at buf (ks + j)) [0..<klen])
                                      in case json_value key buf len i th of
                                           (Some r, i, th) \<Rightarrow> (Some r, i, th)
                                         | (None, i, th) \<Rightarrow>
                                             let i = advance is_space buf len i
                                             in if i < len \<and> char_at buf i = CHR '','' then (None, Suc i, th)
                                                else if i < len \<and> char_at buf i = CHR ''}'' then (Some True, i, th)
                                                else if i \<ge> len then (Some True, i, th)
                                                else (None, i, th))"

lemma json_value_progress: "json_value key buf len i th = (None, i', th') \<Longrightarrow> i \<le> i'"
  using advance_ge [of "Suc i" "\<lambda>c. c \<noteq> CHR 0x22" buf len] advance_ge [of i _ buf len]
  by (auto simp: json_value_def Let_def split: if_splits)

lemma json_step_progress:
  assumes "json_step buf len i th = (None, i', th')"
  shows "i < len \<and> i < i'"
proof -
  let ?a = "advance is_space buf len i"
  let ?b = "advance (\<lambda>c. c \<noteq> CHR 0x22) buf len (Suc ?a)"
  let ?c = "advance is_space buf len (Suc ?b)"
  let ?d = "advance is_space buf len (Suc ?c)"
  have a: "?a < len" using assms by (auto simp: json_step_def Let_def split: if_splits)
  have le: "i \<le> ?a" "Suc ?a \<le> ?b" "Suc ?b \<le> ?c" "Suc ?c \<le> ?d" by (rule advance_ge)+
  obtain j t u where v: "json_value u buf len ?d th = (None, j, t)" and i': "advance is_space buf len j \<le> i'"
    using assms by (auto simp: json_step_def Let_def split: if_splits option.splits prod.splits)
  have "?d \<le> j" by (rule json_value_progress [OF v])
  moreover have "j \<le> advance is_space buf len j" by (rule advance_ge)
  ultimately show ?thesis using a le i' by linarith
qed

function merge_json_from :: "string \<Rightarrow> nat \<Rightarrow> nat \<Rightarrow> theme \<Rightarrow> bool \<times> theme" where
  "merge_json_from buf len i th =
     (case json_step buf len i th of
        (Some r, _, th') \<Rightarrow> (r, th')
      | (None, i', th') \<Rightarrow> merge_json_from buf len i' th')"
  by pat_completeness auto
termination
  by (relation "measure (\<lambda>(buf, len, i, th). len - i)") (auto dest!: json_step_progress [OF sym])

declare merge_json_from.simps [simp del]

definition merge_json_body :: "string \<Rightarrow> nat \<Rightarrow> theme \<Rightarrow> bool \<times> theme" where
  "merge_json_body buf len th =
     (let i = advance is_space buf len 0
      in if i \<ge> len \<or> char_at buf i \<noteq> CHR ''{'' then (False, th) else merge_json_from buf len (Suc i) th)"

definition lit_at :: "string \<Rightarrow> string \<Rightarrow> nat \<Rightarrow> bool" where
  "lit_at lit buf c \<longleftrightarrow> list_all (\<lambda>i. char_at buf (c + i) = lit ! i) [0..<length lit]"

definition light_value :: "string \<Rightarrow> nat \<Rightarrow> nat \<Rightarrow> bool" where
  "light_value buf n c \<longleftrightarrow>
     (let c = advance is_space buf n c
      in (c + 7 \<le> n \<and> char_at buf c = CHR 0x22 \<and> lit_at ''light'' buf (c + 1) \<and> char_at buf (c + 6) = CHR 0x22) \<or>
         (c + 5 \<le> n \<and> lit_at ''light'' buf c \<and>
          (let z = c + 5 in z \<ge> n \<or> is_space (char_at buf z) \<or> char_at buf z = CHR '','' \<or> char_at buf z = CHR ''}'')))"

definition needle_light :: "string \<Rightarrow> nat \<Rightarrow> string \<Rightarrow> nat \<Rightarrow> bool" where
  "needle_light buf n nd i \<longleftrightarrow>
     i + length nd \<le> n \<and> lit_at nd buf i \<and>
     (let lim = min n (i + 48); c = advance (\<lambda>x. x \<noteq> CHR '':'') buf lim (i + length nd) in c < lim \<and> light_value buf n (Suc c))"

definition scan_json_appearance_light :: "string \<Rightarrow> nat \<Rightarrow> bool" where
  "scan_json_appearance_light buf n \<longleftrightarrow>
     list_ex (\<lambda>nd. list_ex (needle_light buf n nd) [0..<n]) [CHR 0x22 # ''mode'' @ [CHR 0x22], CHR 0x22 # ''appearance'' @ [CHR 0x22]]"

definition load_buffer :: "string \<Rightarrow> nat \<Rightarrow> bool \<Rightarrow> theme \<Rightarrow> bool \<times> theme" where
  "load_buffer buf len is_json th =
     (let light = (if is_json then scan_json_appearance_light buf len else scan_appearance_mode buf len);
          th = baseline_palette light th
      in if is_json then merge_json_body buf len th else (True, merge_toml_body buf len th))"

subsection \<open>Loading\<close>

text \<open>\<open>stk\<close> is what the stack array and the memory behind it hold before the read, of any length; the result is that memory
  after the read and the number of characters read.\<close>

definition try_read_theme_file :: "(nat \<Rightarrow> u8) \<Rightarrow> fs \<Rightarrow> string \<Rightarrow> string \<Rightarrow> nat \<Rightarrow> (string \<times> nat) option" where
  "try_read_theme_file mem s path stk cap =
     (case vfs_lookup s (Some path) of
        None \<Rightarrow> None
      | Some v \<Rightarrow>
          let n = vnodes s v
          in if vtype n \<noteq> VFS_FILE \<or> vdata n = 0 \<or> vsize n = 0 then None
             else let cnt = (if vsize n < cap - 1 then vsize n else cap - 1); (r, bytes) = vfs_read mem (Some n) 0 cnt
                  in if r \<le> 0 then None
                     else Some (map (\<lambda>b. char_of (unat b)) bytes @ NUL # drop (Suc (length bytes)) stk, nat r))"

definition try_load_from_vfs :: "(nat \<Rightarrow> u8) \<Rightarrow> string \<Rightarrow> fs \<Rightarrow> theme \<Rightarrow> theme" where
  "try_load_from_vfs mem stk s th =
     (let (file, is_json) = (case try_read_theme_file mem s ''/etc/ui/theme.toml'' stk 8192 of
                               Some f \<Rightarrow> (Some f, False)
                             | None \<Rightarrow> (try_read_theme_file mem s ''/etc/ui/theme.json'' stk 8192, True))
      in case file of
           None \<Rightarrow> baseline_palette False th
         | Some (buf, n) \<Rightarrow>
             let is_json = (is_json \<or> char_at buf (skip_ws buf 0) = CHR ''{'')
             in case load_buffer buf n is_json (th\<lparr>s_warn_unknown := 0\<rparr>) of
                  (True, th') \<Rightarrow> th'
                | (False, th') \<Rightarrow> baseline_palette False th')"

definition ui_theme_init :: "(nat \<Rightarrow> u8) \<Rightarrow> string \<Rightarrow> fs \<Rightarrow> theme \<Rightarrow> theme" where
  "ui_theme_init mem stk s th = try_load_from_vfs mem stk s (th\<lparr>s_warn_unknown := 0\<rparr>)"

definition ui_theme_reload :: "(nat \<Rightarrow> u8) \<Rightarrow> string \<Rightarrow> fs \<Rightarrow> theme \<Rightarrow> int \<times> theme" where
  "ui_theme_reload mem stk s th = (0, try_load_from_vfs mem stk s (th\<lparr>s_warn_unknown := 0\<rparr>))"

subsection \<open>Getters\<close>

definition ui_theme_get_u32 :: "string option \<Rightarrow> theme \<Rightarrow> u32 \<times> theme" where
  "ui_theme_get_u32 key th =
     (case key of None \<Rightarrow> (0, th)
      | Some k \<Rightarrow> (case key_index k_u32_dark k of Some i \<Rightarrow> (g_u32 th ! i, th) | None \<Rightarrow> (0, warn_unknown th)))"

definition ui_theme_get_radius_dp :: "string option \<Rightarrow> theme \<Rightarrow> int \<times> theme" where
  "ui_theme_get_radius_dp key th =
     (case key of None \<Rightarrow> (-1, th)
      | Some k \<Rightarrow> (case key_index k_radius k of Some i \<Rightarrow> (g_rad th ! i, th) | None \<Rightarrow> (-1, warn_unknown th)))"

definition ui_theme_get_space_dp :: "string option \<Rightarrow> theme \<Rightarrow> nat \<times> theme" where
  "ui_theme_get_space_dp key th =
     (case key of None \<Rightarrow> (0, th)
      | Some k \<Rightarrow> (case key_index k_space k of Some i \<Rightarrow> (g_space th ! i, th) | None \<Rightarrow> (0, warn_unknown th)))"

definition ui_theme_get_duration_ms :: "string option \<Rightarrow> theme \<Rightarrow> nat \<times> theme" where
  "ui_theme_get_duration_ms key th =
     (case key of None \<Rightarrow> (0, th)
      | Some k \<Rightarrow> (case key_index k_duration k of Some i \<Rightarrow> (g_dur th ! i, th) | None \<Rightarrow> (0, warn_unknown th)))"

text \<open>The C string the array holds.\<close>

definition ui_theme_get_str :: "string option \<Rightarrow> theme \<Rightarrow> string option \<times> theme" where
  "ui_theme_get_str key th =
     (case key of None \<Rightarrow> (None, th)
      | Some k \<Rightarrow> if k = ''font.ui.family'' then (Some (takeWhile (\<lambda>c. c \<noteq> NUL) (g_font_family th)), th)
                  else (None, warn_unknown th))"

subsection \<open>The serial line\<close>

abbreviation SERIAL_LINE_CAP :: nat where "SERIAL_LINE_CAP \<equiv> 80"

definition line_streq_trimmed :: "string \<Rightarrow> string \<Rightarrow> bool" where
  "line_streq_trimmed line lit \<longleftrightarrow>
     (let a = dropWhile is_space line in take (length lit) a = lit \<and> list_all is_space (drop (length lit) a))"

text \<open>\<open>line\<close> are the characters before \<^verbatim>\<open>s_serial_pos\<close>; \<open>reload\<close> is \<^verbatim>\<open>ui_theme_reload\<close> on the present file system.\<close>

fun ui_theme_serial_poll :: "(theme \<Rightarrow> int \<times> theme) \<Rightarrow> char list \<Rightarrow> string \<times> theme \<Rightarrow> string \<times> theme" where
  "ui_theme_serial_poll reload [] st = st"
| "ui_theme_serial_poll reload (c # cs) (line, th) =
     ui_theme_serial_poll reload cs
       (if c = CHR 0x0D \<or> c = CHR 0x0A
        then ([], if line_streq_trimmed line ''theme reload'' then snd (reload th) else th)
        else if (of_char c :: nat) < 32 then (line, th)
        else if length line + 1 < SERIAL_LINE_CAP then (line @ [c], th)
        else (line, th))"


subsection \<open>Every load leaves a sane theme\<close>

definition theme_ok :: "theme \<Rightarrow> bool" where
  "theme_ok th \<longleftrightarrow>
     length (g_u32 th) = length k_u32_dark \<and>
     length (g_rad th) = length k_radius \<and> (\<forall>r\<in>set (g_rad th). 0 \<le> r \<and> r \<le> 100000) \<and>
     length (g_space th) = length k_space \<and> (\<forall>r\<in>set (g_space th). r \<le> 10000) \<and>
     length (g_dur th) = length k_duration \<and> (\<forall>r\<in>set (g_dur th). r \<le> 60000) \<and>
     length (g_font_family th) = FONT_FAMILY_CAP \<and> NUL \<in> set (g_font_family th) \<and> s_warn_unknown th \<le> 8 \<and>
     \<not> t_overrun th"

lemma tables_agree: "length k_u32_light = length k_u32_dark" "map fst k_u32_light = map fst k_u32_dark"
  by (simp_all add: k_u32_light_def k_u32_dark_def)

lemma baseline_ok:
  assumes "length (g_font_family th) = FONT_FAMILY_CAP" "s_warn_unknown th \<le> 8" "\<not> t_overrun th"
  shows "theme_ok (baseline_palette light th)"
proof -
  let ?f = "(k_str @ drop (length k_str) (g_font_family th))[FONT_FAMILY_CAP - 1 := NUL]"
  have len: "length ?f = FONT_FAMILY_CAP" using assms(1) by (simp add: k_str_def)
  then have "?f ! (FONT_FAMILY_CAP - 1) = NUL" by (simp add: nth_list_update)
  then have "NUL \<in> set ?f" using len by (metis diff_less nth_mem zero_less_numeral zero_less_one)
  then show ?thesis
    using assms len tables_agree(1)
    by (simp add: theme_ok_def baseline_palette_def) (simp add: k_radius_def k_space_def k_duration_def)
qed

lemma warn_unknown_ok [inv_intros]: "theme_ok th \<Longrightarrow> theme_ok (warn_unknown th)"
  by (simp add: theme_ok_def warn_unknown_def)

lemma key_index_Some: "key_index tab k = Some i \<Longrightarrow> i < length tab \<and> fst (tab ! i) = k"
  unfolding key_index_def by (auto dest: scan_Some)

text \<open>A store is in range if the index is one of the key table.\<close>

lemma put_ok:
  assumes "theme_ok th"
  shows "i < length k_u32_dark \<Longrightarrow> theme_ok (put_u32 i u th)"
    "i < length k_radius \<Longrightarrow> 0 \<le> r \<Longrightarrow> r \<le> 100000 \<Longrightarrow> theme_ok (put_rad i r th)"
    "i < length k_space \<Longrightarrow> n \<le> 10000 \<Longrightarrow> theme_ok (put_space i n th)"
    "i < length k_duration \<Longrightarrow> n \<le> 60000 \<Longrightarrow> theme_ok (put_dur i n th)"
    "length cs < FONT_FAMILY_CAP \<Longrightarrow> theme_ok (put_family cs th)"
  using assms
  by (auto simp: theme_ok_def put_u32_def put_rad_def put_space_def put_dur_def put_family_def
      dest!: set_update_subset_insert [THEN subsetD])

lemma set_keys_ok [inv_intros]:
  assumes "theme_ok th"
  shows "theme_ok (set_u32_key key u th)" "0 \<le> r \<Longrightarrow> r \<le> 100000 \<Longrightarrow> theme_ok (set_rad_key key r th)"
    "n \<le> 10000 \<Longrightarrow> theme_ok (set_space_key key n th)" "n \<le> 60000 \<Longrightarrow> theme_ok (set_dur_key key n th)"
    "theme_ok (set_str_key key buf val vlen th)"
  using assms put_ok [OF assms] warn_unknown_ok [OF assms]
  by (auto simp: set_u32_key_def set_rad_key_def set_space_key_def set_dur_key_def set_str_key_def Let_def
      dest: key_index_Some split: option.split)

lemma assign_value_ok [inv_intros]: "theme_ok th \<Longrightarrow> theme_ok (assign_value_for_key key buf vs vlen th)"
  unfolding assign_value_for_key_def Let_def
  by (auto simp: set_keys_ok split: option.split)

lemma over_lines_inv:
  assumes "\<And>ls le st. P st \<Longrightarrow> P (f ls le st)" "P st"
  shows "P (over_lines f buf len i st)"
  using assms
proof (induction f buf len i st rule: over_lines.induct)
  case (1 f buf len i st)
  show ?case
  proof (cases "i < len")
    case True
    have "P (f (advance is_eol buf len i) (advance (\<lambda>c. \<not> is_eol c) buf len (advance is_eol buf len i)) st)"
      using "1.prems" by blast
    with "1.IH" [OF True refl refl "1.prems"(1)] True show ?thesis by (simp add: over_lines.simps [of f buf len i] Let_def)
  next
    case False
    with "1.prems" show ?thesis by (simp add: over_lines.simps [of f buf len i])
  qed
qed

lemma toml_line_ok: "theme_ok (snd st) \<Longrightarrow> theme_ok (snd (toml_line buf ls le st))"
  by (auto simp: toml_line_def Let_def assign_value_ok split: theme_item.split prod.split)

lemma json_value_ok: "theme_ok th \<Longrightarrow> json_value key buf len i th = (r, j, th') \<Longrightarrow> theme_ok th'"
  by (auto simp: json_value_def Let_def assign_value_ok split: if_splits)


lemma json_step_ok:
  assumes "theme_ok th" "json_step buf len i th = (r, j, th')"
  shows "theme_ok th'"
  using assms
  by (auto simp: json_step_def Let_def dest: json_value_ok split: if_splits option.splits prod.splits)

lemma merge_json_from_ok: "theme_ok th \<Longrightarrow> theme_ok (snd (merge_json_from buf len i th))"
proof (induction buf len i th rule: merge_json_from.induct)
  case (1 buf len i th)
  obtain r j th' where s: "json_step buf len i th = (r, j, th')" by (cases "json_step buf len i th") auto
  have ok: "theme_ok th'" by (rule json_step_ok [OF "1.prems" s])
  show ?case
  proof (cases r)
    case None
    from "1.IH" [OF s [symmetric] None refl ok] None s show ?thesis by (simp add: merge_json_from.simps [of buf len i th])
  next
    case (Some b)
    with s ok show ?thesis by (simp add: merge_json_from.simps [of buf len i th])
  qed
qed

lemma load_buffer_ok:
  assumes "length (g_font_family th) = FONT_FAMILY_CAP" "s_warn_unknown th \<le> 8" "\<not> t_overrun th"
  shows "theme_ok (snd (load_buffer buf len json th))"
proof -
  have b: "theme_ok (baseline_palette light th)" for light by (rule baseline_ok [OF assms])
  have "theme_ok (merge_toml_body buf len (baseline_palette light th))" for light
    unfolding merge_toml_body_def
    using over_lines_inv [of "\<lambda>st. theme_ok (snd st)" "toml_line buf" "(SEC_NONE, baseline_palette light th)"] toml_line_ok b by simp
  moreover have "theme_ok (snd (merge_json_body buf len (baseline_palette light th)))" for light
    using b merge_json_from_ok by (simp add: merge_json_body_def Let_def)
  ultimately show ?thesis by (simp add: load_buffer_def Let_def)
qed

text \<open>C39: Whatever bytes the theme files hold and whatever lies on the stack behind them, start-up and every reload come to an end
  without a store past the end of one of the five token arrays (the model records such a store in \<open>t_overrun\<close>), and leave
  radii between 0 and 100000, spacings up to 10000 and durations up to 60000, arrays of the sizes of their key tables, and a
  terminated font family in its array of 72 characters.  Colours, shadows and font sizes are 32-bit words that the readers do not
  restrict.\<close>

theorem theme_load_safe:
  assumes "length (g_font_family th) = FONT_FAMILY_CAP" "\<not> t_overrun th"
  shows "theme_ok (ui_theme_init mem stk s th) \<and> theme_ok (snd (ui_theme_reload mem stk s th))"
proof -
  have "theme_ok (try_load_from_vfs mem stk s (th\<lparr>s_warn_unknown := 0\<rparr>))"
  proof -
    let ?th = "th\<lparr>s_warn_unknown := 0\<rparr>"
    have b: "theme_ok (baseline_palette False ?th)" using assms by (intro baseline_ok) simp_all
    have l: "theme_ok (snd (load_buffer buf n json ?th))" for buf n json using assms by (intro load_buffer_ok) simp_all
    have lb: "theme_ok (case load_buffer buf n json ?th of (True, th') \<Rightarrow> th' | (False, th') \<Rightarrow> baseline_palette False th')"
      for buf n json
    proof -
      obtain r t where rt: "load_buffer buf n json ?th = (r, t)" by fastforce
      then have t: "theme_ok t" using l [of buf n json] by simp
      then have "theme_ok (baseline_palette False t)" by (intro baseline_ok) (simp_all add: theme_ok_def)
      with t show ?thesis by (simp add: rt split: bool.split)
    qed
    then show ?thesis using b by (simp add: try_load_from_vfs_def Let_def split: option.split prod.split)
  qed
  then show ?thesis by (simp add: ui_theme_init_def ui_theme_reload_def)
qed


theorem theme_load_safe_witness:
  "theme_ok (ui_theme_init (\<lambda>_. 0) [] example_conf_fs
     \<lparr>g_u32 = [], g_rad = [], g_space = [], g_dur = [], g_font_family = replicate FONT_FAMILY_CAP NUL, s_warn_unknown = 0, t_overrun = False\<rparr>)"
  using theme_load_safe [of "\<lparr>g_u32 = [], g_rad = [], g_space = [], g_dur = [], g_font_family = replicate FONT_FAMILY_CAP NUL,
     s_warn_unknown = 0, t_overrun = False\<rparr>"] by simp

subsection \<open>Keys and values\<close>

lemma key_index_nth:
  assumes "distinct (map fst tab)" "i < length tab"
  shows "key_index tab (fst (tab ! i)) = Some i"
  unfolding key_index_def
  using assms by (intro scan_first) (auto simp: distinct_conv_nth)

text \<open>Reading a token after setting one gives the value set, or the old value for every other token.\<close>

lemma get_set_u32:
  assumes "theme_ok th" "key_index k_u32_dark k = Some i"
  shows "fst (ui_theme_get_u32 (Some k') (set_u32_key k v th)) = (if k' = k then v else fst (ui_theme_get_u32 (Some k') th))"
proof -
  have i: "i < length (g_u32 th)" using key_index_Some [OF assms(2)] assms(1) by (simp add: theme_ok_def)
  have "j \<noteq> i" if "key_index k_u32_dark k' = Some j" "k' \<noteq> k" for j
    using key_index_Some [OF assms(2)] key_index_Some [OF that(1)] that(2) by auto
  then show ?thesis
    using assms(2) i by (auto simp: ui_theme_get_u32_def set_u32_key_def put_u32_def split: option.split)
qed

subsection \<open>Hexadecimal colours\<close>

definition hex_char :: "nat \<Rightarrow> char" where
  "hex_char d = ''0123456789abcdef'' ! d"

lemma from_hex_char:
  assumes "d < 16"
  shows "from_hex (hex_char d) = int d"
proof -
  have "d \<in> {0, 1, 2, 3, 4, 5, 6, 7, 8, 9, 10, 11, 12, 13, 14, 15}" using assms by (simp; presburger)
  then show ?thesis by (elim insertE emptyE) (simp_all add: hex_char_def from_hex_def)
qed

lemma shift_in_nibble:
  assumes "d < 16"
  shows "push_bit 4 v OR (word_of_int (int d) :: u32) = 16 * v + of_nat d"
proof -
  have d: "take_bit 4 (of_nat d :: u32) = of_nat d"
  proof -
    have u: "unat (of_nat d :: u32) = d" using assms by (simp add: unsigned_of_nat take_bit_nat_eq_self)
    have "unat (take_bit 4 (of_nat d :: u32)) = unat (of_nat d :: u32)"
      using assms by (simp only: unsigned_take_bit_eq u) (simp add: take_bit_nat_eq_self)
    then show ?thesis by (simp only: word_unat_eq_iff)
  qed
  have "\<not> bit (push_bit 4 v) n \<or> \<not> bit (of_nat d :: u32) n" for n
    using d by (metis bit_push_bit_iff bit_take_bit_iff not_less)
  then have "push_bit 4 v + (of_nat d :: u32) = push_bit 4 v OR of_nat d" by (rule disjunctive_add)
  then show ?thesis by (simp add: push_bit_eq_mult mult.commute)
qed


lemma hex_digits_run:
  assumes "\<forall>i<length ds. char_at buf (s + i) = hex_char (ds ! i)" "\<forall>d\<in>set ds. d < 16"
  shows "hex_digits buf s (length ds) v = Some (fold (\<lambda>d v. 16 * v + of_nat d) ds v)"
  using assms
proof (induction ds arbitrary: s v)
  case (Cons d ds)
  have c: "char_at buf s = hex_char d" using Cons.prems(1) by force
  have "\<forall>i<length ds. char_at buf (Suc s + i) = hex_char (ds ! i)" using Cons.prems(1) by force
  with Cons.IH [of "Suc s"] Cons.prems(2) c show ?case
    by (simp add: from_hex_char shift_in_nibble Let_def del: of_int_of_nat_eq)
qed simp

fun nibbles :: "nat \<Rightarrow> nat \<Rightarrow> nat list" where
  "nibbles 0 v = []"
| "nibbles (Suc n) v = nibbles n (v div 16) @ [v mod 16]"

lemma nibbles_basic [simp]: "length (nibbles n v) = n" "d \<in> set (nibbles n v) \<Longrightarrow> d < 16"
  by (induction n arbitrary: v) auto

lemma fold_nibbles: "fold (\<lambda>d w. 16 * w + of_nat d) (nibbles n v) 0 = (of_nat (v mod 16 ^ n) :: u32)"
proof (induction n arbitrary: v)
  case (Suc n)
  have "v mod 16 ^ Suc n = 16 * (v div 16 mod 16 ^ n) + v mod 16" by (simp add: mod_mult2_eq)
  then show ?case using Suc by simp
qed simp

text \<open>A colour as the theme files write it.\<close>

definition hex_text :: "u32 \<Rightarrow> string" where
  "hex_text c = map hex_char (nibbles 8 (unat c))"

lemma hex_text_length [simp]: "length (hex_text c) = 8"
  by (simp add: hex_text_def)

lemma hex_text_digits:
  assumes "\<forall>i<8. char_at buf (s + i) = hex_text c ! i"
  shows "hex_digits buf s 8 0 = Some c"
proof -
  have "hex_digits buf s (length (nibbles 8 (unat c))) 0 = Some (fold (\<lambda>d w. 16 * w + of_nat d) (nibbles 8 (unat c)) 0)"
    using assms by (intro hex_digits_run) (auto simp: hex_text_def)
  also have "\<dots> = Some (of_nat (unat c mod 16 ^ 8))" by (simp add: fold_nibbles)
  also have "unat c mod 16 ^ 8 = unat c" using unsigned_less [of c, where 'a = nat] by simp
  finally show ?thesis by simp
qed

lemma parse_hash_hex: "parse_hex_u32 (pre @ ''#'' @ hex_text c @ post) (length pre) 9 = Some c"
proof -
  note shift = char_at_append [of pre "''#'' @ hex_text c @ post"]
  have "char_at (pre @ ''#'' @ hex_text c @ post) (length pre + 1 + i) = hex_text c ! i" if "i < 8" for i
    using shift [of "Suc i"] that by (simp add: char_at_nth)
  then have "hex_digits (pre @ ''#'' @ hex_text c @ post) (length pre + 1) 8 0 = Some c" by (intro hex_text_digits) blast
  then show ?thesis using shift [of 0] by (simp add: parse_hex_u32_def)
qed

lemma parse_0x_hex: "parse_hex_u32 (pre @ ''0x'' @ hex_text c @ post) (length pre) 10 = Some c"
proof -
  note shift = char_at_append [of pre "''0x'' @ hex_text c @ post"]
  have "char_at (pre @ ''0x'' @ hex_text c @ post) (length pre + 2 + i) = hex_text c ! i" if "i < 8" for i
    using shift [of "Suc (Suc i)"] that by (simp add: char_at_nth)
  then have "hex_digits (pre @ ''0x'' @ hex_text c @ post) (length pre + 2) 8 0 = Some c" by (intro hex_text_digits) blast
  then show ?thesis using shift [of 0] shift [of 1] by (simp add: parse_hex_u32_def)
qed

text \<open>Every colour survives printing and reading, in both notations the readers take, wherever it stands in the buffer.\<close>

theorem hex_colour_roundtrip:
  "parse_hex_u32 (pre @ ''#'' @ hex_text c @ post) (length pre) 9 = Some c \<and>
   parse_hex_u32 (pre @ ''0x'' @ hex_text c @ post) (length pre) 10 = Some c"
  using parse_hash_hex parse_0x_hex by blast


subsection \<open>Lines\<close>

lemma line_item_assignI:
  assumes "e \<noteq> ls" "scan (\<lambda>j. char_at buf j = CHR ''#'') ls e = None" "trim buf ls e = e" "skip_ws buf ls = ls"
    "char_at buf ls \<notin> {CHR ''#'', CHR ''[''}" "scan (\<lambda>j. char_at buf j = CHR ''='') ls e = Some eq"
  shows "line_item buf ls e = Assign ls eq e"
  using assms by (simp add: line_item_def)

lemma line_item_assign:
  fixes pre k v rest :: string
  defines "buf \<equiv> pre @ k @ CHR ''='' # v @ rest" and "ls \<equiv> length pre"
  assumes k: "k \<noteq> []" "\<forall>c\<in>set k. \<not> is_space c \<and> c \<notin> {CHR ''='', CHR ''#'', CHR ''[''}"
    and v: "v \<noteq> []" "\<not> is_space (hd v)" "\<not> is_space (last v)" "CHR ''#'' \<notin> set v"
  shows "line_item buf ls (ls + length k + Suc (length v)) = Assign ls (ls + length k) (ls + length k + Suc (length v))"
    "trim buf ls (ls + length k) = ls + length k" "skip_ws buf (Suc (ls + length k)) = Suc (ls + length k)"
    "trim buf lo (ls + length k + Suc (length v)) = ls + length k + Suc (length v)"
proof -
  let ?e = "ls + length k + Suc (length v)"
  have at: "char_at buf (ls + j) = char_at (k @ CHR ''='' # v @ rest) j" for j
    unfolding buf_def ls_def by (rule char_at_append)
  have at_k: "char_at buf (ls + j) = k ! j" if "j < length k" for j using that by (simp add: at char_at_nth)
  have at_eq: "char_at buf (ls + length k) = CHR ''=''" using char_at_append [of k "CHR ''='' # v @ rest" 0] by (simp add: at)
  have at_v: "char_at buf (ls + length k + Suc j) = v ! j" if "j < length v" for j
  proof -
    have "char_at buf (ls + (length k + Suc j)) = char_at (CHR ''='' # v @ rest) (Suc j)"
      unfolding at by (rule char_at_append)
    also have "\<dots> = v ! j" using that by (simp add: char_at_nth)
    finally show ?thesis by (simp only: add.assoc)
  qed
  have last: "char_at buf (?e - 1) = last v"
    using at_v [of "length v - 1"] v(1) by (simp add: last_conv_nth)
  show te: "trim buf lo ?e = ?e" for lo using last v(3) by (intro trim_stay) simp_all
  have first: "char_at buf ls = hd k" using at_k [of 0] k(1) by (simp add: hd_conv_nth)
  have kc: "\<not> is_space (k ! j) \<and> k ! j \<notin> {CHR ''='', CHR ''#'', CHR ''[''}" if "j < length k" for j by (rule bspec [OF k(2) nth_mem [OF that]])
  have hk: "\<not> is_space (hd k)" "hd k \<noteq> CHR ''#''" "hd k \<noteq> CHR ''[''" using bspec [OF k(2) hd_in_set [OF k(1)]] by simp_all
  have sp: "skip_ws buf ls = ls" using hk(1) by (intro skip_ws_stay) (simp add: first)
  show "skip_ws buf (Suc (ls + length k)) = Suc (ls + length k)"
    using at_v [of 0] v(1,2) by (intro skip_ws_stay) (simp add: hd_conv_nth)
  show "trim buf ls (ls + length k) = ls + length k"
  proof (rule trim_stay)
    have "ls + length k - 1 = ls + (length k - 1)" using k(1) by (cases k) simp_all
    with at_k [of "length k - 1"] kc [of "length k - 1"] k(1) show "\<not> is_space (char_at buf (ls + length k - 1))" by simp
  qed (use k(1) in simp)
  have char: "char_at buf j \<noteq> CHR ''#''" if "ls \<le> j" "j < ?e" for j
  proof -
    consider "j < ls + length k" | "j = ls + length k" | "ls + length k < j" by linarith
    then show ?thesis
    proof cases
      case 1
      then show ?thesis using at_k [of "j - ls"] kc [of "j - ls"] that by auto
    next
      case 2
      then show ?thesis using at_eq by simp
    next
      case 3
      then have "j = ls + length k + Suc (j - ls - length k - 1)" "j - ls - length k - 1 < length v" using that by simp_all
      then have "char_at buf j \<in> set v" using at_v [of "j - ls - length k - 1"] nth_mem by metis
      then show ?thesis using v(4) by auto
    qed
  qed
  then have cut: "scan (\<lambda>j. char_at buf j = CHR ''#'') ls ?e = None" by (simp add: scan_None)
  have eq: "scan (\<lambda>j. char_at buf j = CHR ''='') ls ?e = Some (ls + length k)"
  proof (rule scan_first)
    fix j assume "ls \<le> j" "j < ls + length k"
    then show "char_at buf j \<noteq> CHR ''=''" using at_k [of "j - ls"] kc [of "j - ls"] by auto
  qed (simp_all add: at_eq)
  show "line_item buf ls ?e = Assign ls (ls + length k) ?e"
    by (rule line_item_assignI [OF _ cut te sp _ eq]) (use hk first in auto)
qed


definition key_char :: "char \<Rightarrow> bool" where
  "key_char c \<longleftrightarrow> c \<noteq> NUL \<and> \<not> is_space c \<and> c \<notin> {CHR ''='', CHR ''#'', CHR ''[''}"

lemma table_keys: "list_all (\<lambda>s. list_all key_char s \<and> length s < 95) (map fst k_u32_dark)"
  by code_simp

lemma known_key:
  assumes "key_index k_u32_dark s = Some i"
  shows "\<forall>c\<in>set s. key_char c" "length s < 95"
proof -
  have "s \<in> set (map fst k_u32_dark)" using key_index_Some [OF assms] by auto
  from bspec [OF table_keys [unfolded list_all_iff] this]
  show "\<forall>c\<in>set s. key_char c" "length s < 95" by blast+
qed

lemma build_full_key_known:
  assumes "key_index k_u32_dark (sec_prefix sec @ k) = Some i" "\<forall>j<length k. char_at buf (p + j) = k ! j"
  shows "build_full_key 96 sec buf p (length k) = sec_prefix sec @ k"
proof -
  have k: "map (\<lambda>j. char_at buf (p + j)) [0..<length k] = k" by (rule nth_equalityI) (use assms(2) in simp_all)
  have "\<forall>c\<in>set (sec_prefix sec @ k). c \<noteq> NUL" using known_key(1) [OF assms(1)] by (simp add: key_char_def)
  then have "takeWhile (\<lambda>c. c \<noteq> NUL) (sec_prefix sec @ k) = sec_prefix sec @ k" by (simp only: takeWhile_eq_all_conv)
  with known_key(2) [OF assms(1)] show ?thesis by (simp add: build_full_key_def k)
qed


lemma hex_text_plain: "\<forall>x\<in>set (hex_text c). \<not> is_space x \<and> x \<noteq> CHR ''#''"
proof -
  have "list_all (\<lambda>d. \<not> is_space (hex_char d) \<and> hex_char d \<noteq> CHR ''#'') [0..<16]" by code_simp
  then have d: "\<not> is_space (hex_char d) \<and> hex_char d \<noteq> CHR ''#''" if "d < 16" for d using that by (simp add: list_all_iff)
  show ?thesis using d nibbles_basic(2) unfolding hex_text_def by auto
qed

lemma toml_line_assignI:
  assumes "line_item buf ls le = Assign p eq e" "trim buf p eq = ke" "p < ke" "skip_ws buf (Suc eq) = vs" "trim buf vs e = ve"
    "sub64 ve vs = n" "n \<noteq> 0" "sec \<notin> {SEC_NONE, SEC_META, SEC_APPEARANCE}" "build_full_key 96 sec buf p (ke - p) = key"
  shows "toml_line buf ls le (sec, th) = (sec, assign_value_for_key key buf vs n th)"
  using assms by (simp add: toml_line_def)

lemma assign_hex:
  "parse_hex_u32 buf vs n = Some u \<Longrightarrow> key \<noteq> ''appearance'' \<Longrightarrow> key \<noteq> ''mode'' \<Longrightarrow> assign_value_for_key key buf vs n th = set_u32_key key u th"
  by (simp add: assign_value_for_key_def)

text \<open>A colour line of a TOML theme, wherever it stands in the file, sets the token it names and no other: every known token
  of its section, every colour.\<close>

theorem toml_colour_line:
  assumes th: "theme_ok th" and sec: "sec \<in> {SEC_COLOR, SEC_SHADOW}"
    and key: "k \<noteq> []" "key_index k_u32_dark (sec_prefix sec @ k) = Some i"
  shows "\<exists>th'. toml_line (pre @ k @ ''=0x'' @ hex_text c @ rest) (length pre) (length pre + length k + 11) (sec, th) = (sec, th') \<and>
    (\<forall>k'. fst (ui_theme_get_u32 (Some k') th') =
       (if k' = sec_prefix sec @ k then c else fst (ui_theme_get_u32 (Some k') th)))"
proof -
  let ?v = "''0x'' @ hex_text c"
  let ?buf = "pre @ k @ CHR ''='' # ?v @ rest" and ?eq = "length pre + length k"
  have kc: "\<forall>x\<in>set k. \<not> is_space x \<and> x \<notin> {CHR ''='', CHR ''#'', CHR ''[''}"
    using known_key(1) [OF key(2)] by (simp add: key_char_def)
  have h: "\<forall>x\<in>set (hex_text c). \<not> is_space x \<and> x \<noteq> CHR ''#''" by (rule hex_text_plain)
  have ne: "hex_text c \<noteq> []" using hex_text_length [of c] by force
  have "\<not> is_space (last ?v)" using h ne last_in_set [OF ne] by simp
  moreover have "\<not> is_space (hd ?v)" "CHR ''#'' \<notin> set ?v" using h by (auto simp: is_space_def)
  ultimately have line: "line_item ?buf (length pre) (?eq + Suc (length ?v)) = Assign (length pre) ?eq (?eq + Suc (length ?v))"
      "trim ?buf (length pre) ?eq = ?eq" "skip_ws ?buf (Suc ?eq) = Suc ?eq"
      "trim ?buf (Suc ?eq) (?eq + Suc (length ?v)) = ?eq + Suc (length ?v)"
    using line_item_assign [where v = ?v, OF key(1) kc] by simp_all
  have len: "?eq + Suc (length ?v) = ?eq + 11" by simp
  have "\<forall>j<length k. char_at ?buf (length pre + j) = k ! j"
    using char_at_append [of pre] by (simp add: char_at_nth)
  then have full: "build_full_key 96 sec ?buf (length pre) (length k) = sec_prefix sec @ k"
    by (rule build_full_key_known [OF key(2)])
  have val: "parse_hex_u32 ?buf (Suc ?eq) 10 = Some c"
    using parse_0x_hex [of "pre @ k @ ''=''" c rest] by simp
  have "sub64 (?eq + 11) (Suc ?eq) = 10" by (simp add: sub64_def wrap64_def)
  then have "toml_line ?buf (length pre) (?eq + 11) (sec, th) = (sec, assign_value_for_key (sec_prefix sec @ k) ?buf (Suc ?eq) 10 th)"
    using sec key(1) full by (intro toml_line_assignI [OF line(1,2) _ line(3,4), unfolded len]) auto
  moreover have "assign_value_for_key (sec_prefix sec @ k) ?buf (Suc ?eq) 10 th = set_u32_key (sec_prefix sec @ k) c th"
    using sec by (intro assign_hex [OF val]) (auto simp: sec_prefix_def)
  ultimately show ?thesis using get_set_u32 [OF th key(2)] by simp
qed


theorem toml_colour_line_witness:
  "\<exists>th. fst (ui_theme_get_u32 (Some ''color.bg.base'') (snd (toml_line (''[color]'' @ CHR 0x0A # ''bg.base=0x'' @ hex_text 0xff102030) 8 26
     (SEC_COLOR, th)))) = 0xff102030"
proof -
  let ?th = "baseline_palette False
     \<lparr>g_u32 = [], g_rad = [], g_space = [], g_dur = [], g_font_family = replicate FONT_FAMILY_CAP NUL, s_warn_unknown = 0, t_overrun = False\<rparr>"
  have th: "theme_ok ?th" by (rule baseline_ok) simp_all
  have "key_index k_u32_dark (fst (k_u32_dark ! 0)) = Some 0" by (rule key_index_nth) (simp_all add: k_u32_dark_def)
  then have "key_index k_u32_dark (sec_prefix SEC_COLOR @ ''bg.base'') = Some 0" by (simp add: k_u32_dark_def sec_prefix_def)
  from toml_colour_line [OF th _ _ this, where pre = "''[color]'' @ [CHR 0x0A]" and c = "0xff102030" and rest = "[]"]
  have "fst (ui_theme_get_u32 (Some ''color.bg.base'') (snd (toml_line (''[color]'' @ CHR 0x0A # ''bg.base=0x'' @ hex_text 0xff102030) 8 26
     (SEC_COLOR, ?th)))) = 0xff102030"
    by (auto simp: sec_prefix_def eval_nat_numeral)
  then show ?thesis ..
qed

subsection \<open>Where the readers surprise\<close>

lemma trim_le: "trim buf lo e \<le> e"
  by (induction e) auto

text \<open>A \<^verbatim>\<open>#\<close> cuts the line wherever it stands, so no value of a TOML theme is in the \<^verbatim>\<open>#rrggbb\<close> notation.\<close>

lemma toml_hash_unread:
  assumes "line_item buf ls le = Assign p eq e" "ls \<le> j" "j < e"
  shows "char_at buf j \<noteq> CHR ''#''"
proof -
  let ?cut = "case scan (\<lambda>j. char_at buf j = CHR ''#'') ls le of None \<Rightarrow> le | Some j \<Rightarrow> j"
  have "e = trim buf ls ?cut" using assms(1) by (auto simp: line_item_def Let_def split: if_splits option.splits)
  then have "j < ?cut" using assms(3) trim_le [of buf ls ?cut] by simp
  then show ?thesis
    using assms(2) by (auto simp: scan_None split: option.splits dest: scan_Some)
qed

text \<open>The default family is written over the one before it without a terminator.\<close>

lemma stale_family:
  assumes "length (g_font_family th) = FONT_FAMILY_CAP"
  shows "fst (ui_theme_get_str (Some ''font.ui.family'') (baseline_palette light (set_str_key ''font.ui.family'' ''Helvetica Neue'' 0 14 th))) =
     Some ''Noto Sans Neue''"
  using assms by (simp add: ui_theme_get_str_def baseline_palette_def set_str_key_def put_family_def k_str_def upt_rec Let_def)

text \<open>An empty value is looked for on the next line, and its length wraps around.\<close>

lemma family_from_next_line:
  assumes "length (g_font_family th) = FONT_FAMILY_CAP"
  shows "fst (ui_theme_get_str (Some ''font.ui.family'') (snd (toml_line (''ui.family='' @ CHR 0x0A # ''ui.size_md=20'') 0 10 (SEC_FONT, th)))) =
     Some ''ui.size_md=20''"
proof -
  let ?buf = "''ui.family='' @ CHR 0x0A # ''ui.size_md=20''"
  let ?L = "18446744073709551615 :: nat"
  have item: "line_item ?buf 0 10 = Assign 0 9 10" by code_simp
  have ke: "trim ?buf 0 9 = 9" and vs: "skip_ws ?buf (Suc 9) = 11" and ve: "trim ?buf 11 10 = 10" by code_simp+
  have key: "build_full_key 96 SEC_FONT ?buf 0 9 = ''font.ui.family''" by code_simp
  have hex: "parse_hex_u32 ?buf 11 ?L = None" by (simp add: parse_hex_u32_def)
  have q: "char_at ?buf 11 = CHR ''u''" and "\<not> is_digit (char_at ?buf 11)" by code_simp+
  then have dec: "parse_u32_dec ?buf 11 ?L = None" by (simp add: parse_u32_dec_def dec_digits.simps)
  have "assign_value_for_key ''font.ui.family'' ?buf 11 ?L th = set_str_key ''font.ui.family'' ?buf 11 ?L th"
    by (simp only: assign_value_for_key_def hex dec Let_def option.case q) simp
  moreover have "toml_line ?buf 0 10 (SEC_FONT, th) = (SEC_FONT, assign_value_for_key ''font.ui.family'' ?buf 11 ?L th)"
    by (rule toml_line_assignI [OF item ke _ vs ve]) (simp_all only: key diff_zero, simp_all add: sub64_def wrap64_def)
  moreover have "map (\<lambda>i. char_at ?buf (11 + i)) [0..<71] = ''ui.size_md=20'' @ replicate 58 NUL" by code_simp
  ultimately show ?thesis using assms by (simp add: ui_theme_get_str_def set_str_key_def put_family_def Let_def)
qed


text \<open>The range check of the decimal reader comes after the multiplication, which has wrapped around by then.\<close>

lemma decimal_wraps: "parse_u32_dec ''4294967299'' 0 10 = Some 3"
  by (simp add: parse_u32_dec_def dec_digits.simps is_digit_def)

end
