(* ===== verification/Path.thy ===== *)
theory Path
  imports Surface "HOL-Library.Signed_Division"
begin

text \<open>
  Vector paths, \<^verbatim>\<open>src/compositor/path.c\<close> and the flattening half of \<^verbatim>\<open>path_raster.c\<close>: recording commands, subdividing curves and
  collecting the vertices of contours and polylines.  A path is the list of its commands, the vertex arrays are one list of
  points in sixteenths of a pixel; 32-bit sums and 64-bit products wrap around.
\<close>

subsection \<open>Commands\<close>

abbreviation PATH_CMD_CAP :: nat where "PATH_CMD_CAP \<equiv> 512"
abbreviation PATH_MAX_VERT :: nat where "PATH_MAX_VERT \<equiv> 16384"
abbreviation PATH_MAX_CONTOUR :: nat where "PATH_MAX_CONTOUR \<equiv> 32"
abbreviation SIZEOF_PATH :: nat where "SIZEOF_PATH \<equiv> 18440"
abbreviation UNIT :: int where "UNIT \<equiv> 16"

datatype path_cmd =
    PATH_CMD_MOVE int int
  | PATH_CMD_LINE int int
  | PATH_CMD_QUAD int int int int
  | PATH_CMD_CUBIC int int int int int int
  | PATH_CMD_CLOSE

record canvas =
  cgfx :: gfx
  cpath :: "nat \<Rightarrow> path_cmd list"

definition path_reset :: "nat \<Rightarrow> canvas \<Rightarrow> canvas" where
  "path_reset p c = (if p = 0 then c else c\<lparr>cpath := (cpath c)(p := [])\<rparr>)"

definition path_create :: "nat \<Rightarrow> canvas \<Rightarrow> (nat \<times> canvas) result option" where
  "path_create root c =
     (case kmalloc root SIZEOF_PATH (gheap (cgfx c)) of
        None \<Rightarrow> None
      | Some (Inl e) \<Rightarrow> Some (Inl e)
      | Some (Inr (p, h)) \<Rightarrow>
          let c = c\<lparr>cgfx := (cgfx c)\<lparr>gheap := h\<rparr>\<rparr>
          in if p = 0 then Some (Inr (0, c)) else Some (Inr (p, path_reset p c)))"

definition path_destroy :: "nat \<Rightarrow> canvas \<Rightarrow> canvas result option" where
  "path_destroy p c =
     (if p = 0 then Some (Inr c)
      else case kfree p (gheap (cgfx c)) of
        None \<Rightarrow> None
      | Some (Inl e) \<Rightarrow> Some (Inl e)
      | Some (Inr h) \<Rightarrow> Some (Inr (c\<lparr>cgfx := (cgfx c)\<lparr>gheap := h\<rparr>\<rparr>)))"

definition append_cmd :: "nat \<Rightarrow> path_cmd \<Rightarrow> canvas \<Rightarrow> int \<times> canvas" where
  "append_cmd p cmd c =
     (if p = 0 \<or> length (cpath c p) \<ge> PATH_CMD_CAP then (-1, c)
      else (0, c\<lparr>cpath := (cpath c)(p := cpath c p @ [cmd])\<rparr>))"

definition path_move_to :: "nat \<Rightarrow> int \<Rightarrow> int \<Rightarrow> canvas \<Rightarrow> canvas" where
  "path_move_to p x y c = (if p = 0 then c else snd (append_cmd p (PATH_CMD_MOVE x y) c))"

definition path_line_to :: "nat \<Rightarrow> int \<Rightarrow> int \<Rightarrow> canvas \<Rightarrow> canvas" where
  "path_line_to p x y c = (if p = 0 then c else snd (append_cmd p (PATH_CMD_LINE x y) c))"

definition path_quad_to :: "nat \<Rightarrow> int \<Rightarrow> int \<Rightarrow> int \<Rightarrow> int \<Rightarrow> canvas \<Rightarrow> canvas" where
  "path_quad_to p cx cy x y c = (if p = 0 then c else snd (append_cmd p (PATH_CMD_QUAD cx cy x y) c))"

definition path_cubic_to :: "nat \<Rightarrow> int \<Rightarrow> int \<Rightarrow> int \<Rightarrow> int \<Rightarrow> int \<Rightarrow> int \<Rightarrow> canvas \<Rightarrow> canvas" where
  "path_cubic_to p cx1 cy1 cx2 cy2 x y c =
     (if p = 0 then c else snd (append_cmd p (PATH_CMD_CUBIC cx1 cy1 cx2 cy2 x y) c))"

definition path_close :: "nat \<Rightarrow> canvas \<Rightarrow> canvas" where
  "path_close p c = (if p = 0 then c else snd (append_cmd p PATH_CMD_CLOSE c))"

subsection \<open>Flattening\<close>

type_synonym point = "int \<times> int"

definition flat_ensure :: "point list \<Rightarrow> nat \<Rightarrow> bool" where
  "flat_ensure f need \<longleftrightarrow> length f + need \<le> PATH_MAX_VERT"

definition flat_emit :: "point \<Rightarrow> point list \<Rightarrow> point list" where
  "flat_emit v f = (if length f \<ge> PATH_MAX_VERT then f else f @ [v])"

text \<open>Midpoint as the source computes it, coordinate by coordinate.\<close>

definition mid :: "point \<Rightarrow> point \<Rightarrow> point" where
  "mid a b = (i32 (fst a + fst b) sdiv 2, i32 (snd a + snd b) sdiv 2)"

definition len2 :: "point \<Rightarrow> point \<Rightarrow> int" where
  "len2 a b = (let dx = i32 (fst b - fst a); dy = i32 (snd b - snd a) in i64 (dx * dx + dy * dy))"

text \<open>The cross product of \<open>p - a\<close> with the chord \<open>b - a\<close>, whose square over \<open>len2 a b\<close> is the squared distance of \<open>p\<close> from the chord.\<close>

definition cross :: "point \<Rightarrow> point \<Rightarrow> point \<Rightarrow> int" where
  "cross a b p =
     (let dx = i32 (fst b - fst a); dy = i32 (snd b - snd a)
      in i64 (i32 (fst p - fst a) * dy - i32 (snd p - snd a) * dx))"

definition near_chord :: "point \<Rightarrow> point \<Rightarrow> point \<Rightarrow> bool" where
  "near_chord a b p \<longleftrightarrow> i64 (cross a b p * cross a b p) \<le> i64 (36 * len2 a b)"

function cubic_flat :: "point \<Rightarrow> point \<Rightarrow> point \<Rightarrow> point \<Rightarrow> nat \<Rightarrow> point list \<Rightarrow> point list option" where
  "cubic_flat p0 p1 p2 p3 depth f =
     (if depth > 14 \<or> \<not> flat_ensure f 1 then Some (flat_emit p3 f)
      else if len2 p0 p3 < UNIT * UNIT then Some (flat_emit p3 f)
      else if near_chord p0 p3 p1 \<and> near_chord p0 p3 p2 then Some (flat_emit p3 f)
      else let p01 = mid p0 p1; p12 = mid p1 p2; p23 = mid p2 p3; p012 = mid p01 p12; p123 = mid p12 p23; p0123 = mid p012 p123
           in case cubic_flat p0 p01 p012 p0123 (Suc depth) f of
                None \<Rightarrow> None
              | Some f \<Rightarrow> cubic_flat p0123 p123 p23 p3 (Suc depth) f)"
  by pat_completeness auto
termination
  by (relation "measure (\<lambda>(p0, p1, p2, p3, depth, f). 15 - depth)") auto

function quad_flat :: "point \<Rightarrow> point \<Rightarrow> point \<Rightarrow> nat \<Rightarrow> point list \<Rightarrow> point list option" where
  "quad_flat p0 p1 p2 depth f =
     (if depth > 12 \<or> \<not> flat_ensure f 1 then Some (flat_emit p2 f)
      else if len2 p0 p2 < UNIT * UNIT then Some (flat_emit p2 f)
      else if near_chord p0 p2 p1 then Some (flat_emit p2 f)
      else let q01 = mid p0 p1; q12 = mid p1 p2; m = mid q01 q12
           in case quad_flat p0 q01 m (Suc depth) f of
                None \<Rightarrow> None
              | Some f \<Rightarrow> quad_flat m q12 p2 (Suc depth) f)"
  by pat_completeness auto
termination
  by (relation "measure (\<lambda>(p0, p1, p2, depth, f). 13 - depth)") auto

declare cubic_flat.simps [simp del] quad_flat.simps [simp del]

subsection \<open>Contours\<close>

definition unit_pt :: "int \<Rightarrow> int \<Rightarrow> point" where
  "unit_pt x y = (i32 (x * UNIT), i32 (y * UNIT))"

text \<open>What both collecting loops keep: the pen, the start of the subpath, whether there is one, and the vertices.\<close>

record trace =
  pen :: point
  sub0 :: point
  has_sub :: bool
  verts :: "point list"

definition curve_to :: "(point \<Rightarrow> point list \<Rightarrow> point list option) \<Rightarrow> point \<Rightarrow> trace \<Rightarrow> trace option" where
  "curve_to flat e t = (case flat (pen t) (verts t) of None \<Rightarrow> None | Some f \<Rightarrow> Some (t\<lparr>verts := f, pen := e\<rparr>))"

definition close_sub :: "trace \<Rightarrow> trace" where
  "close_sub t =
     (let t = (if has_sub t \<and> pen t \<noteq> sub0 t \<and> (verts t = [] \<or> last (verts t) \<noteq> sub0 t)
               then t\<lparr>verts := flat_emit (sub0 t) (verts t)\<rparr> else t)
      in t\<lparr>pen := sub0 t\<rparr>)"

text \<open>One command, apart from what a move does with the contour before it.\<close>

definition trace_cmd :: "path_cmd \<Rightarrow> trace \<Rightarrow> trace option" where
  "trace_cmd c t =
     (case c of
        PATH_CMD_MOVE x y \<Rightarrow>
          let q = unit_pt x y in Some (t\<lparr>pen := q, sub0 := q, has_sub := True, verts := flat_emit q (verts t)\<rparr>)
      | PATH_CMD_LINE x y \<Rightarrow> let q = unit_pt x y in Some (t\<lparr>pen := q, verts := flat_emit q (verts t)\<rparr>)
      | PATH_CMD_QUAD cx cy x y \<Rightarrow> curve_to (\<lambda>p. quad_flat p (unit_pt cx cy) (unit_pt x y) 0) (unit_pt x y) t
      | PATH_CMD_CUBIC a b c d x y \<Rightarrow>
          curve_to (\<lambda>p. cubic_flat p (unit_pt a b) (unit_pt c d) (unit_pt x y) 0) (unit_pt x y) t
      | PATH_CMD_CLOSE \<Rightarrow> Some (close_sub t))"

abbreviation trace0 :: trace where
  "trace0 \<equiv> \<lparr>pen = (0, 0), sub0 = (0, 0), has_sub = False, verts = []\<rparr>"

text \<open>\<open>cur\<close> is \<^verbatim>\<open>cur_start\<close>, \<open>cs\<close> are the pairs of \<^verbatim>\<open>cstart\<close> and \<^verbatim>\<open>cend\<close>; \<open>None\<close> is -1.\<close>

fun fill_loop :: "path_cmd list \<Rightarrow> trace \<Rightarrow> nat \<Rightarrow> (nat \<times> nat) list \<Rightarrow> (trace \<times> nat \<times> (nat \<times> nat) list) option" where
  "fill_loop [] t cur cs = Some (t, cur, cs)"
| "fill_loop (c # rest) t cur cs =
     (let nv = length (verts t);
          moved = (case c of
                     PATH_CMD_MOVE _ _ \<Rightarrow>
                       if has_sub t \<and> nv > cur
                       then if nv - cur < 3 \<or> length cs \<ge> PATH_MAX_CONTOUR then None else Some (nv, cs @ [(cur, nv)])
                       else Some (nv, cs)
                   | _ \<Rightarrow> Some (cur, cs))
      in case moved of
           None \<Rightarrow> None
         | Some (cur, cs) \<Rightarrow> (case trace_cmd c t of None \<Rightarrow> None | Some t \<Rightarrow> fill_loop rest t cur cs))"

definition build_contours_fill :: "path_cmd list \<Rightarrow> (point list \<times> (nat \<times> nat) list) option" where
  "build_contours_fill cmds =
     (case fill_loop cmds trace0 0 [] of
        None \<Rightarrow> None
      | Some (t, cur, cs) \<Rightarrow>
          let nv = length (verts t)
          in if has_sub t \<and> int nv - int cur \<ge> 3
             then if length cs \<ge> PATH_MAX_CONTOUR then None else Some (verts t, cs @ [(cur, nv)])
             else if cs = [] then None else Some (verts t, cs))"

text \<open>\<open>br\<close> are the start indices of the subpaths.\<close>

fun open_loop :: "nat \<Rightarrow> path_cmd list \<Rightarrow> trace \<Rightarrow> bool \<Rightarrow> nat list \<Rightarrow> (trace \<times> nat list) option" where
  "open_loop max_br [] t moved br = Some (t, br)"
| "open_loop max_br (c # rest) t moved br =
     (let nv = length (verts t);
          step = (case c of
                    PATH_CMD_MOVE _ _ \<Rightarrow>
                      if moved \<and> nv > 0 then if length br \<ge> max_br then None else Some (True, br @ [nv]) else Some (True, br)
                  | _ \<Rightarrow> Some (moved, br))
      in case step of
           None \<Rightarrow> None
         | Some (moved, br) \<Rightarrow> (case trace_cmd c t of None \<Rightarrow> None | Some t \<Rightarrow> open_loop max_br rest t moved br))"

definition build_open_polyline :: "nat \<Rightarrow> path_cmd list \<Rightarrow> (point list \<times> nat list) option" where
  "build_open_polyline max_br cmds =
     (if max_br < 1 then None
      else case open_loop max_br cmds trace0 False [0] of
        None \<Rightarrow> None
      | Some (t, br) \<Rightarrow> if length (verts t) \<ge> 2 then Some (verts t, br) else None)"

subsection \<open>Curves\<close>

definition in_square :: "int \<Rightarrow> point \<Rightarrow> bool" where
  "in_square B p \<longleftrightarrow> \<bar>fst p\<bar> \<le> B \<and> \<bar>snd p\<bar> \<le> B"

lemma in_square_mono: "in_square A p \<Longrightarrow> A \<le> B \<Longrightarrow> in_square B p"
  by (auto simp: in_square_def)

lemma sdiv_half: "x sdiv 2 = (if x \<ge> 0 then x div 2 else - (- x div 2))" for x :: int
  by (simp add: signed_divide_int_def sgn_if)

lemma mid_in_square:
  assumes "in_square B p" "in_square B q" "B \<le> 2 ^ 29"
  shows "in_square B (mid p q)"
proof -
  have half: "\<bar>i32 (x + y) sdiv 2\<bar> \<le> B" if "\<bar>x\<bar> \<le> B" "\<bar>y\<bar> \<le> B" for x y
  proof -
    have "i32 (x + y) = x + y" using that assms(3) by (intro i32_id) auto
    then show ?thesis using that by (auto simp: sdiv_half)
  qed
  show ?thesis using assms(1,2) by (simp add: in_square_def mid_def half)
qed

lemma flat_emit_length: "length f \<le> PATH_MAX_VERT \<Longrightarrow> length (flat_emit v f) \<le> PATH_MAX_VERT"
  by (simp add: flat_emit_def)

text \<open>What a flattened curve adds: points in the square of its control points, its end point last unless the buffer is full.\<close>

definition extends :: "(point \<Rightarrow> bool) \<Rightarrow> point \<Rightarrow> point list \<Rightarrow> point list \<Rightarrow> bool" where
  "extends P e f f' \<longleftrightarrow>
     (\<exists>g. f' = f @ g \<and> (\<forall>v\<in>set g. P v) \<and> (length f \<le> PATH_MAX_VERT \<longrightarrow> length f' \<le> PATH_MAX_VERT) \<and>
        (length f' < PATH_MAX_VERT \<longrightarrow> g \<noteq> [] \<and> last g = e))"

lemma extends_emit: "P v \<Longrightarrow> extends P v f (flat_emit v f)"
  by (auto simp: extends_def flat_emit_def)

lemma extends_trans:
  assumes "extends P d f f'" "extends P e f' f''"
  shows "extends P e f f''"
proof -
  obtain g h where "f' = f @ g" "f'' = f' @ h" "\<forall>v\<in>set g. P v" "\<forall>v\<in>set h. P v"
    "length f'' < PATH_MAX_VERT \<longrightarrow> h \<noteq> [] \<and> last h = e"
    "length f \<le> PATH_MAX_VERT \<longrightarrow> length f' \<le> PATH_MAX_VERT" "length f' \<le> PATH_MAX_VERT \<longrightarrow> length f'' \<le> PATH_MAX_VERT"
    using assms unfolding extends_def by blast
  then show ?thesis unfolding extends_def by (intro exI [of _ "g @ h"]) auto
qed

lemma quad_flat_extends:
  assumes "B \<le> 2 ^ 29" "in_square B p0" "in_square B p1" "in_square B p2"
  shows "\<exists>f'. quad_flat p0 p1 p2 depth f = Some f' \<and> extends (in_square B) p2 f f'"
  using assms
proof (induction p0 p1 p2 depth f rule: quad_flat.induct)
  case (1 p0 p1 p2 depth f)
  let ?stop = "depth > 12 \<or> \<not> flat_ensure f 1 \<or> len2 p0 p2 < UNIT * UNIT \<or> near_chord p0 p2 p1"
  let ?m = "mid (mid p0 p1) (mid p1 p2)"
  have w: "in_square B (mid p0 p1)" "in_square B (mid p1 p2)" "in_square B ?m" using "1.prems" by (simp_all add: mid_in_square)
  show ?case
  proof (cases ?stop)
    case True
    then have "quad_flat p0 p1 p2 depth f = Some (flat_emit p2 f)" by (auto simp: quad_flat.simps [of p0])
    then show ?thesis using extends_emit [of "in_square B" p2 f] "1.prems" by simp
  next
    case False
    then obtain f1 where f1: "quad_flat p0 (mid p0 p1) ?m (Suc depth) f = Some f1" "extends (in_square B) ?m f f1"
      using "1.IH"(1) [OF _ _ _ refl refl refl] "1.prems" w by blast
    then obtain f2 where f2: "quad_flat ?m (mid p1 p2) p2 (Suc depth) f1 = Some f2" "extends (in_square B) p2 f1 f2"
      using "1.IH"(2) [OF _ _ _ refl refl refl f1(1)] False "1.prems" w by blast
    have "quad_flat p0 p1 p2 depth f = Some f2"
      using False f1(1) f2(1) by (simp add: quad_flat.simps [of p0 p1 p2 depth f] Let_def)
    then show ?thesis using extends_trans [OF f1(2) f2(2)] by blast
  qed
qed

lemma cubic_flat_extends:
  assumes "B \<le> 2 ^ 29" "in_square B p0" "in_square B p1" "in_square B p2" "in_square B p3"
  shows "\<exists>f'. cubic_flat p0 p1 p2 p3 depth f = Some f' \<and> extends (in_square B) p3 f f'"
  using assms
proof (induction p0 p1 p2 p3 depth f rule: cubic_flat.induct)
  case (1 p0 p1 p2 p3 depth f)
  let ?stop = "depth > 14 \<or> \<not> flat_ensure f 1 \<or> len2 p0 p3 < UNIT * UNIT \<or> near_chord p0 p3 p1 \<and> near_chord p0 p3 p2"
  let ?p012 = "mid (mid p0 p1) (mid p1 p2)" and ?p123 = "mid (mid p1 p2) (mid p2 p3)"
  let ?m = "mid ?p012 ?p123"
  have w: "in_square B (mid p0 p1)" "in_square B (mid p2 p3)" "in_square B ?p012" "in_square B ?p123" "in_square B ?m"
    using "1.prems" by (simp_all add: mid_in_square)
  show ?case
  proof (cases ?stop)
    case True
    then have "cubic_flat p0 p1 p2 p3 depth f = Some (flat_emit p3 f)" by (auto simp: cubic_flat.simps [of p0])
    then show ?thesis using extends_emit [of "in_square B" p3 f] "1.prems" by simp
  next
    case False
    then obtain f1 where f1: "cubic_flat p0 (mid p0 p1) ?p012 ?m (Suc depth) f = Some f1" "extends (in_square B) ?m f f1"
      using "1.IH"(1) [OF _ _ _ refl refl refl refl refl refl] "1.prems" w by blast
    then obtain f2 where f2: "cubic_flat ?m ?p123 (mid p2 p3) p3 (Suc depth) f1 = Some f2" "extends (in_square B) p3 f1 f2"
      using "1.IH"(2) [OF _ _ _ refl refl refl refl refl refl f1(1)] False "1.prems" w by blast
    have "cubic_flat p0 p1 p2 p3 depth f = Some f2"
      using False f1(1) f2(1) by (auto simp: cubic_flat.simps [of p0 p1 p2 p3 depth f] Let_def)
    then show ?thesis using extends_trans [OF f1(2) f2(2)] by blast
  qed
qed

text \<open>The square of the cross product does not fit 64 bits: the bulge of a curve 4096 pixels wide is taken for flat.\<close>

lemma big_curve_is_chord: "quad_flat (0, 0) (32768, 65536) (65536, 0) 0 f = Some (flat_emit (65536, 0) f)"
  by (simp add: quad_flat.simps near_chord_def cross_def len2_def i64_def)


subsection \<open>Commands keep the vertices in range\<close>

text \<open>Coordinates of at most \<open>2 ^ 24\<close> pixels, whose sixteenths are far inside 32 bits.\<close>

abbreviation COORD_MAX :: int where "COORD_MAX \<equiv> 16777216"

fun cmd_small :: "path_cmd \<Rightarrow> bool" where
  "cmd_small (PATH_CMD_MOVE x y) \<longleftrightarrow> in_square COORD_MAX (x, y)"
| "cmd_small (PATH_CMD_LINE x y) \<longleftrightarrow> in_square COORD_MAX (x, y)"
| "cmd_small (PATH_CMD_QUAD a b x y) \<longleftrightarrow> in_square COORD_MAX (a, b) \<and> in_square COORD_MAX (x, y)"
| "cmd_small (PATH_CMD_CUBIC a b c d x y) \<longleftrightarrow> in_square COORD_MAX (a, b) \<and> in_square COORD_MAX (c, d) \<and> in_square COORD_MAX (x, y)"
| "cmd_small PATH_CMD_CLOSE \<longleftrightarrow> True"

abbreviation VERT_MAX :: int where "VERT_MAX \<equiv> 268435456"

definition trace_ok :: "trace \<Rightarrow> bool" where
  "trace_ok t \<longleftrightarrow> in_square VERT_MAX (pen t) \<and> in_square VERT_MAX (sub0 t) \<and> (\<forall>v\<in>set (verts t). in_square VERT_MAX v) \<and>
     length (verts t) \<le> PATH_MAX_VERT"

lemma unit_pt_exact: "in_square COORD_MAX (x, y) \<Longrightarrow> unit_pt x y = (x * 16, y * 16)"
  unfolding in_square_def unit_pt_def by (simp add: abs_le_iff)

lemma unit_pt_in_square: "in_square COORD_MAX (x, y) \<Longrightarrow> in_square VERT_MAX (unit_pt x y)"
  by (simp add: unit_pt_exact) (simp add: in_square_def abs_mult)

lemma trace_emit_ok:
  assumes "trace_ok t" "in_square VERT_MAX v"
  shows "trace_ok (t\<lparr>verts := flat_emit v (verts t)\<rparr>)"
proof -
  have "\<forall>u\<in>set (flat_emit v (verts t)). in_square VERT_MAX u" using assms by (simp add: flat_emit_def trace_ok_def)
  then show ?thesis using assms flat_emit_length [of "verts t" v] by (simp add: trace_ok_def)
qed

lemma emit_appends: "\<exists>g. flat_emit v f = f @ g"
  by (simp add: flat_emit_def)

lemma curve_to_ok:
  assumes "trace_ok t" "in_square VERT_MAX e" "\<exists>f'. flat (pen t) (verts t) = Some f' \<and> extends (in_square VERT_MAX) e (verts t) f'"
  shows "\<exists>t'. curve_to flat e t = Some t' \<and> trace_ok t' \<and> (\<exists>g. verts t' = verts t @ g) \<and> has_sub t' = has_sub t"
  using assms unfolding curve_to_def trace_ok_def extends_def by auto

lemma trace_cmd_ok:
  assumes "trace_ok t" "cmd_small c"
  shows "\<exists>t'. trace_cmd c t = Some t' \<and> trace_ok t' \<and> (\<exists>g. verts t' = verts t @ g) \<and>
    has_sub t' = (has_sub t \<or> (\<exists>x y. c = PATH_CMD_MOVE x y))"
proof (cases c)
  case (PATH_CMD_MOVE x y)
  then show ?thesis using assms
    using trace_emit_ok [OF assms(1), of "unit_pt x y"] by (simp add: trace_cmd_def Let_def trace_ok_def unit_pt_in_square emit_appends)
next
  case (PATH_CMD_LINE x y)
  then show ?thesis using assms
    using trace_emit_ok [OF assms(1), of "unit_pt x y"] by (simp add: trace_cmd_def Let_def trace_ok_def unit_pt_in_square emit_appends)
next
  case (PATH_CMD_QUAD a b x y)
  then have w: "in_square VERT_MAX (unit_pt a b)" "in_square VERT_MAX (unit_pt x y)" "in_square VERT_MAX (pen t)"
    using assms by (simp_all add: unit_pt_in_square trace_ok_def)
  show ?thesis
    using curve_to_ok [OF assms(1) w(2)] quad_flat_extends [OF _ w(3,1,2)] PATH_CMD_QUAD by (simp add: trace_cmd_def)
next
  case (PATH_CMD_CUBIC a b c d x y)
  then have w: "in_square VERT_MAX (unit_pt a b)" "in_square VERT_MAX (unit_pt c d)" "in_square VERT_MAX (unit_pt x y)" "in_square VERT_MAX (pen t)"
    using assms by (simp_all add: unit_pt_in_square trace_ok_def)
  show ?thesis
    using curve_to_ok [OF assms(1) w(3)] cubic_flat_extends [OF _ w(4,1,2,3)] PATH_CMD_CUBIC by (simp add: trace_cmd_def)
next
  case PATH_CMD_CLOSE
  then show ?thesis using assms
    using trace_emit_ok [OF assms(1), of "sub0 t"] by (simp add: trace_cmd_def close_sub_def Let_def trace_ok_def emit_appends)
qed


text \<open>A contour is a range of at least three vertices inside the buffer.\<close>

definition contour_ok :: "point list \<Rightarrow> nat \<times> nat \<Rightarrow> bool" where
  "contour_ok vs c \<longleftrightarrow> fst c + 3 \<le> snd c \<and> snd c \<le> length vs"

lemma contour_ok_append: "contour_ok vs c \<Longrightarrow> contour_ok (vs @ g) c"
  by (simp add: contour_ok_def)

definition contours_ok :: "trace \<Rightarrow> nat \<Rightarrow> (nat \<times> nat) list \<Rightarrow> bool" where
  "contours_ok t cur cs \<longleftrightarrow> trace_ok t \<and> cur \<le> length (verts t) \<and> (\<forall>c\<in>set cs. contour_ok (verts t) c) \<and> length cs \<le> PATH_MAX_CONTOUR"

lemma contours_ok_step:
  assumes "contours_ok t cur cs" "trace_ok t'" "verts t' = verts t @ g"
  shows "contours_ok t' cur cs"
  using assms contour_ok_append by (auto simp: contours_ok_def)

lemma fill_loop_ok:
  assumes "contours_ok t cur cs" "\<forall>c\<in>set cmds. cmd_small c" "fill_loop cmds t cur cs = Some (t', cur', cs')"
  shows "contours_ok t' cur' cs'"
  using assms
proof (induction cmds arbitrary: t cur cs)
  case (Cons c rest)
  let ?nv = "length (verts t)"
  have ok: "trace_ok t" using Cons.prems(1) by (simp add: contours_ok_def)
  obtain t1 g where t1: "trace_cmd c t = Some t1" "trace_ok t1" "verts t1 = verts t @ g"
    using trace_cmd_ok [OF ok, of c] Cons.prems(2) by auto
  have "\<exists>cur1 cs1. contours_ok t cur1 cs1 \<and> fill_loop rest t1 cur1 cs1 = Some (t', cur', cs')"
  proof (cases c)
    case (PATH_CMD_MOVE x y)
    show ?thesis
    proof (cases "has_sub t \<and> ?nv > cur")
      case True
      then have "contours_ok t ?nv (cs @ [(cur, ?nv)])" "fill_loop rest t1 ?nv (cs @ [(cur, ?nv)]) = Some (t', cur', cs')"
        using Cons.prems(1,3) PATH_CMD_MOVE t1(1) by (auto simp: contours_ok_def contour_ok_def Let_def split: if_splits)
      then show ?thesis by blast
    next
      case False
      then have "contours_ok t ?nv cs" "fill_loop rest t1 ?nv cs = Some (t', cur', cs')"
        using Cons.prems(1,3) PATH_CMD_MOVE t1(1) by (auto simp: contours_ok_def)
      then show ?thesis by blast
    qed
  qed (use Cons.prems t1(1) in auto)
  then obtain cur1 cs1 where n: "contours_ok t cur1 cs1" "fill_loop rest t1 cur1 cs1 = Some (t', cur', cs')" by blast
  show ?case by (rule Cons.IH [OF contours_ok_step [OF n(1) t1(2,3)] _ n(2)]) (use Cons.prems(2) in simp)
qed simp

lemma build_contours_ok:
  assumes "\<forall>c\<in>set cmds. cmd_small c" "build_contours_fill cmds = Some (vs, cs)"
  shows "length vs \<le> PATH_MAX_VERT" "\<forall>v\<in>set vs. in_square VERT_MAX v" "cs \<noteq> []" "length cs \<le> PATH_MAX_CONTOUR"
    "\<forall>c\<in>set cs. contour_ok vs c"
proof -
  obtain t cur cs0 where l: "fill_loop cmds trace0 0 [] = Some (t, cur, cs0)"
    and r: "(if has_sub t \<and> int (length (verts t)) - int cur \<ge> 3
             then if length cs0 \<ge> PATH_MAX_CONTOUR then None else Some (verts t, cs0 @ [(cur, length (verts t))])
             else if cs0 = [] then None else Some (verts t, cs0)) = Some (vs, cs)"
    using assms(2) by (auto simp: build_contours_fill_def Let_def split: option.splits)
  have "contours_ok t cur cs0" by (rule fill_loop_ok [OF _ assms(1) l]) (simp add: contours_ok_def trace_ok_def in_square_def)
  then show "length vs \<le> PATH_MAX_VERT" "\<forall>v\<in>set vs. in_square VERT_MAX v" "cs \<noteq> []" "length cs \<le> PATH_MAX_CONTOUR"
    "\<forall>c\<in>set cs. contour_ok vs c"
    using r by (auto simp: contours_ok_def trace_ok_def contour_ok_def split: if_splits)
qed


lemma open_loop_ok:
  assumes "trace_ok t" "\<forall>b\<in>set br. b \<le> length (verts t)" "\<forall>c\<in>set cmds. cmd_small c" "open_loop max_br cmds t moved br = Some (t', br')"
  shows "trace_ok t' \<and> (\<forall>b\<in>set br'. b \<le> length (verts t'))"
  using assms
proof (induction cmds arbitrary: t moved br)
  case (Cons c rest)
  obtain t1 g where t1: "trace_cmd c t = Some t1" "trace_ok t1" "verts t1 = verts t @ g"
    using trace_cmd_ok [OF Cons.prems(1), of c] Cons.prems(3) by auto
  obtain moved1 br1 where n: "open_loop max_br rest t1 moved1 br1 = Some (t', br')" "br1 = br \<or> br1 = br @ [length (verts t)]"
    using Cons.prems(4) t1(1) by (cases c) (auto simp: Let_def split: if_splits)
  have "\<forall>b\<in>set br1. b \<le> length (verts t1)" using n(2) Cons.prems(2) t1(3) by (auto intro: trans_le_add1)
  from Cons.IH [OF t1(2) this _ n(1)] show ?case using Cons.prems(3) by simp
qed simp

lemma build_open_ok:
  assumes "\<forall>c\<in>set cmds. cmd_small c" "build_open_polyline max_br cmds = Some (vs, br)"
  shows "length vs \<le> PATH_MAX_VERT" "\<forall>v\<in>set vs. in_square VERT_MAX v" "\<forall>b\<in>set br. b \<le> length vs"
proof -
  obtain t where l: "open_loop max_br cmds trace0 False [0] = Some (t, br)" and v: "vs = verts t"
    using assms(2) by (auto simp: build_open_polyline_def split: if_splits option.splits)
  have "trace_ok t \<and> (\<forall>b\<in>set br. b \<le> length (verts t))"
    by (rule open_loop_ok [OF _ _ assms(1) l]) (simp_all add: trace_ok_def in_square_def)
  then show "length vs \<le> PATH_MAX_VERT" "\<forall>v\<in>set vs. in_square VERT_MAX v" "\<forall>b\<in>set br. b \<le> length vs"
    by (auto simp: v trace_ok_def)
qed

end
