(* ===== verification/PathRaster.thy ===== *)
theory PathRaster
  imports Complex_Main Path
begin

text \<open>
  Rasterising paths, \<^verbatim>\<open>src/compositor/path_raster.c\<close>: winding numbers at sixteen samples of a pixel, coverage blending, filling and
  stroking.  The vertex buffer is allocated on the kernel heap and freed on every way out; the vertices themselves are the
  list of \<open>Path\<close>.  \<open>mul8\<close> is the function of \<open>Pixel\<close>, which this source repeats.
\<close>

subsection \<open>Winding numbers\<close>

definition winding_edge :: "int \<Rightarrow> int \<Rightarrow> point \<Rightarrow> point \<Rightarrow> int" where
  "winding_edge px py a b =
     (let x0 = fst a; y0 = snd a; x1 = fst b; y1 = snd b; den = y1 - y0
      in if den = 0 then 0
         else if (y0 > py) = (y1 > py) then 0
         else let num = i64 (x0 * (y1 - y0) + (x1 - x0) * (py - y0));
                  (den, num) = (if den < 0 then (- den, i64 (- num)) else (den, num))
              in if num > i64 (px * den) then (if y1 > y0 then 1 else -1) else 0)"

definition winding_at :: "int \<Rightarrow> int \<Rightarrow> point list \<Rightarrow> int" where
  "winding_at px py vs =
     (let n = length vs
      in if n < 2 then 0 else (\<Sum>i\<leftarrow>[0..<n]. winding_edge px py (vs ! i) (vs ! ((i + 1) mod n))))"

subsection \<open>Blending\<close>

definition blend_over_px :: "u32 \<Rightarrow> u32 \<Rightarrow> u32 \<Rightarrow> u32" where
  "blend_over_px dv sargb sa =
     (if sa = 0 then dv
      else let sr = drop_bit 16 sargb AND 0xff; sg = drop_bit 8 sargb AND 0xff; sb = sargb AND 0xff;
               da = drop_bit 24 dv AND 0xff; dr = drop_bit 16 dv AND 0xff; dg = drop_bit 8 dv AND 0xff; db = dv AND 0xff
           in if da = 0 \<and> sa = 255 then push_bit 24 sa OR push_bit 16 sr OR push_bit 8 sg OR sb
              else let inv = 255 - sa;
                       r = mul8 sr sa + mul8 dr inv; g = mul8 sg sa + mul8 dg inv; b = mul8 sb sa + mul8 db inv;
                       outa = sa + mul8 da inv;
                       r = (if r > 255 then 255 else r); g = (if g > 255 then 255 else g); b = (if b > 255 then 255 else b);
                       outa = (if outa > 255 then 255 else outa)
                   in push_bit 24 outa OR push_bit 16 r OR push_bit 8 g OR b)"

subsection \<open>Filling\<close>

definition contour :: "point list \<Rightarrow> nat \<times> nat \<Rightarrow> point list" where
  "contour vs c = take (snd c - fst c) (drop (fst c) vs)"

definition winding_sum :: "point list \<Rightarrow> (nat \<times> nat) list \<Rightarrow> int \<Rightarrow> int \<Rightarrow> int" where
  "winding_sum vs cs px py = (\<Sum>c\<leftarrow>cs. winding_at px py (contour vs c))"

definition sample_hits :: "point list \<Rightarrow> (nat \<times> nat) list \<Rightarrow> int \<Rightarrow> int \<Rightarrow> nat" where
  "sample_hits vs cs ox oy =
     length (filter (\<lambda>(sy, sx). winding_sum vs cs (ox * UNIT + sx * 4 + 2) (oy * UNIT + sy * 4 + 2) \<noteq> 0)
       (List.product [0..3] [0..3]))"

text \<open>The body of the two loops over pixels.\<close>

definition cover_px :: "point list \<Rightarrow> (nat \<times> nat) list \<Rightarrow> u32 \<Rightarrow> int \<Rightarrow> int \<Rightarrow> u32 \<Rightarrow> u32" where
  "cover_px vs cs argb ox oy d =
     (let hits = sample_hits vs cs ox oy
      in if hits = 0 then d else blend_over_px d ((argb AND 0x00ffffff) OR 0xff000000) (of_nat ((hits * 255 + 8) div 16)))"

definition paint_at :: "point list \<Rightarrow> (nat \<times> nat) list \<Rightarrow> u32 \<Rightarrow> nat \<Rightarrow> int \<times> int \<Rightarrow> u32 list \<Rightarrow> u32 list" where
  "paint_at vs cs argb w k px =
     (let i = nat (fst k) * w + nat (snd k) in px[i := cover_px vs cs argb (snd k) (fst k) (px ! i)])"

definition clip_box :: "int \<Rightarrow> int \<Rightarrow> int \<times> int \<times> int \<times> int \<Rightarrow> int \<times> int \<times> int \<times> int" where
  "clip_box w h box =
     (let (minx, miny, maxx, maxy) = box
      in (if minx < 0 then 0 else minx, if miny < 0 then 0 else miny, if maxx \<ge> w then w - 1 else maxx,
          if maxy \<ge> h then h - 1 else maxy))"

definition fill_winding_ssaa :: "point list \<Rightarrow> (nat \<times> nat) list \<Rightarrow> int \<times> int \<times> int \<times> int \<Rightarrow> u32 \<Rightarrow> surface \<Rightarrow> surface" where
  "fill_winding_ssaa vs cs box argb s =
     (let (minx, miny, maxx, maxy) = clip_box (sint (s_width s)) (sint (s_height s)) box
      in if maxx < minx \<or> maxy < miny then s
         else s\<lparr>s_pixels := fold (paint_at vs cs argb (unat (s_width s))) (List.product [miny..maxy] [minx..maxx]) (s_pixels s)\<rparr>)"

definition grow_box :: "point \<Rightarrow> int \<times> int \<times> int \<times> int \<Rightarrow> int \<times> int \<times> int \<times> int" where
  "grow_box v box =
     (let x = fst v sdiv UNIT; y = snd v sdiv UNIT; (mnX, mnY, mxX, mxY) = box
      in (if x < mnX then x else mnX, if y < mnY then y else mnY, if x > mxX then x else mxX, if y > mxY then y else mxY))"

definition margin_box :: "int \<times> int \<times> int \<times> int \<Rightarrow> int \<times> int \<times> int \<times> int" where
  "margin_box box = (let (mnX, mnY, mxX, mxY) = box in (mnX - 2, mnY - 2, mxX + 2, mxY + 2))"

definition bbox_contours :: "point list \<Rightarrow> (nat \<times> nat) list \<Rightarrow> int \<times> int \<times> int \<times> int" where
  "bbox_contours vs cs =
     (let pts = concat (map (contour vs) cs)
      in if pts = [] then (0, 0, 0, 0)
         else margin_box (fold grow_box pts (2 ^ 31 - 1, 2 ^ 31 - 1, - (2 ^ 31), - (2 ^ 31))))"

abbreviation VERT_BYTES :: nat where "VERT_BYTES \<equiv> 4 * PATH_MAX_VERT * 2"

definition set_heap :: "heap \<Rightarrow> canvas \<Rightarrow> canvas" where
  "set_heap h c = c\<lparr>cgfx := (cgfx c)\<lparr>gheap := h\<rparr>\<rparr>"

definition on_gfx :: "(gfx \<Rightarrow> gfx) \<Rightarrow> canvas \<Rightarrow> canvas" where
  "on_gfx f c = c\<lparr>cgfx := f (cgfx c)\<rparr>"

text \<open>Both drawing operations between \<^verbatim>\<open>kmalloc\<close> and \<^verbatim>\<open>kfree\<close> of the vertex buffer: \<open>draw\<close> is \<open>None\<close> where the source returns -1.\<close>

definition with_vertices :: "nat \<Rightarrow> (surface \<Rightarrow> surface) option \<Rightarrow> nat \<Rightarrow> canvas \<Rightarrow> (int \<times> canvas) result option" where
  "with_vertices pml4 draw s c =
     (case kmalloc pml4 VERT_BYTES (gheap (cgfx c)) of
        None \<Rightarrow> None
      | Some (Inl e) \<Rightarrow> Some (Inl e)
      | Some (Inr (vx, h)) \<Rightarrow>
          if vx = 0 then Some (Inr (-1, set_heap h c))
          else let c1 = (case draw of None \<Rightarrow> c | Some f \<Rightarrow> on_gfx (with_surface s f) c)
               in case kfree vx h of
                    None \<Rightarrow> None
                  | Some (Inl e) \<Rightarrow> Some (Inl e)
                  | Some (Inr h) \<Rightarrow>
                      (case draw of
                         None \<Rightarrow> Some (Inr (-1, set_heap h c1))
                       | Some f \<Rightarrow> Some (Inr (0, on_gfx (surface_mark_dirty s) (set_heap h c1)))))"


subsection \<open>Stroking\<close>

function newton :: "nat \<Rightarrow> nat \<Rightarrow> nat" where
  "newton n r = (let nr = (r + n div r) div 2 in if nr \<ge> r then r else newton n nr)"
  by pat_completeness auto
termination
  by (relation "measure snd") auto

declare newton.simps [simp del]

definition isqrt64 :: "int \<Rightarrow> int" where
  "isqrt64 n = (if n \<le> 0 then 0 else i32 (int (newton (nat n) (nat n))))"

definition fill_quad :: "point list \<Rightarrow> u32 \<Rightarrow> surface \<Rightarrow> surface" where
  "fill_quad q argb =
     (let first = (fst (q ! 0) sdiv UNIT, snd (q ! 0) sdiv UNIT)
      in fill_winding_ssaa q [(0, 4)]
           (margin_box (fold grow_box (tl q) (fst first, snd first, fst first, snd first))) argb)"

definition stroke_quad :: "int \<Rightarrow> point \<Rightarrow> point \<Rightarrow> point list" where
  "stroke_quad half a b =
     (let dx = i32 (fst b - fst a); dy = i32 (snd b - snd a);
          ilen = isqrt64 (len2 a b); ilen = (if ilen < 1 then 1 else ilen);
          px = i32 (i64 (i32 (- dy) * half) sdiv ilen); py = i32 (i64 (dx * half) sdiv ilen)
      in [(i32 (fst a + px), i32 (snd a + py)), (i32 (fst a - px), i32 (snd a - py)),
          (i32 (fst b - px), i32 (snd b - py)), (i32 (fst b + px), i32 (snd b + py))])"

definition stroke_segment :: "int \<Rightarrow> u32 \<Rightarrow> point \<Rightarrow> point \<Rightarrow> surface \<Rightarrow> surface" where
  "stroke_segment half argb a b s = (if len2 a b = 0 then s else fill_quad (stroke_quad half a b) argb s)"

definition half_width :: "int \<Rightarrow> int" where
  "half_width width = (let half = i32 (width * UNIT) sdiv 2 in if half < UNIT div 4 then UNIT div 4 else half)"

text \<open>The indices \<^verbatim>\<open>i\<close> of the segments, subpath by subpath.\<close>

definition segments :: "nat \<Rightarrow> nat list \<Rightarrow> nat list" where
  "segments nv br =
     concat (map (\<lambda>k. let seg0 = br ! k; seg1 = (if k + 1 < length br then br ! (k + 1) else nv)
                      in if int seg1 - int seg0 < 2 then [] else [seg0..<seg1 - 1]) [0..<length br])"

definition stroke_all :: "int \<Rightarrow> u32 \<Rightarrow> point list \<Rightarrow> nat list \<Rightarrow> surface \<Rightarrow> surface" where
  "stroke_all half argb vs br = fold (\<lambda>i. stroke_segment half argb (vs ! i) (vs ! (i + 1))) (segments (length vs) br)"

definition path_stroke_surface :: "nat \<Rightarrow> nat \<Rightarrow> nat \<Rightarrow> int \<Rightarrow> u32 \<Rightarrow> canvas \<Rightarrow> (int \<times> canvas) result option" where
  "path_stroke_surface pml4 s p width argb c =
     (if s = 0 \<or> p = 0 \<or> s_pixels_ptr (surf (cgfx c) s) = 0 \<or> width < 1 then Some (Inr (-1, c))
      else with_vertices pml4
             (map_option (\<lambda>(vs, br). stroke_all (half_width width) argb vs br) (build_open_polyline 64 (cpath c p))) s c)"

subsection \<open>Winding numbers in the plane\<close>

text \<open>Vertices up to this bound keep every product of the rasteriser inside 64 bits.\<close>

abbreviation RASTER_MAX :: int where "RASTER_MAX \<equiv> 536870912"

abbreviation above :: "int \<Rightarrow> point \<Rightarrow> int" where
  "above py v \<equiv> (if snd v > py then 1 else 0)"

text \<open>An edge counts when it crosses the line through the sample, on the right of it; without overflow the comparison is exact.\<close>

definition crosses_right :: "int \<Rightarrow> int \<Rightarrow> point \<Rightarrow> point \<Rightarrow> bool" where
  "crosses_right px py a b \<longleftrightarrow>
     real_of_int px < real_of_int (fst a) + real_of_int ((fst b - fst a) * (py - snd a)) / real_of_int (snd b - snd a)"

lemma edge_num_bound:
  fixes x0 y0 x1 y1 py B :: int
  assumes "\<bar>x0\<bar> \<le> B" "\<bar>y0\<bar> \<le> B" "\<bar>x1\<bar> \<le> B" "\<bar>y1\<bar> \<le> B" "\<bar>py\<bar> \<le> B"
  shows "\<bar>x0 * (y1 - y0) + (x1 - x0) * (py - y0)\<bar> \<le> 6 * (B * B)" "\<bar>py * (y1 - y0)\<bar> \<le> 6 * (B * B)"
proof -
  have B: "0 \<le> B" using assms(1) by simp
  have "\<bar>x0 * (y1 - y0)\<bar> \<le> B * (2 * B)" unfolding abs_mult using assms B by (intro mult_mono) auto
  moreover have "\<bar>(x1 - x0) * (py - y0)\<bar> \<le> (2 * B) * (2 * B)" unfolding abs_mult using assms B by (intro mult_mono) auto
  ultimately show "\<bar>x0 * (y1 - y0) + (x1 - x0) * (py - y0)\<bar> \<le> 6 * (B * B)" by linarith
  have "\<bar>py * (y1 - y0)\<bar> \<le> B * (2 * B)" unfolding abs_mult using assms B by (intro mult_mono) auto
  then show "\<bar>py * (y1 - y0)\<bar> \<le> 6 * (B * B)" using B by simp
qed

lemma winding_edge_exact:
  assumes "in_square RASTER_MAX a" "in_square RASTER_MAX b" "in_square RASTER_MAX (px, py)"
  shows "winding_edge px py a b = (if crosses_right px py a b then above py b - above py a else 0)"
proof -
  obtain x0 y0 x1 y1 where ab: "a = (x0, y0)" "b = (x1, y1)" by (cases a, cases b)
  define D N where "D = y1 - y0" and "N = x0 * D + (x1 - x0) * (py - y0)"
  have c: "\<bar>x0\<bar> \<le> RASTER_MAX" "\<bar>y0\<bar> \<le> RASTER_MAX" "\<bar>x1\<bar> \<le> RASTER_MAX" "\<bar>y1\<bar> \<le> RASTER_MAX" "\<bar>py\<bar> \<le> RASTER_MAX" "\<bar>px\<bar> \<le> RASTER_MAX"
    using assms by (simp_all add: in_square_def ab)
  have N: "\<bar>N\<bar> \<le> 6 * (RASTER_MAX * RASTER_MAX)" "\<bar>px * D\<bar> \<le> 6 * (RASTER_MAX * RASTER_MAX)"
    using edge_num_bound [OF c(1,2,3,4,5)] edge_num_bound(2) [OF c(1,2,3,4,6)] by (simp_all add: N_def D_def)
  then have i: "i64 N = N" "i64 (- N) = - N" "i64 (px * D) = px * D" "i64 (px * - D) = px * - D"
    by (auto intro!: i64_id)
  have D0: "winding_edge px py a b = 0" if "(y0 > py) = (y1 > py)" using that by (simp add: winding_edge_def ab Let_def)
  consider "(y0 > py) = (y1 > py)" | (up) "y0 \<le> py" "py < y1" | (down) "y1 \<le> py" "py < y0" by linarith
  then show ?thesis
  proof cases
    case up
    then have "crosses_right px py a b \<longleftrightarrow> px * D < N"
      by (simp add: crosses_right_def ab D_def N_def field_simps flip: of_int_add of_int_mult of_int_diff)
    then show ?thesis using up i by (simp add: winding_edge_def ab Let_def flip: D_def N_def) (simp add: D_def)
  next
    case down
    then have "crosses_right px py a b \<longleftrightarrow> px * - D < - N"
      by (simp add: crosses_right_def ab D_def N_def field_simps flip: of_int_add of_int_mult of_int_diff)
    then show ?thesis using down i by (simp add: winding_edge_def ab Let_def flip: D_def N_def) (simp add: D_def)
  qed (use D0 ab in auto)
qed


definition edge_turn :: "int \<Rightarrow> int \<Rightarrow> point \<Rightarrow> point \<Rightarrow> int" where
  "edge_turn px py a b = (if crosses_right px py a b then above py b - above py a else 0)"

text \<open>The winding number of a polygon around a point: signed crossings of the ray to the right.\<close>

definition winding_number :: "int \<Rightarrow> int \<Rightarrow> point list \<Rightarrow> int" where
  "winding_number px py vs = (\<Sum>i<length vs. edge_turn px py (vs ! i) (vs ! (Suc i mod length vs)))"

lemma next_mem: "i < length vs \<Longrightarrow> vs ! (Suc i mod length vs) \<in> set vs"
  by (rule nth_mem, rule mod_less_divisor) auto

lemma winding_at_exact:
  assumes "\<forall>v\<in>set vs. in_square RASTER_MAX v" "in_square RASTER_MAX (px, py)"
  shows "winding_at px py vs = winding_number px py vs"
proof (cases "length vs < 2")
  case True
  then have "vs = [] \<or> (\<exists>v. vs = [v])" by (cases vs; cases "tl vs") auto
  then show ?thesis by (elim disjE exE) (simp_all add: winding_at_def winding_number_def edge_turn_def)
next
  case False
  have "winding_edge px py (vs ! i) (vs ! (Suc i mod length vs)) = edge_turn px py (vs ! i) (vs ! (Suc i mod length vs))"
    if "i < length vs" for i
    unfolding edge_turn_def using that assms by (intro winding_edge_exact) (simp_all add: next_mem)
  then show ?thesis
    using False by (simp add: winding_at_def winding_number_def interv_sum_list_conv_sum_set_nat atLeast0LessThan Let_def)
qed

lemma cyclic_sum: "(\<Sum>i<n. g (Suc i mod n) - g i) = (0 :: int)"
proof (cases n)
  case (Suc m)
  have "(\<Sum>i<Suc m. g (Suc i mod Suc m)) = (\<Sum>i<m. g (Suc i)) + g 0" by simp
  also have "\<dots> = (\<Sum>i<Suc m. g i)" by (simp add: sum.lessThan_Suc_shift del: sum.lessThan_Suc)
  finally show ?thesis by (simp add: Suc sum_subtractf)
qed simp

lemma crossing_between:
  assumes "(snd a > py) \<noteq> (snd b > py)"
  shows "fst a > px \<Longrightarrow> fst b > px \<Longrightarrow> crosses_right px py a b"
    "fst a \<le> px \<Longrightarrow> fst b \<le> px \<Longrightarrow> \<not> crosses_right px py a b"
proof -
  define t where "t = real_of_int (py - snd a) / real_of_int (snd b - snd a)"
  have t: "0 \<le> t" "t \<le> 1" using assms by (auto simp: t_def divide_simps)
  have X: "crosses_right px py a b \<longleftrightarrow> real_of_int px < (1 - t) * real_of_int (fst a) + t * real_of_int (fst b)"
  proof -
    have "real_of_int ((fst b - fst a) * (py - snd a)) / real_of_int (snd b - snd a) = (real_of_int (fst b) - real_of_int (fst a)) * t"
      by (simp add: t_def)
    then show ?thesis unfolding crosses_right_def by (simp only:) (simp add: algebra_simps)
  qed
  show "crosses_right px py a b" if "fst a > px" "fst b > px"
  proof -
    have "real_of_int (px + 1) \<le> (1 - t) * real_of_int (fst a) + t * real_of_int (fst b)"
      using convex_bound_le [of "- real_of_int (fst a)" "- real_of_int (px + 1)" "- real_of_int (fst b)" "1 - t" t] that t by simp
    then show ?thesis by (simp add: X)
  qed
  show "\<not> crosses_right px py a b" if "fst a \<le> px" "fst b \<le> px"
    using convex_bound_le [of "real_of_int (fst a)" "real_of_int px" "real_of_int (fst b)" "1 - t" t] that t by (simp add: X not_less)
qed

text \<open>A polygon does not wind around a point on the far side of all its vertices.\<close>

lemma winding_outside:
  assumes "(\<forall>v\<in>set vs. fst v > px) \<or> (\<forall>v\<in>set vs. fst v \<le> px) \<or> (\<forall>v\<in>set vs. snd v > py) \<or> (\<forall>v\<in>set vs. snd v \<le> py)"
  shows "winding_number px py vs = 0"
proof -
  let ?n = "length vs" and ?e = "\<lambda>i. edge_turn px py (vs ! i) (vs ! (Suc i mod length vs))"
  have v: "vs ! i \<in> set vs" "vs ! (Suc i mod ?n) \<in> set vs" if "i < ?n" for i
    using that next_mem by simp_all
  show ?thesis
  proof (cases "\<forall>v\<in>set vs. fst v > px")
    case True
    have "?e i = above py (vs ! (Suc i mod ?n)) - above py (vs ! i)" if "i < ?n" for i
      using crossing_between(1) [of py "vs ! i" "vs ! (Suc i mod ?n)" px] v [OF that] True by (auto simp: edge_turn_def)
    then show ?thesis using cyclic_sum [of "\<lambda>i. above py (vs ! i)" ?n] by (simp add: winding_number_def)
  next
    case False
    have "?e i = 0" if "i < ?n" for i
      using crossing_between(2) [of py "vs ! i" "vs ! (Suc i mod ?n)" px] v [OF that] assms False by (auto simp: edge_turn_def)
    then show ?thesis by (simp add: winding_number_def)
  qed
qed


subsection \<open>The bounding box misses no sample\<close>

definition in_box :: "int \<times> int \<times> int \<times> int \<Rightarrow> point \<Rightarrow> bool" where
  "in_box box v =
     (let (mnX, mnY, mxX, mxY) = box; x = fst v sdiv UNIT; y = snd v sdiv UNIT in mnX \<le> x \<and> x \<le> mxX \<and> mnY \<le> y \<and> y \<le> mxY)"

lemma grow_box_in: "in_box (grow_box v box) v" "in_box box u \<Longrightarrow> in_box (grow_box v box) u"
  by (auto simp: in_box_def grow_box_def Let_def split: prod.splits if_splits)

lemma fold_grow_box_in: "v \<in> set pts \<or> in_box box v \<Longrightarrow> in_box (fold grow_box pts box) v"
proof (induction pts arbitrary: box)
  case (Cons u pts)
  have "v \<in> set pts \<or> in_box (grow_box u box) v" using Cons.prems by (auto intro: grow_box_in)
  from Cons.IH [OF this] show ?case by simp
qed simp

lemma sdiv_unit: "m \<le> x sdiv 16 \<Longrightarrow> 16 * m - 15 \<le> x" "x sdiv 16 \<le> m \<Longrightarrow> x \<le> 16 * m + 15" for x :: int
  by (simp_all add: signed_divide_int_def sgn_if split: if_splits)

lemma box_misses:
  assumes "\<not> (minx \<le> ox \<and> ox \<le> maxx \<and> miny \<le> oy \<and> oy \<le> maxy)" "margin_box box = (minx, miny, maxx, maxy)"
    and "\<forall>v\<in>set vs. in_box box v" "0 \<le> sx" "sx \<le> 3" "0 \<le> sy" "sy \<le> 3"
  shows "winding_number (ox * UNIT + sx * 4 + 2) (oy * UNIT + sy * 4 + 2) vs = 0"
proof (rule winding_outside)
  obtain a b c d where box: "box = (a, b, c, d)" by (cases box)
  have m: "minx = a - 2" "miny = b - 2" "maxx = c + 2" "maxy = d + 2" using assms(2) by (simp_all add: margin_box_def box)
  have v: "16 * a - 15 \<le> fst v" "fst v \<le> 16 * c + 15" "16 * b - 15 \<le> snd v" "snd v \<le> 16 * d + 15" if "v \<in> set vs" for v
    using assms(3) that sdiv_unit(1) [of _ "fst v"] sdiv_unit(2) [of "fst v"] sdiv_unit(1) [of _ "snd v"] sdiv_unit(2) [of "snd v"]
    by (auto simp: in_box_def box Let_def)
  consider "ox < a - 2" | "ox > c + 2" | "oy < b - 2" | "oy > d + 2" using assms(1) m by linarith
  then show "(\<forall>v\<in>set vs. fst v > ox * UNIT + sx * 4 + 2) \<or> (\<forall>v\<in>set vs. fst v \<le> ox * UNIT + sx * 4 + 2) \<or>
    (\<forall>v\<in>set vs. snd v > oy * UNIT + sy * 4 + 2) \<or> (\<forall>v\<in>set vs. snd v \<le> oy * UNIT + sy * 4 + 2)"
    by cases (use v assms(4-7) in \<open>force+\<close>)
qed


lemma sample_hits_outside:
  assumes "\<not> (minx \<le> ox \<and> ox \<le> maxx \<and> miny \<le> oy \<and> oy \<le> maxy)" "margin_box box = (minx, miny, maxx, maxy)"
    and "\<forall>c\<in>set cs. \<forall>v\<in>set (contour vs c). in_box box v \<and> in_square RASTER_MAX v" "in_square 16384 (ox, oy)"
  shows "sample_hits vs cs ox oy = 0"
proof -
  have "winding_sum vs cs (ox * UNIT + sx * 4 + 2) (oy * UNIT + sy * 4 + 2) = 0" if "sx \<in> {0..3}" "sy \<in> {0..3}" for sx sy
  proof -
    have p: "in_square RASTER_MAX (ox * UNIT + sx * 4 + 2, oy * UNIT + sy * 4 + 2)"
      using assms(4) that by (auto simp: in_square_def abs_le_iff)
    have "winding_at (ox * UNIT + sx * 4 + 2) (oy * UNIT + sy * 4 + 2) (contour vs c) = 0" if c: "c \<in> set cs" for c
      using winding_at_exact [OF _ p, of "contour vs c"] box_misses [OF assms(1,2), of "contour vs c" sx sy] assms(3) c
        \<open>sx \<in> {0..3}\<close> \<open>sy \<in> {0..3}\<close> by simp
    then have "map (\<lambda>c. winding_at (ox * UNIT + sx * 4 + 2) (oy * UNIT + sy * 4 + 2) (contour vs c)) cs = map (\<lambda>c. 0) cs"
      by (rule map_cong [OF refl])
    then show ?thesis unfolding winding_sum_def by (simp only: sum_list_0)
  qed
  then have "filter (\<lambda>(sy, sx). winding_sum vs cs (ox * UNIT + sx * 4 + 2) (oy * UNIT + sy * 4 + 2) \<noteq> 0)
      (List.product [0..3] [0..3]) = []"
    by (auto simp: filter_empty_conv)
  then show ?thesis by (simp add: sample_hits_def)
qed

lemma cover_px_outside: "sample_hits vs cs ox oy = 0 \<Longrightarrow> cover_px vs cs argb ox oy d = d"
  by (simp add: cover_px_def)

text \<open>A loop that rewrites each of several distinct places once.\<close>

lemma fold_update_nth:
  assumes "distinct ks" "inj_on idx (set ks)" "\<forall>k\<in>set ks. idx k < length xs"
  shows "length (fold (\<lambda>k xs. xs[idx k := F k (xs ! idx k)]) ks xs) = length xs \<and>
    (\<forall>k\<in>set ks. fold (\<lambda>k xs. xs[idx k := F k (xs ! idx k)]) ks xs ! idx k = F k (xs ! idx k)) \<and>
    (\<forall>j. j \<notin> idx ` set ks \<longrightarrow> fold (\<lambda>k xs. xs[idx k := F k (xs ! idx k)]) ks xs ! j = xs ! j)"
  using assms
proof (induction ks arbitrary: xs)
  case (Cons a ks)
  let ?xs = "xs[idx a := F a (xs ! idx a)]"
  have "distinct ks" "inj_on idx (set ks)" "\<forall>k\<in>set ks. idx k < length ?xs" using Cons.prems by auto
  note IH = Cons.IH [OF this]
  have a: "idx a \<notin> idx ` set ks" "idx a < length xs" using Cons.prems by (auto simp: inj_on_def)
  then have ne: "\<forall>k\<in>set ks. idx a \<noteq> idx k" by auto
  show ?case
  proof (intro conjI ballI allI impI)
    fix k assume "k \<in> set (a # ks)"
    then show "fold (\<lambda>k xs. xs[idx k := F k (xs ! idx k)]) (a # ks) xs ! idx k = F k (xs ! idx k)"
      using IH a ne by auto
  next
    fix j assume "j \<notin> idx ` set (a # ks)"
    then show "fold (\<lambda>k xs. xs[idx k := F k (xs ! idx k)]) (a # ks) xs ! j = xs ! j" using IH by auto
  qed (use IH in simp)
qed simp

definition pixel_index :: "nat \<Rightarrow> int \<times> int \<Rightarrow> nat" where
  "pixel_index w k = nat (fst k) * w + nat (snd k)"

lemma pixel_index_inj: "inj_on (pixel_index w) {k. 0 \<le> fst k \<and> 0 \<le> snd k \<and> snd k < int w}"
proof (rule inj_onI)
  fix k l assume k: "k \<in> {k. 0 \<le> fst k \<and> 0 \<le> snd k \<and> snd k < int w}" and l: "l \<in> {k. 0 \<le> fst k \<and> 0 \<le> snd k \<and> snd k < int w}"
    and eq: "pixel_index w k = pixel_index w l"
  have "nat (fst k) = nat (fst l) \<and> nat (snd k) = nat (snd l)"
    using k l eq by (intro row_index_unique [of 0 _ w _ _ _ w]) (auto simp: pixel_index_def)
  with k l show "k = l" by (simp add: prod_eq_iff nat_eq_iff)
qed

lemma pixel_index_less:
  assumes "0 \<le> fst k" "fst k < int h" "0 \<le> snd k" "snd k < int w"
  shows "pixel_index w k < w * h"
proof -
  have "nat (fst k) + 1 \<le> h" using assms by linarith
  then have "(nat (fst k) + 1) * w \<le> h * w" by (rule mult_le_mono1)
  moreover have "nat (snd k) < w" using assms by linarith
  ultimately show ?thesis by (simp add: pixel_index_def mult.commute)
qed

text \<open>Filling within the box is filling the whole surface, pixel by pixel.\<close>

lemma fill_pixel:
  assumes s: "surf_ok s" and xy: "x < unat (s_width s)" "y < unat (s_height s)"
    and cs: "\<forall>c\<in>set cs. \<forall>v\<in>set (contour vs c). in_box box v \<and> in_square RASTER_MAX v"
  shows "s_pixels (fill_winding_ssaa vs cs (margin_box box) argb s) ! (y * unat (s_width s) + x) =
    cover_px vs cs argb (int x) (int y) (s_pixels s ! (y * unat (s_width s) + x))"
proof -
  let ?w = "unat (s_width s)" and ?h = "unat (s_height s)" and ?k = "(int y, int x)"
  obtain minx miny maxx maxy where box: "margin_box box = (minx, miny, maxx, maxy)" by (cases "margin_box box")
  obtain ax ay bx yb where clip: "clip_box (int ?w) (int ?h) (minx, miny, maxx, maxy) = (ax, ay, bx, yb)"
    by (cases "clip_box (int ?w) (int ?h) (minx, miny, maxx, maxy)")
  have wh: "?w \<le> 16384" "?h \<le> 16384" "length (s_pixels s) = ?w * ?h" using s by (simp_all add: surf_ok_def word_le_nat_alt)
  have sw: "sint (s_width s) = int ?w" "sint (s_height s) = int ?h" by (rule sint_small, use wh in simp)+
  let ?ks = "List.product [ay..yb] [ax..bx]"
  let ?fold = "fold (\<lambda>k xs. xs[pixel_index ?w k := cover_px vs cs argb (snd k) (fst k) (xs ! pixel_index ?w k)]) ?ks (s_pixels s)"
  have px: "s_pixels (fill_winding_ssaa vs cs (margin_box box) argb s) = (if bx < ax \<or> yb < ay then s_pixels s else ?fold)"
  proof -
    have "paint_at vs cs argb ?w = (\<lambda>k xs. xs[pixel_index ?w k := cover_px vs cs argb (snd k) (fst k) (xs ! pixel_index ?w k)])"
      by (intro ext) (simp add: paint_at_def pixel_index_def Let_def)
    then show ?thesis by (simp only: fill_winding_ssaa_def box sw clip) simp
  qed
  have rng: "0 \<le> fst k \<and> fst k < int ?h \<and> 0 \<le> snd k \<and> snd k < int ?w" if "k \<in> set ?ks" for k
    using that clip by (auto simp: clip_box_def split: if_splits)
  have F: "length ?fold = length (s_pixels s) \<and>
     (\<forall>k\<in>set ?ks. ?fold ! pixel_index ?w k = cover_px vs cs argb (snd k) (fst k) (s_pixels s ! pixel_index ?w k)) \<and>
     (\<forall>j. j \<notin> pixel_index ?w ` set ?ks \<longrightarrow> ?fold ! j = s_pixels s ! j)"
  proof (rule fold_update_nth)
    show "inj_on (pixel_index ?w) (set ?ks)" using rng by (intro inj_on_subset [OF pixel_index_inj]) blast
    show "\<forall>k\<in>set ?ks. pixel_index ?w k < length (s_pixels s)" using rng wh(3) by (simp add: pixel_index_less)
  qed (simp add: distinct_product)
  have idx: "pixel_index ?w ?k = y * ?w + x" by (simp add: pixel_index_def)
  have xi: "int x < int ?w" "int y < int ?h" by (simp_all only: of_nat_less_iff xy)
  show ?thesis
  proof (cases "?k \<in> set ?ks")
    case True
    then have "\<not> (bx < ax \<or> yb < ay)" by auto
    then show ?thesis using bspec [OF F [THEN conjunct2, THEN conjunct1] True] by (simp add: px idx)
  next
    case False
    have "pixel_index ?w ?k \<notin> pixel_index ?w ` set ?ks"
    proof
      assume "pixel_index ?w ?k \<in> pixel_index ?w ` set ?ks"
      then obtain l where l: "l \<in> set ?ks" "pixel_index ?w ?k = pixel_index ?w l" by blast
      have "?k = l" by (rule inj_onD [OF pixel_index_inj l(2)]) (use rng [OF l(1)] xi in auto)
      with False l(1) show False by simp
    qed
    then have "s_pixels (fill_winding_ssaa vs cs (margin_box box) argb s) ! (y * ?w + x) = s_pixels s ! (y * ?w + x)"
      using F by (simp add: px idx)
    moreover have "\<not> (minx \<le> int x \<and> int x \<le> maxx \<and> miny \<le> int y \<and> int y \<le> maxy)"
      using False xi clip by (auto simp: clip_box_def split: if_splits)
    then have "sample_hits vs cs (int x) (int y) = 0"
      using xy wh(1,2) by (intro sample_hits_outside [OF _ box cs]) (simp_all add: in_square_def)
    ultimately show ?thesis by (simp add: cover_px_outside)
  qed
qed


subsection \<open>Filling a path\<close>

text \<open>The exact coverage of a pixel: how many of its sixteen samples the contours wind around.\<close>

definition coverage :: "point list \<Rightarrow> (nat \<times> nat) list \<Rightarrow> int \<Rightarrow> int \<Rightarrow> nat" where
  "coverage vs cs x y =
     length (filter (\<lambda>(j, i). (\<Sum>c\<leftarrow>cs. winding_number (x * 16 + i * 4 + 2) (y * 16 + j * 4 + 2) (contour vs c)) \<noteq> 0)
       (List.product [0..3] [0..3]))"

lemma sample_hits_exact:
  assumes "\<forall>c\<in>set cs. \<forall>v\<in>set (contour vs c). in_square RASTER_MAX v" "in_square 16384 (x, y)"
  shows "sample_hits vs cs x y = coverage vs cs x y"
proof -
  have "winding_sum vs cs (x * UNIT + i * 4 + 2) (y * UNIT + j * 4 + 2) =
      (\<Sum>c\<leftarrow>cs. winding_number (x * UNIT + i * 4 + 2) (y * UNIT + j * 4 + 2) (contour vs c))" if "i \<in> {0..3}" "j \<in> {0..3}" for i j
  proof -
    have p: "in_square RASTER_MAX (x * UNIT + i * 4 + 2, y * UNIT + j * 4 + 2)" using assms(2) that by (auto simp: in_square_def abs_le_iff)
    have "map (\<lambda>c. winding_at (x * UNIT + i * 4 + 2) (y * UNIT + j * 4 + 2) (contour vs c)) cs =
        map (\<lambda>c. winding_number (x * UNIT + i * 4 + 2) (y * UNIT + j * 4 + 2) (contour vs c)) cs"
      using winding_at_exact [OF _ p] assms(1) by (intro map_cong) auto
    then show ?thesis unfolding winding_sum_def by (rule arg_cong)
  qed
  then show ?thesis
    unfolding sample_hits_def coverage_def by (intro arg_cong [of _ _ length] filter_cong) auto
qed

lemma with_vertices_returns:
  assumes ok: "\<exists>bs. heap_ok (gheap (cgfx c)) bs" and room: "heap_room VERT_BYTES (gheap (cgfx c))"
  shows "\<exists>r. with_vertices pml4 draw s c = Some r \<and>
    (case r of
       Inl msg \<Rightarrow> kmalloc pml4 VERT_BYTES (gheap (cgfx c)) = Some (Inl msg)
     | Inr (res, c') \<Rightarrow>
         (\<exists>bs. heap_ok (gheap (cgfx c')) bs) \<and> heap_live (gheap (cgfx c')) = heap_live (gheap (cgfx c)) \<and> cpath c' = cpath c \<and>
         res = (if draw = None then -1 else 0) \<and>
         surf (cgfx c') = surf (case draw of None \<Rightarrow> cgfx c | Some f \<Rightarrow> surface_mark_dirty s (with_surface s f (cgfx c))))"
proof -
  obtain m where m: "kmalloc pml4 VERT_BYTES (gheap (cgfx c)) = Some m" using kheap.alloc_returns [OF ok room] by auto
  show ?thesis
  proof (cases m)
    case (Inl msg)
    then show ?thesis using m by (simp add: with_vertices_def)
  next
    case (Inr vh)
    obtain vx h where vh: "vh = (vx, h)" by (cases vh)
    note m' = m [unfolded Inr vh]
    obtain k where k: "(vx, k) \<in> heap_live h" using kheap.alloc_region [OF ok room _ m'] by auto
    obtain h' where h': "kfree vx h = Some (Inr h')" "\<exists>bs. heap_ok h' bs" "heap_live h' = heap_live (gheap (cgfx c))"
      using kheap.alloc_release [OF ok room _ m'] by auto
    show ?thesis
      using m' h' heap_live_pos [OF k]
      by (cases draw)
        (auto simp: with_vertices_def set_heap_def on_gfx_def surface_mark_dirty_def with_surface_def)
  qed
qed


lemma fill_winding_ok:
  assumes "surf_ok s"
  shows "surf_ok (fill_winding_ssaa vs cs box argb s)"
    "s_width (fill_winding_ssaa vs cs box argb s) = s_width s" "s_height (fill_winding_ssaa vs cs box argb s) = s_height s"
proof -
  have len: "length (fold (paint_at vs cs argb w) ks px) = length px" for w ks px
    by (induction ks arbitrary: px) (simp_all add: paint_at_def Let_def)
  show "surf_ok (fill_winding_ssaa vs cs box argb s)"
    using assms by (simp add: fill_winding_ssaa_def surf_ok_def len split: prod.split)
  show "s_width (fill_winding_ssaa vs cs box argb s) = s_width s" "s_height (fill_winding_ssaa vs cs box argb s) = s_height s"
    by (simp_all add: fill_winding_ssaa_def split: prod.split)
qed

lemma contour_subset: "set (contour vs c) \<subseteq> set vs"
  by (auto simp: contour_def dest: in_set_takeD in_set_dropD)

lemma contours_pixel:
  assumes s: "surf_ok s" and xy: "x < unat (s_width s)" "y < unat (s_height s)"
    and cmds: "\<forall>c\<in>set cmds. cmd_small c" and b: "build_contours_fill cmds = Some (vs, cs)"
  shows "s_pixels (fill_winding_ssaa vs cs (bbox_contours vs cs) argb s) ! (y * unat (s_width s) + x) =
    (let n = coverage vs cs (int x) (int y); d = s_pixels s ! (y * unat (s_width s) + x)
     in if n = 0 then d else blend_over_px d ((argb AND 0x00ffffff) OR 0xff000000) (of_nat ((n * 255 + 8) div 16)))"
proof -
  note B = build_contours_ok [OF cmds b]
  let ?pts = "concat (map (contour vs) cs)"
  let ?box = "fold grow_box ?pts (2 ^ 31 - 1, 2 ^ 31 - 1, - (2 ^ 31), - (2 ^ 31))"
  have sq: "in_square RASTER_MAX v" if "v \<in> set (contour vs c)" for v c
  proof (rule in_square_mono)
    show "in_square VERT_MAX v" using that contour_subset B(2) by blast
  qed simp
  obtain c where c: "c \<in> set cs" using B(3) by (cases cs) auto
  then have "length (contour vs c) \<ge> 3" using B(5) by (auto simp: contour_ok_def contour_def)
  then have "contour vs c \<noteq> []" by auto
  then have "?pts \<noteq> []" using c by auto
  then have box: "bbox_contours vs cs = margin_box ?box" by (simp only: bbox_contours_def Let_def if_False)
  have "in_box ?box v" if "c \<in> set cs" "v \<in> set (contour vs c)" for c v
    using that by (intro fold_grow_box_in) auto
  then have P: "\<forall>c\<in>set cs. \<forall>v\<in>set (contour vs c). in_box ?box v \<and> in_square RASTER_MAX v" using sq by blast
  have "unat (s_width s) \<le> 16384" "unat (s_height s) \<le> 16384" using s by (simp_all add: surf_ok_def word_le_nat_alt)
  then have "sample_hits vs cs (int x) (int y) = coverage vs cs (int x) (int y)"
    using sq xy by (intro sample_hits_exact) (simp_all add: in_square_def)
  then show ?thesis unfolding box by (simp only: fill_pixel [OF s xy P] cover_px_def Let_def)
qed



subsection \<open>Rectangles\<close>

definition rect_path :: "int \<Rightarrow> int \<Rightarrow> int \<Rightarrow> int \<Rightarrow> path_cmd list" where
  "rect_path x0 y0 x1 y1 =
     [PATH_CMD_MOVE x0 y0, PATH_CMD_LINE x1 y0, PATH_CMD_LINE x1 y1, PATH_CMD_LINE x0 y1, PATH_CMD_CLOSE]"

definition rect_verts :: "int \<Rightarrow> int \<Rightarrow> int \<Rightarrow> int \<Rightarrow> point list" where
  "rect_verts x0 y0 x1 y1 = [(x0 * 16, y0 * 16), (x1 * 16, y0 * 16), (x1 * 16, y1 * 16), (x0 * 16, y1 * 16), (x0 * 16, y0 * 16)]"

lemma rect_contours:
  assumes "in_square COORD_MAX (x0, y0)" "in_square COORD_MAX (x1, y1)" "y0 \<noteq> y1"
  shows "build_contours_fill (rect_path x0 y0 x1 y1) = Some (rect_verts x0 y0 x1 y1, [(0, 5)])"
proof -
  have u: "unit_pt x0 y0 = (x0 * 16, y0 * 16)" "unit_pt x1 y0 = (x1 * 16, y0 * 16)" "unit_pt x1 y1 = (x1 * 16, y1 * 16)"
    "unit_pt x0 y1 = (x0 * 16, y1 * 16)"
    using assms(1,2) by (auto simp: in_square_def intro!: unit_pt_exact)
  show ?thesis
    using assms(3) by (simp add: build_contours_fill_def rect_path_def rect_verts_def trace_cmd_def Let_def u flat_emit_def close_sub_def)
qed

lemma winding_five:
  "winding_number px py [a, b, c, d, e] =
     edge_turn px py a b + edge_turn px py b c + edge_turn px py c d + edge_turn px py d e + edge_turn px py e a"
  by (simp add: winding_number_def)

lemma rect_winding:
  assumes "x0 < x1" "y0 < y1"
  shows "winding_number px py (rect_verts x0 y0 x1 y1) =
    (if x0 * 16 \<le> px \<and> px < x1 * 16 \<and> y0 * 16 \<le> py \<and> py < y1 * 16 then 1 else 0)"
proof -
  have vert: "edge_turn px py (a, b) (a, d) = (if px < a then above py (a, d) - above py (a, b) else 0)" for a b d
    by (simp add: edge_turn_def crosses_right_def)
  have horiz: "edge_turn px py (a, b) (d, b) = 0" for a b d by (simp add: edge_turn_def)
  show ?thesis using assms by (simp add: rect_verts_def winding_five vert horiz)
qed


lemma mul8_ends:
  assumes "unat (a :: u32) \<le> 255"
  shows "mul8 a 255 = a" "mul8 a 0 = 0"
  using assms by (simp_all add: word_unat_eq_iff unat_mul8)

lemma opaque_colour:
  fixes c :: u32
  shows "push_bit 24 255 OR push_bit 16 (drop_bit 16 c AND 0xff) OR push_bit 8 (drop_bit 8 c AND 0xff) OR (c AND 0xff) =
    (c AND 0x00ffffff) OR 0xff000000"
proof (rule bit_word_eqI)
  have m: "(0xff :: u32) = mask 8" "(0x00ffffff :: u32) = mask 24" "(0xff000000 :: u32) = push_bit 24 (mask 8)" "(255 :: u32) = mask 8"
    by (simp_all add: mask_eq_exp_minus_1 push_bit_eq_mult)
  fix n assume "n < LENGTH(32)"
  then consider "n < 8" | "8 \<le> n" "n < 16" | "16 \<le> n" "n < 24" | "24 \<le> n" "n < 32" by fastforce
  then show "bit (push_bit 24 255 OR push_bit 16 (drop_bit 16 c AND 0xff) OR push_bit 8 (drop_bit 8 c AND 0xff) OR (c AND 0xff)) n =
      bit ((c AND 0x00ffffff) OR 0xff000000) n"
    unfolding m by cases (auto simp: bit_simps)
qed

text \<open>Full coverage replaces the pixel by the opaque colour.\<close>

lemma blend_full: "blend_over_px d c 255 = (c AND 0x00ffffff) OR 0xff000000"
proof -
  have le: "\<not> 255 < x AND (0xff :: u32)" for x by (simp add: not_less word_and_le1)
  have e: "mul8 (x AND 0xff) 255 + mul8 (y AND 0xff) 0 = x AND 0xff" "255 + mul8 (y AND 0xff) 0 = 255" for x y
    by (simp_all only: mul8_ends [OF unat_and_ff] add_0_right)
  have "(255 :: u32) \<noteq> 0" by simp
  then show ?thesis
    by (simp only: blend_over_px_def Let_def e diff_self le opaque_colour less_irrefl if_False if_cancel)
qed

lemma rect_coverage:
  assumes "x0 < x1" "y0 < y1"
  shows "coverage (rect_verts x0 y0 x1 y1) [(0, 5)] x y = (if x0 \<le> x \<and> x < x1 \<and> y0 \<le> y \<and> y < y1 then 16 else 0)"
proof -
  have c: "contour (rect_verts x0 y0 x1 y1) (0, 5) = rect_verts x0 y0 x1 y1" by (simp add: contour_def rect_verts_def)
  let ?in = "x0 \<le> x \<and> x < x1 \<and> y0 \<le> y \<and> y < y1"
  have "coverage (rect_verts x0 y0 x1 y1) [(0, 5)] x y = length (filter (\<lambda>k. ?in) (List.product [0..3 :: int] [0..3 :: int]))"
    unfolding coverage_def
    by (intro arg_cong [of _ _ length] filter_cong) (auto simp: c rect_winding [OF assms] split: if_splits)
  then show ?thesis by (simp add: length_product)
qed

text \<open>Filling the outline of a rectangle paints exactly its pixels, each with the opaque colour, and no other pixel, wherever the
  rectangle lies and whatever part of it is on the surface.\<close>

theorem rectangle_filled:
  assumes "surf_ok s" "x < unat (s_width s)" "y < unat (s_height s)"
    and "in_square COORD_MAX (x0, y0)" "in_square COORD_MAX (x1, y1)" "x0 < x1" "y0 < y1"
  shows "\<exists>vs cs. build_contours_fill (rect_path x0 y0 x1 y1) = Some (vs, cs) \<and>
    s_pixels (fill_winding_ssaa vs cs (bbox_contours vs cs) argb s) ! (y * unat (s_width s) + x) =
      (if x0 \<le> int x \<and> int x < x1 \<and> y0 \<le> int y \<and> int y < y1 then (argb AND 0x00ffffff) OR 0xff000000
       else s_pixels s ! (y * unat (s_width s) + x))"
proof -
  have b: "build_contours_fill (rect_path x0 y0 x1 y1) = Some (rect_verts x0 y0 x1 y1, [(0, 5)])"
    using assms by (intro rect_contours) auto
  have small: "\<forall>c\<in>set (rect_path x0 y0 x1 y1). cmd_small c" using assms(4,5) by (auto simp: rect_path_def in_square_def)
  have col: "((argb AND 0x00ffffff) OR 0xff000000) AND 0x00ffffff = argb AND (0x00ffffff :: u32)"
    by (simp add: word_ao_dist word_bw_assocs)
  show ?thesis using contours_pixel [OF assms(1-3) small b, of argb] b by (simp add: Let_def rect_coverage [OF assms(6,7)] blend_full col)
qed


subsection \<open>Strokes\<close>

lemma newton_floor:
  assumes "0 < n" "0 < r" "n < (r + 1) * (r + 1)"
  shows "newton n r * newton n r \<le> n \<and> n < (newton n r + 1) * (newton n r + 1) \<and> newton n r \<le> r"
  using assms
proof (induction n r rule: newton.induct)
  case (1 n r)
  let ?q = "n div r"
  let ?nr = "(r + ?q) div 2"
  have qr: "?q * r \<le> n" "n < (?q + 1) * r" using "1.prems"(2) by (simp_all add: dividend_less_div_times)
  show ?case
  proof (cases "r \<le> ?nr")
    case True
    then have "r \<le> ?q" by linarith
    then have "r * r \<le> n" using qr(1) mult_le_mono1 [of r ?q r] by linarith
    then show ?thesis using True "1.prems" by (simp add: newton.simps [of n r])
  next
    case False
    have pos: "0 < ?nr"
    proof (rule ccontr)
      assume "\<not> 0 < ?nr"
      then have "r = 1" "?q = 0" using "1.prems"(2) by auto
      then show False using "1.prems"(1) by simp
    qed
    have "k + 1 \<le> 2 * (k div 2 + 1)" for k :: nat by presburger
    then have h: "r + ?q + 1 \<le> 2 * (?nr + 1)" .
    have "4 * ((?q + 1) * r) \<le> (r + (?q + 1)) * (r + (?q + 1))"
    proof -
      have "0 \<le> (int r - int (?q + 1)) * (int r - int (?q + 1))" by simp
      then have "int (4 * ((?q + 1) * r)) \<le> int ((r + (?q + 1)) * (r + (?q + 1)))" by (simp add: algebra_simps)
      then show ?thesis by (simp only: of_nat_le_iff)
    qed
    also have "\<dots> \<le> (2 * (?nr + 1)) * (2 * (?nr + 1))" using h by (intro mult_le_mono) simp_all
    finally have "n < (?nr + 1) * (?nr + 1)" using qr(2) by simp
    from "1.IH" [OF refl False "1.prems"(1) pos this]
    show ?thesis using False by (simp add: newton.simps [of n r] Let_def)
  qed
qed

lemma isqrt64_floor:
  assumes "0 \<le> n" "n < 2 ^ 62"
  shows "0 \<le> isqrt64 n" "isqrt64 n * isqrt64 n \<le> n" "n < (isqrt64 n + 1) * (isqrt64 n + 1)"
proof -
  have "0 \<le> isqrt64 n \<and> isqrt64 n * isqrt64 n \<le> n \<and> n < (isqrt64 n + 1) * (isqrt64 n + 1)"
  proof (cases "n = 0")
    case True
    then show ?thesis by (simp add: isqrt64_def)
  next
    case False
    define m r where "m = nat n" and "r = newton (nat n) (nat n)"
    have m: "0 < m" "int m = n" using False assms(1) by (simp_all add: m_def)
    have r: "r * r \<le> m" "m < (r + 1) * (r + 1)"
      using newton_floor [of m m] m(1) by (simp_all add: r_def m_def)
    have "r < 2 ^ 31"
    proof (rule ccontr)
      assume "\<not> r < 2 ^ 31"
      then have "(2 :: nat) ^ 31 * 2 ^ 31 \<le> r * r" by (intro mult_le_mono) simp_all
      then have "(2 :: nat) ^ 62 \<le> m" using r(1) by simp
      then have "int (2 ^ 62) \<le> int m" by (simp only: of_nat_le_iff)
      then show False using assms(2) m(2) by simp
    qed
    then have i: "isqrt64 n = int r" using False assms(1) by (simp add: isqrt64_def r_def)
    have "int (r * r) \<le> int m" "int m < int ((r + 1) * (r + 1))" using r by (simp_all only: of_nat_le_iff of_nat_less_iff)
    then show ?thesis using m(2) by (simp add: i algebra_simps)
  qed
  then show "0 \<le> isqrt64 n" "isqrt64 n * isqrt64 n \<le> n" "n < (isqrt64 n + 1) * (isqrt64 n + 1)" by simp_all
qed

lemma isqrt64_bounds_side:
  assumes "dx * dx + dy * dy < 2 ^ 62"
  shows "\<bar>dx\<bar> \<le> isqrt64 (dx * dx + dy * dy)" "\<bar>dy\<bar> \<le> isqrt64 (dx * dx + dy * dy)"
proof -
  let ?n = "dx * dx + dy * dy" and ?i = "isqrt64 (dx * dx + dy * dy)"
  note q = isqrt64_floor [of ?n]
  have side: "\<bar>z\<bar> \<le> ?i" if "z * z \<le> ?n" for z
  proof (rule ccontr)
    assume "\<not> \<bar>z\<bar> \<le> ?i"
    then have "(?i + 1) * (?i + 1) \<le> \<bar>z\<bar> * \<bar>z\<bar>" using q(1) assms by (intro mult_mono) auto
    also have "\<bar>z\<bar> * \<bar>z\<bar> = z * z" by simp
    finally show False using q(3) assms that by simp
  qed
  show "\<bar>dx\<bar> \<le> ?i" "\<bar>dy\<bar> \<le> ?i" by (rule side, simp)+
qed


lemma sdiv_bound:
  fixes a b h :: int
  assumes "0 < b" "\<bar>a\<bar> \<le> b * h" "0 \<le> h"
  shows "\<bar>a sdiv b\<bar> \<le> h"
proof -
  have "\<bar>a\<bar> div b \<le> (b * h) div b" using assms by (intro zdiv_mono1) auto
  also have "\<dots> = h" using assms(1) by simp
  finally have "\<bar>a\<bar> div b \<le> h" .
  moreover have "0 \<le> \<bar>a\<bar> div b" using assms(1) by (simp add: pos_imp_zdiv_nonneg_iff)
  ultimately show ?thesis using assms(1) by (simp add: signed_divide_int_def abs_mult sgn_if abs_if split: if_splits)
qed

text \<open>A corner of the outline of a segment is off its end point by at most half the width in each direction.\<close>

lemma stroke_quad_near:
  assumes a: "in_square VERT_MAX a" and b: "in_square VERT_MAX b" and h: "0 < half" "half \<le> 2 ^ 20" and ne: "len2 a b \<noteq> 0"
  shows "\<exists>dx dy. \<bar>dx\<bar> \<le> half \<and> \<bar>dy\<bar> \<le> half \<and>
    stroke_quad half a b = [(fst a + dx, snd a + dy), (fst a - dx, snd a - dy), (fst b - dx, snd b - dy), (fst b + dx, snd b + dy)]"
proof -
  define X Y where "X = fst b - fst a" and "Y = snd b - snd a"
  have c: "\<bar>fst a\<bar> \<le> VERT_MAX" "\<bar>snd a\<bar> \<le> VERT_MAX" "\<bar>fst b\<bar> \<le> VERT_MAX" "\<bar>snd b\<bar> \<le> VERT_MAX" using a b by (simp_all add: in_square_def)
  have XY: "\<bar>X\<bar> \<le> 2 ^ 29" "\<bar>Y\<bar> \<le> 2 ^ 29" using c by (simp_all add: X_def Y_def)
  have sq: "z * z \<le> 2 ^ 58" if "\<bar>z\<bar> \<le> 2 ^ 29" for z :: int
    using mult_mono [OF that that] by simp
  have i: "i32 X = X" "i32 Y = Y" "i32 (- Y) = - Y" using XY by (auto intro!: i32_id)
  have n: "X * X + Y * Y < 2 ^ 62" using sq [OF XY(1)] sq [OF XY(2)] by simp
  have nn: "0 \<le> X * X + Y * Y" by simp
  have L: "len2 a b = X * X + Y * Y"
  proof -
    have "- (2 ^ 63) \<le> X * X + Y * Y" by (rule order_trans [OF _ nn]) simp
    moreover have "X * X + Y * Y < 2 ^ 63" using n by simp
    ultimately show ?thesis unfolding len2_def Let_def X_def [symmetric] Y_def [symmetric] i by (rule i64_id)
  qed
  define ilen where "ilen = isqrt64 (X * X + Y * Y)"
  have side: "\<bar>X\<bar> \<le> ilen" "\<bar>Y\<bar> \<le> ilen" unfolding ilen_def by (rule isqrt64_bounds_side [OF n])+
  have "X \<noteq> 0 \<or> Y \<noteq> 0" using ne L by auto
  then have pos: "1 \<le> ilen" using side by linarith
  have off: "\<bar>i64 (z * half) sdiv ilen\<bar> \<le> half" if z: "\<bar>z\<bar> \<le> ilen" "\<bar>z\<bar> \<le> 2 ^ 29" for z
  proof -
    have "\<bar>z\<bar> * half \<le> 2 ^ 29 * 2 ^ 20" using z(2) h by (intro mult_mono) auto
    then have "\<bar>z * half\<bar> \<le> 2 ^ 49" using h(1) by (simp add: abs_mult)
    then have "i64 (z * half) = z * half" by (intro i64_id) auto
    moreover have "\<bar>z * half\<bar> \<le> ilen * half" using z(1) h(1) by (simp add: abs_mult)
    ultimately show ?thesis using sdiv_bound [of ilen "z * half" half] pos h(1) by simp
  qed
  define dx dy where "dx = i64 (- Y * half) sdiv ilen" and "dy = i64 (X * half) sdiv ilen"
  have d: "\<bar>dx\<bar> \<le> half" "\<bar>dy\<bar> \<le> half" using off [of "- Y"] off [of X] side XY by (simp_all add: dx_def dy_def)
  have id: "i32 dx = dx" "i32 dy = dy" "i32 (fst a + dx) = fst a + dx" "i32 (snd a + dy) = snd a + dy" "i32 (fst a - dx) = fst a - dx"
    "i32 (snd a - dy) = snd a - dy" "i32 (fst b - dx) = fst b - dx" "i32 (snd b - dy) = snd b - dy" "i32 (fst b + dx) = fst b + dx"
    "i32 (snd b + dy) = snd b + dy"
    using d h(2) c by (auto intro!: i32_id)
  have "stroke_quad half a b = [(fst a + dx, snd a + dy), (fst a - dx, snd a - dy), (fst b - dx, snd b - dy), (fst b + dx, snd b + dy)]"
    unfolding stroke_quad_def Let_def L X_def [symmetric] Y_def [symmetric] i ilen_def [symmetric]
    using pos by (simp only: not_less [symmetric] if_False) (simp only: dx_def [symmetric] dy_def [symmetric] id)
  with d show ?thesis by blast
qed


text \<open>All samples of the pixel lie beyond both ends of the segment, by half the width.\<close>

definition far_from :: "int \<Rightarrow> point \<Rightarrow> point \<Rightarrow> nat \<Rightarrow> nat \<Rightarrow> bool" where
  "far_from half a b x y \<longleftrightarrow>
     16 * int x + 15 < min (fst a) (fst b) - half \<or> max (fst a) (fst b) + half \<le> 16 * int x \<or>
     16 * int y + 15 < min (snd a) (snd b) - half \<or> max (snd a) (snd b) + half \<le> 16 * int y"

lemma quad_box: "length q = 4 \<Longrightarrow> \<forall>v\<in>set q.
    in_box (fold grow_box (tl q) (fst (q ! 0) sdiv UNIT, snd (q ! 0) sdiv UNIT, fst (q ! 0) sdiv UNIT, snd (q ! 0) sdiv UNIT)) v"
proof
  fix v assume q: "length q = 4" "v \<in> set q"
  then have "v \<in> set (tl q) \<or> v = q ! 0" by (cases q) auto
  then show "in_box (fold grow_box (tl q) (fst (q ! 0) sdiv UNIT, snd (q ! 0) sdiv UNIT, fst (q ! 0) sdiv UNIT, snd (q ! 0) sdiv UNIT)) v"
    by (intro fold_grow_box_in) (auto simp: in_box_def)
qed

lemma fill_quad_far:
  assumes s: "surf_ok s" and xy: "x < unat (s_width s)" "y < unat (s_height s)"
    and q: "length q = 4" "\<forall>v\<in>set q. in_square RASTER_MAX v"
    and far: "(\<forall>v\<in>set q. 16 * int x + 15 < fst v) \<or> (\<forall>v\<in>set q. fst v \<le> 16 * int x) \<or>
      (\<forall>v\<in>set q. 16 * int y + 15 < snd v) \<or> (\<forall>v\<in>set q. snd v \<le> 16 * int y)"
  shows "s_pixels (fill_quad q argb s) ! (y * unat (s_width s) + x) = s_pixels s ! (y * unat (s_width s) + x)"
proof -
  have c: "contour q (0, 4) = q" using q(1) by (simp add: contour_def)
  let ?box = "fold grow_box (tl q) (fst (q ! 0) sdiv UNIT, snd (q ! 0) sdiv UNIT, fst (q ! 0) sdiv UNIT, snd (q ! 0) sdiv UNIT)"
  have P: "\<forall>c\<in>set [(0, 4)]. \<forall>v\<in>set (contour q c). in_box ?box v \<and> in_square RASTER_MAX v"
    using quad_box [OF q(1)] q(2) by (simp add: c)
  have "winding_number (int x * 16 + i * 4 + 2) (int y * 16 + j * 4 + 2) q = 0" if "i \<in> {0..3}" "j \<in> {0..3}" for i j
    using far that by (intro winding_outside) (elim disjE; fastforce)
  then have "coverage q [(0, 4)] (int x) (int y) = 0" by (auto simp: coverage_def c filter_empty_conv)
  moreover have "unat (s_width s) \<le> 16384" "unat (s_height s) \<le> 16384" using s by (simp_all add: surf_ok_def word_le_nat_alt)
  then have "sample_hits q [(0, 4)] (int x) (int y) = coverage q [(0, 4)] (int x) (int y)"
    using P xy by (intro sample_hits_exact) (auto simp: in_square_def)
  ultimately have "cover_px q [(0, 4)] argb (int x) (int y) d = d" for d by (intro cover_px_outside) simp
  moreover have "fill_quad q argb s = fill_winding_ssaa q [(0, 4)] (margin_box ?box) argb s" by (simp add: fill_quad_def Let_def)
  ultimately show ?thesis by (simp only: fill_pixel [OF s xy P])
qed

lemma stroke_segment_far:
  assumes s: "surf_ok s" and xy: "x < unat (s_width s)" "y < unat (s_height s)"
    and ab: "in_square VERT_MAX a" "in_square VERT_MAX b" and h: "0 < half" "half \<le> 2 ^ 20" and far: "far_from half a b x y"
  shows "s_pixels (stroke_segment half argb a b s) ! (y * unat (s_width s) + x) = s_pixels s ! (y * unat (s_width s) + x)"
proof (cases "len2 a b = 0")
  case False
  obtain dx dy where d: "\<bar>dx\<bar> \<le> half" "\<bar>dy\<bar> \<le> half" and q: "stroke_quad half a b =
      [(fst a + dx, snd a + dy), (fst a - dx, snd a - dy), (fst b - dx, snd b - dy), (fst b + dx, snd b + dy)]"
    using stroke_quad_near [OF ab h False] by blast
  have sq: "\<forall>v\<in>set (stroke_quad half a b). in_square RASTER_MAX v" using ab d h(2) by (auto simp: q in_square_def)
  have near: "min (fst a) (fst b) - half \<le> fst v" "fst v \<le> max (fst a) (fst b) + half"
    "min (snd a) (snd b) - half \<le> snd v" "snd v \<le> max (snd a) (snd b) + half" if "v \<in> set (stroke_quad half a b)" for v
    using that d unfolding q by (auto simp: min_def max_def)
  have fq: "(\<forall>v\<in>set (stroke_quad half a b). 16 * int x + 15 < fst v) \<or> (\<forall>v\<in>set (stroke_quad half a b). fst v \<le> 16 * int x) \<or>
      (\<forall>v\<in>set (stroke_quad half a b). 16 * int y + 15 < snd v) \<or> (\<forall>v\<in>set (stroke_quad half a b). snd v \<le> 16 * int y)"
    using far near unfolding far_from_def by (elim disjE) (meson order_less_le_trans order_trans)+
  have "length (stroke_quad half a b) = 4" by (simp add: q)
  from fill_quad_far [OF s xy this sq fq] show ?thesis using False by (simp add: stroke_segment_def)
qed (simp add: stroke_segment_def)


lemma stroke_segment_ok:
  assumes "surf_ok s"
  shows "surf_ok (stroke_segment half argb a b s)" "s_width (stroke_segment half argb a b s) = s_width s"
    "s_height (stroke_segment half argb a b s) = s_height s"
  using fill_winding_ok [OF assms] assms by (simp_all add: stroke_segment_def fill_quad_def Let_def)

lemma stroke_all_far:
  assumes "surf_ok s" "x < unat (s_width s)" "y < unat (s_height s)" "0 < half" "half \<le> 2 ^ 20"
    and "\<forall>i\<in>set is. in_square VERT_MAX (vs ! i) \<and> in_square VERT_MAX (vs ! (i + 1))"
  shows "surf_ok (fold (\<lambda>i. stroke_segment half argb (vs ! i) (vs ! (i + 1))) is s) \<and>
    ((\<forall>i\<in>set is. far_from half (vs ! i) (vs ! (i + 1)) x y) \<longrightarrow>
       s_pixels (fold (\<lambda>i. stroke_segment half argb (vs ! i) (vs ! (i + 1))) is s) ! (y * unat (s_width s) + x) =
       s_pixels s ! (y * unat (s_width s) + x))"
  using assms
proof (induction "is" arbitrary: s)
  case (Cons i "is")
  let ?s = "stroke_segment half argb (vs ! i) (vs ! (i + 1)) s"
  note k = stroke_segment_ok [OF Cons.prems(1), of half argb "vs ! i" "vs ! (i + 1)"]
  have ab: "in_square VERT_MAX (vs ! i)" "in_square VERT_MAX (vs ! (i + 1))" using Cons.prems(6) by simp_all
  have wh: "x < unat (s_width ?s)" "y < unat (s_height ?s)" using Cons.prems(2,3) by (simp_all only: k)
  have rest: "\<forall>i\<in>set is. in_square VERT_MAX (vs ! i) \<and> in_square VERT_MAX (vs ! (i + 1))" using Cons.prems(6) by simp
  note IH = Cons.IH [OF k(1) wh Cons.prems(4,5) rest, unfolded k(2,3)]
  have "s_pixels ?s ! (y * unat (s_width s) + x) = s_pixels s ! (y * unat (s_width s) + x)" if "far_from half (vs ! i) (vs ! (i + 1)) x y"
    by (rule stroke_segment_far [OF Cons.prems(1,2,3) ab Cons.prems(4,5) that])
  then show ?case using IH by simp
qed simp

lemma segment_ends:
  assumes "i \<in> set (segments nv br)" "\<forall>b\<in>set br. b \<le> nv"
  shows "i + 1 < nv"
proof -
  obtain k where k: "k < length br"
    "i \<in> set (let seg0 = br ! k; seg1 = (if k + 1 < length br then br ! (k + 1) else nv)
        in if int seg1 - int seg0 < 2 then [] else [seg0..<seg1 - 1])"
    using assms(1) by (auto simp: segments_def)
  have "(if k + 1 < length br then br ! (k + 1) else nv) \<le> nv" using assms(2) by simp
  then show ?thesis using k(2) by (auto simp: Let_def split: if_splits)
qed

text \<open>Stroking a path returns, with the heap as before; it panics only if the allocation of the vertex buffer does and answers -1 only
  if the path has fewer than two vertices or too many subpaths.  It changes no other surface, and no pixel further than half the line
  width from the boxes of all segments of the flattened path.\<close>

theorem path_stroke_local:
  assumes heap: "\<exists>bs. heap_ok (gheap (cgfx c)) bs" "heap_room VERT_BYTES (gheap (cgfx c))"
    and s: "s \<noteq> 0" "surf_ok (surf (cgfx c) s)" and p: "p \<noteq> 0" "\<forall>cmd\<in>set (cpath c p). cmd_small cmd"
    and width: "1 \<le> width" "width \<le> 2 ^ 17"
  shows "\<exists>r. path_stroke_surface pml4 s p width argb c = Some r \<and>
    (case r of
       Inl msg \<Rightarrow> kmalloc pml4 VERT_BYTES (gheap (cgfx c)) = Some (Inl msg)
     | Inr (res, c') \<Rightarrow>
         heap_live (gheap (cgfx c')) = heap_live (gheap (cgfx c)) \<and>
         (case build_open_polyline 64 (cpath c p) of
            None \<Rightarrow> res = -1 \<and> surf (cgfx c') = surf (cgfx c)
          | Some (vs, br) \<Rightarrow>
              res = 0 \<and> (\<forall>q. q \<noteq> s \<longrightarrow> surf (cgfx c') q = surf (cgfx c) q) \<and>
              (let old = surf (cgfx c) s; w = unat (s_width old)
               in \<forall>x<w. \<forall>y<unat (s_height old).
                    (\<forall>i\<in>set (segments (length vs) br). far_from (8 * width) (vs ! i) (vs ! (i + 1)) x y) \<longrightarrow>
                    s_pixels (surf (cgfx c') s) ! (y * w + x) = s_pixels old ! (y * w + x))))"
proof -
  let ?draw = "map_option (\<lambda>(vs, br). stroke_all (half_width width) argb vs br) (build_open_polyline 64 (cpath c p))"
  have f: "path_stroke_surface pml4 s p width argb c = with_vertices pml4 ?draw s c"
    using s p width by (simp add: path_stroke_surface_def surf_ok_def)
  have half: "half_width width = 8 * width" using width by (simp add: half_width_def Let_def sdiv_half)
  obtain r where r: "with_vertices pml4 ?draw s c = Some r" and R: "case r of
       Inl msg \<Rightarrow> kmalloc pml4 VERT_BYTES (gheap (cgfx c)) = Some (Inl msg)
     | Inr (res, c') \<Rightarrow>
         (\<exists>bs. heap_ok (gheap (cgfx c')) bs) \<and> heap_live (gheap (cgfx c')) = heap_live (gheap (cgfx c)) \<and> cpath c' = cpath c \<and>
         res = (if ?draw = None then -1 else 0) \<and>
         surf (cgfx c') = surf (case ?draw of None \<Rightarrow> cgfx c | Some f \<Rightarrow> surface_mark_dirty s (with_surface s f (cgfx c)))"
    using with_vertices_returns [OF heap, of pml4 ?draw s] by blast
  show ?thesis
  proof (cases r)
    case (Inl msg)
    then show ?thesis using f r R by simp
  next
    case (Inr rc)
    obtain res c' where rc: "rc = (res, c')" by (cases rc)
    show ?thesis
    proof (cases "build_open_polyline 64 (cpath c p)")
      case None
      then show ?thesis using f r R Inr rc by simp
    next
      case (Some vb)
      obtain vs br where vb: "vb = (vs, br)" by (cases vb)
      note b = Some [unfolded vb]
      note B = build_open_ok [OF p(2) b]
      let ?new = "(stroke_all (8 * width) argb vs br (surf (cgfx c) s))\<lparr>s_pixels_dirty := True, s_dirty_rect_valid := False\<rparr>"
      have sf: "surf (cgfx c') = (surf (cgfx c))(s := ?new)" "res = 0" "heap_live (gheap (cgfx c')) = heap_live (gheap (cgfx c))"
        using R s by (simp_all add: Inr rc b half surface_mark_dirty_def with_surface_def)
      have "\<forall>i\<in>set (segments (length vs) br). in_square VERT_MAX (vs ! i) \<and> in_square VERT_MAX (vs ! (i + 1))"
      proof
        fix i assume "i \<in> set (segments (length vs) br)"
        then have "i < length vs" "i + 1 < length vs" using segment_ends [OF _ B(3), of i] by simp_all
        then show "in_square VERT_MAX (vs ! i) \<and> in_square VERT_MAX (vs ! (i + 1))" using B(2) nth_mem by blast
      qed
      then have "(\<forall>i\<in>set (segments (length vs) br). far_from (8 * width) (vs ! i) (vs ! (i + 1)) x y) \<longrightarrow>
          s_pixels ?new ! (y * unat (s_width (surf (cgfx c) s)) + x) = s_pixels (surf (cgfx c) s) ! (y * unat (s_width (surf (cgfx c) s)) + x)"
        if "x < unat (s_width (surf (cgfx c) s))" "y < unat (s_height (surf (cgfx c) s))" for x y
        using stroke_all_far [OF s(2) that, of "8 * width"] width by (simp add: stroke_all_def)
      then show ?thesis using f r Inr rc b sf by (simp add: Let_def)
    qed
  qed
qed


subsection \<open>An example\<close>

definition example_canvas :: "path_cmd list \<Rightarrow> canvas" where
  "example_canvas cmds = \<lparr>cgfx = example_gfx, cpath = (\<lambda>_. cmds)\<rparr>"

lemma example_canvas_ok:
  "\<exists>bs. heap_ok (gheap (cgfx (example_canvas cmds))) bs" "heap_room VERT_BYTES (gheap (cgfx (example_canvas cmds)))"
  "surf_ok (surf (cgfx (example_canvas cmds)) q)"
  using example_heap_ok example_surface_ok
  by (auto simp: example_canvas_def example_gfx_def heap_room_def block_need_def grow_bytes_def example_heap_def)

lemma example_canvas_fields [simp]:
  "cpath (example_canvas cmds) p = cmds" "surf (cgfx (example_canvas cmds)) q = example_surface"
  "s_width example_surface = 2" "s_height example_surface = 2" "s_pixels example_surface = [0, 0, 0, 0]"
proof -
  have "replicate 4 z = [z, z, z, z]" for z :: u32 by (simp add: numeral_eq_Suc)
  then show "s_pixels example_surface = [0, 0, 0, 0]" by (simp add: example_surface_def init_surface_def)
qed (simp_all add: example_canvas_def example_gfx_def example_surface_def init_surface_def)


theorem rectangle_filled_witness:
  "\<exists>vs cs. build_contours_fill (rect_path 1 0 9 1) = Some (vs, cs) \<and>
    s_pixels (fill_winding_ssaa vs cs (bbox_contours vs cs) 0x00123456 example_surface) ! 1 = 0xff123456"
  using rectangle_filled [OF example_surface_ok, of 1 0 1 0 9 1 "0x00123456"] by (simp add: in_square_def)


lemma example_stroke:
  "build_open_polyline 64 [PATH_CMD_MOVE 0 0, PATH_CMD_LINE 1 0] = Some ([(0, 0), (16, 0)], [0])" "segments (Suc (Suc 0)) [0] = [0]"
proof -
  show "build_open_polyline 64 [PATH_CMD_MOVE 0 0, PATH_CMD_LINE 1 0] = Some ([(0, 0), (16, 0)], [0])"
    by (simp add: build_open_polyline_def trace_cmd_def Let_def flat_emit_def unit_pt_def)
qed (simp add: segments_def)

theorem path_stroke_local_witness:
  "\<exists>r. path_stroke_surface 8192 8192 4096 1 0xffffffff (example_canvas [PATH_CMD_MOVE 0 0, PATH_CMD_LINE 1 0]) = Some r \<and>
    (case r of
       Inl msg \<Rightarrow> kmalloc 8192 VERT_BYTES (gheap (cgfx (example_canvas [PATH_CMD_MOVE 0 0, PATH_CMD_LINE 1 0]))) = Some (Inl msg)
     | Inr (res, c') \<Rightarrow> res = 0 \<and> s_pixels (surf (cgfx c') 8192) ! (1 * 2 + 0) = 0)"
proof -
  let ?cmds = "[PATH_CMD_MOVE 0 0, PATH_CMD_LINE 1 0]"
  have "\<forall>cmd\<in>set (cpath (example_canvas ?cmds) 4096). cmd_small cmd" by (simp add: in_square_def)
  note F = path_stroke_local [OF example_canvas_ok(1,2) _ example_canvas_ok(3) _ this, of 8192 1 8192 "0xffffffff"]
  have far: "far_from 8 (0, 0) (16, 0) 0 1" by (simp add: far_from_def)
  show ?thesis
  proof (cases "path_stroke_surface 8192 8192 4096 1 0xffffffff (example_canvas ?cmds)")
    case (Some r)
    show ?thesis
    proof (cases r)
      case (Inr rc)
      obtain res c' where rc: "rc = (res, c')" by (cases rc)
      have "res = 0" and px: "\<forall>x<2. \<forall>y<2. far_from 8 (0, 0) (16, 0) x y \<longrightarrow>
          s_pixels (surf (cgfx c') 8192) ! (y * 2 + x) = s_pixels example_surface ! (y * 2 + x)"
        using F by (simp_all add: example_stroke Some Inr rc Let_def)
      moreover have "s_pixels (surf (cgfx c') 8192) ! (1 * 2 + 0) = s_pixels example_surface ! (1 * 2 + 0)"
        by (rule px [rule_format, OF _ _ far]) simp_all
      ultimately show ?thesis by (simp add: Some Inr rc)
    qed (use F Some in simp)
  qed (use F in simp)
qed

subsection \<open>Where the drawing surprises\<close>

text \<open>The alpha of the colour is not used.\<close>

lemma fill_ignores_alpha: "fill_winding_ssaa vs cs box argb s = fill_winding_ssaa vs cs box (argb AND 0x00ffffff) s"
proof -
  have "cover_px vs cs argb = cover_px vs cs (argb AND 0x00ffffff)" by (intro ext) (simp add: cover_px_def Let_def word_bw_assocs)
  then have "paint_at vs cs argb = paint_at vs cs (argb AND 0x00ffffff)" by (intro ext) (simp add: paint_at_def)
  then show ?thesis unfolding fill_winding_ssaa_def by (rule ssubst) (rule refl)
qed

text \<open>Vertices beyond the capacity of the buffer are dropped without an error.\<close>

lemma vertices_dropped:
  assumes "length (verts t) = PATH_MAX_VERT"
  shows "\<exists>t'. trace_cmd (PATH_CMD_LINE x y) t = Some t' \<and> verts t' = verts t"
  using assms by (simp add: trace_cmd_def flat_emit_def Let_def)

end
