(* ===== verification/Bytes.thy ===== *)
theory Bytes
  imports Prelude
begin

text \<open>
  Little-endian access to byte-addressed memory, as the drivers and the table parsers do through
  casts of \<^verbatim>\<open>uint8_t *\<close>: reading and writing 16, 32 and 64 bits at any address, with what a read
  sees after a write at the same or at another place.
\<close>

type_synonym bytes = "nat \<Rightarrow> u8"

definition rd16 :: "bytes \<Rightarrow> nat \<Rightarrow> u16" where
  "rd16 m a = ucast (m a) OR push_bit 8 (ucast (m (a + 1)))"

definition rd32 :: "bytes \<Rightarrow> nat \<Rightarrow> u32" where
  "rd32 m a = ucast (m a) OR push_bit 8 (ucast (m (a + 1))) OR push_bit 16 (ucast (m (a + 2))) OR
     push_bit 24 (ucast (m (a + 3)))"

definition rd64 :: "bytes \<Rightarrow> nat \<Rightarrow> u64" where
  "rd64 m a = ucast (rd32 m a) OR push_bit 32 (ucast (rd32 m (a + 4)))"

definition bytes16 :: "u16 \<Rightarrow> u8 list" where
  "bytes16 v = [ucast v, ucast (drop_bit 8 v)]"

definition bytes32 :: "u32 \<Rightarrow> u8 list" where
  "bytes32 v = [ucast v, ucast (drop_bit 8 v), ucast (drop_bit 16 v), ucast (drop_bit 24 v)]"

definition bytes64 :: "u64 \<Rightarrow> u8 list" where
  "bytes64 v = bytes32 (ucast v) @ bytes32 (ucast (drop_bit 32 v))"

definition poke :: "nat \<Rightarrow> u8 list \<Rightarrow> bytes \<Rightarrow> bytes" where
  "poke a bs m = (\<lambda>x. if a \<le> x \<and> x < a + length bs then bs ! (x - a) else m x)"

definition mem_at :: "bytes \<Rightarrow> nat \<Rightarrow> u8 list \<Rightarrow> bool" where
  "mem_at m a bs \<longleftrightarrow> (\<forall>i < length bs. m (a + i) = bs ! i)"

lemma mem_at_Cons [simp]:
  "mem_at m a []" "mem_at m a (b # bs) \<longleftrightarrow> m a = b \<and> mem_at m (Suc a) bs"
  by (simp_all add: mem_at_def All_less_Suc2)

lemma mem_at_append [simp]:
  "mem_at m a (bs @ cs) \<longleftrightarrow> mem_at m a bs \<and> mem_at m (a + length bs) cs"
  by (induction bs arbitrary: a) auto

lemma mem_at_poke: "mem_at (poke a bs m) a bs"
  by (simp add: mem_at_def poke_def)

lemma length_le [simp]: "length (bytes16 h) = 2" "length (bytes32 v) = 4" "length (bytes64 w) = 8"
  by (simp_all add: bytes16_def bytes32_def bytes64_def)

lemma rd16_bytes: "mem_at m a (bytes16 v) \<Longrightarrow> rd16 m a = v"
proof -
  have "ucast (ucast v :: u8) OR push_bit 8 (ucast (ucast (drop_bit 8 v) :: u8)) = v"
    by (rule bit_eqI; rename_tac n; case_tac "8 \<le> n") (auto simp: bit_simps)
  then show "mem_at m a (bytes16 v) \<Longrightarrow> rd16 m a = v" by (simp add: bytes16_def rd16_def)
qed

lemma rd32_bytes: "mem_at m a (bytes32 v) \<Longrightarrow> rd32 m a = v"
proof -
  have "ucast (ucast v :: u8) OR push_bit 8 (ucast (ucast (drop_bit 8 v) :: u8)) OR
      push_bit 16 (ucast (ucast (drop_bit 16 v) :: u8)) OR
      push_bit 24 (ucast (ucast (drop_bit 24 v) :: u8)) = v"
    by (rule bit_eqI; rename_tac n; case_tac "24 \<le> n"; case_tac "16 \<le> n") (auto simp: bit_simps)
  then show "mem_at m a (bytes32 v) \<Longrightarrow> rd32 m a = v"
    by (simp add: bytes32_def rd32_def numeral_eq_Suc)
qed

lemma rd64_bytes: "mem_at m a (bytes64 v) \<Longrightarrow> rd64 m a = v"
proof -
  have "ucast (ucast v :: u32) OR push_bit 32 (ucast (ucast (drop_bit 32 v) :: u32)) = v"
    by (rule bit_eqI; rename_tac n; case_tac "32 \<le> n") (auto simp: bit_simps)
  then show "mem_at m a (bytes64 v) \<Longrightarrow> rd64 m a = v"
    by (auto simp: bytes64_def rd64_def dest!: rd32_bytes)
qed

lemma rd_poke_same [simp]:
  "rd16 (poke a (bytes16 h) m) a = h" "rd32 (poke a (bytes32 v) m) a = v" "rd64 (poke a (bytes64 w) m) a = w"
  using rd16_bytes [OF mem_at_poke] rd32_bytes [OF mem_at_poke] rd64_bytes [OF mem_at_poke] by auto

text \<open>Reads depend on the bytes they cover only.\<close>

lemma rd_cong:
  "(\<And>i. i < 2 \<Longrightarrow> m (a + i) = m' (a + i)) \<Longrightarrow> rd16 m a = rd16 m' a"
  "(\<And>i. i < 4 \<Longrightarrow> m (a + i) = m' (a + i)) \<Longrightarrow> rd32 m a = rd32 m' a"
proof -
  assume e: "\<And>i. i < 2 \<Longrightarrow> m (a + i) = m' (a + i)"
  show "rd16 m a = rd16 m' a" using e [of 0] e [of 1] by (simp add: rd16_def)
next
  assume e: "\<And>i. i < 4 \<Longrightarrow> m (a + i) = m' (a + i)"
  show "rd32 m a = rd32 m' a" using e [of 0] e [of 1] e [of 2] e [of 3] by (simp add: rd32_def)
qed

lemma rd64_cong: "(\<And>i. i < 8 \<Longrightarrow> m (a + i) = m' (a + i)) \<Longrightarrow> rd64 m a = rd64 m' a"
proof -
  assume e: "\<And>i. i < 8 \<Longrightarrow> m (a + i) = m' (a + i)"
  have "rd32 m a = rd32 m' a" by (rule rd_cong) (simp add: e)
  moreover have "rd32 m (a + 4) = rd32 m' (a + 4)"
    by (rule rd_cong) (use e [of "4 + _"] in \<open>simp add: add.assoc\<close>)
  ultimately show "rd64 m a = rd64 m' a" by (simp add: rd64_def)
qed

lemma rd_poke_other:
  "a' + 2 \<le> a \<or> a + length bs \<le> a' \<Longrightarrow> rd16 (poke a bs m) a' = rd16 m a'"
  "a' + 4 \<le> a \<or> a + length bs \<le> a' \<Longrightarrow> rd32 (poke a bs m) a' = rd32 m a'"
  "a' + 8 \<le> a \<or> a + length bs \<le> a' \<Longrightarrow> rd64 (poke a bs m) a' = rd64 m a'"
  by (auto intro!: rd_cong rd64_cong simp: poke_def)

end
