(* ===== verification/Acpi.thy ===== *)
theory Acpi
  imports Bytes Vmm
begin

text \<open>
  The firmware tables (\<^verbatim>\<open>src/src/arch/x86_64/acpi.c\<close>): from the root pointer the boot loader hands
  over to the table of interrupt controllers (MADT), whose entries give the number of processors
  and the addresses of the local and the I/O controller.

  Memory is a byte per virtual address; the packed C structures are the offsets of their fields,
  and a physical address is read through the direct map.  Every table is mapped first, by \<^verbatim>\<open>mmio_map\<close>
  of theory \<open>Vmm\<close> on the page tables under \<open>acr3\<close>; a panic there (no page left for a table, or a huge
  page in the way) is a panic of \<^verbatim>\<open>acpi_init\<close>.  Reads do not fault: what a read of an address that was
  not mapped does is outside the model.  Pointers wrap at \<open>2 ^ 64\<close>.  The entry loop is a
  \<open>partial_function\<close> in the option type, so that it ends is a theorem and not a property of the
  definition.  The tables are not checksummed by the code.
\<close>

record acpi_info =
  lapic_phys :: u64
  ioapic_phys :: u64
  ioapic_gsi_base :: u32
  lapic_count :: u32

record acpi =
  info :: acpi_info
  amem :: bytes
  hhdm_response :: "nat option"
  rsdp_response :: "nat option"
  acr3 :: nat
  apmm :: pmm

definition acpi_defaults :: acpi_info where
  "acpi_defaults = \<lparr>lapic_phys = 0xFEE00000, ioapic_phys = 0xFEC00000, ioapic_gsi_base = 0,
     lapic_count = 0\<rparr>"

definition SDT_HEADER :: nat where "SDT_HEADER = 36"
definition MADT_HEADER :: nat where "MADT_HEADER = 44"
definition RSDP_V2 :: nat where "RSDP_V2 = 36"

definition rsdp_revision :: "bytes \<Rightarrow> nat \<Rightarrow> u8" where
  "rsdp_revision m p = m (p + 15)"

definition rsdt_address :: "bytes \<Rightarrow> nat \<Rightarrow> nat" where
  "rsdt_address m p = unat (rd32 m (p + 16))"

definition xsdt_address :: "bytes \<Rightarrow> nat \<Rightarrow> nat" where
  "xsdt_address m p = unat (rd64 m (p + 24))"

definition sdt_length :: "bytes \<Rightarrow> nat \<Rightarrow> nat" where
  "sdt_length m p = unat (rd32 m (p + 4))"

definition hhdm :: "acpi \<Rightarrow> nat" where
  "hhdm s = (case hhdm_response s of Some off \<Rightarrow> off | None \<Rightarrow> 0)"

definition phys_to_virt :: "nat \<Rightarrow> acpi \<Rightarrow> nat" where
  "phys_to_virt phys s = wrap64 (phys + hhdm s)"

definition map_phys :: "nat \<Rightarrow> nat \<Rightarrow> acpi \<Rightarrow> (nat \<times> acpi) result" where
  "map_phys phys span s =
     (case mmio_map (acr3 s) (phys_to_virt phys s) (of_nat phys) span (apmm s) of
        Inl msg \<Rightarrow> Inl msg
      | Inr p \<Rightarrow> Inr (phys_to_virt phys s, s\<lparr>apmm := p\<rparr>))"

text \<open>A table is mapped twice: its header, to learn its length, and then all of it.\<close>

definition map_table :: "nat \<Rightarrow> acpi \<Rightarrow> (nat \<times> acpi) result" where
  "map_table phys s =
     (case map_phys phys SDT_HEADER s of
        Inl msg \<Rightarrow> Inl msg
      | Inr (table, s1) \<Rightarrow> map_phys phys (sdt_length (amem s1) table) s1)"

fun sig_equals :: "bytes \<Rightarrow> nat \<Rightarrow> u8 list \<Rightarrow> bool" where
  "sig_equals m a [] = True"
| "sig_equals m a (b # bs) = (if m a \<noteq> b then False else sig_equals m (a + 1) bs)"

definition APIC_SIG :: "u8 list" where
  "APIC_SIG = [0x41, 0x50, 0x49, 0x43]"

definition madt_entry :: "bytes \<Rightarrow> nat \<Rightarrow> acpi_info \<Rightarrow> acpi_info" where
  "madt_entry m e a =
     (if m e = 0
      then if rd32 m (e + 4) AND 1 \<noteq> 0 then a\<lparr>lapic_count := lapic_count a + 1\<rparr> else a
      else if m e = 1
      then a\<lparr>ioapic_phys := ucast (rd32 m (e + 4)), ioapic_gsi_base := rd32 m (e + 8)\<rparr>
      else a)"

partial_function (option) madt_walk :: "bytes \<Rightarrow> nat \<Rightarrow> nat \<Rightarrow> acpi_info \<Rightarrow> acpi_info option" where
  "madt_walk m stop cursor a =
     (if cursor < stop
      then if m (cursor + 1) = 0 then Some a
           else madt_walk m stop (wrap64 (cursor + unat (m (cursor + 1)))) (madt_entry m cursor a)
      else Some a)"

definition parse_madt :: "bytes \<Rightarrow> nat \<Rightarrow> acpi_info \<Rightarrow> acpi_info option" where
  "parse_madt m madt a =
     madt_walk m (wrap64 (madt + sdt_length m madt)) (wrap64 (madt + MADT_HEADER))
       (a\<lparr>lapic_phys := ucast (rd32 m (madt + 36)), lapic_count := 0\<rparr>)"

definition root_entry :: "bytes \<Rightarrow> bool \<Rightarrow> nat \<Rightarrow> nat \<Rightarrow> nat" where
  "root_entry m use_xsdt entries i =
     (if use_xsdt then unat (rd64 m (wrap64 (entries + 8 * i))) else unat (rd32 m (wrap64 (entries + 4 * i))))"

primrec acpi_tables :: "bool \<Rightarrow> nat \<Rightarrow> nat \<Rightarrow> nat \<Rightarrow> acpi \<Rightarrow> acpi result option" where
  "acpi_tables use_xsdt entries i 0 s = Some (Inr s)"
| "acpi_tables use_xsdt entries i (Suc n) s =
     (case map_table (root_entry (amem s) use_xsdt entries i) s of
        Inl msg \<Rightarrow> Some (Inl msg)
      | Inr (table, s2) \<Rightarrow>
          if sig_equals (amem s2) table APIC_SIG
          then map_option (\<lambda>a. Inr (s2\<lparr>info := a\<rparr>)) (parse_madt (amem s2) table (info s2))
          else acpi_tables use_xsdt entries (i + 1) n s2)"

definition entry_count :: "bytes \<Rightarrow> bool \<Rightarrow> nat \<Rightarrow> nat" where
  "entry_count m use_xsdt rootp =
     sub64 (sdt_length m rootp) SDT_HEADER div (if use_xsdt then 8 else 4)"

definition acpi_init :: "acpi \<Rightarrow> acpi result option" where
  "acpi_init s =
     (case rsdp_response s of None \<Rightarrow> Some (Inr s)
      | Some rsdp_phys \<Rightarrow>
          (case map_phys rsdp_phys RSDP_V2 s of
             Inl msg \<Rightarrow> Some (Inl msg)
           | Inr (rsdp, s1) \<Rightarrow>
               let use_xsdt = (rsdp_revision (amem s1) rsdp \<ge> 2);
                   rphys = (if use_xsdt then xsdt_address (amem s1) rsdp else rsdt_address (amem s1) rsdp)
               in case map_table rphys s1 of
                    Inl msg \<Rightarrow> Some (Inl msg)
                  | Inr (rootp, s3) \<Rightarrow>
                      acpi_tables use_xsdt (wrap64 (rootp + SDT_HEADER)) 0 (entry_count (amem s3) use_xsdt rootp) s3))"

section \<open>Mapping\<close>

text \<open>A panic that mapping some range under the root table \<open>root\<close> can end in.\<close>

definition mmio_panic :: "nat \<Rightarrow> string \<Rightarrow> bool" where
  "mmio_panic root msg \<longleftrightarrow> (\<exists>virt phys span p. mmio_map root virt phys span p = Inl msg)"

text \<open>What \<^verbatim>\<open>map_phys\<close> leaves of the state: everything but the page tables.\<close>

definition same_tables :: "acpi \<Rightarrow> acpi \<Rightarrow> bool" where
  "same_tables s s' \<longleftrightarrow> s' = s\<lparr>apmm := apmm s'\<rparr>"

lemma same_tablesD:
  assumes "same_tables s s'"
  shows "amem s' = amem s" "info s' = info s" "acr3 s' = acr3 s" "phys_to_virt q s' = phys_to_virt q s"
proof -
  have "s' = s\<lparr>apmm := apmm s'\<rparr>" using assms by (simp add: same_tables_def)
  then obtain p where "s' = s\<lparr>apmm := p\<rparr>" ..
  then show "amem s' = amem s" "info s' = info s" "acr3 s' = acr3 s" "phys_to_virt q s' = phys_to_virt q s"
    by (simp_all add: phys_to_virt_def hhdm_def)
qed

lemma same_tables_trans: "same_tables s s1 \<Longrightarrow> same_tables s1 s2 \<Longrightarrow> same_tables s s2"
  unfolding same_tables_def by (metis acpi.surjective acpi.update_convs(6))

lemma map_phys_cases:
  obtains (panic) msg where "map_phys p n s = Inl msg" "mmio_panic (acr3 s) msg"
  | (mapped) s' where "map_phys p n s = Inr (phys_to_virt p s, s')" "same_tables s s'"
  by (cases "mmio_map (acr3 s) (phys_to_virt p s) (of_nat p) n (apmm s)")
    (auto simp: map_phys_def mmio_panic_def same_tables_def)

lemma map_table_cases:
  obtains (panic) msg where "map_table p s = Inl msg" "mmio_panic (acr3 s) msg"
  | (mapped) s' where "map_table p s = Inr (phys_to_virt p s, s')" "same_tables s s'"
proof (cases rule: map_phys_cases [of p SDT_HEADER s])
  case (panic msg)
  then show ?thesis using that(1) [of msg] by (simp add: map_table_def)
next
  case m1: (mapped s1)
  note f = same_tablesD [OF m1(2)]
  show ?thesis
  proof (cases rule: map_phys_cases [of p "sdt_length (amem s1) (phys_to_virt p s)" s1])
    case (panic msg)
    then show ?thesis using that(1) [of msg] m1 f by (simp add: map_table_def)
  next
    case (mapped s')
    then show ?thesis using that(2) [of s'] m1 f same_tables_trans [OF m1(2)] by (simp add: map_table_def)
  qed
qed

section \<open>The entry loop ends\<close>

lemma madt_walk_ends:
  assumes "stop + 255 < 2 ^ 64"
  shows "\<exists>a'. madt_walk m stop cursor a = Some a'"
proof (induction "stop - cursor" arbitrary: cursor a rule: less_induct)
  case less
  show ?case
  proof (cases "cursor < stop \<and> m (cursor + 1) \<noteq> 0")
    case True
    have "unat (m (cursor + 1)) < 256" using unsigned_less [of "m (cursor + 1)", where ?'a = nat] by simp
    then have w: "wrap64 (cursor + unat (m (cursor + 1))) = cursor + unat (m (cursor + 1))"
      using True assms by simp
    have "unat (m (cursor + 1)) > 0" using True by (simp add: unat_gt_0)
    with True have "stop - wrap64 (cursor + unat (m (cursor + 1))) < stop - cursor" unfolding w by linarith
    from less [OF this] True show ?thesis by (subst madt_walk.simps) simp
  next
    case False
    then show ?thesis by (subst madt_walk.simps) auto
  qed
qed

definition tbl_virt :: "acpi \<Rightarrow> bool \<Rightarrow> nat \<Rightarrow> nat \<Rightarrow> nat" where
  "tbl_virt s x e i = phys_to_virt (root_entry (amem s) x e i) s"

text \<open>A table that ends at least 256 bytes below the top of the address space.\<close>

definition table_below_top :: "bytes \<Rightarrow> nat \<Rightarrow> bool" where
  "table_below_top m v \<longleftrightarrow> v + sdt_length m v + 255 < 2 ^ 64"

lemma acpi_tables_step:
  obtains (panic) msg where "acpi_tables x e i (Suc n) s = Some (Inl msg)" "mmio_panic (acr3 s) msg"
  | (mapped) s2 where "same_tables s s2"
      "acpi_tables x e i (Suc n) s =
        (if sig_equals (amem s) (tbl_virt s x e i) APIC_SIG
         then map_option (\<lambda>a. Inr (s2\<lparr>info := a\<rparr>)) (parse_madt (amem s) (tbl_virt s x e i) (info s))
         else acpi_tables x e (i + 1) n s2)"
proof (cases rule: map_table_cases [of "root_entry (amem s) x e i" s])
  case (panic msg)
  then show ?thesis using that(1) [of msg] by simp
next
  case (mapped s2)
  then show ?thesis using that(2) [of s2] same_tablesD [OF mapped(2)] by (simp add: tbl_virt_def)
qed

declare acpi_tables.simps(2) [simp del]

lemma tbl_virt_same: "same_tables s s2 \<Longrightarrow> tbl_virt s2 x e i = tbl_virt s x e i"
  using same_tablesD [of s s2] by (simp add: tbl_virt_def)

lemma acpi_tables_ends:
  assumes "\<And>j. j < n \<Longrightarrow> sig_equals (amem s) (tbl_virt s x e (i + j)) APIC_SIG \<Longrightarrow> table_below_top (amem s) (tbl_virt s x e (i + j))"
  shows "\<exists>r. acpi_tables x e i n s = Some r \<and> (\<forall>msg. r = Inl msg \<longrightarrow> mmio_panic (acr3 s) msg)"
  using assms
proof (induction n arbitrary: i s)
  case (Suc n)
  show ?case
  proof (cases rule: acpi_tables_step [of x e i n s])
    case (mapped s2)
    note f = same_tablesD [OF mapped(1)]
    show ?thesis
    proof (cases "sig_equals (amem s) (tbl_virt s x e i) APIC_SIG")
      case True
      let ?v = "tbl_virt s x e i"
      have "?v + sdt_length (amem s) ?v + 255 < 2 ^ 64"
        using Suc.prems [of 0] True by (simp add: table_below_top_def)
      then have "wrap64 (?v + sdt_length (amem s) ?v) + 255 < 2 ^ 64" by simp
      from madt_walk_ends [OF this] obtain a where "parse_madt (amem s) ?v (info s) = Some a"
        unfolding parse_madt_def by blast
      then show ?thesis using mapped(2) True by simp
    next
      case False
      have "sig_equals (amem s2) (tbl_virt s2 x e (i + 1 + j)) APIC_SIG \<Longrightarrow>
          table_below_top (amem s2) (tbl_virt s2 x e (i + 1 + j))" if "j < n" for j
        using Suc.prems [of "Suc j"] that f tbl_virt_same [OF mapped(1)] by simp
      from Suc.IH [OF this] show ?thesis using mapped(2) False f(3) by simp
    qed
  qed auto
qed simp

text \<open>The root table as the pointer structure gives it: which of the two, and where.\<close>

definition uses_xsdt :: "acpi \<Rightarrow> nat \<Rightarrow> bool" where
  "uses_xsdt s rp \<longleftrightarrow> rsdp_revision (amem s) (phys_to_virt rp s) \<ge> 2"

definition root_virt :: "acpi \<Rightarrow> nat \<Rightarrow> nat" where
  "root_virt s rp = phys_to_virt
     (if uses_xsdt s rp then xsdt_address (amem s) (phys_to_virt rp s)
      else rsdt_address (amem s) (phys_to_virt rp s)) s"

definition nth_table :: "acpi \<Rightarrow> nat \<Rightarrow> nat \<Rightarrow> nat" where
  "nth_table s rp i = tbl_virt s (uses_xsdt s rp) (wrap64 (root_virt s rp + SDT_HEADER)) i"

lemma acpi_init_tables:
  assumes "rsdp_response s = Some rp"
  obtains (panic) msg where "acpi_init s = Some (Inl msg)" "mmio_panic (acr3 s) msg"
  | (mapped) s3 where "same_tables s s3"
      "acpi_init s = acpi_tables (uses_xsdt s rp) (wrap64 (root_virt s rp + SDT_HEADER)) 0
         (entry_count (amem s) (uses_xsdt s rp) (root_virt s rp)) s3"
proof (cases rule: map_phys_cases [of rp RSDP_V2 s])
  case (panic msg)
  then show ?thesis using that(1) [of msg] assms by (simp add: acpi_init_def)
next
  case m1: (mapped s1)
  note f = same_tablesD [OF m1(2)]
  let ?r = "if uses_xsdt s rp then xsdt_address (amem s) (phys_to_virt rp s) else rsdt_address (amem s) (phys_to_virt rp s)"
  have e: "acpi_init s = (case map_table ?r s1 of Inl msg \<Rightarrow> Some (Inl msg)
      | Inr (rootp, s3) \<Rightarrow> acpi_tables (uses_xsdt s rp) (wrap64 (rootp + SDT_HEADER)) 0
          (entry_count (amem s3) (uses_xsdt s rp) rootp) s3)"
    using assms m1(1) unfolding uses_xsdt_def f(1) [symmetric] by (simp add: acpi_init_def Let_def)
  show ?thesis
  proof (cases rule: map_table_cases [of ?r s1])
    case (panic msg)
    show ?thesis by (rule that(1) [of msg]) (use e panic f(3) in simp_all)
  next
    case (mapped s3)
    have t: "same_tables s s3" using same_tables_trans [OF m1(2) mapped(2)] .
    show ?thesis
      by (rule that(2) [OF t]) (use e mapped(1) same_tablesD(1) [OF t] f(4) in \<open>simp add: root_virt_def\<close>)
  qed
qed

text \<open>C20: \<^verbatim>\<open>acpi_init\<close> comes to an end, with a result or in a panic of \<^verbatim>\<open>mmio_map\<close>, whatever bytes the firmware left
  in the tables it is pointed to, provided reads do not fault and no table with the signature of the MADT ends in
  the last 255 bytes of the address space, where the cursor could wrap: an entry of length 0, on which the walk
  could not advance, ends it, and every other entry moves the cursor towards the end of the table.  (The number of
  tables is finite, but with a root table that gives itself a length below 36 it is about \<open>2 ^ 61\<close>.)\<close>

theorem acpi_init_terminates:
  assumes "\<And>rp j. rsdp_response s = Some rp \<Longrightarrow> j < entry_count (amem s) (uses_xsdt s rp) (root_virt s rp) \<Longrightarrow>
      sig_equals (amem s) (nth_table s rp j) APIC_SIG \<Longrightarrow> table_below_top (amem s) (nth_table s rp j)"
  shows "\<exists>r. acpi_init s = Some r \<and> (\<forall>msg. r = Inl msg \<longrightarrow> mmio_panic (acr3 s) msg)"
proof (cases "rsdp_response s")
  case None
  then show ?thesis by (simp add: acpi_init_def)
next
  case (Some rp)
  from Some show ?thesis
  proof (cases rule: acpi_init_tables)
    case (mapped s3)
    note f = same_tablesD [OF mapped(1)]
    let ?x = "uses_xsdt s rp" and ?e = "wrap64 (root_virt s rp + SDT_HEADER)"
    have "\<exists>r. acpi_tables ?x ?e 0 (entry_count (amem s) ?x (root_virt s rp)) s3 = Some r \<and>
        (\<forall>msg. r = Inl msg \<longrightarrow> mmio_panic (acr3 s3) msg)"
      by (rule acpi_tables_ends) (use assms [OF Some] f tbl_virt_same [OF mapped(1)] in \<open>simp add: nth_table_def\<close>)
    then show ?thesis using mapped(2) f(3) by simp
  qed auto
qed

section \<open>What is read from well-formed tables\<close>

datatype madt_ent =
    Lapic u8 u8 u32
  | Ioapic u8 u32 u32
  | OtherEnt u8 "u8 list"

fun ent_ok :: "madt_ent \<Rightarrow> bool" where
  "ent_ok (OtherEnt t bs) \<longleftrightarrow> t \<noteq> 0 \<and> t \<noteq> 1 \<and> length bs \<le> 253"
| "ent_ok _ \<longleftrightarrow> True"

fun ent_bytes :: "madt_ent \<Rightarrow> u8 list" where
  "ent_bytes (Lapic pid aid fl) = [0, 8, pid, aid] @ bytes32 fl"
| "ent_bytes (Ioapic iid addr gsi) = [1, 12, iid, 0] @ bytes32 addr @ bytes32 gsi"
| "ent_bytes (OtherEnt t bs) = [t, of_nat (2 + length bs)] @ bs"

fun ent_apply :: "madt_ent \<Rightarrow> acpi_info \<Rightarrow> acpi_info" where
  "ent_apply (Lapic pid aid fl) a = (if bit fl 0 then a\<lparr>lapic_count := lapic_count a + 1\<rparr> else a)"
| "ent_apply (Ioapic iid addr gsi) a = a\<lparr>ioapic_phys := ucast addr, ioapic_gsi_base := gsi\<rparr>"
| "ent_apply (OtherEnt t bs) a = a"

lemma ent_step:
  assumes "ent_ok e" "mem_at m c (ent_bytes e)"
  shows "madt_entry m c a = ent_apply e a" "unat (m (c + 1)) = length (ent_bytes e)"
    "0 < length (ent_bytes e)"
proof -
  have n: "unat (of_nat (2 + k) :: u8) = 2 + k" if "k \<le> 253" for k
    using that by (simp only: unat_of_nat) simp
  have b0: "(x :: u32) AND 1 \<noteq> 0 \<longleftrightarrow> bit x 0" for x
    using and_exp_eq_0_iff_not_bit [of x 0] by simp
  show "madt_entry m c a = ent_apply e a"
    using assms rd32_bytes [of m "c + 4"] rd32_bytes [of m "c + 8"]
    by (cases e) (auto simp: madt_entry_def b0 bytes32_def numeral_eq_Suc)
  show "unat (m (c + 1)) = length (ent_bytes e)"
    using assms n by (cases e) (auto simp: bytes32_def)
  show "0 < length (ent_bytes e)" by (cases e) auto
qed

lemma madt_walk_entries:
  assumes "list_all ent_ok es" "mem_at m c (concat (map ent_bytes es))" "c + length (concat (map ent_bytes es)) < 2 ^ 64"
  shows "madt_walk m (c + length (concat (map ent_bytes es))) c a = Some (fold ent_apply es a)"
  using assms
proof (induction es arbitrary: c a)
  case Nil
  show ?case by (subst madt_walk.simps) simp
next
  case (Cons e es)
  have e: "ent_ok e" "mem_at m c (ent_bytes e)" using Cons.prems by simp_all
  note s = ent_step [OF e]
  have "m (c + 1) \<noteq> 0" using s(2,3) by auto
  then show ?case using s Cons.prems Cons.IH [of "c + length (ent_bytes e)" "ent_apply e a"]
    by (subst madt_walk.simps) (simp add: add.assoc)
qed

definition madt_at :: "bytes \<Rightarrow> nat \<Rightarrow> u32 \<Rightarrow> madt_ent list \<Rightarrow> bool" where
  "madt_at m v lapic es \<longleftrightarrow> sig_equals m v APIC_SIG \<and> rd32 m (v + 36) = lapic \<and>
     list_all ent_ok es \<and> mem_at m (v + 44) (concat (map ent_bytes es)) \<and>
     sdt_length m v = 44 + length (concat (map ent_bytes es)) \<and> v + sdt_length m v < 2 ^ 64"

lemma parse_madt_entries:
  assumes "madt_at m v lapic es"
  shows "parse_madt m v a = Some (fold ent_apply es (a\<lparr>lapic_phys := ucast lapic, lapic_count := 0\<rparr>))"
proof -
  let ?n = "length (concat (map ent_bytes es))"
  have "v + (44 + ?n) < 2 ^ 64" "sdt_length m v = 44 + ?n" using assms by (simp_all add: madt_at_def)
  then have w: "wrap64 (v + sdt_length m v) = v + 44 + ?n" "wrap64 (v + MADT_HEADER) = v + 44" "v + 44 + ?n < 2 ^ 64"
    by (simp_all add: MADT_HEADER_def)
  then show ?thesis using assms madt_walk_entries [of es m "v + 44"]
    unfolding parse_madt_def w by (simp add: madt_at_def)
qed

text \<open>The outcome of \<^verbatim>\<open>acpi_init\<close>: the information \<open>a\<close>, or a panic of mapping.\<close>

definition gives :: "nat \<Rightarrow> acpi_info \<Rightarrow> acpi result \<Rightarrow> bool" where
  "gives root a r \<longleftrightarrow> (case r of Inl msg \<Rightarrow> mmio_panic root msg | Inr s' \<Rightarrow> info s' = a)"

lemma gives_simps [simp]: "gives root a (Inl msg) = mmio_panic root msg" "gives root a (Inr s') = (info s' = a)"
  by (simp_all add: gives_def)

lemma acpi_tables_finds:
  assumes "k < n" "madt_at (amem s) (tbl_virt s x e (i + k)) lapic es"
    "\<And>j. j < k \<Longrightarrow> \<not> sig_equals (amem s) (tbl_virt s x e (i + j)) APIC_SIG"
  shows "\<exists>r. acpi_tables x e i n s = Some r \<and> gives (acr3 s) (fold ent_apply es ((info s)\<lparr>lapic_phys := ucast lapic, lapic_count := 0\<rparr>)) r"
  using assms
proof (induction k arbitrary: i n s)
  case 0
  then obtain n' where n: "n = Suc n'" by (cases n) auto
  have g: "sig_equals (amem s) (tbl_virt s x e i) APIC_SIG"
    using "0.prems"(2) by (simp add: madt_at_def)
  show ?case
  proof (cases rule: acpi_tables_step [of x e i n' s])
    case (mapped s2)
    then show ?thesis using "0.prems"(2) g n by (simp add: parse_madt_entries)
  qed (simp add: n)
next
  case (Suc k)
  then obtain n' where n: "n = Suc n'" by (cases n) auto
  have g: "\<not> sig_equals (amem s) (tbl_virt s x e i) APIC_SIG" using Suc.prems(3) [of 0] by simp
  show ?case
  proof (cases rule: acpi_tables_step [of x e i n' s])
    case (mapped s2)
    note f = same_tablesD [OF mapped(1)] tbl_virt_same [OF mapped(1)]
    have "\<not> sig_equals (amem s) (tbl_virt s x e (i + 1 + j)) APIC_SIG" if "j < k" for j
      using Suc.prems(3) [of "Suc j"] that by simp
    then show ?thesis using Suc.IH [of n' s2 "i + 1"] Suc.prems(1,2) n f g mapped(2) by simp
  qed (simp add: n)
qed

lemma acpi_tables_none:
  assumes "\<And>j. j < n \<Longrightarrow> \<not> sig_equals (amem s) (tbl_virt s x e (i + j)) APIC_SIG"
  shows "\<exists>r. acpi_tables x e i n s = Some r \<and> gives (acr3 s) (info s) r"
  using assms
proof (induction n arbitrary: i s)
  case (Suc n)
  have g: "\<not> sig_equals (amem s) (tbl_virt s x e i) APIC_SIG" using Suc.prems [of 0] by simp
  show ?case
  proof (cases rule: acpi_tables_step [of x e i n s])
    case (mapped s2)
    note f = same_tablesD [OF mapped(1)] tbl_virt_same [OF mapped(1)]
    have "\<not> sig_equals (amem s) (tbl_virt s x e (i + 1 + j)) APIC_SIG" if "j < n" for j
      using Suc.prems [of "Suc j"] that by simp
    then show ?thesis using Suc.IH [of s2 "i + 1"] f g mapped(2) by simp
  qed simp
qed simp

text \<open>C19: from the root pointer to the processor count: when the \<open>k\<close>-th table of the root table
  (of 64-bit addresses from revision 2 on, of 32-bit ones before) is the first with the signature
  \<^verbatim>\<open>APIC\<close>, and holds the entries \<open>es\<close> in their binary form, \<^verbatim>\<open>acpi_init\<close> returns and records what the entries say:
  the local controller's address from the header, one processor per enabled entry, and the address
  and interrupt base of the last I/O controller listed; or mapping one of the tables on the way panics.\<close>

theorem acpi_init_reads_madt:
  assumes "rsdp_response s = Some rp"
    and "k < entry_count (amem s) (uses_xsdt s rp) (root_virt s rp)"
    and "madt_at (amem s) (nth_table s rp k) lapic es"
    and "\<And>j. j < k \<Longrightarrow> \<not> sig_equals (amem s) (nth_table s rp j) APIC_SIG"
  shows "\<exists>r. acpi_init s = Some r \<and> gives (acr3 s) (fold ent_apply es ((info s)\<lparr>lapic_phys := ucast lapic, lapic_count := 0\<rparr>)) r"
  using assms(1)
proof (cases rule: acpi_init_tables)
  case (mapped s3)
  note f = same_tablesD [OF mapped(1)] tbl_virt_same [OF mapped(1)]
  show ?thesis
    using assms(2-4) mapped(2) f
      acpi_tables_finds [of k _ s3 "uses_xsdt s rp" "wrap64 (root_virt s rp + SDT_HEADER)" 0 lapic es]
    unfolding nth_table_def by simp
qed auto

definition example_acpi :: acpi where
  "example_acpi = \<lparr>info = acpi_defaults,
     amem = (\<lambda>_. 0)(0x11 := 1, 0x104 := 40, 0x125 := 2,
       0x200 := 0x41, 0x201 := 0x50, 0x202 := 0x49, 0x203 := 0x43, 0x204 := 64, 0x226 := 0xE0, 0x227 := 0xFE,
       0x22D := 8, 0x230 := 1,
       0x234 := 1, 0x235 := 12, 0x23A := 0xC0, 0x23B := 0xFE),
     hhdm_response = None, rsdp_response = Some 0, acr3 = 0,
     apmm = example_pmm\<lparr>ram := (\<lambda>a. if a mod 8 = 0 then 1 else 0)\<rparr>\<rparr>"

text \<open>In the example all page tables are one table whose entries point to itself, so mapping succeeds.\<close>

definition self_mapped :: "pmm \<Rightarrow> bool" where
  "self_mapped p \<longleftrightarrow> pt_read p 0 0 \<in> {1, 19}"

lemma self_mapped_map:
  assumes "self_mapped p" "0 < v + span" "v + span \<le> 4096" "v < 4096"
  shows "\<exists>p'. mmio_map 0 v (of_nat v) span p = Inr p' \<and> self_mapped p'"
proof -
  have e: "present x" "\<not> huge x" "Vmm.table_virt x = 0" if "x \<in> {1, 19}" for x :: u64
    using that by (auto simp: present_def huge_def Vmm.table_virt_def)
  have n: "next_table 0 0 p = Inr (0, p)"
    using e [of "pt_read p 0 0"] assms(1) by (simp add: next_table_def self_mapped_def)
  have f: "leaf_flags (VMM_W OR VMM_PCD) = 19" by (simp add: leaf_flags_def VMM_W_def VMM_PCD_def VMM_USER_def VMM_NX_def)
  have z: "(of_nat v :: u64) AND NOT 4095 = 0"
  proof -
    have "v = take_bit 12 v" using assms(4) by (simp add: take_bit_nat_eq_self)
    then have "(of_nat v :: u64) = take_bit 12 (of_nat v)" by (metis of_nat_take_bit)
    moreover have "take_bit 12 (w :: u64) AND NOT (mask 12) = 0" for w by (rule bit_eqI) (auto simp: bit_simps)
    moreover have "(mask 12 :: u64) = 4095" by (simp add: mask_eq_exp_minus_1)
    ultimately show ?thesis by metis
  qed
  have r: "page_down v = 0" "range_end v span = 4096"
    using assms(2-4) by (auto simp: page_down_def range_end_def)
  have "map_loop 0 0 4096 0 19 p = Inr (pt_write 0 0 19 p)"
  proof -
    have "map_page 0 0 0 19 p = Inr (pt_write 0 0 19 p)" by (simp add: map_page_def n pt_index_def)
    then show ?thesis by (subst map_loop.simps) (simp add: map_loop.simps [of 0 4096])
  qed
  then have "mmio_map 0 v (of_nat v) span p = Inr (pt_write 0 0 19 p)"
    by (simp only: mmio_map_def vmm_map_def r f z)
  moreover have "self_mapped (pt_write 0 0 19 p)" by (simp add: self_mapped_def pt_read_def pt_write_def)
  ultimately show ?thesis by blast
qed

lemma example_maps:
  assumes "acr3 s = 0" "hhdm_response s = None" "self_mapped (apmm s)" "v + span \<le> 4096" "v < 4096" "0 < v + span"
  shows "\<exists>p. map_phys v span s = Inr (v, s\<lparr>apmm := p\<rparr>) \<and> self_mapped p"
  using self_mapped_map [OF assms(3,6,4,5)] assms(1,2,5) by (auto simp: map_phys_def phys_to_virt_def hhdm_def)

lemma example_maps_table:
  assumes "acr3 s = 0" "hhdm_response s = None" "self_mapped (apmm s)" "v + 36 \<le> 4096" "v + sdt_length (amem s) v \<le> 4096" "0 < v"
  shows "\<exists>p. map_table v s = Inr (v, s\<lparr>apmm := p\<rparr>) \<and> self_mapped p"
proof -
  obtain p where p: "map_phys v 36 s = Inr (v, s\<lparr>apmm := p\<rparr>)" "self_mapped p"
    using example_maps [OF assms(1-3), of v 36] assms(4) by auto
  obtain q where "map_phys v (sdt_length (amem s) v) (s\<lparr>apmm := p\<rparr>) = Inr (v, s\<lparr>apmm := q\<rparr>)" "self_mapped q"
    using example_maps [of "s\<lparr>apmm := p\<rparr>" v "sdt_length (amem s) v"] assms p(2) by auto
  then show ?thesis using p(1) by (intro exI [of _ q]) (simp add: map_table_def SDT_HEADER_def)
qed

lemma example_facts:
  "uses_xsdt example_acpi 0 = False" "root_virt example_acpi 0 = 0x100" "nth_table example_acpi 0 0 = 0x200"
  "entry_count (amem example_acpi) False 0x100 = 1" "rsdp_response example_acpi = Some 0"
  "madt_at (amem example_acpi) 0x200 0xFEE00000 [Lapic 0 0 1, Ioapic 0 0xFEC00000 0]"
proof -
  show x: "uses_xsdt example_acpi 0 = False"
    by (simp add: uses_xsdt_def rsdp_revision_def example_acpi_def phys_to_virt_def hhdm_def)
  show r: "root_virt example_acpi 0 = 0x100"
    unfolding root_virt_def x by (simp add: rsdt_address_def rd32_def example_acpi_def phys_to_virt_def hhdm_def)
  show "nth_table example_acpi 0 0 = 0x200"
    unfolding nth_table_def x r by (simp add: tbl_virt_def root_entry_def SDT_HEADER_def rd32_def
        example_acpi_def phys_to_virt_def hhdm_def)
  show "entry_count (amem example_acpi) False 0x100 = 1"
    by (simp add: entry_count_def sdt_length_def rd32_def example_acpi_def SDT_HEADER_def)
  show "madt_at (amem example_acpi) 0x200 0xFEE00000 [Lapic 0 0 1, Ioapic 0 0xFEC00000 0]"
    by (simp add: madt_at_def example_acpi_def APIC_SIG_def rd32_def sdt_length_def bytes32_def)
qed (simp add: example_acpi_def)

lemma example_returns: "\<exists>s'. acpi_init example_acpi = Some (Inr s')"
proof -
  let ?s = example_acpi
  have sm: "self_mapped (apmm ?s)"
    by (simp add: self_mapped_def pt_read_def example_acpi_def read64_def)
  have f: "acr3 ?s = 0" "hhdm_response ?s = None" by (simp_all add: example_acpi_def)
  obtain p where p: "map_phys 0 RSDP_V2 ?s = Inr (0, ?s\<lparr>apmm := p\<rparr>)" "self_mapped p"
    using example_maps [OF f sm, of 0 36] by (auto simp: RSDP_V2_def)
  have l: "sdt_length (amem ?s) 0x100 = 40" "sdt_length (amem ?s) 0x200 = 64"
    by (simp_all add: sdt_length_def rd32_def example_acpi_def)
  obtain q where q: "map_table 0x100 (?s\<lparr>apmm := p\<rparr>) = Inr (0x100, ?s\<lparr>apmm := q\<rparr>)" "self_mapped q"
    using example_maps_table [of "?s\<lparr>apmm := p\<rparr>" "0x100"] f p(2) l by auto
  obtain t where t: "map_table 0x200 (?s\<lparr>apmm := q\<rparr>) = Inr (0x200, ?s\<lparr>apmm := t\<rparr>)"
    using example_maps_table [of "?s\<lparr>apmm := q\<rparr>" "0x200"] f q(2) l by auto
  have "rsdp_revision (amem ?s) 0 = 0" "rsdt_address (amem ?s) 0 = 0x100"
    by (simp_all add: rsdp_revision_def rsdt_address_def rd32_def example_acpi_def)
  then have i: "acpi_init ?s = acpi_tables False (0x100 + 36) 0 1 (?s\<lparr>apmm := q\<rparr>)"
    using p(1) q(1) example_facts(4,5) by (simp add: acpi_init_def Let_def SDT_HEADER_def)
  have "root_entry (amem ?s) False (0x100 + 36) 0 = 0x200" by (simp add: root_entry_def rd32_def example_acpi_def)
  moreover have "sig_equals (amem ?s) 0x200 APIC_SIG" using example_facts(6) by (simp add: madt_at_def)
  ultimately show ?thesis
    unfolding i One_nat_def acpi_tables.simps using t parse_madt_entries [OF example_facts(6)] by simp
qed

lemma acpi_init_reads_madt_witness:
  "\<exists>s'. acpi_init example_acpi = Some (Inr s') \<and>
     info s' = \<lparr>lapic_phys = 0xFEE00000, ioapic_phys = 0xFEC00000, ioapic_gsi_base = 0, lapic_count = 1\<rparr>"
  using acpi_init_reads_madt [OF example_facts(5), of 0 "0xFEE00000" "[Lapic 0 0 1, Ioapic 0 0xFEC00000 0]"] example_returns
    example_facts by (auto simp: example_acpi_def acpi_defaults_def)

lemma acpi_init_terminates_witness: "\<exists>r. acpi_init example_acpi = Some r"
proof -
  have "table_below_top (amem example_acpi) 0x200"
    by (simp add: table_below_top_def sdt_length_def rd32_def example_acpi_def)
  then have "\<exists>r. acpi_init example_acpi = Some r \<and> (\<forall>msg. r = Inl msg \<longrightarrow> mmio_panic (acr3 example_acpi) msg)"
    by (intro acpi_init_terminates) (use example_facts in auto)
  then show ?thesis by blast
qed

lemma fold_ent_count:
  "lapic_count (fold ent_apply es a) =
     lapic_count a + of_nat (length (filter (\<lambda>e. \<exists>p i f. e = Lapic p i f \<and> bit f 0) es))"
proof (induction es arbitrary: a)
  case (Cons e es)
  then show ?case by (cases e) (auto simp: algebra_simps)
qed simp

lemma acpi_init_no_madt:
  assumes "rsdp_response s = Some rp"
    and "\<And>j. j < entry_count (amem s) (uses_xsdt s rp) (root_virt s rp) \<Longrightarrow>
      \<not> sig_equals (amem s) (nth_table s rp j) APIC_SIG"
  shows "\<exists>r. acpi_init s = Some r \<and> gives (acr3 s) (info s) r"
  using assms(1)
proof (cases rule: acpi_init_tables)
  case (mapped s3)
  note f = same_tablesD [OF mapped(1)] tbl_virt_same [OF mapped(1)]
  show ?thesis
    using assms(2) mapped(2) f acpi_tables_none [of _ s3 "uses_xsdt s rp" "wrap64 (root_virt s rp + SDT_HEADER)" 0]
    unfolding nth_table_def by simp
qed auto

text \<open>A root table whose length field is below the size of its header is taken to have about
  \<open>2 ^ 64\<close> bytes of entries: the length is not checked before the header is subtracted.\<close>

lemma short_root_table:
  assumes "sdt_length m rootp < SDT_HEADER"
  shows "entry_count m x rootp \<ge> 2 ^ 60"
  using assms by (auto simp: entry_count_def sub64_def wrap64_def SDT_HEADER_def)

end
