(* ===== verification/Pci.thy ===== *)
theory Pci
  imports Prelude
begin

text \<open>
  PCI enumeration (\<^verbatim>\<open>src/src/pci/pci.c\<close>).  Configuration space is reached through two ports: the
  register number goes to \<^verbatim>\<open>CONFIG_ADDRESS\<close>, the data through \<^verbatim>\<open>CONFIG_DATA\<close>.  What a device makes
  of a written value is its own business (read-only bits, size bits of a base address register,
  write-one-to-clear bits), so the device is a parameter \<open>l\<close>: \<open>l a old v\<close> is what register \<open>a\<close>,
  holding \<open>old\<close>, holds after \<open>v\<close> was written to it.  The properties name the bits of the PCI
  specification they rely on as hypotheses about \<open>l\<close>.

  The theory shows that the bus walk lists exactly the functions that answer, in bus order and up
  to the size of the table, that a base address register is decoded to its address and size and
  put back, and what the 16-bit accessors do to the other half of a register.
\<close>

type_synonym latch = "u32 \<Rightarrow> u32 \<Rightarrow> u32 \<Rightarrow> u32"

record pci_bar =
  bar_base :: u64
  bar_size :: u64
  bar_type :: u8
  bar_is_64bit :: u8
  bar_prefetchable :: u8

record pci_device =
  pd_bus :: u8
  pd_slot :: u8
  pd_func :: u8
  pd_vendor_id :: u16
  pd_device_id :: u16
  pd_class_code :: u8
  pd_subclass :: u8
  pd_prog_if :: u8
  pd_revision :: u8
  pd_header_type :: u8
  pd_bars :: "pci_bar list"

record pci =
  cf8 :: u32
  cfg :: "u32 \<Rightarrow> u32"
  pdevices :: "pci_device list"
  device_count :: nat

definition PCI_MAX_DEVICES :: nat where "PCI_MAX_DEVICES = 96"
definition PCI_BAR_COUNT :: nat where "PCI_BAR_COUNT = 6"
definition PCI_BAR_MEM :: u8 where "PCI_BAR_MEM = 0"
definition PCI_BAR_IO :: u8 where "PCI_BAR_IO = 1"
definition CONFIG_ADDRESS :: u16 where "CONFIG_ADDRESS = 0xCF8"
definition CONFIG_DATA :: u16 where "CONFIG_DATA = 0xCFC"

definition pci_outl :: "latch \<Rightarrow> u16 \<Rightarrow> u32 \<Rightarrow> pci \<Rightarrow> pci" where
  "pci_outl l port v s =
     (if port = CONFIG_ADDRESS then s\<lparr>cf8 := v\<rparr>
      else if port = CONFIG_DATA
      then s\<lparr>cfg := (cfg s)(cf8 s := l (cf8 s) (cfg s (cf8 s)) v)\<rparr>
      else s)"

definition pci_inl :: "u16 \<Rightarrow> pci \<Rightarrow> u32" where
  "pci_inl port s = (if port = CONFIG_DATA then cfg s (cf8 s) else cf8 s)"

definition bdf_addr :: "u8 \<Rightarrow> u8 \<Rightarrow> u8 \<Rightarrow> u8 \<Rightarrow> u32" where
  "bdf_addr bus slot func off =
     push_bit 31 1 OR push_bit 16 (ucast bus) OR push_bit 11 (ucast slot) OR
     push_bit 8 (ucast func) OR ucast (off AND 0xFC)"

definition raw_read32 :: "latch \<Rightarrow> u8 \<Rightarrow> u8 \<Rightarrow> u8 \<Rightarrow> u8 \<Rightarrow> pci \<Rightarrow> u32 \<times> pci" where
  "raw_read32 l bus slot func off s =
     (let s1 = pci_outl l CONFIG_ADDRESS (bdf_addr bus slot func off) s
      in (pci_inl CONFIG_DATA s1, s1))"

definition raw_write32 :: "latch \<Rightarrow> u8 \<Rightarrow> u8 \<Rightarrow> u8 \<Rightarrow> u8 \<Rightarrow> u32 \<Rightarrow> pci \<Rightarrow> pci" where
  "raw_write32 l bus slot func off v s =
     pci_outl l CONFIG_DATA v (pci_outl l CONFIG_ADDRESS (bdf_addr bus slot func off) s)"

definition pci_cfg_read32 :: "latch \<Rightarrow> pci_device \<Rightarrow> u8 \<Rightarrow> pci \<Rightarrow> u32 \<times> pci" where
  "pci_cfg_read32 l d off s = raw_read32 l (pd_bus d) (pd_slot d) (pd_func d) off s"

definition pci_cfg_read16 :: "latch \<Rightarrow> pci_device \<Rightarrow> u8 \<Rightarrow> pci \<Rightarrow> u16 \<times> pci" where
  "pci_cfg_read16 l d off s =
     (let (v, s1) = raw_read32 l (pd_bus d) (pd_slot d) (pd_func d) (off AND NOT 3) s
      in (ucast (drop_bit (unat (off AND 2) * 8) v), s1))"

definition pci_cfg_read8 :: "latch \<Rightarrow> pci_device \<Rightarrow> u8 \<Rightarrow> pci \<Rightarrow> u8 \<times> pci" where
  "pci_cfg_read8 l d off s =
     (let (v, s1) = raw_read32 l (pd_bus d) (pd_slot d) (pd_func d) (off AND NOT 3) s
      in (ucast (drop_bit (unat (off AND 3) * 8) v), s1))"

definition pci_cfg_write32 :: "latch \<Rightarrow> pci_device \<Rightarrow> u8 \<Rightarrow> u32 \<Rightarrow> pci \<Rightarrow> pci" where
  "pci_cfg_write32 l d off v s = raw_write32 l (pd_bus d) (pd_slot d) (pd_func d) off v s"

definition pci_cfg_write16 :: "latch \<Rightarrow> pci_device \<Rightarrow> u8 \<Rightarrow> u16 \<Rightarrow> pci \<Rightarrow> pci" where
  "pci_cfg_write16 l d off v s =
     (let aligned = off AND NOT 3;
          (cur, s1) = raw_read32 l (pd_bus d) (pd_slot d) (pd_func d) aligned s;
          shift = unat (off AND 2) * 8;
          cur' = (cur AND NOT (push_bit shift 0xFFFF)) OR push_bit shift (ucast v)
      in raw_write32 l (pd_bus d) (pd_slot d) (pd_func d) aligned cur' s1)"

definition bar_reg :: "nat \<Rightarrow> u8" where
  "bar_reg i = 0x10 + of_nat (i * 4)"

definition set_bar :: "nat \<Rightarrow> pci_bar \<Rightarrow> pci_device \<Rightarrow> pci_device" where
  "set_bar i b d = d\<lparr>pd_bars := (pd_bars d)[i := b]\<rparr>"

definition bar_cleared :: pci_bar where
  "bar_cleared = \<lparr>bar_base = 0, bar_size = 0, bar_type = PCI_BAR_MEM, bar_is_64bit = 0,
     bar_prefetchable = 0\<rparr>"

definition bar_probe :: "latch \<Rightarrow> u8 \<Rightarrow> u8 \<Rightarrow> u8 \<Rightarrow> u8 \<Rightarrow> u32 \<Rightarrow> pci \<Rightarrow> u32 \<times> pci" where
  "bar_probe l bus slot func off orig s =
     (let s1 = raw_write32 l bus slot func off 0xFFFFFFFF s;
          (probe, s2) = raw_read32 l bus slot func off s1
      in (probe, raw_write32 l bus slot func off orig s2))"

definition decode_bar :: "latch \<Rightarrow> pci_device \<Rightarrow> nat \<Rightarrow> bool \<Rightarrow> pci \<Rightarrow> pci_device \<times> bool \<times> pci" where
  "decode_bar l d i skip s =
     (let off = bar_reg i;
          (orig, s1) = raw_read32 l (pd_bus d) (pd_slot d) (pd_func d) off s;
          bar = bar_cleared
      in if orig = 0 then (set_bar i bar d, skip, s1)
         else let (probe, s2) = bar_probe l (pd_bus d) (pd_slot d) (pd_func d) off orig s1
      in if orig AND 1 \<noteq> 0
         then let bar = bar\<lparr>bar_type := PCI_BAR_IO\<rparr>;
                  msk = probe AND NOT 3
              in if msk = 0 then (set_bar i bar d, skip, s2)
                 else (set_bar i (bar\<lparr>bar_base := ucast (orig AND NOT 3),
                                      bar_size := ucast (NOT msk + 1)\<rparr>) d, skip, s2)
         else let kind = drop_bit 1 orig AND 3;
                  bar = bar\<lparr>bar_prefetchable := ucast (drop_bit 3 orig AND 1)\<rparr>;
                  base_lo = orig AND NOT 0xF;
                  probe_lo = probe AND NOT 0xF
              in if kind = 2 \<and> i < PCI_BAR_COUNT - 1
                 then let (orig_hi, s3) =
                            raw_read32 l (pd_bus d) (pd_slot d) (pd_func d) (off + 4) s2;
                          (probe_hi, s4) =
                            bar_probe l (pd_bus d) (pd_slot d) (pd_func d) (off + 4) orig_hi s3;
                          full_probe = push_bit 32 (ucast probe_hi) OR (ucast probe_lo :: u64);
                          full_base = push_bit 32 (ucast orig_hi) OR (ucast base_lo :: u64)
                      in (set_bar i (bar\<lparr>bar_is_64bit := 1, bar_base := full_base,
                            bar_size := (if full_probe \<noteq> 0 then NOT full_probe + 1 else 0)\<rparr>) d,
                          True, s4)
                 else (set_bar i (bar\<lparr>bar_base := ucast base_lo,
                         bar_size := (if probe_lo \<noteq> 0
                           then (NOT (ucast probe_lo) + 1) AND 0xFFFFFFFF else 0)\<rparr>) d, skip, s2))"

fun decode_bars :: "latch \<Rightarrow> nat list \<Rightarrow> pci_device \<times> bool \<times> pci \<Rightarrow> pci_device \<times> bool \<times> pci" where
  "decode_bars l [] x = x"
| "decode_bars l (i # is) (d, skip, s) =
     decode_bars l is (if skip then (d, False, s) else decode_bar l d i skip s)"

definition fill_device :: "u8 \<Rightarrow> u8 \<Rightarrow> u8 \<Rightarrow> u32 \<Rightarrow> u32 \<Rightarrow> u32 \<Rightarrow> pci_device \<Rightarrow> pci_device" where
  "fill_device bus slot func idw class_info hdr d =
     d\<lparr>pd_bus := bus, pd_slot := slot, pd_func := func,
       pd_vendor_id := ucast idw, pd_device_id := ucast (drop_bit 16 idw),
       pd_revision := ucast class_info,
       pd_prog_if := ucast (drop_bit 8 class_info),
       pd_subclass := ucast (drop_bit 16 class_info),
       pd_class_code := ucast (drop_bit 24 class_info),
       pd_header_type := ucast (drop_bit 16 hdr AND 0x7F)\<rparr>"

definition probe_function :: "latch \<Rightarrow> u8 \<Rightarrow> u8 \<Rightarrow> u8 \<Rightarrow> pci \<Rightarrow> pci" where
  "probe_function l bus slot func s =
     (if device_count s \<ge> PCI_MAX_DEVICES then s
      else let (id, s1) = raw_read32 l bus slot func 0x00 s;
               vendor = (ucast id :: u16)
      in if vendor = 0xFFFF then s1
         else let n = device_count s1;
                  s2 = s1\<lparr>device_count := n + 1\<rparr>;
                  (class_info, s3) = raw_read32 l bus slot func 0x08 s2;
                  (hdr, s4) = raw_read32 l bus slot func 0x0C s3;
                  d = fill_device bus slot func id class_info hdr (pdevices s4 ! n);
                  bar_cap = (if pd_header_type d = 0 then PCI_BAR_COUNT else 2);
                  (d', skip, s5) = decode_bars l [0..<bar_cap] (d, False, s4)
              in s5\<lparr>pdevices := (pdevices s5)[n := d']\<rparr>)"

definition pci_scan_slot :: "latch \<Rightarrow> nat \<Rightarrow> nat \<Rightarrow> pci \<Rightarrow> pci" where
  "pci_scan_slot l bus slot s =
     (let (id, s1) = raw_read32 l (of_nat bus) (of_nat slot) 0 0x00 s
      in if (ucast id :: u16) = 0xFFFF then s1
         else let (h, s2) = raw_read32 l (of_nat bus) (of_nat slot) 0 0x0C s1;
                  hdr = (ucast (drop_bit 16 h AND 0xFF) :: u8);
                  funcs = (if hdr AND 0x80 \<noteq> 0 then 8 else 1)
              in fold (\<lambda>f. probe_function l (of_nat bus) (of_nat slot) (of_nat f)) [0..<funcs] s2)"

definition pci_init :: "latch \<Rightarrow> pci \<Rightarrow> pci" where
  "pci_init l s =
     fold (\<lambda>bus. fold (pci_scan_slot l bus) [0..<32]) [0..<256] (s\<lparr>device_count := 0\<rparr>)"

definition pci_find_class :: "u8 \<Rightarrow> u8 \<Rightarrow> pci \<Rightarrow> nat option" where
  "pci_find_class class_code subclass s =
     scan (\<lambda>i. let d = pdevices s ! i in
             \<not> (class_code \<noteq> 0xFF \<and> pd_class_code d \<noteq> class_code) \<and>
             \<not> (subclass \<noteq> 0xFF \<and> pd_subclass d \<noteq> subclass)) 0 (device_count s)"

definition pci_find_id :: "u16 \<Rightarrow> u16 \<Rightarrow> pci \<Rightarrow> nat option" where
  "pci_find_id vendor device s =
     scan (\<lambda>i. let d = pdevices s ! i in
             \<not> (vendor \<noteq> 0xFFFF \<and> pd_vendor_id d \<noteq> vendor) \<and>
             \<not> (device \<noteq> 0xFFFF \<and> pd_device_id d \<noteq> device)) 0 (device_count s)"

definition pci_at :: "nat \<Rightarrow> pci \<Rightarrow> nat option" where
  "pci_at index s = (if index < device_count s then Some index else None)"

definition pci_enable_mmio_bus_master :: "latch \<Rightarrow> pci_device option \<Rightarrow> pci \<Rightarrow> pci" where
  "pci_enable_mmio_bus_master l dev s =
     (case dev of None \<Rightarrow> s
      | Some d \<Rightarrow> let (cmd, s1) = pci_cfg_read16 l d 0x04 s
                 in pci_cfg_write16 l d 0x04 (cmd OR (push_bit 1 1 OR push_bit 2 1)) s1)"

section \<open>Registers\<close>

lemma raw_read32_eq [state_simps]:
  "raw_read32 l b sl f off s = (cfg s (bdf_addr b sl f off), s\<lparr>cf8 := bdf_addr b sl f off\<rparr>)"
  by (simp add: raw_read32_def pci_outl_def pci_inl_def CONFIG_ADDRESS_def CONFIG_DATA_def Let_def)

lemma raw_write32_eq [state_simps]:
  "raw_write32 l b sl f off v s =
     (let a = bdf_addr b sl f off in s\<lparr>cf8 := a, cfg := (cfg s)(a := l a (cfg s a) v)\<rparr>)"
  by (simp add: raw_write32_def pci_outl_def CONFIG_ADDRESS_def CONFIG_DATA_def Let_def)

lemma bar_probe_eq [state_simps]:
  "bar_probe l b sl f off orig s =
     (let a = bdf_addr b sl f off; p = l a (cfg s a) 0xFFFFFFFF
      in (p, s\<lparr>cf8 := a, cfg := (cfg s)(a := l a p orig)\<rparr>))"
  by (simp add: bar_probe_def state_simps Let_def)

lemma bit_bdf:
  "bit (bdf_addr b sl f off) n \<longleftrightarrow> n < 32 \<and>
     (n = 31 \<or> 16 \<le> n \<and> bit b (n - 16) \<or> 11 \<le> n \<and> bit sl (n - 11) \<or>
      8 \<le> n \<and> bit f (n - 8) \<or> bit (off AND 0xFC) n)"
  unfolding bdf_addr_def bit_or_iff bit_push_bit_iff bit_1_iff bit_ucast_iff possible_bit_word
  by (auto dest: bit_imp_le_length)

lemma low_bits:
  assumes "uint (w :: u8) < 2 ^ k" "bit w n"
  shows "n < k"
proof -
  have "take_bit k (uint w) = uint w" using assms(1) by (simp add: take_bit_int_eq_self)
  moreover have "bit (uint w) n" using assms(2) bit_imp_le_length [OF assms(2)]
    by (simp add: bit_uint_iff)
  ultimately show ?thesis by (metis bit_take_bit_iff)
qed

lemma bdf_low: "ucast (bdf_addr b sl f off) = off AND 0xFC"
proof (rule bit_eqI)
  fix n assume "possible_bit TYPE(8 word) n"
  then have "n < 8" by simp
  then show "bit (ucast (bdf_addr b sl f off) :: u8) n = bit (off AND 0xFC) n"
    by (simp add: bit_ucast_iff bit_bdf)
qed

lemma bdf_fields:
  assumes "sl < 32" "f < 8"
  shows "ucast (drop_bit 16 (bdf_addr b sl f off)) = b"
    "ucast (take_bit 5 (drop_bit 11 (bdf_addr b sl f off))) = sl"
    "ucast (take_bit 3 (drop_bit 8 (bdf_addr b sl f off))) = f"
proof -
  have S: "n < 5" if "bit sl n" for n
    using low_bits [OF _ that, of 5] assms(1) by (simp add: word_less_def)
  have F: "n < 3" if "bit f n" for n
    using low_bits [OF _ that, of 3] assms(2) by (simp add: word_less_def)
  show "ucast (drop_bit 16 (bdf_addr b sl f off)) = b"
    by (rule bit_eqI) (use S [of "5 + _"] in \<open>auto simp: bit_ucast_iff bit_drop_bit_eq bit_bdf
      dest: bit_imp_le_length S\<close>)
  show "ucast (take_bit 5 (drop_bit 11 (bdf_addr b sl f off))) = sl"
    by (rule bit_eqI) (auto simp: bit_ucast_iff bit_drop_bit_eq bit_take_bit_iff bit_bdf
      dest: bit_imp_le_length S F)
  show "ucast (take_bit 3 (drop_bit 8 (bdf_addr b sl f off))) = f"
    by (rule bit_eqI) (auto simp: bit_ucast_iff bit_drop_bit_eq bit_take_bit_iff bit_bdf
      dest: bit_imp_le_length S F)
qed

text \<open>Registers of different functions, or different registers of one, have different addresses.\<close>

lemma bdf_addr_inj:
  assumes "sl < 32" "f < 8" "sl' < 32" "f' < 8" "bdf_addr b sl f off = bdf_addr b' sl' f' off'"
  shows "b = b' \<and> sl = sl' \<and> f = f' \<and> off AND 0xFC = off' AND 0xFC"
  using bdf_fields [OF assms(1,2), of b off] bdf_fields [OF assms(3,4), of b' off'] assms(5)
    bdf_low [of b sl f off] bdf_low [of b' sl' f' off'] by metis

lemma bar_reg_cases:
  "i < 6 \<Longrightarrow> bar_reg i \<in> {0x10, 0x14, 0x18, 0x1C, 0x20, 0x24}"
  by (auto simp: bar_reg_def less_Suc_eq numeral_eq_Suc)

lemma bar_off:
  assumes "i < 6" "off \<in> {0, 8, 0xC :: u8}"
  shows "bdf_addr b sl f off \<noteq> bdf_addr b' sl' f' (bar_reg i)"
    "bdf_addr b sl f off \<noteq> bdf_addr b' sl' f' (bar_reg i + 4)"
proof -
  have "off AND 0xFC \<noteq> bar_reg i AND 0xFC" "off AND 0xFC \<noteq> (bar_reg i + 4) AND 0xFC"
    using bar_reg_cases [OF assms(1)] assms(2) by auto
  then show "bdf_addr b sl f off \<noteq> bdf_addr b' sl' f' (bar_reg i)"
    "bdf_addr b sl f off \<noteq> bdf_addr b' sl' f' (bar_reg i + 4)"
    by (metis bdf_low)+
qed

lemma bar_next:
  assumes "i < 6"
  shows "bdf_addr b sl f (bar_reg i) \<noteq> bdf_addr b' sl' f' (bar_reg i + 4)"
proof -
  have "bar_reg i AND 0xFC \<noteq> (bar_reg i + 4) AND 0xFC"
    using bar_reg_cases [OF assms] by auto
  then show ?thesis by (metis bdf_low)
qed

section \<open>The bus walk\<close>

text \<open>The registers that say which functions exist and what they are.\<close>

definition ids_kept :: "(u32 \<Rightarrow> u32) \<Rightarrow> (u32 \<Rightarrow> u32) \<Rightarrow> bool" where
  "ids_kept c c' \<longleftrightarrow> (\<forall>b sl f. \<forall>off \<in> {0, 8, 0xC}. c' (bdf_addr b sl f off) = c (bdf_addr b sl f off))"

lemma ids_kept_refl [simp]: "ids_kept c c"
  by (simp add: ids_kept_def)

lemma ids_kept_trans: "ids_kept c c' \<Longrightarrow> ids_kept c' c'' \<Longrightarrow> ids_kept c c''"
  by (simp add: ids_kept_def)

lemma ids_kept_bar:
  assumes "i < 6" "ids_kept c c'"
  shows "ids_kept c (c'(bdf_addr b sl f (bar_reg i) := v))"
    "ids_kept c (c'(bdf_addr b sl f (bar_reg i + 4) := v))"
  using assms bar_off [OF assms(1)] by (auto simp: ids_kept_def)

lemma set_bar_frame [simp]: "d\<lparr>pd_bars := pd_bars (set_bar i b d)\<rparr> = set_bar i b d"
  by (simp add: set_bar_def)

lemma decode_bar_frame:
  assumes "i < 6" "decode_bar l d i sk s = (d', sk', s')"
  shows "ids_kept (cfg s) (cfg s') \<and> pdevices s' = pdevices s \<and> device_count s' = device_count s \<and>
    d\<lparr>pd_bars := pd_bars d'\<rparr> = d'"
  using assms(2) unfolding decode_bar_def state_simps Let_def prod.case
  by (auto simp: ids_kept_bar [OF assms(1)] split: if_split_asm)

lemma decode_bars_frame:
  assumes "\<forall>i \<in> set is. i < 6" "decode_bars l is (d, sk, s) = (d', sk', s')"
  shows "ids_kept (cfg s) (cfg s') \<and> pdevices s' = pdevices s \<and> device_count s' = device_count s \<and>
    d\<lparr>pd_bars := pd_bars d'\<rparr> = d'"
  using assms
proof (induction "is" arbitrary: d sk s)
  case (Cons i "is")
  obtain d1 sk1 s1 where
    d1: "(if sk then (d, False, s) else decode_bar l d i sk s) = (d1, sk1, s1)"
    by (cases "if sk then (d, False, s) else decode_bar l d i sk s") auto
  have "ids_kept (cfg s) (cfg s1) \<and> pdevices s1 = pdevices s \<and>
      device_count s1 = device_count s \<and> d\<lparr>pd_bars := pd_bars d1\<rparr> = d1"
    using decode_bar_frame [of i l d sk s d1 sk1 s1] d1 Cons.prems(1) by (cases sk) auto
  moreover have "ids_kept (cfg s1) (cfg s') \<and> pdevices s' = pdevices s1 \<and>
      device_count s' = device_count s1 \<and> d1\<lparr>pd_bars := pd_bars d'\<rparr> = d'"
    using Cons.IH [of d1 sk1 s1] Cons.prems d1 by simp
  ultimately show ?case
    by (auto intro: ids_kept_trans) (metis pci_device.update_convs(11) pci_device.surjective)
qed simp

definition function_present :: "(u32 \<Rightarrow> u32) \<Rightarrow> u8 \<times> u8 \<times> u8 \<Rightarrow> bool" where
  "function_present c x = (case x of (b, sl, f) \<Rightarrow> (ucast (c (bdf_addr b sl f 0)) :: u16) \<noteq> 0xFFFF)"

definition multifunction :: "(u32 \<Rightarrow> u32) \<Rightarrow> u8 \<Rightarrow> u8 \<Rightarrow> bool" where
  "multifunction c b sl \<longleftrightarrow> bit (c (bdf_addr b sl 0 0xC)) 23"

definition slot_functions :: "(u32 \<Rightarrow> u32) \<Rightarrow> nat \<Rightarrow> nat \<Rightarrow> (u8 \<times> u8 \<times> u8) list" where
  "slot_functions c bus slot =
     (if function_present c (of_nat bus, of_nat slot, 0)
      then filter (function_present c) (map (\<lambda>f. (of_nat bus, of_nat slot, of_nat f))
             [0..<(if multifunction c (of_nat bus) (of_nat slot) then 8 else 1)])
      else [])"

definition bus_functions :: "(u32 \<Rightarrow> u32) \<Rightarrow> (u8 \<times> u8 \<times> u8) list" where
  "bus_functions c =
     concat (map (\<lambda>bus. concat (map (slot_functions c bus) [0..<32])) [0..<256])"

definition describes :: "(u32 \<Rightarrow> u32) \<Rightarrow> pci_device \<Rightarrow> u8 \<times> u8 \<times> u8 \<Rightarrow> bool" where
  "describes c d x = (case x of (b, sl, f) \<Rightarrow>
     let id = c (bdf_addr b sl f 0); cl = c (bdf_addr b sl f 8); h = c (bdf_addr b sl f 0xC)
     in pd_bus d = b \<and> pd_slot d = sl \<and> pd_func d = f \<and>
        pd_vendor_id d = ucast id \<and> pd_device_id d = ucast (drop_bit 16 id) \<and>
        pd_revision d = ucast cl \<and> pd_prog_if d = ucast (drop_bit 8 cl) \<and>
        pd_subclass d = ucast (drop_bit 16 cl) \<and> pd_class_code d = ucast (drop_bit 24 cl) \<and>
        pd_header_type d = ucast (drop_bit 16 h AND 0x7F))"

text \<open>The walk so far has met the functions \<open>acc\<close>; the table holds the first of them.\<close>

definition walk_inv :: "(u32 \<Rightarrow> u32) \<Rightarrow> (u8 \<times> u8 \<times> u8) list \<Rightarrow> pci \<Rightarrow> bool" where
  "walk_inv c acc s \<longleftrightarrow> length (pdevices s) = PCI_MAX_DEVICES \<and> ids_kept c (cfg s) \<and>
     device_count s = min PCI_MAX_DEVICES (length acc) \<and>
     list_all2 (describes c) (take (device_count s) (pdevices s)) (take PCI_MAX_DEVICES acc)"

lemma ids_keptD [simp]:
  assumes "ids_kept c c'"
  shows "c' (bdf_addr b sl f 0) = c (bdf_addr b sl f 0)" "c' (bdf_addr b sl f 8) = c (bdf_addr b sl f 8)"
    "c' (bdf_addr b sl f 0xC) = c (bdf_addr b sl f 0xC)"
  using assms by (auto simp: ids_kept_def)

lemma probe_function_walk:
  assumes "walk_inv c acc s"
  shows "walk_inv c (if function_present c (b, sl, f) then acc @ [(b, sl, f)] else acc)
    (probe_function l b sl f s)"
proof (cases "device_count s \<ge> PCI_MAX_DEVICES \<or> \<not> function_present c (b, sl, f)")
  case True
  with assms show ?thesis
    by (auto simp: probe_function_def walk_inv_def function_present_def state_simps Let_def
      PCI_MAX_DEVICES_def)
next
  case False
  define n where "n = device_count s"
  have n: "n < 96" "length acc = n" "length (pdevices s) = 96" "ids_kept c (cfg s)"
    using False assms by (auto simp: walk_inv_def n_def PCI_MAX_DEVICES_def)
  define d where "d = fill_device b sl f (c (bdf_addr b sl f 0)) (c (bdf_addr b sl f 8))
      (c (bdf_addr b sl f 0xC)) (pdevices s ! n)"
  define s4 where "s4 = s\<lparr>device_count := n + 1, cf8 := bdf_addr b sl f 0xC\<rparr>"
  obtain d' sk s5 where
    dec: "decode_bars l [0..<(if pd_header_type d = 0 then PCI_BAR_COUNT else 2)] (d, False, s4) =
      (d', sk, s5)" by (metis prod_cases3)
  have fr: "ids_kept (cfg s) (cfg s5)" "pdevices s5 = pdevices s" "device_count s5 = n + 1"
      "d\<lparr>pd_bars := pd_bars d'\<rparr> = d'"
    using decode_bars_frame [OF _ dec] by (auto simp: PCI_BAR_COUNT_def s4_def)
  have "describes c d (b, sl, f)" by (simp add: describes_def d_def fill_device_def Let_def)
  then have "describes c (d\<lparr>pd_bars := pd_bars d'\<rparr>) (b, sl, f)" by (simp add: describes_def)
  then have D: "describes c d' (b, sl, f)" using fr(4) by simp
  have "probe_function l b sl f s = s5\<lparr>pdevices := (pdevices s)[n := d']\<rparr>"
    using False n(4) dec fr(2) unfolding d_def s4_def n_def
    by (simp add: probe_function_def state_simps Let_def function_present_def del: upt_conv_Cons
        split del: if_split)
  then show ?thesis
    using False n fr D assms
    by (auto simp: walk_inv_def PCI_MAX_DEVICES_def n_def take_Suc_conv_app_nth take_Cons'
        intro: list_all2_appendI ids_kept_trans)
qed

lemma probe_functions_walk:
  "walk_inv c acc s \<Longrightarrow>
   walk_inv c (acc @ filter (function_present c) (map (\<lambda>f. (b, sl, of_nat f)) fs))
     (fold (\<lambda>f. probe_function l b sl (of_nat f)) fs s)"
proof (induction fs arbitrary: acc s)
  case (Cons f fs)
  show ?case
    using Cons.IH [OF probe_function_walk [OF Cons.prems, of b sl "of_nat f" l]]
    by (simp split: if_splits)
qed simp

lemma bit_header: "(ucast (drop_bit 16 (h :: u32) AND 0xFF) :: u8) AND 0x80 \<noteq> 0 \<longleftrightarrow> bit h 23"
proof -
  have "(ucast (drop_bit 16 h AND 0xFF) :: u8) AND 2 ^ 7 = 0 \<longleftrightarrow>
      \<not> bit (ucast (drop_bit 16 h AND 0xFF) :: u8) 7"
    by (rule and_exp_eq_0_iff_not_bit)
  then show ?thesis by (simp add: bit_simps)
qed

lemma scan_slot_walk:
  assumes "walk_inv c acc s"
  shows "walk_inv c (acc @ slot_functions c bus slot) (pci_scan_slot l bus slot s)"
proof -
  have k: "ids_kept c (cfg s)" using assms by (simp add: walk_inv_def)
  have w: "walk_inv c acc (s\<lparr>cf8 := a\<rparr>)" for a using assms by (auto simp: walk_inv_def)
  show ?thesis
    using k w probe_functions_walk [OF w, of "of_nat bus" "of_nat slot"]
    by (simp add: pci_scan_slot_def state_simps slot_functions_def function_present_def
        multifunction_def bit_header Let_def del: upt_conv_Cons)
qed

lemma fold_walk:
  assumes "\<And>x acc s. walk_inv c acc s \<Longrightarrow> walk_inv c (acc @ g x) (h x s)" "walk_inv c acc s"
  shows "walk_inv c (acc @ concat (map g xs)) (fold h xs s)"
  using assms(2)
proof (induction xs arbitrary: acc s)
  case (Cons x xs)
  show ?case using Cons.IH [OF assms(1) [OF Cons.prems, of x]] by simp
qed simp

lemma pci_init_walk:
  assumes "length (pdevices s) = PCI_MAX_DEVICES"
  shows "walk_inv (cfg s) (bus_functions (cfg s)) (pci_init l s)"
proof -
  have "walk_inv (cfg s) [] (s\<lparr>device_count := 0\<rparr>)" using assms by (simp add: walk_inv_def)
  then have "walk_inv (cfg s) ([] @ bus_functions (cfg s)) (pci_init l s)"
    unfolding pci_init_def bus_functions_def
    by (intro fold_walk scan_slot_walk)
  then show ?thesis by simp
qed

text \<open>C18: the bus walk is complete and exact: whatever the devices do with the values written to
  their registers, the table \<^verbatim>\<open>pci_init\<close> fills holds, in bus, slot and function order, one entry for
  each function that answers (function 0 of its slot answers too, and functions above 0 are asked
  only on a multi-function device), each described by its identity, class and header registers, and
  it holds all of them or the first \<^verbatim>\<open>PCI_MAX_DEVICES\<close>.\<close>

theorem pci_init_enumerates:
  assumes "length (pdevices s) = PCI_MAX_DEVICES"
  shows "device_count (pci_init l s) = min PCI_MAX_DEVICES (length (bus_functions (cfg s))) \<and>
    list_all2 (describes (cfg s)) (take (device_count (pci_init l s)) (pdevices (pci_init l s)))
      (take PCI_MAX_DEVICES (bus_functions (cfg s)))"
  using pci_init_walk [OF assms, of l] by (auto simp: walk_inv_def)

definition example_cfg :: "u32 \<Rightarrow> u32" where
  "example_cfg a = (if a = bdf_addr 0 3 0 0 then 0x10041AF4
     else if a = bdf_addr 0 3 0 8 then 0x01000002 else if a = bdf_addr 0 3 0 0xC then 0
     else 0xFFFFFFFF)"

definition example_pci :: pci where
  "example_pci = \<lparr>cf8 = 0, cfg = example_cfg, pdevices = replicate 96
     \<lparr>pd_bus = 0, pd_slot = 0, pd_func = 0, pd_vendor_id = 0, pd_device_id = 0, pd_class_code = 0,
      pd_subclass = 0, pd_prog_if = 0, pd_revision = 0, pd_header_type = 0,
      pd_bars = replicate 6 bar_cleared\<rparr>, device_count = 0\<rparr>"

lemma pci_init_enumerates_witness:
  "function_present example_cfg (0, 3, 0) \<and>
   list_all2 (describes example_cfg)
     (take (device_count (pci_init (\<lambda>a old v. v) example_pci))
        (pdevices (pci_init (\<lambda>a old v. v) example_pci)))
     (take PCI_MAX_DEVICES (bus_functions example_cfg))"
proof -
  have e: "length (pdevices example_pci) = PCI_MAX_DEVICES" "cfg example_pci = example_cfg"
    by (simp_all add: example_pci_def PCI_MAX_DEVICES_def)
  have "function_present example_cfg (0, 3, 0)" by (simp add: function_present_def example_cfg_def)
  then show ?thesis using pci_init_enumerates [OF e(1), of "\<lambda>a old v. v"] unfolding e(2) by blast
qed

section \<open>The table is well formed\<close>

lemma decode_bar_length:
  "decode_bar l d i sk s = (d', sk', s') \<Longrightarrow> length (pd_bars d') = length (pd_bars d)"
  unfolding decode_bar_def state_simps Let_def prod.case
  by (auto simp: set_bar_def split: if_split_asm)

lemma decode_bars_length:
  "decode_bars l is (d, sk, s) = (d', sk', s') \<Longrightarrow> length (pd_bars d') = length (pd_bars d)"
proof (induction "is" arbitrary: d sk s)
  case (Cons i "is")
  obtain d1 sk1 s1 where
    d1: "(if sk then (d, False, s) else decode_bar l d i sk s) = (d1, sk1, s1)"
    by (cases "if sk then (d, False, s) else decode_bar l d i sk s") auto
  then have "length (pd_bars d1) = length (pd_bars d)"
    using decode_bar_length [of l d i sk s d1 sk1 s1] by (cases sk) auto
  then show ?case using Cons.IH [of d1 sk1 s1] Cons.prems d1 by simp
qed simp

definition pci_typed :: "pci \<Rightarrow> bool" where
  "pci_typed s \<longleftrightarrow> length (pdevices s) = PCI_MAX_DEVICES \<and> device_count s \<le> PCI_MAX_DEVICES \<and>
     (\<forall>d \<in> set (pdevices s). length (pd_bars d) = PCI_BAR_COUNT) \<and>
     (\<forall>i < device_count s. pd_slot (pdevices s ! i) < 32 \<and> pd_func (pdevices s ! i) < 8)"

lemma probe_function_typed:
  assumes "pci_typed s" "sl < 32" "f < 8"
  shows "pci_typed (probe_function l b sl f s)"
proof -
  have entry: "pci_typed (s5\<lparr>pdevices := (pdevices s5)[device_count s := d']\<rparr>)"
    if "\<not> device_count s \<ge> PCI_MAX_DEVICES"
      "decode_bars l is (fill_device b sl f w c h (pdevices s ! device_count s), False,
         s\<lparr>device_count := device_count s + 1, cf8 := a\<rparr>) = (d', sk, s5)"
      "\<forall>i \<in> set is. i < 6" for "is" w c h a d' sk s5
  proof -
    let ?d = "fill_device b sl f w c h (pdevices s ! device_count s)"
    have fr: "pdevices s5 = pdevices s" "device_count s5 = device_count s + 1" "?d\<lparr>pd_bars := pd_bars d'\<rparr> = d'"
      using decode_bars_frame [OF that(3,2)] by auto
    have n: "device_count s < length (pdevices s)" using that(1) assms(1) by (simp add: pci_typed_def)
    have "pd_slot d' = sl" "pd_func d' = f"
      using arg_cong [OF fr(3), of pd_slot] arg_cong [OF fr(3), of pd_func] by (simp_all add: fill_device_def)
    moreover have "length (pd_bars d') = PCI_BAR_COUNT"
      using decode_bars_length [OF that(2)] assms(1) n by (simp add: pci_typed_def fill_device_def)
    ultimately show ?thesis
      using assms n that(1) unfolding pci_typed_def
      by (auto simp: fr nth_list_update less_Suc_eq dest!: set_update_subset_insert [THEN subsetD])
  qed
  have s: "pci_typed (s\<lparr>cf8 := a\<rparr>)" for a using assms(1) unfolding pci_typed_def by simp
  show ?thesis
    using assms(1) s entry unfolding probe_function_def state_simps Let_def prod.case
    unfolding PCI_BAR_COUNT_def
    by (auto simp del: upt_rec_numeral split: prod.split)
qed

lemma fold_typed:
  assumes "\<And>x s. x \<in> set xs \<Longrightarrow> pci_typed s \<Longrightarrow> pci_typed (h x s)" "pci_typed s"
  shows "pci_typed (fold h xs s)"
  using assms by (induction xs arbitrary: s) auto

lemma pci_init_types:
  assumes "pci_typed s"
  shows "pci_typed (pci_init l s)"
proof -
  have z: "pci_typed (s\<lparr>device_count := 0\<rparr>)" using assms unfolding pci_typed_def by simp
  have slot: "pci_typed (pci_scan_slot l bus slot t)" if "slot < 32" "pci_typed t" for bus slot t
  proof -
    have "of_nat slot < (32 :: u8)" using that(1) by (simp add: word_less_nat_alt unat_of_nat)
    then have "pci_typed (fold (\<lambda>f. probe_function l (of_nat bus) (of_nat slot) (of_nat f)) [0..<n] t')"
      if "n \<le> 8" "pci_typed t'" for n t'
      using that by (intro fold_typed probe_function_typed) (auto simp: word_less_nat_alt unat_of_nat)
    moreover have "pci_typed (t\<lparr>cf8 := a\<rparr>)" for a using that(2) unfolding pci_typed_def by simp
    ultimately show ?thesis unfolding pci_scan_slot_def state_simps Let_def prod.case by simp
  qed
  show ?thesis unfolding pci_init_def
    by (intro fold_typed slot z) auto
qed

text \<open>The walk meets each function once, and functions in range have configuration addresses of
  their own.\<close>

lemma slot_functions_distinct: "distinct (slot_functions c bus slot)"
proof -
  have "inj_on (\<lambda>f. (of_nat bus :: u8, of_nat slot :: u8, of_nat f :: u8)) {0..<n}" if "n \<le> 8" for n
    using that by (intro inj_onI) (auto simp: word_unat_eq_iff unat_of_nat)
  then show ?thesis
    by (auto simp: slot_functions_def distinct_map simp del: upt_conv_Cons upt_rec_numeral)
qed

lemma slot_functions_set:
  assumes "x \<in> set (slot_functions c bus slot)"
  shows "fst x = of_nat bus \<and> fst (snd x) = of_nat slot"
  using assms by (auto simp: slot_functions_def split: if_splits)

lemma distinct_concat_tagged:
  assumes "distinct xs" "\<And>x. x \<in> set xs \<Longrightarrow> distinct (g x)" "inj_on k (set xs)"
    "\<And>x y. x \<in> set xs \<Longrightarrow> y \<in> set (g x) \<Longrightarrow> t y = k x"
  shows "distinct (concat (map g xs))"
  using assms
proof (induction xs)
  case (Cons x xs)
  have "set (g x) \<inter> set (concat (map g xs)) = {}"
  proof (rule equals0I)
    fix y assume "y \<in> set (g x) \<inter> set (concat (map g xs))"
    then obtain z where z: "z \<in> set xs" "y \<in> set (g z)" "y \<in> set (g x)" by auto
    then have "k z = k x" using Cons.prems(4) by (metis list.set_intros)
    then have "z = x" using Cons.prems(3) z(1) by (auto simp: inj_on_def)
    then show False using Cons.prems(1) z(1) by simp
  qed
  moreover have "distinct (concat (map g xs))"
    using Cons.prems by (intro Cons.IH) (auto simp: inj_on_def)
  ultimately show ?case using Cons.prems(2) by simp
qed simp

lemma of_nat_u8_inj: "n \<le> 256 \<Longrightarrow> inj_on (of_nat :: nat \<Rightarrow> u8) {0..<n}"
  by (intro inj_onI) (auto simp: word_unat_eq_iff unat_of_nat)

lemma bus_functions_distinct: "distinct (bus_functions c)"
proof -
  have slots: "distinct (concat (map (slot_functions c bus) [0..<32]))" for bus
    by (rule distinct_concat_tagged [where t = "\<lambda>x. fst (snd x)" and k = of_nat])
      (auto simp: slot_functions_distinct of_nat_u8_inj dest: slot_functions_set
        simp del: upt_rec_numeral)
  show ?thesis unfolding bus_functions_def
    by (rule distinct_concat_tagged [where t = fst and k = of_nat])
      (auto simp: of_nat_u8_inj slots dest: slot_functions_set simp del: upt_rec_numeral)
qed

lemma pci_init_addresses:
  assumes "length (pdevices s) = PCI_MAX_DEVICES"
  shows "distinct (map (\<lambda>d. (pd_bus d, pd_slot d, pd_func d))
    (take (device_count (pci_init l s)) (pdevices (pci_init l s))))"
proof -
  have "map (\<lambda>d. (pd_bus d, pd_slot d, pd_func d)) ds = xs" if "list_all2 (describes c) ds xs" for c ds xs
    using that by (induction rule: list_all2_induct) (auto simp: describes_def Let_def)
  then have "map (\<lambda>d. (pd_bus d, pd_slot d, pd_func d))
      (take (device_count (pci_init l s)) (pdevices (pci_init l s))) =
      take PCI_MAX_DEVICES (bus_functions (cfg s))"
    using pci_init_walk [OF assms, of l] by (auto simp: walk_inv_def)
  then show ?thesis by (simp add: bus_functions_distinct)
qed

text \<open>C29: the table stays well formed: from a table of \<^verbatim>\<open>PCI_MAX_DEVICES\<close> entries with six base
  address registers each, \<^verbatim>\<open>pci_init\<close> leaves at most \<^verbatim>\<open>PCI_MAX_DEVICES\<close> of them in use, every entry
  keeps its six base address registers, the entries in use have slot and function numbers that fit
  their fields of a configuration address, and no two entries in use share a configuration
  address.\<close>

theorem pci_init_typed:
  assumes "pci_typed s"
  shows "pci_typed (pci_init l s) \<and>
    distinct (map (\<lambda>d. bdf_addr (pd_bus d) (pd_slot d) (pd_func d) 0)
      (take (device_count (pci_init l s)) (pdevices (pci_init l s))))"
proof
  show typed: "pci_typed (pci_init l s)" by (rule pci_init_types [OF assms])
  let ?ds = "take (device_count (pci_init l s)) (pdevices (pci_init l s))"
  let ?a = "\<lambda>x. bdf_addr (fst x) (fst (snd x)) (snd (snd x)) 0"
  have "distinct (map (\<lambda>d. (pd_bus d, pd_slot d, pd_func d)) ?ds)"
    using pci_init_addresses assms by (simp add: pci_typed_def)
  moreover have "inj_on ?a (set (map (\<lambda>d. (pd_bus d, pd_slot d, pd_func d)) ?ds))"
    using typed by (intro inj_onI) (auto simp: pci_typed_def in_set_conv_nth dest!: bdf_addr_inj [rotated 4])
  ultimately have "distinct (map ?a (map (\<lambda>d. (pd_bus d, pd_slot d, pd_func d)) ?ds))"
    by (simp only: distinct_map)
  then show "distinct (map (\<lambda>d. bdf_addr (pd_bus d) (pd_slot d) (pd_func d) 0) ?ds)"
    by (simp add: comp_def)
qed

lemma pci_init_typed_witness:
  "pci_typed (pci_init (\<lambda>a old v. v) example_pci) \<and>
   distinct (map (\<lambda>d. bdf_addr (pd_bus d) (pd_slot d) (pd_func d) 0)
     (take (device_count (pci_init (\<lambda>a old v. v) example_pci))
       (pdevices (pci_init (\<lambda>a old v. v) example_pci))))"
  by (rule pci_init_typed)
    (simp add: pci_typed_def example_pci_def PCI_MAX_DEVICES_def PCI_BAR_COUNT_def)

section \<open>Nothing is left changed\<close>

definition restorable :: "latch \<Rightarrow> (u32 \<Rightarrow> u32) \<Rightarrow> bool" where
  "restorable l c \<longleftrightarrow> (\<forall>a v. l a (l a (c a) v) (c a) = c a)"

lemma decode_bar_restores:
  assumes "restorable l (cfg s)" "i < 6" "decode_bar l d i sk s = (d', sk', s')"
  shows "cfg s' = cfg s"
proof -
  have [simp]: "l a (l a (cfg s a) v) (cfg s a) = cfg s a" for a v
    using assms(1) by (simp add: restorable_def)
  show ?thesis
    using assms(3) unfolding decode_bar_def state_simps Let_def prod.case
    by (auto split: if_split_asm)
qed

lemma decode_bars_restores:
  assumes "restorable l (cfg s)" "\<forall>i \<in> set is. i < 6" "decode_bars l is (d, sk, s) = (d', sk', s')"
  shows "cfg s' = cfg s"
  using assms
proof (induction "is" arbitrary: d sk s)
  case (Cons i "is")
  obtain d1 sk1 s1 where
    d1: "(if sk then (d, False, s) else decode_bar l d i sk s) = (d1, sk1, s1)"
    by (cases "if sk then (d, False, s) else decode_bar l d i sk s") auto
  have "cfg s1 = cfg s"
    using decode_bar_restores [of l s i d sk d1 sk1 s1] d1 Cons.prems(1,2) by (cases sk) auto
  then show ?case using Cons.IH [of s1 d1 sk1] Cons.prems d1 by simp
qed simp

lemma probe_function_restores:
  assumes "restorable l (cfg s)"
  shows "cfg (probe_function l b sl f s) = cfg s"
proof -
  have "cfg s' = cfg s" if "decode_bars l is (d, sk, x) = (d', sk', s')"
    "\<forall>i \<in> set is. i < 6" "cfg x = cfg s" for "is" d sk x d' sk' s'
    using decode_bars_restores [OF _ that(2,1)] that(3) assms by simp
  then show ?thesis
    unfolding probe_function_def state_simps Let_def prod.case PCI_BAR_COUNT_def
    by (auto simp del: upt_rec_numeral split: prod.split) 
qed

lemma fold_restores:
  assumes "\<And>x s. cfg s = c \<Longrightarrow> cfg (h x s) = c" "cfg s = c"
  shows "cfg (fold h xs s) = c"
  using assms(2) by (induction xs arbitrary: s) (simp_all add: assms(1))

text \<open>C30: enumeration has no side effect on the devices: if every register goes back to its value
  when that value is written to it after a probe (base address registers do: their address bits are
  writable and the rest is fixed), then every configuration register holds after \<^verbatim>\<open>pci_init\<close> what it
  held before, the sized base address registers included.\<close>

theorem pci_init_restores:
  assumes "restorable l (cfg s)"
  shows "cfg (pci_init l s) = cfg s"
proof -
  have p: "cfg (probe_function l b sl f x) = cfg s" if "cfg x = cfg s" for b sl f x
    using probe_function_restores [of l x] that assms by simp
  have "cfg (pci_scan_slot l bus slot x) = cfg s" if "cfg x = cfg s" for bus slot x
    using that fold_restores [where h = "\<lambda>f. probe_function l (of_nat bus) (of_nat slot) (of_nat f)", OF p]
    by (simp add: pci_scan_slot_def state_simps Let_def del: upt_conv_Cons)
  then show ?thesis unfolding pci_init_def by (intro fold_restores) simp_all
qed

lemma pci_init_restores_witness:
  "cfg (pci_init (\<lambda>a old v. v AND 0xFFFFF000) (example_pci\<lparr>cfg := \<lambda>_. 0xFEB00000\<rparr>)) 0 = 0xFEB00000"
  using pci_init_restores [of "\<lambda>a old v. v AND 0xFFFFF000" "example_pci\<lparr>cfg := \<lambda>_. 0xFEB00000\<rparr>"]
  by (simp add: restorable_def)

section \<open>Base address registers\<close>

text \<open>A base address register of \<open>2 ^ k\<close> bytes: the low \<open>k\<close> bits of a written address do not
  stick, the flag bits are fixed.\<close>

definition bar_latch :: "nat \<Rightarrow> u32 \<Rightarrow> u32 \<Rightarrow> u32" where
  "bar_latch k fl v = (v AND NOT (mask k)) OR fl"

definition bar_addr :: "pci_device \<Rightarrow> nat \<Rightarrow> u32" where
  "bar_addr d i = bdf_addr (pd_bus d) (pd_slot d) (pd_func d) (bar_reg i)"

lemma bit_0xF: "bit (0xF :: 'a :: len word) n \<longleftrightarrow> n < 4 \<and> n < LENGTH('a)"
proof -
  have "(0xF :: 'a word) = mask 4" by (simp add: mask_eq_exp_minus_1)
  then show ?thesis by (simp only: bit_mask_iff possible_bit_word) auto
qed

lemma bit_small:
  assumes "uint (w :: u32) < 2 ^ k" "bit w n"
  shows "n < k"
proof -
  have "take_bit k (uint w) = uint w" using assms(1) by (simp add: take_bit_int_eq_self)
  moreover have "bit (uint w) n" using assms(2) bit_imp_le_length [OF assms(2)]
    by (simp add: bit_uint_iff)
  ultimately show ?thesis by (metis bit_take_bit_iff)
qed

lemma bar_flag_bits: "(fl :: u32) < 16 \<Longrightarrow> bit fl n \<Longrightarrow> n < 4"
  using bit_small [of fl 4 n] by (simp add: word_less_def)

lemma aligned_bits: "(base :: u32) AND mask k = 0 \<Longrightarrow> bit base n \<Longrightarrow> k \<le> n"
  by (metis bit_0_eq bit_and_iff bit_mask_iff bot_apply bot_bool_def linorder_not_le
      bit_imp_possible_bit)

lemma bar_fields:
  assumes "4 \<le> k" "(fl :: u32) < 16" "base AND mask k = 0"
  shows "(base OR fl) AND NOT 0xF = base" "bar_latch k fl 0xFFFFFFFF AND NOT 0xF = NOT (mask k)"
    "bar_latch k fl (base OR fl) = base OR fl"
    "(base OR fl) AND 1 = fl AND 1" "drop_bit 1 (base OR fl) AND 3 = drop_bit 1 fl AND 3"
    "drop_bit 3 (base OR fl) AND 1 = drop_bit 3 fl"
proof -
  note b = aligned_bits [OF assms(3)] and f = bar_flag_bits [OF assms(2)]
  have ones: "bit (0xFFFFFFFF :: u32) n \<longleftrightarrow> n < 32" for n
  proof -
    have "(0xFFFFFFFF :: u32) = mask 32" by (simp add: mask_eq_exp_minus_1)
    then show ?thesis by (simp only: bit_mask_iff possible_bit_word) auto
  qed
  have three: "bit (3 :: u32) n \<longleftrightarrow> n < 2" for n
  proof -
    have "(3 :: u32) = mask 2" by (simp add: mask_eq_exp_minus_1)
    then show ?thesis by (simp only: bit_mask_iff possible_bit_word) auto
  qed
  show "(base OR fl) AND NOT 0xF = base"
    by (rule bit_eqI, unfold bit_and_iff bit_not_iff bit_or_iff bit_0xF)
      (use assms(1) b f in fastforce)
  show "bar_latch k fl 0xFFFFFFFF AND NOT 0xF = NOT (mask k)"
    by (rule bit_eqI, unfold bar_latch_def bit_and_iff bit_not_iff bit_or_iff bit_0xF bit_mask_iff
        possible_bit_word ones)
      (use assms(1) f in fastforce)
  show "bar_latch k fl (base OR fl) = base OR fl"
    by (rule bit_eqI) (use assms(1) b f in \<open>auto simp: bar_latch_def bit_simps\<close>, fastforce+)
  show "(base OR fl) AND 1 = fl AND 1"
    by (rule bit_eqI) (use assms(1) b f in \<open>auto simp: bit_simps\<close>, fastforce+)
  show "drop_bit 1 (base OR fl) AND 3 = drop_bit 1 fl AND 3"
    by (rule bit_eqI, unfold bit_and_iff bit_drop_bit_eq o_def bit_or_iff three)
      (use assms(1) b f in fastforce)
  show "drop_bit 3 (base OR fl) AND 1 = drop_bit 3 fl"
    by (rule bit_eqI) (use assms(1) b f in \<open>auto simp: bit_simps\<close>, fastforce+)
qed

lemma size32:
  assumes "4 \<le> k" "k < 32"
  shows "(NOT (ucast (NOT (mask k) :: u32)) + 1 :: u64) AND 0xFFFFFFFF = 2 ^ k"
proof -
  have "\<forall>k \<in> set [4..<32]. (NOT (ucast (NOT (mask k) :: u32)) + 1 :: u64) AND 0xFFFFFFFF = 2 ^ k"
    by (simp add: mask_eq_exp_minus_1)
  with assms show ?thesis by (metis atLeastLessThan_iff set_upt)
qed

text \<open>A 32-bit memory base address register of \<open>2 ^ k\<close> bytes at a non-zero register value is
  decoded to its address, its size and its prefetchable flag, in the entry asked for, and no
  register is changed: the sizing write is undone.\<close>

theorem decode_bar_mem32:
  assumes "i < 6" "4 \<le> k" "k < 32" "fl < 16" "fl AND 1 = 0" "drop_bit 1 fl AND 3 \<noteq> 2"
    and hw: "\<And>old v. l (bar_addr d i) old v = bar_latch k fl v"
    and reg: "cfg s (bar_addr d i) = base OR fl" "base AND mask k = 0" "base OR fl \<noteq> 0"
  shows "decode_bar l d i sk s =
    (d\<lparr>pd_bars := (pd_bars d)[i := \<lparr>bar_base = ucast base, bar_size = 2 ^ k, bar_type = PCI_BAR_MEM,
       bar_is_64bit = 0, bar_prefetchable = ucast (drop_bit 3 fl)\<rparr>]\<rparr>,
     sk, s\<lparr>cf8 := bar_addr d i\<rparr>)"
proof -
  note F = bar_fields [OF assms(2,4) reg(2)]
  have "bit (NOT (mask k) :: u32) k" using assms(3) by (simp add: bit_simps)
  then have ne: "NOT (mask k) \<noteq> (0 :: u32)" by (metis bit_0_eq bot_apply bot_bool_def)
  show ?thesis
    using assms(5,6) hw reg F ne size32 [OF assms(2,3)]
    unfolding decode_bar_def state_simps Let_def prod.case bar_addr_def [symmetric]
    by (simp add: set_bar_def bar_cleared_def fun_upd_idem)
qed

lemma decode_bar_mem32_witness:
  "decode_bar (\<lambda>a old v. bar_latch 12 8 v) (hd (pdevices example_pci)) 1 False
     (example_pci\<lparr>cfg := \<lambda>_. 0xFEB01008\<rparr>) =
   ((hd (pdevices example_pci))\<lparr>pd_bars := (pd_bars (hd (pdevices example_pci)))[1 :=
       \<lparr>bar_base = 0xFEB01000, bar_size = 4096, bar_type = PCI_BAR_MEM, bar_is_64bit = 0,
        bar_prefetchable = 1\<rparr>]\<rparr>,
    False, example_pci\<lparr>cfg := \<lambda>_. 0xFEB01008, cf8 := bar_addr (hd (pdevices example_pci)) 1\<rparr>)"
  using decode_bar_mem32 [of 1 12 8 "\<lambda>a old v. bar_latch 12 8 v" "hd (pdevices example_pci)"
    "example_pci\<lparr>cfg := \<lambda>_. 0xFEB01008\<rparr>" "0xFEB01000" False]
  by (simp add: mask_eq_exp_minus_1)

lemma join_halves:
  "push_bit 32 (ucast (ucast (drop_bit 32 x) :: u32)) OR ucast (ucast x :: u32) = (x :: u64)"
  by (rule bit_eqI) (auto simp: bit_simps)

lemma ones32: "bit (0xFFFFFFFF :: u32) n \<longleftrightarrow> n < 32"
proof -
  have "(0xFFFFFFFF :: u32) = mask 32" by (simp add: mask_eq_exp_minus_1)
  then show ?thesis by (simp only: bit_mask_iff possible_bit_word) auto
qed

lemma probe_halves:
  "push_bit 32 (ucast (0xFFFFFFFF AND NOT (mask (k - 32)) :: u32)) OR ucast (NOT (mask k) :: u32) =
   (NOT (mask k) :: u64)"
  by (rule bit_eqI, unfold bit_simps ones32) auto

lemma aligned_bits64: "(base :: u64) AND mask k = 0 \<Longrightarrow> bit base n \<Longrightarrow> k \<le> n"
  by (metis bit_0_eq bit_and_iff bit_mask_iff bot_apply bot_bool_def linorder_not_le
      bit_imp_possible_bit)

lemma aligned_halves:
  assumes "(base :: u64) AND mask k = 0"
  shows "(ucast base :: u32) AND mask k = 0"
    "(ucast (drop_bit 32 base) :: u32) AND NOT (mask (k - 32)) = ucast (drop_bit 32 base)"
  by (rule bit_eqI, use aligned_bits64 [OF assms] in \<open>fastforce simp: bit_simps\<close>)+

text \<open>A 64-bit memory base address register of \<open>2 ^ k\<close> bytes, held in two consecutive
  registers, is decoded to its full 64-bit address and size, the second register is marked to be
  skipped, and both registers are left as they were.\<close>

theorem decode_bar_mem64:
  assumes "i < 5" "4 \<le> k" "k < 64" "fl < 16" "fl AND 1 = 0" "drop_bit 1 fl AND 3 = 2"
    and hw: "\<And>old v. l (bar_addr d i) old v = bar_latch k fl v"
      "\<And>old v. l (bar_addr d (i + 1)) old v = v AND NOT (mask (k - 32))"
    and reg: "cfg s (bar_addr d i) = ucast base OR fl"
      "cfg s (bar_addr d (i + 1)) = ucast (drop_bit 32 base)" "base AND mask k = (0 :: u64)"
  shows "decode_bar l d i sk s =
    (d\<lparr>pd_bars := (pd_bars d)[i := \<lparr>bar_base = base, bar_size = 2 ^ k, bar_type = PCI_BAR_MEM,
       bar_is_64bit = 1, bar_prefetchable = ucast (drop_bit 3 fl)\<rparr>]\<rparr>,
     True, s\<lparr>cf8 := bar_addr d (i + 1)\<rparr>)"
proof -
  note A = aligned_halves [OF reg(3)]
  note F = bar_fields [OF assms(2,4) A(1)]
  have "fl \<noteq> 0" using assms(6) by auto
  then have nz: "ucast base OR fl \<noteq> 0" by (metis or_eq_0_iff)
  have nx: "bdf_addr (pd_bus d) (pd_slot d) (pd_func d) (bar_reg i + 4) = bar_addr d (i + 1)"
    by (simp add: bar_addr_def bar_reg_def)
  have "bit (NOT (mask k) :: u64) k" using assms(3) by (simp add: bit_simps)
  then have ne: "NOT (mask k) \<noteq> (0 :: u64)" by (metis bit_0_eq bot_apply bot_bool_def)
  have sz: "NOT (NOT (mask k)) + 1 = (2 ^ k :: u64)" by (simp add: mask_eq_exp_minus_1)
  show ?thesis
    using assms(1,5,6) hw reg(1,2) F(1-5) F(6) [symmetric] A nz ne sz join_halves [of base] probe_halves [of k]
    unfolding decode_bar_def state_simps Let_def prod.case bar_addr_def [symmetric] nx
    by (simp add: set_bar_def bar_cleared_def fun_upd_idem PCI_BAR_COUNT_def)
qed

lemma decode_bar_mem64_witness:
  "decode_bar (\<lambda>a old v. if a = bar_addr (hd (pdevices example_pci)) 0 then bar_latch 36 4 v
       else v AND NOT (mask 4)) (hd (pdevices example_pci)) 0 False
     (example_pci\<lparr>cfg := \<lambda>a. if a = bar_addr (hd (pdevices example_pci)) 0 then 4 else 0x30\<rparr>) =
   ((hd (pdevices example_pci))\<lparr>pd_bars := (pd_bars (hd (pdevices example_pci)))[0 :=
       \<lparr>bar_base = 0x3000000000, bar_size = 2 ^ 36, bar_type = PCI_BAR_MEM, bar_is_64bit = 1,
        bar_prefetchable = 0\<rparr>]\<rparr>,
    True, example_pci\<lparr>cfg := \<lambda>a. if a = bar_addr (hd (pdevices example_pci)) 0 then 4 else 0x30,
      cf8 := bar_addr (hd (pdevices example_pci)) 1\<rparr>)"
proof -
  have n: "bar_addr d (Suc 0) \<noteq> bar_addr d 0" for d
    using bar_next [of 0 "pd_bus d" "pd_slot d" "pd_func d"]
    by (simp add: bar_addr_def bar_reg_def) metis
  show ?thesis
    using decode_bar_mem64 [of 0 36 4 "\<lambda>a old v. if a = bar_addr (hd (pdevices example_pci)) 0
        then bar_latch 36 4 v else v AND NOT (mask 4)" "hd (pdevices example_pci)"
        "example_pci\<lparr>cfg := \<lambda>a. if a = bar_addr (hd (pdevices example_pci)) 0 then 4 else 0x30\<rparr>"
        "0x3000000000" False]
    by (simp add: n mask_eq_exp_minus_1)
qed

lemma size_io:
  assumes "2 \<le> k" "k < 32"
  shows "ucast (NOT ((bar_latch k 1 0xFFFFFFFF) AND NOT 3) + 1 :: u32) = (2 ^ k :: u64)"
    "bar_latch k 1 0xFFFFFFFF AND NOT 3 \<noteq> 0"
proof -
  have "\<forall>k \<in> set [2..<32]. ucast (NOT ((bar_latch k 1 0xFFFFFFFF) AND NOT 3) + 1 :: u32) = (2 ^ k :: u64) \<and>
      bar_latch k 1 0xFFFFFFFF AND NOT 3 \<noteq> 0"
    by (simp add: mask_eq_exp_minus_1 bar_latch_def)
  with assms show "ucast (NOT ((bar_latch k 1 0xFFFFFFFF) AND NOT 3) + 1 :: u32) = (2 ^ k :: u64)"
    "bar_latch k 1 0xFFFFFFFF AND NOT 3 \<noteq> 0"
    by (metis atLeastLessThan_iff set_upt)+
qed

lemma io_fields:
  assumes "2 \<le> k" "(base :: u32) AND mask k = 0"
  shows "(base OR 1) AND NOT 3 = base" "bar_latch k 1 (base OR 1) = base OR 1" "(base OR 1) AND 1 = 1"
proof -
  note b = aligned_bits [OF assms(2)]
  have three: "bit (3 :: u32) n \<longleftrightarrow> n < 2" for n
  proof -
    have "(3 :: u32) = mask 2" by (simp add: mask_eq_exp_minus_1)
    then show ?thesis by (simp only: bit_mask_iff possible_bit_word) auto
  qed
  show "(base OR 1) AND NOT 3 = base"
    by (rule bit_eqI, unfold bit_and_iff bit_not_iff bit_or_iff bit_1_iff three)
      (use assms(1) b in fastforce)
  show "bar_latch k 1 (base OR 1) = base OR 1"
    by (rule bit_eqI, unfold bar_latch_def bit_and_iff bit_not_iff bit_or_iff bit_1_iff bit_mask_iff)
      (use assms(1) b in fastforce)
  show "(base OR 1) AND 1 = 1"
    by (rule bit_eqI, unfold bit_and_iff bit_or_iff bit_1_iff) auto
qed

lemma decode_bar_io:
  assumes "i < 6" "2 \<le> k" "k < 32"
    and hw: "\<And>old v. l (bar_addr d i) old v = bar_latch k 1 v"
    and reg: "cfg s (bar_addr d i) = base OR 1" "base AND mask k = 0"
  shows "decode_bar l d i sk s =
    (d\<lparr>pd_bars := (pd_bars d)[i := \<lparr>bar_base = ucast base, bar_size = 2 ^ k, bar_type = PCI_BAR_IO,
       bar_is_64bit = 0, bar_prefetchable = 0\<rparr>]\<rparr>,
     sk, s\<lparr>cf8 := bar_addr d i\<rparr>)"
proof -
  note F = io_fields [OF assms(2) reg(2)]
  have nz: "base OR 1 \<noteq> 0" by (metis F(3) zero_and_eq zero_neq_one)
  show ?thesis
    using hw reg F nz size_io [OF assms(2,3)]
    unfolding decode_bar_def state_simps Let_def prod.case bar_addr_def [symmetric]
    by (simp add: set_bar_def bar_cleared_def fun_upd_idem)
qed

text \<open>A device that decodes only 16 address bits of an I/O register, as the PCI specification
  allows on a PC, reads the upper half back as zero: the size computed from it is short of
  \<open>2 ^ 32\<close> by \<open>2 ^ 16 - 2 ^ k\<close> instead of \<open>2 ^ k\<close>.\<close>

lemma io_bar_16bit_size:
  assumes "i < 6" "2 \<le> k" "k < 16"
    and hw: "\<And>old v. l (bar_addr d i) old v = bar_latch k 1 (v AND 0xFFFF)"
    and reg: "cfg s (bar_addr d i) = 0xC001" "i < length (pd_bars d)"
  shows "bar_size (pd_bars (fst (decode_bar l d i sk s)) ! i) = 0xFFFF0000 + 2 ^ k"
proof -
  have "\<forall>k \<in> set [2..<16].
      ucast (NOT ((bar_latch k 1 0xFFFF) AND NOT 3) + 1 :: u32) = (0xFFFF0000 + 2 ^ k :: u64) \<and>
      bar_latch k 1 0xFFFF AND NOT 3 \<noteq> 0"
    by (simp add: mask_eq_exp_minus_1 bar_latch_def)
  then have "ucast (NOT ((bar_latch k 1 0xFFFF) AND NOT 3) + 1 :: u32) = (0xFFFF0000 + 2 ^ k :: u64)"
    "bar_latch k 1 0xFFFF AND NOT 3 \<noteq> 0"
    using assms(2,3) by (metis atLeastLessThan_iff set_upt)+
  then show ?thesis
    using hw reg
    unfolding decode_bar_def state_simps Let_def prod.case bar_addr_def [symmetric]
    by (simp add: set_bar_def bar_cleared_def)
qed

section \<open>Accessors and look-up\<close>

definition half_shift :: "u8 \<Rightarrow> nat" where
  "half_shift off = unat (off AND 2) * 8"

definition with_half :: "nat \<Rightarrow> u16 \<Rightarrow> u32 \<Rightarrow> u32" where
  "with_half sh v c = (c AND NOT (push_bit sh 0xFFFF)) OR push_bit sh (ucast v)"

definition word_of :: "pci_device \<Rightarrow> u8 \<Rightarrow> u32" where
  "word_of d off = bdf_addr (pd_bus d) (pd_slot d) (pd_func d) (off AND NOT 3)"

lemma read16_eq [state_simps]:
  "pci_cfg_read16 l d off s =
     (ucast (drop_bit (half_shift off) (cfg s (word_of d off))), s\<lparr>cf8 := word_of d off\<rparr>)"
  by (simp only: pci_cfg_read16_def state_simps prod.case Let_def half_shift_def word_of_def)

lemma write16_eq [state_simps]:
  "pci_cfg_write16 l d off v s = (let a = word_of d off
     in s\<lparr>cf8 := a, cfg := (cfg s)(a := l a (cfg s a) (with_half (half_shift off) v (cfg s a)))\<rparr>)"
  by (simp add: pci_cfg_write16_def state_simps Let_def half_shift_def [symmetric]
      word_of_def with_half_def [symmetric])

lemma half_shift_cases: "half_shift off = (if bit off 1 then 16 else 0)"
proof -
  have "off AND 2 = (if bit off 1 then 2 else 0)"
    by (rule bit_eqI) (auto simp: bit_and_iff bit_2_iff)
  then show ?thesis by (simp add: half_shift_def)
qed

lemma bit_3: "bit (3 :: 'a :: len word) n \<longleftrightarrow> n < 2 \<and> n < LENGTH('a)"
proof -
  have "(3 :: 'a word) = mask 2" by (simp add: mask_eq_exp_minus_1)
  then show ?thesis by (simp only: bit_mask_iff possible_bit_word) auto
qed

lemma other_half:
  "word_of d (off XOR 2) = word_of d off" "half_shift (off XOR 2) = 16 - half_shift off"
proof -
  have "(off XOR 2) AND NOT 3 = off AND NOT 3"
    by (rule bit_eqI, unfold bit_and_iff bit_not_iff bit_xor_iff bit_2_iff bit_3) auto
  then show "word_of d (off XOR 2) = word_of d off" by (simp only: word_of_def)
  show "half_shift (off XOR 2) = 16 - half_shift off"
    by (simp add: half_shift_cases bit_xor_iff bit_2_iff)
qed

lemma ones_lo: "bit (0xFFFF :: 'a :: len word) n \<longleftrightarrow> n < 16 \<and> n < LENGTH('a)"
proof -
  have "(0xFFFF :: 'a word) = mask 16" by (simp add: mask_eq_exp_minus_1)
  then show ?thesis by (simp only: bit_mask_iff possible_bit_word) auto
qed

lemma bit_with_half:
  "bit (with_half sh v c) n \<longleftrightarrow> n < 32 \<and> (if sh \<le> n \<and> n - sh < 16 then bit v (n - sh) else bit c n)"
  unfolding with_half_def bit_or_iff bit_and_iff bit_not_iff bit_push_bit_iff ones_lo bit_ucast_iff
    possible_bit_word
  by (auto dest: bit_imp_le_length)

lemma halves:
  assumes "sh = 0 \<or> sh = 16"
  shows "ucast (drop_bit sh (with_half sh v c)) = v"
    "ucast (drop_bit (16 - sh) (with_half sh v c)) = (ucast (drop_bit (16 - sh) c) :: u16)"
  by (rule bit_eqI, use assms in \<open>fastforce simp: bit_ucast_iff bit_drop_bit_eq bit_with_half
    dest: bit_imp_le_length\<close>)+

text \<open>On an ordinary register a 16-bit write is read back and leaves the other half of the
  32-bit register it shares as it was, although the hardware is only ever written 32 bits at a
  time.\<close>

theorem cfg16_roundtrip:
  assumes "\<And>old v. l (word_of d off) old v = v"
  shows "fst (pci_cfg_read16 l d off (pci_cfg_write16 l d off v s)) = v \<and>
    fst (pci_cfg_read16 l d (off XOR 2) (pci_cfg_write16 l d off v s)) =
      fst (pci_cfg_read16 l d (off XOR 2) s)"
proof -
  have "half_shift off = 0 \<or> half_shift off = 16" by (simp add: half_shift_cases)
  from halves [OF this, of v] show ?thesis
    by (simp add: state_simps Let_def other_half assms)
qed

lemma cfg16_roundtrip_witness:
  "fst (pci_cfg_read16 (\<lambda>a old v. v) (hd (pdevices example_pci)) 6
     (pci_cfg_write16 (\<lambda>a old v. v) (hd (pdevices example_pci)) 6 0xBEEF example_pci)) = 0xBEEF"
  using cfg16_roundtrip [of "\<lambda>a old v. v" "hd (pdevices example_pci)" 6 "0xBEEF" example_pci] by simp

text \<open>The header promises accessors for any alignment; at an odd offset the 16-bit read returns the
  aligned half the offset lies in.\<close>

lemma read16_ignores_bit_0: "pci_cfg_read16 l d (off OR 1) s = pci_cfg_read16 l d off s"
proof -
  have "(off OR 1) AND NOT 3 = off AND NOT 3"
    by (rule bit_eqI, unfold bit_and_iff bit_not_iff bit_or_iff bit_1_iff bit_3) auto
  then have "word_of d (off OR 1) = word_of d off" by (simp only: word_of_def)
  moreover have "half_shift (off OR 1) = half_shift off"
    by (simp add: half_shift_cases bit_or_iff bit_1_iff)
  ultimately show ?thesis by (simp only: state_simps)
qed

lemma read16_unaligned:
  assumes "cfg s (word_of d 0) = 0x44332211"
  shows "fst (pci_cfg_read16 l d 1 s) = 0x2211"
proof -
  have "fst (pci_cfg_read16 l d (0 OR 1) s) = fst (pci_cfg_read16 l d 0 s)"
    by (simp only: read16_ignores_bit_0)
  then show ?thesis using assms by (simp add: state_simps half_shift_def)
qed

text \<open>The command register shares its 32 bits with the status register, whose event bits are
  cleared by writing ones to them.  The read-modify-write of \<^verbatim>\<open>pci_enable_mmio_bus_master\<close> sets the
  two command bits and keeps the others, but writes the pending status bits back as ones.\<close>

definition command_latch :: "u32 \<Rightarrow> u32 \<Rightarrow> u32" where
  "command_latch old v = (v AND 0xFFFF) OR ((old AND NOT v) AND NOT 0xFFFF)"

lemma bit_6: "bit (6 :: u16) n \<longleftrightarrow> n = 1 \<or> n = 2"
proof -
  have "(6 :: u16) = 2 OR 4" by simp
  moreover have "bit (4 :: u16) n \<longleftrightarrow> n = 2"
    using bit_exp_iff [of 2 n, where 'a = u16] by auto
  ultimately show ?thesis by (simp only: bit_or_iff bit_2_iff) auto
qed

lemma enable_clears_status:
  assumes "\<And>old v. l (word_of d 4) old v = command_latch old v"
  shows "cfg (pci_enable_mmio_bus_master l (Some d) s) =
    (cfg s)(word_of d 4 := ucast ((ucast (cfg s (word_of d 4)) :: u16) OR 6))"
proof -
  have "command_latch c (with_half 0 (ucast c OR 6) c) = ucast ((ucast c :: u16) OR 6)" for c
    by (rule bit_eqI, unfold command_latch_def bit_or_iff bit_and_iff bit_not_iff ones_lo
        bit_with_half bit_ucast_iff possible_bit_word bit_6) auto
  moreover have "half_shift 4 = 0" by (simp add: half_shift_def)
  ultimately show ?thesis
    by (simp add: pci_enable_mmio_bus_master_def state_simps Let_def assms)
qed

definition class_matches :: "u8 \<Rightarrow> u8 \<Rightarrow> pci_device \<Rightarrow> bool" where
  "class_matches cc sc d \<longleftrightarrow>
     (cc = 0xFF \<or> pd_class_code d = cc) \<and> (sc = 0xFF \<or> pd_subclass d = sc)"

definition id_matches :: "u16 \<Rightarrow> u16 \<Rightarrow> pci_device \<Rightarrow> bool" where
  "id_matches v p d \<longleftrightarrow>
     (v = 0xFFFF \<or> pd_vendor_id d = v) \<and> (p = 0xFFFF \<or> pd_device_id d = p)"

lemma scan_iff:
  "scan p i hi = Some k \<longleftrightarrow> i \<le> k \<and> k < hi \<and> p k \<and> (\<forall>j. i \<le> j \<and> j < k \<longrightarrow> \<not> p j)"
  using scan_Some [of p i hi k] scan_first [of i k hi p] by blast

lemma pci_find_class_first:
  "pci_find_class cc sc s = Some i \<longleftrightarrow>
     i < device_count s \<and> class_matches cc sc (pdevices s ! i) \<and>
     (\<forall>j < i. \<not> class_matches cc sc (pdevices s ! j))"
  unfolding pci_find_class_def scan_iff class_matches_def Let_def by auto

lemma pci_find_id_first:
  "pci_find_id v p s = Some i \<longleftrightarrow>
     i < device_count s \<and> id_matches v p (pdevices s ! i) \<and>
     (\<forall>j < i. \<not> id_matches v p (pdevices s ! j))"
  unfolding pci_find_id_def scan_iff id_matches_def Let_def by auto

end
