(* ===== verification/VirtioTablet.thy ===== *)
theory VirtioTablet
  imports Pci Bytes Mouse Pmm "HOL-Library.Signed_Division"
begin

text \<open>
  The virtio tablet (\<^verbatim>\<open>src/src/drivers/virtio_tablet.c\<close>): discovery on the PCI bus, the walk along the
  capability list, negotiation, the virtqueue and the conversion of input events to pointer
  positions.  The globals of the file are the record \<open>vt\<close>, those the event handler works on its
  part \<open>vtin\<close>, which includes the mouse state the driver injects into.

  Device registers and the ring page are bytes of one memory.  The device is a parameter \<open>dev\<close>:
  \<open>dev a m\<close> is the memory after the device has noticed a store at register address \<open>a\<close> that left
  \<open>m\<close>.  Stores to the ring page are plain.  The loop along the capability list, which follows
  pointers of the device, is a \<open>partial_function\<close>; the loop over used buffers is a function with a
  measure.  A null pointer is the address 0.  The calls of \<^verbatim>\<open>mmio_map\<close> for the register windows are listed in
  \<open>vmaps\<close>; that they may panic is the subject of \<open>Vmm\<close> and not part of this model.

  What a device may do with the ring is \<open>ring_step\<close>, the ownership rules of a virtqueue; the theorems about
  polling assume it of every reaction to a register store and of everything the device does between
  polls.
\<close>

record vtin =
  vmouse :: mouse
  g_scr_w :: u32
  g_scr_h :: u32
  g_ax_min :: int
  g_ax_max :: int
  g_ay_min :: int
  g_ay_max :: int
  g_abs_x :: int
  g_abs_y :: int
  g_have_abs_x :: bool
  g_have_abs_y :: bool
  g_out_x :: int
  g_out_y :: int
  g_btn :: u8

record vt =
  vpci :: pci
  vmem :: bytes
  vpmm :: pmm
  vhhdm :: nat
  vmaps :: "(nat \<times> nat \<times> nat) list"
  g_bar :: "nat list"
  g_bar_phys :: "nat list"
  g_bar_size :: "u32 list"
  g_common :: nat
  g_notify_base :: nat
  g_notify_mult :: u32
  g_device_cfg :: nat
  g_ring_phys :: nat
  g_ring_virt :: nat
  g_qsz :: nat
  g_last_used :: u16
  g_active :: bool
  vin :: vtin

record virtio_input_event =
  ev_type :: u16
  ev_code :: u16
  ev_value :: int

type_synonym device = "nat \<Rightarrow> bytes \<Rightarrow> bytes"

definition VIRTIO_PCI_DEVICE_ID_INPUT :: u16 where "VIRTIO_PCI_DEVICE_ID_INPUT = 0x1040 + 18"
definition EV_SYN :: u16 where "EV_SYN = 0"
definition EV_KEY :: u16 where "EV_KEY = 1"
definition EV_ABS :: u16 where "EV_ABS = 3"
definition SYN_REPORT :: u16 where "SYN_REPORT = 1"
definition ABS_X :: u16 where "ABS_X = 0"
definition ABS_Y :: u16 where "ABS_Y = 1"
definition BTN_LEFT :: u16 where "BTN_LEFT = 0x110"
definition BTN_RIGHT :: u16 where "BTN_RIGHT = 0x111"
definition BTN_MIDDLE :: u16 where "BTN_MIDDLE = 0x112"

section \<open>Registers\<close>

definition vt_store :: "device \<Rightarrow> nat \<Rightarrow> u8 list \<Rightarrow> vt \<Rightarrow> vt" where
  "vt_store dev a bs s = s\<lparr>vmem := dev a (poke a bs (vmem s))\<rparr>"

definition vt_wr8 :: "device \<Rightarrow> nat \<Rightarrow> nat \<Rightarrow> u8 \<Rightarrow> vt \<Rightarrow> vt" where
  "vt_wr8 dev mm off v = vt_store dev (mm + off) [v]"

definition vt_wr16 :: "device \<Rightarrow> nat \<Rightarrow> nat \<Rightarrow> u16 \<Rightarrow> vt \<Rightarrow> vt" where
  "vt_wr16 dev mm off v = vt_store dev (mm + off) (bytes16 v)"

definition vt_wr32 :: "device \<Rightarrow> nat \<Rightarrow> nat \<Rightarrow> u32 \<Rightarrow> vt \<Rightarrow> vt" where
  "vt_wr32 dev mm off v = vt_store dev (mm + off) (bytes32 v)"

definition vt_ram :: "nat \<Rightarrow> u8 list \<Rightarrow> vt \<Rightarrow> vt" where
  "vt_ram a bs s = s\<lparr>vmem := poke a bs (vmem s)\<rparr>"

definition cap8 :: "latch \<Rightarrow> pci_device \<Rightarrow> u8 \<Rightarrow> vt \<Rightarrow> u8 \<times> vt" where
  "cap8 l d off s = (let (v, p) = pci_cfg_read8 l d off (vpci s) in (v, s\<lparr>vpci := p\<rparr>))"

definition cap32 :: "latch \<Rightarrow> pci_device \<Rightarrow> u8 \<Rightarrow> vt \<Rightarrow> u32 \<times> vt" where
  "cap32 l d off s = (let (v, p) = pci_cfg_read32 l d off (vpci s) in (v, s\<lparr>vpci := p\<rparr>))"

section \<open>Discovery\<close>

primrec find_by_subsystem :: "latch \<Rightarrow> nat \<Rightarrow> nat \<Rightarrow> pci \<Rightarrow> nat option \<times> pci" where
  "find_by_subsystem l i 0 p = (None, p)"
| "find_by_subsystem l i (Suc n) p =
     (case pci_at i p of
        None \<Rightarrow> find_by_subsystem l (i + 1) n p
      | Some j \<Rightarrow>
          let c = pdevices p ! j
          in if pd_vendor_id c \<noteq> 0x1AF4 then find_by_subsystem l (i + 1) n p
             else if pd_device_id c = VIRTIO_PCI_DEVICE_ID_INPUT then (Some j, p)
             else let (sub, p1) = pci_cfg_read16 l c 0x2E p
             in if sub = 18 then (Some j, p1) else find_by_subsystem l (i + 1) n p1)"

definition find_virtio_input :: "latch \<Rightarrow> pci \<Rightarrow> nat option \<times> pci" where
  "find_virtio_input l p =
     (case pci_find_id 0x1AF4 VIRTIO_PCI_DEVICE_ID_INPUT p of
        Some j \<Rightarrow> (Some j, p)
      | None \<Rightarrow> find_by_subsystem l 0 (device_count p) p)"

definition map_bar :: "pci_device \<Rightarrow> nat \<Rightarrow> vt \<Rightarrow> vt" where
  "map_bar d i s =
     (if i \<ge> PCI_BAR_COUNT then s
      else if g_bar s ! i \<noteq> 0 then s
      else let b = pd_bars d ! i
      in if bar_type b \<noteq> PCI_BAR_MEM \<or> bar_size b = 0 then s
         else let phys = unat (bar_base b);
                  sz = (ucast (if bar_size b > 0x200000 then 0x200000 else bar_size b) :: u32);
                  virt = wrap64 (phys + vhhdm s)
              in s\<lparr>vmaps := vmaps s @ [(virt, phys, unat sz)], g_bar := (g_bar s)[i := virt],
                   g_bar_phys := (g_bar_phys s)[i := phys], g_bar_size := (g_bar_size s)[i := sz]\<rparr>)"

definition bar_ptr :: "nat \<Rightarrow> u32 \<Rightarrow> vt \<Rightarrow> nat" where
  "bar_ptr i off s =
     (if i \<ge> PCI_BAR_COUNT \<or> g_bar s ! i = 0 then 0
      else if off \<ge> g_bar_size s ! i then 0
      else g_bar s ! i + unat off)"

definition vendor_cap :: "latch \<Rightarrow> pci_device \<Rightarrow> u8 \<Rightarrow> vt \<Rightarrow> bool \<times> vt" where
  "vendor_cap l d cap s =
     (let (cfg_type, s) = cap8 l d (cap + 3) s;
          (bar, s) = cap8 l d (cap + 4) s;
          (cap_len, s) = cap8 l d (cap + 2) s;
          (off, s) = cap32 l d (cap + 8) s;
          s = map_bar d (unat bar) s;
          p = bar_ptr (unat bar) off s
      in if p = 0 then (False, s)
         else if cfg_type = 1 then (True, s\<lparr>g_common := p\<rparr>)
         else if cfg_type = 2
         then let s = s\<lparr>g_notify_base := p\<rparr>
              in if cap_len \<ge> 20
                 then let (mult, s) = cap32 l d (cap + 16) s in (True, s\<lparr>g_notify_mult := mult\<rparr>)
                 else (True, s)
         else if cfg_type = 4 then (True, s\<lparr>g_device_cfg := p\<rparr>)
         else (True, s))"

partial_function (option) caps_loop :: "latch \<Rightarrow> pci_device \<Rightarrow> u8 \<Rightarrow> vt \<Rightarrow> (bool \<times> vt) option" where
  "caps_loop l d cap s =
     (if cap = 0 then Some (True, s)
      else let (id, s1) = cap8 l d cap s;
               (ok, s2) = (if id = 9 then vendor_cap l d cap s1 else (True, s1))
      in if \<not> ok then Some (False, s2)
         else let (nxt, s3) = cap8 l d (cap + 1) s2
         in caps_loop l d nxt s3)"

definition walk_caps :: "latch \<Rightarrow> pci_device \<Rightarrow> vt \<Rightarrow> (bool \<times> vt) option" where
  "walk_caps l d s =
     (let s0 = s\<lparr>g_common := 0, g_notify_base := 0, g_device_cfg := 0, g_notify_mult := 1\<rparr>;
          (cap, s1) = cap8 l d 0x34 s0
      in map_option (\<lambda>(ok, s2).
           (ok \<and> g_common s2 \<noteq> 0 \<and> g_notify_base s2 \<noteq> 0 \<and> g_device_cfg s2 \<noteq> 0, s2))
           (caps_loop l d cap s1))"

section \<open>Axis ranges and events\<close>

definition read_abs_range :: "device \<Rightarrow> u16 \<Rightarrow> vt \<Rightarrow> (int \<times> int) \<times> vt" where
  "read_abs_range dev code s =
     (if g_device_cfg s = 0 then ((0, 32767), s)
      else let dc = g_device_cfg s;
               s1 = vt_wr8 dev dc 0 0x10 s;
               s2 = vt_wr8 dev dc 1 (ucast code) s1
      in if vmem s2 (dc + 2) < 8 then ((0, 32767), s2)
         else let umin = sint (rd32 (vmem s2) (dc + 8)); umax = sint (rd32 (vmem s2) (dc + 12))
         in if umax > umin then ((umin, umax), s2) else ((0, 32767), s2))"

definition scale_abs :: "int \<Rightarrow> int \<Rightarrow> int \<Rightarrow> u32 \<Rightarrow> int" where
  "scale_abs v lo hi screen_max =
     (if hi \<le> lo then i32 (i64 (v * uint screen_max) sdiv 32767)
      else let x = i64 ((v - lo) * uint screen_max) sdiv i32 (hi - lo);
               x = (if x < 0 then 0 else x);
               x = (if x > uint screen_max then uint screen_max else x)
           in i32 x)"

definition inject_mouse :: "vtin \<Rightarrow> vtin" where
  "inject_mouse t =
     (let t1 = (if g_have_abs_x t
            then t\<lparr>g_out_x := scale_abs (g_abs_x t) (g_ax_min t) (g_ax_max t)
                     (if g_scr_w t \<noteq> 0 then g_scr_w t - 1 else 0)\<rparr> else t);
          t2 = (if g_have_abs_y t1
            then t1\<lparr>g_out_y := scale_abs (g_abs_y t1) (g_ay_min t1) (g_ay_max t1)
                     (if g_scr_h t1 \<noteq> 0 then g_scr_h t1 - 1 else 0)\<rparr> else t1)
      in t2\<lparr>vmouse := mouse_absolute_inject (g_out_x t2) (g_out_y t2) (g_btn t2) (vmouse t2),
            g_have_abs_x := False, g_have_abs_y := False\<rparr>)"

definition set_button :: "u8 \<Rightarrow> int \<Rightarrow> vtin \<Rightarrow> vtin" where
  "set_button b v t = t\<lparr>g_btn := (g_btn t AND NOT b) OR (if v \<noteq> 0 then b else 0)\<rparr>"

definition handle_event :: "virtio_input_event \<Rightarrow> vtin \<Rightarrow> vtin" where
  "handle_event ev t =
     (let ty = ev_type ev; c = ev_code ev; v = ev_value ev
      in if ty = EV_ABS \<and> c = ABS_X then t\<lparr>g_abs_x := v, g_have_abs_x := True\<rparr>
         else if ty = EV_ABS \<and> c = ABS_Y then t\<lparr>g_abs_y := v, g_have_abs_y := True\<rparr>
         else if ty = EV_KEY
         then (if c = BTN_LEFT then set_button 1 v t
               else if c = BTN_RIGHT then set_button 2 v t
               else if c = BTN_MIDDLE then set_button 4 v t
               else t)
         else if ty = EV_SYN \<and> c = SYN_REPORT then inject_mouse t
         else t)"

section \<open>The queue\<close>

definition notify_addr :: "nat \<Rightarrow> u32 \<Rightarrow> u16 \<Rightarrow> nat" where
  "notify_addr base mult noff =
     (if mult = 0 then base + unat noff else base + unat noff * unat mult)"

definition notify_queue :: "device \<Rightarrow> u16 \<Rightarrow> vt \<Rightarrow> vt" where
  "notify_queue dev q s =
     (if g_notify_base s = 0 \<or> g_common s = 0 then s
      else let s1 = vt_wr16 dev (g_common s) 22 q s;
               noff = rd16 (vmem s1) (g_common s1 + 30);
               addr = notify_addr (g_notify_base s1) (g_notify_mult s1) noff
           in vt_store dev addr (bytes16 q) s1)"

lemma unat_dec: "(x :: 'a :: len word) \<noteq> 0 \<Longrightarrow> unat (x - 1) < unat x"
  by (metis diff_less unat_gt_0 unat_minus_one zero_less_one)

function power_of_two :: "u32 \<Rightarrow> u32" where
  "power_of_two q = (if q AND (q - 1) \<noteq> 0 then power_of_two (q AND (q - 1)) else q)"
  by pat_completeness auto
termination
proof (relation "measure unat")
  fix q :: u32
  assume ne: "q AND (q - 1) \<noteq> 0"
  have "q \<noteq> 0" using ne by auto
  then have "unat (q - 1) < unat q" by (rule unat_dec)
  moreover have "unat (q AND (q - 1)) \<le> unat (q - 1)"
    using word_and_le1 [of q "q - 1"] word_and_le2 [of q "q - 1"] by (auto simp: word_le_nat_alt)
  ultimately show "(q AND (q - 1), q) \<in> measure unat" by simp
qed auto

declare power_of_two.simps [simp del]

definition fill_desc :: "nat \<Rightarrow> nat \<Rightarrow> nat \<Rightarrow> vt \<Rightarrow> vt" where
  "fill_desc rv data0 i s =
     vt_ram (rv + 0x204 + 2 * i) (bytes16 (of_nat i))
       (vt_ram (rv + 16 * i) (bytes64 (of_nat (data0 + i * 8)) @ bytes32 8 @ bytes16 2 @ bytes16 0) s)"

definition queue_regs :: "device \<Rightarrow> nat \<Rightarrow> nat \<Rightarrow> vt \<Rightarrow> vt" where
  "queue_regs dev c ring_phys s =
     (let s1 = vt_wr16 dev c 26 0xFFFF s;
          s2 = vt_wr32 dev c 36 (of_nat (ring_phys div 2 ^ 32)) (vt_wr32 dev c 32 (of_nat ring_phys) s1);
          s3 = vt_wr32 dev c 44 0 (vt_wr32 dev c 40 (of_nat (ring_phys + 0x200)) s2);
          s4 = vt_wr32 dev c 52 0 (vt_wr32 dev c 48 (of_nat (ring_phys + 0x300)) s3)
      in vt_wr16 dev c 28 1 s4)"

definition queue_size_for :: "nat \<Rightarrow> u16 \<Rightarrow> nat" where
  "queue_size_for want qmax =
     (let qsz = (if want > unat qmax then unat qmax else want);
          qsz = unat (power_of_two (of_nat qsz))
      in if qsz < 2 then 2 else qsz)"

definition init_ring :: "nat \<Rightarrow> vt \<Rightarrow> vt" where
  "init_ring ring_phys s =
     (let rv = ring_phys + vhhdm s;
          s1 = vt_ram rv (replicate 4096 0) (s\<lparr>g_ring_phys := ring_phys, g_ring_virt := rv\<rparr>);
          s2 = vt_ram (rv + 0x202) (bytes16 0) (vt_ram (rv + 0x302) (bytes16 0) s1);
          s3 = fold (fill_desc rv (ring_phys + 0x100)) [0..<g_qsz s] s2
      in vt_ram (rv + 0x202) (bytes16 (of_nat (g_qsz s))) s3)"

definition setup_vq :: "device \<Rightarrow> u16 \<Rightarrow> nat \<Rightarrow> vt \<Rightarrow> bool \<times> vt" where
  "setup_vq dev q want s =
     (let s1 = vt_wr16 dev (g_common s) 22 q s;
          qmax = rd16 (vmem s1) (g_common s1 + 24)
      in if qmax < 2 then (False, s1)
         else let qsz = queue_size_for want qmax;
                  s2 = vt_wr16 dev (g_common s1) 24 (of_nat qsz) (s1\<lparr>g_qsz := qsz\<rparr>);
                  (ring_phys, p) = pmm_alloc_contig 1 (vpmm s2);
                  s3 = s2\<lparr>vpmm := p\<rparr>
      in if ring_phys = 0 then (False, s3)
         else let s4 = queue_regs dev (g_common s3) ring_phys (init_ring ring_phys s3)
              in (True, notify_queue dev q (s4\<lparr>g_last_used := 0\<rparr>)))"

definition virtio_tablet_shutdown :: "vt \<Rightarrow> vt" where
  "virtio_tablet_shutdown s =
     s\<lparr>g_active := False, g_common := 0, g_notify_base := 0, g_device_cfg := 0, g_notify_mult := 0,
       g_bar := map (\<lambda>_. 0) (g_bar s), g_ring_phys := 0, g_ring_virt := 0, g_qsz := 0,
       g_last_used := 0\<rparr>"

definition negotiate :: "device \<Rightarrow> vt \<Rightarrow> bool \<times> vt" where
  "negotiate dev s =
     (let c = g_common s;
          s1 = vt_wr8 dev c 20 (1 OR 2) (vt_wr8 dev c 20 1 (vt_wr8 dev c 20 0 s));
          s2 = vt_wr32 dev c 12 0 (vt_wr32 dev c 8 0 (vt_wr32 dev c 0 0 s1));
          s3 = vt_wr32 dev c 0 1 s2;
          dev_hi = rd32 (vmem s3) (c + 4);
          s4 = vt_wr32 dev c 12 (dev_hi AND 1) (vt_wr32 dev c 8 1 s3);
          s5 = vt_wr8 dev c 20 (1 OR 2 OR 8) s4
      in if vmem s5 (c + 20) AND 8 = 0 then (False, vt_wr8 dev c 20 128 s5) else (True, s5))"

definition set_ranges :: "u32 \<Rightarrow> u32 \<Rightarrow> device \<Rightarrow> vt \<Rightarrow> vt" where
  "set_ranges screen_w screen_h dev s =
     (let w = (if screen_w \<noteq> 0 then screen_w else 1920);
          h = (if screen_h \<noteq> 0 then screen_h else 1080);
          ((xmin, xmax), s1) = read_abs_range dev ABS_X s;
          ((ymin, ymax), s2) = read_abs_range dev ABS_Y s1
      in s2\<lparr>vin := (vin s2)\<lparr>g_scr_w := w, g_scr_h := h, g_out_x := sint (w div 2), g_out_y := sint (h div 2),
             g_ax_min := xmin, g_ax_max := xmax, g_ay_min := ymin, g_ay_max := ymax\<rparr>\<rparr>)"

definition init_device :: "device \<Rightarrow> u32 \<Rightarrow> u32 \<Rightarrow> bool \<times> vt \<Rightarrow> bool \<times> vt" where
  "init_device dev screen_w screen_h r =
     (let (caps, s3) = r
      in if \<not> caps \<or> g_common s3 = 0 then (False, virtio_tablet_shutdown s3)
         else let (feat, s5) = negotiate dev (set_ranges screen_w screen_h dev s3)
         in if \<not> feat then (False, virtio_tablet_shutdown s5)
            else let (vq, s6) = setup_vq dev 0 16 (vt_wr16 dev (g_common s5) 16 0xFFFF s5)
            in if \<not> vq then (False, virtio_tablet_shutdown s6)
               else (True, (vt_wr8 dev (g_common s6) 20 (1 OR 2 OR 8 OR 4) s6)\<lparr>g_active := True\<rparr>))"

definition virtio_tablet_probe_and_init ::
  "latch \<Rightarrow> device \<Rightarrow> u32 \<Rightarrow> u32 \<Rightarrow> vt \<Rightarrow> (bool \<times> vt) option" where
  "virtio_tablet_probe_and_init l dev screen_w screen_h s =
     (let s0 = virtio_tablet_shutdown s;
          (found, p) = find_virtio_input l (vpci s0);
          s1 = s0\<lparr>vpci := p\<rparr>
      in case found of None \<Rightarrow> Some (False, s1)
      | Some j \<Rightarrow>
          let d = pdevices p ! j;
              (cmd, p1) = pci_cfg_read16 l d 0x04 p;
              s2 = s1\<lparr>vpci := pci_cfg_write16 l d 0x04 (cmd OR 6) p1\<rparr>
          in map_option (init_device dev screen_w screen_h) (walk_caps l d s2))"

section \<open>Polling\<close>

definition read_event :: "bytes \<Rightarrow> nat \<Rightarrow> virtio_input_event" where
  "read_event m a = \<lparr>ev_type = rd16 m a, ev_code = rd16 m (a + 2), ev_value = sint (rd32 m (a + 4))\<rparr>"

definition poll_step :: "device \<Rightarrow> vt \<Rightarrow> vt" where
  "poll_step dev s =
     (let rv = g_ring_virt s;
          id = rd32 (vmem s) (rv + 0x304 + 8 * (unat (g_last_used s) mod g_qsz s));
          s1 = (if unat id < g_qsz s
                then s\<lparr>vin := handle_event (read_event (vmem s) (rv + 0x100 + unat id * 8)) (vin s)\<rparr>
                else s);
          s2 = s1\<lparr>g_last_used := g_last_used s1 + 1\<rparr>;
          ai = rd16 (vmem s2) (rv + 0x202);
          s3 = vt_ram (rv + 0x204 + 2 * (unat ai mod g_qsz s2)) (bytes16 (ucast id)) s2;
          s4 = vt_ram (rv + 0x202) (bytes16 (ai + 1)) s3
      in notify_queue dev 0 s4)"

lemma notify_frame [simp]:
  "g_last_used (notify_queue dev q s) = g_last_used s" "g_ring_virt (notify_queue dev q s) = g_ring_virt s"
  "g_qsz (notify_queue dev q s) = g_qsz s" "vin (notify_queue dev q s) = vin s"
  "g_common (notify_queue dev q s) = g_common s" "g_notify_base (notify_queue dev q s) = g_notify_base s"
  "g_notify_mult (notify_queue dev q s) = g_notify_mult s" "g_active (notify_queue dev q s) = g_active s"
  by (simp_all add: notify_queue_def vt_wr16_def vt_store_def Let_def)

lemma poll_step_frame [simp]:
  "g_last_used (poll_step dev s) = g_last_used s + 1" "g_ring_virt (poll_step dev s) = g_ring_virt s"
  "g_qsz (poll_step dev s) = g_qsz s" "g_common (poll_step dev s) = g_common s"
  "g_notify_base (poll_step dev s) = g_notify_base s" "g_notify_mult (poll_step dev s) = g_notify_mult s"
  by (simp_all add: poll_step_def vt_ram_def Let_def)

function poll_loop :: "device \<Rightarrow> u16 \<Rightarrow> vt \<Rightarrow> vt" where
  "poll_loop dev used_idx s =
     (if g_last_used s \<noteq> used_idx then poll_loop dev used_idx (poll_step dev s) else s)"
  by pat_completeness auto
termination
proof (relation "measure (\<lambda>(dev, used_idx, s). unat (used_idx - g_last_used s))")
  fix dev used_idx and s :: vt
  assume ne: "g_last_used s \<noteq> used_idx"
  have "used_idx - (g_last_used s + 1) = used_idx - g_last_used s - 1" by simp
  moreover have "used_idx - g_last_used s \<noteq> 0" using ne by auto
  ultimately have "unat (used_idx - (g_last_used s + 1)) < unat (used_idx - g_last_used s)"
    using unat_dec by metis
  then show "((dev, used_idx, poll_step dev s), dev, used_idx, s)
      \<in> measure (\<lambda>(dev, used_idx, s). unat (used_idx - g_last_used s))" by simp
qed auto

declare poll_loop.simps [simp del]

definition virtio_tablet_poll :: "device \<Rightarrow> vt \<Rightarrow> vt" where
  "virtio_tablet_poll dev s =
     (if \<not> g_active s \<or> g_ring_virt s = 0 then s
      else poll_loop dev (rd16 (vmem s) (g_ring_virt s + 0x302)) s)"

section \<open>What a poll does\<close>

text \<open>A used entry, the event in a buffer, and the number of buffers the device has reported and the
  driver has not handed back yet: the driver starts with all \<open>q\<close> buffers offered and offers one for
  each one it consumes, so it has consumed \<open>a - q\<close> when the available index is \<open>a\<close>.\<close>

definition used_at :: "nat \<Rightarrow> nat \<Rightarrow> bytes \<Rightarrow> u16 \<Rightarrow> u32" where
  "used_at rv q m j = rd32 m (rv + 0x304 + 8 * (unat j mod q))"

definition event_at :: "nat \<Rightarrow> bytes \<Rightarrow> u32 \<Rightarrow> virtio_input_event" where
  "event_at rv m buf = read_event m (rv + 0x100 + unat buf * 8)"

definition consumed :: "nat \<Rightarrow> nat \<Rightarrow> bytes \<Rightarrow> u16" where
  "consumed rv q m = rd16 m (rv + 0x202) - of_nat q"

definition reported :: "nat \<Rightarrow> nat \<Rightarrow> bytes \<Rightarrow> nat" where
  "reported rv q m = unat (rd16 m (rv + 0x302) - consumed rv q m)"

text \<open>What the device may do with the ring page, at any time: report more buffers, at most as many as
  it holds, and write into those.  It leaves the descriptor table and the available ring alone (they
  are the driver's), and the entries and buffers it has reported until they are handed back.\<close>

definition ring_step :: "nat \<Rightarrow> nat \<Rightarrow> bytes \<Rightarrow> bytes \<Rightarrow> bool" where
  "ring_step rv q m m' \<longleftrightarrow>
     (\<forall>x. rv \<le> x \<and> x < rv + 16 * q \<or> rv + 0x200 \<le> x \<and> x < rv + 0x204 + 2 * q \<longrightarrow> m' x = m x) \<and>
     reported rv q m \<le> reported rv q m' \<and> reported rv q m' \<le> q \<and>
     (\<forall>i < reported rv q m. let j = consumed rv q m + of_nat i; buf = used_at rv q m j
        in used_at rv q m' j = buf \<and> (unat buf < q \<longrightarrow> event_at rv m' buf = event_at rv m buf))"

definition virtio_device :: "device \<Rightarrow> nat \<Rightarrow> nat \<Rightarrow> bool" where
  "virtio_device dev rv q \<longleftrightarrow> (\<forall>a m. reported rv q m \<le> q \<longrightarrow> ring_step rv q m (dev a m))"

lemma ring_step_kept:
  assumes "ring_step rv q m m'"
  shows "rd16 m' (rv + 0x202) = rd16 m (rv + 0x202)" "consumed rv q m' = consumed rv q m"
    "k < q \<Longrightarrow> rd16 m' (rv + 0x204 + 2 * k) = rd16 m (rv + 0x204 + 2 * k)"
proof -
  have same: "m' x = m x" if "rv + 0x200 \<le> x" "x < rv + 0x204 + 2 * q" for x
    using assms that unfolding ring_step_def by blast
  show i: "rd16 m' (rv + 0x202) = rd16 m (rv + 0x202)" by (rule rd_cong) (simp add: same)
  show "consumed rv q m' = consumed rv q m" by (simp add: consumed_def i)
  show "rd16 m' (rv + 0x204 + 2 * k) = rd16 m (rv + 0x204 + 2 * k)" if "k < q"
    by (rule rd_cong) (use that in \<open>simp add: same\<close>)
qed

lemma ring_step_desc:
  assumes "ring_step rv q m m'" "k < q"
  shows "rd64 m' (rv + 16 * k) = rd64 m (rv + 16 * k)" "rd32 m' (rv + 16 * k + 8) = rd32 m (rv + 16 * k + 8)"
    "rd16 m' (rv + 16 * k + 12) = rd16 m (rv + 16 * k + 12)"
proof -
  have same: "m' x = m x" if "rv + 16 * k \<le> x" "x < rv + 16 * k + 16" for x
  proof -
    have "rv \<le> x" "x < rv + 16 * q" using that assms(2) by simp_all
    then show ?thesis using assms(1) unfolding ring_step_def by blast
  qed
  show "rd64 m' (rv + 16 * k) = rd64 m (rv + 16 * k)" by (rule rd64_cong) (simp add: same)
  show "rd32 m' (rv + 16 * k + 8) = rd32 m (rv + 16 * k + 8)"
    "rd16 m' (rv + 16 * k + 12) = rd16 m (rv + 16 * k + 12)" by (rule rd_cong; simp add: same)+
qed

lemma ring_stepD:
  assumes "ring_step rv q m m'"
  shows "reported rv q m \<le> reported rv q m'" "reported rv q m' \<le> q"
    "i < reported rv q m \<Longrightarrow> used_at rv q m' (consumed rv q m + of_nat i) = used_at rv q m (consumed rv q m + of_nat i)"
    "i < reported rv q m \<Longrightarrow> unat (used_at rv q m (consumed rv q m + of_nat i)) < q \<Longrightarrow>
      event_at rv m' (used_at rv q m (consumed rv q m + of_nat i)) =
      event_at rv m (used_at rv q m (consumed rv q m + of_nat i))"
  using assms by (auto simp: ring_step_def Let_def)

lemma ring_step_trans:
  assumes "ring_step rv q m m1" "ring_step rv q m1 m2"
  shows "ring_step rv q m m2"
proof -
  have c: "consumed rv q m1 = consumed rv q m" by (rule ring_step_kept(2) [OF assms(1)])
  have r: "reported rv q m \<le> reported rv q m1" by (rule ring_stepD(1) [OF assms(1)])
  show ?thesis unfolding ring_step_def
  proof (intro conjI allI impI)
    fix x assume "rv \<le> x \<and> x < rv + 16 * q \<or> rv + 0x200 \<le> x \<and> x < rv + 0x204 + 2 * q"
    then show "m2 x = m x" using assms unfolding ring_step_def by metis
  next
    show "reported rv q m \<le> reported rv q m2" "reported rv q m2 \<le> q"
      using r ring_stepD(1,2) [OF assms(2)] by simp_all
  next
    fix i assume i: "i < reported rv q m"
    then show "let j = consumed rv q m + of_nat i; buf = used_at rv q m j
        in used_at rv q m2 j = buf \<and> (unat buf < q \<longrightarrow> event_at rv m2 buf = event_at rv m buf)"
      using ring_stepD(3,4) [OF assms(1) i] ring_stepD(3,4) [OF assms(2), of i] r c by (simp add: Let_def)
  qed
qed

text \<open>Stores outside the page do not concern the ring.\<close>

definition in_page :: "nat \<Rightarrow> nat \<Rightarrow> bool" where
  "in_page rv x \<longleftrightarrow> rv \<le> x \<and> x < rv + 4096"

lemma ring_step_outside:
  assumes "\<And>x. in_page rv x \<Longrightarrow> m' x = m x" "reported rv q m \<le> q" "0 < q" "q \<le> 16"
  shows "ring_step rv q m m'"
proof -
  have i: "rd16 m' (rv + 0x202) = rd16 m (rv + 0x202)" "rd16 m' (rv + 0x302) = rd16 m (rv + 0x302)"
    by (intro rd_cong assms(1); simp add: in_page_def)+
  have u: "used_at rv q m' j = used_at rv q m j" for j
  proof -
    have "unat j mod q < 16" using assms(3,4) by (meson less_le_trans mod_less_divisor)
    then show ?thesis unfolding used_at_def by (intro rd_cong assms(1)) (simp add: in_page_def)
  qed
  have e: "event_at rv m' b = event_at rv m b" if "unat b < q" for b
  proof -
    have "unat b < 16" using that assms(4) by simp
    then have "rd16 m' (rv + 0x100 + unat b * 8) = rd16 m (rv + 0x100 + unat b * 8)"
      "rd16 m' (rv + 0x100 + unat b * 8 + 2) = rd16 m (rv + 0x100 + unat b * 8 + 2)"
      "rd32 m' (rv + 0x100 + unat b * 8 + 4) = rd32 m (rv + 0x100 + unat b * 8 + 4)"
      by (intro rd_cong assms(1); simp add: in_page_def)+
    then show ?thesis by (simp add: event_at_def read_event_def)
  qed
  have "m' x = m x" if "rv \<le> x \<and> x < rv + 16 * q \<or> rv + 0x200 \<le> x \<and> x < rv + 0x204 + 2 * q" for x
    using that assms(4) by (intro assms(1)) (auto simp: in_page_def)
  then show ?thesis using assms(2) i u e by (simp add: ring_step_def reported_def consumed_def Let_def)
qed

definition regs_outside :: "vt \<Rightarrow> bool" where
  "regs_outside s \<longleftrightarrow>
     (\<forall>i < 56. \<not> in_page (g_ring_virt s) (g_common s + i)) \<and>
     (\<forall>noff. \<forall>i < 2. \<not> in_page (g_ring_virt s) (notify_addr (g_notify_base s) (g_notify_mult s) noff + i))"

text \<open>The state a running driver keeps: the size of the queue divides the range of the 16-bit indices,
  every buffer is either with the device or waiting to be consumed, and the device keeps its side.\<close>

definition avail_idx :: "vt \<Rightarrow> u16" where
  "avail_idx s = rd16 (vmem s) (g_ring_virt s + 0x202)"

definition avail_slot :: "vt \<Rightarrow> nat \<Rightarrow> u16" where
  "avail_slot s k = rd16 (vmem s) (g_ring_virt s + 0x204 + 2 * k)"

definition pending :: "vt \<Rightarrow> nat" where
  "pending s = unat (rd16 (vmem s) (g_ring_virt s + 0x302) - g_last_used s)"

definition ring_ok :: "device \<Rightarrow> vt \<Rightarrow> bool" where
  "ring_ok dev s \<longleftrightarrow> virtio_device dev (g_ring_virt s) (g_qsz s) \<and> regs_outside s \<and>
     0 < g_qsz s \<and> g_qsz s \<le> 16 \<and> g_qsz s dvd 65536 \<and>
     avail_idx s = g_last_used s + of_nat (g_qsz s) \<and> pending s \<le> g_qsz s"

text \<open>The identifiers the device has put into the used ring since the last poll, and the events
  in the buffers they name.\<close>

definition used_id :: "vt \<Rightarrow> nat \<Rightarrow> u32" where
  "used_id s i = used_at (g_ring_virt s) (g_qsz s) (vmem s) (g_last_used s + of_nat i)"

definition event_of :: "vt \<Rightarrow> u32 \<Rightarrow> virtio_input_event" where
  "event_of s buf = event_at (g_ring_virt s) (vmem s) buf"

definition pending_events :: "vt \<Rightarrow> nat \<Rightarrow> virtio_input_event list" where
  "pending_events s n =
     map (event_of s) (filter (\<lambda>id. unat id < g_qsz s) (map (used_id s) [0..<n]))"

lemma store_ring:
  assumes "virtio_device dev rv q" "0 < q" "q \<le> 16" "reported rv q (vmem s) \<le> q"
    "\<And>i. i < length bs \<Longrightarrow> \<not> in_page rv (a + i)"
  shows "ring_step rv q (vmem s) (vmem (vt_store dev a bs s))"
proof -
  have "poke a bs (vmem s) x = vmem s x" if "in_page rv x" for x
    using assms(5) [of "x - a"] that by (auto simp: poke_def less_diff_conv2)
  then have p: "ring_step rv q (vmem s) (poke a bs (vmem s))"
    by (rule ring_step_outside) (use assms in auto)
  moreover have "ring_step rv q (poke a bs (vmem s)) (dev a (poke a bs (vmem s)))"
    using assms(1) ring_stepD(2) [OF p] by (simp add: virtio_device_def)
  ultimately show ?thesis unfolding vt_store_def by (simp add: ring_step_trans)
qed

lemma notify_ring:
  assumes "virtio_device dev (g_ring_virt s) q" "regs_outside s" "0 < q" "q \<le> 16"
    "reported (g_ring_virt s) q (vmem s) \<le> q"
  shows "ring_step (g_ring_virt s) q (vmem s) (vmem (notify_queue dev n s))"
proof -
  let ?rv = "g_ring_virt s"
  define s1 where "s1 = vt_wr16 dev (g_common s) 22 n s"
  have f: "g_notify_mult s1 = g_notify_mult s" "g_notify_base s1 = g_notify_base s" "g_common s1 = g_common s"
    by (simp_all add: s1_def vt_wr16_def vt_store_def)
  have c: "\<not> in_page ?rv (g_common s + 22 + i)" if "i < 2" for i
    using assms(2) that by (simp add: regs_outside_def add.assoc)
  have 1: "ring_step ?rv q (vmem s) (vmem s1)" unfolding s1_def vt_wr16_def
    by (rule store_ring [OF assms(1,3,4,5)]) (use c in simp)
  have 2: "ring_step ?rv q (vmem s1)
      (vmem (vt_store dev (notify_addr (g_notify_base s) (g_notify_mult s) noff) (bytes16 n) s1))" for noff
    by (rule store_ring [OF assms(1,3,4) ring_stepD(2) [OF 1]])
      (use assms(2) in \<open>simp add: regs_outside_def\<close>)
  show ?thesis
  proof (cases "g_notify_base s = 0 \<or> g_common s = 0")
    case True
    then show ?thesis using assms(3-5) by (auto simp: notify_queue_def intro: ring_step_outside)
  next
    case False
    then show ?thesis using ring_step_trans [OF 1 2] by (simp add: notify_queue_def Let_def s1_def [symmetric] f)
  qed
qed

text \<open>One turn of the loop: the stores in the page, then the notification.\<close>

definition hand_back :: "vt \<Rightarrow> vt" where
  "hand_back s = (let rv = g_ring_virt s in s\<lparr>g_last_used := g_last_used s + 1,
     vmem := poke (rv + 0x202) (bytes16 (avail_idx s + 1))
       (poke (rv + 0x204 + 2 * (unat (avail_idx s) mod g_qsz s)) (bytes16 (ucast (used_id s 0))) (vmem s))\<rparr>)"

lemma poll_step_mem: "vmem (poll_step dev s) = vmem (notify_queue dev 0 (hand_back s))"
  by (simp add: poll_step_def hand_back_def Let_def used_id_def used_at_def avail_idx_def vt_ram_def
      notify_queue_def vt_wr16_def vt_store_def)

lemma hand_back_frame [simp]:
  "g_ring_virt (hand_back s) = g_ring_virt s" "g_qsz (hand_back s) = g_qsz s"
  "g_last_used (hand_back s) = g_last_used s + 1"
  "regs_outside (hand_back s) = regs_outside s"
  by (simp_all add: hand_back_def Let_def regs_outside_def)

lemma hand_back_other:
  assumes "0 < g_qsz s" "\<not> (g_ring_virt s + 0x202 \<le> x \<and> x < g_ring_virt s + 0x204 + 2 * g_qsz s)"
  shows "vmem (hand_back s) x = vmem s x"
proof -
  have "unat (avail_idx s) mod g_qsz s < g_qsz s" using assms(1) by simp
  then show ?thesis using assms(2) by (auto simp: hand_back_def Let_def poke_def)
qed

lemma hand_back_avail:
  shows "avail_idx (hand_back s) = avail_idx s + 1"
    and "k < g_qsz s \<Longrightarrow> avail_slot (hand_back s) k =
      (if k = unat (avail_idx s) mod g_qsz s then ucast (used_id s 0) else avail_slot s k)"
proof -
  show "avail_idx (hand_back s) = avail_idx s + 1" by (simp add: avail_idx_def hand_back_def Let_def)
  assume k: "k < g_qsz s"
  show "avail_slot (hand_back s) k =
      (if k = unat (avail_idx s) mod g_qsz s then ucast (used_id s 0) else avail_slot s k)"
  proof (cases "k = unat (avail_idx s) mod g_qsz s")
    case False
    then have "k < unat (avail_idx s) mod g_qsz s \<or> unat (avail_idx s) mod g_qsz s < k" by linarith
    with False show ?thesis by (auto simp: rd_poke_other avail_slot_def hand_back_def Let_def)
  qed (simp add: rd_poke_other avail_slot_def hand_back_def Let_def)
qed

lemma hand_back_used:
  assumes "0 < g_qsz s" "g_qsz s \<le> 16"
  shows "used_id (hand_back s) i = used_id s (Suc i)"
    "rd16 (vmem (hand_back s)) (g_ring_virt s + 0x302) = rd16 (vmem s) (g_ring_virt s + 0x302)"
    "unat b < g_qsz s \<Longrightarrow> event_of (hand_back s) b = event_of s b"
proof -
  have same: "vmem (hand_back s) x = vmem s x"
    if "x < g_ring_virt s + 0x202 \<or> g_ring_virt s + 0x300 \<le> x" for x
    by (rule hand_back_other [OF assms(1)]) (use that assms(2) in auto)
  show "used_id (hand_back s) i = used_id s (Suc i)"
    unfolding used_id_def used_at_def hand_back_frame of_nat_Suc add.assoc
    by (rule rd_cong) (simp add: same)
  show "rd16 (vmem (hand_back s)) (g_ring_virt s + 0x302) = rd16 (vmem s) (g_ring_virt s + 0x302)"
    by (rule rd_cong) (simp add: same)
  assume b: "unat b < g_qsz s"
  have "rd16 (vmem (hand_back s)) (g_ring_virt s + 0x100 + unat b * 8) = rd16 (vmem s) (g_ring_virt s + 0x100 + unat b * 8)"
    "rd16 (vmem (hand_back s)) (g_ring_virt s + 0x100 + unat b * 8 + 2) = rd16 (vmem s) (g_ring_virt s + 0x100 + unat b * 8 + 2)"
    "rd32 (vmem (hand_back s)) (g_ring_virt s + 0x100 + unat b * 8 + 4) = rd32 (vmem s) (g_ring_virt s + 0x100 + unat b * 8 + 4)"
    using b assms(2) by (intro rd_cong same; simp)+
  then show "event_of (hand_back s) b = event_of s b" by (simp add: event_of_def event_at_def read_event_def)
qed

lemma ring_ok_reported:
  assumes "avail_idx s = g_last_used s + of_nat (g_qsz s)"
  shows "consumed (g_ring_virt s) (g_qsz s) (vmem s) = g_last_used s"
    "reported (g_ring_virt s) (g_qsz s) (vmem s) = pending s"
  using assms by (simp_all add: reported_def consumed_def pending_def avail_idx_def)

lemma ring_ok_hand_back:
  assumes "ring_ok dev s" "0 < pending s"
  shows "avail_idx (hand_back s) = g_last_used (hand_back s) + of_nat (g_qsz s)"
    "Suc (pending (hand_back s)) = pending s"
proof -
  have q: "0 < g_qsz s" "g_qsz s \<le> 16" using assms(1) by (simp_all add: ring_ok_def)
  show "avail_idx (hand_back s) = g_last_used (hand_back s) + of_nat (g_qsz s)"
    using assms(1) by (simp add: hand_back_avail ring_ok_def)
  let ?d = "rd16 (vmem s) (g_ring_virt s + 0x302) - g_last_used s"
  have "?d \<noteq> 0" using assms(2) by (auto simp: pending_def)
  then have "unat (?d - 1) = unat ?d - 1" by (rule unat_minus_one)
  then have "pending (hand_back s) = pending s - 1"
    by (simp add: pending_def hand_back_used(2) [OF q] diff_diff_eq [symmetric])
  then show "Suc (pending (hand_back s)) = pending s" using assms(2) by simp
qed

lemma poll_step_device:
  assumes "ring_ok dev s" "0 < pending s"
  shows "ring_step (g_ring_virt s) (g_qsz s) (vmem (hand_back s)) (vmem (poll_step dev s))"
proof -
  note H = ring_ok_hand_back [OF assms]
  have "reported (g_ring_virt s) (g_qsz s) (vmem (hand_back s)) = pending (hand_back s)"
    using ring_ok_reported(2) [of "hand_back s"] H(1) by simp
  then show ?thesis
    unfolding poll_step_mem using notify_ring [of dev "hand_back s" "g_qsz s" 0] H(2) assms(1)
    by (simp add: ring_ok_def)
qed

text \<open>After a turn the invariant holds again, the entries still to be consumed are the ones there were,
  whatever the device has reported in between, and the buffer has been handed back.\<close>

lemma poll_step_ring:
  assumes "ring_ok dev s" "0 < pending s"
  shows "ring_ok dev (poll_step dev s)" "pending s \<le> Suc (pending (poll_step dev s))"
    "Suc i < pending s \<Longrightarrow> used_id (poll_step dev s) i = used_id s (Suc i)"
    "Suc i < pending s \<Longrightarrow> unat (used_id s (Suc i)) < g_qsz s \<Longrightarrow>
      event_of (poll_step dev s) (used_id s (Suc i)) = event_of s (used_id s (Suc i))"
    "avail_idx (poll_step dev s) = avail_idx s + 1"
    "k < g_qsz s \<Longrightarrow> avail_slot (poll_step dev s) k =
      (if k = unat (avail_idx s) mod g_qsz s then ucast (used_id s 0) else avail_slot s k)"
proof -
  let ?rv = "g_ring_virt s" and ?q = "g_qsz s" and ?h = "hand_back s" and ?t = "poll_step dev s"
  have q: "0 < ?q" "?q \<le> 16" "?q dvd 65536" and vd: "virtio_device dev ?rv ?q" and ro: "regs_outside s"
    and pq: "pending s \<le> ?q" using assms(1) by (simp_all add: ring_ok_def)
  note H = ring_ok_hand_back [OF assms] and U = hand_back_used [OF q(1,2)]
  have R: "consumed ?rv ?q (vmem ?h) = g_last_used s + 1" "reported ?rv ?q (vmem ?h) = pending ?h"
    using ring_ok_reported [of ?h] H(1) by simp_all
  have S: "ring_step ?rv ?q (vmem ?h) (vmem ?t)" by (rule poll_step_device [OF assms])
  note K = ring_step_kept [OF S] and D = ring_stepD [OF S, unfolded R]
  show a: "avail_idx ?t = avail_idx s + 1"
    using K(1) hand_back_avail(1) [of s] by (simp add: avail_idx_def)
  have "avail_idx ?t = g_last_used ?t + of_nat ?q" using a assms(1) by (simp add: ring_ok_def)
  then have P: "reported ?rv ?q (vmem ?t) = pending ?t" using ring_ok_reported [of ?t] by simp
  then show "ring_ok dev ?t"
    using a D(2) vd ro q assms(1) by (simp add: ring_ok_def regs_outside_def)
  show "pending s \<le> Suc (pending ?t)" using D(1) P H(2) by simp
  show u: "used_id ?t i = used_id s (Suc i)" if "Suc i < pending s"
    using D(3) [of i] that H(2) U(1) [of i] by (simp add: used_id_def)
  show "event_of ?t (used_id s (Suc i)) = event_of s (used_id s (Suc i))"
    if i: "Suc i < pending s" and b: "unat (used_id s (Suc i)) < ?q"
  proof -
    have e: "used_at ?rv ?q (vmem ?h) (g_last_used s + 1 + of_nat i) = used_id s (Suc i)"
      using U(1) [of i] by (simp add: used_id_def)
    show ?thesis using D(4) [of i] i b H(2) U(3) [OF b] unfolding e by (simp add: event_of_def)
  qed
  show "avail_slot ?t k = (if k = unat (avail_idx s) mod ?q then ucast (used_id s 0) else avail_slot s k)"
    if "k < ?q" using K(3) [OF that] hand_back_avail(2) [OF that] by (simp add: avail_slot_def)
qed

lemma step_vin:
  "vin (poll_step dev s) =
     (if unat (used_id s 0) < g_qsz s then handle_event (event_of s (used_id s 0)) (vin s) else vin s)"
  by (simp add: poll_step_def Let_def used_id_def used_at_def event_of_def event_at_def vt_ram_def)

lemma unat_inc_mod: "q dvd 65536 \<Longrightarrow> unat (x + 1 :: u16) mod q = (unat x + 1) mod q"
  by (simp add: unat_word_ariths mod_mod_cancel)

lemma pending_events_concat:
  "pending_events s n =
     concat (map (\<lambda>i. if unat (used_id s i) < g_qsz s then [event_of s (used_id s i)] else []) [0..<n])"
  unfolding pending_events_def by (induction n) auto

lemma pending_events_Suc:
  assumes "ring_ok dev s" "Suc n \<le> pending s"
  shows "pending_events s (Suc n) =
    (if unat (used_id s 0) < g_qsz s then [event_of s (used_id s 0)] else []) @
    pending_events (poll_step dev s) n"
proof -
  have p: "0 < pending s" using assms(2) by simp
  have e: "map (\<lambda>i. if unat (used_id s (Suc i)) < g_qsz s then [event_of s (used_id s (Suc i))] else []) [0..<n] =
      map (\<lambda>i. if unat (used_id (poll_step dev s) i) < g_qsz s
        then [event_of (poll_step dev s) (used_id (poll_step dev s) i)] else []) [0..<n]"
    using assms(2) by (intro map_cong refl) (simp add: poll_step_ring [OF assms(1) p])
  show ?thesis
    unfolding pending_events_concat using arg_cong [OF e, of concat]
    by (simp add: upt_conv_Cons map_Suc_upt [symmetric] comp_def del: upt_Suc map_eq_conv)
qed

lemma poll_loop_unroll:
  assumes "unat (used_idx - g_last_used s) = Suc n"
  shows "unat (used_idx - g_last_used (poll_step dev s)) = n"
    "poll_loop dev used_idx s = poll_loop dev used_idx (poll_step dev s)"
proof -
  have ne: "used_idx - g_last_used s \<noteq> 0" using assms by auto
  have "used_idx - (g_last_used s + 1) = used_idx - g_last_used s - 1" by simp
  then have "unat (used_idx - (g_last_used s + 1)) = n"
    using assms ne by (metis diff_Suc_1 unat_minus_one)
  then show "unat (used_idx - g_last_used (poll_step dev s)) = n" by simp
  have "g_last_used s \<noteq> used_idx" using ne by auto
  then show "poll_loop dev used_idx s = poll_loop dev used_idx (poll_step dev s)"
    by (simp add: poll_loop.simps [of dev used_idx s])
qed

lemma poll_loop_drains:
  assumes "ring_ok dev s" "unat (used_idx - g_last_used s) = n" "n \<le> pending s"
  shows "vin (poll_loop dev used_idx s) = fold handle_event (pending_events s n) (vin s) \<and>
    g_last_used (poll_loop dev used_idx s) = used_idx \<and>
    avail_idx (poll_loop dev used_idx s) = avail_idx s + of_nat n \<and> ring_ok dev (poll_loop dev used_idx s)"
  using assms
proof (induction n arbitrary: s)
  case 0
  then have "g_last_used s = used_idx" by (simp add: unat_eq_0)
  then show ?case using 0 by (simp add: poll_loop.simps [of dev used_idx s] pending_events_def)
next
  case (Suc n)
  note U = poll_loop_unroll [OF Suc.prems(2), of dev]
  have p: "0 < pending s" using Suc.prems(3) by simp
  note S = poll_step_ring [OF Suc.prems(1) p]
  have "n \<le> pending (poll_step dev s)" using S(2) Suc.prems(3) by simp
  then show ?case
    using Suc.IH [OF S(1) U(1)] U(2) by (simp add: step_vin pending_events_Suc [OF Suc.prems(1,3)] S(5))
qed

lemma poll_loop_slots:
  assumes "ring_ok dev s" "unat (used_idx - g_last_used s) = n" "n \<le> pending s"
  shows "(\<forall>k < g_qsz s. (\<forall>j < n. (unat (avail_idx s) + j) mod g_qsz s \<noteq> k) \<longrightarrow>
      avail_slot (poll_loop dev used_idx s) k = avail_slot s k) \<and>
    (\<forall>j < n. avail_slot (poll_loop dev used_idx s) ((unat (avail_idx s) + j) mod g_qsz s) =
      ucast (used_id s j))"
  using assms
proof (induction n arbitrary: s)
  case 0
  then have "g_last_used s = used_idx" by (simp add: unat_eq_0)
  then show ?case by (simp add: poll_loop.simps [of dev used_idx s])
next
  case (Suc n)
  let ?t = "poll_step dev s" and ?q = "g_qsz s" and ?a = "unat (avail_idx s)"
  have p: "0 < pending s" "Suc n \<le> ?q" using Suc.prems(1,3) by (simp_all add: ring_ok_def)
  note S = poll_step_ring [OF Suc.prems(1) p(1)]
  note L = poll_loop_unroll(2) [OF Suc.prems(2), of dev]
  have "n \<le> pending ?t" using S(2) Suc.prems(3) by simp
  note IH = Suc.IH [OF S(1) poll_loop_unroll(1) [OF Suc.prems(2), of dev] this]
  have q: "0 < ?q" "?q dvd 65536" using Suc.prems(1) by (simp_all add: ring_ok_def)
  have sh: "(unat (avail_idx ?t) + j) mod ?q = (?a + Suc j) mod ?q" for j
    using unat_inc_mod [OF q(2), of "avail_idx s"] S(5)
    by (metis add_Suc_right add_Suc_shift mod_add_left_eq Suc_eq_plus1)
  have A: "avail_slot (poll_loop dev used_idx s) k = avail_slot ?t k"
    if "k < ?q" "\<forall>j < n. (?a + Suc j) mod ?q \<noteq> k" for k
    using IH that sh L by simp
  have B: "avail_slot (poll_loop dev used_idx s) ((?a + Suc j) mod ?q) = ucast (used_id s (Suc j))"
    if "j < n" for j
    using IH that sh L S(3) [of j] Suc.prems(3) by simp
  have C: "(?a + Suc j) mod ?q \<noteq> ?a mod ?q" if "Suc j < ?q" for j
  proof
    assume "(?a + Suc j) mod ?q = ?a mod ?q"
    then have "?q dvd Suc j" using mod_eq_dvd_iff_nat [of ?a "?a + Suc j" ?q] by simp
    with that show False by (auto dest: dvd_imp_le)
  qed
  have D: "avail_slot (poll_loop dev used_idx s) (?a mod ?q) = ucast (used_id s 0)"
    using A [of "?a mod ?q"] C p(2) q(1) S(6) [of "?a mod ?q"] by simp
  have "avail_slot (poll_loop dev used_idx s) k = avail_slot s k"
    if "k < ?q" "\<forall>j < Suc n. (?a + j) mod ?q \<noteq> k" for k
    using A [OF that(1)] that(2) S(6) [OF that(1)]
    by (metis Suc_less_eq add_0_right zero_less_Suc)
  moreover have "avail_slot (poll_loop dev used_idx s) ((?a + j) mod ?q) = ucast (used_id s j)"
    if "j < Suc n" for j
    using B D that by (cases j) auto
  ultimately show ?case by blast
qed

lemma poll_ring_ok: "ring_ok dev s \<Longrightarrow> ring_ok dev (virtio_tablet_poll dev s)"
  using poll_loop_drains [of dev s _ "pending s"] by (simp add: virtio_tablet_poll_def pending_def)

text \<open>C21: a poll drains the queue.  Let the driver be active with a queue of at most 16 entries whose
  size divides the range of the 16-bit indices and whose buffers are each either offered to the device
  or waiting (available index minus consumed index is the queue size, and at most that many wait); let
  the register window lie outside the ring page; and let the device, at every register store it
  notices, do no more than the virtio contract allows: report further buffers and fill those, and leave
  alone the descriptors, the available ring and what it has reported until it is handed back.  Then the
  poll ends, also across the wrap of the indices, having handled, in the order of the reports, exactly
  the events in the buffers reported before it began; it has caught up with the device's index as it was
  then, and handed the same buffers back through the available ring, in the same order.\<close>

theorem poll_drains:
  assumes "g_active s" "g_ring_virt s \<noteq> 0" "ring_ok dev s"
  defines "s' \<equiv> virtio_tablet_poll dev s"
  shows "vin s' = fold handle_event (pending_events s (pending s)) (vin s) \<and>
    g_last_used s' = rd16 (vmem s) (g_ring_virt s + 0x302) \<and>
    avail_idx s' = avail_idx s + of_nat (pending s) \<and>
    (\<forall>j < pending s. avail_slot s' ((unat (avail_idx s) + j) mod g_qsz s) = ucast (used_id s j))"
  using poll_loop_drains [OF assms(3), of _ "pending s"] poll_loop_slots [OF assms(3), of _ "pending s"]
    assms(1,2) unfolding s'_def virtio_tablet_poll_def pending_def by simp

lemma virtio_device_idle: "0 < q \<Longrightarrow> q \<le> 16 \<Longrightarrow> virtio_device (\<lambda>a m. m) rv q"
  by (simp add: virtio_device_def ring_step_outside)

text \<open>A device that keeps the contract and is not idle: at every register store it reports the next buffer
  it holds.\<close>

definition reporting_device :: "nat \<Rightarrow> nat \<Rightarrow> device" where
  "reporting_device rv q a m =
     (if reported rv q m < q
      then let u = rd16 m (rv + 0x302); k = unat u mod q
           in poke (rv + 0x302) (bytes16 (u + 1))
                (poke (rv + 0x304 + 8 * k) (bytes32 (ucast (rd16 m (rv + 0x204 + 2 * k)))) m)
      else m)"

lemma slots_apart:
  assumes "q dvd 65536" "i < n" "n < q"
  shows "unat (f + of_nat i :: u16) mod q \<noteq> unat (f + of_nat n) mod q"
proof
  have "unat (f + of_nat k :: u16) mod q = (unat f + k) mod q" for k
    using assms(1) by (simp add: unat_word_ariths unat_of_nat mod_mod_cancel mod_add_right_eq)
  moreover assume "unat (f + of_nat i) mod q = unat (f + of_nat n) mod q"
  ultimately have "(unat f + n) mod q = (unat f + i) mod q" by simp
  then have "q dvd n - i" using assms(2) mod_eq_dvd_iff_nat [of "unat f + i" "unat f + n" q] by simp
  with assms(2,3) show False by (auto dest: dvd_imp_le)
qed

lemma reporting_device_ok:
  assumes "0 < q" "q \<le> 16" "q dvd 65536"
  shows "virtio_device (reporting_device rv q) rv q"
  unfolding virtio_device_def
proof (intro allI impI)
  fix a :: nat and m assume n: "reported rv q m \<le> q"
  show "ring_step rv q m (reporting_device rv q a m)"
  proof (cases "reported rv q m < q")
    case False
    then show ?thesis using assms n by (simp add: reporting_device_def ring_step_outside)
  next
    case True
    let ?u = "rd16 m (rv + 0x302)" and ?f = "consumed rv q m" and ?n = "reported rv q m"
    define m' where "m' = reporting_device rv q a m"
    have m': "m' = poke (rv + 0x302) (bytes16 (?u + 1))
        (poke (rv + 0x304 + 8 * (unat ?u mod q)) (bytes32 (ucast (rd16 m (rv + 0x204 + 2 * (unat ?u mod q))))) m)"
      using True by (simp add: m'_def reporting_device_def Let_def)
    have same: "m' x = m x" if "x < rv + 0x302" for x using that by (simp add: m' poke_def)
    have "rd16 m' (rv + 0x202) = rd16 m (rv + 0x202)" by (rule rd_cong) (simp add: same)
    then have c: "consumed rv q m' = ?f" by (simp add: consumed_def)
    have un: "?u = ?f + of_nat ?n" by (simp add: reported_def)
    have "Suc ?n < 65536" using True assms(2) by simp
    then have "unat (of_nat (Suc ?n) :: u16) = Suc ?n" by (simp add: unat_of_nat del: of_nat_Suc)
    moreover have "?u + 1 - ?f = of_nat (Suc ?n)" unfolding un by simp
    ultimately have r: "reported rv q m' = Suc ?n"
      unfolding reported_def [of rv q m'] c by (simp only: m' rd_poke_same)
    have "used_at rv q m' (?f + of_nat i) = used_at rv q m (?f + of_nat i)" if "i < ?n" for i
    proof -
      have "unat (?f + of_nat i) mod q \<noteq> unat ?u mod q" unfolding un by (rule slots_apart [OF assms(3) that True])
      then have "unat (?f + of_nat i) mod q < unat ?u mod q \<or> unat ?u mod q < unat (?f + of_nat i) mod q" by linarith
      then show ?thesis by (auto simp: used_at_def m' rd_poke_other)
    qed
    moreover have "event_at rv m' b = event_at rv m b" if "unat b < q" for b
    proof -
      have "unat b < 16" using that assms(2) by simp
      then have "rd16 m' (rv + 0x100 + unat b * 8) = rd16 m (rv + 0x100 + unat b * 8)"
        "rd16 m' (rv + 0x100 + unat b * 8 + 2) = rd16 m (rv + 0x100 + unat b * 8 + 2)"
        "rd32 m' (rv + 0x100 + unat b * 8 + 4) = rd32 m (rv + 0x100 + unat b * 8 + 4)"
        by (intro rd_cong same; simp)+
      then show ?thesis by (simp add: event_at_def read_event_def)
    qed
    moreover have "m' x = m x" if "rv \<le> x \<and> x < rv + 16 * q \<or> rv + 0x200 \<le> x \<and> x < rv + 0x204 + 2 * q" for x
      using that assms(2) by (intro same) auto
    ultimately show ?thesis using True r unfolding m'_def [symmetric] by (simp add: ring_step_def Let_def)
  qed
qed

definition example_vt :: "vtin \<Rightarrow> vt" where
  "example_vt t = \<lparr>vpci = example_pci,
     vmem = (\<lambda>_. 0)(0x1202 := 2, 0x1302 := 1, 0x1304 := 1, 0x1108 := 3, 0x110C := 100),
     vpmm = \<lparr>total_pages = 0, used_pages = 0, bitmap_size = 0, bitmap_phys_base = 0, bitmap_pages = 0,
       alloc_hint = 0, ram = (\<lambda>_. 0)\<rparr>, vhhdm = 0, vmaps = [], g_bar = replicate 6 0, g_bar_phys = replicate 6 0,
     g_bar_size = replicate 6 0, g_common = 0x100000, g_notify_base = 0x200000, g_notify_mult = 0,
     g_device_cfg = 0x300000, g_ring_phys = 0x1000, g_ring_virt = 0x1000, g_qsz = 2, g_last_used = 0,
     g_active = True, vin = t\<rparr>"

lemma poll_drains_witness:
  "\<forall>t. vin (virtio_tablet_poll (reporting_device 0x1000 2) (example_vt t)) = t\<lparr>g_abs_x := 100, g_have_abs_x := True\<rparr>"
proof
  fix t
  have p: "pending (example_vt t) = 1" by (simp add: pending_def example_vt_def rd16_def)
  have r: "ring_ok (reporting_device 0x1000 2) (example_vt t)"
    using p reporting_device_ok [of 2 "0x1000"] by (simp add: ring_ok_def regs_outside_def in_page_def example_vt_def notify_addr_def
        avail_idx_def rd16_def)
  have u: "used_id (example_vt t) 0 = 1" by (simp add: used_id_def used_at_def example_vt_def rd32_def)
  have e: "event_of (example_vt t) 1 = \<lparr>ev_type = 3, ev_code = 0, ev_value = 100\<rparr>"
    by (simp add: event_of_def event_at_def read_event_def example_vt_def rd16_def rd32_def)
  have pe: "pending_events (example_vt t) 1 = [\<lparr>ev_type = 3, ev_code = 0, ev_value = 100\<rparr>]"
    using e by (simp add: pending_events_def u) (simp add: example_vt_def)
  have "vin (virtio_tablet_poll (reporting_device 0x1000 2) (example_vt t)) =
      fold handle_event (pending_events (example_vt t) (pending (example_vt t))) (vin (example_vt t))"
    using poll_drains [OF _ _ r] p by (simp add: example_vt_def)
  then show "vin (virtio_tablet_poll (reporting_device 0x1000 2) (example_vt t)) = t\<lparr>g_abs_x := 100, g_have_abs_x := True\<rparr>"
    unfolding p pe by (simp add: handle_event_def EV_ABS_def ABS_X_def example_vt_def)
qed

section \<open>Positions\<close>

lemma scale_abs_clamped:
  assumes "lo < hi" "hi - lo < 2 ^ 31" "- (2 ^ 31) \<le> v" "v < 2 ^ 31" "- (2 ^ 31) \<le> lo" "hi < 2 ^ 31"
    "uint m < 2 ^ 31"
  shows "scale_abs v lo hi m = min (uint m) (max 0 ((v - lo) * uint m sdiv (hi - lo)))"
proof -
  have "\<bar>v - lo\<bar> \<le> 2 ^ 32" "\<bar>uint m\<bar> \<le> 2 ^ 31 - 1" using assms by auto
  then have "\<bar>v - lo\<bar> * \<bar>uint m\<bar> \<le> 2 ^ 32 * (2 ^ 31 - 1)" by (intro mult_mono) auto
  then have "\<bar>(v - lo) * uint m\<bar> \<le> 2 ^ 32 * (2 ^ 31 - 1)" by (simp add: abs_mult)
  then have "i64 ((v - lo) * uint m) = (v - lo) * uint m" by (intro i64_id) auto
  moreover have "i32 (hi - lo) = hi - lo" using assms by (intro i32_id) auto
  moreover have "i32 x = x" if "0 \<le> x" "x \<le> uint m" for x
    using that assms(7) by (intro i32_id) auto
  ultimately show ?thesis using assms(1) by (simp add: scale_abs_def Let_def min_def max_def)
qed

lemma sdiv_neg: "0 \<le> (k :: int) \<Longrightarrow> 0 < w \<Longrightarrow> (- k) sdiv w = - (k div w)" "0 \<le> k \<Longrightarrow> 0 < w \<Longrightarrow> k sdiv w = k div w"
  by (auto simp: signed_divide_int_def sgn_if)

lemma scale_abs_on_screen:
  assumes "lo < hi" "hi - lo < 2 ^ 31" "- (2 ^ 31) \<le> v" "v < 2 ^ 31" "- (2 ^ 31) \<le> lo" "hi < 2 ^ 31"
    "uint m < 2 ^ 31"
  shows "0 \<le> scale_abs v lo hi m" "scale_abs v lo hi m \<le> uint m"
    "v \<le> lo \<Longrightarrow> scale_abs v lo hi m = 0" "hi \<le> v \<Longrightarrow> scale_abs v lo hi m = uint m"
    "lo \<le> v \<Longrightarrow> v \<le> hi \<Longrightarrow> scale_abs v lo hi m = (v - lo) * uint m div (hi - lo)"
proof -
  note S = scale_abs_clamped [OF assms]
  show "0 \<le> scale_abs v lo hi m" "scale_abs v lo hi m \<le> uint m" by (simp_all add: S)
  have d: "(v - lo) * uint m sdiv (hi - lo) = (if v < lo then - ((lo - v) * uint m div (hi - lo))
      else (v - lo) * uint m div (hi - lo))"
  proof (cases "v < lo")
    case True
    have "(v - lo) * uint m = - ((lo - v) * uint m)" by algebra
    then show ?thesis using True assms(1) by (simp only: if_True) (intro sdiv_neg, auto)
  qed (use assms(1) in \<open>auto intro!: sdiv_neg\<close>)
  show "v \<le> lo \<Longrightarrow> scale_abs v lo hi m = 0"
  proof -
    assume v: "v \<le> lo"
    have "0 \<le> (lo - v) * uint m div (hi - lo)" using v assms(1) by (simp add: pos_imp_zdiv_nonneg_iff)
    then have "(v - lo) * uint m sdiv (hi - lo) \<le> 0" unfolding d using v by auto
    then show ?thesis by (simp add: S)
  qed
  show "lo \<le> v \<Longrightarrow> v \<le> hi \<Longrightarrow> scale_abs v lo hi m = (v - lo) * uint m div (hi - lo)"
  proof -
    assume v: "lo \<le> v" "v \<le> hi"
    then have "(v - lo) * uint m \<le> (hi - lo) * uint m" by (intro mult_right_mono) auto
    then have "(v - lo) * uint m div (hi - lo) \<le> (hi - lo) * uint m div (hi - lo)"
      using assms(1) by (intro zdiv_mono1) auto
    moreover have "0 \<le> (v - lo) * uint m div (hi - lo)"
      using v assms(1) by (simp add: pos_imp_zdiv_nonneg_iff)
    ultimately show ?thesis using assms(1) v by (simp add: S d)
  qed
  show "hi \<le> v \<Longrightarrow> scale_abs v lo hi m = uint m"
  proof -
    assume v: "hi \<le> v"
    then have "(hi - lo) * uint m \<le> (v - lo) * uint m" by (intro mult_right_mono) auto
    then have "(hi - lo) * uint m div (hi - lo) \<le> (v - lo) * uint m div (hi - lo)"
      using assms(1) by (intro zdiv_mono1) auto
    then show ?thesis using assms(1) v by (simp add: S d)
  qed
qed

text \<open>The width of the axis is formed in 32 bits: on an axis that uses the whole range it is
  negative, and the middle of the tablet is reported at the left edge of the screen.\<close>

lemma wide_axis: "scale_abs 0 (- (2 ^ 31)) (2 ^ 31 - 1) 1919 = 0"
  by (simp add: scale_abs_def i32_def i64_def signed_divide_int_def)

text \<open>An input device ends a report with an event of type 0 and code 0; the driver waits for
  code 1.\<close>

lemma report_ignored:
  "handle_event \<lparr>ev_type = 0, ev_code = 0, ev_value = v\<rparr> t = t"
  by (simp add: handle_event_def EV_ABS_def EV_KEY_def EV_SYN_def SYN_REPORT_def ABS_X_def ABS_Y_def)

section \<open>The capability list\<close>

lemma cap8_eq:
  "cap8 l d off s = (ucast (drop_bit (unat (off AND 3) * 8) (cfg (vpci s) (word_of d off))),
     s\<lparr>vpci := (vpci s)\<lparr>cf8 := word_of d off\<rparr>\<rparr>)"
  by (simp add: cap8_def pci_cfg_read8_def raw_read32_eq word_of_def)

lemma cap32_cfg [simp]: "cfg (vpci (snd (cap32 l d off s))) = cfg (vpci s)"
  by (simp add: cap32_def pci_cfg_read32_def raw_read32_eq)

definition cap_byte :: "(u32 \<Rightarrow> u32) \<Rightarrow> pci_device \<Rightarrow> u8 \<Rightarrow> u8" where
  "cap_byte c d off = ucast (drop_bit (unat (off AND 3) * 8) (c (word_of d off)))"

lemma cap8_simps [simp]:
  "fst (cap8 l d off s) = cap_byte (cfg (vpci s)) d off" "cfg (vpci (snd (cap8 l d off s))) = cfg (vpci s)"
  by (simp_all add: cap8_eq cap_byte_def)

lemma map_bar_cfg [simp]: "vpci (map_bar d i s) = vpci s"
  by (simp add: map_bar_def Let_def)

lemma vendor_cap_cfg [simp]: "cfg (vpci (snd (vendor_cap l d cap s))) = cfg (vpci s)"
  by (simp add: vendor_cap_def Let_def case_prod_beta)

lemma caps_loop_step:
  "caps_loop l d cap s =
     (if cap = 0 then Some (True, s)
      else let s1 = snd (cap8 l d cap s);
               r = (if cap_byte (cfg (vpci s)) d cap = 9 then vendor_cap l d cap s1 else (True, s1))
      in if \<not> fst r then Some (False, snd r)
         else caps_loop l d (cap_byte (cfg (vpci s)) d (cap + 1)) (snd (cap8 l d (cap + 1) (snd r))))"
  by (subst caps_loop.simps) (simp add: Let_def case_prod_beta)

fun caps_chain :: "(u32 \<Rightarrow> u32) \<Rightarrow> pci_device \<Rightarrow> u8 \<Rightarrow> u8 list \<Rightarrow> bool" where
  "caps_chain c d cap [] \<longleftrightarrow> cap = 0"
| "caps_chain c d cap (x # xs) \<longleftrightarrow> cap = x \<and> x \<noteq> 0 \<and> caps_chain c d (cap_byte c d (x + 1)) xs"

text \<open>On a list of capabilities that ends, the walk ends.\<close>

lemma caps_loop_ends:
  "caps_chain (cfg (vpci s)) d cap xs \<Longrightarrow> \<exists>r. caps_loop l d cap s = Some r"
proof (induction xs arbitrary: cap s)
  case Nil
  then have "caps_loop l d cap s = Some (True, s)" by (subst caps_loop_step) simp
  then show ?case by blast
next
  case (Cons x xs)
  define r where "r = (if cap_byte (cfg (vpci s)) d cap = 9 then vendor_cap l d cap (snd (cap8 l d cap s))
      else (True, snd (cap8 l d cap s)))"
  have "cfg (vpci (snd r)) = cfg (vpci s)" by (simp add: r_def)
  then have "\<exists>q. caps_loop l d (cap_byte (cfg (vpci s)) d (cap + 1)) (snd (cap8 l d (cap + 1) (snd r))) = Some q"
    using Cons.prems by (intro Cons.IH) simp
  then show ?case by (subst caps_loop_step) (auto simp: Let_def r_def)
qed

text \<open>A list that closes on itself is followed for ever.\<close>

lemma caps_loop_cycle:
  assumes "cap \<noteq> 0" "cap_byte (cfg (vpci s)) d cap \<noteq> 9" "cap_byte (cfg (vpci s)) d (cap + 1) = cap"
  shows "caps_loop l d cap s = None"
proof -
  have "\<not> (cap \<noteq> 0 \<and> cap_byte (cfg (vpci s)) d cap \<noteq> 9 \<and> cap_byte (cfg (vpci s)) d (cap + 1) = cap)"
    if "caps_loop l d cap s = Some r" for l d cap s r
  proof (rule caps_loop.raw_induct [where P = "\<lambda>l d cap s r. \<not> (cap \<noteq> 0 \<and>
      cap_byte (cfg (vpci s)) d cap \<noteq> 9 \<and> cap_byte (cfg (vpci s)) d (cap + 1) = cap)", OF _ that])
    fix f :: "latch \<Rightarrow> pci_device \<Rightarrow> u8 \<Rightarrow> vt \<Rightarrow> (bool \<times> vt) option" and l d cap s r
    assume IH: "\<And>l d cap s r. f l d cap s = Some r \<Longrightarrow> \<not> (cap \<noteq> 0 \<and>
        cap_byte (cfg (vpci s)) d cap \<noteq> 9 \<and> cap_byte (cfg (vpci s)) d (cap + 1) = cap)"
      and e: "(if cap = 0 then Some (True, s)
        else let (id, s1) = cap8 l d cap s;
                 (ok, s2) = (if id = 9 then vendor_cap l d cap s1 else (True, s1))
        in if \<not> ok then Some (False, s2)
           else let (nxt, s3) = cap8 l d (cap + 1) s2 in f l d nxt s3) = Some r"
    show "\<not> (cap \<noteq> 0 \<and> cap_byte (cfg (vpci s)) d cap \<noteq> 9 \<and> cap_byte (cfg (vpci s)) d (cap + 1) = cap)"
      using e by (auto simp: Let_def case_prod_beta dest!: IH)
  qed
  then show ?thesis using assms by (metis not_Some_eq)
qed

text \<open>A vendor capability the driver has no use for, in a register window it cannot map, makes it
  give up: the configuration access capability of virtio (type 5) usually names such a window.\<close>

lemma unused_cap_rejects:
  assumes "cap \<noteq> 0" "cap_byte (cfg (vpci s)) d cap = 9" "unat (cap_byte (cfg (vpci s)) d (cap + 4)) = i"
    "i < 6" "g_bar s ! i = 0" "bar_size (pd_bars d ! i) = 0"
  shows "\<exists>s'. caps_loop l d cap s = Some (False, s')"
proof -
  have "\<not> fst (vendor_cap l d cap (snd (cap8 l d cap s)))"
    using assms(3-6)
    by (simp add: vendor_cap_def Let_def case_prod_beta bar_ptr_def map_bar_def cap8_eq cap32_def
        pci_cfg_read32_def raw_read32_eq cap_byte_def PCI_BAR_COUNT_def)
  with assms(1,2) show ?thesis by (subst caps_loop_step) (simp add: Let_def)
qed

section \<open>Setting up\<close>

lemmas vt_stores = vt_wr8_def vt_wr16_def vt_wr32_def vt_store_def vt_ram_def

lemma fill_desc_mem: "\<exists>m. fill_desc rv d0 x s = s\<lparr>vmem := m\<rparr>"
  by (auto simp: fill_desc_def vt_ram_def)

lemma fill_fold: "\<exists>m. fold (fill_desc rv d0) xs s = s\<lparr>vmem := m\<rparr>"
proof (induction xs arbitrary: s)
  case Nil
  show ?case by (auto intro: exI [of _ "vmem s"])
next
  case (Cons x xs)
  obtain m1 where m1: "fill_desc rv d0 x s = s\<lparr>vmem := m1\<rparr>" using fill_desc_mem by blast
  obtain m where "fold (fill_desc rv d0) xs (s\<lparr>vmem := m1\<rparr>) = s\<lparr>vmem := m1\<rparr>\<lparr>vmem := m\<rparr>"
    using Cons.IH by blast
  then have "fold (fill_desc rv d0) (x # xs) s = s\<lparr>vmem := m\<rparr>" by (simp add: m1)
  then show ?case by blast
qed

lemma fill_fold_frame [simp]:
  "g_qsz (fold (fill_desc rv d0) xs s) = g_qsz s" "g_common (fold (fill_desc rv d0) xs s) = g_common s"
  "g_ring_phys (fold (fill_desc rv d0) xs s) = g_ring_phys s"
  "g_ring_virt (fold (fill_desc rv d0) xs s) = g_ring_virt s" "vhhdm (fold (fill_desc rv d0) xs s) = vhhdm s"
  "g_notify_base (fold (fill_desc rv d0) xs s) = g_notify_base s"
  "g_notify_mult (fold (fill_desc rv d0) xs s) = g_notify_mult s"
proof -
  obtain m where m: "fold (fill_desc rv d0) xs s = s\<lparr>vmem := m\<rparr>" using fill_fold by blast
  show "g_qsz (fold (fill_desc rv d0) xs s) = g_qsz s" "g_common (fold (fill_desc rv d0) xs s) = g_common s"
    "g_ring_phys (fold (fill_desc rv d0) xs s) = g_ring_phys s"
    "g_ring_virt (fold (fill_desc rv d0) xs s) = g_ring_virt s" "vhhdm (fold (fill_desc rv d0) xs s) = vhhdm s"
    "g_notify_base (fold (fill_desc rv d0) xs s) = g_notify_base s"
    "g_notify_mult (fold (fill_desc rv d0) xs s) = g_notify_mult s"
    unfolding m by simp_all
qed

lemma init_ring_frame [simp]:
  "g_qsz (init_ring rp s) = g_qsz s" "g_common (init_ring rp s) = g_common s"
  "g_ring_phys (init_ring rp s) = rp" "g_ring_virt (init_ring rp s) = rp + vhhdm s" "vhhdm (init_ring rp s) = vhhdm s"
  "g_notify_base (init_ring rp s) = g_notify_base s" "g_notify_mult (init_ring rp s) = g_notify_mult s"
  by (simp_all add: init_ring_def vt_ram_def Let_def)

lemma queue_regs_frame [simp]:
  "g_qsz (queue_regs dev c rp s) = g_qsz s" "g_common (queue_regs dev c rp s) = g_common s"
  "g_ring_phys (queue_regs dev c rp s) = g_ring_phys s"
  "g_ring_virt (queue_regs dev c rp s) = g_ring_virt s" "g_notify_base (queue_regs dev c rp s) = g_notify_base s"
  "g_notify_mult (queue_regs dev c rp s) = g_notify_mult s"
  by (simp_all add: queue_regs_def vt_stores Let_def)

lemma notify_ring_phys [simp]: "g_ring_phys (notify_queue dev q s) = g_ring_phys s"
  by (simp add: notify_queue_def vt_stores Let_def)

lemma queue_size:
  assumes "\<not> qmax < 2"
  shows "queue_size_for 16 qmax \<in> {2, 4, 8, 16} \<and> queue_size_for 16 qmax \<le> unat qmax"
proof -
  define n where "n = (if 16 > unat qmax then unat qmax else 16)"
  have n: "2 \<le> n" "n \<le> 16" "n \<le> unat qmax" using assms by (auto simp: n_def word_less_nat_alt)
  have "\<forall>n \<in> set [2..<17]. unat (power_of_two (of_nat n)) \<in> {2, 4, 8, 16} \<and>
      unat (power_of_two (of_nat n)) \<le> n"
    by (simp add: power_of_two.simps)
  moreover have "n \<in> set [2..<17]" using n by (simp only: set_upt atLeastLessThan_iff) simp
  ultimately have z: "unat (power_of_two (of_nat n)) \<in> {2, 4, 8, 16} \<and> unat (power_of_two (of_nat n)) \<le> n"
    by (rule bspec)
  have "queue_size_for 16 qmax = unat (power_of_two (of_nat n))"
    using z unfolding queue_size_for_def n_def [symmetric] Let_def by auto
  then show ?thesis using z n(3) by auto
qed

section \<open>The descriptor table\<close>

lemma rd_poke_bytes:
  "rd64 (poke a (bytes64 w @ bytes32 x @ bytes16 y @ bytes16 z) m) a = w"
  "rd32 (poke a (bytes64 w @ bytes32 x @ bytes16 y @ bytes16 z) m) (a + 8) = x"
  "rd16 (poke a (bytes64 w @ bytes32 x @ bytes16 y @ bytes16 z) m) (a + 12) = y"
proof -
  have "mem_at (poke a (bytes64 w @ bytes32 x @ bytes16 y @ bytes16 z) m) a
      (bytes64 w @ bytes32 x @ bytes16 y @ bytes16 z)" by (rule mem_at_poke)
  then show "rd64 (poke a (bytes64 w @ bytes32 x @ bytes16 y @ bytes16 z) m) a = w"
    "rd32 (poke a (bytes64 w @ bytes32 x @ bytes16 y @ bytes16 z) m) (a + 8) = x"
    "rd16 (poke a (bytes64 w @ bytes32 x @ bytes16 y @ bytes16 z) m) (a + 12) = y"
    unfolding mem_at_append by (auto dest: rd64_bytes rd32_bytes rd16_bytes simp: add.assoc)
qed

lemma descriptors_filled:
  assumes "i < n" "n \<le> 16"
  shows "let m = vmem (fold (fill_desc rv d0) [0..<n] s)
    in rd64 m (rv + 16 * i) = of_nat (d0 + i * 8) \<and> rd32 m (rv + 16 * i + 8) = 8 \<and>
      rd16 m (rv + 16 * i + 12) = 2 \<and> rd16 m (rv + 0x204 + 2 * i) = of_nat i"
  using assms unfolding Let_def
proof (induction n)
  case (Suc n)
  let ?m = "vmem (fold (fill_desc rv d0) [0..<n] s)"
  have m: "vmem (fold (fill_desc rv d0) [0..<Suc n] s) =
      poke (rv + 0x204 + 2 * n) (bytes16 (of_nat n))
        (poke (rv + 16 * n) (bytes64 (of_nat (d0 + n * 8)) @ bytes32 8 @ bytes16 2 @ bytes16 0) ?m)"
    by (simp add: fill_desc_def vt_ram_def)
  show ?case
  proof (cases "i = n")
    case True
    then show ?thesis unfolding m using Suc.prems by (simp add: rd_poke_other rd_poke_bytes)
  next
    case False
    then have "i < n" using Suc.prems by simp
    then show ?thesis unfolding m using Suc.IH Suc.prems by (simp add: rd_poke_other)
  qed
qed simp

section \<open>A running driver\<close>

lemma ring_ok_device:
  assumes "ring_ok dev s" "ring_step (g_ring_virt s) (g_qsz s) (vmem s) m"
  shows "ring_ok dev (s\<lparr>vmem := m\<rparr>)"
proof -
  let ?t = "s\<lparr>vmem := m\<rparr>"
  have a: "avail_idx ?t = g_last_used ?t + of_nat (g_qsz ?t)"
    using ring_step_kept(1) [OF assms(2)] assms(1) by (simp add: ring_ok_def avail_idx_def)
  have "pending ?t \<le> g_qsz ?t" using ring_stepD(2) [OF assms(2)] ring_ok_reported(2) [OF a] by simp
  with a show ?thesis using assms(1) by (simp add: ring_ok_def regs_outside_def)
qed

text \<open>Every descriptor names its own buffer of eight bytes in the ring page, for the device to write.\<close>

definition table_ok :: "vt \<Rightarrow> bool" where
  "table_ok s \<longleftrightarrow> g_ring_phys s + vhhdm s = g_ring_virt s \<and>
     (\<forall>i < g_qsz s. let d = g_ring_virt s + 16 * i
        in rd64 (vmem s) d = of_nat (g_ring_phys s + 0x100 + i * 8) \<and> rd32 (vmem s) (d + 8) = 8 \<and>
           rd16 (vmem s) (d + 12) = 2)"

lemma table_ok_device:
  assumes "table_ok s" "ring_step (g_ring_virt s) (g_qsz s) (vmem s) m"
  shows "table_ok (s\<lparr>vmem := m\<rparr>)"
  using assms(1) ring_step_desc [OF assms(2)] by (auto simp: table_ok_def Let_def)

lemma init_ring_mem:
  "vmem (init_ring rp s) =
     poke (rp + vhhdm s + 0x202) (bytes16 (of_nat (g_qsz s)))
       (vmem (fold (fill_desc (rp + vhhdm s) (rp + 0x100)) [0..<g_qsz s]
         (vt_ram (rp + vhhdm s + 0x202) (bytes16 0) (vt_ram (rp + vhhdm s + 0x302) (bytes16 0)
           (vt_ram (rp + vhhdm s) (replicate 4096 0) (s\<lparr>g_ring_phys := rp, g_ring_virt := rp + vhhdm s\<rparr>))))))"
  by (simp add: init_ring_def Let_def vt_ram_def)

lemma fill_desc_above:
  assumes "n \<le> 16" "rv + 0x224 \<le> x"
  shows "vmem (fold (fill_desc rv d0) [0..<n] s) x = vmem s x"
  using assms by (induction n) (auto simp: fill_desc_def vt_ram_def poke_def)

lemma init_ring_ready:
  assumes "g_qsz s \<le> 16"
  shows "table_ok (init_ring rp s)" "avail_idx (init_ring rp s) = of_nat (g_qsz s)"
    "rd16 (vmem (init_ring rp s)) (rp + vhhdm s + 0x302) = 0"
    "k < g_qsz s \<Longrightarrow> avail_slot (init_ring rp s) k = of_nat k"
proof -
  let ?rv = "rp + vhhdm s"
  show "avail_idx (init_ring rp s) = of_nat (g_qsz s)" by (simp add: avail_idx_def init_ring_mem)
  show "avail_slot (init_ring rp s) k = of_nat k" if "k < g_qsz s"
    using descriptors_filled [OF that assms] by (simp add: avail_slot_def init_ring_mem rd_poke_other Let_def)
  have "rd64 (vmem (init_ring rp s)) (?rv + 16 * i) = of_nat (rp + 0x100 + i * 8) \<and>
      rd32 (vmem (init_ring rp s)) (?rv + 16 * i + 8) = 8 \<and> rd16 (vmem (init_ring rp s)) (?rv + 16 * i + 12) = 2"
    if i: "i < g_qsz s" for i
  proof -
    have "i < 16" using i assms by simp
    then show ?thesis unfolding init_ring_mem
      using descriptors_filled [OF i assms, of ?rv "rp + 0x100"] by (simp add: rd_poke_other Let_def)
  qed
  then show "table_ok (init_ring rp s)" by (simp add: table_ok_def Let_def)
  show "rd16 (vmem (init_ring rp s)) (?rv + 0x302) = 0"
  proof -
    have "rd16 (vmem (init_ring rp s)) (?rv + 0x302) =
        rd16 (poke ?rv (replicate 4096 0) (vmem s)) (?rv + 0x302)"
      unfolding init_ring_mem
      by (rule rd_cong) (use assms in \<open>auto simp: poke_def fill_desc_above vt_ram_def bytes16_def nth_Cons'\<close>)
    then show ?thesis by (simp add: rd16_def poke_def)
  qed
qed

text \<open>Register stores, as the ring sees them.\<close>

lemma regs_ring:
  assumes "virtio_device dev rv q" "0 < q" "q \<le> 16" "reported rv q (vmem s) \<le> q"
    "\<forall>i < 56. \<not> in_page rv (c + i)"
  shows "off < 56 \<Longrightarrow> ring_step rv q (vmem s) (vmem (vt_wr8 dev c off v8 s))"
    "off + 1 < 56 \<Longrightarrow> ring_step rv q (vmem s) (vmem (vt_wr16 dev c off v16 s))"
    "off + 3 < 56 \<Longrightarrow> ring_step rv q (vmem s) (vmem (vt_wr32 dev c off v32 s))"
  unfolding vt_wr8_def vt_wr16_def vt_wr32_def
  by (rule store_ring [OF assms(1-4)]; use assms(5) in \<open>simp add: add.assoc\<close>)+

lemma queue_regs_ring:
  assumes "virtio_device dev rv q" "0 < q" "q \<le> 16" "reported rv q (vmem s) \<le> q"
    "\<forall>i < 56. \<not> in_page rv (c + i)"
  shows "ring_step rv q (vmem s) (vmem (queue_regs dev c rp s))"
proof -
  note W = regs_ring [OF assms(1,2,3) _ assms(5)]
  note S = ring_step_trans [OF _ W(2) [OF ring_stepD(2)]] ring_step_trans [OF _ W(3) [OF ring_stepD(2)]]
  have "ring_step rv q (vmem s) (vmem s)" by (rule ring_step_outside) (use assms in auto)
  then show ?thesis unfolding queue_regs_def Let_def by (intro S) simp_all
qed

lemma queue_regs_last_used:
  "queue_regs dev c rp (s\<lparr>g_last_used := 0\<rparr>) = (queue_regs dev c rp s)\<lparr>g_last_used := 0\<rparr>"
  by (simp add: queue_regs_def vt_stores Let_def)

lemma only_memory:
  "queue_regs dev c rp s = s\<lparr>vmem := vmem (queue_regs dev c rp s)\<rparr>"
  "notify_queue dev n s = s\<lparr>vmem := vmem (notify_queue dev n s)\<rparr>"
  by (simp_all add: queue_regs_def notify_queue_def vt_stores Let_def)

text \<open>A successful set-up fills a fresh page and then only stores to registers.\<close>

lemma setup_vq_start:
  assumes "setup_vq dev n 16 s = (True, s')"
  shows "\<exists>b rp. s' = notify_queue dev n (queue_regs dev (g_common b) rp b) \<and> rp \<noteq> 0 \<and>
    g_qsz b \<in> {2, 4, 8, 16} \<and> table_ok b \<and> avail_idx b = of_nat (g_qsz b) \<and> g_last_used b = 0 \<and>
    rd16 (vmem b) (g_ring_virt b + 0x302) = 0 \<and> g_ring_virt b = rp + vhhdm b"
proof -
  define s1 where "s1 = vt_wr16 dev (g_common s) 22 n s"
  define qmax where "qmax = rd16 (vmem s1) (g_common s1 + 24)"
  define s2 where "s2 = vt_wr16 dev (g_common s1) 24 (of_nat (queue_size_for 16 qmax))
      (s1\<lparr>g_qsz := queue_size_for 16 qmax\<rparr>)"
  obtain rp p where rp: "pmm_alloc_contig 1 (vpmm s2) = (rp, p)" by fastforce
  note fold_defs = s1_def [symmetric] qmax_def [symmetric] s2_def [symmetric]
  have q2: "\<not> qmax < 2" using assms unfolding setup_vq_def Let_def fold_defs by auto
  define s3 where "s3 = s2\<lparr>vpmm := p\<rparr>"
  define b where "b = (init_ring rp s3)\<lparr>g_last_used := 0\<rparr>"
  have e: "rp \<noteq> 0" "s' = notify_queue dev n (queue_regs dev (g_common b) rp b)"
    using assms q2 unfolding setup_vq_def Let_def fold_defs rp
    by (auto simp: b_def s3_def queue_regs_last_used split: if_splits)
  have q: "g_qsz s3 \<in> {2, 4, 8, 16}" using queue_size [OF q2] by (simp add: s3_def s2_def vt_stores)
  then have "g_qsz s3 \<le> 16" by auto
  note R = init_ring_ready [OF this, of rp]
  have "table_ok b \<and> avail_idx b = of_nat (g_qsz b) \<and> rd16 (vmem b) (g_ring_virt b + 0x302) = 0"
    using R(1-3) by (simp add: b_def table_ok_def avail_idx_def)
  then show ?thesis using e q by (intro exI [of _ b] exI [of _ rp]) (simp add: b_def)
qed

lemma setup_vq_ring:
  assumes "setup_vq dev n 16 s = (True, s')" "virtio_device dev (g_ring_virt s') (g_qsz s')" "regs_outside s'"
  shows "ring_ok dev s' \<and> table_ok s' \<and> g_ring_virt s' \<noteq> 0"
proof -
  obtain b rp where b: "s' = notify_queue dev n (queue_regs dev (g_common b) rp b)" "rp \<noteq> 0"
      "g_qsz b \<in> {2, 4, 8, 16}" "table_ok b" "avail_idx b = of_nat (g_qsz b)" "g_last_used b = 0"
      "rd16 (vmem b) (g_ring_virt b + 0x302) = 0" "g_ring_virt b = rp + vhhdm b"
    using setup_vq_start [OF assms(1)] by blast
  let ?m = "vmem (queue_regs dev (g_common b) rp b)"
  have e: "s' = b\<lparr>vmem := vmem s'\<rparr>" unfolding b(1)
    using only_memory(1) [of dev "g_common b" rp b] only_memory(2) [of dev n "queue_regs dev (g_common b) rp b"]
    by (metis vt.update_convs(2) vt.surjective)
  have f: "g_ring_virt s' = g_ring_virt b" "g_qsz s' = g_qsz b" "regs_outside s' = regs_outside b"
    using e by (metis regs_outside_def vt.select_convs vt.surjective vt.update_convs(2))+
  have q: "0 < g_qsz b" "g_qsz b \<le> 16" "g_qsz b dvd 65536" using b(3) by auto
  have B: "ring_ok dev b" using assms(2,3) q b(5-7) by (simp add: ring_ok_def f pending_def)
  have r: "reported (g_ring_virt b) (g_qsz b) (vmem b) \<le> g_qsz b"
    using ring_ok_reported(2) [of b] B by (simp add: ring_ok_def)
  have 1: "ring_step (g_ring_virt b) (g_qsz b) (vmem b) ?m"
    by (rule queue_regs_ring [OF _ q(1,2) r]) (use B in \<open>simp_all add: ring_ok_def regs_outside_def\<close>)
  have "ring_step (g_ring_virt b) (g_qsz b) ?m (vmem s')"
    using notify_ring [of dev "queue_regs dev (g_common b) rp b" "g_qsz b" n] B q ring_stepD(2) [OF 1]
      only_memory(1) [of dev "g_common b" rp b]
    unfolding b(1) ring_ok_def by (simp add: regs_outside_def)
  note S = ring_step_trans [OF 1 this]
  have "ring_ok dev s'" "table_ok s'"
    using ring_ok_device [OF B S] table_ok_device [OF b(4) S] unfolding e [symmetric] by simp_all
  then show ?thesis using b(2,8) f(1) by simp
qed

lemma init_device_ring:
  assumes "init_device dev w h r = (True, s)" "virtio_device dev (g_ring_virt s) (g_qsz s)" "regs_outside s"
  shows "g_active s \<and> g_ring_virt s \<noteq> 0 \<and> ring_ok dev s \<and> table_ok s"
proof -
  have ne: "(False, virtio_tablet_shutdown y) \<noteq> (True, s)" for y by simp
  obtain y x where x: "setup_vq dev 0 16 y = (True, x)"
      "s = (vt_wr8 dev (g_common x) 20 (1 OR 2 OR 8 OR 4) x)\<lparr>g_active := True\<rparr>"
    using assms(1) unfolding init_device_def Let_def by (auto split: prod.splits if_splits)
  define m where "m = vmem (vt_wr8 dev (g_common x) 20 (1 OR 2 OR 8 OR 4) x)"
  have s: "s = x\<lparr>vmem := m, g_active := True\<rparr>" by (simp add: x(2) m_def vt_wr8_def vt_store_def)
  have X: "ring_ok dev x \<and> table_ok x \<and> g_ring_virt x \<noteq> 0"
    by (rule setup_vq_ring [OF x(1)]) (use assms(2,3) in \<open>simp_all add: s regs_outside_def\<close>)
  have "reported (g_ring_virt x) (g_qsz x) (vmem x) \<le> g_qsz x"
    using X ring_ok_reported(2) [of x] by (simp add: ring_ok_def)
  then have "ring_step (g_ring_virt x) (g_qsz x) (vmem x) m"
    unfolding m_def using X by (intro regs_ring(1)) (simp_all add: ring_ok_def regs_outside_def)
  then have "ring_ok dev (x\<lparr>vmem := m\<rparr>)" "table_ok (x\<lparr>vmem := m\<rparr>)"
    using X ring_ok_device table_ok_device by blast+
  then show ?thesis using X
    by (simp add: s ring_ok_def table_ok_def regs_outside_def avail_idx_def pending_def)
qed

text \<open>A run starts with an initialisation that succeeds on a device that keeps the contract, with its
  registers outside the ring page; then the driver polls and the device works on the ring, in any order.\<close>

inductive tablet_run :: "device \<Rightarrow> vt \<Rightarrow> bool" for dev where
  init: "init_device dev w h r = (True, s) \<Longrightarrow> virtio_device dev (g_ring_virt s) (g_qsz s) \<Longrightarrow>
    regs_outside s \<Longrightarrow> tablet_run dev s"
| poll: "tablet_run dev s \<Longrightarrow> tablet_run dev (virtio_tablet_poll dev s)"
| device: "tablet_run dev s \<Longrightarrow> ring_step (g_ring_virt s) (g_qsz s) (vmem s) m \<Longrightarrow>
    tablet_run dev (s\<lparr>vmem := m\<rparr>)"

lemma probe_starts_run:
  assumes "virtio_tablet_probe_and_init l dev w h s = Some (True, s')"
    "virtio_device dev (g_ring_virt s') (g_qsz s')" "regs_outside s'"
  shows "tablet_run dev s'"
proof -
  obtain r where "init_device dev w h r = (True, s')"
    using assms(1) unfolding virtio_tablet_probe_and_init_def Let_def
    by (auto split: prod.splits option.splits)
  then show ?thesis using assms(2,3) by (rule tablet_run.init)
qed

lemma poll_step_table:
  assumes "ring_ok dev s" "0 < pending s" "table_ok s"
  shows "table_ok (poll_step dev s)"
proof -
  have q: "0 < g_qsz s" "g_qsz s \<le> 16" using assms(1) by (simp_all add: ring_ok_def)
  have "vmem (hand_back s) x = vmem s x" if "x < g_ring_virt s + 0x200" for x
    by (rule hand_back_other [OF q(1)]) (use that in simp)
  then have same: "rd64 (vmem (hand_back s)) (g_ring_virt s + 16 * i) = rd64 (vmem s) (g_ring_virt s + 16 * i)"
    "rd32 (vmem (hand_back s)) (g_ring_virt s + 16 * i + 8) = rd32 (vmem s) (g_ring_virt s + 16 * i + 8)"
    "rd16 (vmem (hand_back s)) (g_ring_virt s + 16 * i + 12) = rd16 (vmem s) (g_ring_virt s + 16 * i + 12)"
    if "i < g_qsz s" for i
    using that q(2) by (auto intro!: rd_cong rd64_cong)
  have f: "g_ring_phys (poll_step dev s) = g_ring_phys s" "vhhdm (poll_step dev s) = vhhdm s"
    "g_ring_phys (hand_back s) = g_ring_phys s" "vhhdm (hand_back s) = vhhdm s"
    by (simp_all add: poll_step_def hand_back_def notify_queue_def vt_stores Let_def)
  have "table_ok (hand_back s)" using assms(3) same by (auto simp: table_ok_def Let_def f)
  moreover have "ring_step (g_ring_virt s) (g_qsz s) (vmem (hand_back s)) (vmem (poll_step dev s))"
    by (rule poll_step_device [OF assms(1,2)])
  ultimately have "table_ok ((hand_back s)\<lparr>vmem := vmem (poll_step dev s)\<rparr>)" by (simp add: table_ok_device)
  then show ?thesis by (simp add: table_ok_def f)
qed

lemma poll_loop_table:
  "ring_ok dev s \<Longrightarrow> unat (u - g_last_used s) = n \<Longrightarrow> n \<le> pending s \<Longrightarrow> table_ok s \<Longrightarrow>
    table_ok (poll_loop dev u s) \<and> g_ring_virt (poll_loop dev u s) = g_ring_virt s \<and>
    g_active (poll_loop dev u s) = g_active s"
proof (induction n arbitrary: s)
  case 0
  then have "g_last_used s = u" by (simp add: unat_eq_0)
  then show ?case using 0 by (simp add: poll_loop.simps [of dev u s])
next
  case (Suc n)
  note U = poll_loop_unroll [OF Suc.prems(2), of dev]
  have p: "0 < pending s" using Suc.prems(3) by simp
  note S = poll_step_ring [OF Suc.prems(1) p]
  have "n \<le> pending (poll_step dev s)" using S(2) Suc.prems(3) by simp
  moreover have "g_active (poll_step dev s) = g_active s" by (simp add: poll_step_def vt_ram_def Let_def)
  ultimately show ?case
    using Suc.IH [OF S(1) U(1)] U(2) poll_step_table [OF Suc.prems(1) p Suc.prems(4)] by simp
qed

text \<open>C22: the queue stays sound in every run.  From an initialisation that succeeds (with registers outside
  the ring page and a device that keeps the virtio contract), and through any sequence of polls and of
  device activity on the ring, the driver is active with a ring page; its queue size is a divisor of
  65536 between 1 and 16, so the remainders a poll takes are defined and agree across the wrap of the
  indices; every descriptor still names its own eight-byte buffer of the page, writable by the device;
  and no buffer is lost: the available index is the consumed index plus the queue size, with at most that
  many reports waiting.\<close>

theorem tablet_run_ok:
  assumes "tablet_run dev s"
  shows "g_active s \<and> g_ring_virt s \<noteq> 0 \<and> ring_ok dev s \<and> table_ok s"
  using assms
proof (induction rule: tablet_run.induct)
  case (init w h r s)
  then show ?case by (rule init_device_ring)
next
  case (poll s)
  then show ?case
    using poll_ring_ok [of dev s] poll_loop_table [of dev s _ "pending s"]
    by (simp add: virtio_tablet_poll_def pending_def)
next
  case (device s m)
  then show ?case using ring_ok_device table_ok_device by simp
qed

text \<open>A tablet whose queue register offers four entries, found with a free frame at 8192.\<close>

definition example_found :: "vtin \<Rightarrow> vt" where
  "example_found t = (example_vt t)\<lparr>vpmm := example_pmm, vmem := (\<lambda>_. 0)(0x100018 := 4)\<rparr>"

lemma example_frame: "\<exists>p. pmm_alloc_contig 1 example_pmm = (8192, p)"
proof -
  have bits: "i < 4 \<Longrightarrow> bit_get example_pmm i \<longleftrightarrow> i \<in> {0, 1}" for i :: nat
    using example_pmm_used by (auto simp: used_frames_def example_pmm_def)
  have t: "total_pages example_pmm = 4" by (simp add: example_pmm_def)
  have "free_run example_pmm 1 2" by (auto simp: free_run_def t bits)
  moreover have "\<not> free_run example_pmm 1 q" if "q < 2" for q
    using that bits [of q] by (auto simp: free_run_def t)
  ultimately show ?thesis using pmm_alloc_contig_cases(2) [OF example_pmm_inv, of 1 2] by auto
qed

lemma idle_store [simp]:
  "vmem (vt_wr8 (\<lambda>a m. m) c off v8 s) x = (if x = c + off then v8 else vmem s x)"
  "x < c + off \<or> c + off + 2 \<le> x \<Longrightarrow> vmem (vt_wr16 (\<lambda>a m. m) c off v16 s) x = vmem s x"
  "x < c + off \<or> c + off + 4 \<le> x \<Longrightarrow> vmem (vt_wr32 (\<lambda>a m. m) c off v32 s) x = vmem s x"
  by (auto simp: vt_wr8_def vt_wr16_def vt_wr32_def vt_store_def poke_def)

lemma store_frame [simp]:
  "g_common (vt_wr8 dev c off v8 s) = g_common s" "g_common (vt_wr16 dev c off v16 s) = g_common s"
  "g_common (vt_wr32 dev c off v32 s) = g_common s"
  "vpmm (vt_wr8 dev c off v8 s) = vpmm s" "vpmm (vt_wr16 dev c off v16 s) = vpmm s"
  "vpmm (vt_wr32 dev c off v32 s) = vpmm s"
  "vhhdm (vt_wr8 dev c off v8 s) = vhhdm s" "vhhdm (vt_wr16 dev c off v16 s) = vhhdm s"
  "vhhdm (vt_wr32 dev c off v32 s) = vhhdm s"
  "g_notify_base (vt_wr8 dev c off v8 s) = g_notify_base s" "g_notify_base (vt_wr16 dev c off v16 s) = g_notify_base s"
  "g_notify_base (vt_wr32 dev c off v32 s) = g_notify_base s"
  "g_notify_mult (vt_wr8 dev c off v8 s) = g_notify_mult s" "g_notify_mult (vt_wr16 dev c off v16 s) = g_notify_mult s"
  "g_notify_mult (vt_wr32 dev c off v32 s) = g_notify_mult s"
  "g_device_cfg (vt_wr8 dev c off v8 s) = g_device_cfg s" "g_qsz (vt_wr16 dev c off v16 s) = g_qsz s"
  by (simp_all add: vt_stores)

lemma negotiate_frame [simp]:
  "g_common (snd (negotiate dev s)) = g_common s" "vpmm (snd (negotiate dev s)) = vpmm s"
  "vhhdm (snd (negotiate dev s)) = vhhdm s" "g_notify_base (snd (negotiate dev s)) = g_notify_base s"
  "g_notify_mult (snd (negotiate dev s)) = g_notify_mult s"
  by (simp_all add: negotiate_def Let_def)

lemma set_ranges_frame [simp]:
  "g_common (set_ranges w h dev s) = g_common s" "vpmm (set_ranges w h dev s) = vpmm s"
  "vhhdm (set_ranges w h dev s) = vhhdm s" "g_notify_base (set_ranges w h dev s) = g_notify_base s"
  "g_notify_mult (set_ranges w h dev s) = g_notify_mult s"
  by (simp_all add: set_ranges_def read_abs_range_def Let_def case_prod_beta)

lemma example_negotiated:
  fixes t
  defines "y \<equiv> negotiate (\<lambda>a m. m) (set_ranges 0 0 (\<lambda>a m. m) (example_found t))"
  shows "fst y" "vmem (snd y) (0x100000 + 24) = 4" "vmem (snd y) (0x100000 + 25) = 0"
proof -
  define r where "r = set_ranges 0 0 (\<lambda>a m. m) (example_found t)"
  have c: "g_common r = 0x100000" by (simp add: r_def example_found_def example_vt_def)
  have m: "vmem r (0x100000 + 24) = 4" "vmem r (0x100000 + 25) = 0"
    by (simp_all add: r_def set_ranges_def read_abs_range_def Let_def case_prod_beta example_found_def example_vt_def)
  show "fst y" "vmem (snd y) (0x100000 + 24) = 4" "vmem (snd y) (0x100000 + 25) = 0"
    using m unfolding y_def r_def [symmetric] by (simp_all add: negotiate_def Let_def c)
qed

lemma idle_setup:
  assumes "pmm_alloc_contig 1 (vpmm s) = (rp, p)" "rp \<noteq> 0" "\<not> rd16 (vmem (vt_wr16 (\<lambda>a m. m) (g_common s) 22 n s)) (g_common s + 24) < 2"
  shows "\<exists>s'. setup_vq (\<lambda>a m. m) n 16 s = (True, s') \<and> g_ring_virt s' = rp + vhhdm s \<and> g_common s' = g_common s \<and>
    g_notify_base s' = g_notify_base s \<and> g_notify_mult s' = g_notify_mult s \<and> g_qsz s' \<in> {2, 4, 8, 16}"
  using assms queue_size [OF assms(3)] by (simp add: setup_vq_def Let_def)

lemma example_initialised:
  "\<exists>s. init_device (\<lambda>a m. m) 0 0 (True, example_found t) = (True, s) \<and> g_ring_virt s = 8192 \<and>
     g_qsz s \<in> {2, 4, 8, 16} \<and> regs_outside s"
proof -
  obtain p where p: "pmm_alloc_contig 1 example_pmm = (8192, p)" using example_frame by blast
  define y where "y = negotiate (\<lambda>a m. m) (set_ranges 0 0 (\<lambda>a m. m) (example_found t))"
  define z where "z = vt_wr16 (\<lambda>a m. m) (g_common (snd y)) 16 0xFFFF (snd y)"
  have y: "g_common (example_found t) = 0x100000" "g_common (snd y) = 0x100000" "g_notify_base (snd y) = 0x200000"
    "g_notify_mult (snd y) = 0" "vpmm (snd y) = example_pmm" "vhhdm (snd y) = 0"
    by (simp_all add: y_def example_found_def example_vt_def)
  have "\<not> rd16 (vmem (vt_wr16 (\<lambda>a m. m) (g_common z) 22 0 z)) (g_common z + 24) < 2"
    using example_negotiated [of t] unfolding y_def [symmetric] by (simp add: z_def y rd16_def)
  with p obtain x where x: "setup_vq (\<lambda>a m. m) 0 16 z = (True, x)" "g_ring_virt x = 8192" "g_common x = 0x100000"
    "g_notify_base x = 0x200000" "g_notify_mult x = 0" "g_qsz x \<in> {2, 4, 8, 16}"
    using idle_setup [of z 8192 p 0] by (auto simp: z_def y)
  have "init_device (\<lambda>a m. m) 0 0 (True, example_found t) =
      (True, (vt_wr8 (\<lambda>a m. m) (g_common x) 20 (1 OR 2 OR 8 OR 4) x)\<lparr>g_active := True\<rparr>)"
    using example_negotiated(1) [of t] x(1)
    by (simp add: init_device_def Let_def case_prod_beta y y_def [symmetric] z_def)
  moreover have "regs_outside ((vt_wr8 (\<lambda>a m. m) (g_common x) 20 (1 OR 2 OR 8 OR 4) x)\<lparr>g_active := True\<rparr>)"
    using x by (simp add: regs_outside_def in_page_def notify_addr_def vt_stores)
  ultimately show ?thesis using x(2,6) by (simp add: vt_stores)
qed

lemma tablet_run_ok_witness:
  "\<forall>t. \<exists>s. init_device (\<lambda>a m. m) 0 0 (True, example_found t) = (True, s) \<and>
     ring_ok (\<lambda>a m. m) (virtio_tablet_poll (\<lambda>a m. m) s) \<and> table_ok (virtio_tablet_poll (\<lambda>a m. m) s)"
proof
  fix t
  obtain s where s: "init_device (\<lambda>a m. m) 0 0 (True, example_found t) = (True, s)" "g_qsz s \<in> {2, 4, 8, 16}" "regs_outside s"
    using example_initialised by blast
  have "virtio_device (\<lambda>a m. m) (g_ring_virt s) (g_qsz s)" using s(2) by (intro virtio_device_idle) auto
  then have "tablet_run (\<lambda>a m. m) (virtio_tablet_poll (\<lambda>a m. m) s)"
    using s(1,3) by (intro tablet_run.poll tablet_run.init)
  then show "\<exists>s. init_device (\<lambda>a m. m) 0 0 (True, example_found t) = (True, s) \<and>
     ring_ok (\<lambda>a m. m) (virtio_tablet_poll (\<lambda>a m. m) s) \<and> table_ok (virtio_tablet_poll (\<lambda>a m. m) s)"
    using tablet_run_ok s(1) by blast
qed

text \<open>The upper halves of the ring addresses: the one of the descriptor table is written, those of
  the two other parts are always zero, although the page may lie above four gigabytes.\<close>

lemma ring_above_4g:
  "rd32 (vmem (queue_regs (\<lambda>a m. m) c rp s)) (c + 36) = of_nat (rp div 2 ^ 32)"
  "rd32 (vmem (queue_regs (\<lambda>a m. m) c rp s)) (c + 44) = 0"
  "rd32 (vmem (queue_regs (\<lambda>a m. m) c rp s)) (c + 52) = 0"
  by (simp_all add: queue_regs_def vt_stores Let_def rd_poke_other)

end
