(* ===== verification/TrbRing.thy ===== *)
theory TrbRing
  imports Bytes
begin

text \<open>
  The producer rings of the xHCI driver (\<^verbatim>\<open>put_link\<close>, \<^verbatim>\<open>cmd_push\<close>, \<^verbatim>\<open>ep0_push\<close> and \<^verbatim>\<open>int_push\<close> of
  \<^verbatim>\<open>drivers/usb_xhci_mouse.c\<close>).  The three push functions are the same code on three groups of
  globals; a group is the record \<open>ring\<close>.  A transfer request block (TRB) is four 32-bit words, the
  last of which carries the cycle bit.  The last of the 64 places holds a link back to the first.

  The theory shows that such a ring is a bounded queue for a controller that follows the cycle
  bits and the link the way the xHCI specification prescribes (\<open>hc_fetch\<close>).
\<close>

type_synonym trb = "u32 \<times> u32 \<times> u32 \<times> u32"

record ring =
  r_phys :: nat
  r_base :: nat
  r_enq :: nat
  r_cycle :: u32

definition RING_TRBS :: nat where "RING_TRBS = 64"
definition TRB_TYPE :: "u32 \<Rightarrow> u32" where "TRB_TYPE t = push_bit 10 t"
definition TRB_LINK :: u32 where "TRB_LINK = 6"
definition TRB_TC :: u32 where "TRB_TC = 2"

definition lo32 :: "nat \<Rightarrow> u32" where "lo32 phys = of_nat phys"
definition hi32 :: "nat \<Rightarrow> u32" where "hi32 phys = of_nat (phys div 2 ^ 32)"

fun trb_bytes :: "trb \<Rightarrow> u8 list" where
  "trb_bytes (p0, p1, p2, p3) = bytes32 p0 @ bytes32 p1 @ bytes32 p2 @ bytes32 p3"

definition put_trb :: "nat \<Rightarrow> nat \<Rightarrow> trb \<Rightarrow> bytes \<Rightarrow> bytes" where
  "put_trb base i t = poke (base + i * 16) (trb_bytes t)"

definition put_link :: "nat \<Rightarrow> nat \<Rightarrow> nat \<Rightarrow> u32 \<Rightarrow> bytes \<Rightarrow> bytes" where
  "put_link base i phys cycle =
     put_trb base i (lo32 phys, hi32 phys, 0, TRB_TYPE TRB_LINK OR TRB_TC OR (cycle AND 1))"

fun trb_push :: "trb \<Rightarrow> ring \<times> bytes \<Rightarrow> ring \<times> bytes" where
  "trb_push (p0, p1, p2, ctl) (r, m) =
     (let m1 = put_trb (r_base r) (r_enq r) (p0, p1, p2, ctl OR (r_cycle r AND 1)) m;
          r1 = r\<lparr>r_enq := r_enq r + 1\<rparr>
      in if r_enq r1 \<ge> RING_TRBS - 1
         then (r1\<lparr>r_enq := 0, r_cycle := r_cycle r1 XOR 1\<rparr>,
               put_link (r_base r1) (RING_TRBS - 1) (r_phys r1) (r_cycle r1) m1)
         else (r1, m1))"

section \<open>The controller's side\<close>

text \<open>The consumer keeps a place and the cycle state it expects.  It takes a block whose cycle bit is
  the expected one; a link to the ring itself moves it to the first place, and with the toggle flag
  turns the expected state over.\<close>

definition trb_at :: "bytes \<Rightarrow> nat \<Rightarrow> nat \<Rightarrow> trb" where
  "trb_at m base i =
     (rd32 m (base + i * 16), rd32 m (base + i * 16 + 4), rd32 m (base + i * 16 + 8), rd32 m (base + i * 16 + 12))"

fun trb_cycle :: "trb \<Rightarrow> bool" where "trb_cycle (_, _, _, p3) = bit p3 0"
fun trb_link :: "trb \<Rightarrow> bool" where "trb_link (_, _, _, p3) = (drop_bit 10 p3 AND 0x3F = TRB_LINK)"
fun trb_toggle :: "trb \<Rightarrow> bool" where "trb_toggle (_, _, _, p3) = bit p3 1"
fun trb_target :: "trb \<Rightarrow> u32 \<times> u32" where "trb_target (p0, p1, _, _) = (p0, p1)"
fun trb_strip :: "trb \<Rightarrow> trb" where "trb_strip (p0, p1, p2, p3) = (p0, p1, p2, p3 AND NOT 1)"

definition hc_fetch1 :: "bytes \<Rightarrow> nat \<Rightarrow> nat \<times> bool \<Rightarrow> (trb \<times> nat \<times> bool) option" where
  "hc_fetch1 m base p =
     (let t = trb_at m base (fst p)
      in if trb_cycle t = snd p \<and> \<not> trb_link t then Some (trb_strip t, fst p + 1, snd p) else None)"

definition hc_fetch :: "ring \<times> bytes \<Rightarrow> nat \<times> bool \<Rightarrow> (trb \<times> nat \<times> bool) option" where
  "hc_fetch rm p =
     (let (r, m) = rm; t = trb_at m (r_base r) (fst p)
      in if trb_cycle t = snd p \<and> trb_link t \<and> trb_target t = (lo32 (r_phys r), hi32 (r_phys r))
         then hc_fetch1 m (r_base r) (0, snd p \<noteq> trb_toggle t)
         else hc_fetch1 m (r_base r) p)"

section \<open>Places\<close>

lemma put_trb_same [simp]: "trb_at (put_trb b i t m) b i = t"
proof (cases t)
  case (fields p0 p1 p2 p3)
  have M: "mem_at (put_trb b i t m) (b + i * 16) (trb_bytes t)"
    unfolding put_trb_def by (rule mem_at_poke)
  show ?thesis using M by (auto simp: trb_at_def fields add.assoc dest!: rd32_bytes)
qed

lemma put_trb_other:
  assumes "i \<noteq> j"
  shows "trb_at (put_trb b i t m) b j = trb_at m b j"
proof -
  have d: "j * 16 + 16 \<le> i * 16 \<or> i * 16 + 16 \<le> j * 16" using assms by linarith
  have l: "length (trb_bytes t) = 16" by (cases t) simp
  have "rd32 (put_trb b i t m) (b + j * 16 + k) = rd32 m (b + j * 16 + k)" if "k \<le> 12" for k
    using d l that unfolding put_trb_def rd32_def poke_def by auto
  from this [of 0] this [of 4] this [of 8] this [of 12] show ?thesis by (simp add: trb_at_def)
qed

section \<open>What the ring holds\<close>

text \<open>Places are counted without wrap-around: \<open>lap n\<close> is the cycle state in force for block \<open>n\<close>.\<close>

definition lap :: "nat \<Rightarrow> bool" where "lap n \<longleftrightarrow> even (n div 63)"

definition link_trb :: "nat \<Rightarrow> bool \<Rightarrow> trb" where
  "link_trb phys c = (lo32 phys, hi32 phys, 0, TRB_TYPE TRB_LINK OR TRB_TC OR of_bool c)"

definition trb_ring :: "ring \<times> bytes \<Rightarrow> nat \<Rightarrow> bool" where
  "trb_ring rm n \<longleftrightarrow>
     (let (r, m) = rm; t = trb_at m (r_base r)
      in r_enq r = n mod 63 \<and> r_cycle r = of_bool (lap n) \<and>
         (\<forall>i < 63. trb_cycle (t i) = (if i < n mod 63 then lap n else \<not> lap n) \<and> \<not> trb_link (t i)) \<and>
         (if n < 63 then \<not> trb_cycle (t 63) else t 63 = link_trb (r_phys r) (\<not> lap n)))"

definition hc_place :: "nat \<Rightarrow> nat \<times> bool \<Rightarrow> bool" where
  "hc_place k p \<longleftrightarrow> p = (k mod 63, lap k) \<or> 0 < k \<and> k mod 63 = 0 \<and> p = (63, \<not> lap k)"

definition ring_queue :: "ring \<times> bytes \<Rightarrow> nat \<times> bool \<Rightarrow> trb list \<Rightarrow> bool" where
  "ring_queue rm p q \<longleftrightarrow>
     (\<exists>n k. trb_ring rm n \<and> k \<le> n \<and> n - k \<le> 62 \<and> hc_place k p \<and>
        q = map (\<lambda>j. trb_strip (trb_at (snd rm) (r_base (fst rm)) (j mod 63))) [k..<n])"

lemma link_trb_simps [simp]:
  "trb_cycle (link_trb phys c) = c" "trb_link (link_trb phys c)" "trb_toggle (link_trb phys c)"
  "trb_target (link_trb phys c) = (lo32 phys, hi32 phys)"
proof -
  have "bit (0x1800 :: u32) 0 = False" "bit (0x1800 :: u32) 1 = False" "bit (2 :: u32) 0 = False" "bit (2 :: u32) 1"
    by code_simp+
  then show "trb_cycle (link_trb phys c) = c" "trb_toggle (link_trb phys c)"
    by (simp_all add: link_trb_def TRB_TYPE_def TRB_LINK_def TRB_TC_def bit_or_iff)
  have "drop_bit 10 (0x1800 OR 2 OR 0 :: u32) AND 0x3F = 6" "drop_bit 10 (0x1800 OR 2 OR 1 :: u32) AND 0x3F = 6"
    by code_simp+
  then have "drop_bit 10 (0x1800 OR 2 OR of_bool c :: u32) AND 0x3F = 6" by (cases c) simp_all
  then show "trb_link (link_trb phys c)" by (simp add: link_trb_def TRB_TYPE_def TRB_LINK_def TRB_TC_def)
qed (simp add: link_trb_def)

lemma lap_Suc: "lap (Suc n) = (if n mod 63 = 62 then \<not> lap n else lap n)"
proof -
  have "Suc n div 63 = (if n mod 63 = 62 then Suc (n div 63) else n div 63)" by (simp add: div_Suc mod_Suc)
  then show ?thesis by (simp add: lap_def)
qed


lemma trb_ring_push:
  assumes R: "trb_ring (r, m) n" and t: "\<not> bit ctl 0" "\<not> trb_link (p0, p1, p2, ctl)"
    and e: "trb_push (p0, p1, p2, ctl) (r, m) = (r', m')"
  shows "trb_ring (r', m') (Suc n)" "r_base r' = r_base r" "r_phys r' = r_phys r"
    "i < 63 \<Longrightarrow> trb_strip (trb_at m' (r_base r) i) =
       (if i = n mod 63 then (p0, p1, p2, ctl) else trb_strip (trb_at m (r_base r) i))"
proof -
  let ?c = "of_bool (lap n) :: u32" and ?k = "n mod 63"
  let ?t = "(p0, p1, p2, ctl OR ?c)"
  have k: "?k < 63" by simp
  have c: "r_cycle r AND 1 = ?c" "r_enq r = ?k" "r_cycle r = ?c" using R by (auto simp: trb_ring_def Let_def)
  have tt: "trb_cycle ?t = lap n" "\<not> trb_link ?t" "trb_strip ?t = (p0, p1, p2, ctl)"
  proof -
    have "drop_bit 10 (ctl OR ?c) = drop_bit 10 ctl" by (rule bit_eqI) (auto simp: bit_simps)
    then show "\<not> trb_link ?t" using t by simp
    show "trb_cycle ?t = lap n" using t by (simp add: bit_or_iff)
    have "(ctl OR ?c) AND NOT 1 = ctl" using t(1) by (intro bit_eqI) (auto simp: bit_simps intro: Nat.gr0I)
    then show "trb_strip ?t = (p0, p1, p2, ctl)" by simp
  qed
  let ?m1 = "put_trb (r_base r) ?k ?t m"
  show b: "r_base r' = r_base r" "r_phys r' = r_phys r"
    using e by (auto simp: RING_TRBS_def Let_def split: if_splits)
  have slot: "trb_at m' (r_base r) i = (if i = ?k then ?t else trb_at m (r_base r) i)" if "i < 63" for i
    using e that by (auto simp: RING_TRBS_def Let_def c put_link_def put_trb_other split: if_splits)
  show "trb_strip (trb_at m' (r_base r) i) =
       (if i = n mod 63 then (p0, p1, p2, ctl) else trb_strip (trb_at m (r_base r) i))" if "i < 63" for i
    using tt(3) by (simp only: slot [OF that] split: if_splits) simp
  have link: "trb_at m' (r_base r) 63 = (if ?k = 62 then link_trb (r_phys r) (lap n) else trb_at m (r_base r) 63)"
    using e k by (auto simp: RING_TRBS_def Let_def c put_link_def put_trb_other link_trb_def split: if_splits)
  have pos: "r_enq r' = Suc n mod 63" "r_cycle r' = of_bool (lap (Suc n))"
    using e k by (auto simp: RING_TRBS_def Let_def c lap_Suc mod_Suc split: if_splits)
  have slots: "trb_cycle (trb_at m' (r_base r) i) = (if i < Suc n mod 63 then lap (Suc n) else \<not> lap (Suc n)) \<and>
      \<not> trb_link (trb_at m' (r_base r) i)" if i: "i < 63" for i
  proof -
    have o: "trb_cycle (trb_at m (r_base r) i) = (if i < ?k then lap n else \<not> lap n)" "\<not> trb_link (trb_at m (r_base r) i)"
      using R i by (simp_all add: trb_ring_def Let_def)
    show ?thesis using o tt(1,2) i k unfolding slot [OF i] by (cases "?k = 62") (auto simp: mod_Suc lap_Suc less_Suc_eq)
  qed
  have "if Suc n < 63 then \<not> trb_cycle (trb_at m' (r_base r) 63) else trb_at m' (r_base r) 63 = link_trb (r_phys r) (\<not> lap (Suc n))"
  proof (cases "?k = 62")
    case True
    then have "62 \<le> n" by (metis mod_less_eq_dividend)
    then show ?thesis using True by (simp add: link lap_Suc)
  next
    case False
    then have "Suc n < 63 \<longleftrightarrow> n < 63" by (cases "n = 62") auto
    then show ?thesis using R False by (auto simp: link lap_Suc trb_ring_def Let_def)
  qed
  then show "trb_ring (r', m') (Suc n)"
    unfolding trb_ring_def using pos slots b by (simp add: Let_def)
qed

lemma lap_slot:
  assumes R: "trb_ring (r, m) n" and "k \<le> n" "n - k \<le> 62"
  shows "trb_cycle (trb_at m (r_base r) (k mod 63)) = (if k < n then lap k else \<not> lap k)"
    "\<not> trb_link (trb_at m (r_base r) (k mod 63))"
proof -
  have o: "trb_cycle (trb_at m (r_base r) (k mod 63)) = (if k mod 63 < n mod 63 then lap n else \<not> lap n)"
    "\<not> trb_link (trb_at m (r_base r) (k mod 63))"
    using R by (simp_all add: trb_ring_def Let_def)
  then show "\<not> trb_link (trb_at m (r_base r) (k mod 63))" by simp
  have kn: "k = k div 63 * 63 + k mod 63" "n = n div 63 * 63 + n mod 63" by simp_all
  have m: "k mod 63 < 63" "n mod 63 < 63" by simp_all
  have "k div 63 = n div 63 \<or> Suc (k div 63) = n div 63" using kn m assms(2,3) by linarith
  then show "trb_cycle (trb_at m (r_base r) (k mod 63)) = (if k < n then lap k else \<not> lap k)"
  proof
    assume e: "k div 63 = n div 63"
    then have "k mod 63 < n mod 63 \<longleftrightarrow> k < n" using kn by linarith
    then show ?thesis using o e by (simp add: lap_def)
  next
    assume e: "Suc (k div 63) = n div 63"
    then have "\<not> k mod 63 < n mod 63" "k < n" using kn m assms(3) by linarith+
    then show ?thesis using o e [symmetric] by (simp add: lap_def)
  qed
qed

lemma lap_link:
  assumes R: "trb_ring (r, m) n" and "k \<le> n" "n - k \<le> 62" "0 < k" "k mod 63 = 0"
  shows "trb_at m (r_base r) 63 = link_trb (r_phys r) (\<not> lap k)"
proof -
  have "k = k div 63 * 63" using assms(5) by auto
  moreover have "n = n div 63 * 63 + n mod 63" by simp
  moreover have "n mod 63 < 63" by simp
  moreover have "63 \<le> k" using assms(4,5) by (cases "k < 63") simp_all
  ultimately have "k div 63 = n div 63" "63 \<le> n" using assms(2-4) by linarith+
  then show ?thesis using R by (simp add: trb_ring_def Let_def lap_def)
qed

section \<open>Queues with a producer and a consumer\<close>

text \<open>The contract of a queue one side posts to and the other takes from, and what follows for every
  interleaving of the two: as long as no more than \<open>cap\<close> blocks are outstanding, the consumer sees
  what a list would give it.\<close>

datatype 't qop = Post 't | Take

fun hw_run :: "('t \<Rightarrow> 'r \<Rightarrow> 'r) \<Rightarrow> ('r \<Rightarrow> 'p \<Rightarrow> ('t \<times> 'p) option) \<Rightarrow> 't qop list \<Rightarrow> 'r \<Rightarrow> 'p \<Rightarrow> 't option list" where
  "hw_run push fetch [] r p = []"
| "hw_run push fetch (Post t # ops) r p = hw_run push fetch ops (push t r) p"
| "hw_run push fetch (Take # ops) r p =
     (case fetch r p of None \<Rightarrow> None # hw_run push fetch ops r p
      | Some (t, p') \<Rightarrow> Some t # hw_run push fetch ops r p')"

fun queue_run :: "'t qop list \<Rightarrow> 't list \<Rightarrow> 't option list" where
  "queue_run [] q = []"
| "queue_run (Post t # ops) q = queue_run ops (q @ [t])"
| "queue_run (Take # ops) [] = None # queue_run ops []"
| "queue_run (Take # ops) (t # q) = Some t # queue_run ops q"

fun fits :: "nat \<Rightarrow> 't qop list \<Rightarrow> nat \<Rightarrow> bool" where
  "fits cap [] n = True"
| "fits cap (Post t # ops) n = (n < cap \<and> fits cap ops (n + 1))"
| "fits cap (Take # ops) n = fits cap ops (n - 1)"

fun posts :: "'t qop list \<Rightarrow> 't list" where
  "posts [] = []"
| "posts (Post t # ops) = t # posts ops"
| "posts (Take # ops) = posts ops"

locale posted_queue =
  fixes holds :: "'r \<Rightarrow> 'p \<Rightarrow> 't list \<Rightarrow> bool" and valid :: "'t \<Rightarrow> bool" and cap :: nat
    and push :: "'t \<Rightarrow> 'r \<Rightarrow> 'r" and fetch :: "'r \<Rightarrow> 'p \<Rightarrow> ('t \<times> 'p) option"
  assumes push_law: "holds r p q \<Longrightarrow> valid t \<Longrightarrow> length q < cap \<Longrightarrow> holds (push t r) p (q @ [t])"
    and fetch_empty: "holds r p [] \<Longrightarrow> fetch r p = None"
    and fetch_head: "holds r p (t # q) \<Longrightarrow> \<exists>p'. fetch r p = Some (t, p') \<and> holds r p' q"
begin

lemma run_is_queue:
  "holds r p q \<Longrightarrow> list_all valid (posts ops) \<Longrightarrow> fits cap ops (length q) \<Longrightarrow>
   hw_run push fetch ops r p = queue_run ops q"
proof (induction ops q arbitrary: r p rule: queue_run.induct)
  case (2 t ops q)
  then show ?case using push_law [of r p q t] by simp
next
  case (3 ops)
  then show ?case using fetch_empty [of r p] by simp
next
  case (4 ops t q)
  then show ?case using fetch_head [of r p t q] by auto
qed simp

end

lemma ring_queue_push:
  assumes "ring_queue rm p q" "\<not> trb_cycle t" "\<not> trb_link t" "length q < 62"
  shows "ring_queue (trb_push t rm) p (q @ [t])"
proof -
  obtain r m where rm: "rm = (r, m)" by force
  obtain p0 p1 p2 ctl where t: "t = (p0, p1, p2, ctl)" by (cases t)
  obtain r' m' where e: "trb_push (p0, p1, p2, ctl) (r, m) = (r', m')" by force
  obtain n k where R: "trb_ring (r, m) n" and kn: "k \<le> n" "n - k \<le> 62" and p: "hc_place k p"
    and q: "q = map (\<lambda>j. trb_strip (trb_at m (r_base r) (j mod 63))) [k..<n]"
    using assms(1) rm by (auto simp: ring_queue_def)
  have ctl: "\<not> bit ctl 0" "\<not> trb_link (p0, p1, p2, ctl)" using assms(2,3) t by simp_all
  note P = trb_ring_push [OF R ctl e]
  have "trb_strip (trb_at m' (r_base r) (j mod 63)) = trb_strip (trb_at m (r_base r) (j mod 63))" if "j \<in> {k..<n}" for j
  proof -
    have "j mod 63 \<noteq> n mod 63"
    proof
      assume "j mod 63 = n mod 63"
      then have "63 dvd n - j" using that by (metis atLeastLessThan_iff less_or_eq_imp_le mod_eq_dvd_iff_nat)
      then show False using that kn by (auto dest: dvd_imp_le)
    qed
    then show ?thesis using P(4) [of "j mod 63"] by simp
  qed
  moreover have "trb_strip (trb_at m' (r_base r) (n mod 63)) = t" using P(4) [of "n mod 63"] t by simp
  ultimately have "q @ [t] = map (\<lambda>j. trb_strip (trb_at m' (r_base r') (j mod 63))) [k..<Suc n]"
    using kn P(2) by (simp add: q)
  moreover have "Suc n - k \<le> 62" using assms(4) q kn by simp
  ultimately show ?thesis using P(1) p kn unfolding ring_queue_def rm t e
    by (intro exI [of _ "Suc n"] exI [of _ k]) simp
qed

lemma hc_fetch_place:
  assumes R: "trb_ring (r, m) n" and kn: "k \<le> n" "n - k \<le> 62" and p: "hc_place k p"
  shows "hc_fetch (r, m) p =
     (if k < n then Some (trb_strip (trb_at m (r_base r) (k mod 63)), k mod 63 + 1, lap k) else None)"
proof -
  note s = lap_slot [OF R kn]
  show ?thesis
  proof (cases "p = (k mod 63, lap k)")
    case True
    then show ?thesis using s by (auto simp: hc_fetch_def hc_fetch1_def Let_def)
  next
    case False
    then have c: "0 < k" "k mod 63 = 0" "p = (63, \<not> lap k)" using p by (auto simp: hc_place_def)
    note l = lap_link [OF R kn c(1,2)]
    show ?thesis using s by (auto simp: hc_fetch_def hc_fetch1_def Let_def c l)
  qed
qed

lemma hc_place_next: "hc_place (Suc k) (k mod 63 + 1, lap k)"
  by (auto simp: hc_place_def lap_Suc mod_Suc)

interpretation tq: posted_queue ring_queue "\<lambda>t. \<not> trb_cycle t \<and> \<not> trb_link t" 62 trb_push hc_fetch
proof
  show "ring_queue (trb_push t r) p (q @ [t])"
    if "ring_queue r p q" "\<not> trb_cycle t \<and> \<not> trb_link t" "length q < 62" for r p q t
    using ring_queue_push that by blast
next
  fix rm p assume "ring_queue rm p []"
  then obtain n k where "trb_ring rm n" "k \<le> n" "n - k \<le> 62" "hc_place k p" "\<not> k < n"
    by (auto simp: ring_queue_def)
  then show "hc_fetch rm p = None" using hc_fetch_place [of "fst rm" "snd rm" n k p] by simp
next
  fix rm p t q assume "ring_queue rm p (t # q)"
  then obtain n k where R: "trb_ring rm n" "k \<le> n" "n - k \<le> 62" "hc_place k p"
    and q: "t # q = map (\<lambda>j. trb_strip (trb_at (snd rm) (r_base (fst rm)) (j mod 63))) [k..<n]"
    by (auto simp: ring_queue_def)
  have k: "k < n" using q by (cases "k < n") simp_all
  have "ring_queue rm (k mod 63 + 1, lap k) q"
    unfolding ring_queue_def using R q k hc_place_next [of k]
    by (intro exI [of _ n] exI [of _ "Suc k"]) (simp add: upt_conv_Cons)
  moreover have "hc_fetch rm p = Some (t, k mod 63 + 1, lap k)"
    using hc_fetch_place [of "fst rm" "snd rm" n k p] R q k by (simp add: upt_conv_Cons)
  ultimately show "\<exists>p'. hc_fetch rm p = Some (t, p') \<and> ring_queue rm p' q" by blast
qed

definition ring_fresh :: "ring \<Rightarrow> bytes \<Rightarrow> bool" where
  "ring_fresh r m \<longleftrightarrow> r_enq r = 0 \<and> r_cycle r = 1 \<and> mem_at m (r_base r) (replicate 1024 0)"

lemma ring_fresh_queue: "ring_fresh r m \<Longrightarrow> ring_queue (r, m) (0, True) []"
proof -
  assume f: "ring_fresh r m"
  have z: "trb_at m (r_base r) i = (0, 0, 0, 0)" if "i < 64" for i
  proof -
    have "m (r_base r + j) = 0" if "j < 1024" for j
      using f that by (simp add: ring_fresh_def mem_at_def)
    then have "rd32 m (r_base r + (i * 16 + j)) = rd32 (\<lambda>_. 0) (r_base r + (i * 16 + j))" if "j < 13" for j
      using that \<open>i < 64\<close> by (intro rd_cong(2)) (simp add: add.assoc)
    then have "rd32 m (r_base r + (i * 16 + j)) = 0" if "j < 13" for j using that by (simp add: rd32_def)
    from this [of 0] this [of 4] this [of 8] this [of 12] show ?thesis by (simp add: trb_at_def add.assoc)
  qed
  have "trb_ring (r, m) 0" using f by (simp add: trb_ring_def z lap_def ring_fresh_def TRB_LINK_def)
  then show "ring_queue (r, m) (0, True) []"
    by (auto simp: ring_queue_def hc_place_def lap_def intro!: exI [of _ 0])
qed

text \<open>A command or transfer ring on a page of zeros, as the driver sets it up, behaves as a queue
  of 62 blocks: however posting by the driver and fetching by the controller interleave (a
  block is posted at once: the code stores the word with the cycle bit last, behind a fence), and across any number of wrap-arounds, the controller gets the blocks in order, each once, unchanged
  but for the cycle bit, and finds the ring empty in between exactly if all have been fetched.\<close>

theorem ring_is_queue:
  assumes "ring_fresh r m" "list_all (\<lambda>t. \<not> trb_cycle t \<and> \<not> trb_link t) (posts ops)" "fits 62 ops 0"
  shows "hw_run trb_push hc_fetch ops (r, m) (0, True) = queue_run ops []"
  by (rule tq.run_is_queue [OF ring_fresh_queue [OF assms(1)]]) (use assms(2,3) in simp_all)

lemma ring_is_queue_witness:
  "\<exists>r m. hw_run trb_push hc_fetch [Post (7, 0, 8, 0x400), Take, Take] (r, m) (0, True) = [Some (7, 0, 8, 0x400), None]"
proof -
  let ?r = "\<lparr>r_phys = 4096, r_base = 4096, r_enq = 0, r_cycle = 1\<rparr>"
  have b: "\<not> bit (0x400 :: u32) 0" "drop_bit 10 (0x400 :: u32) AND 0x3F = 1" by code_simp+
  have f: "ring_fresh ?r (\<lambda>_. 0)" by (simp add: ring_fresh_def mem_at_def)
  show ?thesis using ring_is_queue [OF f, of "[Post (7, 0, 8, 0x400), Take, Take]"] b
    by (intro exI [of _ ?r] exI [of _ "\<lambda>_. 0"]) (simp add: TRB_LINK_def)
qed

end
