(* ===== verification/UsbConfig.thy ===== *)
theory UsbConfig
  imports Prelude
begin

text \<open>
  The parts of \<^verbatim>\<open>drivers/usb_xhci_mouse.c\<close> that touch no hardware: packet sizes by speed, the polling interval
  and the search of a configuration descriptor for an input endpoint.  The descriptor is a list of
  bytes; the loop cuts it into the pieces it announces itself, and a piece is only read where its
  length has been tested, which the slices \<open>take dlen (drop i cfg)\<close> make visible.
\<close>

definition speed_default_mps :: "nat \<Rightarrow> nat" where
  "speed_default_mps spd =
     (if spd = 1 then 8 else if spd = 2 then 8 else if spd = 3 then 64 else if spd = 4 \<or> spd = 5 then 512 else 8)"

definition speed_name :: "nat \<Rightarrow> string" where
  "speed_name spd =
     (if spd = 1 then ''FS'' else if spd = 2 then ''LS'' else if spd = 3 then ''HS'' else if spd = 4 then ''SS''
      else if spd = 5 then ''SSP'' else ''?'')"

function interval_loop :: "nat \<Rightarrow> nat \<Rightarrow> nat" where
  "interval_loop val e = (if 2 ^ e < val \<and> e < 15 then interval_loop val (e + 1) else e)"
  by pat_completeness auto
termination
  by (relation "measure (\<lambda>(val, e). 15 - e)") auto

declare interval_loop.simps [simp del]

definition compute_interval_exp :: "nat \<Rightarrow> nat \<Rightarrow> nat" where
  "compute_interval_exp interval speed =
     (if speed = 1 \<or> speed = 2
      then let x = (if interval \<noteq> 0 then interval else 10); val = x * 8 in interval_loop val 0 + 3
      else let x = (if interval \<noteq> 0 then interval else 4) in if x > 0 then x - 1 else 0)"

record epinfo =
  g_iface_num :: u8
  g_iface_alt :: u8
  g_ep_in_addr :: u8
  g_ep_in_xhci_idx :: nat
  g_int_mps :: nat
  g_ep_in_interval :: u8

record cfg_scan =
  found_boot :: bool
  found_any :: bool
  cur_iface :: u8
  cur_alt :: u8
  cur_is_hid_mouse :: bool
  cur_is_hid_any :: bool
  c_info :: epinfo

definition ep_info :: "u8 list \<Rightarrow> cfg_scan \<Rightarrow> epinfo" where
  "ep_info d s =
     \<lparr>g_iface_num = cur_iface s, g_iface_alt = cur_alt s, g_ep_in_addr = d ! 2,
      g_ep_in_xhci_idx = unat (d ! 2 AND 0x0F) * 2 + 1,
      g_int_mps = (unat (d ! 4) + unat (d ! 5) * 256) mod 2048, g_ep_in_interval = d ! 6\<rparr>"

definition is_int_in :: "u8 list \<Rightarrow> bool" where
  "is_int_in d \<longleftrightarrow> d ! 3 AND 0x03 = 0x03 \<and> d ! 2 AND 0x80 \<noteq> 0"

definition cfg_step :: "u8 list \<Rightarrow> cfg_scan \<Rightarrow> cfg_scan" where
  "cfg_step d s =
     (if d ! 1 = 0x04 \<and> length d \<ge> 9
      then s\<lparr>cur_iface := d ! 2, cur_alt := d ! 3, cur_is_hid_any := (d ! 5 = 3),
             cur_is_hid_mouse := (d ! 5 = 3 \<and> d ! 6 = 1 \<and> d ! 7 = 2)\<rparr>
      else if d ! 1 = 0x05 \<and> length d \<ge> 7
      then (if is_int_in d
            then (if cur_is_hid_mouse s \<and> \<not> found_boot s
                  then s\<lparr>c_info := ep_info d s, found_boot := True, found_any := True\<rparr>
                  else if cur_is_hid_any s \<and> \<not> found_any s then s\<lparr>c_info := ep_info d s, found_any := True\<rparr>
                  else s)
            else s)
      else s)"

function cfg_loop :: "u8 list \<Rightarrow> nat \<Rightarrow> cfg_scan \<Rightarrow> cfg_scan" where
  "cfg_loop cfg i s =
     (if i + 2 \<le> length cfg
      then let dlen = unat (cfg ! i)
           in if dlen < 2 \<or> i + dlen > length cfg then s
              else cfg_loop cfg (i + dlen) (cfg_step (take dlen (drop i cfg)) s)
      else s)"
  by pat_completeness auto
termination
  by (relation "measure (\<lambda>(cfg, i, s). length cfg - i)") auto

declare cfg_loop.simps [simp del]

definition parse_config :: "u8 list \<Rightarrow> u8 \<times> epinfo \<Rightarrow> bool \<times> u8 \<times> epinfo" where
  "parse_config cfg old =
     (if length cfg < 9 then (False, old)
      else let s = cfg_loop cfg 9
             \<lparr>found_boot = False, found_any = False, cur_iface = 0xFF, cur_alt = 0, cur_is_hid_mouse = False,
              cur_is_hid_any = False, c_info = snd old\<rparr>
           in (found_any s, cfg ! 5, c_info s))"

section \<open>Interval\<close>

lemma interval_loop_min:
  "e \<le> 15 \<Longrightarrow> (\<forall>k < e. 2 ^ k < val) \<Longrightarrow>
   interval_loop val e \<le> 15 \<and> (\<forall>k < interval_loop val e. 2 ^ k < val) \<and>
     (interval_loop val e < 15 \<longrightarrow> val \<le> 2 ^ interval_loop val e)"
proof (induction val e rule: interval_loop.induct)
  case (1 val e)
  show ?case
  proof (cases "2 ^ e < val \<and> e < 15")
    case True
    then have "\<forall>k < e + 1. 2 ^ k < val" using "1.prems" by (simp add: less_Suc_eq)
    with "1.IH" [OF True] True show ?thesis by (subst (1 2 3 4) interval_loop.simps) simp
  next
    case False
    then show ?thesis using "1.prems" by (subst (1 2 3 4) interval_loop.simps) auto
  qed
qed

text \<open>The interval of a slow device is documented as the binary logarithm of eight times the one it
  asks for; the code adds three to that logarithm although it has multiplied by eight already, so
  the device is asked eight times too rarely.\<close>

lemma interval_eight_times:
  assumes "0 < x" "x < 256" "speed = 1 \<or> speed = 2"
  shows "8 * x \<le> 2 ^ (compute_interval_exp x speed - 3)"
    "\<forall>k. 8 * x \<le> 2 ^ k \<longrightarrow> k + 3 \<ge> compute_interval_exp x speed"
proof -
  have c: "compute_interval_exp x speed = interval_loop (x * 8) 0 + 3"
    using assms by (auto simp: compute_interval_exp_def Let_def)
  note m = interval_loop_min [of 0 "x * 8", simplified]
  show "8 * x \<le> 2 ^ (compute_interval_exp x speed - 3)"
  proof (cases "interval_loop (x * 8) 0 < 15")
    case True
    then show ?thesis using m by (simp add: c mult.commute)
  next
    case False
    then have "interval_loop (x * 8) 0 = 15" using m by simp
    then show ?thesis using assms(2) by (simp add: c)
  qed
  show "\<forall>k. 8 * x \<le> 2 ^ k \<longrightarrow> k + 3 \<ge> compute_interval_exp x speed"
    using m by (auto simp: c mult.commute not_less [symmetric])
qed

section \<open>The endpoint that is chosen\<close>

text \<open>The descriptors a configuration consists of, each with the length it gives itself, up to the
  first that does not fit.\<close>

function descs :: "u8 list \<Rightarrow> u8 list list" where
  "descs bs =
     (if length bs < 2 then []
      else let dlen = unat (bs ! 0) in if dlen < 2 \<or> dlen > length bs then [] else take dlen bs # descs (drop dlen bs))"
  by pat_completeness auto
termination
  by (relation "measure length") auto

declare descs.simps [simp del]

text \<open>The interrupt input endpoints of HID interfaces in order, each with the flag that its interface
  is a boot mouse; the first argument is the interface in force.\<close>

fun hid_inputs :: "u8 \<times> u8 \<times> bool \<times> bool \<Rightarrow> u8 list list \<Rightarrow> (bool \<times> epinfo) list" where
  "hid_inputs ctx [] = []"
| "hid_inputs (ifc, alt, mouse, hid) (d # ds) =
     (if d ! 1 = 0x04 \<and> length d \<ge> 9
      then hid_inputs (d ! 2, d ! 3, d ! 5 = 3 \<and> d ! 6 = 1 \<and> d ! 7 = 2, d ! 5 = 3) ds
      else if d ! 1 = 0x05 \<and> length d \<ge> 7 \<and> is_int_in d \<and> hid
      then (mouse, \<lparr>g_iface_num = ifc, g_iface_alt = alt, g_ep_in_addr = d ! 2,
              g_ep_in_xhci_idx = unat (d ! 2 AND 0x0F) * 2 + 1,
              g_int_mps = (unat (d ! 4) + unat (d ! 5) * 256) mod 2048, g_ep_in_interval = d ! 6\<rparr>)
           # hid_inputs (ifc, alt, mouse, hid) ds
      else hid_inputs (ifc, alt, mouse, hid) ds)"

definition preferred :: "(bool \<times> epinfo) list \<Rightarrow> epinfo \<Rightarrow> epinfo" where
  "preferred cs old =
     (case List.find fst cs of Some c \<Rightarrow> snd c | None \<Rightarrow> (case cs of [] \<Rightarrow> old | c # _ \<Rightarrow> snd c))"

lemma cfg_loop_fold: "i \<le> length cfg \<Longrightarrow> cfg_loop cfg i s = fold cfg_step (descs (drop i cfg)) s"
proof (induction cfg i s rule: cfg_loop.induct)
  case (1 cfg i s)
  define dlen where "dlen = unat (cfg ! i)"
  show ?case
  proof (cases "i + 2 \<le> length cfg \<and> \<not> (dlen < 2 \<or> i + dlen > length cfg)")
    case True
    then have h: "drop i cfg ! 0 = cfg ! i" "\<not> length cfg - i < dlen" by (simp, linarith)
    have "cfg_loop cfg (i + dlen) (cfg_step (take dlen (drop i cfg)) s) =
        fold cfg_step (descs (drop (i + dlen) cfg)) (cfg_step (take dlen (drop i cfg)) s)"
      using "1.IH" [OF _ dlen_def] True by simp
    then show ?thesis using True h
      by (subst cfg_loop.simps, subst descs.simps) (simp add: dlen_def [symmetric] Let_def add.commute)
  next
    case False
    then have "descs (drop i cfg) = []"
      using "1.prems" by (subst descs.simps) (auto simp: dlen_def Let_def)
    moreover have "cfg_loop cfg i s = s" using False by (subst cfg_loop.simps) (auto simp: dlen_def Let_def)
    ultimately show ?thesis by simp
  qed
qed

lemma cfg_fold_inputs:
  fixes s :: cfg_scan
  assumes "cur_is_hid_mouse s \<longrightarrow> cur_is_hid_any s" "found_boot s \<longrightarrow> found_any s"
  defines "cs \<equiv> \<lambda>s. hid_inputs (cur_iface s, cur_alt s, cur_is_hid_mouse s, cur_is_hid_any s)"
  shows "found_any (fold cfg_step ds s) = (found_any s \<or> cs s ds \<noteq> []) \<and>
    c_info (fold cfg_step ds s) =
       (if found_boot s then c_info s
        else case List.find fst (cs s ds) of Some c \<Rightarrow> snd c
          | None \<Rightarrow> if found_any s then c_info s else (case cs s ds of [] \<Rightarrow> c_info s | c # _ \<Rightarrow> snd c))"
  using assms(1,2) unfolding cs_def
proof (induction ds arbitrary: s)
  case (Cons d ds)
  have k: "cur_is_hid_mouse (cfg_step d s) \<longrightarrow> cur_is_hid_any (cfg_step d s)" "found_boot (cfg_step d s) \<longrightarrow> found_any (cfg_step d s)"
    using Cons.prems by (auto simp: cfg_step_def)
  consider (iface) "d ! 1 = 0x04" "length d \<ge> 9"
    | (input) "\<not> (d ! 1 = 0x04 \<and> length d \<ge> 9)" "d ! 1 = 0x05" "length d \<ge> 7" "is_int_in d" "cur_is_hid_any s"
    | (other) "\<not> (d ! 1 = 0x04 \<and> length d \<ge> 9)" "\<not> (d ! 1 = 0x05 \<and> length d \<ge> 7 \<and> is_int_in d \<and> cur_is_hid_any s)"
    by blast
  then show ?case
  proof cases
    case iface
    then have e: "cfg_step d s = s\<lparr>cur_iface := d ! 2, cur_alt := d ! 3, cur_is_hid_any := (d ! 5 = 3),
             cur_is_hid_mouse := (d ! 5 = 3 \<and> d ! 6 = 1 \<and> d ! 7 = 2)\<rparr>" by (simp add: cfg_step_def)
    define s1 where "s1 = cfg_step d s"
    have "cur_iface s1 = d ! 2" "cur_alt s1 = d ! 3" "cur_is_hid_any s1 = (d ! 5 = 3)"
      "cur_is_hid_mouse s1 = (d ! 5 = 3 \<and> d ! 6 = 1 \<and> d ! 7 = 2)" "c_info s1 = c_info s"
      "found_any s1 = found_any s" "found_boot s1 = found_boot s"
      by (simp_all add: s1_def e)
    then show ?thesis using Cons.IH [OF k] iface by (simp only: fold_simps comp_apply s1_def [symmetric] hid_inputs.simps) simp
  next
    case input
    then have e: "cfg_step d s = (if cur_is_hid_mouse s \<and> \<not> found_boot s
          then s\<lparr>c_info := ep_info d s, found_boot := True, found_any := True\<rparr>
        else if \<not> found_any s then s\<lparr>c_info := ep_info d s, found_any := True\<rparr> else s)" by (simp add: cfg_step_def)
    show ?thesis using Cons.IH [OF k] Cons.prems input unfolding fold_simps e
      by (cases "cur_is_hid_mouse s"; cases "found_boot s"; cases "found_any s")
        (simp_all add: ep_info_def split: option.splits list.splits)
  next
    case other
    then have "cfg_step d s = s" using Cons.prems by (auto simp: cfg_step_def)
    moreover have "hid_inputs (cur_iface s, cur_alt s, cur_is_hid_mouse s, cur_is_hid_any s) (d # ds) =
        hid_inputs (cur_iface s, cur_alt s, cur_is_hid_mouse s, cur_is_hid_any s) ds" using other by auto
    ultimately show ?thesis using Cons.IH [OF Cons.prems] by (simp only: fold_simps comp_apply)
  qed
qed simp

text \<open>Whatever bytes a device sends as its configuration, the search ends, reads only inside the
  descriptors that fit, and chooses the first interrupt input endpoint of a boot mouse; without
  one the first of any HID interface; it fails exactly if there is none.\<close>

theorem parse_config_picks:
  assumes "9 \<le> length cfg"
  shows "parse_config cfg old =
    (let cs = hid_inputs (0xFF, 0, False, False) (descs (drop 9 cfg)) in (cs \<noteq> [], cfg ! 5, preferred cs (snd old)))"
proof -
  let ?s = "\<lparr>found_boot = False, found_any = False, cur_iface = 0xFF, cur_alt = 0, cur_is_hid_mouse = False,
              cur_is_hid_any = False, c_info = snd old\<rparr>"
  have "cfg_loop cfg 9 ?s = fold cfg_step (descs (drop 9 cfg)) ?s" by (rule cfg_loop_fold [OF assms])
  then show ?thesis
    using assms cfg_fold_inputs [of ?s "descs (drop 9 cfg)"]
    by (simp add: parse_config_def Let_def preferred_def split: option.splits list.splits)
qed

definition example_cfg_desc :: "u8 list" where
  "example_cfg_desc = [9, 2, 34, 0, 1, 1, 0, 0x80, 50, 9, 4, 0, 0, 1, 3, 1, 2, 0, 9, 0x21, 0x11, 1, 0, 1, 0x22, 52, 0,
     7, 5, 0x81, 3, 4, 0, 10]"

lemma parse_config_picks_witness:
  "\<exists>old. fst (parse_config example_cfg_desc old) \<and> g_ep_in_xhci_idx (snd (snd (parse_config example_cfg_desc old))) = 3"
proof -
  have l: "9 \<le> length example_cfg_desc" by (simp add: example_cfg_desc_def)
  show ?thesis
    using parse_config_picks [OF l]
    by (simp add: example_cfg_desc_def descs.simps Let_def is_int_in_def preferred_def)
qed

end
