(* ===== verification/Processor.thy ===== *)
theory Processor
  imports Prelude
begin

text \<open>
  What the kernel programs into the processor and the interrupt controllers
  (\<^verbatim>\<open>arch/x86_64/gdt.c\<close>, \<^verbatim>\<open>idt.c\<close>, \<^verbatim>\<open>apic.c\<close>, \<^verbatim>\<open>ioapic.c\<close>, \<^verbatim>\<open>pit.c\<close>, \<^verbatim>\<open>pic.c\<close>, \<^verbatim>\<open>simd.c\<close>, \<^verbatim>\<open>hypervisor.c\<close>): the packed
  descriptors, the gates, the redirection entries and the timer count.  The theorems decode these
  values the way the processor does and show that it gets what was meant.  Instructions that load
  a register have no counterpart; control registers and controller registers are fields of a
  record, \<^verbatim>\<open>cpuid\<close> and the values read from the hardware are parameters.
\<close>

section \<open>Segments\<close>

record gdt_entry =
  limit_lo :: u16
  base_lo :: u16
  base_mid :: u8
  access :: u8
  flags_limit_hi :: u8
  base_hi :: u8

record gdt_tss_entry = gdt_entry +
  base_upper :: u32
  reserved :: u32

record tss =
  rsp0 :: u64
  rsp1 :: u64
  rsp2 :: u64
  ist :: "u64 list"
  iopb_offset :: u16

record gdt =
  gdt_entries :: "gdt_entry list"
  gdt_tss :: gdt_tss_entry
  kernel_tss :: tss
  gdt_limit :: u16

definition GDT_KERNEL_CODE :: u16 where "GDT_KERNEL_CODE = 0x08"
definition GDT_KERNEL_DATA :: u16 where "GDT_KERNEL_DATA = 0x10"
definition GDT_USER_CODE :: u16 where "GDT_USER_CODE = 0x18"
definition GDT_USER_DATA :: u16 where "GDT_USER_DATA = 0x20"
definition TSS_SIZE :: u32 where "TSS_SIZE = 104"

definition set_entry :: "u8 \<Rightarrow> u8 \<Rightarrow> gdt_entry" where
  "set_entry acc flags =
     \<lparr>limit_lo = 0, base_lo = 0, base_mid = 0, access = acc, flags_limit_hi = flags AND 0xF0, base_hi = 0\<rparr>"

definition set_tss_entry :: "u64 \<Rightarrow> u32 \<Rightarrow> gdt_tss_entry" where
  "set_tss_entry base limit =
     \<lparr>limit_lo = ucast (limit AND 0xFFFF), base_lo = ucast (base AND 0xFFFF),
      base_mid = ucast (drop_bit 16 base AND 0xFF), access = 0x89,
      flags_limit_hi = ucast (drop_bit 16 limit AND 0x0F), base_hi = ucast (drop_bit 24 base AND 0xFF),
      base_upper = ucast (drop_bit 32 base), reserved = 0\<rparr>"

definition tss_set_kernel_stack :: "u64 \<Rightarrow> gdt \<Rightarrow> gdt" where
  "tss_set_kernel_stack sp g = g\<lparr>kernel_tss := (kernel_tss g)\<lparr>rsp0 := sp\<rparr>\<rparr>"

text \<open>The addresses of the boot stack and of \<^verbatim>\<open>kernel_tss\<close> are the linker's.\<close>

definition gdt_init :: "u64 \<Rightarrow> u64 \<Rightarrow> gdt" where
  "gdt_init kernel_stack tss_addr =
     \<lparr>gdt_entries = [set_entry 0x00 0x00, set_entry 0x9A 0xA0, set_entry 0x92 0xA0,
        set_entry 0xFA 0xA0, set_entry 0xF2 0xA0],
      gdt_tss = set_tss_entry tss_addr (TSS_SIZE - 1),
      kernel_tss = \<lparr>rsp0 = kernel_stack + 16 * 1024, rsp1 = 0, rsp2 = 0, ist = replicate 7 0,
        iopb_offset = ucast TSS_SIZE\<rparr>,
      gdt_limit = 5 * 8 + 16 - 1\<rparr>"

section \<open>Gates\<close>

record idt_entry =
  offset_lo :: u16
  selector :: u16
  gate_ist :: u8
  type_attr :: u8
  offset_mid :: u16
  offset_hi :: u32
  gate_reserved :: u32

definition idt_gate :: "u64 \<Rightarrow> u8 \<Rightarrow> idt_entry" where
  "idt_gate addr attr =
     \<lparr>offset_lo = ucast (addr AND 0xFFFF), selector = GDT_KERNEL_CODE, gate_ist = 0, type_attr = attr,
      offset_mid = ucast (drop_bit 16 addr AND 0xFFFF), offset_hi = ucast (drop_bit 32 addr AND 0xFFFFFFFF),
      gate_reserved = 0\<rparr>"

definition idt_set :: "nat \<Rightarrow> u64 \<Rightarrow> u8 \<Rightarrow> idt_entry list \<Rightarrow> idt_entry list" where
  "idt_set vec handler attr idt = idt[vec := idt_gate handler attr]"

definition idt_init :: "u64 list \<Rightarrow> idt_entry list \<Rightarrow> idt_entry list" where
  "idt_init stubs idt =
     fold (\<lambda>i. idt_set i (stubs ! i) (if i = 3 then 0xEE else 0x8E)) [0..<48] idt"

section \<open>Local and I/O interrupt controllers\<close>

record lapic =
  lregs :: "nat \<Rightarrow> u32"
  apic_base_msr :: u64
  timer_hz :: u32
  tsc_hz :: u64
  port_writes :: "(u16 \<times> u8) list"

definition lapic_write :: "nat \<Rightarrow> u32 \<Rightarrow> lapic \<Rightarrow> lapic" where
  "lapic_write reg v s = s\<lparr>lregs := (lregs s)(reg := v)\<rparr>"

definition LAPIC_TPR :: nat where "LAPIC_TPR = 0x080"
definition LAPIC_SVR :: nat where "LAPIC_SVR = 0x0F0"
definition LAPIC_LVT_TIMER :: nat where "LAPIC_LVT_TIMER = 0x320"
definition LAPIC_TIMER_INITCNT :: nat where "LAPIC_TIMER_INITCNT = 0x380"
definition LAPIC_TIMER_DIV :: nat where "LAPIC_TIMER_DIV = 0x3E0"
definition LAPIC_SPURIOUS_VECTOR :: nat where "LAPIC_SPURIOUS_VECTOR = 0xFF"
definition LAPIC_TIMER_VECTOR :: nat where "LAPIC_TIMER_VECTOR = 0x20"

definition lapic_enable_local :: "lapic \<Rightarrow> lapic" where
  "lapic_enable_local s =
     lapic_write LAPIC_TPR 0
       (lapic_write LAPIC_SVR (push_bit 8 1 OR of_nat LAPIC_SPURIOUS_VECTOR)
         (s\<lparr>apic_base_msr := apic_base_msr s OR push_bit 11 1\<rparr>))"

text \<open>The port writes of \<^verbatim>\<open>pit_prepare_oneshot\<close> in order, after the read of port 0x61, and the wait
  for the output pin; \<open>reads n\<close> is what the \<open>n\<close>-th read of port 0x61 returns, the first of them being
  the one of the preparation.\<close>

definition pit_prepare_oneshot :: "u8 \<Rightarrow> u16 \<Rightarrow> (u16 \<times> u8) list" where
  "pit_prepare_oneshot portb ticks =
     [(0x61, (portb AND NOT 2) OR 1), (0x43, 0xB0), (0x42, ucast (ticks AND 0xFF)),
      (0x42, ucast (drop_bit 8 ticks AND 0xFF))]"

definition pit_oneshot_done :: "u8 \<Rightarrow> bool" where
  "pit_oneshot_done portb \<longleftrightarrow> portb AND 0x20 \<noteq> 0"

partial_function (option) pit_wait :: "(nat \<Rightarrow> u8) \<Rightarrow> nat \<Rightarrow> nat option" where
  "pit_wait reads n = (if \<not> pit_oneshot_done (reads n) then pit_wait reads (n + 1) else Some n)"

definition PIT_FREQUENCY :: u32 where "PIT_FREQUENCY = 1193182"

definition timer_hz_floor :: "u32 \<Rightarrow> u32" where
  "timer_hz_floor hz = (if hz < 100 then 100 else hz)"

definition timer_consumed :: "u32 \<Rightarrow> u32" where
  "timer_consumed remaining =
     (let consumed = 0xFFFFFFFF - remaining in if consumed < 500 then 200000 else consumed)"

definition timer_count :: "u32 \<Rightarrow> u32 \<Rightarrow> u32" where
  "timer_count consumed hz =
     (let wide = (ucast consumed * 100 :: u64) div ucast hz;
          c_fast = (ucast consumed * 100 :: u64) div 10000;
          c_slow = (ucast consumed * 100 :: u64) div 40;
          c_fast = (if c_fast < 32 then 32 else c_fast);
          c_slow = (if c_slow < c_fast + 1 then c_fast + 1000 else c_slow);
          wide = (if wide < c_fast then c_fast else wide);
          wide = (if wide > c_slow then c_slow else wide)
      in ucast wide)"

definition lapic_timer_init ::
  "(nat \<Rightarrow> u8) \<Rightarrow> (nat \<Rightarrow> u32) \<Rightarrow> (nat \<Rightarrow> u64 \<times> u64) \<Rightarrow> u32 \<Rightarrow> lapic \<Rightarrow> lapic option" where
  "lapic_timer_init reads remaining tsc hz s =
     (let s0 = lapic_write LAPIC_TIMER_DIV 3 s;
          pit_ticks = ucast (PIT_FREQUENCY div 100);
          s0 = s0\<lparr>port_writes := port_writes s0 @ pit_prepare_oneshot (reads 0) pit_ticks\<rparr>;
          s1 = lapic_write LAPIC_TIMER_INITCNT 0xFFFFFFFF s0
      in case pit_wait reads 1 of None \<Rightarrow> None
      | Some n \<Rightarrow>
          let hz' = timer_hz_floor hz;
              count = timer_count (timer_consumed (remaining n)) hz';
              s2 = lapic_write LAPIC_TIMER_INITCNT count
                     (lapic_write LAPIC_LVT_TIMER (of_nat LAPIC_TIMER_VECTOR OR push_bit 17 1) s1);
              (tsc_start, tsc_end) = tsc n
          in Some (s2\<lparr>timer_hz := hz', tsc_hz := (tsc_end - tsc_start) * 100\<rparr>))"

record ioapic =
  ioregsel :: u32
  iowin :: "u32 \<Rightarrow> u32"

definition ioapic_write :: "u32 \<Rightarrow> u32 \<Rightarrow> ioapic \<Rightarrow> ioapic" where
  "ioapic_write reg v s =
     (let s1 = s\<lparr>ioregsel := reg\<rparr> in s1\<lparr>iowin := (iowin s1)(ioregsel s1 := v)\<rparr>)"

definition irq_low :: "u8 \<Rightarrow> bool \<Rightarrow> bool \<Rightarrow> u32" where
  "irq_low vector level_trigger low_active =
     (let low = (ucast vector :: u32);
          low = (if low_active then low OR push_bit 13 1 else low)
      in if level_trigger then low OR push_bit 15 1 else low)"

definition ioapic_set_irq_extended :: "u8 \<Rightarrow> u8 \<Rightarrow> u8 \<Rightarrow> bool \<Rightarrow> bool \<Rightarrow> ioapic \<Rightarrow> ioapic" where
  "ioapic_set_irq_extended gsi vector destination level_trigger low_active s =
     (let low = irq_low vector level_trigger low_active;
          high = push_bit 24 (ucast destination :: u32);
          reg = 0x10 + ucast gsi * 2
      in ioapic_write (reg + 1) high (ioapic_write reg low s))"

text \<open>The writes \<^verbatim>\<open>pic_disable\<close> sends to the two legacy controllers, without the delays.\<close>

definition pic_disable :: "(u16 \<times> u8) list" where
  "pic_disable =
     [(0x20, 0x11), (0xA0, 0x11), (0x21, 0x20), (0xA1, 0x28), (0x21, 0x04), (0xA1, 0x02),
      (0x21, 0x01), (0xA1, 0x01), (0x21, 0xFF), (0xA1, 0xFF)]"

section \<open>Features\<close>

type_synonym cpuid = "u32 \<Rightarrow> u32 \<Rightarrow> u32 \<times> u32 \<times> u32 \<times> u32"

record simd_regs =
  cr0 :: u64
  cr4 :: u64
  xcr0 :: u64
  g_simd_sse2 :: bool
  g_simd_avx :: bool
  g_simd_avx2 :: bool

definition simd_cpu_init :: "cpuid \<Rightarrow> bool \<Rightarrow> simd_regs \<Rightarrow> simd_regs" where
  "simd_cpu_init cpuid is_bsp s =
     (let (a1, b1, c1, d1) = cpuid 1 0;
          hsse2 = bit d1 26; hxsave = bit c1 26; havx = bit c1 28;
          (a7, b7, c7, d7) = cpuid 7 0;
          havx2 = bit b7 5;
          s1 = s\<lparr>cr0 := (cr0 s AND NOT (push_bit 2 1)) OR push_bit 1 1\<rparr>;
          v4 = cr4 s1 OR (push_bit 9 1 OR push_bit 10 1);
          s2 = s1\<lparr>cr4 := (if hxsave then v4 OR push_bit 18 1 else v4)\<rparr>;
          enable_avx = (havx \<and> hxsave);
          enable_avx2 = (havx2 \<and> enable_avx);
          s3 = (if enable_avx then s2\<lparr>xcr0 := xcr0 s2 OR (push_bit 0 1 OR push_bit 1 1 OR push_bit 2 1)\<rparr> else s2)
      in if is_bsp then s3\<lparr>g_simd_sse2 := hsse2, g_simd_avx := enable_avx, g_simd_avx2 := enable_avx2\<rparr>
         else s3)"

definition u32_to_sig4 :: "u32 \<Rightarrow> u8 list" where
  "u32_to_sig4 u = [ucast (u AND 0xFF), ucast (drop_bit 8 u AND 0xFF), ucast (drop_bit 16 u AND 0xFF),
     ucast (drop_bit 24 u AND 0xFF)]"

definition vb_sig :: "u8 list" where
  "vb_sig = [0x56, 0x42, 0x6F, 0x78, 0x56, 0x42, 0x6F, 0x78, 0x56, 0x42, 0x6F, 0x78]"

definition hypervisor_is_virtualbox :: "cpuid \<Rightarrow> bool" where
  "hypervisor_is_virtualbox cpuid =
     (let (a, b, c, d) = cpuid 1 0
      in if c AND push_bit 31 1 = 0 then False
         else let (a, b, c, d) = cpuid 0x40000000 0;
                  sg = u32_to_sig4 b @ u32_to_sig4 c @ u32_to_sig4 d
         in list_all (\<lambda>i. sg ! i = vb_sig ! i) [0..<12])"

section \<open>What the processor decodes\<close>

definition tss_base :: "gdt_tss_entry \<Rightarrow> u64" where
  "tss_base e = ucast (base_lo e) OR push_bit 16 (ucast (base_mid e)) OR push_bit 24 (ucast (base_hi e)) OR
     push_bit 32 (ucast (base_upper e))"

definition tss_limit :: "gdt_tss_entry \<Rightarrow> u32" where
  "tss_limit e = ucast (limit_lo e) OR push_bit 16 (ucast (flags_limit_hi e AND 0x0F))"

definition gate_offset :: "idt_entry \<Rightarrow> u64" where
  "gate_offset g = ucast (offset_lo g) OR push_bit 16 (ucast (offset_mid g)) OR push_bit 32 (ucast (offset_hi g))"

definition privilege :: "u8 \<Rightarrow> nat" where
  "privilege attr = unat (drop_bit 5 attr AND 3)"

lemma low_mask_bits:
  "bit (0xF :: 'a :: len word) n \<longleftrightarrow> n < 4 \<and> n < LENGTH('a)"
  "bit (0xFF :: 'a word) n \<longleftrightarrow> n < 8 \<and> n < LENGTH('a)"
  "bit (0xFFFF :: 'a word) n \<longleftrightarrow> n < 16 \<and> n < LENGTH('a)"
  "bit (0xFFFFFFFF :: 'a word) n \<longleftrightarrow> n < 32 \<and> n < LENGTH('a)"
proof -
  have "(0xF :: 'a word) = mask 4" "(0xFF :: 'a word) = mask 8" "(0xFFFF :: 'a word) = mask 16"
    "(0xFFFFFFFF :: 'a word) = mask 32"
    by (simp_all add: mask_eq_exp_minus_1)
  then show "bit (0xF :: 'a :: len word) n \<longleftrightarrow> n < 4 \<and> n < LENGTH('a)"
    "bit (0xFF :: 'a word) n \<longleftrightarrow> n < 8 \<and> n < LENGTH('a)"
    "bit (0xFFFF :: 'a word) n \<longleftrightarrow> n < 16 \<and> n < LENGTH('a)"
    "bit (0xFFFFFFFF :: 'a word) n \<longleftrightarrow> n < 32 \<and> n < LENGTH('a)"
    by (simp_all only: bit_mask_iff possible_bit_word) auto
qed

lemmas field_bits = bit_or_iff bit_push_bit_iff bit_ucast_iff bit_and_iff bit_drop_bit_eq o_def
  low_mask_bits possible_bit_word

lemma tss_base_entry: "tss_base (set_tss_entry base limit) = base"
  unfolding tss_base_def set_tss_entry_def gdt_entry.simps gdt_tss_entry.simps
  by (rule bit_eqI, unfold field_bits, rename_tac n, case_tac "n < 16"; case_tac "n < 24"; case_tac "n < 32")
    auto

lemma tss_limit_entry: "tss_limit (set_tss_entry base limit) = take_bit 20 limit"
  unfolding tss_limit_def set_tss_entry_def gdt_entry.simps gdt_tss_entry.simps
  by (rule bit_eqI, unfold field_bits bit_take_bit_iff, rename_tac n, case_tac "n < 16") auto

lemma gate_offset_gate: "gate_offset (idt_gate addr attr) = addr"
  unfolding gate_offset_def idt_gate_def idt_entry.simps
  by (rule bit_eqI, unfold field_bits, rename_tac n, case_tac "n < 16"; case_tac "n < 32") auto

text \<open>The segments are what the selectors promise: the kernel's code and data descriptors have
  privilege 0, the user's privilege 3, the task state descriptor decodes to the address and the last
  byte of \<^verbatim>\<open>kernel_tss\<close>, and the stack an interrupt from user mode switches to starts at the top of the
  boot stack.\<close>

theorem gdt_init_correct:
  defines "sel \<equiv> \<lambda>g s. gdt_entries g ! (unat (s :: u16) div 8)"
  shows "let g = gdt_init stk addr in
    privilege (access (sel g GDT_KERNEL_CODE)) = 0 \<and> bit (access (sel g GDT_KERNEL_CODE)) 3 \<and>
    privilege (access (sel g GDT_KERNEL_DATA)) = 0 \<and> \<not> bit (access (sel g GDT_KERNEL_DATA)) 3 \<and>
    privilege (access (sel g GDT_USER_CODE)) = 3 \<and> bit (access (sel g GDT_USER_CODE)) 3 \<and>
    privilege (access (sel g GDT_USER_DATA)) = 3 \<and> \<not> bit (access (sel g GDT_USER_DATA)) 3 \<and>
    tss_base (gdt_tss g) = addr \<and> unat (tss_limit (gdt_tss g)) = 103 \<and> rsp0 (kernel_tss g) = stk + 0x4000"
  unfolding gdt_init_def Let_def sel_def gdt.simps tss_base_entry tss_limit_entry
  by (simp add: GDT_KERNEL_CODE_def GDT_KERNEL_DATA_def GDT_USER_CODE_def GDT_USER_DATA_def
      set_entry_def privilege_def TSS_SIZE_def bit_numeral_simps take_bit_eq_mask mask_eq_exp_minus_1)

section \<open>Gates\<close>

lemma idt_fold:
  "n \<le> length idt \<Longrightarrow>
   fold (\<lambda>i. idt_set i (stubs ! i) (if i = 3 then 0xEE else 0x8E)) [0..<n] idt =
     map (\<lambda>i. idt_gate (stubs ! i) (if i = 3 then 0xEE else 0x8E)) [0..<n] @ drop n idt"
proof (induction n)
  case (Suc n)
  then have "drop n idt = idt ! n # drop (Suc n) idt" by (simp add: Cons_nth_drop_Suc)
  with Suc show ?case by (simp add: idt_set_def list_update_append)
qed simp

text \<open>After \<^verbatim>\<open>idt_init\<close> each of the 48 wired vectors enters its own stub in kernel mode: the three
  parts of the gate's offset give back the stub's address, the gate is present and names the kernel's
  code segment, and user mode can raise vector 3 and no other.  The remaining gates are as before.\<close>

theorem idt_init_correct:
  assumes "length idt = 256" "i < 256"
  shows "let g = idt_init stubs idt ! i
    in if i < 48 then gate_offset g = stubs ! i \<and> selector g = GDT_KERNEL_CODE \<and>
         bit (type_attr g) 7 \<and> (privilege (type_attr g) = 3 \<longleftrightarrow> i = 3) \<and> (privilege (type_attr g) = 0 \<longleftrightarrow> i \<noteq> 3)
       else g = idt ! i"
proof -
  have e: "idt_init stubs idt = map (\<lambda>i. idt_gate (stubs ! i) (if i = 3 then 0xEE else 0x8E)) [0..<48] @ drop 48 idt"
    unfolding idt_init_def using assms(1) by (intro idt_fold) simp
  have g: "idt_init stubs idt ! i = (if i < 48 then idt_gate (stubs ! i) (if i = 3 then 0xEE else 0x8E) else idt ! i)"
    unfolding e using assms(1,2) by (simp add: nth_append del: upt_rec_numeral)
  have attr: "type_attr (idt_gate a t) = t" "selector (idt_gate a t) = GDT_KERNEL_CODE" for a t
    by (simp_all add: idt_gate_def)
  have "bit (0xEE :: u8) 7" "bit (0x8E :: u8) 7" "privilege 0xEE = 3" "privilege 0x8E = 0"
    by (simp_all add: privilege_def)
  then show ?thesis unfolding g Let_def by (simp add: gate_offset_gate attr)
qed

lemma idt_init_correct_witness:
  "gate_offset (idt_init (map of_nat [0..<48]) (replicate 256 (idt_gate 0 0)) ! 14) = 14"
  using idt_init_correct [of "replicate 256 (idt_gate 0 0)" 14 "map of_nat [0..<48]"]
  by (simp add: Let_def)

text \<open>The local controller is told to report spurious interrupts on vector 255, whose gate is never
  set: such an interrupt finds a gate that is not present and ends in a fault.\<close>

lemma spurious_gate_missing:
  "lregs (lapic_enable_local s) LAPIC_SVR AND 0xFF = of_nat LAPIC_SPURIOUS_VECTOR"
  "\<not> bit (type_attr (idt_init stubs (replicate 256 (idt_gate 0 0)) ! LAPIC_SPURIOUS_VECTOR)) 7"
proof -
  show "lregs (lapic_enable_local s) LAPIC_SVR AND 0xFF = of_nat LAPIC_SPURIOUS_VECTOR"
    by (simp add: lapic_enable_local_def lapic_write_def LAPIC_SVR_def LAPIC_TPR_def LAPIC_SPURIOUS_VECTOR_def)
  have "idt_init stubs (replicate 256 (idt_gate 0 0)) =
      map (\<lambda>i. idt_gate (stubs ! i) (if i = 3 then 0xEE else 0x8E)) [0..<48] @ drop 48 (replicate 256 (idt_gate 0 0))"
    unfolding idt_init_def by (intro idt_fold) simp
  then show "\<not> bit (type_attr (idt_init stubs (replicate 256 (idt_gate 0 0)) ! LAPIC_SPURIOUS_VECTOR)) 7"
    by (simp add: nth_append LAPIC_SPURIOUS_VECTOR_def idt_gate_def)
qed

section \<open>The timer\<close>

text \<open>The calibration loop ends when the output pin is ever seen high, and stops at the first such
  read.\<close>

lemma pit_wait_first:
  assumes "pit_oneshot_done (reads k)" "\<And>j. n \<le> j \<Longrightarrow> j < k \<Longrightarrow> \<not> pit_oneshot_done (reads j)" "n \<le> k"
  shows "pit_wait reads n = Some k"
  using assms(2,3)
proof (induction "k - n" arbitrary: n)
  case 0
  then have "n = k" by simp
  then show ?case using assms(1) by (subst pit_wait.simps) simp
next
  case (Suc d)
  then have "\<not> pit_oneshot_done (reads n)" "d = k - (n + 1)" "n + 1 \<le> k" by auto
  then show ?case using Suc.hyps(1) [of "n + 1"] Suc.prems by (subst pit_wait.simps) simp
qed

lemma timer_count_nat:
  assumes "500 \<le> consumed" "100 \<le> hz"
  defines "x \<equiv> unat consumed * 100"
  shows "unat (timer_count consumed hz) =
    min (x div 40) (max (max 32 (x div 10000)) (x div unat hz))"
proof -
  have lt: "unat w < 2 ^ 32" for w :: u32 using unsigned_less [of w] by simp
  have c: "500 \<le> unat consumed" "unat consumed < 2 ^ 32" "100 \<le> unat hz"
    using assms lt [of consumed] by (simp_all add: word_le_nat_alt)
  have X: "unat (ucast consumed * 100 :: u64) = x"
    using c by (simp add: x_def unat_word_ariths unsigned_ucast_eq take_bit_nat_eq_self)
  have hz: "unat (ucast hz :: u64) = unat hz" using lt [of hz] by (simp add: unsigned_ucast_eq take_bit_nat_eq_self)
  define W F S where "W = (ucast consumed * 100 :: u64) div ucast hz"
    and "F = (ucast consumed * 100 :: u64) div 10000" and "S = (ucast consumed * 100 :: u64) div 40"
  have W: "unat W = x div unat hz" and F: "unat F = x div 10000" and S: "unat S = x div 40"
    by (simp_all add: W_def F_def S_def unat_div X hz)
  have bF: "x div 10000 \<le> unat consumed" "x div 10000 < 2 ^ 32" and bS: "1250 \<le> x div 40" "x div 40 < 2 ^ 35"
    using c by (auto simp: x_def)
  have "x div unat hz \<le> x div 100" using c(3) by (intro div_le_mono2) auto
  then have bW: "x div unat hz \<le> unat consumed" by (simp add: x_def)
  have fs: "max 32 (x div 10000) < x div 40"
    using c(1) by (auto simp: x_def)
  define F' where "F' = (if F < 32 then 32 else F)"
  have F': "unat F' = max 32 (x div 10000)" by (simp add: F'_def F word_less_nat_alt max_def)
  have "unat (F' + 1) = unat F' + 1" using F' bF by (simp add: unat_word_ariths max_def)
  then have s': "\<not> S < F' + 1" using fs F' S by (auto simp: word_less_nat_alt)
  define V where "V = (if W < F' then F' else W)"
  have V: "unat V = max (max 32 (x div 10000)) (x div unat hz)"
    by (simp add: V_def F' W word_less_nat_alt max_def)
  define Z where "Z = (if V > S then S else V)"
  have Z: "unat Z = min (x div 40) (unat V)" by (simp add: Z_def S word_less_nat_alt min_def)
  have "unat V < 2 ^ 32" using V bF bW c by auto
  then have "unat Z < 2 ^ 32" using Z by simp
  then have "unat (ucast Z :: u32) = unat Z" by (simp add: unsigned_ucast_eq take_bit_nat_eq_self)
  moreover have "timer_count consumed hz = ucast Z"
    using s' unfolding timer_count_def Let_def Z_def V_def F'_def W_def F_def S_def by simp
  ultimately show ?thesis using Z V by simp
qed

text \<open>C28: the timer count stays usable whatever the calibration measured: it is at least 32, the
  interrupt rate it implies, \<open>100 * consumed / count\<close>, is at least 40 per second and below that of one
  count more at 10000 per second, and for requests from 100 to 10000 per second with 3200 or more ticks
  measured in the window it is exactly the requested rate's count.\<close>

theorem timer_count_bounds:
  fixes hz remaining :: u32
  assumes "hz \<ge> 100"
  defines "c \<equiv> timer_consumed remaining"
  defines "n \<equiv> unat (timer_count c hz)"
  shows "32 \<le> n \<and> 40 * n \<le> 100 * unat c \<and> 100 * unat c < 10000 * (n + 1) \<and>
    (unat hz \<le> 10000 \<and> 3200 \<le> unat c \<longrightarrow> n = 100 * unat c div unat hz)"
proof -
  have c: "500 \<le> c" unfolding c_def timer_consumed_def Let_def by (simp add: not_less)
  define x where "x = unat c * 100"
  have n: "n = min (x div 40) (max (max 32 (x div 10000)) (x div unat hz))"
    unfolding n_def x_def by (rule timer_count_nat [OF c assms(1)])
  have h: "500 \<le> unat c" "100 \<le> unat hz" using c assms(1) by (simp_all add: word_le_nat_alt)
  have lo: "x div 10000 \<le> x div 40" "32 \<le> x div 40" using h(1) by (auto simp: x_def div_le_mono2)
  have "x div unat hz \<le> x div 40" using h(2) by (intro div_le_mono2) auto
  with lo have N: "n = max (max 32 (x div 10000)) (x div unat hz)" by (simp add: n)
  then have "x div 10000 \<le> n" "32 \<le> n" by simp_all
  moreover have "n \<le> x div 40" by (simp add: n)
  ultimately have "32 \<le> n \<and> 40 * n \<le> 100 * unat c \<and> 100 * unat c < 10000 * (n + 1)"
    by (auto simp: x_def)
  moreover have "n = x div unat hz" if "unat hz \<le> 10000" "3200 \<le> unat c"
  proof -
    have "x div 10000 \<le> x div unat hz" using that(1) h(2) by (intro div_le_mono2) auto
    moreover have "32 \<le> x div 10000" using that(2) by (auto simp: x_def)
    ultimately show ?thesis using N by simp
  qed
  ultimately show ?thesis by (simp add: x_def mult.commute)
qed

lemma timer_count_bounds_witness:
  "unat (timer_count (timer_consumed 0xFFF85EDF) 1000) = 100 * 500000 div 1000"
  using timer_count_bounds [of 1000 "0xFFF85EDF"] by (simp add: timer_consumed_def)

text \<open>Above 10000 per second the count is clamped, but the rate recorded for the rest of the kernel is
  the one asked for.\<close>

lemma recorded_rate_wrong:
  assumes "pit_oneshot_done (reads 1)" "remaining 1 = 0xFFFFFFFF - 200000"
  shows "\<exists>s'. lapic_timer_init reads remaining tsc 20000 s = Some s' \<and>
    timer_hz s' = 20000 \<and> lregs s' LAPIC_TIMER_INITCNT = 2000 \<and> 200000 * 100 div 2000 = (10000 :: nat)"
proof -
  have "pit_wait reads 1 = Some 1" using assms(1) by (intro pit_wait_first) auto
  moreover have "timer_count (timer_consumed (0xFFFFFFFF - 200000)) (timer_hz_floor 20000) = 2000"
    by (simp add: timer_count_def timer_consumed_def timer_hz_floor_def)
  ultimately show ?thesis
    by (simp add: lapic_timer_init_def Let_def assms(2) [unfolded One_nat_def] lapic_write_def case_prod_beta timer_hz_floor_def)
qed

section \<open>Redirection entries\<close>

text \<open>Routing an interrupt line writes its own redirection entry and no other: the low word carries
  the vector, unmasked, with the polarity and trigger bits asked for, the high word the destination.\<close>

theorem ioapic_routes:
  defines "r \<equiv> \<lambda>gsi :: u8. 0x10 + ucast gsi * 2 :: u32"
  shows "let s' = ioapic_set_irq_extended gsi vec dest lvl low s in
    (ucast (iowin s' (r gsi)) :: u8) = vec \<and> bit (iowin s' (r gsi)) 13 = low \<and>
    bit (iowin s' (r gsi)) 15 = lvl \<and> \<not> bit (iowin s' (r gsi)) 16 \<and>
    (ucast (drop_bit 24 (iowin s' (r gsi + 1))) :: u8) = dest \<and>
    (\<forall>g. g \<noteq> gsi \<longrightarrow> iowin s' (r g) = iowin s (r g) \<and> iowin s' (r g + 1) = iowin s (r g + 1))"
proof -
  have u: "uint (r g) = 16 + 2 * uint g" "uint (r g + 1) = 17 + 2 * uint g" for g
    using uint_lt2p [of g] uint_nonnegative [of g] unfolding r_def
    by (simp_all add: uint_word_ariths uint_up_ucast is_up mod_pos_pos_trivial)
  have ne: "r g \<noteq> r h + 1" for g h
  proof
    assume "r g = r h + 1"
    with u(1) [of g] u(2) [of h] have "16 + 2 * uint g = 17 + 2 * uint h" by simp
    then show False by presburger
  qed
  have inj: "r g = r h \<Longrightarrow> g = h" for g h using u(1) [of g] u(1) [of h] by (simp add: word_uint_eq_iff)
  have b: "bit (irq_low vec lvl low) n \<longleftrightarrow> n < 32 \<and> (bit vec n \<or> low \<and> n = 13 \<or> lvl \<and> n = 15)" for n
    unfolding irq_low_def Let_def
    by (cases lvl; cases low) (simp_all only: if_True if_False bit_or_iff bit_push_bit_iff bit_ucast_iff
        bit_1_iff possible_bit_word, auto dest: bit_imp_le_length)
  have o: "\<not> bit vec n" if "8 \<le> n" for n using that bit_imp_le_length [of vec n] by auto
  have v1: "(ucast (irq_low vec lvl low) :: u8) = vec"
    by (rule bit_eqI) (simp add: bit_ucast_iff b)
  have v2: "bit (irq_low vec lvl low) 13 = low" "bit (irq_low vec lvl low) 15 = lvl"
    "\<not> bit (irq_low vec lvl low) 16"
    by (simp_all add: b o)
  note v = v1 v2
  have d: "(ucast (drop_bit 24 (push_bit 24 (ucast dest :: u32))) :: u8) = dest"
    by (rule bit_eqI) (auto simp: bit_simps)
  have e: "iowin (ioapic_set_irq_extended gsi vec dest lvl low s) =
      (iowin s)(r gsi := irq_low vec lvl low, r gsi + 1 := push_bit 24 (ucast dest))"
    by (simp add: ioapic_set_irq_extended_def ioapic_write_def Let_def r_def)
  have o2: "iowin (ioapic_set_irq_extended gsi vec dest lvl low s) (r g) = iowin s (r g) \<and>
      iowin (ioapic_set_irq_extended gsi vec dest lvl low s) (r g + 1) = iowin s (r g + 1)" if "g \<noteq> gsi" for g
    using that inj [of g gsi] ne [of g gsi] ne [of gsi g] unfolding e by auto
  have o1: "iowin (ioapic_set_irq_extended gsi vec dest lvl low s) (r gsi) = irq_low vec lvl low"
    "iowin (ioapic_set_irq_extended gsi vec dest lvl low s) (r gsi + 1) = push_bit 24 (ucast dest)"
    using ne [of gsi gsi] unfolding e by simp_all
  show ?thesis unfolding Let_def o1 using v d o2 by blast
qed

lemma ioapic_routes_witness:
  "\<forall>s. iowin (ioapic_set_irq_extended 1 0x21 0 False False s) 0x28 = iowin s 0x28"
proof
  fix s :: ioapic
  show "iowin (ioapic_set_irq_extended 1 0x21 0 False False s) 0x28 = iowin s 0x28"
    using ioapic_routes [of 1 "0x21" 0 False False s] unfolding Let_def by (auto dest: spec [of _ "12"])
qed

section \<open>Features\<close>

text \<open>The vector extensions are advertised only when they may be used: after \<^verbatim>\<open>simd_cpu_init\<close> on the
  boot processor, AVX and AVX2 flags imply that the processor has them, that the extended state is
  enabled in CR4 and that XCR0 covers it; SSE is never trapped.\<close>

theorem simd_flags_safe:
  fixes cpuid :: cpuid and s :: simd_regs
  defines "s' \<equiv> simd_cpu_init cpuid True s"
  shows "(g_simd_avx2 s' \<longrightarrow> g_simd_avx s') \<and>
    (g_simd_avx s' \<longrightarrow> bit (fst (snd (snd (cpuid 1 0)))) 28 \<and> bit (cr4 s') 18 \<and> bit (xcr0 s') 1 \<and> bit (xcr0 s') 2) \<and>
    \<not> bit (cr0 s') 2 \<and> bit (cr0 s') 1 \<and> bit (cr4 s') 9 \<and> bit (cr4 s') 10"
  unfolding s'_def simd_cpu_init_def Let_def
  by (auto simp: case_prod_beta bit_or_iff bit_and_iff bit_not_iff bit_push_bit_iff bit_1_iff simp del: push_bit_of_1)

lemma simd_flags_safe_witness:
  "\<forall>s. bit (xcr0 (simd_cpu_init (\<lambda>l k. (0, 0x20, 0x14000000, 0x04000000)) True s)) 2"
proof
  fix s :: simd_regs
  have "g_simd_avx (simd_cpu_init (\<lambda>l k. (0, 0x20, 0x14000000, 0x04000000)) True s)"
    by (simp add: simd_cpu_init_def Let_def)
  then show "bit (xcr0 (simd_cpu_init (\<lambda>l k. (0, 0x20, 0x14000000, 0x04000000)) True s)) 2"
    using simd_flags_safe [of "\<lambda>l k. (0, 0x20, 0x14000000, 0x04000000)" s] by blast
qed

lemma sig4_eq:
  "u32_to_sig4 u = u32_to_sig4 v \<longleftrightarrow> u = v"
proof
  assume e: "u32_to_sig4 u = u32_to_sig4 v"
  have w: "w = ucast (u32_to_sig4 w ! 0) OR push_bit 8 (ucast (u32_to_sig4 w ! 1)) OR
      push_bit 16 (ucast (u32_to_sig4 w ! 2)) OR push_bit 24 (ucast (u32_to_sig4 w ! 3))" for w
    unfolding u32_to_sig4_def nth_Cons_0 nth_Cons_Suc numeral_2_eq_2 numeral_3_eq_3 One_nat_def
    by (rule bit_eqI, unfold field_bits, rename_tac n, case_tac "n < 8"; case_tac "n < 16"; case_tac "n < 24") auto
  show "u = v" by (subst (1 2) w) (simp only: e)
qed simp

text \<open>The VirtualBox test compares all twelve bytes of the signature: it holds exactly when the
  hypervisor bit is set and each of the three registers spells \<^verbatim>\<open>VBox\<close>.\<close>

theorem virtualbox_signature:
  "hypervisor_is_virtualbox cpuid \<longleftrightarrow>
     bit (fst (snd (snd (cpuid 1 0)))) 31 \<and> snd (cpuid 0x40000000 0) = (0x786F4256, 0x786F4256, 0x786F4256)"
proof -
  obtain a b c d where x: "cpuid 0x40000000 0 = (a, b, c, d)" by (metis prod_cases4)
  obtain a1 b1 c1 d1 where y: "cpuid 1 0 = (a1, b1, c1, d1)" by (metis prod_cases4)
  let ?sg = "u32_to_sig4 b @ u32_to_sig4 c @ u32_to_sig4 d" and ?v = "0x786F4256 :: u32"
  have v: "vb_sig = u32_to_sig4 ?v @ u32_to_sig4 ?v @ u32_to_sig4 ?v"
    by (simp add: vb_sig_def u32_to_sig4_def)
  have l: "length (u32_to_sig4 w) = 4" for w by (simp add: u32_to_sig4_def)
  have "list_all (\<lambda>i. ?sg ! i = vb_sig ! i) [0..<12] \<longleftrightarrow> ?sg = vb_sig"
    by (auto simp: list_all_iff list_eq_iff_nth_eq l vb_sig_def simp del: upt_rec_numeral)
  also have "\<dots> \<longleftrightarrow> b = ?v \<and> c = ?v \<and> d = ?v" unfolding v using l by (simp add: sig4_eq)
  finally have s: "list_all (\<lambda>i. ?sg ! i = vb_sig ! i) [0..<12] \<longleftrightarrow> b = ?v \<and> c = ?v \<and> d = ?v" .
  have h: "c1 AND push_bit 31 1 = 0 \<longleftrightarrow> \<not> bit c1 31"
    using and_exp_eq_0_iff_not_bit [of c1 31] by (simp add: push_bit_eq_mult)
  show ?thesis unfolding hypervisor_is_virtualbox_def x y Let_def prod.case s h by auto
qed

end
