(* ===== verification/Interrupts.thy ===== *)
theory Interrupts
  imports Processor Thread Mouse
begin

text \<open>
  The interrupt dispatcher (\<^verbatim>\<open>arch/x86_64/exception.c\<close>) over the scheduler, the keyboard and the pointer,
  and the keyboard's handler (\<^verbatim>\<open>drivers/keyboard.c\<close>).  The output of the 8042 controller is the list of
  the bytes waiting in it, each with the flag that says whether it comes from the pointer.  The log
  records end-of-interrupt writes and hand-overs to another thread, whose order matters: a thread
  that is switched to before the controller is acknowledged would run with interrupts blocked.
\<close>

datatype irq_event = Eoi | Switch

record kstate =
  kticks :: u64
  klog :: "irq_event list"
  ksched :: sched
  kmouse :: mouse
  kkbd :: kbd
  kout :: "(bool \<times> u8) list"

definition KEYBOARD_VECTOR :: nat where "KEYBOARD_VECTOR = 0x21"
definition MOUSE_VECTOR :: nat where "MOUSE_VECTOR = 0x2C"

fun keyboard_drain :: "drivers \<Rightarrow> (bool \<times> u8) list \<Rightarrow> mouse \<times> kbd \<Rightarrow> mouse \<times> kbd" where
  "keyboard_drain d [] st = st"
| "keyboard_drain d ((aux, b) # out) st =
     keyboard_drain d out
       (if aux then mouse_ps2_aux_byte d b st else (fst st, keyboard_ps2_handle_byte b (snd st)))"

definition keyboard_handle_irq :: "drivers \<Rightarrow> kstate \<Rightarrow> kstate" where
  "keyboard_handle_irq d s =
     (let (m, k) = keyboard_drain d (kout s) (kmouse s, kkbd s)
      in s\<lparr>kmouse := m, kkbd := k, kout := []\<rparr>)"

definition lapic_eoi :: "kstate \<Rightarrow> kstate" where
  "lapic_eoi s = s\<lparr>klog := klog s @ [Eoi]\<rparr>"

definition interrupt_dispatch :: "drivers \<Rightarrow> bool \<Rightarrow> nat \<Rightarrow> nat \<Rightarrow> kstate \<Rightarrow> kstate result" where
  "interrupt_dispatch d composing ret vector s =
     (if vector < 32 then (if vector = 3 then Inr s else Inl ''CPU exception'')
      else if vector = LAPIC_TIMER_VECTOR
      then let s1 = lapic_eoi (s\<lparr>kticks := kticks s + 1\<rparr>)
           in Inr (if \<not> composing
                   then s1\<lparr>ksched := thread_yield ret (ksched s1), klog := klog s1 @ [Switch]\<rparr>
                   else s1)
      else if vector = KEYBOARD_VECTOR then Inr (lapic_eoi (keyboard_handle_irq d s))
      else if vector = MOUSE_VECTOR
      then let (out, m, k) = mouse_handle_irq d (kout s) (kmouse s, kkbd s)
           in Inr (lapic_eoi (s\<lparr>kmouse := m, kkbd := k, kout := out\<rparr>))
      else Inr (lapic_eoi s))"

text \<open>C26: every device interrupt is acknowledged exactly once, and before another thread is switched to;
  exceptions are fatal except the breakpoint, which changes nothing; the timer interrupt is the only
  one that yields, and only while no composition is under way.\<close>

theorem dispatch_acknowledges:
  "case interrupt_dispatch d composing ret vector s of
     Inl msg \<Rightarrow> vector < 32 \<and> vector \<noteq> 3
   | Inr s' \<Rightarrow> if vector = 3 then s' = s
       else 32 \<le> vector \<and>
         klog s' = klog s @ (if vector = LAPIC_TIMER_VECTOR \<and> \<not> composing then [Eoi, Switch] else [Eoi]) \<and>
         (vector \<noteq> LAPIC_TIMER_VECTOR \<or> composing \<longrightarrow> ksched s' = ksched s) \<and>
         kticks s' = kticks s + (if vector = LAPIC_TIMER_VECTOR then 1 else 0)"
  by (auto simp: interrupt_dispatch_def Let_def lapic_eoi_def keyboard_handle_irq_def LAPIC_TIMER_VECTOR_def
      KEYBOARD_VECTOR_def MOUSE_VECTOR_def split: prod.splits)

lemma dispatch_acknowledges_witness:
  "\<forall>d s. case interrupt_dispatch d True 0 0x20 s of Inl msg \<Rightarrow> False | Inr s' \<Rightarrow> klog s' = klog s @ [Eoi]"
proof (intro allI)
  fix d :: drivers and s :: kstate
  show "case interrupt_dispatch d True 0 0x20 s of Inl msg \<Rightarrow> False | Inr s' \<Rightarrow> klog s' = klog s @ [Eoi]"
    using dispatch_acknowledges [where d = d and composing = True and ret = 0 and vector = "0x20" and s = s]
    by (simp split: sum.splits)
qed

text \<open>With the pointer on the PS/2 port both handlers treat its bytes alike: whichever of the two
  interrupts comes first, the waiting pointer bytes are assembled in order.\<close>

lemma try_consume_drains:
  assumes "\<not> other_pointer d" "length out \<le> n" "list_all fst out"
  shows "mouse_try_consume n out st = ([], keyboard_drain d out st)"
  using assms(2,3)
  by (induction n out st rule: mouse_try_consume.induct) (auto simp: mouse_ps2_aux_byte_def assms(1))

text \<open>The keyboard's interrupt and the pointer's are interchangeable for pointer bytes: with at most
  512 of them waiting and the pointer on the PS/2 port, either interrupt leaves the same cursor, the same
  keyboard state and nothing waiting.\<close>

theorem pointer_bytes_either_irq:
  assumes "\<not> other_pointer d" "length (kout s) \<le> 512" "list_all fst (kout s)"
  shows "interrupt_dispatch d composing ret MOUSE_VECTOR s = interrupt_dispatch d composing ret KEYBOARD_VECTOR s"
  using try_consume_drains [OF assms]
  by (simp add: interrupt_dispatch_def MOUSE_VECTOR_def KEYBOARD_VECTOR_def LAPIC_TIMER_VECTOR_def
      mouse_handle_irq_def assms(1) keyboard_handle_irq_def Let_def case_prod_beta)

lemma pointer_bytes_either_irq_witness:
  "\<forall>d s. interrupt_dispatch (d\<lparr>virtio_tablet_active := False, i2c_hid_mouse_active := False,
      usb_xhci_mouse_active := False\<rparr>) True 0 MOUSE_VECTOR (s\<lparr>kout := [(True, 8), (True, 1)]\<rparr>) =
    interrupt_dispatch (d\<lparr>virtio_tablet_active := False, i2c_hid_mouse_active := False,
      usb_xhci_mouse_active := False\<rparr>) True 0 KEYBOARD_VECTOR (s\<lparr>kout := [(True, 8), (True, 1)]\<rparr>)"
  by (intro allI pointer_bytes_either_irq) (simp_all add: other_pointer_def)

end
