(* ===== verification/I2c.thy ===== *)
theory I2c
  imports Pci Mouse
begin

text \<open>
  The I2C controller (\<^verbatim>\<open>drivers/i2c_dw.c\<close>) and the HID touchpad behind it (\<^verbatim>\<open>drivers/i2c_hid_mouse.c\<close>).

  The controller's registers are a parameter: reading one may change the hardware (data is taken
  from a queue, status bits are cleared), writing one may do anything.  Every write is also logged,
  so that the theorems can speak of the commands sent.  The busy-wait loops have the bounds of the
  source, hence every transfer returns.  Delays have no counterpart.
\<close>

record 'h regio =
  reg_rd :: "u64 \<Rightarrow> 'h \<Rightarrow> u32 \<times> 'h"
  reg_wr :: "u64 \<Rightarrow> u32 \<Rightarrow> 'h \<Rightarrow> 'h"

record 'h dw =
  hw :: 'h
  g_regs :: u64
  g_tx_depth :: u32
  g_rx_depth :: u32
  wlog :: "(nat \<times> u32) list"
  dw_hhdm :: u64
  dw_maps :: "(u64 \<times> u64 \<times> nat) list"

definition DW_IC_CON :: nat where "DW_IC_CON = 0x00"
definition DW_IC_TAR :: nat where "DW_IC_TAR = 0x04"
definition DW_IC_DATA_CMD :: nat where "DW_IC_DATA_CMD = 0x10"
definition DW_IC_SS_SCL_HCNT :: nat where "DW_IC_SS_SCL_HCNT = 0x14"
definition DW_IC_SS_SCL_LCNT :: nat where "DW_IC_SS_SCL_LCNT = 0x18"
definition DW_IC_INTR_MASK :: nat where "DW_IC_INTR_MASK = 0x30"
definition DW_IC_RAW_INTR_STAT :: nat where "DW_IC_RAW_INTR_STAT = 0x34"
definition DW_IC_RX_TL :: nat where "DW_IC_RX_TL = 0x38"
definition DW_IC_TX_TL :: nat where "DW_IC_TX_TL = 0x3C"
definition DW_IC_CLR_INTR :: nat where "DW_IC_CLR_INTR = 0x40"
definition DW_IC_CLR_TX_ABRT :: nat where "DW_IC_CLR_TX_ABRT = 0x54"
definition DW_IC_CLR_STOP_DET :: nat where "DW_IC_CLR_STOP_DET = 0x60"
definition DW_IC_ENABLE :: nat where "DW_IC_ENABLE = 0x6C"
definition DW_IC_STATUS :: nat where "DW_IC_STATUS = 0x70"
definition DW_IC_TXFLR :: nat where "DW_IC_TXFLR = 0x74"
definition DW_IC_TX_ABRT_SOURCE :: nat where "DW_IC_TX_ABRT_SOURCE = 0x80"
definition DW_IC_ENABLE_STATUS :: nat where "DW_IC_ENABLE_STATUS = 0x9C"
definition DW_IC_FS_SPKLEN :: nat where "DW_IC_FS_SPKLEN = 0xA0"
definition DW_IC_COMP_TYPE :: nat where "DW_IC_COMP_TYPE = 0xFC"
definition DW_COMP_TYPE_EXPECT :: u32 where "DW_COMP_TYPE_EXPECT = 0x44570140"

abbreviation CMD_READ :: u32 where "CMD_READ \<equiv> 0x100"
abbreviation CMD_STOP :: u32 where "CMD_STOP \<equiv> 0x200"
abbreviation CMD_RESTART :: u32 where "CMD_RESTART \<equiv> 0x400"

definition dw_rd :: "'h regio \<Rightarrow> nat \<Rightarrow> ('h, 'z) dw_scheme \<Rightarrow> u32 \<times> ('h, 'z) dw_scheme" where
  "dw_rd io off s = (let (v, h) = reg_rd io (g_regs s + of_nat off) (hw s) in (v, s\<lparr>hw := h\<rparr>))"

definition dw_wr :: "'h regio \<Rightarrow> nat \<Rightarrow> u32 \<Rightarrow> ('h, 'z) dw_scheme \<Rightarrow> ('h, 'z) dw_scheme" where
  "dw_wr io off v s = s\<lparr>wlog := wlog s @ [(off, v)], hw := reg_wr io (g_regs s + of_nat off) v (hw s)\<rparr>"

definition clr_all_intr :: "'h regio \<Rightarrow> ('h, 'z) dw_scheme \<Rightarrow> ('h, 'z) dw_scheme" where
  "clr_all_intr io s =
     snd (dw_rd io DW_IC_CLR_STOP_DET (snd (dw_rd io DW_IC_CLR_TX_ABRT (snd (dw_rd io DW_IC_CLR_INTR s)))))"

primrec wait_bits :: "'h regio \<Rightarrow> nat \<Rightarrow> u32 \<Rightarrow> u32 \<Rightarrow> nat \<Rightarrow> ('h, 'z) dw_scheme \<Rightarrow> bool \<times> ('h, 'z) dw_scheme" where
  "wait_bits io off msk want 0 s = (False, s)"
| "wait_bits io off msk want (Suc n) s =
     (let (v, s1) = dw_rd io off s
      in if v AND msk = want then (True, s1) else wait_bits io off msk want n s1)"

definition dw_disable :: "'h regio \<Rightarrow> ('h, 'z) dw_scheme \<Rightarrow> ('h, 'z) dw_scheme" where
  "dw_disable io s =
     (if g_regs s = 0 then s
      else snd (wait_bits io DW_IC_ENABLE_STATUS 1 0 200000 (dw_wr io DW_IC_ENABLE 0 s)))"

definition dw_enable_controller :: "'h regio \<Rightarrow> ('h, 'z) dw_scheme \<Rightarrow> bool \<times> ('h, 'z) dw_scheme" where
  "dw_enable_controller io s =
     (let s1 = snd (wait_bits io DW_IC_ENABLE_STATUS 1 0 200000 (dw_wr io DW_IC_ENABLE 0 s));
          s2 = dw_wr io DW_IC_INTR_MASK 0 (clr_all_intr io s1);
          s3 = dw_wr io DW_IC_FS_SPKLEN 2 (dw_wr io DW_IC_SS_SCL_LCNT 520 (dw_wr io DW_IC_SS_SCL_HCNT 480 s2));
          s4 = dw_wr io DW_IC_CON 0x63 s3;
          s5 = dw_wr io DW_IC_RX_TL 0 (dw_wr io DW_IC_TX_TL (g_tx_depth s4 div 2 - 1) s4)
      in wait_bits io DW_IC_ENABLE_STATUS 1 1 200000 (dw_wr io DW_IC_ENABLE 1 s5))"

definition i2c_dw_unbind :: "'h regio \<Rightarrow> ('h, 'z) dw_scheme \<Rightarrow> ('h, 'z) dw_scheme" where
  "i2c_dw_unbind io s = (if g_regs s \<noteq> 0 then (dw_disable io s)\<lparr>g_regs := 0\<rparr> else s)"

definition pick_mmio_bar :: "pci_device \<Rightarrow> (u64 \<times> u64) option" where
  "pick_mmio_bar d =
     map_option (\<lambda>i. (bar_base (pd_bars d ! i), bar_size (pd_bars d ! i)))
       (scan (\<lambda>i. let b = pd_bars d ! i in bar_type b = PCI_BAR_MEM \<and> \<not> bar_size b < 0x1000 \<and> bar_base b \<noteq> 0)
          0 PCI_BAR_COUNT)"

definition i2c_dw_bind_pci :: "'h regio \<Rightarrow> pci_device \<Rightarrow> ('h, 'z) dw_scheme \<Rightarrow> bool \<times> ('h, 'z) dw_scheme" where
  "i2c_dw_bind_pci io d s =
     (let s0 = i2c_dw_unbind io s
      in case pick_mmio_bar d of None \<Rightarrow> (False, s0)
      | Some (phys, sz) \<Rightarrow>
          let mp = unat (if sz > 0x10000 then 0x10000 else sz);
              virt = phys + dw_hhdm s0;
              s1 = s0\<lparr>dw_maps := dw_maps s0 @ [(virt, phys, mp)], g_regs := virt\<rparr>;
              (ctype, s2) = dw_rd io DW_IC_COMP_TYPE s1
          in if ctype \<noteq> DW_COMP_TYPE_EXPECT then (False, s2\<lparr>g_regs := 0\<rparr>)
             else let (param, s3) = dw_rd io 0xF4 s2;
                      tx = (drop_bit 16 param AND 0xFF) + 1;
                      rx = (drop_bit 8 param AND 0xFF) + 1
                  in (True, s3\<lparr>g_tx_depth := (if tx < 2 then 32 else tx), g_rx_depth := (if rx < 2 then 32 else rx)\<rparr>))"

primrec wait_stop_or_abort :: "'h regio \<Rightarrow> nat \<Rightarrow> ('h, 'z) dw_scheme \<Rightarrow> bool \<times> ('h, 'z) dw_scheme" where
  "wait_stop_or_abort io 0 s = (False, s)"
| "wait_stop_or_abort io (Suc n) s =
     (let (raw, s1) = dw_rd io DW_IC_RAW_INTR_STAT s
      in if raw AND 0x40 \<noteq> 0
         then (False, snd (dw_rd io DW_IC_TX_ABRT_SOURCE (snd (dw_rd io DW_IC_CLR_TX_ABRT s1))))
         else if raw AND 0x200 \<noteq> 0 then (True, snd (dw_rd io DW_IC_CLR_STOP_DET s1))
         else wait_stop_or_abort io n s1)"

primrec wait_tx_space :: "'h regio \<Rightarrow> nat \<Rightarrow> ('h, 'z) dw_scheme \<Rightarrow> bool \<times> ('h, 'z) dw_scheme" where
  "wait_tx_space io 0 s = (False, s)"
| "wait_tx_space io (Suc n) s =
     (let (tfl, s1) = dw_rd io DW_IC_TXFLR s
      in if tfl < g_tx_depth s1 then (True, s1) else wait_tx_space io n s1)"

primrec wait_rx_data :: "'h regio \<Rightarrow> nat \<Rightarrow> ('h, 'z) dw_scheme \<Rightarrow> bool \<times> ('h, 'z) dw_scheme" where
  "wait_rx_data io 0 s = (False, s)"
| "wait_rx_data io (Suc n) s =
     (let (st, s1) = dw_rd io DW_IC_STATUS s
      in if st AND 8 \<noteq> 0 then (True, s1) else wait_rx_data io n s1)"

section \<open>Transfers\<close>

text \<open>The loop that queues commands, each when there is room, and the one that fetches the bytes
  received.\<close>

fun send_cmds :: "'h regio \<Rightarrow> u32 list \<Rightarrow> ('h, 'z) dw_scheme \<Rightarrow> bool \<times> ('h, 'z) dw_scheme" where
  "send_cmds io [] s = (True, s)"
| "send_cmds io (c # cs) s =
     (let (ok, s1) = wait_tx_space io 500000 s
      in if \<not> ok then (False, s1) else send_cmds io cs (dw_wr io DW_IC_DATA_CMD c s1))"

primrec recv_bytes :: "'h regio \<Rightarrow> nat \<Rightarrow> ('h, 'z) dw_scheme \<Rightarrow> bool \<times> u8 list \<times> ('h, 'z) dw_scheme" where
  "recv_bytes io 0 s = (True, [], s)"
| "recv_bytes io (Suc n) s =
     (let (ok, s1) = wait_rx_data io 8000000 s
      in if \<not> ok then (False, [], s1)
         else let (v, s2) = dw_rd io DW_IC_DATA_CMD s1;
                  (ok, bs, s3) = recv_bytes io n s2
              in (ok, ucast (v AND 0xFF) # bs, s3))"

definition write_cmds :: "u32 \<Rightarrow> u8 list \<Rightarrow> u32 list" where
  "write_cmds last_flag w =
     map (\<lambda>i. if i = length w - 1 then ucast (w ! i) OR last_flag else ucast (w ! i)) [0..<length w]"

definition read_cmds :: "nat \<Rightarrow> u32 list" where
  "read_cmds n = map (\<lambda>j. if j = n - 1 then CMD_READ OR CMD_STOP else CMD_READ) [0..<n]"

text \<open>A whole transfer: the commands, the wait for the stop condition, the answer; every way out of
  the part behind the enabling goes through \<^verbatim>\<open>dw_disable\<close>.\<close>

definition dw_transfer :: "'h regio \<Rightarrow> u8 \<Rightarrow> u32 list \<Rightarrow> nat \<Rightarrow> ('h, 'z) dw_scheme \<Rightarrow> bool \<times> u8 list \<times> ('h, 'z) dw_scheme" where
  "dw_transfer io addr7 cmds rlen s =
     (let (en, s1) = dw_enable_controller io (dw_disable io s)
      in if \<not> en then (False, [], s1)
         else let (ok, s2) = send_cmds io cmds (dw_wr io DW_IC_TAR (ucast addr7) s1)
         in if \<not> ok then (False, [], dw_disable io s2)
            else let (ok, s3) = wait_stop_or_abort io 8000000 s2
            in if \<not> ok then (False, [], dw_disable io s3)
               else let (ok, bs, s4) = recv_bytes io rlen s3
                    in (ok, bs, dw_disable io s4))"

definition i2c_dw_write_read :: "'h regio \<Rightarrow> u8 \<Rightarrow> u8 list \<Rightarrow> nat \<Rightarrow> ('h, 'z) dw_scheme \<Rightarrow> bool \<times> u8 list \<times> ('h, 'z) dw_scheme" where
  "i2c_dw_write_read io addr7 w rlen s =
     (if g_regs s = 0 \<or> w = [] \<or> rlen = 0 then (False, [], s)
      else dw_transfer io addr7 (write_cmds CMD_RESTART w @ read_cmds rlen) rlen s)"

definition i2c_dw_master_write :: "'h regio \<Rightarrow> u8 \<Rightarrow> u8 list \<Rightarrow> ('h, 'z) dw_scheme \<Rightarrow> bool \<times> ('h, 'z) dw_scheme" where
  "i2c_dw_master_write io addr7 w s =
     (if g_regs s = 0 \<or> w = [] then (False, s)
      else let (ok, bs, s1) = dw_transfer io addr7 (write_cmds CMD_STOP w) 0 s in (ok, s1))"

definition i2c_dw_master_read :: "'h regio \<Rightarrow> u8 \<Rightarrow> nat \<Rightarrow> ('h, 'z) dw_scheme \<Rightarrow> bool \<times> u8 list \<times> ('h, 'z) dw_scheme" where
  "i2c_dw_master_read io addr7 rlen s =
     (if g_regs s = 0 \<or> rlen = 0 then (False, [], s)
      else dw_transfer io addr7 (read_cmds rlen) rlen s)"

section \<open>HID over I2C\<close>

record 'h i2c = "'h dw" +
  g_slave :: u8
  g_cmd_reg :: u16
  g_data_reg :: u16
  g_max_in :: u16
  g_active :: bool
  g_buf :: "u8 list"
  ic_pci :: pci
  ic_mouse :: mouse

definition OPC_RESET :: u8 where "OPC_RESET = 1"
definition OPC_SET_POWER :: u8 where "OPC_SET_POWER = 8"
definition I2C_HID_PWR_ON :: int where "I2C_HID_PWR_ON = 0"

definition get_le16 :: "u8 list \<Rightarrow> nat \<Rightarrow> u16" where
  "get_le16 p i = ucast (p ! i) OR push_bit 8 (ucast (p ! (i + 1)))"

definition encode_command :: "u8 \<Rightarrow> int \<Rightarrow> int \<Rightarrow> u8 list" where
  "encode_command opcode report_type report_id =
     (if report_id < 0x0F then [word_of_int (push_bit 4 report_type) OR word_of_int report_id, opcode]
      else [word_of_int (push_bit 4 report_type) OR 0x0F, opcode, word_of_int report_id])"

definition hid_xfer_write :: "'h regio \<Rightarrow> u8 \<Rightarrow> u16 \<Rightarrow> u8 list \<Rightarrow> ('h, 'z) dw_scheme \<Rightarrow> bool \<times> ('h, 'z) dw_scheme" where
  "hid_xfer_write io slave cmd_reg tail s =
     (if length tail + 2 > 16 then (False, s)
      else i2c_dw_master_write io slave (ucast (cmd_reg AND 0xFF) # ucast (drop_bit 8 cmd_reg) # tail) s)"

definition hid_set_power :: "'h regio \<Rightarrow> u8 \<Rightarrow> u16 \<Rightarrow> int \<Rightarrow> ('h, 'z) dw_scheme \<Rightarrow> bool \<times> ('h, 'z) dw_scheme" where
  "hid_set_power io slave cmd_reg state s =
     hid_xfer_write io slave cmd_reg (encode_command OPC_SET_POWER 0 state) s"

definition hid_send_reset :: "'h regio \<Rightarrow> u8 \<Rightarrow> u16 \<Rightarrow> ('h, 'z) dw_scheme \<Rightarrow> bool \<times> ('h, 'z) dw_scheme" where
  "hid_send_reset io slave cmd_reg s = hid_xfer_write io slave cmd_reg (encode_command OPC_RESET 0 0) s"

definition read_hid_descriptor :: "'h regio \<Rightarrow> u8 \<Rightarrow> u16 \<Rightarrow> ('h, 'z) dw_scheme \<Rightarrow> bool \<times> u8 list \<times> ('h, 'z) dw_scheme" where
  "read_hid_descriptor io slave dreg s =
     i2c_dw_write_read io slave [ucast (dreg AND 0xFF), ucast (drop_bit 8 dreg)] 30 s"

definition lpss_ids :: "u16 list" where
  "lpss_ids =
     [0x9d60, 0x9d61, 0x9d62, 0x9d63, 0xa160, 0xa161, 0xa162, 0xa163, 0x31d8, 0x31d9, 0x31da, 0x31db,
      0x34e8, 0x34e9, 0x34ea, 0x34eb, 0x4de8, 0x4de9, 0x4dea, 0x4deb, 0x02e8, 0x02e9, 0x02ea, 0x02eb,
      0x4c60, 0x4c61, 0x4c62, 0x4c63, 0x51e8, 0x51e9, 0x51ea, 0x51eb]"

definition pci_is_intel_lpss_i2c :: "pci_device \<Rightarrow> bool" where
  "pci_is_intel_lpss_i2c d \<longleftrightarrow>
     (if pd_class_code d = 0x0C \<and> pd_subclass d = 0x80 \<and> pd_prog_if d = 0 then True
      else if pd_vendor_id d \<noteq> 0x8086 then False
      else pd_device_id d \<in> set lpss_ids)"

definition try_one_bus_slave_hidreg ::
  "'h regio \<Rightarrow> latch \<Rightarrow> pci_device \<Rightarrow> u8 \<Rightarrow> u16 \<Rightarrow> 'h i2c \<Rightarrow> bool \<times> 'h i2c" where
  "try_one_bus_slave_hidreg io l d slave hid_desc_reg s =
     (let s0 = s\<lparr>ic_pci := pci_enable_mmio_bus_master l (Some d) (ic_pci s)\<rparr>;
          (ok, s1) = i2c_dw_bind_pci io d s0
      in if \<not> ok then (False, s1)
         else let (ok, desc, s2) = read_hid_descriptor io slave hid_desc_reg s1
         in if \<not> ok then (False, i2c_dw_unbind io s2)
         else if get_le16 desc 2 \<noteq> 0x0100 then (False, i2c_dw_unbind io s2)
         else if get_le16 desc 0 \<noteq> 30 then (False, i2c_dw_unbind io s2)
         else let max_in = get_le16 desc 10;
                  s3 = s2\<lparr>g_cmd_reg := get_le16 desc 16, g_data_reg := get_le16 desc 18,
                     g_max_in := (if max_in = 0 \<or> max_in > 256 then 256 else max_in)\<rparr>;
                  (ok, s4) = hid_set_power io slave (g_cmd_reg s3) I2C_HID_PWR_ON s3
         in if \<not> ok then (False, i2c_dw_unbind io s4)
         else let (ok, s5) = hid_send_reset io slave (g_cmd_reg s4) s4
         in if \<not> ok then (False, i2c_dw_unbind io s5)
         else let s6 = snd (hid_set_power io slave (g_cmd_reg s5) I2C_HID_PWR_ON s5)
         in (True, s6\<lparr>g_slave := slave, g_active := True\<rparr>))"

definition i2c_slaves :: "u8 list" where
  "i2c_slaves = [0x10, 0x15, 0x2C, 0x34, 0x2B, 0x40]"

definition hid_regs :: "u16 list" where
  "hid_regs = [0x0001, 0x0020]"

text \<open>The nested loops of \<^verbatim>\<open>i2c_hid_mouse_init\<close> stop at the first attempt that succeeds.\<close>

fun try_all :: "'h regio \<Rightarrow> latch \<Rightarrow> (pci_device \<times> u16 \<times> u8) list \<Rightarrow> 'h i2c \<Rightarrow> bool \<times> 'h i2c" where
  "try_all io l [] s = (False, s)"
| "try_all io l ((d, reg, slave) # cs) s =
     (let (ok, s1) = try_one_bus_slave_hidreg io l d slave reg s
      in if ok then (True, s1) else try_all io l cs s1)"

definition i2c_candidates :: "pci \<Rightarrow> (pci_device \<times> u16 \<times> u8) list" where
  "i2c_candidates p =
     concat (map (\<lambda>d. concat (map (\<lambda>reg. map (\<lambda>sl. (d, reg, sl)) i2c_slaves) hid_regs))
       (filter pci_is_intel_lpss_i2c (take (device_count p) (pdevices p))))"

definition i2c_hid_mouse_init :: "'h regio \<Rightarrow> latch \<Rightarrow> 'h i2c \<Rightarrow> bool \<times> 'h i2c" where
  "i2c_hid_mouse_init io l s = try_all io l (i2c_candidates (ic_pci s)) (s\<lparr>g_active := False\<rparr>)"

definition i2c_hid_mouse_poll :: "'h regio \<Rightarrow> 'h i2c \<Rightarrow> 'h i2c" where
  "i2c_hid_mouse_poll io s =
     (if \<not> g_active s then s
      else let (ok, bs, s1) = i2c_dw_master_read io (g_slave s) (unat (g_max_in s)) s;
               s2 = s1\<lparr>g_buf := bs @ drop (length bs) (g_buf s1)\<rparr>
      in if \<not> ok then s2
         else let sz = get_le16 (g_buf s2) 0
         in if sz \<le> 2 \<or> sz > g_max_in s2 then s2
            else case hid_boot_decode_mouse_report (take (unat sz - 2) (drop 2 (g_buf s2))) of
                None \<Rightarrow> s2
              | Some (dx, dy, bt) \<Rightarrow> s2\<lparr>ic_mouse := mouse_rel_inject dx dy bt (ic_mouse s2)\<rparr>)"

section \<open>What a transfer sends\<close>

text \<open>The controller operations change nothing of the driver's state but the hardware and the log;
  \<open>logs s w s'\<close> says that \<open>w\<close> are the register writes between \<open>s\<close> and \<open>s'\<close>.\<close>

definition logs :: "('h, 'z) dw_scheme \<Rightarrow> (nat \<times> u32) list \<Rightarrow> ('h, 'z) dw_scheme \<Rightarrow> bool" where
  "logs s w s' \<longleftrightarrow> (\<exists>h. s' = s\<lparr>wlog := wlog s @ w, hw := h\<rparr>)"

lemma logs_refl: "logs s [] s"
  unfolding logs_def by (intro exI [of _ "hw s"]) simp

lemma logs_trans: "logs s v s1 \<Longrightarrow> logs s1 w s2 \<Longrightarrow> logs s (v @ w) s2"
  unfolding logs_def by force

lemma logs_regs: "logs s w s' \<Longrightarrow> g_regs s' = g_regs s"
  unfolding logs_def by auto

lemma logs_wr: "logs s w s1 \<Longrightarrow> logs s (w @ [(off, v)]) (dw_wr io off v s1)"
  unfolding logs_def dw_wr_def by force

lemma logs_rd: "logs s w s1 \<Longrightarrow> logs s w (snd (dw_rd io off s1))"
  unfolding logs_def dw_rd_def by (auto simp: case_prod_beta)

lemma logs_rd_at: "dw_rd io off s = (v, s1) \<Longrightarrow> logs s [] s1"
  using logs_rd [OF logs_refl, where io = io and off = off] by (metis snd_conv)

lemma logs_after_rd: "dw_rd io off s = (v, s1) \<Longrightarrow> logs s1 w s2 \<Longrightarrow> logs s w s2"
  using logs_trans [OF logs_rd_at] by fastforce

lemma wait_bits_quiet: "logs s [] (snd (wait_bits io off m want n s))"
  by (induction n arbitrary: s) (auto simp: logs_refl Let_def split: prod.splits intro: logs_rd_at logs_after_rd)

lemma wait_tx_quiet: "logs s [] (snd (wait_tx_space io n s))"
  by (induction n arbitrary: s) (auto simp: logs_refl Let_def split: prod.splits intro: logs_rd_at logs_after_rd)

lemma wait_rx_quiet: "logs s [] (snd (wait_rx_data io n s))"
  by (induction n arbitrary: s) (auto simp: logs_refl Let_def split: prod.splits intro: logs_rd_at logs_after_rd)

lemma wait_stop_quiet: "logs s [] (snd (wait_stop_or_abort io n s))"
  by (induction n arbitrary: s)
    (auto simp: logs_refl Let_def split: prod.splits intro: logs_rd logs_rd_at logs_after_rd)

lemma wait_bits_after: "logs s w s1 \<Longrightarrow> logs s w (snd (wait_bits io off m want n s1))"
  using logs_trans [OF _ wait_bits_quiet] by fastforce

lemma disable_logs: "g_regs s \<noteq> 0 \<Longrightarrow> logs s [(DW_IC_ENABLE, 0)] (dw_disable io s)"
  using wait_bits_after [OF logs_wr [OF logs_refl]] unfolding dw_disable_def by fastforce

definition enable_log :: "u32 \<Rightarrow> (nat \<times> u32) list" where
  "enable_log depth =
     [(DW_IC_ENABLE, 0), (DW_IC_INTR_MASK, 0), (DW_IC_SS_SCL_HCNT, 480), (DW_IC_SS_SCL_LCNT, 520),
      (DW_IC_FS_SPKLEN, 2), (DW_IC_CON, 0x63), (DW_IC_TX_TL, depth div 2 - 1), (DW_IC_RX_TL, 0), (DW_IC_ENABLE, 1)]"

lemma enable_logs: "logs s (enable_log (g_tx_depth s)) (snd (dw_enable_controller io s))"
proof -
  let ?s1 = "snd (wait_bits io DW_IC_ENABLE_STATUS 1 0 200000 (dw_wr io DW_IC_ENABLE 0 s))"
  have 1: "logs s [(DW_IC_ENABLE, 0)] ?s1"
    using wait_bits_after [OF logs_wr [OF logs_refl]] by fastforce
  have 2: "logs s [(DW_IC_ENABLE, 0)] (clr_all_intr io ?s1)"
    unfolding clr_all_intr_def by (intro logs_rd 1)
  have depth: "g_tx_depth s' = g_tx_depth s" if "logs s w s'" for w s' using that by (auto simp: logs_def)
  show ?thesis
    using wait_bits_after [OF logs_wr [OF logs_wr [OF logs_wr [OF logs_wr [OF logs_wr [OF logs_wr [OF
      logs_wr [OF logs_wr [OF 2]]]]]]]]]
    unfolding dw_enable_controller_def enable_log_def Let_def
    by (simp add: depth [OF logs_wr [OF logs_wr [OF logs_wr [OF logs_wr [OF logs_wr [OF 2]]]]]])
qed

definition data_log :: "u32 list \<Rightarrow> (nat \<times> u32) list" where
  "data_log cmds = map (Pair DW_IC_DATA_CMD) cmds"

lemma send_logs:
  assumes "send_cmds io cmds s = (ok, s')"
  shows "\<exists>k. logs s (data_log (take k cmds)) s' \<and> k \<le> length cmds \<and> (ok \<longrightarrow> k = length cmds)"
  using assms
proof (induction io cmds s arbitrary: ok s' rule: send_cmds.induct)
  case (1 io s)
  then show ?case by (auto simp: logs_refl data_log_def)
next
  case (2 io c cs s)
  obtain t s1 where w: "wait_tx_space io 500000 s = (t, s1)" by (cases "wait_tx_space io 500000 s")
  then have q: "logs s [] s1" using wait_tx_quiet [of s io 500000] by simp
  show ?case
  proof (cases t)
    case False
    then show ?thesis using 2 w q by (auto simp: Let_def data_log_def intro!: exI [of _ 0])
  next
    case True
    then have "send_cmds io cs (dw_wr io DW_IC_DATA_CMD c s1) = (ok, s')" using "2.prems" w by (simp add: Let_def)
    from "2.IH" [OF w [symmetric] refl _ this] True obtain k where
      k: "logs (dw_wr io DW_IC_DATA_CMD c s1) (data_log (take k cs)) s'" "k \<le> length cs" "ok \<longrightarrow> k = length cs"
      by auto
    from logs_trans [OF logs_wr [OF q] k(1)] k(2,3) show ?thesis
      by (intro exI [of _ "Suc k"]) (simp add: data_log_def)
  qed
qed

lemma recv_quiet:
  assumes "recv_bytes io n s = (ok, bs, s')"
  shows "logs s [] s' \<and> length bs \<le> n \<and> (ok \<longrightarrow> length bs = n)"
  using assms
proof (induction n arbitrary: s ok bs s')
  case 0
  then show ?case by (simp add: logs_refl)
next
  case (Suc n)
  obtain t s1 where w: "wait_rx_data io 8000000 s = (t, s1)" by (cases "wait_rx_data io 8000000 s")
  then have q: "logs s [] s1" using wait_rx_quiet [of s io 8000000] by simp
  obtain v s2 where r: "dw_rd io DW_IC_DATA_CMD s1 = (v, s2)" by (cases "dw_rd io DW_IC_DATA_CMD s1")
  obtain ok' bs' s3 where i: "recv_bytes io n s2 = (ok', bs', s3)" by (cases "recv_bytes io n s2")
  have "logs s [] s3" using logs_trans [OF q logs_after_rd [OF r]] Suc.IH [OF i] by fastforce
  then show ?case using Suc.prems Suc.IH [OF i] q by (cases t) (auto simp: w r i Let_def)
qed

text \<open>The writes of a transfer that gets as far as the \<open>k\<close>-th command.\<close>

definition transfer_log :: "u32 \<Rightarrow> u8 \<Rightarrow> u32 list \<Rightarrow> (nat \<times> u32) list" where
  "transfer_log depth addr7 cmds =
     (DW_IC_ENABLE, 0) # enable_log depth @ [(DW_IC_TAR, ucast addr7)] @ data_log cmds @ [(DW_IC_ENABLE, 0)]"

lemma transfer_logs:
  assumes "dw_transfer io addr7 cmds n s = (ok, bs, s')" "g_regs s \<noteq> 0"
  shows "length bs \<le> n \<and> (ok \<longrightarrow> length bs = n) \<and>
    (\<not> ok \<and> bs = [] \<and> logs s ((DW_IC_ENABLE, 0) # enable_log (g_tx_depth s)) s' \<or>
     (\<exists>k \<le> length cmds. (ok \<longrightarrow> k = length cmds) \<and> logs s (transfer_log (g_tx_depth s) addr7 (take k cmds)) s'))"
proof -
  obtain en s1 where e: "dw_enable_controller io (dw_disable io s) = (en, s1)" by fastforce
  have d: "logs s [(DW_IC_ENABLE, 0)] (dw_disable io s)" by (rule disable_logs [OF assms(2)])
  then have "g_tx_depth (dw_disable io s) = g_tx_depth s" by (auto simp: logs_def)
  with logs_trans [OF d enable_logs [of "dw_disable io s" io]] have
    1: "logs s ((DW_IC_ENABLE, 0) # enable_log (g_tx_depth s)) s1" by (simp add: e)
  obtain ok2 s2 where x: "send_cmds io cmds (dw_wr io DW_IC_TAR (ucast addr7) s1) = (ok2, s2)" by fastforce
  obtain k where k: "logs (dw_wr io DW_IC_TAR (ucast addr7) s1) (data_log (take k cmds)) s2" "k \<le> length cmds"
    "ok2 \<longrightarrow> k = length cmds" using send_logs [OF x] by blast
  define w where "w = (DW_IC_ENABLE, 0) # enable_log (g_tx_depth s) @ [(DW_IC_TAR, ucast addr7)] @ data_log (take k cmds)"
  have 2: "logs s w s2" using logs_trans [OF logs_wr [OF 1] k(1)] by (simp add: w_def)
  have fin: "logs s (transfer_log (g_tx_depth s) addr7 (take k cmds)) (dw_disable io s'')" if "logs s w s''" for s''
    using logs_trans [OF that disable_logs] logs_regs [OF that] assms(2) by (simp add: transfer_log_def w_def)
  obtain ok3 s3 where y: "wait_stop_or_abort io 8000000 s2 = (ok3, s3)" by fastforce
  have 3: "logs s w s3" using logs_trans [OF 2 wait_stop_quiet [of s2 io 8000000]] by (simp add: y)
  obtain ok4 bs4 s4 where z: "recv_bytes io n s3 = (ok4, bs4, s4)" by (cases "recv_bytes io n s3")
  have 4: "logs s w s4" "length bs4 \<le> n" "ok4 \<longrightarrow> length bs4 = n"
    using logs_trans [OF 3, of "[]" s4] recv_quiet [OF z] by auto
  show ?thesis
    using assms(1) 1 fin [OF 2] fin [OF 3] fin [OF 4(1)] 4(2,3) k(2,3) unfolding dw_transfer_def e Let_def
    by (cases en; cases ok2; cases ok3) (auto simp: x y z)
qed

definition written :: "nat \<Rightarrow> (nat \<times> u32) list \<Rightarrow> u32 list" where
  "written r ws = map snd (filter (\<lambda>x. fst x = r) ws)"

lemma written_transfer:
  "written DW_IC_DATA_CMD (transfer_log depth addr7 cmds) = cmds"
  "written DW_IC_TAR (transfer_log depth addr7 cmds) = [ucast addr7]"
  "written DW_IC_DATA_CMD ((DW_IC_ENABLE, 0) # enable_log depth) = []"
  "last (transfer_log depth addr7 cmds) = (DW_IC_ENABLE, 0)"
  by (simp_all add: written_def transfer_log_def enable_log_def data_log_def filter_map o_def
      DW_IC_DATA_CMD_def DW_IC_TAR_def DW_IC_ENABLE_def DW_IC_INTR_MASK_def DW_IC_SS_SCL_HCNT_def
      DW_IC_SS_SCL_LCNT_def DW_IC_FS_SPKLEN_def DW_IC_CON_def DW_IC_TX_TL_def DW_IC_RX_TL_def)

lemma write_cmds_eq:
  assumes "w \<noteq> []"
  shows "write_cmds f w = map ucast (butlast w) @ [ucast (last w) OR f]"
proof (rule nth_equalityI)
  show "length (write_cmds f w) = length (map ucast (butlast w) @ [ucast (last w) OR f :: u32])"
    using assms by (simp add: write_cmds_def)
  fix i assume "i < length (write_cmds f w)"
  then have "i < length w" by (simp add: write_cmds_def)
  then show "write_cmds f w ! i = (map ucast (butlast w) @ [ucast (last w) OR f]) ! i"
    using assms by (auto simp: write_cmds_def nth_append nth_butlast last_conv_nth)
qed

lemma read_cmds_eq:
  assumes "0 < n"
  shows "read_cmds n = replicate (n - 1) CMD_READ @ [CMD_READ OR CMD_STOP]"
proof (rule nth_equalityI)
  show "length (read_cmds n) = length (replicate (n - 1) CMD_READ @ [CMD_READ OR CMD_STOP])"
    using assms by (simp add: read_cmds_def)
  fix i assume "i < length (read_cmds n)"
  then have "i < n" by (simp add: read_cmds_def)
  then show "read_cmds n ! i = (replicate (n - 1) CMD_READ @ [CMD_READ OR CMD_STOP]) ! i"
    using assms by (auto simp: read_cmds_def nth_append)
qed

text \<open>C27: a combined transfer speaks the bus protocol it means to: the controller's command register
  receives the bytes of the pointer, a restart flag on the last of them, one read command per byte
  asked for and a stop on the last, in this order and nothing else; a transfer that fails has sent a
  prefix of them; when any was sent the target address was set, once, and the last register write
  switches the controller off; success means all of them were sent and as many bytes came back.
  Nothing but the hardware changes.\<close>

theorem write_read_protocol:
  assumes "i2c_dw_write_read io addr7 w n s = (ok, bs, s')" "g_regs s \<noteq> 0" "w \<noteq> []" "0 < n"
  defines "cmds \<equiv> map ucast (butlast w) @ [ucast (last w) OR CMD_RESTART] @
    replicate (n - 1) CMD_READ @ [CMD_READ OR CMD_STOP]"
  shows "length bs \<le> n \<and> (\<exists>h ws k. s' = s\<lparr>wlog := wlog s @ ws, hw := h\<rparr> \<and>
    written DW_IC_DATA_CMD ws = take k cmds \<and>
    (k > 0 \<longrightarrow> written DW_IC_TAR ws = [ucast addr7] \<and> last ws = (DW_IC_ENABLE, 0)) \<and>
    (ok \<longrightarrow> length bs = n \<and> k = length cmds))"
proof -
  have c: "write_cmds CMD_RESTART w @ read_cmds n = cmds"
    using assms(3,4) by (simp add: cmds_def write_cmds_eq read_cmds_eq)
  have t: "dw_transfer io addr7 cmds n s = (ok, bs, s')" using assms(1-4) by (simp add: i2c_dw_write_read_def c)
  show ?thesis
    using transfer_logs [OF t assms(2)]
  proof (elim conjE disjE exE)
    assume l: "length bs \<le> n" "\<not> ok" "logs s ((DW_IC_ENABLE, 0) # enable_log (g_tx_depth s)) s'"
    then show ?thesis
      using written_transfer(3) [of "g_tx_depth s"] unfolding logs_def by (intro conjI) (blast, force intro: exI [of _ 0])
  next
    fix k assume l: "length bs \<le> n" "ok \<longrightarrow> length bs = n" "ok \<longrightarrow> k = length cmds"
      "logs s (transfer_log (g_tx_depth s) addr7 (take k cmds)) s'"
    then show ?thesis unfolding logs_def using written_transfer by blast
  qed
qed

text \<open>The one way out that leaves the controller switched on: the enabling itself timed out.\<close>

lemma enable_timeout_leaves_on:
  assumes "\<not> fst (dw_enable_controller io (dw_disable io s))" "g_regs s \<noteq> 0"
  shows "\<exists>s'. dw_transfer io addr7 cmds n s = (False, [], s') \<and> last (wlog s') = (DW_IC_ENABLE, 1)"
proof -
  let ?e = "dw_enable_controller io (dw_disable io s)"
  obtain h where "snd ?e = (dw_disable io s)\<lparr>wlog := wlog (dw_disable io s) @ enable_log (g_tx_depth (dw_disable io s)), hw := h\<rparr>"
    using enable_logs [of "dw_disable io s" io] unfolding logs_def by blast
  then have "last (wlog (snd ?e)) = (DW_IC_ENABLE, 1)" by (simp add: enable_log_def)
  then show ?thesis using assms(1) by (simp add: dw_transfer_def case_prod_beta Let_def)
qed

section \<open>The driver's invariant\<close>

definition i2c_ok :: "'h i2c \<Rightarrow> bool" where
  "i2c_ok s \<longleftrightarrow> length (g_buf s) = 256 \<and> mouse_ok (ic_mouse s) \<and>
     (g_active s \<longrightarrow> g_regs s \<noteq> 0 \<and> 1 \<le> unat (g_max_in s) \<and> unat (g_max_in s) \<le> 256)"

lemma master_write_logs: "\<exists>w. logs s w (snd (i2c_dw_master_write io a bs s))"
proof (cases "g_regs s = 0 \<or> bs = []")
  case True
  then show ?thesis by (auto simp: i2c_dw_master_write_def intro: logs_refl)
next
  case False
  obtain ok r s' where t: "dw_transfer io a (write_cmds CMD_STOP bs) 0 s = (ok, r, s')"
    by (cases "dw_transfer io a (write_cmds CMD_STOP bs) 0 s")
  then show ?thesis using transfer_logs [OF t] False by (auto simp: i2c_dw_master_write_def t)
qed

lemma hid_write_logs:
  "\<exists>w. logs s w (snd (hid_set_power io a r st s))" "\<exists>w. logs s w (snd (hid_send_reset io a r s))"
proof -
  have "\<exists>w. logs s w (snd (hid_xfer_write io a r tail s))" for tail
    unfolding hid_xfer_write_def using master_write_logs by (auto intro: logs_refl exI [of _ "[]"])
  then show "\<exists>w. logs s w (snd (hid_set_power io a r st s))" "\<exists>w. logs s w (snd (hid_send_reset io a r s))"
    by (simp_all add: hid_set_power_def hid_send_reset_def)
qed

lemma read_logs:
  assumes "i2c_dw_write_read io a w n s = (ok, bs, s') \<or> i2c_dw_master_read io a n s = (ok, bs, s')"
  shows "(\<exists>w. logs s w s') \<and> length bs \<le> n \<and> (ok \<longrightarrow> length bs = n \<and> g_regs s \<noteq> 0)"
proof (cases "g_regs s = 0 \<or> n = 0 \<or> \<not> (\<exists>cmds. dw_transfer io a cmds n s = (ok, bs, s'))")
  case True
  then show ?thesis
    using assms logs_refl by (auto simp: i2c_dw_write_read_def i2c_dw_master_read_def split: if_splits)
next
  case False
  then show ?thesis using transfer_logs by blast
qed

definition keeps :: "'h i2c \<Rightarrow> 'h i2c \<Rightarrow> bool" where
  "keeps s s' \<longleftrightarrow> g_buf s' = g_buf s \<and> ic_mouse s' = ic_mouse s \<and> g_active s' = g_active s"

lemma keeps_trans [trans]: "keeps s s1 \<Longrightarrow> keeps s1 s2 \<Longrightarrow> keeps s s2"
  by (simp add: keeps_def)

lemma logs_keeps: "logs s w s' \<Longrightarrow> keeps s s' \<and> g_regs s' = g_regs s \<and> g_max_in s' = g_max_in s"
  unfolding logs_def keeps_def by auto

lemma unbind_keeps: "keeps s (i2c_dw_unbind io s)" "g_regs (i2c_dw_unbind io s) = 0"
  using logs_keeps [OF disable_logs [of s io]]
  by (auto simp: i2c_dw_unbind_def keeps_def)

lemma bind_keeps:
  assumes "i2c_dw_bind_pci io d s = (ok, s')"
  shows "keeps s s' \<and> (\<not> ok \<longrightarrow> g_regs s' = 0)"
proof -
  have r: "keeps s2 s3" if "dw_rd io off s2 = (v, s3)" for off v and s2 s3 :: "'a i2c"
    using logs_keeps [OF logs_rd_at [OF that]] by simp
  show ?thesis
    using assms unbind_keeps [where s = s and io = io]
    by (auto simp: i2c_dw_bind_pci_def Let_def keeps_def split: option.splits prod.splits if_splits
        dest!: r [unfolded keeps_def])
qed

lemma try_one_ok:
  assumes "try_one_bus_slave_hidreg io l d sl reg s = (ok, s')"
  shows "g_buf s' = g_buf s \<and> ic_mouse s' = ic_mouse s \<and>
    (if ok then g_active s' \<and> g_regs s' \<noteq> 0 \<and> 1 \<le> unat (g_max_in s') \<and> unat (g_max_in s') \<le> 256
     else g_active s' = g_active s \<and> g_regs s' = 0)"
proof -
  let ?s0 = "s\<lparr>ic_pci := pci_enable_mmio_bus_master l (Some d) (ic_pci s)\<rparr>"
  obtain ok1 s1 where b: "i2c_dw_bind_pci io d ?s0 = (ok1, s1)" by fastforce
  have 1: "keeps s s1" using bind_keeps [OF b] by (simp add: keeps_def)
  obtain ok2 desc s2 where r: "read_hid_descriptor io sl reg s1 = (ok2, desc, s2)"
    by (cases "read_hid_descriptor io sl reg s1")
  obtain w2 where w2: "logs s1 w2 s2" "ok2 \<longrightarrow> g_regs s1 \<noteq> 0"
    using read_logs [OF disjI1 [OF r [unfolded read_hid_descriptor_def]]] by auto
  have 2: "keeps s s2" "ok2 \<longrightarrow> g_regs s2 \<noteq> 0"
    using logs_keeps [OF w2(1)] w2(2) keeps_trans [OF 1] by auto
  define mx where "mx = (if get_le16 desc 10 = 0 \<or> get_le16 desc 10 > 256 then 256 else get_le16 desc 10)"
  have mx: "1 \<le> unat mx" "unat mx \<le> 256"
    by (auto simp: mx_def word_less_nat_alt word_le_nat_alt not_less Suc_le_eq unat_gt_0)
  define s3 where "s3 = s2\<lparr>g_cmd_reg := get_le16 desc 16, g_data_reg := get_le16 desc 18, g_max_in := mx\<rparr>"
  have 3: "keeps s s3" "g_regs s3 = g_regs s2" "g_max_in s3 = mx" using 2 by (simp_all add: s3_def keeps_def)
  obtain ok4 s4 where p: "hid_set_power io sl (g_cmd_reg s3) I2C_HID_PWR_ON s3 = (ok4, s4)" by fastforce
  have 4: "keeps s s4" "g_regs s4 = g_regs s2" "g_max_in s4 = mx"
    using hid_write_logs(1) [of s3 io sl "g_cmd_reg s3" I2C_HID_PWR_ON] logs_keeps keeps_trans [OF 3(1)] 3 p by fastforce+
  obtain ok5 s5 where q: "hid_send_reset io sl (g_cmd_reg s4) s4 = (ok5, s5)" by fastforce
  have 5: "keeps s s5" "g_regs s5 = g_regs s2" "g_max_in s5 = mx"
    using hid_write_logs(2) [of s4 io sl "g_cmd_reg s4"] logs_keeps keeps_trans [OF 4(1)] 4 q by fastforce+
  define s6 where "s6 = snd (hid_set_power io sl (g_cmd_reg s5) I2C_HID_PWR_ON s5)"
  have 6: "keeps s s6" "g_regs s6 = g_regs s2" "g_max_in s6 = mx"
    using hid_write_logs(1) [of s5 io sl "g_cmd_reg s5" I2C_HID_PWR_ON] logs_keeps keeps_trans [OF 5(1)] 5
    unfolding s6_def by fastforce+
  have t: "try_one_bus_slave_hidreg io l d sl reg s =
      (if \<not> ok1 then (False, s1)
       else if \<not> ok2 \<or> get_le16 desc 2 \<noteq> 0x0100 \<or> get_le16 desc 0 \<noteq> 30 then (False, i2c_dw_unbind io s2)
       else if \<not> ok4 then (False, i2c_dw_unbind io s4) else if \<not> ok5 then (False, i2c_dw_unbind io s5)
       else (True, s6\<lparr>g_slave := sl, g_active := True\<rparr>))"
    unfolding try_one_bus_slave_hidreg_def Let_def b prod.case r mx_def [symmetric] s3_def [symmetric] p q s6_def [symmetric]
    by simp
  have u: "keeps s (i2c_dw_unbind io s'')" if "keeps s s''" for s'' using keeps_trans [OF that unbind_keeps(1)] .
  show ?thesis
    using assms bind_keeps [OF b] 1 2 u [OF 2(1)] u [OF 4(1)] u [OF 5(1)] 6 mx unbind_keeps(2)
    unfolding t keeps_def by (auto split: if_splits)
qed

lemma try_all_ok:
  assumes "try_all io l cs s = (ok, s')"
  shows "g_buf s' = g_buf s \<and> ic_mouse s' = ic_mouse s \<and>
    (if ok then g_active s' \<and> g_regs s' \<noteq> 0 \<and> 1 \<le> unat (g_max_in s') \<and> unat (g_max_in s') \<le> 256
     else g_active s' = g_active s \<and> (cs \<noteq> [] \<longrightarrow> g_regs s' = 0))"
  using assms
proof (induction io l cs s arbitrary: ok s' rule: try_all.induct)
  case (1 io l s)
  then show ?case by auto
next
  case (2 io l d reg sl cs s)
  obtain ok1 s1 where o: "try_one_bus_slave_hidreg io l d sl reg s = (ok1, s1)" by fastforce
  show ?case
  proof (cases ok1)
    case True
    then show ?thesis using "2.prems" try_one_ok [OF o] by (simp add: o)
  next
    case False
    then have "try_all io l cs s1 = (ok, s')" using "2.prems" by (simp add: o)
    note r = "2.IH" [OF o [symmetric] refl False this] try_one_ok [OF o]
    have "s' = s1" if "cs = []" using \<open>try_all io l cs s1 = (ok, s')\<close> that by simp
    with r False show ?thesis by (cases "cs = []") (simp_all split: if_splits)
  qed
qed

lemma i2c_poll_ok:
  assumes "i2c_ok s"
  shows "i2c_ok (i2c_hid_mouse_poll io s)"
proof (cases "g_active s")
  case True
  obtain ok bs s1 where r: "i2c_dw_master_read io (g_slave s) (unat (g_max_in s)) s = (ok, bs, s1)"
    by (cases "i2c_dw_master_read io (g_slave s) (unat (g_max_in s)) s")
  obtain w where w: "logs s w s1" "length bs \<le> unat (g_max_in s)" using read_logs [OF disjI2 [OF r]] by blast
  define s2 where "s2 = s1\<lparr>g_buf := bs @ drop (length bs) (g_buf s1)\<rparr>"
  have "i2c_ok s2" unfolding s2_def
    using logs_keeps [OF w(1)] w(2) assms True by (auto simp: i2c_ok_def keeps_def)
  moreover have "i2c_ok (s'\<lparr>ic_mouse := mouse_rel_inject dx dy bt (ic_mouse s')\<rparr>)"
    if "i2c_ok s'" for s' :: "'a i2c" and dx dy bt
    using that by (simp add: i2c_ok_def inject_ok)
  ultimately show ?thesis
    using True unfolding i2c_hid_mouse_poll_def r Let_def prod.case s2_def [symmetric]
    by (simp split: option.split prod.split)
qed (simp add: assms i2c_hid_mouse_poll_def)

inductive i2c_step :: "'h regio \<Rightarrow> latch \<Rightarrow> 'h i2c \<Rightarrow> 'h i2c \<Rightarrow> bool" for io l where
  i2c_init_step: "i2c_step io l s (snd (i2c_hid_mouse_init io l s))"
| i2c_poll_step: "i2c_step io l s (i2c_hid_mouse_poll io s)"

lemma i2c_step_ok: "i2c_step io l s s' \<Longrightarrow> i2c_ok s \<Longrightarrow> i2c_ok s'"
proof (induction rule: i2c_step.induct)
  case (i2c_init_step s)
  obtain ok s' where t: "try_all io l (i2c_candidates (ic_pci s)) (s\<lparr>g_active := False\<rparr>) = (ok, s')" by fastforce
  show ?case using try_all_ok [OF t] i2c_init_step by (auto simp: i2c_hid_mouse_init_def t i2c_ok_def split: if_splits)
qed (rule i2c_poll_ok)

text \<open>Whatever the bus and the hardware answer, after any number of start-ups and polls an active
  touchpad has a bound controller and a report size from 1 to 256, the size of the report buffer, which
  keeps its length, and the cursor stays on the screen.\<close>

theorem i2c_run_ok:
  assumes "(i2c_step io l)\<^sup>*\<^sup>* s0 s" "\<not> g_active s0" "length (g_buf s0) = 256" "mouse_ok (ic_mouse s0)"
  shows "(g_active s \<longrightarrow> g_regs s \<noteq> 0 \<and> 1 \<le> unat (g_max_in s) \<and> unat (g_max_in s) \<le> length (g_buf s)) \<and>
    0 \<le> cur_x (ic_mouse s) \<and> cur_x (ic_mouse s) < int (unat (scr_w (ic_mouse s))) \<and>
    0 \<le> cur_y (ic_mouse s) \<and> cur_y (ic_mouse s) < int (unat (scr_h (ic_mouse s)))"
proof -
  have "i2c_ok s0" using assms(2-4) by (simp add: i2c_ok_def)
  with assms(1) have "i2c_ok s" by (induction rule: rtranclp_induct) (auto intro: i2c_step_ok)
  then show ?thesis by (simp add: i2c_ok_def mouse_ok_def)
qed

text \<open>The start-up reports success exactly when the touchpad is active, and a failed one leaves no
  controller bound, if there was any to try.\<close>

theorem i2c_init_result:
  assumes "i2c_hid_mouse_init io l s = (ok, s')"
  shows "(ok \<longleftrightarrow> g_active s') \<and> (ok \<longrightarrow> g_regs s' \<noteq> 0) \<and>
    (\<not> ok \<and> i2c_candidates (ic_pci s) \<noteq> [] \<longrightarrow> g_regs s' = 0)"
  using try_all_ok [OF assms [unfolded i2c_hid_mouse_init_def]] by (auto split: if_splits)

section \<open>A run\<close>

text \<open>A controller that answers at once, used to check that the hypotheses above can hold.\<close>

definition example_io :: "bool regio" where
  "example_io =
     \<lparr>reg_rd = \<lambda>a h. (if a = 0x1000 + 0x9C then (if h then 1 else 0) else if a = 0x1000 + 0x34 then 0x200
          else if a = 0x1000 + 0x70 then 8 else if a = 0x1000 + 0x10 then 0x5A else 0, h),
      reg_wr = \<lambda>a v h. if a = 0x1000 + 0x6C then v \<noteq> 0 else h\<rparr>"

definition example_dw :: "bool dw" where
  "example_dw = \<lparr>hw = False, g_regs = 0x1000, g_tx_depth = 32, g_rx_depth = 32, wlog = [], dw_hhdm = 0, dw_maps = []\<rparr>"

definition example_on :: "bool \<Rightarrow> bool dw \<Rightarrow> bool" where
  "example_on en s \<longleftrightarrow> g_regs s = 0x1000 \<and> g_tx_depth s = 32 \<and> hw s = en"

lemma example_rd:
  assumes "example_on en s"
  shows "dw_rd example_io DW_IC_ENABLE_STATUS s = (if en then 1 else 0, s)"
    "dw_rd example_io DW_IC_RAW_INTR_STAT s = (0x200, s)" "dw_rd example_io DW_IC_STATUS s = (8, s)"
    "dw_rd example_io DW_IC_DATA_CMD s = (0x5A, s)" "dw_rd example_io DW_IC_TXFLR s = (0, s)"
    "snd (dw_rd example_io off s) = s"
  using assms
  by (simp_all add: dw_rd_def example_io_def example_on_def DW_IC_ENABLE_STATUS_def DW_IC_RAW_INTR_STAT_def
      DW_IC_STATUS_def DW_IC_DATA_CMD_def DW_IC_TXFLR_def)

lemma example_wr:
  assumes "example_on en s"
  shows "example_on (v \<noteq> 0) (dw_wr example_io DW_IC_ENABLE v s)"
    "off < 0x6C \<Longrightarrow> example_on en (dw_wr example_io off v s)"
    "example_on en (dw_wr example_io DW_IC_FS_SPKLEN v s)"
proof -
  have "(0x1000 + of_nat off :: u64) \<noteq> 0x106C" if "off < 0x6C" for off
  proof
    assume e: "(0x1000 + of_nat off :: u64) = 0x106C"
    have "unat (0x1000 + of_nat off :: u64) = 0x1000 + off"
      using that by (simp add: unat_word_ariths unat_of_nat take_bit_nat_eq_self)
    then show False using e that by simp
  qed
  then show "example_on (v \<noteq> 0) (dw_wr example_io DW_IC_ENABLE v s)"
    "off < 0x6C \<Longrightarrow> example_on en (dw_wr example_io off v s)"
    "example_on en (dw_wr example_io DW_IC_FS_SPKLEN v s)"
    using assms by (simp_all add: dw_wr_def example_io_def example_on_def DW_IC_ENABLE_def DW_IC_FS_SPKLEN_def)
qed

lemma example_waits:
  assumes "example_on en s" "0 < n"
  shows "en \<Longrightarrow> wait_bits example_io DW_IC_ENABLE_STATUS 1 1 n s = (True, s)"
    "\<not> en \<Longrightarrow> wait_bits example_io DW_IC_ENABLE_STATUS 1 0 n s = (True, s)"
    "wait_tx_space example_io n s = (True, s)" "wait_rx_data example_io n s = (True, s)"
    "wait_stop_or_abort example_io n s = (True, s)"
proof -
  obtain m where m: "n = Suc m" using assms(2) by (cases n) auto
  have "g_tx_depth s = 32" using assms(1) by (simp add: example_on_def)
  then show "en \<Longrightarrow> wait_bits example_io DW_IC_ENABLE_STATUS 1 1 n s = (True, s)"
    "\<not> en \<Longrightarrow> wait_bits example_io DW_IC_ENABLE_STATUS 1 0 n s = (True, s)"
    "wait_tx_space example_io n s = (True, s)" "wait_rx_data example_io n s = (True, s)"
    "wait_stop_or_abort example_io n s = (True, s)"
    unfolding m by (simp_all add: example_rd [OF assms(1)])
qed

lemma example_enable:
  assumes "example_on en s"
  shows "\<exists>s'. dw_enable_controller example_io (dw_disable example_io s) = (True, s') \<and> example_on True s'"
proof -
  have d: "example_on False (snd (wait_bits example_io DW_IC_ENABLE_STATUS 1 0 200000 (dw_wr example_io DW_IC_ENABLE 0 s)))"
    if "example_on e s" for e s
    using example_wr(1) [OF that, of 0] example_waits(2) by fastforce
  have "example_on False (dw_disable example_io s)" using d [OF assms] assms by (simp add: dw_disable_def example_on_def)
  from d [OF this] have c: "example_on False (clr_all_intr example_io (snd (wait_bits example_io DW_IC_ENABLE_STATUS 1 0 200000
      (dw_wr example_io DW_IC_ENABLE 0 (dw_disable example_io s)))))" by (simp add: clr_all_intr_def example_rd(6))
  have small: "DW_IC_INTR_MASK < 0x6C" "DW_IC_SS_SCL_HCNT < 0x6C" "DW_IC_SS_SCL_LCNT < 0x6C" "DW_IC_CON < 0x6C"
    "DW_IC_TX_TL < 0x6C" "DW_IC_RX_TL < 0x6C"
    by (simp_all add: DW_IC_INTR_MASK_def DW_IC_SS_SCL_HCNT_def DW_IC_SS_SCL_LCNT_def DW_IC_CON_def
        DW_IC_TX_TL_def DW_IC_RX_TL_def)
  have w: "\<exists>s''. wait_bits example_io DW_IC_ENABLE_STATUS 1 1 200000 (dw_wr example_io DW_IC_ENABLE 1 s') = (True, s'') \<and>
      example_on True s''" if "example_on False s'" for s'
    using example_wr(1) [OF that, of 1] example_waits(1) [of True "dw_wr example_io DW_IC_ENABLE 1 s'" 200000] by auto
  show ?thesis unfolding dw_enable_controller_def Let_def
    by (intro w example_wr(2) small example_wr(3) c)
qed

lemma example_send: "example_on en s \<Longrightarrow> \<exists>s'. send_cmds example_io cmds s = (True, s') \<and> example_on en s'"
proof (induction cmds arbitrary: s)
  case (Cons c cmds)
  have "example_on en (dw_wr example_io DW_IC_DATA_CMD c s)"
    using example_wr(2) [OF Cons.prems, of DW_IC_DATA_CMD] by (simp add: DW_IC_DATA_CMD_def)
  from Cons.IH [OF this] show ?case by (simp add: example_waits(3) [OF Cons.prems])
qed simp

lemma example_recv: "example_on en s \<Longrightarrow> recv_bytes example_io n s = (True, replicate n 0x5A, s)"
  by (induction n) (simp_all add: example_waits(4) example_rd(4))

lemma example_transfer:
  "\<exists>s'. i2c_dw_write_read example_io 0x2C [1, 0] 2 example_dw = (True, [0x5A, 0x5A], s')"
proof -
  have e: "example_on False example_dw" by (simp add: example_dw_def example_on_def)
  obtain s1 where 1: "dw_enable_controller example_io (dw_disable example_io example_dw) = (True, s1)" "example_on True s1"
    using example_enable [OF e] by blast
  have "example_on True (dw_wr example_io DW_IC_TAR 0x2C s1)"
    using example_wr(2) [OF 1(2), of DW_IC_TAR] by (simp add: DW_IC_TAR_def)
  from example_send [OF this] obtain s2 where
    2: "send_cmds example_io (write_cmds CMD_RESTART [1, 0] @ read_cmds 2) (dw_wr example_io DW_IC_TAR 0x2C s1) = (True, s2)"
    "example_on True s2" by blast
  have r: "g_regs example_dw \<noteq> 0" "ucast (0x2C :: u8) = (0x2C :: u32)" by (simp_all add: example_dw_def)
  have "wait_stop_or_abort example_io 8000000 s2 = (True, s2)" by (rule example_waits(5) [OF 2(2)]) simp
  then have "i2c_dw_write_read example_io 0x2C [1, 0] 2 example_dw = (True, replicate 2 0x5A, dw_disable example_io s2)"
    using r(1) unfolding i2c_dw_write_read_def dw_transfer_def Let_def 1(1) prod.case r(2) 2(1)
    by (simp add: example_recv [OF 2(2)])
  then show ?thesis by (simp add: numeral_2_eq_2)
qed

lemma write_read_protocol_witness:
  "\<exists>s'. i2c_dw_write_read example_io 0x2C [1, 0] 2 example_dw = (True, [0x5A, 0x5A], s') \<and>
     written DW_IC_DATA_CMD (wlog s') = [1, 0x400, 0x100, 0x300]"
proof -
  obtain s' where s': "i2c_dw_write_read example_io 0x2C [1, 0] 2 example_dw = (True, [0x5A, 0x5A], s')"
    using example_transfer by blast
  have "g_regs example_dw \<noteq> 0" "wlog example_dw = []" by (simp_all add: example_dw_def)
  with write_read_protocol [OF s'] s' show ?thesis by auto
qed

definition example_i2c :: "bool i2c" where
  "example_i2c = dw.extend example_dw
     (i2c.fields 0 0 0 0 False (replicate 256 0) \<lparr>cf8 = 0, cfg = \<lambda>_. 0, pdevices = [], device_count = 0\<rparr> mouse_start)"

lemma example_init: "i2c_hid_mouse_init example_io (\<lambda>_ _ v. v) example_i2c = (False, example_i2c)"
  by (simp add: i2c_hid_mouse_init_def i2c_candidates_def example_i2c_def dw.defs i2c.defs example_dw_def)

lemma i2c_run_ok_witness:
  "0 \<le> cur_x (ic_mouse (i2c_hid_mouse_poll example_io (snd (i2c_hid_mouse_init example_io (\<lambda>_ _ v. v) example_i2c))))"
proof -
  have "(i2c_step example_io (\<lambda>_ _ v. v))\<^sup>*\<^sup>* example_i2c
      (i2c_hid_mouse_poll example_io (snd (i2c_hid_mouse_init example_io (\<lambda>_ _ v. v) example_i2c)))"
    by (rule rtranclp.rtrancl_into_rtrancl [OF r_into_rtranclp]) (rule i2c_init_step, rule i2c_poll_step)
  moreover have "\<not> g_active example_i2c" "length (g_buf example_i2c) = 256" "mouse_ok (ic_mouse example_i2c)"
    using mouse_start_ok by (simp_all add: example_i2c_def dw.defs i2c.defs example_dw_def)
  ultimately show ?thesis using i2c_run_ok by blast
qed

lemma i2c_init_result_witness: "\<not> g_active (snd (i2c_hid_mouse_init example_io (\<lambda>_ _ v. v) example_i2c))"
  using i2c_init_result [OF example_init] by (simp add: example_init)

end
