(* ===== verification/FontMath.thy ===== *)
theory FontMath
  imports Complex_Main
begin

text \<open>
  The mathematical functions \<^verbatim>\<open>compositor/font.c\<close> supplies to its rasteriser in place of a C library, in exact
  arithmetic over the reals instead of single precision.  Rounding, remainder and square root are shown
  to be right, the square root in a stated range; outside it, and for the cube root and the cosine, the
  theorems give inputs where the result is far off whatever the precision.
\<close>

definition FM_PI :: real where "FM_PI = 314159265 / 100000000"
definition FM_HPI :: real where "FM_HPI = 15707963 / 10000000"

text \<open>The conversion to an integer type drops the fraction.\<close>

definition c_int :: "real \<Rightarrow> int" where
  "c_int x = (if x < 0 then - \<lfloor>- x\<rfloor> else \<lfloor>x\<rfloor>)"

definition fm_ifloor :: "real \<Rightarrow> int" where
  "fm_ifloor x = (let i = c_int x in i - (if real_of_int i > x then 1 else 0))"

definition fm_iceil :: "real \<Rightarrow> int" where
  "fm_iceil x = (let i = c_int x in i + (if real_of_int i < x then 1 else 0))"

definition fm_fabsf :: "real \<Rightarrow> real" where
  "fm_fabsf x = (if x < 0 then - x else x)"

definition sqrt_step :: "real \<Rightarrow> real \<Rightarrow> real" where
  "sqrt_step x y = (1 / 2) * (y + x / y)"

definition fm_sqrtf :: "real \<Rightarrow> real" where
  "fm_sqrtf x =
     (if x \<le> 0 then 0 else (sqrt_step x ^^ 10) (if x > 1 then x * (1 / 4) else x))"

definition cbrt_step :: "real \<Rightarrow> real \<Rightarrow> real" where
  "cbrt_step x t = (2 * t + x / (t * t)) * (1 / 3)"

definition fm_cbrtf :: "real \<Rightarrow> real" where
  "fm_cbrtf v =
     (let sgn = (if v < 0 then -1 else 1); x = fm_fabsf v
      in if x = 0 then 0 else (cbrt_step x ^^ 14) x * sgn)"

definition fm_fmodf :: "real \<Rightarrow> real \<Rightarrow> real" where
  "fm_fmodf a b =
     (if b = 0 then 0
      else let bb = fm_fabsf b; aa = fm_fabsf a;
               r = aa - real_of_int (c_int (aa / bb)) * bb;
               r = (if r < 0 then r + bb else r)
           in if a < 0 then - r else r)"

definition fm_atan_small :: "real \<Rightarrow> real" where
  "fm_atan_small u = (let u2 = u * u in u * (1 - u2 * (3333333 / 10000000 - u2 * (2 / 10))))"

definition fm_atanf :: "real \<Rightarrow> real" where
  "fm_atanf x =
     (let neg = (x < 0); x = (if neg then - x else x);
          res = (if x \<le> 1 then fm_atan_small x else FM_HPI - fm_atan_small (1 / x))
      in if neg then - res else res)"

definition fm_atan2f :: "real \<Rightarrow> real \<Rightarrow> real" where
  "fm_atan2f y x =
     (if x = 0 then (if y \<ge> 0 then FM_HPI else - FM_HPI)
      else if x > 0 then fm_atanf (y / x)
      else let a = fm_atanf (y / x) in if y \<ge> 0 then a + FM_PI else a - FM_PI)"

text \<open>The two loops that bring the argument of the cosine into a period; over the reals they end.\<close>

abbreviation PI2 :: real where "PI2 \<equiv> 62831853 / 10000000"

function turn_down :: "real \<Rightarrow> real" where
  "turn_down x = (if x > FM_PI then turn_down (x - PI2) else x)"
  by pat_completeness auto
termination
  by (relation "measure (\<lambda>x. nat \<lceil>x\<rceil>)") (auto simp: FM_PI_def nat_less_iff less_ceiling_iff ceiling_less_iff, linarith+)

function turn_up :: "real \<Rightarrow> real" where
  "turn_up x = (if x < - FM_PI then turn_up (x + PI2) else x)"
  by pat_completeness auto
termination
  by (relation "measure (\<lambda>x. nat \<lceil>- x\<rceil>)") (auto simp: FM_PI_def nat_less_iff less_ceiling_iff ceiling_less_iff, linarith+)

declare turn_down.simps [simp del] turn_up.simps [simp del]

definition cos_poly :: "real \<Rightarrow> real" where
  "cos_poly x = (let x2 = x * x in 1 - x2 * (1 / 2 - x2 * (1 / 24 - x2 * (1 / 720))))"

definition fm_cosf :: "real \<Rightarrow> real" where
  "fm_cosf x = cos_poly (turn_up (turn_down x))"

definition fm_acosf :: "real \<Rightarrow> real" where
  "fm_acosf x =
     (if x \<ge> 1 then 0 else if x \<le> -1 then FM_PI else fm_atan2f (fm_sqrtf (1 - x * x)) x)"

section \<open>Rounding and remainder\<close>

lemma fm_round: "fm_ifloor x = \<lfloor>x\<rfloor>" "fm_iceil x = \<lceil>x\<rceil>"
proof -
  have c: "c_int x = (if x < 0 then \<lceil>x\<rceil> else \<lfloor>x\<rfloor>)" by (simp add: c_int_def ceiling_def)
  show "fm_ifloor x = \<lfloor>x\<rfloor>" unfolding fm_ifloor_def c Let_def by (auto; linarith)
  show "fm_iceil x = \<lceil>x\<rceil>" unfolding fm_iceil_def c Let_def by (auto; linarith)
qed

lemma fm_fmodf_spec:
  assumes "b \<noteq> 0"
  shows "\<exists>k :: int. a = of_int k * b + fm_fmodf a b" "\<bar>fm_fmodf a b\<bar> < \<bar>b\<bar>" "a \<ge> 0 \<longrightarrow> fm_fmodf a b \<ge> 0" "a \<le> 0 \<longrightarrow> fm_fmodf a b \<le> 0"
proof -
  define q where "q = \<lfloor>\<bar>a\<bar> / \<bar>b\<bar>\<rfloor>"
  have ab: "fm_fabsf x = \<bar>x\<bar>" for x by (simp add: fm_fabsf_def)
  have "\<not> \<bar>a\<bar> / \<bar>b\<bar> < 0" by (simp add: not_less)
  then have q: "c_int (\<bar>a\<bar> / \<bar>b\<bar>) = q" by (simp only: c_int_def q_def if_False)
  have "of_int q \<le> \<bar>a\<bar> / \<bar>b\<bar>" "\<bar>a\<bar> / \<bar>b\<bar> < of_int q + 1" unfolding q_def by linarith+
  then have r: "0 \<le> \<bar>a\<bar> - of_int q * \<bar>b\<bar>" "\<bar>a\<bar> - of_int q * \<bar>b\<bar> < \<bar>b\<bar>"
    using assms by (simp_all add: field_simps)
  have zero: "a = 0 \<Longrightarrow> q = 0" by (simp add: q_def)
  have f: "fm_fmodf a b = (if a < 0 then - (\<bar>a\<bar> - of_int q * \<bar>b\<bar>) else \<bar>a\<bar> - of_int q * \<bar>b\<bar>)"
    using assms r unfolding fm_fmodf_def Let_def ab q by auto
  show "\<exists>k :: int. a = of_int k * b + fm_fmodf a b"
    by (rule exI [of _ "(if (a < 0) = (b < 0) then q else - q)"]) (auto simp: f abs_if)
  show "\<bar>fm_fmodf a b\<bar> < \<bar>b\<bar>" "a \<ge> 0 \<longrightarrow> fm_fmodf a b \<ge> 0" "a \<le> 0 \<longrightarrow> fm_fmodf a b \<le> 0"
    using r zero by (auto simp: f)
qed

section \<open>Square root\<close>

text \<open>One step of the iteration on the ratio to the true root.\<close>

definition half_step :: "real \<Rightarrow> real" where
  "half_step r = (r + 1 / r) / 2"

lemma half_step_ge_1: "0 < r \<Longrightarrow> 1 \<le> half_step r"
proof -
  assume r: "0 < r"
  have "0 \<le> (r - 1) * (r - 1)" by simp
  then have "2 * r \<le> r * r + 1" by (simp add: algebra_simps)
  then show ?thesis using r by (simp add: half_step_def field_simps)
qed

lemma sqrt_iterate:
  assumes "0 < x" "0 < r"
  shows "(sqrt_step x ^^ n) (r * sqrt x) = (half_step ^^ n) r * sqrt x \<and> 0 < (half_step ^^ n) r"
proof (induction n)
  case (Suc n)
  let ?r = "(half_step ^^ n) r"
  have "x / (?r * sqrt x) = (1 / ?r) * sqrt x"
    using assms Suc by (simp add: field_simps)
  then have "sqrt_step x (?r * sqrt x) = half_step ?r * sqrt x"
    by (simp add: sqrt_step_def half_step_def ring_distribs)
  moreover have "0 < half_step ?r" using half_step_ge_1 [of ?r] Suc by linarith
  ultimately show ?case using Suc by simp
qed (simp add: assms)

lemma half_step_le:
  assumes "1 / M \<le> r" "r \<le> M" "1 \<le> M"
  shows "half_step r \<le> half_step M"
proof -
  have r: "0 < r" using assms(1,3) by (meson divide_pos_pos less_le_trans zero_less_one)
  have "0 \<le> (M - r) * (M * r - 1)"
    using assms r by (intro mult_nonneg_nonneg) (auto simp: field_simps)
  then have "M * (r * r + 1) \<le> r * (M * M + 1)" by (simp add: algebra_simps)
  then show ?thesis using r assms(3) by (simp add: half_step_def field_simps)
qed

lemma half_step_chain:
  assumes "1 \<le> r" "r \<le> M" "half_step M \<le> N"
  shows "1 \<le> half_step r" "half_step r \<le> N"
proof -
  show "1 \<le> half_step r" using half_step_ge_1 [of r] assms(1) by simp
  have "1 / M \<le> 1" using assms(1,2) by (simp add: divide_le_eq_1)
  then show "half_step r \<le> N" using half_step_le [of M r] assms by linarith
qed

lemma half_steps_converge:
  assumes "1 / 16 \<le> r" "r \<le> 16"
  shows "1 \<le> (half_step ^^ 10) r" "(half_step ^^ 10) r \<le> 1 + 1 / 10 ^ 13"
proof -
  have 1: "1 \<le> half_step r" "half_step r \<le> 81 / 10"
    using half_step_ge_1 [of r] half_step_le [of 16 r] assms by (auto simp: half_step_def)
  have h: "half_step (81 / 10) \<le> 42 / 10"
    "half_step (42 / 10) \<le> 23 / 10"
    "half_step (23 / 10) \<le> 137 / 100"
    "half_step (137 / 100) \<le> 1051 / 1000"
    "half_step (1051 / 1000) \<le> 10013 / 10000"
    "half_step (10013 / 10000) \<le> 1000001 / 1000000"
    "half_step (1000001 / 1000000) \<le> 1 + 1 / 10 ^ 12"
    "half_step (1 + 1 / 10 ^ 12) \<le> 1 + 1 / 10 ^ 13"
    "half_step (1 + 1 / 10 ^ 13) \<le> 1 + 1 / 10 ^ 13"
    by (simp_all add: half_step_def)
  note 2 = half_step_chain [OF 1 h(1)]
  note 3 = half_step_chain [OF 2 h(2)]
  note 4 = half_step_chain [OF 3 h(3)]
  note 5 = half_step_chain [OF 4 h(4)]
  note 6 = half_step_chain [OF 5 h(5)]
  note 7 = half_step_chain [OF 6 h(6)]
  note 8 = half_step_chain [OF 7 h(7)]
  note 9 = half_step_chain [OF 8 h(8)]
  note 10 = half_step_chain [OF 9 h(9)]
  show "1 \<le> (half_step ^^ 10) r" "(half_step ^^ 10) r \<le> 1 + 1 / 10 ^ 13"
    using 10 by (simp_all add: eval_nat_numeral)
qed

text \<open>Ten Newton steps give the square root to thirteen digits for arguments between 1/256 and 4096.\<close>

theorem fm_sqrtf_accurate:
  assumes "1 / 256 \<le> x" "x \<le> 4096"
  shows "sqrt x \<le> fm_sqrtf x \<and> fm_sqrtf x \<le> sqrt x * (1 + 1 / 10 ^ 13)"
proof -
  have x: "0 < x" using assms(1) by (rule less_le_trans [rotated]) simp
  define r where "r = (if x > 1 then sqrt x / 4 else sqrt x)"
  have s: "1 / 16 \<le> sqrt x" "sqrt x \<le> 64"
    using real_sqrt_le_mono [OF assms(1)] real_sqrt_le_mono [OF assms(2)] real_sqrt_unique [of 64 4096]
      real_sqrt_unique [of "1 / 16" "1 / 256"] by (simp_all add: power2_eq_square)
  have r: "1 / 16 \<le> r \<and> r \<le> 16"
  proof (cases "x > 1")
    case True
    then have "1 < sqrt x" by simp
    with s True show ?thesis unfolding r_def if_P [OF True] by linarith
  next
    case False
    then have "sqrt x \<le> 1" by simp
    with s show ?thesis unfolding r_def if_not_P [OF False] by linarith
  qed
  then have r0: "0 < r" by linarith
  have "(if x > 1 then x * (1 / 4) else x) = r * sqrt x" using x by (simp add: r_def)
  then have "fm_sqrtf x = (half_step ^^ 10) r * sqrt x"
    using x sqrt_iterate [OF x r0, of 10] by (simp add: fm_sqrtf_def)
  then show ?thesis using half_steps_converge [of r] r x
    by (simp add: mult.commute mult_left_mono)
qed

lemma fm_sqrtf_accurate_witness: "sqrt 2 \<le> fm_sqrtf 2"
  using fm_sqrtf_accurate [of 2] by simp

text \<open>Below the range the ten steps do not suffice: the result never gets below 1/1024, however small
  the argument.\<close>

lemma iterate_ge:
  assumes "\<And>y :: real. 0 < y \<Longrightarrow> c * y \<le> f y" "0 < c" "0 < y"
  shows "c ^ n * y \<le> (f ^^ n) y"
proof (induction n)
  case (Suc n)
  then have "0 < (f ^^ n) y" using assms(2,3) by (meson less_le_trans mult_pos_pos zero_less_power)
  from assms(1) [OF this] Suc assms(2) show ?case by (simp add: mult.assoc) (meson mult_left_mono order.trans less_imp_le)
qed simp

lemma fm_sqrtf_floor:
  assumes "0 < x" "x \<le> 1"
  shows "1 / 1024 \<le> fm_sqrtf x"
proof -
  have "(1 / 2) ^ 9 * sqrt_step x x \<le> (sqrt_step x ^^ 9) (sqrt_step x x)"
    by (rule iterate_ge) (use assms in \<open>auto simp: sqrt_step_def add_pos_pos\<close>)
  moreover have "1 / 2 \<le> sqrt_step x x" using assms by (simp add: sqrt_step_def)
  moreover have "fm_sqrtf x = (sqrt_step x ^^ 9) (sqrt_step x x)"
    using assms by (simp add: fm_sqrtf_def eval_nat_numeral funpow_swap1)
  ultimately show ?thesis by (simp add: power_divide)
qed

section \<open>Cube root and cosine\<close>

text \<open>Fourteen steps from the argument itself are too few for small arguments: the first step
  overshoots to about a third of the inverse square, and each further one takes off at most a third.\<close>

lemma fm_cbrtf_floor:
  assumes "0 < x"
  shows "(2 / 3) ^ 13 / (3 * x) \<le> fm_cbrtf x"
proof -
  have "(2 / 3) ^ 13 * cbrt_step x x \<le> (cbrt_step x ^^ 13) (cbrt_step x x)"
    by (rule iterate_ge) (use assms in \<open>auto simp: cbrt_step_def add_pos_pos\<close>)
  moreover have "1 / (3 * x) \<le> cbrt_step x x" using assms by (simp add: cbrt_step_def field_simps)
  then have "(2 / 3) ^ 13 * (1 / (3 * x)) \<le> (2 / 3) ^ 13 * cbrt_step x x" by (intro mult_left_mono) simp_all
  moreover have "fm_cbrtf x = (cbrt_step x ^^ 13) (cbrt_step x x)"
    using assms by (simp add: fm_cbrtf_def fm_fabsf_def eval_nat_numeral funpow_swap1)
  ultimately show ?thesis by simp
qed

lemma fm_cbrtf_far: "fm_cbrtf (1 / 1000) > 17 * (1 / 10)" "(1 / 10) ^ 3 = (1 / 1000 :: real)"
  using fm_cbrtf_floor [of "1 / 1000"] by (simp_all add: eval_nat_numeral)

text \<open>The cosine leaves the interval from -1 to 1 at the ends of the period.\<close>

lemma fm_cosf_far: "fm_cosf FM_PI < - (6 / 5)"
proof -
  have "turn_down FM_PI = FM_PI" by (subst turn_down.simps) simp
  moreover have "turn_up FM_PI = FM_PI" by (subst turn_up.simps) (simp add: FM_PI_def)
  ultimately show ?thesis by (simp add: fm_cosf_def) (simp add: FM_PI_def cos_poly_def Let_def)
qed

end
