(* ===== verification/Utf8.thy ===== *)
theory Utf8
  imports Prelude
begin

text \<open>
  The UTF-8 decoder of \<^verbatim>\<open>compositor/font.c\<close>.  A string is the list of its bytes before the terminating zero;
  reading beyond the terminator has no value, so that a theorem can say it never happens.
\<close>

section \<open>Decoding\<close>

definition peek :: "u8 list \<Rightarrow> nat \<Rightarrow> u8 option" where
  "peek p i = (if i < length p then Some (p ! i) else if i = length p then Some 0 else None)"

text \<open>The chain of tests for continuation bytes, with the short-circuit order of the source.\<close>

fun all_cont :: "u8 list \<Rightarrow> nat \<Rightarrow> nat \<Rightarrow> bool option" where
  "all_cont p i 0 = Some True"
| "all_cont p i (Suc n) =
     (case peek p i of None \<Rightarrow> None
      | Some b \<Rightarrow> if b AND 0xC0 = 0x80 then all_cont p (i + 1) n else Some False)"

definition lead_and_cont :: "bool \<Rightarrow> u8 list \<Rightarrow> nat \<Rightarrow> bool option" where
  "lead_and_cont lead p n = (if lead then all_cont p 1 n else Some False)"

definition low6 :: "u8 list \<Rightarrow> nat \<Rightarrow> u32" where
  "low6 p i = ucast (p ! i) AND 0x3F"

definition utf8_decode :: "u8 list \<Rightarrow> (int \<times> u8 list) option" where
  "utf8_decode p =
     (case peek p 0 of None \<Rightarrow> None
      | Some c8 \<Rightarrow>
          let c = (ucast c8 :: u32) in
          if c = 0 then Some (-1, p)
          else if c < 0x80 then Some (uint c, drop 1 p)
          else case lead_and_cont (drop_bit 5 c = 6) p 1 of None \<Rightarrow> None
            | Some True \<Rightarrow> Some (uint (push_bit 6 (c AND 0x1F) OR low6 p 1), drop 2 p)
            | Some False \<Rightarrow>
          (case lead_and_cont (drop_bit 4 c = 0xE) p 2 of None \<Rightarrow> None
            | Some True \<Rightarrow> Some (uint (push_bit 12 (c AND 0x0F) OR push_bit 6 (low6 p 1) OR low6 p 2), drop 3 p)
            | Some False \<Rightarrow>
          (case lead_and_cont (drop_bit 3 c = 0x1E) p 3 of None \<Rightarrow> None
            | Some True \<Rightarrow> Some (uint (push_bit 18 (c AND 0x07) OR push_bit 12 (low6 p 1) OR push_bit 6 (low6 p 2) OR low6 p 3), drop 4 p)
            | Some False \<Rightarrow> Some (uint c, drop 1 p))))"

lemma utf8_shorter:
  assumes "utf8_decode p = Some (cp, q)" "0 \<le> cp"
  shows "length q < length p"
proof -
  have "p \<noteq> []" using assms by (auto simp: utf8_decode_def peek_def)
  then show ?thesis using assms
    by (auto simp: utf8_decode_def Let_def lead_and_cont_def split: option.splits bool.splits if_splits)
qed

section \<open>Decoding is total and inverts encoding\<close>

lemma all_cont_total: "i \<le> length p \<Longrightarrow> \<exists>r. all_cont p i n = Some r \<and> (r \<longrightarrow> i + n \<le> length p)"
proof (induction n arbitrary: i)
  case (Suc n)
  show ?case
  proof (cases "i < length p \<and> p ! i AND 0xC0 = 0x80")
    case True
    then show ?thesis using Suc.IH [of "i + 1"] by (auto simp: peek_def)
  next
    case False
    then show ?thesis using Suc.prems by (auto simp: peek_def)
  qed
qed (auto intro: exI [of _ True])

lemma lead_and_cont_total:
  "p \<noteq> [] \<Longrightarrow> \<exists>r. lead_and_cont l p n = Some r \<and> (r \<longrightarrow> Suc n \<le> length p)"
  using all_cont_total [of 1 p n] by (cases l) (auto simp: lead_and_cont_def Suc_le_eq)

lemma unat_low_mask:
  "unat (w AND 0x3F) = unat w mod 64" "unat (w AND 0x1F) = unat w mod 32" "unat (w AND 0x0F) = unat w mod 16"
  "unat (w AND 0x07) = unat w mod 8" for w :: u32
proof -
  have "(0x3F :: u32) = mask 6" "(0x1F :: u32) = mask 5" "(0x0F :: u32) = mask 4" "(0x07 :: u32) = mask 3"
    by (simp_all add: mask_eq_exp_minus_1)
  then show "unat (w AND 0x3F) = unat w mod 64" "unat (w AND 0x1F) = unat w mod 32" "unat (w AND 0x0F) = unat w mod 16"
    "unat (w AND 0x07) = unat w mod 8"
    by (simp_all only: take_bit_eq_mask [symmetric] take_bit_eq_mod unat_mod) simp_all
qed

lemma unat_push_or:
  fixes a b :: u32
  assumes "unat b < 2 ^ k" "unat a * 2 ^ k < 2 ^ 32"
  shows "unat (push_bit k a OR b) = unat a * 2 ^ k + unat b"
proof -
  have b: "\<not> bit b n" if "k \<le> n" for n
  proof -
    have "take_bit k (unat b) = unat b" using assms(1) by (simp add: take_bit_nat_eq_self)
    then have "take_bit k b = b" by (metis unsigned_take_bit_eq word_unat_eq_iff)
    then show ?thesis using that by (metis bit_take_bit_iff not_le)
  qed
  have "push_bit k a OR b = push_bit k a + b"
    by (rule disjunctive_add_eq_or [symmetric], rule bit_eqI) (auto simp: bit_and_iff bit_push_bit_iff dest: b)
  moreover have "unat (push_bit k a) = unat a * 2 ^ k"
    using assms(2) by (subst unsigned_push_bit_eq) (simp add: push_bit_eq_mult take_bit_nat_eq_self)
  moreover have "unat a * 2 ^ k + unat b < 2 ^ 32"
  proof (cases "k < 32")
    case True
    then have e: "(2 :: nat) ^ 32 = 2 ^ (32 - k) * 2 ^ k" by (simp add: power_add [symmetric])
    have "unat a < 2 ^ (32 - k)" using assms(2) unfolding e by simp
    then have "(unat a + 1) * 2 ^ k \<le> 2 ^ (32 - k) * 2 ^ k" by (intro mult_right_mono) simp_all
    then show ?thesis unfolding e using assms(1) by simp
  next
    case False
    then have "(2 :: nat) ^ 32 \<le> 2 ^ k" by (intro power_increasing) simp_all
    then have "unat a = 0" using assms(2) by (metis less_le_trans mult_is_0 not_gr_zero not_less_iff_gr_or_eq mult_le_mono1 One_nat_def Suc_leI mult_1 leD)
    then show ?thesis using unsigned_less [of b] by simp
  qed
  ultimately show ?thesis by (simp add: unat_word_ariths)
qed

lemma unat_low6: "unat (low6 p i) = unat (p ! i) mod 64"
  using unsigned_less [of "p ! i", where ?'a = nat] by (simp add: low6_def unat_low_mask unsigned_ucast_eq take_bit_nat_eq_self)

lemma code_point_values:
  fixes c :: u32
  shows "uint (push_bit 6 (c AND 0x1F) OR low6 p 1) = int (unat c mod 32 * 64 + unat (p ! 1) mod 64)"
    "uint (push_bit 12 (c AND 0x0F) OR push_bit 6 (low6 p 1) OR low6 p 2) =
       int (unat c mod 16 * 4096 + (unat (p ! 1) mod 64 * 64 + unat (p ! 2) mod 64))"
    "uint (push_bit 18 (c AND 0x07) OR push_bit 12 (low6 p 1) OR push_bit 6 (low6 p 2) OR low6 p 3) =
       int (unat c mod 8 * 262144 + (unat (p ! 1) mod 64 * 4096 + (unat (p ! 2) mod 64 * 64 + unat (p ! 3) mod 64)))"
proof -
  have m: "x mod 64 < 64" "x mod 32 < 32" "x mod 16 < 16" "x mod 8 < 8" for x :: nat by simp_all
  have 1: "unat (push_bit 6 (low6 p i) OR low6 p j) = unat (p ! i) mod 64 * 64 + unat (p ! j) mod 64" for i j
    using m(1) [of "unat (p ! i)"] by (simp add: unat_push_or unat_low6)
  have b1: "unat (push_bit 6 (low6 p i) OR low6 p j) < 4096" for i j
    using 1 [of i j] m(1) [of "unat (p ! i)"] m(1) [of "unat (p ! j)"] by linarith
  have 2: "unat (push_bit 12 (low6 p h) OR push_bit 6 (low6 p i) OR low6 p j) =
      unat (p ! h) mod 64 * 4096 + (unat (p ! i) mod 64 * 64 + unat (p ! j) mod 64)" for h i j
    using unat_push_or [of "push_bit 6 (low6 p i) OR low6 p j" 12 "low6 p h"] b1 [of i j] m(1) [of "unat (p ! h)"]
    by (simp add: 1 unat_low6)
  have b2: "unat (push_bit 12 (low6 p h) OR push_bit 6 (low6 p i) OR low6 p j) < 262144" for h i j
    using 2 [of h i j] m(1) [of "unat (p ! h)"] m(1) [of "unat (p ! i)"] m(1) [of "unat (p ! j)"] by linarith
  have u: "unat w = n \<Longrightarrow> uint w = int n" for w :: u32 and n by (metis of_nat_unat)
  show "uint (push_bit 6 (c AND 0x1F) OR low6 p 1) = int (unat c mod 32 * 64 + unat (p ! 1) mod 64)"
    by (rule u, subst unat_push_or) (use m(2) [of "unat c"] in \<open>simp_all add: unat_low6 unat_low_mask\<close>)
  show "uint (push_bit 12 (c AND 0x0F) OR push_bit 6 (low6 p 1) OR low6 p 2) =
       int (unat c mod 16 * 4096 + (unat (p ! 1) mod 64 * 64 + unat (p ! 2) mod 64))"
    by (rule u, subst unat_push_or)
      (use m(3) [of "unat c"] b1 [of 1 2] in \<open>simp_all add: unat_low_mask 1\<close>)
  show "uint (push_bit 18 (c AND 0x07) OR push_bit 12 (low6 p 1) OR push_bit 6 (low6 p 2) OR low6 p 3) =
       int (unat c mod 8 * 262144 + (unat (p ! 1) mod 64 * 4096 + (unat (p ! 2) mod 64 * 64 + unat (p ! 3) mod 64)))"
    by (rule u, subst unat_push_or)
      (use m(4) [of "unat c"] b2 [of 1 2 3] in \<open>simp_all add: unat_low_mask 2\<close>)
qed

text \<open>Decoding takes one to four bytes, never looks beyond the terminator, and gives a code point
  of at most 21 bits.\<close>

lemma utf8_total:
  assumes "0 \<notin> set p"
  shows "\<exists>cp q. utf8_decode p = Some (cp, q) \<and>
    (if p = [] then cp = -1 else 0 \<le> cp \<and> cp < 0x200000 \<and> (\<exists>n. 1 \<le> n \<and> n \<le> 4 \<and> n \<le> length p \<and> q = drop n p))"
proof (cases p)
  case (Cons c r)
  have c: "c \<noteq> 0" using assms Cons by auto
  then have "unat c \<noteq> 0" by (simp add: unat_eq_0)
  then have c': "(ucast c :: u32) \<noteq> 0"
    using unsigned_less [of c, where ?'a = nat] by (simp add: word_unat_eq_iff unsigned_ucast_eq take_bit_nat_eq_self)
  have b1: "uint (ucast c :: u32) < 0x200000"
    using unsigned_less [of c, where ?'a = int] by (simp add: unsigned_ucast_eq take_bit_int_eq_self)
  have m: "x mod 64 < 64" "x mod 32 < 32" "x mod 16 < 16" "x mod 8 < 8" for x :: nat by simp_all
  have b2: "int (x mod 32 * 64 + y mod 64) < 0x200000" for x y
    using m(2) [of x] m(1) [of y] unfolding of_nat_less_numeral_iff by linarith
  have b3: "int (x mod 16 * 4096 + (y mod 64 * 64 + z mod 64)) < 0x200000" for x y z
    using m(3) [of x] m(1) [of y] m(1) [of z] unfolding of_nat_less_numeral_iff by linarith
  have b4: "int (x mod 8 * 262144 + (y mod 64 * 4096 + (z mod 64 * 64 + v mod 64))) < 0x200000" for x y z v
    using m(4) [of x] m(1) [of y] m(1) [of z] m(1) [of v] unfolding of_nat_less_numeral_iff by linarith
  let ?c = "ucast c :: u32"
  obtain r1 where r1: "lead_and_cont (drop_bit 5 ?c = 6) p 1 = Some r1" "r1 \<longrightarrow> 2 \<le> length p"
    using lead_and_cont_total [of p _ 1] Cons by (metis One_nat_def Suc_1 list.distinct(1))
  obtain r2 where r2: "lead_and_cont (drop_bit 4 ?c = 0xE) p 2 = Some r2" "r2 \<longrightarrow> 3 \<le> length p"
    using lead_and_cont_total [of p _ 2] Cons by (metis eval_nat_numeral(3) list.distinct(1))
  obtain r3 where r3: "lead_and_cont (drop_bit 3 ?c = 0x1E) p 3 = Some r3" "r3 \<longrightarrow> 4 \<le> length p"
    using lead_and_cont_total [of p _ 3] Cons by (metis eval_nat_numeral(2) semiring_norm(26,27) Suc_numeral list.distinct(1))
  define P where "P = (\<lambda>x. 0 \<le> fst x \<and> fst x < (0x200000 :: int) \<and> (\<exists>n. 1 \<le> n \<and> n \<le> 4 \<and> n \<le> length p \<and> snd x = drop n p))"
  have P: "P (uint w, drop n p)" if "uint w < 0x200000" "1 \<le> n" "n \<le> 4" "n \<le> length p" for w :: u32 and n
    using that unfolding P_def by auto
  let ?v2 = "push_bit 6 (?c AND 0x1F) OR low6 p 1" and ?v3 = "push_bit 12 (?c AND 0x0F) OR push_bit 6 (low6 p 1) OR low6 p 2"
    and ?v4 = "push_bit 18 (?c AND 0x07) OR push_bit 12 (low6 p 1) OR push_bit 6 (low6 p 2) OR low6 p 3"
  have v: "uint ?v2 < 0x200000" "uint ?v3 < 0x200000" "uint ?v4 < 0x200000"
    unfolding code_point_values by (rule b2 b3 b4)+
  have l: "1 \<le> length p" using Cons by simp
  let ?r = "if ?c < 0x80 then (uint ?c, drop 1 p) else if r1 then (uint ?v2, drop 2 p)
       else if r2 then (uint ?v3, drop 3 p) else if r3 then (uint ?v4, drop 4 p) else (uint ?c, drop 1 p)"
  have d: "utf8_decode p = Some ?r"
    unfolding utf8_decode_def Let_def using c' r1(1) r2(1) r3(1) by (simp add: peek_def Cons)
  have "P ?r" using P [OF b1, of 1] P [OF v(1), of 2] P [OF v(2), of 3] P [OF v(3), of 4] l r1(2) r2(2) r3(2)
    by (simp only: split: if_split) simp
  then show ?thesis unfolding d P_def using Cons by (metis list.distinct(1) prod.collapse)
qed (simp add: utf8_decode_def peek_def)

text \<open>The encoding of a code point.\<close>

definition utf8_encode :: "nat \<Rightarrow> u8 list" where
  "utf8_encode k =
     (if k < 0x80 then [of_nat k]
      else if k < 0x800 then [of_nat (0xC0 + k div 64), of_nat (0x80 + k mod 64)]
      else if k < 0x10000 then [of_nat (0xE0 + k div 4096), of_nat (0x80 + k div 64 mod 64), of_nat (0x80 + k mod 64)]
      else [of_nat (0xF0 + k div 262144), of_nat (0x80 + k div 4096 mod 64), of_nat (0x80 + k div 64 mod 64),
        of_nat (0x80 + k mod 64)])"

lemma unat_drop: "unat (drop_bit n w) = unat w div 2 ^ n" for w :: "'a :: len word"
  by (metis drop_bit_eq_div unat_drop_bit_eq)

lemma cont_byte: "(of_nat (0x80 + k mod 64) :: u8) AND 0xC0 = 0x80"
proof -
  have "b AND 0xC0 = push_bit 6 (drop_bit 6 b)" for b :: u8
  proof -
    have "(0xC0 :: u8) = push_bit 6 (mask 2)" by (simp add: mask_eq_exp_minus_1)
    then show ?thesis
      by (simp only:) (rule bit_eqI, simp only: bit_and_iff bit_push_bit_iff bit_mask_iff bit_drop_bit_eq o_def possible_bit_word, auto)
  qed
  moreover have "drop_bit 6 (of_nat (0x80 + k mod 64) :: u8) = 2"
  proof -
    have "unat (of_nat (0x80 + k mod 64) :: u8) = 0x80 + k mod 64"
      by (simp add: unat_of_nat take_bit_nat_eq_self del: of_nat_add)
    then have "unat (drop_bit 6 (of_nat (0x80 + k mod 64) :: u8)) = 2"
      by (simp only: unat_drop) simp
    then show ?thesis by (simp add: word_unat_eq_iff del: of_nat_add)
  qed
  ultimately show ?thesis by simp
qed

lemma byte_value: "x < 256 \<Longrightarrow> unat (of_nat x :: u8) = x" "x < 256 \<Longrightarrow> unat (ucast (of_nat x :: u8) :: u32) = x"
  by (simp_all add: unat_of_nat take_bit_nat_eq_self unsigned_ucast_eq)

lemma lead_test: "drop_bit n w = numeral v \<longleftrightarrow> unat w div 2 ^ n = unat (numeral v :: u32)" for w :: u32
  by (simp only: word_unat_eq_iff unat_drop)

lemma all_cont_lit:
  "cont b1 \<Longrightarrow> all_cont (c # b1 # r) 1 1 = Some True"
  "cont b1 \<Longrightarrow> cont b2 \<Longrightarrow> all_cont (c # b1 # b2 # r) 1 2 = Some True"
  "cont b1 \<Longrightarrow> cont b2 \<Longrightarrow> cont b3 \<Longrightarrow> all_cont (c # b1 # b2 # b3 # r) 1 3 = Some True"
  if "cont = (\<lambda>b :: u8. b AND 0xC0 = 0x80)" for cont
  unfolding that numeral_2_eq_2 numeral_3_eq_3 One_nat_def by (simp_all add: peek_def)

lemma lead_value:
  fixes c :: u8
  assumes "c = of_nat x" "x < 256"
  shows "unat (ucast c :: u32) = x" "0 < x \<Longrightarrow> (ucast c :: u32) \<noteq> 0" "(ucast c :: u32) < 0x80 \<longleftrightarrow> x < 0x80"
  using byte_value(2) [OF assms(2)] by (auto simp: assms(1) word_less_nat_alt word_unat_eq_iff)

lemma lead_range: "x div n = q \<Longrightarrow> q * n \<le> x" for x :: nat
  using div_mult_mod_eq [of x n] by (metis le_add1)

lemma lead_split:
  assumes "q < n" "0 < (n :: nat)"
  shows "(m * n + q) div n = m" "(m * n + q) mod n = q"
  using assms by simp_all

lemma decode_lead:
  fixes p :: "u8 list"
  assumes "0 < x" "x < 256" "p = of_nat x # r"
  shows "x < 0x80 \<Longrightarrow> utf8_decode p = Some (int x, r)"
    "x div 32 = 6 \<Longrightarrow> all_cont p 1 1 = Some True \<Longrightarrow>
       utf8_decode p = Some (int (x mod 32 * 64 + unat (p ! 1) mod 64), drop 2 p)"
    "x div 16 = 0xE \<Longrightarrow> all_cont p 1 2 = Some True \<Longrightarrow>
       utf8_decode p = Some (int (x mod 16 * 4096 + (unat (p ! 1) mod 64 * 64 + unat (p ! 2) mod 64)), drop 3 p)"
    "x div 8 = 0x1E \<Longrightarrow> all_cont p 1 3 = Some True \<Longrightarrow>
       utf8_decode p =
         Some (int (x mod 8 * 262144 + (unat (p ! 1) mod 64 * 4096 + (unat (p ! 2) mod 64 * 64 + unat (p ! 3) mod 64))), drop 4 p)"
proof -
  note v = lead_value [OF refl assms(2)]
  have u: "uint (ucast (of_nat x :: u8) :: u32) = int x" by (metis of_nat_unat v(1))
  have pk: "peek p 0 = Some (of_nat x)" by (simp add: assms(3) peek_def)
  have "unat (6 :: u32) = 6" "unat (0xE :: u32) = 0xE" "unat (0x1E :: u32) = 0x1E" by simp_all
  then have w: "(drop_bit 5 (ucast (of_nat x :: u8) :: u32) = 6) = (x div 32 = 6)"
    "(drop_bit 4 (ucast (of_nat x :: u8) :: u32) = 0xE) = (x div 16 = 0xE)"
    "(drop_bit 3 (ucast (of_nat x :: u8) :: u32) = 0x1E) = (x div 8 = 0x1E)"
    unfolding lead_test v(1) by simp_all
  note d = utf8_decode_def pk option.case Let_def v(3) if_not_P [OF v(2) [OF assms(1)]] w lead_and_cont_def code_point_values v(1)
  show "x < 0x80 \<Longrightarrow> utf8_decode p = Some (int x, r)"
    unfolding d by (simp only: if_True u) (simp add: assms(3))
  show "utf8_decode p = Some (int (x mod 32 * 64 + unat (p ! 1) mod 64), drop 2 p)"
    if "x div 32 = 6" "all_cont p 1 1 = Some True"
  proof -
    have "\<not> x < 0x80" using lead_range [OF that(1)] by simp
    then show ?thesis unfolding d that by (simp only: if_False if_True refl option.case bool.case)
  qed
  show "utf8_decode p = Some (int (x mod 16 * 4096 + (unat (p ! 1) mod 64 * 64 + unat (p ! 2) mod 64)), drop 3 p)"
    if "x div 16 = 0xE" "all_cont p 1 2 = Some True"
  proof -
    have "x div 32 = x div 16 div 2" by (simp add: div_mult2_eq [symmetric])
    then have "\<not> x < 0x80" "x div 32 \<noteq> 6" using lead_range [OF that(1)] that(1) by simp_all
    then show ?thesis unfolding d that by (simp only: if_False if_True refl option.case bool.case)
  qed
  show "utf8_decode p =
         Some (int (x mod 8 * 262144 + (unat (p ! 1) mod 64 * 4096 + (unat (p ! 2) mod 64 * 64 + unat (p ! 3) mod 64))), drop 4 p)"
    if "x div 8 = 0x1E" "all_cont p 1 3 = Some True"
  proof -
    have "x div 32 = x div 8 div 4" "x div 16 = x div 8 div 2" by (simp_all add: div_mult2_eq [symmetric])
    then have "\<not> x < 0x80" "x div 32 \<noteq> 6" "x div 16 \<noteq> 0xE" using lead_range [OF that(1)] that(1) by simp_all
    then show ?thesis unfolding d that by (simp only: if_False if_True refl option.case bool.case)
  qed
qed

text \<open>C25: decoding inverts encoding: the bytes of a code point, whatever follows them, decode to it and
  are consumed.\<close>

theorem utf8_roundtrip:
  assumes "0 < k" "k < 0x200000"
  shows "utf8_decode (utf8_encode k @ rest) = Some (int k, rest)"
proof -
  have v: "unat (of_nat (0x80 + m mod 64) :: u8) mod 64 = m mod 64" for m
    using byte_value(1) [of "0x80 + m mod 64"] lead_split(2) [of "m mod 64" 64 2] by (simp del: of_nat_add)
  note c1 = all_cont_lit(1) [OF refl, OF cont_byte] and c2 = all_cont_lit(2) [OF refl, OF cont_byte cont_byte]
    and c3 = all_cont_lit(3) [OF refl, OF cont_byte cont_byte cont_byte]
  note ev = append_Cons append_Nil nth_Cons_0 nth_Cons_Suc drop_Suc_Cons drop_0
  note d1 = div_mult_mod_eq [of k 64] div_mult_mod_eq [of "k div 64" 64] div_mult_mod_eq [of "k div 4096" 64]
  have dd: "k div 4096 = k div 64 div 64" "k div 262144 = k div 4096 div 64" by (simp_all add: div_mult2_eq [symmetric])
  have m64: "i mod 64 < 64" for i :: nat by simp
  consider "k < 0x80" | "0x80 \<le> k" "k < 0x800" | "0x800 \<le> k" "k < 0x10000" | "0x10000 \<le> k" by linarith
  then show ?thesis
  proof cases
    case 1
    then show ?thesis using decode_lead(1) [of k _ rest] assms(1) by (simp add: utf8_encode_def)
  next
    case 2
    define q where "q = k div 64"
    have q: "q < 32" using 2 d1(1) m64 [of k] unfolding q_def by linarith
    define x where "x = 6 * 32 + q"
    have x: "0 < x" "x < 256" "x div 32 = 6" "x mod 32 = q" using q lead_split [of q 32 6] unfolding x_def by simp_all
    have e: "utf8_encode k = [of_nat x, of_nat (0x80 + k mod 64)]" using 2 by (simp add: utf8_encode_def x_def q_def)
    have k: "q * 64 + k mod 64 = k" using d1(1) by (simp only: q_def)
    show ?thesis unfolding e append_Cons append_Nil decode_lead(2) [OF x(1,2) refl x(3) c1]
      by (simp only: ev One_nat_def numeral_2_eq_2 v x(4) k)
  next
    case 3
    define q where "q = k div 4096"
    have q: "q < 16" using 3 d1(1,2) m64 [of k] m64 [of "k div 64"] unfolding q_def dd by linarith
    define x where "x = 14 * 16 + q"
    have x: "0 < x" "x < 256" "x div 16 = 0xE" "x mod 16 = q" using q lead_split [of q 16 14] unfolding x_def by simp_all
    have e: "utf8_encode k = [of_nat x, of_nat (0x80 + k div 64 mod 64), of_nat (0x80 + k mod 64)]"
      using 3 by (simp add: utf8_encode_def x_def q_def)
    have k: "q * 4096 + (k div 64 mod 64 * 64 + k mod 64) = k" using d1(1,2) unfolding q_def dd by linarith
    show ?thesis unfolding e append_Cons append_Nil decode_lead(3) [OF x(1,2) refl x(3) c2]
      by (simp only: ev One_nat_def numeral_2_eq_2 numeral_3_eq_3 v x(4) k)
  next
    case 4
    define q where "q = k div 262144"
    have q: "q < 8" using 4 assms(2) d1 m64 [of k] m64 [of "k div 64"] m64 [of "k div 4096"] unfolding q_def dd by linarith
    define x where "x = 30 * 8 + q"
    have x: "0 < x" "x < 256" "x div 8 = 0x1E" "x mod 8 = q" using q lead_split [of q 8 30] unfolding x_def by simp_all
    have e: "utf8_encode k = [of_nat x, of_nat (0x80 + k div 4096 mod 64), of_nat (0x80 + k div 64 mod 64), of_nat (0x80 + k mod 64)]"
      using 4 by (simp add: utf8_encode_def x_def q_def)
    have k: "q * 262144 + (k div 4096 mod 64 * 4096 + (k div 64 mod 64 * 64 + k mod 64)) = k"
      using d1 unfolding q_def dd by linarith
    have four: "(4 :: nat) = Suc (Suc (Suc (Suc 0)))" by simp
    show ?thesis unfolding e append_Cons append_Nil decode_lead(4) [OF x(1,2) refl x(3) c3]
      by (simp only: ev One_nat_def numeral_2_eq_2 numeral_3_eq_3 four v x(4) k)
  qed
qed

lemma utf8_roundtrip_witness: "utf8_decode (utf8_encode 0x11F @ [0x21]) = Some (0x11F, [0x21])"
  using utf8_roundtrip [of "0x11F" "[0x21]"] by simp

end
