(* ===== verification/Font.thy ===== *)
theory Font
  imports FontMath Utf8 Surface
begin

text \<open>
  Text on surfaces, \<^verbatim>\<open>compositor/font.c\<close>: the choice of a face, the glyph cache, blending of coverage and the
  drawing loop.  The vendored rasteriser is a parameter, the record \<open>stb\<close>; single-precision arithmetic is
  exact arithmetic over the reals.  The theorems show that the cache is transparent, that drawing always
  returns, and that the pixels it changes are among those it marks for repainting.
\<close>

section \<open>Glyphs\<close>

type_synonym bitmap = "u8 list \<times> int \<times> int \<times> int \<times> int"

record stb =
  InitFont :: "nat \<Rightarrow> bool"
  FindGlyphIndex :: "nat \<Rightarrow> int \<Rightarrow> int"
  GetCodepointSDF :: "nat \<Rightarrow> real \<Rightarrow> int \<Rightarrow> bitmap option"
  GetCodepointBitmap :: "nat \<Rightarrow> real \<Rightarrow> int \<Rightarrow> bitmap option"
  GetCodepointKernAdvance :: "nat \<Rightarrow> int \<Rightarrow> int \<Rightarrow> int"
  GetGlyphHMetrics :: "nat \<Rightarrow> int \<Rightarrow> int"
  GetFontVMetrics :: "int \<times> int \<times> int"
  ScaleForPixelHeight :: "real \<Rightarrow> real"

datatype ce_kind = CE_KIND_SDF | CE_KIND_GRAY

record cache_entry =
  ce_key :: u32
  ce_buf :: "u8 list option"
  ce_kind :: ce_kind
  ce_w :: int
  ce_h :: int
  ce_xoff :: int
  ce_yoff :: int

record font =
  g_ok :: bool
  g_scale :: real
  g_cache :: "cache_entry list"

definition FONT_PX :: real where "FONT_PX = 22"
definition FONT_ONEDGE :: real where "FONT_ONEDGE = 188"
definition FONT_SMOOTH :: real where "FONT_SMOOTH = 26"
definition FONT_CACHE_SLOTS :: nat where "FONT_CACHE_SLOTS = 128"

definition pick_font_id :: "stb \<Rightarrow> int \<Rightarrow> nat" where
  "pick_font_id t cp =
     (let gs = FindGlyphIndex t 0 cp; gm = FindGlyphIndex t 1 cp
      in if cp \<ge> 0x10000 then (if gm \<noteq> 0 then 1 else 0)
         else if gs \<noteq> 0 then 0 else if gm \<noteq> 0 then 1 else 0)"

definition cache_key :: "int \<Rightarrow> nat \<Rightarrow> u32" where
  "cache_key cp fid = word_of_int cp OR push_bit 21 (of_nat fid)"

definition free_cache_buf :: "cache_entry \<Rightarrow> cache_entry" where
  "free_cache_buf e = (case ce_buf e of None \<Rightarrow> e | Some _ \<Rightarrow> e\<lparr>ce_buf := None, ce_kind := CE_KIND_SDF\<rparr>)"

definition cache_evict_one :: "cache_entry list \<Rightarrow> cache_entry list" where
  "cache_evict_one c =
     (let j = fold (\<lambda>i j. if ce_key (c ! i) < ce_key (c ! j) then i else j) [1..<FONT_CACHE_SLOTS] 0
      in c[j := (free_cache_buf (c ! j))\<lparr>ce_key := 0\<rparr>])"

definition cache_lookup :: "u32 \<Rightarrow> cache_entry list \<Rightarrow> nat option" where
  "cache_lookup key c = scan (\<lambda>i. ce_key (c ! i) = key) 0 FONT_CACHE_SLOTS"

definition cache_insert :: "u32 \<Rightarrow> cache_entry list \<Rightarrow> nat \<times> cache_entry list" where
  "cache_insert key c =
     (case cache_lookup key c of Some i \<Rightarrow> (i, c)
      | None \<Rightarrow> (case cache_lookup 0 c of Some i \<Rightarrow> (i, c)
          | None \<Rightarrow> let c' = cache_evict_one c
                   in case cache_lookup 0 c' of Some i \<Rightarrow> (i, c') | None \<Rightarrow> (0, c')))"

definition store_glyph :: "u32 \<Rightarrow> ce_kind \<Rightarrow> bitmap \<Rightarrow> cache_entry" where
  "store_glyph key kind b =
     (let (d, w, h, xoff, yoff) = b
      in \<lparr>ce_key = key, ce_buf = Some d, ce_kind = kind, ce_w = w, ce_h = h, ce_xoff = xoff, ce_yoff = yoff\<rparr>)"

definition usable :: "bitmap option \<Rightarrow> bool" where
  "usable b \<longleftrightarrow> (case b of None \<Rightarrow> False | Some (d, w, h, xoff, yoff) \<Rightarrow> \<not> (w \<le> 0 \<or> h \<le> 0))"

definition ensure_glyph :: "stb \<Rightarrow> int \<Rightarrow> nat \<Rightarrow> font \<Rightarrow> cache_entry option \<times> font" where
  "ensure_glyph t cp fid f =
     (let key = cache_key cp fid; c = g_cache f
      in case (case cache_lookup key c of None \<Rightarrow> None | Some i \<Rightarrow> if ce_buf (c ! i) \<noteq> None then Some (c ! i) else None) of
           Some e \<Rightarrow> (Some e, f)
         | None \<Rightarrow>
             let (i, c1) = cache_insert key c;
                 c2 = c1[i := free_cache_buf (c1 ! i)];
                 sdf = GetCodepointSDF t fid (g_scale f) cp
             in if \<not> usable sdf
                then let bm = GetCodepointBitmap t fid (g_scale f) cp
                     in if \<not> usable bm then (None, f\<lparr>g_cache := c2[i := (c2 ! i)\<lparr>ce_key := 0\<rparr>]\<rparr>)
                        else let e = store_glyph key CE_KIND_GRAY (the bm) in (Some e, f\<lparr>g_cache := c2[i := e]\<rparr>)
                else let e = store_glyph key CE_KIND_SDF (the sdf) in (Some e, f\<lparr>g_cache := c2[i := e]\<rparr>))"

section \<open>Pixels\<close>

definition smoothstep :: "real \<Rightarrow> real \<Rightarrow> real \<Rightarrow> real" where
  "smoothstep e0 e1 x =
     (if e0 = e1 then (if x < e0 then 0 else 1)
      else let t = (x - e0) / (e1 - e0);
               t = (if t < 0 then 0 else t);
               t = (if t > 1 then 1 else t)
           in t * t * (3 - 2 * t))"

definition sdf_sample :: "u8 list \<Rightarrow> int \<Rightarrow> int \<Rightarrow> real \<Rightarrow> real \<Rightarrow> real" where
  "sdf_sample d w h fx fy =
     (if w \<le> 0 \<or> h \<le> 0 then 0
      else let fx = (if fx < 0 then 0 else fx); fy = (if fy < 0 then 0 else fy);
               fx = (if fx > of_int (w - 1) then of_int (w - 1) else fx);
               fy = (if fy > of_int (h - 1) then of_int (h - 1) else fy);
               x0 = c_int fx; y0 = c_int fy;
               x1 = (if x0 + 1 < w then x0 + 1 else x0);
               y1 = (if y0 + 1 < h then y0 + 1 else y0);
               tx = fx - of_int x0; ty = fy - of_int y0;
               px = (\<lambda>y x. real (unat (d ! nat (y * w + x))));
               a = px y0 x0 * (1 - tx) + px y0 x1 * tx;
               b = px y1 x0 * (1 - tx) + px y1 x1 * tx
           in a * (1 - ty) + b * ty)"

definition blend_font_px :: "u32 \<Rightarrow> real \<Rightarrow> u32 \<Rightarrow> u32" where
  "blend_font_px fg a d =
     (let sa = (word_of_int (c_int (a * 255 + 1 / 2)) :: u32);
          fr = drop_bit 16 fg AND 0xff; fgg = drop_bit 8 fg AND 0xff; fb = fg AND 0xff;
          dr = drop_bit 16 d AND 0xff; dg = drop_bit 8 d AND 0xff; db = d AND 0xff
      in if sa = 0 then d
         else if sa \<ge> 255 then 0xff000000 OR push_bit 16 fr OR push_bit 8 fgg OR fb
         else let inv = 255 - sa;
                  r = mul8 fr sa + mul8 dr inv; g = mul8 fgg sa + mul8 dg inv; b = mul8 fb sa + mul8 db inv
              in 0xff000000 OR push_bit 16 (clamp8 r) OR push_bit 8 (clamp8 g) OR clamp8 b)"

text \<open>The coverage of a sample.\<close>

definition glyph_alpha :: "ce_kind \<Rightarrow> real \<Rightarrow> real" where
  "glyph_alpha kind v =
     (case kind of
        CE_KIND_GRAY \<Rightarrow>
          let a = v * (1 / 255) in if a > 4 / 1000 then (let a = a * (110 / 100) in if a > 1 then 1 else a) else a
      | CE_KIND_SDF \<Rightarrow>
          let a = smoothstep (FONT_ONEDGE - FONT_SMOOTH) (FONT_ONEDGE + FONT_SMOOTH) v
          in if a > 2 / 100 then (let a = a * (106 / 100) in if a > 1 then 1 else a) else a)"

definition pen_pixel :: "real \<Rightarrow> int" where
  "pen_pixel xpen = (let ipen = c_int xpen in if real_of_int ipen > xpen then ipen - 1 else ipen)"

definition blit_cell :: "real \<Rightarrow> int \<Rightarrow> cache_entry \<Rightarrow> u8 list \<Rightarrow> u32 \<Rightarrow> int \<times> int \<Rightarrow> surface \<Rightarrow> surface" where
  "blit_cell xpen baseline ce d fg k s =
     (let (row, col) = k;
          ipen = pen_pixel xpen; sub = xpen - of_int ipen;
          sx = ipen + ce_xoff ce + col; sy = baseline + ce_yoff ce + row
      in if sx < 0 \<or> sy < 0 \<or> sx \<ge> sint (s_width s) \<or> sy \<ge> sint (s_height s) then s
         else let v = sdf_sample d (ce_w ce) (ce_h ce) (of_int col + sub + 1 / 2) (of_int row + 1 / 2);
                  a = glyph_alpha (ce_kind ce) v
              in if a \<le> 0 then s
                 else let i = nat sy * unat (s_width s) + nat sx
                      in s\<lparr>s_pixels := (s_pixels s)[i := blend_font_px fg a (s_pixels s ! i)]\<rparr>)"

definition blit_glyph :: "real \<Rightarrow> int \<Rightarrow> cache_entry \<Rightarrow> u32 \<Rightarrow> surface \<Rightarrow> surface" where
  "blit_glyph xpen baseline ce fg s =
     (if s_pixels_ptr s = 0 then s
      else case ce_buf ce of None \<Rightarrow> s
        | Some d \<Rightarrow> fold (blit_cell xpen baseline ce d fg) (List.product [0..ce_h ce - 1] [0..ce_w ce - 1]) s)"

section \<open>Drawing\<close>

definition font_init :: "stb \<Rightarrow> font \<Rightarrow> bool \<times> font" where
  "font_init t f =
     (let f1 = f\<lparr>g_cache := replicate FONT_CACHE_SLOTS
           \<lparr>ce_key = 0, ce_buf = None, ce_kind = CE_KIND_SDF, ce_w = 0, ce_h = 0, ce_xoff = 0, ce_yoff = 0\<rparr>\<rparr>
      in if \<not> InitFont t 0 then (False, f1)
         else if \<not> InitFont t 1 then (False, f1)
         else (True, f1\<lparr>g_scale := ScaleForPixelHeight t FONT_PX, g_ok := True\<rparr>))"

definition font_shutdown :: "font \<Rightarrow> font" where
  "font_shutdown f = f\<lparr>g_cache := map (\<lambda>e. (free_cache_buf e)\<lparr>ce_key := 0\<rparr>) (g_cache f), g_ok := False\<rparr>"

record pen =
  p_x :: real
  p_baseline :: int
  p_prev_cp :: int
  p_prev_fid :: int
  p_bb :: "(int \<times> int \<times> int \<times> int) option"

definition line_metrics :: "stb \<Rightarrow> font \<Rightarrow> int \<times> int" where
  "line_metrics t f =
     (let (asc, desc, linegap) = GetFontVMetrics t
      in (c_int (of_int asc * g_scale f + 1 / 2), c_int (of_int (asc - desc + linegap) * g_scale f + 1 / 2)))"

definition grow_bb :: "pen \<Rightarrow> cache_entry \<Rightarrow> pen" where
  "grow_bb q ce =
     (let gx0 = pen_pixel (p_x q) + ce_xoff ce; gy0 = p_baseline q + ce_yoff ce;
          gx1 = gx0 + ce_w ce; gy1 = gy0 + ce_h ce
      in q\<lparr>p_bb := Some (case p_bb q of None \<Rightarrow> (gx0, gy0, gx1, gy1)
             | Some (x0, y0, x1, y1) \<Rightarrow>
                 (if gx0 < x0 then gx0 else x0, if gy0 < y0 then gy0 else y0,
                  if gx1 > x1 then gx1 else x1, if gy1 > y1 then gy1 else y1))\<rparr>)"

definition advance_pen :: "stb \<Rightarrow> real \<Rightarrow> int \<Rightarrow> nat \<Rightarrow> pen \<Rightarrow> pen" where
  "advance_pen t scale cp fid q =
     (let g = FindGlyphIndex t fid cp; adv = GetGlyphHMetrics t fid g
      in q\<lparr>p_x := p_x q + of_int adv * scale, p_prev_cp := cp, p_prev_fid := int fid\<rparr>)"

definition kern_pen :: "stb \<Rightarrow> real \<Rightarrow> int \<Rightarrow> nat \<Rightarrow> pen \<Rightarrow> pen" where
  "kern_pen t scale cp fid q =
     (if p_prev_cp q \<ge> 0 \<and> int fid = p_prev_fid q
      then q\<lparr>p_x := p_x q + of_int (GetCodepointKernAdvance t fid (p_prev_cp q) cp) * scale\<rparr> else q)"

text \<open>The rest of an iteration once the glyph is there, or is missing.\<close>

definition put_glyph :: "stb \<Rightarrow> real \<Rightarrow> u32 \<Rightarrow> int \<Rightarrow> nat \<Rightarrow> cache_entry option \<Rightarrow> pen \<times> surface \<Rightarrow> pen \<times> surface" where
  "put_glyph t scale fg cp fid ce qs =
     (let (q, s) = qs
      in case ce of
           None \<Rightarrow> (advance_pen t scale cp fid q, s)
         | Some e \<Rightarrow> (advance_pen t scale cp fid (grow_bb q e), blit_glyph (p_x q) (p_baseline q) e fg s))"

definition newline_pen :: "int \<Rightarrow> int \<Rightarrow> pen \<Rightarrow> pen" where
  "newline_pen x line_px q =
     q\<lparr>p_x := of_int x, p_baseline := p_baseline q + (if line_px > 0 then line_px else 1), p_prev_cp := -1, p_prev_fid := -1\<rparr>"

definition draw_step :: "stb \<Rightarrow> int \<Rightarrow> int \<Rightarrow> u32 \<Rightarrow> int \<Rightarrow> pen \<times> surface \<times> font \<Rightarrow> pen \<times> surface \<times> font" where
  "draw_step t x line_px fg cp st =
     (let (q, s, f) = st
      in if cp = 13 then st
         else if cp = 10 then (newline_pen x line_px q, s, f)
         else let fid = pick_font_id t cp;
                  q1 = kern_pen t (g_scale f) cp fid q;
                  (ce, f1) = ensure_glyph t cp fid f;
                  (q2, s1) = put_glyph t (g_scale f1) fg cp fid ce (q1, s)
              in (q2, s1, f1))"

function draw_loop :: "stb \<Rightarrow> int \<Rightarrow> int \<Rightarrow> u32 \<Rightarrow> u8 list \<Rightarrow> pen \<times> surface \<times> font \<Rightarrow> (pen \<times> surface \<times> font) option" where
  "draw_loop t x line_px fg p st =
     (case utf8_decode p of None \<Rightarrow> None
      | Some (cp, p') \<Rightarrow>
          if cp < 0 then Some st else draw_loop t x line_px fg p' (draw_step t x line_px fg cp st))"
  by pat_completeness auto
termination
  by (relation "measure (\<lambda>(t, x, l, fg, p, st). length p)") (auto dest!: utf8_shorter)

declare draw_loop.simps [simp del]

definition font_draw_utf8 :: "stb \<Rightarrow> nat \<Rightarrow> int \<Rightarrow> int \<Rightarrow> u8 list option \<Rightarrow> u32 \<Rightarrow> font \<times> gfx \<Rightarrow> (int \<times> font \<times> gfx) option" where
  "font_draw_utf8 t sp x y utf8 fg fs =
     (let (f, g) = fs
      in case utf8 of None \<Rightarrow> Some (0, f, g)
         | Some p \<Rightarrow>
             if \<not> g_ok f \<or> sp = 0 then Some (0, f, g)
             else let (asc, line_px) = line_metrics t f;
                      q0 = \<lparr>p_x = of_int x, p_baseline = y + asc, p_prev_cp = -1, p_prev_fid = -1, p_bb = None\<rparr>
             in case draw_loop t x line_px fg p (q0, surf g sp, f) of None \<Rightarrow> None
                | Some (q, s, f1) \<Rightarrow>
                    let g1 = with_surface sp (\<lambda>_. s) g;
                        g2 = (case p_bb q of Some (x0, y0, x1, y1) \<Rightarrow> surface_mark_dirty_rect sp x0 y0 x1 y1 g1
                              | None \<Rightarrow> surface_mark_dirty sp g1)
                    in Some (c_int (p_x q - of_int x + 1 / 2), f1, g2))"

section \<open>The cache is transparent\<close>

text \<open>The glyph the rasteriser gives for a code point, as an entry of the cache.\<close>

definition fresh_glyph :: "stb \<Rightarrow> real \<Rightarrow> int \<Rightarrow> nat \<Rightarrow> cache_entry option" where
  "fresh_glyph t scale cp fid =
     (let sdf = GetCodepointSDF t fid scale cp; bm = GetCodepointBitmap t fid scale cp
      in if usable sdf then Some (store_glyph (cache_key cp fid) CE_KIND_SDF (the sdf))
         else if usable bm then Some (store_glyph (cache_key cp fid) CE_KIND_GRAY (the bm)) else None)"

definition code_point :: "int \<Rightarrow> bool" where
  "code_point cp \<longleftrightarrow> 0 \<le> cp \<and> cp < 0x200000"

text \<open>Every buffer in the cache is the glyph of its key.\<close>

definition cache_coherent :: "stb \<Rightarrow> real \<Rightarrow> cache_entry list \<Rightarrow> bool" where
  "cache_coherent t scale c \<longleftrightarrow> length c = FONT_CACHE_SLOTS \<and>
     (\<forall>e \<in> set c. ce_buf e \<noteq> None \<longrightarrow> (\<exists>cp fid. code_point cp \<and> fid < 2 \<and> fresh_glyph t scale cp fid = Some e))"

lemma cache_key_inj:
  assumes "cache_key cp fid = cache_key cp' fid'" "code_point cp" "code_point cp'" "fid < 2" "fid' < 2"
  shows "cp = cp' \<and> fid = fid'"
proof -
  have v: "unat (cache_key cp fid) = fid * 2097152 + nat cp" if "code_point cp" "fid < 2" for cp fid
  proof -
    have "unat (word_of_int cp :: u32) = nat cp"
      using that(1) by (simp add: code_point_def unsigned_of_int take_bit_int_eq_self)
    moreover have "unat (of_nat fid :: u32) = fid" using that(2) by (simp add: unat_of_nat take_bit_nat_eq_self)
    moreover have "nat cp < 2097152" using that(1) by (simp add: code_point_def nat_less_iff)
    ultimately show ?thesis
      using that unat_push_or [of "word_of_int cp" 21 "of_nat fid"] by (simp add: cache_key_def or.commute)
  qed
  have n: "nat cp < 2097152" "nat cp' < 2097152" using assms(2,3) by (auto simp: code_point_def)
  have "fid * 2097152 + nat cp = fid' * 2097152 + nat cp'"
    using v [OF assms(2,4)] v [OF assms(3,5)] assms(1) by simp
  then have "fid = fid'" "nat cp = nat cp'" using n assms(4,5) by (auto simp: less_Suc_eq numeral_2_eq_2)
  then show ?thesis using assms(2,3) by (auto simp: code_point_def)
qed

lemma fresh_glyph_key: "fresh_glyph t scale cp fid = Some e \<Longrightarrow> ce_key e = cache_key cp fid \<and> ce_buf e \<noteq> None"
  by (auto simp: fresh_glyph_def Let_def store_glyph_def split: if_splits prod.splits)

lemma coherent_update:
  assumes "cache_coherent t scale c" "ce_buf e = None \<or> (\<exists>cp fid. code_point cp \<and> fid < 2 \<and> fresh_glyph t scale cp fid = Some e)"
  shows "cache_coherent t scale (c[i := e])"
proof -
  have "ce_buf e' \<noteq> None \<longrightarrow> (\<exists>cp fid. code_point cp \<and> fid < 2 \<and> fresh_glyph t scale cp fid = Some e')"
    if "e' \<in> set (c[i := e])" for e'
    using set_update_subset_insert [of c i e] that assms unfolding cache_coherent_def by (cases "e' = e") auto
  then show ?thesis using assms(1) by (simp add: cache_coherent_def)
qed

lemma lookup_range: "cache_lookup key c = Some i \<Longrightarrow> i < FONT_CACHE_SLOTS \<and> ce_key (c ! i) = key"
  by (auto simp: cache_lookup_def dest: scan_Some)

lemma freed_buf [simp]: "ce_buf (free_cache_buf e) = None"
  by (simp add: free_cache_buf_def split: option.splits)

lemma insert_coherent:
  assumes "cache_coherent t scale c" "cache_insert key c = (i, c')"
  shows "cache_coherent t scale c' \<and> i < FONT_CACHE_SLOTS"
proof -
  have "cache_coherent t scale (cache_evict_one c)"
    unfolding cache_evict_one_def Let_def by (rule coherent_update [OF assms(1)]) simp
  then show ?thesis
    using assms by (auto simp: cache_insert_def Let_def FONT_CACHE_SLOTS_def split: option.splits dest!: lookup_range)
qed

lemma ensure_transparent:
  assumes "cache_coherent t (g_scale f) (g_cache f)" "code_point cp" "fid < 2" "ensure_glyph t cp fid f = (ce, f')"
  shows "ce = fresh_glyph t (g_scale f) cp fid \<and> cache_coherent t (g_scale f) (g_cache f') \<and> g_scale f' = g_scale f \<and> g_ok f' = g_ok f"
proof -
  let ?key = "cache_key cp fid" and ?c = "g_cache f"
  obtain i c1 where ins: "cache_insert ?key ?c = (i, c1)" by fastforce
  have c1: "cache_coherent t (g_scale f) c1" "i < FONT_CACHE_SLOTS" using insert_coherent [OF assms(1) ins] by auto
  define c2 where "c2 = c1[i := free_cache_buf (c1 ! i)]"
  have c2: "cache_coherent t (g_scale f) c2" unfolding c2_def by (rule coherent_update [OF c1(1)]) simp
  have "i < length c1" using c1 by (simp add: cache_coherent_def)
  then have b2: "ce_buf (c2 ! i) = None" by (simp add: c2_def)
  show ?thesis
  proof (cases "\<exists>j. cache_lookup ?key ?c = Some j \<and> ce_buf (?c ! j) \<noteq> None")
    case True
    then obtain j where j: "cache_lookup ?key ?c = Some j" "ce_buf (?c ! j) \<noteq> None" by blast
    have "?c ! j \<in> set ?c" using lookup_range [OF j(1)] assms(1) by (simp add: cache_coherent_def)
    then obtain cp' fid' where r: "code_point cp'" "fid' < 2" "fresh_glyph t (g_scale f) cp' fid' = Some (?c ! j)"
      using assms(1) j(2) unfolding cache_coherent_def by blast
    have "cp' = cp \<and> fid' = fid"
      using cache_key_inj [OF _ r(1) assms(2) r(2) assms(3)] fresh_glyph_key [OF r(3)] lookup_range [OF j(1)] by simp
    then show ?thesis using assms j r(3) by (auto simp: ensure_glyph_def Let_def)
  next
    case False
    then have m: "(case cache_lookup ?key ?c of None \<Rightarrow> None | Some i \<Rightarrow> if ce_buf (?c ! i) \<noteq> None then Some (?c ! i) else None) = None"
      by (auto split: option.splits)
    have st: "cache_coherent t (g_scale f) (c2[i := e])" if "fresh_glyph t (g_scale f) cp fid = Some e" for e
      by (rule coherent_update [OF c2]) (use that assms(2,3) in blast)
    have cl: "cache_coherent t (g_scale f) (c2[i := (c2 ! i)\<lparr>ce_key := 0\<rparr>])"
      by (rule coherent_update [OF c2]) (simp add: b2)
    show ?thesis
      using assms(4) st cl unfolding ensure_glyph_def Let_def m option.case ins prod.case c2_def [symmetric] fresh_glyph_def
      by (auto split: if_splits)
  qed
qed

section \<open>Drawing without a cache\<close>

text \<open>The code points of a string, and the loop over them with glyphs straight from the rasteriser.\<close>

function codepoints :: "u8 list \<Rightarrow> int list" where
  "codepoints p =
     (case utf8_decode p of None \<Rightarrow> []
      | Some (cp, p') \<Rightarrow> if cp < 0 then [] else cp # codepoints p')"
  by pat_completeness auto
termination
  by (relation "measure length") (auto dest!: utf8_shorter)

declare codepoints.simps [simp del]

definition plain_step :: "stb \<Rightarrow> real \<Rightarrow> int \<Rightarrow> int \<Rightarrow> u32 \<Rightarrow> int \<Rightarrow> pen \<times> surface \<Rightarrow> pen \<times> surface" where
  "plain_step t scale x line_px fg cp qs =
     (let (q, s) = qs
      in if cp = 13 then qs
         else if cp = 10 then (newline_pen x line_px q, s)
         else let fid = pick_font_id t cp
              in put_glyph t scale fg cp fid (fresh_glyph t scale cp fid) (kern_pen t scale cp fid q, s))"

lemma pick_font_id_less: "pick_font_id t cp < 2"
  by (simp add: pick_font_id_def Let_def)

lemma draw_step_plain:
  assumes "cache_coherent t (g_scale f) (g_cache f)" "code_point cp" "draw_step t x line_px fg cp (q, s, f) = (q', s', f')"
  shows "(q', s') = plain_step t (g_scale f) x line_px fg cp (q, s) \<and>
    cache_coherent t (g_scale f') (g_cache f') \<and> g_scale f' = g_scale f \<and> g_ok f' = g_ok f"
proof -
  obtain ce f1 where e: "ensure_glyph t cp (pick_font_id t cp) f = (ce, f1)" by fastforce
  from ensure_transparent [OF assms(1,2) pick_font_id_less e] assms(1,3) show ?thesis
    by (auto simp: draw_step_def plain_step_def Let_def e split: prod.splits if_splits)
qed

lemma utf8_clean: "utf8_decode p = Some (cp, q) \<Longrightarrow> 0 \<notin> set p \<Longrightarrow> p \<noteq> [] \<Longrightarrow> code_point cp \<and> 0 \<notin> set q"
  using utf8_total [of p] by (auto simp: code_point_def dest: in_set_dropD)

lemma draw_loop_plain:
  assumes "cache_coherent t (g_scale f) (g_cache f)" "0 \<notin> set p"
  shows "\<exists>f'. draw_loop t x line_px fg p (q, s, f) =
      Some (fst (fold (plain_step t (g_scale f) x line_px fg) (codepoints p) (q, s)),
            snd (fold (plain_step t (g_scale f) x line_px fg) (codepoints p) (q, s)), f') \<and>
    cache_coherent t (g_scale f') (g_cache f') \<and> g_scale f' = g_scale f \<and> g_ok f' = g_ok f"
  using assms
proof (induction p arbitrary: q s f rule: codepoints.induct)
  case (1 p)
  obtain cp p' where d: "utf8_decode p = Some (cp, p')" using utf8_total [OF "1.prems"(2)] by blast
  show ?case
  proof (cases "cp < 0")
    case True
    then show ?thesis using "1.prems"(1) d by (subst draw_loop.simps, subst (1 2) codepoints.simps) simp
  next
    case False
    then have "p \<noteq> []" using utf8_total [OF "1.prems"(2)] d by (metis fst_conv option.inject less_minus_one_simps(1))
    then have cl: "code_point cp" "0 \<notin> set p'" using utf8_clean [OF d "1.prems"(2)] by auto
    obtain q1 s1 f1 where st: "draw_step t x line_px fg cp (q, s, f) = (q1, s1, f1)" by (metis prod_cases3)
    from draw_step_plain [OF "1.prems"(1) cl(1) st] have pl: "plain_step t (g_scale f) x line_px fg cp (q, s) = (q1, s1)"
      "cache_coherent t (g_scale f1) (g_cache f1)" "g_scale f1 = g_scale f" "g_ok f1 = g_ok f" by auto
    from "1.IH" [OF d refl False pl(2) cl(2), of q1 s1] show ?thesis
      using False d st pl by (subst draw_loop.simps, subst (1 2) codepoints.simps) simp
  qed
qed

text \<open>C23: the glyph cache never shows: whatever was drawn before, drawing a string always returns, and
  gives the surface and the advance of a loop over its code points that asks the rasteriser for every
  glyph anew; the cache stays coherent.\<close>

theorem font_draw_uncached:
  assumes "cache_coherent t (g_scale f) (g_cache f)" "0 \<notin> set p" "g_ok f" "sp \<noteq> 0"
  shows "\<exists>f'. font_draw_utf8 t sp x y (Some p) fg (f, g) =
      (let (asc, line_px) = line_metrics t f;
           (q, s) = fold (plain_step t (g_scale f) x line_px fg) (codepoints p)
             (\<lparr>p_x = of_int x, p_baseline = y + asc, p_prev_cp = -1, p_prev_fid = -1, p_bb = None\<rparr>, surf g sp);
           g1 = g\<lparr>surf := (surf g)(sp := s)\<rparr>
       in Some (c_int (p_x q - of_int x + 1 / 2), f',
            case p_bb q of None \<Rightarrow> surface_mark_dirty sp g1
            | Some (x0, y0, x1, y1) \<Rightarrow> surface_mark_dirty_rect sp x0 y0 x1 y1 g1)) \<and>
    cache_coherent t (g_scale f') (g_cache f') \<and> g_scale f' = g_scale f \<and> g_ok f' = g_ok f"
proof -
  obtain asc line_px where m: "line_metrics t f = (asc, line_px)" by fastforce
  let ?q = "\<lparr>p_x = of_int x, p_baseline = y + asc, p_prev_cp = -1, p_prev_fid = -1, p_bb = None\<rparr>"
  obtain f' where f': "draw_loop t x line_px fg p (?q, surf g sp, f) =
      Some (fst (fold (plain_step t (g_scale f) x line_px fg) (codepoints p) (?q, surf g sp)),
            snd (fold (plain_step t (g_scale f) x line_px fg) (codepoints p) (?q, surf g sp)), f')"
    "cache_coherent t (g_scale f') (g_cache f')" "g_scale f' = g_scale f" "g_ok f' = g_ok f"
    using draw_loop_plain [OF assms(1,2)] by blast
  show ?thesis
    using f'(2-4) assms(3,4) unfolding font_draw_utf8_def Let_def m prod.case
    by (intro exI [of _ f']) (simp add: f'(1) with_surface_def case_prod_beta split: option.splits)
qed

section \<open>What is drawn is marked\<close>

text \<open>Between two states of a surface only pixels of the set \<open>B\<close> differ.\<close>

definition touches :: "(int \<times> int) set \<Rightarrow> surface \<Rightarrow> surface \<Rightarrow> bool" where
  "touches B s s' \<longleftrightarrow> (\<exists>px. s' = s\<lparr>s_pixels := px\<rparr> \<and> length px = length (s_pixels s) \<and>
     (\<forall>a < unat (s_width s). \<forall>b < unat (s_height s). (int a, int b) \<notin> B \<longrightarrow>
        px ! (b * unat (s_width s) + a) = s_pixels s ! (b * unat (s_width s) + a)))"

lemma touches_refl: "touches B s s"
  unfolding touches_def by (intro exI [of _ "s_pixels s"]) simp

lemma touches_trans: "touches B s s1 \<Longrightarrow> touches C s1 s2 \<Longrightarrow> B \<subseteq> D \<Longrightarrow> C \<subseteq> D \<Longrightarrow> touches D s s2"
  unfolding touches_def by clarsimp (metis subsetD)

lemma touches_fields:
  "touches B s s' \<Longrightarrow> s_width s' = s_width s \<and> s_height s' = s_height s \<and> s_pixels_ptr s' = s_pixels_ptr s \<and> (surf_ok s \<longrightarrow> surf_ok s')"
  unfolding touches_def surf_ok_def by auto

lemma surf_ok_sint:
  assumes "surf_ok s"
  shows "sint (s_width s) = int (unat (s_width s))" "sint (s_height s) = int (unat (s_height s))"
proof -
  have "unat (s_width s) < 2 ^ 31" "unat (s_height s) < 2 ^ 31" using assms by (simp_all add: surf_ok_def word_le_nat_alt)
  then show "sint (s_width s) = int (unat (s_width s))" "sint (s_height s) = int (unat (s_height s))"
    by (simp_all only: sint_small)
qed

definition glyph_cells :: "real \<Rightarrow> int \<Rightarrow> cache_entry \<Rightarrow> (int \<times> int) set" where
  "glyph_cells xpen baseline ce =
     {(a, b). pen_pixel xpen + ce_xoff ce \<le> a \<and> a < pen_pixel xpen + ce_xoff ce + ce_w ce \<and>
        baseline + ce_yoff ce \<le> b \<and> b < baseline + ce_yoff ce + ce_h ce}"

lemma blit_cell_touches:
  assumes "surf_ok s" "0 \<le> fst k" "fst k < ce_h ce" "0 \<le> snd k" "snd k < ce_w ce"
  shows "touches (glyph_cells xpen baseline ce) s (blit_cell xpen baseline ce d fg k s)"
proof -
  define sx sy where "sx = pen_pixel xpen + ce_xoff ce + snd k" and "sy = baseline + ce_yoff ce + fst k"
  have B: "(sx, sy) \<in> glyph_cells xpen baseline ce" using assms(2-5) by (simp add: glyph_cells_def sx_def sy_def)
  have "blit_cell xpen baseline ce d fg k s = s \<or> (0 \<le> sx \<and> 0 \<le> sy \<and> sx < sint (s_width s) \<and>
      (\<exists>v. blit_cell xpen baseline ce d fg k s = s\<lparr>s_pixels := (s_pixels s)[nat sy * unat (s_width s) + nat sx := v]\<rparr>))"
    unfolding blit_cell_def Let_def sx_def sy_def by (cases k) auto
  then show ?thesis
  proof (elim disjE conjE exE)
    fix v assume x: "0 \<le> sx" "0 \<le> sy" "sx < sint (s_width s)"
      and e: "blit_cell xpen baseline ce d fg k s = s\<lparr>s_pixels := (s_pixels s)[nat sy * unat (s_width s) + nat sx := v]\<rparr>"
    have "nat sy * unat (s_width s) + nat sx \<noteq> b * unat (s_width s) + a"
      if ab: "a < unat (s_width s)" "(int a, int b) \<notin> glyph_cells xpen baseline ce" for a b
    proof
      assume eq: "nat sy * unat (s_width s) + nat sx = b * unat (s_width s) + a"
      have w: "nat sx < unat (s_width s)" using x surf_ok_sint(1) [OF assms(1)] by (simp add: nat_less_iff del: of_nat_unat)
      have "nat sy = b" using arg_cong [OF eq, of "\<lambda>n. n div unat (s_width s)"] w ab(1) by simp
      then have "(int a, int b) = (sx, sy)" using eq x by (auto simp: int_nat_eq)
      then show False using B ab(2) by simp
    qed
    then show ?thesis unfolding e touches_def by (intro exI [of _ "(s_pixels s)[nat sy * unat (s_width s) + nat sx := v]"]) auto
  qed (simp add: touches_refl)
qed

lemma blit_glyph_touches:
  assumes "surf_ok s"
  shows "touches (glyph_cells xpen baseline ce) s (blit_glyph xpen baseline ce fg s)"
proof -
  have "touches (glyph_cells xpen baseline ce) s (fold (blit_cell xpen baseline ce d fg) ks s)"
    if "\<forall>k \<in> set ks. 0 \<le> fst k \<and> fst k < ce_h ce \<and> 0 \<le> snd k \<and> snd k < ce_w ce" for ks d
    using that assms
  proof (induction ks arbitrary: s)
    case (Cons k ks)
    then have 1: "touches (glyph_cells xpen baseline ce) s (blit_cell xpen baseline ce d fg k s)"
      by (intro blit_cell_touches) auto
    then have "surf_ok (blit_cell xpen baseline ce d fg k s)" using touches_fields Cons.prems(2) by blast
    with Cons 1 show ?case by (auto intro: touches_trans)
  qed (simp add: touches_refl)
  then show ?thesis unfolding blit_glyph_def by (auto simp: touches_refl split: option.split)
qed

definition bb_cells :: "pen \<Rightarrow> (int \<times> int) set" where
  "bb_cells q = (case p_bb q of None \<Rightarrow> {} | Some (x0, y0, x1, y1) \<Rightarrow> {(a, b). x0 \<le> a \<and> a < x1 \<and> y0 \<le> b \<and> b < y1})"

lemma grow_bb_cells:
  "bb_cells q \<subseteq> bb_cells (grow_bb q ce)" "glyph_cells (p_x q) (p_baseline q) ce \<subseteq> bb_cells (grow_bb q ce)"
  by (auto simp: bb_cells_def grow_bb_def glyph_cells_def Let_def split: option.splits)

lemma pen_moves [simp]:
  "bb_cells (advance_pen t scale cp fid q) = bb_cells q" "bb_cells (kern_pen t scale cp fid q) = bb_cells q"
  "bb_cells (newline_pen x l q) = bb_cells q"
  by (simp_all add: bb_cells_def advance_pen_def kern_pen_def newline_pen_def Let_def)

lemma plain_step_touches:
  assumes "surf_ok s" "plain_step t scale x l fg cp (q, s) = (q', s')"
  shows "touches (bb_cells q') s s' \<and> bb_cells q \<subseteq> bb_cells q'"
proof -
  let ?fid = "pick_font_id t cp"
  let ?q = "kern_pen t scale cp ?fid q"
  have g: "touches (bb_cells (grow_bb ?q ce)) s (blit_glyph (p_x ?q) (p_baseline ?q) ce fg s)" for ce
    using touches_trans [OF blit_glyph_touches [OF assms(1)] touches_refl grow_bb_cells(2) empty_subsetI] .
  have b: "bb_cells q \<subseteq> bb_cells (grow_bb ?q ce)" for ce using grow_bb_cells(1) [of ?q] by simp
  consider (quiet) "q' = q \<and> s' = s \<or> q' = newline_pen x l q \<and> s' = s \<or> q' = advance_pen t scale cp ?fid ?q \<and> s' = s"
    | (glyph) ce where "q' = advance_pen t scale cp ?fid (grow_bb ?q ce)" "s' = blit_glyph (p_x ?q) (p_baseline ?q) ce fg s"
    using assms(2) by (auto simp: plain_step_def put_glyph_def Let_def split: if_splits option.splits)
  then show ?thesis
  proof cases
    case quiet
    then have "s' = s" "bb_cells q' = bb_cells q" by auto
    then show ?thesis by (simp add: touches_refl)
  next
    case glyph
    then show ?thesis using g [of ce] b [of ce] by (simp only: pen_moves)
  qed
qed

lemma plain_fold_touches:
  assumes "surf_ok s" "fold (plain_step t scale x l fg) cps (q, s) = (q', s')"
  shows "touches (bb_cells q') s s' \<and> bb_cells q \<subseteq> bb_cells q'"
  using assms
proof (induction cps arbitrary: q s)
  case (Cons cp cps)
  obtain q1 s1 where 1: "plain_step t scale x l fg cp (q, s) = (q1, s1)" by fastforce
  note a = plain_step_touches [OF Cons.prems(1) 1]
  then have "surf_ok s1" using touches_fields Cons.prems(1) by blast
  with Cons.IH [of s1 q1] Cons.prems(2) 1 have "touches (bb_cells q') s1 s' \<and> bb_cells q1 \<subseteq> bb_cells q'" by simp
  with a show ?case by (blast intro: touches_trans)
qed (simp add: touches_refl)

lemma mark_rect_new:
  assumes "s_pixels_ptr s \<noteq> 0" "lx0 \<le> x" "x < lx1" "ly0 \<le> y" "y < ly1" "0 \<le> x" "x < sint (s_width s)"
    "0 \<le> y" "y < sint (s_height s)"
  shows "(x, y) \<in> dirty_cells (mark_dirty_rect lx0 ly0 lx1 ly1 s)"
  using assms by (cases "s_dirty_rect_valid s") (simp_all add: dirty_cells_def mark_dirty_rect_def Let_def)

text \<open>C24: what drawing changes is repainted: every pixel of the surface that differs after a string was
  drawn is among those marked dirty, and the surface stays well formed.\<close>

theorem font_draw_marks:
  assumes "cache_coherent t (g_scale f) (g_cache f)" "0 \<notin> set p" "g_ok f" "sp \<noteq> 0" "surf_ok (surf g sp)"
    "font_draw_utf8 t sp x y (Some p) fg (f, g) = Some (adv, f', g')"
  defines "s \<equiv> surf g sp" and "s' \<equiv> surf g' sp"
  shows "surf_ok s' \<and> (\<forall>a < unat (s_width s). \<forall>b < unat (s_height s).
    s_pixels s' ! (b * unat (s_width s) + a) \<noteq> s_pixels s ! (b * unat (s_width s) + a) \<longrightarrow>
      (int a, int b) \<in> dirty_cells s')"
proof -
  obtain asc line_px where m: "line_metrics t f = (asc, line_px)" by fastforce
  let ?q = "\<lparr>p_x = of_int x, p_baseline = y + asc, p_prev_cp = -1, p_prev_fid = -1, p_bb = None\<rparr>"
  obtain q s1 where F: "fold (plain_step t (g_scale f) x line_px fg) (codepoints p) (?q, s) = (q, s1)" by fastforce
  have "touches (bb_cells q) s s1" using plain_fold_touches [OF _ F] assms(5) by (simp add: s_def)
  then obtain px where px: "s1 = s\<lparr>s_pixels := px\<rparr>" "length px = length (s_pixels s)"
    "\<And>a b. a < unat (s_width s) \<Longrightarrow> b < unat (s_height s) \<Longrightarrow> (int a, int b) \<notin> bb_cells q \<Longrightarrow>
        px ! (b * unat (s_width s) + a) = s_pixels s ! (b * unat (s_width s) + a)"
    unfolding touches_def by blast
  have ok1: "surf_ok s1" using assms(5) px(1,2) by (simp add: surf_ok_def s_def)
  note sz = surf_ok_sint [OF assms(5) [folded s_def]]
  obtain f2 where "font_draw_utf8 t sp x y (Some p) fg (f, g) =
      Some (c_int (p_x q - of_int x + 1 / 2), f2, case p_bb q of None \<Rightarrow> surface_mark_dirty sp (g\<lparr>surf := (surf g)(sp := s1)\<rparr>)
            | Some (x0, y0, x1, y1) \<Rightarrow> surface_mark_dirty_rect sp x0 y0 x1 y1 (g\<lparr>surf := (surf g)(sp := s1)\<rparr>))"
    using draw_loop_plain [OF assms(1,2), of x line_px fg ?q s] assms(3,4) F
    unfolding font_draw_utf8_def Let_def m prod.case s_def [symmetric]
    by (auto simp: with_surface_def case_prod_beta split: option.splits)
  with assms(6) have s': "s' = (case p_bb q of None \<Rightarrow> s1\<lparr>s_pixels_dirty := True, s_dirty_rect_valid := False\<rparr>
      | Some (x0, y0, x1, y1) \<Rightarrow> mark_dirty_rect x0 y0 x1 y1 s1)"
    using assms(4) by (auto simp: s'_def surface_mark_dirty_def surface_mark_dirty_rect_def with_surface_def split: option.splits)
  have "surf_ok (s1\<lparr>s_pixels_dirty := True, s_dirty_rect_valid := False\<rparr>)" using ok1 by (simp add: surf_ok_def)
  then have ok': "surf_ok s'" unfolding s' by (cases "p_bb q") (simp_all add: mark_dirty_rect_ok [OF ok1] split: prod.split)
  have "s_pixels (mark_dirty_rect x0 y0 x1 y1 s2) = s_pixels s2" for x0 y0 x1 y1 s2 by (simp add: mark_dirty_rect_def Let_def)
  then have px': "s_pixels s' = px" unfolding s' px(1) by (cases "p_bb q") (simp_all split: prod.split)
  have "(int a, int b) \<in> dirty_cells s'"
    if ab: "a < unat (s_width s)" "b < unat (s_height s)" "(int a, int b) \<in> bb_cells q" for a b
  proof (cases "p_bb q")
    case None
    then show ?thesis using ab by (simp add: bb_cells_def)
  next
    case (Some bb)
    obtain x0 y0 x1 y1 where bb: "bb = (x0, y0, x1, y1)" by (metis prod_cases4)
    have "(int a, int b) \<in> dirty_cells (mark_dirty_rect x0 y0 x1 y1 s1)"
      using ab ok1 sz px(1) by (intro mark_rect_new) (auto simp: bb_cells_def Some bb surf_ok_def simp del: of_nat_unat)
    then show ?thesis by (simp add: s' Some bb)
  qed
  with px(3) ok' show ?thesis unfolding px' by blast
qed

lemma init_coherent: "cache_coherent t scale (g_cache (snd (font_init t f)))"
  by (auto simp: font_init_def Let_def cache_coherent_def)

lemma shutdown_coherent: "cache_coherent t scale (g_cache f) \<Longrightarrow> cache_coherent t scale (g_cache (font_shutdown f))"
  by (auto simp: font_shutdown_def cache_coherent_def)

section \<open>Coverage and blending\<close>

lemma smoothstep_range: "0 \<le> smoothstep e0 e1 x \<and> smoothstep e0 e1 x \<le> 1"
proof -
  have p: "0 \<le> t * t * (3 - 2 * t) \<and> t * t * (3 - 2 * t) \<le> 1" if "0 \<le> t" "t \<le> 1" for t :: real
  proof -
    have "0 \<le> (1 - t) * (1 - t) * (1 + 2 * t)" using that by (intro mult_nonneg_nonneg) auto
    then have "t * t * (3 - 2 * t) \<le> 1" by (simp add: algebra_simps)
    moreover have "0 \<le> t * t * (3 - 2 * t)" using that by (intro mult_nonneg_nonneg) auto
    ultimately show ?thesis by simp
  qed
  show ?thesis unfolding smoothstep_def Let_def by (simp add: p)
qed

lemma mix_range:
  assumes "0 \<le> u" "u \<le> 255" "0 \<le> v" "v \<le> 255" "0 \<le> t" "t \<le> (1 :: real)"
  shows "0 \<le> u * (1 - t) + v * t \<and> u * (1 - t) + v * t \<le> 255"
proof -
  have "u * (1 - t) \<le> 255 * (1 - t)" "v * t \<le> 255 * t" using assms by (intro mult_right_mono; simp)+
  moreover have "0 \<le> u * (1 - t)" "0 \<le> v * t" using assms by auto
  ultimately show ?thesis by (simp add: algebra_simps)
qed

lemma sdf_sample_range: "0 \<le> sdf_sample d w h fx fy \<and> sdf_sample d w h fx fy \<le> 255"
proof (cases "w \<le> 0 \<or> h \<le> 0")
  case False
  have px: "0 \<le> real (unat (b :: u8))" "real (unat (b :: u8)) \<le> 255" for b
    using unsigned_less [of b, where ?'a = nat] by (simp_all del: of_nat_unat)
  have fr: "0 \<le> v - of_int (c_int v)" "v - of_int (c_int v) \<le> 1" if "0 \<le> v" for v
    using that unfolding c_int_def by (simp_all, linarith+)
  define fx' fy' where "fx' = (let a = (if fx < 0 then 0 else fx) in if a > of_int (w - 1) then of_int (w - 1) else a)"
    and "fy' = (let a = (if fy < 0 then 0 else fy) in if a > of_int (h - 1) then of_int (h - 1) else a)"
  have z: "0 \<le> fx'" "0 \<le> fy'" using False by (auto simp: fx'_def fy'_def Let_def)
  show ?thesis
    using False unfolding sdf_sample_def Let_def fx'_def [unfolded Let_def, symmetric] fy'_def [unfolded Let_def, symmetric]
    by (simp only: if_False) (intro mix_range fr z px; use mix_range [OF px px fr [OF z(1)]] in blast)
qed (simp add: sdf_sample_def)

lemma glyph_alpha_range:
  assumes "0 \<le> v" "v \<le> 255"
  shows "0 \<le> glyph_alpha kind v \<and> glyph_alpha kind v \<le> 1"
  using assms smoothstep_range [of "FONT_ONEDGE - FONT_SMOOTH" "FONT_ONEDGE + FONT_SMOOTH" v]
  by (cases kind) (auto simp: glyph_alpha_def Let_def)

lemma recompose_opaque:
  "0xff000000 OR push_bit 16 (drop_bit 16 c AND 0xff) OR push_bit 8 (drop_bit 8 c AND 0xff) OR (c AND 0xff) = c OR 0xff000000" for c :: u32
proof -
  have ff: "bit (0xff :: u32) n \<longleftrightarrow> n < 8" for n
  proof -
    have "(0xff :: u32) = mask 8" by (simp add: mask_eq_exp_minus_1)
    then show ?thesis by (simp only: bit_mask_iff possible_bit_word) auto
  qed
  have hi: "bit (0xff000000 :: u32) n \<longleftrightarrow> 24 \<le> n \<and> n < 32" for n
  proof -
    have "(0xff000000 :: u32) = push_bit 24 0xff" by simp
    then show ?thesis by (simp only: bit_push_bit_iff ff possible_bit_word) auto
  qed
  show ?thesis
    by (rule bit_eqI, unfold bit_or_iff bit_push_bit_iff bit_and_iff bit_drop_bit_eq o_def ff hi possible_bit_word,
        rename_tac n, case_tac "n < 8"; case_tac "n < 16"; case_tac "n < 24") auto
qed

text \<open>A glyph pixel is blended like any other: for every sample the coverage is a fraction, and the
  pixel becomes what the compositor's masked copy of the text colour with that coverage, scaled to 255
  and rounded, would make it.\<close>

theorem glyph_pixel_blend:
  defines "cov \<equiv> \<lambda>kind d w h fx fy. glyph_alpha kind (sdf_sample d w h fx fy)"
  shows "blend_font_px fg (cov kind d w h fx fy) p =
      copy_masked_px p fg (word_of_int \<lfloor>cov kind d w h fx fy * 255 + 1 / 2\<rfloor>) \<and>
    0 \<le> cov kind d w h fx fy \<and> cov kind d w h fx fy \<le> 1"
proof -
  define a where "a = cov kind d w h fx fy"
  have a: "0 \<le> a" "a \<le> 1" using glyph_alpha_range sdf_sample_range unfolding a_def cov_def by blast+
  let ?n = "\<lfloor>a * 255 + 1 / 2\<rfloor>"
  have c: "c_int (a * 255 + 1 / 2) = ?n" using a by (simp add: c_int_def)
  have n: "0 \<le> ?n" "?n \<le> 255" using a by (simp_all add: le_floor_iff floor_le_iff)
  let ?sa = "word_of_int ?n :: u32"
  have "unat ?sa = nat ?n" using n by (simp add: unsigned_of_int take_bit_int_eq_self)
  then have le: "unat ?sa \<le> 255" using n(2) by linarith
  then have s: "?sa \<ge> 255 \<longleftrightarrow> ?sa = 255" by (auto simp: word_le_nat_alt word_unat_eq_iff)
  have "blend_font_px fg a p = copy_masked_px p fg ?sa"
    unfolding blend_font_px_def Let_def c s copy_masked_px_def blend_px_def recompose_opaque opaque_px_def by simp
  then show ?thesis using a by (simp add: a_def)
qed

section \<open>A string drawn\<close>

definition example_stb :: stb where
  "example_stb =
     \<lparr>InitFont = \<lambda>_. True, FindGlyphIndex = \<lambda>_ _. 1, GetCodepointSDF = \<lambda>_ _ _. None,
      GetCodepointBitmap = \<lambda>_ _ _. Some ([255], 1, 1, 0, 0), GetCodepointKernAdvance = \<lambda>_ _ _. 0,
      GetGlyphHMetrics = \<lambda>_ _. 1, GetFontVMetrics = (0, 0, 0), ScaleForPixelHeight = \<lambda>_. 1\<rparr>"

definition example_font :: font where
  "example_font = snd (font_init example_stb \<lparr>g_ok = False, g_scale = 0, g_cache = []\<rparr>)"

lemma example_font_ok: "cache_coherent example_stb scale (g_cache example_font)" "g_ok example_font"
  using init_coherent by (simp_all add: example_font_def) (simp add: font_init_def example_stb_def)

lemma font_draw_uncached_witness:
  "font_draw_utf8 example_stb 8192 0 0 (Some [0x41]) 0xFFFFFFFF (example_font, example_gfx) \<noteq> None"
  using font_draw_uncached [OF example_font_ok(1) _ example_font_ok(2), of "[0x41]" 8192 0 0 "0xFFFFFFFF" example_gfx]
  by (auto simp: Let_def case_prod_beta)

lemma font_draw_marks_witness:
  "\<exists>adv f' g'. font_draw_utf8 example_stb 8192 0 0 (Some [0x41]) 0xFFFFFFFF (example_font, example_gfx) = Some (adv, f', g') \<and>
     surf_ok (surf g' 8192)"
proof -
  obtain asc line_px where m: "line_metrics example_stb example_font = (asc, line_px)" by fastforce
  let ?q = "\<lparr>p_x = of_int 0, p_baseline = 0 + asc, p_prev_cp = -1, p_prev_fid = -1, p_bb = None\<rparr>"
  obtain r where "draw_loop example_stb 0 line_px 0xFFFFFFFF [0x41] (?q, surf example_gfx 8192, example_font) = Some r"
    using draw_loop_plain [OF example_font_ok(1), of "[0x41]"] by fastforce
  then obtain adv f' g' where
    d: "font_draw_utf8 example_stb 8192 0 0 (Some [0x41]) 0xFFFFFFFF (example_font, example_gfx) = Some (adv, f', g')"
    using example_font_ok(2) by (cases r) (simp add: font_draw_utf8_def m Let_def)
  have s: "surf_ok (surf example_gfx 8192)" using example_surface_ok by (simp add: example_gfx_def)
  have "surf_ok (surf g' 8192)" using font_draw_marks [OF example_font_ok(1) _ example_font_ok(2) _ s d] by simp
  with d show ?thesis by blast
qed

end
