(* ===== verification/Spec2Isabelle.thy ===== *)
theory Spec2Isabelle
  imports Syscall Tar WindowManager Anim Gradient Cursor UiTheme PathRaster Acpi VirtioTablet TrbRing UsbConfig Interrupts I2c Font
begin

text \<open>
  Verification of the SimpleOS kernel (\<^verbatim>\<open>src/\<close>): a small x86-64 kernel with paging, a heap, threads, a read-only file system,
  system calls, and a software compositor with windows and a mouse pointer.

  \<^bold>\<open>The program.\<close> The boot loader hands over a memory map, an initrd and a framebuffer.  The page allocator takes the usable
  frames, the page tables map them, the heap grows on mapped pages and everything else allocates from the heap: thread
  stacks, file system nodes, surfaces.  The initrd is a tar archive that becomes the node tree.  User threads enter the
  kernel through the system call dispatcher.  Interrupt handlers feed the keyboard ring and the pointer.  Clients own
  surfaces; the compositor thread collects what changed since the last frame, composes the changed pixels on all processors
  and publishes them to the scan-out.  The window manager places surfaces, keeps the focus and tells the input routing.

  \<^bold>\<open>Theories.\<close> Each models one part, with a record for its state and one definition per function of the source; C integers are
  words where wrap-around matters and \<open>nat\<close> or \<open>int\<close> otherwise, pointers are addresses (0 is \<^verbatim>\<open>NULL\<close>), a call that can panic
  returns a \<open>result\<close>, and one whose loop might not end an \<open>option\<close> around it.

  \<^item> \<open>Prelude\<close>: types, \<open>inv_intros\<close>, lemmas on lists, words and folds.
  \<^item> \<open>PhysMem\<close>, \<open>Pmm\<close> (\<^verbatim>\<open>mm/pmm.c\<close>): physical memory and the page bitmap.  Allocation hands out a zeroed free frame, never one in use;
    contiguous allocation is first fit.
  \<^item> \<open>Vmm\<close> (\<^verbatim>\<open>mm/vmm.c\<close>): the four-level walk over tables in physical memory.  Mapping makes exactly one page translate to the
    frame; unmapping makes it unmapped.
  \<^item> \<open>Heap\<close> (\<^verbatim>\<open>mm/heap.c\<close>): block list with split, coalescing and growth, shown to refine an abstract allocator (locale
    \<open>allocator\<close>, interpreted as \<open>kheap\<close>).
  \<^item> \<open>Thread\<close> (\<^verbatim>\<open>sched/\<close>): run queue as a ring, context switch on modelled stacks, creation, exit.
  \<^item> \<open>Vfs\<close>, \<open>Tar\<close> (\<^verbatim>\<open>fs/\<close>): lookup against an abstract path resolution, read, the tar walk.
  \<^item> \<open>Keyboard\<close>, \<open>Mouse\<close> (\<^verbatim>\<open>drivers/keyboard.c\<close>, \<^verbatim>\<open>mouse.c\<close>, \<^verbatim>\<open>hid_boot_parse.c\<close>): scan codes, the lock-free ring under
    interleaving, packet assembly, pointer position.
  \<^item> \<open>Kprintf\<close> (\<^verbatim>\<open>kprintf.c\<close>): the format interpreter against a relation that says what text a conversion stands for (positional
    digits, sign, padding), defined without the code's digit buffer.
  \<^item> \<open>Syscall\<close> (\<^verbatim>\<open>arch/x86_64/syscall.c\<close>): dispatcher and handlers over threads, files, keyboard and serial line, with what they print.
    The handlers store through the caller's pointer without a check: the addresses of kernel objects are a parameter (\<open>kobj\<close>), and
    a store that meets one ends in the outcome \<open>Corrupts\<close>.  Without such a buffer a call changes no other thread's descriptors, no
    node and no memory outside the buffer.
  \<^item> \<open>Damage\<close> (\<^verbatim>\<open>compositor/rect.h\<close>, \<^verbatim>\<open>damage.c\<close>): rectangles as sets of pixels, the bounded damage list (locale \<open>accumulator\<close>).
  \<^item> \<open>Pixel\<close>, \<open>BlitSimd\<close>, \<open>Blit\<close> (\<^verbatim>\<open>blit.c\<close>, \<^verbatim>\<open>blit_simd.c\<close>): corner masks, scalar and vector row kernels and their equality, the four
    blits as functions on pixel colours.
  \<^item> \<open>Surface\<close>, \<open>Parallel\<close>, \<open>Display\<close>, \<open>Compositor\<close> (\<^verbatim>\<open>surface.c\<close>, \<^verbatim>\<open>parallel.c\<close>, \<^verbatim>\<open>gpu/display.c\<close>, \<^verbatim>\<open>compositor.c\<close>): surfaces and
    dirty regions; bands claimed by processors in any order compose the same picture; publishing copies exactly the damage;
    an incremental frame equals a full repaint after every run of operations (\<open>desk_step\<close>).
  \<^item> \<open>DisplayPolicy\<close> (\<^verbatim>\<open>gpu/display_policy.c\<close>): the configuration reader with its pointer arithmetic, and the derived rates.
  \<^item> \<open>DisplayServer\<close>, \<open>InputRouting\<close>, \<open>WindowManager\<close> (\<^verbatim>\<open>gpu/display_server.c\<close>, \<^verbatim>\<open>input/\<close>, \<^verbatim>\<open>wm/\<close>): the client interface (locale
    \<open>surface_host\<close>), the drag state machine, the window table, focus, desktops, snapping, and runs of all of them with frames in between
    (\<open>wm_step\<close>).
  \<^item> \<open>Anim\<close>, \<open>Gradient\<close>, \<open>Cursor\<close> (\<^verbatim>\<open>anim.c\<close>, \<^verbatim>\<open>gradient.c\<close>, \<^verbatim>\<open>cursor.c\<close>): fixed-point easings end exactly on their target, the
    parameter search of cubic-bezier curves finds the crossing, interpolated colours stay between their ends, the cursor is
    drawn last with its hot spot at the pointer.
  \<^item> \<open>Path\<close>, \<open>PathRaster\<close> (\<^verbatim>\<open>path.c\<close>, \<^verbatim>\<open>path_raster.c\<close>): curves are flattened inside the square of their control points; a filled path covers
    each pixel by the share of its samples with a non-zero winding number, in exact arithmetic over the reals; a stroke changes only
    pixels near the path.
  \<^item> \<open>Font\<close>, \<open>Utf8\<close>, \<open>FontMath\<close> (\<^verbatim>\<open>compositor/font.c\<close>): strings are decoded without reading past their end; the glyph cache never changes what
    is drawn; every pixel drawn is marked for repainting and blended as the compositor does.  The vendored rasteriser is a parameter, single
    precision is modelled by the reals.
  \<^item> \<open>UiTheme\<close> (\<^verbatim>\<open>ui/ui_theme.c\<close>): design tokens from compiled palettes and from TOML or JSON files.  No file makes a store leave its table,
    and radii, spacings and durations stay in their ranges; a colour line sets the token it names and no other; colours survive printing and reading.
  \<^item> \<open>Pci\<close>, \<open>Acpi\<close>, \<open>Bytes\<close> (\<^verbatim>\<open>pci/pci.c\<close>, \<^verbatim>\<open>arch/x86_64/acpi.c\<close>): the bus walk lists exactly the functions that answer and leaves their registers
    as they were; base address registers are decoded to address and size; the firmware tables are mapped with the page-table code of \<open>Vmm\<close>
    and read to the end, and what the MADT lists is what is recorded.
  \<^item> \<open>VirtioTablet\<close> (\<^verbatim>\<open>drivers/virtio_tablet.c\<close>): capabilities, negotiation, the virtqueue; a poll drains the used ring in
    order and hands the buffers back, and no run of polls and device activity loses a buffer.  The device is a parameter, the memory
    after each register store, assumed to keep the ownership rules of a virtqueue (\<open>ring_step\<close>).
  \<^item> \<open>TrbRing\<close>, \<open>UsbConfig\<close> (\<^verbatim>\<open>drivers/usb_xhci_mouse.c\<close>, in part): a command or transfer ring is a queue of 62 blocks for a controller that
    follows cycle bits and links (locale \<open>posted_queue\<close>); the configuration of a device is searched without leaving its descriptors
    and the first boot mouse is preferred.
  \<^item> \<open>I2c\<close> (\<^verbatim>\<open>drivers/i2c_dw.c\<close>, \<^verbatim>\<open>i2c_hid_mouse.c\<close>): the bus transfers with every time-out, and the touchpad driver over them.  A transfer
    writes exactly the commands it means to, in order, and switches the controller off; the driver's buffer bounds hold whatever the
    bus answers.  The controller is a parameter, a function of the register accesses.
  \<^item> \<open>Processor\<close>, \<open>Interrupts\<close> (\<^verbatim>\<open>arch/x86_64/\<close>): segment and gate descriptors decode to what was meant, the timer count stays in its range,
    interrupt lines are routed to their own entry, vector features are advertised only when enabled; the dispatcher acknowledges each
    device interrupt once and before it switches threads.

  \<^bold>\<open>Termination and bounds.\<close> Loops that follow pointers in memory (heap blocks, run queue, tar records, node children, capability
  lists, firmware tables) are partial functions whose value is \<open>None\<close> when they do not end; the theorems state that they return
  under the well-formedness invariant.  All other loops are total functions with a measure.  Frames are related to full
  repaints as long as the damage list of 16 rectangles does not overflow, and a partial dirty mark does not follow a full one;
  both limits are shown to be real (\<open>damage_add_overflow_loses\<close>, \<open>mark_dirty_rect_after_clear\<close>).  Screen and surface coordinates
  are unbounded integers; sizes are at most 16384.  Statistics counters are unbounded.

  \<^bold>\<open>Not modelled.\<close> Bring-up, enumeration and event polling of the xHCI driver, which run in step with the controller; the boot order
  (\<^verbatim>\<open>kmain.c\<close>), the requests to the boot loader and the start of the other processors; instructions that load a table or a control
  register.  The vendored TrueType rasteriser.  Desktop artwork.  Delays; log messages except those of the system calls.
  Memory reads of firmware tables and device registers do not fault.  Interrupt masking and store fences appear only where a theorem is about interleaving (keyboard ring, composition workers).
\<close>

text \<open>C13: The composition of all layers.  Take a run of window manager calls, client drawing and frames from a desktop that
  satisfies the compositor invariant, where (1) every frame of the run and the one after it has at most 16 damage requests,
  (2) a client draws with a partial mark only into a surface that is clean or already partially marked, (3) a window is
  registered only with a fresh surface that no other window has, and (4) one is unregistered only while the carry list has a free
  entry.  Then the next frame leaves back buffer and scan-out with the colours of the whole scene.\<close>

theorem shell_frame_repaints:
  assumes "desk_inv k" "length (g_slots w) = WM_MAX_WINDOWS" "(wm_step cpu online vb)\<^sup>*\<^sup>* (shell_start k w r) sh"
    and "length (frame_requests (frame_screen (ddisp (sdesk sh))) (surf (dgfx (sdesk sh))) (dcomp (sdesk sh))) \<le> DAMAGE_MAX_RECTS"
  shows "repainted (compositor_frame cpu online vb (args_bg (dcomp (sdesk sh))) (sdesk sh))"
  using frame_repaints_inv [OF shell_run_desk [OF assms(1-3)] assms(4) refl] by blast

lemma example_shell_fits:
  "length (frame_requests (frame_screen (ddisp (sdesk example_shell))) (surf (dgfx (sdesk example_shell))) (dcomp (sdesk example_shell)))
     \<le> DAMAGE_MAX_RECTS"
proof -
  have "length (surface_requests (surf (dgfx (sdesk example_shell)) 8192)) \<le> 2" by (simp add: surface_requests_def)
  moreover have "slots (dcomp (sdesk example_shell)) = [8192]" "carry_damage (dcomp (sdesk example_shell)) = []"
    by (simp_all add: example_shell_comp)
  ultimately show ?thesis by (simp add: frame_requests_def)
qed

theorem shell_frame_repaints_witness:
  "repainted (compositor_frame example_cpu 4 False (args_bg (dcomp (sdesk example_shell))) (sdesk example_shell))"
proof -
  have "length (g_slots example_wm) = WM_MAX_WINDOWS" by (simp add: example_wm_def)
  from shell_frame_repaints [OF example_desk_start_inv this example_shell_run example_shell_fits] show ?thesis .
qed

text \<open>The frame time the compositor thread passes to the animations keeps every easing step inside the integer range.\<close>

lemma frame_step_bounded:
  assumes "4 \<le> hz" "0 < dur"
  shows "0 \<le> fx_div (tsc_elapsed_to_dt delta hz) dur \<and> fx_div (tsc_elapsed_to_dt delta hz) dur \<le> 2 ^ 30"
proof -
  let ?dt = "tsc_elapsed_to_dt delta hz"
  have dt: "0 \<le> ?dt" "?dt \<le> 16384" using dt_capped [OF assms(1)] by simp_all
  have "?dt * 65536 div dur \<le> ?dt * 65536" using zdiv_mono2 [of "?dt * 65536" 1 dur] dt assms(2) by simp
  then have le: "?dt * 65536 div dur \<le> 2 ^ 30" using dt by simp
  have ge: "0 \<le> ?dt * 65536 div dur" using dt assms(2) by (simp add: pos_imp_zdiv_nonneg_iff)
  have "(?dt * 65536) sdiv dur = ?dt * 65536 div dur" using dt assms(2) by (simp add: signed_divide_int_def sgn_if)
  then have "fx_div ?dt dur = ?dt * 65536 div dur" using le ge assms(2) by (simp add: fx_div_def)
  with le ge show ?thesis by simp
qed

end
